(* ===== verification/Value_Types.thy ===== *)
theory Value_Types
  imports Prelude
begin

text \<open>
  The wire structs of \<^verbatim>\<open>value/types.py\<close> and the parts of \<^verbatim>\<open>configs/value.py\<close> that the
  critic's data path reads, with the configuration checks that run before a component is
  built. Field names carry a prefix per struct because record selectors share one name
  space.
\<close>

section \<open>Wire structs\<close>

record ValueTrainingSample =
  vts_token_ids :: "int list"
  vts_mask :: "bool list"
  vts_targets :: "real list"

record ValueTrainingRollout =
  vtr_samples :: "ValueTrainingSample list"
  vtr_rollout_id :: int
  vtr_policy_version :: int
  vtr_value_version :: int

record ValueTrainingBatch =
  vtb_samples :: "ValueTrainingSample list"
  vtb_num_rollouts :: int
  vtb_rollout_id_min :: int
  vtb_rollout_id_max :: int
  vtb_policy_version_min :: int
  vtb_policy_version_max :: int
  vtb_value_version_min :: int
  vtb_value_version_max :: int
  vtb_replay_attempt_min :: int
  vtb_replay_attempt_max :: int
  vtb_replay_attempt_mean :: real

record ValueEvaluationRequest =
  ver_token_ids :: "int list list"

record ValueEvaluationResponse =
  vresp_values :: "real list list"
  vresp_version :: int

text \<open>\<open>sum(len(sample.token_ids) for sample in rollout.samples)\<close>\<close>

definition rollout_tokens :: "ValueTrainingRollout \<Rightarrow> int" where
  "rollout_tokens r = sum_list (map (\<lambda>s. int (length (vts_token_ids s))) (vtr_samples r))"

lemma rollout_tokens_nonneg [simp]: "0 \<le> rollout_tokens r"
  by (simp add: rollout_tokens_def sum_list_nonneg_int)

section \<open>Replay configuration\<close>

record ValueReplayConfig =
  vrc_max_updates_per_rollout :: int
  vrc_capacity :: "int option"
  vrc_refill_size :: "int option"
  vrc_seed :: int

text \<open>The declared field bounds (\<open>ge=1\<close>), checked when the config is parsed.\<close>

definition ValueReplayConfig_fields_ok :: "ValueReplayConfig \<Rightarrow> bool" where
  "ValueReplayConfig_fields_ok c \<longleftrightarrow>
     1 \<le> vrc_max_updates_per_rollout c \<and>
     (case vrc_capacity c of None \<Rightarrow> True | Some n \<Rightarrow> 1 \<le> n) \<and>
     (case vrc_refill_size c of None \<Rightarrow> True | Some n \<Rightarrow> 1 \<le> n)"

definition resolved_capacity :: "ValueReplayConfig \<Rightarrow> int result" where
  "resolved_capacity c =
     (case vrc_capacity c of
        None \<Rightarrow> Raise (ValueError ''value_function.replay.capacity has not been resolved'')
      | Some n \<Rightarrow> Ok n)"

definition resolved_refill_size :: "ValueReplayConfig \<Rightarrow> int result" where
  "resolved_refill_size c =
     (case vrc_refill_size c of
        None \<Rightarrow> Raise (ValueError ''value_function.replay.refill_size has not been resolved'')
      | Some n \<Rightarrow> Ok n)"

definition ValueReplayConfig_resolve :: "ValueReplayConfig \<Rightarrow> int \<Rightarrow> ValueReplayConfig result" where
  "ValueReplayConfig_resolve c batch_size =
     (let capacity = (case vrc_capacity c of
                        None \<Rightarrow> vrc_max_updates_per_rollout c * batch_size
                      | Some n \<Rightarrow> n);
          refill = (case vrc_refill_size c of None \<Rightarrow> capacity | Some n \<Rightarrow> n)
      in raise_if (capacity < batch_size)
           (ValueError ''value_function.replay.capacity must be at least value_function.batch_size'')
           (raise_if (refill < batch_size)
             (ValueError ''value_function.replay.refill_size must be at least value_function.batch_size'')
             (raise_if (refill > capacity)
               (ValueError ''value_function.replay.refill_size cannot exceed value_function.replay.capacity'')
               (Ok (c\<lparr>vrc_capacity := Some capacity, vrc_refill_size := Some refill\<rparr>)))))"

section \<open>Transport and evaluator configuration\<close>

record ZMQValueTransportConfig =
  ztc_port :: int
  ztc_poll_timeout_ms :: int
  ztc_max_pending_rollouts :: int

datatype placement = Dedicated | TrainerPlaced

record ValueEvaluatorConfig =
  vec_placement :: placement
  vec_base_url :: "string list"
  vec_port :: int
  vec_max_batch_tokens :: int
  vec_batch_wait_ms :: real
  vec_max_concurrency :: int
  vec_max_pending_requests :: int
  vec_max_pending_tokens :: int
  vec_request_timeout :: real

record NCCLValueWeightBroadcastConfig =
  wbc_port :: int
  wbc_control_port :: int
  wbc_evaluator_world_size :: int

text \<open>
  \<open>validate_initial_scope\<close>. URL parsing belongs to the standard library: \<open>urlparse\<close>
  is a parameter that gives the host name and the port, each when present.
\<close>

fun check_endpoints ::
  "(string \<Rightarrow> string option \<times> int option) \<Rightarrow> int set \<Rightarrow> bool \<Rightarrow> (string \<times> int) set \<Rightarrow> string list \<Rightarrow> unit result"
where
  "check_endpoints urlparse reserved dedicated seen [] = Ok ()"
| "check_endpoints urlparse reserved dedicated seen (endpoint # rest) =
     (case urlparse endpoint of
        (Some host, Some port) \<Rightarrow>
          raise_if ((host, port) \<in> seen) (ValueError ''duplicate value evaluator endpoint'')
            (raise_if (host \<in> {''localhost'', ''127.0.0.1'', ''0.0.0.0'', ''::1''} \<and> port \<in> reserved)
               (ValueError ''local value evaluator port conflicts'')
               (check_endpoints urlparse reserved dedicated (insert (host, port) seen) rest))
      | _ \<Rightarrow> Raise (ValueError ''value evaluator base_url must include a host and explicit port''))"

definition validate_ports ::
  "ZMQValueTransportConfig \<Rightarrow> ValueEvaluatorConfig \<Rightarrow> NCCLValueWeightBroadcastConfig \<Rightarrow> unit result" where
  "validate_ports t e w =
     (let ports = [ztc_port t, vec_port e] @
                  (if vec_placement e = Dedicated then [wbc_port w, wbc_control_port w] else [])
      in raise_if (card (set ports) \<noteq> length ports)
           (ValueError (if vec_placement e = Dedicated
              then ''value transport, weight, weight-control, and evaluator ports must be distinct''
              else ''value transport and evaluator ports must be distinct''))
           (Ok ()))"

definition validate_evaluator_topology ::
  "(string \<Rightarrow> string option \<times> int option) \<Rightarrow> ZMQValueTransportConfig \<Rightarrow> ValueEvaluatorConfig \<Rightarrow>
   NCCLValueWeightBroadcastConfig \<Rightarrow> unit result" where
  "validate_evaluator_topology urlparse t e w =
     (let dedicated = (vec_placement e = Dedicated);
          reserved = insert (ztc_port t) (if dedicated then {wbc_port w, wbc_control_port w} else {})
      in bindE (check_endpoints urlparse reserved dedicated {} (vec_base_url e)) (\<lambda>_.
         if dedicated then
           raise_if (int (length (vec_base_url e)) \<noteq> wbc_evaluator_world_size w)
             (ValueError ''value_function.evaluator.base_url count must equal value_function.weight_broadcast.evaluator_world_size'')
             (Ok ())
         else
           raise_if (length (vec_base_url e) \<noteq> 1)
             (ValueError ''trainer-placed value evaluation requires exactly one evaluator base_url'')
             (raise_if (snd (urlparse (hd (vec_base_url e))) \<noteq> Some (vec_port e))
               (ValueError ''trainer-placed evaluator base_url port must equal value_function.evaluator.port'')
               (raise_if (wbc_evaluator_world_size w \<noteq> 1)
                 (ValueError ''trainer-placed value evaluation supports exactly one evaluator endpoint'')
                 (Ok ())))))"

text \<open>The fields of the model config that the value code looks at.\<close>

record ModelConfig =
  mc_seq_len :: int
  mc_lora :: bool
  mc_vlm :: bool
  mc_cp :: int
  mc_ep :: int
  mc_dp_replicate :: int
  mc_fsdp_cpu_offload :: bool
  mc_fp8 :: bool
  mc_ep_comm_torch :: bool

definition validate_value_model_capabilities :: "ModelConfig \<Rightarrow> unit result" where
  "validate_value_model_capabilities m =
     raise_if (mc_lora m) (ValueError ''value functions do not support LoRA yet'')
       (raise_if (mc_vlm m) (ValueError ''value functions do not support VLM training yet'')
         (raise_if (mc_cp m \<noteq> 1) (ValueError ''value functions do not support context parallelism yet'')
           (Ok ())))"

definition validate_initial_scope ::
  "(string \<Rightarrow> string option \<times> int option) \<Rightarrow> int option \<Rightarrow> ValueReplayConfig \<Rightarrow> int option \<Rightarrow> int \<Rightarrow>
   ZMQValueTransportConfig \<Rightarrow> ValueEvaluatorConfig \<Rightarrow> NCCLValueWeightBroadcastConfig \<Rightarrow> ModelConfig option \<Rightarrow>
   ValueReplayConfig result"
where
  "validate_initial_scope urlparse batch_size replay max_steps warmup_updates t e w model =
     bindE (case batch_size of None \<Rightarrow> Ok replay | Some b \<Rightarrow> ValueReplayConfig_resolve replay b) (\<lambda>replay'.
       raise_if (case max_steps of None \<Rightarrow> False | Some m \<Rightarrow> warmup_updates > m)
         (ValueError ''value_function.warmup_updates cannot exceed value_function.max_steps'')
         (bindE (validate_ports t e w) (\<lambda>_.
          bindE (validate_evaluator_topology urlparse t e w) (\<lambda>_.
          bindE (case model of None \<Rightarrow> Ok () | Some m \<Rightarrow> validate_value_model_capabilities m) (\<lambda>_.
          Ok replay')))))"

section \<open>What a successful validation promises\<close>

lemma resolve_bounds:
  assumes "ValueReplayConfig_resolve c b = Ok c'"
  obtains cap refill where "vrc_capacity c' = Some cap" "vrc_refill_size c' = Some refill"
    "b \<le> refill" "refill \<le> cap"
    "vrc_max_updates_per_rollout c' = vrc_max_updates_per_rollout c"
  using assms by (auto simp: ValueReplayConfig_resolve_def Let_def raise_if_def split: if_splits)

text \<open>Resolution without explicit sizes never fails: the default capacity is large enough.\<close>

lemma resolve_defaults_ok:
  assumes "1 \<le> vrc_max_updates_per_rollout c" "1 \<le> b"
    and "vrc_capacity c = None" "vrc_refill_size c = None"
  shows "ValueReplayConfig_resolve c b =
    Ok (c\<lparr>vrc_capacity := Some (vrc_max_updates_per_rollout c * b),
          vrc_refill_size := Some (vrc_max_updates_per_rollout c * b)\<rparr>)"
proof -
  have "1 * b \<le> vrc_max_updates_per_rollout c * b"
    using assms(1,2) by (intro mult_right_mono) auto
  then show ?thesis
    using assms by (simp add: ValueReplayConfig_resolve_def Let_def raise_if_def)
qed

lemma resolve_idempotent:
  assumes "ValueReplayConfig_resolve c b = Ok c'"
  shows "ValueReplayConfig_resolve c' b = Ok c'"
  using assms
  by (auto simp: ValueReplayConfig_resolve_def Let_def raise_if_def split: if_splits)

text \<open>Endpoints that pass are pairwise distinct and keep off the locally reserved ports.\<close>

lemma check_endpoints_sound:
  assumes "check_endpoints urlparse reserved d seen us = Ok ()"
  shows "distinct (map urlparse us) \<and>
    (\<forall>u\<in>set us. \<exists>h p. urlparse u = (Some h, Some p) \<and> (h, p) \<notin> seen \<and>
       (h \<in> {''localhost'', ''127.0.0.1'', ''0.0.0.0'', ''::1''} \<longrightarrow> p \<notin> reserved))"
  using assms
proof (induction us arbitrary: seen)
  case Nil
  then show ?case by simp
next
  case (Cons u us)
  obtain h p where u: "urlparse u = (Some h, Some p)"
    using Cons.prems by (cases "urlparse u") (auto split: option.splits)
  have guard: "(h, p) \<notin> seen"
    "h \<in> {''localhost'', ''127.0.0.1'', ''0.0.0.0'', ''::1''} \<longrightarrow> p \<notin> reserved"
    and rest: "check_endpoints urlparse reserved d (insert (h, p) seen) us = Ok ()"
    using Cons.prems u by (auto simp: raise_if_def split: if_splits)
  have IH: "distinct (map urlparse us)"
    "\<And>v. v \<in> set us \<Longrightarrow> \<exists>h' p'. urlparse v = (Some h', Some p') \<and> (h', p') \<notin> insert (h, p) seen \<and>
       (h' \<in> {''localhost'', ''127.0.0.1'', ''0.0.0.0'', ''::1''} \<longrightarrow> p' \<notin> reserved)"
    using Cons.IH[OF rest] by blast+
  have "urlparse u \<notin> urlparse ` set us"
    using IH(2) u by fastforce
  moreover have "\<forall>v\<in>set us. \<exists>h' p'. urlparse v = (Some h', Some p') \<and> (h', p') \<notin> seen \<and>
       (h' \<in> {''localhost'', ''127.0.0.1'', ''0.0.0.0'', ''::1''} \<longrightarrow> p' \<notin> reserved)"
    using IH(2) by blast
  ultimately show ?case
    using IH(1) u guard by simp
qed

lemma validate_ports_distinct:
  assumes "validate_ports t e w = Ok ()" "vec_placement e = Dedicated"
  shows "distinct [ztc_port t, vec_port e, wbc_port w, wbc_control_port w]"
proof -
  have "card (set [ztc_port t, vec_port e, wbc_port w, wbc_control_port w]) = 4"
    using assms by (auto simp: validate_ports_def Let_def raise_if_def split: if_splits)
  then show ?thesis
    by (intro card_distinct) simp
qed

end
