(* ===== verification/Drop_Oldest.thy ===== *)
theory Drop_Oldest
  imports Prelude
begin

text \<open>
  The contract shared by the bounded containers of the value pipeline (the producer's
  waiting queue and the replay buffer): a push never fails on a good element, keeps the
  capacity, and replaces the oldest element when the container is full. Its consequence
  for a whole stream of pushes is proved once, in the locale.
\<close>

fun push_all :: "('a \<Rightarrow> 'q \<Rightarrow> 'q result) \<Rightarrow> 'a list \<Rightarrow> 'q \<Rightarrow> 'q result" where
  "push_all push [] q = Ok q"
| "push_all push (x # xs) q = bindE (push x q) (push_all push xs)"

text \<open>The most recent \<open>n\<close> elements of a stream.\<close>

definition last_n :: "nat \<Rightarrow> 'a list \<Rightarrow> 'a list" where
  "last_n n xs = drop (length xs - n) xs"

lemma last_n_append_last:
  assumes "0 < n" "length xs \<le> n"
  shows "last_n n (xs @ [x]) = (if length xs = n then tl xs else xs) @ [x]"
  using assms by (auto simp: last_n_def drop_Suc)

lemma last_n_last_n_append: "last_n n (last_n n xs @ ys) = last_n n (xs @ ys)"
  by (cases "length xs \<le> n") (auto simp: last_n_def add.commute)

lemma last_n_all: "length xs \<le> n \<Longrightarrow> last_n n xs = xs"
  by (simp add: last_n_def)

lemma length_last_n: "length (last_n n xs) = min n (length xs)"
  by (simp add: last_n_def)

lemma last_n_subseq: "subseq (last_n n xs) xs"
  unfolding last_n_def by (rule suffix_imp_subseq[OF suffix_drop])

locale drop_oldest =
  fixes push :: "'a \<Rightarrow> 'q \<Rightarrow> 'q result"
    and contents :: "'q \<Rightarrow> 'a list"
    and cap :: "'q \<Rightarrow> nat"
    and inv :: "'q \<Rightarrow> bool"
    and good :: "'a \<Rightarrow> bool"
  assumes push_ok: "inv q \<Longrightarrow> good x \<Longrightarrow> \<exists>q'. push x q = Ok q'"
    and push_inv: "inv q \<Longrightarrow> push x q = Ok q' \<Longrightarrow> inv q'"
    and push_cap: "inv q \<Longrightarrow> push x q = Ok q' \<Longrightarrow> cap q' = cap q"
    and push_contents: "inv q \<Longrightarrow> push x q = Ok q' \<Longrightarrow>
      contents q' = (if length (contents q) = cap q then tl (contents q) else contents q) @ [x]"
    and cap_pos: "inv q \<Longrightarrow> 0 < cap q"
    and within_cap: "inv q \<Longrightarrow> length (contents q) \<le> cap q"
begin

lemma push_last_n:
  assumes "inv q" "push x q = Ok q'"
  shows "contents q' = last_n (cap q) (contents q @ [x])"
  using push_contents[OF assms] last_n_append_last[OF cap_pos within_cap] assms(1) by metis

text \<open>After any stream of good pushes the container holds exactly its most recent elements.\<close>

lemma push_all_last_n:
  assumes "inv q" "\<forall>x\<in>set xs. good x"
  shows "\<exists>q'. push_all push xs q = Ok q' \<and> inv q' \<and> cap q' = cap q \<and>
    contents q' = last_n (cap q) (contents q @ xs)"
  using assms
proof (induction xs arbitrary: q)
  case Nil
  then show ?case by (simp add: last_n_all within_cap)
next
  case (Cons x xs)
  obtain q1 where q1: "push x q = Ok q1"
    using push_ok[OF Cons.prems(1), of x] Cons.prems(2) by auto
  note i1 = push_inv[OF Cons.prems(1) q1] and c1 = push_cap[OF Cons.prems(1) q1]
    and p1 = push_last_n[OF Cons.prems(1) q1]
  obtain q2 where "push_all push xs q1 = Ok q2" "inv q2" "cap q2 = cap q1"
    "contents q2 = last_n (cap q1) (contents q1 @ xs)"
    using Cons.IH[OF i1] Cons.prems(2) by auto
  then show ?case
    using q1 c1 p1 last_n_last_n_append[of "cap q" "contents q @ [x]" xs] by auto
qed

lemma push_all_order: "inv q \<Longrightarrow> \<forall>x\<in>set xs. good x \<Longrightarrow> push_all push xs q = Ok q' \<Longrightarrow>
    subseq (contents q') (contents q @ xs)"
  using push_all_last_n last_n_subseq by (metis sum.inject(2))

end

end
