(* ===== verification/Value_Transport.thy ===== *)
theory Value_Transport
  imports Value_Types Drop_Oldest
begin

text \<open>
  \<^verbatim>\<open>value/transport.py\<close>: the bounded producer queue, the publisher with its responder
  task, and the receiver that pulls FIFO slices. The MsgPack codec is a parameter: \<open>enc\<close>
  and \<open>dec\<close> for rollouts, \<open>encR\<close> and \<open>decR\<close> for response headers. The asyncio
  responder is a state machine whose transitions are the code between two awaits, so that
  publications interleave with it wherever the event loop allows.
\<close>

type_synonym bytes = "int list"

section \<open>The drop-oldest queue\<close>

record EncodedRollout =
  er_payload :: bytes
  er_num_tokens :: int

record DropOldestRolloutQueue =
  dq_capacity :: int
  dq_items :: "EncodedRollout list"
  dq_num_bytes :: int
  dq_num_tokens :: int

definition DropOldestRolloutQueue_init :: "int \<Rightarrow> DropOldestRolloutQueue" where
  "DropOldestRolloutQueue_init capacity =
     \<lparr>dq_capacity = capacity, dq_items = [], dq_num_bytes = 0, dq_num_tokens = 0\<rparr>"

definition dq_len :: "DropOldestRolloutQueue \<Rightarrow> int" where
  "dq_len q = int (length (dq_items q))"

definition dq_popleft :: "DropOldestRolloutQueue \<Rightarrow> (EncodedRollout \<times> DropOldestRolloutQueue) result" where
  "dq_popleft q =
     (case dq_items q of
        [] \<Rightarrow> Raise IndexError
      | item # rest \<Rightarrow>
          Ok (item, q\<lparr>dq_items := rest,
                      dq_num_bytes := dq_num_bytes q - int (length (er_payload item)),
                      dq_num_tokens := dq_num_tokens q - er_num_tokens item\<rparr>))"

definition dq_append ::
  "EncodedRollout \<Rightarrow> DropOldestRolloutQueue \<Rightarrow> (EncodedRollout option \<times> DropOldestRolloutQueue) result" where
  "dq_append item q =
     bindE (if dq_len q = dq_capacity q
            then bindE (dq_popleft q) (\<lambda>(d, q1). Ok (Some d, q1))
            else Ok (None, q)) (\<lambda>(dropped, q1).
       Ok (dropped, q1\<lparr>dq_items := dq_items q1 @ [item],
                       dq_num_bytes := dq_num_bytes q1 + int (length (er_payload item)),
                       dq_num_tokens := dq_num_tokens q1 + er_num_tokens item\<rparr>))"

text \<open>\<open>for item in reversed(kept): appendleft(item)\<close>\<close>

fun appendleft_all :: "EncodedRollout list \<Rightarrow> DropOldestRolloutQueue \<Rightarrow> DropOldestRolloutQueue" where
  "appendleft_all [] q = q"
| "appendleft_all (item # rest) q =
     appendleft_all rest
       (q\<lparr>dq_items := item # dq_items q,
          dq_num_bytes := dq_num_bytes q + int (length (er_payload item)),
          dq_num_tokens := dq_num_tokens q + er_num_tokens item\<rparr>)"

text \<open>\<open>items[-keep:] if keep else []\<close>, with Python's meaning of a slice from \<open>-keep\<close>.\<close>

definition py_suffix :: "int \<Rightarrow> 'a list \<Rightarrow> 'a list" where
  "py_suffix keep xs =
     (if keep = 0 then []
      else if keep > 0 then drop (length xs - nat keep) xs
      else drop (nat (- keep)) xs)"

definition dq_restore_oldest ::
  "EncodedRollout list \<Rightarrow> DropOldestRolloutQueue \<Rightarrow> int \<times> DropOldestRolloutQueue" where
  "dq_restore_oldest items q =
     (let keep = min (int (length items)) (dq_capacity q - dq_len q)
      in (int (length items) - keep, appendleft_all (rev (py_suffix keep items)) q))"

definition dq_clear :: "DropOldestRolloutQueue \<Rightarrow> DropOldestRolloutQueue" where
  "dq_clear q = q\<lparr>dq_items := [], dq_num_bytes := 0, dq_num_tokens := 0\<rparr>"

text \<open>\<open>[queue.popleft() for _ in range(n)]\<close>\<close>

fun dq_pop_n :: "nat \<Rightarrow> DropOldestRolloutQueue \<Rightarrow> (EncodedRollout list \<times> DropOldestRolloutQueue) result" where
  "dq_pop_n 0 q = Ok ([], q)"
| "dq_pop_n (Suc n) q =
     bindE (dq_popleft q) (\<lambda>(item, q1). bindE (dq_pop_n n q1) (\<lambda>(items, q2). Ok (item # items, q2)))"

definition dq_inv :: "DropOldestRolloutQueue \<Rightarrow> bool" where
  "dq_inv q \<longleftrightarrow> 1 \<le> dq_capacity q \<and> dq_len q \<le> dq_capacity q \<and>
     dq_num_bytes q = sum_list (map (\<lambda>i. int (length (er_payload i))) (dq_items q)) \<and>
     dq_num_tokens q = sum_list (map er_num_tokens (dq_items q))"

lemma dq_init_inv: "1 \<le> cap \<Longrightarrow> dq_inv (DropOldestRolloutQueue_init cap)"
  by (simp add: dq_inv_def DropOldestRolloutQueue_init_def dq_len_def)

lemma dq_popleft_ok:
  "dq_items q = x # xs \<Longrightarrow> \<exists>q'. dq_popleft q = Ok (x, q') \<and> dq_items q' = xs \<and> dq_capacity q' = dq_capacity q"
  by (simp add: dq_popleft_def)

lemma dq_popleft_inv: "dq_inv q \<Longrightarrow> dq_popleft q = Ok (x, q') \<Longrightarrow> dq_inv q'"
  by (auto simp: dq_popleft_def dq_inv_def dq_len_def split: list.splits)

lemma dq_append_spec:
  assumes "dq_inv q"
  obtains dropped q' where "dq_append item q = Ok (dropped, q')" "dq_inv q'" "dq_capacity q' = dq_capacity q"
    "dq_items q' = (if dq_len q = dq_capacity q then tl (dq_items q) else dq_items q) @ [item]"
    "dropped = (if dq_len q = dq_capacity q then Some (hd (dq_items q)) else None)"
proof -
  have "dq_len q = dq_capacity q \<Longrightarrow> \<exists>x xs. dq_items q = x # xs"
    using assms by (cases "dq_items q") (auto simp: dq_inv_def dq_len_def)
  then have "\<exists>dropped q'. dq_append item q = Ok (dropped, q') \<and> dq_inv q' \<and> dq_capacity q' = dq_capacity q \<and>
    dq_items q' = (if dq_len q = dq_capacity q then tl (dq_items q) else dq_items q) @ [item] \<and>
    dropped = (if dq_len q = dq_capacity q then Some (hd (dq_items q)) else None)"
    using assms by (auto simp: dq_append_def dq_popleft_def dq_inv_def dq_len_def)
  then show thesis using that by blast
qed

lemma appendleft_all_fields:
  "dq_items (appendleft_all xs q) = rev xs @ dq_items q"
  "dq_capacity (appendleft_all xs q) = dq_capacity q"
  "dq_num_bytes (appendleft_all xs q) = dq_num_bytes q + sum_list (map (\<lambda>i. int (length (er_payload i))) xs)"
  "dq_num_tokens (appendleft_all xs q) = dq_num_tokens q + sum_list (map er_num_tokens xs)"
  by (induction xs q rule: appendleft_all.induct) auto

text \<open>Restoring a failed reply keeps the newest of its items in front, in order, within capacity.\<close>

lemma dq_restore_spec:
  assumes inv: "dq_inv q" and res: "dq_restore_oldest items q = (lost, q')"
  shows "dq_inv q'" "dq_capacity q' = dq_capacity q"
    "dq_items q' = drop (nat lost) items @ dq_items q"
    "lost = max 0 (int (length items) + dq_len q - dq_capacity q)"
proof -
  define keep where "keep = min (int (length items)) (dq_capacity q - dq_len q)"
  have k: "0 \<le> keep" "keep \<le> int (length items)" "keep \<le> dq_capacity q - dq_len q"
    using inv by (auto simp: keep_def dq_inv_def)
  have lost: "lost = int (length items) - keep" and q': "q' = appendleft_all (rev (py_suffix keep items)) q"
    using res by (auto simp: dq_restore_oldest_def keep_def Let_def)
  have suf: "py_suffix keep items = drop (nat lost) items"
    using k by (auto simp: py_suffix_def lost nat_diff_distrib)
  show "dq_items q' = drop (nat lost) items @ dq_items q" "dq_capacity q' = dq_capacity q"
    by (simp_all add: q' suf appendleft_all_fields)
  have "int (length (drop (nat lost) items)) = keep"
    using k lost by simp
  then show "dq_inv q'"
    using inv k(3) by (auto simp: dq_inv_def dq_len_def q' suf appendleft_all_fields rev_map [symmetric] sum_list_rev)
  show "lost = max 0 (int (length items) + dq_len q - dq_capacity q)"
    by (auto simp: lost keep_def)
qed

lemma dq_pop_n_spec:
  assumes "dq_inv q" "n \<le> length (dq_items q)"
  shows "\<exists>q'. dq_pop_n n q = Ok (take n (dq_items q), q') \<and> dq_items q' = drop n (dq_items q) \<and>
    dq_inv q' \<and> dq_capacity q' = dq_capacity q"
  using assms
proof (induction n arbitrary: q)
  case 0
  then show ?case by simp
next
  case (Suc n)
  then obtain x xs where q: "dq_items q = x # xs"
    by (cases "dq_items q") auto
  obtain q1 where q1: "dq_popleft q = Ok (x, q1)" "dq_items q1 = xs" "dq_capacity q1 = dq_capacity q"
    using dq_popleft_ok[OF q] by blast
  show ?case
    using Suc.IH[OF dq_popleft_inv[OF Suc.prems(1) q1(1)]] Suc.prems(2) q q1 by auto
qed

interpretation dq: drop_oldest "\<lambda>x q. bindE (dq_append x q) (\<lambda>(d, q'). Ok q')" dq_items
  "\<lambda>q. nat (dq_capacity q)" dq_inv "\<lambda>_. True"
proof unfold_locales
  fix q x q'
  assume inv: "dq_inv q"
  obtain d q1 where q1: "dq_append x q = Ok (d, q1)" "dq_inv q1" "dq_capacity q1 = dq_capacity q"
    "dq_items q1 = (if dq_len q = dq_capacity q then tl (dq_items q) else dq_items q) @ [x]"
    by (rule dq_append_spec[OF inv])
  show "\<exists>q'. bindE (dq_append x q) (\<lambda>(d, q'). Ok q') = Ok q'" using q1 by simp
  show "0 < nat (dq_capacity q)" "length (dq_items q) \<le> nat (dq_capacity q)"
    using inv by (auto simp: dq_inv_def dq_len_def)
  assume "bindE (dq_append x q) (\<lambda>(d, q'). Ok q') = Ok q'"
  then have "q' = q1" using q1(1) by simp
  with q1 inv show "dq_inv q'" "nat (dq_capacity q') = nat (dq_capacity q)"
    "dq_items q' = (if length (dq_items q) = nat (dq_capacity q) then tl (dq_items q) else dq_items q) @ [x]"
    by (auto simp: dq_len_def dq_inv_def)
qed

section \<open>Publisher\<close>

record RolloutRequest =
  rq_request_id :: int
  rq_limit :: int

record RolloutResponse =
  rp_request_id :: int
  rp_count :: int

text \<open>Where the responder task is suspended.\<close>

datatype responder_phase =
    NotStarted
  | AwaitRequest
  | AwaitItems RolloutRequest
  | Polling RolloutRequest
  | Sending RolloutRequest "EncodedRollout list"
  | Failed
  | Stopped

record Publisher =
  pb_queue :: DropOldestRolloutQueue
  pb_phase :: responder_phase
  pb_task :: bool
  pb_closed :: bool
  pb_enqueued :: int
  pb_sent :: int
  pb_dropped_oldest :: int
  pb_responder_failures :: int

definition Publisher_init :: "ZMQValueTransportConfig \<Rightarrow> Publisher" where
  "Publisher_init config =
     \<lparr>pb_queue = DropOldestRolloutQueue_init (ztc_max_pending_rollouts config), pb_phase = NotStarted,
      pb_task = False, pb_closed = False, pb_enqueued = 0, pb_sent = 0, pb_dropped_oldest = 0,
      pb_responder_failures = 0\<rparr>"

definition Publisher_start :: "Publisher \<Rightarrow> Publisher result" where
  "Publisher_start p =
     raise_if (pb_task p) (RuntimeError ''value rollout publisher is already started'')
       (raise_if (pb_closed p) (RuntimeError ''value rollout publisher is closed'')
         (Ok (p\<lparr>pb_task := True, pb_phase := AwaitRequest\<rparr>)))"

definition encode_rollout :: "(ValueTrainingRollout \<Rightarrow> bytes) \<Rightarrow> ValueTrainingRollout \<Rightarrow> EncodedRollout" where
  "encode_rollout enc rollout = \<lparr>er_payload = enc rollout, er_num_tokens = rollout_tokens rollout\<rparr>"

definition Publisher_publish ::
  "(ValueTrainingRollout \<Rightarrow> bytes) \<Rightarrow> ValueTrainingRollout \<Rightarrow> Publisher \<Rightarrow> Publisher result" where
  "Publisher_publish enc rollout p =
     raise_if (\<not> pb_task p) (RuntimeError ''value rollout publisher is not started'')
       (raise_if (pb_closed p) (RuntimeError ''value rollout publisher is closed'')
         (bindE (dq_append (encode_rollout enc rollout) (pb_queue p)) (\<lambda>(dropped, q).
            Ok (p\<lparr>pb_queue := q, pb_enqueued := pb_enqueued p + 1,
                  pb_dropped_oldest := pb_dropped_oldest p + (if dropped \<noteq> None then 1 else 0)\<rparr>))))"

definition Publisher_metrics :: "Publisher \<Rightarrow> (string \<times> real) list" where
  "Publisher_metrics p =
     [(''value/rollout_queue_enqueued'', real_of_int (pb_enqueued p)),
      (''value/rollout_queue_sent'', real_of_int (pb_sent p)),
      (''value/rollout_queue_dropped_oldest'', real_of_int (pb_dropped_oldest p)),
      (''value/rollout_queue_drop_rate'',
         if pb_enqueued p \<noteq> 0 then real_of_int (pb_dropped_oldest p) / real_of_int (pb_enqueued p) else 0),
      (''value/rollout_queue_capacity'', real_of_int (dq_capacity (pb_queue p))),
      (''value/rollout_queue_pending'', real_of_int (dq_len (pb_queue p))),
      (''value/rollout_queue_pending_bytes'', real_of_int (dq_num_bytes (pb_queue p))),
      (''value/rollout_queue_pending_tokens'', real_of_int (dq_num_tokens (pb_queue p))),
      (''value/rollout_responder_failures'', real_of_int (pb_responder_failures p))]"

definition Publisher_close :: "Publisher \<Rightarrow> Publisher" where
  "Publisher_close p =
     (if pb_closed p then p
      else p\<lparr>pb_closed := True, pb_task := False, pb_phase := Stopped, pb_queue := dq_clear (pb_queue p)\<rparr>)"

text \<open>\<open>_on_responder_done\<close> for a task that ended with an exception.\<close>

definition on_responder_error :: "Publisher \<Rightarrow> Publisher" where
  "on_responder_error p =
     p\<lparr>pb_phase := Failed, pb_responder_failures := pb_responder_failures p + 1\<rparr>"

datatype responder_event = EvRequest RolloutRequest | EvWake | EvPollOut | EvSendOk | EvSendAgain | EvError

text \<open>\<open>_respond_loop\<close>, one transition per await; \<open>None\<close> when the task is not suspended there.\<close>

fun responder_step :: "responder_event \<Rightarrow> Publisher \<Rightarrow> Publisher option" where
  "responder_step (EvRequest req) p =
     (if pb_phase p = AwaitRequest
      then Some (if rq_limit req < 1 then on_responder_error p
                 else p\<lparr>pb_phase := if dq_items (pb_queue p) = [] then AwaitItems req else Polling req\<rparr>)
      else None)"
| "responder_step EvWake p =
     (case pb_phase p of
        AwaitItems req \<Rightarrow> if dq_items (pb_queue p) = [] then None else Some (p\<lparr>pb_phase := Polling req\<rparr>)
      | _ \<Rightarrow> None)"
| "responder_step EvPollOut p =
     (case pb_phase p of
        Polling req \<Rightarrow>
          (case dq_pop_n (nat (min (rq_limit req) (dq_len (pb_queue p)))) (pb_queue p) of
             Inl e \<Rightarrow> Some (on_responder_error p)
           | Inr (items, q) \<Rightarrow> Some (p\<lparr>pb_queue := q, pb_phase := Sending req items\<rparr>))
      | _ \<Rightarrow> None)"
| "responder_step EvSendOk p =
     (case pb_phase p of
        Sending req items \<Rightarrow> Some (p\<lparr>pb_sent := pb_sent p + int (length items), pb_phase := AwaitRequest\<rparr>)
      | _ \<Rightarrow> None)"
| "responder_step EvSendAgain p =
     (case pb_phase p of
        Sending req items \<Rightarrow>
          (let (lost, q) = dq_restore_oldest items (pb_queue p)
           in Some (p\<lparr>pb_queue := q, pb_dropped_oldest := pb_dropped_oldest p + lost, pb_phase := Polling req\<rparr>))
      | _ \<Rightarrow> None)"
| "responder_step EvError p =
     (if pb_phase p \<in> {NotStarted, Failed, Stopped} then None else Some (on_responder_error p))"

definition response_frames ::
  "(RolloutResponse \<Rightarrow> bytes) \<Rightarrow> RolloutRequest \<Rightarrow> EncodedRollout list \<Rightarrow> bytes list" where
  "response_frames encR req items =
     encR \<lparr>rp_request_id = rq_request_id req, rp_count = int (length items)\<rparr> # map er_payload items"

section \<open>Receiver\<close>

record Receiver =
  rv_next_request_id :: int
  rv_pending :: "RolloutRequest option"
  rv_buffered :: "ValueTrainingRollout list"

definition Receiver_init :: Receiver where
  "Receiver_init = \<lparr>rv_next_request_id = 0, rv_pending = None, rv_buffered = []\<rparr>"

text \<open>
  What the socket answers during one call: whether the two polls report readiness before
  the deadline, whether \<open>send\<close> succeeds or raises \<open>zmq.Again\<close>, and the frames that
  \<open>recv_multipart\<close> yields (\<open>None\<close> for \<open>zmq.Again\<close>).
\<close>

record zmq_env =
  ze_pollout :: bool
  ze_send_ok :: bool
  ze_pollin :: bool
  ze_frames :: "bytes list option"

definition take_buffered :: "int \<Rightarrow> Receiver \<Rightarrow> ValueTrainingRollout list \<times> Receiver" where
  "take_buffered limit r =
     (let n = nat (min limit (int (length (rv_buffered r))))
      in (take n (rv_buffered r), r\<lparr>rv_buffered := drop n (rv_buffered r)\<rparr>))"

text \<open>\<open>deque.extend\<close> over a decoding generator: what was decoded before a failure stays.\<close>

fun decode_into ::
  "(bytes \<Rightarrow> ValueTrainingRollout result) \<Rightarrow> bytes list \<Rightarrow> ValueTrainingRollout list \<Rightarrow>
   py_exn option \<times> ValueTrainingRollout list"
where
  "decode_into dec [] buf = (None, buf)"
| "decode_into dec (f # fs) buf =
     (case dec f of Inl e \<Rightarrow> (Some e, buf) | Inr r \<Rightarrow> decode_into dec fs (buf @ [r]))"

definition accept_response ::
  "(bytes \<Rightarrow> RolloutResponse result) \<Rightarrow> (bytes \<Rightarrow> ValueTrainingRollout result) \<Rightarrow> bytes list \<Rightarrow> int \<Rightarrow> Receiver \<Rightarrow>
   ValueTrainingRollout list result \<times> Receiver"
where
  "accept_response decR dec frames limit r =
     (case rv_pending r of
        None \<Rightarrow> (Raise (AssertionError ''_pending_request is not None''), r)
      | Some req \<Rightarrow>
         (case frames of
            [] \<Rightarrow> (Raise (RuntimeError ''value rollout response is empty''), r)
          | f # fs \<Rightarrow>
             (case decR f of
                Inl e \<Rightarrow> (Inl e, r)
              | Inr response \<Rightarrow>
                  if rp_request_id response \<noteq> rq_request_id req
                  then (Raise (RuntimeError ''value rollout response id does not match request''), r)
                  else if rp_count response \<noteq> int (length fs)
                  then (Raise (RuntimeError ''value rollout response declared another number of rollouts''), r)
                  else if rp_count response > rq_limit req
                  then (Raise (RuntimeError ''value rollout response exceeded request limit''), r)
                  else (case decode_into dec fs (rv_buffered r) of
                          (Some e, buf) \<Rightarrow> (Inl e, r\<lparr>rv_buffered := buf\<rparr>)
                        | (None, buf) \<Rightarrow>
                            (let (out, r') = take_buffered limit (r\<lparr>rv_buffered := buf, rv_pending := None\<rparr>)
                             in (Ok out, r'))))))"

text \<open>
  \<open>receive_available\<close>: the result, the new receiver, the request that was sent, and
  whether a reply was taken off the socket.
\<close>

definition receive_available ::
  "(bytes \<Rightarrow> RolloutResponse result) \<Rightarrow> (bytes \<Rightarrow> ValueTrainingRollout result) \<Rightarrow> int \<Rightarrow> zmq_env \<Rightarrow> Receiver \<Rightarrow>
   ValueTrainingRollout list result \<times> Receiver \<times> RolloutRequest option \<times> bool"
where
  "receive_available decR dec limit env r =
     (if limit < 0 then (Raise (ValueError ''receive limit cannot be negative''), r, None, False)
      else if limit = 0 then (Ok [], r, None, False)
      else if rv_buffered r \<noteq> [] then
        (let (out, r') = take_buffered limit r in (Ok out, r', None, False))
      else
        (let request = \<lparr>rq_request_id = rv_next_request_id r, rq_limit = limit\<rparr>;
             must_send = (rv_pending r = None)
         in if must_send \<and> \<not> (ze_pollout env \<and> ze_send_ok env) then (Ok [], r, None, False)
            else
              (let r1 = (if must_send
                         then r\<lparr>rv_pending := Some request, rv_next_request_id := rv_next_request_id r + 1\<rparr>
                         else r);
                   sent = (if must_send then Some request else None)
               in if \<not> ze_pollin env then (Ok [], r1, sent, False)
                  else (case ze_frames env of
                          None \<Rightarrow> (Ok [], r1, sent, False)
                        | Some frames \<Rightarrow>
                            (let (res, r2) = accept_response decR dec frames limit r1
                             in (res, r2, sent, True))))))"

definition Receiver_close :: "Receiver \<Rightarrow> Receiver" where
  "Receiver_close r = r\<lparr>rv_pending := None, rv_buffered := []\<rparr>"

lemma decode_into_ok:
  "(\<And>f. f \<in> set fs \<Longrightarrow> dec f = Ok (g f)) \<Longrightarrow> decode_into dec fs buf = (None, buf @ map g fs)"
  by (induction fs arbitrary: buf) auto

lemma take_buffered_split:
  "take_buffered limit r = (out, r') \<Longrightarrow> 0 \<le> limit \<Longrightarrow>
     out @ rv_buffered r' = rv_buffered r \<and> rv_pending r' = rv_pending r \<and>
     rv_next_request_id r' = rv_next_request_id r \<and> int (length out) \<le> limit"
  by (auto simp: take_buffered_def Let_def)

text \<open>Whatever the socket answers, a call returns at most \<open>limit\<close> rollouts.\<close>

lemma receive_within_limit:
  assumes "receive_available decR dec limit env r = (Ok out, r', sent, taken)"
  shows "int (length out) \<le> limit"
proof -
  have tb: "int (length (fst (take_buffered limit x))) \<le> limit" if "0 \<le> limit" for x
    using take_buffered_split[of limit x "fst (take_buffered limit x)" "snd (take_buffered limit x)"] that by simp
  show ?thesis
    using assms tb
    by (fastforce simp: receive_available_def accept_response_def Let_def case_prod_unfold
        split: if_splits option.splits list.splits sum.splits)
qed

end
