(* ===== verification/Value_Link.thy ===== *)
theory Value_Link
  imports Value_Transport
begin

text \<open>
  The publisher, the receiver and the REQ/REP socket between them as one system. The
  socket carries at most one request and one reply; every transition of either end and
  every publication is a step, so all interleavings of the event loop and the trainer are
  covered. Ghost fields record what was published, what left the publisher, and what the
  trainer got.
\<close>

record value_link =
  vl_pub :: Publisher
  vl_rcv :: Receiver
  vl_req :: "RolloutRequest option"
  vl_resp :: "bytes list option"
  vl_published :: "ValueTrainingRollout list"
  vl_sent :: "EncodedRollout list"
  vl_received :: "ValueTrainingRollout list"

record codec =
  cd_enc :: "ValueTrainingRollout \<Rightarrow> bytes"
  cd_dec :: "bytes \<Rightarrow> ValueTrainingRollout result"
  cd_encR :: "RolloutResponse \<Rightarrow> bytes"
  cd_decR :: "bytes \<Rightarrow> RolloutResponse result"

text \<open>
  What MsgPack documents for these structs: decoding inverts encoding. For rollouts it is
  asked only of those that are published, whose targets are representable floats.
\<close>

definition codec_roundtrip :: "codec \<Rightarrow> ValueTrainingRollout list \<Rightarrow> bool" where
  "codec_roundtrip c rs \<longleftrightarrow>
     (\<forall>r \<in> set rs. cd_dec c (cd_enc c r) = Ok r) \<and> (\<forall>x. cd_decR c (cd_encR c x) = Ok x)"

text \<open>Frames come off the socket only when a reply is there.\<close>

definition env_ok :: "value_link \<Rightarrow> zmq_env \<Rightarrow> bool" where
  "env_ok s env \<longleftrightarrow> ze_frames env = None \<or> ze_frames env = vl_resp s"

inductive link_step :: "codec \<Rightarrow> value_link \<Rightarrow> value_link \<Rightarrow> bool" for c where
  publish: "Publisher_publish (cd_enc c) r (vl_pub s) = Ok p \<Longrightarrow>
     link_step c s (s\<lparr>vl_pub := p, vl_published := vl_published s @ [r]\<rparr>)"
| request: "vl_req s = Some q \<Longrightarrow> responder_step (EvRequest q) (vl_pub s) = Some p \<Longrightarrow>
     link_step c s (s\<lparr>vl_pub := p, vl_req := None\<rparr>)"
| internal: "ev \<in> {EvWake, EvPollOut, EvSendAgain, EvError} \<Longrightarrow> responder_step ev (vl_pub s) = Some p \<Longrightarrow>
     link_step c s (s\<lparr>vl_pub := p\<rparr>)"
| reply: "pb_phase (vl_pub s) = Sending q items \<Longrightarrow> responder_step EvSendOk (vl_pub s) = Some p \<Longrightarrow>
     link_step c s (s\<lparr>vl_pub := p, vl_resp := Some (response_frames (cd_encR c) q items),
                      vl_sent := vl_sent s @ items\<rparr>)"
| receive: "env_ok s env \<Longrightarrow> 0 \<le> limit \<Longrightarrow>
     receive_available (cd_decR c) (cd_dec c) limit env (vl_rcv s) = (Ok out, rcv, sent, taken) \<Longrightarrow>
     link_step c s (s\<lparr>vl_rcv := rcv, vl_received := vl_received s @ out,
                      vl_req := (if sent \<noteq> None then sent else vl_req s),
                      vl_resp := (if taken then None else vl_resp s)\<rparr>)"
| close: "link_step c s (s\<lparr>vl_pub := Publisher_close (vl_pub s)\<rparr>)"

inductive link_reachable :: "codec \<Rightarrow> int \<Rightarrow> value_link \<Rightarrow> bool" for c cap where
  init: "Publisher_start (Publisher_init config) = Ok p \<Longrightarrow> ztc_max_pending_rollouts config = cap \<Longrightarrow>
     link_reachable c cap \<lparr>vl_pub = p, vl_rcv = Receiver_init, vl_req = None, vl_resp = None,
        vl_published = [], vl_sent = [], vl_received = []\<rparr>"
| step: "link_reachable c cap s \<Longrightarrow> link_step c s t \<Longrightarrow> link_reachable c cap t"

section \<open>Publisher invariant\<close>

fun inflight_items :: "responder_phase \<Rightarrow> EncodedRollout list" where
  "inflight_items (Sending q items) = items"
| "inflight_items _ = []"

fun phase_request :: "responder_phase \<Rightarrow> RolloutRequest option" where
  "phase_request (AwaitItems q) = Some q"
| "phase_request (Polling q) = Some q"
| "phase_request (Sending q items) = Some q"
| "phase_request _ = None"

definition pub_inv :: "codec \<Rightarrow> value_link \<Rightarrow> bool" where
  "pub_inv c s \<longleftrightarrow>
     (let p = vl_pub s; held = int (length (inflight_items (pb_phase p))) + dq_len (pb_queue p)
      in dq_inv (pb_queue p) \<and>
         pb_enqueued p = int (length (vl_published s)) \<and> pb_sent p = int (length (vl_sent s)) \<and>
         0 \<le> pb_dropped_oldest p \<and> 0 \<le> pb_responder_failures p \<and>
         pb_sent p + pb_dropped_oldest p + held \<le> pb_enqueued p \<and>
         (pb_responder_failures p = 0 \<and> \<not> pb_closed p \<longrightarrow>
            pb_sent p + pb_dropped_oldest p + held = pb_enqueued p) \<and>
         subseq (vl_sent s @ inflight_items (pb_phase p) @ dq_items (pb_queue p))
           (map (encode_rollout (cd_enc c)) (vl_published s)))"

lemma subseq_snoc_both: "subseq (xs @ [x]) (ys @ [x])" if "subseq xs ys"
  using that by (simp add: list_emb_append_mono)

lemma subseq_drop_middle: "subseq (xs @ ys @ zs) ws \<Longrightarrow> subseq (xs @ drop n ys @ zs) ws"
  by (rule subseq_order.order_trans [rotated], assumption)
    (rule list_emb_append_mono[OF subseq_order.order_refl
        list_emb_append_mono[OF suffix_imp_subseq[OF suffix_drop] subseq_order.order_refl]])

lemma subseq_drop_tail: "subseq (xs @ ys @ zs) ws \<Longrightarrow> subseq (xs @ zs) ws"
  by (metis subseq_drop_middle append_Nil drop_all order_refl)

lemma pub_inv_publish:
  assumes inv: "pub_inv c s" and pub: "Publisher_publish (cd_enc c) r (vl_pub s) = Ok p"
  shows "pub_inv c (s\<lparr>vl_pub := p, vl_published := vl_published s @ [r]\<rparr>)"
proof -
  let ?q = "pb_queue (vl_pub s)" and ?x = "encode_rollout (cd_enc c) r"
  have qi: "dq_inv ?q" using inv by (simp add: pub_inv_def Let_def)
  obtain d q' where q': "dq_append ?x ?q = Ok (d, q')" "dq_inv q'" "dq_capacity q' = dq_capacity ?q"
    "dq_items q' = (if dq_len ?q = dq_capacity ?q then tl (dq_items ?q) else dq_items ?q) @ [?x]"
    "d = (if dq_len ?q = dq_capacity ?q then Some (hd (dq_items ?q)) else None)"
    by (rule dq_append_spec[OF qi])
  have p: "p = (vl_pub s)\<lparr>pb_queue := q', pb_enqueued := pb_enqueued (vl_pub s) + 1,
      pb_dropped_oldest := pb_dropped_oldest (vl_pub s) + (if d \<noteq> None then 1 else 0)\<rparr>"
    using pub q'(1) by (auto simp: Publisher_publish_def raise_if_def split: if_splits)
  have ne: "dq_len ?q = dq_capacity ?q \<Longrightarrow> dq_items ?q \<noteq> []"
    using qi by (auto simp: dq_inv_def dq_len_def)
  have len: "dq_len q' = dq_len ?q + (if d \<noteq> None then 0 else 1)"
    using q'(4,5) ne by (cases "dq_items ?q") (auto simp: dq_len_def)
  have "subseq (vl_sent s @ inflight_items (pb_phase (vl_pub s)) @ dq_items q')
      (map (encode_rollout (cd_enc c)) (vl_published s @ [r]))"
  proof -
    have "subseq ((vl_sent s @ inflight_items (pb_phase (vl_pub s))) @
        drop (if dq_len ?q = dq_capacity ?q then 1 else 0) (dq_items ?q) @ [])
      (map (encode_rollout (cd_enc c)) (vl_published s))"
      by (rule subseq_drop_middle) (use inv in \<open>simp add: pub_inv_def Let_def\<close>)
    from subseq_snoc_both[OF this, of ?x] show ?thesis
      by (simp add: q'(4) drop_Suc split: if_splits)
  qed
  then show ?thesis
    using inv q'(2) len by (auto simp: pub_inv_def Let_def p)
qed

lemma pub_inv_responder:
  assumes inv: "pub_inv c s" and step: "responder_step ev (vl_pub s) = Some p"
    and ev: "ev \<noteq> EvSendOk"
  shows "pub_inv c (s\<lparr>vl_pub := p\<rparr>)"
proof -
  have fail: "pub_inv c (s\<lparr>vl_pub := on_responder_error (vl_pub s)\<rparr>)"
    using inv subseq_drop_tail[of "vl_sent s" "inflight_items (pb_phase (vl_pub s))"]
    by (auto simp: pub_inv_def Let_def on_responder_error_def)
  let ?q = "pb_queue (vl_pub s)"
  have qi: "dq_inv ?q" using inv by (simp add: pub_inv_def Let_def)
  show ?thesis
  proof (cases ev)
    case (EvRequest q)
    then show ?thesis
      using step fail inv by (auto simp: pub_inv_def Let_def split: if_splits)
  next
    case EvWake
    then show ?thesis
      using step inv by (auto simp: pub_inv_def Let_def split: if_splits responder_phase.splits)
  next
    case EvPollOut
    then obtain q where ph: "pb_phase (vl_pub s) = Polling q"
      using step by (auto split: responder_phase.splits)
    obtain n where n: "n = nat (min (rq_limit q) (dq_len ?q))" and le: "n \<le> length (dq_items ?q)"
      by (simp add: dq_len_def nat_le_iff)
    obtain q' where q': "dq_pop_n n ?q = Ok (take n (dq_items ?q), q')"
      "dq_items q' = drop n (dq_items ?q)" "dq_inv q'"
      using dq_pop_n_spec[OF qi le] by blast
    have p: "p = (vl_pub s)\<lparr>pb_queue := q', pb_phase := Sending q (take n (dq_items ?q))\<rparr>"
      using EvPollOut step ph q'(1) by (simp flip: n)
    have "int (length (take n (dq_items ?q))) + dq_len q' = dq_len ?q"
      using q'(2) le by (simp add: dq_len_def)
    then show ?thesis
      using inv ph q'(3) by (clarsimp simp: pub_inv_def Let_def p q'(2))
  next
    case EvSendAgain
    then obtain q items where ph: "pb_phase (vl_pub s) = Sending q items"
      using step by (auto split: responder_phase.splits)
    obtain lost q' where r: "dq_restore_oldest items ?q = (lost, q')"
      by (cases "dq_restore_oldest items ?q")
    note spec = dq_restore_spec[OF qi r]
    have "dq_len q' + lost = int (length items) + dq_len ?q" "0 \<le> lost"
      using spec(3,4) qi by (auto simp: dq_len_def dq_inv_def)
    moreover have "subseq (vl_sent s @ dq_items q') (map (encode_rollout (cd_enc c)) (vl_published s))"
      using subseq_drop_middle[of "vl_sent s" items "dq_items ?q" _ "nat lost"] inv ph
      by (simp add: spec(3) pub_inv_def Let_def)
    ultimately show ?thesis
      using EvSendAgain step inv ph r spec(1) by (auto simp: pub_inv_def Let_def)
  next
    case EvError
    then show ?thesis
      using step fail by (auto split: if_splits)
  qed (use ev in simp)
qed

lemma pub_inv_reply:
  assumes "pub_inv c s" "pb_phase (vl_pub s) = Sending q items"
    "responder_step EvSendOk (vl_pub s) = Some p"
  shows "pub_inv c (s\<lparr>vl_pub := p, vl_resp := x, vl_sent := vl_sent s @ items\<rparr>)"
  using assms by (auto simp: pub_inv_def Let_def)

lemma pub_inv_close:
  assumes "pub_inv c s"
  shows "pub_inv c (s\<lparr>vl_pub := Publisher_close (vl_pub s)\<rparr>)"
proof -
  have "subseq (vl_sent s) (map (encode_rollout (cd_enc c)) (vl_published s))"
    using assms subseq_drop_tail[of "vl_sent s"
        "inflight_items (pb_phase (vl_pub s)) @ dq_items (pb_queue (vl_pub s))" "[]"]
    by (simp add: pub_inv_def Let_def)
  then show ?thesis
    using assms by (auto simp: pub_inv_def Let_def Publisher_close_def dq_clear_def dq_inv_def dq_len_def)
qed

section \<open>Lock step of the socket\<close>

text \<open>
  At most one request is outstanding, and it is in exactly one place: on the socket, at
  the responder, or answered by the waiting reply.
\<close>

definition lockstep :: "codec \<Rightarrow> value_link \<Rightarrow> bool" where
  "lockstep c s \<longleftrightarrow>
     (case rv_pending (vl_rcv s) of
        None \<Rightarrow> vl_req s = None \<and> vl_resp s = None \<and> phase_request (pb_phase (vl_pub s)) = None
      | Some q \<Rightarrow>
          1 \<le> rq_limit q \<and>
          (vl_req s = None \<or> vl_req s = Some q) \<and>
          (phase_request (pb_phase (vl_pub s)) = None \<or> phase_request (pb_phase (vl_pub s)) = Some q) \<and>
          (vl_req s \<noteq> None \<longrightarrow> phase_request (pb_phase (vl_pub s)) = None \<and> vl_resp s = None) \<and>
          (phase_request (pb_phase (vl_pub s)) \<noteq> None \<longrightarrow> vl_resp s = None) \<and>
          int (length (inflight_items (pb_phase (vl_pub s)))) \<le> rq_limit q)"

text \<open>Everything that left the publisher is with the trainer, buffered, or in the waiting reply.\<close>

definition decoded :: "codec \<Rightarrow> EncodedRollout \<Rightarrow> ValueTrainingRollout" where
  "decoded c x = (case cd_dec c (er_payload x) of Inr r \<Rightarrow> r | Inl _ \<Rightarrow> undefined)"

definition delivery :: "codec \<Rightarrow> value_link \<Rightarrow> bool" where
  "delivery c s \<longleftrightarrow>
     (\<exists>pre its. vl_sent s = pre @ its \<and>
        vl_received s @ rv_buffered (vl_rcv s) = map (decoded c) pre \<and>
        (case vl_resp s of
           None \<Rightarrow> its = []
         | Some fs \<Rightarrow> \<exists>q. rv_pending (vl_rcv s) = Some q \<and> fs = response_frames (cd_encR c) q its \<and>
                      int (length its) \<le> rq_limit q))"

definition link_inv :: "codec \<Rightarrow> value_link \<Rightarrow> bool" where
  "link_inv c s \<longleftrightarrow> pub_inv c s \<and> lockstep c s \<and> delivery c s"

lemma decoded_encode:
  "codec_roundtrip c rs \<Longrightarrow> r \<in> set rs \<Longrightarrow> decoded c (encode_rollout (cd_enc c) r) = r"
  by (simp add: codec_roundtrip_def decoded_def encode_rollout_def)

lemma sent_items_decode:
  assumes "codec_roundtrip c (vl_published s)" "pub_inv c s" "x \<in> set (vl_sent s)"
  shows "cd_dec c (er_payload x) = Ok (decoded c x)"
proof -
  have "subseq (vl_sent s @ inflight_items (pb_phase (vl_pub s)) @ dq_items (pb_queue (vl_pub s)))
      (map (encode_rollout (cd_enc c)) (vl_published s))"
    using assms(2) by (simp add: pub_inv_def Let_def)
  then have "x \<in> set (map (encode_rollout (cd_enc c)) (vl_published s))"
    by (rule list_emb_set) (use assms(3) in auto)
  then obtain r where "x = encode_rollout (cd_enc c) r" "r \<in> set (vl_published s)" by auto
  then show ?thesis
    using assms(1) by (simp add: codec_roundtrip_def encode_rollout_def decoded_def)
qed

lemma accept_good_response:
  assumes rt: "codec_roundtrip c rs" and pend: "rv_pending r = Some q" and lim: "0 \<le> limit"
    and its: "int (length its) \<le> rq_limit q" "\<And>x. x \<in> set its \<Longrightarrow> cd_dec c (er_payload x) = Ok (decoded c x)"
  obtains out r' where "accept_response (cd_decR c) (cd_dec c) (response_frames (cd_encR c) q its) limit r = (Ok out, r')"
    "out @ rv_buffered r' = rv_buffered r @ map (decoded c) its" "rv_pending r' = None"
proof -
  have dec: "decode_into (cd_dec c) (map er_payload its) buf = (None, buf @ map (decoded c) its)" for buf
    using its(2) by (induction its arbitrary: buf) auto
  let ?r = "r\<lparr>rv_buffered := rv_buffered r @ map (decoded c) its, rv_pending := None\<rparr>"
  obtain out r' where t: "take_buffered limit ?r = (out, r')"
    by (cases "take_buffered limit ?r")
  show thesis
  proof (rule that)
    show "accept_response (cd_decR c) (cd_dec c) (response_frames (cd_encR c) q its) limit r = (Ok out, r')"
      using rt its(1) t by (simp add: accept_response_def pend response_frames_def codec_roundtrip_def dec)
    show "out @ rv_buffered r' = rv_buffered r @ map (decoded c) its" "rv_pending r' = None"
      using take_buffered_split[OF t lim] by auto
  qed
qed

text \<open>The part of the invariant that a receiver call can touch.\<close>

lemma pub_inv_frame [simp]:
  "pub_inv c (s\<lparr>vl_rcv := r, vl_received := x, vl_req := e, vl_resp := f\<rparr>) = pub_inv c s"
  "pub_inv c (s\<lparr>vl_pub := p, vl_req := e\<rparr>) = pub_inv c (s\<lparr>vl_pub := p\<rparr>)"
  unfolding pub_inv_def Let_def by simp_all

lemma link_inv_rcvI:
  assumes "link_inv c s" and "lockstep c (s\<lparr>vl_rcv := r, vl_received := x, vl_req := e, vl_resp := f\<rparr>)"
    and "delivery c (s\<lparr>vl_rcv := r, vl_received := x, vl_req := e, vl_resp := f\<rparr>)"
  shows "link_inv c (s\<lparr>vl_rcv := r, vl_received := x, vl_req := e, vl_resp := f\<rparr>)"
  using assms by (simp add: link_inv_def)

lemma receive_unbuffered:
  assumes "rv_buffered r = []" "0 < limit"
  shows "receive_available decR dec limit env r =
    (if rv_pending r = None \<and> \<not> (ze_pollout env \<and> ze_send_ok env) then (Ok [], r, None, False)
     else let sent = (if rv_pending r = None then Some \<lparr>rq_request_id = rv_next_request_id r, rq_limit = limit\<rparr> else None);
              r1 = (if rv_pending r = None then r\<lparr>rv_pending := sent, rv_next_request_id := rv_next_request_id r + 1\<rparr> else r)
          in case (if ze_pollin env then ze_frames env else None) of
               None \<Rightarrow> (Ok [], r1, sent, False)
             | Some frames \<Rightarrow> (let (res, r2) = accept_response decR dec frames limit r1 in (res, r2, sent, True)))"
  using assms by (auto simp: receive_available_def Let_def split: option.splits)

text \<open>A call of the receiver in a good state never raises and accounts for all it takes.\<close>

lemma receive_in_link:
  assumes rt: "codec_roundtrip c (vl_published s)" and inv: "link_inv c s" and env: "env_ok s env" and lim: "0 \<le> limit"
    and rec: "receive_available (cd_decR c) (cd_dec c) limit env (vl_rcv s) = (res, rcv, sent, taken)"
  shows "\<exists>out. res = Ok out \<and> link_inv c (s\<lparr>vl_rcv := rcv, vl_received := vl_received s @ out,
      vl_req := (if sent \<noteq> None then sent else vl_req s), vl_resp := (if taken then None else vl_resp s)\<rparr>)"
proof -
  let ?r = "vl_rcv s"
  obtain pre its where d: "vl_sent s = pre @ its" "vl_received s @ rv_buffered ?r = map (decoded c) pre"
    "case vl_resp s of None \<Rightarrow> its = [] | Some fs \<Rightarrow> \<exists>q. rv_pending ?r = Some q \<and>
       fs = response_frames (cd_encR c) q its \<and> int (length its) \<le> rq_limit q"
    using inv by (auto simp: link_inv_def delivery_def)
  have pub: "pub_inv c s" and ls: "lockstep c s" and dl: "delivery c s"
    using inv by (auto simp: link_inv_def)
  consider (zero) "limit = 0" | (buf) "0 < limit" "rv_buffered ?r \<noteq> []" | (ask) "0 < limit" "rv_buffered ?r = []"
    using lim by fastforce
  then show ?thesis
  proof cases
    case zero
    then show ?thesis using rec inv by (auto simp: receive_available_def)
  next
    case buf
    obtain out r' where t: "take_buffered limit ?r = (out, r')" by (cases "take_buffered limit ?r")
    note sp = take_buffered_split[OF t lim]
    have eq: "res = Ok out" "rcv = r'" "sent = None" "taken = False"
      using rec buf t by (auto simp: receive_available_def)
    have "lockstep c (s\<lparr>vl_rcv := r', vl_received := vl_received s @ out, vl_req := vl_req s, vl_resp := vl_resp s\<rparr>)"
      using ls sp by (simp add: lockstep_def split: option.splits)
    moreover have "delivery c (s\<lparr>vl_rcv := r', vl_received := vl_received s @ out, vl_req := vl_req s, vl_resp := vl_resp s\<rparr>)"
      unfolding delivery_def by (rule exI[of _ pre], rule exI[of _ its])
        (use d sp in \<open>simp split: option.splits\<close>)
    ultimately show ?thesis
      using link_inv_rcvI[OF inv, where r = r' and x = "vl_received s @ out" and e = "vl_req s" and f = "vl_resp s"] by (simp add: eq)
  next
    case ask
    note rec' = rec[unfolded receive_unbuffered[OF ask(2,1)]]
    show ?thesis
    proof (cases "if ze_pollin env then ze_frames env else None")
      case None
      show ?thesis
      proof (cases "rv_pending ?r = None \<and> ze_pollout env \<and> ze_send_ok env")
        case True
        let ?q = "\<lparr>rq_request_id = rv_next_request_id ?r, rq_limit = limit\<rparr>"
        let ?r1 = "?r\<lparr>rv_pending := Some ?q, rv_next_request_id := rv_next_request_id ?r + 1\<rparr>"
        have eq: "res = Ok []" "rcv = ?r1" "sent = Some ?q" "taken = False"
          using rec' None True by (auto simp: Let_def)
        have none: "vl_req s = None" "vl_resp s = None" "phase_request (pb_phase (vl_pub s)) = None"
          using ls True by (auto simp: lockstep_def)
        then have "inflight_items (pb_phase (vl_pub s)) = []"
          by (cases "pb_phase (vl_pub s)") auto
        then have "lockstep c (s\<lparr>vl_rcv := ?r1, vl_received := vl_received s @ [], vl_req := Some ?q, vl_resp := vl_resp s\<rparr>)"
          using none ask(1) by (simp add: lockstep_def)
        moreover have "delivery c (s\<lparr>vl_rcv := ?r1, vl_received := vl_received s @ [], vl_req := Some ?q, vl_resp := vl_resp s\<rparr>)"
          using dl none by (simp add: delivery_def)
        ultimately show ?thesis
          using link_inv_rcvI[OF inv, where r = ?r1 and x = "vl_received s @ []" and e = "Some ?q" and f = "vl_resp s"]
          by (simp add: eq)
      next
        case False
        then have "res = Ok []" "rcv = ?r" "sent = None" "taken = False"
          using rec' None by (auto simp: Let_def split: if_splits)
        then show ?thesis using inv by simp
      qed
    next
      case (Some fs)
      then have fs: "vl_resp s = Some fs" using env by (auto simp: env_ok_def split: if_splits)
      then obtain q where q: "rv_pending ?r = Some q" "fs = response_frames (cd_encR c) q its"
        "int (length its) \<le> rq_limit q" using d(3) by auto
      have "\<And>x. x \<in> set its \<Longrightarrow> cd_dec c (er_payload x) = Ok (decoded c x)"
        using sent_items_decode[OF rt pub] d(1) by simp
      from accept_good_response[OF rt q(1) lim q(3) this] obtain out r' where
        acc: "accept_response (cd_decR c) (cd_dec c) fs limit ?r = (Ok out, r')"
        "out @ rv_buffered r' = rv_buffered ?r @ map (decoded c) its" "rv_pending r' = None"
        unfolding q(2) by blast
      have eq: "res = Ok out" "rcv = r'" "sent = None" "taken = True"
        using rec' Some q(1) acc(1) by (auto simp: Let_def)
      have "lockstep c (s\<lparr>vl_rcv := r', vl_received := vl_received s @ out, vl_req := vl_req s, vl_resp := None\<rparr>)"
        using ls q(1) acc(3) fs by (auto simp: lockstep_def)
      moreover have "delivery c (s\<lparr>vl_rcv := r', vl_received := vl_received s @ out, vl_req := vl_req s, vl_resp := None\<rparr>)"
        unfolding delivery_def
        by (rule exI[of _ "vl_sent s"], rule exI[of _ "[]"]) (use d acc(2) in simp)
      ultimately show ?thesis
        using link_inv_rcvI[OF inv, where r = r' and x = "vl_received s @ out" and e = "vl_req s" and f = None]
        by (simp add: eq)
    qed
  qed
qed

section \<open>Every reachable state\<close>

text \<open>Steps of the publisher leave the receiver's account alone.\<close>

lemma delivery_pub [simp]:
  "delivery c (s\<lparr>vl_pub := p\<rparr>) = delivery c s"
  "delivery c (s\<lparr>vl_pub := p, vl_req := e\<rparr>) = delivery c s"
  "delivery c (s\<lparr>vl_pub := p, vl_published := x\<rparr>) = delivery c s"
  by (simp_all add: delivery_def cong: option.case_cong)

lemma lockstep_same_phase:
  "lockstep c s \<Longrightarrow> pb_phase p = pb_phase (vl_pub s) \<Longrightarrow> lockstep c (s\<lparr>vl_pub := p, vl_published := x\<rparr>)"
  by (simp add: lockstep_def cong: option.case_cong)

lemma publish_phase: "Publisher_publish enc r p = Ok p' \<Longrightarrow> pb_phase p' = pb_phase p"
  by (auto simp: Publisher_publish_def raise_if_def split: if_splits sum.splits elim!: bindE.elims)

text \<open>A responder transition that is neither a request nor a reply keeps or forgets its request.\<close>

lemma responder_internal_phase:
  assumes "responder_step ev p = Some p'" "ev \<in> {EvWake, EvPollOut, EvSendAgain, EvError}" "dq_inv (pb_queue p)"
  shows "phase_request (pb_phase p') = phase_request (pb_phase p) \<or> phase_request (pb_phase p') = None"
    and "inflight_items (pb_phase p') = [] \<or>
      (\<exists>q. phase_request (pb_phase p') = Some q \<and> int (length (inflight_items (pb_phase p'))) \<le> max 0 (rq_limit q))"
proof -
  have pop: "int (length xs) \<le> max 0 (rq_limit q)"
    if "dq_pop_n (nat (min (rq_limit q) (dq_len (pb_queue p)))) (pb_queue p) = Inr (xs, q')" for xs q q'
  proof -
    have "nat (min (rq_limit q) (dq_len (pb_queue p))) \<le> length (dq_items (pb_queue p))"
      by (simp add: dq_len_def nat_le_iff)
    from dq_pop_n_spec[OF assms(3) this] that show ?thesis by auto
  qed
  show "phase_request (pb_phase p') = phase_request (pb_phase p) \<or> phase_request (pb_phase p') = None"
    using assms(1,2)
    by (auto simp: on_responder_error_def Let_def case_prod_unfold split: if_splits responder_phase.splits sum.splits)
  show "inflight_items (pb_phase p') = [] \<or>
      (\<exists>q. phase_request (pb_phase p') = Some q \<and> int (length (inflight_items (pb_phase p'))) \<le> max 0 (rq_limit q))"
    using assms(1,2)
    by (auto simp: on_responder_error_def Let_def case_prod_unfold dest!: pop split: if_splits responder_phase.splits sum.splits)
qed

lemma inflight_without_request: "phase_request ph = None \<Longrightarrow> inflight_items ph = []"
  by (cases ph) auto

lemma lockstep_internal:
  assumes "lockstep c s" "pub_inv c s" "responder_step ev (vl_pub s) = Some p"
    "ev \<in> {EvWake, EvPollOut, EvSendAgain, EvError}"
  shows "lockstep c (s\<lparr>vl_pub := p\<rparr>)"
proof -
  have "dq_inv (pb_queue (vl_pub s))" using assms(2) by (simp add: pub_inv_def Let_def)
  note ph = responder_internal_phase[OF assms(3,4) this]
  show ?thesis
    using assms(1) ph inflight_without_request[of "pb_phase p"] unfolding lockstep_def
    by (cases "rv_pending (vl_rcv s)") auto
qed

lemma lockstep_request:
  assumes ls: "lockstep c s" and req: "vl_req s = Some q" and step: "responder_step (EvRequest q) (vl_pub s) = Some p"
  shows "lockstep c (s\<lparr>vl_pub := p, vl_req := None\<rparr>)"
proof -
  obtain q0 where pend: "rv_pending (vl_rcv s) = Some q0" "q0 = q" "1 \<le> rq_limit q" "vl_resp s = None"
    using ls req by (auto simp: lockstep_def split: option.splits)
  then have "phase_request (pb_phase p) = Some q" "inflight_items (pb_phase p) = []"
    using step by (auto split: if_splits)
  then show ?thesis using pend by (simp add: lockstep_def)
qed

lemma link_inv_reply:
  assumes inv: "link_inv c s" and ph: "pb_phase (vl_pub s) = Sending q items"
    and step: "responder_step EvSendOk (vl_pub s) = Some p"
  shows "link_inv c (s\<lparr>vl_pub := p, vl_resp := Some (response_frames (cd_encR c) q items),
    vl_sent := vl_sent s @ items\<rparr>)"
proof -
  have ls: "lockstep c s" and dl: "delivery c s" and pi: "pub_inv c s" using inv by (auto simp: link_inv_def)
  have pend: "rv_pending (vl_rcv s) = Some q" "vl_req s = None" "vl_resp s = None"
    "int (length items) \<le> rq_limit q" "1 \<le> rq_limit q"
    using ls ph by (auto simp: lockstep_def split: option.splits)
  have p: "pb_phase p = AwaitRequest" using step ph by auto
  have "delivery c (s\<lparr>vl_pub := p, vl_resp := Some (response_frames (cd_encR c) q items), vl_sent := vl_sent s @ items\<rparr>)"
    unfolding delivery_def
    by (rule exI[of _ "vl_sent s"], rule exI[of _ items]) (use dl pend in \<open>simp add: delivery_def\<close>)
  then show ?thesis
    using pub_inv_reply[OF pi ph step] pend p by (simp add: link_inv_def lockstep_def)
qed

lemma close_phase: "phase_request (pb_phase (Publisher_close p)) \<in> {None, phase_request (pb_phase p)} \<and>
  (inflight_items (pb_phase (Publisher_close p)) = [] \<or> pb_phase (Publisher_close p) = pb_phase p)"
  by (simp add: Publisher_close_def)

lemma link_inv_step:
  assumes rt: "codec_roundtrip c (vl_published s)" and "link_step c s t" and inv: "link_inv c s"
  shows "link_inv c t"
  using assms(2)
proof cases
  case (publish r p)
  then show ?thesis
    using inv pub_inv_publish[of c s r p] lockstep_same_phase[of c s p] publish_phase[of "cd_enc c" r "vl_pub s" p]
    by (simp add: link_inv_def)
next
  case (request q p)
  then show ?thesis
    using inv pub_inv_responder[of c s "EvRequest q" p] lockstep_request[of c s q p] by (simp add: link_inv_def)
next
  case (internal ev p)
  then have "ev \<noteq> EvSendOk" by auto
  then show ?thesis
    using inv pub_inv_responder[of c s ev p] lockstep_internal[of c s ev p] internal by (simp add: link_inv_def)
next
  case (reply q items p)
  then show ?thesis using link_inv_reply[OF inv] by simp
next
  case (receive env limit out rcv sent taken)
  then show ?thesis using receive_in_link[OF rt inv receive(2,3,4)] by auto
next
  case close
  have "lockstep c (s\<lparr>vl_pub := Publisher_close (vl_pub s)\<rparr>)"
    using inv close_phase[of "vl_pub s"] unfolding link_inv_def lockstep_def
    by (cases "rv_pending (vl_rcv s)") auto
  then show ?thesis
    using inv pub_inv_close[of c s] close by (simp add: link_inv_def)
qed

lemma published_grows: "link_step c s t \<Longrightarrow> set (vl_published s) \<subseteq> set (vl_published t)"
  by (erule link_step.cases) auto

lemma codec_roundtrip_mono: "codec_roundtrip c rs \<Longrightarrow> set rs' \<subseteq> set rs \<Longrightarrow> codec_roundtrip c rs'"
  by (auto simp: codec_roundtrip_def)

lemma link_reachable_inv:
  assumes "link_reachable c cap s" "codec_roundtrip c (vl_published s)" "1 \<le> cap"
  shows "link_inv c s"
  using assms
proof induction
  case (init config p)
  then show ?case
    by (auto simp: Publisher_start_def Publisher_init_def raise_if_def link_inv_def pub_inv_def Let_def
        lockstep_def delivery_def Receiver_init_def DropOldestRolloutQueue_init_def dq_inv_def dq_len_def)
next
  case (step s t)
  have "codec_roundtrip c (vl_published s)"
    using codec_roundtrip_mono[OF step.prems(1) published_grows[OF step.hyps(2)]] .
  then show ?case using link_inv_step[OF _ step.hyps(2)] step by blast
qed

lemma decoded_published:
  "codec_roundtrip c rs \<Longrightarrow> map (decoded c) (map (encode_rollout (cd_enc c)) rs) = rs"
  by (simp add: decoded_encode map_idI)

section \<open>A concrete run\<close>

text \<open>A codec for rollouts without samples, and a run in which a slow trainer misses the older of two rollouts.\<close>

definition wire_rollout :: "int \<Rightarrow> ValueTrainingRollout" where
  "wire_rollout i = \<lparr>vtr_samples = [], vtr_rollout_id = i, vtr_policy_version = 0, vtr_value_version = 0\<rparr>"

definition wire_codec :: codec where
  "wire_codec = \<lparr>cd_enc = \<lambda>r. [vtr_rollout_id r],
     cd_dec = \<lambda>b. case b of [i] \<Rightarrow> Ok (wire_rollout i) | _ \<Rightarrow> Raise (ValueError ''msgpack''),
     cd_encR = \<lambda>x. [rp_request_id x, rp_count x],
     cd_decR = \<lambda>b. case b of [i, n] \<Rightarrow> Ok \<lparr>rp_request_id = i, rp_count = n\<rparr> | _ \<Rightarrow> Raise (ValueError ''msgpack'')\<rparr>"

definition wire_config :: ZMQValueTransportConfig where
  "wire_config = \<lparr>ztc_port = 5555, ztc_poll_timeout_ms = 0, ztc_max_pending_rollouts = 1\<rparr>"

definition wire_req :: RolloutRequest where
  "wire_req = \<lparr>rq_request_id = 0, rq_limit = 1\<rparr>"

definition wire_link :: "responder_phase \<Rightarrow> int list \<Rightarrow> int list \<Rightarrow> bool \<Rightarrow> bool \<Rightarrow> bool \<Rightarrow> int list \<Rightarrow> int list \<Rightarrow> value_link" where
  "wire_link ph queued published asked req resp sent received =
     \<lparr>vl_pub = \<lparr>pb_queue = \<lparr>dq_capacity = 1,
          dq_items = map (\<lambda>i. encode_rollout (cd_enc wire_codec) (wire_rollout i)) queued,
          dq_num_bytes = int (length queued), dq_num_tokens = 0\<rparr>,
        pb_phase = ph, pb_task = True, pb_closed = False, pb_enqueued = int (length published),
        pb_sent = int (length sent), pb_dropped_oldest = (if length published = 2 then 1 else 0), pb_responder_failures = 0\<rparr>,
      vl_rcv = \<lparr>rv_next_request_id = (if asked then 1 else 0), rv_pending = (if asked \<and> received = [] then Some wire_req else None),
        rv_buffered = []\<rparr>,
      vl_req = (if req then Some wire_req else None),
      vl_resp = (if resp then Some [[0, 1], [2]] else None),
      vl_published = map wire_rollout published,
      vl_sent = map (\<lambda>i. encode_rollout (cd_enc wire_codec) (wire_rollout i)) sent,
      vl_received = map wire_rollout received\<rparr>"

definition wire_env :: "bool \<Rightarrow> bytes list option \<Rightarrow> zmq_env" where
  "wire_env send frames = \<lparr>ze_pollout = send, ze_send_ok = send, ze_pollin = frames \<noteq> None, ze_frames = frames\<rparr>"

lemmas wire_simps = wire_link_def wire_codec_def wire_rollout_def wire_req_def wire_env_def encode_rollout_def
  rollout_tokens_def receive_available_def accept_response_def take_buffered_def env_ok_def Let_def
  Publisher_publish_def raise_if_def dq_append_def dq_popleft_def dq_len_def response_frames_def

lemma link_step_eq: "link_step c s u \<Longrightarrow> u = t \<Longrightarrow> link_step c s t"
  by simp

lemma wire_step1: "link_step wire_codec (wire_link AwaitRequest [] [] False False False [] [])
    (wire_link AwaitRequest [] [] True True False [] [])"
  by (rule link_step_eq, rule link_step.receive[where env = "wire_env True None" and limit = 1 and out = "[]" and sent = "Some wire_req" and taken = False and rcv = "vl_rcv (wire_link AwaitRequest [] [] True True False [] [])"])
    (simp_all add: wire_simps)

lemma wire_step2: "link_step wire_codec (wire_link AwaitRequest [] [] True True False [] [])
    (wire_link (AwaitItems wire_req) [] [] True False False [] [])"
  by (rule link_step_eq, rule link_step.request[where q = wire_req and p = "vl_pub (wire_link (AwaitItems wire_req) [] [] True False False [] [])"])
    (simp_all add: wire_simps)

lemma wire_step3: "link_step wire_codec (wire_link (AwaitItems wire_req) [] [] True False False [] [])
    (wire_link (AwaitItems wire_req) [1] [1] True False False [] [])"
  by (rule link_step_eq, rule link_step.publish[where r = "wire_rollout 1" and p = "vl_pub (wire_link (AwaitItems wire_req) [1] [1] True False False [] [])"])
    (simp_all add: wire_simps)

lemma wire_step4: "link_step wire_codec (wire_link (AwaitItems wire_req) [1] [1] True False False [] [])
    (wire_link (AwaitItems wire_req) [2] [1, 2] True False False [] [])"
  by (rule link_step_eq, rule link_step.publish[where r = "wire_rollout 2" and p = "vl_pub (wire_link (AwaitItems wire_req) [2] [1, 2] True False False [] [])"])
    (simp_all add: wire_simps)

lemma wire_step5: "link_step wire_codec (wire_link (AwaitItems wire_req) [2] [1, 2] True False False [] [])
    (wire_link (Polling wire_req) [2] [1, 2] True False False [] [])"
  by (rule link_step_eq, rule link_step.internal[where ev = EvWake and p = "vl_pub (wire_link (Polling wire_req) [2] [1, 2] True False False [] [])"])
    (simp_all add: wire_simps)

lemma wire_step6: "link_step wire_codec (wire_link (Polling wire_req) [2] [1, 2] True False False [] [])
    (wire_link (Sending wire_req [encode_rollout (cd_enc wire_codec) (wire_rollout 2)]) [] [1, 2] True False False [] [])"
  by (rule link_step_eq, rule link_step.internal[where ev = EvPollOut and p = "vl_pub (wire_link (Sending wire_req [encode_rollout (cd_enc wire_codec) (wire_rollout 2)]) [] [1, 2] True False False [] [])"])
    (simp_all add: wire_simps)

lemma wire_step7: "link_step wire_codec (wire_link (Sending wire_req [encode_rollout (cd_enc wire_codec) (wire_rollout 2)]) [] [1, 2] True False False [] [])
    (wire_link AwaitRequest [] [1, 2] True False True [2] [])"
  by (rule link_step_eq, rule link_step.reply[where q = wire_req and items = "[encode_rollout (cd_enc wire_codec) (wire_rollout 2)]" and p = "vl_pub (wire_link AwaitRequest [] [1, 2] True False True [2] [])"])
    (simp_all add: wire_simps)

lemma wire_step8: "link_step wire_codec (wire_link AwaitRequest [] [1, 2] True False True [2] [])
    (wire_link AwaitRequest [] [1, 2] True False False [2] [2])"
  by (rule link_step_eq, rule link_step.receive[where env = "wire_env True (Some [[0, 1], [2]])" and limit = 1 and out = "[wire_rollout 2]" and sent = None and taken = True and rcv = "vl_rcv (wire_link AwaitRequest [] [1, 2] True False False [2] [2])"])
    (simp_all add: wire_simps)

lemma wire_reachable: "link_reachable wire_codec 1 (wire_link AwaitRequest [] [1, 2] True False False [2] [2])"
proof -
  have "link_reachable wire_codec 1 (wire_link AwaitRequest [] [] False False False [] [])"
    using link_reachable.init[where config = wire_config and cap = 1 and c = wire_codec]
    by (simp add: wire_link_def raise_if_def wire_config_def Publisher_start_def Publisher_init_def DropOldestRolloutQueue_init_def Receiver_init_def)
  note r0 = this
  note r1 = link_reachable.step[OF r0 wire_step1]
  note r2 = link_reachable.step[OF r1 wire_step2]
  note r3 = link_reachable.step[OF r2 wire_step3]
  note r4 = link_reachable.step[OF r3 wire_step4]
  note r5 = link_reachable.step[OF r4 wire_step5]
  note r6 = link_reachable.step[OF r5 wire_step6]
  note r7 = link_reachable.step[OF r6 wire_step7]
  show ?thesis by (rule link_reachable.step[OF r7 wire_step8])
qed

lemma wire_roundtrip: "codec_roundtrip wire_codec [wire_rollout 1, wire_rollout 2]"
  by (simp add: codec_roundtrip_def wire_simps)

section \<open>What the link promises\<close>

text \<open>C3: In every reachable state of publisher, socket and receiver, whatever the interleaving
  of publications, requests, failed sends, responder failures and close, the rollouts the
  trainer got followed by those it has buffered are a subsequence of what was published: never
  reordered, duplicated or corrupted.\<close>

theorem link_fifo:
  assumes reach: "link_reachable c cap s" and cap: "1 \<le> cap" and rt: "codec_roundtrip c (vl_published s)"
  shows "subseq (vl_received s @ rv_buffered (vl_rcv s)) (vl_published s)"
proof -
  have inv: "pub_inv c s" "delivery c s"
    using link_reachable_inv[OF reach rt cap] by (simp_all add: link_inv_def)
  then obtain pre its where d: "vl_sent s = pre @ its" "vl_received s @ rv_buffered (vl_rcv s) = map (decoded c) pre"
    by (auto simp: delivery_def)
  have "subseq (pre @ (its @ inflight_items (pb_phase (vl_pub s)) @ dq_items (pb_queue (vl_pub s))) @ [])
      (map (encode_rollout (cd_enc c)) (vl_published s))"
    using inv(1) d(1) by (simp add: pub_inv_def Let_def)
  from subseq_drop_tail[OF this] have "subseq pre (map (encode_rollout (cd_enc c)) (vl_published s))" by simp
  from subseq_map[OF this, of "decoded c"] show ?thesis
    by (simp only: d(2) decoded_published[OF rt])
qed

theorem link_fifo_witness:
  "subseq (vl_received (wire_link AwaitRequest [] [1, 2] True False False [2] [2]) @
           rv_buffered (vl_rcv (wire_link AwaitRequest [] [1, 2] True False False [2] [2])))
     [wire_rollout 1, wire_rollout 2]"
  using link_fifo[OF wire_reachable] wire_roundtrip by (simp add: wire_link_def)

text \<open>The publisher's counters account for every publication: as long as no responder
  failure and no close has happened, each enqueued rollout was sent, was dropped as oldest, is in
  the queue, or is in the reply being sent; and the drop rate it reports stays between 0 and 1.\<close>

lemma link_conservation:
  assumes reach: "link_reachable c cap s" and cap: "1 \<le> cap" and rt: "codec_roundtrip c (vl_published s)"
    and ok: "pb_responder_failures (vl_pub s) = 0" "\<not> pb_closed (vl_pub s)"
  shows "pb_enqueued (vl_pub s) = int (length (vl_published s)) \<and>
     pb_enqueued (vl_pub s) = pb_sent (vl_pub s) + pb_dropped_oldest (vl_pub s) +
       int (length (inflight_items (pb_phase (vl_pub s)))) + dq_len (pb_queue (vl_pub s)) \<and>
     (\<exists>d \<in> {0..1}. map_of (Publisher_metrics (vl_pub s)) ''value/rollout_queue_drop_rate'' = Some d)"
proof -
  have inv: "pub_inv c s" using link_reachable_inv[OF reach rt cap] by (simp add: link_inv_def)
  then have "0 \<le> pb_dropped_oldest (vl_pub s)" "pb_dropped_oldest (vl_pub s) \<le> pb_enqueued (vl_pub s)"
    by (auto simp: pub_inv_def Let_def dq_len_def)
  then have "(if pb_enqueued (vl_pub s) \<noteq> 0
      then real_of_int (pb_dropped_oldest (vl_pub s)) / real_of_int (pb_enqueued (vl_pub s)) else 0) \<in> {0..1}"
    by (auto simp: divide_le_eq_1)
  then have "\<exists>d \<in> {0..1}. map_of (Publisher_metrics (vl_pub s)) ''value/rollout_queue_drop_rate'' = Some d"
    by (simp add: Publisher_metrics_def)
  then show ?thesis using inv ok by (auto simp: pub_inv_def Let_def)
qed

lemma link_conservation_witness:
  "let s = wire_link AwaitRequest [] [1, 2] True False False [2] [2]
   in pb_enqueued (vl_pub s) = pb_sent (vl_pub s) + pb_dropped_oldest (vl_pub s) \<and> pb_enqueued (vl_pub s) = 2"
  using link_conservation[OF wire_reachable] wire_roundtrip by (simp add: wire_link_def dq_len_def)

text \<open>In every reachable state a receive call with a non-negative limit returns a list of at
  most that many rollouts: the request id, the declared count and the limit of the reply it finds
  always match its pending request, so none of its error branches is taken.\<close>

lemma link_receive_never_raises:
  assumes reach: "link_reachable c cap s" and cap: "1 \<le> cap" and rt: "codec_roundtrip c (vl_published s)"
    and env: "env_ok s env" and lim: "0 \<le> limit"
  shows "\<exists>out r sent taken. receive_available (cd_decR c) (cd_dec c) limit env (vl_rcv s) = (Ok out, r, sent, taken) \<and>
     int (length out) \<le> limit"
proof -
  obtain res r sent taken where rec: "receive_available (cd_decR c) (cd_dec c) limit env (vl_rcv s) = (res, r, sent, taken)"
    by (cases "receive_available (cd_decR c) (cd_dec c) limit env (vl_rcv s)")
  obtain out where "res = Ok out"
    using receive_in_link[OF rt link_reachable_inv[OF reach rt cap] env lim rec] by blast
  then show ?thesis using rec receive_within_limit by blast
qed

lemma link_receive_never_raises_witness:
  "\<exists>out r sent taken. receive_available (cd_decR wire_codec) (cd_dec wire_codec) 4 (wire_env True None)
      (vl_rcv (wire_link AwaitRequest [] [1, 2] True False False [2] [2])) = (Ok out, r, sent, taken) \<and> int (length out) \<le> 4"
  by (rule link_receive_never_raises[OF wire_reachable])
    (use wire_roundtrip in \<open>simp_all add: wire_link_def env_ok_def wire_env_def\<close>)

end
