(* ===== verification/Ordered_Dict.thy ===== *)
theory Ordered_Dict
  imports Prelude
begin

text \<open>
  Python's insertion-ordered dictionaries (\<open>dict\<close>, \<open>OrderedDict\<close>, \<open>defaultdict\<close>)
  as association lists: assignment to a new key appends, assignment to a present key
  updates in place, deletion keeps the order of the rest. The interface that clients rely
  on is the locale \<open>ordered_dict\<close>, interpreted here on these definitions.
\<close>

type_synonym ('k, 'v) odict = "('k \<times> 'v) list"

abbreviation od_get :: "'k \<Rightarrow> ('k, 'v) odict \<Rightarrow> 'v option" where
  "od_get k d \<equiv> map_of d k"

abbreviation od_keys :: "('k, 'v) odict \<Rightarrow> 'k list" where
  "od_keys d \<equiv> map fst d"

abbreviation od_values :: "('k, 'v) odict \<Rightarrow> 'v list" where
  "od_values d \<equiv> map snd d"

fun od_set :: "'k \<Rightarrow> 'v \<Rightarrow> ('k, 'v) odict \<Rightarrow> ('k, 'v) odict" where
  "od_set k v [] = [(k, v)]"
| "od_set k v ((k', v') # d) = (if k' = k then (k, v) # d else (k', v') # od_set k v d)"

definition od_del :: "'k \<Rightarrow> ('k, 'v) odict \<Rightarrow> ('k, 'v) odict" where
  "od_del k d = filter (\<lambda>p. fst p \<noteq> k) d"

text \<open>Mutation of the object stored under a key, through an alias of it.\<close>

fun od_update :: "'k \<Rightarrow> ('v \<Rightarrow> 'v) \<Rightarrow> ('k, 'v) odict \<Rightarrow> ('k, 'v) odict" where
  "od_update k f [] = []"
| "od_update k f ((k', v') # d) = (if k' = k then (k', f v') # d else (k', v') # od_update k f d)"

definition od_ok :: "('k, 'v) odict \<Rightarrow> bool" where
  "od_ok d \<longleftrightarrow> distinct (od_keys d)"

section \<open>Facts about the operations\<close>

lemma od_get_set [simp]: "od_get k (od_set k' v d) = (if k = k' then Some v else od_get k d)"
  by (induction d) auto

lemma od_get_del [simp]: "od_get k (od_del k' d) = (if k = k' then None else od_get k d)"
  by (induction d) (auto simp: od_del_def)

lemma od_get_update [simp]:
  "od_get k (od_update k' f d) = (if k = k' then map_option f (od_get k d) else od_get k d)"
  by (induction d) auto

lemma od_set_fresh: "k \<notin> set (od_keys d) \<Longrightarrow> od_set k v d = d @ [(k, v)]"
  by (induction d) auto

lemma od_keys_set: "od_keys (od_set k v d) = (if k \<in> set (od_keys d) then od_keys d else od_keys d @ [k])"
  by (induction d) (auto, force)

lemma od_keys_update [simp]: "od_keys (od_update k f d) = od_keys d"
  by (induction d) auto

lemma length_od_update [simp]: "length (od_update k f d) = length d"
  by (induction d) auto

lemma od_keys_del: "od_keys (od_del k d) = filter (\<lambda>x. x \<noteq> k) (od_keys d)"
  by (induction d) (auto simp: od_del_def)

lemma od_ok_set [simp, intro]: "od_ok d \<Longrightarrow> od_ok (od_set k v d)"
  by (simp add: od_ok_def od_keys_set)

lemma od_ok_del [simp, intro]: "od_ok d \<Longrightarrow> od_ok (od_del k d)"
  by (simp add: od_ok_def od_keys_del)

lemma od_ok_update [simp, intro]: "od_ok d \<Longrightarrow> od_ok (od_update k f d)"
  by (simp add: od_ok_def)

lemma od_ok_Nil [simp]: "od_ok []"
  by (simp add: od_ok_def)

lemma od_get_mem: "od_ok d \<Longrightarrow> (k, v) \<in> set d \<longleftrightarrow> od_get k d = Some v"
  unfolding od_ok_def by (metis map_of_SomeD map_of_is_SomeI)

lemma od_update_absent: "k \<notin> set (od_keys d) \<Longrightarrow> od_update k f d = d"
  by (induction d) auto

lemma od_update_eq_map:
  "od_ok d \<Longrightarrow> od_update k f d = map (\<lambda>p. if fst p = k then (fst p, f (snd p)) else p) d"
proof (induction d)
  case Nil
  then show ?case by simp
next
  case (Cons p d)
  then show ?case
    by (cases p) (auto simp: od_ok_def intro!: map_idI [symmetric] dest: pair_key_mem)
qed

lemma od_del_present:
  assumes "od_ok d" "od_get k d = Some v"
  shows "mset d = add_mset (k, v) (mset (od_del k d))"
  using assms
proof (induction d)
  case Nil
  then show ?case by simp
next
  case (Cons p d)
  show ?case
  proof (cases "fst p = k")
    case True
    then have "od_del k d = d"
      using Cons.prems(1) by (cases p) (auto simp: od_ok_def od_del_def filter_id_conv dest: pair_key_mem)
    then show ?thesis
      using True Cons.prems by (cases p) (auto simp: od_del_def)
  next
    case False
    then show ?thesis
      using Cons by (cases p) (auto simp: od_ok_def od_del_def)
  qed
qed

lemma od_del_absent: "od_get k d = None \<Longrightarrow> od_del k d = d"
  by (auto simp: od_del_def filter_id_conv map_of_eq_None_iff)

lemma length_od_del:
  assumes "od_ok d" "od_get k d = Some v"
  shows "length d = Suc (length (od_del k d))"
  using arg_cong[OF od_del_present[OF assms], of size] by simp

lemma sum_list_od_del:
  fixes f :: "'k \<times> 'v \<Rightarrow> int"
  assumes "od_ok d" "od_get k d = Some v"
  shows "sum_list (map f (od_del k d)) = sum_list (map f d) - f (k, v)"
proof -
  have "sum_mset (image_mset f (mset d)) = f (k, v) + sum_mset (image_mset f (mset (od_del k d)))"
    using od_del_present[OF assms] by simp
  then show ?thesis
    by (simp flip: sum_mset_sum_list mset_map)
qed

section \<open>The interface\<close>

locale ordered_dict =
  fixes get :: "'k \<Rightarrow> 'd \<Rightarrow> 'v option"
    and put :: "'k \<Rightarrow> 'v \<Rightarrow> 'd \<Rightarrow> 'd"
    and del :: "'k \<Rightarrow> 'd \<Rightarrow> 'd"
    and keys :: "'d \<Rightarrow> 'k list"
    and ok :: "'d \<Rightarrow> bool"
  assumes get_put: "get k (put k' v d) = (if k = k' then Some v else get k d)"
    and get_del: "get k (del k' d) = (if k = k' then None else get k d)"
    and keys_put: "keys (put k v d) = (if k \<in> set (keys d) then keys d else keys d @ [k])"
    and keys_del: "keys (del k d) = filter (\<lambda>x. x \<noteq> k) (keys d)"
    and keys_get: "k \<in> set (keys d) \<longleftrightarrow> get k d \<noteq> None"
    and ok_put: "ok d \<Longrightarrow> ok (put k v d)"
    and ok_del: "ok d \<Longrightarrow> ok (del k d)"
    and ok_keys: "ok d \<Longrightarrow> distinct (keys d)"
begin

lemma put_twice_get: "get k (put k v (put k v' d)) = Some v"
  by (simp add: get_put)

lemma del_put_get: "get k' (del k (put k v d)) = get k' (del k d)"
  by (simp add: get_put get_del)

text \<open>Re-inserting a deleted key moves it to the end: first-in first-out order of insertions.\<close>

lemma reinsert_last: "keys (put k v (del k d)) = filter (\<lambda>x. x \<noteq> k) (keys d) @ [k]"
  by (simp add: keys_put keys_del)

lemma ok_put_del: "ok d \<Longrightarrow> ok (put k v (del k' d))"
  by (simp add: ok_put ok_del)

end

interpretation od: ordered_dict od_get od_set od_del od_keys od_ok
  by unfold_locales
    (auto simp: od_keys_set od_keys_del od_ok_def map_of_eq_None_iff)

end
