(* ===== verification/Value_Replay.thy ===== *)
theory Value_Replay
  imports Value_Types Ordered_Dict Drop_Oldest
begin

text \<open>
  \<^verbatim>\<open>value/replay.py\<close>: the rollout-granular replay buffer of the value trainer. Entries
  sit in an ordered dictionary under increasing ids; \<open>add\<close> evicts the oldest one at
  capacity, \<open>sample\<close> draws \<open>batch_size\<close> distinct entries, counts an attempt on each
  and retires those that reach \<open>max_updates_per_rollout\<close>. The generator's draw
  (\<open>random.Random.sample\<close>) is the argument \<open>draw\<close> of \<open>sample\<close>; what Python
  documents of it is the predicate \<open>valid_draw\<close>.
\<close>

section \<open>State and operations\<close>

record ReplayEntry =
  re_rollout :: ValueTrainingRollout
  re_attempts :: int

definition re_samples :: "ReplayEntry \<Rightarrow> int" where
  "re_samples e = int (length (vtr_samples (re_rollout e)))"

definition re_tokens :: "ReplayEntry \<Rightarrow> int" where
  "re_tokens e = rollout_tokens (re_rollout e)"

record ValueReplayBuffer =
  rb_batch_size :: int
  rb_capacity :: int
  rb_refill_size :: int
  rb_max_updates_per_rollout :: int
  rb_entries :: "(int, ReplayEntry) odict"
  rb_next_entry_id :: int
  rb_ready :: bool
  rb_samples :: int
  rb_tokens :: int
  rb_admitted :: int
  rb_attempts :: int
  rb_retired :: int
  rb_evicted :: int

record ValueReplaySnapshot =
  rs_size :: int
  rs_samples :: int
  rs_tokens :: int
  rs_capacity :: int
  rs_refill_size :: int
  rs_ready :: bool
  rs_admitted :: int
  rs_attempts :: int
  rs_retired :: int
  rs_evicted :: int

definition ValueReplayBuffer_init :: "int \<Rightarrow> int \<Rightarrow> int \<Rightarrow> int \<Rightarrow> ValueReplayBuffer result" where
  "ValueReplayBuffer_init batch_size capacity refill_size max_updates_per_rollout =
     raise_if (batch_size < 1) (ValueError ''batch_size must be positive'')
       (raise_if (capacity < batch_size) (ValueError ''capacity must be at least batch_size'')
         (raise_if (\<not> (batch_size \<le> refill_size \<and> refill_size \<le> capacity))
           (ValueError ''refill_size must be between batch_size and capacity'')
           (raise_if (max_updates_per_rollout < 1) (ValueError ''max_updates_per_rollout must be positive'')
             (Ok \<lparr>rb_batch_size = batch_size, rb_capacity = capacity, rb_refill_size = refill_size,
                  rb_max_updates_per_rollout = max_updates_per_rollout, rb_entries = [],
                  rb_next_entry_id = 0, rb_ready = False, rb_samples = 0, rb_tokens = 0,
                  rb_admitted = 0, rb_attempts = 0, rb_retired = 0, rb_evicted = 0\<rparr>))))"

definition rb_len :: "ValueReplayBuffer \<Rightarrow> int" where
  "rb_len b = int (length (rb_entries b))"

definition can_sample :: "ValueReplayBuffer \<Rightarrow> bool" where
  "can_sample b \<longleftrightarrow> rb_ready b \<and> rb_len b \<ge> rb_batch_size b"

definition admission_limit :: "ValueReplayBuffer \<Rightarrow> int" where
  "admission_limit b =
     (if can_sample b then rb_batch_size b
      else min (rb_batch_size b) (max (rb_refill_size b - rb_len b) 0))"

definition remove_totals :: "ReplayEntry \<Rightarrow> ValueReplayBuffer \<Rightarrow> ValueReplayBuffer" where
  "remove_totals e b = b\<lparr>rb_samples := rb_samples b - re_samples e, rb_tokens := rb_tokens b - re_tokens e\<rparr>"

text \<open>\<open>popitem(last=False)\<close> at capacity; on an empty dictionary it raises KeyError.\<close>

definition evict_oldest :: "ValueReplayBuffer \<Rightarrow> ValueReplayBuffer result" where
  "evict_oldest b =
     (case rb_entries b of
        [] \<Rightarrow> Raise KeyError
      | (k, e) # rest \<Rightarrow>
          Ok ((remove_totals e (b\<lparr>rb_entries := rest\<rparr>))\<lparr>rb_evicted := rb_evicted b + 1\<rparr>))"

definition ValueReplayBuffer_add :: "ValueTrainingRollout \<Rightarrow> ValueReplayBuffer \<Rightarrow> ValueReplayBuffer result" where
  "ValueReplayBuffer_add rollout b =
     raise_if (vtr_samples rollout = []) (ValueError ''value replay rollouts must contain at least one sample'')
       (bindE (if rb_len b = rb_capacity b then evict_oldest b else Ok b) (\<lambda>b1.
          let entry = \<lparr>re_rollout = rollout, re_attempts = 0\<rparr>;
              b2 = b1\<lparr>rb_entries := od_set (rb_next_entry_id b1) entry (rb_entries b1),
                      rb_next_entry_id := rb_next_entry_id b1 + 1,
                      rb_samples := rb_samples b1 + re_samples entry,
                      rb_tokens := rb_tokens b1 + re_tokens entry,
                      rb_admitted := rb_admitted b1 + 1\<rparr>
          in Ok (if \<not> rb_ready b2 \<and> rb_len b2 \<ge> rb_refill_size b2 then b2\<lparr>rb_ready := True\<rparr> else b2)))"

fun ValueReplayBuffer_extend :: "ValueTrainingRollout list \<Rightarrow> ValueReplayBuffer \<Rightarrow> ValueReplayBuffer result" where
  "ValueReplayBuffer_extend [] b = Ok b"
| "ValueReplayBuffer_extend (r # rs) b = bindE (ValueReplayBuffer_add r b) (ValueReplayBuffer_extend rs)"

definition bump_attempts :: "ReplayEntry \<Rightarrow> ReplayEntry" where
  "bump_attempts e = e\<lparr>re_attempts := re_attempts e + 1\<rparr>"

fun retire_loop :: "(int \<times> ReplayEntry) list \<Rightarrow> ValueReplayBuffer \<Rightarrow> ValueReplayBuffer" where
  "retire_loop [] b = b"
| "retire_loop ((entry_id, entry) # rest) b =
     retire_loop rest
       (if re_attempts entry = rb_max_updates_per_rollout b
        then (remove_totals entry (b\<lparr>rb_entries := od_del entry_id (rb_entries b)\<rparr>))
               \<lparr>rb_retired := rb_retired b + 1\<rparr>
        else b)"

definition od_get_chk :: "'k \<Rightarrow> ('k, 'v) odict \<Rightarrow> 'v result" where
  "od_get_chk k d = (case od_get k d of None \<Rightarrow> Raise KeyError | Some v \<Rightarrow> Ok v)"

definition make_batch :: "ReplayEntry list \<Rightarrow> ValueTrainingBatch" where
  "make_batch selected =
     (let attempts = map re_attempts selected; rollouts = map re_rollout selected
      in \<lparr>vtb_samples = concat (map vtr_samples rollouts),
          vtb_num_rollouts = int (length rollouts),
          vtb_rollout_id_min = Min (set (map vtr_rollout_id rollouts)),
          vtb_rollout_id_max = Max (set (map vtr_rollout_id rollouts)),
          vtb_policy_version_min = Min (set (map vtr_policy_version rollouts)),
          vtb_policy_version_max = Max (set (map vtr_policy_version rollouts)),
          vtb_value_version_min = Min (set (map vtr_value_version rollouts)),
          vtb_value_version_max = Max (set (map vtr_value_version rollouts)),
          vtb_replay_attempt_min = Min (set attempts),
          vtb_replay_attempt_max = Max (set attempts),
          vtb_replay_attempt_mean = real_of_int (sum_list attempts) / real (length attempts)\<rparr>)"

definition ValueReplayBuffer_sample ::
  "int list \<Rightarrow> ValueReplayBuffer \<Rightarrow> (ValueTrainingBatch \<times> ValueReplayBuffer) result" where
  "ValueReplayBuffer_sample draw b =
     raise_if (\<not> can_sample b) (RuntimeError ''value replay buffer is filling'')
       (let entry_ids = sort draw;
            entries' = fold (\<lambda>k. od_update k bump_attempts) entry_ids (rb_entries b)
        in bindE (traverse (\<lambda>k. od_get_chk k entries') entry_ids) (\<lambda>selected.
             let b1 = b\<lparr>rb_entries := entries', rb_attempts := rb_attempts b + int (length selected)\<rparr>;
                 batch = make_batch selected;
                 b2 = retire_loop (zip entry_ids selected) b1;
                 b3 = (if rb_len b2 < rb_batch_size b2 then b2\<lparr>rb_ready := False\<rparr> else b2)
             in Ok (batch, b3)))"

definition ValueReplayBuffer_snapshot :: "ValueReplayBuffer \<Rightarrow> ValueReplaySnapshot" where
  "ValueReplayBuffer_snapshot b =
     \<lparr>rs_size = rb_len b, rs_samples = rb_samples b, rs_tokens = rb_tokens b,
      rs_capacity = rb_capacity b, rs_refill_size = rb_refill_size b, rs_ready = rb_ready b,
      rs_admitted = rb_admitted b, rs_attempts = rb_attempts b, rs_retired = rb_retired b,
      rs_evicted = rb_evicted b\<rparr>"

text \<open>
  What \<open>random.Random.sample(population, k)\<close> documents: \<open>k\<close> elements chosen without
  replacement from the population, in any order.
\<close>

definition valid_draw :: "ValueReplayBuffer \<Rightarrow> int list \<Rightarrow> bool" where
  "valid_draw b draw \<longleftrightarrow>
     distinct draw \<and> set draw \<subseteq> set (od_keys (rb_entries b)) \<and> int (length draw) = rb_batch_size b"

section \<open>Invariant\<close>

abbreviation sum_entries :: "(ReplayEntry \<Rightarrow> int) \<Rightarrow> (int, ReplayEntry) odict \<Rightarrow> int" where
  "sum_entries f d \<equiv> sum_list (map (\<lambda>p. f (snd p)) d)"

text \<open>The shape of the buffer: sizes, ids in insertion order, live attempt counts.\<close>

definition replay_shape :: "ValueReplayBuffer \<Rightarrow> bool" where
  "replay_shape b \<longleftrightarrow>
     1 \<le> rb_batch_size b \<and> rb_batch_size b \<le> rb_refill_size b \<and> rb_refill_size b \<le> rb_capacity b \<and>
     1 \<le> rb_max_updates_per_rollout b \<and>
     sorted_wrt (<) (od_keys (rb_entries b)) \<and>
     (\<forall>k\<in>set (od_keys (rb_entries b)). 0 \<le> k \<and> k < rb_next_entry_id b) \<and>
     rb_len b \<le> rb_capacity b \<and>
     (\<forall>p\<in>set (rb_entries b). 0 \<le> re_attempts (snd p) \<and>
        re_attempts (snd p) < rb_max_updates_per_rollout b \<and> vtr_samples (re_rollout (snd p)) \<noteq> [])"

text \<open>The counters agree with the entries.\<close>

definition replay_counts :: "ValueReplayBuffer \<Rightarrow> bool" where
  "replay_counts b \<longleftrightarrow>
     rb_samples b = sum_entries re_samples (rb_entries b) \<and>
     rb_tokens b = sum_entries re_tokens (rb_entries b) \<and>
     rb_admitted b = rb_len b + rb_retired b + rb_evicted b \<and>
     rb_next_entry_id b = rb_admitted b \<and>
     0 \<le> rb_retired b \<and> 0 \<le> rb_evicted b \<and>
     sum_entries re_attempts (rb_entries b) + rb_retired b * rb_max_updates_per_rollout b
       \<le> rb_attempts b \<and>
     rb_attempts b \<le> sum_entries re_attempts (rb_entries b)
       + rb_retired b * rb_max_updates_per_rollout b
       + rb_evicted b * (rb_max_updates_per_rollout b - 1)"

text \<open>Hysteresis: ready means a whole batch is present, filling means the refill mark is not reached.\<close>

definition replay_hysteresis :: "ValueReplayBuffer \<Rightarrow> bool" where
  "replay_hysteresis b \<longleftrightarrow>
     (rb_ready b \<longrightarrow> rb_batch_size b \<le> rb_len b) \<and> (\<not> rb_ready b \<longrightarrow> rb_len b < rb_refill_size b)"

definition replay_inv :: "ValueReplayBuffer \<Rightarrow> bool" where
  "replay_inv b \<longleftrightarrow> replay_shape b \<and> replay_counts b \<and> replay_hysteresis b"

lemmas replay_inv_defs = replay_inv_def replay_shape_def replay_counts_def replay_hysteresis_def

lemma init_inv: "ValueReplayBuffer_init bs cap refill mx = Ok b \<Longrightarrow> replay_inv b"
  by (auto simp: ValueReplayBuffer_init_def raise_if_def replay_inv_defs rb_len_def split: if_splits)

lemma shape_od_ok: "replay_shape b \<Longrightarrow> od_ok (rb_entries b)"
  by (auto simp: replay_shape_def od_ok_def strict_sorted_iff)

lemma can_sample_iff_ready: "replay_inv b \<Longrightarrow> can_sample b \<longleftrightarrow> rb_ready b"
  by (auto simp: replay_inv_defs can_sample_def)

section \<open>Admission\<close>

text \<open>One admission as a pure update of the entry list.\<close>

definition after_evict :: "ValueReplayBuffer \<Rightarrow> (int, ReplayEntry) odict" where
  "after_evict b = (if rb_len b = rb_capacity b then tl (rb_entries b) else rb_entries b)"

lemma add_ok:
  assumes "replay_inv b" "vtr_samples r \<noteq> []"
  obtains b' where "ValueReplayBuffer_add r b = Ok b'"
    "rb_entries b' = after_evict b @ [(rb_next_entry_id b, \<lparr>re_rollout = r, re_attempts = 0\<rparr>)]"
proof -
  have fresh: "rb_next_entry_id b \<notin> set (od_keys (rb_entries b))"
    using assms(1) by (auto simp: replay_inv_defs)
  show thesis
  proof (cases "rb_len b = rb_capacity b")
    case True
    then obtain k e rest where ent: "rb_entries b = (k, e) # rest"
      using assms(1) by (cases "rb_entries b") (auto simp: replay_inv_defs rb_len_def)
    show ?thesis
      using that assms(2) fresh True ent
      by (simp add: ValueReplayBuffer_add_def evict_oldest_def remove_totals_def Let_def
          after_evict_def od_set_fresh raise_if_def split: if_splits)
  next
    case False
    then show ?thesis
      using that assms(2) fresh
      by (simp add: ValueReplayBuffer_add_def Let_def after_evict_def od_set_fresh raise_if_def split: if_splits)
  qed
qed

definition evicted_state :: "ValueReplayBuffer \<Rightarrow> ValueReplayBuffer" where
  "evicted_state b =
     (if rb_len b = rb_capacity b
      then (remove_totals (snd (hd (rb_entries b))) (b\<lparr>rb_entries := tl (rb_entries b)\<rparr>))
             \<lparr>rb_evicted := rb_evicted b + 1\<rparr>
      else b)"

lemma evict_step:
  assumes "replay_inv b"
  shows "(if rb_len b = rb_capacity b then evict_oldest b else Ok b) = Ok (evicted_state b)"
  using assms
  by (cases "rb_entries b") (auto simp: evict_oldest_def evicted_state_def replay_inv_defs rb_len_def)

lemma evicted_state_simps [simp]:
  "rb_entries (evicted_state b) = after_evict b"
  "rb_batch_size (evicted_state b) = rb_batch_size b"
  "rb_capacity (evicted_state b) = rb_capacity b"
  "rb_refill_size (evicted_state b) = rb_refill_size b"
  "rb_max_updates_per_rollout (evicted_state b) = rb_max_updates_per_rollout b"
  "rb_next_entry_id (evicted_state b) = rb_next_entry_id b"
  "rb_ready (evicted_state b) = rb_ready b"
  "rb_admitted (evicted_state b) = rb_admitted b"
  "rb_attempts (evicted_state b) = rb_attempts b"
  "rb_retired (evicted_state b) = rb_retired b"
  "rb_evicted (evicted_state b) = rb_evicted b + (if rb_len b = rb_capacity b then 1 else 0)"
  by (simp_all add: evicted_state_def remove_totals_def after_evict_def)

lemma full_nonempty: "replay_inv b \<Longrightarrow> rb_len b = rb_capacity b \<Longrightarrow> rb_entries b \<noteq> []"
  by (auto simp: replay_inv_defs rb_len_def)

lemma evicted_state_totals:
  assumes "replay_inv b"
  shows "rb_samples (evicted_state b) = sum_entries re_samples (after_evict b)"
    "rb_tokens (evicted_state b) = sum_entries re_tokens (after_evict b)"
  using assms full_nonempty[OF assms]
  by (auto simp: evicted_state_def remove_totals_def after_evict_def sum_list_tl
      replay_inv_def replay_counts_def)

lemma add_fields:
  assumes inv: "replay_inv b" and add: "ValueReplayBuffer_add r b = Ok b'"
  shows "rb_entries b' = after_evict b @ [(rb_next_entry_id b, \<lparr>re_rollout = r, re_attempts = 0\<rparr>)]"
    and "rb_batch_size b' = rb_batch_size b" "rb_capacity b' = rb_capacity b"
    and "rb_refill_size b' = rb_refill_size b"
    and "rb_max_updates_per_rollout b' = rb_max_updates_per_rollout b"
    and "rb_next_entry_id b' = rb_next_entry_id b + 1" "rb_admitted b' = rb_admitted b + 1"
    and "rb_attempts b' = rb_attempts b" "rb_retired b' = rb_retired b"
    and "rb_samples b' = sum_entries re_samples (after_evict b) + re_samples \<lparr>re_rollout = r, re_attempts = 0\<rparr>"
    and "rb_tokens b' = sum_entries re_tokens (after_evict b) + re_tokens \<lparr>re_rollout = r, re_attempts = 0\<rparr>"
    and "rb_evicted b' = rb_evicted b + (if rb_len b = rb_capacity b then 1 else 0)"
    and "rb_ready b' = (rb_ready b \<or> rb_refill_size b \<le> rb_len b')"
    and "vtr_samples r \<noteq> []"
proof -
  let ?n = "\<lparr>re_rollout = r, re_attempts = 0\<rparr>"
  have fresh: "rb_next_entry_id b \<notin> set (od_keys (after_evict b))"
    using inv by (cases "rb_entries b") (auto simp: replay_inv_defs after_evict_def)
  let ?b2 = "(evicted_state b)\<lparr>rb_entries := after_evict b @ [(rb_next_entry_id b, ?n)],
      rb_next_entry_id := rb_next_entry_id b + 1,
      rb_samples := sum_entries re_samples (after_evict b) + re_samples ?n,
      rb_tokens := sum_entries re_tokens (after_evict b) + re_tokens ?n,
      rb_admitted := rb_admitted b + 1\<rparr>"
  show ne: "vtr_samples r \<noteq> []"
    using add by (auto simp: ValueReplayBuffer_add_def)
  have "ValueReplayBuffer_add r b =
      Ok (if \<not> rb_ready b \<and> rb_len ?b2 \<ge> rb_refill_size b then ?b2\<lparr>rb_ready := True\<rparr> else ?b2)"
    unfolding ValueReplayBuffer_add_def evict_step[OF inv]
    by (simp add: ne Let_def od_set_fresh[OF fresh] evicted_state_totals[OF inv])
  then have b': "b' = (if \<not> rb_ready b \<and> rb_len ?b2 \<ge> rb_refill_size b then ?b2\<lparr>rb_ready := True\<rparr> else ?b2)"
    using add by (simp only: sum.inject)
  show "rb_entries b' = after_evict b @ [(rb_next_entry_id b, ?n)]"
    "rb_batch_size b' = rb_batch_size b" "rb_capacity b' = rb_capacity b"
    "rb_refill_size b' = rb_refill_size b"
    "rb_max_updates_per_rollout b' = rb_max_updates_per_rollout b"
    "rb_next_entry_id b' = rb_next_entry_id b + 1" "rb_admitted b' = rb_admitted b + 1"
    "rb_attempts b' = rb_attempts b" "rb_retired b' = rb_retired b"
    "rb_samples b' = sum_entries re_samples (after_evict b) + re_samples ?n"
    "rb_tokens b' = sum_entries re_tokens (after_evict b) + re_tokens ?n"
    "rb_evicted b' = rb_evicted b + (if rb_len b = rb_capacity b then 1 else 0)"
    "rb_ready b' = (rb_ready b \<or> rb_refill_size b \<le> rb_len b')"
    by (simp_all add: b' rb_len_def)
qed

lemma after_evict_facts:
  assumes "replay_inv b"
  shows "set (after_evict b) \<subseteq> set (rb_entries b)"
    "sorted_wrt (<) (od_keys (after_evict b))"
    "int (length (after_evict b)) = rb_len b - (if rb_len b = rb_capacity b then 1 else 0)"
    "sum_entries re_attempts (after_evict b) \<le> sum_entries re_attempts (rb_entries b)"
    "sum_entries re_attempts (rb_entries b) \<le> sum_entries re_attempts (after_evict b) +
       (if rb_len b = rb_capacity b then rb_max_updates_per_rollout b - 1 else 0)"
proof -
  have ne: "rb_len b = rb_capacity b \<Longrightarrow> rb_entries b \<noteq> []"
    by (rule full_nonempty[OF assms])
  have srt: "sorted_wrt (<) (od_keys (rb_entries b))"
    using assms by (simp add: replay_inv_def replay_shape_def)
  show "set (after_evict b) \<subseteq> set (rb_entries b)"
    by (cases "rb_entries b") (auto simp: after_evict_def)
  show "sorted_wrt (<) (od_keys (after_evict b))"
    using srt by (cases "rb_entries b") (simp_all add: after_evict_def)
  show "int (length (after_evict b)) = rb_len b - (if rb_len b = rb_capacity b then 1 else 0)"
    using ne by (cases "rb_entries b") (auto simp: after_evict_def rb_len_def)
  have hd: "rb_entries b \<noteq> [] \<Longrightarrow> 0 \<le> re_attempts (snd (hd (rb_entries b))) \<and>
      re_attempts (snd (hd (rb_entries b))) < rb_max_updates_per_rollout b"
    using assms hd_in_set by (auto simp: replay_inv_def replay_shape_def)
  show "sum_entries re_attempts (after_evict b) \<le> sum_entries re_attempts (rb_entries b)"
    "sum_entries re_attempts (rb_entries b) \<le> sum_entries re_attempts (after_evict b) +
       (if rb_len b = rb_capacity b then rb_max_updates_per_rollout b - 1 else 0)"
    using ne hd by (auto simp: after_evict_def sum_list_tl)
qed

lemma add_inv:
  assumes inv: "replay_inv b" and add: "ValueReplayBuffer_add r b = Ok b'"
  shows "replay_inv b'"
proof -
  note f = add_fields[OF inv add] and e = after_evict_facts[OF inv]
  have len: "rb_len b' = rb_len b + (if rb_len b = rb_capacity b then 0 else 1)"
    using e(3) f(1) by (simp add: rb_len_def)
  have cap: "rb_len b \<le> rb_capacity b" and mx: "1 \<le> rb_max_updates_per_rollout b"
    and adm: "rb_admitted b = rb_len b + rb_retired b + rb_evicted b" "rb_next_entry_id b = rb_admitted b"
    and nn: "0 \<le> rb_retired b" "0 \<le> rb_evicted b" "0 \<le> rb_len b"
    using inv by (auto simp: replay_inv_defs rb_len_def)
  have shape: "replay_shape b'"
    unfolding replay_shape_def
  proof (intro conjI)
    show "sorted_wrt (<) (od_keys (rb_entries b'))"
      using e(1,2) f(1) inv by (auto simp: sorted_wrt_append replay_inv_def replay_shape_def)
    show "\<forall>k\<in>set (od_keys (rb_entries b')). 0 \<le> k \<and> k < rb_next_entry_id b'"
      using e(1) f(1,6) inv nn adm by (fastforce simp: replay_inv_def replay_shape_def)
    show "\<forall>p\<in>set (rb_entries b'). 0 \<le> re_attempts (snd p) \<and>
        re_attempts (snd p) < rb_max_updates_per_rollout b' \<and> vtr_samples (re_rollout (snd p)) \<noteq> []"
      using e(1) f(1,5,14) inv mx by (fastforce simp: replay_inv_def replay_shape_def)
    show "rb_len b' \<le> rb_capacity b'"
      using len cap f(3) by auto
  qed (use inv f(2-5) in \<open>auto simp: replay_inv_def replay_shape_def\<close>)
  have counts: "replay_counts b'"
    using inv e(4,5) f len adm nn
    by (auto simp: replay_inv_def replay_counts_def re_samples_def re_tokens_def algebra_simps)
  have "replay_hysteresis b'"
    using inv f(2,3,4,13) len by (auto simp: replay_inv_defs)
  then show ?thesis
    using shape counts by (simp add: replay_inv_def)
qed

lemma extend_inv:
  "replay_inv b \<Longrightarrow> ValueReplayBuffer_extend rs b = Ok b' \<Longrightarrow> replay_inv b'"
  by (induction rs arbitrary: b) (auto simp: result_simps dest: add_inv)

text \<open>The buffer is a drop-oldest container of rollouts.\<close>

lemma extend_push_all: "ValueReplayBuffer_extend rs b = push_all ValueReplayBuffer_add rs b"
proof (induction rs arbitrary: b)
  case (Cons r rs)
  then have "ValueReplayBuffer_extend rs = push_all ValueReplayBuffer_add rs" by blast
  then show ?case by simp
qed simp

definition rb_rollouts :: "ValueReplayBuffer \<Rightarrow> ValueTrainingRollout list" where
  "rb_rollouts b = map (\<lambda>p. re_rollout (snd p)) (rb_entries b)"

interpretation replay: drop_oldest ValueReplayBuffer_add rb_rollouts "\<lambda>b. nat (rb_capacity b)" replay_inv
  "\<lambda>r. vtr_samples r \<noteq> []"
proof unfold_locales
  fix q x q'
  assume inv: "replay_inv q"
  show "0 < nat (rb_capacity q)" "length (rb_rollouts q) \<le> nat (rb_capacity q)"
    using inv by (auto simp: replay_inv_def replay_shape_def rb_rollouts_def rb_len_def)
  show "\<exists>q'. ValueReplayBuffer_add x q = Ok q'" if "vtr_samples x \<noteq> []"
    using add_ok[OF inv that] by blast
  assume add: "ValueReplayBuffer_add x q = Ok q'"
  show "replay_inv q'" by (rule add_inv[OF inv add])
  show "nat (rb_capacity q') = nat (rb_capacity q)" by (simp add: add_fields(3)[OF inv add])
  show "rb_rollouts q' = (if length (rb_rollouts q) = nat (rb_capacity q) then tl (rb_rollouts q) else rb_rollouts q) @ [x]"
    using inv by (auto simp: rb_rollouts_def add_fields(1)[OF inv add] after_evict_def rb_len_def map_tl
        replay_inv_def replay_shape_def)
qed

section \<open>Sampling\<close>

lemma fold_bump_eq:
  assumes "od_ok d" "distinct ids"
  shows "fold (\<lambda>k. od_update k bump_attempts) ids d =
    map (\<lambda>p. if fst p \<in> set ids then (fst p, bump_attempts (snd p)) else p) d"
  using assms
proof (induction ids arbitrary: d)
  case Nil
  then show ?case by (simp add: map_idI)
next
  case (Cons k ids)
  then have "fold (\<lambda>k. od_update k bump_attempts) (k # ids) d =
      map (\<lambda>p. if fst p \<in> set ids then (fst p, bump_attempts (snd p)) else p) (od_update k bump_attempts d)"
    by simp
  also have "\<dots> = map (\<lambda>p. if fst p \<in> set (k # ids) then (fst p, bump_attempts (snd p)) else p) d"
    using Cons.prems by (auto simp: od_update_eq_map)
  finally show ?case .
qed

text \<open>The retirement loop removes exactly the selected entries that have used up their attempts.\<close>

definition spent :: "int \<Rightarrow> int \<times> ReplayEntry \<Rightarrow> bool" where
  "spent mx p \<longleftrightarrow> re_attempts (snd p) = mx"

lemma retire_loop_fields:
  "rb_batch_size (retire_loop sel b) = rb_batch_size b"
  "rb_capacity (retire_loop sel b) = rb_capacity b"
  "rb_refill_size (retire_loop sel b) = rb_refill_size b"
  "rb_max_updates_per_rollout (retire_loop sel b) = rb_max_updates_per_rollout b"
  "rb_next_entry_id (retire_loop sel b) = rb_next_entry_id b"
  "rb_ready (retire_loop sel b) = rb_ready b"
  "rb_admitted (retire_loop sel b) = rb_admitted b"
  "rb_attempts (retire_loop sel b) = rb_attempts b"
  "rb_evicted (retire_loop sel b) = rb_evicted b"
  by (induction sel b rule: retire_loop.induct) (auto simp: remove_totals_def)

lemma retire_loop_entries:
  "rb_entries (retire_loop sel b) =
     filter (\<lambda>p. fst p \<notin> fst ` set (filter (spent (rb_max_updates_per_rollout b)) sel)) (rb_entries b)"
  by (induction sel b rule: retire_loop.induct)
    (auto simp: remove_totals_def od_del_def spent_def intro!: filter_cong)

lemma retire_loop_totals:
  "rb_samples (retire_loop sel b) =
     rb_samples b - sum_entries re_samples (filter (spent (rb_max_updates_per_rollout b)) sel)"
  "rb_tokens (retire_loop sel b) =
     rb_tokens b - sum_entries re_tokens (filter (spent (rb_max_updates_per_rollout b)) sel)"
  "rb_retired (retire_loop sel b) =
     rb_retired b + int (length (filter (spent (rb_max_updates_per_rollout b)) sel))"
  by (induction sel b rule: retire_loop.induct) (auto simp: remove_totals_def spent_def)

abbreviation bumped :: "int list \<Rightarrow> (int, ReplayEntry) odict \<Rightarrow> (int, ReplayEntry) odict" where
  "bumped ids d \<equiv> map (\<lambda>p. if fst p \<in> set ids then (fst p, bump_attempts (snd p)) else p) d"

definition drawn :: "int list \<Rightarrow> ValueReplayBuffer \<Rightarrow> ReplayEntry list" where
  "drawn draw b = map (\<lambda>k. bump_attempts (the (od_get k (rb_entries b)))) (sort draw)"

lemma od_keys_bumped [simp]: "od_keys (bumped ids d) = od_keys d"
  by (induction d) auto

lemma bump_attempts_simps [simp]:
  "re_attempts (bump_attempts e) = re_attempts e + 1"
  "re_rollout (bump_attempts e) = re_rollout e"
  "re_samples (bump_attempts e) = re_samples e"
  "re_tokens (bump_attempts e) = re_tokens e"
  by (simp_all add: bump_attempts_def re_samples_def re_tokens_def)

lemma sum_entries_bumped:
  assumes "\<And>e. f (bump_attempts e) = f e"
  shows "sum_entries f (bumped ids d) = sum_entries f d"
  using assms by (induction d) auto

lemma sum_attempts_bumped:
  assumes "od_ok d" "distinct ids" "set ids \<subseteq> set (od_keys d)"
  shows "sum_entries re_attempts (bumped ids d) = sum_entries re_attempts d + int (length ids)"
proof -
  have "sum_entries re_attempts (bumped ids d) =
      sum_entries re_attempts d + int (length (filter (\<lambda>k. k \<in> set ids) (od_keys d)))"
    by (induction d) auto
  moreover have "mset (filter (\<lambda>k. k \<in> set ids) (od_keys d)) = mset ids"
    using assms by (subst set_eq_iff_mset_eq_distinct [symmetric]) (auto simp: od_ok_def)
  then have "length (filter (\<lambda>k. k \<in> set ids) (od_keys d)) = length ids"
    by (metis size_mset)
  ultimately show ?thesis by simp
qed

lemma od_get_bumped:
  "od_get k (bumped ids d) = map_option (\<lambda>e. if k \<in> set ids then bump_attempts e else e) (od_get k d)"
  by (induction d) auto

text \<open>With a valid draw, sampling is a bump of the drawn entries followed by a filter.\<close>

lemma sample_eq:
  assumes inv: "replay_inv b" and can: "can_sample b" and draw: "valid_draw b draw"
  defines "d \<equiv> bumped draw (rb_entries b)"
  defines "b2 \<equiv> retire_loop (zip (sort draw) (drawn draw b))
      (b\<lparr>rb_entries := d, rb_attempts := rb_attempts b + rb_batch_size b\<rparr>)"
  shows "ValueReplayBuffer_sample draw b =
    Ok (make_batch (drawn draw b), if rb_len b2 < rb_batch_size b then b2\<lparr>rb_ready := False\<rparr> else b2)"
proof -
  have ok: "od_ok (rb_entries b)"
    using inv by (simp add: replay_inv_def shape_od_ok)
  have fold: "fold (\<lambda>k. od_update k bump_attempts) (sort draw) (rb_entries b) = d"
    using fold_bump_eq[OF ok, of "sort draw"] draw by (simp add: valid_draw_def d_def)
  have trav: "traverse (\<lambda>k. od_get_chk k d) (sort draw) = Ok (drawn draw b)"
    unfolding drawn_def
  proof (rule traverse_total)
    fix k assume "k \<in> set (sort draw)"
    then obtain e where "od_get k (rb_entries b) = Some e"
      using draw by (fastforce simp: valid_draw_def map_of_eq_None_iff dest: set_mp)
    with \<open>k \<in> set (sort draw)\<close> show "od_get_chk k d = Ok (bump_attempts (the (od_get k (rb_entries b))))"
      by (simp add: od_get_chk_def d_def od_get_bumped)
  qed
  have len: "int (length (drawn draw b)) = rb_batch_size b"
    using draw by (simp add: drawn_def valid_draw_def)
  show ?thesis
    using can by (simp add: ValueReplayBuffer_sample_def Let_def fold trav len b2_def retire_loop_fields)
qed

lemma drawn_zip:
  assumes inv: "replay_inv b" and draw: "valid_draw b draw"
  shows "mset (zip (sort draw) (drawn draw b)) =
    mset (filter (\<lambda>p. fst p \<in> set draw) (bumped draw (rb_entries b)))"
proof -
  let ?d = "bumped draw (rb_entries b)"
  have ok: "od_ok ?d"
    using inv by (simp add: od_ok_def replay_inv_def shape_od_ok [unfolded od_ok_def] del: map_map)
  have "distinct (od_keys (zip (sort draw) (drawn draw b)))"
    using draw by (simp add: drawn_def valid_draw_def)
  then have dz: "distinct (zip (sort draw) (drawn draw b))"
    by (simp only: distinct_map)
  have dd: "distinct (filter (\<lambda>p. fst p \<in> set draw) ?d)"
    using ok unfolding od_ok_def distinct_map [of fst] by (intro distinct_filter) blast
  have zipset: "set (zip (sort draw) (drawn draw b)) =
      (\<lambda>k. (k, bump_attempts (the (od_get k (rb_entries b))))) ` set draw"
    by (simp add: drawn_def zip_map2 zip_same_conv_map)
  have "(k, e) \<in> set (zip (sort draw) (drawn draw b)) \<longleftrightarrow> k \<in> set draw \<and> (k, e) \<in> set ?d" for k e
  proof (cases "k \<in> set draw")
    case True
    then obtain e0 where "od_get k (rb_entries b) = Some e0"
      using draw by (fastforce simp: valid_draw_def map_of_eq_None_iff dest: set_mp)
    then show ?thesis
      using True zipset od_get_mem[OF ok, of k e] by (auto simp: od_get_bumped)
  qed (use zipset in auto)
  then have "set (zip (sort draw) (drawn draw b)) = set (filter (\<lambda>p. fst p \<in> set draw) ?d)"
    by (auto simp del: set_map)
  then show ?thesis
    by (rule set_eq_iff_mset_eq_distinct[OF dz dd, THEN iffD1])
qed

lemma live_attempts: "replay_inv b \<Longrightarrow> (k, e) \<in> set (rb_entries b) \<Longrightarrow> re_attempts e < rb_max_updates_per_rollout b"
  unfolding replay_inv_def replay_shape_def by force

lemma bumped_attempts:
  assumes "replay_inv b" "p \<in> set (bumped draw (rb_entries b))"
  shows "re_attempts (snd p) \<le> rb_max_updates_per_rollout b"
    and "re_attempts (snd p) = rb_max_updates_per_rollout b \<Longrightarrow> fst p \<in> set draw"
proof -
  obtain q where q: "p = (if fst q \<in> set draw then (fst q, bump_attempts (snd q)) else q)"
    "q \<in> set (rb_entries b)"
    using assms(2) unfolding set_map by (rule imageE)
  then have "re_attempts (snd q) < rb_max_updates_per_rollout b"
    using live_attempts[OF assms(1), of "fst q" "snd q"] by simp
  then show "re_attempts (snd p) \<le> rb_max_updates_per_rollout b"
    and "re_attempts (snd p) = rb_max_updates_per_rollout b \<Longrightarrow> fst p \<in> set draw"
    using q(1) by (auto split: if_splits)
qed

lemma key_in_filter:
  assumes "distinct (map fst d)" "p \<in> set d"
  shows "fst p \<in> fst ` set (filter P d) \<longleftrightarrow> P p"
  using assms by (cases p) (force dest: eq_key_imp_eq_value)

text \<open>Only drawn entries can be spent after the bump, so retirement is a filter on attempts.\<close>

lemma spent_drawn:
  assumes inv: "replay_inv b" and draw: "valid_draw b draw"
  shows "mset (filter (spent (rb_max_updates_per_rollout b)) (zip (sort draw) (drawn draw b))) =
    mset (filter (spent (rb_max_updates_per_rollout b)) (bumped draw (rb_entries b)))"
proof -
  let ?mx = "rb_max_updates_per_rollout b"
  have "filter (spent ?mx) (filter (\<lambda>p. fst p \<in> set draw) (bumped draw (rb_entries b))) =
      filter (spent ?mx) (bumped draw (rb_entries b))"
    unfolding filter_filter using bumped_attempts(2)[OF inv]
    by (intro filter_cong) (auto simp: spent_def simp del: set_map)
  then show ?thesis
    using arg_cong[OF drawn_zip[OF inv draw], of "filter_mset (spent ?mx)"]
    by (simp only: mset_filter [symmetric])
qed

definition after_sample :: "int list \<Rightarrow> ValueReplayBuffer \<Rightarrow> (int, ReplayEntry) odict" where
  "after_sample draw b =
     filter (\<lambda>p. re_attempts (snd p) < rb_max_updates_per_rollout b) (bumped draw (rb_entries b))"

lemma sample_fields:
  assumes inv: "replay_inv b" and draw: "valid_draw b draw"
    and smp: "ValueReplayBuffer_sample draw b = Ok (batch, b')"
  defines "gone \<equiv> filter (spent (rb_max_updates_per_rollout b)) (bumped draw (rb_entries b))"
  shows "batch = make_batch (drawn draw b)" and "can_sample b"
    and "rb_entries b' = after_sample draw b"
    and "rb_batch_size b' = rb_batch_size b" "rb_capacity b' = rb_capacity b"
    and "rb_refill_size b' = rb_refill_size b"
    and "rb_max_updates_per_rollout b' = rb_max_updates_per_rollout b"
    and "rb_next_entry_id b' = rb_next_entry_id b" "rb_admitted b' = rb_admitted b"
    and "rb_attempts b' = rb_attempts b + rb_batch_size b"
    and "rb_retired b' = rb_retired b + int (length gone)"
    and "rb_samples b' = rb_samples b - sum_entries re_samples gone"
    and "rb_tokens b' = rb_tokens b - sum_entries re_tokens gone"
    and "rb_evicted b' = rb_evicted b"
    and "rb_ready b' = (rb_ready b \<and> rb_batch_size b \<le> rb_len b')"
proof -
  let ?mx = "rb_max_updates_per_rollout b"
  let ?sel = "zip (sort draw) (drawn draw b)"
  let ?b1 = "b\<lparr>rb_entries := bumped draw (rb_entries b), rb_attempts := rb_attempts b + rb_batch_size b\<rparr>"
  let ?b2 = "retire_loop ?sel ?b1"
  show can: "can_sample b"
    using smp by (auto simp: ValueReplayBuffer_sample_def raise_if_def split: if_splits)
  have eq: "batch = make_batch (drawn draw b)"
    "b' = (if rb_len ?b2 < rb_batch_size b then ?b2\<lparr>rb_ready := False\<rparr> else ?b2)"
    using smp sample_eq[OF inv can draw] by simp_all
  have g: "mset (filter (spent ?mx) ?sel) = mset gone"
    unfolding gone_def by (rule spent_drawn[OF inv draw])
  have sums: "sum_entries f (filter (spent ?mx) ?sel) = sum_entries f gone" for f :: "ReplayEntry \<Rightarrow> int"
    using arg_cong[OF g, of "\<lambda>m. sum_mset (image_mset (\<lambda>p. f (snd p)) m)"]
    by (simp only: sum_mset_sum_list flip: mset_map)
  have len: "length (filter (spent ?mx) ?sel) = length gone"
    using g by (metis size_mset)
  have keys: "set (filter (spent ?mx) ?sel) = set gone"
    using g by (metis set_mset_mset)
  have ok: "distinct (od_keys (bumped draw (rb_entries b)))"
    using inv by (simp add: replay_inv_def shape_od_ok [unfolded od_ok_def] del: map_map)
  have ent: "rb_entries ?b2 = after_sample draw b"
  proof -
    have "fst p \<in> fst ` set gone \<longleftrightarrow> \<not> re_attempts (snd p) < ?mx"
      if p: "p \<in> set (bumped draw (rb_entries b))" for p
    proof -
      have "re_attempts (snd p) \<le> ?mx"
        by (rule bumped_attempts(1)[OF inv p])
      then show ?thesis
        unfolding gone_def key_in_filter[OF ok p] spent_def by auto
    qed
    then show ?thesis
      unfolding retire_loop_entries after_sample_def using keys by (intro filter_cong) auto
  qed
  show "batch = make_batch (drawn draw b)" by (rule eq(1))
  show "rb_entries b' = after_sample draw b"
    using ent by (simp add: eq(2))
  show "rb_batch_size b' = rb_batch_size b" "rb_capacity b' = rb_capacity b"
    "rb_refill_size b' = rb_refill_size b"
    "rb_max_updates_per_rollout b' = rb_max_updates_per_rollout b"
    "rb_next_entry_id b' = rb_next_entry_id b" "rb_admitted b' = rb_admitted b"
    "rb_attempts b' = rb_attempts b + rb_batch_size b" "rb_evicted b' = rb_evicted b"
    by (simp_all add: eq(2) retire_loop_fields)
  show "rb_ready b' = (rb_ready b \<and> rb_batch_size b \<le> rb_len b')"
    by (auto simp: eq(2) retire_loop_fields rb_len_def)
  show "rb_retired b' = rb_retired b + int (length gone)"
    "rb_samples b' = rb_samples b - sum_entries re_samples gone"
    "rb_tokens b' = rb_tokens b - sum_entries re_tokens gone"
    using sums len by (simp_all add: eq(2) retire_loop_totals)
qed

lemma after_sample_facts:
  assumes inv: "replay_inv b" and draw: "valid_draw b draw"
  defines "gone \<equiv> filter (spent (rb_max_updates_per_rollout b)) (bumped draw (rb_entries b))"
  shows "sum_entries f (after_sample draw b) = sum_entries f (bumped draw (rb_entries b)) - sum_entries f gone"
    and "int (length (after_sample draw b)) = rb_len b - int (length gone)"
    and "sum_entries re_attempts gone = int (length gone) * rb_max_updates_per_rollout b"
proof -
  let ?d = "bumped draw (rb_entries b)" and ?mx = "rb_max_updates_per_rollout b"
  have as: "after_sample draw b = filter (\<lambda>p. \<not> spent ?mx p) ?d"
    unfolding after_sample_def
    by (rule filter_cong[OF refl]) (use bumped_attempts(1)[OF inv] in \<open>fastforce simp: spent_def\<close>)
  show "sum_entries f (after_sample draw b) = sum_entries f ?d - sum_entries f gone"
    unfolding as gone_def using sum_list_map_filter_split[of "\<lambda>p. f (snd p)" ?d "spent ?mx"] by simp
  show "int (length (after_sample draw b)) = rb_len b - int (length gone)"
    unfolding as gone_def using length_filter_split[of ?d "spent ?mx"] by (simp add: rb_len_def)
  have "sum_entries re_attempts (filter (spent ?mx) d) = int (length (filter (spent ?mx) d)) * ?mx" for d
    by (induction d) (auto simp: spent_def algebra_simps)
  then show "sum_entries re_attempts gone = int (length gone) * ?mx"
    by (simp add: gone_def)
qed

lemma sample_inv:
  assumes inv: "replay_inv b" and draw: "valid_draw b draw"
    and smp: "ValueReplayBuffer_sample draw b = Ok (batch, b')"
  shows "replay_inv b'"
proof -
  note f = sample_fields[OF inv draw smp] and a = after_sample_facts[OF inv draw]
  have ok: "od_ok (rb_entries b)"
    using inv by (simp add: replay_inv_def shape_od_ok)
  have att: "sum_entries re_attempts (bumped draw (rb_entries b)) =
      sum_entries re_attempts (rb_entries b) + rb_batch_size b"
    using sum_attempts_bumped[OF ok, of draw] draw by (simp add: valid_draw_def del: map_map)
  have len: "rb_len b' = rb_len b - int (length (filter (spent (rb_max_updates_per_rollout b)) (bumped draw (rb_entries b))))"
    using a(2) f(3) by (simp add: rb_len_def)
  have "replay_shape b'"
    unfolding replay_shape_def
  proof (intro conjI)
    show "sorted_wrt (<) (od_keys (rb_entries b'))"
      unfolding f(3) after_sample_def
      by (rule sorted_wrt_map_filter) (use inv in \<open>simp add: replay_inv_def replay_shape_def del: map_map\<close>)
    show "\<forall>k\<in>set (od_keys (rb_entries b')). 0 \<le> k \<and> k < rb_next_entry_id b'"
    proof
      fix k assume "k \<in> set (od_keys (rb_entries b'))"
      then have "k \<in> set (od_keys (bumped draw (rb_entries b)))"
        unfolding f(3) after_sample_def set_map set_filter by blast
      then have "k \<in> set (od_keys (rb_entries b))"
        by (simp only: od_keys_bumped)
      then show "0 \<le> k \<and> k < rb_next_entry_id b'"
        using inv unfolding f(8) replay_inv_def replay_shape_def by blast
    qed
    show "\<forall>p\<in>set (rb_entries b'). 0 \<le> re_attempts (snd p) \<and>
        re_attempts (snd p) < rb_max_updates_per_rollout b' \<and> vtr_samples (re_rollout (snd p)) \<noteq> []"
      unfolding f(3,7) after_sample_def using inv
      by (fastforce simp: replay_inv_def replay_shape_def)
    show "rb_len b' \<le> rb_capacity b'"
      using len inv unfolding f(5) by (simp add: replay_inv_def replay_shape_def)
  qed (use inv f(4-7) in \<open>auto simp: replay_inv_def replay_shape_def\<close>)
  moreover have "replay_counts b'"
    unfolding replay_counts_def f(3,7-14) len a(1) a(3) att
    using inv by (simp add: replay_inv_def replay_counts_def sum_entries_bumped algebra_simps del: map_map)
  moreover have "replay_hysteresis b'"
    using inv f(2,4,6,15) by (auto simp: replay_inv_defs can_sample_def)
  ultimately show ?thesis
    by (simp add: replay_inv_def)
qed

section \<open>Runs\<close>

datatype replay_op = OpAdd ValueTrainingRollout | OpSample "int list"

text \<open>Every sequence of calls that the value trainer can make on one buffer.\<close>

inductive replay_run :: "ValueReplayBuffer \<Rightarrow> replay_op list \<Rightarrow> ValueReplayBuffer \<Rightarrow> bool" where
  start: "replay_run b [] b"
| admit: "replay_run b ops b1 \<Longrightarrow> ValueReplayBuffer_add r b1 = Ok b2 \<Longrightarrow> replay_run b (ops @ [OpAdd r]) b2"
| draw: "replay_run b ops b1 \<Longrightarrow> valid_draw b1 d \<Longrightarrow> ValueReplayBuffer_sample d b1 = Ok (batch, b2) \<Longrightarrow>
     replay_run b (ops @ [OpSample d]) b2"

fun selections :: "int \<Rightarrow> replay_op list \<Rightarrow> int" where
  "selections k [] = 0"
| "selections k (OpAdd r # ops) = selections k ops"
| "selections k (OpSample d # ops) = int (count_list d k) + selections k ops"

lemma selections_append [simp]: "selections k (xs @ ys) = selections k xs + selections k ys"
  by (induction k xs rule: selections.induct) auto

lemma replay_run_inv: "replay_run b ops b' \<Longrightarrow> replay_inv b \<Longrightarrow> replay_inv b'"
  by (induction rule: replay_run.induct) (auto dest: add_inv sample_inv)

lemma replay_run_config:
  "replay_run b ops b' \<Longrightarrow> replay_inv b \<Longrightarrow> rb_max_updates_per_rollout b' = rb_max_updates_per_rollout b"
proof (induction rule: replay_run.induct)
  case (admit b ops b1 r b2)
  then show ?case using add_fields(5) replay_run_inv by metis
next
  case (draw b ops b1 d batch b2)
  then show ?case using sample_fields(7) replay_run_inv by metis
qed simp

text \<open>The attempt count of a live entry is the number of times its id was drawn.\<close>

definition attempts_exact :: "replay_op list \<Rightarrow> ValueReplayBuffer \<Rightarrow> bool" where
  "attempts_exact ops b \<longleftrightarrow>
     (\<forall>k. 0 \<le> selections k ops \<and> selections k ops \<le> rb_max_updates_per_rollout b) \<and>
     (\<forall>(k, e)\<in>set (rb_entries b). re_attempts e = selections k ops) \<and>
     (\<forall>k. rb_next_entry_id b \<le> k \<longrightarrow> selections k ops = 0)"

lemma attempts_exact_add:
  assumes "replay_inv b" "attempts_exact ops b" "ValueReplayBuffer_add r b = Ok b'"
  shows "attempts_exact (ops @ [OpAdd r]) b'"
  using assms(2) after_evict_facts(1)[OF assms(1)]
  unfolding attempts_exact_def add_fields(1,5,6)[OF assms(1,3)] by auto

lemma attempts_exact_sample:
  assumes inv: "replay_inv b" and draw: "valid_draw b d" and ex: "attempts_exact ops b"
    and smp: "ValueReplayBuffer_sample d b = Ok (batch, b')"
  shows "attempts_exact (ops @ [OpSample d]) b'"
proof -
  note f = sample_fields[OF inv draw smp]
  have dist: "distinct d" and sub: "set d \<subseteq> set (od_keys (rb_entries b))"
    using draw by (auto simp: valid_draw_def)
  have one: "int (count_list d k) = (if k \<in> set d then 1 else 0)" for k
    using dist by (auto simp: count_list_distinct)
  have lt: "selections k ops + 1 \<le> rb_max_updates_per_rollout b" if kd: "k \<in> set d" for k
  proof -
    obtain e where "(k, e) \<in> set (rb_entries b)" using kd sub by fastforce
    then show ?thesis using ex live_attempts[OF inv] by (fastforce simp: attempts_exact_def)
  qed
  have next_id: "k \<notin> set d" if "rb_next_entry_id b \<le> k" for k
    using that sub inv by (fastforce simp: replay_inv_def replay_shape_def)
  have bounds: "0 \<le> selections k ops" "selections k ops \<le> rb_max_updates_per_rollout b" for k
    using ex by (auto simp: attempts_exact_def)
  have live: "re_attempts e = selections k (ops @ [OpSample d])"
    if ke: "(k, e) \<in> set (rb_entries b')" for k e
  proof -
    obtain q where q: "q \<in> set (rb_entries b)"
      "(k, e) = (if fst q \<in> set d then (fst q, bump_attempts (snd q)) else q)"
      using ke unfolding f(3) after_sample_def set_filter set_map by blast
    then have "re_attempts (snd q) = selections (fst q) ops"
      using ex by (auto simp: attempts_exact_def)
    then show ?thesis using q(2) one by (cases q) (auto split: if_splits)
  qed
  show ?thesis
    unfolding attempts_exact_def f(7,8)
    using one lt next_id bounds live ex by (auto simp: attempts_exact_def)
qed

lemma replay_run_attempts:
  assumes "replay_run b ops b'" "replay_inv b" "rb_entries b = []" "rb_next_entry_id b = 0"
  shows "attempts_exact ops b'"
  using assms
proof (induction rule: replay_run.induct)
  case (start b)
  then show ?case by (auto simp: attempts_exact_def replay_inv_def replay_shape_def)
next
  case (admit b ops b1 r b2)
  then show ?case using attempts_exact_add replay_run_inv by blast
next
  case (draw b ops b1 d batch b2)
  then show ?case using attempts_exact_sample replay_run_inv by blast
qed


section \<open>A concrete run\<close>

text \<open>One admission and one draw on a buffer of capacity two, used by the witnesses.\<close>

definition demo_rollout :: ValueTrainingRollout where
  "demo_rollout = \<lparr>vtr_samples = [\<lparr>vts_token_ids = [7, 8], vts_mask = [False, True], vts_targets = [0, 1]\<rparr>],
     vtr_rollout_id = 0, vtr_policy_version = 3, vtr_value_version = 1\<rparr>"

definition demo_b0 :: ValueReplayBuffer where
  "demo_b0 = \<lparr>rb_batch_size = 1, rb_capacity = 2, rb_refill_size = 1, rb_max_updates_per_rollout = 2,
     rb_entries = [], rb_next_entry_id = 0, rb_ready = False, rb_samples = 0, rb_tokens = 0,
     rb_admitted = 0, rb_attempts = 0, rb_retired = 0, rb_evicted = 0\<rparr>"

definition demo_b1 :: ValueReplayBuffer where
  "demo_b1 = demo_b0\<lparr>rb_entries := [(0, \<lparr>re_rollout = demo_rollout, re_attempts = 0\<rparr>)],
     rb_next_entry_id := 1, rb_ready := True, rb_samples := 1, rb_tokens := 2, rb_admitted := 1\<rparr>"

definition demo_b2 :: ValueReplayBuffer where
  "demo_b2 = demo_b1\<lparr>rb_entries := [(0, \<lparr>re_rollout = demo_rollout, re_attempts = 1\<rparr>)], rb_attempts := 1\<rparr>"

lemmas demo_defs = demo_rollout_def demo_b0_def demo_b1_def demo_b2_def

lemma demo_init: "ValueReplayBuffer_init 1 2 1 2 = Ok demo_b0"
  by (simp add: ValueReplayBuffer_init_def demo_b0_def)

lemma demo_add: "ValueReplayBuffer_add demo_rollout demo_b0 = Ok demo_b1"
  by (simp add: ValueReplayBuffer_add_def demo_defs rb_len_def re_samples_def re_tokens_def rollout_tokens_def)

lemma demo_draw: "valid_draw demo_b1 [0]"
  by (simp add: valid_draw_def demo_defs)

lemma demo_sample: "ValueReplayBuffer_sample [0] demo_b1 =
    Ok (make_batch [\<lparr>re_rollout = demo_rollout, re_attempts = 1\<rparr>], demo_b2)"
  by (simp add: ValueReplayBuffer_sample_def can_sample_def od_get_chk_def demo_defs rb_len_def
      bump_attempts_def Let_def)

lemma demo_run: "replay_run demo_b0 [OpAdd demo_rollout, OpSample [0]] demo_b2"
  using replay_run.draw[OF replay_run.admit[OF replay_run.start demo_add] demo_draw demo_sample] by simp

lemma demo_b1_inv: "replay_inv demo_b1"
  by (rule add_inv[OF init_inv[OF demo_init] demo_add])

section \<open>Properties\<close>

text \<open>
  C1: In every state that a freshly constructed buffer can reach through successful
  \<open>add\<close> and \<open>sample\<close> calls, the size stays within the capacity, the entry ids are
  strictly increasing in dictionary order, the sample/token totals equal the sums over the
  entries, every admitted rollout is present, retired or evicted, and the ready flag obeys
  the refill hysteresis.
\<close>

theorem replay_reachable_invariant:
  assumes "ValueReplayBuffer_init bs cap refill mx = Ok b0" and "replay_run b0 ops b"
  shows "replay_inv b"
  using replay_run_inv[OF assms(2) init_inv[OF assms(1)]] .

theorem replay_reachable_invariant_witness:
  "replay_run demo_b0 [OpAdd demo_rollout, OpSample [0]] demo_b2 \<and> replay_inv demo_b2"
  using replay_reachable_invariant[OF demo_init demo_run] demo_run by blast

text \<open>
  C2: No rollout is ever selected for more than \<open>max_updates_per_rollout\<close> optimizer
  batches: over any run, an entry id occurs in at most that many draws, and the attempt
  counter of an entry still in the buffer is exactly its number of selections.
\<close>

theorem replay_selection_cap:
  assumes "ValueReplayBuffer_init bs cap refill mx = Ok b0" and "replay_run b0 ops b"
  shows "selections k ops \<le> mx \<and> (\<forall>e. (k, e) \<in> set (rb_entries b) \<longrightarrow> re_attempts e = selections k ops)"
proof -
  have b0: "rb_entries b0 = []" "rb_next_entry_id b0 = 0" "rb_max_updates_per_rollout b0 = mx"
    using assms(1) by (auto simp: ValueReplayBuffer_init_def raise_if_def split: if_splits)
  have "attempts_exact ops b"
    by (rule replay_run_attempts[OF assms(2) init_inv[OF assms(1)] b0(1,2)])
  moreover have "rb_max_updates_per_rollout b = mx"
    using replay_run_config[OF assms(2) init_inv[OF assms(1)]] b0(3) by simp
  ultimately show ?thesis
    by (auto simp: attempts_exact_def)
qed

theorem replay_selection_cap_witness:
  "replay_run demo_b0 [OpAdd demo_rollout, OpSample [0]] demo_b2 \<and>
   selections 0 [OpAdd demo_rollout, OpSample [0]] \<le> 2"
  using replay_selection_cap[OF demo_init demo_run, of 0] demo_run by simp

text \<open>
  A successful \<open>sample\<close> returns exactly \<open>batch_size\<close> rollouts, their samples
  concatenated in admission order, with attempt statistics between 1 and
  \<open>max_updates_per_rollout\<close>; afterwards the buffer holds the other entries unchanged and
  the drawn ones with one more attempt, minus those that have reached the cap.
\<close>

lemma replay_sample_functional:
  assumes inv: "replay_inv b" and draw: "valid_draw b draw"
    and smp: "ValueReplayBuffer_sample draw b = Ok (batch, b')"
  shows "vtb_num_rollouts batch = rb_batch_size b \<and>
    vtb_samples batch = concat (map (\<lambda>k. vtr_samples (re_rollout (the (od_get k (rb_entries b))))) (sort draw)) \<and>
    1 \<le> vtb_replay_attempt_min batch \<and> vtb_replay_attempt_max batch \<le> rb_max_updates_per_rollout b \<and>
    (\<forall>k. od_get k (rb_entries b') =
       (case od_get k (rb_entries b) of None \<Rightarrow> None
        | Some e \<Rightarrow> if k \<notin> set draw then Some e
                   else if re_attempts e + 1 = rb_max_updates_per_rollout b then None
                   else Some (e\<lparr>re_attempts := re_attempts e + 1\<rparr>)))"
proof -
  note f = sample_fields[OF inv draw smp]
  have ok: "od_ok (rb_entries b)"
    using inv by (simp add: replay_inv_def shape_od_ok)
  have len: "int (length (drawn draw b)) = rb_batch_size b" "1 \<le> rb_batch_size b"
    using draw inv by (simp_all add: drawn_def valid_draw_def replay_inv_def replay_shape_def)
  then have ne: "drawn draw b \<noteq> []" by auto
  have att: "1 \<le> re_attempts e \<and> re_attempts e \<le> rb_max_updates_per_rollout b" if "e \<in> set (drawn draw b)" for e
  proof -
    from that obtain k where k: "k \<in> set draw" "e = bump_attempts (the (od_get k (rb_entries b)))"
      by (auto simp: drawn_def)
    then obtain e0 where "od_get k (rb_entries b) = Some e0"
      using draw by (fastforce simp: valid_draw_def map_of_eq_None_iff dest: set_mp)
    moreover from this have "(k, e0) \<in> set (rb_entries b)"
      by (rule map_of_SomeD)
    then have "0 \<le> re_attempts e0 \<and> re_attempts e0 < rb_max_updates_per_rollout b"
      using inv unfolding replay_inv_def replay_shape_def by force
    ultimately show ?thesis
      using k(2) by simp
  qed
  have "od_get k (rb_entries b') =
       (case od_get k (rb_entries b) of None \<Rightarrow> None
        | Some e \<Rightarrow> if k \<notin> set draw then Some e
                   else if re_attempts e + 1 = rb_max_updates_per_rollout b then None
                   else Some (e\<lparr>re_attempts := re_attempts e + 1\<rparr>))" for k
  proof -
    have "od_get k (rb_entries b') = (case od_get k (bumped draw (rb_entries b)) of None \<Rightarrow> None
        | Some e \<Rightarrow> if re_attempts e < rb_max_updates_per_rollout b then Some e else None)"
      unfolding f(3) after_sample_def
      using map_of_filter_value[of "bumped draw (rb_entries b)" "\<lambda>e. re_attempts e < rb_max_updates_per_rollout b" k] ok
      by (simp add: od_ok_def del: map_map)
    moreover have "re_attempts e < rb_max_updates_per_rollout b" if "od_get k (rb_entries b) = Some e" for e
      using live_attempts[OF inv map_of_SomeD[OF that]] .
    ultimately show ?thesis
      by (force simp: od_get_bumped bump_attempts_def split: option.splits)
  qed
  moreover have "1 \<le> vtb_replay_attempt_min batch \<and> vtb_replay_attempt_max batch \<le> rb_max_updates_per_rollout b"
    using ne att unfolding f(1) by (simp add: make_batch_def)
  moreover have "vtb_num_rollouts batch = rb_batch_size b" "vtb_samples batch =
      concat (map (\<lambda>k. vtr_samples (re_rollout (the (od_get k (rb_entries b))))) (sort draw))"
    using len(1) unfolding f(1) by (simp_all add: make_batch_def Let_def drawn_def o_def)
  ultimately show ?thesis by blast
qed

lemma replay_sample_functional_witness:
  "\<exists>batch. ValueReplayBuffer_sample [0] demo_b1 = Ok (batch, demo_b2) \<and>
     vtb_num_rollouts batch = 1 \<and> vtb_samples batch = vtr_samples demo_rollout"
  using replay_sample_functional[OF demo_b1_inv demo_draw demo_sample] demo_sample
  by (auto simp: demo_defs)

text \<open>
  C24: The coordinator is never stuck while filling: a buffer that cannot be sampled admits
  at least one rollout on its next turn, and admitting the missing
  \<open>refill_size - len\<close> non-empty rollouts always succeeds and makes it sampleable.
\<close>

theorem replay_refill_progress:
  assumes inv: "replay_inv b" and filling: "\<not> can_sample b"
    and rs: "\<forall>r\<in>set rs. vtr_samples r \<noteq> []" "int (length rs) = rb_refill_size b - rb_len b"
  shows "1 \<le> admission_limit b \<and> (\<exists>b'. ValueReplayBuffer_extend rs b = Ok b' \<and> can_sample b')"
proof -
  have less: "rb_len b < rb_refill_size b" "\<not> rb_ready b"
    using inv filling can_sample_iff_ready[OF inv] by (auto simp: replay_inv_def replay_hysteresis_def)
  have lim: "1 \<le> admission_limit b"
    using inv filling less by (simp add: admission_limit_def replay_inv_def replay_shape_def)
  have "\<exists>b'. ValueReplayBuffer_extend rs b = Ok b' \<and> rb_ready b'"
    using inv rs less
  proof (induction rs arbitrary: b)
    case Nil
    then show ?case by simp
  next
    case (Cons r rs)
    obtain b1 where b1: "ValueReplayBuffer_add r b = Ok b1"
      using add_ok[OF Cons.prems(1)] Cons.prems(2) by (metis list.set_intros(1))
    note inv1 = add_inv[OF Cons.prems(1) b1] and f = add_fields[OF Cons.prems(1) b1]
    have "rb_len b < rb_capacity b"
      using Cons.prems(1,4) by (auto simp: replay_inv_def replay_shape_def)
    then have len: "rb_len b1 = rb_len b + 1"
      using f(1) by (simp add: rb_len_def after_evict_def)
    show ?case
    proof (cases "rs = []")
      case True
      then show ?thesis using b1 f(13) len Cons.prems(3) by simp
    next
      case False
      then have "0 < int (length rs)" by simp
      then have "rb_len b1 < rb_refill_size b1" "\<not> rb_ready b1"
        using len f(4,13) Cons.prems(3,5) by (auto simp del: of_nat_0_less_iff length_greater_0_conv)
      then show ?thesis
        using Cons.IH[OF inv1] b1 len f(4) Cons.prems(2,3) by simp
    qed
  qed
  then obtain b' where b': "ValueReplayBuffer_extend rs b = Ok b'" "rb_ready b'" by blast
  then have "can_sample b'"
    using can_sample_iff_ready[OF extend_inv[OF inv b'(1)]] by simp
  with lim b'(1) show ?thesis by blast
qed

theorem replay_refill_progress_witness:
  "1 \<le> admission_limit demo_b0 \<and>
   (\<exists>b'. ValueReplayBuffer_extend [demo_rollout] demo_b0 = Ok b' \<and> can_sample b')"
proof -
  have "\<not> can_sample demo_b0" "\<forall>r\<in>set [demo_rollout]. vtr_samples r \<noteq> []"
    "int (length [demo_rollout]) = rb_refill_size demo_b0 - rb_len demo_b0"
    by (simp_all add: can_sample_def demo_defs rb_len_def)
  from replay_refill_progress[OF init_inv[OF demo_init] this] show ?thesis .
qed

end
