(* ===== verification/Value_Batch.thy ===== *)
theory Value_Batch
  imports Value_Types
begin

text \<open>
  \<^verbatim>\<open>value/batch.py\<close>: first-fit-decreasing packing of sequences into microbatches of at
  most \<open>seq_len\<close> tokens, dealt round-robin to the data-parallel ranks so that every rank
  runs the same number of forward passes, and the materialisation of each packed bin.
\<close>

section \<open>Packing of indices\<close>

text \<open>\<open>sorted(range(n), key=..., reverse=True)\<close>: Python keeps the order of equal keys, as \<open>sort_key\<close> does.\<close>

definition decreasing_order :: "nat list \<Rightarrow> nat list" where
  "decreasing_order lengths = sort_key (\<lambda>i. - int (lengths ! i)) [0..<length lengths]"

text \<open>\<open>bins\<close> and \<open>remaining\<close> grow together; a bin is paired with its remaining capacity.\<close>

fun place_first_fit :: "int \<Rightarrow> nat \<Rightarrow> int \<Rightarrow> (nat list \<times> int) list \<Rightarrow> (nat list \<times> int) list" where
  "place_first_fit seq_len i len [] = [([i], seq_len - len)]"
| "place_first_fit seq_len i len ((b, capacity) # rest) =
     (if len \<le> capacity then (b @ [i], capacity - len) # rest
      else (b, capacity) # place_first_fit seq_len i len rest)"

fun first_fit :: "int \<Rightarrow> nat list \<Rightarrow> nat list \<Rightarrow> (nat list \<times> int) list \<Rightarrow> (nat list \<times> int) list" where
  "first_fit seq_len lengths [] bins = bins"
| "first_fit seq_len lengths (i # is) bins =
     first_fit seq_len lengths is (place_first_fit seq_len i (int (lengths ! i)) bins)"

text \<open>\<open>while len(bins) % world_size: bins.append([])\<close>\<close>

function pad_bins :: "nat \<Rightarrow> 'a list list \<Rightarrow> 'a list list" where
  "pad_bins world_size bins =
     (if world_size = 0 \<or> length bins mod world_size = 0 then bins
      else pad_bins world_size (bins @ [[]]))"
  by pat_completeness auto
termination
proof (relation "measure (\<lambda>(w, bins). (w - length bins mod w) mod w)")
  fix w :: nat and bins :: "'a list list"
  assume a: "\<not> (w = 0 \<or> length bins mod w = 0)"
  let ?m = "length bins mod w"
  have m: "0 < ?m" "?m < w" using a by auto
  have "Suc (length bins) mod w = (if Suc ?m = w then 0 else Suc ?m)"
    by (simp add: mod_Suc)
  then have "(w - Suc (length bins) mod w) mod w < (w - ?m) mod w"
    using m by (cases "Suc ?m = w") (auto simp: mod_less)
  then show "((w, bins @ [[]]), w, bins) \<in> measure (\<lambda>(w, bins). (w - length bins mod w) mod w)"
    by simp
qed simp

declare pad_bins.simps [simp del]

text \<open>\<open>grid[index % world_size].append(packed)\<close> for the enumerated bins.\<close>

fun deal_bins :: "nat \<Rightarrow> nat \<Rightarrow> 'a list \<Rightarrow> 'a list list \<Rightarrow> 'a list list" where
  "deal_bins world_size k [] grid = grid"
| "deal_bins world_size k (b # bs) grid =
     deal_bins world_size (Suc k) bs
       (grid[k mod world_size := grid ! (k mod world_size) @ [b]])"

definition pack_indices :: "nat list \<Rightarrow> int \<Rightarrow> int \<Rightarrow> bool \<Rightarrow> nat list list list result" where
  "pack_indices lengths seq_len world_size pack_sequences =
     raise_if (lengths = []) (ValueError ''cannot pack an empty value batch'')
       (raise_if (world_size < 1) (ValueError ''value packing world_size must be positive'')
         (raise_if (\<exists>len \<in> set lengths. len = 0 \<or> int len > seq_len)
            (ValueError ''value sample length is outside [1, seq_len]'')
            (let ordered = decreasing_order lengths;
                 bins = (if pack_sequences then map fst (first_fit seq_len lengths ordered [])
                         else map (\<lambda>i. [i]) ordered);
                 w = nat world_size
             in Ok (deal_bins w 0 (pad_bins w bins) (replicate w [])))))"

section \<open>Materialisation\<close>

record ValueMicroBatch =
  vmb_input_ids :: "int list"
  vmb_position_ids :: "int list"
  vmb_mask :: "bool list"
  vmb_targets :: "real list"
  vmb_sequence_lengths :: "nat list"
  vmb_sample_indices :: "int list"

record ValueInputMicroBatch =
  vib_input_ids :: "int list"
  vib_position_ids :: "int list"
  vib_sequence_lengths :: "nat list"
  vib_sample_indices :: "int list"

definition positions :: "nat \<Rightarrow> int list" where
  "positions n = map int [0..<n]"

definition append_sample :: "ValueTrainingSample list \<Rightarrow> nat \<Rightarrow> ValueMicroBatch \<Rightarrow> ValueMicroBatch" where
  "append_sample samples i mb =
     (let s = samples ! i; n = length (vts_token_ids s)
      in \<lparr>vmb_input_ids = vmb_input_ids mb @ vts_token_ids s,
          vmb_position_ids = vmb_position_ids mb @ positions n,
          vmb_mask = vmb_mask mb @ vts_mask s,
          vmb_targets = vmb_targets mb @ vts_targets s,
          vmb_sequence_lengths = vmb_sequence_lengths mb @ [n],
          vmb_sample_indices = vmb_sample_indices mb @ [int i]\<rparr>)"

definition materialize_samples :: "nat list \<Rightarrow> ValueTrainingSample list \<Rightarrow> int \<Rightarrow> ValueMicroBatch" where
  "materialize_samples sample_indices samples pad_token_id =
     (if sample_indices = []
      then \<lparr>vmb_input_ids = [pad_token_id], vmb_position_ids = [0], vmb_mask = [False], vmb_targets = [0],
            vmb_sequence_lengths = [1], vmb_sample_indices = [-1]\<rparr>
      else fold (append_sample samples) sample_indices
             \<lparr>vmb_input_ids = [], vmb_position_ids = [], vmb_mask = [], vmb_targets = [],
              vmb_sequence_lengths = [], vmb_sample_indices = []\<rparr>)"

definition append_input :: "int list list \<Rightarrow> nat \<Rightarrow> ValueInputMicroBatch \<Rightarrow> ValueInputMicroBatch" where
  "append_input token_ids i mb =
     (let tokens = token_ids ! i
      in mb\<lparr>vib_input_ids := vib_input_ids mb @ tokens,
            vib_position_ids := vib_position_ids mb @ positions (length tokens),
            vib_sequence_lengths := vib_sequence_lengths mb @ [length tokens]\<rparr>)"

definition materialize_inputs :: "nat list \<Rightarrow> int list list \<Rightarrow> int \<Rightarrow> ValueInputMicroBatch" where
  "materialize_inputs sample_indices token_ids pad_token_id =
     (if sample_indices = []
      then \<lparr>vib_input_ids = [pad_token_id], vib_position_ids = [0], vib_sequence_lengths = [1],
            vib_sample_indices = [-1]\<rparr>
      else fold (append_input token_ids) sample_indices
             \<lparr>vib_input_ids = [], vib_position_ids = [], vib_sequence_lengths = [],
              vib_sample_indices = map int sample_indices\<rparr>)"

definition sample_aligned :: "ValueTrainingSample \<Rightarrow> bool" where
  "sample_aligned s \<longleftrightarrow>
     length (vts_mask s) = length (vts_token_ids s) \<and> length (vts_targets s) = length (vts_token_ids s)"

definition pack_value_samples ::
  "ValueTrainingSample list \<Rightarrow> int \<Rightarrow> int \<Rightarrow> int \<Rightarrow> bool \<Rightarrow> ValueMicroBatch list list result" where
  "pack_value_samples samples seq_len world_size pad_token_id pack_sequences =
     raise_if (\<not> list_all sample_aligned samples)
       (ValueError ''value sample token, mask, and target streams must align'')
       (bindE (pack_indices (map (\<lambda>s. length (vts_token_ids s)) samples) seq_len world_size pack_sequences) (\<lambda>grid.
          Ok (map (map (\<lambda>indices. materialize_samples indices samples pad_token_id)) grid)))"

definition pack_value_inputs ::
  "int list list \<Rightarrow> int \<Rightarrow> int \<Rightarrow> int \<Rightarrow> bool \<Rightarrow> ValueInputMicroBatch list list result" where
  "pack_value_inputs token_ids seq_len world_size pad_token_id pack_sequences =
     bindE (pack_indices (map length token_ids) seq_len world_size pack_sequences) (\<lambda>grid.
       Ok (map (map (\<lambda>indices. materialize_inputs indices token_ids pad_token_id)) grid))"

section \<open>First fit\<close>

definition bin_total :: "nat list \<Rightarrow> nat list \<Rightarrow> int" where
  "bin_total lengths b = sum_list (map (\<lambda>i. int (lengths ! i)) b)"

lemma bin_total_simps [simp]:
  "bin_total lengths [] = 0" "bin_total lengths (b @ c) = bin_total lengths b + bin_total lengths c"
  "bin_total lengths (i # b) = int (lengths ! i) + bin_total lengths b"
  by (simp_all add: bin_total_def)

lemma int_sum_list: "sum_list (map int xs) = int (sum_list xs)"
  by (induction xs) auto

lemma bin_total_concat: "sum_list (map (bin_total lengths) bs) = bin_total lengths (concat bs)"
  by (induction bs) auto

lemma bin_total_mset: "mset b = mset c \<Longrightarrow> bin_total lengths b = bin_total lengths c"
  by (simp add: bin_total_def mset_map flip: sum_mset_sum_list)

lemma bin_total_upt: "bin_total lengths [0..<length lengths] = int (sum_list lengths)"
proof -
  have "bin_total lengths [0..<length lengths] = sum_list (map int (map ((!) lengths) [0..<length lengths]))"
    by (simp add: bin_total_def comp_def)
  then show ?thesis by (simp only: map_nth int_sum_list)
qed

lemma bin_total_nonneg [simp]: "0 \<le> bin_total lengths b"
  by (induction b) auto

text \<open>Each bin records its remaining capacity, and no later bin would fit into an earlier one.\<close>

definition bins_ok :: "int \<Rightarrow> nat list \<Rightarrow> (nat list \<times> int) list \<Rightarrow> bool" where
  "bins_ok seq_len lengths bins \<longleftrightarrow>
     (\<forall>(b, c) \<in> set bins. b \<noteq> [] \<and> 0 \<le> c \<and> bin_total lengths b + c = seq_len) \<and>
     sorted_wrt (\<lambda>x y. snd x < bin_total lengths (fst y)) bins"

lemma place_mset:
  "mset (concat (map fst (place_first_fit seq_len i len bins))) = mset (concat (map fst bins)) + {#i#}"
  by (induction seq_len i len bins rule: place_first_fit.induct) auto

lemma place_members:
  "(b, c) \<in> set (place_first_fit seq_len i len bins) \<Longrightarrow>
     (b, c) \<in> set bins \<or> (b, c) = ([i], seq_len - len) \<or> (\<exists>b' c'. (b', c') \<in> set bins \<and> len \<le> c' \<and> b = b' @ [i] \<and> c = c' - len)"
  by (induction seq_len i len bins rule: place_first_fit.induct) (auto split: if_splits)

lemma place_bins_ok:
  assumes "bins_ok seq_len lengths bins" "len = int (lengths ! i)" "len \<le> seq_len" 
  shows "bins_ok seq_len lengths (place_first_fit seq_len i len bins)"
  using assms
proof (induction seq_len i len bins rule: place_first_fit.induct)
  case (1 seq_len i len)
  then show ?case by (simp add: bins_ok_def)
next
  case (2 seq_len i len b capacity rest)
  show ?case
  proof (cases "len \<le> capacity")
    case True
    then show ?thesis using 2 by (auto simp: bins_ok_def)
  next
    case False
    have ih: "bins_ok seq_len lengths (place_first_fit seq_len i len rest)"
      using 2 False by (auto simp: bins_ok_def)
    have "capacity < bin_total lengths b'" if "(b', c') \<in> set (place_first_fit seq_len i len rest)" for b' c'
      using place_members[OF that] 2(2,3) False by (auto simp: bins_ok_def)
    then show ?thesis using ih False 2(2) by (auto simp: bins_ok_def)
  qed
qed

lemma first_fit_ok:
  assumes "bins_ok seq_len lengths bins" "\<And>i. i \<in> set is \<Longrightarrow> int (lengths ! i) \<le> seq_len"
  shows "bins_ok seq_len lengths (first_fit seq_len lengths is bins) \<and>
    mset (concat (map fst (first_fit seq_len lengths is bins))) = mset (concat (map fst bins)) + mset is"
  using assms
  by (induction "is" arbitrary: bins) (simp_all add: place_bins_ok place_mset)

section \<open>Padding and dealing\<close>

lemma pad_bins_spec:
  assumes "0 < w"
  shows "\<exists>k. pad_bins w bins = bins @ replicate k [] \<and> w dvd length (pad_bins w bins) \<and> k < w"
  using assms
proof (induction w bins rule: pad_bins.induct)
  case (1 w bins)
  show ?case
  proof (cases "length bins mod w = 0")
    case True
    then show ?thesis using 1(2) by (intro exI[of _ 0]) (simp add: pad_bins.simps mod_eq_0_iff_dvd)
  next
    case False
    then obtain k where k: "pad_bins w (bins @ [[]]) = (bins @ [[]]) @ replicate k []"
      "w dvd length (pad_bins w (bins @ [[]]))" "k < w" using 1 by auto
    have "Suc k < w"
    proof (rule ccontr)
      assume "\<not> Suc k < w"
      then have "Suc k = w" using k(3) by simp
      then have "w dvd length bins + w" using k(1,2) by simp
      then show False using False by (simp add: mod_eq_0_iff_dvd)
    qed
    then show ?thesis
      using k 1(2) False by (intro exI[of _ "Suc k"]) (simp add: pad_bins.simps[of w bins] replicate_append_same)
  qed
qed

lemma deal_length [simp]: "length (deal_bins w k bs grid) = length grid"
  by (induction w k bs grid rule: deal_bins.induct) auto

lemma deal_row:
  assumes "length grid = w" "r < w"
  shows "deal_bins w k bs grid ! r = grid ! r @ map ((!) bs) (filter (\<lambda>j. (k + j) mod w = r) [0..<length bs])"
  using assms
proof (induction w k bs grid rule: deal_bins.induct)
  case (1 w k grid)
  then show ?case by simp
next
  case (2 w k b bs grid)
  have "filter (\<lambda>j. (k + j) mod w = r) [0..<length (b # bs)] =
      (if k mod w = r then [0] else []) @ map Suc (filter (\<lambda>j. (Suc k + j) mod w = r) [0..<length bs])"
    by (simp add: upt_conv_Cons map_Suc_upt[symmetric] filter_map comp_def del: upt_Suc)
  then have "map ((!) (b # bs)) (filter (\<lambda>j. (k + j) mod w = r) [0..<length (b # bs)]) =
      (if k mod w = r then [b] else []) @ map ((!) bs) (filter (\<lambda>j. (Suc k + j) mod w = r) [0..<length bs])"
    by (simp add: comp_def)
  then show ?case using 2 by (cases "k mod w = r") simp_all
qed

lemma deal_mset:
  assumes "length grid = w" "0 < w"
  shows "mset (concat (deal_bins w k bs grid)) = mset (concat grid) + mset bs"
  using assms
proof (induction w k bs grid rule: deal_bins.induct)
  case (2 w k b bs grid)
  have lt: "k mod w < length grid" using 2 by simp
  have "mset (concat (grid[k mod w := grid ! (k mod w) @ [b]])) = mset (concat grid) + {#b#}"
    using lt by (subst (1 3) id_take_nth_drop[OF lt]) (simp add: upd_conv_take_nth_drop nth_append)
  then show ?case using 2 by simp
qed simp

lemma residues_count: "length (filter (\<lambda>j. j mod w = r) [0..<w * m]) = m" if "r < w" for w r m :: nat
proof (induction m)
  case (Suc m)
  have split: "[0..<w * Suc m] = [0..<w * m] @ map (\<lambda>j. j + w * m) [0..<w]"
    using upt_add_eq_append[of 0 "w * m" w] by (simp add: map_add_upt algebra_simps)
  have "{i. i < length [0..<w] \<and> [0..<w] ! i mod w = r} = {r}"
    using that by auto
  then have one: "length (filter (\<lambda>j. j mod w = r) [0..<w]) = 1"
    unfolding length_filter_conv_card by simp
  have "filter (\<lambda>j. j mod w = r) (map (\<lambda>j. j + w * m) [0..<w]) = map (\<lambda>j. j + w * m) (filter (\<lambda>j. j mod w = r) [0..<w])"
    by (simp add: filter_map comp_def)
  then show ?case using Suc by (simp only: split filter_append length_append length_map one)
qed simp

lemma deal_equal_rows:
  assumes "0 < w" "w dvd length bs" "row \<in> set (deal_bins w 0 bs (replicate w []))"
  shows "length row = length bs div w"
proof -
  obtain m where m: "length bs = w * m" using assms(2) by (auto elim: dvdE)
  obtain r where r: "r < w" "row = deal_bins w 0 bs (replicate w []) ! r"
    using assms(3) by (auto simp: in_set_conv_nth)
  then have "length row = length (filter (\<lambda>j. j mod w = r) [0..<w * m])"
    by (simp add: deal_row m)
  then show ?thesis using residues_count[OF r(1)] assms(1) m by simp
qed

section \<open>The packed grid\<close>

lemma decreasing_order_props:
  "mset (decreasing_order lengths) = mset [0..<length lengths]"
  "set (decreasing_order lengths) = {0..<length lengths}"
  by (simp_all add: decreasing_order_def)

text \<open>The bins before they are padded and dealt.\<close>

definition packed_bins :: "nat list \<Rightarrow> int \<Rightarrow> bool \<Rightarrow> nat list list" where
  "packed_bins lengths seq_len pack_sequences =
     (if pack_sequences then map fst (first_fit seq_len lengths (decreasing_order lengths) [])
      else map (\<lambda>i. [i]) (decreasing_order lengths))"

definition lengths_ok :: "nat list \<Rightarrow> int \<Rightarrow> bool" where
  "lengths_ok lengths seq_len \<longleftrightarrow> lengths \<noteq> [] \<and> (\<forall>len \<in> set lengths. 0 < len \<and> int len \<le> seq_len)"

lemma lengths_ok_seq_len: "lengths_ok lengths seq_len \<Longrightarrow> 1 \<le> seq_len"
  by (cases lengths) (force simp: lengths_ok_def)+

text \<open>Pairwise overflowing bins are on average more than half full.\<close>

lemma half_full:
  fixes f :: "'a \<Rightarrow> int"
  assumes "sorted_wrt (\<lambda>x y. S < f x + f y) bs" "0 \<le> S" "\<And>b. 0 \<le> f b"
  shows "S * (int (length bs) - 1) \<le> 2 * sum_list (map f bs)"
  using assms(1)
proof (induction bs rule: induct_list012)
  case (3 x y zs)
  have "S * (int (length (x # y # zs)) - 1) = S * (int (length zs) - 1) + 2 * S" by (simp add: algebra_simps)
  also have "\<dots> \<le> 2 * sum_list (map f zs) + 2 * (f x + f y)" using 3 by simp
  finally show ?case by simp
qed (use assms(2,3) in simp_all)

lemma packed_bins_props:
  assumes "lengths_ok lengths seq_len"
  shows "mset (concat (packed_bins lengths seq_len p)) = mset [0..<length lengths]"
    and "b \<in> set (packed_bins lengths seq_len p) \<Longrightarrow> b \<noteq> [] \<and> bin_total lengths b \<le> seq_len"
    and "p \<Longrightarrow> sorted_wrt (\<lambda>x y. seq_len < bin_total lengths x + bin_total lengths y) (packed_bins lengths seq_len p)"
proof -
  have le: "i \<in> set (decreasing_order lengths) \<Longrightarrow> int (lengths ! i) \<le> seq_len" for i
    using assms by (auto simp: decreasing_order_props lengths_ok_def)
  have "bins_ok seq_len lengths []" by (simp add: bins_ok_def)
  note ff = first_fit_ok[OF this le, of "decreasing_order lengths", simplified]
  show "mset (concat (packed_bins lengths seq_len p)) = mset [0..<length lengths]"
    using ff by (simp add: packed_bins_def decreasing_order_props(1))
  show "b \<noteq> [] \<and> bin_total lengths b \<le> seq_len" if "b \<in> set (packed_bins lengths seq_len p)"
    using that ff le by (fastforce simp: packed_bins_def bins_ok_def split: if_splits)
  show "sorted_wrt (\<lambda>x y. seq_len < bin_total lengths x + bin_total lengths y) (packed_bins lengths seq_len p)" if p
  proof -
    have ok: "bins_ok seq_len lengths (first_fit seq_len lengths (decreasing_order lengths) [])" using ff by simp
    then have "sorted_wrt (\<lambda>x y. snd x < bin_total lengths (fst y)) (first_fit seq_len lengths (decreasing_order lengths) [])"
      by (simp add: bins_ok_def)
    then have "sorted_wrt (\<lambda>x y. seq_len < bin_total lengths (fst x) + bin_total lengths (fst y))
        (first_fit seq_len lengths (decreasing_order lengths) [])"
      by (rule sorted_wrt_mono_rel[rotated]) (use ok in \<open>fastforce simp: bins_ok_def\<close>)
    then show ?thesis using that by (simp add: packed_bins_def sorted_wrt_map)
  qed
qed

lemma pack_indices_unfold:
  assumes "lengths_ok lengths seq_len" "1 \<le> world_size"
  shows "pack_indices lengths seq_len world_size p =
    Ok (deal_bins (nat world_size) 0 (pad_bins (nat world_size) (packed_bins lengths seq_len p)) (replicate (nat world_size) []))"
  using assms by (force simp: pack_indices_def raise_if_def packed_bins_def lengths_ok_def Let_def)

lemma pack_indices_grid:
  assumes ok: "lengths_ok lengths seq_len" and w: "1 \<le> world_size"
    and g: "pack_indices lengths seq_len world_size p = Ok grid"
  shows "\<exists>k. mset (concat grid) = mset (packed_bins lengths seq_len p) + replicate_mset k []"
    and "length grid = nat world_size"
    and "\<exists>m. \<forall>row \<in> set grid. length row = m"
proof -
  let ?w = "nat world_size" and ?b = "packed_bins lengths seq_len p"
  have w0: "0 < ?w" using w by simp
  have grid: "grid = deal_bins ?w 0 (pad_bins ?w ?b) (replicate ?w [])"
    using g pack_indices_unfold[OF ok w] by simp
  obtain k where k: "pad_bins ?w ?b = ?b @ replicate k []" "?w dvd length (pad_bins ?w ?b)"
    using pad_bins_spec[OF w0] by blast
  have "concat (replicate ?w []) = ([] :: nat list list)" by simp
  then have "mset (concat grid) = mset ?b + replicate_mset k []"
    using deal_mset[of "replicate ?w []" ?w 0 "pad_bins ?w ?b"] w0 by (simp only: grid k(1)) simp
  then show "\<exists>k. mset (concat grid) = mset ?b + replicate_mset k []" ..
  show "length grid = ?w" by (simp add: grid)
  show "\<exists>m. \<forall>row \<in> set grid. length row = m"
    using deal_equal_rows[OF w0 k(2)] by (auto simp: grid)
qed

lemma mset_concat_perm:
  "mset xs = mset ys + replicate_mset k [] \<Longrightarrow> mset (concat xs) = mset (concat ys)"
  by (simp add: mset_concat flip: sum_mset_sum_list)

text \<open>When it succeeds and when it raises.\<close>

lemma pack_indices_ok_iff:
  "(\<exists>grid. pack_indices lengths seq_len world_size p = Ok grid) \<longleftrightarrow> lengths_ok lengths seq_len \<and> 1 \<le> world_size"
  by (auto simp: pack_indices_def raise_if_def lengths_ok_def Let_def not_le)

section \<open>Materialised bins\<close>

lemma fold_append_sample:
  "fold (append_sample samples) is mb =
     \<lparr>vmb_input_ids = vmb_input_ids mb @ concat (map (\<lambda>i. vts_token_ids (samples ! i)) is),
      vmb_position_ids = vmb_position_ids mb @ concat (map (\<lambda>i. positions (length (vts_token_ids (samples ! i)))) is),
      vmb_mask = vmb_mask mb @ concat (map (\<lambda>i. vts_mask (samples ! i)) is),
      vmb_targets = vmb_targets mb @ concat (map (\<lambda>i. vts_targets (samples ! i)) is),
      vmb_sequence_lengths = vmb_sequence_lengths mb @ map (\<lambda>i. length (vts_token_ids (samples ! i))) is,
      vmb_sample_indices = vmb_sample_indices mb @ map int is\<rparr>"
  by (induction "is" arbitrary: mb) (simp_all add: append_sample_def Let_def)

lemma fold_append_input:
  "fold (append_input token_ids) is mb =
     mb\<lparr>vib_input_ids := vib_input_ids mb @ concat (map (\<lambda>i. token_ids ! i) is),
        vib_position_ids := vib_position_ids mb @ concat (map (\<lambda>i. positions (length (token_ids ! i))) is),
        vib_sequence_lengths := vib_sequence_lengths mb @ map (\<lambda>i. length (token_ids ! i)) is\<rparr>"
  by (induction "is" arbitrary: mb) (simp_all add: append_input_def Let_def)

lemma length_positions [simp]: "length (positions n) = n"
  by (simp add: positions_def)

lemma zip_concat_map:
  "(\<And>x. x \<in> set xs \<Longrightarrow> length (f x) = length (g x)) \<Longrightarrow>
   zip (concat (map f xs)) (concat (map g xs)) = concat (map (\<lambda>x. zip (f x) (g x)) xs)"
  by (induction xs) auto

text \<open>The loss sees a token with its position and target where the mask is set.\<close>

definition masked_stream :: "bool list \<Rightarrow> int list \<Rightarrow> int list \<Rightarrow> real list \<Rightarrow> (int \<times> int \<times> real) list" where
  "masked_stream msk ids pos targets = map snd (filter fst (zip msk (zip ids (zip pos targets))))"

definition trained_tokens :: "ValueMicroBatch \<Rightarrow> (int \<times> int \<times> real) list" where
  "trained_tokens mb = masked_stream (vmb_mask mb) (vmb_input_ids mb) (vmb_position_ids mb) (vmb_targets mb)"

definition sample_tokens :: "ValueTrainingSample \<Rightarrow> (int \<times> int \<times> real) list" where
  "sample_tokens s = masked_stream (vts_mask s) (vts_token_ids s) (positions (length (vts_token_ids s))) (vts_targets s)"

lemma materialize_trained:
  assumes "\<And>i. i \<in> set is \<Longrightarrow> sample_aligned (samples ! i)"
  shows "trained_tokens (materialize_samples is samples pad) = concat (map (\<lambda>i. sample_tokens (samples ! i)) is)"
proof (cases "is = []")
  case True
  then show ?thesis by (simp add: materialize_samples_def trained_tokens_def masked_stream_def)
next
  case False
  have len: "i \<in> set is \<Longrightarrow> length (vts_mask (samples ! i)) = length (vts_token_ids (samples ! i)) \<and>
      length (vts_targets (samples ! i)) = length (vts_token_ids (samples ! i))" for i
    using assms by (simp add: sample_aligned_def)
  show ?thesis
    using False by (simp add: materialize_samples_def fold_append_sample trained_tokens_def sample_tokens_def
        masked_stream_def zip_concat_map len filter_concat map_concat comp_def)
qed

lemma materialize_shape:
  assumes "\<And>i. i \<in> set is \<Longrightarrow> sample_aligned (samples ! i)"
  shows "let mb = materialize_samples is samples pad; n = length (vmb_input_ids mb)
    in length (vmb_position_ids mb) = n \<and> length (vmb_mask mb) = n \<and> length (vmb_targets mb) = n \<and>
       sum_list (vmb_sequence_lengths mb) = n \<and> length (vmb_sequence_lengths mb) = length (vmb_sample_indices mb)"
proof (cases "is = []")
  case True
  then show ?thesis by (simp add: materialize_samples_def)
next
  case False
  have "sum_list (map (\<lambda>i. length (vts_mask (samples ! i))) is) = sum_list (map (\<lambda>i. length (vts_token_ids (samples ! i))) is)"
    "sum_list (map (\<lambda>i. length (vts_targets (samples ! i))) is) = sum_list (map (\<lambda>i. length (vts_token_ids (samples ! i))) is)"
    using assms by (auto simp: sample_aligned_def intro!: arg_cong[of _ _ sum_list])
  then show ?thesis
    using False by (simp add: materialize_samples_def fold_append_sample length_concat comp_def)
qed

lemma materialize_tokens:
  assumes "is \<noteq> []" "set is \<subseteq> {0..<length samples}"
  shows "int (length (vmb_input_ids (materialize_samples is samples pad))) =
    bin_total (map (\<lambda>s. length (vts_token_ids s)) samples) is"
proof -
  have "bin_total (map (\<lambda>s. length (vts_token_ids s)) samples) is = int (sum_list (map (\<lambda>i. length (vts_token_ids (samples ! i))) is))"
    using assms(2) by (induction "is") auto
  then show ?thesis
    using assms(1) by (simp add: materialize_samples_def fold_append_sample length_concat comp_def)
qed

text \<open>Every bin of the grid is a packed bin or a padding bin.\<close>

lemma grid_bin_cases:
  assumes "lengths_ok lengths seq_len" "1 \<le> world_size"
    "pack_indices lengths seq_len world_size p = Ok grid" "row \<in> set grid" "b \<in> set row"
  shows "b = [] \<or> b \<in> set (packed_bins lengths seq_len p)"
proof -
  obtain k where "mset (concat grid) = mset (packed_bins lengths seq_len p) + replicate_mset k []"
    using pack_indices_grid(1)[OF assms(1-3)] by blast
  then have "set (concat grid) \<subseteq> set (packed_bins lengths seq_len p) \<union> {[]}"
    by (metis (no_types) set_mset_mset set_mset_union set_mset_replicate_mset_subset Un_mono order_refl empty_subsetI)
  moreover have "b \<in> set (concat grid)" using assms(4,5) by auto
  ultimately show ?thesis by blast
qed

lemma packed_bin_indices:
  assumes "lengths_ok lengths seq_len" "b \<in> set (packed_bins lengths seq_len p)"
  shows "set b \<subseteq> {0..<length lengths}"
proof -
  have "set (concat (packed_bins lengths seq_len p)) = {0..<length lengths}"
    using packed_bins_props(1)[OF assms(1)] by (metis set_mset_mset set_upt)
  then show ?thesis using assms(2) by auto
qed

lemma grid_indices:
  assumes "lengths_ok lengths seq_len" "1 \<le> world_size" "pack_indices lengths seq_len world_size p = Ok grid"
  shows "mset (concat (concat grid)) = mset [0..<length lengths]"
proof -
  obtain k where "mset (concat grid) = mset (packed_bins lengths seq_len p) + replicate_mset k []"
    using pack_indices_grid(1)[OF assms] by blast
  from mset_concat_perm[OF this] show ?thesis using packed_bins_props(1)[OF assms(1)] by simp
qed

lemma grid_index_lt:
  assumes "lengths_ok lengths seq_len" "1 \<le> world_size" "pack_indices lengths seq_len world_size p = Ok grid"
    "i \<in> set b" "b \<in> set (concat grid)"
  shows "i < length lengths"
proof -
  have "set (concat (concat grid)) = {0..<length lengths}"
    using grid_indices[OF assms(1-3)] by (metis set_mset_mset set_upt)
  then show ?thesis using assms(4,5) by fastforce
qed

lemma concat_map_concat: "concat (map f (concat xs)) = concat (map (\<lambda>x. concat (map f x)) xs)"
  by (induction xs) auto

lemma pack_value_samples_grid:
  assumes "pack_value_samples samples seq_len world_size pad p = Ok out"
  obtains grid where "list_all sample_aligned samples"
    "lengths_ok (map (\<lambda>s. length (vts_token_ids s)) samples) seq_len" "1 \<le> world_size"
    "pack_indices (map (\<lambda>s. length (vts_token_ids s)) samples) seq_len world_size p = Ok grid"
    "out = map (map (\<lambda>is. materialize_samples is samples pad)) grid"
  using assms pack_indices_ok_iff[of "map (\<lambda>s. length (vts_token_ids s)) samples" seq_len world_size p]
  by (auto simp: pack_value_samples_def raise_if_def bindE_Inr_iff split: if_splits)

lemma pack_exact:
  assumes "pack_value_samples samples seq_len world_size pad p = Ok out"
  shows "length out = nat world_size \<and> (\<exists>m. \<forall>rank \<in> set out. length rank = m) \<and>
    mset (concat (map trained_tokens (concat out))) = mset (concat (map sample_tokens samples))"
proof -
  let ?l = "map (\<lambda>s. length (vts_token_ids s)) samples"
  from assms obtain grid where g: "list_all sample_aligned samples" "lengths_ok ?l seq_len" "1 \<le> world_size"
    "pack_indices ?l seq_len world_size p = Ok grid" and out: "out = map (map (\<lambda>is. materialize_samples is samples pad)) grid"
    by (rule pack_value_samples_grid)
  note pg = pack_indices_grid[OF g(2-4)] and gi = grid_indices[OF g(2-4)]
  have idx: "i \<in> set b \<Longrightarrow> b \<in> set (concat grid) \<Longrightarrow> i < length samples" for i b
    using grid_index_lt[OF g(2-4)] by simp
  have mat: "b \<in> set (concat grid) \<Longrightarrow>
      trained_tokens (materialize_samples b samples pad) = concat (map (\<lambda>i. sample_tokens (samples ! i)) b)" for b
    using g(1) idx[of _ b] by (intro materialize_trained) (simp add: list_all_length)
  have "concat out = map (\<lambda>is. materialize_samples is samples pad) (concat grid)"
    by (simp add: out map_concat)
  then have "concat (map trained_tokens (concat out)) =
      concat (map (\<lambda>b. concat (map (\<lambda>i. sample_tokens (samples ! i)) b)) (concat grid))"
    using mat by (simp only: map_map comp_def cong: map_cong)
  also have "\<dots> = concat (map (\<lambda>i. sample_tokens (samples ! i)) (concat (concat grid)))"
    by (rule concat_map_concat[symmetric])
  also have "mset \<dots> = mset (concat (map (\<lambda>i. sample_tokens (samples ! i)) [0..<length samples]))"
    by (rule mset_concat_map) (use gi in simp)
  also have "map (\<lambda>i. sample_tokens (samples ! i)) [0..<length samples] = map sample_tokens samples"
    by (rule nth_equalityI) auto
  finally have "mset (concat (map trained_tokens (concat out))) = mset (concat (map sample_tokens samples))" .
  then show ?thesis using pg(2,3) by (auto simp: out)
qed

text \<open>C22: A packed training batch is exactly the training data, spread evenly: there is one list of
  microbatches per rank, all of the same length, and over all ranks the masked (token, position,
  target) triples the loss sees are those of the samples, each once; padding adds none.\<close>

theorem pack_value_samples_exact:
  assumes "pack_value_samples samples seq_len world_size pad p = Ok out"
  shows "length out = nat world_size \<and> (\<exists>m. \<forall>rank \<in> set out. length rank = m) \<and>
    mset (concat (map trained_tokens (concat out))) = mset (concat (map sample_tokens samples))"
  by (rule pack_exact[OF assms])

definition demo_samples :: "ValueTrainingSample list" where
  "demo_samples = [\<lparr>vts_token_ids = [5, 6], vts_mask = [False, True], vts_targets = [0, 1]\<rparr>,
     \<lparr>vts_token_ids = [7, 8, 9], vts_mask = [True, False, True], vts_targets = [2, 0, 3]\<rparr>,
     \<lparr>vts_token_ids = [4], vts_mask = [True], vts_targets = [5]\<rparr>]"

definition demo_grid :: "ValueMicroBatch list list" where
  "demo_grid = [[materialize_samples [1, 2] demo_samples 0], [materialize_samples [0] demo_samples 0]]"

lemma demo_pack: "pack_value_samples demo_samples 4 2 0 True = Ok demo_grid"
  by (simp add: demo_grid_def demo_samples_def pack_value_samples_def pack_indices_def raise_if_def sample_aligned_def
      decreasing_order_def upt_rec pad_bins.simps numeral_2_eq_2)

theorem pack_value_samples_exact_witness:
  "length demo_grid = 2 \<and> mset (concat (map trained_tokens (concat demo_grid))) = mset (concat (map sample_tokens demo_samples))"
  using pack_value_samples_exact[OF demo_pack] by simp

text \<open>Every microbatch of a packed batch is well formed: its token, position, mask and target
  streams have one length, which its sequence lengths sum to, and it holds at most \<open>seq_len\<close> tokens.\<close>

lemma pack_value_samples_within_seq_len:
  assumes "pack_value_samples samples seq_len world_size pad p = Ok out" and "rank \<in> set out" and "mb \<in> set rank"
  shows "length (vmb_position_ids mb) = length (vmb_input_ids mb) \<and> length (vmb_mask mb) = length (vmb_input_ids mb) \<and>
    length (vmb_targets mb) = length (vmb_input_ids mb) \<and>
    sum_list (vmb_sequence_lengths mb) = length (vmb_input_ids mb) \<and> int (length (vmb_input_ids mb)) \<le> seq_len"
proof -
  let ?l = "map (\<lambda>s. length (vts_token_ids s)) samples"
  from assms(1) obtain grid where g: "list_all sample_aligned samples" "lengths_ok ?l seq_len" "1 \<le> world_size"
    "pack_indices ?l seq_len world_size p = Ok grid" and out: "out = map (map (\<lambda>is. materialize_samples is samples pad)) grid"
    by (rule pack_value_samples_grid)
  obtain row b where b: "row \<in> set grid" "b \<in> set row" "mb = materialize_samples b samples pad"
    using assms(2,3) out by auto
  consider "b = []" | "b \<in> set (packed_bins ?l seq_len p)"
    using grid_bin_cases[OF g(2-4) b(1,2)] by blast
  then show ?thesis
  proof cases
    case 1
    have "1 \<le> seq_len" using lengths_ok_seq_len[OF g(2)] .
    then show ?thesis using 1 b(3) by (simp add: materialize_samples_def)
  next
    case 2
    have sub: "set b \<subseteq> {0..<length samples}" using packed_bin_indices[OF g(2) 2] by simp
    then have "i \<in> set b \<Longrightarrow> sample_aligned (samples ! i)" for i using g(1) by (auto simp: list_all_length)
    note shape = materialize_shape[OF this, of b pad]
    have "b \<noteq> []" "bin_total ?l b \<le> seq_len" using packed_bins_props(2)[OF g(2) 2] by auto
    then show ?thesis using shape materialize_tokens[OF _ sub, of pad] b(3) by (simp add: Let_def)
  qed
qed

lemma pack_value_samples_within_seq_len_witness:
  "int (length (vmb_input_ids (materialize_samples [1, 2] demo_samples 0))) \<le> 4"
  using pack_value_samples_within_seq_len[OF demo_pack, of "[materialize_samples [1, 2] demo_samples 0]"]
  by (simp add: demo_grid_def)

text \<open>First fit leaves no slack that another bin could use: of the bins built before padding, any
  two together exceed \<open>seq_len\<close>, so the number of forward passes is less than twice what the tokens
  need at full occupancy, plus one.\<close>

lemma pack_indices_no_mergeable_bins:
  assumes "lengths_ok lengths seq_len"
  shows "sorted_wrt (\<lambda>x y. seq_len < bin_total lengths x + bin_total lengths y) (packed_bins lengths seq_len True) \<and>
    seq_len * (int (length (packed_bins lengths seq_len True)) - 1) \<le> 2 * int (sum_list lengths)"
proof -
  let ?b = "packed_bins lengths seq_len True"
  have srt: "sorted_wrt (\<lambda>x y. seq_len < bin_total lengths x + bin_total lengths y) ?b"
    using packed_bins_props(3)[OF assms] by simp
  have "sum_list (map (bin_total lengths) ?b) = bin_total lengths (concat ?b)"
    by (rule bin_total_concat)
  also have "\<dots> = bin_total lengths [0..<length lengths]"
    using bin_total_mset packed_bins_props(1)[OF assms] by blast
  also have "\<dots> = int (sum_list lengths)"
    by (simp add: bin_total_upt)
  finally show ?thesis
    using half_full[OF srt] srt lengths_ok_seq_len[OF assms] by simp
qed

lemma pack_indices_no_mergeable_bins_witness:
  "4 * (int (length (packed_bins [2, 3, 1] 4 True)) - 1) \<le> 2 * int (sum_list [2, 3, 1 :: nat])"
  using pack_indices_no_mergeable_bins[of "[2, 3, 1]" 4] by (simp add: lengths_ok_def)

end
