(* ===== verification/Value_Math.thy ===== *)
theory Value_Math
  imports Value_Types
begin

text \<open>
  \<^verbatim>\<open>value/math.py\<close>: the alignment of packed value logits, the scalar and categorical
  value heads, the projection of scalar targets onto the categorical support, and the value
  loss with its per-token metrics. A tensor of shape batch x seq x output is its list of
  rows; numbers are reals, so rounding of float32 is not modelled.
\<close>

section \<open>Definitions\<close>

datatype ValueLossConfig =
    MSEValueLossConfig
  | ClassificationValueLossConfig (loss_low: real) (loss_high: real) (loss_num_bins: nat)

fun validate_reward_range :: "ValueLossConfig \<Rightarrow> ValueLossConfig result" where
  "validate_reward_range MSEValueLossConfig = Ok MSEValueLossConfig"
| "validate_reward_range (ClassificationValueLossConfig low high num_bins) =
     raise_if (num_bins < 2) (ValueError ''num_bins: greater than or equal to 2'')
       (raise_if (high \<le> low) (ValueError ''value_function.loss.reward_range must be increasing'')
         (Ok (ClassificationValueLossConfig low high num_bins)))"

fun value_head_output_size :: "ValueLossConfig \<Rightarrow> nat" where
  "value_head_output_size (ClassificationValueLossConfig low high num_bins) = num_bins"
| "value_head_output_size MSEValueLossConfig = 1"

text \<open>\<open>accumulate(lengths, initial=0)[:-1]\<close>\<close>

fun sequence_starts :: "nat \<Rightarrow> nat list \<Rightarrow> nat list" where
  "sequence_starts offset [] = []"
| "sequence_starts offset (n # ns) = offset # sequence_starts (offset + n) ns"

text \<open>\<open>flat.roll(1, dims=0)\<close>\<close>

definition roll1 :: "'a list \<Rightarrow> 'a list" where
  "roll1 xs = (if xs = [] then [] else last xs # butlast xs)"

definition zero_row :: "real list \<Rightarrow> real list" where
  "zero_row row = map (\<lambda>x. x * 0) row"

definition align_value_logits :: "real list list \<Rightarrow> nat list \<Rightarrow> real list list result" where
  "align_value_logits flat sequence_lengths =
     raise_if (sum_list sequence_lengths \<noteq> length flat)
       (ValueError ''sequence_lengths sum does not match packed length'')
       (let starts = sequence_starts 0 sequence_lengths
        in raise_if (\<exists>s \<in> set starts. s \<ge> length flat) IndexError
             (Ok (fold (\<lambda>s acc. acc[s := zero_row (flat ! s)]) starts (roll1 flat))))"

definition support_points :: "real \<Rightarrow> real \<Rightarrow> nat \<Rightarrow> real list" where
  "support_points low high num_bins =
     map (\<lambda>i. low + real i * ((high - low) / real (num_bins - 1))) [0..<num_bins]"

definition softmax :: "real list \<Rightarrow> real list" where
  "softmax row = map (\<lambda>x. exp x / sum_list (map exp row)) row"

definition log_softmax :: "real list \<Rightarrow> real list" where
  "log_softmax row = map (\<lambda>x. x - ln (sum_list (map exp row))) row"

definition dot :: "real list \<Rightarrow> real list \<Rightarrow> real" where
  "dot xs ys = sum_list (map (\<lambda>(x, y). x * y) (zip xs ys))"

fun predict_value_row :: "ValueLossConfig \<Rightarrow> real list \<Rightarrow> real" where
  "predict_value_row (ClassificationValueLossConfig low high num_bins) row =
     dot (softmax row) (support_points low high num_bins)"
| "predict_value_row MSEValueLossConfig row = row ! 0"

definition predict_values :: "real list list \<Rightarrow> ValueLossConfig \<Rightarrow> real list" where
  "predict_values logits config = map (predict_value_row config) logits"

definition target_tolerance :: "real \<Rightarrow> real \<Rightarrow> real" where
  "target_tolerance low high = 1 / 100000 * max (high - low) 1"

definition clamp :: "real \<Rightarrow> real \<Rightarrow> real \<Rightarrow> real" where
  "clamp low high x = min high (max low x)"

definition scatter_add :: "real list \<Rightarrow> nat \<Rightarrow> real \<Rightarrow> real list" where
  "scatter_add xs i w = xs[i := xs ! i + w]"

definition target_row :: "real \<Rightarrow> real \<Rightarrow> nat \<Rightarrow> real \<Rightarrow> real list" where
  "target_row low high num_bins target =
     (let normalized = (clamp low high target - low) / (high - low);
          position = normalized * real (num_bins - 1);
          lower = \<lfloor>position\<rfloor>;
          upper = \<lceil>position\<rceil>;
          upper_weight = position - of_int lower;
          lower_weight = 1 - upper_weight
      in scatter_add (scatter_add (replicate num_bins 0) (nat lower) lower_weight) (nat upper) upper_weight)"

definition classification_target_distribution ::
  "real list \<Rightarrow> real \<Rightarrow> real \<Rightarrow> nat \<Rightarrow> real list list result" where
  "classification_target_distribution targets low high num_bins =
     raise_if (\<exists>t \<in> set targets. t < low - target_tolerance low high \<or> t > high + target_tolerance low high)
       (ValueError ''classification value target is outside reward_range'')
       (Ok (map (target_row low high num_bins) targets))"

text \<open>\<open>argmax\<close>: the first index of a maximal entry.\<close>

fun argmax :: "real list \<Rightarrow> nat" where
  "argmax [] = 0"
| "argmax [x] = 0"
| "argmax (x # y # zs) =
     (let j = argmax (y # zs) in if x \<ge> (y # zs) ! j then 0 else Suc j)"

text \<open>\<open>xs[mask]\<close>\<close>

definition select_mask :: "bool list \<Rightarrow> 'a list \<Rightarrow> 'a list" where
  "select_mask msk xs = map snd (filter fst (zip msk xs))"

definition per_token_cross_entropy :: "real list \<Rightarrow> real list \<Rightarrow> real" where
  "per_token_cross_entropy target_distribution row = - dot target_distribution (log_softmax row)"

definition base_metrics :: "real list \<Rightarrow> real list \<Rightarrow> real list \<Rightarrow> (string \<times> real list) list" where
  "base_metrics per_token predictions targets =
     (let errors = map2 (-) predictions targets
      in [(''value/loss'', per_token), (''value/prediction'', predictions), (''value/target'', targets),
          (''value/error'', errors), (''value/abs_error'', map abs errors), (''value/squared_error'', map (\<lambda>e. e\<^sup>2) errors)])"

definition classification_metrics :: "real list list \<Rightarrow> real list list \<Rightarrow> (string \<times> real list) list" where
  "classification_metrics distributions rows =
     [(''value/accuracy'', map2 (\<lambda>d row. if argmax row = argmax d then 1 else 0) distributions rows),
      (''value/entropy'', map (\<lambda>row. - dot (map exp (log_softmax row)) (log_softmax row)) rows),
      (''value/confidence'', map (\<lambda>row. Max (set (map exp (log_softmax row)))) rows)]"

definition compute_value_loss ::
  "real list list \<Rightarrow> real list \<Rightarrow> bool list \<Rightarrow> ValueLossConfig \<Rightarrow> int \<Rightarrow> (real \<times> (string \<times> real list) list) result" where
  "compute_value_loss logits targets msk config scale =
     (let predictions = select_mask msk (predict_values logits config);
          rows = select_mask msk logits;
          wanted = select_mask msk targets;
          scaled = (\<lambda>per_token. sum_list per_token / real_of_int (max scale 1))
      in if True \<notin> set msk then Ok (0, base_metrics [] [] [])
         else (case config of
            ClassificationValueLossConfig low high num_bins \<Rightarrow>
              bindE (classification_target_distribution wanted low high num_bins) (\<lambda>distributions.
                let per_token = map2 per_token_cross_entropy distributions rows
                in Ok (scaled per_token, base_metrics per_token predictions wanted @ classification_metrics distributions rows))
          | MSEValueLossConfig \<Rightarrow>
              (let per_token = map2 (\<lambda>p t. (p - t)\<^sup>2) predictions wanted
               in Ok (scaled per_token, base_metrics per_token predictions wanted))))"

section \<open>Alignment\<close>

text \<open>Within one sequence: the first row is zeroed, every other row comes from its predecessor.\<close>

definition shift_block :: "real list list \<Rightarrow> real list list" where
  "shift_block b = zero_row (hd b) # butlast b"

lemma sequence_starts_shift: "sequence_starts (k + m) ns = map ((+) k) (sequence_starts m ns)"
  by (induction ns arbitrary: m) (simp_all add: add.assoc)

lemma starts_lt:
  "s \<in> set (sequence_starts k ns) \<Longrightarrow> (\<And>n. n \<in> set ns \<Longrightarrow> 0 < n) \<Longrightarrow> k \<le> s \<and> s < k + sum_list ns"
  by (induction ns arbitrary: k) (fastforce+)

lemma fold_update_length [simp]: "length (fold (\<lambda>s acc. acc[s := f s]) ss xs) = length xs"
  by (induction ss arbitrary: xs) auto

lemma fold_update_nth:
  "i < length xs \<Longrightarrow> fold (\<lambda>s acc. acc[s := f s]) ss xs ! i = (if i \<in> set ss then f i else xs ! i)"
  by (induction ss arbitrary: xs) (auto simp: nth_list_update)

lemma length_roll1 [simp]: "length (roll1 xs) = length xs"
  by (simp add: roll1_def)

lemma roll1_nth: "0 < i \<Longrightarrow> i < length xs \<Longrightarrow> roll1 xs ! i = xs ! (i - 1)"
  by (auto simp: roll1_def nth_Cons' nth_butlast)

lemma length_shift_concat:
  "(\<And>b. b \<in> set bs \<Longrightarrow> b \<noteq> []) \<Longrightarrow> length (concat (map shift_block bs)) = length (concat bs)"
  by (induction bs) (auto simp: shift_block_def length_concat)

text \<open>Reading one position of the blockwise shift.\<close>

lemma shift_concat_nth:
  assumes "\<And>b. b \<in> set bs \<Longrightarrow> b \<noteq> []" "i < length (concat bs)"
  shows "concat (map shift_block bs) ! i =
    (if i \<in> set (sequence_starts 0 (map length bs)) then zero_row (concat bs ! i) else concat bs ! (i - 1)) \<and>
    (i \<notin> set (sequence_starts 0 (map length bs)) \<longrightarrow> 0 < i)"
  using assms
proof (induction bs arbitrary: i)
  case (Cons b bs)
  have b: "b \<noteq> []" "length (shift_block b) = length b" using Cons.prems(1)[of b] by (auto simp: shift_block_def)
  have starts: "sequence_starts 0 (map length (b # bs)) = 0 # map ((+) (length b)) (sequence_starts 0 (map length bs))"
    using sequence_starts_shift[of "length b" 0] by simp
  show ?case
  proof (cases "i < length b")
    case True
    then have "i \<in> set (sequence_starts 0 (map length (b # bs))) \<longleftrightarrow> i = 0"
      unfolding starts by auto
    moreover have "shift_block b ! i = (if i = 0 then zero_row (b ! 0) else b ! (i - 1))"
      using True b by (auto simp: shift_block_def nth_Cons' nth_butlast hd_conv_nth)
    ultimately show ?thesis using True b by (auto simp: nth_append)
  next
    case False
    then obtain j where j: "i = length b + j" by (metis le_Suc_ex not_le)
    have jb: "j < length (concat bs)" using Cons.prems(2) j by simp
    have mem: "i \<in> set (sequence_starts 0 (map length (b # bs))) \<longleftrightarrow> j \<in> set (sequence_starts 0 (map length bs))"
      unfolding starts using b(1) j by auto
    show ?thesis
      using Cons.IH[OF _ jb] Cons.prems(1) b j mem by (auto simp: nth_append)
  qed
qed simp

lemma align_blocks:
  assumes ne: "\<And>b. b \<in> set blocks \<Longrightarrow> b \<noteq> []"
  shows "align_value_logits (concat blocks) (map length blocks) = Ok (concat (map shift_block blocks))"
proof -
  let ?flat = "concat blocks" and ?s = "sequence_starts 0 (map length blocks)"
  have sum: "sum_list (map length blocks) = length ?flat" by (simp add: length_concat)
  have lt: "\<And>s. s \<in> set ?s \<Longrightarrow> s < length ?flat"
    using starts_lt[of _ 0 "map length blocks"] ne sum by fastforce
  have "fold (\<lambda>s acc. acc[s := zero_row (?flat ! s)]) ?s (roll1 ?flat) = concat (map shift_block blocks)"
  proof (rule nth_equalityI)
    show "length (fold (\<lambda>s acc. acc[s := zero_row (?flat ! s)]) ?s (roll1 ?flat)) = length (concat (map shift_block blocks))"
      using length_shift_concat[OF ne] by simp
    fix i assume "i < length (fold (\<lambda>s acc. acc[s := zero_row (?flat ! s)]) ?s (roll1 ?flat))"
    then have i: "i < length ?flat" by simp
    note shift_concat_nth[OF ne i]
    then show "fold (\<lambda>s acc. acc[s := zero_row (?flat ! s)]) ?s (roll1 ?flat) ! i = concat (map shift_block blocks) ! i"
      using i by (simp add: fold_update_nth roll1_nth)
  qed
  moreover have "\<not> (\<exists>s \<in> set ?s. s \<ge> length ?flat)" using lt by (auto simp: not_le)
  ultimately show ?thesis unfolding align_value_logits_def raise_if_def Let_def using sum by simp
qed

text \<open>C25: Alignment of packed logits never crosses a sequence boundary: on the concatenation of
  non-empty sequences it returns the concatenation of the sequences, each shifted by one within
  itself with its first row zeroed.\<close>

theorem align_value_logits_per_sequence:
  assumes "\<forall>b \<in> set blocks. b \<noteq> []"
  shows "align_value_logits (concat blocks) (map length blocks) = Ok (concat (map shift_block blocks))"
  using align_blocks assms by blast

theorem align_value_logits_per_sequence_witness:
  "align_value_logits (concat [[[1], [2], [3]], [[4], [5]]]) (map length [[[1 :: real], [2], [3]], [[4], [5]]]) =
     Ok [[0], [1], [2], [0], [4]]"
  using align_value_logits_per_sequence[of "[[[1], [2], [3]], [[4], [5]]]"]
  by (simp add: shift_block_def zero_row_def)

section \<open>Categorical targets\<close>

lemma sum_scatter_add: "i < length xs \<Longrightarrow> sum_list (scatter_add xs i w) = sum_list xs + w"
  by (induction xs arbitrary: i) (auto simp: scatter_add_def split: nat.splits)

lemma length_scatter_add [simp]: "length (scatter_add xs i w) = length xs"
  by (simp add: scatter_add_def)

lemma dot_scatter_add:
  "i < length xs \<Longrightarrow> length ys = length xs \<Longrightarrow> dot (scatter_add xs i w) ys = dot xs ys + w * ys ! i"
proof (induction xs arbitrary: i ys)
  case (Cons x xs)
  then show ?case
    by (cases ys; cases i) (auto simp: dot_def scatter_add_def algebra_simps)
qed simp

lemma dot_replicate_zero [simp]: "dot (replicate n 0) ys = 0"
proof (induction n arbitrary: ys)
  case (Suc n)
  then show ?case by (cases ys) (simp_all add: dot_def)
qed (simp add: dot_def)

lemma length_support [simp]: "length (support_points low high n) = n"
  by (simp add: support_points_def)

lemma support_nth: "i < n \<Longrightarrow> support_points low high n ! i = low + real i * ((high - low) / real (n - 1))"
  by (simp add: support_points_def)

lemma clamp_bounds: "low \<le> high \<Longrightarrow> low \<le> clamp low high x \<and> clamp low high x \<le> high"
  by (simp add: clamp_def)

lemma clamp_id: "low \<le> x \<Longrightarrow> x \<le> high \<Longrightarrow> clamp low high x = x"
  by (simp add: clamp_def)

lemma set_scatter_nonneg: "0 \<le> w \<Longrightarrow> (\<And>x. x \<in> set xs \<Longrightarrow> 0 \<le> x) \<Longrightarrow> y \<in> set (scatter_add xs i w) \<Longrightarrow> 0 \<le> y"
  unfolding scatter_add_def
  by (cases "i < length xs") (auto dest!: set_update_subset_insert[THEN subsetD] simp: list_update_beyond)

lemma target_position:
  assumes "low < high" "2 \<le> n" and pos_def: "pos = (clamp low high t - low) / (high - low) * real (n - 1)"
  shows "0 \<le> pos" "pos \<le> real (n - 1)" "nat \<lfloor>pos\<rfloor> < n" "nat \<lceil>pos\<rceil> < n"
proof -
  have c: "low \<le> clamp low high t" "clamp low high t \<le> high" using clamp_bounds[of low high t] assms(1) by auto
  have "0 \<le> (clamp low high t - low) / (high - low)" "(clamp low high t - low) / (high - low) \<le> 1"
    using c assms(1) by auto
  note q = this
  show p: "0 \<le> pos" unfolding pos_def by (rule mult_nonneg_nonneg[OF q(1) of_nat_0_le_iff])
  show p2: "pos \<le> real (n - 1)" unfolding pos_def by (rule mult_left_le_one_le[OF of_nat_0_le_iff q])
  have up: "\<lceil>pos\<rceil> \<le> int (n - 1)" using p2 by (simp add: ceiling_le_iff)
  have "\<lfloor>pos\<rfloor> \<le> \<lceil>pos\<rceil>" by (rule floor_le_ceiling)
  then show "nat \<lfloor>pos\<rfloor> < n" "nat \<lceil>pos\<rceil> < n" using up assms(2) by linarith+
qed

lemma target_row_props:
  assumes lh: "low < high" and n: "2 \<le> n"
  shows "length (target_row low high n t) = n"
    and "sum_list (target_row low high n t) = 1"
    and "y \<in> set (target_row low high n t) \<Longrightarrow> 0 \<le> y"
    and "dot (target_row low high n t) (support_points low high n) = clamp low high t"
proof -
  define pos where "pos = (clamp low high t - low) / (high - low) * real (n - 1)"
  define h where "h = (high - low) / real (n - 1)"
  define uw where "uw = pos - of_int \<lfloor>pos\<rfloor>"
  note tp = target_position[OF assms pos_def]
  have row: "target_row low high n t =
      scatter_add (scatter_add (replicate n 0) (nat \<lfloor>pos\<rfloor>) (1 - uw)) (nat \<lceil>pos\<rceil>) uw"
    by (simp add: target_row_def Let_def pos_def uw_def)
  have uw: "0 \<le> uw" "uw \<le> 1" unfolding uw_def by linarith+
  show "length (target_row low high n t) = n" by (simp add: row)
  show "sum_list (target_row low high n t) = 1" using tp(3,4) by (simp add: row sum_scatter_add sum_list_replicate)
  show "y \<in> set (target_row low high n t) \<Longrightarrow> 0 \<le> y"
    unfolding row by (erule set_scatter_nonneg[rotated 2]) (use uw in \<open>auto elim: set_scatter_nonneg[rotated 2]\<close>)
  have fl: "real (nat \<lfloor>pos\<rfloor>) = of_int \<lfloor>pos\<rfloor>" "real (nat \<lceil>pos\<rceil>) = of_int \<lceil>pos\<rceil>"
    using tp(1) by (auto simp: le_floor_iff le_ceiling_iff)
  have mix: "(1 - uw) * of_int \<lfloor>pos\<rfloor> + uw * of_int \<lceil>pos\<rceil> = pos"
  proof (cases "pos = of_int \<lfloor>pos\<rfloor>")
    case True
    then have "uw = 0" by (simp add: uw_def)
    then show ?thesis using True by simp
  next
    case False
    then have "\<lceil>pos\<rceil> = \<lfloor>pos\<rfloor> + 1" by (simp add: ceiling_altdef)
    then show ?thesis by (simp add: uw_def algebra_simps)
  qed
  have "dot (target_row low high n t) (support_points low high n) =
      (1 - uw) * (low + of_int \<lfloor>pos\<rfloor> * h) + uw * (low + of_int \<lceil>pos\<rceil> * h)"
    using tp(3,4) by (simp add: row dot_scatter_add support_nth fl h_def)
  also have "\<dots> = low + ((1 - uw) * of_int \<lfloor>pos\<rfloor> + uw * of_int \<lceil>pos\<rceil>) * h"
    by (simp add: algebra_simps)
  also have "\<dots> = clamp low high t"
    using lh n by (simp add: mix) (simp add: pos_def h_def)
  finally show "dot (target_row low high n t) (support_points low high n) = clamp low high t" .
qed

text \<open>A scalar target becomes a probability distribution over the support bins, and the
  projection does not change its expectation: for a target inside the reward range the expected
  support value is the target itself.\<close>

lemma classification_targets_preserve_expectation:
  assumes "validate_reward_range (ClassificationValueLossConfig low high n) = Ok c"
    and "classification_target_distribution targets low high n = Ok ds" and "i < length targets"
  shows "length ds = length targets \<and> length (ds ! i) = n \<and> sum_list (ds ! i) = 1 \<and> (\<forall>y \<in> set (ds ! i). 0 \<le> y) \<and>
    dot (ds ! i) (support_points low high n) = clamp low high (targets ! i)"
proof -
  have lh: "low < high" "2 \<le> n" using assms(1) by (auto simp: raise_if_def split: if_splits)
  have "ds = map (target_row low high n) targets"
    using assms(2) by (auto simp: classification_target_distribution_def raise_if_def split: if_splits)
  then show ?thesis using target_row_props[OF lh] assms(3) by simp
qed

lemma classification_targets_preserve_expectation_witness:
  "dot (map (target_row 0 2 3) [1 / 2] ! 0) (support_points 0 2 3) = 1 / 2"
  using classification_targets_preserve_expectation[of 0 2 3 _ "[1 / 2]" "map (target_row 0 2 3) [1 / 2]" 0]
  by (simp add: raise_if_def classification_target_distribution_def target_tolerance_def clamp_def)

section \<open>Predictions\<close>

lemma exp_sum_pos: "row \<noteq> [] \<Longrightarrow> 0 < sum_list (map exp row)" for row :: "real list"
proof (induction row)
  case (Cons x row)
  then show ?case by (cases "row = []") (auto intro: add_pos_pos)
qed simp

lemma sum_list_divide: "sum_list (map (\<lambda>x. f x / c) xs) = sum_list (map f xs) / c" for c :: real
  by (induction xs) (simp_all add: add_divide_distrib)

lemma softmax_props:
  assumes "row \<noteq> []"
  shows "sum_list (softmax row) = 1" "y \<in> set (softmax row) \<Longrightarrow> 0 < y" "length (softmax row) = length row"
  using exp_sum_pos[OF assms] by (auto simp: softmax_def sum_list_divide)

lemma dot_bounds:
  assumes "length ps = length xs" "\<And>p. p \<in> set ps \<Longrightarrow> 0 \<le> p" "\<And>x. x \<in> set xs \<Longrightarrow> lo \<le> x \<and> x \<le> hi"
  shows "lo * sum_list ps \<le> dot ps xs \<and> dot ps xs \<le> hi * sum_list ps"
  using assms
proof (induction ps xs rule: list_induct2)
  case (Cons p ps x xs)
  have "lo * p \<le> p * x" "p * x \<le> hi * p"
    using Cons.prems by (auto simp: mult.commute[of _ p] intro!: mult_left_mono)
  then show ?case using Cons by (auto simp: dot_def algebra_simps)
qed (simp add: dot_def)

lemma support_bounds:
  assumes "low < high" "2 \<le> n" "x \<in> set (support_points low high n)"
  shows "low \<le> x \<and> x \<le> high"
proof -
  obtain i where i: "i < n" "x = low + real i * ((high - low) / real (n - 1))"
    using assms(3) by (auto simp: support_points_def)
  have "real i * ((high - low) / real (n - 1)) \<le> real (n - 1) * ((high - low) / real (n - 1))"
    using i(1) assms(1,2) by (intro mult_right_mono) auto
  then show ?thesis using i assms(1,2) by auto
qed

text \<open>A categorical value head can only predict values inside its configured reward range,
  whatever the logits.\<close>

lemma predict_values_within_reward_range:
  assumes "validate_reward_range (ClassificationValueLossConfig low high n) = Ok c"
    and "\<forall>row \<in> set logits. length row = value_head_output_size (ClassificationValueLossConfig low high n)"
    and "v \<in> set (predict_values logits (ClassificationValueLossConfig low high n))"
  shows "low \<le> v \<and> v \<le> high"
proof -
  have lh: "low < high" "2 \<le> n" using assms(1) by (auto simp: raise_if_def split: if_splits)
  obtain row where row: "row \<in> set logits" "v = dot (softmax row) (support_points low high n)"
    using assms(3) by (auto simp: predict_values_def)
  then have ne: "row \<noteq> []" "length row = n" using assms(2) lh(2) by auto
  show ?thesis
    using dot_bounds[of "softmax row" "support_points low high n" low high] softmax_props[OF ne(1)] ne(2)
      support_bounds[OF lh] by (auto simp: row(2) less_imp_le)
qed

lemma predict_values_within_reward_range_witness:
  "0 \<le> predict_value_row (ClassificationValueLossConfig 0 1 2) [3, 5] \<and>
   predict_value_row (ClassificationValueLossConfig 0 1 2) [3, 5] \<le> 1"
  by (rule predict_values_within_reward_range[of 0 1 2 _ "[[3, 5]]"]) (simp_all add: raise_if_def predict_values_def)

section \<open>Loss\<close>

lemma log_softmax_nonpos:
  assumes "y \<in> set (log_softmax row)"
  shows "y \<le> 0"
proof -
  obtain x where x: "x \<in> set row" "y = x - ln (sum_list (map exp row))" using assms by (auto simp: log_softmax_def)
  have "exp x \<le> sum_list (map exp row)"
    using x(1) by (intro member_le_sum_list) (auto simp: less_imp_le)
  then have "ln (exp x) \<le> ln (sum_list (map exp row))"
    by (intro ln_mono) auto
  then show ?thesis using x(2) by simp
qed

lemma cross_entropy_nonneg:
  assumes "\<And>p. p \<in> set d \<Longrightarrow> 0 \<le> p"
  shows "0 \<le> per_token_cross_entropy d row"
proof -
  have "dot d ys \<le> 0" if "\<And>y. y \<in> set ys \<Longrightarrow> y \<le> 0" for ys
    unfolding dot_def using assms that
    by (intro sum_list_nonpos) (auto intro!: mult_nonneg_nonpos dest: set_zip_leftD set_zip_rightD)
  then show ?thesis using log_softmax_nonpos by (simp add: per_token_cross_entropy_def)
qed

text \<open>The masked per-token losses, and when they are defined.\<close>

fun token_losses :: "ValueLossConfig \<Rightarrow> real list list \<Rightarrow> real list \<Rightarrow> real list" where
  "token_losses (ClassificationValueLossConfig low high n) rows wanted =
     map2 (\<lambda>t row. per_token_cross_entropy (target_row low high n t) row) wanted rows"
| "token_losses MSEValueLossConfig rows wanted = map2 (\<lambda>row t. (row ! 0 - t)\<^sup>2) rows wanted"

fun targets_in_range :: "ValueLossConfig \<Rightarrow> real list \<Rightarrow> bool" where
  "targets_in_range (ClassificationValueLossConfig low high n) wanted =
     (\<forall>t \<in> set wanted. low - target_tolerance low high \<le> t \<and> t \<le> high + target_tolerance low high)"
| "targets_in_range MSEValueLossConfig wanted = True"

lemma select_mask_empty: "True \<notin> set msk \<Longrightarrow> select_mask msk xs = []"
  by (induction msk xs rule: list_induct2') (auto simp: select_mask_def)

lemma select_mask_map: "select_mask msk (map f xs) = map f (select_mask msk xs)"
  by (induction msk xs rule: list_induct2') (auto simp: select_mask_def)

lemma select_mask_append:
  "length m1 = length x1 \<Longrightarrow> select_mask (m1 @ m2) (x1 @ x2) = select_mask m1 x1 @ select_mask m2 x2"
  by (simp add: select_mask_def)

lemma length_select_mask: "length xs = length msk \<Longrightarrow> length (select_mask msk xs) = length (filter id msk)"
  by (induction msk arbitrary: xs) (auto simp: select_mask_def length_Suc_conv)

lemma compute_value_loss_char:
  "(\<exists>M. compute_value_loss logits targets msk config scale = Ok (L, M)) \<longleftrightarrow>
     targets_in_range config (select_mask msk targets) \<and>
     L = sum_list (token_losses config (select_mask msk logits) (select_mask msk targets)) / real_of_int (max scale 1)"
proof (cases "True \<in> set msk")
  case False
  then show ?thesis
    by (cases config) (auto simp: compute_value_loss_def Let_def select_mask_empty)
next
  case True
  show ?thesis
  proof (cases config)
    case MSEValueLossConfig
    then show ?thesis
      using True by (auto simp: compute_value_loss_def Let_def predict_values_def select_mask_map map2_map_map zip_map1 comp_def case_prod_unfold)
  next
    case (ClassificationValueLossConfig low high n)
    have "map2 per_token_cross_entropy (map (target_row low high n) wanted) rows =
        map2 (\<lambda>t row. per_token_cross_entropy (target_row low high n t) row) wanted rows" for wanted rows
      by (simp add: zip_map1 comp_def case_prod_unfold)
    then show ?thesis
      using True ClassificationValueLossConfig
      by (force simp: compute_value_loss_def Let_def classification_target_distribution_def raise_if_def not_less)
  qed
qed

lemma token_losses_append:
  "length r1 = length w1 \<Longrightarrow> token_losses config (r1 @ r2) (w1 @ w2) = token_losses config r1 w1 @ token_losses config r2 w2"
  by (cases config) simp_all

lemma token_losses_nonneg:
  assumes "validate_reward_range config = Ok c" "x \<in> set (token_losses config rows wanted)"
  shows "0 \<le> x"
proof (cases config)
  case MSEValueLossConfig
  then show ?thesis using assms(2) by auto
next
  case (ClassificationValueLossConfig low high n)
  then have lh: "low < high" "2 \<le> n" using assms(1) by (auto simp: raise_if_def split: if_splits)
  show ?thesis
    using assms(2) ClassificationValueLossConfig target_row_props(3)[OF lh] cross_entropy_nonneg by auto
qed

text \<open>Splitting a batch into microbatches does not change the loss: with the same global scale,
  the loss of the whole is the sum of the losses of the parts, also when a part has no trainable
  token, and a whole that is accepted has only parts that are accepted.\<close>

lemma compute_value_loss_additive:
  assumes "compute_value_loss (l1 @ l2) (t1 @ t2) (m1 @ m2) config scale = Ok (L, M)"
    and "length l1 = length m1" and "length t1 = length m1"
  shows "\<exists>L1 M1 L2 M2. compute_value_loss l1 t1 m1 config scale = Ok (L1, M1) \<and>
    compute_value_loss l2 t2 m2 config scale = Ok (L2, M2) \<and> L = L1 + L2"
proof -
  let ?s = "\<lambda>l t m. sum_list (token_losses config (select_mask m l) (select_mask m t)) / real_of_int (max scale 1)"
  have "\<exists>M. compute_value_loss (l1 @ l2) (t1 @ t2) (m1 @ m2) config scale = Ok (L, M)" using assms(1) by blast
  then have ok: "targets_in_range config (select_mask m1 t1 @ select_mask m2 t2)" and
    L: "L = sum_list (token_losses config (select_mask m1 l1 @ select_mask m2 l2) (select_mask m1 t1 @ select_mask m2 t2)) / real_of_int (max scale 1)"
    using assms(2,3) by (simp_all add: compute_value_loss_char select_mask_append)
  have "length (select_mask m1 l1) = length (select_mask m1 t1)" using assms(2,3) by (simp add: length_select_mask)
  then have "L = ?s l1 t1 m1 + ?s l2 t2 m2" by (simp add: L token_losses_append add_divide_distrib)
  moreover have "targets_in_range config (select_mask m1 t1)" "targets_in_range config (select_mask m2 t2)"
    using ok by (cases config; auto)+
  ultimately show ?thesis
    using compute_value_loss_char[of l1 t1 m1 config scale "?s l1 t1 m1"]
      compute_value_loss_char[of l2 t2 m2 config scale "?s l2 t2 m2"] by blast
qed

lemma compute_value_loss_additive_witness:
  "\<exists>L1 M1 L2 M2. compute_value_loss [[1]] [3] [True] MSEValueLossConfig 2 = Ok (L1, M1) \<and>
     compute_value_loss [[5], [2]] [4, 4] [True, False] MSEValueLossConfig 2 = Ok (L2, M2) \<and> 5 / 2 = L1 + L2"
  by (rule compute_value_loss_additive)
    (simp_all add: compute_value_loss_def Let_def select_mask_def predict_values_def)

text \<open>The value loss is never negative, for either head, and it is zero when no token is trainable.\<close>

lemma compute_value_loss_nonneg:
  assumes "validate_reward_range config = Ok c"
    and "compute_value_loss logits targets msk config scale = Ok (L, M)"
  shows "0 \<le> L \<and> (True \<notin> set msk \<longrightarrow> L = 0)"
proof -
  have L: "L = sum_list (token_losses config (select_mask msk logits) (select_mask msk targets)) / real_of_int (max scale 1)"
    using compute_value_loss_char assms(2) by blast
  have "0 \<le> sum_list (token_losses config (select_mask msk logits) (select_mask msk targets))"
    by (rule sum_list_nonneg) (rule token_losses_nonneg[OF assms(1)])
  then show ?thesis
    using L by (cases config) (auto simp: select_mask_empty)
qed

lemma compute_value_loss_nonneg_witness:
  "0 \<le> fst (case compute_value_loss [[1]] [3] [True] MSEValueLossConfig 1 of Inr p \<Rightarrow> p | Inl e \<Rightarrow> (0, []))"
  using compute_value_loss_nonneg[of MSEValueLossConfig MSEValueLossConfig "[[1]]" "[3]" "[True]" 1 4
      "base_metrics [4] [1] [3]"]
  by (simp add: compute_value_loss_def Let_def select_mask_def predict_values_def)

end
