(* ===== verification/Value_Inference.thy ===== *)
theory Value_Inference
  imports Value_Batch Value_Math
begin

text \<open>
  \<^verbatim>\<open>value/inference.py\<close> and the model side of \<^verbatim>\<open>value/evaluator.py\<close>: prediction over packed
  microbatches, reassembly of the per-sequence values in request order, and the adoption of
  weight updates by the serving model. The network is a parameter \<open>net\<close>: input ids, position
  ids and optional packing metadata give one row of logits per token.
\<close>

section \<open>Prediction and reassembly\<close>

text \<open>Floats as \<open>math.isfinite\<close> sees them.\<close>

datatype pyfloat = Fin real | NonFinite

fun isfinite :: "pyfloat \<Rightarrow> bool" where
  "isfinite (Fin x) = True"
| "isfinite NonFinite = False"

type_synonym value_net = "int list \<Rightarrow> int list \<Rightarrow> nat list option \<Rightarrow> real list list"

text \<open>The loop over \<open>zip(sample_indices, sequence_lengths, strict=True)\<close>.\<close>

fun slice_values :: "pyfloat list \<Rightarrow> nat \<Rightarrow> int list \<Rightarrow> nat list \<Rightarrow> (int \<times> pyfloat list) list result" where
  "slice_values values offset [] [] = Ok []"
| "slice_values values offset (i # is) (n # ns) =
     bindE (slice_values values (offset + n) is ns) (\<lambda>rest.
       Ok ((if i \<ge> 0 then [(i, take n (drop offset values))] else []) @ rest))"
| "slice_values values offset _ _ = Raise (ValueError ''zip() arguments have different lengths'')"

definition predict_value_microbatch ::
  "value_net \<Rightarrow> bool \<Rightarrow> ValueLossConfig \<Rightarrow> ValueInputMicroBatch \<Rightarrow> (int \<times> pyfloat list) list result" where
  "predict_value_microbatch net metadata loss mb =
     (let logits = net (vib_input_ids mb) (vib_position_ids mb)
                     (if metadata then Some (vib_sequence_lengths mb) else None)
      in bindE (align_value_logits logits (vib_sequence_lengths mb)) (\<lambda>aligned.
           slice_values (map Fin (predict_values aligned loss)) 0 (vib_sample_indices mb) (vib_sequence_lengths mb)))"

definition predict_value_microbatches ::
  "value_net \<Rightarrow> bool \<Rightarrow> ValueLossConfig \<Rightarrow> ValueInputMicroBatch list \<Rightarrow> (int \<times> pyfloat list) list result" where
  "predict_value_microbatches net metadata loss mbs =
     bindE (traverse (predict_value_microbatch net metadata loss) mbs) (\<lambda>parts. Ok (concat parts))"

fun reassemble_loop ::
  "nat list \<Rightarrow> (int \<times> pyfloat list) list \<Rightarrow> pyfloat list option list \<Rightarrow> pyfloat list option list result" where
  "reassemble_loop expected [] results = Ok results"
| "reassemble_loop expected ((i, values) # rest) results =
     (if i < 0 \<or> i \<ge> int (length results)
      then Raise (RuntimeError ''value evaluator returned invalid sample index'')
      else if results ! nat i \<noteq> None
      then Raise (RuntimeError ''value evaluator returned sample more than once'')
      else if length values \<noteq> expected ! nat i
      then Raise (RuntimeError ''value evaluator sample has another number of values'')
      else if \<not> list_all isfinite values
      then Raise (RuntimeError ''value evaluator sample contains non-finite values'')
      else reassemble_loop expected rest (results[nat i := Some values]))"

definition reassemble_value_outputs :: "(int \<times> pyfloat list) list \<Rightarrow> nat list \<Rightarrow> pyfloat list list result" where
  "reassemble_value_outputs indexed expected =
     bindE (reassemble_loop expected indexed (replicate (length expected) None)) (\<lambda>results.
       raise_if (None \<in> set results) (RuntimeError ''value evaluator failed to materialize every requested sequence'')
         (Ok (map the results)))"

text \<open>\<open>evaluate\<close>: pack, predict on every rank, reassemble. The dedicated evaluator has one rank.\<close>

definition evaluate ::
  "value_net \<Rightarrow> bool \<Rightarrow> bool \<Rightarrow> ValueLossConfig \<Rightarrow> int \<Rightarrow> int \<Rightarrow> int list list \<Rightarrow> pyfloat list list result" where
  "evaluate net metadata packs loss seq_len world_size token_ids =
     bindE (pack_value_inputs token_ids seq_len world_size 0 packs) (\<lambda>grid.
     bindE (traverse (predict_value_microbatches net metadata loss) grid) (\<lambda>indexed.
       reassemble_value_outputs (concat indexed) (map length token_ids)))"

section \<open>What reassembly accepts\<close>

definition place_all :: "(int \<times> 'a) list \<Rightarrow> 'a option list \<Rightarrow> 'a option list" where
  "place_all indexed results = fold (\<lambda>(i, v) r. r[nat i := Some v]) indexed results"

lemma length_place_all [simp]: "length (place_all indexed results) = length results"
  unfolding place_all_def by (induction indexed arbitrary: results) auto

lemma place_all_simps [simp]:
  "place_all [] results = results"
  "place_all ((i, v) # rest) results = place_all rest (results[nat i := Some v])"
  by (simp_all add: place_all_def)

lemma place_all_nth:
  assumes "distinct (map fst indexed)" "\<And>i v. (i, v) \<in> set indexed \<Longrightarrow> 0 \<le> i" "j < length results"
  shows "place_all indexed results ! j = (case map_of indexed (int j) of None \<Rightarrow> results ! j | Some v \<Rightarrow> Some v)"
  using assms
proof (induction indexed arbitrary: results)
  case (Cons p rest)
  obtain i v where p: "p = (i, v)" by (cases p)
  have i: "0 \<le> i" "map_of rest i = None" using Cons.prems p by (auto simp: map_of_eq_None_iff)
  have nn: "\<And>k w. (k, w) \<in> set rest \<Longrightarrow> 0 \<le> k" and d: "distinct (map fst rest)" using Cons.prems by auto
  have "place_all rest (results[nat i := Some v]) ! j =
      (case map_of rest (int j) of None \<Rightarrow> results[nat i := Some v] ! j | Some v \<Rightarrow> Some v)"
    by (rule Cons.IH[OF d nn]) (use Cons.prems in simp_all)
  then show ?case
    using Cons.prems(3) i p by (cases "nat i = j") (auto split: option.splits)
qed simp

definition slot_ok :: "nat list \<Rightarrow> pyfloat list option list \<Rightarrow> int \<times> pyfloat list \<Rightarrow> bool" where
  "slot_ok expected results p \<longleftrightarrow> 0 \<le> fst p \<and> fst p < int (length results) \<and> results ! nat (fst p) = None \<and>
     length (snd p) = expected ! nat (fst p) \<and> list_all isfinite (snd p)"

lemma slot_ok_update:
  "slot_ok expected results (i, v) \<Longrightarrow>
   slot_ok expected (results[nat i := Some w]) p \<longleftrightarrow> fst p \<noteq> i \<and> slot_ok expected results p"
  by (auto simp: slot_ok_def nth_list_update split: if_splits)

lemma reassemble_loop_iff:
  "reassemble_loop expected indexed results = Ok out \<longleftrightarrow>
     (\<forall>p \<in> set indexed. slot_ok expected results p) \<and> distinct (map fst indexed) \<and> out = place_all indexed results"
proof (induction expected indexed results rule: reassemble_loop.induct)
  case (2 expected i vs rest results)
  show ?case
  proof (cases "slot_ok expected results (i, vs)")
    case True
    then have "reassemble_loop expected ((i, vs) # rest) results = reassemble_loop expected rest (results[nat i := Some vs])"
      and ih: "reassemble_loop expected rest (results[nat i := Some vs]) = Ok out \<longleftrightarrow>
        (\<forall>p \<in> set rest. slot_ok expected (results[nat i := Some vs]) p) \<and> distinct (map fst rest) \<and>
        out = place_all rest (results[nat i := Some vs])"
      using 2 by (auto simp: slot_ok_def)
    moreover have "(\<forall>p \<in> set rest. slot_ok expected (results[nat i := Some vs]) p) \<longleftrightarrow>
        i \<notin> fst ` set rest \<and> (\<forall>p \<in> set rest. slot_ok expected results p)"
      using slot_ok_update[OF True] by (auto simp: image_iff)
    ultimately show ?thesis using True by auto
  next
    case False
    then show ?thesis by (auto simp: slot_ok_def)
  qed
qed auto

text \<open>A successful reassembly placed every sequence exactly once.\<close>

lemma reassemble_ok_iff:
  "reassemble_value_outputs indexed expected = Ok out \<longleftrightarrow>
     distinct (map fst indexed) \<and> length out = length expected \<and>
     set indexed = (\<lambda>i. (int i, out ! i)) ` {0..<length expected} \<and>
     (\<forall>i < length expected. length (out ! i) = expected ! i \<and> list_all isfinite (out ! i))"
  (is "?l \<longleftrightarrow> ?r")
proof
  let ?n = "length expected" and ?res = "replicate (length expected) (None :: pyfloat list option)"
  {
    assume ?l
    then have ok: "\<forall>p \<in> set indexed. slot_ok expected ?res p" and d: "distinct (map fst indexed)"
      and none: "None \<notin> set (place_all indexed ?res)" and out: "out = map the (place_all indexed ?res)"
      by (auto simp: reassemble_value_outputs_def bindE_Inr_iff raise_if_def reassemble_loop_iff split: if_splits)
    have nn: "(i, v) \<in> set indexed \<Longrightarrow> 0 \<le> i" for i v using ok by (fastforce simp: slot_ok_def)
    have nth: "place_all indexed ?res ! i = map_of indexed (int i)" if "i < ?n" for i
      using place_all_nth[OF d nn, where j = i and results = ?res] that by (simp split: option.splits)
    have mem: "(int i, out ! i) \<in> set indexed" if i: "i < ?n" for i
    proof -
      have "place_all indexed ?res ! i \<noteq> None" using none i by (metis length_place_all length_replicate nth_mem)
      then show ?thesis using i nth[OF i] by (auto simp: out intro: map_of_SomeD)
    qed
    have "set indexed = (\<lambda>i. (int i, out ! i)) ` {0..<?n}"
    proof (rule set_eqI)
      fix p
      show "p \<in> set indexed \<longleftrightarrow> p \<in> (\<lambda>i. (int i, out ! i)) ` {0..<?n}"
      proof
        assume p: "p \<in> set indexed"
        then have i: "0 \<le> fst p" "nat (fst p) < ?n" using ok by (auto simp: slot_ok_def)
        then have "(fst p, out ! nat (fst p)) \<in> set indexed" using mem[of "nat (fst p)"] by simp
        then have "p = (int (nat (fst p)), out ! nat (fst p))"
          using eq_key_imp_eq_value[OF d, of "fst p" "snd p" "out ! nat (fst p)"] p i(1) by (simp add: prod_eq_iff)
        then show "p \<in> (\<lambda>i. (int i, out ! i)) ` {0..<?n}"
          by (rule image_eqI) (use i(2) in simp)
      qed (use mem in auto)
    qed
    moreover have "length (out ! i) = expected ! i \<and> list_all isfinite (out ! i)" if "i < ?n" for i
      using ok mem[OF that] by (auto simp: slot_ok_def)
    ultimately show ?r using d by (simp add: out)
  }
  assume r: ?r
  then have slots: "\<forall>p \<in> set indexed. slot_ok expected ?res p" by (auto simp: slot_ok_def)
  have "place_all indexed ?res ! i = Some (out ! i)" if i: "i < ?n" for i
  proof -
    have mo: "map_of indexed (int i) = Some (out ! i)" using r i by (intro map_of_is_SomeI) auto
    have "(k, w) \<in> set indexed \<Longrightarrow> 0 \<le> k" for k w using r by auto
    then show ?thesis using place_all_nth[of indexed, where j = i and results = ?res, unfolded mo] r i by simp
  qed
  then have "place_all indexed ?res = map Some out" using r by (intro nth_equalityI) auto
  then show ?l
    using r slots by (auto simp: reassemble_value_outputs_def bindE_Inr_iff raise_if_def reassemble_loop_iff comp_def)
qed

lemma reassemble_permutation:
  assumes "mset is = mset [0..<length expected]" "length out = length expected"
    "\<And>i. i < length expected \<Longrightarrow> f i = out ! i \<and> length (f i) = expected ! i \<and> list_all isfinite (f i)"
  shows "reassemble_value_outputs (map (\<lambda>i. (int i, f i)) is) expected = Ok out"
proof -
  have s: "set is = {0..<length expected}" using assms(1) by (metis set_mset_mset set_upt)
  have "distinct is" using assms(1) by (metis distinct_upt mset_eq_imp_distinct_iff)
  then have "distinct (map int is)" by (simp add: distinct_map)
  moreover have out: "f i = out ! i" "length (out ! i) = expected ! i" "list_all isfinite (out ! i)"
    if "i < length expected" for i using assms(3)[OF that] by metis+
  moreover have "(\<lambda>i. (int i, f i)) ` set is = (\<lambda>i. (int i, out ! i)) ` {0..<length expected}"
    unfolding s by (rule image_cong) (simp_all add: out)
  ultimately show ?thesis using assms(2) by (simp add: reassemble_ok_iff comp_def)
qed

section \<open>Evaluation is independent of packing\<close>

text \<open>
  What the code relies on of the network: a packed forward gives, for each sequence, the
  rows it would give for that sequence alone. Without packing support it is only asked for
  one sequence at a time.
\<close>

definition varlen_net :: "value_net \<Rightarrow> bool \<Rightarrow> bool \<Rightarrow> (int list \<Rightarrow> real list list) \<Rightarrow> bool" where
  "varlen_net net metadata packs per \<longleftrightarrow>
     (\<forall>t. length (per t) = length t) \<and>
     (\<forall>toks. toks \<noteq> [] \<and> [] \<notin> set toks \<and> (packs \<or> length toks = 1) \<longrightarrow>
        net (concat toks) (concat (map (\<lambda>t. positions (length t)) toks)) (if metadata then Some (map length toks) else None) =
        concat (map per toks))"

definition sequence_values :: "ValueLossConfig \<Rightarrow> (int list \<Rightarrow> real list list) \<Rightarrow> int list \<Rightarrow> pyfloat list" where
  "sequence_values loss per t = map Fin (predict_values (shift_block (per t)) loss)"

lemma length_sequence_values: "(\<And>t. length (per t) = length t) \<Longrightarrow> t \<noteq> [] \<Longrightarrow> length (sequence_values loss per t) = length t"
  by (cases t) (auto simp: sequence_values_def predict_values_def shift_block_def)

lemma slice_values_concat:
  "(\<And>i. i \<in> set b \<Longrightarrow> length (f i) = n i) \<Longrightarrow>
   slice_values (pre @ concat (map f b)) (length pre) (map int b) (map n b) = Ok (map (\<lambda>i. (int i, f i)) b)"
proof (induction b arbitrary: pre)
  case (Cons i b)
  have "slice_values ((pre @ f i) @ concat (map f b)) (length (pre @ f i)) (map int b) (map n b) = Ok (map (\<lambda>i. (int i, f i)) b)"
    by (rule Cons.IH) (use Cons.prems in simp)
  then show ?case using Cons.prems by simp
qed simp

lemma predict_bin:
  assumes net: "varlen_net net metadata packs per" and b: "b = [] \<or> (packs \<or> length b = 1)"
    and ne: "\<And>i. i \<in> set b \<Longrightarrow> toks ! i \<noteq> []"
  shows "predict_value_microbatch net metadata loss (materialize_inputs b toks pad) =
    Ok (map (\<lambda>i. (int i, sequence_values loss per (toks ! i))) b)"
proof -
  have len: "\<And>t. length (per t) = length t" using net by (simp add: varlen_net_def)
  have core: "bindE (align_value_logits (net (concat ts) (concat (map (\<lambda>t. positions (length t)) ts))
          (if metadata then Some (map length ts) else None)) (map length ts)) (\<lambda>aligned. k (map Fin (predict_values aligned loss))) =
      k (concat (map (sequence_values loss per) ts))"
    if "ts \<noteq> []" "[] \<notin> set ts" "packs \<or> length ts = 1" for ts and k :: "pyfloat list \<Rightarrow> (int \<times> pyfloat list) list result"
  proof -
    have "net (concat ts) (concat (map (\<lambda>t. positions (length t)) ts)) (if metadata then Some (map length ts) else None) = concat (map per ts)"
      using net that by (simp add: varlen_net_def)
    moreover have ne: "x \<noteq> []" if "x \<in> set (map per ts)" for x
      using len that \<open>[] \<notin> set ts\<close> by (metis (no_types, lifting) imageE length_0_conv list.set_map)
    have "align_value_logits (concat (map per ts)) (map length ts) = Ok (concat (map shift_block (map per ts)))"
      using align_blocks[of "map per ts", OF ne] len by (simp add: comp_def)
    moreover have "sequence_values loss per = (\<lambda>t. map (\<lambda>x. Fin (predict_value_row loss x)) (shift_block (per t)))"
      by (simp add: fun_eq_iff sequence_values_def predict_values_def)
    ultimately show ?thesis
      by (simp add: predict_values_def map_concat comp_def)
  qed
  show ?thesis
  proof (cases "b = []")
    case True
    have m: "materialize_inputs b toks pad = \<lparr>vib_input_ids = [pad], vib_position_ids = [0], vib_sequence_lengths = [1], vib_sample_indices = [-1]\<rparr>"
      using True by (simp add: materialize_inputs_def)
    show ?thesis
      using core[of "[[pad]]" "\<lambda>v. slice_values v 0 [-1] [1]"] True
      unfolding predict_value_microbatch_def m by (cases metadata) (simp_all add: positions_def Let_def)
  next
    case False
    let ?ts = "map ((!) toks) b"
    have m: "materialize_inputs b toks pad = \<lparr>vib_input_ids = concat ?ts, vib_position_ids = concat (map (\<lambda>t. positions (length t)) ?ts),
        vib_sequence_lengths = map length ?ts, vib_sample_indices = map int b\<rparr>"
      using False by (simp add: materialize_inputs_def fold_append_input comp_def)
    have "predict_value_microbatch net metadata loss (materialize_inputs b toks pad) =
        slice_values (concat (map (sequence_values loss per) ?ts)) 0 (map int b) (map length ?ts)"
      unfolding predict_value_microbatch_def m Let_def ValueInputMicroBatch.simps
      by (rule core) (use False b ne in \<open>auto dest: sym\<close>)
    also have "\<dots> = Ok (map (\<lambda>i. (int i, sequence_values loss per (toks ! i))) b)"
      using slice_values_concat[of b "\<lambda>i. sequence_values loss per (toks ! i)" "\<lambda>i. length (toks ! i)" "[]"]
        length_sequence_values[OF len] ne by (simp add: comp_def)
    finally show ?thesis .
  qed
qed

lemma concat_concat_map: "concat (map (\<lambda>row. concat (map (map f) row)) grid) = map f (concat (concat grid))"
  by (simp add: map_concat concat_map_concat[of "\<lambda>x. x", simplified] comp_def)

lemma traverse_map: "(\<And>x. x \<in> set xs \<Longrightarrow> f (g x) = Ok (h x)) \<Longrightarrow> traverse f (map g xs) = Ok (map h xs)"
  by (induction xs) auto

lemma predict_rank:
  assumes "\<And>b. b \<in> set row \<Longrightarrow> predict_value_microbatch net metadata loss (g b) = Ok (h b)"
  shows "predict_value_microbatches net metadata loss (map g row) = Ok (concat (map h row))"
  using traverse_map[of row _ g h] assms by (simp add: predict_value_microbatches_def)

text \<open>Without packing every bin holds one sequence.\<close>

lemma unpacked_bin: "b \<in> set (packed_bins lengths seq_len False) \<Longrightarrow> length b = 1"
  by (auto simp: packed_bins_def)

text \<open>C13: Serving is independent of packing: for any batch of non-empty sequences within
  \<open>seq_len\<close>, on any number of ranks, with or without packing, the evaluator returns for each
  sequence, in request order, exactly the values the network gives for that sequence alone.\<close>

theorem evaluate_packing_independent:
  assumes net: "varlen_net net metadata packs per"
    and ok: "lengths_ok (map length toks) seq_len" and w: "1 \<le> world_size"
  shows "evaluate net metadata packs loss seq_len world_size toks = Ok (map (sequence_values loss per) toks)"
proof -
  let ?l = "map length toks" and ?v = "\<lambda>i. (int i, sequence_values loss per (toks ! i))"
  obtain grid where g: "pack_indices ?l seq_len world_size packs = Ok grid"
    using pack_indices_ok_iff[of ?l seq_len world_size packs] ok w by auto
  have lt: "i \<in> set b \<Longrightarrow> b \<in> set row \<Longrightarrow> row \<in> set grid \<Longrightarrow> i < length toks" for i b row
    using grid_index_lt[OF ok w g, of i b] by auto
  have ne: "i < length toks \<Longrightarrow> toks ! i \<noteq> []" for i
    using ok nth_mem[of i toks] by (auto simp: lengths_ok_def)
  have "predict_value_microbatch net metadata loss (materialize_inputs b toks 0) = Ok (map ?v b)"
    if "b \<in> set row" "row \<in> set grid" for b row
  proof (rule predict_bin[OF net])
    show "b = [] \<or> (packs \<or> length b = 1)"
      using grid_bin_cases[OF ok w g that(2,1)] unpacked_bin by (cases packs) auto
    show "\<And>i. i \<in> set b \<Longrightarrow> toks ! i \<noteq> []" using lt[OF _ that] ne by blast
  qed
  then have "predict_value_microbatches net metadata loss (map (\<lambda>b. materialize_inputs b toks 0) row) = Ok (concat (map (map ?v) row))"
    if "row \<in> set grid" for row
    using predict_rank[of row net metadata loss "\<lambda>b. materialize_inputs b toks 0" "map ?v"] that by blast
  then have "evaluate net metadata packs loss seq_len world_size toks =
      reassemble_value_outputs (concat (map (\<lambda>row. concat (map (map ?v) row)) grid)) ?l"
    using traverse_map[of grid "predict_value_microbatches net metadata loss" "map (\<lambda>b. materialize_inputs b toks 0)"]
    by (simp add: evaluate_def pack_value_inputs_def g)
  also have "concat (map (\<lambda>row. concat (map (map ?v) row)) grid) = map ?v (concat (concat grid))"
    by (simp only: concat_concat_map)
  also have "reassemble_value_outputs (map ?v (concat (concat grid))) ?l = Ok (map (sequence_values loss per) toks)"
    by (rule reassemble_permutation) (use grid_indices[OF ok w g] length_sequence_values ne net in \<open>auto simp: varlen_net_def sequence_values_def list_all_iff\<close>)
  finally show ?thesis .
qed

definition demo_net :: value_net where
  "demo_net ids pos meta = map2 (\<lambda>t p. [real_of_int (t + p)]) ids pos"

lemma demo_net_varlen: "varlen_net demo_net True True (\<lambda>t. map2 (\<lambda>t p. [real_of_int (t + p)]) t (positions (length t)))"
proof -
  have "demo_net (concat toks) (concat (map (\<lambda>t. positions (length t)) toks)) m =
      concat (map (\<lambda>t. map2 (\<lambda>t p. [real_of_int (t + p)]) t (positions (length t))) toks)" for toks m
    using zip_concat_map[of toks "\<lambda>t. t" "\<lambda>t. positions (length t)"] by (simp add: demo_net_def map_concat comp_def)
  then show ?thesis by (simp add: varlen_net_def)
qed

theorem evaluate_packing_independent_witness:
  "evaluate demo_net True True MSEValueLossConfig 4 2 [[5, 6], [7], [1, 1, 1]] =
     Ok [[Fin 0, Fin 5], [Fin 0], [Fin 0, Fin 1, Fin 2]]"
  using evaluate_packing_independent[OF demo_net_varlen, of "[[5, 6], [7], [1, 1, 1]]" 4 2 MSEValueLossConfig]
  by (simp add: lengths_ok_def sequence_values_def predict_values_def shift_block_def zero_row_def positions_def upt_rec)

text \<open>Reassembly succeeds exactly when the indexed results are one finite value list of the
  expected length for every requested sequence; anything missing, repeated, out of range, of
  another length or not finite is an error. The result is then in request order.\<close>

lemma reassemble_accepts_exactly:
  "reassemble_value_outputs indexed expected = Ok out \<longleftrightarrow>
     distinct (map fst indexed) \<and> length out = length expected \<and>
     set indexed = {(int i, out ! i) | i. i < length expected} \<and>
     list_all2 (\<lambda>vs n. length vs = n \<and> list_all isfinite vs) out expected"
proof -
  have "(\<lambda>i. (int i, out ! i)) ` {0..<length expected} = {(int i, out ! i) | i. i < length expected}" by auto
  then show ?thesis unfolding reassemble_ok_iff by (auto simp: list_all2_conv_all_nth)
qed

section \<open>Weight updates of the serving model\<close>

text \<open>
  The part of \<open>ValueEvaluatorRuntime\<close> that \<open>_receive_and_apply\<close> touches. A model is its
  state dict. \<open>svc_error\<close> is what \<open>fail_service\<close> records for the request workers.
\<close>

record 'w EvaluatorRuntime =
  ev_model :: "string \<rightharpoonup> 'w"
  ev_inactive :: "(string \<rightharpoonup> 'w) option"
  ev_version :: int
  ev_service_version :: int
  ev_service_error :: "py_exn option"

text \<open>
  The loop over received layers with \<open>load_state_dict(layer, strict=False)\<close>, which copies
  the known keys before unexpected ones are reported. The result is the error, the model as
  it is left behind, and the loaded keys.
\<close>

fun load_layers :: "(string \<rightharpoonup> 'w) list \<Rightarrow> (string \<rightharpoonup> 'w) \<Rightarrow> string set \<Rightarrow> py_exn option \<times> (string \<rightharpoonup> 'w) \<times> string set" where
  "load_layers [] model loaded = (None, model, loaded)"
| "load_layers (layer # rest) model loaded =
     (let model' = model ++ (layer |` dom model)
      in if \<not> dom layer \<subseteq> dom model then (Some (RuntimeError ''unexpected value weights''), model', loaded)
         else load_layers rest model' (loaded \<union> dom layer))"

definition load_update :: "(string \<rightharpoonup> 'w) list \<Rightarrow> (string \<rightharpoonup> 'w) \<Rightarrow> py_exn option \<times> (string \<rightharpoonup> 'w)" where
  "load_update layers target =
     (case load_layers layers target {} of
        (Some e, model, loaded) \<Rightarrow> (Some e, model)
      | (None, model, loaded) \<Rightarrow>
          (if loaded \<noteq> dom model then Some (RuntimeError ''incomplete value update'') else None, model))"

definition receive_and_apply ::
  "int \<Rightarrow> (string \<rightharpoonup> 'w) list \<Rightarrow> 'w EvaluatorRuntime \<Rightarrow> py_exn option \<times> 'w EvaluatorRuntime" where
  "receive_and_apply version layers rt =
     (case ev_inactive rt of
        None \<Rightarrow>
          (case load_update layers (ev_model rt) of
             (Some e, model) \<Rightarrow> (Some e, rt\<lparr>ev_model := model\<rparr>)
           | (None, model) \<Rightarrow> (None, rt\<lparr>ev_model := model, ev_version := version, ev_service_version := version\<rparr>))
      | Some target \<Rightarrow>
          (case load_update layers target of
             (Some e, model) \<Rightarrow> (Some e, rt\<lparr>ev_inactive := Some model\<rparr>)
           | (None, model) \<Rightarrow>
               (None, rt\<lparr>ev_model := model, ev_inactive := Some (ev_model rt), ev_version := version,
                         ev_service_version := version\<rparr>)))"

text \<open>
  \<open>_update_loop\<close> over the messages the receiver yields; a closed stream ends it silently,
  any other exception fails the service.
\<close>

datatype 'w weight_message = Update int "(string \<rightharpoonup> 'w) list" | StreamClosed | ReceiveError py_exn

fun update_loop :: "'w weight_message list \<Rightarrow> 'w EvaluatorRuntime \<Rightarrow> 'w EvaluatorRuntime" where
  "update_loop [] rt = rt"
| "update_loop (Update version layers # rest) rt =
     (case receive_and_apply version layers rt of
        (None, rt') \<Rightarrow> update_loop rest rt'
      | (Some e, rt') \<Rightarrow> rt'\<lparr>ev_service_error := Some e\<rparr>)"
| "update_loop (StreamClosed # rest) rt = rt"
| "update_loop (ReceiveError e # rest) rt = rt\<lparr>ev_service_error := Some e\<rparr>"

definition merged :: "(string \<rightharpoonup> 'w) list \<Rightarrow> string \<rightharpoonup> 'w" where
  "merged layers = foldl (++) Map.empty layers"

lemma foldl_map_add: "foldl (++) m ms = m ++ foldl (++) Map.empty ms"
proof (induction ms arbitrary: m)
  case (Cons a ms)
  show ?case using Cons[of "m ++ a"] Cons[of "Map.empty ++ a"] by simp
qed simp

lemma map_restrict_sub: "dom m \<subseteq> A \<Longrightarrow> m |` A = m"
proof (rule ext)
  fix x
  assume "dom m \<subseteq> A"
  then show "(m |` A) x = m x" by (cases "m x") (auto simp: restrict_map_def)
qed

lemma load_layers_ok:
  assumes "load_layers layers model loaded = (None, model', loaded')"
  shows "model' = model ++ merged layers \<and> dom model' = dom model \<and> loaded' = loaded \<union> dom (merged layers)"
  using assms
proof (induction layers model loaded rule: load_layers.induct)
  case (2 layer rest model loaded)
  have sub: "dom layer \<subseteq> dom model" using 2 by (auto simp: Let_def split: if_splits)
  then have r: "layer |` dom model = layer" by (simp add: map_restrict_sub)
  have ih: "model' = (model ++ layer) ++ merged rest" "dom model' = dom (model ++ layer)"
    "loaded' = (loaded \<union> dom layer) \<union> dom (merged rest)"
    using 2 sub r by (auto simp: Let_def)
  have m: "merged (layer # rest) = layer ++ merged rest"
    unfolding merged_def using foldl_map_add[of layer rest] by simp
  show ?case using ih sub by (auto simp: m map_add_assoc)
qed (simp add: merged_def)

lemma load_update_ok:
  assumes "load_update layers target = (None, model)"
  shows "model = merged layers \<and> dom model = dom target"
proof -
  obtain loaded where l: "load_layers layers target {} = (None, model, loaded)" "loaded = dom model"
    using assms by (auto simp: load_update_def split: prod.splits option.splits if_splits)
  note ok = load_layers_ok[OF l(1)]
  have d: "dom target = dom (merged layers)" using ok l(2) by (metis sup_bot_left)
  have "target ++ merged layers = merged layers"
    by (rule ext) (metis d domIff map_add_dom_app_simps(1,3))
  then show ?thesis using ok d by metis
qed

text \<open>
  The serving invariant with double buffering: the active model is what one complete
  message carried, under the version that was announced with it.
\<close>

definition serves :: "'w EvaluatorRuntime \<Rightarrow> int \<Rightarrow> (string \<rightharpoonup> 'w) list \<Rightarrow> bool" where
  "serves rt version layers \<longleftrightarrow>
     ev_model rt = merged layers \<and> ev_version rt = version \<and> ev_service_version rt = version \<and>
     (\<exists>m. ev_inactive rt = Some m \<and> dom m = dom (ev_model rt))"

lemma serves_error: "serves (rt\<lparr>ev_service_error := e\<rparr>) version layers = serves rt version layers"
  by (simp add: serves_def)

lemma load_layers_dom: "load_layers layers model loaded = (e, model', loaded') \<Longrightarrow> dom model' = dom model"
proof (induction layers model loaded rule: load_layers.induct)
  case (2 layer rest model loaded)
  have "dom (model ++ layer |` dom model) = dom model" by auto
  then show ?case using 2 by (cases "dom layer \<subseteq> dom model") (simp_all only: load_layers.simps Let_def if_True if_False prod.inject not_True_eq_False not_False_eq_True)
qed simp

lemma load_update_dom: "load_update layers target = (e, model) \<Longrightarrow> dom model = dom target"
  using load_layers_dom[of layers target "{}"]
  by (cases "load_layers layers target {}") (auto simp only: load_update_def prod.case prod.inject split: option.splits if_splits)

lemma receive_serves:
  assumes "serves rt v0 l0" and "receive_and_apply version layers rt = (e, rt')"
  shows "if e = None then serves rt' version layers else serves rt' v0 l0"
proof -
  obtain m where m: "ev_inactive rt = Some m" "dom m = dom (ev_model rt)" using assms(1) by (auto simp: serves_def)
  obtain e' model where lu: "load_update layers m = (e', model)" by (cases "load_update layers m")
  show ?thesis
  proof (cases e')
    case None
    then show ?thesis
      using assms m lu load_update_ok[of layers m model] by (auto simp: receive_and_apply_def serves_def)
  next
    case (Some x)
    then show ?thesis
      using assms m lu load_update_dom[OF lu] by (auto simp: receive_and_apply_def serves_def)
  qed
qed

text \<open>C23: With double-buffered weights the evaluator never serves a torn model: after any sequence of
  weight messages, complete or not, and whether the stream closed or failed, the active model is
  exactly the content of one complete update under that update's version number (or the initial one).\<close>

theorem update_loop_never_torn:
  assumes "serves rt version layers"
  shows "\<exists>version' layers'. serves (update_loop messages rt) version' layers' \<and>
    ((version', layers') = (version, layers) \<or> Update version' layers' \<in> set messages)"
  using assms
proof (induction messages rt arbitrary: version layers rule: update_loop.induct)
  case (2 v ls rest rt)
  obtain e rt' where r: "receive_and_apply v ls rt = (e, rt')" by (cases "receive_and_apply v ls rt")
  show ?case
  proof (cases e)
    case None
    then have "serves rt' v ls" using receive_serves[OF 2(2) r] by simp
    from 2(1)[OF r[symmetric, unfolded None] refl this] obtain v' l' where
      "serves (update_loop rest rt') v' l'" "(v', l') = (v, ls) \<or> Update v' l' \<in> set rest" by blast
    then show ?thesis using r None by (intro exI[of _ v'] exI[of _ l']) auto
  next
    case (Some x)
    then have "serves rt' version layers" using receive_serves[OF 2(2) r] by simp
    then have "serves (rt'\<lparr>ev_service_error := Some x\<rparr>) version layers" by (simp only: serves_error)
    then show ?thesis using r Some by (intro exI[of _ version] exI[of _ layers]) simp
  qed
next
  case (1 rt)
  then show ?case by auto
next
  case (3 rest rt)
  then show ?case by auto
next
  case (4 e rest rt)
  then have "serves (rt\<lparr>ev_service_error := Some e\<rparr>) version layers" by (simp only: serves_error)
  then show ?case by (intro exI[of _ version] exI[of _ layers]) simp
qed

definition demo_runtime :: "int EvaluatorRuntime" where
  "demo_runtime = \<lparr>ev_model = [''w'' \<mapsto> 1, ''b'' \<mapsto> 2], ev_inactive = Some [''w'' \<mapsto> 1, ''b'' \<mapsto> 2], ev_version = 0,
     ev_service_version = 0, ev_service_error = None\<rparr>"

theorem update_loop_never_torn_witness:
  "\<exists>version' layers'. serves (update_loop [Update 1 [[''w'' \<mapsto> 7]]] demo_runtime) version' layers' \<and>
     ((version', layers') = (0, [[''w'' \<mapsto> 1, ''b'' \<mapsto> 2]]) \<or>
      Update version' layers' \<in> set [Update 1 [[''w'' \<mapsto> (7 :: int)]]])"
  by (rule update_loop_never_torn) (simp add: serves_def demo_runtime_def merged_def)

end
