(* ===== verification/Provenance.thy ===== *)
theory Provenance
  imports Prelude "HOL-Library.Word"
begin

text \<open>
  \<^verbatim>\<open>orchestrator/provenance.py\<close> and \<^verbatim>\<open>transport/provenance.py\<close>: the engine labels that an
  inference server attaches to sampled tokens, their projection to comparable policy steps
  per physical token, and the compact little-endian int64 carrier. Steps are 64-bit words,
  read as signed integers as numpy does.
\<close>

unbundle bit_operations_syntax

section \<open>Trace nodes\<close>

record weight_span =
  ws_start :: int
  ws_end :: int
  ws_version :: string

record MessageNode =
  mn_token_ids :: "int list"
  mn_mask :: "bool list"
  mn_sampled :: bool
  mn_logprobs :: "real list"
  mn_is_content :: "bool list"
  mn_weight_versions :: "weight_span list option"

definition sampled_count :: "bool list \<Rightarrow> nat" where
  "sampled_count msk = length (filter id msk)"

fun spans_ordered :: "int \<Rightarrow> int \<Rightarrow> weight_span list \<Rightarrow> bool" where
  "spans_ordered previous_end n_sampled [] = True"
| "spans_ordered previous_end n_sampled (sp # rest) =
     (0 \<le> previous_end \<and> previous_end \<le> ws_start sp \<and> ws_start sp \<le> ws_end sp \<and> ws_end sp \<le> n_sampled \<and>
      spans_ordered (ws_end sp) n_sampled rest)"

definition validate_weight_versions :: "'a MessageNode_scheme \<Rightarrow> unit result" where
  "validate_weight_versions node =
     (case mn_weight_versions node of
        None \<Rightarrow> Ok ()
      | Some spans \<Rightarrow>
          raise_if (length (mn_mask node) \<noteq> length (mn_token_ids node))
            (ValueError ''weight versions require a token-aligned boolean sampling mask'')
            (raise_if (\<not> mn_sampled node \<and> (spans \<noteq> [] \<or> True \<in> set (mn_mask node)))
              (ValueError ''weight versions require a sampled node'')
              (raise_if (\<not> spans_ordered 0 (int (sampled_count (mn_mask node))) spans)
                (ValueError ''weight versions require ordered, nonoverlapping sampled-token intervals'')
                (Ok ()))))"

section \<open>Step labels\<close>

definition digit_val :: "char \<Rightarrow> nat" where
  "digit_val c = of_char c - 48"

definition is_digit :: "char \<Rightarrow> bool" where
  "is_digit c \<longleftrightarrow> 48 \<le> (of_char c :: nat) \<and> (of_char c :: nat) \<le> 57"

text \<open>\<open>(?:0|[1-9][0-9]*)\Z\<close> with \<open>fullmatch\<close>\<close>

definition step_label :: "string \<Rightarrow> bool" where
  "step_label label \<longleftrightarrow> label = ''0'' \<or> (label \<noteq> [] \<and> list_all is_digit label \<and> hd label \<noteq> CHR ''0'')"

definition parse_digits :: "string \<Rightarrow> nat" where
  "parse_digits label = foldl (\<lambda>acc c. 10 * acc + digit_val c) 0 label"

text \<open>\<open>str(np.iinfo(np.int64).max)\<close>\<close>

definition max_step :: string where
  "max_step = ''9223372036854775807''"

text \<open>Python's \<open>>\<close> on two strings.\<close>

fun str_greater :: "string \<Rightarrow> string \<Rightarrow> bool" where
  "str_greater [] ys = False"
| "str_greater (x # xs) [] = True"
| "str_greater (x # xs) (y # ys) =
     ((of_char x :: nat) > of_char y \<or> (x = y \<and> str_greater xs ys))"

definition policy_step :: "string \<Rightarrow> int" where
  "policy_step label =
     (if \<not> step_label label then -1
      else if length label > length max_step \<or> (length label = length max_step \<and> str_greater label max_step) then -1
      else int (parse_digits label))"

section \<open>Projection to tokens\<close>

text \<open>\<open>np.flatnonzero(mask)\<close>\<close>

definition sampled_positions :: "bool list \<Rightarrow> nat list" where
  "sampled_positions msk = filter (\<lambda>i. msk ! i) [0..<length msk]"

text \<open>\<open>result[positions] = value\<close>\<close>

definition assign_at :: "nat list \<Rightarrow> 'a \<Rightarrow> 'a list \<Rightarrow> 'a list" where
  "assign_at positions v result = fold (\<lambda>i r. r[i := v]) positions result"

definition apply_span :: "nat list \<Rightarrow> weight_span \<Rightarrow> 64 word list \<Rightarrow> 64 word list" where
  "apply_span positions sp result =
     assign_at (take (nat (ws_end sp) - nat (ws_start sp)) (drop (nat (ws_start sp)) positions))
       (word_of_int (policy_step (ws_version sp))) result"

definition node_policy_versions :: "'a MessageNode_scheme \<Rightarrow> 64 word list result" where
  "node_policy_versions node =
     bindE (validate_weight_versions node) (\<lambda>_.
       let result = replicate (length (mn_token_ids node)) (-1)
       in case mn_weight_versions node of
            None \<Rightarrow> Ok result
          | Some spans \<Rightarrow> Ok (fold (apply_span (sampled_positions (mn_mask node))) spans result))"

definition clip_weight_versions :: "'a MessageNode_scheme \<Rightarrow> int \<Rightarrow> weight_span list option result" where
  "clip_weight_versions node retained_sampled =
     bindE (validate_weight_versions node) (\<lambda>_.
       raise_if (retained_sampled < 0 \<or> retained_sampled > int (sampled_count (mn_mask node)))
         (ValueError ''invalid retained sampled-token count'')
         (Ok (map_option (\<lambda>spans. map (\<lambda>sp. sp\<lparr>ws_end := min (ws_end sp) retained_sampled\<rparr>)
                 (filter (\<lambda>sp. ws_start sp < retained_sampled) spans)) (mn_weight_versions node))))"

section \<open>The int64 carrier\<close>

record EncodedTensor =
  et_dtype :: string
  et_shape :: "int list"
  et_data :: "8 word list"

text \<open>One \<open><i8\<close> value as its eight bytes, least significant first, and back.\<close>

definition bytes_of :: "64 word \<Rightarrow> 8 word list" where
  "bytes_of w = map (\<lambda>k. ucast (drop_bit (8 * k) w)) [0..<8]"

definition of_bytes :: "8 word list \<Rightarrow> 64 word" where
  "of_bytes bs = foldr (\<lambda>b acc. push_bit 8 acc OR ucast b) bs 0"

fun frombuffer :: "nat \<Rightarrow> 8 word list \<Rightarrow> 64 word list" where
  "frombuffer 0 bs = []"
| "frombuffer (Suc n) bs = of_bytes (take 8 bs) # frombuffer n (drop 8 bs)"

definition encode_policy_versions :: "64 word list \<Rightarrow> EncodedTensor option result" where
  "encode_policy_versions values =
     raise_if (\<exists>v \<in> set values. sint v < -1)
       (ValueError ''policy versions require a one-dimensional int64 array with values >= -1'')
       (Ok (if \<not> (\<exists>v \<in> set values. sint v \<ge> 0) then None
            else Some \<lparr>et_dtype = ''int64'', et_shape = [int (length values)], et_data = concat (map bytes_of values)\<rparr>))"

definition decode_policy_versions :: "EncodedTensor \<Rightarrow> nat \<Rightarrow> 64 word list result" where
  "decode_policy_versions payload num_tokens =
     raise_if (et_dtype payload \<noteq> ''int64'' \<or> et_shape payload \<noteq> [int num_tokens] \<or>
               length (et_data payload) \<noteq> num_tokens * 8)
       (ValueError ''token_policy_versions must be int64 with exactly one value per physical token'')
       (let values = frombuffer num_tokens (et_data payload)
        in raise_if (\<exists>v \<in> set values. sint v < -1)
             (ValueError ''token_policy_versions values must be -1 (unknown) or a nonnegative step'')
             (Ok values))"

section \<open>Round trip of the carrier\<close>

lemma byte_step:
  "push_bit 8 (drop_bit (8 * Suc k) w) OR ucast (ucast (drop_bit (8 * k) w) :: 8 word) = drop_bit (8 * k) w"
  for w :: "64 word"
  by (rule bit_word_eqI) (auto simp: bit_simps algebra_simps not_le)

lemma of_bytes_from:
  "k \<le> 8 \<Longrightarrow> foldr (\<lambda>b acc. push_bit 8 acc OR ucast (b :: 8 word)) (map (\<lambda>k. ucast (drop_bit (8 * k) w)) [k..<8]) 0 =
     drop_bit (8 * k) w" for w :: "64 word"
proof (induction k rule: inc_induct)
  case base
  show ?case by (rule bit_word_eqI) (simp add: bit_simps)
next
  case (step k)
  then show ?case using byte_step[of k w] by (simp add: upt_conv_Cons)
qed

lemma of_bytes_bytes: "of_bytes (bytes_of w) = w"
  using of_bytes_from[of 0 w] by (simp add: of_bytes_def bytes_of_def)

lemma length_bytes_of [simp]: "length (bytes_of w) = 8"
  by (simp add: bytes_of_def)

lemma frombuffer_concat: "frombuffer (length ws) (concat (map bytes_of ws)) = ws"
  by (induction ws) (simp_all add: of_bytes_bytes)

lemma length_concat_bytes: "length (concat (map bytes_of ws)) = length ws * 8"
  by (induction ws) simp_all

text \<open>The int64 carrier is lossless: decoding an encoded stream for its own token count gives the
  stream back; a stream with no known step is carried as absent, and a value below -1 is refused.\<close>

lemma policy_versions_roundtrip:
  "case encode_policy_versions values of
     Inl e \<Rightarrow> (\<exists>v \<in> set values. sint v < -1)
   | Inr None \<Rightarrow> set values \<subseteq> {-1}
   | Inr (Some payload) \<Rightarrow> decode_policy_versions payload (length values) = Ok values"
proof -
  have "v = -1" if "\<not> sint v < -1" "\<not> sint v \<ge> 0" for v :: "64 word"
  proof -
    have "sint v = sint (-1 :: 64 word)" using that by simp
    then show ?thesis by (rule signed_word_eqI)
  qed
  then show ?thesis
    by (auto simp: encode_policy_versions_def decode_policy_versions_def raise_if_def frombuffer_concat
        length_concat_bytes Let_def)
qed

section \<open>Labels\<close>

text \<open>\<open>str(n)\<close> for a step counter.\<close>

fun show_nat :: "nat \<Rightarrow> string" where
  "show_nat n = (if n < 10 then [char_of (48 + n)] else show_nat (n div 10) @ [char_of (48 + n mod 10)])"

declare show_nat.simps [simp del]

lemma of_char_digit: "d < 10 \<Longrightarrow> of_char (char_of (48 + d) :: char) = (48 + d :: nat)"
  by simp

lemma digit_props: "d < 10 \<Longrightarrow> is_digit (char_of (48 + d)) \<and> digit_val (char_of (48 + d)) = d"
  by (simp add: is_digit_def digit_val_def of_char_digit)

lemma parse_snoc [simp]: "parse_digits (xs @ [c]) = 10 * parse_digits xs + digit_val c" "parse_digits [] = 0"
  by (simp_all add: parse_digits_def)

lemma show_nat_props: "parse_digits (show_nat n) = n \<and> list_all is_digit (show_nat n) \<and> show_nat n \<noteq> [] \<and>
    (n > 0 \<longrightarrow> hd (show_nat n) \<noteq> CHR ''0'')"
proof (induction n rule: show_nat.induct)
  case (1 n)
  show ?case
  proof (cases "n < 10")
    case True
    have "char_of (48 + n) \<noteq> CHR ''0''" if "n > 0"
    proof
      assume "char_of (48 + n) = CHR ''0''"
      then have "(of_char (char_of (48 + n) :: char) :: nat) = 48" by simp
      then show False using of_char_digit[OF True] that by simp
    qed
    then show ?thesis using True digit_props[OF True] parse_snoc(1)[of "[]"] by (simp add: show_nat.simps[of n] del: parse_snoc(1))
  next
    case False
    then have ih: "parse_digits (show_nat (n div 10)) = n div 10" "list_all is_digit (show_nat (n div 10))"
      "show_nat (n div 10) \<noteq> []" "hd (show_nat (n div 10)) \<noteq> CHR ''0''"
      using 1 by (auto simp: div_greater_zero_iff)
    have "10 * (n div 10) + n mod 10 = n" by simp
    then show ?thesis
      using False ih digit_props[of "n mod 10"] by (simp add: show_nat.simps[of n] hd_append)
  qed
qed

lemma foldl_digits: "foldl (\<lambda>acc c. 10 * acc + digit_val c) a xs = a * 10 ^ length xs + parse_digits xs"
proof (induction xs rule: rev_induct)
  case (snoc c xs)
  then show ?case by (simp add: algebra_simps)
qed simp

lemma parse_Cons: "parse_digits (c # xs) = digit_val c * 10 ^ length xs + parse_digits xs"
  using foldl_digits[of "digit_val c" xs] by (simp add: parse_digits_def)

lemma digit_val_le: "is_digit c \<Longrightarrow> digit_val c \<le> 9"
  unfolding is_digit_def digit_val_def by linarith

lemma parse_less: "list_all is_digit xs \<Longrightarrow> parse_digits xs < 10 ^ length xs"
proof (induction xs)
  case (Cons c xs)
  then have "digit_val c * 10 ^ length xs \<le> 9 * 10 ^ length xs" using digit_val_le by (intro mult_right_mono) auto
  moreover have "parse_digits xs < 10 ^ length xs" using Cons by simp
  ultimately have "parse_digits (c # xs) < 9 * 10 ^ length xs + 10 ^ length xs" unfolding parse_Cons by linarith
  then show ?case by simp
qed simp

lemma digit_eq_iff: "is_digit c \<Longrightarrow> is_digit d \<Longrightarrow> digit_val c = digit_val d \<longleftrightarrow> c = d"
proof -
  assume "is_digit c" "is_digit d"
  then have "digit_val c = digit_val d \<longleftrightarrow> (of_char c :: nat) = of_char d"
    unfolding is_digit_def digit_val_def by linarith
  then show ?thesis by simp
qed

text \<open>On digit strings of one length, Python's string order is the numeric order.\<close>

lemma str_greater_digits:
  "length xs = length ys \<Longrightarrow> list_all is_digit xs \<Longrightarrow> list_all is_digit ys \<Longrightarrow>
   str_greater xs ys \<longleftrightarrow> parse_digits xs > parse_digits ys"
proof (induction xs ys rule: list_induct2)
  case (Cons x xs y ys)
  let ?p = "10 ^ length ys :: nat"
  have lt: "parse_digits xs < ?p" "parse_digits ys < ?p" using Cons parse_less[of xs] parse_less[of ys] by auto
  have gt: "(of_char x :: nat) > of_char y \<longleftrightarrow> digit_val x > digit_val y"
    using Cons.prems unfolding is_digit_def digit_val_def by fastforce
  consider "digit_val x > digit_val y" | "x = y" | "digit_val x < digit_val y"
    using Cons.prems digit_eq_iff[of x y] by fastforce
  then show ?case
  proof cases
    case 1
    then have "Suc (digit_val y) * ?p \<le> digit_val x * ?p" by (intro mult_right_mono) auto
    then show ?thesis using 1 gt lt Cons.hyps by (simp add: parse_Cons)
  next
    case 2
    then show ?thesis using Cons by (simp add: parse_Cons)
  next
    case 3
    then have "Suc (digit_val x) * ?p \<le> digit_val y * ?p" by (intro mult_right_mono) auto
    moreover have "x \<noteq> y" using 3 by auto
    ultimately show ?thesis using 3 gt lt Cons.hyps by (simp add: parse_Cons)
  qed
qed (simp add: parse_digits_def)

lemma max_step_props: "list_all is_digit max_step" "length max_step = 19" "parse_digits max_step = 2 ^ 63 - 1"
  by (simp_all add: max_step_def is_digit_def parse_digits_def digit_val_def)

lemma step_label_digits: "step_label label \<Longrightarrow> list_all is_digit label"
  by (auto simp: step_label_def is_digit_def)

lemma long_label_large:
  assumes "step_label label" "length label > 19"
  shows "parse_digits label \<ge> 10 ^ 19"
proof -
  obtain c xs where l: "label = c # xs" using assms(2) by (cases label) auto
  then have c: "is_digit c" "c \<noteq> CHR ''0''" using assms by (auto simp: step_label_def)
  then have "digit_val c \<noteq> digit_val CHR ''0''" using digit_eq_iff[of c "CHR ''0''"] by (simp add: is_digit_def)
  then have "1 \<le> digit_val c" by (simp add: digit_val_def)
  then have "1 * 10 ^ length xs \<le> digit_val c * 10 ^ length xs" by (intro mult_right_mono) auto
  moreover have "(10 :: nat) ^ 19 \<le> 10 ^ length xs" using assms(2) l by (intro power_increasing) auto
  ultimately show ?thesis unfolding l parse_Cons by linarith
qed

lemma policy_step_label:
  assumes "step_label label"
  shows "policy_step label = (if parse_digits label < 2 ^ 63 then int (parse_digits label) else -1)"
proof -
  note d = step_label_digits[OF assms]
  consider "length label > 19" | "length label = 19" | "length label < 19" by linarith
  then show ?thesis
  proof cases
    case 1
    have "(2 :: nat) ^ 63 \<le> 10 ^ 19" by simp
    then show ?thesis using 1 long_label_large[OF assms 1] assms by (simp add: policy_step_def max_step_props)
  next
    case 2
    then have "str_greater label max_step \<longleftrightarrow> parse_digits label > 2 ^ 63 - 1"
      using str_greater_digits[of label max_step] d max_step_props by simp
    then show ?thesis using 2 assms by (auto simp: policy_step_def max_step_props)
  next
    case 3
    have "parse_digits label < 10 ^ length label" by (rule parse_less[OF d])
    also have "(10 :: nat) ^ length label \<le> 10 ^ 18" using 3 by (intro power_increasing) auto
    also have "(10 :: nat) ^ 18 < 2 ^ 63" by simp
    finally show ?thesis using 3 assms by (simp add: policy_step_def max_step_props)
  qed
qed

lemma policy_step_range: "-1 \<le> policy_step label \<and> policy_step label < 2 ^ 63"
proof (cases "step_label label")
  case True
  then show ?thesis using policy_step_label[OF True] by (auto split: if_splits)
qed (simp add: policy_step_def)

lemma show_parse: "step_label label \<Longrightarrow> show_nat (parse_digits label) = label"
proof (induction label rule: rev_induct)
  case (snoc c xs)
  have c: "is_digit c" using step_label_digits[OF snoc.prems] by simp
  have ch: "char_of (48 + digit_val c) = c"
    using c by (simp add: is_digit_def digit_val_def)
  show ?case
  proof (cases "xs = []")
    case True
    then show ?thesis using digit_val_le[OF c] ch parse_snoc(1)[of "[]" c] by (simp add: show_nat.simps[of "digit_val c"])
  next
    case False
    then have xs: "step_label xs" "hd xs \<noteq> CHR ''0''" using snoc.prems by (auto simp: step_label_def)
    have "parse_digits xs \<noteq> 0"
    proof
      assume "parse_digits xs = 0"
      then have "[char_of (48 :: nat)] = xs" using snoc.IH[OF xs(1)] by (simp add: show_nat.simps[of 0])
      moreover have "char_of (48 :: nat) = CHR ''0''" by (simp add: char_of_eq_iff)
      ultimately have "xs = ''0''" by simp
      then show False using xs(2) by simp
    qed
    moreover have "(10 * parse_digits xs + digit_val c) div 10 = parse_digits xs" "(10 * parse_digits xs + digit_val c) mod 10 = digit_val c"
      using digit_val_le[OF c] by auto
    ultimately show ?thesis
      using snoc.IH[OF xs(1)] ch by (simp add: show_nat.simps[of "10 * parse_digits xs + digit_val c"])
  qed
qed (simp add: step_label_def)

lemma step_label_show: "step_label (show_nat n)"
  using show_nat_props[of n] by (cases "n = 0") (auto simp: step_label_def show_nat.simps[of 0])

text \<open>A label parses to a step exactly under the publisher's protocol: the decimal form of a step
  below 2^63 gives that step, a larger one is unknown, and every other label is unknown; the step
  always fits the signed 64-bit carrier.\<close>

lemma policy_step_protocol:
  "policy_step (show_nat n) = (if n < 2 ^ 63 then int n else -1) \<and>
   (policy_step label \<noteq> -1 \<longrightarrow> label = show_nat (nat (policy_step label))) \<and>
   sint (word_of_int (policy_step label) :: 64 word) = policy_step label"
proof (intro conjI impI)
  show "policy_step (show_nat n) = (if n < 2 ^ 63 then int n else -1)"
    using policy_step_label[OF step_label_show[of n]] show_nat_props[of n] by simp
  assume known: "policy_step label \<noteq> -1"
  then have l: "step_label label" by (auto simp: policy_step_def split: if_splits)
  have "policy_step label = int (parse_digits label)" using known policy_step_label[OF l] by (simp split: if_splits)
  then show "label = show_nat (nat (policy_step label))" using show_parse[OF l] by simp
next
  show "sint (word_of_int (policy_step label) :: 64 word) = policy_step label"
    using policy_step_range[of label] by (simp add: sint_sbintrunc' signed_take_bit_int_eq_self)
qed

lemma policy_step_protocol_witness:
  "policy_step (show_nat 120) = 120 \<and> ''120'' = show_nat (nat (policy_step ''120''))"
  using policy_step_protocol[of 120 "''120''"]
  by (simp add: policy_step_def step_label_def is_digit_def max_step_def parse_digits_def digit_val_def)

section \<open>Projection to physical tokens\<close>

lemma length_assign_at [simp]: "length (assign_at ps v r) = length r"
  unfolding assign_at_def by (induction ps arbitrary: r) auto

lemma assign_at_nth: "i < length r \<Longrightarrow> assign_at ps v r ! i = (if i \<in> set ps then v else r ! i)"
  unfolding assign_at_def by (induction ps arbitrary: r) (auto simp: nth_list_update)

lemma length_apply_spans [simp]: "length (fold (apply_span ps) spans r) = length r"
  by (induction spans arbitrary: r) (auto simp: apply_span_def)

text \<open>The rank of a sampled token among the sampled tokens of its node.\<close>

definition sampled_rank :: "bool list \<Rightarrow> nat \<Rightarrow> nat" where
  "sampled_rank msk i = sampled_count (take i msk)"

lemma length_sampled_positions: "length (sampled_positions msk) = sampled_count msk"
proof -
  have "sampled_count msk = length (filter (\<lambda>i. msk ! i) [0..<length msk])"
  proof (induction msk rule: rev_induct)
    case (snoc x xs)
    have "filter (\<lambda>i. (xs @ [x]) ! i) [0..<length xs] = filter (\<lambda>i. xs ! i) [0..<length xs]"
      by (rule filter_cong) (auto simp: nth_append)
    then show ?case using snoc by (simp add: sampled_count_def)
  qed (simp add: sampled_count_def)
  then show ?thesis by (simp add: sampled_positions_def)
qed

lemma sampled_positions_take: "n \<le> length msk \<Longrightarrow> sampled_positions (take n msk) = filter (\<lambda>i. msk ! i) [0..<n]"
  by (auto simp: sampled_positions_def intro!: filter_cong)

lemma sampled_positions_prefix:
  assumes "n \<le> length msk"
  shows "sampled_positions msk = sampled_positions (take n msk) @ filter (\<lambda>i. msk ! i) [n..<length msk]"
proof -
  have "[0..<length msk] = [0..<n] @ [n..<length msk]" using assms upt_add_eq_append[of 0 n "length msk - n"] by simp
  then show ?thesis using sampled_positions_take[OF assms] by (simp add: sampled_positions_def)
qed

lemma sampled_rank_lt: "i < length msk \<Longrightarrow> msk ! i \<Longrightarrow> sampled_rank msk i < sampled_count msk \<and>
    sampled_positions msk ! sampled_rank msk i = i"
proof -
  assume i: "i < length msk" "msk ! i"
  have "filter (\<lambda>i. msk ! i) [i..<length msk] = i # filter (\<lambda>i. msk ! i) [Suc i..<length msk]"
    using i by (simp add: upt_conv_Cons)
  then have p: "sampled_positions msk = sampled_positions (take i msk) @ i # filter (\<lambda>i. msk ! i) [Suc i..<length msk]"
    using sampled_positions_prefix[of i msk] i by simp
  have "length (sampled_positions (take i msk)) = sampled_rank msk i"
    by (simp add: length_sampled_positions sampled_rank_def)
  note l = this
  have "sampled_positions msk ! sampled_rank msk i = i" by (subst p) (simp add: nth_append l)
  moreover have "sampled_rank msk i < length (sampled_positions msk)" by (subst p) (simp add: l)
  ultimately show ?thesis by (simp add: length_sampled_positions)
qed

lemma take_drop_map: "take n (drop a xs) = map ((!) xs) [a..<min (a + n) (length xs)]"
  by (rule nth_equalityI) auto

lemma distinct_sampled_positions: "distinct (sampled_positions msk)"
  by (simp add: sampled_positions_def)

lemma in_slice_iff:
  assumes "i < length msk" "a \<le> b"
  shows "i \<in> set (take (b - a) (drop a (sampled_positions msk))) \<longleftrightarrow> msk ! i \<and> a \<le> sampled_rank msk i \<and> sampled_rank msk i < b"
proof -
  let ?p = "sampled_positions msk"
  have mem: "x \<in> set (take (b - a) (drop a ?p)) \<longleftrightarrow> (\<exists>k. a \<le> k \<and> k < b \<and> k < length ?p \<and> ?p ! k = x)" for x
    using assms(2) unfolding take_drop_map by auto
  show ?thesis
  proof (cases "msk ! i")
    case True
    note r = sampled_rank_lt[OF assms(1) True]
    have "k = sampled_rank msk i" if "k < length ?p" "?p ! k = i" for k
      using r that nth_eq_iff_index_eq[OF distinct_sampled_positions[of msk], of k "sampled_rank msk i"]
      by (simp add: length_sampled_positions)
    then show ?thesis using mem[of i] True r length_sampled_positions[of msk] by auto
  next
    case False
    have "i \<notin> set ?p" using False by (simp add: sampled_positions_def)
    then show ?thesis using False by (meson in_set_dropD in_set_takeD)
  qed
qed

text \<open>The label of a sampled token is the one of the span that holds its rank.\<close>

definition span_at :: "weight_span list \<Rightarrow> nat \<Rightarrow> weight_span option" where
  "span_at spans r = find (\<lambda>sp. ws_start sp \<le> int r \<and> int r < ws_end sp) spans"

lemma span_at_None: "spans_ordered p n spans \<Longrightarrow> int r < p \<Longrightarrow> span_at spans r = None"
proof (induction spans arbitrary: p)
  case (Cons sp rest)
  have "int r < ws_end sp" using Cons.prems by auto
  then show ?case using Cons.IH[of "ws_end sp"] Cons.prems by (auto simp: span_at_def)
qed (simp add: span_at_def)

lemma apply_spans_nth:
  assumes "spans_ordered p n spans" "i < length msk" "length r = length msk"
  shows "fold (apply_span (sampled_positions msk)) spans r ! i =
    (case (if msk ! i then span_at spans (sampled_rank msk i) else None) of
       None \<Rightarrow> r ! i | Some sp \<Rightarrow> word_of_int (policy_step (ws_version sp)))"
  using assms
proof (induction spans arbitrary: p r)
  case (Cons sp rest)
  let ?r = "apply_span (sampled_positions msk) sp r" and ?k = "sampled_rank msk i"
  have ord: "0 \<le> ws_start sp" "ws_start sp \<le> ws_end sp" "spans_ordered (ws_end sp) n rest" using Cons.prems by auto
  have "i \<in> set (take (nat (ws_end sp) - nat (ws_start sp)) (drop (nat (ws_start sp)) (sampled_positions msk))) \<longleftrightarrow>
      msk ! i \<and> ws_start sp \<le> int ?k \<and> int ?k < ws_end sp"
    using in_slice_iff[OF Cons.prems(2), of "nat (ws_start sp)" "nat (ws_end sp)"] ord(1,2) by auto
  then have ri: "?r ! i = (if msk ! i \<and> ws_start sp \<le> int ?k \<and> int ?k < ws_end sp
      then word_of_int (policy_step (ws_version sp)) else r ! i)"
    using Cons.prems(2,3) by (simp add: apply_span_def assign_at_nth)
  have "length ?r = length msk" using Cons.prems(3) by (simp add: apply_span_def)
  note ih = Cons.IH[OF ord(3) Cons.prems(2) this]
  show ?case
  proof (cases "msk ! i \<and> ws_start sp \<le> int ?k \<and> int ?k < ws_end sp")
    case True
    then have "span_at rest ?k = None" using span_at_None[OF ord(3)] by blast
    then show ?thesis using ih ri True by (simp add: span_at_def)
  next
    case False
    then have "(if msk ! i then span_at (sp # rest) ?k else None) = (if msk ! i then span_at rest ?k else None)"
      by (auto simp: span_at_def)
    then show ?thesis using ih ri False by (simp split: option.splits)
  qed
qed (simp add: span_at_def)

definition token_version :: "weight_span list \<Rightarrow> bool list \<Rightarrow> nat \<Rightarrow> 64 word" where
  "token_version spans msk i =
     (case (if msk ! i then span_at spans (sampled_rank msk i) else None) of
        None \<Rightarrow> -1 | Some sp \<Rightarrow> word_of_int (policy_step (ws_version sp)))"

lemma valid_spans:
  assumes "validate_weight_versions node = Ok ()" "mn_weight_versions node = Some spans"
  shows "length (mn_mask node) = length (mn_token_ids node)" "spans_ordered 0 (int (sampled_count (mn_mask node))) spans"
    "mn_sampled node \<or> spans = [] \<and> True \<notin> set (mn_mask node)"
  using assms by (auto simp: validate_weight_versions_def raise_if_def split: if_splits)

lemma node_versions_map:
  assumes "validate_weight_versions node = Ok ()" "mn_weight_versions node = Some spans"
  shows "node_policy_versions node = Ok (map (token_version spans (mn_mask node)) [0..<length (mn_token_ids node)])"
proof -
  note v = valid_spans[OF assms]
  have "fold (apply_span (sampled_positions (mn_mask node))) spans (replicate (length (mn_token_ids node)) (-1)) =
      map (token_version spans (mn_mask node)) [0..<length (mn_token_ids node)]"
    by (rule nth_equalityI) (use apply_spans_nth[OF v(2)] v(1) in \<open>simp_all add: token_version_def split: option.splits\<close>)
  then show ?thesis using assms by (simp add: node_policy_versions_def)
qed

text \<open>The truncation that \<open>project_training_trace\<close> applies to a node.\<close>

definition clip_node :: "'a MessageNode_scheme \<Rightarrow> nat \<Rightarrow> 'a MessageNode_scheme result" where
  "clip_node node retained =
     bindE (clip_weight_versions node (int (sampled_count (take retained (mn_mask node))))) (\<lambda>wv.
       let m = take retained (mn_mask node)
       in Ok (node\<lparr>mn_weight_versions := wv, mn_token_ids := take retained (mn_token_ids node), mn_mask := m,
                   mn_is_content := take retained (mn_is_content node),
                   mn_logprobs := take (sampled_count m) (mn_logprobs node)\<rparr>))"

lemma spans_ordered_weaken: "spans_ordered p n spans \<Longrightarrow> 0 \<le> q \<Longrightarrow> q \<le> p \<Longrightarrow> spans_ordered q n spans"
  by (cases spans) auto

lemma clip_spans_ordered:
  "spans_ordered p n spans \<Longrightarrow> 0 \<le> q \<Longrightarrow> q \<le> p \<Longrightarrow> q \<le> m \<Longrightarrow> m \<le> n \<Longrightarrow>
   spans_ordered q m (map (\<lambda>sp. sp\<lparr>ws_end := min (ws_end sp) m\<rparr>) (filter (\<lambda>sp. ws_start sp < m) spans))"
proof (induction spans arbitrary: p q)
  case (Cons sp rest)
  show ?case
  proof (cases "ws_start sp < m")
    case True
    then show ?thesis using Cons.IH[of "ws_end sp" "min (ws_end sp) m"] Cons.prems by auto
  next
    case False
    then show ?thesis using Cons.IH[of "ws_end sp" q] Cons.prems by auto
  qed
qed simp

lemma clip_span_at:
  assumes "int r < m"
  shows "map_option ws_version (span_at (map (\<lambda>sp. sp\<lparr>ws_end := min (ws_end sp) m\<rparr>) (filter (\<lambda>sp. ws_start sp < m) spans)) r) =
    map_option ws_version (span_at spans r)"
  using assms by (induction spans) (auto simp: span_at_def)

lemma sampled_rank_take: "i < n \<Longrightarrow> sampled_rank (take n msk) i = sampled_rank msk i"
  by (simp add: sampled_rank_def min_def)

lemma sampled_count_take_le: "sampled_count (take n msk) \<le> sampled_count msk"
  by (metis append_take_drop_id filter_append le_add1 length_append sampled_count_def)

lemma clip_commutes:
  assumes valid: "validate_weight_versions node = Ok ()" and len: "length (mn_mask node) = length (mn_token_ids node)"
    and ret: "retained \<le> length (mn_token_ids node)"
  shows "\<exists>clipped versions. clip_node node retained = Ok clipped \<and> validate_weight_versions clipped = Ok () \<and>
    node_policy_versions node = Ok versions \<and> node_policy_versions clipped = Ok (take retained versions)"
proof (cases "mn_weight_versions node")
  case None
  then show ?thesis
    using valid sampled_count_take_le[of retained "mn_mask node"] ret
    by (simp add: clip_node_def clip_weight_versions_def raise_if_def node_policy_versions_def validate_weight_versions_def Let_def min_def)
next
  case (Some spans)
  note v = valid_spans[OF valid Some]
  let ?m = "take retained (mn_mask node)"
  let ?n = "int (sampled_count ?m)"
  let ?spans = "map (\<lambda>sp. sp\<lparr>ws_end := min (ws_end sp) ?n\<rparr>) (filter (\<lambda>sp. ws_start sp < ?n) spans)"
  let ?c = "node\<lparr>mn_weight_versions := Some ?spans, mn_token_ids := take retained (mn_token_ids node), mn_mask := ?m,
      mn_is_content := take retained (mn_is_content node), mn_logprobs := take (sampled_count ?m) (mn_logprobs node)\<rparr>"
  have le: "?n \<le> int (sampled_count (mn_mask node))" using sampled_count_take_le by simp
  have clip: "clip_node node retained = Ok ?c"
    using valid Some le by (simp add: clip_node_def clip_weight_versions_def raise_if_def Let_def)
  have ord: "spans_ordered 0 ?n ?spans" by (rule clip_spans_ordered[OF v(2)]) (use le in auto)
  have vc: "validate_weight_versions ?c = Ok ()"
    using v ord len by (auto simp: validate_weight_versions_def raise_if_def dest: in_set_takeD)
  have "token_version ?spans ?m i = token_version spans (mn_mask node) i" if "i < retained" for i
  proof (cases "mn_mask node ! i")
    case True
    then have "sampled_rank ?m i < sampled_count ?m" using sampled_rank_lt[of i ?m] that ret len by simp
    then have "int (sampled_rank (mn_mask node) i) < ?n" using sampled_rank_take[OF that] by simp
    note eq = clip_span_at[OF this, of spans]
    show ?thesis
      using eq True that sampled_rank_take[OF that, of "mn_mask node"]
      by (auto simp: token_version_def split: option.splits)
  next
    case False
    then show ?thesis using that by (simp add: token_version_def)
  qed
  then have "map (token_version ?spans ?m) [0..<retained] = take retained (map (token_version spans (mn_mask node)) [0..<length (mn_token_ids node)])"
    using ret by (simp add: take_map)
  then show ?thesis
    using clip vc node_versions_map[OF valid Some] node_versions_map[OF vc, of ?spans] ret by (auto simp: min_def)
qed

text \<open>Truncating a validated node to a token prefix keeps the provenance of every remaining token:
  the clipped node is again valid and its per-token policy steps are the same prefix of the
  original ones.\<close>

lemma clip_node_versions:
  assumes valid: "validate_weight_versions node = Ok ()" and len: "length (mn_mask node) = length (mn_token_ids node)"
    and ret: "retained \<le> length (mn_token_ids node)"
  shows "\<exists>clipped versions. clip_node node retained = Ok clipped \<and> validate_weight_versions clipped = Ok () \<and>
    node_policy_versions node = Ok versions \<and> node_policy_versions clipped = Ok (take retained versions)"
  using clip_commutes[OF assms] .

definition demo_node :: MessageNode where
  "demo_node = \<lparr>mn_token_ids = [1, 2, 3, 4], mn_mask = [False, True, True, True], mn_sampled = True, mn_logprobs = [0, 0, 0],
     mn_is_content = [], mn_weight_versions = Some [\<lparr>ws_start = 0, ws_end = 2, ws_version = ''7''\<rparr>, \<lparr>ws_start = 2, ws_end = 3, ws_version = ''8''\<rparr>]\<rparr>"

lemma clip_node_versions_witness:
  "\<exists>clipped versions. clip_node demo_node 3 = Ok clipped \<and> validate_weight_versions clipped = Ok () \<and>
     node_policy_versions demo_node = Ok versions \<and> node_policy_versions clipped = Ok (take 3 versions)"
  by (rule clip_node_versions)
    (simp_all add: demo_node_def validate_weight_versions_def raise_if_def sampled_count_def)

end
