(* ===== verification/Episodes.thy ===== *)
theory Episodes
  imports Provenance
begin

text \<open>
  \<^verbatim>\<open>orchestrator/episodes.py\<close>: which traces may be trained on, and the projection of a long
  single-turn trace onto a token budget. Traces are the environment library's data; the
  records carry the fields this code reads. A namespace that is absent is the empty string,
  and the producer-stamped streams of a node are one flag that says whether any is present.
\<close>

section \<open>Traces\<close>

datatype content_part = TextPart string | OtherPart

datatype content = NoContent | TextContent string | PartsContent "content_part list"

record tool_call =
  tc_id :: string
  tc_name :: string
  tc_arguments :: string
  tc_namespace :: string

datatype message =
    SystemMessage content
  | UserMessage content
  | AssistantMessage content "string option" "tool_call list option"
  | ToolMessage content "string option" string

fun message_content :: "message \<Rightarrow> content" where
  "message_content (SystemMessage c) = c"
| "message_content (UserMessage c) = c"
| "message_content (AssistantMessage c r t) = c"
| "message_content (ToolMessage c n i) = c"

fun message_tool_calls :: "message \<Rightarrow> tool_call list" where
  "message_tool_calls (AssistantMessage c r (Some calls)) = calls"
| "message_tool_calls _ = []"

fun is_assistant :: "message \<Rightarrow> bool" where
  "is_assistant (AssistantMessage c r t) = True"
| "is_assistant _ = False"

fun is_tool_message :: "message \<Rightarrow> bool" where
  "is_tool_message (ToolMessage c n i) = True"
| "is_tool_message _ = False"

record TraceNode = MessageNode +
  tn_parent :: "nat option"
  tn_message :: message
  tn_tools :: "string list"
  tn_semantic_parents :: "nat list"
  tn_stamped :: bool
  tn_renderer_token_ids :: bool
  tn_routed_experts :: bool

record branch =
  br_index :: nat
  br_nodes :: "nat list"
  br_token_ids :: "int list"
  br_sampled_mask :: "bool list"
  br_logprobs :: "real list"
  br_media :: bool
  br_trainable :: bool
  br_routed_experts :: "(nat \<times> int list list) option"

record model_call =
  mc_node :: "nat option"
  mc_error :: bool

record projection_receipt =
  pr_max_seq_len :: int
  pr_clipped :: bool
  pr_source_trace_id :: string
  pr_original_stop_condition :: string
  pr_original_is_completed :: bool
  pr_original_is_truncated :: bool
  pr_physical_tokens :: nat
  pr_physical_sampled_tokens :: nat
  pr_retained_tokens :: int
  pr_retained_sampled_tokens :: nat

record trace =
  tr_id :: string
  tr_nodes :: "TraceNode list"
  tr_branches :: "branch list"
  tr_calls :: "model_call list"
  tr_tools :: "string list"
  tr_stop_condition :: string
  tr_is_completed :: bool
  tr_is_truncated :: bool
  tr_media_map :: bool
  tr_projection :: "projection_receipt option"

section \<open>Admission\<close>

fun text_only :: "content \<Rightarrow> bool" where
  "text_only (PartsContent parts) = (OtherPart \<notin> set parts)"
| "text_only _ = True"

definition validate_node :: "TraceNode \<Rightarrow> unit result" where
  "validate_node node =
     raise_if (\<not> text_only (message_content (tn_message node)))
       (ValueError ''multimodal training requires the native physical-media adapter'')
       (raise_if (\<exists>ns \<in> set (tn_tools node). ns \<noteq> '''')
         (ValueError ''namespaced tools require explicit privileged-context serialization'')
         (raise_if (\<exists>call \<in> set (message_tool_calls (tn_message node)). tc_namespace call \<noteq> '''')
           (ValueError ''namespaced tool calls require explicit privileged-context serialization'')
           (bindE (validate_weight_versions node) (\<lambda>_.
              raise_if (tn_stamped node)
                (ValueError ''producer-stamped sampling/credit streams require explicit training alignment'')
                (Ok ())))))"

definition validate_training_trace :: "trace \<Rightarrow> unit result" where
  "validate_training_trace t =
     raise_if (tr_stop_condition t = ''compaction_failed'' \<or> (\<exists>node \<in> set (tr_nodes t). tn_semantic_parents node \<noteq> []))
       (ValueError ''semantic/compaction graphs do not yet have defined value-credit semantics'')
       (raise_if (\<exists>b \<in> set (tr_branches t). \<not> br_trainable b)
         (ValueError ''untrainable physical branches require explicit credit handling'')
         (raise_if (tr_media_map t) (ValueError ''multimodal training requires the native physical-media adapter'')
           (bindE (traverse validate_node (tr_nodes t)) (\<lambda>_.
              raise_if (\<exists>ns \<in> set (tr_tools t). ns \<noteq> '''')
                (ValueError ''namespaced tools require explicit privileged-context serialization'')
                (Ok ())))))"

section \<open>Projection\<close>

definition single_turn_node :: "nat \<Rightarrow> TraceNode \<Rightarrow> unit result" where
  "single_turn_node index node =
     raise_if (tn_parent node \<noteq> (if index = 0 then None else Some (index - 1)))
       (ValueError ''requires a single linear branch in node order'')
       (raise_if (is_tool_message (tn_message node)) (ValueError ''supports text messages only'')
         (raise_if (\<not> text_only (message_content (tn_message node))) (ValueError ''does not support non-text message content'')
           (raise_if (message_tool_calls (tn_message node) \<noteq> []) (ValueError ''does not support tool calls'')
             (raise_if (mn_sampled node \<and> \<not> is_assistant (tn_message node)) (ValueError ''requires a sampled assistant response'')
               (raise_if (tn_renderer_token_ids node) (ValueError ''requires a completed wire trace without live renderer coordinates'')
                 (raise_if (tn_routed_experts node) (ValueError ''does not support routing sidecars'')
                   (raise_if (length (mn_mask node) \<noteq> length (mn_token_ids node)) (ValueError ''requires token-aligned boolean masks'')
                     (raise_if (length (mn_logprobs node) \<noteq> sampled_count (mn_mask node)) (ValueError ''requires one logprob per sampled token'')
                       (raise_if (mn_is_content node \<noteq> [] \<and> length (mn_is_content node) \<noteq> length (mn_token_ids node))
                         (ValueError ''requires token-aligned content masks when present'')
                         (raise_if (\<not> mn_sampled node \<and> True \<in> set (mn_mask node))
                           (ValueError ''does not support sampled tokens on prompt nodes'')
                           (Ok ())))))))))))"

fun check_nodes :: "nat \<Rightarrow> TraceNode list \<Rightarrow> unit result" where
  "check_nodes index [] = Ok ()"
| "check_nodes index (node # rest) = bindE (single_turn_node index node) (\<lambda>_. check_nodes (Suc index) rest)"

fun clip_nodes :: "TraceNode list \<Rightarrow> nat \<Rightarrow> TraceNode list result" where
  "clip_nodes [] remaining = Ok []"
| "clip_nodes (node # rest) remaining =
     (let retained = min (length (mn_token_ids node)) remaining
      in bindE (clip_node node retained) (\<lambda>node'.
         bindE (clip_nodes rest (remaining - retained)) (\<lambda>rest'. Ok (node' # rest'))))"

definition physical_tokens :: "TraceNode list \<Rightarrow> nat" where
  "physical_tokens nodes = sum_list (map (\<lambda>n. length (mn_token_ids n)) nodes)"

definition physical_sampled :: "TraceNode list \<Rightarrow> nat" where
  "physical_sampled nodes = sum_list (map (\<lambda>n. sampled_count (mn_mask n)) nodes)"

definition call_linked :: "trace \<Rightarrow> bool" where
  "call_linked t \<longleftrightarrow> (case tr_calls t of [call] \<Rightarrow> \<not> mc_error call \<and> mc_node call = Some (length (tr_nodes t) - 1) | _ \<Rightarrow> False)"

definition project_training_trace :: "trace \<Rightarrow> int \<Rightarrow> trace result" where
  "project_training_trace t max_seq_len =
     raise_if (max_seq_len \<le> 0) (ValueError ''requires a resolved positive integer max_seq_len'')
       (raise_if (tr_projection t \<noteq> None) (ValueError ''cannot be applied to an already projected trace'')
         (raise_if (tr_nodes t = [] \<or> length (tr_calls t) \<noteq> 1) (ValueError ''requires one model call and one nonempty linear branch'')
           (raise_if (\<not> call_linked t) (ValueError ''requires one successful call linked to the final node'')
             (bindE (validate_training_trace t) (\<lambda>_.
               raise_if (tr_tools t \<noteq> [] \<or> (\<exists>n \<in> set (tr_nodes t). tn_tools n \<noteq> [])) (ValueError ''does not support tools'')
                 (raise_if (filter (\<lambda>i. mn_sampled (tr_nodes t ! i)) [0..<length (tr_nodes t)] \<noteq> [length (tr_nodes t) - 1])
                   (ValueError ''requires exactly one final sampled assistant node'')
                   (bindE (check_nodes 0 (tr_nodes t)) (\<lambda>_.
                    bindE (clip_nodes (tr_nodes t) (nat max_seq_len)) (\<lambda>nodes.
                      let total_tokens = physical_tokens (tr_nodes t);
                          clipped = int total_tokens > max_seq_len
                      in Ok (t\<lparr>tr_nodes := nodes,
                               tr_stop_condition := if clipped then ''max_total_tokens'' else tr_stop_condition t,
                               tr_projection := Some
                                 \<lparr>pr_max_seq_len = max_seq_len, pr_clipped = clipped, pr_source_trace_id = tr_id t,
                                  pr_original_stop_condition = tr_stop_condition t,
                                  pr_original_is_completed = tr_is_completed t, pr_original_is_truncated = tr_is_truncated t,
                                  pr_physical_tokens = total_tokens, pr_physical_sampled_tokens = physical_sampled (tr_nodes t),
                                  pr_retained_tokens = min (int total_tokens) max_seq_len,
                                  pr_retained_sampled_tokens = physical_sampled nodes\<rparr>\<rparr>))))))))))"

section \<open>The projection is a prefix\<close>

definition flat_tokens :: "TraceNode list \<Rightarrow> int list" where
  "flat_tokens nodes = concat (map mn_token_ids nodes)"

definition flat_mask :: "TraceNode list \<Rightarrow> bool list" where
  "flat_mask nodes = concat (map mn_mask nodes)"

definition flat_logprobs :: "TraceNode list \<Rightarrow> real list" where
  "flat_logprobs nodes = concat (map mn_logprobs nodes)"

definition node_aligned :: "TraceNode \<Rightarrow> bool" where
  "node_aligned node \<longleftrightarrow> length (mn_mask node) = length (mn_token_ids node) \<and>
     length (mn_logprobs node) = sampled_count (mn_mask node) \<and> validate_weight_versions node = Ok ()"

lemma sampled_count_append [simp]: "sampled_count (xs @ ys) = sampled_count xs + sampled_count ys" "sampled_count [] = 0"
  by (simp_all add: sampled_count_def)

lemma clip_node_fields:
  assumes "node_aligned node" "retained \<le> length (mn_token_ids node)"
  obtains node' versions where "clip_node node retained = Ok node'" "mn_token_ids node' = take retained (mn_token_ids node)"
    "mn_mask node' = take retained (mn_mask node)"
    "mn_logprobs node' = take (sampled_count (take retained (mn_mask node))) (mn_logprobs node)"
    "tn_parent node' = tn_parent node" "tn_message node' = tn_message node" "mn_sampled node' = mn_sampled node"
    "node_aligned node'" "node_policy_versions node = Ok versions" "node_policy_versions node' = Ok (take retained versions)"
proof -
  have a: "validate_weight_versions node = Ok ()" "length (mn_mask node) = length (mn_token_ids node)"
    "length (mn_logprobs node) = sampled_count (mn_mask node)" using assms(1) by (auto simp: node_aligned_def)
  obtain node' versions where c: "clip_node node retained = Ok node'" "validate_weight_versions node' = Ok ()"
    "node_policy_versions node = Ok versions" "node_policy_versions node' = Ok (take retained versions)"
    using clip_commutes[OF a(1,2) assms(2)] by blast
  have f: "mn_token_ids node' = take retained (mn_token_ids node)" "mn_mask node' = take retained (mn_mask node)"
    "mn_logprobs node' = take (sampled_count (take retained (mn_mask node))) (mn_logprobs node)"
    "tn_parent node' = tn_parent node" "tn_message node' = tn_message node" "mn_sampled node' = mn_sampled node"
    using c(1) by (auto simp: clip_node_def result_simps Let_def)
  moreover have "node_aligned node'"
    using c(2) f a(2,3) sampled_count_take_le[of retained "mn_mask node"] by (simp add: node_aligned_def)
  ultimately show thesis using that c by blast
qed

text \<open>What a clipped node list keeps, stated once for the whole trace.\<close>

definition prefix_of :: "nat \<Rightarrow> TraceNode list \<Rightarrow> TraceNode list \<Rightarrow> bool" where
  "prefix_of r nodes nodes' \<longleftrightarrow>
     length nodes' = length nodes \<and> list_all node_aligned nodes' \<and>
     flat_tokens nodes' = take r (flat_tokens nodes) \<and> flat_mask nodes' = take r (flat_mask nodes) \<and>
     flat_logprobs nodes' = take (sampled_count (take r (flat_mask nodes))) (flat_logprobs nodes) \<and>
     map tn_message nodes' = map tn_message nodes \<and> map tn_parent nodes' = map tn_parent nodes \<and>
     (\<exists>vs vs'. traverse node_policy_versions nodes = Ok vs \<and> traverse node_policy_versions nodes' = Ok vs' \<and>
        concat vs' = take r (concat vs))"

lemma node_versions_length: "node_policy_versions node = Ok vs \<Longrightarrow> length vs = length (mn_token_ids node)"
  by (auto simp: node_policy_versions_def result_simps Let_def split: option.splits)

lemma clip_nodes_prefix:
  "list_all node_aligned nodes \<Longrightarrow> \<exists>nodes'. clip_nodes nodes r = Ok nodes' \<and> prefix_of r nodes nodes'"
proof (induction nodes arbitrary: r)
  case Nil
  then show ?case by (simp add: prefix_of_def flat_tokens_def flat_mask_def flat_logprobs_def)
next
  case (Cons node nodes)
  let ?k = "min (length (mn_token_ids node)) r"
  have al: "node_aligned node" "list_all node_aligned nodes" using Cons.prems by auto
  obtain node' versions where n: "clip_node node ?k = Ok node'" "mn_token_ids node' = take ?k (mn_token_ids node)"
    "mn_mask node' = take ?k (mn_mask node)"
    "mn_logprobs node' = take (sampled_count (take ?k (mn_mask node))) (mn_logprobs node)"
    "tn_parent node' = tn_parent node" "tn_message node' = tn_message node" "mn_sampled node' = mn_sampled node"
    "node_aligned node'" "node_policy_versions node = Ok versions" "node_policy_versions node' = Ok (take ?k versions)"
    using clip_node_fields[OF al(1) min.cobounded1[of "length (mn_token_ids node)" r]] by blast
  obtain nodes' where ih: "clip_nodes nodes (r - ?k) = Ok nodes'" "prefix_of (r - ?k) nodes nodes'"
    using Cons.IH[OF al(2)] by blast
  obtain vs vs' where v: "traverse node_policy_versions nodes = Ok vs" "traverse node_policy_versions nodes' = Ok vs'"
    "concat vs' = take (r - ?k) (concat vs)" using ih(2) by (auto simp: prefix_of_def)
  have len: "length (mn_mask node) = length (mn_token_ids node)" "length (mn_logprobs node) = sampled_count (mn_mask node)"
    "length versions = length (mn_token_ids node)"
    using al(1) node_versions_length[OF n(9)] by (auto simp: node_aligned_def)
  have split: "take ?k xs @ take (r - ?k) ys = take r (xs @ ys)" if "length xs = length (mn_token_ids node)" for xs ys :: "'x list"
    using that by (auto simp: min_def)
  have lp: "take (sampled_count (take ?k (mn_mask node))) (mn_logprobs node) @
      take (sampled_count (take (r - ?k) (flat_mask nodes))) (flat_logprobs nodes) =
      take (sampled_count (take r (mn_mask node @ flat_mask nodes))) (mn_logprobs node @ flat_logprobs nodes)"
  proof (cases "r \<le> length (mn_token_ids node)")
    case True
    then show ?thesis using len sampled_count_take_le[of r "mn_mask node"] by (simp add: min_def)
  next
    case False
    then show ?thesis using len by (simp add: min_def)
  qed
  have "prefix_of r (node # nodes) (node' # nodes')"
    unfolding prefix_of_def
  proof (intro conjI)
    show "flat_tokens (node' # nodes') = take r (flat_tokens (node # nodes))"
      using ih(2) n(2) split[of "mn_token_ids node"] by (simp add: prefix_of_def flat_tokens_def)
    show "flat_mask (node' # nodes') = take r (flat_mask (node # nodes))"
      using ih(2) n(3) split[of "mn_mask node"] len(1) by (simp add: prefix_of_def flat_mask_def)
    show "flat_logprobs (node' # nodes') = take (sampled_count (take r (flat_mask (node # nodes)))) (flat_logprobs (node # nodes))"
      using ih(2) n(4) lp by (simp add: prefix_of_def flat_logprobs_def flat_mask_def)
    show "\<exists>vs vs'. traverse node_policy_versions (node # nodes) = Ok vs \<and> traverse node_policy_versions (node' # nodes') = Ok vs' \<and>
        concat vs' = take r (concat vs)"
      using n(9,10) v split[of versions "concat vs"] len(3)
      by (intro exI[of _ "versions # vs"] exI[of _ "take ?k versions # vs'"]) simp
  qed (use ih(2) n in \<open>auto simp: prefix_of_def\<close>)
  then show ?case using n(1) ih(1) by (simp add: Let_def)
qed

lemma check_nodes_aligned:
  "check_nodes k nodes = Ok () \<Longrightarrow> node \<in> set nodes \<Longrightarrow>
     length (mn_mask node) = length (mn_token_ids node) \<and> length (mn_logprobs node) = sampled_count (mn_mask node)"
  by (induction nodes arbitrary: k) (auto simp: single_turn_node_def raise_if_def result_simps split: if_splits)

lemma validate_trace_nodes:
  assumes "validate_training_trace t = Ok ()" "node \<in> set (tr_nodes t)"
  shows "validate_weight_versions node = Ok ()"
proof -
  obtain us where "traverse validate_node (tr_nodes t) = Ok us"
    using assms(1) by (auto simp: validate_training_trace_def result_simps)
  then have "validate_node node = Ok ()"
    using assms(2) by (auto simp: traverse_Inr_iff list_all2_conv_all_nth in_set_conv_nth)
  then show ?thesis by (auto simp: validate_node_def result_simps)
qed

lemma length_flat_tokens: "length (flat_tokens nodes) = physical_tokens nodes"
  by (induction nodes) (simp_all add: flat_tokens_def physical_tokens_def)

lemma sampled_flat_mask: "sampled_count (flat_mask nodes) = physical_sampled nodes"
  by (induction nodes) (simp_all add: flat_mask_def physical_sampled_def)

lemma project_ok:
  assumes "project_training_trace t max_seq_len = Ok u"
  obtains nodes where "0 < max_seq_len" "clip_nodes (tr_nodes t) (nat max_seq_len) = Ok nodes" "list_all node_aligned (tr_nodes t)"
    "tr_nodes u = nodes" "tr_calls u = tr_calls t" "tr_branches u = tr_branches t"
    "\<exists>p. tr_projection u = Some p \<and> pr_retained_tokens p = min (int (physical_tokens (tr_nodes t))) max_seq_len \<and>
       pr_retained_sampled_tokens p = physical_sampled nodes \<and> pr_clipped p = (int (physical_tokens (tr_nodes t)) > max_seq_len)"
proof -
  obtain nodes where n: "0 < max_seq_len" "clip_nodes (tr_nodes t) (nat max_seq_len) = Ok nodes"
    "check_nodes 0 (tr_nodes t) = Ok ()" "validate_training_trace t = Ok ()" "tr_nodes u = nodes" "tr_calls u = tr_calls t"
    "tr_branches u = tr_branches t"
    "\<exists>p. tr_projection u = Some p \<and> pr_retained_tokens p = min (int (physical_tokens (tr_nodes t))) max_seq_len \<and>
       pr_retained_sampled_tokens p = physical_sampled nodes \<and> pr_clipped p = (int (physical_tokens (tr_nodes t)) > max_seq_len)"
    using assms by (auto simp: project_training_trace_def result_simps Let_def)
  moreover have "list_all node_aligned (tr_nodes t)"
    using check_nodes_aligned[OF n(3)] validate_trace_nodes[OF n(4)] by (auto simp: list_all_iff node_aligned_def)
  ultimately show thesis using that by blast
qed

text \<open>An accepted single-turn projection is a prefix of the physical trace: tokens, masks, policy
  versions and the logprobs of the sampled tokens are the first \<open>max_seq_len\<close> positions of the
  original streams, every node and its message stay in place, and the receipt counts exactly what
  was retained.\<close>

lemma project_training_trace_prefix:
  assumes "project_training_trace t max_seq_len = Ok u"
  shows "prefix_of (nat max_seq_len) (tr_nodes t) (tr_nodes u) \<and>
    (\<exists>p. tr_projection u = Some p \<and> pr_retained_tokens p = int (length (flat_tokens (tr_nodes u))) \<and>
       pr_retained_sampled_tokens p = sampled_count (flat_mask (tr_nodes u)) \<and>
       (pr_clipped p \<longleftrightarrow> flat_tokens (tr_nodes u) \<noteq> flat_tokens (tr_nodes t)))"
proof -
  obtain nodes where n: "0 < max_seq_len" "clip_nodes (tr_nodes t) (nat max_seq_len) = Ok nodes" "list_all node_aligned (tr_nodes t)"
    "tr_nodes u = nodes" and
    "\<exists>p. tr_projection u = Some p \<and> pr_retained_tokens p = min (int (physical_tokens (tr_nodes t))) max_seq_len \<and>
       pr_retained_sampled_tokens p = physical_sampled nodes \<and> pr_clipped p = (int (physical_tokens (tr_nodes t)) > max_seq_len)"
    by (rule project_ok[OF assms])
  then obtain p where p: "tr_projection u = Some p" "pr_retained_tokens p = min (int (physical_tokens (tr_nodes t))) max_seq_len"
    "pr_retained_sampled_tokens p = physical_sampled nodes" "pr_clipped p = (int (physical_tokens (tr_nodes t)) > max_seq_len)"
    by blast
  have pre: "prefix_of (nat max_seq_len) (tr_nodes t) (tr_nodes u)"
    using clip_nodes_prefix[OF n(3), of "nat max_seq_len"] n(2,4) by auto
  then have tok: "flat_tokens (tr_nodes u) = take (nat max_seq_len) (flat_tokens (tr_nodes t))" by (simp add: prefix_of_def)
  have ret: "pr_retained_tokens p = int (length (flat_tokens (tr_nodes u)))"
    using p(2) n(1) by (simp add: tok length_flat_tokens)
  have "int (physical_tokens (tr_nodes t)) > max_seq_len \<longleftrightarrow> flat_tokens (tr_nodes u) \<noteq> flat_tokens (tr_nodes t)"
  proof
    assume "max_seq_len < int (physical_tokens (tr_nodes t))"
    then have "length (flat_tokens (tr_nodes u)) < length (flat_tokens (tr_nodes t))"
      using n(1) by (simp add: tok length_flat_tokens)
    then show "flat_tokens (tr_nodes u) \<noteq> flat_tokens (tr_nodes t)" by auto
  next
    assume ne: "flat_tokens (tr_nodes u) \<noteq> flat_tokens (tr_nodes t)"
    show "max_seq_len < int (physical_tokens (tr_nodes t))"
    proof (rule ccontr)
      assume "\<not> max_seq_len < int (physical_tokens (tr_nodes t))"
      then have "length (flat_tokens (tr_nodes t)) \<le> nat max_seq_len" by (simp add: length_flat_tokens)
      then show False using ne by (simp add: tok)
    qed
  qed
  then show ?thesis using pre p n(4) ret sampled_flat_mask[of nodes] by auto
qed

definition demo_prompt :: TraceNode where
  "demo_prompt = \<lparr>mn_token_ids = [1, 2], mn_mask = [False, False], mn_sampled = False, mn_logprobs = [], mn_is_content = [],
     mn_weight_versions = None, tn_parent = None, tn_message = UserMessage (TextContent ''q''), tn_tools = [],
     tn_semantic_parents = [], tn_stamped = False, tn_renderer_token_ids = False, tn_routed_experts = False\<rparr>"

definition demo_answer :: TraceNode where
  "demo_answer = \<lparr>mn_token_ids = [3, 4, 5], mn_mask = [True, True, True], mn_sampled = True, mn_logprobs = [1, 2, 3], mn_is_content = [],
     mn_weight_versions = Some [\<lparr>ws_start = 0, ws_end = 3, ws_version = ''7''\<rparr>], tn_parent = Some 0,
     tn_message = AssistantMessage (TextContent ''a'') None None, tn_tools = [],
     tn_semantic_parents = [], tn_stamped = False, tn_renderer_token_ids = False, tn_routed_experts = False\<rparr>"

definition demo_trace :: trace where
  "demo_trace = \<lparr>tr_id = ''t'', tr_nodes = [demo_prompt, demo_answer], tr_branches = [], tr_calls = [\<lparr>mc_node = Some 1, mc_error = False\<rparr>],
     tr_tools = [], tr_stop_condition = ''stop'', tr_is_completed = True, tr_is_truncated = False, tr_media_map = False,
     tr_projection = None\<rparr>"

lemmas demo_trace_simps = demo_trace_def demo_prompt_def demo_answer_def project_training_trace_def raise_if_def call_linked_def
  validate_training_trace_def validate_node_def validate_weight_versions_def sampled_count_def single_turn_node_def
  clip_node_def clip_weight_versions_def Let_def

lemma project_training_trace_prefix_witness:
  "\<exists>u. project_training_trace demo_trace 4 = Ok u \<and> prefix_of 4 (tr_nodes demo_trace) (tr_nodes u)"
proof -
  have "\<exists>u. project_training_trace demo_trace 4 = Ok u" by (simp add: demo_trace_simps)
  then obtain u where u: "project_training_trace demo_trace 4 = Ok u" by blast
  show ?thesis using project_training_trace_prefix[OF u] u by simp
qed

end
