(* ===== verification/Trajectories.thy ===== *)
theory Trajectories
  imports Episodes
begin

text \<open>
  \<^verbatim>\<open>orchestrator/trajectories.py\<close>: which tokens of a forked trace are trainable, and the
  layout that maps trace nodes to the materialised branch samples. Traces and branches come
  from the environment library; a branch is given by the indices of its nodes in the trace
  (the code looks them up by identity) and the flat streams the library derives from them.
\<close>

section \<open>Data\<close>

record TrainableSpan =
  ts_node_index :: nat
  ts_sample_index :: nat
  ts_node_start :: nat
  ts_sample_start :: nat
  ts_length :: nat

record TrainingLayout =
  tl_sample_branch_indices :: "nat list"
  tl_sample_node_indices :: "nat list list"
  tl_trainable_spans :: "TrainableSpan list"

record TrainableBranch =
  tb_branch :: branch
  tb_node_indices :: "nat list"
  tb_mask :: "bool list"

record TrainingSample =
  smp_token_ids :: "int list"
  smp_mask :: "bool list"
  smp_logprobs :: "real list"
  smp_env_name :: string
  smp_policy_versions :: "EncodedTensor option"
  smp_routed_experts :: "int list list option"

record TrainingMaterialization =
  tm_samples :: "TrainingSample list"
  tm_layout :: "TrainingLayout option"
  tm_sampled_masks :: "bool list list"

section \<open>Trainable branches\<close>

definition has_trainable :: "TraceNode \<Rightarrow> bool" where
  "has_trainable node \<longleftrightarrow> mn_sampled node \<and> True \<in> set (mn_mask node)"

text \<open>The inner loop over \<open>branch.nodes\<close>: the mask of one branch and the nodes trained so far.\<close>

fun branch_mask :: "TraceNode list \<Rightarrow> nat list \<Rightarrow> nat set \<Rightarrow> (bool list \<times> nat set) result" where
  "branch_mask nodes [] trained = Ok ([], trained)"
| "branch_mask nodes (i # is) trained =
     (if i \<ge> length nodes then Raise KeyError
      else
        (let node = nodes ! i;
             skip = has_trainable node \<and> i \<in> trained;
             part = (if skip then replicate (length (mn_mask node)) False else mn_mask node);
             trained' = (if \<not> skip \<and> has_trainable node then insert i trained else trained)
         in bindE (branch_mask nodes is trained') (\<lambda>(rest, t). Ok (part @ rest, t))))"

fun fork_branches :: "TraceNode list \<Rightarrow> branch list \<Rightarrow> nat set \<Rightarrow> TrainableBranch list result" where
  "fork_branches nodes [] trained = Ok []"
| "fork_branches nodes (b # bs) trained =
     bindE (branch_mask nodes (br_nodes b) trained) (\<lambda>(msk, trained').
     bindE (fork_branches nodes bs trained') (\<lambda>rest.
       Ok ((if True \<in> set msk then [\<lparr>tb_branch = b, tb_node_indices = br_nodes b, tb_mask = msk\<rparr>] else []) @ rest)))"

definition iter_trainable_branches :: "trace \<Rightarrow> TrainableBranch list result" where
  "iter_trainable_branches t =
     (case tr_branches t of
        [] \<Rightarrow> Ok []
      | [b] \<Rightarrow> Ok (if True \<in> set (br_sampled_mask b)
                  then [\<lparr>tb_branch = b, tb_node_indices = [], tb_mask = br_sampled_mask b\<rparr>] else [])
      | bs \<Rightarrow> fork_branches (tr_nodes t) bs {})"

section \<open>Runs and layout\<close>

text \<open>\<open>_true_runs\<close> with its loop state \<open>(start, index)\<close>.\<close>

fun true_runs_from :: "nat option \<Rightarrow> nat \<Rightarrow> bool list \<Rightarrow> (nat \<times> nat) list" where
  "true_runs_from None i [] = []"
| "true_runs_from (Some s) i [] = [(s, i)]"
| "true_runs_from None i (b # bs) = true_runs_from (if b then Some i else None) (Suc i) bs"
| "true_runs_from (Some s) i (b # bs) =
     (if b then true_runs_from (Some s) (Suc i) bs else (s, i) # true_runs_from None (Suc i) bs)"

definition true_runs :: "bool list \<Rightarrow> (nat \<times> nat) list" where
  "true_runs msk = true_runs_from None 0 msk"

definition span_of :: "nat \<Rightarrow> nat \<Rightarrow> nat \<Rightarrow> nat \<times> nat \<Rightarrow> TrainableSpan" where
  "span_of node_index sample_index sample_offset run =
     (case run of (start, stop) \<Rightarrow>
        \<lparr>ts_node_index = node_index, ts_sample_index = sample_index, ts_node_start = start,
         ts_sample_start = sample_offset + start, ts_length = stop - start\<rparr>)"

text \<open>The spans of one sample, node by node.\<close>

fun sample_spans :: "TraceNode list \<Rightarrow> bool list \<Rightarrow> nat \<Rightarrow> nat \<Rightarrow> nat list \<Rightarrow> TrainableSpan list" where
  "sample_spans nodes msk sample_index offset [] = []"
| "sample_spans nodes msk sample_index offset (i # is) =
     (let n = length (mn_token_ids (nodes ! i));
          node_mask = take n (drop offset msk)
      in map (span_of i sample_index offset) (true_runs node_mask)
         @ sample_spans nodes msk sample_index (offset + n) is)"

fun enumerate_spans :: "TraceNode list \<Rightarrow> nat \<Rightarrow> TrainableBranch list \<Rightarrow> TrainableSpan list" where
  "enumerate_spans nodes k [] = []"
| "enumerate_spans nodes k (b # bs) =
     sample_spans nodes (tb_mask b) k 0 (tb_node_indices b) @ enumerate_spans nodes (Suc k) bs"

text \<open>\<open>spans_by_node\<close>, read back in node order; within a node the spans keep the order of appending.\<close>

definition group_by_node :: "nat \<Rightarrow> TrainableSpan list \<Rightarrow> TrainableSpan list" where
  "group_by_node num_nodes spans =
     concat (map (\<lambda>i. filter (\<lambda>sp. ts_node_index sp = i) spans) [0..<num_nodes])"

text \<open>
  \<open>_encode_routed_experts\<close>: the router array has one row per token; it is cut or padded with
  zero rows to the token count. The bytes and shape of the wire struct are those of the rows.
\<close>

definition encode_routed_experts :: "(nat \<times> int list list) option \<Rightarrow> nat \<Rightarrow> int list list option" where
  "encode_routed_experts arr num_tokens =
     map_option (\<lambda>(width, rows).
       if length rows > num_tokens then take num_tokens rows
       else if length rows < num_tokens then rows @ replicate (num_tokens - length rows) (replicate width 0)
       else rows) arr"

definition make_sample :: "TraceNode list \<Rightarrow> bool \<Rightarrow> string \<Rightarrow> bool \<Rightarrow> TrainableBranch \<Rightarrow> TrainingSample result" where
  "make_sample nodes media_map env_name capture_policy_versions item =
     (let b = tb_branch item
      in raise_if (media_map \<or> br_media b)
           (ValueError ''Multimodal training requires the native physical-media adapter'')
           (bindE (if capture_policy_versions \<and> (\<exists>i \<in> set (br_nodes b). mn_weight_versions (nodes ! i) \<notin> {None, Some []})
                   then bindE (traverse (\<lambda>i. node_policy_versions (nodes ! i)) (br_nodes b)) (\<lambda>vs. encode_policy_versions (concat vs))
                   else Ok None) (\<lambda>versions.
              Ok \<lparr>smp_token_ids = br_token_ids b, smp_mask = tb_mask item, smp_logprobs = br_logprobs b,
                  smp_env_name = env_name, smp_policy_versions = versions,
                  smp_routed_experts = encode_routed_experts (br_routed_experts b) (length (br_token_ids b))\<rparr>)))"

definition materialize_training_data ::
  "trace \<Rightarrow> string \<Rightarrow> bool \<Rightarrow> bool \<Rightarrow> TrainingMaterialization result" where
  "materialize_training_data t env_name capture_sampled_masks capture_policy_versions =
     bindE (validate_training_trace t) (\<lambda>_.
     bindE (iter_trainable_branches t) (\<lambda>items.
     bindE (traverse (make_sample (tr_nodes t) (tr_media_map t) env_name capture_policy_versions) items) (\<lambda>samples.
       Ok \<lparr>tm_samples = samples,
           tm_layout = (if length (tr_branches t) > 1
             then Some \<lparr>tl_sample_branch_indices = map (\<lambda>item. br_index (tb_branch item)) items,
                        tl_sample_node_indices = map tb_node_indices items,
                        tl_trainable_spans = group_by_node (length (tr_nodes t)) (enumerate_spans (tr_nodes t) 0 items)\<rparr>
             else None),
           tm_sampled_masks = (if capture_sampled_masks then map (\<lambda>item. br_sampled_mask (tb_branch item)) items else [])\<rparr>)))"

section \<open>Runs cover exactly the true positions\<close>

definition run_cells :: "(nat \<times> nat) list \<Rightarrow> nat list" where
  "run_cells runs = concat (map (\<lambda>(s, e). [s..<e]) runs)"

definition mask_cells :: "nat \<Rightarrow> bool list \<Rightarrow> nat list" where
  "mask_cells offset msk = map ((+) offset) (filter (\<lambda>i. msk ! i) [0..<length msk])"

lemma mask_cells_Nil [simp]: "mask_cells k [] = []"
  by (simp add: mask_cells_def)

lemma mask_cells_Cons: "mask_cells k (b # bs) = (if b then [k] else []) @ mask_cells (Suc k) bs"
proof -
  have "filter (\<lambda>i. (b # bs) ! i) [0..<length (b # bs)] = (if b then [0] else []) @ map Suc (filter (\<lambda>i. bs ! i) [0..<length bs])"
    by (simp add: upt_conv_Cons map_Suc_upt[symmetric] filter_map comp_def del: upt_Suc)
  then show ?thesis by (simp add: mask_cells_def comp_def)
qed

lemma true_runs_cells:
  "run_cells (true_runs_from None i msk) = mask_cells i msk"
  "s \<le> i \<Longrightarrow> run_cells (true_runs_from (Some s) i msk) = [s..<i] @ mask_cells i msk"
proof (induction msk arbitrary: i s)
  case (Cons b bs)
  { case 1 show ?case using Cons(1)[of "Suc i"] Cons(2)[of i "Suc i"] by (cases b) (simp_all add: mask_cells_Cons) }
  { case 2 then show ?case using Cons(1)[of "Suc i"] Cons(2)[of s "Suc i"]
      by (cases b) (simp_all add: mask_cells_Cons run_cells_def) }
qed (simp_all add: run_cells_def)

lemma true_runs_nonempty:
  "(a, b) \<in> set (true_runs_from None i msk) \<Longrightarrow> a < b"
  "s < i \<Longrightarrow> (a, b) \<in> set (true_runs_from (Some s) i msk) \<Longrightarrow> a < b"
proof (induction msk arbitrary: i s)
  case (Cons x xs)
  { case 1 then show ?case using Cons(1)[of "Suc i"] Cons(2)[of i "Suc i"] by (cases x) auto }
  { case 2 then show ?case using Cons(1)[of "Suc i"] Cons(2)[of s "Suc i"] by (cases x) auto }
qed simp_all

section \<open>Every sampled token is trained once\<close>

text \<open>What the trace library guarantees of nodes: masks are token-aligned and only sampled nodes carry sampled tokens.\<close>

definition nodes_ok :: "TraceNode list \<Rightarrow> bool" where
  "nodes_ok nodes \<longleftrightarrow> list_all (\<lambda>n. length (mn_mask n) = length (mn_token_ids n) \<and> (\<not> mn_sampled n \<longrightarrow> True \<notin> set (mn_mask n))) nodes"

definition node_cells :: "TrainableSpan \<Rightarrow> (nat \<times> nat) list" where
  "node_cells sp = map (\<lambda>k. (ts_node_index sp, ts_node_start sp + k)) [0..<ts_length sp]"

definition sample_cells :: "TrainableSpan \<Rightarrow> (nat \<times> nat) list" where
  "sample_cells sp = map (\<lambda>k. (ts_sample_index sp, ts_sample_start sp + k)) [0..<ts_length sp]"

lemma mask_cells_append: "mask_cells k (xs @ ys) = mask_cells k xs @ mask_cells (k + length xs) ys"
  by (induction xs arbitrary: k) (simp_all add: mask_cells_Cons)

lemma mask_cells_shift: "mask_cells k msk = map ((+) k) (mask_cells 0 msk)"
  by (simp add: mask_cells_def)

lemma set_mask_cells: "set (mask_cells k msk) = {k + p | p. p < length msk \<and> msk ! p}"
  by (auto simp: mask_cells_def)

lemma distinct_mask_cells: "distinct (mask_cells k msk)"
  by (simp add: mask_cells_def distinct_map)

lemma mask_cells_False: "True \<notin> set msk \<Longrightarrow> mask_cells k msk = []"
  by (induction msk arbitrary: k) (auto simp: mask_cells_Cons)

lemma run_cells_map:
  "concat (map (\<lambda>(s, e). map (\<lambda>k. f (s + k)) [0..<e - s]) runs) = map f (run_cells runs)" if "\<And>s e. (s, e) \<in> set runs \<Longrightarrow> s < e"
  using that
proof (induction runs)
  case (Cons r runs)
  obtain s e where r: "r = (s, e)" by (cases r)
  then have "s < e" using Cons.prems by simp
  then have "map (\<lambda>k. f (s + k)) [0..<e - s] = map f [s..<e]"
    by (intro nth_equalityI) auto
  then show ?case using Cons r by (simp add: run_cells_def)
qed (simp add: run_cells_def)

lemma runs_node_cells:
  "concat (map node_cells (map (span_of i k off) (true_runs msk))) = map (Pair i) (mask_cells 0 msk)"
proof -
  have "node_cells (span_of i k off run) = (case run of (s, e) \<Rightarrow> map (\<lambda>j. (i, s + j)) [0..<e - s])" for run
    by (simp add: node_cells_def span_of_def split: prod.splits)
  then have "concat (map node_cells (map (span_of i k off) (true_runs msk))) = map (Pair i) (run_cells (true_runs msk))"
    using run_cells_map[of "true_runs msk" "Pair i"] true_runs_nonempty(1)[of _ _ 0 msk]
    by (simp add: comp_def true_runs_def)
  then show ?thesis using true_runs_cells(1)[of 0 msk] by (simp add: true_runs_def)
qed

lemma runs_sample_cells:
  "concat (map sample_cells (map (span_of i k off) (true_runs msk))) = map (Pair k) (mask_cells off msk)"
proof -
  have "sample_cells (span_of i k off run) = (case run of (s, e) \<Rightarrow> map (\<lambda>j. (k, off + (s + j))) [0..<e - s])" for run
    by (simp add: sample_cells_def span_of_def add.assoc split: prod.splits)
  then have "concat (map sample_cells (map (span_of i k off) (true_runs msk))) = map (\<lambda>p. (k, off + p)) (run_cells (true_runs msk))"
    using run_cells_map[of "true_runs msk" "\<lambda>p. (k, off + p)"] true_runs_nonempty(1)[of _ _ 0 msk]
    by (simp add: comp_def true_runs_def)
  then show ?thesis using true_runs_cells(1)[of 0 msk] by (simp add: true_runs_def mask_cells_shift[of off] comp_def)
qed

text \<open>The tokens of a set of nodes that the model sampled.\<close>

definition node_tokens :: "TraceNode list \<Rightarrow> nat set \<Rightarrow> (nat \<times> nat) set" where
  "node_tokens nodes S = {(i, p). i \<in> S \<and> i < length nodes \<and> p < length (mn_mask (nodes ! i)) \<and> mn_mask (nodes ! i) ! p}"

lemma node_tokens_Un: "node_tokens nodes (A \<union> B) = node_tokens nodes A \<union> node_tokens nodes B"
  by (auto simp: node_tokens_def)

lemma node_tokens_cells:
  "i < length nodes \<Longrightarrow> set (map (Pair i) (mask_cells 0 (mn_mask (nodes ! i)))) = node_tokens nodes {i}"
  by (auto simp: node_tokens_def set_mask_cells)

lemma branch_mask_spans:
  assumes "branch_mask nodes is trained = Ok (msk, trained')" "nodes_ok nodes"
  shows "trained' = trained \<union> {i \<in> set is. has_trainable (nodes ! i)} \<and> set is \<subseteq> {..<length nodes} \<and>
    length msk = sum_list (map (\<lambda>i. length (mn_token_ids (nodes ! i))) is) \<and>
    (let spans = sample_spans nodes (pre @ msk) k (length pre) is
     in concat (map sample_cells spans) = map (Pair k) (mask_cells (length pre) msk) \<and>
        distinct (concat (map node_cells spans)) \<and>
        set (concat (map node_cells spans)) = node_tokens nodes (trained' - trained))"
  using assms
proof (induction nodes "is" trained arbitrary: msk pre rule: branch_mask.induct)
  case (1 nodes trained)
  then show ?case by (simp add: node_tokens_def)
next
  case (2 nodes i "is" trained)
  let ?node = "nodes ! i"
  let ?skip = "has_trainable ?node \<and> i \<in> trained"
  let ?part = "if ?skip then replicate (length (mn_mask ?node)) False else mn_mask ?node"
  let ?t1 = "if \<not> ?skip \<and> has_trainable ?node then insert i trained else trained"
  have i: "i < length nodes" using 2(2) by (auto split: if_splits)
  obtain rest where r: "branch_mask nodes is ?t1 = Ok (rest, trained')" and msk: "msk = ?part @ rest"
    using 2(2) i by (auto simp: Let_def result_simps)
  have len: "length ?part = length (mn_token_ids ?node)" and un: "\<not> mn_sampled ?node \<Longrightarrow> True \<notin> set (mn_mask ?node)"
    using 2(3) i by (auto simp: nodes_ok_def list_all_length)
  have ih: "trained' = ?t1 \<union> {i \<in> set is. has_trainable (nodes ! i)}" "set is \<subseteq> {..<length nodes}"
    "length rest = sum_list (map (\<lambda>i. length (mn_token_ids (nodes ! i))) is)"
    "concat (map sample_cells (sample_spans nodes ((pre @ ?part) @ rest) k (length (pre @ ?part)) is)) =
       map (Pair k) (mask_cells (length (pre @ ?part)) rest)"
    "distinct (concat (map node_cells (sample_spans nodes ((pre @ ?part) @ rest) k (length (pre @ ?part)) is)))"
    "set (concat (map node_cells (sample_spans nodes ((pre @ ?part) @ rest) k (length (pre @ ?part)) is))) =
       node_tokens nodes (trained' - ?t1)"
    using 2(1)[OF _ refl refl refl refl r 2(3), of "pre @ ?part"] i unfolding Let_def by (simp_all only: not_le simp_thms)
  have spans: "sample_spans nodes (pre @ msk) k (length pre) (i # is) =
      map (span_of i k (length pre)) (true_runs ?part) @ sample_spans nodes ((pre @ ?part) @ rest) k (length (pre @ ?part)) is"
    using len by (simp add: msk Let_def)
  have new: "set (map (Pair i) (mask_cells 0 ?part)) = node_tokens nodes (?t1 - trained)"
  proof (cases "?skip \<or> \<not> has_trainable ?node")
    case True
    then have "True \<notin> set ?part" using un by (auto simp: has_trainable_def)
    then show ?thesis using True by (auto simp: mask_cells_False node_tokens_def)
  next
    case False
    then show ?thesis using node_tokens_cells[OF i] by (simp add: insert_Diff_if)
  qed
  have sub: "trained \<subseteq> ?t1" "?t1 \<subseteq> trained'" using ih(1) by auto
  have disj: "node_tokens nodes (?t1 - trained) \<inter> node_tokens nodes (trained' - ?t1) = {}"
    by (auto simp: node_tokens_def)
  have un': "node_tokens nodes (?t1 - trained) \<union> node_tokens nodes (trained' - ?t1) = node_tokens nodes (trained' - trained)"
    using sub by (auto simp: node_tokens_def)
  have dn: "distinct (map (Pair i) (mask_cells 0 ?part))" by (simp add: distinct_map distinct_mask_cells inj_on_def)
  show ?case
    unfolding Let_def
  proof (intro conjI)
    show "trained' = trained \<union> {j \<in> set (i # is). has_trainable (nodes ! j)}" using ih(1) by auto
    show "set (i # is) \<subseteq> {..<length nodes}" using ih(2) i by auto
    show "length msk = sum_list (map (\<lambda>i. length (mn_token_ids (nodes ! i))) (i # is))" using ih(3) len by (simp add: msk)
    show "concat (map sample_cells (sample_spans nodes (pre @ msk) k (length pre) (i # is))) = map (Pair k) (mask_cells (length pre) msk)"
      unfolding spans using ih(4) runs_sample_cells[of i k "length pre" ?part]
      by (simp only: map_append concat_append) (simp only: msk mask_cells_append map_append length_append)
    show "distinct (concat (map node_cells (sample_spans nodes (pre @ msk) k (length pre) (i # is))))"
      unfolding spans map_append concat_append runs_node_cells distinct_append
      using ih(5,6) dn new disj by blast
    show "set (concat (map node_cells (sample_spans nodes (pre @ msk) k (length pre) (i # is)))) = node_tokens nodes (trained' - trained)"
      unfolding spans map_append concat_append runs_node_cells set_append using ih(6) new un' by blast
  qed
qed

definition sample_tokens_of :: "nat \<Rightarrow> TrainableBranch list \<Rightarrow> (nat \<times> nat) set" where
  "sample_tokens_of k items = {(k + j, p) | j p. j < length items \<and> p < length (tb_mask (items ! j)) \<and> tb_mask (items ! j) ! p}"

lemma sample_tokens_of_Cons:
  "sample_tokens_of k (b # bs) = set (map (Pair k) (mask_cells 0 (tb_mask b))) \<union> sample_tokens_of (Suc k) bs"
proof (intro set_eqI iffI)
  fix c assume "c \<in> sample_tokens_of k (b # bs)"
  then obtain j p where c: "c = (k + j, p)" "j < Suc (length bs)" "p < length (tb_mask ((b # bs) ! j))" "tb_mask ((b # bs) ! j) ! p"
    by (auto simp: sample_tokens_of_def)
  then show "c \<in> set (map (Pair k) (mask_cells 0 (tb_mask b))) \<union> sample_tokens_of (Suc k) bs"
    by (cases j) (auto simp: set_mask_cells sample_tokens_of_def)
next
  fix c assume "c \<in> set (map (Pair k) (mask_cells 0 (tb_mask b))) \<union> sample_tokens_of (Suc k) bs"
  then consider p where "c = (k, p)" "p < length (tb_mask b)" "tb_mask b ! p" |
    j p where "c = (Suc k + j, p)" "j < length bs" "p < length (tb_mask (bs ! j))" "tb_mask (bs ! j) ! p"
    by (auto simp: set_mask_cells sample_tokens_of_def)
  then show "c \<in> sample_tokens_of k (b # bs)"
  proof cases
    case 1
    then show ?thesis unfolding sample_tokens_of_def by (intro CollectI exI[of _ 0] exI[of _ p]) simp
  next
    case 2
    then show ?thesis unfolding sample_tokens_of_def by (intro CollectI exI[of _ "Suc j"] exI[of _ p]) simp
  qed
qed

lemma span_indices:
  "sp \<in> set (sample_spans nodes msk k off is) \<Longrightarrow> ts_node_index sp \<in> set is \<and> ts_sample_index sp = k"
  by (induction nodes msk k off "is" rule: sample_spans.induct) (auto simp: Let_def span_of_def split: prod.splits)

lemma fork_spans:
  assumes "fork_branches nodes bs trained = Ok items" "nodes_ok nodes"
  shows "distinct (concat (map node_cells (enumerate_spans nodes k items))) \<and>
    set (concat (map node_cells (enumerate_spans nodes k items))) =
      node_tokens nodes ({i \<in> \<Union> (set (map (set \<circ> br_nodes) bs)). has_trainable (nodes ! i)} - trained) \<and>
    distinct (concat (map sample_cells (enumerate_spans nodes k items))) \<and>
    set (concat (map sample_cells (enumerate_spans nodes k items))) = sample_tokens_of k items \<and>
    (\<forall>sp \<in> set (enumerate_spans nodes k items). ts_node_index sp < length nodes \<and> k \<le> ts_sample_index sp)"
  using assms
proof (induction nodes bs trained arbitrary: items k rule: fork_branches.induct)
  case (1 nodes trained)
  then show ?case by (simp add: node_tokens_def sample_tokens_of_def)
next
  case (2 nodes b bs trained)
  obtain msk t1 rest where m: "branch_mask nodes (br_nodes b) trained = Ok (msk, t1)" "fork_branches nodes bs t1 = Ok rest"
    and items: "items = (if True \<in> set msk then [\<lparr>tb_branch = b, tb_node_indices = br_nodes b, tb_mask = msk\<rparr>] else []) @ rest"
    using 2(2) by (auto simp: result_simps split: prod.splits)
  let ?U = "\<Union> (set (map (set \<circ> br_nodes) bs))"
  let ?H = "{i. has_trainable (nodes ! i)}"
  have bm: "t1 = trained \<union> {i \<in> set (br_nodes b). has_trainable (nodes ! i)}" "set (br_nodes b) \<subseteq> {..<length nodes}"
    "concat (map sample_cells (sample_spans nodes msk k 0 (br_nodes b))) = map (Pair k) (mask_cells 0 msk)"
    "distinct (concat (map node_cells (sample_spans nodes msk k 0 (br_nodes b))))"
    "set (concat (map node_cells (sample_spans nodes msk k 0 (br_nodes b)))) = node_tokens nodes (t1 - trained)" for k
    using branch_mask_spans[OF m(1) 2(3), of "[]" k] by (simp_all add: Let_def)
  have set_eq: "node_tokens nodes ((\<Union> (set (map (set \<circ> br_nodes) (b # bs))) \<inter> ?H) - trained) =
      node_tokens nodes (t1 - trained) \<union> node_tokens nodes ((?U \<inter> ?H) - t1)"
    by (auto simp: node_tokens_def bm(1))
  have inter: "{i \<in> A. has_trainable (nodes ! i)} = A \<inter> ?H" for A by auto
  note ih = 2(1)[OF m(2) 2(3), unfolded inter]
  show ?case
  proof (cases "True \<in> set msk")
    case False
    then have "concat (map node_cells (sample_spans nodes msk k 0 (br_nodes b))) = []"
    proof -
      have "node_cells sp \<noteq> [] \<longleftrightarrow> sample_cells sp \<noteq> []" for sp by (simp add: node_cells_def sample_cells_def)
      moreover have "concat (map sample_cells (sample_spans nodes msk k 0 (br_nodes b))) = []"
        using bm(3) mask_cells_False[OF False] by simp
      ultimately show ?thesis by simp
    qed
    then have "node_tokens nodes (t1 - trained) = {}" using bm(5)[of k] by simp
    then show ?thesis using ih[of k] items False set_eq unfolding inter by simp
  next
    case True
    have e: "enumerate_spans nodes k items = sample_spans nodes msk k 0 (br_nodes b) @ enumerate_spans nodes (Suc k) rest"
      using items True by simp
    have st: "sample_tokens_of k items = set (map (Pair k) (mask_cells 0 msk)) \<union> sample_tokens_of (Suc k) rest"
      using items True by (simp add: sample_tokens_of_Cons)
    have d1: "node_tokens nodes (t1 - trained) \<inter> node_tokens nodes ((?U \<inter> ?H) - t1) = {}"
      by (auto simp: node_tokens_def)
    have d2: "set (map (Pair k) (mask_cells 0 msk)) \<inter> sample_tokens_of (Suc k) rest = {}"
      by (auto simp: sample_tokens_of_def)
    have dk: "distinct (map (Pair k) (mask_cells 0 msk))" by (simp add: distinct_map distinct_mask_cells inj_on_def)
    show ?thesis
      unfolding e map_append concat_append distinct_append set_append inter
    proof (intro conjI)
      show "\<forall>sp \<in> set (sample_spans nodes msk k 0 (br_nodes b)) \<union> set (enumerate_spans nodes (Suc k) rest).
          ts_node_index sp < length nodes \<and> k \<le> ts_sample_index sp"
        using ih[of "Suc k"] bm(2) span_indices[of _ nodes msk k 0 "br_nodes b"] by fastforce
    qed (use ih[of "Suc k"] bm(3,4,5)[of k] set_eq d1 d2 dk st in simp_all)
  qed
qed

text \<open>Regrouping by node is a permutation of the spans.\<close>

lemma mset_filter_partition:
  "(\<And>x. x \<in> set xs \<Longrightarrow> f x < n) \<Longrightarrow> mset (concat (map (\<lambda>i. filter (\<lambda>x. f x = i) xs) [0..<n])) = mset xs"
proof (induction xs)
  case (Cons x xs)
  have "mset (concat (map (\<lambda>i. filter (\<lambda>y. f y = i) (x # xs)) is)) =
      mset (concat (map (\<lambda>i. filter (\<lambda>y. f y = i) xs) is)) + (if f x \<in> set is then {#x#} else {#})" if "distinct is" for "is"
    using that by (induction "is") auto
  from this[of "[0..<n]"] show ?case using Cons by simp
next
  case Nil
  have "concat (map (\<lambda>i. []) ([0..<n] :: nat list)) = []" by (induction n) auto
  then show ?case by simp
qed

lemma grouped_cells:
  assumes "\<And>sp. sp \<in> set spans \<Longrightarrow> ts_node_index sp < n"
  shows "distinct (concat (map f (group_by_node n spans))) = distinct (concat (map f spans)) \<and>
    set (concat (map f (group_by_node n spans))) = set (concat (map f spans))"
proof -
  have "mset (group_by_node n spans) = mset spans" unfolding group_by_node_def by (rule mset_filter_partition[OF assms])
  from mset_concat_map[OF this, of f] show ?thesis using mset_eq_imp_distinct_iff mset_eq_setD by blast
qed

lemma materialize_layout:
  assumes "materialize_training_data t env cap_m cap_v = Ok m" "length (tr_branches t) > 1"
  obtains items layout where "fork_branches (tr_nodes t) (tr_branches t) {} = Ok items" "tm_layout m = Some layout"
    "tl_trainable_spans layout = group_by_node (length (tr_nodes t)) (enumerate_spans (tr_nodes t) 0 items)"
    "map smp_mask (tm_samples m) = map tb_mask items" "map smp_token_ids (tm_samples m) = map (br_token_ids \<circ> tb_branch) items"
proof -
  obtain b1 b2 bs where "tr_branches t = b1 # b2 # bs"
    using assms(2) by (cases "tr_branches t"; cases "tl (tr_branches t)") auto
  then have it: "iter_trainable_branches t = fork_branches (tr_nodes t) (tr_branches t) {}"
    by (simp add: iter_trainable_branches_def)
  obtain items where items: "fork_branches (tr_nodes t) (tr_branches t) {} = Ok items"
    and tr: "traverse (make_sample (tr_nodes t) (tr_media_map t) env cap_v) items = Ok (tm_samples m)"
    and lay: "tm_layout m = Some \<lparr>tl_sample_branch_indices = map (\<lambda>item. br_index (tb_branch item)) items,
      tl_sample_node_indices = map tb_node_indices items,
      tl_trainable_spans = group_by_node (length (tr_nodes t)) (enumerate_spans (tr_nodes t) 0 items)\<rparr>"
    using assms by (auto simp: materialize_training_data_def result_simps it)
  have "list_all2 (\<lambda>item smp. smp_mask smp = tb_mask item \<and> smp_token_ids smp = br_token_ids (tb_branch item)) items (tm_samples m)"
    using tr unfolding traverse_Inr_iff
    by (rule list_all2_mono) (auto simp: make_sample_def result_simps Let_def)
  then have "map smp_mask (tm_samples m) = map tb_mask items" "map smp_token_ids (tm_samples m) = map (br_token_ids \<circ> tb_branch) items"
    by (auto simp: list_all2_conv_all_nth intro!: nth_equalityI)
  then show thesis using that[OF items lay] by simp
qed

section \<open>A forked trace\<close>

definition fork_node :: "int list \<Rightarrow> bool \<Rightarrow> nat option \<Rightarrow> TraceNode" where
  "fork_node ids sampled parent = \<lparr>mn_token_ids = ids, mn_mask = map (\<lambda>_. sampled) ids, mn_sampled = sampled,
     mn_logprobs = (if sampled then map (\<lambda>_. 0) ids else []), mn_is_content = [], mn_weight_versions = None, tn_parent = parent,
     tn_message = AssistantMessage NoContent None None, tn_tools = [], tn_semantic_parents = [], tn_stamped = False,
     tn_renderer_token_ids = False, tn_routed_experts = False\<rparr>"

definition fork_branch :: "nat \<Rightarrow> nat list \<Rightarrow> int list \<Rightarrow> bool list \<Rightarrow> branch" where
  "fork_branch i ns ids msk = \<lparr>br_index = i, br_nodes = ns, br_token_ids = ids, br_sampled_mask = msk, br_logprobs = map (\<lambda>_. 0) ids,
     br_media = False, br_trainable = True, br_routed_experts = None\<rparr>"

definition fork_trace :: trace where
  "fork_trace = \<lparr>tr_id = ''f'', tr_nodes = [fork_node [1] False None, fork_node [2, 3] True (Some 0), fork_node [4] True (Some 1), fork_node [5] True (Some 1)],
     tr_branches = [fork_branch 0 [0, 1, 2] [1, 2, 3, 4] [False, True, True, True], fork_branch 1 [0, 1, 3] [1, 2, 3, 5] [False, True, True, True]],
     tr_calls = [], tr_tools = [], tr_stop_condition = ''stop'', tr_is_completed = True, tr_is_truncated = False,
     tr_media_map = False, tr_projection = None\<rparr>"

lemma fork_trace_ok: "nodes_ok (tr_nodes fork_trace)" "length (tr_branches fork_trace) = 2"
  by (simp_all add: nodes_ok_def fork_trace_def fork_node_def)

lemma fork_materializes: "\<exists>m. materialize_training_data fork_trace ''env'' True False = Ok m"
  by (simp add: materialize_training_data_def fork_trace_def fork_node_def fork_branch_def validate_training_trace_def raise_if_def
      validate_node_def validate_weight_versions_def iter_trainable_branches_def has_trainable_def Let_def make_sample_def)

text \<open>The layout addresses exactly the trainable tokens of the materialised samples: its spans cover
  each position whose sample mask is set once, and no other position.\<close>

definition trained_positions :: "TrainingSample list \<Rightarrow> (nat \<times> nat) set" where
  "trained_positions samples =
     {(j, p) | j p. j < length samples \<and> p < length (smp_mask (samples ! j)) \<and> smp_mask (samples ! j) ! p}"

lemma layout_covers_sample_masks:
  assumes "materialize_training_data t env cap_m cap_v = Ok m" and "1 < length (tr_branches t)" and "nodes_ok (tr_nodes t)"
  shows "\<exists>layout. tm_layout m = Some layout \<and> distinct (concat (map sample_cells (tl_trainable_spans layout))) \<and>
    set (concat (map sample_cells (tl_trainable_spans layout))) =
      trained_positions (tm_samples m)"
proof -
  obtain items layout where l: "fork_branches (tr_nodes t) (tr_branches t) {} = Ok items" "tm_layout m = Some layout"
    "tl_trainable_spans layout = group_by_node (length (tr_nodes t)) (enumerate_spans (tr_nodes t) 0 items)"
    and masks: "map smp_mask (tm_samples m) = map tb_mask items"
    by (rule materialize_layout[OF assms(1,2)])
  have len: "length (tm_samples m) = length items" using masks map_eq_imp_length_eq by blast
  have "j < length items \<Longrightarrow> smp_mask (tm_samples m ! j) = tb_mask (items ! j)" for j
    using arg_cong[OF masks, of "\<lambda>xs. xs ! j"] len by simp
  then have "sample_tokens_of 0 items = trained_positions (tm_samples m)"
    unfolding sample_tokens_of_def trained_positions_def len by auto
  then show ?thesis
    using fork_spans[OF l(1) assms(3), of 0] l(2,3) grouped_cells[of "enumerate_spans (tr_nodes t) 0 items" "length (tr_nodes t)" sample_cells] by auto
qed

text \<open>On the node side the spans cover each token the model sampled on some branch once.\<close>

lemma layout_covers_sampled_nodes:
  assumes "materialize_training_data t env cap_m cap_v = Ok m" and "1 < length (tr_branches t)" and "nodes_ok (tr_nodes t)"
  shows "\<exists>layout. tm_layout m = Some layout \<and> distinct (concat (map node_cells (tl_trainable_spans layout))) \<and>
    set (concat (map node_cells (tl_trainable_spans layout))) =
      node_tokens (tr_nodes t) (\<Union> (set (map (set \<circ> br_nodes) (tr_branches t))))"
proof -
  obtain items layout where l: "fork_branches (tr_nodes t) (tr_branches t) {} = Ok items" "tm_layout m = Some layout"
    "tl_trainable_spans layout = group_by_node (length (tr_nodes t)) (enumerate_spans (tr_nodes t) 0 items)"
    by (rule materialize_layout[OF assms(1,2)])
  note f = fork_spans[OF l(1) assms(3), of 0]
  let ?U = "\<Union> (set (map (set \<circ> br_nodes) (tr_branches t)))"
  have "node_tokens (tr_nodes t) ({i \<in> ?U. has_trainable (tr_nodes t ! i)} - {}) = node_tokens (tr_nodes t) ?U"
    using assms(3) by (auto simp: node_tokens_def has_trainable_def nodes_ok_def list_all_length) (metis nth_mem)+
  then show ?thesis using f l(2,3) grouped_cells[of "enumerate_spans (tr_nodes t) 0 items" "length (tr_nodes t)" node_cells] by auto
qed

lemma fork_samples:
  assumes "materialize_training_data fork_trace ''env'' True False = Ok m"
  shows "map smp_mask (tm_samples m) = [[False, True, True, True], [False, False, False, True]]"
  using assms
  by (auto simp: materialize_training_data_def fork_trace_def fork_node_def fork_branch_def validate_training_trace_def raise_if_def
      validate_node_def validate_weight_versions_def iter_trainable_branches_def has_trainable_def Let_def make_sample_def)

text \<open>C5: In a forked trace every token the model sampled on some branch is trained in exactly one
  sample. The layout's spans pair node positions with sample positions one to one: the node
  positions they cover are pairwise distinct and are exactly the model-sampled positions of the
  nodes on the branches, and the sample positions they cover are pairwise distinct and are exactly
  the positions whose bit is set in the masks of the samples that are shipped. So no sample trains
  a token of a shared prefix again, and none is left out.\<close>

theorem layout_trains_each_sampled_token_once:
  assumes "materialize_training_data t env cap_m cap_v = Ok m" and "1 < length (tr_branches t)" and "nodes_ok (tr_nodes t)"
  shows "\<exists>layout. tm_layout m = Some layout \<and>
    distinct (concat (map node_cells (tl_trainable_spans layout))) \<and>
    set (concat (map node_cells (tl_trainable_spans layout))) =
      node_tokens (tr_nodes t) (\<Union> (set (map (set \<circ> br_nodes) (tr_branches t)))) \<and>
    distinct (concat (map sample_cells (tl_trainable_spans layout))) \<and>
    set (concat (map sample_cells (tl_trainable_spans layout))) = trained_positions (tm_samples m) \<and>
    card (trained_positions (tm_samples m)) =
      card (node_tokens (tr_nodes t) (\<Union> (set (map (set \<circ> br_nodes) (tr_branches t)))))"
proof -
  obtain layout where n: "tm_layout m = Some layout" "distinct (concat (map node_cells (tl_trainable_spans layout)))"
    "set (concat (map node_cells (tl_trainable_spans layout))) =
      node_tokens (tr_nodes t) (\<Union> (set (map (set \<circ> br_nodes) (tr_branches t))))"
    using layout_covers_sampled_nodes[OF assms] by (elim exE conjE)
  have s: "distinct (concat (map sample_cells (tl_trainable_spans layout)))"
    "set (concat (map sample_cells (tl_trainable_spans layout))) = trained_positions (tm_samples m)"
    using layout_covers_sample_masks[OF assms] n(1) by auto
  have "length (concat (map node_cells spans)) = length (concat (map sample_cells spans))" for spans
    by (induction spans) (auto simp: node_cells_def sample_cells_def)
  then have "card (trained_positions (tm_samples m)) =
      card (node_tokens (tr_nodes t) (\<Union> (set (map (set \<circ> br_nodes) (tr_branches t)))))"
    using distinct_card[OF n(2)] distinct_card[OF s(1)] n(3) s(2) by simp
  then show ?thesis using n s by blast
qed

theorem layout_trains_each_sampled_token_once_witness:
  "\<exists>m layout. materialize_training_data fork_trace ''env'' True False = Ok m \<and> tm_layout m = Some layout \<and>
     distinct (concat (map node_cells (tl_trainable_spans layout))) \<and>
     set (concat (map node_cells (tl_trainable_spans layout))) = {(1, 0), (1, 1), (2, 0), (3, 0)} \<and>
     trained_positions (tm_samples m) = set (concat (map sample_cells (tl_trainable_spans layout))) \<and>
     map smp_mask (tm_samples m) = [[False, True, True, True], [False, False, False, True]] \<and>
     card (trained_positions (tm_samples m)) = 4"
proof -
  obtain m where m: "materialize_training_data fork_trace ''env'' True False = Ok m" using fork_materializes by blast
  have n: "node_tokens (tr_nodes fork_trace) (\<Union> (set (map (set \<circ> br_nodes) (tr_branches fork_trace)))) = {(1, 0), (1, 1), (2, 0), (3, 0)}"
    by (auto simp: node_tokens_def fork_trace_def fork_node_def fork_branch_def less_Suc_eq nth_Cons' numeral_eq_Suc)
  then show ?thesis
    using layout_trains_each_sampled_token_once[OF m] fork_trace_ok fork_samples[OF m] m by auto
qed

end
