(* ===== verification/Value_Credit.thy ===== *)
theory Value_Credit
  imports Trajectories
begin

text \<open>
  \<^verbatim>\<open>value/trajectory.py\<close>, \<^verbatim>\<open>value/credit.py\<close> and the token prefix of
  \<^verbatim>\<open>orchestrator/value_context.py\<close>: the critic's own copy of a trajectory, the insertion of a
  privileged prefix and its removal from predictions, and generalised advantage estimation
  with lambda-return targets, per sample or stitched along the training layout.
\<close>

section \<open>Token prefix\<close>

record TokenPrefix =
  tp_token_ids :: "int list"
  tp_insert_at :: int

definition TokenPrefix_init :: "int list \<Rightarrow> int \<Rightarrow> TokenPrefix result" where
  "TokenPrefix_init token_ids insert_at =
     raise_if (insert_at \<noteq> 0 \<and> insert_at \<noteq> 1) (ValueError ''prefix insertion position must be 0 or 1'')
       (Ok \<lparr>tp_token_ids = token_ids, tp_insert_at = insert_at\<rparr>)"

definition prefix_apply :: "TokenPrefix \<Rightarrow> int list \<Rightarrow> int list result" where
  "prefix_apply p token_ids =
     raise_if (tp_insert_at p > int (length token_ids))
       (ValueError ''prefix insertion position exceeds sequence length'')
       (Ok (take (nat (tp_insert_at p)) token_ids @ tp_token_ids p @ drop (nat (tp_insert_at p)) token_ids))"

definition prefix_project :: "TokenPrefix \<Rightarrow> 'a list \<Rightarrow> 'a list result" where
  "prefix_project p values =
     (let stop = tp_insert_at p + int (length (tp_token_ids p))
      in raise_if (stop > int (length values)) (ValueError ''prefixed span exceeds sequence length'')
           (Ok (take (nat (tp_insert_at p)) values @ drop (nat stop) values)))"

definition prefix_lift :: "TokenPrefix \<Rightarrow> 'a list \<Rightarrow> 'a \<Rightarrow> 'a list result" where
  "prefix_lift p values fill =
     raise_if (tp_insert_at p > int (length values))
       (ValueError ''prefix insertion position exceeds sequence length'')
       (Ok (take (nat (tp_insert_at p)) values @ replicate (length (tp_token_ids p)) fill @ drop (nat (tp_insert_at p)) values))"

section \<open>Trajectories owned by the critic\<close>

record ValueTrajectorySample =
  vs_token_ids :: "int list"
  vs_mask :: "bool list"
  vs_sampled_mask :: "bool list"

record ValueTrajectory =
  vt_samples :: "ValueTrajectorySample list"
  vt_layout :: "TrainingLayout option"
  vt_reward :: real
  vt_prefix :: "TokenPrefix option"
  vt_env_name :: string
  vt_group_id :: string
  vt_policy_version :: int

definition own_sample :: "TrainingSample \<Rightarrow> bool list \<Rightarrow> ValueTrajectorySample result" where
  "own_sample sample sampled_mask =
     raise_if (\<not> (length (smp_token_ids sample) = length (smp_mask sample) \<and> length (smp_mask sample) = length sampled_mask))
       (ValueError ''value trajectory token and mask streams must align'')
       (raise_if (\<exists>(trainable, sampled) \<in> set (zip (smp_mask sample) sampled_mask). trainable \<and> \<not> sampled)
         (ValueError ''value trajectory train mask must follow native sampled provenance'')
         (Ok \<lparr>vs_token_ids = smp_token_ids sample, vs_mask = smp_mask sample, vs_sampled_mask = sampled_mask\<rparr>))"

fun own_samples :: "TrainingSample list \<Rightarrow> bool list list \<Rightarrow> ValueTrajectorySample list result" where
  "own_samples [] [] = Ok []"
| "own_samples (s # ss) (m # ms) = bindE (own_sample s m) (\<lambda>o1. bindE (own_samples ss ms) (\<lambda>os. Ok (o1 # os)))"
| "own_samples _ _ = Raise (ValueError ''zip() arguments have different lengths'')"

definition snapshot_value_trajectory ::
  "TrainingSample list \<Rightarrow> bool list list \<Rightarrow> TrainingLayout option \<Rightarrow> real \<Rightarrow> TokenPrefix option \<Rightarrow> string \<Rightarrow> string \<Rightarrow> int \<Rightarrow>
   ValueTrajectory result" where
  "snapshot_value_trajectory samples sampled_masks layout reward tprefix env_name group_id policy_version =
     bindE (own_samples samples sampled_masks) (\<lambda>owned.
       Ok \<lparr>vt_samples = owned, vt_layout = layout, vt_reward = reward, vt_prefix = tprefix, vt_env_name = env_name,
           vt_group_id = group_id, vt_policy_version = policy_version\<rparr>)"

section \<open>Generalised advantage estimation\<close>

definition action_indices :: "bool list \<Rightarrow> nat list" where
  "action_indices msk = filter (\<lambda>i. msk ! i) [0..<length msk]"

record gae_state =
  gs_policy :: real
  gs_target :: real
  gs_advantages :: "real list"
  gs_returns :: "real list"

definition gae_step :: "real \<Rightarrow> real list \<Rightarrow> nat list \<Rightarrow> real \<Rightarrow> real \<Rightarrow> real \<Rightarrow> nat \<Rightarrow> gae_state \<Rightarrow> gae_state" where
  "gae_step reward vals actions gamma gae_lambda value_target_lambda action_position st =
     (let index = actions ! action_position;
          has_next = action_position + 1 < length actions;
          next_value = (if has_next then vals ! (actions ! (action_position + 1)) else 0);
          immediate_reward = (if \<not> has_next then reward else 0);
          nonterminal = (if has_next then 1 else 0);
          delta = immediate_reward + gamma * next_value * nonterminal - vals ! index;
          next_policy_gae = delta + gamma * gae_lambda * nonterminal * gs_policy st;
          next_target_advantage = delta + gamma * value_target_lambda * nonterminal * gs_target st
      in \<lparr>gs_policy = next_policy_gae, gs_target = next_target_advantage,
          gs_advantages = (gs_advantages st)[index := next_policy_gae],
          gs_returns = (gs_returns st)[index := next_target_advantage + vals ! index]\<rparr>)"

definition compute_gae ::
  "real \<Rightarrow> real list \<Rightarrow> bool list \<Rightarrow> real \<Rightarrow> real \<Rightarrow> real \<Rightarrow> (real list \<times> real list) result" where
  "compute_gae reward vals msk gamma gae_lambda value_target_lambda =
     raise_if (length vals \<noteq> length msk) (ValueError ''value/mask length mismatch'')
       (let actions = action_indices msk;
            st = fold (gae_step reward vals actions gamma gae_lambda value_target_lambda) (rev [0..<length actions])
                   \<lparr>gs_policy = 0, gs_target = 0, gs_advantages = replicate (length msk) 0, gs_returns = replicate (length msk) 0\<rparr>
        in Ok (gs_advantages st, gs_returns st))"

section \<open>Value input and layout\<close>

record ValueFunctionConfig =
  vf_seq_len :: nat
  vf_gamma :: real
  vf_gae_lambda :: real
  vf_value_target_lambda :: real

definition value_input :: "int list \<Rightarrow> TokenPrefix option \<Rightarrow> nat \<Rightarrow> int list result" where
  "value_input token_ids tprefix seq_len =
     (case tprefix of Some p \<Rightarrow> prefix_apply p token_ids | None \<Rightarrow> Ok (take seq_len token_ids))"

definition needs_stitching :: "ValueFunctionConfig \<Rightarrow> bool \<Rightarrow> bool" where
  "needs_stitching config uses_policy_gae \<longleftrightarrow>
     vf_gamma config < 1 \<or> vf_value_target_lambda config < 1 \<or> (uses_policy_gae \<and> vf_gae_lambda config < 1)"

definition sequential_value_layout ::
  "ValueTrajectory \<Rightarrow> ValueFunctionConfig \<Rightarrow> bool \<Rightarrow> string option \<Rightarrow> TrainingLayout option result" where
  "sequential_value_layout trajectory config uses_policy_gae branch_semantics =
     (if length (vt_samples trajectory) \<le> 1 \<or> \<not> needs_stitching config uses_policy_gae then Ok None
      else raise_if (branch_semantics \<noteq> Some ''sequential'')
        (ValueError ''temporal value credit over multiple branches requires sequential branch semantics'')
        (case vt_layout trajectory of
           None \<Rightarrow> Raise (AssertionError ''layout is not None'')
         | Some layout \<Rightarrow>
             if vt_prefix trajectory \<noteq> None then Ok (Some layout)
             else
               (let visible_lengths = map (\<lambda>s. min (length (vs_token_ids s)) (vf_seq_len config)) (vt_samples trajectory)
                in bindE (traverse (\<lambda>span. bindE (nth_chk visible_lengths (ts_sample_index span)) (\<lambda>visible_length.
                       raise_if (ts_sample_start span + ts_length span > visible_length)
                         (ValueError ''sequential temporal credit requires every trainable token to be visible to the critic'')
                         (Ok ()))) (tl_trainable_spans layout)) (\<lambda>_. Ok (Some layout)))))"

section \<open>Value results\<close>

definition project_prediction :: "ValueFunctionConfig \<Rightarrow> TokenPrefix option \<Rightarrow> ValueTrajectorySample \<Rightarrow> real list \<Rightarrow> real list result" where
  "project_prediction config tprefix sample vals =
     bindE (value_input (vs_token_ids sample) tprefix (vf_seq_len config)) (\<lambda>input_tokens.
       raise_if (length vals \<noteq> length input_tokens)
         (ValueError ''value evaluator returned another number of tokens than the value input'')
         (case tprefix of Some p \<Rightarrow> prefix_project p vals | None \<Rightarrow> Ok vals))"

fun project_predictions :: "ValueFunctionConfig \<Rightarrow> TokenPrefix option \<Rightarrow> ValueTrajectorySample list \<Rightarrow> real list list \<Rightarrow> real list list result" where
  "project_predictions config tprefix (s # ss) (v # vs) =
     bindE (project_prediction config tprefix s v) (\<lambda>p. bindE (project_predictions config tprefix ss vs) (\<lambda>ps. Ok (p # ps)))"
| "project_predictions config tprefix _ _ = Ok []"

text \<open>\<open>xs[a:b] = ys\<close> for \<open>a <= b\<close>\<close>

definition slice_assign :: "'a list \<Rightarrow> nat \<Rightarrow> nat \<Rightarrow> 'a list \<Rightarrow> 'a list" where
  "slice_assign xs a b ys = take a xs @ ys @ drop b xs"

definition sample_credit :: "ValueFunctionConfig \<Rightarrow> real \<Rightarrow> ValueTrajectorySample \<Rightarrow> real list \<Rightarrow> (real list \<times> real list) result" where
  "sample_credit config reward sample projected =
     bindE (compute_gae reward projected (take (length projected) (vs_mask sample)) (vf_gamma config) (vf_gae_lambda config)
              (vf_value_target_lambda config)) (\<lambda>(advantages, returns).
       let padding = length (vs_token_ids sample) - length projected
       in Ok (advantages @ replicate padding 0, returns @ replicate padding 0))"

fun scatter_spans :: "TrainableSpan list \<Rightarrow> nat \<Rightarrow> real list \<Rightarrow> real list list \<Rightarrow> real list list" where
  "scatter_spans [] offset flat out = out"
| "scatter_spans (sp # rest) offset flat out =
     (let stop = offset + ts_length sp; i = ts_sample_index sp
      in scatter_spans rest stop flat
           (out[i := slice_assign (out ! i) (ts_sample_start sp) (ts_sample_start sp + ts_length sp)
                       (take (ts_length sp) (drop offset flat))]))"

definition gather_spans :: "TrainableSpan list \<Rightarrow> 'a list list \<Rightarrow> 'a list" where
  "gather_spans spans xs = concat (map (\<lambda>sp. take (ts_length sp) (drop (ts_sample_start sp) (xs ! ts_sample_index sp))) spans)"

definition compute_value_result ::
  "ValueTrajectory \<Rightarrow> real list list \<Rightarrow> ValueFunctionConfig \<Rightarrow> TrainingLayout option \<Rightarrow>
   (real list list \<times> real list list \<times> real list list) result" where
  "compute_value_result trajectory predictions config layout =
     raise_if (length predictions \<noteq> length (vt_samples trajectory))
       (ValueError ''value evaluator returned another number of branches'')
       (bindE (project_predictions config (vt_prefix trajectory) (vt_samples trajectory) predictions) (\<lambda>projected.
        bindE (case layout of
            None \<Rightarrow>
              bindE (traverse (\<lambda>(s, p). sample_credit config (vt_reward trajectory) s p) (zip (vt_samples trajectory) projected)) (\<lambda>parts.
                Ok (map fst parts, map snd parts))
          | Some l \<Rightarrow>
              raise_if (\<exists>sp \<in> set (tl_trainable_spans l). ts_sample_index sp \<ge> length projected) IndexError
              (let flat_values = gather_spans (tl_trainable_spans l) projected
               in bindE (compute_gae (vt_reward trajectory) flat_values (replicate (length flat_values) True) (vf_gamma config)
                          (vf_gae_lambda config) (vf_value_target_lambda config)) (\<lambda>(flat_advantages, flat_returns).
                    let zeros = map (\<lambda>s. replicate (length (vs_token_ids s)) 0) (vt_samples trajectory)
                    in Ok (scatter_spans (tl_trainable_spans l) 0 flat_advantages zeros,
                           scatter_spans (tl_trainable_spans l) 0 flat_returns zeros)))) (\<lambda>(advantages, returns).
        let value_predictions = map2 (\<lambda>s v. v @ replicate (length (vs_token_ids s) - length v) 0) (vt_samples trajectory) projected
        in Ok (value_predictions, advantages, returns))))"

section \<open>Prefix round trips\<close>

definition prefix_ok :: "TokenPrefix \<Rightarrow> bool" where
  "prefix_ok p \<longleftrightarrow> tp_insert_at p = 0 \<or> tp_insert_at p = 1"

lemma prefix_project_apply:
  assumes "prefix_ok p" "prefix_apply p ids = Ok out" "length vals = length out"
  shows "prefix_project p vals = Ok (take (nat (tp_insert_at p)) vals @ drop (nat (tp_insert_at p) + length (tp_token_ids p)) vals)"
    and "length out = length ids + length (tp_token_ids p)"
proof -
  show len: "length out = length ids + length (tp_token_ids p)"
    using assms by (cases ids) (auto simp: prefix_ok_def prefix_apply_def raise_if_def split: if_splits)
  have "tp_insert_at p \<le> int (length ids)" using assms(2) by (auto simp: prefix_apply_def raise_if_def split: if_splits)
  then show "prefix_project p vals = Ok (take (nat (tp_insert_at p)) vals @ drop (nat (tp_insert_at p) + length (tp_token_ids p)) vals)"
    using assms(1,3) len by (auto simp: prefix_ok_def prefix_project_def raise_if_def Let_def nat_add_distrib)
qed

text \<open>Projecting undoes inserting: removing the prefix span from a prefixed sequence gives the
  sequence back, and so does projecting lifted values, with every filler inside the removed span.\<close>

lemma prefix_project_inverts:
  assumes "TokenPrefix_init tokens insert_at = Ok p"
  shows "(\<forall>out. prefix_apply p ids = Ok out \<longrightarrow> prefix_project p out = Ok ids) \<and>
    (\<forall>out. prefix_lift p vals fill = Ok out \<longrightarrow> prefix_project p out = Ok vals)"
proof -
  have p: "p = \<lparr>tp_token_ids = tokens, tp_insert_at = insert_at\<rparr>" "insert_at = 0 \<or> insert_at = 1"
    using assms by (auto simp: TokenPrefix_init_def raise_if_def split: if_splits)
  show ?thesis
    using p by (auto simp: prefix_apply_def prefix_lift_def prefix_project_def raise_if_def Let_def min_def nat_add_distrib split: if_splits)
qed

lemma prefix_project_inverts_witness:
  "prefix_project \<lparr>tp_token_ids = [8, 9], tp_insert_at = 1\<rparr> [1, 8, 9, 2] = Ok [1, 2 :: int]"
  using prefix_project_inverts[of "[8, 9]" 1 "\<lparr>tp_token_ids = [8, 9], tp_insert_at = 1\<rparr>" "[1, 2]" "[] :: int list" 0]
  by (simp add: TokenPrefix_init_def prefix_apply_def raise_if_def)

section \<open>GAE against its recursion\<close>

text \<open>The textbook recursion over the values of the actions only, with the reward at the end.\<close>

fun gae_list :: "real \<Rightarrow> real \<Rightarrow> real \<Rightarrow> real list \<Rightarrow> real list" where
  "gae_list reward gamma lam [] = []"
| "gae_list reward gamma lam [v] = [reward - v]"
| "gae_list reward gamma lam (v # w # vs) =
     (let rest = gae_list reward gamma lam (w # vs)
      in (gamma * w - v + gamma * lam * hd rest) # rest)"

lemma length_gae_list [simp]: "length (gae_list r g l vs) = length vs"
  by (induction r g l vs rule: gae_list.induct) (simp_all add: Let_def)

lemma gae_list_nth:
  "p < length vs \<Longrightarrow> gae_list r g l vs ! p =
     (if p + 1 < length vs then g * vs ! (p + 1) - vs ! p + g * l * gae_list r g l vs ! (p + 1) else r - vs ! p)"
proof (induction r g l vs arbitrary: p rule: gae_list.induct)
  case (3 r g l v w vs)
  have "hd (gae_list r g l (w # vs)) = gae_list r g l (w # vs) ! 0"
    by (rule hd_conv_nth) (metis length_gae_list length_0_conv list.distinct(1))
  then show ?case using 3(1)[of "p - 1"] 3(2) by (cases p) (auto simp: Let_def)
qed simp_all

definition put :: "nat list \<Rightarrow> real list \<Rightarrow> nat \<Rightarrow> real list \<Rightarrow> real list" where
  "put acts ys p xs = xs[acts ! p := ys ! p]"

lemma gae_loop:
  assumes vs_def: "vs = map ((!) vals) acts" and n_def: "n = length acts" and jn: "j \<le> n"
  shows "fold (gae_step reward vals acts gamma l1 l2) (rev [j..<n])
      \<lparr>gs_policy = 0, gs_target = 0, gs_advantages = z, gs_returns = z\<rparr> =
    \<lparr>gs_policy = (if j < n then gae_list reward gamma l1 vs ! j else 0),
     gs_target = (if j < n then gae_list reward gamma l2 vs ! j else 0),
     gs_advantages = fold (put acts (gae_list reward gamma l1 vs)) (rev [j..<n]) z,
     gs_returns = fold (put acts (map2 (+) (gae_list reward gamma l2 vs) vs)) (rev [j..<n]) z\<rparr>"
  using jn
proof (induction j rule: inc_induct)
  case base
  show ?case by simp
next
  case (step j)
  have j: "j < length acts" using step(2) by (simp add: n_def)
  have upt: "rev [j..<n] = rev [Suc j..<n] @ [j]" using step(2) by (simp add: upt_conv_Cons)
  have lv: "length vs = n" by (simp add: vs_def n_def)
  have nth: "vs ! j = vals ! (acts ! j)" "Suc j < n \<Longrightarrow> vs ! Suc j = vals ! (acts ! Suc j)"
    using j by (simp_all add: vs_def n_def)
  have g: "gae_list reward gamma l vs ! j =
      (if Suc j < n then gamma * vs ! Suc j - vs ! j + gamma * l * gae_list reward gamma l vs ! Suc j else reward - vs ! j)" for l
    using gae_list_nth[of j vs reward gamma l] j lv by (simp add: n_def)
  have m2: "map2 (+) (gae_list reward gamma l2 vs) vs ! j = gae_list reward gamma l2 vs ! j + vs ! j"
    using j lv by (simp add: n_def)
  show ?case
    unfolding upt fold_append comp_apply fold_simps step.IH
    using j g nth m2 by (cases "Suc j < n") (simp_all add: gae_step_def Let_def n_def put_def)
qed

lemma put_all_length: "length (fold (put acts ys) ps z) = length z"
  by (induction ps arbitrary: z) (simp_all add: put_def)

lemma put_all_nth:
  assumes "distinct acts" "set ps \<subseteq> {..<length acts}" "\<And>p. p < length acts \<Longrightarrow> acts ! p < length z"
  shows "q < length acts \<Longrightarrow> q \<in> set ps \<Longrightarrow> fold (put acts ys) ps z ! (acts ! q) = ys ! q"
    and "\<And>i. i \<notin> (!) acts ` set ps \<Longrightarrow> fold (put acts ys) ps z ! i = z ! i"
proof -
  show "\<And>i. i \<notin> (!) acts ` set ps \<Longrightarrow> fold (put acts ys) ps z ! i = z ! i"
    by (induction ps arbitrary: z) (auto simp: put_def)
  show "fold (put acts ys) ps z ! (acts ! q) = ys ! q" if "q < length acts" "q \<in> set ps"
    using assms(2,3) that
  proof (induction ps arbitrary: z)
    case (Cons p ps)
    have other: "fold (put acts ys) ps z' ! i = z' ! i" if "i \<notin> (!) acts ` set ps" for i z'
      using that by (induction ps arbitrary: z') (auto simp: put_def)
    show ?case
    proof (cases "q \<in> set ps")
      case True
      then show ?thesis using Cons by (simp add: put_def)
    next
      case False
      then have "q = p" using Cons.prems by auto
      moreover have "acts ! q \<notin> (!) acts ` set ps"
        using False Cons.prems(1,3) assms(1) by (auto simp: nth_eq_iff_index_eq subset_iff)
      ultimately show ?thesis using other[of "acts ! p" "put acts ys p z"] Cons.prems by (simp add: put_def[of acts ys p z])
    qed
  qed simp
qed

lemma action_indices_props:
  "distinct (action_indices msk)" "set (action_indices msk) = {i. i < length msk \<and> msk ! i}"
  "p < length (action_indices msk) \<Longrightarrow> action_indices msk ! p < length msk \<and> msk ! (action_indices msk ! p)"
proof -
  show s: "set (action_indices msk) = {i. i < length msk \<and> msk ! i}" by (auto simp: action_indices_def)
  show "distinct (action_indices msk)" by (simp add: action_indices_def)
  assume "p < length (action_indices msk)"
  then have "action_indices msk ! p \<in> set (action_indices msk)" by (rule nth_mem)
  then show "action_indices msk ! p < length msk \<and> msk ! (action_indices msk ! p)" using s by simp
qed

text \<open>Values at the trainable positions, and zero elsewhere.\<close>

definition spread :: "bool list \<Rightarrow> real list \<Rightarrow> real list \<Rightarrow> bool" where
  "spread msk ys out \<longleftrightarrow> length out = length msk \<and> map ((!) out) (action_indices msk) = ys \<and>
     (\<forall>i < length msk. \<not> msk ! i \<longrightarrow> out ! i = 0)"

lemma put_spread:
  assumes "length ys = length (action_indices msk)"
  shows "spread msk ys (fold (put (action_indices msk) ys) (rev [0..<length (action_indices msk)]) (replicate (length msk) 0))"
proof -
  let ?a = "action_indices msk" and ?z = "replicate (length msk) (0 :: real)"
  note ap = action_indices_props
  have nth: "q < length ?a \<Longrightarrow> fold (put ?a ys) (rev [0..<length ?a]) ?z ! (?a ! q) = ys ! q" for q
    by (rule put_all_nth(1)) (use ap in auto)
  have off: "fold (put ?a ys) (rev [0..<length ?a]) ?z ! i = 0" if "i < length msk" "\<not> msk ! i" for i
  proof -
    have "i \<notin> (!) ?a ` set (rev [0..<length ?a])" using ap(3)[of _ msk] that by auto
    then have "fold (put ?a ys) (rev [0..<length ?a]) ?z ! i = ?z ! i" by (rule put_all_nth(2)[rotated -1]) (use ap in auto)
    then show ?thesis using that by simp
  qed
  have "map ((!) (fold (put ?a ys) (rev [0..<length ?a]) ?z)) ?a = ys"
    by (rule nth_equalityI) (use assms nth in auto)
  then show ?thesis using off by (simp add: spread_def put_all_length)
qed

lemma compute_gae_spec:
  assumes "length vals = length msk"
  shows "\<exists>adv ret. compute_gae reward vals msk gamma l1 l2 = Ok (adv, ret) \<and>
    spread msk (gae_list reward gamma l1 (map ((!) vals) (action_indices msk))) adv \<and>
    spread msk (map2 (+) (gae_list reward gamma l2 (map ((!) vals) (action_indices msk))) (map ((!) vals) (action_indices msk))) ret"
  using assms gae_loop[OF refl refl, of 0 "action_indices msk" reward vals gamma l1 l2 "replicate (length msk) 0"]
  by (auto simp: compute_gae_def Let_def intro!: put_spread)

text \<open>C4: Advantage estimation is the standard recursion: on aligned streams it returns, at the
  trainable positions and in their order, the GAE of their values alone with the policy lambda, and
  as targets the lambda-advantages with the independent target lambda plus the values; every other
  position is zero. On streams of different lengths it raises \<open>ValueError\<close>.\<close>

theorem compute_gae_correct:
  "if length vals = length msk
   then \<exists>adv ret. compute_gae reward vals msk gamma l1 l2 = Ok (adv, ret) \<and>
     (let vs = map ((!) vals) (action_indices msk)
      in spread msk (gae_list reward gamma l1 vs) adv \<and> spread msk (map2 (+) (gae_list reward gamma l2 vs) vs) ret)
   else compute_gae reward vals msk gamma l1 l2 = Raise (ValueError ''value/mask length mismatch'')"
proof (cases "length vals = length msk")
  case True
  from compute_gae_spec[OF this, of reward gamma l1 l2] True show ?thesis by (simp add: Let_def)
next
  case False
  then show ?thesis by (simp add: compute_gae_def)
qed

lemma gae_list_closed:
  "p < length vs \<Longrightarrow> gae_list r g l vs ! p =
     (\<Sum>k = 0..<length vs - p. (g * l) ^ k * ((if p + k + 1 < length vs then g * vs ! (p + k + 1) else r) - vs ! (p + k)))"
proof (induction "length vs - p" arbitrary: p)
  case (Suc m)
  show ?case
  proof (cases "p + 1 < length vs")
    case True
    have m: "m = length vs - (p + 1)" "length vs - p = Suc m" using Suc.hyps(2) True by auto
    have "(\<Sum>k = 0..<Suc m. (g * l) ^ k * ((if p + k + 1 < length vs then g * vs ! (p + k + 1) else r) - vs ! (p + k))) =
        (g * vs ! (p + 1) - vs ! p) +
        (\<Sum>k = 0..<m. (g * l) ^ Suc k * ((if p + Suc k + 1 < length vs then g * vs ! (p + Suc k + 1) else r) - vs ! (p + Suc k)))"
      using True by (subst sum.atLeast0_lessThan_Suc_shift) simp
    also have "\<dots> = (g * vs ! (p + 1) - vs ! p) + g * l *
        (\<Sum>k = 0..<m. (g * l) ^ k * ((if (p + 1) + k + 1 < length vs then g * vs ! ((p + 1) + k + 1) else r) - vs ! ((p + 1) + k)))"
      by (simp add: sum_distrib_left mult.assoc cong: if_cong)
    also have "\<dots> = gae_list r g l vs ! p"
      using Suc.hyps(1)[OF m(1) True] gae_list_nth[of p vs r g l] True m by simp
    finally show ?thesis using m(2) by simp
  next
    case False
    then have "length vs - p = 1" using Suc.prems by simp
    then show ?thesis using gae_list_nth[of p vs r g l] Suc.prems False by simp
  qed
qed simp

lemma lambda_one_return:
  "p < length vs \<Longrightarrow> gae_list r g 1 vs ! p + vs ! p = g ^ (length vs - 1 - p) * r"
proof (induction "length vs - p" arbitrary: p)
  case (Suc m)
  show ?case
  proof (cases "p + 1 < length vs")
    case True
    have "gae_list r g 1 vs ! p + vs ! p = g * (gae_list r g 1 vs ! (p + 1) + vs ! (p + 1))"
      using gae_list_nth[of p vs r g 1] True Suc.prems by (simp add: algebra_simps)
    also have "\<dots> = g * (g ^ (length vs - 1 - (p + 1)) * r)"
      using Suc.hyps(1)[of "p + 1"] Suc.hyps(2) True by simp
    also have "\<dots> = g ^ Suc (length vs - 1 - (p + 1)) * r" by simp
    also have "Suc (length vs - 1 - (p + 1)) = length vs - 1 - p" using True by simp
    finally show ?thesis .
  next
    case False
    then show ?thesis using gae_list_nth[of p vs r g 1] Suc.prems by simp
  qed
qed simp

text \<open>With a target lambda of one the value targets are the discounted Monte-Carlo returns, whatever
  the critic predicted: the target of the p-th of n actions is the reward discounted n - 1 - p times.\<close>

lemma gae_targets_monte_carlo:
  assumes "compute_gae reward vals msk gamma l1 1 = Ok (adv, ret)" and "p < length (action_indices msk)"
  shows "ret ! (action_indices msk ! p) = gamma ^ (length (action_indices msk) - 1 - p) * reward"
proof -
  let ?a = "action_indices msk" and ?vs = "map ((!) vals) (action_indices msk)"
  have "length vals = length msk" using assms(1) by (auto simp: compute_gae_def raise_if_def split: if_splits)
  from compute_gae_spec[OF this, of reward gamma l1 1] assms(1)
  have "map ((!) ret) ?a = map2 (+) (gae_list reward gamma 1 ?vs) ?vs" by (auto simp: spread_def)
  then have "map ((!) ret) ?a ! p = map2 (+) (gae_list reward gamma 1 ?vs) ?vs ! p" by simp
  then have "ret ! (?a ! p) = gae_list reward gamma 1 ?vs ! p + ?vs ! p" using assms(2) by simp
  then show ?thesis using lambda_one_return[of p ?vs reward gamma] assms(2) by simp
qed

lemma gae_targets_monte_carlo_witness:
  "\<exists>adv ret. compute_gae 3 [1, 2, 4] [True, False, True] (1 / 2) 1 1 = Ok (adv, ret) \<and> ret ! 0 = (1 / 2) ^ 1 * 3"
proof -
  obtain adv ret where r: "compute_gae 3 [1, 2, 4] [True, False, True] (1 / 2) 1 1 = Ok (adv, ret)"
    by (simp add: compute_gae_def Let_def)
  have a: "action_indices [True, False, True] = [0, 2]" by (simp add: action_indices_def upt_rec)
  show ?thesis using gae_targets_monte_carlo[OF r, of 0] r by (simp add: a)
qed

section \<open>Stitched credit\<close>

definition spans_in :: "TrainableSpan list \<Rightarrow> 'a list list \<Rightarrow> bool" where
  "spans_in spans xs \<longleftrightarrow> (\<forall>sp \<in> set spans. ts_sample_index sp < length xs \<and>
     ts_sample_start sp + ts_length sp \<le> length (xs ! ts_sample_index sp))"

definition total_length :: "TrainableSpan list \<Rightarrow> nat" where
  "total_length spans = sum_list (map ts_length spans)"

lemma set_sample_cells: "(i, q) \<in> set (sample_cells sp) \<longleftrightarrow>
    i = ts_sample_index sp \<and> ts_sample_start sp \<le> q \<and> q < ts_sample_start sp + ts_length sp"
proof
  assume "i = ts_sample_index sp \<and> ts_sample_start sp \<le> q \<and> q < ts_sample_start sp + ts_length sp"
  then show "(i, q) \<in> set (sample_cells sp)"
    unfolding sample_cells_def set_map by (intro image_eqI[of _ _ "q - ts_sample_start sp"]) auto
qed (auto simp: sample_cells_def)

lemma slice_assign_length: "a + length ys \<le> length xs \<Longrightarrow> length (slice_assign xs a (a + length ys) ys) = length xs"
  by (simp add: slice_assign_def)

lemma slice_assign_nth:
  "a + length ys \<le> length xs \<Longrightarrow> i < length xs \<Longrightarrow> slice_assign xs a (a + length ys) ys ! i =
     (if a \<le> i \<and> i < a + length ys then ys ! (i - a) else xs ! i)"
  by (auto simp: slice_assign_def nth_append min_def)

lemma scatter_shape:
  assumes "spans_in spans out" "off + total_length spans \<le> length flat"
  shows "length (scatter_spans spans off flat out) = length out \<and>
    (\<forall>i < length out. length (scatter_spans spans off flat out ! i) = length (out ! i)) \<and>
    (\<forall>i < length out. \<forall>q < length (out ! i). (i, q) \<notin> set (concat (map sample_cells spans)) \<longrightarrow> scatter_spans spans off flat out ! i ! q = out ! i ! q)"
  using assms
proof (induction spans off flat out rule: scatter_spans.induct)
  case (2 sp rest off flat out)
  let ?i = "ts_sample_index sp" and ?ys = "take (ts_length sp) (drop off flat)"
  let ?row = "slice_assign (out ! ?i) (ts_sample_start sp) (ts_sample_start sp + ts_length sp) ?ys"
  have ys: "length ?ys = ts_length sp" using 2(3) by (simp add: total_length_def)
  have i: "?i < length out" "ts_sample_start sp + ts_length sp \<le> length (out ! ?i)" using 2(2) by (auto simp: spans_in_def)
  have rl: "length ?row = length (out ! ?i)" using slice_assign_length[of "ts_sample_start sp" ?ys "out ! ?i"] i(2) ys by simp
  have rn: "?row ! q = out ! ?i ! q" if "(?i, q) \<notin> set (sample_cells sp)" "q < length (out ! ?i)" for q
    using slice_assign_nth[of "ts_sample_start sp" ?ys "out ! ?i" q] i(2) ys that by (auto simp: set_sample_cells)
  have rest: "spans_in rest (out[?i := ?row])" "off + ts_length sp + total_length rest \<le> length flat"
    using 2(2,3) rl by (auto simp: spans_in_def total_length_def nth_list_update)
  have ol: "length (out[?i := ?row] ! j) = length (out ! j)" if "j < length out" for j
    using rl that by (cases "j = ?i") simp_all
  have on: "out[?i := ?row] ! j ! q = out ! j ! q" if "j < length out" "(j, q) \<notin> set (sample_cells sp)" "q < length (out ! j)" for j q
    using rn that i(1) by (cases "j = ?i") simp_all
  note ih = 2(1)[OF refl refl rest]
  show ?case
  proof (intro conjI allI impI)
    fix j q assume j: "j < length out" and q: "q < length (out ! j)" and c: "(j, q) \<notin> set (concat (map sample_cells (sp # rest)))"
    have "scatter_spans rest (off + ts_length sp) flat (out[?i := ?row]) ! j ! q = out[?i := ?row] ! j ! q"
      using ih j q ol[OF j] c by simp
    then show "scatter_spans (sp # rest) off flat out ! j ! q = out ! j ! q" using on[OF j _ q] c by (simp add: Let_def)
  qed (use ih ol in \<open>simp_all add: Let_def\<close>)
qed (simp add: total_length_def)

lemma gather_scatter:
  assumes "spans_in spans out" "off + total_length spans \<le> length flat" "distinct (concat (map sample_cells spans))"
  shows "gather_spans spans (scatter_spans spans off flat out) = take (total_length spans) (drop off flat)"
  using assms
proof (induction spans off flat out rule: scatter_spans.induct)
  case (2 sp rest off flat out)
  let ?i = "ts_sample_index sp" and ?s = "ts_sample_start sp" and ?n = "ts_length sp" and ?ys = "take (ts_length sp) (drop off flat)"
  let ?row = "slice_assign (out ! ?i) ?s (?s + ?n) ?ys"
  let ?out = "scatter_spans rest (off + ?n) flat (out[?i := ?row])"
  have ys: "length ?ys = ?n" using 2(3) by (simp add: total_length_def)
  have i: "?i < length out" "?s + ?n \<le> length (out ! ?i)" using 2(2) by (auto simp: spans_in_def)
  have rl: "length ?row = length (out ! ?i)" using slice_assign_length[of ?s ?ys "out ! ?i"] i(2) ys by simp
  have rest: "spans_in rest (out[?i := ?row])" "off + ?n + total_length rest \<le> length flat" "distinct (concat (map sample_cells rest))"
    using 2(2,3,4) rl by (auto simp: spans_in_def total_length_def nth_list_update)
  note sh = scatter_shape[OF rest(1,2)]
  have "take ?n (drop ?s (?out ! ?i)) = ?ys"
  proof (rule nth_equalityI)
    have l: "length (?out ! ?i) = length (out ! ?i)" using sh i(1) rl by simp
    then show "length (take ?n (drop ?s (?out ! ?i))) = length ?ys" using i(2) ys by simp
    fix q assume "q < length (take ?n (drop ?s (?out ! ?i)))"
    then have q: "q < ?n" by simp
    have "(?i, ?s + q) \<in> set (sample_cells sp)" using q by (auto simp: set_sample_cells)
    then have "(?i, ?s + q) \<notin> set (concat (map sample_cells rest))" using 2(4) by auto
    then have "?out ! ?i ! (?s + q) = ?row ! (?s + q)" using sh i rl q by simp
    also have "\<dots> = ?ys ! q" using slice_assign_nth[of ?s ?ys "out ! ?i" "?s + q", unfolded ys] i(2) q by (simp del: nth_take nth_drop take_all)
    finally show "take ?n (drop ?s (?out ! ?i)) ! q = ?ys ! q" using q l i(2) by simp
  qed
  moreover have "gather_spans rest ?out = take (total_length rest) (drop (off + ?n) flat)"
    by (rule 2(1)[OF refl refl rest])
  moreover have "take ?n (drop off flat) @ take (total_length rest) (drop (off + ?n) flat) = take (total_length (sp # rest)) (drop off flat)"
    by (simp add: total_length_def take_add add.commute)
  ultimately show ?case by (simp add: gather_spans_def Let_def)
qed (simp add: gather_spans_def total_length_def)

text \<open>How long a projected prediction is: the visible prefix of the sample, or all of it under a token prefix.\<close>

definition visible_length :: "ValueFunctionConfig \<Rightarrow> TokenPrefix option \<Rightarrow> ValueTrajectorySample \<Rightarrow> nat" where
  "visible_length config tprefix s =
     (case tprefix of None \<Rightarrow> min (length (vs_token_ids s)) (vf_seq_len config) | Some p \<Rightarrow> length (vs_token_ids s))"

lemma project_prediction_length:
  assumes "project_prediction config tprefix s v = Ok p" "\<And>tp. tprefix = Some tp \<Longrightarrow> prefix_ok tp"
  shows "length p = visible_length config tprefix s"
proof (cases tprefix)
  case None
  then show ?thesis using assms(1) by (auto simp: project_prediction_def value_input_def visible_length_def result_simps)
next
  case (Some tp)
  then obtain out where o: "prefix_apply tp (vs_token_ids s) = Ok out" "length v = length out" "prefix_project tp v = Ok p"
    using assms(1) by (auto simp: project_prediction_def value_input_def result_simps)
  note pp = prefix_project_apply[OF assms(2)[OF Some] o(1,2)]
  have "tp_insert_at tp \<le> int (length (vs_token_ids s))" "tp_insert_at tp = 0 \<or> tp_insert_at tp = 1"
    using o(1) assms(2)[OF Some] by (auto simp: prefix_apply_def raise_if_def prefix_ok_def split: if_splits)
  then show ?thesis using pp o(2,3) Some by (auto simp: visible_length_def)
qed

lemma project_predictions_length:
  assumes "project_predictions config tprefix ss vs = Ok ps" "length vs = length ss" "\<And>tp. tprefix = Some tp \<Longrightarrow> prefix_ok tp"
  shows "map length ps = map (visible_length config tprefix) ss"
  using assms
proof (induction config tprefix ss vs arbitrary: ps rule: project_predictions.induct)
  case (1 config tprefix s ss v vs)
  then obtain x xs where x: "project_prediction config tprefix s v = Ok x" "project_predictions config tprefix ss vs = Ok xs" "ps = x # xs"
    by (auto simp: result_simps)
  then show ?case using 1(1)[OF x(2)] 1(3) project_prediction_length[OF x(1) 1(4)] 1(4) by simp
qed auto

lemma value_result_parts:
  assumes "compute_value_result traj preds config layout = Ok (vp, adv, ret)" "\<And>tp. vt_prefix traj = Some tp \<Longrightarrow> prefix_ok tp"
  obtains projected where "map length projected = map (visible_length config (vt_prefix traj)) (vt_samples traj)"
    "vp = map2 (\<lambda>s v. v @ replicate (length (vs_token_ids s) - length v) 0) (vt_samples traj) projected"
    "layout = None \<Longrightarrow> traverse (\<lambda>(s, p). sample_credit config (vt_reward traj) s p) (zip (vt_samples traj) projected) = Ok (zip adv ret)
       \<and> length adv = length (vt_samples traj) \<and> length ret = length (vt_samples traj)"
    "\<And>l. layout = Some l \<Longrightarrow> \<exists>fa fr. (\<forall>sp \<in> set (tl_trainable_spans l). ts_sample_index sp < length projected) \<and>
       compute_gae (vt_reward traj) (gather_spans (tl_trainable_spans l) projected)
         (replicate (length (gather_spans (tl_trainable_spans l) projected)) True) (vf_gamma config) (vf_gae_lambda config)
         (vf_value_target_lambda config) = Ok (fa, fr) \<and>
       adv = scatter_spans (tl_trainable_spans l) 0 fa (map (\<lambda>s. replicate (length (vs_token_ids s)) 0) (vt_samples traj)) \<and>
       ret = scatter_spans (tl_trainable_spans l) 0 fr (map (\<lambda>s. replicate (length (vs_token_ids s)) 0) (vt_samples traj))"
proof -
  obtain projected where pr: "length preds = length (vt_samples traj)"
    "project_predictions config (vt_prefix traj) (vt_samples traj) preds = Ok projected"
    using assms(1) by (auto simp: compute_value_result_def result_simps)
  have len: "map length projected = map (visible_length config (vt_prefix traj)) (vt_samples traj)"
    by (rule project_predictions_length[OF pr(2,1) assms(2)])
  show thesis
  proof (rule that[OF len])
    show "vp = map2 (\<lambda>s v. v @ replicate (length (vs_token_ids s) - length v) 0) (vt_samples traj) projected"
      using assms(1) pr by (auto simp: compute_value_result_def result_simps Let_def)
  next
    assume "layout = None"
    then obtain parts where p: "traverse (\<lambda>(s, p). sample_credit config (vt_reward traj) s p) (zip (vt_samples traj) projected) = Ok parts"
      "adv = map fst parts" "ret = map snd parts"
      using assms(1) pr by (auto simp: compute_value_result_def result_simps Let_def)
    moreover have "length parts = length (vt_samples traj)"
      using traverse_length[OF p(1)] map_eq_imp_length_eq[OF len] by simp
    ultimately show "traverse (\<lambda>(s, p). sample_credit config (vt_reward traj) s p) (zip (vt_samples traj) projected) = Ok (zip adv ret)
       \<and> length adv = length (vt_samples traj) \<and> length ret = length (vt_samples traj)"
      by (simp add: zip_map_fst_snd)
  next
    fix l assume "layout = Some l"
    then show "\<exists>fa fr. (\<forall>sp \<in> set (tl_trainable_spans l). ts_sample_index sp < length projected) \<and>
       compute_gae (vt_reward traj) (gather_spans (tl_trainable_spans l) projected)
         (replicate (length (gather_spans (tl_trainable_spans l) projected)) True) (vf_gamma config) (vf_gae_lambda config)
         (vf_value_target_lambda config) = Ok (fa, fr) \<and>
       adv = scatter_spans (tl_trainable_spans l) 0 fa (map (\<lambda>s. replicate (length (vs_token_ids s)) 0) (vt_samples traj)) \<and>
       ret = scatter_spans (tl_trainable_spans l) 0 fr (map (\<lambda>s. replicate (length (vs_token_ids s)) 0) (vt_samples traj))"
      using assms(1) pr by (auto simp: compute_value_result_def result_simps Let_def not_le)
  qed
qed

lemma gather_padded:
  assumes "spans_in spans projected" "length ss = length projected"
  shows "gather_spans spans (map2 (\<lambda>s v. v @ pad s v) ss projected) = gather_spans spans projected"
  unfolding gather_spans_def using assms
  by (intro arg_cong[of _ _ concat] map_cong) (auto simp: spans_in_def)

lemma action_indices_all: "action_indices (replicate n True) = [0..<n]"
  by (simp add: action_indices_def)

lemma compute_gae_all:
  assumes "compute_gae r vals (replicate (length vals) True) g l1 l2 = Ok (fa, fr)"
  shows "fa = gae_list r g l1 vals \<and> fr = map2 (+) (gae_list r g l2 vals) vals"
proof -
  have m: "map ((!) xs) [0..<length vals] = xs" if "length xs = length vals" for xs :: "real list"
    using that map_nth[of xs] by simp
  from compute_gae_spec[of vals "replicate (length vals) True" r g l1 l2] assms
  have "spread (replicate (length vals) True) (gae_list r g l1 vals) fa"
    "spread (replicate (length vals) True) (map2 (+) (gae_list r g l2 vals) vals) fr"
    by (auto simp: action_indices_all map_nth)
  then show ?thesis using m by (auto simp: spread_def action_indices_all)
qed

lemma gather_length: "spans_in spans xs \<Longrightarrow> length (gather_spans spans xs) = total_length spans"
  by (induction spans) (auto simp: gather_spans_def total_length_def spans_in_def)

lemma sequential_layout_visible:
  assumes "sequential_value_layout traj config u sem = Ok (Some l)"
    and "spans_in (tl_trainable_spans l) (map vs_token_ids (vt_samples traj))"
    and "map length projected = map (visible_length config (vt_prefix traj)) (vt_samples traj)"
  shows "spans_in (tl_trainable_spans l) projected"
proof -
  have len: "length projected = length (vt_samples traj)" using map_eq_imp_length_eq[OF assms(3)] .
  have pl: "i < length projected \<Longrightarrow> length (projected ! i) = visible_length config (vt_prefix traj) (vt_samples traj ! i)" for i
    using arg_cong[OF assms(3), of "\<lambda>xs. xs ! i"] len by simp
  show ?thesis
  proof (cases "vt_prefix traj")
    case (Some p)
    then show ?thesis using assms(2) pl len by (auto simp: spans_in_def visible_length_def)
  next
    case None
    then obtain us where tr: "traverse (\<lambda>span. bindE (nth_chk (map (\<lambda>s. min (length (vs_token_ids s)) (vf_seq_len config)) (vt_samples traj)) (ts_sample_index span)) (\<lambda>visible_length.
        raise_if (ts_sample_start span + ts_length span > visible_length)
          (ValueError ''sequential temporal credit requires every trainable token to be visible to the critic'') (Ok ()))) (tl_trainable_spans l) = Ok us"
      using assms(1) by (auto simp: sequential_value_layout_def result_simps Let_def split: if_splits option.splits)
    have "ts_sample_index sp < length (vt_samples traj) \<and>
        ts_sample_start sp + ts_length sp \<le> min (length (vs_token_ids (vt_samples traj ! ts_sample_index sp))) (vf_seq_len config)"
      if "sp \<in> set (tl_trainable_spans l)" for sp
      using traverse_mem[OF tr that] by (auto simp: result_simps not_less)
    then show ?thesis using None pl len by (auto simp: spans_in_def visible_length_def)
  qed
qed

text \<open>When branches are credited sequentially, credit flows across them as along one trajectory:
  read along the layout's spans, the advantages are the GAE recursion of the stitched value
  predictions and the targets its lambda-returns; every position outside the spans is zero and every
  sample keeps its length.\<close>

lemma value_result_stitched:
  assumes "sequential_value_layout traj config u sem = Ok (Some l)"
    and "compute_value_result traj preds config (Some l) = Ok (vp, adv, ret)"
    and "spans_in (tl_trainable_spans l) (map vs_token_ids (vt_samples traj))"
    and "distinct (concat (map sample_cells (tl_trainable_spans l)))"
    and "\<forall>tp. vt_prefix traj = Some tp \<longrightarrow> prefix_ok tp"
  shows "gather_spans (tl_trainable_spans l) adv =
      gae_list (vt_reward traj) (vf_gamma config) (vf_gae_lambda config) (gather_spans (tl_trainable_spans l) vp) \<and>
    gather_spans (tl_trainable_spans l) ret =
      map2 (+) (gae_list (vt_reward traj) (vf_gamma config) (vf_value_target_lambda config) (gather_spans (tl_trainable_spans l) vp))
        (gather_spans (tl_trainable_spans l) vp) \<and>
    map length adv = map (length \<circ> vs_token_ids) (vt_samples traj) \<and>
    (\<forall>i < length adv. \<forall>q < length (adv ! i). (i, q) \<notin> set (concat (map sample_cells (tl_trainable_spans l))) \<longrightarrow> adv ! i ! q = 0)"
proof -
  let ?sp = "tl_trainable_spans l" and ?z = "map (\<lambda>s. replicate (length (vs_token_ids s)) (0 :: real)) (vt_samples traj)"
  have pok: "\<And>tp. vt_prefix traj = Some tp \<Longrightarrow> prefix_ok tp" using assms(5) by blast
  obtain projected where lp: "map length projected = map (visible_length config (vt_prefix traj)) (vt_samples traj)"
    and vp: "vp = map2 (\<lambda>s v. v @ replicate (length (vs_token_ids s) - length v) 0) (vt_samples traj) projected"
    and ex: "\<exists>fa fr. compute_gae (vt_reward traj) (gather_spans ?sp projected) (replicate (length (gather_spans ?sp projected)) True)
       (vf_gamma config) (vf_gae_lambda config) (vf_value_target_lambda config) = Ok (fa, fr) \<and>
       adv = scatter_spans ?sp 0 fa ?z \<and> ret = scatter_spans ?sp 0 fr ?z"
    using value_result_parts[OF assms(2) pok] by (metis (no_types, lifting))
  then obtain fa fr where f: "compute_gae (vt_reward traj) (gather_spans ?sp projected) (replicate (length (gather_spans ?sp projected)) True)
       (vf_gamma config) (vf_gae_lambda config) (vf_value_target_lambda config) = Ok (fa, fr)"
    "adv = scatter_spans ?sp 0 fa ?z" "ret = scatter_spans ?sp 0 fr ?z" by blast
  have si: "spans_in ?sp projected" by (rule sequential_layout_visible[OF assms(1,3) lp])
  have gv: "gather_spans ?sp vp = gather_spans ?sp projected"
    unfolding vp using gather_padded[OF si, of "vt_samples traj"] map_eq_imp_length_eq[OF lp] by simp
  note ga = compute_gae_all[OF f(1)] and gl = gather_length[OF si]
  have z: "spans_in ?sp ?z" using assms(3) by (auto simp: spans_in_def)
  have lf: "length fa = total_length ?sp" "length fr = total_length ?sp" using ga gl by auto
  have "gather_spans ?sp adv = fa" "gather_spans ?sp ret = fr"
    using gather_scatter[OF z _ assms(4), of 0] lf f(2,3) by auto
  moreover note sh = scatter_shape[OF z, of 0 fa]
  have "map length adv = map (length \<circ> vs_token_ids) (vt_samples traj)"
    using sh lf(1) f(2) by (intro nth_equalityI) auto
  moreover have "\<forall>i < length adv. \<forall>q < length (adv ! i). (i, q) \<notin> set (concat (map sample_cells ?sp)) \<longrightarrow> adv ! i ! q = 0"
    using sh lf(1) f(2) by auto
  ultimately show ?thesis using ga gv by simp
qed

definition stitch_layout :: TrainingLayout where
  "stitch_layout = \<lparr>tl_sample_branch_indices = [0, 1], tl_sample_node_indices = [[0], [1]],
     tl_trainable_spans = [\<lparr>ts_node_index = 0, ts_sample_index = 0, ts_node_start = 1, ts_sample_start = 1, ts_length = 1\<rparr>,
       \<lparr>ts_node_index = 1, ts_sample_index = 1, ts_node_start = 0, ts_sample_start = 1, ts_length = 1\<rparr>]\<rparr>"

definition stitch_trajectory :: ValueTrajectory where
  "stitch_trajectory = \<lparr>vt_samples = [\<lparr>vs_token_ids = [1, 2], vs_mask = [False, True], vs_sampled_mask = [False, True]\<rparr>,
       \<lparr>vs_token_ids = [1, 3], vs_mask = [False, True], vs_sampled_mask = [False, True]\<rparr>],
     vt_layout = Some stitch_layout, vt_reward = 1, vt_prefix = None, vt_env_name = ''e'', vt_group_id = ''g'', vt_policy_version = 0\<rparr>"

definition stitch_config :: ValueFunctionConfig where
  "stitch_config = \<lparr>vf_seq_len = 4, vf_gamma = 1 / 2, vf_gae_lambda = 1, vf_value_target_lambda = 1\<rparr>"

lemmas stitch_simps = stitch_layout_def stitch_trajectory_def stitch_config_def

lemma stitch_layout_ok: "sequential_value_layout stitch_trajectory stitch_config True (Some ''sequential'') = Ok (Some stitch_layout)"
  by (simp add: sequential_value_layout_def needs_stitching_def stitch_simps nth_chk_def)

lemma stitch_result_ok: "\<exists>vp adv ret. compute_value_result stitch_trajectory [[0, 3], [0, 5]] stitch_config (Some stitch_layout) = Ok (vp, adv, ret)"
  by (simp add: compute_value_result_def project_prediction_def value_input_def stitch_simps gather_spans_def compute_gae_def Let_def)

lemma value_result_stitched_witness:
  "\<exists>vp adv ret. compute_value_result stitch_trajectory [[0, 3], [0, 5]] stitch_config (Some stitch_layout) = Ok (vp, adv, ret) \<and>
     gather_spans (tl_trainable_spans stitch_layout) adv =
       gae_list 1 (1 / 2) 1 (gather_spans (tl_trainable_spans stitch_layout) vp)"
proof -
  obtain vp adv ret where r: "compute_value_result stitch_trajectory [[0, 3], [0, 5]] stitch_config (Some stitch_layout) = Ok (vp, adv, ret)"
    using stitch_result_ok by blast
  have "spans_in (tl_trainable_spans stitch_layout) (map vs_token_ids (vt_samples stitch_trajectory))"
    "distinct (concat (map sample_cells (tl_trainable_spans stitch_layout)))"
    "\<forall>tp. vt_prefix stitch_trajectory = Some tp \<longrightarrow> prefix_ok tp"
    by (simp_all add: spans_in_def sample_cells_def stitch_simps)
  from value_result_stitched[OF stitch_layout_ok r this] show ?thesis
    using r by (simp add: stitch_trajectory_def stitch_config_def)
qed

end
