(* ===== verification/Value_Service.thy ===== *)
theory Value_Service
  imports Value_Types
begin

text \<open>
  \<^verbatim>\<open>value/service.py\<close>: the bounded FIFO request plane of a value evaluator. Tickets are shared
  mutable objects, so they live in a store (\<open>sv_tickets\<close>) and the queue, the batches and the
  waiting callers hold indices into it. Every method body under \<open>self._condition\<close> is one atomic
  operation; \<open>take_batch\<close> is cut at its two \<open>Condition.wait\<close> calls, \<open>complete\<close>, \<open>fail\<close> and \<open>close\<close>
  where they leave the lock. The interleavings of callers, worker and closer are the step relation
  at the end of the theory.
\<close>

section \<open>Futures and tickets\<close>

text \<open>\<open>concurrent.futures.Future\<close>: the state machine the service relies on.\<close>

datatype future_state =
    Pending
  | Running
  | Cancelled
  | Finished "ValueEvaluationResponse result"

fun fut_done :: "future_state \<Rightarrow> bool" where
  "fut_done Pending = False"
| "fut_done Running = False"
| "fut_done Cancelled = True"
| "fut_done (Finished r) = True"

text \<open>\<open>Future.cancel\<close> returns whether the future is now cancelled.\<close>

fun fut_cancel :: "future_state \<Rightarrow> bool \<times> future_state" where
  "fut_cancel Pending = (True, Cancelled)"
| "fut_cancel Cancelled = (True, Cancelled)"
| "fut_cancel f = (False, f)"

fun set_running_or_notify_cancel :: "future_state \<Rightarrow> (bool \<times> future_state) result" where
  "set_running_or_notify_cancel Pending = Ok (True, Running)"
| "set_running_or_notify_cancel Cancelled = Ok (False, Cancelled)"
| "set_running_or_notify_cancel f = Raise (RuntimeError ''Future in unexpected state'')"

text \<open>\<open>set_result\<close> and \<open>set_exception\<close>.\<close>

fun fut_set :: "ValueEvaluationResponse result \<Rightarrow> future_state \<Rightarrow> future_state result" where
  "fut_set r Pending = Ok (Finished r)"
| "fut_set r Running = Ok (Finished r)"
| "fut_set r f = Raise InvalidStateError"

record RequestTicket =
  tk_request :: ValueEvaluationRequest
  tk_tokens :: int
  tk_admitted_at :: real
  tk_deadline :: real
  tk_future :: future_state
  tk_abandoned :: bool
  tk_released :: bool

section \<open>The service\<close>

record service_metrics =
  sm_admitted :: int
  sm_rejected_full :: int
  sm_expired :: int
  sm_abandoned :: int
  sm_completed :: int
  sm_failed :: int

record ValueRequestService =
  sv_config :: ValueEvaluatorConfig
  sv_seq_len :: int
  sv_vocab_size :: int
  sv_max_request_bytes :: int
  sv_tickets :: "RequestTicket list"
  sv_queue :: "nat list"
  sv_version :: "int option"
  sv_error :: "py_exn option"
  sv_closed :: bool
  sv_pending_requests :: int
  sv_pending_tokens :: int
  sv_metrics :: service_metrics
  sv_max_wait :: real

definition MAX_VALUE_REQUEST_BYTES :: int where
  "MAX_VALUE_REQUEST_BYTES = 16 * 1024 * 1024"

text \<open>\<open>packed_len\<close> is \<open>len(msgspec.msgpack.encode(n))\<close>.\<close>

definition ValueRequestService_init ::
  "(int \<Rightarrow> int) \<Rightarrow> ValueEvaluatorConfig \<Rightarrow> int \<Rightarrow> int \<Rightarrow> int option \<Rightarrow> ValueRequestService" where
  "ValueRequestService_init packed_len config seq_len vocab_size version =
     \<lparr> sv_config = config, sv_seq_len = seq_len, sv_vocab_size = vocab_size,
       sv_max_request_bytes =
         max MAX_VALUE_REQUEST_BYTES (64 + vec_max_pending_tokens config * (packed_len (max (vocab_size - 1) 0) + 1)),
       sv_tickets = [], sv_queue = [], sv_version = version, sv_error = None, sv_closed = False,
       sv_pending_requests = 0, sv_pending_tokens = 0,
       sv_metrics = \<lparr> sm_admitted = 0, sm_rejected_full = 0, sm_expired = 0, sm_abandoned = 0,
                      sm_completed = 0, sm_failed = 0 \<rparr>,
       sv_max_wait = 0 \<rparr>"

abbreviation ticket :: "ValueRequestService \<Rightarrow> nat \<Rightarrow> RequestTicket" where
  "ticket s t \<equiv> sv_tickets s ! t"

abbreviation put_ticket :: "nat \<Rightarrow> RequestTicket \<Rightarrow> ValueRequestService \<Rightarrow> ValueRequestService" where
  "put_ticket t k s \<equiv> s\<lparr> sv_tickets := (sv_tickets s)[t := k] \<rparr>"

definition set_version :: "int \<Rightarrow> ValueRequestService \<Rightarrow> ValueRequestService" where
  "set_version version s = s\<lparr> sv_version := Some version \<rparr>"

definition service_snapshot :: "ValueRequestService \<Rightarrow> int option \<times> py_exn option \<times> bool" where
  "service_snapshot s = (sv_version s, sv_error s, sv_closed s)"

text \<open>\<open>_release\<close>: gives the ticket's share of the limits back, once.\<close>

definition release :: "nat \<Rightarrow> ValueRequestService \<Rightarrow> ValueRequestService" where
  "release t s =
     (if tk_released (ticket s t) then s
      else (put_ticket t ((ticket s t)\<lparr> tk_released := True \<rparr>) s)
             \<lparr> sv_pending_requests := sv_pending_requests s - 1,
               sv_pending_tokens := sv_pending_tokens s - tk_tokens (ticket s t) \<rparr>)"

text \<open>\<open>_validate\<close>, with the first failing sequence deciding.\<close>

fun validate_sequences :: "int \<Rightarrow> int \<Rightarrow> int list list \<Rightarrow> unit result" where
  "validate_sequences seq_len vocab_size [] = Ok ()"
| "validate_sequences seq_len vocab_size (tokens # rest) =
     raise_if (tokens = [] \<or> int (length tokens) > seq_len)
       (ValueError ''value sequence length must be in [1, seq_len]'')
     (raise_if (list_ex (\<lambda>token. token < 0 \<or> token \<ge> vocab_size) tokens)
       (ValueError ''value sequence contains a token outside the model vocabulary'')
     (validate_sequences seq_len vocab_size rest))"

definition validate_request :: "ValueRequestService \<Rightarrow> ValueEvaluationRequest \<Rightarrow> unit result" where
  "validate_request s request =
     raise_if (ver_token_ids request = [])
       (ValueError ''value evaluation request must contain at least one sequence'')
       (validate_sequences (sv_seq_len s) (sv_vocab_size s) (ver_token_ids request))"

definition request_tokens :: "ValueEvaluationRequest \<Rightarrow> int" where
  "request_tokens request = sum_list (map (\<lambda>ts. int (length ts)) (ver_token_ids request))"

text \<open>
  \<open>_submit\<close>. A rejection for lack of room changes the counter before it raises, so the service
  is returned beside the outcome.
\<close>

definition submit :: "real \<Rightarrow> ValueEvaluationRequest \<Rightarrow> ValueRequestService \<Rightarrow> nat result \<times> ValueRequestService" where
  "submit admitted_at request s =
     (case validate_request s request of
        Inl e \<Rightarrow> (Raise e, s)
      | Inr _ \<Rightarrow>
        (let tokens = request_tokens request in
         if tokens > vec_max_pending_tokens (sv_config s)
         then (Raise (ValueRequestTooLarge ''value request has too many tokens''), s)
         else if sv_closed s \<or> sv_error s \<noteq> None \<or> sv_version s = None
         then (Raise (ValueServiceUnavailable ''value evaluator is unavailable''), s)
         else if sv_pending_requests s \<ge> vec_max_pending_requests (sv_config s)
           \<or> sv_pending_tokens s + tokens > vec_max_pending_tokens (sv_config s)
         then (Raise (ValueServiceUnavailable ''value evaluator request queue is full''),
               s\<lparr> sv_metrics := (sv_metrics s)\<lparr> sm_rejected_full := sm_rejected_full (sv_metrics s) + 1 \<rparr> \<rparr>)
         else
           (Ok (length (sv_tickets s)),
            s\<lparr> sv_tickets := sv_tickets s @
                 [\<lparr> tk_request = request, tk_tokens = tokens, tk_admitted_at = admitted_at,
                    tk_deadline = admitted_at + vec_request_timeout (sv_config s),
                    tk_future = Pending, tk_abandoned = False, tk_released = False \<rparr>],
               sv_queue := sv_queue s @ [length (sv_tickets s)],
               sv_pending_requests := sv_pending_requests s + 1,
               sv_pending_tokens := sv_pending_tokens s + tokens,
               sv_metrics := (sv_metrics s)\<lparr> sm_admitted := sm_admitted (sv_metrics s) + 1 \<rparr> \<rparr>)))"

text \<open>\<open>_expire_head\<close>: the loop over overdue heads; one iteration per queued ticket at most.\<close>

definition expire_one :: "nat \<Rightarrow> nat list \<Rightarrow> ValueRequestService \<Rightarrow> ValueRequestService result" where
  "expire_one t rest s =
     (let s1 = release t (s\<lparr> sv_queue := rest \<rparr>);
          s2 = s1\<lparr> sv_metrics := (sv_metrics s1)\<lparr> sm_expired := sm_expired (sv_metrics s1) + 1 \<rparr> \<rparr>
      in if fut_done (tk_future (ticket s2 t)) then Ok s2
         else bindE (fut_set (Raise (ValueRequestTimeout ''value evaluation request timed out'')) (tk_future (ticket s2 t)))
                (\<lambda>f. Ok (put_ticket t ((ticket s2 t)\<lparr> tk_future := f \<rparr>) s2)))"

fun expire_loop :: "real \<Rightarrow> nat list \<Rightarrow> ValueRequestService \<Rightarrow> ValueRequestService result" where
  "expire_loop now [] s = Ok s"
| "expire_loop now (t # rest) s =
     (if tk_deadline (ticket s t) \<le> now then bindE (expire_one t rest s) (expire_loop now rest) else Ok s)"

definition expire_head :: "real \<Rightarrow> ValueRequestService \<Rightarrow> ValueRequestService result" where
  "expire_head now s = expire_loop now (sv_queue s) s"

text \<open>\<open>_take_head\<close>; \<open>popleft\<close> of an empty deque raises IndexError.\<close>

definition take_head :: "ValueRequestService \<Rightarrow> (nat option \<times> ValueRequestService) result" where
  "take_head s =
     (case sv_queue s of
        [] \<Rightarrow> Raise IndexError
      | t # rest \<Rightarrow>
          bindE (set_running_or_notify_cancel (tk_future (ticket s t))) (\<lambda>(ok, f).
            let s1 = put_ticket t ((ticket s t)\<lparr> tk_future := f \<rparr>) (s\<lparr> sv_queue := rest \<rparr>)
            in Ok (if ok then (Some t, s1) else (None, release t s1))))"

definition has_queued :: "real \<Rightarrow> ValueRequestService \<Rightarrow> (bool \<times> ValueRequestService) result" where
  "has_queued now s = bindE (expire_head now s) (\<lambda>s1. Ok (sv_queue s1 \<noteq> [], s1))"

text \<open>
  \<open>take_batch\<close>, cut at its waits. \<open>clk k\<close> is the \<open>k\<close>-th reading of \<open>time.monotonic()\<close> since the
  thread last entered the lock. A phase is what the thread holds while it is blocked, or its result.
\<close>

record ValueRequestBatch =
  vrb_tickets :: "nat list"
  vrb_token_ids :: "int list list"

datatype take_phase =
    BlockedFirst
  | BlockedMore "nat list" int real
  | Taken "ValueRequestBatch option"

definition batch_of :: "ValueRequestService \<Rightarrow> nat list \<Rightarrow> ValueRequestBatch" where
  "batch_of s tickets =
     \<lparr> vrb_tickets = tickets, vrb_token_ids = concat (map (\<lambda>t. ver_token_ids (tk_request (ticket s t))) tickets) \<rparr>"

definition finish_batch :: "real \<Rightarrow> nat list \<Rightarrow> ValueRequestService \<Rightarrow> take_phase \<times> ValueRequestService" where
  "finish_batch now tickets s =
     (Taken (Some (batch_of s tickets)),
      s\<lparr> sv_max_wait := max (sv_max_wait s) (now - tk_admitted_at (ticket s (hd tickets))) \<rparr>)"

text \<open>Sizes of the queue, for the termination of the two loops.\<close>

lemma release_queue [simp]: "sv_queue (release t s) = sv_queue s"
  by (simp add: release_def)

lemma expire_one_queue: "expire_one t rest s = Inr s' \<Longrightarrow> sv_queue s' = rest"
  by (auto simp: expire_one_def Let_def result_simps split: if_splits)

lemma expire_loop_queue: "expire_loop now q s = Inr s' \<Longrightarrow> sv_queue s = q \<Longrightarrow> suffix (sv_queue s') q"
  by (induction now q s rule: expire_loop.induct)
     (auto simp: result_simps split: if_splits dest: expire_one_queue intro: suffix_ConsI)

lemma expire_head_queue: "expire_head now s = Inr s' \<Longrightarrow> suffix (sv_queue s') (sv_queue s)"
  by (auto simp: expire_head_def intro: expire_loop_queue)

lemma take_head_queue: "take_head s = Inr (r, s') \<Longrightarrow> sv_queue s = hd (sv_queue s) # sv_queue s'"
  by (auto simp: take_head_def result_simps Let_def split: list.splits if_splits)

lemma take_after_expire_shrinks:
  "expire_head now s = Inr s1 \<Longrightarrow> take_head s1 = Inr (r, s2) \<Longrightarrow> length (sv_queue s2) < length (sv_queue s)"
  by (metis expire_head_queue take_head_queue suffix_length_le length_Cons less_eq_Suc_le)

function (sequential) coalesce ::
  "(nat \<Rightarrow> real) \<Rightarrow> nat \<Rightarrow> nat list \<Rightarrow> int \<Rightarrow> real \<Rightarrow> bool \<Rightarrow> ValueRequestService \<Rightarrow> (take_phase \<times> ValueRequestService) result" where
  "coalesce clk k tickets tokens batch_deadline waited s =
     (if tokens < vec_max_batch_tokens (sv_config s) then
        (case expire_head (clk k) s of
           Inl e \<Rightarrow> Raise e
         | Inr s1 \<Rightarrow>
           (case sv_queue s1 of
              t # _ \<Rightarrow>
                if waited \<and> tk_admitted_at (ticket s1 t) > batch_deadline
                   \<or> tokens + tk_tokens (ticket s1 t) > vec_max_batch_tokens (sv_config s)
                then Ok (finish_batch (clk (k + 1)) tickets s1)
                else (case take_head s1 of
                        Inl e \<Rightarrow> Raise e
                      | Inr (None, s2) \<Rightarrow> coalesce clk (k + 1) tickets tokens batch_deadline waited s2
                      | Inr (Some t', s2) \<Rightarrow>
                          coalesce clk (k + 1) (tickets @ [t']) (tokens + tk_tokens (ticket s2 t')) batch_deadline waited s2)
            | [] \<Rightarrow>
                if batch_deadline - clk (k + 1) \<le> 0 \<or> sv_closed s1
                then Ok (finish_batch (clk (k + 2)) tickets s1)
                else Ok (BlockedMore tickets tokens batch_deadline, s1)))
      else Ok (finish_batch (clk k) tickets s))"
  by pat_completeness auto
termination
  by (relation "measure (\<lambda>(clk, k, tickets, tokens, bd, waited, s). length (sv_queue s))")
     (auto intro: take_after_expire_shrinks)

function (sequential) seek_first ::
  "(nat \<Rightarrow> real) \<Rightarrow> nat \<Rightarrow> bool \<Rightarrow> ValueRequestService \<Rightarrow> (take_phase \<times> ValueRequestService) result" where
  "seek_first clk k wait_for_first s =
     (case expire_head (clk k) s of
        Inl e \<Rightarrow> Raise e
      | Inr s1 \<Rightarrow>
        (if sv_queue s1 = []
         then Ok (if sv_closed s1 \<or> \<not> wait_for_first then Taken None else BlockedFirst, s1)
         else (case take_head s1 of
                 Inl e \<Rightarrow> Raise e
               | Inr (None, s2) \<Rightarrow> seek_first clk (k + 1) wait_for_first s2
               | Inr (Some t, s2) \<Rightarrow>
                   coalesce clk (k + 1) [t] (tk_tokens (ticket s2 t))
                     (min (tk_admitted_at (ticket s2 t) + vec_batch_wait_ms (sv_config s2) / 1000) (tk_deadline (ticket s2 t)))
                     False s2)))"
  by pat_completeness auto
termination
  by (relation "measure (\<lambda>(clk, k, w, s). length (sv_queue s))")
     (auto intro: take_after_expire_shrinks)

declare coalesce.simps [simp del] seek_first.simps [simp del]

definition take_batch :: "(nat \<Rightarrow> real) \<Rightarrow> bool \<Rightarrow> ValueRequestService \<Rightarrow> (take_phase \<times> ValueRequestService) result" where
  "take_batch clk wait_for_first s = seek_first clk 0 wait_for_first s"

text \<open>What the thread does when the condition wakes it.\<close>

fun take_batch_resume :: "(nat \<Rightarrow> real) \<Rightarrow> take_phase \<Rightarrow> ValueRequestService \<Rightarrow> (take_phase \<times> ValueRequestService) result" where
  "take_batch_resume clk BlockedFirst s = seek_first clk 0 True s"
| "take_batch_resume clk (BlockedMore tickets tokens batch_deadline) s =
     coalesce clk 0 tickets tokens batch_deadline True s"
| "take_batch_resume clk (Taken b) s = Ok (Taken b, s)"

section \<open>Cancelling, answering, closing\<close>

definition cancel :: "nat \<Rightarrow> ValueRequestService \<Rightarrow> (bool \<times> ValueRequestService) result" where
  "cancel t s =
     (if tk_released (ticket s t) then Ok (False, s)
      else if tk_abandoned (ticket s t) then Ok (True, s)
      else (case fut_cancel (tk_future (ticket s t)) of
              (True, f) \<Rightarrow>
                raise_if (t \<notin> set (sv_queue s)) (ValueError ''deque.remove(x): x not in deque'')
                  (let s1 = release t (put_ticket t ((ticket s t)\<lparr> tk_future := f \<rparr>) (s\<lparr> sv_queue := remove1 t (sv_queue s) \<rparr>))
                   in Ok (True, s1\<lparr> sv_metrics := (sv_metrics s1)\<lparr> sm_expired := sm_expired (sv_metrics s1) + 1 \<rparr> \<rparr>))
            | (False, f) \<Rightarrow>
                Ok (True, (put_ticket t ((ticket s t)\<lparr> tk_abandoned := True \<rparr>) s)
                      \<lparr> sv_metrics := (sv_metrics s)\<lparr> sm_abandoned := sm_abandoned (sv_metrics s) + 1 \<rparr> \<rparr>)))"

text \<open>The critical section of \<open>complete\<close> for one ticket, and the whole loop over a batch.\<close>

definition complete_one :: "nat \<Rightarrow> ValueEvaluationResponse \<Rightarrow> ValueRequestService \<Rightarrow> ValueRequestService result" where
  "complete_one t response s =
     (let s1 = release t s in
      if tk_abandoned (ticket s1 t) then Ok s1
      else bindE (fut_set (Ok response) (tk_future (ticket s1 t))) (\<lambda>f.
             Ok ((put_ticket t ((ticket s1 t)\<lparr> tk_future := f \<rparr>) s1)
                   \<lparr> sv_metrics := (sv_metrics s1)\<lparr> sm_completed := sm_completed (sv_metrics s1) + 1 \<rparr> \<rparr>)))"

text \<open>\<open>values[offset : offset + count]\<close> for each ticket in turn.\<close>

fun slice_responses :: "ValueRequestService \<Rightarrow> real list list \<Rightarrow> int \<Rightarrow> nat \<Rightarrow> nat list \<Rightarrow> (nat \<times> ValueEvaluationResponse) list" where
  "slice_responses s vals version offset [] = []"
| "slice_responses s vals version offset (t # ts) =
     (let n = length (ver_token_ids (tk_request (ticket s t)))
      in (t, \<lparr> vresp_values = take n (drop offset vals), vresp_version = version \<rparr>)
         # slice_responses s vals version (offset + n) ts)"

definition response_plan ::
  "ValueRequestBatch \<Rightarrow> real list list \<Rightarrow> int \<Rightarrow> ValueRequestService \<Rightarrow> (nat \<times> ValueEvaluationResponse) list result" where
  "response_plan batch vals version s =
     (let expected = sum_list (map (\<lambda>t. length (ver_token_ids (tk_request (ticket s t)))) (vrb_tickets batch))
      in raise_if (length vals \<noteq> expected) (RuntimeError ''value response has another number of sequences'')
           (Ok (slice_responses s vals version 0 (vrb_tickets batch))))"

fun complete_loop :: "(nat \<times> ValueEvaluationResponse) list \<Rightarrow> ValueRequestService \<Rightarrow> ValueRequestService result" where
  "complete_loop [] s = Ok s"
| "complete_loop ((t, r) # rest) s = bindE (complete_one t r s) (complete_loop rest)"

definition complete ::
  "ValueRequestBatch \<Rightarrow> real list list \<Rightarrow> int \<Rightarrow> ValueRequestService \<Rightarrow> ValueRequestService result" where
  "complete batch vals version s = bindE (response_plan batch vals version s) (\<lambda>plan. complete_loop plan s)"

definition fail_one :: "py_exn \<Rightarrow> nat \<Rightarrow> ValueRequestService \<Rightarrow> ValueRequestService result" where
  "fail_one error t s =
     (let s1 = release t s in
      if tk_abandoned (ticket s1 t) then Ok s1
      else bindE (fut_set (Raise error) (tk_future (ticket s1 t))) (\<lambda>f.
             Ok ((put_ticket t ((ticket s1 t)\<lparr> tk_future := f \<rparr>) s1)
                   \<lparr> sv_metrics := (sv_metrics s1)\<lparr> sm_failed := sm_failed (sv_metrics s1) + 1 \<rparr> \<rparr>)))"

fun fail_loop :: "py_exn \<Rightarrow> nat list \<Rightarrow> ValueRequestService \<Rightarrow> ValueRequestService result" where
  "fail_loop error [] s = Ok s"
| "fail_loop error (t # ts) s = bindE (fail_one error t s) (fail_loop error ts)"

definition fail_batch :: "ValueRequestBatch \<Rightarrow> py_exn \<Rightarrow> ValueRequestService \<Rightarrow> ValueRequestService result" where
  "fail_batch batch error s = fail_loop error (vrb_tickets batch) s"

text \<open>\<open>close\<close>: the section under the lock, then one ticket of the loop after it.\<close>

definition close_locked :: "ValueRequestService \<Rightarrow> nat list \<times> ValueRequestService" where
  "close_locked s =
     (if sv_closed s then ([], s)
      else (sv_queue s, fold release (sv_queue s) (s\<lparr> sv_closed := True, sv_queue := [] \<rparr>)))"

definition close_resolve :: "py_exn \<Rightarrow> nat \<Rightarrow> ValueRequestService \<Rightarrow> ValueRequestService result" where
  "close_resolve error t s =
     (if fut_done (tk_future (ticket s t)) then Ok s
      else bindE (fut_set (Raise error) (tk_future (ticket s t))) (\<lambda>f.
             Ok (put_ticket t ((ticket s t)\<lparr> tk_future := f \<rparr>) s)))"

definition close_error :: "py_exn option \<Rightarrow> py_exn" where
  "close_error error = (case error of Some e \<Rightarrow> e | None \<Rightarrow> ValueServiceUnavailable ''value evaluator is stopping'')"

text \<open>\<open>fail_service\<close> up to its call of \<open>close\<close>.\<close>

definition fail_service_locked :: "py_exn \<Rightarrow> ValueRequestService \<Rightarrow> ValueRequestService" where
  "fail_service_locked error s = s\<lparr> sv_error := Some error \<rparr>"

text \<open>\<open>Future.result\<close>: \<open>None\<close> while it would still block.\<close>

fun future_result :: "future_state \<Rightarrow> ValueEvaluationResponse result option" where
  "future_result (Finished r) = Some r"
| "future_result Cancelled = Some (Raise (RuntimeError ''CancelledError''))"
| "future_result f = None"

text \<open>
  The rest of \<open>submit_and_wait\<close> once \<open>_submit\<close> returned a ticket. \<open>timed_out\<close> says that
  \<open>future.result(timeout=...)\<close> ended in \<open>FutureTimeoutError\<close>; a future that was itself failed with
  a timeout takes the same handler, since that class is Python's TimeoutError.
\<close>

definition await_ticket ::
  "bool \<Rightarrow> nat \<Rightarrow> ValueRequestService \<Rightarrow> (ValueEvaluationResponse result option \<times> ValueRequestService) result" where
  "await_ticket timed_out t s =
     (if timed_out
      then bindE (cancel t s) (\<lambda>(cancelled, s1).
             Ok (if \<not> cancelled then (future_result (tk_future (ticket s1 t)), s1)
                 else (Some (Raise (ValueRequestTimeout ''value evaluation request timed out'')), s1)))
      else Ok (future_result (tk_future (ticket s t)), s))"

record service_gauges =
  sg_pending_requests :: int
  sg_pending_tokens :: int
  sg_oldest_wait_seconds :: real
  sg_max_wait_seconds :: real
  sg_counters :: service_metrics

definition service_gauges_at :: "real \<Rightarrow> ValueRequestService \<Rightarrow> service_gauges" where
  "service_gauges_at now s =
     \<lparr> sg_pending_requests = sv_pending_requests s, sg_pending_tokens = sv_pending_tokens s,
       sg_oldest_wait_seconds = (case sv_queue s of [] \<Rightarrow> 0 | t # _ \<Rightarrow> now - tk_admitted_at (ticket s t)),
       sg_max_wait_seconds = sv_max_wait s, sg_counters = sv_metrics s \<rparr>"

section \<open>The HTTP handler\<close>

datatype HTTPStatus =
    HTTP_OK | BAD_REQUEST | NOT_FOUND | REQUEST_ENTITY_TOO_LARGE
  | INTERNAL_SERVER_ERROR | SERVICE_UNAVAILABLE | GATEWAY_TIMEOUT

datatype http_payload = Plain string | VersionBody int | ResponseBody ValueEvaluationResponse | ErrorText py_exn

definition do_GET :: "string \<Rightarrow> ValueRequestService \<Rightarrow> HTTPStatus \<times> http_payload" where
  "do_GET path s =
     (case service_snapshot s of (version, error, is_closed) \<Rightarrow>
        if path = ''/health'' then
          (if error \<noteq> None \<or> is_closed \<or> version = None
           then (SERVICE_UNAVAILABLE, Plain ''value evaluator unavailable'') else (HTTP_OK, Plain ''ok''))
        else if path = ''/version'' then
          (if error \<noteq> None \<or> is_closed \<or> version = None
           then (SERVICE_UNAVAILABLE, Plain ''value evaluator unavailable'') else (HTTP_OK, VersionBody (the version)))
        else (NOT_FOUND, Plain ''not found''))"

text \<open>The chain of \<open>except\<close> clauses of \<open>do_POST\<close>.\<close>

fun error_status :: "py_exn \<Rightarrow> HTTPStatus" where
  "error_status (ValueRequestTooLarge m) = REQUEST_ENTITY_TOO_LARGE"
| "error_status (ValueRequestTimeout m) = GATEWAY_TIMEOUT"
| "error_status (ValueServiceUnavailable m) = SERVICE_UNAVAILABLE"
| "error_status (ValueError m) = BAD_REQUEST"
| "error_status (DecodeError m) = BAD_REQUEST"
| "error_status e = INTERNAL_SERVER_ERROR"

text \<open>
  \<open>do_POST\<close>. \<open>int_of\<close> is \<open>int(raw_length)\<close>, \<open>decode\<close> the MsgPack decoder applied to the bytes
  \<open>body length\<close> that \<open>rfile.read(length)\<close> returns, \<open>serve\<close> the call of \<open>submit_and_wait\<close>.
\<close>

definition do_POST ::
  "(string \<Rightarrow> int result) \<Rightarrow> ('b \<Rightarrow> ValueEvaluationRequest result) \<Rightarrow> (int \<Rightarrow> 'b) \<Rightarrow>
   (ValueEvaluationRequest \<Rightarrow> ValueEvaluationResponse result) \<Rightarrow> int \<Rightarrow> string \<Rightarrow> string option \<Rightarrow> HTTPStatus \<times> http_payload" where
  "do_POST int_of decode body serve max_request_bytes path raw_length =
     (if path \<noteq> ''/evaluate'' then (NOT_FOUND, Plain ''not found'')
      else
        (case (case raw_length of
                 None \<Rightarrow> Raise (ValueError ''missing content-length'')
               | Some raw \<Rightarrow> bindE (int_of raw) (\<lambda>len.
                   raise_if (len \<le> 0) (ValueError ''content-length must be positive'')
                   (raise_if (len > max_request_bytes) (ValueRequestTooLarge ''value request body is too large'')
                   (bindE (decode (body len)) serve)))) of
           Inr response \<Rightarrow> (HTTP_OK, ResponseBody response)
         | Inl error \<Rightarrow> (error_status error, ErrorText error)))"

section \<open>Accounting invariant\<close>

definition answered :: "RequestTicket \<Rightarrow> bool" where
  "answered k = (case tk_future k of Finished (Inr _) \<Rightarrow> True | _ \<Rightarrow> False)"

definition live_requests :: "RequestTicket list \<Rightarrow> int" where
  "live_requests ks = sum_list (map (\<lambda>k. if tk_released k then 0 else 1) ks)"

definition live_tokens :: "RequestTicket list \<Rightarrow> int" where
  "live_tokens ks = sum_list (map (\<lambda>k. if tk_released k then 0 else tk_tokens k) ks)"

definition answered_count :: "RequestTicket list \<Rightarrow> int" where
  "answered_count ks = sum_list (map (\<lambda>k. if answered k then 1 else 0) ks)"

text \<open>
  The state of a ticket is determined by who holds it: the queue, the worker, the closer, or nobody.
\<close>

definition ticket_ok :: "RequestTicket \<Rightarrow> bool \<Rightarrow> bool \<Rightarrow> bool \<Rightarrow> bool" where
  "ticket_ok k queued held closing \<longleftrightarrow>
     (queued \<longrightarrow> tk_future k = Pending \<and> \<not> tk_released k \<and> \<not> tk_abandoned k \<and> \<not> held \<and> \<not> closing) \<and>
     (held \<longrightarrow> tk_future k = Running \<and> \<not> tk_released k \<and> \<not> closing) \<and>
     (closing \<longrightarrow> tk_future k = Pending \<and> tk_released k \<and> \<not> tk_abandoned k) \<and>
     (\<not> queued \<and> \<not> held \<and> \<not> closing \<longrightarrow> tk_released k \<and> (fut_done (tk_future k) \<or> tk_abandoned k)) \<and>
     (tk_abandoned k \<longrightarrow> tk_future k = Running) \<and>
     tk_tokens k = request_tokens (tk_request k)"

definition service_inv :: "nat list \<Rightarrow> nat list \<Rightarrow> nat list \<Rightarrow> ValueRequestService \<Rightarrow> bool" where
  "service_inv q r c s \<longleftrightarrow>
     sorted_wrt (<) (r @ q) \<and> distinct c \<and> set (r @ q @ c) \<subseteq> {..<length (sv_tickets s)} \<and>
     (\<forall>t < length (sv_tickets s). ticket_ok (ticket s t) (t \<in> set q) (t \<in> set r) (t \<in> set c)) \<and>
     sv_pending_requests s = live_requests (sv_tickets s) \<and> sv_pending_tokens s = live_tokens (sv_tickets s) \<and>
     sm_completed (sv_metrics s) = answered_count (sv_tickets s) \<and>
     sm_admitted (sv_metrics s) = int (length (sv_tickets s)) \<and>
     sv_pending_requests s \<le> vec_max_pending_requests (sv_config s) \<and>
     sv_pending_tokens s \<le> vec_max_pending_tokens (sv_config s)"

text \<open>What no operation changes of a ticket.\<close>

definition statics :: "ValueRequestService \<Rightarrow> (ValueEvaluationRequest \<times> int) list" where
  "statics s = map (\<lambda>k. (tk_request k, tk_tokens k)) (sv_tickets s)"

definition same_statics :: "ValueRequestService \<Rightarrow> ValueRequestService \<Rightarrow> bool" where
  "same_statics s s' \<longleftrightarrow> statics s' = statics s \<and> sv_config s' = sv_config s"

lemma sum_list_int_update:
  fixes f :: "'a \<Rightarrow> int"
  shows "t < length ks \<Longrightarrow> sum_list (map f (ks[t := k])) = sum_list (map f ks) - f (ks ! t) + f k"
  by (induction ks arbitrary: t) (auto split: nat.splits)

lemma live_update:
  assumes "t < length ks"
  shows "live_requests (ks[t := k]) = live_requests ks - (if tk_released (ks ! t) then 0 else 1) + (if tk_released k then 0 else 1)"
    and "live_tokens (ks[t := k]) = live_tokens ks - (if tk_released (ks ! t) then 0 else tk_tokens (ks ! t)) + (if tk_released k then 0 else tk_tokens k)"
    and "answered_count (ks[t := k]) = answered_count ks - (if answered (ks ! t) then 1 else 0) + (if answered k then 1 else 0)"
  using assms by (simp_all add: live_requests_def live_tokens_def answered_count_def sum_list_int_update)

lemma request_tokens_nonneg: "0 \<le> request_tokens r"
  unfolding request_tokens_def by (rule sum_list_nonneg_int) simp

text \<open>
  One ticket changes hands: all operations but \<open>_submit\<close> are compositions of such moves.
\<close>

lemma service_inv_move:
  assumes inv: "service_inv q r c s" and t: "t < length (sv_tickets s)"
    and tickets: "sv_tickets s' = (sv_tickets s)[t := k]"
    and static: "tk_request k = tk_request (ticket s t)" "tk_tokens k = tk_tokens (ticket s t)"
    and config: "sv_config s' = sv_config s"
    and order: "sorted_wrt (<) (r' @ q')" "distinct c'"
    and members: "set q' - {t} = set q - {t}" "set r' - {t} = set r - {t}" "set c' - {t} = set c - {t}"
    and ok: "ticket_ok k (t \<in> set q') (t \<in> set r') (t \<in> set c')"
    and mono: "tk_released (ticket s t) \<longrightarrow> tk_released k"
    and pending: "sv_pending_requests s' = sv_pending_requests s - (if tk_released k \<and> \<not> tk_released (ticket s t) then 1 else 0)"
      "sv_pending_tokens s' = sv_pending_tokens s - (if tk_released k \<and> \<not> tk_released (ticket s t) then tk_tokens k else 0)"
    and metrics: "sm_admitted (sv_metrics s') = sm_admitted (sv_metrics s)"
      "sm_completed (sv_metrics s') = sm_completed (sv_metrics s) + (if answered k then 1 else 0) - (if answered (ticket s t) then 1 else 0)"
  shows "service_inv q' r' c' s' \<and> same_statics s s'"
proof
  have mem: "u \<noteq> t \<Longrightarrow> (u \<in> set q' \<longleftrightarrow> u \<in> set q) \<and> (u \<in> set r' \<longleftrightarrow> u \<in> set r) \<and> (u \<in> set c' \<longleftrightarrow> u \<in> set c)" for u
    using members by blast
  have n: "length (sv_tickets s') = length (sv_tickets s)" by (simp add: tickets)
  have nn: "0 \<le> tk_tokens k" using ok by (simp add: ticket_ok_def request_tokens_nonneg)
  have bounds: "set (r' @ q' @ c') \<subseteq> {..<length (sv_tickets s')}"
  proof
    fix u assume u: "u \<in> set (r' @ q' @ c')"
    show "u \<in> {..<length (sv_tickets s')}"
    proof (cases "u = t")
      case False
      then have "u \<in> set (r @ q @ c)" using mem u by auto
      moreover have "set (r @ q @ c) \<subseteq> {..<length (sv_tickets s)}" using inv unfolding service_inv_def by (elim conjE)
      ultimately show ?thesis unfolding n by (rule set_mp[rotated])
    qed (use t n in simp)
  qed
  have each: "ticket_ok (ticket s' u) (u \<in> set q') (u \<in> set r') (u \<in> set c')" if "u < length (sv_tickets s')" for u
  proof (cases "u = t")
    case True
    then show ?thesis using ok t by (simp add: tickets)
  next
    case False
    have "ticket_ok (ticket s u) (u \<in> set q) (u \<in> set r) (u \<in> set c)"
      using inv that n by (simp add: service_inv_def)
    then show ?thesis using False mem[OF False] by (simp add: tickets)
  qed
  have req: "sv_pending_requests s' = live_requests (sv_tickets s')"
    and tok: "sv_pending_tokens s' = live_tokens (sv_tickets s')"
    and ans: "sm_completed (sv_metrics s') = answered_count (sv_tickets s')"
    using inv mono pending metrics(2) static(2) unfolding tickets live_update[OF t] service_inv_def
    by (auto split: if_splits)
  have lim: "sv_pending_requests s' \<le> sv_pending_requests s" "sv_pending_tokens s' \<le> sv_pending_tokens s"
    using pending nn by auto
  show "service_inv q' r' c' s'"
    unfolding service_inv_def
    by (intro conjI allI impI order bounds each req tok ans)
       (use inv lim metrics(1) n config in \<open>auto simp: service_inv_def\<close>)
  show "same_statics s s'"
    using t by (auto simp: same_statics_def statics_def tickets config static list_eq_iff_nth_eq nth_list_update)
qed

lemma service_inv_ticket:
  "service_inv q r c s \<Longrightarrow> t < length (sv_tickets s) \<Longrightarrow> ticket_ok (ticket s t) (t \<in> set q) (t \<in> set r) (t \<in> set c)"
  by (simp add: service_inv_def)

lemma service_inv_queued:
  assumes "service_inv q r c s" "t \<in> set q"
  shows "t < length (sv_tickets s)" "tk_future (ticket s t) = Pending" "\<not> tk_released (ticket s t)"
    "\<not> tk_abandoned (ticket s t)" "t \<notin> set r" "t \<notin> set c"
    "tk_tokens (ticket s t) = request_tokens (tk_request (ticket s t))"
proof -
  show t: "t < length (sv_tickets s)" using assms by (auto simp: service_inv_def)
  from service_inv_ticket[OF assms(1) t] show "tk_future (ticket s t) = Pending" "\<not> tk_released (ticket s t)"
    "\<not> tk_abandoned (ticket s t)" "t \<notin> set r" "t \<notin> set c"
    "tk_tokens (ticket s t) = request_tokens (tk_request (ticket s t))"
    using assms(2) by (auto simp: ticket_ok_def)
qed

lemma service_inv_held:
  assumes "service_inv q r c s" "t \<in> set r"
  shows "t < length (sv_tickets s)" "tk_future (ticket s t) = Running" "\<not> tk_released (ticket s t)"
    "t \<notin> set q" "t \<notin> set c" "tk_tokens (ticket s t) = request_tokens (tk_request (ticket s t))"
proof -
  show t: "t < length (sv_tickets s)" using assms by (auto simp: service_inv_def)
  from service_inv_ticket[OF assms(1) t] show "tk_future (ticket s t) = Running" "\<not> tk_released (ticket s t)" "t \<notin> set q" "t \<notin> set c"
    "tk_tokens (ticket s t) = request_tokens (tk_request (ticket s t))"
    using assms(2) by (auto simp: ticket_ok_def)
qed

lemma service_inv_closing:
  assumes "service_inv q r c s" "t \<in> set c"
  shows "t < length (sv_tickets s)" "tk_future (ticket s t) = Pending" "tk_released (ticket s t)"
    "\<not> tk_abandoned (ticket s t)" "t \<notin> set q" "t \<notin> set r"
    "tk_tokens (ticket s t) = request_tokens (tk_request (ticket s t))"
proof -
  show t: "t < length (sv_tickets s)" using assms by (auto simp: service_inv_def)
  from service_inv_ticket[OF assms(1) t] show "tk_future (ticket s t) = Pending" "tk_released (ticket s t)"
    "\<not> tk_abandoned (ticket s t)" "t \<notin> set q" "t \<notin> set r"
    "tk_tokens (ticket s t) = request_tokens (tk_request (ticket s t))"
    using assms(2) by (auto simp: ticket_ok_def)
qed

lemma service_inv_order: "service_inv q r c s \<Longrightarrow> sorted_wrt (<) (r @ q)" "service_inv q r c s \<Longrightarrow> distinct c"
  by (simp_all add: service_inv_def)

text \<open>What every operation but \<open>_submit\<close> and \<open>close\<close> leaves alone.\<close>

definition keeps :: "ValueRequestService \<Rightarrow> ValueRequestService \<Rightarrow> bool" where
  "keeps s s' \<longleftrightarrow> same_statics s s' \<and> sv_closed s' = sv_closed s"

lemma keeps_refl [simp]: "keeps s s"
  by (simp add: keeps_def same_statics_def)

lemma keeps_trans: "keeps s s' \<Longrightarrow> keeps s' s'' \<Longrightarrow> keeps s s''"
  by (simp add: keeps_def same_statics_def)

lemma release_live:
  "\<not> tk_released (ticket s t) \<Longrightarrow>
   release t s = (put_ticket t ((ticket s t)\<lparr> tk_released := True \<rparr>) s)
     \<lparr> sv_pending_requests := sv_pending_requests s - 1,
       sv_pending_tokens := sv_pending_tokens s - tk_tokens (ticket s t) \<rparr>"
  by (simp add: release_def)

lemma expire_one_ok:
  assumes inv: "service_inv (t # q) r c s"
  shows "\<exists>s'. expire_one t q s = Ok s' \<and> sv_queue s' = q \<and> service_inv q r c s' \<and> keeps s s'"
proof -
  note f = service_inv_queued[OF inv list.set_intros(1)]
  define k where "k = (ticket s t)\<lparr> tk_released := True,
    tk_future := Finished (Raise (ValueRequestTimeout ''value evaluation request timed out'')) \<rparr>"
  define s' where "s' = s\<lparr> sv_tickets := (sv_tickets s)[t := k], sv_queue := q,
    sv_pending_requests := sv_pending_requests s - 1, sv_pending_tokens := sv_pending_tokens s - tk_tokens (ticket s t),
    sv_metrics := (sv_metrics s)\<lparr> sm_expired := sm_expired (sv_metrics s) + 1 \<rparr> \<rparr>"
  have "t \<notin> set q" using service_inv_order(1)[OF inv] by (auto simp: sorted_wrt_append)
  have run: "expire_one t q s = Ok s'"
    using f by (simp add: expire_one_def release_live Let_def s'_def k_def)
  have "service_inv q r c s' \<and> same_statics s s'"
    by (rule service_inv_move[OF inv f(1), where k = k])
       (use f \<open>t \<notin> set q\<close> service_inv_order[OF inv] in
         \<open>auto simp: s'_def k_def ticket_ok_def answered_def sorted_wrt_append\<close>)
  then show ?thesis using run by (simp add: keeps_def s'_def)
qed

lemma expire_loop_ok:
  "service_inv q r c s \<Longrightarrow> sv_queue s = q \<Longrightarrow>
   \<exists>s'. expire_loop now q s = Ok s' \<and> service_inv (sv_queue s') r c s' \<and> keeps s s'"
proof (induction now q s rule: expire_loop.induct)
  case (2 now t rest s)
  show ?case
  proof (cases "tk_deadline (ticket s t) \<le> now")
    case True
    obtain s1 where s1: "expire_one t rest s = Ok s1" "sv_queue s1 = rest" "service_inv rest r c s1" "keeps s s1"
      using expire_one_ok[OF 2(2)] by blast
    obtain s2 where "expire_loop now rest s1 = Ok s2" "service_inv (sv_queue s2) r c s2" "keeps s1 s2"
      using 2(1)[OF True s1(3,2)] by blast
    then show ?thesis using True s1 keeps_trans by auto
  qed (use 2 in auto)
qed auto

lemma expire_head_ok:
  "service_inv (sv_queue s) r c s \<Longrightarrow>
   \<exists>s'. expire_head now s = Ok s' \<and> service_inv (sv_queue s') r c s' \<and> keeps s s'"
  unfolding expire_head_def by (rule expire_loop_ok) auto

lemma take_head_ok:
  assumes inv: "service_inv (sv_queue s) r c s" and q: "sv_queue s = t # q"
  shows "\<exists>s'. take_head s = Ok (Some t, s') \<and> sv_queue s' = q \<and> service_inv q (r @ [t]) c s' \<and> keeps s s'"
proof -
  note inv = inv[unfolded q]
  note f = service_inv_queued[OF inv list.set_intros(1)]
  define k where "k = (ticket s t)\<lparr> tk_future := Running \<rparr>"
  define s' where "s' = s\<lparr> sv_tickets := (sv_tickets s)[t := k], sv_queue := q \<rparr>"
  have nq: "t \<notin> set q" using service_inv_order(1)[OF inv] by (auto simp: sorted_wrt_append)
  have run: "take_head s = Ok (Some t, s')"
    using f by (simp add: take_head_def q Let_def s'_def k_def)
  have "service_inv q (r @ [t]) c s' \<and> same_statics s s'"
    by (rule service_inv_move[OF inv f(1), where k = k])
       (use f nq service_inv_order[OF inv] in
         \<open>auto simp: s'_def k_def ticket_ok_def answered_def sorted_wrt_append\<close>)
  then show ?thesis using run by (simp add: keeps_def s'_def)
qed

lemma cancel_ok:
  assumes inv: "service_inv (sv_queue s) r c s" and t: "t < length (sv_tickets s)"
  shows "\<exists>b s'. cancel t s = Ok (b, s') \<and> service_inv (sv_queue s') r c s' \<and> keeps s s' \<and>
     set (sv_queue s') \<subseteq> set (sv_queue s)"
proof -
  have ok: "ticket_ok (ticket s t) (t \<in> set (sv_queue s)) (t \<in> set r) (t \<in> set c)"
    using inv t by (simp add: service_inv_def)
  consider (none) "tk_released (ticket s t) \<or> tk_abandoned (ticket s t)"
    | (queued) "t \<in> set (sv_queue s)" | (held) "t \<in> set r" "\<not> tk_abandoned (ticket s t)" "\<not> tk_released (ticket s t)"
    using ok by (auto simp: ticket_ok_def)
  then show ?thesis
  proof cases
    case none
    then show ?thesis using inv by (auto simp: cancel_def)
  next
    case queued
    note f = service_inv_queued[OF inv queued]
    define k where "k = (ticket s t)\<lparr> tk_future := Cancelled, tk_released := True \<rparr>"
    define s' where "s' = s\<lparr> sv_tickets := (sv_tickets s)[t := k], sv_queue := remove1 t (sv_queue s),
      sv_pending_requests := sv_pending_requests s - 1, sv_pending_tokens := sv_pending_tokens s - tk_tokens (ticket s t),
      sv_metrics := (sv_metrics s)\<lparr> sm_expired := sm_expired (sv_metrics s) + 1 \<rparr> \<rparr>"
    have run: "cancel t s = Ok (True, s')"
      using f queued by (simp add: cancel_def release_live Let_def s'_def k_def)
    have srt: "sorted_wrt (<) (r @ sv_queue s)" by (rule service_inv_order(1)[OF inv])
    then have d: "distinct (sv_queue s)" by (simp add: sorted_wrt_append strict_sorted_iff)
    have srt': "sorted_wrt (<) (r @ remove1 t (sv_queue s))"
      using srt d by (auto simp: sorted_wrt_append distinct_remove1_removeAll removeAll_filter_not_eq sorted_wrt_filter)
    have "service_inv (remove1 t (sv_queue s)) r c s' \<and> same_statics s s'"
      by (rule service_inv_move[OF inv f(1), where k = k])
         (use f srt' d service_inv_order[OF inv] in \<open>auto simp: s'_def k_def ticket_ok_def answered_def\<close>)
    then show ?thesis using run by (auto simp: keeps_def s'_def dest: subsetD[OF set_remove1_subset])
  next
    case held
    note f = service_inv_held[OF inv held(1)]
    define k where "k = (ticket s t)\<lparr> tk_abandoned := True \<rparr>"
    define s' where "s' = s\<lparr> sv_tickets := (sv_tickets s)[t := k],
      sv_metrics := (sv_metrics s)\<lparr> sm_abandoned := sm_abandoned (sv_metrics s) + 1 \<rparr> \<rparr>"
    have run: "cancel t s = Ok (True, s')"
      using f held by (simp add: cancel_def s'_def k_def)
    have "service_inv (sv_queue s) r c s' \<and> same_statics s s'"
      by (rule service_inv_move[OF inv f(1), where k = k])
         (use f held service_inv_order[OF inv] in \<open>auto simp: s'_def k_def ticket_ok_def answered_def\<close>)
    then show ?thesis using run by (auto simp: keeps_def s'_def)
  qed
qed

text \<open>Answering the first held ticket, with a result or an error.\<close>

lemma complete_one_ok:
  assumes inv: "service_inv (sv_queue s) (t # r) c s"
  shows "\<exists>s'. complete_one t resp s = Ok s' \<and> sv_queue s' = sv_queue s \<and> service_inv (sv_queue s) r c s' \<and> keeps s s' \<and>
     tk_future (ticket s' t) = (if tk_abandoned (ticket s t) then Running else Finished (Ok resp)) \<and>
     (\<forall>u. u \<noteq> t \<longrightarrow> ticket s' u = ticket s u)"
proof -
  note f = service_inv_held[OF inv list.set_intros(1)]
  define k where "k = (ticket s t)\<lparr> tk_released := True,
    tk_future := (if tk_abandoned (ticket s t) then Running else Finished (Ok resp)) \<rparr>"
  define s' where "s' = s\<lparr> sv_tickets := (sv_tickets s)[t := k],
    sv_pending_requests := sv_pending_requests s - 1, sv_pending_tokens := sv_pending_tokens s - tk_tokens (ticket s t),
    sv_metrics := (if tk_abandoned (ticket s t) then sv_metrics s
                   else (sv_metrics s)\<lparr> sm_completed := sm_completed (sv_metrics s) + 1 \<rparr>) \<rparr>"
  have nr: "t \<notin> set r" using service_inv_order(1)[OF inv] by auto
  have k_ab: "k = (ticket s t)\<lparr> tk_released := True \<rparr>" if "tk_abandoned (ticket s t)"
    using f that by (simp add: k_def)
  have run: "complete_one t resp s = Ok s'"
    using f by (cases "tk_abandoned (ticket s t)") (simp_all add: complete_one_def release_live Let_def s'_def k_ab, simp add: k_def)
  have "service_inv (sv_queue s) r c s' \<and> same_statics s s'"
    by (rule service_inv_move[OF inv f(1), where k = k])
       (use f nr service_inv_order[OF inv] in
         \<open>auto simp: s'_def k_def ticket_ok_def answered_def sorted_wrt_append\<close>)
  then show ?thesis using run f(1) by (auto simp: keeps_def s'_def k_def)
qed

lemma fail_one_ok:
  assumes inv: "service_inv (sv_queue s) (t # r) c s"
  shows "\<exists>s'. fail_one e t s = Ok s' \<and> sv_queue s' = sv_queue s \<and> service_inv (sv_queue s) r c s' \<and> keeps s s' \<and>
     tk_future (ticket s' t) = (if tk_abandoned (ticket s t) then Running else Finished (Raise e)) \<and>
     (\<forall>u. u \<noteq> t \<longrightarrow> ticket s' u = ticket s u)"
proof -
  note f = service_inv_held[OF inv list.set_intros(1)]
  define k where "k = (ticket s t)\<lparr> tk_released := True,
    tk_future := (if tk_abandoned (ticket s t) then Running else Finished (Raise e)) \<rparr>"
  define s' where "s' = s\<lparr> sv_tickets := (sv_tickets s)[t := k],
    sv_pending_requests := sv_pending_requests s - 1, sv_pending_tokens := sv_pending_tokens s - tk_tokens (ticket s t),
    sv_metrics := (if tk_abandoned (ticket s t) then sv_metrics s
                   else (sv_metrics s)\<lparr> sm_failed := sm_failed (sv_metrics s) + 1 \<rparr>) \<rparr>"
  have nr: "t \<notin> set r" using service_inv_order(1)[OF inv] by auto
  have k_ab: "k = (ticket s t)\<lparr> tk_released := True \<rparr>" if "tk_abandoned (ticket s t)"
    using f that by (simp add: k_def)
  have run: "fail_one e t s = Ok s'"
    using f by (cases "tk_abandoned (ticket s t)") (simp_all add: fail_one_def release_live Let_def s'_def k_ab, simp add: k_def)
  have "service_inv (sv_queue s) r c s' \<and> same_statics s s'"
    by (rule service_inv_move[OF inv f(1), where k = k])
       (use f nr service_inv_order[OF inv] in
         \<open>auto simp: s'_def k_def ticket_ok_def answered_def sorted_wrt_append\<close>)
  then show ?thesis using run f(1) by (auto simp: keeps_def s'_def k_def)
qed

lemma release_queued_ok:
  assumes inv: "service_inv (t # q) r c s"
  shows "service_inv q r (c @ [t]) (release t s) \<and> same_statics s (release t s)"
proof -
  note f = service_inv_queued[OF inv list.set_intros(1)]
  have nq: "t \<notin> set q" using service_inv_order(1)[OF inv] by (auto simp: sorted_wrt_append)
  show ?thesis
    by (rule service_inv_move[OF inv f(1), where k = "(ticket s t)\<lparr> tk_released := True \<rparr>"])
       (use f nq service_inv_order[OF inv] in \<open>auto simp: release_live ticket_ok_def answered_def sorted_wrt_append\<close>)
qed

lemma fold_release_ok:
  "service_inv q r c s \<Longrightarrow> service_inv [] r (c @ q) (fold release q s) \<and> same_statics s (fold release q s)"
proof (induction q arbitrary: c s)
  case (Cons t q)
  have a: "service_inv q r (c @ [t]) (release t s)" "same_statics s (release t s)"
    using release_queued_ok[OF Cons.prems] by auto
  from Cons.IH[OF a(1)] a(2) show ?case by (auto simp: same_statics_def)
qed (auto simp: same_statics_def)

lemma service_inv_cong:
  "service_inv q r c s \<Longrightarrow> sv_tickets s' = sv_tickets s \<Longrightarrow> sv_config s' = sv_config s \<Longrightarrow>
   sv_pending_requests s' = sv_pending_requests s \<Longrightarrow> sv_pending_tokens s' = sv_pending_tokens s \<Longrightarrow>
   sm_completed (sv_metrics s') = sm_completed (sv_metrics s) \<Longrightarrow> sm_admitted (sv_metrics s') = sm_admitted (sv_metrics s) \<Longrightarrow>
   service_inv q r c s' \<and> same_statics s s'"
  by (simp add: service_inv_def same_statics_def statics_def)

lemma fold_release_fields:
  "sv_queue (fold release q s) = sv_queue s" "sv_closed (fold release q s) = sv_closed s"
  by (induction q arbitrary: s) (simp_all add: release_def)

lemma close_locked_ok:
  assumes inv: "service_inv (sv_queue s) r c s" and run: "close_locked s = (ts, s')"
  shows "service_inv (sv_queue s') r (c @ ts) s' \<and> same_statics s s' \<and> sv_closed s' \<and>
     (\<not> sv_closed s \<longrightarrow> sv_queue s' = []) \<and> (sv_closed s \<longrightarrow> s' = s \<and> ts = [])"
proof (cases "sv_closed s")
  case False
  let ?s = "s\<lparr> sv_closed := True, sv_queue := [] \<rparr>"
  have "service_inv (sv_queue s) r c ?s" "same_statics s ?s" using service_inv_cong[OF inv, of ?s] by auto
  then show ?thesis
    using fold_release_ok[of "sv_queue s" r c ?s] run False
    by (auto simp: close_locked_def fold_release_fields same_statics_def)
qed (use inv run in \<open>auto simp: close_locked_def same_statics_def\<close>)

lemma close_resolve_ok:
  assumes inv: "service_inv (sv_queue s) r (t # c) s"
  shows "\<exists>s'. close_resolve e t s = Ok s' \<and> sv_queue s' = sv_queue s \<and> service_inv (sv_queue s) r c s' \<and> keeps s s'"
proof -
  note f = service_inv_closing[OF inv list.set_intros(1)]
  define k where "k = (ticket s t)\<lparr> tk_future := Finished (Raise e) \<rparr>"
  have run: "close_resolve e t s = Ok (put_ticket t k s)"
    using f by (simp add: close_resolve_def k_def)
  have "service_inv (sv_queue s) r c (put_ticket t k s) \<and> same_statics s (put_ticket t k s)"
    by (rule service_inv_move[OF inv f(1), where k = k])
       (use f service_inv_order[OF inv] in \<open>auto simp: k_def ticket_ok_def answered_def\<close>)
  then show ?thesis using run by (simp add: keeps_def)
qed

lemma live_snoc:
  "live_requests (ks @ [k]) = live_requests ks + (if tk_released k then 0 else 1)"
  "live_tokens (ks @ [k]) = live_tokens ks + (if tk_released k then 0 else tk_tokens k)"
  "answered_count (ks @ [k]) = answered_count ks + (if answered k then 1 else 0)"
  by (simp_all add: live_requests_def live_tokens_def answered_count_def)

text \<open>Admission: the statics only grow, and a refusal changes at most the refusal counter.\<close>

lemma submit_ok:
  assumes inv: "service_inv (sv_queue s) r c s" and run: "submit now req s = (res, s')"
  shows "service_inv (sv_queue s') r c s' \<and> prefix (statics s) (statics s') \<and> sv_config s' = sv_config s \<and>
    sv_closed s' = sv_closed s \<and> (sv_queue s' = sv_queue s \<or> \<not> sv_closed s)"
proof (cases "\<exists>t. res = Ok t")
  case False
  then have "sv_queue s' = sv_queue s \<and> sv_tickets s' = sv_tickets s \<and> sv_config s' = sv_config s \<and>
     sv_pending_requests s' = sv_pending_requests s \<and> sv_pending_tokens s' = sv_pending_tokens s \<and>
     sm_completed (sv_metrics s') = sm_completed (sv_metrics s) \<and> sm_admitted (sv_metrics s') = sm_admitted (sv_metrics s) \<and>
     sv_closed s' = sv_closed s"
    using run by (auto simp: submit_def Let_def split: sum.splits if_splits)
  then show ?thesis using service_inv_cong[OF inv, of s'] by (simp add: same_statics_def)
next
  case True
  define n where "n = length (sv_tickets s)"
  define k where "k = \<lparr> tk_request = req, tk_tokens = request_tokens req, tk_admitted_at = now,
     tk_deadline = now + vec_request_timeout (sv_config s), tk_future = Pending, tk_abandoned = False, tk_released = False \<rparr>"
  have s': "sv_tickets s' = sv_tickets s @ [k]" "sv_queue s' = sv_queue s @ [n]" "sv_config s' = sv_config s"
      "sv_pending_requests s' = sv_pending_requests s + 1" "sv_pending_tokens s' = sv_pending_tokens s + request_tokens req"
      "sm_completed (sv_metrics s') = sm_completed (sv_metrics s)" "sm_admitted (sv_metrics s') = sm_admitted (sv_metrics s) + 1"
      "sv_closed s' = sv_closed s"
    and lim: "sv_pending_requests s < vec_max_pending_requests (sv_config s)"
      "sv_pending_tokens s + request_tokens req \<le> vec_max_pending_tokens (sv_config s)" "\<not> sv_closed s"
    using True run by (auto simp: submit_def Let_def k_def n_def split: sum.splits if_splits)
  have sub: "set (r @ sv_queue s @ c) \<subseteq> {..<n}" using inv by (simp add: service_inv_def n_def)
  then have lt: "\<And>u. u \<in> set r \<or> u \<in> set (sv_queue s) \<or> u \<in> set c \<Longrightarrow> u < n" by auto
  have "sorted_wrt (<) (r @ sv_queue s')"
    using service_inv_order(1)[OF inv] lt by (auto simp: s' sorted_wrt_append)
  moreover have "ticket_ok (ticket s' u) (u \<in> set (sv_queue s')) (u \<in> set r) (u \<in> set c)" if "u < length (sv_tickets s')" for u
  proof (cases "u = n")
    case True
    then show ?thesis using lt by (auto simp: s' n_def[symmetric] nth_append ticket_ok_def k_def)
  next
    case False
    then show ?thesis using service_inv_ticket[OF inv, of u] that by (simp add: s' n_def nth_append)
  qed
  ultimately have "service_inv (sv_queue s') r c s'"
    using inv lim sub by (auto simp: service_inv_def s' live_snoc k_def n_def answered_def)
  then show ?thesis using lim by (simp add: s' statics_def)
qed

section \<open>Batches\<close>

definition tokens_of :: "(ValueEvaluationRequest \<times> int) list \<Rightarrow> nat list \<Rightarrow> int" where
  "tokens_of st ts = sum_list (map (\<lambda>t. snd (st ! t)) ts)"

definition sequences_of :: "(ValueEvaluationRequest \<times> int) list \<Rightarrow> nat list \<Rightarrow> int list list" where
  "sequences_of st ts = concat (map (\<lambda>t. ver_token_ids (fst (st ! t))) ts)"

text \<open>A non-empty group within the token ceiling, or a single oversized request.\<close>

definition group_ok :: "ValueEvaluatorConfig \<Rightarrow> (ValueEvaluationRequest \<times> int) list \<Rightarrow> nat list \<Rightarrow> bool" where
  "group_ok cfg st ts \<longleftrightarrow> ts \<noteq> [] \<and> (tokens_of st ts \<le> vec_max_batch_tokens cfg \<or> length ts = 1)"

fun phase_held :: "take_phase \<Rightarrow> nat list" where
  "phase_held BlockedFirst = []"
| "phase_held (BlockedMore ts n d) = ts"
| "phase_held (Taken None) = []"
| "phase_held (Taken (Some b)) = vrb_tickets b"

fun phase_ok :: "ValueEvaluatorConfig \<Rightarrow> (ValueEvaluationRequest \<times> int) list \<Rightarrow> take_phase \<Rightarrow> bool" where
  "phase_ok cfg st (BlockedMore ts n d) \<longleftrightarrow> group_ok cfg st ts \<and> n = tokens_of st ts"
| "phase_ok cfg st (Taken (Some b)) \<longleftrightarrow> group_ok cfg st (vrb_tickets b) \<and> vrb_token_ids b = sequences_of st (vrb_tickets b)"
| "phase_ok cfg st ph \<longleftrightarrow> True"

lemma statics_nth: "t < length (sv_tickets s) \<Longrightarrow> statics s ! t = (tk_request (ticket s t), tk_tokens (ticket s t))"
  by (simp add: statics_def)

lemma keeps_statics: "keeps s s' \<Longrightarrow> statics s' = statics s \<and> sv_config s' = sv_config s \<and> sv_closed s' = sv_closed s"
  by (simp add: keeps_def same_statics_def)

lemma service_inv_held_lt: "service_inv q r c s \<Longrightarrow> t \<in> set r \<Longrightarrow> t < length (sv_tickets s)"
  by (rule service_inv_held(1))

lemma finish_batch_ok:
  assumes inv: "service_inv (sv_queue s) ts c s" and g: "group_ok (sv_config s) (statics s) ts"
    and run: "finish_batch now ts s = (ph, s')"
  shows "service_inv (sv_queue s') (phase_held ph) c s' \<and> keeps s s' \<and> sv_queue s' = sv_queue s \<and>
     phase_ok (sv_config s) (statics s) ph"
proof -
  have ph: "ph = Taken (Some (batch_of s ts))"
    and s': "s' = s\<lparr> sv_max_wait := max (sv_max_wait s) (now - tk_admitted_at (ticket s (hd ts))) \<rparr>"
    using run by (auto simp: finish_batch_def)
  have seqs: "concat (map (\<lambda>t. ver_token_ids (tk_request (ticket s t))) ts) = sequences_of (statics s) ts"
    unfolding sequences_of_def
    by (rule arg_cong[where f = concat], rule map_cong) (auto simp: statics_nth service_inv_held_lt[OF inv])
  have "service_inv (sv_queue s) ts c s' \<and> same_statics s s'"
    by (rule service_inv_cong[OF inv]) (simp_all add: s')
  then show ?thesis using g by (simp add: ph s' batch_of_def seqs keeps_def)
qed

lemma coalesce_ok:
  "service_inv (sv_queue s) ts c s \<Longrightarrow> group_ok (sv_config s) (statics s) ts \<Longrightarrow> n = tokens_of (statics s) ts \<Longrightarrow>
   \<exists>ph s'. coalesce clk k ts n d w s = Ok (ph, s') \<and> service_inv (sv_queue s') (phase_held ph) c s' \<and> keeps s s' \<and>
     set (sv_queue s') \<subseteq> set (sv_queue s) \<and> phase_ok (sv_config s) (statics s) ph"
proof (induction "length (sv_queue s)" arbitrary: s ts k n rule: less_induct)
  case less
  note inv = less.prems(1) and g = less.prems(2) and n = less.prems(3)
  have fin: "\<exists>ph s'. Ok (finish_batch now ts s1) = Ok (ph, s') \<and> service_inv (sv_queue s') (phase_held ph) c s' \<and>
      keeps s s' \<and> set (sv_queue s') \<subseteq> set (sv_queue s) \<and> phase_ok (sv_config s) (statics s) ph"
    if "service_inv (sv_queue s1) ts c s1" "keeps s s1" "set (sv_queue s1) \<subseteq> set (sv_queue s)" for now s1
  proof -
    obtain ph s' where r: "finish_batch now ts s1 = (ph, s')" by (cases "finish_batch now ts s1")
    note k = keeps_statics[OF that(2)]
    show ?thesis using finish_batch_ok[OF that(1) _ r] that(2,3) g keeps_trans[OF that(2)] r by (auto simp: k)
  qed
  show ?case
  proof (cases "n < vec_max_batch_tokens (sv_config s)")
    case False
    then show ?thesis using fin[OF inv keeps_refl subset_refl] by (subst coalesce.simps) simp
  next
    case True
    obtain s1 where s1: "expire_head (clk k) s = Ok s1" "service_inv (sv_queue s1) ts c s1" "keeps s s1"
      using expire_head_ok[OF inv] by blast
    have suf: "suffix (sv_queue s1) (sv_queue s)" by (rule expire_head_queue[OF s1(1)])
    then have sub: "set (sv_queue s1) \<subseteq> set (sv_queue s)" by (rule set_mono_suffix)
    note st1 = keeps_statics[OF s1(3)]
    show ?thesis
    proof (cases "sv_queue s1")
      case Nil
      then show ?thesis
        using True s1 st1 fin[OF s1(2,3) sub] g n by (subst coalesce.simps) auto
    next
      case (Cons t q)
      show ?thesis
      proof (cases "w \<and> tk_admitted_at (ticket s1 t) > d \<or> n + tk_tokens (ticket s1 t) > vec_max_batch_tokens (sv_config s)")
        case True
        then show ?thesis using \<open>n < _\<close> s1 Cons fin[OF s1(2,3) sub] by (subst coalesce.simps) simp
      next
        case room: False
        obtain s2 where s2: "take_head s1 = Ok (Some t, s2)" "sv_queue s2 = q" "service_inv q (ts @ [t]) c s2" "keeps s1 s2"
          using take_head_ok[OF s1(2) Cons] by blast
        have t: "t < length (sv_tickets s1)" using service_inv_queued(1)[OF s1(2)] Cons by simp
        note st2 = keeps_statics[OF s2(4)]
        have t2: "t < length (sv_tickets s2)" using st2 t by (metis length_map statics_def)
        have tok: "tk_tokens (ticket s2 t) = snd (statics s ! t)" "tk_tokens (ticket s1 t) = snd (statics s ! t)"
          using statics_nth[OF t] statics_nth[OF t2] st1 st2 by auto
        have shorter: "length (sv_queue s2) < length (sv_queue s)"
          by (rule take_after_expire_shrinks[OF s1(1) s2(1)])
        have n2: "n + tk_tokens (ticket s2 t) = tokens_of (statics s2) (ts @ [t])"
          using n tok st1 st2 by (simp add: tokens_of_def)
        have g2: "group_ok (sv_config s2) (statics s2) (ts @ [t])"
          using room tok n2 st1 st2 by (simp add: group_ok_def)
        obtain ph s' where "coalesce clk (k + 1) (ts @ [t]) (n + tk_tokens (ticket s2 t)) d w s2 = Ok (ph, s')"
            "service_inv (sv_queue s') (phase_held ph) c s'" "keeps s2 s'" "set (sv_queue s') \<subseteq> set (sv_queue s2)"
            "phase_ok (sv_config s2) (statics s2) ph"
          using less.hyps[OF shorter, of "ts @ [t]" "n + tk_tokens (ticket s2 t)" "k + 1"] s2(2,3) g2 n2 by auto
        then show ?thesis
          using \<open>n < _\<close> s1(1) Cons room s2(1,2) sub st1 st2 keeps_trans[OF s1(3) keeps_trans[OF s2(4)]]
          by (subst coalesce.simps) auto
      qed
    qed
  qed
qed

lemma seek_first_ok:
  assumes inv: "service_inv (sv_queue s) [] c s"
  shows "\<exists>ph s'. seek_first clk k w s = Ok (ph, s') \<and> service_inv (sv_queue s') (phase_held ph) c s' \<and> keeps s s' \<and>
     set (sv_queue s') \<subseteq> set (sv_queue s) \<and> phase_ok (sv_config s) (statics s) ph"
proof -
  obtain s1 where s1: "expire_head (clk k) s = Ok s1" "service_inv (sv_queue s1) [] c s1" "keeps s s1"
    using expire_head_ok[OF inv] by blast
  have sub: "set (sv_queue s1) \<subseteq> set (sv_queue s)" by (rule set_mono_suffix[OF expire_head_queue[OF s1(1)]])
  note st1 = keeps_statics[OF s1(3)]
  show ?thesis
  proof (cases "sv_queue s1")
    case Nil
    then show ?thesis using s1 by (subst seek_first.simps) simp
  next
    case (Cons t q)
    obtain s2 where s2: "take_head s1 = Ok (Some t, s2)" "sv_queue s2 = q" "service_inv q [t] c s2" "keeps s1 s2"
      using take_head_ok[OF s1(2) Cons] by auto
    note st2 = keeps_statics[OF s2(4)]
    have t2: "t < length (sv_tickets s2)" using service_inv_held(1)[OF s2(3)] by simp
    have n2: "tk_tokens (ticket s2 t) = tokens_of (statics s2) [t]" by (simp add: tokens_of_def statics_nth[OF t2])
    have g2: "group_ok (sv_config s2) (statics s2) [t]" by (simp add: group_ok_def)
    let ?d = "min (tk_admitted_at (ticket s2 t) + vec_batch_wait_ms (sv_config s2) / 1000) (tk_deadline (ticket s2 t))"
    obtain ph s' where "coalesce clk (k + 1) [t] (tk_tokens (ticket s2 t)) ?d False s2 = Ok (ph, s')"
        "service_inv (sv_queue s') (phase_held ph) c s'" "keeps s2 s'" "set (sv_queue s') \<subseteq> set (sv_queue s2)"
        "phase_ok (sv_config s2) (statics s2) ph"
      using coalesce_ok[of s2 "[t]" c "tk_tokens (ticket s2 t)" clk "k + 1" ?d False] s2(2,3) g2 n2 by auto
    then show ?thesis
      using s1(1) Cons s2(1,2) sub st1 st2 keeps_trans[OF s1(3) keeps_trans[OF s2(4)]]
      by (subst seek_first.simps) auto
  qed
qed

lemma take_batch_resume_ok:
  assumes "service_inv (sv_queue s) (phase_held ph) c s" "phase_ok (sv_config s) (statics s) ph"
  shows "\<exists>ph' s'. take_batch_resume clk ph s = Ok (ph', s') \<and> service_inv (sv_queue s') (phase_held ph') c s' \<and>
     keeps s s' \<and> set (sv_queue s') \<subseteq> set (sv_queue s) \<and> phase_ok (sv_config s) (statics s) ph'"
  using assms seek_first_ok[of s c clk 0 True] by (cases ph) (auto intro!: coalesce_ok)

section \<open>Callers, worker and closer interleaved\<close>

text \<open>
  The worker runs \<^verbatim>\<open>ValueEvaluatorRuntime._worker_loop\<close> (evaluator.py): it is taking a batch, or it
  has one and answers its tickets one critical section at a time, or fails them. A closer that left
  the lock still has tickets to resolve.
\<close>

datatype worker =
    Idle
  | Taking take_phase
  | Completing "(nat \<times> ValueEvaluationResponse) list"
  | Failing py_exn "nat list"

record service_system =
  sy_service :: ValueRequestService
  sy_worker :: worker
  sy_closing :: "nat list"
  sy_close_error :: py_exn

fun worker_held :: "worker \<Rightarrow> nat list" where
  "worker_held Idle = []"
| "worker_held (Taking ph) = phase_held ph"
| "worker_held (Completing plan) = map fst plan"
| "worker_held (Failing e ts) = ts"

definition service_start :: "ValueRequestService \<Rightarrow> service_system" where
  "service_start s = \<lparr> sy_service = s, sy_worker = Idle, sy_closing = [], sy_close_error = RuntimeError [] \<rparr>"

inductive service_step :: "service_system \<Rightarrow> service_system \<Rightarrow> bool" where
  st_submit: "submit now req (sy_service y) = (res, s') \<Longrightarrow> service_step y (y\<lparr> sy_service := s' \<rparr>)"
| st_await: "t < length (sv_tickets (sy_service y)) \<Longrightarrow> await_ticket timed_out t (sy_service y) = Ok (res, s') \<Longrightarrow>
     service_step y (y\<lparr> sy_service := s' \<rparr>)"
| st_poll: "has_queued now (sy_service y) = Ok (b, s') \<Longrightarrow> service_step y (y\<lparr> sy_service := s' \<rparr>)"
| st_take: "sy_worker y = Idle \<Longrightarrow> take_batch clk w (sy_service y) = Ok (ph, s') \<Longrightarrow>
     service_step y (y\<lparr> sy_service := s', sy_worker := Taking ph \<rparr>)"
| st_wake: "sy_worker y = Taking ph \<Longrightarrow> take_batch_resume clk ph (sy_service y) = Ok (ph', s') \<Longrightarrow>
     service_step y (y\<lparr> sy_service := s', sy_worker := Taking ph' \<rparr>)"
| st_nothing: "sy_worker y = Taking (Taken None) \<Longrightarrow> service_step y (y\<lparr> sy_worker := Idle \<rparr>)"
| st_evaluated: "sy_worker y = Taking (Taken (Some b)) \<Longrightarrow> response_plan b vals version (sy_service y) = Ok plan \<Longrightarrow>
     service_step y (y\<lparr> sy_worker := Completing plan \<rparr>)"
| st_evaluation_failed: "sy_worker y = Taking (Taken (Some b)) \<Longrightarrow>
     service_step y (y\<lparr> sy_worker := Failing e (vrb_tickets b) \<rparr>)"
| st_complete: "sy_worker y = Completing ((t, r) # plan) \<Longrightarrow> complete_one t r (sy_service y) = Ok s' \<Longrightarrow>
     service_step y (y\<lparr> sy_service := s', sy_worker := Completing plan \<rparr>)"
| st_completed: "sy_worker y = Completing [] \<Longrightarrow> service_step y (y\<lparr> sy_worker := Idle \<rparr>)"
| st_fail: "sy_worker y = Failing e (t # ts) \<Longrightarrow> fail_one e t (sy_service y) = Ok s' \<Longrightarrow>
     service_step y (y\<lparr> sy_service := s', sy_worker := Failing e ts \<rparr>)"
| st_failed: "sy_worker y = Failing e [] \<Longrightarrow> service_step y (y\<lparr> sy_worker := Idle \<rparr>)"
| st_version: "service_step y (y\<lparr> sy_service := set_version v (sy_service y) \<rparr>)"
| st_fail_service: "service_step y (y\<lparr> sy_service := fail_service_locked e (sy_service y) \<rparr>)"
| st_close: "close_locked (sy_service y) = (ts, s') \<Longrightarrow>
     service_step y (y\<lparr> sy_service := s', sy_closing := sy_closing y @ ts,
       sy_close_error := (if sv_closed (sy_service y) then sy_close_error y else close_error err) \<rparr>)"
| st_resolve: "sy_closing y = t # ts \<Longrightarrow> close_resolve (sy_close_error y) t (sy_service y) = Ok s' \<Longrightarrow>
     service_step y (y\<lparr> sy_service := s', sy_closing := ts \<rparr>)"

definition service_reachable :: "ValueRequestService \<Rightarrow> service_system \<Rightarrow> bool" where
  "service_reachable s0 y \<longleftrightarrow> service_step\<^sup>*\<^sup>* (service_start s0) y"

fun worker_ok :: "ValueEvaluatorConfig \<Rightarrow> (ValueEvaluationRequest \<times> int) list \<Rightarrow> worker \<Rightarrow> bool" where
  "worker_ok cfg st (Taking ph) = phase_ok cfg st ph"
| "worker_ok cfg st w = True"

definition system_inv :: "service_system \<Rightarrow> bool" where
  "system_inv y \<longleftrightarrow>
     service_inv (sv_queue (sy_service y)) (worker_held (sy_worker y)) (sy_closing y) (sy_service y) \<and>
     worker_ok (sv_config (sy_service y)) (statics (sy_service y)) (sy_worker y) \<and>
     (sv_closed (sy_service y) \<longrightarrow> sv_queue (sy_service y) = [])"

lemma phase_ok_prefix:
  assumes "phase_ok cfg st ph" "prefix st st'" "set (phase_held ph) \<subseteq> {..<length st}"
  shows "phase_ok cfg st' ph"
proof -
  have eq: "t \<in> set (phase_held ph) \<Longrightarrow> st' ! t = st ! t" for t
    using assms(2,3) by (auto simp: prefix_def nth_append)
  have "tokens_of st' ts = tokens_of st ts \<and> sequences_of st' ts = sequences_of st ts" if "set ts \<subseteq> set (phase_held ph)" for ts
    using that eq by (auto simp: tokens_of_def sequences_of_def intro!: arg_cong[where f = sum_list] arg_cong[where f = concat] map_cong)
  then show ?thesis using assms(1) by (cases "(cfg, st, ph)" rule: phase_ok.cases) (auto simp: group_ok_def)
qed

lemma worker_held_lt: "service_inv q (worker_held w) c s \<Longrightarrow> set (worker_held w) \<subseteq> {..<length (statics s)}"
  by (auto simp: statics_def dest: service_inv_held_lt)

lemma slice_responses_fst: "map fst (slice_responses s vals v off ts) = ts"
  by (induction ts arbitrary: off) (auto simp: Let_def)

lemma system_inv_keep:
  assumes "service_inv (sv_queue s') (worker_held w) c s'" "keeps (sy_service y) s'"
    "worker_ok (sv_config (sy_service y)) (statics (sy_service y)) w"
    "set (sv_queue s') \<subseteq> set (sv_queue (sy_service y))" "system_inv y"
    "y' = y\<lparr> sy_service := s', sy_worker := w, sy_closing := c \<rparr>"
  shows "system_inv y'"
  using assms by (auto simp: system_inv_def dest: keeps_statics)

lemma has_queued_ok:
  assumes "service_inv (sv_queue s) r c s"
  shows "\<exists>b s'. has_queued now s = Ok (b, s') \<and> service_inv (sv_queue s') r c s' \<and> keeps s s' \<and>
     set (sv_queue s') \<subseteq> set (sv_queue s)"
proof -
  obtain s' where s': "expire_head now s = Ok s'" "service_inv (sv_queue s') r c s'" "keeps s s'"
    using expire_head_ok[OF assms, of now] by blast
  moreover have "set (sv_queue s') \<subseteq> set (sv_queue s)" by (rule set_mono_suffix[OF expire_head_queue[OF s'(1)]])
  ultimately show ?thesis by (simp add: has_queued_def)
qed

lemma await_ticket_ok:
  assumes "service_inv (sv_queue s) r c s" "t < length (sv_tickets s)"
  shows "\<exists>o' s'. await_ticket timed_out t s = Ok (o', s') \<and> service_inv (sv_queue s') r c s' \<and> keeps s s' \<and>
     set (sv_queue s') \<subseteq> set (sv_queue s)"
  using cancel_ok[OF assms] assms(1) by (auto simp: await_ticket_def)

lemma system_invD:
  assumes "system_inv y"
  shows "service_inv (sv_queue (sy_service y)) (worker_held (sy_worker y)) (sy_closing y) (sy_service y)"
    "worker_ok (sv_config (sy_service y)) (statics (sy_service y)) (sy_worker y)"
  using assms by (simp_all add: system_inv_def)

lemma system_inv_step: "service_step y y' \<Longrightarrow> system_inv y \<Longrightarrow> system_inv y'"
proof (induction rule: service_step.induct)
  case (st_submit now req y res s')
  note inv = system_invD[OF st_submit.prems]
  note ok = submit_ok[OF inv(1) st_submit.hyps]
  have "worker_ok (sv_config s') (statics s') (sy_worker y)"
    using inv(2) ok worker_held_lt[OF inv(1)] by (cases "sy_worker y") (auto intro: phase_ok_prefix)
  then show ?case using ok st_submit.prems by (auto simp: system_inv_def)
next
  case (st_await t y timed_out res s')
  note inv = system_invD[OF st_await.prems]
  have "service_inv (sv_queue s') (worker_held (sy_worker y)) (sy_closing y) s'" "keeps (sy_service y) s'"
      "set (sv_queue s') \<subseteq> set (sv_queue (sy_service y))"
    using await_ticket_ok[OF inv(1) st_await.hyps(1), of timed_out] st_await.hyps(2) by auto
  then show ?case by (rule system_inv_keep[OF _ _ inv(2) _ st_await.prems]) simp
next
  case (st_poll now y b s')
  note inv = system_invD[OF st_poll.prems]
  have "service_inv (sv_queue s') (worker_held (sy_worker y)) (sy_closing y) s'" "keeps (sy_service y) s'"
      "set (sv_queue s') \<subseteq> set (sv_queue (sy_service y))"
    using has_queued_ok[OF inv(1), of now] st_poll.hyps by auto
  then show ?case by (rule system_inv_keep[OF _ _ inv(2) _ st_poll.prems]) simp
next
  case (st_take y clk w ph s')
  note inv = system_invD[OF st_take.prems, unfolded st_take.hyps worker_held.simps]
  have "service_inv (sv_queue s') (worker_held (Taking ph)) (sy_closing y) s'" "keeps (sy_service y) s'"
      "worker_ok (sv_config (sy_service y)) (statics (sy_service y)) (Taking ph)"
      "set (sv_queue s') \<subseteq> set (sv_queue (sy_service y))"
    using seek_first_ok[OF inv(1), of clk 0 w] st_take.hyps(2) by (auto simp: take_batch_def)
  then show ?case by (rule system_inv_keep[OF _ _ _ _ st_take.prems]) simp
next
  case (st_wake y ph clk ph' s')
  note inv = system_invD[OF st_wake.prems, unfolded st_wake.hyps worker_held.simps worker_ok.simps]
  have "service_inv (sv_queue s') (worker_held (Taking ph')) (sy_closing y) s'" "keeps (sy_service y) s'"
      "worker_ok (sv_config (sy_service y)) (statics (sy_service y)) (Taking ph')"
      "set (sv_queue s') \<subseteq> set (sv_queue (sy_service y))"
    using take_batch_resume_ok[OF inv(1,2), of clk] st_wake.hyps(2) by auto
  then show ?case by (rule system_inv_keep[OF _ _ _ _ st_wake.prems]) simp
next
  case (st_evaluated y b vals version plan)
  then have "map fst plan = vrb_tickets b" by (auto simp: response_plan_def Let_def result_simps slice_responses_fst)
  then show ?case using st_evaluated by (simp add: system_inv_def)
next
  case (st_complete y t r plan s')
  note inv = system_invD(1)[OF st_complete.prems, unfolded st_complete.hyps worker_held.simps list.map fst_conv]
  have a: "service_inv (sv_queue s') (worker_held (Completing plan)) (sy_closing y) s'" "keeps (sy_service y) s'"
      "set (sv_queue s') \<subseteq> set (sv_queue (sy_service y))"
    using complete_one_ok[OF inv, of r] st_complete.hyps(2) by auto
  show ?case by (rule system_inv_keep[OF a(1,2) _ a(3) st_complete.prems]) simp_all
next
  case (st_fail y e t ts s')
  note inv = system_invD(1)[OF st_fail.prems, unfolded st_fail.hyps worker_held.simps]
  have a: "service_inv (sv_queue s') (worker_held (Failing e ts)) (sy_closing y) s'" "keeps (sy_service y) s'"
      "set (sv_queue s') \<subseteq> set (sv_queue (sy_service y))"
    using fail_one_ok[OF inv, of e] st_fail.hyps(2) by auto
  show ?case by (rule system_inv_keep[OF a(1,2) _ a(3) st_fail.prems]) simp_all
next
  case (st_version y v)
  from service_inv_cong[OF system_invD(1)[OF st_version], of "set_version v (sy_service y)"] st_version
  show ?case by (auto simp: system_inv_def set_version_def same_statics_def)
next
  case (st_fail_service y e)
  from service_inv_cong[OF system_invD(1)[OF st_fail_service], of "fail_service_locked e (sy_service y)"] st_fail_service
  show ?case by (auto simp: system_inv_def fail_service_locked_def same_statics_def)
next
  case (st_close y ts s' err)
  from close_locked_ok[OF system_invD(1)[OF st_close.prems] st_close.hyps] st_close.prems
  show ?case by (auto simp: system_inv_def same_statics_def)
next
  case (st_resolve y t ts s')
  note inv = system_invD[OF st_resolve.prems, unfolded st_resolve.hyps(1)]
  have "service_inv (sv_queue s') (worker_held (sy_worker y)) ts s'" "keeps (sy_service y) s'"
      "set (sv_queue s') \<subseteq> set (sv_queue (sy_service y))"
    using close_resolve_ok[OF inv(1), of "sy_close_error y"] st_resolve.hyps(2) by auto
  then show ?case by (rule system_inv_keep[OF _ _ inv(2) _ st_resolve.prems]) simp
qed (simp_all add: system_inv_def)

lemma system_inv_reachable:
  assumes "service_reachable (ValueRequestService_init packed_len config seq_len vocab_size version) y"
    "0 \<le> vec_max_pending_requests config" "0 \<le> vec_max_pending_tokens config"
  shows "system_inv y"
  using assms(1) unfolding service_reachable_def
proof (induction rule: rtranclp_induct)
  case base
  show ?case using assms(2,3)
    by (simp add: system_inv_def service_start_def ValueRequestService_init_def service_inv_def
        live_requests_def live_tokens_def answered_count_def)
next
  case (step y z)
  then show ?case using system_inv_step by blast
qed

lemma live_nonneg:
  assumes "\<forall>k \<in> set ks. 0 \<le> tk_tokens k"
  shows "0 \<le> live_requests ks" "0 \<le> live_tokens ks"
  using assms unfolding live_requests_def live_tokens_def by (auto intro!: sum_list_nonneg_int)

lemma live_none: "(\<forall>k \<in> set ks. tk_released k) \<Longrightarrow> live_requests ks = 0 \<and> live_tokens ks = 0"
  unfolding live_requests_def live_tokens_def by (induction ks) auto

lemma service_inv_tokens: "service_inv q r c s \<Longrightarrow> \<forall>k \<in> set (sv_tickets s). 0 \<le> tk_tokens k"
proof
  fix k assume inv: "service_inv q r c s" and "k \<in> set (sv_tickets s)"
  then obtain i where "i < length (sv_tickets s)" "k = ticket s i" by (auto simp: in_set_conv_nth)
  then show "0 \<le> tk_tokens k" using service_inv_ticket[OF inv, of i] by (simp add: ticket_ok_def request_tokens_nonneg)
qed

text \<open>
  C27: The admission limits hold under every interleaving of callers, worker, weight updates and
  shutdown. In each reachable state the two counters equal the number and the token sum of the
  tickets not yet released, they stay between zero and the configured limits, and the completed
  counter equals the number of callers that received a response. When the queue is empty and neither
  the worker nor a closer holds a ticket, no share of the limits is leaked and every caller has an
  outcome (its future is done, or it gave up).
\<close>

theorem service_accounting:
  assumes reach: "service_reachable (ValueRequestService_init packed_len config seq_len vocab_size version) y"
    and limits: "0 \<le> vec_max_pending_requests config" "0 \<le> vec_max_pending_tokens config"
  shows "let s = sy_service y in
    sv_pending_requests s = live_requests (sv_tickets s) \<and> sv_pending_tokens s = live_tokens (sv_tickets s) \<and>
    0 \<le> sv_pending_requests s \<and> sv_pending_requests s \<le> vec_max_pending_requests (sv_config s) \<and>
    0 \<le> sv_pending_tokens s \<and> sv_pending_tokens s \<le> vec_max_pending_tokens (sv_config s) \<and>
    sm_completed (sv_metrics s) = answered_count (sv_tickets s) \<and>
    (sv_queue s = [] \<and> worker_held (sy_worker y) = [] \<and> sy_closing y = [] \<longrightarrow>
       sv_pending_requests s = 0 \<and> sv_pending_tokens s = 0 \<and>
       list_all (\<lambda>k. fut_done (tk_future k) \<or> tk_abandoned k) (sv_tickets s))"
proof -
  note inv = system_invD(1)[OF system_inv_reachable[OF assms]]
  note nonneg = live_nonneg[OF service_inv_tokens[OF inv]]
  have all: "\<forall>k \<in> set (sv_tickets (sy_service y)). tk_released k \<and> (fut_done (tk_future k) \<or> tk_abandoned k)"
    if "sv_queue (sy_service y) = []" "worker_held (sy_worker y) = []" "sy_closing y = []"
  proof
    fix k assume "k \<in> set (sv_tickets (sy_service y))"
    then obtain i where "i < length (sv_tickets (sy_service y))" "k = ticket (sy_service y) i" by (auto simp: in_set_conv_nth)
    then show "tk_released k \<and> (fut_done (tk_future k) \<or> tk_abandoned k)"
      using service_inv_ticket[OF inv, of i] that by (simp add: ticket_ok_def)
  qed
  show ?thesis
    using inv nonneg all live_none[of "sv_tickets (sy_service y)"]
    unfolding service_inv_def Let_def list_all_iff by (elim conjE) (intro conjI impI; simp)
qed

text \<open>
  C28: None of the service's own error branches is reachable: in every reachable state a caller can
  wait or cancel, the worker can take, resume, answer and fail, and the closer can resolve, without
  the state errors of the futures (\<open>set_result\<close> on a finished future, a cancelled future in the
  queue), without \<open>popleft\<close> on an empty queue and without removing a ticket that is not queued.
\<close>

theorem service_never_raises:
  assumes reach: "service_reachable (ValueRequestService_init packed_len config seq_len vocab_size version) y"
    and limits: "0 \<le> vec_max_pending_requests config" "0 \<le> vec_max_pending_tokens config"
  shows "let s = sy_service y in
    (\<forall>t timed_out. t < length (sv_tickets s) \<longrightarrow> \<not> isl (await_ticket timed_out t s)) \<and>
    (\<forall>now. \<not> isl (has_queued now s)) \<and>
    (\<forall>clk w. sy_worker y = Idle \<longrightarrow> \<not> isl (take_batch clk w s)) \<and>
    (\<forall>clk ph. sy_worker y = Taking ph \<longrightarrow> \<not> isl (take_batch_resume clk ph s)) \<and>
    (\<forall>t r plan. sy_worker y = Completing ((t, r) # plan) \<longrightarrow> \<not> isl (complete_one t r s)) \<and>
    (\<forall>e t ts. sy_worker y = Failing e (t # ts) \<longrightarrow> \<not> isl (fail_one e t s)) \<and>
    (\<forall>t ts e. sy_closing y = t # ts \<longrightarrow> \<not> isl (close_resolve e t s))"
  unfolding Let_def
proof (intro conjI allI impI)
  note inv = system_invD[OF system_inv_reachable[OF assms]]
  show "\<not> isl (await_ticket timed_out t (sy_service y))" if "t < length (sv_tickets (sy_service y))" for t timed_out
    using await_ticket_ok[OF inv(1) that, of timed_out] by auto
  show "\<not> isl (has_queued now (sy_service y))" for now
    using has_queued_ok[OF inv(1), of now] by auto
  show "\<not> isl (take_batch clk w (sy_service y))" if "sy_worker y = Idle" for clk w
    using seek_first_ok[of "sy_service y" "sy_closing y" clk 0 w] inv(1) that by (auto simp: take_batch_def)
  show "\<not> isl (take_batch_resume clk ph (sy_service y))" if "sy_worker y = Taking ph" for clk ph
    using take_batch_resume_ok[of "sy_service y" ph "sy_closing y" clk] inv that by auto
  show "\<not> isl (complete_one t r (sy_service y))" if "sy_worker y = Completing ((t, r) # plan)" for t r plan
    using complete_one_ok[of "sy_service y" t "map fst plan" "sy_closing y" r] inv(1) that by auto
  show "\<not> isl (fail_one e t (sy_service y))" if "sy_worker y = Failing e (t # ts)" for e t ts
    using fail_one_ok[of "sy_service y" t ts "sy_closing y" e] inv(1) that by auto
  show "\<not> isl (close_resolve e t (sy_service y))" if "sy_closing y = t # ts" for e t ts
    using close_resolve_ok[of "sy_service y" "worker_held (sy_worker y)" t ts e] inv(1) that by auto
qed

text \<open>
  Batches are formed first come, first served. When \<open>take_batch\<close> hands the worker a batch, its
  tickets are in admission order and all precede every ticket still queued, they fit the token ceiling
  together (or the batch is one oversized request), and the batch's sequences are the tickets'
  sequences concatenated in that order.
\<close>

lemma service_batch_fifo:
  assumes reach: "service_reachable (ValueRequestService_init packed_len config seq_len vocab_size version) y"
    and limits: "0 \<le> vec_max_pending_requests config" "0 \<le> vec_max_pending_tokens config"
    and worker: "sy_worker y = Taking (Taken (Some b))"
  shows "let s = sy_service y; ts = vrb_tickets b in
    ts \<noteq> [] \<and> sorted_wrt (<) (ts @ sv_queue s) \<and>
    (sum_list (map (\<lambda>t. tk_tokens (ticket s t)) ts) \<le> vec_max_batch_tokens (sv_config s) \<or> length ts = 1) \<and>
    vrb_token_ids b = concat (map (\<lambda>t. ver_token_ids (tk_request (ticket s t))) ts)"
proof -
  note inv = system_invD[OF system_inv_reachable[OF reach limits], unfolded worker worker_held.simps phase_held.simps
      worker_ok.simps phase_ok.simps]
  have st: "t \<in> set (vrb_tickets b) \<Longrightarrow> statics (sy_service y) ! t = (tk_request (ticket (sy_service y) t), tk_tokens (ticket (sy_service y) t))" for t
    using service_inv_held(1)[OF inv(1)] by (simp add: statics_nth)
  then have "tokens_of (statics (sy_service y)) (vrb_tickets b) = sum_list (map (\<lambda>t. tk_tokens (ticket (sy_service y) t)) (vrb_tickets b))"
    "sequences_of (statics (sy_service y)) (vrb_tickets b) = concat (map (\<lambda>t. ver_token_ids (tk_request (ticket (sy_service y) t))) (vrb_tickets b))"
    unfolding tokens_of_def sequences_of_def by (simp_all cong: map_cong)
  then show ?thesis using inv(2) service_inv_order(1)[OF inv(1)] by (simp add: Let_def group_ok_def)
qed

lemma slice_responses_concat:
  assumes "\<And>t. t \<in> set ts \<Longrightarrow> length (g t) = length (ver_token_ids (tk_request (ticket s t)))"
  shows "slice_responses s (pre @ concat (map g ts)) v (length pre) ts =
    map (\<lambda>t. (t, \<lparr> vresp_values = g t, vresp_version = v \<rparr>)) ts"
  using assms
proof (induction ts arbitrary: pre)
  case (Cons t ts)
  have "slice_responses s ((pre @ g t) @ concat (map g ts)) v (length (pre @ g t)) ts =
      map (\<lambda>t. (t, \<lparr> vresp_values = g t, vresp_version = v \<rparr>)) ts"
    by (rule Cons.IH) (simp add: Cons.prems)
  then show ?case using Cons.prems[of t] by (simp add: Let_def)
qed simp

lemma complete_loop_ok:
  assumes "service_inv (sv_queue s) (map fst plan) c s"
  shows "\<exists>s'. complete_loop plan s = Ok s' \<and> service_inv (sv_queue s) [] c s' \<and> keeps s s' \<and>
    (\<forall>(t, r) \<in> set plan. tk_future (ticket s' t) = (if tk_abandoned (ticket s t) then Running else Finished (Ok r))) \<and>
    (\<forall>u. u \<notin> fst ` set plan \<longrightarrow> ticket s' u = ticket s u)"
  using assms
proof (induction plan arbitrary: s)
  case (Cons p plan)
  obtain t r where p: "p = (t, r)" by (cases p)
  have inv: "service_inv (sv_queue s) (t # map fst plan) c s" using Cons.prems p by simp
  have nt: "t \<notin> fst ` set plan" using service_inv_order(1)[OF inv] by auto
  obtain s1 where s1: "complete_one t r s = Ok s1" "sv_queue s1 = sv_queue s" "service_inv (sv_queue s) (map fst plan) c s1"
      "keeps s s1" "tk_future (ticket s1 t) = (if tk_abandoned (ticket s t) then Running else Finished (Ok r))"
      "\<forall>u. u \<noteq> t \<longrightarrow> ticket s1 u = ticket s u"
    using complete_one_ok[OF inv, of r] by blast
  obtain s2 where s2: "complete_loop plan s1 = Ok s2" "service_inv (sv_queue s1) [] c s2" "keeps s1 s2"
      "\<forall>(t, r) \<in> set plan. tk_future (ticket s2 t) = (if tk_abandoned (ticket s1 t) then Running else Finished (Ok r))"
      "\<forall>u. u \<notin> fst ` set plan \<longrightarrow> ticket s2 u = ticket s1 u"
    using Cons.IH[of s1] s1(2,3) by auto
  have later: "tk_future (ticket s2 u) = (if tk_abandoned (ticket s u) then Running else Finished (Ok x))" if "(u, x) \<in> set plan" for u x
  proof -
    have "u \<noteq> t" using nt that by force
    then show ?thesis using s2(4) s1(6) that by auto
  qed
  have now: "tk_future (ticket s2 t) = (if tk_abandoned (ticket s t) then Running else Finished (Ok r))"
    using s2(5) nt s1(5) by simp
  show ?case
    using s1(1,2,6) s2(1,2,5) later now keeps_trans[OF s1(4) s2(3)] by (auto simp: p)
qed simp

text \<open>
  C29: Coalescing is invisible to callers: whatever per-sequence function the model computes, completing a
  batch with its values succeeds and resolves every ticket that was not abandoned with exactly the
  values of its own sequences, in its own order, under the evaluated version; an abandoned ticket
  is not answered.
\<close>

theorem complete_answers_own_request:
  assumes reach: "service_reachable (ValueRequestService_init packed_len config seq_len vocab_size version) y"
    and limits: "0 \<le> vec_max_pending_requests config" "0 \<le> vec_max_pending_tokens config"
    and worker: "sy_worker y = Taking (Taken (Some b))"
  shows "\<exists>s'. complete b (map f (vrb_token_ids b)) v (sy_service y) = Ok s' \<and>
    list_all (\<lambda>t. tk_future (ticket s' t) =
      (if tk_abandoned (ticket (sy_service y) t) then Running
       else Finished (Ok \<lparr> vresp_values = map f (ver_token_ids (tk_request (ticket (sy_service y) t))), vresp_version = v \<rparr>)))
      (vrb_tickets b)"
proof -
  let ?s = "sy_service y" and ?ts = "vrb_tickets b"
  let ?g = "\<lambda>t. map f (ver_token_ids (tk_request (ticket ?s t)))"
  note inv = system_invD[OF system_inv_reachable[OF reach limits], unfolded worker worker_held.simps phase_held.simps
      worker_ok.simps phase_ok.simps]
  have "sequences_of (statics ?s) ?ts = concat (map (\<lambda>t. ver_token_ids (tk_request (ticket ?s t))) ?ts)"
    unfolding sequences_of_def using service_inv_held(1)[OF inv(1)] by (simp add: statics_nth cong: map_cong)
  then have vals: "map f (vrb_token_ids b) = concat (map ?g ?ts)" using inv(2) by (simp add: map_concat comp_def)
  have plan: "response_plan b (map f (vrb_token_ids b)) v ?s = Ok (map (\<lambda>t. (t, \<lparr> vresp_values = ?g t, vresp_version = v \<rparr>)) ?ts)"
    unfolding vals response_plan_def using slice_responses_concat[of ?ts ?g ?s "[]" v]
    by (simp add: length_concat comp_def)
  show ?thesis
    using complete_loop_ok[of ?s "map (\<lambda>t. (t, \<lparr> vresp_values = ?g t, vresp_version = v \<rparr>)) ?ts" "sy_closing y"] inv(1)
    by (auto simp: complete_def plan comp_def list_all_iff)
qed

section \<open>A concrete run\<close>

definition demo_service_config :: ValueEvaluatorConfig where
  "demo_service_config = \<lparr> vec_placement = Dedicated, vec_base_url = [], vec_port = 8100, vec_max_batch_tokens = 3,
     vec_batch_wait_ms = 2, vec_max_concurrency = 4, vec_max_pending_requests = 2, vec_max_pending_tokens = 8,
     vec_request_timeout = 10 \<rparr>"

definition demo_service_0 :: ValueRequestService where
  "demo_service_0 = ValueRequestService_init (\<lambda>n. 5) demo_service_config 16 100 (Some 7)"

definition demo_service_1 :: ValueRequestService where
  "demo_service_1 = snd (submit 0 \<lparr> ver_token_ids = [[1, 2], [3]] \<rparr> demo_service_0)"

definition demo_batch :: ValueRequestBatch where
  "demo_batch = \<lparr> vrb_tickets = [0], vrb_token_ids = [[1, 2], [3]] \<rparr>"

definition demo_system :: service_system where
  "demo_system = (service_start demo_service_0)
     \<lparr> sy_service := snd (projr (take_batch (\<lambda>k. 1) True demo_service_1)), sy_worker := Taking (Taken (Some demo_batch)) \<rparr>"

lemmas demo_service_eval =
  take_batch_def seek_first.simps coalesce.simps finish_batch_def batch_of_def expire_head_def take_head_def
  demo_service_1_def submit_def demo_service_0_def ValueRequestService_init_def demo_service_config_def
  validate_request_def request_tokens_def demo_batch_def

lemma demo_take: "fst (projr (take_batch (\<lambda>k. 1) True demo_service_1)) = Taken (Some demo_batch)"
  "\<not> isl (take_batch (\<lambda>k. 1) True demo_service_1)"
  by (simp_all add: demo_service_eval)

lemma demo_reachable: "service_reachable demo_service_0 demo_system"
proof -
  let ?y = "(service_start demo_service_0)\<lparr> sy_service := demo_service_1 \<rparr>"
  have "service_step (service_start demo_service_0) ?y"
    by (rule st_submit[where now = 0 and req = "\<lparr> ver_token_ids = [[1, 2], [3]] \<rparr>"
          and res = "fst (submit 0 \<lparr> ver_token_ids = [[1, 2], [3]] \<rparr> demo_service_0)"])
       (simp add: demo_service_1_def service_start_def)
  moreover have "service_step ?y (?y\<lparr> sy_service := snd (projr (take_batch (\<lambda>k. 1) True demo_service_1)),
      sy_worker := Taking (Taken (Some demo_batch)) \<rparr>)"
    by (rule st_take[where clk = "\<lambda>k. 1" and w = True])
       (use demo_take in \<open>simp_all add: service_start_def prod_eq_iff sum.expand flip: demo_take(1)\<close>)
  ultimately show ?thesis
    unfolding service_reachable_def by (simp add: demo_system_def)
qed

lemma demo_limits: "0 \<le> vec_max_pending_requests demo_service_config" "0 \<le> vec_max_pending_tokens demo_service_config"
  by (simp_all add: demo_service_config_def)

lemmas demo_run = demo_reachable[unfolded demo_service_0_def] demo_limits

theorem service_accounting_witness:
  "sv_pending_tokens (sy_service demo_system) = live_tokens (sv_tickets (sy_service demo_system)) \<and>
   sv_pending_tokens (sy_service demo_system) \<le> vec_max_pending_tokens (sv_config (sy_service demo_system))"
  using service_accounting[OF demo_run] by (simp add: Let_def)

theorem service_never_raises_witness:
  "\<not> isl (take_batch_resume (\<lambda>k. 1) (Taken (Some demo_batch)) (sy_service demo_system))"
  using service_never_raises[OF demo_run] by (simp add: demo_system_def)

lemma service_batch_fifo_witness:
  "sorted_wrt (<) (vrb_tickets demo_batch @ sv_queue (sy_service demo_system))"
  using service_batch_fifo[OF demo_run, where b = demo_batch] by (simp add: Let_def demo_system_def)

theorem complete_answers_own_request_witness:
  "\<exists>s'. complete demo_batch (map (map real_of_int) [[1, 2], [3]]) 7 (sy_service demo_system) = Ok s'"
  using complete_answers_own_request[OF demo_run, where b = demo_batch and f = "map real_of_int" and v = 7]
  by (auto simp: demo_system_def demo_batch_def)

end
