(* ===== verification/Value_Client.thy ===== *)
theory Value_Client
  imports Value_Service
begin

text \<open>
  \<^verbatim>\<open>value/client.py\<close>: the orchestrator's client of the evaluators. The HTTP round trip (post,
  \<open>raise_for_status\<close>, MsgPack decoding) is the parameter \<open>post\<close>, the time it took the parameter
  \<open>latency\<close>; the semaphore only delays calls and has no state here.
\<close>

record ValueEvaluatorClient =
  cl_config :: ValueEvaluatorConfig
  cl_urls :: "string list"
  cl_next :: nat
  cl_requests :: int
  cl_sequences :: int
  cl_tokens :: int
  cl_errors :: int
  cl_latency_seconds :: real
  cl_max_latency_seconds :: real
  cl_latest_response_version :: int
  cl_replica_watermark :: int

text \<open>\<open>url.rstrip("/")\<close>\<close>

definition rstrip_slash :: "string \<Rightarrow> string" where
  "rstrip_slash url = rev (dropWhile (\<lambda>c. c = CHR ''/'') (rev url))"

definition ValueEvaluatorClient_init :: "ValueEvaluatorConfig \<Rightarrow> ValueEvaluatorClient" where
  "ValueEvaluatorClient_init config =
     \<lparr> cl_config = config, cl_urls = map rstrip_slash (vec_base_url config), cl_next = 0,
       cl_requests = 0, cl_sequences = 0, cl_tokens = 0, cl_errors = 0,
       cl_latency_seconds = 0, cl_max_latency_seconds = 0, cl_latest_response_version = -1, cl_replica_watermark = -1 \<rparr>"

text \<open>The \<open>for\<close> loop over \<open>zip(result.values, token_ids, strict=True)\<close>.\<close>

fun check_lengths :: "real list list \<Rightarrow> int list list \<Rightarrow> unit result" where
  "check_lengths [] [] = Ok ()"
| "check_lengths (vs # vss) (ts # tss) =
     raise_if (length vs \<noteq> length ts) (ValueError ''value evaluator sequence length does not match token length'')
       (check_lengths vss tss)"
| "check_lengths _ _ = Raise (ValueError ''zip() arguments have different lengths'')"

definition check_response :: "int list list \<Rightarrow> ValueEvaluationResponse \<Rightarrow> unit result" where
  "check_response token_ids r =
     raise_if (length (vresp_values r) \<noteq> length token_ids) (ValueError ''value evaluator returned another number of sequences'')
       (check_lengths (vresp_values r) token_ids)"

text \<open>\<open>next(self._urls)\<close> on the \<open>cycle\<close> of the configured endpoints.\<close>

definition next_url :: "ValueEvaluatorClient \<Rightarrow> string result \<times> ValueEvaluatorClient" where
  "next_url c =
     (if cl_urls c = [] then (Raise (RuntimeError ''coroutine raised StopIteration''), c)
      else (Ok (cl_urls c ! cl_next c), c\<lparr> cl_next := (cl_next c + 1) mod length (cl_urls c) \<rparr>))"

text \<open>The body of the \<open>try\<close>.\<close>

definition evaluate_body ::
  "(string \<Rightarrow> ValueEvaluationRequest \<Rightarrow> ValueEvaluationResponse result) \<Rightarrow> int list list \<Rightarrow> ValueEvaluatorClient \<Rightarrow>
   ValueEvaluationResponse result \<times> ValueEvaluatorClient" where
  "evaluate_body post token_ids c =
     (if sum_list (map (\<lambda>ts. int (length ts)) token_ids) > vec_max_pending_tokens (cl_config c)
      then (Raise (ValueError ''value request has too many tokens''), c)
      else (case next_url c of
              (Inl e, c1) \<Rightarrow> (Raise e, c1)
            | (Inr url, c1) \<Rightarrow>
                (case bindE (post (url @ ''/evaluate'') \<lparr> ver_token_ids = token_ids \<rparr>)
                        (\<lambda>r. bindE (check_response token_ids r) (\<lambda>_. Ok r)) of
                   Inl e \<Rightarrow> (Raise e, c1)
                 | Inr r \<Rightarrow> (Ok r, c1\<lparr> cl_latest_response_version := max (cl_latest_response_version c1) (vresp_version r) \<rparr>))))"

text \<open>\<open>evaluate\<close>: counters before, \<open>except\<close> and \<open>finally\<close> around the body.\<close>

definition client_evaluate ::
  "(string \<Rightarrow> ValueEvaluationRequest \<Rightarrow> ValueEvaluationResponse result) \<Rightarrow> real \<Rightarrow> int list list \<Rightarrow> ValueEvaluatorClient \<Rightarrow>
   ValueEvaluationResponse result \<times> ValueEvaluatorClient" where
  "client_evaluate post latency token_ids c =
     (let c1 = c\<lparr> cl_requests := cl_requests c + 1, cl_sequences := cl_sequences c + int (length token_ids),
                  cl_tokens := cl_tokens c + sum_list (map (\<lambda>ts. int (length ts)) token_ids) \<rparr>;
          (r, c2) = evaluate_body post token_ids c1;
          c3 = (if isl r then c2\<lparr> cl_errors := cl_errors c2 + 1 \<rparr> else c2)
      in (r, c3\<lparr> cl_latency_seconds := cl_latency_seconds c3 + latency,
                 cl_max_latency_seconds := max (cl_max_latency_seconds c3) latency \<rparr>))"

text \<open>
  \<open>version\<close>: the smallest version of all replicas, asked one after the other; \<open>min\<close> of no versions raises.
\<close>

definition client_version :: "(string \<Rightarrow> int result) \<Rightarrow> ValueEvaluatorClient \<Rightarrow> int result \<times> ValueEvaluatorClient" where
  "client_version get c =
     (case traverse (\<lambda>url. get (rstrip_slash url @ ''/version'')) (vec_base_url (cl_config c)) of
        Inl e \<Rightarrow> (Raise e, c)
      | Inr [] \<Rightarrow> (Raise (ValueError ''min() arg is an empty sequence''), c)
      | Inr (v # vs) \<Rightarrow> (Ok (fold min vs v), c\<lparr> cl_replica_watermark := fold min vs v \<rparr>))"

text \<open>\<open>wait_for_version\<close>: \<open>gets k\<close> is what the replicas answer at the \<open>k\<close>-th poll; \<open>fuel\<close> bounds the polls.\<close>

fun wait_for_version ::
  "nat \<Rightarrow> (nat \<Rightarrow> string \<Rightarrow> int result) \<Rightarrow> nat \<Rightarrow> int \<Rightarrow> ValueEvaluatorClient \<Rightarrow> (unit result \<times> ValueEvaluatorClient) option" where
  "wait_for_version 0 gets k minimum c = None"
| "wait_for_version (Suc fuel) gets k minimum c =
     (case client_version (gets k) c of
        (Inl e, c1) \<Rightarrow> Some (Raise e, c1)
      | (Inr v, c1) \<Rightarrow> if v < minimum then wait_for_version fuel gets (Suc k) minimum c1 else Some (Ok (), c1))"

record client_metrics =
  cm_requests :: int
  cm_sequences :: int
  cm_tokens :: int
  cm_errors :: int
  cm_error_rate :: real
  cm_latency_mean :: real
  cm_latency_max :: real
  cm_response_version_latest :: int
  cm_version_watermark :: int

definition client_metrics_of :: "ValueEvaluatorClient \<Rightarrow> client_metrics" where
  "client_metrics_of c =
     \<lparr> cm_requests = cl_requests c, cm_sequences = cl_sequences c, cm_tokens = cl_tokens c, cm_errors = cl_errors c,
       cm_error_rate = (if cl_requests c \<noteq> 0 then real_of_int (cl_errors c) / real_of_int (cl_requests c) else 0),
       cm_latency_mean = (if cl_requests c \<noteq> 0 then cl_latency_seconds c / real_of_int (cl_requests c) else 0),
       cm_latency_max = cl_max_latency_seconds c,
       cm_response_version_latest = cl_latest_response_version c, cm_version_watermark = cl_replica_watermark c \<rparr>"

section \<open>What a caller may rely on\<close>

lemma check_lengths_iff: "check_lengths vss tss = Ok () \<longleftrightarrow> map length vss = map length tss"
  by (induction vss tss rule: check_lengths.induct) (auto simp: result_simps)

lemma check_response_iff: "check_response tss r = Ok () \<longleftrightarrow> map length (vresp_values r) = map length tss"
  by (auto simp: check_response_def check_lengths_iff result_simps dest: map_eq_imp_length_eq)

lemma evaluate_body_Ok:
  assumes "evaluate_body post tss c = (Ok r, c')"
  shows "map length (vresp_values r) = map length tss" "cl_urls c \<noteq> []"
    "post (cl_urls c ! cl_next c @ ''/evaluate'') \<lparr> ver_token_ids = tss \<rparr> = Ok r"
  using assms by (auto simp: evaluate_body_def next_url_def result_simps check_response_iff split: if_splits sum.splits)

lemma evaluate_body_fields:
  assumes "evaluate_body post tss c = (r, c')"
  shows "cl_requests c' = cl_requests c" "cl_errors c' = cl_errors c" "cl_urls c' = cl_urls c" "cl_config c' = cl_config c"
    "cl_sequences c' = cl_sequences c" "cl_tokens c' = cl_tokens c"
    "cl_latency_seconds c' = cl_latency_seconds c" "cl_max_latency_seconds c' = cl_max_latency_seconds c"
  using assms by (auto simp: evaluate_body_def next_url_def split: if_splits sum.splits)

lemma client_evaluate_counts:
  assumes "client_evaluate post latency tss c = (r, c')"
  shows "cl_requests c' = cl_requests c + 1" "cl_errors c' = cl_errors c + (if isl r then 1 else 0)"
    "cl_urls c' = cl_urls c" "cl_config c' = cl_config c"
    "cl_latency_seconds c' = cl_latency_seconds c + latency" "cl_max_latency_seconds c' = max (cl_max_latency_seconds c) latency"
    "cl_sequences c' = cl_sequences c + int (length tss)"
  using assms by (auto simp: client_evaluate_def Let_def split: prod.splits dest: evaluate_body_fields)

text \<open>A sequence of calls, each with its own transport outcome and latency.\<close>

fun run_calls ::
  "((string \<Rightarrow> ValueEvaluationRequest \<Rightarrow> ValueEvaluationResponse result) \<times> real \<times> int list list) list \<Rightarrow>
   ValueEvaluatorClient \<Rightarrow> ValueEvaluationResponse result list \<times> ValueEvaluatorClient" where
  "run_calls [] c = ([], c)"
| "run_calls ((post, latency, tss) # calls) c =
     (case client_evaluate post latency tss c of
        (r, c1) \<Rightarrow> (case run_calls calls c1 of (rs, c2) \<Rightarrow> (r # rs, c2)))"

lemma run_calls_counts:
  "run_calls calls c = (rs, c') \<Longrightarrow>
   length rs = length calls \<and> cl_requests c' = cl_requests c + int (length calls) \<and>
   cl_errors c' = cl_errors c + int (length (filter isl rs)) \<and>
   cl_latency_seconds c' = cl_latency_seconds c + sum_list (map (\<lambda>(p, l, t). l) calls)"
proof (induction calls arbitrary: c rs c')
  case (Cons call calls)
  obtain post latency tss where call: "call = (post, latency, tss)" by (cases call)
  obtain r c1 where r: "client_evaluate post latency tss c = (r, c1)" by (cases "client_evaluate post latency tss c")
  obtain rs' c2 where rs: "run_calls calls c1 = (rs', c2)" by (cases "run_calls calls c1")
  show ?case using Cons.IH[OF rs] client_evaluate_counts[OF r] Cons.prems r rs by (auto simp: call)
qed simp

lemma run_calls_aligned:
  "run_calls calls c = (rs, c') \<Longrightarrow>
   list_all2 (\<lambda>(post, latency, tss) r. \<forall>x. r = Ok x \<longrightarrow> map length (vresp_values x) = map length tss) calls rs"
proof (induction calls arbitrary: c rs c')
  case (Cons call calls)
  obtain post latency tss where call: "call = (post, latency, tss)" by (cases call)
  obtain r c1 where r: "client_evaluate post latency tss c = (r, c1)" by (cases "client_evaluate post latency tss c")
  obtain rs' c2 where rs: "run_calls calls c1 = (rs', c2)" by (cases "run_calls calls c1")
  have "\<forall>x. r = Ok x \<longrightarrow> map length (vresp_values x) = map length tss"
    using r by (auto simp: client_evaluate_def Let_def split: prod.splits dest: evaluate_body_Ok)
  then show ?case using Cons.IH[OF rs] Cons.prems r rs by (auto simp: call)
qed simp

text \<open>
  After any sequence of evaluations on a fresh client, whatever the endpoints did, the metrics
  account for every call: requests are the calls, errors exactly the calls that raised, the error
  rate lies in [0, 1] and the mean latency is the average over all calls; and every response handed
  to the caller has one value per token of each of its sequences.
\<close>

lemma client_metrics_account:
  assumes run: "run_calls calls (ValueEvaluatorClient_init config) = (rs, c)"
  shows "let m = client_metrics_of c in
    cm_requests m = int (length calls) \<and> cm_errors m = int (length (filter isl rs)) \<and>
    0 \<le> cm_error_rate m \<and> cm_error_rate m \<le> 1 \<and>
    cm_latency_mean m * real (length calls) = sum_list (map (\<lambda>(p, l, t). l) calls) \<and>
    list_all2 (\<lambda>(post, latency, tss) r. \<forall>x. r = Ok x \<longrightarrow> map length (vresp_values x) = map length tss) calls rs"
proof -
  note n = run_calls_counts[OF run]
  have "length (filter isl rs) \<le> length calls" using n length_filter_le[of isl rs] by simp
  then show ?thesis
    using n run_calls_aligned[OF run]
    by (auto simp: Let_def client_metrics_of_def ValueEvaluatorClient_init_def divide_le_eq_1)
qed

definition demo_calls :: "((string \<Rightarrow> ValueEvaluationRequest \<Rightarrow> ValueEvaluationResponse result) \<times> real \<times> int list list) list" where
  "demo_calls =
     [(\<lambda>url req. Ok \<lparr> vresp_values = map (map real_of_int) (ver_token_ids req), vresp_version = 3 \<rparr>, 1, [[1, 2]]),
      (\<lambda>url req. Ok \<lparr> vresp_values = [], vresp_version = 4 \<rparr>, 2, [[1]])]"

lemma client_metrics_account_witness:
  "let c = snd (run_calls demo_calls (ValueEvaluatorClient_init
        (demo_service_config\<lparr> vec_base_url := [''http://a/'', ''http://b''] \<rparr>)))
   in cm_requests (client_metrics_of c) = 2 \<and> cm_error_rate (client_metrics_of c) \<le> 1"
  using client_metrics_account[OF prod.collapse[symmetric], of demo_calls "demo_service_config\<lparr> vec_base_url := [''http://a/'', ''http://b''] \<rparr>"]
  by (simp add: Let_def demo_calls_def)

end
