(* ===== verification/Value_Weights.thy ===== *)
theory Value_Weights
  imports Provenance Value_Inference
begin

text \<open>
  \<^verbatim>\<open>value/weights.py\<close> with the broadcast helpers it calls (\<^verbatim>\<open>trainer/conversion_utils.py\<close>,
  \<^verbatim>\<open>trainer/rl/broadcast/nccl.py\<close>, \<^verbatim>\<open>inference/vllm/worker/nccl.py\<close>): the value trainer announces a
  version on a TCP control stream and sends the layers over NCCL; an evaluator reads the announcement
  through arbitrary fragmentation and timeouts and rebuilds the layers. A TCP stream is the list of
  outcomes of its \<open>recv\<close> calls, an NCCL communicator the list of broadcasts still to be received.
\<close>

section \<open>The control stream\<close>

datatype recv_event = SocketTimeout | Arrived "8 word list"

text \<open>
  \<open>_recv_exact\<close>. \<open>recv(remaining)\<close> returns at most \<open>remaining\<close> bytes and leaves the others in the socket;
  an empty read means that the peer closed. \<open>None\<close>: still blocked when the events end.
\<close>

function recv_exact :: "nat \<Rightarrow> recv_event list \<Rightarrow> (8 word list \<times> recv_event list) result option" where
  "recv_exact 0 sock = Some (Ok ([], sock))"
| "recv_exact (Suc n) [] = None"
| "recv_exact (Suc n) (SocketTimeout # sock) = recv_exact (Suc n) sock"
| "recv_exact (Suc n) (Arrived bs # sock) =
     (if bs = [] then Some (Raise (ConnectionError ''value weight control connection closed''))
      else let rest = drop (Suc n) bs; chunk = take (Suc n) bs
           in (case recv_exact (Suc n - length chunk) (if rest = [] then sock else Arrived rest # sock) of
                 None \<Rightarrow> None
               | Some (Inl e) \<Rightarrow> Some (Raise e)
               | Some (Inr (bytes, sock')) \<Rightarrow> Some (Ok (chunk @ bytes, sock'))))"
  by pat_completeness auto
termination
  by (relation "measures [\<lambda>(n, sock). n, \<lambda>(n, sock). length sock]") (auto simp: Suc_diff_le neq_Nil_conv)

text \<open>\<open>struct.Struct("!q")\<close>: eight bytes, most significant first.\<close>

definition VERSION_pack :: "int \<Rightarrow> 8 word list result" where
  "VERSION_pack v =
     raise_if (v < - (2 ^ 63) \<or> v \<ge> 2 ^ 63) StructError (Ok (rev (bytes_of (word_of_int v))))"

definition VERSION_unpack :: "8 word list \<Rightarrow> int result" where
  "VERSION_unpack bs = raise_if (length bs \<noteq> 8) StructError (Ok (sint (of_bytes (rev bs))))"

section \<open>Tensors and broadcasts\<close>

text \<open>A dense tensor: dtype, shape and its elements in row-major order.\<close>

record 'a tensor =
  ts_dtype :: string
  ts_shape :: "nat list"
  ts_data :: "'a list"

definition numel :: "'a tensor \<Rightarrow> nat" where
  "numel t = prod_list (ts_shape t)"

definition tensor_ok :: "'a tensor \<Rightarrow> bool" where
  "tensor_ok t \<longleftrightarrow> length (ts_data t) = numel t"

datatype 'a param = Dense "'a tensor" | DTensor "'a tensor"

text \<open>
  What one collective carries: an integer, the pickled metadata of a state dict, or the
  concatenated elements of one dtype group.
\<close>

datatype 'a broadcast =
    IntMsg int
  | MetaMsg "(string \<times> (string \<times> nat list \<times> nat) list) list"
  | DataMsg string "'a list"

text \<open>The dtype groups, in order of first appearance.\<close>

fun add_to_group :: "string \<times> 'a tensor \<Rightarrow> (string \<times> (string \<times> 'a tensor) list) list \<Rightarrow> (string \<times> (string \<times> 'a tensor) list) list" where
  "add_to_group (key, t) [] = [(ts_dtype t, [(key, t)])]"
| "add_to_group (key, t) ((dtype, items) # groups) =
     (if dtype = ts_dtype t then (dtype, items @ [(key, t)]) # groups
      else (dtype, items) # add_to_group (key, t) groups)"

definition dtype_groups :: "(string \<times> 'a tensor) list \<Rightarrow> (string \<times> (string \<times> 'a tensor) list) list" where
  "dtype_groups state_dict = fold add_to_group state_dict []"

text \<open>\<open>broadcast_state_dict\<close>; \<open>pickle_len\<close> is the length of the pickled metadata.\<close>

definition group_metadata :: "(string \<times> (string \<times> 'a tensor) list) list \<Rightarrow> (string \<times> (string \<times> nat list \<times> nat) list) list" where
  "group_metadata groups = map (\<lambda>(dtype, items). (dtype, map (\<lambda>(key, t). (key, ts_shape t, numel t)) items)) groups"

definition broadcast_state_dict ::
  "((string \<times> (string \<times> nat list \<times> nat) list) list \<Rightarrow> int) \<Rightarrow> (string \<times> 'a tensor) list \<Rightarrow> 'a broadcast list" where
  "broadcast_state_dict pickle_len state_dict =
     (let groups = dtype_groups state_dict; metadata = group_metadata groups
      in [IntMsg (pickle_len metadata), MetaMsg metadata]
         @ map (\<lambda>(dtype, items). DataMsg dtype (concat (map (\<lambda>(key, t). ts_data t) items))) groups)"

text \<open>
  \<open>receive_integer\<close> and \<open>receive_state_dict\<close>. \<open>None\<close>: the next collective is not the expected one, so
  the ranks no longer match.
\<close>

fun receive_integer :: "'a broadcast list \<Rightarrow> (int \<times> 'a broadcast list) option" where
  "receive_integer (IntMsg n # chan) = Some (n, chan)"
| "receive_integer chan = None"

fun split_group :: "string \<Rightarrow> 'a list \<Rightarrow> nat \<Rightarrow> (string \<times> nat list \<times> nat) list \<Rightarrow> (string \<times> 'a tensor) list" where
  "split_group dtype concatenated offset [] = []"
| "split_group dtype concatenated offset ((key, shape, n) # infos) =
     (key, \<lparr> ts_dtype = dtype, ts_shape = shape, ts_data = take n (drop offset concatenated) \<rparr>)
     # split_group dtype concatenated (offset + n) infos"

fun receive_groups ::
  "(string \<times> (string \<times> nat list \<times> nat) list) list \<Rightarrow> 'a broadcast list \<Rightarrow> ((string \<times> 'a tensor) list \<times> 'a broadcast list) option" where
  "receive_groups [] chan = Some ([], chan)"
| "receive_groups ((dtype, infos) # metas) (DataMsg dtype' concatenated # chan) =
     (if dtype' = dtype \<and> length concatenated = sum_list (map (\<lambda>(key, shape, n). n) infos)
      then (case receive_groups metas chan of
              None \<Rightarrow> None
            | Some (items, chan') \<Rightarrow> Some (split_group dtype concatenated 0 infos @ items, chan'))
      else None)"
| "receive_groups _ chan = None"

fun receive_state_dict :: "'a broadcast list \<Rightarrow> ((string \<times> 'a tensor) list \<times> 'a broadcast list) option" where
  "receive_state_dict (IntMsg n # MetaMsg metadata # chan) = receive_groups metadata chan"
| "receive_state_dict chan = None"

section \<open>Layers\<close>

definition starts_with :: "string \<Rightarrow> string \<Rightarrow> bool" where
  "starts_with pre key \<longleftrightarrow> take (length pre) key = pre"

text \<open>\<open>key[len(layer_prefix):].split(".")[0]\<close>\<close>

definition layer_num_str :: "string \<Rightarrow> string \<Rightarrow> string" where
  "layer_num_str pre key = takeWhile (\<lambda>c. c \<noteq> CHR ''.'') (drop (length pre) key)"

definition max_layer_step :: "string \<Rightarrow> string \<Rightarrow> int \<Rightarrow> int" where
  "max_layer_step pre key max_num =
     (if \<not> starts_with pre key then max_num
      else let num = layer_num_str pre key
           in if num \<noteq> [] \<and> list_all is_digit num then max max_num (int (parse_digits num)) else max_num)"

definition get_max_layer_num :: "string list \<Rightarrow> string \<Rightarrow> int" where
  "get_max_layer_num keys pre = fold (max_layer_step pre) keys (-1) + 1"

definition filter_state_dict_by_layers :: "(string \<times> 'a) list \<Rightarrow> int \<Rightarrow> string \<Rightarrow> (int \<times> (string \<times> 'a) list) list" where
  "filter_state_dict_by_layers state_dict num_layers pre =
     (-1, filter (\<lambda>p. \<not> starts_with pre (fst p)) state_dict)
     # map (\<lambda>i. (int i, filter (\<lambda>p. starts_with (pre @ show_nat i @ ''.'') (fst p)) state_dict)) [0..<nat num_layers]"

section \<open>Publisher and receiver\<close>

definition is_floating_point :: "'a tensor \<Rightarrow> bool" where
  "is_floating_point t \<longleftrightarrow> ts_dtype t \<in>
     {''float64'', ''float32'', ''float16'', ''bfloat16'', ''float8_e4m3fn'', ''float8_e4m3fnuz'', ''float8_e5m2'', ''float8_e5m2fnuz'', ''float8_e8m0fnu''}"

text \<open>Materialise a shard and convert floating weights; \<open>to\<close> is \<open>Tensor.to(dtype)\<close> on elements.\<close>

definition resolve_param :: "(string \<Rightarrow> 'a \<Rightarrow> 'a) \<Rightarrow> string \<Rightarrow> 'a param \<Rightarrow> 'a tensor" where
  "resolve_param to transfer_dtype p =
     (let full = (case p of Dense t \<Rightarrow> t | DTensor t \<Rightarrow> t)
      in if is_floating_point full
         then full\<lparr> ts_dtype := transfer_dtype, ts_data := map (to transfer_dtype) (ts_data full) \<rparr> else full)"

definition resolve_layer :: "(string \<Rightarrow> 'a \<Rightarrow> 'a) \<Rightarrow> string \<Rightarrow> (string \<times> 'a param) list \<Rightarrow> (string \<times> 'a tensor) list" where
  "resolve_layer to transfer_dtype layer = map (\<lambda>(key, p). (key, resolve_param to transfer_dtype p)) layer"

text \<open>\<open>publish\<close> on the master rank: the bytes on each control connection and the broadcasts.\<close>

definition publish ::
  "((string \<times> (string \<times> nat list \<times> nat) list) list \<Rightarrow> int) \<Rightarrow> (string \<Rightarrow> 'a \<Rightarrow> 'a) \<Rightarrow> string \<Rightarrow> string \<Rightarrow>
   (string \<times> 'a param) list \<Rightarrow> int \<Rightarrow> (8 word list \<times> 'a broadcast list) result" where
  "publish pickle_len to transfer_dtype pre state_dict version =
     (let num_layers = get_max_layer_num (map fst state_dict) pre
      in bindE (VERSION_pack version) (\<lambda>announcement.
           Ok (announcement,
               [IntMsg version, IntMsg (num_layers + 1)]
               @ concat (map (\<lambda>(i, layer). broadcast_state_dict pickle_len (resolve_layer to transfer_dtype layer))
                          (filter_state_dict_by_layers state_dict num_layers pre)))))"

fun receive_layers :: "nat \<Rightarrow> 'a broadcast list \<Rightarrow> ((string \<times> 'a tensor) list list \<times> 'a broadcast list) option" where
  "receive_layers 0 chan = Some ([], chan)"
| "receive_layers (Suc n) chan =
     (case receive_state_dict chan of
        None \<Rightarrow> None
      | Some (layer, chan1) \<Rightarrow>
          (case receive_layers n chan1 of None \<Rightarrow> None | Some (layers, chan2) \<Rightarrow> Some (layer # layers, chan2)))"

text \<open>\<open>receive\<close>, with the returned generator drained.\<close>

definition receive ::
  "recv_event list \<Rightarrow> 'a broadcast list \<Rightarrow>
   (int \<times> (string \<times> 'a tensor) list list \<times> recv_event list \<times> 'a broadcast list) result option" where
  "receive sock chan =
     (case recv_exact 8 sock of
        None \<Rightarrow> None
      | Some (Inl e) \<Rightarrow> Some (Raise e)
      | Some (Inr (bytes, sock')) \<Rightarrow>
        (case VERSION_unpack bytes of
           Inl e \<Rightarrow> Some (Raise e)
         | Inr announced \<Rightarrow>
           (case receive_integer chan of
              None \<Rightarrow> None
            | Some (version, chan1) \<Rightarrow>
              if version \<noteq> announced then Some (Raise (RuntimeError ''value weight version mismatch''))
              else (case receive_integer chan1 of
                      None \<Rightarrow> None
                    | Some (n, chan2) \<Rightarrow>
                      (case receive_layers (nat n) chan2 of
                         None \<Rightarrow> None
                       | Some (layers, chan3) \<Rightarrow> Some (Ok (version, layers, sock', chan3)))))))"

section \<open>Reading an announcement\<close>

fun payload :: "recv_event list \<Rightarrow> 8 word list" where
  "payload [] = []"
| "payload (SocketTimeout # sock) = payload sock"
| "payload (Arrived bs # sock) = bs @ payload sock"

definition still_open :: "recv_event list \<Rightarrow> bool" where
  "still_open sock \<longleftrightarrow> Arrived [] \<notin> set sock"

lemma recv_exact_ok:
  "still_open sock \<Longrightarrow> n \<le> length (payload sock) \<Longrightarrow>
   \<exists>sock'. recv_exact n sock = Some (Ok (take n (payload sock), sock')) \<and>
     payload sock' = drop n (payload sock) \<and> still_open sock'"
proof (induction n sock rule: recv_exact.induct)
  case (3 n sock)
  then show ?case by (simp add: still_open_def)
next
  case (4 n bs sock)
  let ?rest = "drop (Suc n) bs"
  let ?sock = "if ?rest = [] then sock else Arrived ?rest # sock"
  have ne: "bs \<noteq> []" using 4(2) by (auto simp: still_open_def)
  have op: "still_open ?sock" using 4(2) by (auto simp: still_open_def)
  have pl: "payload ?sock = ?rest @ payload sock" by simp
  have len: "Suc n - length (take (Suc n) bs) \<le> length (payload ?sock)" using 4(3) by auto
  obtain sock' where
    r: "recv_exact (Suc n - length (take (Suc n) bs)) ?sock = Some (Ok (take (Suc n - length (take (Suc n) bs)) (payload ?sock), sock'))"
    and p: "payload sock' = drop (Suc n - length (take (Suc n) bs)) (payload ?sock)" and o: "still_open sock'"
    using 4(1)[OF ne refl refl op len] by blast
  have t: "take (Suc n) bs @ take (Suc n - length (take (Suc n) bs)) (payload ?sock) = take (Suc n) (bs @ payload sock)"
    unfolding pl by (cases "Suc n \<le> length bs") simp_all
  have d: "drop (Suc n - length (take (Suc n) bs)) (payload ?sock) = drop (Suc n) (bs @ payload sock)"
    unfolding pl by (cases "Suc n \<le> length bs") simp_all
  show ?case using ne r p o t d by (simp only: recv_exact.simps Let_def payload.simps if_False option.case sum.case prod.case) simp
qed auto

lemma VERSION_roundtrip:
  assumes "VERSION_pack v = Ok bs"
  shows "length bs = 8" "VERSION_unpack bs = Ok v"
proof -
  have r: "- (2 ^ 63) \<le> v" "v < 2 ^ 63" and bs: "bs = rev (bytes_of (word_of_int v))"
    using assms by (auto simp: VERSION_pack_def raise_if_def split: if_splits)
  show "length bs = 8" by (simp add: bs)
  have "signed_take_bit 63 v = v" by (rule signed_take_bit_int_eq_self) (use r in auto)
  then have "sint (word_of_int v :: 64 word) = v" by (simp add: sint_sbintrunc')
  then show "VERSION_unpack bs = Ok v" by (simp add: VERSION_unpack_def bs of_bytes_bytes)
qed

section \<open>State dicts survive the wire\<close>

definition groups_ok :: "(string \<times> (string \<times> 'a tensor) list) list \<Rightarrow> bool" where
  "groups_ok groups \<longleftrightarrow> (\<forall>(dtype, items) \<in> set groups. \<forall>(key, t) \<in> set items. ts_dtype t = dtype \<and> tensor_ok t)"

lemma add_to_group_ok:
  "groups_ok groups \<Longrightarrow> tensor_ok t \<Longrightarrow>
   groups_ok (add_to_group (key, t) groups) \<and>
   mset (concat (map snd (add_to_group (key, t) groups))) = mset (concat (map snd groups)) + {#(key, t)#}"
  by (induction "(key, t)" groups rule: add_to_group.induct) (auto simp: groups_ok_def)

lemma dtype_groups_ok:
  assumes "\<forall>(key, t) \<in> set sd. tensor_ok t"
  shows "groups_ok (dtype_groups sd) \<and> mset (concat (map snd (dtype_groups sd))) = mset sd"
proof -
  have "groups_ok (fold add_to_group sd gs) \<and> mset (concat (map snd (fold add_to_group sd gs))) = mset (concat (map snd gs)) + mset sd"
    if "groups_ok gs" for gs
    using assms that
  proof (induction sd arbitrary: gs)
    case (Cons p sd)
    obtain key t where p: "p = (key, t)" by (cases p)
    have "groups_ok (add_to_group p gs)" "mset (concat (map snd (add_to_group p gs))) = mset (concat (map snd gs)) + {#p#}"
      using add_to_group_ok[OF Cons.prems(2), of t key] Cons.prems(1) p by auto
    then show ?case using Cons.IH[of "add_to_group p gs"] Cons.prems(1) by simp
  qed simp
  from this[of "[]"] show ?thesis by (simp add: dtype_groups_def) (simp add: groups_ok_def)
qed

lemma split_group_ok:
  assumes "\<forall>(key, t) \<in> set items. ts_dtype t = dtype \<and> tensor_ok t"
  shows "split_group dtype (pre @ concat (map (\<lambda>(key, t). ts_data t) items)) (length pre)
     (map (\<lambda>(key, t). (key, ts_shape t, numel t)) items) = items"
  using assms
proof (induction items arbitrary: pre)
  case (Cons p items)
  obtain key and t :: "'a tensor" where p: "p = (key, t)" by (cases p)
  have t: "ts_dtype t = dtype" "length (ts_data t) = numel t" using Cons.prems p by (auto simp: tensor_ok_def)
  have "split_group dtype ((pre @ ts_data t) @ concat (map (\<lambda>(key, t). ts_data t) items)) (length (pre @ ts_data t))
     (map (\<lambda>(key, t). (key, ts_shape t, numel t)) items) = items"
    by (rule Cons.IH) (use Cons.prems in auto)
  then show ?case using t by (simp add: p)
qed simp

lemma receive_groups_ok:
  "groups_ok groups \<Longrightarrow>
   receive_groups (group_metadata groups)
     (map (\<lambda>(dtype, items). DataMsg dtype (concat (map (\<lambda>(key, t). ts_data t) items))) groups @ chan)
   = Some (concat (map snd groups), chan)"
proof (induction groups)
  case (Cons g groups)
  obtain dtype items where g: "g = (dtype, items)" by (cases g)
  have items: "\<forall>(key, t) \<in> set items. ts_dtype t = dtype \<and> tensor_ok t" using Cons.prems g by (auto simp: groups_ok_def)
  have "length (concat (map (\<lambda>(key, t). ts_data t) items)) = sum_list (map (\<lambda>(key, shape, n). n) (map (\<lambda>(key, t). (key, ts_shape t, numel t)) items))"
    using items by (induction items) (auto simp: tensor_ok_def)
  moreover have "groups_ok groups" using Cons.prems by (auto simp: groups_ok_def)
  ultimately show ?case
    using Cons.IH split_group_ok[OF items, of "[]"] by (simp add: g group_metadata_def)
qed (simp add: group_metadata_def)

lemma state_dict_roundtrip:
  assumes "\<forall>(key, t) \<in> set sd. tensor_ok t"
  shows "\<exists>sd'. receive_state_dict (broadcast_state_dict pickle_len sd @ chan) = Some (sd', chan) \<and> mset sd' = mset sd"
  using dtype_groups_ok[OF assms] receive_groups_ok[of "dtype_groups sd" chan]
  by (simp add: broadcast_state_dict_def Let_def)

lemma layers_roundtrip:
  assumes "\<forall>sd \<in> set layers. \<forall>(key, t) \<in> set sd. tensor_ok t"
  shows "\<exists>layers'. receive_layers (length layers) (concat (map (broadcast_state_dict pickle_len) layers) @ chan) = Some (layers', chan) \<and>
     mset (concat layers') = mset (concat layers) \<and> length layers' = length layers"
  using assms
proof (induction layers)
  case (Cons sd layers)
  obtain rest where rest: "receive_layers (length layers) (concat (map (broadcast_state_dict pickle_len) layers) @ chan) = Some (rest, chan)"
      "mset (concat rest) = mset (concat layers)" "length rest = length layers"
    using Cons by auto
  obtain sd' where "receive_state_dict (broadcast_state_dict pickle_len sd @ concat (map (broadcast_state_dict pickle_len) layers) @ chan)
      = Some (sd', concat (map (broadcast_state_dict pickle_len) layers) @ chan)" "mset sd' = mset sd"
    using state_dict_roundtrip[of sd pickle_len "concat (map (broadcast_state_dict pickle_len) layers) @ chan"] Cons.prems by auto
  then show ?case using rest by simp
qed simp

section \<open>Layers partition the state dict\<close>

text \<open>A key outside the layers, or \<open><prefix><i>.<name>\<close> with the plain decimal index \<open>i\<close>.\<close>

definition canonical_key :: "string \<Rightarrow> string \<Rightarrow> bool" where
  "canonical_key pre key \<longleftrightarrow> \<not> starts_with pre key \<or> starts_with (pre @ show_nat (parse_digits (layer_num_str pre key)) @ ''.'') key"

lemma starts_with_iff: "starts_with a key \<longleftrightarrow> (\<exists>r. key = a @ r)"
  unfolding starts_with_def by (metis append_eq_conv_conj append_take_drop_id)

lemma starts_with_append: "starts_with (a @ b) key \<longleftrightarrow> starts_with a key \<and> starts_with b (drop (length a) key)"
  unfolding starts_with_iff by auto

lemma layer_num_str_at:
  assumes "starts_with (pre @ show_nat j @ ''.'') key"
  shows "layer_num_str pre key = show_nat j"
proof -
  have "starts_with (show_nat j @ ''.'') (drop (length pre) key)" using assms starts_with_append by blast
  then obtain r where r: "drop (length pre) key = (show_nat j @ ''.'') @ r"
    unfolding starts_with_def by (metis append_take_drop_id)
  have "\<forall>c \<in> set (show_nat j). c \<noteq> CHR ''.''"
    using show_nat_props[of j] by (auto simp: list_all_iff is_digit_def)
  then show ?thesis by (simp add: layer_num_str_def r takeWhile_append2)
qed

definition layer_index :: "string \<Rightarrow> string \<Rightarrow> nat option" where
  "layer_index pre key = (if starts_with pre key then Some (parse_digits (layer_num_str pre key)) else None)"

lemma canonical_layer:
  assumes "canonical_key pre key"
  shows "starts_with (pre @ show_nat j @ ''.'') key \<longleftrightarrow> layer_index pre key = Some j"
proof
  assume a: "starts_with (pre @ show_nat j @ ''.'') key"
  then have "starts_with pre key" using starts_with_append by blast
  then show "layer_index pre key = Some j"
    using layer_num_str_at[OF a] show_nat_props[of j] by (simp add: layer_index_def)
next
  assume "layer_index pre key = Some j"
  then show "starts_with (pre @ show_nat j @ ''.'') key"
    using assms by (auto simp: canonical_key_def layer_index_def split: if_splits)
qed

lemma max_layer_mono: "a \<le> fold (max_layer_step pre) ks a"
proof (induction ks arbitrary: a)
  case (Cons k ks)
  have "a \<le> max_layer_step pre k a" by (simp add: max_layer_step_def Let_def)
  also have "\<dots> \<le> fold (max_layer_step pre) ks (max_layer_step pre k a)" by (rule Cons.IH)
  finally show ?case by simp
qed simp

lemma get_max_layer_num_nonneg: "0 \<le> get_max_layer_num keys pre"
  using max_layer_mono[of "-1" pre keys] by (simp add: get_max_layer_num_def)

lemma get_max_layer_num_bound:
  assumes "key \<in> set keys" "canonical_key pre key" "layer_index pre key = Some i"
  shows "i < nat (get_max_layer_num keys pre)"
proof -
  have at: "layer_num_str pre key = show_nat i" "starts_with pre key"
    using assms canonical_layer[of pre key i] layer_num_str_at[of pre i key] by (auto simp: layer_index_def split: if_splits)
  have "int i \<le> fold (max_layer_step pre) keys a" for a
    using assms(1)
  proof (induction keys arbitrary: a)
    case (Cons k ks)
    show ?case
    proof (cases "k = key")
      case True
      have "int i \<le> max_layer_step pre key a" using at show_nat_props[of i] by (simp add: max_layer_step_def Let_def)
      also have "\<dots> \<le> fold (max_layer_step pre) (k # ks) a" using True max_layer_mono by simp
      finally show ?thesis .
    qed (use Cons in simp)
  qed simp
  from this[of "-1"] show ?thesis unfolding get_max_layer_num_def by linarith
qed

lemma mset_by_index:
  "mset (concat (map (\<lambda>j. filter (\<lambda>x. idx x = Some j) xs) [0..<n])) = mset (filter (\<lambda>x. \<exists>j<n. idx x = Some j) xs)"
proof (induction n)
  case (Suc n)
  have "mset (filter (\<lambda>x. \<exists>j<Suc n. idx x = Some j) xs) =
      mset (filter (\<lambda>x. \<exists>j<n. idx x = Some j) xs) + mset (filter (\<lambda>x. idx x = Some n) xs)"
    by (induction xs) (auto simp: less_Suc_eq)
  then show ?case using Suc by simp
qed simp

lemma layers_partition:
  assumes "list_all (canonical_key pre) (map fst sd)"
  shows "mset (concat (map snd (filter_state_dict_by_layers sd (get_max_layer_num (map fst sd) pre) pre))) = mset sd"
proof -
  let ?n = "nat (get_max_layer_num (map fst sd) pre)" and ?idx = "\<lambda>p. layer_index pre (fst p)"
  have can: "\<And>p. p \<in> set sd \<Longrightarrow> canonical_key pre (fst p)" using assms by (auto simp: list_all_iff)
  have q: "filter (\<lambda>p. starts_with (pre @ show_nat j @ ''.'') (fst p)) sd = filter (\<lambda>p. ?idx p = Some j) sd" for j
    by (rule filter_cong) (use can canonical_layer in auto)
  have lt: "filter (\<lambda>p. \<exists>j<?n. ?idx p = Some j) sd = filter (\<lambda>p. starts_with pre (fst p)) sd"
  proof (rule filter_cong)
    fix p assume p: "p \<in> set sd"
    have "i < ?n" if "?idx p = Some i" for i
      by (rule get_max_layer_num_bound[of "fst p"]) (use p can that in auto)
    then show "(\<exists>j<?n. ?idx p = Some j) = starts_with pre (fst p)" by (auto simp: layer_index_def)
  qed simp
  have "mset (filter (\<lambda>p. \<not> starts_with pre (fst p)) sd) + mset (filter (\<lambda>p. starts_with pre (fst p)) sd) = mset sd"
    by (induction sd) auto
  then show ?thesis
    unfolding filter_state_dict_by_layers_def q list.map map_map comp_def snd_conv concat.simps mset_append
      mset_by_index[of ?idx] lt .
qed

text \<open>
  C30: A published value model reaches every evaluator intact. Whatever way TCP cuts the control stream
  into reads, and however many reads time out, \<open>receive\<close> on the publisher's announcements and
  broadcasts returns the announced version with layers that together are exactly the resolved state
  dict (each weight once, with its dtype, shape and elements), and leaves the following
  announcements and broadcasts unread for the next update.
\<close>

theorem published_weights_received:
  assumes pub: "publish pickle_len to transfer_dtype pre state_dict version = Ok (announcement, msgs)"
    and keys: "list_all (canonical_key pre) (map fst state_dict)"
    and dense: "list_all (\<lambda>(key, p). tensor_ok (resolve_param to transfer_dtype p)) state_dict"
    and sock: "still_open sock" "payload sock = announcement @ later"
  shows "\<exists>layers sock'. receive sock (msgs @ chan) = Some (Ok (version, layers, sock', chan)) \<and>
     mset (concat layers) = mset (resolve_layer to transfer_dtype state_dict) \<and>
     still_open sock' \<and> payload sock' = later"
proof -
  let ?n = "get_max_layer_num (map fst state_dict) pre"
  let ?layers = "filter_state_dict_by_layers state_dict ?n pre"
  let ?sent = "map (\<lambda>l. resolve_layer to transfer_dtype (snd l)) ?layers"
  have ann: "VERSION_pack version = Ok announcement"
    and msgs: "msgs = [IntMsg version, IntMsg (?n + 1)] @ concat (map (broadcast_state_dict pickle_len) ?sent)"
    using pub by (auto simp: publish_def Let_def result_simps comp_def case_prod_unfold)
  note v = VERSION_roundtrip[OF ann]
  obtain sock' where s: "recv_exact 8 sock = Some (Ok (announcement, sock'))" "payload sock' = later" "still_open sock'"
    using recv_exact_ok[OF sock(1), of 8] sock(2) v(1) by auto
  have len: "length ?sent = nat (?n + 1)"
    using get_max_layer_num_nonneg[of "map fst state_dict" pre] by (simp add: filter_state_dict_by_layers_def nat_add_distrib)
  have part: "mset (concat (map snd ?layers)) = mset state_dict" by (rule layers_partition[OF keys])
  have sub: "set (concat (map snd ?layers)) = set state_dict" by (rule mset_eq_setD[OF part])
  have ok: "\<forall>sd \<in> set ?sent. \<forall>(key, t) \<in> set sd. tensor_ok t"
  proof (intro ballI)
    fix sd x assume "sd \<in> set ?sent" "x \<in> set sd"
    then obtain l key p where l: "l \<in> set ?layers" "(key, p) \<in> set (snd l)" "x = (key, resolve_param to transfer_dtype p)"
      by (auto simp: resolve_layer_def)
    then have "(key, p) \<in> set state_dict" using sub by auto
    then show "case x of (key, t) \<Rightarrow> tensor_ok t" using dense l(3) by (auto simp: list_all_iff)
  qed
  obtain layers' where l: "receive_layers (length ?sent) (concat (map (broadcast_state_dict pickle_len) ?sent) @ chan) = Some (layers', chan)"
      "mset (concat layers') = mset (concat ?sent)"
    using layers_roundtrip[OF ok, of pickle_len chan] by blast
  have "concat ?sent = resolve_layer to transfer_dtype (concat (map snd ?layers))"
    by (simp add: resolve_layer_def map_concat comp_def)
  then have "mset (concat ?sent) = mset (resolve_layer to transfer_dtype state_dict)"
    using part unfolding resolve_layer_def by (simp add: mset_map del: filter_state_dict_by_layers_def)
  then show ?thesis
    using s v l by (simp add: receive_def msgs len del: length_map map_map)
qed

section \<open>A concrete update\<close>

definition demo_state_dict :: "(string \<times> int param) list" where
  "demo_state_dict =
     [(''embed'', Dense \<lparr> ts_dtype = ''float32'', ts_shape = [2], ts_data = [1, 2] \<rparr>),
      (''layers.0.w'', DTensor \<lparr> ts_dtype = ''float32'', ts_shape = [1, 2], ts_data = [3, 4] \<rparr>),
      (''layers.1.w'', Dense \<lparr> ts_dtype = ''int64'', ts_shape = [1], ts_data = [5] \<rparr>)]"

definition demo_sock :: "8 word list \<Rightarrow> recv_event list" where
  "demo_sock bs = [SocketTimeout, Arrived (take 3 bs), SocketTimeout, Arrived (drop 3 bs)]"

lemma demo_canonical: "list_all (canonical_key ''layers.'') (map fst demo_state_dict)"
  by (simp add: demo_state_dict_def canonical_key_def starts_with_def layer_num_str_def parse_digits_def digit_val_def
      show_nat.simps) (simp add: char_of_def bit_iff_odd)

theorem published_weights_received_witness:
  "\<exists>announcement msgs layers sock'.
     publish (\<lambda>m. 1) (\<lambda>d x. x) ''bfloat16'' ''layers.'' demo_state_dict 7 = Ok (announcement, msgs) \<and>
     receive (demo_sock announcement) msgs = Some (Ok (7, layers, sock', []))"
proof -
  obtain ann msgs where pub: "publish (\<lambda>m. 1) (\<lambda>d x. x) ''bfloat16'' ''layers.'' demo_state_dict 7 = Ok (ann, msgs)"
    by (simp add: publish_def VERSION_pack_def Let_def)
  then have "ann = rev (bytes_of 7)" by (simp add: publish_def VERSION_pack_def Let_def)
  then have len: "length ann = 8" by simp
  have "list_all (\<lambda>(key, p). tensor_ok (resolve_param (\<lambda>d x. x) ''bfloat16'' p)) demo_state_dict"
    by (simp add: demo_state_dict_def tensor_ok_def numel_def resolve_param_def Let_def)
  moreover have "still_open (demo_sock ann)" using len by (auto simp: still_open_def demo_sock_def)
  moreover have "payload (demo_sock ann) = ann @ []" by (simp add: demo_sock_def)
  ultimately obtain layers sock' where "receive (demo_sock ann) (msgs @ []) = Some (Ok (7, layers, sock', []))"
    using published_weights_received[OF pub demo_canonical] by blast
  then show ?thesis using pub by auto
qed

end
