(* ===== verification/Balanced_Partition.thy ===== *)
theory Balanced_Partition
  imports Prelude "HOL-Library.Product_Lexorder" "HOL-Library.List_Lexorder"
begin

text \<open>
  The load balancing of \<^verbatim>\<open>trainer/utils.py\<close>: Karmarkar-Karp differencing on blocks of equal size,
  then pairwise swaps until none helps. The swap search exists twice in the source, as plain loops
  over Python integers and as numpy int64 arrays; both are modelled, the second with the wrap-around
  of int64, and shown to be the same function. Python compares tuples and lists
  lexicographically, which the two library orders provide.
\<close>

section \<open>Karmarkar-Karp\<close>

record WeightedSet =
  ws_total :: int
  ws_items :: "nat list"

definition ws_key :: "WeightedSet \<Rightarrow> int \<times> nat list" where
  "ws_key s = (ws_total s, ws_items s)"

definition ws_merge :: "WeightedSet \<Rightarrow> WeightedSet \<Rightarrow> WeightedSet" where
  "ws_merge s other = \<lparr> ws_total = ws_total s + ws_total other, ws_items = ws_items s @ ws_items other \<rparr>"

text \<open>\<open>sets.sort(reverse=True)\<close>: stable and descending.\<close>

definition sort_reverse :: "WeightedSet list \<Rightarrow> WeightedSet list" where
  "sort_reverse sets = rev (sort_key ws_key (rev sets))"

type_synonym KKState = "WeightedSet list"

definition KKState_init :: "(nat \<times> int) list \<Rightarrow> nat \<Rightarrow> KKState" where
  "KKState_init items k =
     sort_reverse (map (\<lambda>(idx, weight). \<lparr> ws_total = weight, ws_items = [idx] \<rparr>) items
       @ replicate (k - length items) \<lparr> ws_total = 0, ws_items = [] \<rparr>)"

definition kk_spread :: "KKState \<Rightarrow> int" where
  "kk_spread st = ws_total (hd st) - ws_total (last st)"

definition kk_merge :: "KKState \<Rightarrow> KKState \<Rightarrow> KKState" where
  "kk_merge st other = sort_reverse (map2 ws_merge st (rev other))"

definition kk_partitions :: "KKState \<Rightarrow> nat list list" where
  "kk_partitions st = map (\<lambda>s. sort (ws_items s)) st"

definition kk_less :: "KKState \<Rightarrow> KKState \<Rightarrow> bool" where
  "kk_less a b = (if kk_spread a \<noteq> kk_spread b then kk_spread a > kk_spread b else ws_key (hd a) > ws_key (hd b))"

text \<open>
  \<open>heapq.heappop\<close>: a least element under \<open>__lt__\<close> and the rest of the heap. Live states hold
  disjoint items, so no two of them compare equal and the choice is determined.
\<close>

fun heappop :: "KKState \<Rightarrow> KKState list \<Rightarrow> KKState \<times> KKState list" where
  "heappop x [] = (x, [])"
| "heappop x (y # ys) =
     (case heappop y ys of (m, rest) \<Rightarrow> if kk_less m x then (m, x # rest) else (x, m # rest))"

lemma heappop_mset: "heappop x xs = (m, rest) \<Longrightarrow> mset (m # rest) = mset (x # xs)"
  by (induction x xs arbitrary: m rest rule: heappop.induct) (auto split: prod.splits if_splits)

lemma heappop_length: "heappop x xs = (m, rest) \<Longrightarrow> length rest = length xs"
  by (drule heappop_mset) (drule mset_eq_length, simp)

function kk_loop :: "KKState list \<Rightarrow> KKState result" where
  "kk_loop [] = Raise IndexError"
| "kk_loop [st] = Ok st"
| "kk_loop (x # y # zs) =
     (case heappop x (y # zs) of
        (a, []) \<Rightarrow> Raise IndexError
      | (a, r # rs) \<Rightarrow> (case heappop r rs of (b, rest) \<Rightarrow> kk_loop (kk_merge a b # rest)))"
  by pat_completeness auto
termination
  by (relation "measure length") (auto simp del: heappop.simps dest!: heappop_length[OF sym])

fun chunks :: "nat \<Rightarrow> 'a list \<Rightarrow> 'a list list" where
  "chunks k [] = []"
| "chunks k (x # xs) = (if k = 0 then [] else take k (x # xs) # chunks k (drop (k - 1) xs))"

definition weighted_indices :: "int list \<Rightarrow> (int \<times> nat) list" where
  "weighted_indices weights = sort (zip weights [0..<length weights])"

definition karmarkar_karp :: "int list \<Rightarrow> nat \<Rightarrow> nat list list result" where
  "karmarkar_karp weights k =
     raise_if (length weights < k) (AssertionError [])
     (raise_if (k = 0) ZeroDivisionError
     (raise_if (length weights mod k \<noteq> 0) (AssertionError [])
     (bindE (kk_loop (map (\<lambda>block. KKState_init (map (\<lambda>(weight, idx). (idx, weight)) block) k)
                       (chunks k (weighted_indices weights))))
        (\<lambda>st. Ok (kk_partitions st)))))"

section \<open>Refinement by swapping, scalar\<close>

definition partition_loads :: "int list \<Rightarrow> nat list list \<Rightarrow> int list" where
  "partition_loads weights parts = map (\<lambda>p. sum_list (map (\<lambda>i. weights ! i) p)) parts"

type_synonym swap = "nat \<times> nat \<times> nat \<times> nat"

definition load_score :: "int list \<Rightarrow> int \<times> int" where
  "load_score loads = (Max (set loads), Max (set loads) - Min (set loads))"

definition swap_loads :: "int list \<Rightarrow> nat list list \<Rightarrow> int list \<Rightarrow> swap \<Rightarrow> int list" where
  "swap_loads weights parts loads = (\<lambda>(l, r, lp, rp).
     let lw = weights ! (parts ! l ! lp); rw = weights ! (parts ! r ! rp)
     in loads[l := loads ! l - lw + rw, r := loads ! r - rw + lw])"

definition swap_parts :: "nat list list \<Rightarrow> swap \<Rightarrow> nat list list" where
  "swap_parts parts = (\<lambda>(l, r, lp, rp).
     parts[l := (parts ! l)[lp := parts ! r ! rp], r := (parts ! r)[rp := parts ! l ! lp]])"

text \<open>The four nested loops, outermost first.\<close>

definition rank_pairs :: "nat \<Rightarrow> (nat \<times> nat) list" where
  "rank_pairs n = concat (map (\<lambda>l. map (\<lambda>r. (l, r)) [l + 1..<n]) [0..<n])"

definition cells :: "nat list list \<Rightarrow> nat \<times> nat \<Rightarrow> swap list" where
  "cells parts = (\<lambda>(l, r). map (\<lambda>(lp, rp). (l, r, lp, rp)) (List.product [0..<length (parts ! l)] [0..<length (parts ! r)]))"

definition improve :: "('c \<Rightarrow> int \<times> int) \<Rightarrow> (int \<times> int) \<times> 'c option \<Rightarrow> 'c \<Rightarrow> (int \<times> int) \<times> 'c option" where
  "improve score best c = (if score c < fst best then (score c, Some c) else best)"

definition best_swap_scalar :: "int list \<Rightarrow> nat list list \<Rightarrow> int list \<Rightarrow> swap option" where
  "best_swap_scalar weights parts loads =
     snd (foldl (improve (\<lambda>c. load_score (swap_loads weights parts loads c))) (load_score loads, None)
       (concat (map (cells parts) (rank_pairs (length parts)))))"

partial_function (option) refine_scalar_loop :: "int list \<Rightarrow> nat list list \<Rightarrow> int list \<Rightarrow> nat list list option" where
  "refine_scalar_loop weights parts loads =
     (case best_swap_scalar weights parts loads of
        None \<Rightarrow> Some parts
      | Some c \<Rightarrow> refine_scalar_loop weights (swap_parts parts c) (swap_loads weights parts loads c))"

definition refine_by_swapping_scalar :: "int list \<Rightarrow> nat list list \<Rightarrow> nat list list option" where
  "refine_by_swapping_scalar weights parts = refine_scalar_loop weights parts (partition_loads weights parts)"

section \<open>Refinement by swapping, int64 arrays\<close>

text \<open>numpy int64 arithmetic wraps around silently.\<close>

definition int64 :: "int \<Rightarrow> int" where
  "int64 x = (x + 2 ^ 63) mod 2 ^ 64 - 2 ^ 63"

definition int64_max :: int where
  "int64_max = 2 ^ 63 - 1"

definition int64_min :: int where
  "int64_min = - (2 ^ 63)"

text \<open>\<open>argmin\<close>: the first position of the least element.\<close>

definition argmin :: "int list \<Rightarrow> nat" where
  "argmin vs = length (takeWhile (\<lambda>v. v \<noteq> Min (set vs)) vs)"

text \<open>\<open>np.delete(relative, [left_rank, right_rank])\<close>\<close>

definition others :: "int list \<Rightarrow> nat \<Rightarrow> nat \<Rightarrow> int list" where
  "others xs l r = map (\<lambda>i. xs ! i) (filter (\<lambda>i. i \<noteq> l \<and> i \<noteq> r) [0..<length xs])"

text \<open>The body of the loop over rank pairs, on the loads relative to the largest.\<close>

definition vec_new_max :: "int list \<Rightarrow> nat list list \<Rightarrow> int list \<Rightarrow> nat \<Rightarrow> nat \<Rightarrow> int \<Rightarrow> nat \<times> nat \<Rightarrow> int" where
  "vec_new_max weights parts relative l r other_max = (\<lambda>(lp, rp).
     let lw = weights ! (parts ! l ! lp); rw = weights ! (parts ! r ! rp)
     in max (max (int64 (int64 (relative ! l - lw) + rw)) (int64 (int64 (relative ! r - rw) + lw))) other_max)"

definition vec_new_min :: "int list \<Rightarrow> nat list list \<Rightarrow> int list \<Rightarrow> nat \<Rightarrow> nat \<Rightarrow> int \<Rightarrow> nat \<times> nat \<Rightarrow> int" where
  "vec_new_min weights parts relative l r other_min = (\<lambda>(lp, rp).
     let lw = weights ! (parts ! l ! lp); rw = weights ! (parts ! r ! rp)
     in min (min (int64 (int64 (relative ! l - lw) + rw)) (int64 (int64 (relative ! r - rw) + lw))) other_min)"

definition vec_step ::
  "int list \<Rightarrow> nat list list \<Rightarrow> int list \<Rightarrow> (int \<times> int) \<times> swap option \<Rightarrow> nat \<times> nat \<Rightarrow> (int \<times> int) \<times> swap option" where
  "vec_step weights parts relative best = (\<lambda>(l, r).
     if parts ! l = [] \<or> parts ! r = [] then best
     else
       let other_max = (if others relative l r \<noteq> [] then Max (set (others relative l r)) else int64_min);
           other_min = (if others relative l r \<noteq> [] then Min (set (others relative l r)) else int64_max);
           grid = List.product [0..<length (parts ! l)] [0..<length (parts ! r)];
           new_max = map (vec_new_max weights parts relative l r other_max) grid;
           lowest_max = Min (set new_max)
       in if lowest_max > fst (fst best) then best
          else
            let new_min = map (vec_new_min weights parts relative l r other_min) grid;
                spread = map2 (\<lambda>hi lo. if hi = lowest_max then int64 (hi - lo) else int64_max) new_max new_min;
                flat = argmin spread;
                score = (lowest_max, spread ! flat)
            in if score < fst best
               then (score, Some (l, r, flat div length (parts ! r), flat mod length (parts ! r)))
               else best)"

definition best_swap_vec :: "int list \<Rightarrow> nat list list \<Rightarrow> int list \<Rightarrow> swap option" where
  "best_swap_vec weights parts loads =
     (let top = Max (set loads); relative = map (\<lambda>load. load - top) loads
      in snd (foldl (vec_step weights parts relative) ((0, top - Min (set loads)), None) (rank_pairs (length parts))))"

partial_function (option) refine_vec_loop :: "int list \<Rightarrow> int \<Rightarrow> nat list list \<Rightarrow> int list \<Rightarrow> nat list list option" where
  "refine_vec_loop weights max_weight parts loads =
     (if Max (set loads) - Min (set loads) + 4 * max_weight \<ge> int64_max
      then refine_by_swapping_scalar weights parts
      else (case best_swap_vec weights parts loads of
              None \<Rightarrow> Some parts
            | Some c \<Rightarrow> refine_vec_loop weights max_weight (swap_parts parts c) (swap_loads weights parts loads c)))"

definition refine_by_swapping :: "int list \<Rightarrow> nat list list \<Rightarrow> nat list list option" where
  "refine_by_swapping weights parts =
     (let max_weight = (if weights = [] then 0 else Max (set (map abs weights)))
      in if 4 * max_weight \<ge> int64_max then refine_by_swapping_scalar weights parts
         else refine_vec_loop weights max_weight parts (partition_loads weights parts))"

definition balanced_partition :: "int list \<Rightarrow> nat \<Rightarrow> nat list list result option" where
  "balanced_partition weights k =
     (case karmarkar_karp weights k of
        Inl e \<Rightarrow> Some (Raise e)
      | Inr parts \<Rightarrow> (case refine_by_swapping weights parts of None \<Rightarrow> None | Some out \<Rightarrow> Some (Ok out)))"

section \<open>First minima\<close>

fun first_min :: "('c \<Rightarrow> 'b::linorder) \<Rightarrow> 'c \<Rightarrow> 'c list \<Rightarrow> 'c" where
  "first_min f x [] = x"
| "first_min f x (y # ys) = (let m = first_min f y ys in if f m < f x then m else x)"

lemma first_min_mem: "first_min f x xs \<in> set (x # xs)"
  by (induction f x xs rule: first_min.induct) (auto simp: Let_def)

lemma first_min_le: "z \<in> set (x # xs) \<Longrightarrow> f (first_min f x xs) \<le> f z"
  by (induction f x xs rule: first_min.induct) (auto simp: Let_def)

lemma first_min_nth:
  "first_min f x xs = m \<Longrightarrow> (x # xs) ! length (takeWhile (\<lambda>z. f z \<noteq> f m) (x # xs)) = m"
proof (induction f x xs arbitrary: m rule: first_min.induct)
  case (2 f x y ys)
  show ?case
  proof (cases "f (first_min f y ys) < f x")
    case True
    then have "m = first_min f y ys" using 2(2) by (simp add: Let_def)
    then show ?thesis using 2(1)[of m] True by (auto simp: less_imp_neq)
  next
    case False
    then show ?thesis using 2(2) by (simp add: Let_def)
  qed
qed simp

lemma length_takeWhile_less_mem: "z \<in> set xs \<Longrightarrow> \<not> P z \<Longrightarrow> length (takeWhile P xs) < length xs"
  by (induction xs) auto

lemma first_min_cong:
  assumes "\<And>z. z \<in> set (x # xs) \<Longrightarrow> (\<forall>w \<in> set (x # xs). f z \<le> f w) \<longleftrightarrow> (\<forall>w \<in> set (x # xs). g z \<le> g w)"
  shows "first_min f x xs = first_min g x xs"
proof -
  have least: "h z = h (first_min h x xs) \<longleftrightarrow> (\<forall>w \<in> set (x # xs). h z \<le> h w)" if "z \<in> set (x # xs)" for z and h :: "'a \<Rightarrow> 'd::linorder"
  proof
    show "\<forall>w \<in> set (x # xs). h z \<le> h w" if "h z = h (first_min h x xs)"
      using first_min_le[of _ x xs h] that by simp
    show "h z = h (first_min h x xs)" if "\<forall>w \<in> set (x # xs). h z \<le> h w"
      by (rule order_antisym[OF bspec[OF that first_min_mem] first_min_le[OF \<open>z \<in> set (x # xs)\<close>]])
  qed
  have "takeWhile (\<lambda>z. f z \<noteq> f (first_min f x xs)) (x # xs) = takeWhile (\<lambda>z. g z \<noteq> g (first_min g x xs)) (x # xs)"
    by (rule takeWhile_cong) (simp_all only: least assms)
  then show ?thesis using first_min_nth[OF refl, of x xs f] first_min_nth[OF refl, of x xs g] by argo
qed

lemma argmin_first_min:
  fixes g :: "'c \<Rightarrow> int"
  shows "(x # xs) ! argmin (map g (x # xs)) = first_min g x xs" "argmin (map g (x # xs)) < length (x # xs)"
proof -
  have m: "Min (set (map g (x # xs))) = g (first_min g x xs)"
    unfolding set_map
  proof (rule Min_eqI)
    show "g (first_min g x xs) \<in> g ` set (x # xs)" by (rule imageI[OF first_min_mem])
    show "g (first_min g x xs) \<le> y" if "y \<in> g ` set (x # xs)" for y
      using that first_min_le[of _ x xs g] by (auto simp only: image_iff)
  qed simp
  have a: "argmin (map g (x # xs)) = length (takeWhile (\<lambda>z. g z \<noteq> g (first_min g x xs)) (x # xs))"
    unfolding argmin_def m by (simp add: takeWhile_map comp_def del: takeWhile.simps list.map)
  show "(x # xs) ! argmin (map g (x # xs)) = first_min g x xs" unfolding a by (rule first_min_nth[OF refl])
  show "argmin (map g (x # xs)) < length (x # xs)"
    unfolding a by (rule length_takeWhile_less_mem[OF first_min_mem[of g x xs]]) simp
qed

lemma foldl_improve: "foldl (improve f) b (x # xs) = improve f b (first_min f x xs)"
proof (induction xs arbitrary: b x)
  case (Cons y ys)
  have "foldl (improve f) b (x # y # ys) = improve f (improve f b x) (first_min f y ys)"
    using Cons[of "improve f b x" y] by simp
  also have "\<dots> = improve f b (first_min f x (y # ys))" by (auto simp: improve_def Let_def)
  finally show ?case .
qed simp

section \<open>Well-formed partitions and swaps\<close>

definition parts_ok :: "int list \<Rightarrow> nat list list \<Rightarrow> bool" where
  "parts_ok weights parts \<longleftrightarrow> parts \<noteq> [] \<and> (\<forall>p \<in> set parts. \<forall>i \<in> set p. i < length weights)"

definition swap_ok :: "nat list list \<Rightarrow> swap \<Rightarrow> bool" where
  "swap_ok parts = (\<lambda>(l, r, lp, rp). l < r \<and> r < length parts \<and> lp < length (parts ! l) \<and> rp < length (parts ! r))"

lemma cells_ok: "c \<in> set (concat (map (cells parts) (rank_pairs (length parts)))) \<Longrightarrow> swap_ok parts c"
  by (auto simp: rank_pairs_def cells_def swap_ok_def)

lemma improve_foldl_mem: "snd (foldl (improve f) (b, None) xs) = Some c \<Longrightarrow> c \<in> set xs \<and> f c < b"
proof (cases xs)
  case (Cons x xs')
  assume "snd (foldl (improve f) (b, None) xs) = Some c"
  then have "snd (improve f (b, None) (first_min f x xs')) = Some c" unfolding Cons foldl_improve .
  then show ?thesis using first_min_mem[of f x xs'] by (auto simp: improve_def Cons split: if_splits)
qed simp

lemma best_swap_scalar_Some:
  assumes "best_swap_scalar weights parts loads = Some c"
  shows "swap_ok parts c" "load_score (swap_loads weights parts loads c) < load_score loads"
proof -
  note c = improve_foldl_mem[OF assms[unfolded best_swap_scalar_def]]
  show "swap_ok parts c" by (rule cells_ok[OF conjunct1[OF c]])
  show "load_score (swap_loads weights parts loads c) < load_score loads" by (rule conjunct2[OF c])
qed

lemma exchange_mset:
  assumes "X + R = P' + R'" "P' + L = P + L'" "L' + {#x#} = L + {#y#}" "R' + {#y#} = R + {#x#}"
  shows "X = P"
proof (rule multiset_eqI)
  fix a
  have "count X a + count R a = count P' a + count R' a" "count P' a + count L a = count P a + count L' a"
    "count L' a + count {#x#} a = count L a + count {#y#} a" "count R' a + count {#y#} a = count R a + count {#x#} a"
    by (simp_all only: count_union[symmetric] assms)
  then show "count X a = count P a" by linarith
qed

lemma mset_swap:
  assumes "swap_ok parts c"
  shows "mset (concat (swap_parts parts c)) = mset (concat parts)" "map length (swap_parts parts c) = map length parts"
    "length (swap_parts parts c) = length parts"
proof -
  obtain l r lp rp where c: "c = (l, r, lp, rp)" by (cases c)
  have ok: "l < r" "r < length parts" "lp < length (parts ! l)" "rp < length (parts ! r)" using assms by (auto simp: swap_ok_def c)
  let ?x = "parts ! l ! lp" and ?y = "parts ! r ! rp"
  have conc: "mset (concat (ps[i := q])) + mset (ps ! i) = mset (concat ps) + mset q" if "i < length ps" for ps :: "nat list list" and i q
    using that by (induction ps arbitrary: i) (auto split: nat.splits)
  have upd: "mset (ps[i := q]) + {#ps ! i#} = mset ps + {#q#}" if "i < length ps" for ps :: "nat list" and i q
    using that by (simp add: mset_update)
  let ?p1 = "parts[l := (parts ! l)[lp := ?y]]"
  have r1: "?p1 ! r = parts ! r" "r < length ?p1" using ok by auto
  have e1: "mset (concat (?p1[r := (parts ! r)[rp := ?x]])) + mset (parts ! r) = mset (concat ?p1) + mset ((parts ! r)[rp := ?x])"
    using conc[OF r1(2), of "(parts ! r)[rp := ?x]"] r1(1) by simp
  have e2: "mset (concat ?p1) + mset (parts ! l) = mset (concat parts) + mset ((parts ! l)[lp := ?y])"
    by (rule conc) (use ok in simp)
  have "mset (concat (?p1[r := (parts ! r)[rp := ?x]])) = mset (concat parts)"
    by (rule exchange_mset[OF e1 e2 upd[OF ok(3)] upd[OF ok(4)]])
  then show "mset (concat (swap_parts parts c)) = mset (concat parts)"
    by (simp only: swap_parts_def c prod.case)
  show "map length (swap_parts parts c) = map length parts" "length (swap_parts parts c) = length parts"
    using ok by (auto simp: swap_parts_def c map_update nth_list_update intro!: nth_equalityI)
qed

lemma sum_list_update_int:
  fixes xs :: "int list"
  shows "i < length xs \<Longrightarrow> sum_list (xs[i := v]) = sum_list xs - xs ! i + v"
  by (induction xs arbitrary: i) (auto split: nat.splits)

text \<open>The incremental update of the loads is the recomputed one.\<close>

lemma loads_swap:
  assumes "swap_ok parts c"
  shows "swap_loads weights parts (partition_loads weights parts) c = partition_loads weights (swap_parts parts c)"
proof -
  obtain l r lp rp where c: "c = (l, r, lp, rp)" by (cases c)
  have ok: "l < r" "r < length parts" "lp < length (parts ! l)" "rp < length (parts ! r)" using assms by (auto simp: swap_ok_def c)
  show ?thesis
    using ok
    by (auto simp: swap_loads_def swap_parts_def partition_loads_def c Let_def map_update intro!: nth_equalityI)
       (auto simp: nth_list_update sum_list_update_int)
qed

lemma parts_ok_swap: "parts_ok weights parts \<Longrightarrow> swap_ok parts c \<Longrightarrow> parts_ok weights (swap_parts parts c)"
proof -
  assume "parts_ok weights parts" "swap_ok parts c"
  moreover have "set (concat (swap_parts parts c)) = set (concat parts)"
    by (rule mset_eq_setD[OF mset_swap(1)[OF \<open>swap_ok parts c\<close>]])
  ultimately show ?thesis
    using mset_swap(3)[OF \<open>swap_ok parts c\<close>] unfolding parts_ok_def set_concat by (metis UN_iff length_0_conv)
qed

section \<open>Swapping ends\<close>

definition swap_rel :: "int list \<Rightarrow> (nat list list \<times> nat list list) set" where
  "swap_rel weights = {(p', p). map length p' = map length p \<and> set (concat p') = set (concat p) \<and>
     load_score (partition_loads weights p') < load_score (partition_loads weights p)}"

lemma finite_shapes: "finite {p :: nat list list. map length p = ls \<and> set (concat p) \<subseteq> A}" if "finite A"
proof (induction ls)
  case (Cons n ls)
  have "{p. map length p = n # ls \<and> set (concat p) \<subseteq> A} \<subseteq>
      (\<lambda>(q, p). q # p) ` ({q. set q \<subseteq> A \<and> length q = n} \<times> {p. map length p = ls \<and> set (concat p) \<subseteq> A})"
    by (auto simp: image_iff Cons_eq_map_conv map_eq_Cons_conv)
  then show ?case using Cons finite_lists_length_eq[OF that, of n] by (meson finite_SigmaI finite_imageI finite_subset)
qed simp

lemma wf_swap_rel: "wf (swap_rel weights)"
proof (rule wf_finite_segments)
  show "irrefl (swap_rel weights)" by (auto simp: irrefl_def swap_rel_def)
  show "trans (swap_rel weights)" by (auto simp: trans_def swap_rel_def)
  show "finite {y. (y, p) \<in> swap_rel weights}" for p
    by (rule finite_subset[OF _ finite_shapes[of "set (concat p)" "map length p"]]) (auto simp: swap_rel_def)
qed

lemma swap_rel_step:
  assumes "best_swap_scalar weights parts (partition_loads weights parts) = Some c"
  shows "(swap_parts parts c, parts) \<in> swap_rel weights"
proof -
  note c = best_swap_scalar_Some[OF assms]
  show ?thesis
    using c(2) mset_swap(2)[OF c(1)] mset_eq_setD[OF mset_swap(1)[OF c(1)]]
    by (simp only: swap_rel_def loads_swap[OF c(1)] mem_Collect_eq prod.case)
qed

text \<open>What the reference refinement computes: swap-optimal, same shape, no worse.\<close>

definition refined :: "int list \<Rightarrow> nat list list \<Rightarrow> nat list list \<Rightarrow> bool" where
  "refined weights parts out \<longleftrightarrow>
     mset (concat out) = mset (concat parts) \<and> map length out = map length parts \<and>
     load_score (partition_loads weights out) \<le> load_score (partition_loads weights parts) \<and>
     best_swap_scalar weights out (partition_loads weights out) = None"

lemma refine_scalar_total:
  "\<exists>out. refine_scalar_loop weights parts (partition_loads weights parts) = Some out \<and> refined weights parts out"
proof (induction parts rule: wf_induct_rule[OF wf_swap_rel[of weights]])
  case (1 parts)
  show ?case
  proof (cases "best_swap_scalar weights parts (partition_loads weights parts)")
    case None
    then show ?thesis by (subst refine_scalar_loop.simps) (simp add: refined_def)
  next
    case (Some c)
    note c = best_swap_scalar_Some[OF Some]
    obtain out where out: "refine_scalar_loop weights (swap_parts parts c) (partition_loads weights (swap_parts parts c)) = Some out"
        "refined weights (swap_parts parts c) out"
      using 1[OF swap_rel_step[OF Some]] by blast
    have "load_score (partition_loads weights (swap_parts parts c)) < load_score (partition_loads weights parts)"
      using c(2) by (simp only: loads_swap[OF c(1)])
    then show ?thesis
      using out Some mset_swap[OF c(1)]
      by (subst refine_scalar_loop.simps) (auto simp: loads_swap[OF c(1)] refined_def)
  qed
qed

section \<open>The int64 search is the scalar search\<close>

lemma int64_id: "int64_min \<le> x \<Longrightarrow> x \<le> int64_max \<Longrightarrow> int64 x = x"
  unfolding int64_def int64_min_def int64_max_def by (subst mod_pos_pos_trivial) auto

lemma set_update2:
  assumes "l < r" "r < length xs"
  shows "set (xs[l := a, r := b]) = insert a (insert b (set (others xs l r)))"
proof -
  have "set (xs[l := a, r := b]) = (\<lambda>i. xs[l := a, r := b] ! i) ` {..<length xs}"
    by (auto simp: set_conv_nth)
  also have "{..<length xs} = insert l (insert r {i. i < length xs \<and> i \<noteq> l \<and> i \<noteq> r})" using assms by auto
  also have "(\<lambda>i. xs[l := a, r := b] ! i) ` \<dots> = insert a (insert b ((\<lambda>i. xs ! i) ` {i. i < length xs \<and> i \<noteq> l \<and> i \<noteq> r}))"
    using assms by (auto simp: nth_list_update)
  also have "(\<lambda>i. xs ! i) ` {i. i < length xs \<and> i \<noteq> l \<and> i \<noteq> r} = set (others xs l r)" by (auto simp: others_def)
  finally show ?thesis .
qed

lemma others_shift:
  assumes "others xs l r \<noteq> []"
  shows "others (map (\<lambda>x. x - t) xs) l r \<noteq> []"
    "Max (set (others (map (\<lambda>x. x - t) xs) l r)) = Max (set (others xs l r)) - t"
    "Min (set (others (map (\<lambda>x. x - t) xs) l r)) = Min (set (others xs l r)) - t"
proof -
  have eq: "others (map (\<lambda>x. x - t) xs) l r = map (\<lambda>x. x + - t) (others xs l r)" by (auto simp: others_def)
  show "others (map (\<lambda>x. x - t) xs) l r \<noteq> []" using assms by (simp add: eq)
  show "Max (set (others (map (\<lambda>x. x - t) xs) l r)) = Max (set (others xs l r)) - t"
    using Max_add_commute[of "set (others xs l r)" "\<lambda>x. x" "- t"] assms by (simp add: eq)
  show "Min (set (others (map (\<lambda>x. x - t) xs) l r)) = Min (set (others xs l r)) - t"
    using Min_add_commute[of "set (others xs l r)" "\<lambda>x. x" "- t"] assms by (simp add: eq)
qed

lemma others_empty: "others (map f xs) l r = [] \<longleftrightarrow> others xs l r = []"
  by (auto simp: others_def)

text \<open>The guard of the vectorised loop, and what it says about one candidate swap.\<close>

definition guard_ok :: "int list \<Rightarrow> nat list list \<Rightarrow> int list \<Rightarrow> int \<Rightarrow> bool" where
  "guard_ok weights parts loads W \<longleftrightarrow>
     length loads = length parts \<and> parts_ok weights parts \<and> (\<forall>w \<in> set weights. \<bar>w\<bar> \<le> W) \<and>
     Max (set loads) - Min (set loads) + 4 * W < int64_max"

abbreviation hi_of :: "int list \<Rightarrow> nat list list \<Rightarrow> int list \<Rightarrow> nat \<Rightarrow> nat \<Rightarrow> nat \<times> nat \<Rightarrow> int" where
  "hi_of weights parts relative l r \<equiv> vec_new_max weights parts relative l r
     (if others relative l r \<noteq> [] then Max (set (others relative l r)) else int64_min)"

abbreviation lo_of :: "int list \<Rightarrow> nat list list \<Rightarrow> int list \<Rightarrow> nat \<Rightarrow> nat \<Rightarrow> nat \<times> nat \<Rightarrow> int" where
  "lo_of weights parts relative l r \<equiv> vec_new_min weights parts relative l r
     (if others relative l r \<noteq> [] then Min (set (others relative l r)) else int64_max)"

lemma candidate_score:
  assumes guard: "guard_ok weights parts loads W"
    and pos: "l < r" "r < length parts" "lp < length (parts ! l)" "rp < length (parts ! r)"
    and rel: "relative = map (\<lambda>x. x - Max (set loads)) loads"
  shows "load_score (swap_loads weights parts loads (l, r, lp, rp)) =
      (Max (set loads) + hi_of weights parts relative l r (lp, rp),
       hi_of weights parts relative l r (lp, rp) - lo_of weights parts relative l r (lp, rp))" (is ?score)
    and "int64 (hi_of weights parts relative l r (lp, rp) - lo_of weights parts relative l r (lp, rp)) =
      hi_of weights parts relative l r (lp, rp) - lo_of weights parts relative l r (lp, rp)" (is ?exact)
    and "hi_of weights parts relative l r (lp, rp) - lo_of weights parts relative l r (lp, rp) < int64_max" (is ?small)
proof -
  let ?top = "Max (set loads)" and ?bot = "Min (set loads)"
  let ?lw = "weights ! (parts ! l ! lp)" and ?rw = "weights ! (parts ! r ! rp)"
  define S where "S = ?top - ?bot"
  have len: "length loads = length parts" and W: "\<forall>w \<in> set weights. \<bar>w\<bar> \<le> W" and g: "S + 4 * W < int64_max"
    using guard by (auto simp: guard_ok_def S_def)
  have mem: "parts ! l \<in> set parts" "parts ! r \<in> set parts" "parts ! l ! lp \<in> set (parts ! l)" "parts ! r ! rp \<in> set (parts ! r)"
    using pos by auto
  then have "parts ! l ! lp < length weights" "parts ! r ! rp < length weights"
    using guard by (auto simp: guard_ok_def parts_ok_def)
  then have "\<bar>?lw\<bar> \<le> W" "\<bar>?rw\<bar> \<le> W" using W nth_mem by blast+
  then have w: "- W \<le> ?lw" "?lw \<le> W" "- W \<le> ?rw" "?rw \<le> W" by linarith+
  have in_loads: "?bot \<le> x \<and> x \<le> ?top" if "x \<in> set loads" for x using that by auto
  then have ld: "?bot \<le> loads ! l" "loads ! l \<le> ?top" "?bot \<le> loads ! r" "loads ! r \<le> ?top"
    using pos len by auto
  define A where "A = loads ! l - ?top - ?lw + ?rw"
  define B where "B = loads ! r - ?top - ?rw + ?lw"
  have AB: "- S - 2 * W \<le> A" "A \<le> 2 * W" "- S - 2 * W \<le> B" "B \<le> 2 * W" and S0: "0 \<le> S"
    using w ld by (auto simp: A_def B_def S_def)
  have i64: "int64 (int64 (relative ! l - ?lw) + ?rw) = A" "int64 (int64 (relative ! r - ?rw) + ?lw) = B"
  proof -
    have "relative ! l = loads ! l - ?top" "relative ! r = loads ! r - ?top" using pos len by (auto simp: rel)
    moreover have "int64 (loads ! l - ?top - ?lw) = loads ! l - ?top - ?lw" "int64 (loads ! r - ?top - ?rw) = loads ! r - ?top - ?rw"
      "int64 A = A" "int64 B = B"
      using w ld g AB S0 by (intro int64_id; simp add: int64_min_def int64_max_def S_def)+
    ultimately show "int64 (int64 (relative ! l - ?lw) + ?rw) = A" "int64 (int64 (relative ! r - ?rw) + ?lw) = B"
      by (simp_all add: A_def B_def)
  qed
  define Oth where "Oth = others loads l r"
  have O_range: "?bot \<le> x \<and> x \<le> ?top" if "x \<in> set Oth" for x
    using that pos len by (intro in_loads) (auto simp: Oth_def others_def)
  have new: "set (swap_loads weights parts loads (l, r, lp, rp)) = insert (?top + A) (insert (?top + B) (set Oth))"
    using set_update2[OF pos(1), of loads] pos len by (simp add: swap_loads_def Let_def Oth_def A_def B_def algebra_simps)
  have hi_lo: "?top + hi_of weights parts relative l r (lp, rp) = Max (insert (?top + A) (insert (?top + B) (set Oth))) \<and>
      ?top + lo_of weights parts relative l r (lp, rp) = Min (insert (?top + A) (insert (?top + B) (set Oth)))"
  proof (cases "Oth = []")
    case True
    then have "others relative l r = []" by (simp add: rel others_empty Oth_def)
    moreover have "int64_min \<le> A" "A \<le> int64_max" using AB S0 g w by (simp_all add: int64_min_def int64_max_def)
    then have "max (max A B) int64_min = max A B" "min (min A B) int64_max = min A B" by linarith+
    ultimately show ?thesis using True by (simp add: vec_new_max_def vec_new_min_def i64) linarith
  next
    case False
    then have "others relative l r \<noteq> []" "Max (set (others relative l r)) = Max (set Oth) - ?top"
        "Min (set (others relative l r)) = Min (set Oth) - ?top"
      using others_shift[of loads l r ?top] by (simp_all add: rel Oth_def)
    then show ?thesis using False by (simp add: vec_new_max_def vec_new_min_def i64) linarith
  qed
  show ?score unfolding load_score_def new using hi_lo by simp
  have "Max (insert (?top + A) (insert (?top + B) (set Oth))) \<le> ?top + 2 * W"
    using AB O_range S0 w by (subst Max_le_iff) fastforce+
  moreover have "?bot - 2 * W \<le> Min (insert (?top + A) (insert (?top + B) (set Oth)))"
    using AB O_range S0 w by (subst Min_ge_iff) (fastforce simp: S_def)+
  moreover have "Min (insert (?top + A) (insert (?top + B) (set Oth))) \<le> Max (insert (?top + A) (insert (?top + B) (set Oth)))"
    by (meson Max_ge Min_le finite.insertI finite_set insertI1 order_trans)
  ultimately have d: "0 \<le> hi_of weights parts relative l r (lp, rp) - lo_of weights parts relative l r (lp, rp)"
      "hi_of weights parts relative l r (lp, rp) - lo_of weights parts relative l r (lp, rp) \<le> S + 4 * W"
    using conjunct1[OF hi_lo] conjunct2[OF hi_lo] unfolding S_def by linarith+
  then show ?small using g by linarith
  show ?exact by (rule int64_id) (use d g in \<open>auto simp: int64_min_def int64_max_def\<close>)
qed

definition shift_best :: "int \<Rightarrow> (int \<times> int) \<times> 'c option \<Rightarrow> (int \<times> int) \<times> 'c option" where
  "shift_best t best = ((fst (fst best) - t, snd (fst best)), snd best)"

text \<open>First minimum of \<open>(hi, spread)\<close> by masking everything above the least \<open>hi\<close>.\<close>

lemma masked_first_min:
  fixes hi sp :: "'c \<Rightarrow> int"
  assumes small: "\<And>z. z \<in> set (x # xs) \<Longrightarrow> sp z < big"
    and low: "low = Min (hi ` set (x # xs))"
  shows "first_min (\<lambda>z. (hi z, sp z)) x xs = first_min (\<lambda>z. if hi z = low then sp z else big) x xs"
proof (rule first_min_cong)
  fix z assume z: "z \<in> set (x # xs)"
  have low_le: "low \<le> hi w" if "w \<in> set (x # xs)" for w unfolding low by (rule Min_le) (use that in auto)
  have "low \<in> hi ` set (x # xs)" unfolding low by (rule Min_in) auto
  then obtain m where m: "m \<in> set (x # xs)" "hi m = low" by auto
  show "(\<forall>w \<in> set (x # xs). (hi z, sp z) \<le> (hi w, sp w)) \<longleftrightarrow>
      (\<forall>w \<in> set (x # xs). (if hi z = low then sp z else big) \<le> (if hi w = low then sp w else big))" (is "?L = ?R")
  proof
    assume L: ?L
    then have "hi z \<le> low" using m by (auto simp: less_eq_prod_def)
    then have hz: "hi z = low" using low_le[OF z] by simp
    show ?R
    proof
      fix w assume w: "w \<in> set (x # xs)"
      then have "(hi z, sp z) \<le> (hi w, sp w)" using L by blast
      then show "(if hi z = low then sp z else big) \<le> (if hi w = low then sp w else big)"
        using hz small[OF z] by (auto simp: less_eq_prod_def)
    qed
  next
    assume R: ?R
    have hz: "hi z = low"
    proof (rule ccontr)
      assume "hi z \<noteq> low"
      then have "big \<le> sp m" using R m by auto
      then show False using small[OF m(1)] by simp
    qed
    show ?L
    proof
      fix w assume w: "w \<in> set (x # xs)"
      then have "sp z \<le> (if hi w = low then sp w else big)" using R hz by auto
      then show "(hi z, sp z) \<le> (hi w, sp w)"
        using hz low_le[OF w] by (auto simp: less_eq_prod_def split: if_splits)
    qed
  qed
qed

lemma first_min_map: "first_min f (g x) (map g xs) = g (first_min (\<lambda>z. f (g z)) x xs)"
  by (induction xs arbitrary: x) (auto simp: Let_def)

lemma first_min_cong_fun:
  "(\<And>z. z \<in> set (x # xs) \<Longrightarrow> f z = g z) \<Longrightarrow> first_min f x xs = first_min g x xs"
  by (rule first_min_cong) simp

lemma product_nth_upt:
  "k < m * n \<Longrightarrow> List.product [0..<m] [0..<n] ! k = (k div n, k mod n)"
proof -
  assume k: "k < m * n"
  then have n: "0 < n" by (cases n) auto
  have "k div n < m" using k n by (simp add: less_mult_imp_div_less)
  then show ?thesis using k n by (subst product_nth) simp_all
qed

lemma product_Nil: "List.product xs [] = []"
  by (induction xs) auto

lemma vec_step_eq:
  assumes guard: "guard_ok weights parts loads W" and lr: "l < r" "r < length parts"
    and rel: "relative = map (\<lambda>x. x - Max (set loads)) loads"
  shows "vec_step weights parts relative (shift_best (Max (set loads)) best) (l, r) =
    shift_best (Max (set loads)) (foldl (improve (\<lambda>c. load_score (swap_loads weights parts loads c))) best (cells parts (l, r)))"
proof (cases "parts ! l = [] \<or> parts ! r = []")
  case True
  then have "cells parts (l, r) = []" by (auto simp: cells_def product_Nil)
  then show ?thesis using True by (simp add: vec_step_def)
next
  case False
  let ?top = "Max (set loads)"
  let ?grid = "List.product [0..<length (parts ! l)] [0..<length (parts ! r)]"
  define hi where "hi = hi_of weights parts relative l r"
  define lo where "lo = lo_of weights parts relative l r"
  define sp where "sp p = hi p - lo p" for p
  define low where "low = Min (hi ` set ?grid)"
  define mk where "mk p = (case p of (lp, rp) \<Rightarrow> (l, r, lp, rp))" for p :: "nat \<times> nat"
  let ?f = "\<lambda>c. load_score (swap_loads weights parts loads c)"
  have grid_ok: "?f (mk p) = (?top + hi p, sp p)" "int64 (hi p - lo p) = sp p" "sp p < int64_max" if "p \<in> set ?grid" for p
    using candidate_score[OF guard lr, of "fst p" "snd p" relative] rel that
    by (auto simp: mk_def hi_def lo_def sp_def case_prod_unfold)
  have "length ?grid = length (parts ! l) * length (parts ! r)" by simp
  then have "?grid \<noteq> []" using False by (metis length_0_conv mult_is_0)
  then obtain g gs where g: "?grid = g # gs" by (cases ?grid) auto
  define m where "m = first_min (\<lambda>p. (hi p, sp p)) g gs"
  define mask where "mask p = (if hi p = low then sp p else int64_max)" for p
  have m_mask: "m = first_min mask g gs"
    unfolding m_def mask_def by (rule masked_first_min) (use grid_ok(3) g low_def in auto)
  have m_mem: "m \<in> set ?grid" unfolding g m_def by (rule first_min_mem)
  have m_low: "hi m = low"
  proof -
    have "low \<in> hi ` set ?grid" unfolding low_def by (rule Min_in) (use g in auto)
    then obtain p where p: "p \<in> set ?grid" "hi p = low" by auto
    have "(hi m, sp m) \<le> (hi p, sp p)" unfolding m_def by (rule first_min_le) (use p g in simp)
    moreover have "low \<le> hi m" unfolding low_def by (rule Min_le) (use m_mem in auto)
    ultimately show ?thesis using p by (auto simp: less_eq_prod_def)
  qed
  have cells: "cells parts (l, r) = mk g # map mk gs" using g by (simp add: cells_def mk_def case_prod_unfold)
  have "first_min ?f (mk g) (map mk gs) = mk (first_min (\<lambda>p. ?f (mk p)) g gs)" by (rule first_min_map)
  also have "first_min (\<lambda>p. ?f (mk p)) g gs = first_min (\<lambda>p. (?top + hi p, sp p)) g gs"
    by (rule first_min_cong_fun) (use grid_ok(1) g in auto)
  also have "\<dots> = m" unfolding m_def by (rule first_min_cong) (simp add: less_eq_prod_def)
  finally have fm: "first_min ?f (mk g) (map mk gs) = mk m" .
  have scalar: "foldl (improve ?f) best (cells parts (l, r)) = improve ?f best (mk m)"
    unfolding cells foldl_improve fm ..
  have spread: "map2 (\<lambda>h k. if h = low then int64 (h - k) else int64_max) (map hi ?grid) (map lo ?grid) = map mask ?grid"
    using grid_ok(2) by (auto simp: mask_def map2_map_map intro!: map_cong)
  have flat: "?grid ! argmin (map mask ?grid) = m" "argmin (map mask ?grid) < length ?grid"
    using argmin_first_min[where x = g and xs = gs and g = mask] by (simp_all only: g m_mask)
  have at: "map mask ?grid ! argmin (map mask ?grid) = sp m" using flat m_low by (simp add: mask_def)
  have cell: "(l, r, argmin (map mask ?grid) div length (parts ! r), argmin (map mask ?grid) mod length (parts ! r)) = mk m"
    using flat product_nth_upt[of "argmin (map mask ?grid)" "length (parts ! l)" "length (parts ! r)"] by (simp add: mk_def)
  have "vec_step weights parts relative (shift_best ?top best) (l, r) =
      (if low > fst (fst best) - ?top then shift_best ?top best
       else if (low, sp m) < (fst (fst best) - ?top, snd (fst best)) then ((low, sp m), Some (mk m)) else shift_best ?top best)"
    unfolding vec_step_def prod.case hi_def[symmetric] lo_def[symmetric] Let_def set_map low_def[symmetric] spread at cell
    using False by (simp add: shift_best_def)
  also have "\<dots> = shift_best ?top (improve ?f best (mk m))"
    using grid_ok(1)[OF m_mem] m_low by (cases best) (auto simp: improve_def shift_best_def less_prod_def)
  finally show ?thesis unfolding scalar .
qed

lemma best_swap_vec_eq:
  assumes guard: "guard_ok weights parts loads W"
  shows "best_swap_vec weights parts loads = best_swap_scalar weights parts loads"
proof -
  let ?top = "Max (set loads)" and ?f = "\<lambda>c. load_score (swap_loads weights parts loads c)"
  let ?rel = "map (\<lambda>x. x - ?top) loads"
  have "foldl (vec_step weights parts ?rel) (shift_best ?top b) ps = shift_best ?top (foldl (improve ?f) b (concat (map (cells parts) ps)))"
    if "\<forall>(l, r) \<in> set ps. l < r \<and> r < length parts" for ps b
    using that
  proof (induction ps arbitrary: b)
    case (Cons p ps)
    obtain l r where p: "p = (l, r)" by (cases p)
    have "vec_step weights parts ?rel (shift_best ?top b) p = shift_best ?top (foldl (improve ?f) b (cells parts p))"
      unfolding p by (rule vec_step_eq[OF guard]) (use Cons.prems p in auto)
    then show ?case using Cons.IH Cons.prems by simp
  qed simp
  from this[of "rank_pairs (length parts)" "(load_score loads, None)"]
  show ?thesis
    by (simp add: best_swap_vec_def best_swap_scalar_def shift_best_def load_score_def Let_def rank_pairs_def)
qed

lemma refine_vec_loop_eq:
  assumes "parts_ok weights parts" "\<forall>w \<in> set weights. \<bar>w\<bar> \<le> W"
  shows "refine_vec_loop weights W parts (partition_loads weights parts) = refine_scalar_loop weights parts (partition_loads weights parts)"
  using assms(1)
proof (induction parts rule: wf_induct_rule[OF wf_swap_rel[of weights]])
  case (1 parts)
  let ?loads = "partition_loads weights parts"
  show ?case
  proof (cases "Max (set ?loads) - Min (set ?loads) + 4 * W \<ge> int64_max")
    case True
    then show ?thesis by (subst refine_vec_loop.simps) (simp add: refine_by_swapping_scalar_def)
  next
    case False
    have "guard_ok weights parts ?loads W"
      using False 1(2) assms(2) by (simp add: guard_ok_def partition_loads_def)
    note eq = best_swap_vec_eq[OF this]
    show ?thesis
    proof (cases "best_swap_scalar weights parts ?loads")
      case None
      then show ?thesis using False eq by (subst refine_vec_loop.simps, subst refine_scalar_loop.simps) simp
    next
      case (Some c)
      note c = best_swap_scalar_Some[OF Some]
      have "refine_vec_loop weights W (swap_parts parts c) (partition_loads weights (swap_parts parts c)) =
          refine_scalar_loop weights (swap_parts parts c) (partition_loads weights (swap_parts parts c))"
        by (rule 1(1)[OF swap_rel_step[OF Some] parts_ok_swap[OF 1(2) c(1)]])
      then show ?thesis
        using False eq Some
        by (subst refine_vec_loop.simps, subst refine_scalar_loop.simps) (simp add: loads_swap[OF c(1)])
    qed
  qed
qed

lemma refine_by_swapping_eq:
  assumes "parts_ok weights parts"
  shows "refine_by_swapping weights parts = refine_by_swapping_scalar weights parts"
proof -
  let ?W = "if weights = [] then 0 else Max (set (map abs weights))"
  have "\<forall>w \<in> set weights. \<bar>w\<bar> \<le> ?W" by auto
  from refine_vec_loop_eq[OF assms this] show ?thesis
    by (simp only: refine_by_swapping_def refine_by_swapping_scalar_def Let_def if_cancel)
qed

text \<open>
  C32: The vectorised int64 refinement is the scalar one. For all integer weights, however large, and
  every partition of valid indices, \<open>_refine_by_swapping\<close> returns, and returns exactly what the plain
  loops over unbounded integers return: its guards exclude every int64 wrap-around and its masked
  \<open>argmin\<close> picks the same first-best swap. The result is a rearrangement with the same group
  sizes, a score no worse than the input's, and no swap that would improve it.
\<close>

theorem refine_by_swapping_equivalent:
  assumes "parts_ok weights parts"
  shows "\<exists>out. refine_by_swapping weights parts = Some out \<and> refine_by_swapping_scalar weights parts = Some out \<and>
     mset (concat out) = mset (concat parts) \<and> map length out = map length parts \<and>
     load_score (partition_loads weights out) \<le> load_score (partition_loads weights parts) \<and>
     best_swap_scalar weights out (partition_loads weights out) = None"
  using refine_scalar_total[of weights parts] refine_by_swapping_eq[OF assms]
  by (auto simp: refine_by_swapping_scalar_def refined_def)

theorem refine_by_swapping_equivalent_witness:
  "\<exists>out. refine_by_swapping [5, 4, 2 ^ 70, 1] [[0, 1], [2, 3]] = Some out \<and>
     refine_by_swapping_scalar [5, 4, 2 ^ 70, 1] [[0, 1], [2, 3]] = Some out"
  using refine_by_swapping_equivalent[of "[5, 4, 2 ^ 70, 1]" "[[0, 1], [2, 3]]"] by (auto simp: parts_ok_def)

section \<open>Equal groups\<close>

text \<open>A state of the differencing: every set holds \<open>c\<close> items and their total weight.\<close>

definition kk_ok :: "int list \<Rightarrow> nat \<Rightarrow> nat \<Rightarrow> KKState \<Rightarrow> bool" where
  "kk_ok weights k c st \<longleftrightarrow> length st = k \<and>
     (\<forall>s \<in> set st. length (ws_items s) = c \<and> ws_total s = sum_list (map (\<lambda>i. weights ! i) (ws_items s)))"

definition kk_items :: "KKState \<Rightarrow> nat multiset" where
  "kk_items st = mset (concat (map ws_items st))"

lemma mset_sort_reverse: "mset (sort_reverse sets) = mset sets"
  by (simp add: sort_reverse_def)

lemma sort_reverse_ok: "kk_ok weights k c (sort_reverse st) = kk_ok weights k c st" "kk_items (sort_reverse st) = kk_items st"
  using mset_eq_setD[OF mset_sort_reverse[of st]] mset_eq_length[OF mset_sort_reverse[of st]]
    mset_concat_map[OF mset_sort_reverse[of st], of ws_items]
  by (simp_all add: kk_ok_def kk_items_def)

lemma kk_merge_ok:
  assumes "kk_ok weights k c a" "kk_ok weights k d b"
  shows "kk_ok weights k (c + d) (kk_merge a b)" "kk_items (kk_merge a b) = kk_items a + kk_items b"
proof -
  have len: "length a = length (rev b)" using assms by (simp add: kk_ok_def)
  have "mset (concat (map ws_items (map2 ws_merge xs ys))) = mset (concat (map ws_items xs)) + mset (concat (map ws_items ys))"
    if "length xs = length ys" for xs ys
    using that by (induction xs ys rule: list_induct2) (auto simp: ws_merge_def)
  from this[OF len] have "kk_items (map2 ws_merge a (rev b)) = kk_items a + kk_items (rev b)" by (simp only: kk_items_def)
  moreover have "kk_items (rev b) = kk_items b" unfolding kk_items_def by (rule mset_concat_map) simp
  ultimately show "kk_items (kk_merge a b) = kk_items a + kk_items b" by (simp add: kk_merge_def sort_reverse_ok)
  have "set (zip a (rev b)) \<subseteq> set a \<times> set b" by (auto dest: set_zip_leftD set_zip_rightD)
  then show "kk_ok weights k (c + d) (kk_merge a b)"
    unfolding kk_merge_def sort_reverse_ok using assms len by (auto simp: kk_ok_def ws_merge_def)
qed

lemma kk_loop_ok:
  "states \<noteq> [] \<Longrightarrow> \<forall>st \<in> set states. \<exists>c. kk_ok weights k c st \<Longrightarrow>
   \<exists>st c. kk_loop states = Ok st \<and> kk_ok weights k c st \<and> kk_items st = sum_list (map kk_items states)"
proof (induction states rule: kk_loop.induct)
  case (3 x y zs)
  obtain a r where a: "heappop x (y # zs) = (a, r)" by (cases "heappop x (y # zs)")
  have "length r = length (y # zs)" by (rule heappop_length[OF a])
  then obtain r1 rs where r: "r = r1 # rs" by (cases r) auto
  obtain b rest where b: "heappop r1 rs = (b, rest)" by (cases "heappop r1 rs")
  have m: "mset (a # b # rest) = mset (x # y # zs)"
    using heappop_mset[OF a] heappop_mset[OF b] r by simp
  then have mem: "set (a # b # rest) = set (x # y # zs)" by (rule mset_eq_setD)
  then obtain c d where cd: "kk_ok weights k c a" "kk_ok weights k d b" using 3(3) by (metis list.set_intros(1) list.set_intros(2))
  have items: "sum_list (map kk_items (a # b # rest)) = sum_list (map kk_items (x # y # zs))"
    using m by (metis mset_map sum_mset_sum_list)
  have rest_ok: "\<forall>st \<in> set rest. \<exists>c. kk_ok weights k c st" using 3(3) unfolding mem[symmetric] by simp
  obtain st e where st: "kk_loop (kk_merge a b # rest) = Ok st" "kk_ok weights k e st"
      "kk_items st = sum_list (map kk_items (kk_merge a b # rest))"
    using 3(1)[OF a[symmetric] r b[symmetric]] kk_merge_ok(1)[OF cd] rest_ok by auto
  then show ?case
    using a r b items kk_merge_ok(2)[OF cd] by (auto simp: add.assoc simp del: heappop.simps)
qed auto

lemma chunks_concat: "0 < k \<Longrightarrow> concat (chunks k xs) = xs"
proof (induction k xs rule: chunks.induct)
  case (2 k x xs)
  have "take k (x # xs) @ drop k (x # xs) = x # xs" by simp
  moreover have "drop k (x # xs) = drop (k - 1) xs" using 2(2) by (cases k) auto
  ultimately show ?case using 2 by simp
qed simp

lemma chunks_length: "0 < k \<Longrightarrow> length xs mod k = 0 \<Longrightarrow> b \<in> set (chunks k xs) \<Longrightarrow> length b = k"
proof (induction k xs rule: chunks.induct)
  case (2 k x xs)
  have le: "k \<le> length (x # xs)" using 2(2,3) by (metis dvd_imp_le length_greater_0_conv list.distinct(1) mod_0_imp_dvd)
  have "length (drop (k - 1) xs) = length (x # xs) - k" using 2(2) by (cases k) auto
  then have "length (drop (k - 1) xs) mod k = 0" using 2(3) le_mod_geq[OF le] by argo
  then show ?case using 2 le by (auto simp: min_def)
qed simp

lemma KKState_init_ok:
  assumes "length block = k" "\<forall>(weight, idx) \<in> set block. weight = weights ! idx"
  shows "kk_ok weights k 1 (KKState_init (map (\<lambda>(weight, idx). (idx, weight)) block) k)"
    "kk_items (KKState_init (map (\<lambda>(weight, idx). (idx, weight)) block) k) = mset (map snd block)"
proof -
  show "kk_ok weights k 1 (KKState_init (map (\<lambda>(weight, idx). (idx, weight)) block) k)"
    unfolding KKState_init_def sort_reverse_ok using assms by (auto simp: kk_ok_def)
  show "kk_items (KKState_init (map (\<lambda>(weight, idx). (idx, weight)) block) k) = mset (map snd block)"
    unfolding KKState_init_def sort_reverse_ok using assms(1)
    by (simp add: kk_items_def comp_def case_prod_unfold)
qed

lemma weighted_indices_facts:
  "mset (map snd (weighted_indices weights)) = mset [0..<length weights]"
  "\<forall>(weight, idx) \<in> set (weighted_indices weights). weight = weights ! idx"
  "length (weighted_indices weights) = length weights"
proof -
  have m: "mset (weighted_indices weights) = mset (zip weights [0..<length weights])" by (simp add: weighted_indices_def)
  show "mset (map snd (weighted_indices weights)) = mset [0..<length weights]"
    using m by (metis map_snd_zip length_upt minus_nat.diff_0 mset_map)
  show "\<forall>(weight, idx) \<in> set (weighted_indices weights). weight = weights ! idx"
    using mset_eq_setD[OF m] by (auto simp: set_zip)
  show "length (weighted_indices weights) = length weights" using mset_eq_length[OF m] by simp
qed

lemma length_concat_same: "\<forall>p \<in> set ps. length p = c \<Longrightarrow> length (concat ps) = length ps * c"
  by (induction ps) auto

lemma karmarkar_karp_ok:
  assumes k: "0 < k" "length weights mod k = 0" "weights \<noteq> []"
  shows "\<exists>parts. karmarkar_karp weights k = Ok parts \<and> length parts = k \<and>
     mset (concat parts) = mset [0..<length weights] \<and> (\<forall>p \<in> set parts. length p = length weights div k)"
proof -
  let ?wi = "weighted_indices weights"
  let ?init = "\<lambda>block. KKState_init (map (\<lambda>(weight, idx). (idx, weight)) block) k"
  note wi = weighted_indices_facts[of weights]
  have conc: "concat (chunks k ?wi) = ?wi" by (rule chunks_concat[OF k(1)])
  have blk: "length b = k" "\<forall>(weight, idx) \<in> set b. weight = weights ! idx" if "b \<in> set (chunks k ?wi)" for b
  proof -
    show "length b = k" by (rule chunks_length[OF k(1) _ that]) (simp add: wi k)
    have "set b \<subseteq> set (concat (chunks k ?wi))" using that by auto
    then show "\<forall>(weight, idx) \<in> set b. weight = weights ! idx" using wi(2) unfolding conc by blast
  qed
  have ne: "chunks k ?wi \<noteq> []" using conc wi(3) k(3) by force
  have "\<forall>st \<in> set (map ?init (chunks k ?wi)). \<exists>c. kk_ok weights k c st"
    using KKState_init_ok(1)[OF blk] by auto
  then obtain st c where st: "kk_loop (map ?init (chunks k ?wi)) = Ok st" "kk_ok weights k c st"
      "kk_items st = sum_list (map kk_items (map ?init (chunks k ?wi)))"
    using kk_loop_ok[of "map ?init (chunks k ?wi)" weights k] ne by auto
  have "sum_list (map kk_items (map ?init bs)) = mset (map snd (concat bs))" if "set bs \<subseteq> set (chunks k ?wi)" for bs
    using that by (induction bs) (auto simp: KKState_init_ok(2)[OF blk])
  from this[of "chunks k ?wi"] have items: "kk_items st = mset [0..<length weights]"
    using st(3) wi(1) conc by simp
  have parts: "mset (concat (kk_partitions st)) = kk_items st"
    unfolding kk_partitions_def kk_items_def by (induction st) auto
  have each: "\<forall>p \<in> set (kk_partitions st). length p = c" using st(2) by (auto simp: kk_partitions_def kk_ok_def)
  have "length (concat (kk_partitions st)) = length (kk_partitions st) * c"
    using each by (rule length_concat_same)
  moreover have "length (kk_partitions st) = k" using st(2) by (simp add: kk_partitions_def kk_ok_def)
  moreover have "length (concat (kk_partitions st)) = length weights"
    using mset_eq_length[of "concat (kk_partitions st)" "[0..<length weights]"] parts items by simp
  ultimately have "c = length weights div k" using k(1) by (metis nonzero_mult_div_cancel_left not_gr_zero)
  moreover have "\<not> length weights < k" using k by (meson dvd_imp_le length_greater_0_conv mod_0_imp_dvd not_less)
  ultimately show ?thesis
    using st(1) k parts items each \<open>length (kk_partitions st) = k\<close> by (simp add: karmarkar_karp_def)
qed

lemma balanced_partition_total:
  assumes k: "0 < k" "length weights mod k = 0" "weights \<noteq> []"
  shows "\<exists>parts. balanced_partition weights k = Some (Ok parts) \<and> length parts = k \<and>
     list_all (\<lambda>p. length p = length weights div k) parts \<and> mset (concat parts) = mset [0..<length weights] \<and>
     best_swap_scalar weights parts (partition_loads weights parts) = None"
proof -
  obtain kk where kk: "karmarkar_karp weights k = Ok kk" "length kk = k" "mset (concat kk) = mset [0..<length weights]"
      "\<forall>p \<in> set kk. length p = length weights div k"
    using karmarkar_karp_ok[OF k] by blast
  have "set (concat kk) = {0..<length weights}" using mset_eq_setD[OF kk(3)] by simp
  then have ok: "parts_ok weights kk" using kk(2) k(1) by (auto simp: parts_ok_def)
  obtain out where out: "refine_by_swapping weights kk = Some out" "refined weights kk out"
    using refine_scalar_total[of weights kk] refine_by_swapping_eq[OF ok] by (auto simp: refine_by_swapping_scalar_def)
  have "map length out = map length kk" using out(2) by (simp add: refined_def)
  then have len: "length out = k" and mem: "length ` set out = length ` set kk"
    using kk(2) map_eq_imp_length_eq by (force, metis set_map)
  have "list_all (\<lambda>p. length p = length weights div k) out"
    unfolding list_all_iff
  proof
    fix p assume "p \<in> set out"
    then have "length p \<in> length ` set kk" unfolding mem[symmetric] by (rule imageI)
    then show "length p = length weights div k" using kk(4) by auto
  qed
  then show ?thesis using out kk len by (simp add: balanced_partition_def refined_def)
qed

text \<open>What a distributor of work relies on: equal shares, each item in exactly one share.\<close>

locale balancer =
  fixes balance :: "int list \<Rightarrow> nat \<Rightarrow> nat list list result option"
  assumes balance_exact: "0 < k \<Longrightarrow> length weights mod k = 0 \<Longrightarrow> weights \<noteq> [] \<Longrightarrow>
     \<exists>parts. balance weights k = Some (Ok parts) \<and> length parts = k \<and>
       list_all (\<lambda>p. length p = length weights div k) parts \<and> mset (concat parts) = mset [0..<length weights]"
begin

lemma balanced_shares:
  assumes "0 < k" "length work mod k = 0" "work \<noteq> []"
  shows "\<exists>parts. balance (map cost work) k = Some (Ok parts) \<and>
     length (map (map (\<lambda>i. work ! i)) parts) = k \<and>
     list_all (\<lambda>share. length share = length work div k) (map (map (\<lambda>i. work ! i)) parts) \<and>
     mset (concat (map (map (\<lambda>i. work ! i)) parts)) = mset work"
proof -
  obtain parts where p: "balance (map cost work) k = Some (Ok parts)" "length parts = k"
      "list_all (\<lambda>p. length p = length work div k) parts" "mset (concat parts) = mset [0..<length work]"
    using balance_exact[of k "map cost work"] assms by auto
  have "mset (concat (map (map (\<lambda>i. work ! i)) parts)) = image_mset (\<lambda>i. work ! i) (mset (concat parts))"
    by (simp only: map_concat[symmetric] mset_map)
  also have "\<dots> = mset (map (\<lambda>i. work ! i) [0..<length work])" by (simp only: p(4) mset_map)
  also have "\<dots> = mset work" by (simp only: map_nth)
  finally show ?thesis using p by (auto simp: list_all_iff)
qed

end

interpretation bal: balancer balanced_partition
proof
  fix k :: nat and weights :: "int list"
  assume "0 < k" "length weights mod k = 0" "weights \<noteq> []"
  from balanced_partition_total[OF this] show "\<exists>parts. balanced_partition weights k = Some (Ok parts) \<and> length parts = k \<and>
      list_all (\<lambda>p. length p = length weights div k) parts \<and> mset (concat parts) = mset [0..<length weights]"
    by (elim exE conjE) (intro exI conjI; assumption)
qed

text \<open>
  C33: Balancing gives every rank the same number of microbatches. For a positive number of ranks that
  divides the (non-empty) list of costs, \<open>balanced_partition\<close> returns one group per rank, all groups have the same size,
  every index occurs in exactly one group, and no single exchange between two groups lowers the
  pair (largest load, spread).
\<close>

theorem balanced_partition_exact:
  assumes k: "0 < k" "length weights mod k = 0" "weights \<noteq> []"
  shows "\<exists>parts. balanced_partition weights k = Some (Ok parts) \<and> length parts = k \<and>
     list_all (\<lambda>p. length p = length weights div k) parts \<and> mset (concat parts) = mset [0..<length weights] \<and>
     best_swap_scalar weights parts (partition_loads weights parts) = None"
  by (rule balanced_partition_total[OF k])

theorem balanced_partition_exact_witness:
  "\<exists>parts. balanced_partition [7, 3, 5, 1] 2 = Some (Ok parts) \<and> list_all (\<lambda>p. length p = 2) parts"
proof -
  have "\<exists>parts. balanced_partition [7, 3, 5, 1] 2 = Some (Ok parts) \<and> list_all (\<lambda>p. length p = Suc (Suc 0)) parts"
    using balanced_partition_exact[of 2 "[7, 3, 5, 1]"] by auto
  then show ?thesis by (simp only: numeral_2_eq_2)
qed

end
