(* ===== verification/RL_Batch.thy ===== *)
theory RL_Batch
  imports Provenance Balanced_Partition
begin

text \<open>
  \<^verbatim>\<open>trainer/batch.py\<close>: from the training samples of a step to the microbatches of every data rank.
  Samples are validated and truncated (\<open>prepare_sample\<close>), packed first-fit in decreasing length
  (\<open>packed_samples_into_micro_bs\<close>), padded, separated by modality and distributed with the balancer.
  numpy's decoding of the image grid and its item sizes are the parameters \<open>grid_rows\<close> and
  \<open>itemsize\<close>; the cost model is the parameter \<open>bin_cost\<close>.
\<close>

section \<open>Wire types\<close>

record RoutedExperts =
  rx_data :: "8 word list"
  rx_shape :: "nat list"
  rx_dtype :: string

record TrainingExample =
  te_token_ids :: "int list"
  te_mask :: "bool list"
  te_logprobs :: "real list"
  te_temperatures :: "real list"
  te_env_name :: string
  te_ref_logprobs :: "real list option"
  te_mm_kwargs :: "(string \<times> EncodedTensor) list option"
  te_routed_experts :: "RoutedExperts option"
  te_mm_token_type_ids :: "int list option"
  te_rl_weights :: "real list option"
  te_ce_weights :: "real list option"
  te_ref_kl_weights :: "real list option"
  te_advantages :: "real list option"
  te_token_policy_versions :: "EncodedTensor option"

record MicroBatch =
  mb_input_ids :: "int list"
  mb_loss_mask :: "bool list"
  mb_advantages :: "real list"
  mb_inference_logprobs :: "real list"
  mb_position_ids :: "int list"
  mb_sequence_lengths :: "nat list"
  mb_temperatures :: "real list"
  mb_env_names :: "string list"
  mb_ref_logprobs :: "real list option"
  mb_lora_num_tokens :: "nat list option"
  mb_routed_experts :: "RoutedExperts option"
  mb_mm_kwargs :: "(string \<times> EncodedTensor) list option"
  mb_mm_token_type_ids :: "int list option"
  mb_rl_weights :: "real list option"
  mb_ce_weights :: "real list option"
  mb_ref_kl_weights :: "real list option"
  mb_token_policy_versions :: "EncodedTensor option"

section \<open>Routed experts\<close>

fun ROUTED_EXPERTS_DTYPE_ITEMSIZE :: "string \<Rightarrow> nat result" where
  "ROUTED_EXPERTS_DTYPE_ITEMSIZE d =
     (if d = ''uint8'' then Ok 1 else if d = ''int16'' then Ok 2 else if d = ''int32'' then Ok 4 else Raise KeyError)"

definition routed_experts_row_size :: "RoutedExperts \<Rightarrow> nat result" where
  "routed_experts_row_size rx =
     bindE (nth_chk (rx_shape rx) 1) (\<lambda>layers. bindE (nth_chk (rx_shape rx) 2) (\<lambda>topk.
     bindE (ROUTED_EXPERTS_DTYPE_ITEMSIZE (rx_dtype rx)) (\<lambda>size. Ok (layers * topk * size))))"

definition slice_routed_experts :: "RoutedExperts \<Rightarrow> nat \<Rightarrow> RoutedExperts result" where
  "slice_routed_experts rx seq_len =
     bindE (routed_experts_row_size rx) (\<lambda>row_size.
       Ok (rx\<lparr> rx_data := take (seq_len * row_size) (rx_data rx), rx_shape := [seq_len, rx_shape rx ! 1, rx_shape rx ! 2] \<rparr>))"

definition pad_routed_experts :: "RoutedExperts \<Rightarrow> nat \<Rightarrow> RoutedExperts result" where
  "pad_routed_experts rx padding_size =
     bindE (routed_experts_row_size rx) (\<lambda>row_size.
       Ok (rx\<lparr> rx_data := rx_data rx @ replicate (padding_size * row_size) 0, rx_shape := (rx_shape rx)[0 := rx_shape rx ! 0 + padding_size] \<rparr>))"

section \<open>Truncating multimodal samples\<close>

definition slice_encoded :: "(string \<Rightarrow> nat) \<Rightarrow> EncodedTensor \<Rightarrow> nat \<Rightarrow> EncodedTensor" where
  "slice_encoded itemsize t n_rows =
     (let row = (if length (et_shape t) > 1 then nat (prod_list (tl (et_shape t))) else 1)
      in t\<lparr> et_shape := int n_rows # tl (et_shape t), et_data := take (n_rows * row * itemsize (et_dtype t)) (et_data t) \<rparr>)"

text \<open>\<open>sum(1 for t in types if t)\<close>\<close>

definition image_tokens :: "int list \<Rightarrow> nat" where
  "image_tokens types = length (filter (\<lambda>t. t \<noteq> 0) types)"

text \<open>The loop that keeps whole images while they fit into the surviving placeholders.\<close>

fun keep_images :: "nat \<Rightarrow> nat list \<Rightarrow> nat \<Rightarrow> nat \<Rightarrow> nat \<times> nat" where
  "keep_images surviving [] kept acc = (kept, acc)"
| "keep_images surviving (n # ns) kept acc =
     (if acc + n > surviving then (kept, acc) else keep_images surviving ns (kept + 1) (acc + n))"

text \<open>The search for the placeholder after the first \<open>acc\<close> ones.\<close>

fun find_placeholder :: "nat \<Rightarrow> nat \<Rightarrow> nat \<Rightarrow> nat \<Rightarrow> int list \<Rightarrow> nat" where
  "find_placeholder target seen i dflt [] = dflt"
| "find_placeholder target seen i dflt (t # ts) =
     (if t \<noteq> 0 then (if seen + 1 = target then i else find_placeholder target (seen + 1) (i + 1) dflt ts)
      else find_placeholder target seen (i + 1) dflt ts)"

definition truncate_mm ::
  "(EncodedTensor \<Rightarrow> nat list list) \<Rightarrow> (string \<Rightarrow> nat) \<Rightarrow> int list \<Rightarrow> (string \<times> EncodedTensor) list \<Rightarrow> nat \<Rightarrow>
   (nat \<times> (string \<times> EncodedTensor) list option) result" where
  "truncate_mm grid_rows itemsize types mm_kwargs seq_len =
     (case map_of mm_kwargs ''image_grid_thw'' of None \<Rightarrow> Raise KeyError | Some grid \<Rightarrow>
     (case map_of mm_kwargs ''pixel_values'' of None \<Rightarrow> Raise KeyError | Some pixels \<Rightarrow>
     bindE (nth_chk (et_shape pixels) 0) (\<lambda>total_patches.
       let patches_per_image = map prod_list (grid_rows grid);
           total_tokens = image_tokens types;
           ppt = (if total_tokens \<noteq> 0 then nat total_patches div total_tokens else 1)
       in raise_if (ppt = 0 \<and> patches_per_image \<noteq> []) ZeroDivisionError
         (let tokens_per_image = map (\<lambda>p. p div ppt) patches_per_image;
              surviving = image_tokens (take seq_len types);
              (kept, acc) = keep_images surviving tokens_per_image 0 0;
              cut_at = (if acc = surviving then seq_len else find_placeholder (acc + 1) 0 0 seq_len types)
          in Ok (cut_at, if kept = 0 then None
                      else Some (map (\<lambda>(k, v). (k, slice_encoded itemsize v
                             (if k = ''image_grid_thw'' then kept else sum_list (take kept patches_per_image)))) mm_kwargs))))))"

section \<open>Preparing one sample\<close>

definition check_versions :: "EncodedTensor option \<Rightarrow> nat \<Rightarrow> unit result" where
  "check_versions versions n =
     (case versions of None \<Rightarrow> Ok () | Some p \<Rightarrow> bindE (decode_policy_versions p n) (\<lambda>_. Ok ()))"

definition has_rl_members :: "bool list \<Rightarrow> real list option \<Rightarrow> bool" where
  "has_rl_members loss_mask rl_w =
     (case rl_w of None \<Rightarrow> True \<in> set loss_mask | Some w \<Rightarrow> list_ex (\<lambda>(m, x). m \<and> x \<noteq> 0) (zip loss_mask w))"

definition sample_advantages :: "TrainingExample \<Rightarrow> real list result" where
  "sample_advantages ex =
     (case te_advantages ex of
        Some a \<Rightarrow> Ok a
      | None \<Rightarrow> raise_if (has_rl_members (te_mask ex) (te_rl_weights ex)) (ValueError ''sample has rl member tokens but no advantages'')
                 (Ok (replicate (length (te_token_ids ex)) 0)))"

definition whole_sample :: "TrainingExample \<Rightarrow> real list \<Rightarrow> MicroBatch" where
  "whole_sample ex advantages =
     (let n = length (te_token_ids ex) in
      \<lparr> mb_input_ids = te_token_ids ex, mb_loss_mask = te_mask ex, mb_advantages = advantages,
        mb_inference_logprobs = te_logprobs ex, mb_position_ids = map int [0..<n], mb_sequence_lengths = [n],
        mb_temperatures = te_temperatures ex, mb_env_names = replicate n (te_env_name ex),
        mb_ref_logprobs = te_ref_logprobs ex, mb_lora_num_tokens = None, mb_routed_experts = te_routed_experts ex,
        mb_mm_kwargs = te_mm_kwargs ex, mb_mm_token_type_ids = te_mm_token_type_ids ex,
        mb_rl_weights = te_rl_weights ex, mb_ce_weights = te_ce_weights ex, mb_ref_kl_weights = te_ref_kl_weights ex,
        mb_token_policy_versions = te_token_policy_versions ex \<rparr>)"

text \<open>The truncation branch: every stream is cut at the same position.\<close>

definition cut_sample :: "nat \<Rightarrow> (string \<times> EncodedTensor) list option \<Rightarrow> MicroBatch \<Rightarrow> MicroBatch result" where
  "cut_sample cut_at mm_kwargs mb =
     bindE (case mb_token_policy_versions mb of
              None \<Rightarrow> Ok None
            | Some p \<Rightarrow> bindE (decode_policy_versions p (length (mb_input_ids mb))) (\<lambda>vs. encode_policy_versions (take cut_at vs))) (\<lambda>versions.
     bindE (case mb_routed_experts mb of
              None \<Rightarrow> Ok None | Some rx \<Rightarrow> bindE (slice_routed_experts rx cut_at) (\<lambda>r. Ok (Some r))) (\<lambda>routed.
       Ok (mb\<lparr> mb_input_ids := take cut_at (mb_input_ids mb), mb_loss_mask := take cut_at (mb_loss_mask mb),
               mb_advantages := take cut_at (mb_advantages mb), mb_inference_logprobs := take cut_at (mb_inference_logprobs mb),
               mb_position_ids := take cut_at (mb_position_ids mb),
               mb_sequence_lengths := [length (take cut_at (mb_input_ids mb))],
               mb_temperatures := take cut_at (mb_temperatures mb), mb_env_names := take cut_at (mb_env_names mb),
               mb_ref_logprobs := map_option (take cut_at) (mb_ref_logprobs mb), mb_routed_experts := routed,
               mb_mm_kwargs := mm_kwargs, mb_mm_token_type_ids := map_option (take cut_at) (mb_mm_token_type_ids mb),
               mb_rl_weights := map_option (take cut_at) (mb_rl_weights mb), mb_ce_weights := map_option (take cut_at) (mb_ce_weights mb),
               mb_ref_kl_weights := map_option (take cut_at) (mb_ref_kl_weights mb), mb_token_policy_versions := versions \<rparr>)))"

text \<open>The assertions before a prepared sample is returned.\<close>

fun stream_len :: "nat \<Rightarrow> 'a list option \<Rightarrow> bool" where
  "stream_len n None = True"
| "stream_len n (Some xs) = (length xs = n)"

definition assert_prepared :: "MicroBatch \<Rightarrow> unit result" where
  "assert_prepared mb =
     (let n = length (mb_input_ids mb) in
      raise_if (\<not> (length (mb_advantages mb) = n \<and> length (mb_loss_mask mb) = n \<and> length (mb_position_ids mb) = n \<and>
                   length (mb_inference_logprobs mb) = n \<and> length (mb_temperatures mb) = n)) (AssertionError ''streams'')
     (raise_if (\<not> stream_len n (mb_ref_logprobs mb)) (AssertionError ''ref_logprobs'')
     (raise_if (\<not> (stream_len n (mb_rl_weights mb) \<and> stream_len n (mb_ce_weights mb) \<and> stream_len n (mb_ref_kl_weights mb)))
        (AssertionError ''weights'')
     (bindE (case mb_routed_experts mb of
               None \<Rightarrow> Ok ()
             | Some rx \<Rightarrow> bindE (nth_chk (rx_shape rx) 0) (\<lambda>rows. raise_if (rows \<noteq> n) (AssertionError ''routed_experts'')
                 (bindE (routed_experts_row_size rx) (\<lambda>row. raise_if (length (rx_data rx) \<noteq> n * row) (AssertionError ''routed_experts'') (Ok ()))))) (\<lambda>_.
      raise_if (\<not> stream_len n (mb_mm_token_type_ids mb)) (AssertionError ''mm_token_type_ids'')
     (raise_if (length (mb_env_names mb) \<noteq> n) (AssertionError ''env_names'') (Ok ())))))))"

definition prepare_sample ::
  "(EncodedTensor \<Rightarrow> nat list list) \<Rightarrow> (string \<Rightarrow> nat) \<Rightarrow> TrainingExample \<Rightarrow> nat \<Rightarrow> MicroBatch result" where
  "prepare_sample grid_rows itemsize ex seq_len =
     bindE (check_versions (te_token_policy_versions ex) (length (te_token_ids ex))) (\<lambda>_.
     bindE (sample_advantages ex) (\<lambda>advantages.
     raise_if (te_env_name ex = ''all'') (AssertionError ''env_name='all' is reserved for aggregate metric keys'')
     (let whole = whole_sample ex advantages in
      bindE (if length (te_token_ids ex) > seq_len
             then bindE (case (te_mm_token_type_ids ex, te_mm_kwargs ex) of
                           (Some types, Some kwargs) \<Rightarrow> truncate_mm grid_rows itemsize types kwargs seq_len
                         | _ \<Rightarrow> Ok (seq_len, te_mm_kwargs ex)) (\<lambda>(cut_at, mm_kwargs). cut_sample cut_at mm_kwargs whole)
             else Ok whole) (\<lambda>mb.
      bindE (assert_prepared mb) (\<lambda>_. Ok mb)))))"

section \<open>Bins\<close>

definition is_multimodal_sample :: "MicroBatch \<Rightarrow> bool" where
  "is_multimodal_sample mb \<longleftrightarrow> mb_mm_kwargs mb \<noteq> None"

record MicroBatchBin =
  bn_samples :: "(nat \<times> MicroBatch) list"
  bn_length :: nat

definition sample_len :: "nat \<times> MicroBatch \<Rightarrow> nat" where
  "sample_len p = length (mb_input_ids (snd p))"

definition bin_from_sample :: "nat \<Rightarrow> MicroBatch \<Rightarrow> MicroBatchBin" where
  "bin_from_sample lora_idx sample = \<lparr> bn_samples = [(lora_idx, sample)], bn_length = length (mb_input_ids sample) \<rparr>"

definition first_sample :: "MicroBatchBin \<Rightarrow> MicroBatch" where
  "first_sample b = snd (hd (bn_samples b))"

definition can_add :: "MicroBatchBin \<Rightarrow> MicroBatch \<Rightarrow> nat \<Rightarrow> bool" where
  "can_add b sample max_seq_len \<longleftrightarrow>
     \<not> is_multimodal_sample (first_sample b) \<and> \<not> is_multimodal_sample sample \<and>
     bn_length b + length (mb_input_ids sample) \<le> max_seq_len \<and>
     (mb_routed_experts (first_sample b) = None) = (mb_routed_experts sample = None)"

definition bin_add :: "nat \<Rightarrow> MicroBatch \<Rightarrow> MicroBatchBin \<Rightarrow> MicroBatchBin" where
  "bin_add lora_idx sample b =
     b\<lparr> bn_samples := bn_samples b @ [(lora_idx, sample)], bn_length := bn_length b + length (mb_input_ids sample) \<rparr>"

definition bin_workload :: "(nat list \<Rightarrow> int) \<Rightarrow> MicroBatchBin \<Rightarrow> int" where
  "bin_workload bin_cost b = bin_cost (map sample_len (bn_samples b))"

text \<open>Longest-processing-time: the next sample goes to the lighter side.\<close>

fun lpt_loop ::
  "(nat list \<Rightarrow> int) \<Rightarrow> (nat \<times> MicroBatch) list \<Rightarrow> (nat \<times> MicroBatch) list \<Rightarrow> int \<Rightarrow> (nat \<times> MicroBatch) list \<Rightarrow> int \<Rightarrow>
   (nat \<times> MicroBatch) list \<times> (nat \<times> MicroBatch) list" where
  "lpt_loop bin_cost [] left lw right rw = (left, right)"
| "lpt_loop bin_cost (p # ps) left lw right rw =
     (let w = bin_cost [sample_len p]
      in if lw \<le> rw then lpt_loop bin_cost ps (left @ [p]) (lw + w) right rw
         else lpt_loop bin_cost ps left lw (right @ [p]) (rw + w))"

definition bin_of :: "(nat \<times> MicroBatch) list \<Rightarrow> MicroBatchBin" where
  "bin_of samples = \<lparr> bn_samples = samples, bn_length = sum_list (map sample_len samples) \<rparr>"

definition split_by_workload :: "(nat list \<Rightarrow> int) \<Rightarrow> MicroBatchBin \<Rightarrow> MicroBatchBin \<times> MicroBatchBin" where
  "split_by_workload bin_cost b =
     (let ranked = sort_key (\<lambda>p. - bin_cost [sample_len p]) (bn_samples b);
          (left, right) = lpt_loop bin_cost ranked [] 0 [] 0
      in (bin_of left, bin_of right))"

section \<open>Materialising a bin\<close>

text \<open>\<open>stream if stream is not None else [fill] * sample_len\<close>, and the \<open>has_stream\<close> switch.\<close>

definition filled :: "'a \<Rightarrow> (MicroBatch \<Rightarrow> 'a list option) \<Rightarrow> MicroBatch \<Rightarrow> 'a list" where
  "filled fill get mb = (case get mb of Some xs \<Rightarrow> xs | None \<Rightarrow> replicate (length (mb_input_ids mb)) fill)"

definition merged_stream :: "'a \<Rightarrow> (MicroBatch \<Rightarrow> 'a list option) \<Rightarrow> MicroBatch list \<Rightarrow> 'a list option" where
  "merged_stream fill get mbs =
     (if list_ex (\<lambda>mb. get mb \<noteq> None) mbs then Some (concat (map (filled fill get) mbs)) else None)"

definition policy_chunk :: "MicroBatch \<Rightarrow> 8 word list result" where
  "policy_chunk mb =
     (case mb_token_policy_versions mb of
        Some p \<Rightarrow> bindE (decode_policy_versions p (length (mb_input_ids mb))) (\<lambda>_. Ok (et_data p))
      | None \<Rightarrow> Ok (replicate (8 * length (mb_input_ids mb)) 255))"

text \<open>One sample's routed experts appended to the accumulated ones.\<close>

definition add_routed :: "RoutedExperts option \<Rightarrow> MicroBatch \<Rightarrow> RoutedExperts option result" where
  "add_routed acc mb =
     (case mb_routed_experts mb of
        None \<Rightarrow> Ok acc
      | Some rx \<Rightarrow>
         (case acc of
            None \<Rightarrow> Ok (Some rx)
          | Some a \<Rightarrow>
              raise_if (rx_dtype a \<noteq> rx_dtype rx) (AssertionError ''routed_experts.dtype'')
             (raise_if (tl (rx_shape a) \<noteq> tl (rx_shape rx)) (AssertionError ''routed_experts.shape'')
             (bindE (nth_chk (rx_shape a) 0) (\<lambda>m. bindE (nth_chk (rx_shape rx) 0) (\<lambda>n.
                Ok (Some (a\<lparr> rx_data := rx_data a @ rx_data rx, rx_shape := (rx_shape a)[0 := m + n] \<rparr>))))))))"

text \<open>The parts of the loop over the samples that can raise: version bytes, routed experts, token counts.\<close>

fun bin_loop ::
  "bool \<Rightarrow> (nat \<times> MicroBatch) list \<Rightarrow> 8 word list \<Rightarrow> RoutedExperts option \<Rightarrow> nat list \<Rightarrow>
   (8 word list \<times> RoutedExperts option \<times> nat list) result" where
  "bin_loop has_versions [] data routed counts = Ok (data, routed, counts)"
| "bin_loop has_versions (p # ps) data routed counts =
     bindE (if has_versions then policy_chunk (snd p) else Ok []) (\<lambda>chunk.
     bindE (add_routed routed (snd p)) (\<lambda>routed'.
     bindE (nth_chk counts (fst p)) (\<lambda>n.
       bin_loop has_versions ps (data @ chunk) routed' (counts[fst p := n + sample_len p]))))"

definition bin_has_versions :: "MicroBatchBin \<Rightarrow> bool" where
  "bin_has_versions b = list_ex (\<lambda>p. mb_token_policy_versions (snd p) \<noteq> None) (bn_samples b)"

text \<open>The returned microbatch: streams concatenated, absent ones filled.\<close>

definition assemble_bin :: "MicroBatchBin \<Rightarrow> 8 word list \<Rightarrow> RoutedExperts option \<Rightarrow> nat list \<Rightarrow> MicroBatch" where
  "assemble_bin b data routed counts =
     (let mbs = map snd (bn_samples b); input_ids = concat (map mb_input_ids mbs) in
      \<lparr> mb_input_ids = input_ids, mb_loss_mask = concat (map mb_loss_mask mbs),
        mb_advantages = concat (map mb_advantages mbs), mb_inference_logprobs = concat (map mb_inference_logprobs mbs),
        mb_position_ids = concat (map mb_position_ids mbs), mb_sequence_lengths = map sample_len (bn_samples b),
        mb_temperatures = concat (map mb_temperatures mbs), mb_env_names = concat (map mb_env_names mbs),
        mb_ref_logprobs = merged_stream 0 mb_ref_logprobs mbs, mb_lora_num_tokens = Some counts,
        mb_routed_experts = routed,
        mb_mm_kwargs = (if is_multimodal_sample (first_sample b) then mb_mm_kwargs (first_sample b) else None),
        mb_mm_token_type_ids = merged_stream 0 mb_mm_token_type_ids mbs,
        mb_rl_weights = merged_stream 1 mb_rl_weights mbs, mb_ce_weights = merged_stream 0 mb_ce_weights mbs,
        mb_ref_kl_weights = merged_stream 0 mb_ref_kl_weights mbs,
        mb_token_policy_versions = (if bin_has_versions b
          then Some \<lparr> et_dtype = ''int64'', et_shape = [int (length input_ids)], et_data = data \<rparr> else None) \<rparr>)"

definition materialize_bin :: "nat \<Rightarrow> MicroBatchBin \<Rightarrow> MicroBatch result" where
  "materialize_bin num_loras b =
     bindE (bin_loop (bin_has_versions b) (bn_samples b) [] None (replicate num_loras 0)) (\<lambda>(data, routed, counts).
       raise_if (sum_list (map sample_len (bn_samples b)) \<noteq> length (concat (map (mb_input_ids \<circ> snd) (bn_samples b)))) (AssertionError ''sequence_lengths'')
      (raise_if (bn_samples b = []) IndexError (Ok (assemble_bin b data routed counts))))"

section \<open>Packing\<close>

text \<open>The \<open>for ... else\<close> over the bins.\<close>

fun place_sample :: "nat \<Rightarrow> nat \<Rightarrow> MicroBatch \<Rightarrow> MicroBatchBin list \<Rightarrow> MicroBatchBin list" where
  "place_sample max_seq_len idx sample [] = [bin_from_sample idx sample]"
| "place_sample max_seq_len idx sample (b # bs) =
     (if can_add b sample max_seq_len then bin_add idx sample b # bs else b # place_sample max_seq_len idx sample bs)"

definition expand_candidates :: "(nat list \<Rightarrow> int) \<Rightarrow> MicroBatchBin list \<Rightarrow> (int \<times> nat) list" where
  "expand_candidates bin_cost bins =
     map (\<lambda>i. (bin_workload bin_cost (bins ! i), i)) (filter (\<lambda>i. length (bn_samples (bins ! i)) > 1) [0..<length bins])"

function expand_bins_by_splitting :: "nat \<Rightarrow> (nat list \<Rightarrow> int) \<Rightarrow> MicroBatchBin list \<Rightarrow> MicroBatchBin list" where
  "expand_bins_by_splitting target bin_cost bins =
     (if length bins < target then
        (if expand_candidates bin_cost bins = [] then bins
         else let i = snd (Max (set (expand_candidates bin_cost bins)));
                  (left, right) = split_by_workload bin_cost (bins ! i)
              in expand_bins_by_splitting target bin_cost (bins[i := left] @ [right]))
      else bins)"
  by pat_completeness auto
termination
  by (relation "measure (\<lambda>(target, c, bins). target - length bins)") auto

declare expand_bins_by_splitting.simps [simp del]

definition fill_bins :: "nat \<Rightarrow> (nat \<times> MicroBatch) list \<Rightarrow> MicroBatchBin list" where
  "fill_bins max_seq_len samples = foldl (\<lambda>bins (idx, sample). place_sample max_seq_len idx sample bins) [] samples"

text \<open>\<open>samples.sort(key=lambda x: (x[0], -len(x[1].input_ids)))\<close>\<close>

definition packing_order :: "(nat \<times> MicroBatch) list \<Rightarrow> (nat \<times> MicroBatch) list" where
  "packing_order samples = sort_key (\<lambda>p. (fst p, - int (sample_len p))) samples"

definition packed_bins :: "(nat list \<Rightarrow> int) \<Rightarrow> nat \<Rightarrow> nat \<Rightarrow> (nat \<times> MicroBatch) list \<Rightarrow> MicroBatchBin list" where
  "packed_bins bin_cost max_seq_len num_train_workers samples =
     (let bins = fill_bins max_seq_len (packing_order samples)
      in if num_train_workers > 1
         then expand_bins_by_splitting
                (max (((length bins + num_train_workers - 1) div num_train_workers) * num_train_workers) num_train_workers) bin_cost bins
         else bins)"

definition packed_samples_into_micro_bs ::
  "(nat list \<Rightarrow> int) \<Rightarrow> nat \<Rightarrow> nat \<Rightarrow> nat \<Rightarrow> (nat \<times> MicroBatch) list \<Rightarrow> MicroBatch list result" where
  "packed_samples_into_micro_bs bin_cost max_seq_len num_loras num_train_workers samples =
     traverse (materialize_bin num_loras) (packed_bins bin_cost max_seq_len num_train_workers samples)"

section \<open>Padding and distribution\<close>

definition pad_stream :: "'a \<Rightarrow> nat \<Rightarrow> 'a list option \<Rightarrow> 'a list option" where
  "pad_stream x n s = map_option (\<lambda>xs. xs @ replicate n x) s"

text \<open>\<open>lora_num_tokens[-1] += padding_size\<close>\<close>

definition pad_lora :: "nat \<Rightarrow> nat list option \<Rightarrow> nat list option result" where
  "pad_lora n lora =
     (case lora of
        None \<Rightarrow> Ok None
      | Some counts \<Rightarrow> raise_if (counts = []) IndexError (Ok (Some (counts[length counts - 1 := last counts + n]))))"

definition pad_versions :: "nat \<Rightarrow> nat \<Rightarrow> EncodedTensor option \<Rightarrow> EncodedTensor option" where
  "pad_versions len n versions =
     map_option (\<lambda>p. \<lparr> et_dtype = ''int64'', et_shape = [int (len + n)], et_data = et_data p @ replicate (8 * n) 255 \<rparr>) versions"

text \<open>The padded streams: loss-masked tokens of weight zero that belong to no environment.\<close>

definition padded_batch :: "nat \<Rightarrow> nat list option \<Rightarrow> RoutedExperts option \<Rightarrow> MicroBatch \<Rightarrow> MicroBatch" where
  "padded_batch n lora routed mb =
     mb\<lparr> mb_input_ids := mb_input_ids mb @ replicate n 1, mb_advantages := mb_advantages mb @ replicate n 0,
         mb_loss_mask := mb_loss_mask mb @ replicate n False,
         mb_position_ids := mb_position_ids mb @ map int [0..<n],
         mb_sequence_lengths := mb_sequence_lengths mb @ [n],
         mb_inference_logprobs := mb_inference_logprobs mb @ replicate n 0,
         mb_temperatures := mb_temperatures mb @ replicate n 1,
         mb_ref_logprobs := pad_stream 0 n (mb_ref_logprobs mb),
         mb_rl_weights := pad_stream 0 n (mb_rl_weights mb), mb_ce_weights := pad_stream 0 n (mb_ce_weights mb),
         mb_ref_kl_weights := pad_stream 0 n (mb_ref_kl_weights mb), mb_lora_num_tokens := lora,
         mb_mm_token_type_ids := pad_stream 0 n (mb_mm_token_type_ids mb), mb_routed_experts := routed,
         mb_env_names := mb_env_names mb @ replicate n [],
         mb_token_policy_versions := pad_versions (length (mb_input_ids mb)) n (mb_token_policy_versions mb) \<rparr>"

definition pad_micro_batch :: "nat \<Rightarrow> MicroBatch \<Rightarrow> MicroBatch result" where
  "pad_micro_batch multiple mb =
     (let len = length (mb_input_ids mb) in
      raise_if (multiple = 0) ZeroDivisionError
      (let n = (multiple - len mod multiple) mod multiple in
       raise_if (length (mb_env_names mb) \<noteq> len) (ValueError ''MicroBatch.env_names must match input_ids length before padding'')
       (bindE (check_versions (mb_token_policy_versions mb) len) (\<lambda>_.
        if \<not> (multiple > 1 \<and> n > 0) then Ok mb
        else
          bindE (pad_lora n (mb_lora_num_tokens mb)) (\<lambda>lora.
          bindE (case mb_routed_experts mb of None \<Rightarrow> Ok None | Some rx \<Rightarrow> bindE (pad_routed_experts rx n) (\<lambda>r. Ok (Some r))) (\<lambda>routed.
            Ok (padded_batch n lora routed mb)))))))"

definition assert_token_arrays_aligned :: "MicroBatch \<Rightarrow> unit result" where
  "assert_token_arrays_aligned mb =
     (let n = length (mb_input_ids mb) in
      bindE (check_versions (mb_token_policy_versions mb) n) (\<lambda>_.
      raise_if (\<not> (length (mb_loss_mask mb) = n \<and> length (mb_advantages mb) = n \<and> length (mb_inference_logprobs mb) = n \<and>
                   length (mb_position_ids mb) = n \<and> length (mb_temperatures mb) = n \<and> length (mb_env_names mb) = n \<and>
                   stream_len n (mb_ref_logprobs mb) \<and> stream_len n (mb_rl_weights mb) \<and> stream_len n (mb_ce_weights mb) \<and>
                   stream_len n (mb_ref_kl_weights mb) \<and> stream_len n (mb_mm_token_type_ids mb)))
        (AssertionError ''misaligned after packing'')
      (raise_if (sum_list (mb_sequence_lengths mb) \<noteq> n) (AssertionError ''sequence_lengths'')
      (case mb_routed_experts mb of
         None \<Rightarrow> Ok ()
       | Some rx \<Rightarrow> bindE (nth_chk (rx_shape rx) 0) (\<lambda>rows.
           raise_if (rows \<noteq> n) (AssertionError ''routed_experts misaligned after packing'') (Ok ()))))))"

definition make_dummy_batch :: "MicroBatch \<Rightarrow> MicroBatch" where
  "make_dummy_batch source =
     source\<lparr> mb_advantages := replicate (length (mb_input_ids source)) 0, mb_loss_mask := replicate (length (mb_input_ids source)) False,
             mb_rl_weights := None, mb_ce_weights := None, mb_ref_kl_weights := None, mb_token_policy_versions := None \<rparr>"

text \<open>\<open>-len(group) % num_train_workers\<close> in Python is never negative.\<close>

definition pad_group_for_distribution :: "nat \<Rightarrow> MicroBatch list \<Rightarrow> MicroBatch list" where
  "pad_group_for_distribution workers batches =
     (let n = nat ((- int (length batches)) mod int workers)
      in if n > 0 \<and> batches \<noteq> [] then batches @ replicate n (make_dummy_batch (hd batches)) else batches)"

definition distribute_group :: "(nat list \<Rightarrow> int) \<Rightarrow> nat \<Rightarrow> MicroBatch list \<Rightarrow> MicroBatch list list result option" where
  "distribute_group bin_cost workers batches =
     (if workers = 0 then Some (Raise ZeroDivisionError)
      else if length batches mod workers \<noteq> 0 then Some (Raise (AssertionError ''Number of micro batches is not divisible by number of data ranks''))
      else if batches = [] then Some (Ok (replicate workers []))
      else (case balanced_partition (map (\<lambda>mb. bin_cost (mb_sequence_lengths mb)) batches) workers of
              None \<Rightarrow> None
            | Some (Inl e) \<Rightarrow> Some (Raise e)
            | Some (Inr parts) \<Rightarrow> Some (Ok (map (map (\<lambda>i. batches ! i)) parts))))"

definition prepare_batch ::
  "(EncodedTensor \<Rightarrow> nat list list) \<Rightarrow> (string \<Rightarrow> nat) \<Rightarrow> (nat list \<Rightarrow> int) \<Rightarrow> TrainingExample list \<Rightarrow> nat \<Rightarrow> nat \<Rightarrow> nat list \<Rightarrow>
   nat \<Rightarrow> nat \<Rightarrow> MicroBatch list list result option" where
  "prepare_batch grid_rows itemsize bin_cost rollouts seq_len workers idxs num_loras multiple =
     (case bindE (traverse (\<lambda>(idx, ex). bindE (prepare_sample grid_rows itemsize ex seq_len) (\<lambda>mb. Ok (idx, mb))) (zip idxs rollouts)) (\<lambda>samples.
           bindE (packed_samples_into_micro_bs bin_cost seq_len num_loras workers samples) (\<lambda>packed.
           bindE (traverse (pad_micro_batch multiple) packed) (\<lambda>micro_batches.
           raise_if (workers = 0) ZeroDivisionError
           (let mm = pad_group_for_distribution workers (filter is_multimodal_sample micro_batches);
                txt = pad_group_for_distribution workers (filter (\<lambda>b. \<not> is_multimodal_sample b) micro_batches)
            in bindE (traverse assert_token_arrays_aligned (mm @ txt)) (\<lambda>_. Ok (mm, txt)))))) of
        Inl e \<Rightarrow> Some (Raise e)
      | Inr (mm, txt) \<Rightarrow>
        (case distribute_group bin_cost workers mm of
           None \<Rightarrow> None
         | Some (Inl e) \<Rightarrow> Some (Raise e)
         | Some (Inr per_mm) \<Rightarrow>
           (case distribute_group bin_cost workers txt of
              None \<Rightarrow> None
            | Some (Inl e) \<Rightarrow> Some (Raise e)
            | Some (Inr per_txt) \<Rightarrow> Some (Ok (map2 (@) per_mm per_txt)))))"

section \<open>Alignment\<close>

text \<open>Version bytes that decode: eight per token, no value below -1.\<close>

definition bytes_ok :: "nat \<Rightarrow> 8 word list \<Rightarrow> bool" where
  "bytes_ok n bs \<longleftrightarrow> length bs = 8 * n \<and> (\<forall>v \<in> set (frombuffer n bs). sint v \<ge> -1)"

definition versions_ok :: "nat \<Rightarrow> EncodedTensor option \<Rightarrow> bool" where
  "versions_ok n versions \<longleftrightarrow>
     (case versions of None \<Rightarrow> True
      | Some p \<Rightarrow> et_dtype p = ''int64'' \<and> et_shape p = [int n] \<and> bytes_ok n (et_data p))"

lemma check_versions_iff: "check_versions versions n = Ok () \<longleftrightarrow> versions_ok n versions"
proof (cases versions)
  case (Some p)
  have "(\<exists>v \<in> set (frombuffer n (et_data p)). sint v < - 1) \<longleftrightarrow> \<not> (\<forall>v \<in> set (frombuffer n (et_data p)). sint v \<ge> - 1)"
    by (auto simp: not_le)
  then show ?thesis
    by (auto simp: Some check_versions_def versions_ok_def decode_policy_versions_def bytes_ok_def raise_if_def Let_def)
qed (simp add: check_versions_def versions_ok_def)

lemma frombuffer_append: "length a = 8 * m \<Longrightarrow> frombuffer (m + n) (a @ b) = frombuffer m a @ frombuffer n b"
proof (induction m arbitrary: a)
  case (Suc m)
  have "take 8 (a @ b) = take 8 a" "drop 8 (a @ b) = drop 8 a @ b" using Suc.prems by simp_all
  then show ?case using Suc.IH[of "drop 8 a"] Suc.prems by simp
qed simp

lemma bytes_ok_append: "bytes_ok m a \<Longrightarrow> bytes_ok n b \<Longrightarrow> bytes_ok (m + n) (a @ b)"
  by (auto simp: bytes_ok_def frombuffer_append)

lemma unknown_word: "of_bytes (replicate 8 255) = -1"
proof -
  have "of_bytes (bytes_of (-1)) = -1" by (rule of_bytes_bytes)
  moreover have "ucast (drop_bit (8 * i) (-1 :: 64 word)) = (255 :: 8 word)" if "i < 8" for i
  proof -
    have "ucast (drop_bit (8 * i) (-1 :: 64 word)) = (-1 :: 8 word)"
      using that by (intro bit_word_eqI) (auto simp: bit_simps)
    then show ?thesis by simp
  qed
  then have "bytes_of (-1) = replicate 8 255" by (intro nth_equalityI) (simp_all add: bytes_of_def)
  ultimately show ?thesis by simp
qed

lemma bytes_ok_unknown: "bytes_ok n (replicate (8 * n) 255)"
proof -
  have "set (frombuffer n (replicate (8 * n) 255)) \<subseteq> {-1}"
    by (induction n) (auto simp: unknown_word)
  then show ?thesis by (auto simp: bytes_ok_def)
qed

lemma length_frombuffer [simp]: "length (frombuffer n bs) = n"
  by (induction n arbitrary: bs) auto

text \<open>Re-encoding a prefix of decoded versions gives a carrier for the prefix.\<close>

lemma reencode_prefix:
  assumes "decode_policy_versions p n = Ok vs" "encode_policy_versions (take k vs) = Ok r"
  shows "versions_ok (min k n) r"
proof -
  have vs: "length vs = n" "\<forall>v \<in> set vs. sint v \<ge> -1"
    using assms(1) by (auto simp: decode_policy_versions_def raise_if_def Let_def not_less split: if_splits)
  have r: "r = None \<or> r = Some \<lparr> et_dtype = ''int64'', et_shape = [int (length (take k vs))], et_data = concat (map bytes_of (take k vs)) \<rparr>"
    using assms(2) by (auto simp: encode_policy_versions_def raise_if_def split: if_splits)
  have "bytes_ok (length (take k vs)) (concat (map bytes_of (take k vs)))"
    using vs(2) by (auto simp only: bytes_ok_def frombuffer_concat length_concat_bytes dest: in_set_takeD)
  then show ?thesis using r vs(1) by (auto simp: versions_ok_def min.commute)
qed

definition routed_ok :: "nat \<Rightarrow> RoutedExperts \<Rightarrow> bool" where
  "routed_ok n rx \<longleftrightarrow> (\<exists>row. routed_experts_row_size rx = Ok row \<and> rx_shape rx ! 0 = n \<and> length (rx_data rx) = n * row)"

definition aligned :: "MicroBatch \<Rightarrow> bool" where
  "aligned mb \<longleftrightarrow>
     (let n = length (mb_input_ids mb) in
      length (mb_loss_mask mb) = n \<and> length (mb_advantages mb) = n \<and> length (mb_inference_logprobs mb) = n \<and>
      length (mb_position_ids mb) = n \<and> length (mb_temperatures mb) = n \<and> length (mb_env_names mb) = n \<and>
      stream_len n (mb_ref_logprobs mb) \<and> stream_len n (mb_rl_weights mb) \<and> stream_len n (mb_ce_weights mb) \<and>
      stream_len n (mb_ref_kl_weights mb) \<and> stream_len n (mb_mm_token_type_ids mb) \<and>
      sum_list (mb_sequence_lengths mb) = n \<and> versions_ok n (mb_token_policy_versions mb) \<and>
      pred_option (routed_ok n) (mb_routed_experts mb))"

lemma row_size_shape: "routed_experts_row_size rx = Ok row \<Longrightarrow> 0 < length (rx_shape rx)"
  by (auto simp: routed_experts_row_size_def result_simps)

lemma aligned_passes: "aligned mb \<Longrightarrow> assert_token_arrays_aligned mb = Ok ()"
  by (auto simp: aligned_def assert_token_arrays_aligned_def Let_def check_versions_iff[THEN iffD2] routed_ok_def
      nth_chk_def raise_if_def dest!: row_size_shape split: option.splits)

section \<open>Truncation keeps whole images\<close>

lemma keep_images_sum:
  "keep_images surviving ns kept acc = (kept', acc') \<Longrightarrow> acc \<le> surviving \<Longrightarrow>
   acc' \<le> surviving \<and> kept \<le> kept' \<and> acc' = acc + sum_list (take (kept' - kept) ns)"
proof (induction surviving ns kept acc rule: keep_images.induct)
  case (2 surviving n ns kept acc)
  show ?case
  proof (cases "acc + n > surviving")
    case False
    then have ih: "acc' \<le> surviving" "kept + 1 \<le> kept'" "acc' = acc + n + sum_list (take (kept' - (kept + 1)) ns)"
      using 2 by auto
    have "kept' - kept = Suc (kept' - (kept + 1))" using ih(2) by simp
    then show ?thesis using ih by simp
  qed (use 2 in auto)
qed auto

lemma find_placeholder_at:
  "seen < target \<Longrightarrow> target \<le> seen + image_tokens ts \<Longrightarrow>
   \<exists>j < length ts. find_placeholder target seen i dflt ts = i + j \<and> seen + image_tokens (take j ts) = target - 1 \<and> ts ! j \<noteq> 0"
proof (induction target seen i dflt ts rule: find_placeholder.induct)
  case (2 target seen i dflt t ts)
  show ?case
  proof (cases "t \<noteq> 0 \<and> seen + 1 = target")
    case True
    then show ?thesis by (intro exI[of _ 0]) (auto simp: image_tokens_def)
  next
    case False
    define seen' where "seen' = (if t \<noteq> 0 then seen + 1 else seen)"
    have "\<exists>j < length ts. find_placeholder target seen' (i + 1) dflt ts = i + 1 + j \<and> seen' + image_tokens (take j ts) = target - 1 \<and> ts ! j \<noteq> 0"
      using 2 False by (auto simp: seen'_def image_tokens_def split: if_splits)
    then obtain j where j: "j < length ts" "find_placeholder target seen' (i + 1) dflt ts = i + 1 + j"
        "seen' + image_tokens (take j ts) = target - 1" "ts ! j \<noteq> 0" by blast
    have "find_placeholder target seen i dflt (t # ts) = i + Suc j" using False j(2) by (auto simp: seen'_def split: if_splits)
    moreover have "seen + image_tokens (take (Suc j) (t # ts)) = target - 1" using j(3) by (auto simp: seen'_def image_tokens_def)
    ultimately show ?thesis using j(1,4) by (intro exI[of _ "Suc j"]) simp
  qed
qed (simp add: image_tokens_def)

lemma image_tokens_take_mono: "i \<le> j \<Longrightarrow> image_tokens (take i ts) \<le> image_tokens (take j ts)"
  by (metis append_take_drop_id filter_append image_tokens_def le_add1 length_append min.absorb1 take_take)

lemma image_tokens_take_le: "image_tokens (take i ts) \<le> image_tokens ts"
  by (metis append_take_drop_id filter_append image_tokens_def le_add1 length_append)

lemma truncate_mm_at:
  assumes "truncate_mm grid_rows itemsize types kwargs seq_len = Ok (cut_at, kept_kwargs)"
  shows "\<exists>kept grid pixels ppt. cut_at \<le> seq_len \<and>
     map_of kwargs ''image_grid_thw'' = Some grid \<and> map_of kwargs ''pixel_values'' = Some pixels \<and>
     ppt = (if image_tokens types \<noteq> 0 then nat (et_shape pixels ! 0) div image_tokens types else 1) \<and>
     image_tokens (take cut_at types) = sum_list (take kept (map (\<lambda>p. p div ppt) (map prod_list (grid_rows grid)))) \<and>
     (kept_kwargs = None \<longleftrightarrow> kept = 0)"
proof -
  obtain grid pixels where g: "map_of kwargs ''image_grid_thw'' = Some grid" "map_of kwargs ''pixel_values'' = Some pixels"
    using assms by (auto simp: truncate_mm_def split: option.splits)
  define ppt where "ppt = (if image_tokens types \<noteq> 0 then nat (et_shape pixels ! 0) div image_tokens types else 1)"
  define tpi where "tpi = map (\<lambda>p. p div ppt) (map prod_list (grid_rows grid))"
  define surviving where "surviving = image_tokens (take seq_len types)"
  obtain kept acc where k: "keep_images surviving tpi 0 0 = (kept, acc)" by (cases "keep_images surviving tpi 0 0")
  have body: "cut_at = (if acc = surviving then seq_len else find_placeholder (acc + 1) 0 0 seq_len types)"
      "kept_kwargs = None \<longleftrightarrow> kept = 0"
    using assms g k
    by (auto simp: truncate_mm_def result_simps Let_def surviving_def[symmetric] ppt_def tpi_def comp_def split: if_splits prod.splits)
  note sum = keep_images_sum[OF k]
  have "cut_at \<le> seq_len \<and> image_tokens (take cut_at types) = acc"
  proof (cases "acc = surviving")
    case False
    then have lt: "acc < surviving" using sum by simp
    then have "acc + 1 \<le> 0 + image_tokens types" using image_tokens_take_le[of seq_len types] by (simp add: surviving_def)
    then obtain j where j: "j < length types" "find_placeholder (acc + 1) 0 0 seq_len types = j"
        "image_tokens (take j types) = acc"
      using find_placeholder_at[of 0 "acc + 1" types 0 seq_len] by auto
    have "j \<le> seq_len"
    proof (rule ccontr)
      assume "\<not> j \<le> seq_len"
      then have "surviving \<le> acc" using image_tokens_take_mono[of seq_len j types] j(3) by (simp add: surviving_def)
      then show False using lt by simp
    qed
    then show ?thesis using False j body by simp
  qed (use body surviving_def in simp)
  then show ?thesis using g body(2) sum ppt_def tpi_def by (intro exI[of _ kept] exI[of _ grid] exI[of _ pixels] exI[of _ ppt]) simp
qed

section \<open>Prepared samples\<close>

definition prepared :: "nat \<Rightarrow> MicroBatch \<Rightarrow> bool" where
  "prepared seq_len mb \<longleftrightarrow> aligned mb \<and> mb_sequence_lengths mb = [length (mb_input_ids mb)] \<and> length (mb_input_ids mb) \<le> seq_len"

lemma assert_prepared_aligned:
  assumes "assert_prepared mb = Ok ()" "mb_sequence_lengths mb = [length (mb_input_ids mb)]"
    "versions_ok (length (mb_input_ids mb)) (mb_token_policy_versions mb)"
  shows "aligned mb"
proof -
  have "pred_option (routed_ok (length (mb_input_ids mb))) (mb_routed_experts mb)"
    using assms(1) by (cases "mb_routed_experts mb") (auto simp: assert_prepared_def result_simps Let_def routed_ok_def)
  then show ?thesis using assms by (auto simp: assert_prepared_def result_simps Let_def aligned_def)
qed

lemma cut_sample_facts:
  assumes "cut_sample k kwargs mb = Ok mb'" "versions_ok (length (mb_input_ids mb)) (mb_token_policy_versions mb)"
  shows "mb_input_ids mb' = take k (mb_input_ids mb)" "mb_sequence_lengths mb' = [length (mb_input_ids mb')]"
    "versions_ok (length (mb_input_ids mb')) (mb_token_policy_versions mb')"
    "mb_mm_kwargs mb' = kwargs" "mb_mm_token_type_ids mb' = map_option (take k) (mb_mm_token_type_ids mb)"
proof -
  show "mb_input_ids mb' = take k (mb_input_ids mb)" "mb_sequence_lengths mb' = [length (mb_input_ids mb')]"
    "mb_mm_kwargs mb' = kwargs" "mb_mm_token_type_ids mb' = map_option (take k) (mb_mm_token_type_ids mb)"
    using assms(1) by (auto simp: cut_sample_def result_simps)
  show "versions_ok (length (mb_input_ids mb')) (mb_token_policy_versions mb')"
  proof (cases "mb_token_policy_versions mb")
    case None
    then show ?thesis using assms(1) by (auto simp: cut_sample_def result_simps versions_ok_def)
  next
    case (Some p)
    then obtain vs r where "decode_policy_versions p (length (mb_input_ids mb)) = Ok vs"
        "encode_policy_versions (take k vs) = Ok r" "mb_token_policy_versions mb' = r" "mb_input_ids mb' = take k (mb_input_ids mb)"
      using assms(1) by (auto simp: cut_sample_def result_simps)
    then show ?thesis using reencode_prefix[of p "length (mb_input_ids mb)" vs k r] by (simp add: min.commute)
  qed
qed

lemma prepare_sample_prepared:
  assumes "prepare_sample grid_rows itemsize ex seq_len = Ok mb"
  shows "prepared seq_len mb"
proof -
  obtain adv where chk: "check_versions (te_token_policy_versions ex) (length (te_token_ids ex)) = Ok ()"
    and run: "(if length (te_token_ids ex) > seq_len
             then bindE (case (te_mm_token_type_ids ex, te_mm_kwargs ex) of
                           (Some types, Some kwargs) \<Rightarrow> truncate_mm grid_rows itemsize types kwargs seq_len
                         | _ \<Rightarrow> Ok (seq_len, te_mm_kwargs ex)) (\<lambda>(cut_at, mm_kwargs). cut_sample cut_at mm_kwargs (whole_sample ex adv))
             else Ok (whole_sample ex adv)) = Ok mb"
    and a: "assert_prepared mb = Ok ()"
    using assms by (auto simp: prepare_sample_def result_simps Let_def)
  have whole: "mb_input_ids (whole_sample ex adv) = te_token_ids ex" "mb_token_policy_versions (whole_sample ex adv) = te_token_policy_versions ex"
    by (simp_all add: whole_sample_def Let_def)
  have v: "versions_ok (length (te_token_ids ex)) (te_token_policy_versions ex)" using chk check_versions_iff by blast
  show ?thesis
  proof (cases "length (te_token_ids ex) > seq_len")
    case False
    then have "mb = whole_sample ex adv" using run by simp
    then show ?thesis
      using assert_prepared_aligned[OF a] v False by (simp add: prepared_def whole_sample_def Let_def)
  next
    case True
    then obtain k kwargs where k: "(case (te_mm_token_type_ids ex, te_mm_kwargs ex) of
           (Some types, Some kwargs) \<Rightarrow> truncate_mm grid_rows itemsize types kwargs seq_len
         | _ \<Rightarrow> Ok (seq_len, te_mm_kwargs ex)) = Ok (k, kwargs)"
      and c: "cut_sample k kwargs (whole_sample ex adv) = Ok mb"
      using run by (auto simp: result_simps)
    have "k \<le> seq_len" using k truncate_mm_at by (fastforce split: option.splits)
    then show ?thesis
      using cut_sample_facts[OF c] assert_prepared_aligned[OF a] v by (simp add: prepared_def whole)
  qed
qed

section \<open>Materialised bins\<close>

text \<open>
  A token with what the loss reads of it: the mask, advantage, inference and reference log-probability, temperature and the weights of
  the three components, an absent stream read as its fill; and the tokens that some component trains.
\<close>

type_synonym token = "int \<times> bool \<times> real \<times> real \<times> real \<times> real \<times> real \<times> real \<times> real"

definition tokens :: "MicroBatch \<Rightarrow> token list" where
  "tokens mb = zip (mb_input_ids mb) (zip (mb_loss_mask mb) (zip (mb_advantages mb) (zip (mb_inference_logprobs mb)
     (zip (mb_temperatures mb) (zip (filled 0 mb_ref_logprobs mb) (zip (filled 1 mb_rl_weights mb)
     (zip (filled 0 mb_ce_weights mb) (filled 0 mb_ref_kl_weights mb))))))))"

definition trained :: "MicroBatch \<Rightarrow> token list" where
  "trained mb = filter (\<lambda>(i, m, adv, lp, temp, ref, rl, ce, rk). m \<or> ce \<noteq> 0 \<or> rk \<noteq> 0) (tokens mb)"

lemma length_filled: "stream_len (length (mb_input_ids mb)) (get mb) \<Longrightarrow> length (filled fill get mb) = length (mb_input_ids mb)"
  by (cases "get mb") (auto simp: filled_def)

lemma aligned_lengths:
  assumes "aligned mb"
  shows "length (mb_loss_mask mb) = length (mb_input_ids mb)" "length (mb_advantages mb) = length (mb_input_ids mb)"
    "length (mb_inference_logprobs mb) = length (mb_input_ids mb)" "length (mb_position_ids mb) = length (mb_input_ids mb)"
    "length (mb_temperatures mb) = length (mb_input_ids mb)" "length (mb_env_names mb) = length (mb_input_ids mb)"
    "length (filled fr mb_ref_logprobs mb) = length (mb_input_ids mb)" "length (filled f1 mb_rl_weights mb) = length (mb_input_ids mb)"
    "length (filled f2 mb_ce_weights mb) = length (mb_input_ids mb)" "length (filled f3 mb_ref_kl_weights mb) = length (mb_input_ids mb)"
    "length (filled ft mb_mm_token_type_ids mb) = length (mb_input_ids mb)"
    "versions_ok (length (mb_input_ids mb)) (mb_token_policy_versions mb)"
    "pred_option (routed_ok (length (mb_input_ids mb))) (mb_routed_experts mb)"
  using assms by (auto simp: aligned_def Let_def intro!: length_filled)

lemma length_concat_eq:
  "\<forall>mb \<in> set mbs. length (f mb) = length (g mb) \<Longrightarrow> length (concat (map f mbs)) = length (concat (map g mbs))"
  by (induction mbs) auto

lemma merged_stream_len:
  assumes "\<forall>mb \<in> set mbs. length (filled fill get mb) = length (mb_input_ids mb)"
  shows "stream_len (length (concat (map mb_input_ids mbs))) (merged_stream fill get mbs)"
  using length_concat_eq[OF assms] by (simp add: merged_stream_def)

lemma merged_stream_filled:
  assumes "mb_input_ids out = concat (map mb_input_ids mbs)" "get out = merged_stream fill get mbs"
  shows "filled fill get out = concat (map (filled fill get) mbs)"
proof (cases "list_ex (\<lambda>mb. get mb \<noteq> None) mbs")
  case False
  have "replicate (length (concat (map mb_input_ids mbs))) fill = concat (map (filled fill get) mbs)"
    using False by (induction mbs) (auto simp: filled_def replicate_add)
  then show ?thesis using False assms by (simp add: filled_def merged_stream_def)
qed (use assms in \<open>simp add: filled_def merged_stream_def\<close>)

lemma tokens_concat:
  assumes "\<forall>mb \<in> set mbs. aligned mb"
    and "mb_input_ids out = concat (map mb_input_ids mbs)" "mb_loss_mask out = concat (map mb_loss_mask mbs)"
    "mb_advantages out = concat (map mb_advantages mbs)" "mb_inference_logprobs out = concat (map mb_inference_logprobs mbs)"
    "mb_temperatures out = concat (map mb_temperatures mbs)" "mb_ref_logprobs out = merged_stream 0 mb_ref_logprobs mbs"
    "mb_rl_weights out = merged_stream 1 mb_rl_weights mbs"
    "mb_ce_weights out = merged_stream 0 mb_ce_weights mbs" "mb_ref_kl_weights out = merged_stream 0 mb_ref_kl_weights mbs"
  shows "tokens out = concat (map tokens mbs)"
proof -
  have "zip (concat (map mb_input_ids mbs)) (zip (concat (map mb_loss_mask mbs)) (zip (concat (map mb_advantages mbs))
      (zip (concat (map mb_inference_logprobs mbs)) (zip (concat (map mb_temperatures mbs)) (zip (concat (map (filled 0 mb_ref_logprobs) mbs))
      (zip (concat (map (filled 1 mb_rl_weights) mbs))
      (zip (concat (map (filled 0 mb_ce_weights) mbs)) (concat (map (filled 0 mb_ref_kl_weights) mbs))))))))) = concat (map tokens mbs)"
    using assms(1) by (induction mbs) (simp_all add: tokens_def aligned_lengths)
  then show ?thesis
    unfolding tokens_def
    by (simp only: assms(2-6) merged_stream_filled[OF assms(2), of mb_ref_logprobs, OF assms(7)]
        merged_stream_filled[OF assms(2), of mb_rl_weights, OF assms(8)]
        merged_stream_filled[OF assms(2), of mb_ce_weights, OF assms(9)]
        merged_stream_filled[OF assms(2), of mb_ref_kl_weights, OF assms(10)] tokens_def)
qed

text \<open>Routed experts of one layout: the dtype and the per-token shape.\<close>

definition rx_like :: "string \<Rightarrow> nat list \<Rightarrow> RoutedExperts \<Rightarrow> bool" where
  "rx_like d t rx \<longleftrightarrow> rx_dtype rx = d \<and> tl (rx_shape rx) = t"

lemma row_size_like:
  assumes "routed_experts_row_size rx = Ok row" "rx_like d t rx" "rx_like d t rx'" "rx_shape rx' \<noteq> []"
  shows "routed_experts_row_size rx' = Ok row"
proof -
  have "rx_shape rx \<noteq> []" using row_size_shape[OF assms(1)] by auto
  then obtain x x' where "rx_shape rx = x # t" "rx_shape rx' = x' # t"
    using assms(2-4) by (metis list.collapse rx_like_def)
  then show ?thesis using assms by (simp add: routed_experts_row_size_def rx_like_def nth_chk_def split: if_splits)
qed

lemma append_routed_ok:
  assumes "routed_ok m a" "routed_ok n rx" "rx_like d t a" "rx_like d t rx"
  shows "routed_ok (m + n) (a\<lparr> rx_data := rx_data a @ rx_data rx, rx_shape := (rx_shape a)[0 := m + n] \<rparr>)" (is "routed_ok _ ?r")
    "rx_like d t (a\<lparr> rx_data := rx_data a @ rx_data rx, rx_shape := (rx_shape a)[0 := m + n] \<rparr>)"
proof -
  obtain row where row: "routed_experts_row_size a = Ok row" "rx_shape a ! 0 = m" "length (rx_data a) = m * row"
    using assms(1) by (auto simp: routed_ok_def)
  obtain row' where row': "routed_experts_row_size rx = Ok row'" "length (rx_data rx) = n * row'"
    using assms(2) by (auto simp: routed_ok_def)
  obtain x where sh: "rx_shape a = x # t" using row_size_shape[OF row(1)] assms(3) by (cases "rx_shape a") (auto simp: rx_like_def)
  show like: "rx_like d t ?r" using assms(3) sh by (simp add: rx_like_def)
  have "rx_shape rx \<noteq> []" using row_size_shape[OF row'(1)] by auto
  then have "row' = row" using row_size_like[OF row(1) assms(3,4)] row'(1) by simp
  moreover have "routed_experts_row_size ?r = Ok row" by (rule row_size_like[OF row(1) assms(3) like]) (simp add: sh)
  ultimately show "routed_ok (m + n) ?r" using row row' sh by (simp add: routed_ok_def algebra_simps)
qed

definition routed_acc :: "bool \<Rightarrow> string \<Rightarrow> nat list \<Rightarrow> nat \<Rightarrow> RoutedExperts option \<Rightarrow> bool" where
  "routed_acc present d t m acc \<longleftrightarrow>
     (case acc of None \<Rightarrow> \<not> present \<or> m = 0 | Some a \<Rightarrow> present \<and> routed_ok m a \<and> rx_like d t a)"

definition sample_fits :: "bool \<Rightarrow> string \<Rightarrow> nat list \<Rightarrow> nat \<Rightarrow> nat \<times> MicroBatch \<Rightarrow> bool" where
  "sample_fits present d t loras p \<longleftrightarrow> aligned (snd p) \<and> fst p < loras \<and> (mb_routed_experts (snd p) \<noteq> None) = present \<and>
     pred_option (rx_like d t) (mb_routed_experts (snd p))"

lemma add_routed_ok:
  assumes fits: "sample_fits present d t loras p" and acc: "routed_acc present d t m acc"
  shows "\<exists>acc'. add_routed acc (snd p) = Ok acc' \<and> routed_acc present d t (m + sample_len p) acc'"
proof (cases "mb_routed_experts (snd p)")
  case None
  then show ?thesis using fits acc by (auto simp: add_routed_def sample_fits_def routed_acc_def split: option.splits)
next
  case (Some rx)
  have rx: "routed_ok (sample_len p) rx" "rx_like d t rx" present
    using fits Some by (auto simp: sample_fits_def aligned_def Let_def sample_len_def)
  show ?thesis
  proof (cases acc)
    case None
    then show ?thesis using Some rx acc by (simp add: add_routed_def routed_acc_def)
  next
    case (Some a)
    have a: "routed_ok m a" "rx_like d t a" using acc Some by (auto simp: routed_acc_def)
    have "rx_shape a ! 0 = m" "rx_shape rx ! 0 = sample_len p" "0 < length (rx_shape a)" "0 < length (rx_shape rx)"
      using a(1) rx(1) row_size_shape by (auto simp: routed_ok_def)
    then show ?thesis
      using \<open>mb_routed_experts (snd p) = Some rx\<close> Some rx a append_routed_ok[OF a(1) rx(1) a(2) rx(2)]
      by (simp add: add_routed_def routed_acc_def nth_chk_def rx_like_def)
  qed
qed

lemma policy_chunk_ok:
  assumes "aligned mb"
  shows "\<exists>chunk. policy_chunk mb = Ok chunk \<and> bytes_ok (length (mb_input_ids mb)) chunk"
proof (cases "mb_token_policy_versions mb")
  case None
  then show ?thesis using bytes_ok_unknown by (simp add: policy_chunk_def)
next
  case (Some p)
  have v: "versions_ok (length (mb_input_ids mb)) (Some p)" using aligned_lengths(12)[OF assms] Some by simp
  then have "check_versions (Some p) (length (mb_input_ids mb)) = Ok ()" by (simp only: check_versions_iff)
  then obtain vs where "decode_policy_versions p (length (mb_input_ids mb)) = Ok vs"
    by (auto simp: check_versions_def result_simps)
  then show ?thesis using v Some by (simp add: policy_chunk_def versions_ok_def)
qed

lemma bin_loop_ok:
  assumes "\<forall>p \<in> set ps. sample_fits present d t (length counts) p" "routed_acc present d t m acc" "hv \<longrightarrow> bytes_ok m data"
  shows "\<exists>data' acc' counts'. bin_loop hv ps data acc counts = Ok (data', acc', counts') \<and> length counts' = length counts \<and>
     routed_acc present d t (m + sum_list (map sample_len ps)) acc' \<and> (hv \<longrightarrow> bytes_ok (m + sum_list (map sample_len ps)) data')"
  using assms
proof (induction ps arbitrary: data acc counts m)
  case (Cons p ps)
  have fits: "sample_fits present d t (length counts) p" using Cons.prems(1) by simp
  obtain chunk where ch: "(if hv then policy_chunk (snd p) else Ok []) = Ok chunk" "hv \<longrightarrow> bytes_ok (sample_len p) chunk"
    using policy_chunk_ok[of "snd p"] fits by (cases hv) (auto simp: sample_fits_def sample_len_def)
  obtain acc1 where a: "add_routed acc (snd p) = Ok acc1" "routed_acc present d t (m + sample_len p) acc1"
    using add_routed_ok[OF fits Cons.prems(2)] by blast
  have b: "hv \<longrightarrow> bytes_ok (m + sample_len p) (data @ chunk)" using ch(2) Cons.prems(3) bytes_ok_append by blast
  have rest: "\<forall>q \<in> set ps. sample_fits present d t (length (counts[fst p := counts ! fst p + sample_len p])) q" using Cons.prems(1) by simp
  have c: "nth_chk counts (fst p) = Ok (counts ! fst p)" using fits by (simp add: sample_fits_def nth_chk_def)
  show ?case using Cons.IH[OF rest a(2) b] ch(1) a(1) c by (auto simp: add.assoc)
qed simp

lemma materialize_bin_ok:
  assumes ne: "bn_samples b \<noteq> []" and fits: "\<forall>p \<in> set (bn_samples b). sample_fits present d t loras p"
  shows "\<exists>mb. materialize_bin loras b = Ok mb \<and> aligned mb \<and> tokens mb = concat (map (\<lambda>p. tokens (snd p)) (bn_samples b)) \<and>
     length (mb_input_ids mb) = sum_list (map sample_len (bn_samples b)) \<and>
     is_multimodal_sample mb = is_multimodal_sample (first_sample b) \<and>
     (\<exists>counts. mb_lora_num_tokens mb = Some counts \<and> length counts = loras)"
proof -
  let ?mbs = "map snd (bn_samples b)"
  let ?hv = "bin_has_versions b"
  let ?n = "sum_list (map sample_len (bn_samples b))"
  have al: "\<forall>mb \<in> set ?mbs. aligned mb" using fits by (auto simp: sample_fits_def)
  obtain data routed counts where r: "bin_loop ?hv (bn_samples b) [] None (replicate loras 0) = Ok (data, routed, counts)"
      "length counts = loras" "routed_acc present d t ?n routed" "?hv \<longrightarrow> bytes_ok ?n data"
    using bin_loop_ok[of "bn_samples b" present d t "replicate loras 0" 0 None ?hv "[]"] fits
    by (auto simp: routed_acc_def bytes_ok_def)
  have n: "length (concat (map mb_input_ids ?mbs)) = ?n" by (simp add: length_concat comp_def sample_len_def[abs_def])
  define mb where "mb = assemble_bin b data routed counts"
  have mb: "materialize_bin loras b = Ok mb" using r(1) ne n by (simp add: materialize_bin_def mb_def)
  have f: "mb_input_ids mb = concat (map mb_input_ids ?mbs)" "mb_loss_mask mb = concat (map mb_loss_mask ?mbs)"
      "mb_advantages mb = concat (map mb_advantages ?mbs)" "mb_inference_logprobs mb = concat (map mb_inference_logprobs ?mbs)"
      "mb_temperatures mb = concat (map mb_temperatures ?mbs)" "mb_ref_logprobs mb = merged_stream 0 mb_ref_logprobs ?mbs"
      "mb_rl_weights mb = merged_stream 1 mb_rl_weights ?mbs"
      "mb_ce_weights mb = merged_stream 0 mb_ce_weights ?mbs" "mb_ref_kl_weights mb = merged_stream 0 mb_ref_kl_weights ?mbs"
    by (simp_all add: mb_def assemble_bin_def Let_def)
  have g: "mb_position_ids mb = concat (map mb_position_ids ?mbs)" "mb_env_names mb = concat (map mb_env_names ?mbs)"
      "mb_sequence_lengths mb = map sample_len (bn_samples b)"
      "mb_mm_token_type_ids mb = merged_stream 0 mb_mm_token_type_ids ?mbs" "mb_routed_experts mb = routed"
      "mb_lora_num_tokens mb = Some counts"
      "mb_mm_kwargs mb = (if is_multimodal_sample (first_sample b) then mb_mm_kwargs (first_sample b) else None)"
      "mb_token_policy_versions mb = (if ?hv then Some \<lparr> et_dtype = ''int64'', et_shape = [int (length (concat (map mb_input_ids ?mbs)))], et_data = data \<rparr> else None)"
    by (simp_all add: mb_def assemble_bin_def Let_def)
  have routed: "pred_option (routed_ok ?n) routed" using r(3) by (cases routed) (auto simp: routed_acc_def)
  have vers: "versions_ok ?n (mb_token_policy_versions mb)" using r(4) unfolding g n by (simp add: versions_ok_def)
  have "aligned mb"
    unfolding aligned_def Let_def
  proof (intro conjI)
    show "length (mb_loss_mask mb) = length (mb_input_ids mb)" "length (mb_advantages mb) = length (mb_input_ids mb)"
      "length (mb_inference_logprobs mb) = length (mb_input_ids mb)" "length (mb_position_ids mb) = length (mb_input_ids mb)"
      "length (mb_temperatures mb) = length (mb_input_ids mb)" "length (mb_env_names mb) = length (mb_input_ids mb)"
      unfolding f g by (rule length_concat_eq, use al aligned_lengths(1-6) in blast)+
    show "sum_list (mb_sequence_lengths mb) = length (mb_input_ids mb)" by (simp only: f g n)
    show "versions_ok (length (mb_input_ids mb)) (mb_token_policy_versions mb)" using vers by (simp only: f n)
    show "pred_option (routed_ok (length (mb_input_ids mb))) (mb_routed_experts mb)" using routed by (simp only: f g n)
    show "stream_len (length (mb_input_ids mb)) (mb_ref_logprobs mb)" "stream_len (length (mb_input_ids mb)) (mb_rl_weights mb)"
      "stream_len (length (mb_input_ids mb)) (mb_ce_weights mb)" "stream_len (length (mb_input_ids mb)) (mb_ref_kl_weights mb)"
      "stream_len (length (mb_input_ids mb)) (mb_mm_token_type_ids mb)"
      unfolding f g by (rule merged_stream_len, use al aligned_lengths(7-11) in blast)+
  qed
  moreover have "tokens mb = concat (map (\<lambda>p. tokens (snd p)) (bn_samples b))"
    using tokens_concat[OF al f] by (simp add: comp_def)
  moreover have "is_multimodal_sample mb = is_multimodal_sample (first_sample b)" by (simp add: is_multimodal_sample_def g)
  ultimately show ?thesis using mb f(1) n g(6) r(2) by auto
qed

section \<open>Bins stay well formed\<close>

definition sample_ok :: "nat \<Rightarrow> string \<Rightarrow> nat list \<Rightarrow> nat \<Rightarrow> nat \<times> MicroBatch \<Rightarrow> bool" where
  "sample_ok seq_len d t loras p \<longleftrightarrow> sample_fits (mb_routed_experts (snd p) \<noteq> None) d t loras p \<and>
     0 < sample_len p \<and> sample_len p \<le> seq_len"

definition bin_ok :: "nat \<Rightarrow> string \<Rightarrow> nat list \<Rightarrow> nat \<Rightarrow> MicroBatchBin \<Rightarrow> bool" where
  "bin_ok seq_len d t loras b \<longleftrightarrow>
     bn_samples b \<noteq> [] \<and> bn_length b = sum_list (map sample_len (bn_samples b)) \<and> bn_length b \<le> seq_len \<and>
     (\<exists>present. \<forall>p \<in> set (bn_samples b). sample_fits present d t loras p) \<and>
     (\<forall>p \<in> set (bn_samples b). 0 < sample_len p) \<and>
     (length (bn_samples b) > 1 \<longrightarrow> (\<forall>p \<in> set (bn_samples b). \<not> is_multimodal_sample (snd p)))"

definition all_samples :: "MicroBatchBin list \<Rightarrow> (nat \<times> MicroBatch) list" where
  "all_samples bins = concat (map bn_samples bins)"

lemma bin_from_sample_ok: "sample_ok seq_len d t loras (i, mb) \<Longrightarrow> bin_ok seq_len d t loras (bin_from_sample i mb)"
  by (auto simp: sample_ok_def bin_ok_def bin_from_sample_def sample_len_def)

lemma bin_add_ok:
  assumes b: "bin_ok seq_len d t loras b" and p: "sample_ok seq_len d t loras (i, mb)" and can: "can_add b mb seq_len"
  shows "bin_ok seq_len d t loras (bin_add i mb b)"
proof -
  obtain q qs where q: "bn_samples b = q # qs" using b by (cases "bn_samples b") (auto simp: bin_ok_def)
  obtain present where pr: "\<forall>p \<in> set (bn_samples b). sample_fits present d t loras p" using b by (auto simp: bin_ok_def)
  have fs: "first_sample b = snd q" by (simp add: first_sample_def q)
  have "(mb_routed_experts (snd q) \<noteq> None) = present" using pr q by (auto simp: sample_fits_def)
  then have "(mb_routed_experts mb \<noteq> None) = present" using can unfolding can_add_def fs by argo
  then have new: "sample_fits present d t loras (i, mb)" using p by (simp add: sample_ok_def)
  have plain: "\<forall>p \<in> set (bn_samples b). \<not> is_multimodal_sample (snd p)"
  proof (cases qs)
    case Nil
    then show ?thesis using can fs q by (simp add: can_add_def)
  qed (use b q in \<open>auto simp: bin_ok_def\<close>)
  have "\<exists>present. \<forall>p \<in> set (bn_samples b @ [(i, mb)]). sample_fits present d t loras p" using pr new by auto
  then show ?thesis using b can plain p by (auto simp: bin_ok_def bin_add_def can_add_def sample_ok_def sample_len_def)
qed

lemma place_sample_ok:
  assumes "\<forall>b \<in> set bins. bin_ok seq_len d t loras b" "sample_ok seq_len d t loras (i, mb)"
  shows "(\<forall>b \<in> set (place_sample seq_len i mb bins). bin_ok seq_len d t loras b) \<and>
     mset (all_samples (place_sample seq_len i mb bins)) = mset (all_samples bins) + {#(i, mb)#}"
  using assms
proof (induction bins)
  case Nil
  then show ?case by (simp add: bin_from_sample_ok) (simp add: all_samples_def bin_from_sample_def)
next
  case (Cons b bins)
  then show ?case using bin_add_ok[of seq_len d t loras b i mb] by (auto simp: all_samples_def bin_add_def)
qed

lemma fill_bins_ok:
  assumes "\<forall>p \<in> set samples. sample_ok seq_len d t loras p"
  shows "(\<forall>b \<in> set (fill_bins seq_len samples). bin_ok seq_len d t loras b) \<and> mset (all_samples (fill_bins seq_len samples)) = mset samples"
proof -
  have "(\<forall>b \<in> set (foldl (\<lambda>bins (i, mb). place_sample seq_len i mb bins) bins samples). bin_ok seq_len d t loras b) \<and>
      mset (all_samples (foldl (\<lambda>bins (i, mb). place_sample seq_len i mb bins) bins samples)) = mset (all_samples bins) + mset samples"
    if "\<forall>b \<in> set bins. bin_ok seq_len d t loras b" for bins
    using assms that
  proof (induction samples arbitrary: bins)
    case (Cons p samples)
    obtain i mb where p: "p = (i, mb)" by (cases p)
    have "\<forall>b \<in> set (place_sample seq_len i mb bins). bin_ok seq_len d t loras b"
        "mset (all_samples (place_sample seq_len i mb bins)) = mset (all_samples bins) + {#p#}"
      using place_sample_ok[OF Cons.prems(2), of i mb] Cons.prems(1) p by auto
    then show ?case using Cons.IH[of "place_sample seq_len i mb bins"] Cons.prems(1) p by simp
  qed simp
  from this[of "[]"] show ?thesis by (simp add: fill_bins_def all_samples_def)
qed

lemma lpt_loop_mset:
  "lpt_loop cost ps l lw r rw = (l', r') \<Longrightarrow> mset l' + mset r' = mset l + mset r + mset ps \<and> prefix l l' \<and> prefix r r'"
proof (induction cost ps l lw r rw rule: lpt_loop.induct)
  case (2 cost p ps l lw r rw)
  then show ?case by (auto simp: Let_def split: if_splits dest: append_prefixD)
qed auto

lemma split_ok:
  assumes b: "bin_ok seq_len d t loras b" and len: "length (bn_samples b) > 1"
    and cost: "\<forall>n. 0 < n \<longrightarrow> 0 < bin_cost [n]" and s: "split_by_workload bin_cost b = (left, right)"
  shows "bin_ok seq_len d t loras left \<and> bin_ok seq_len d t loras right \<and>
     mset (bn_samples left) + mset (bn_samples right) = mset (bn_samples b)"
proof -
  let ?ranked = "sort_key (\<lambda>p. - bin_cost [sample_len p]) (bn_samples b)"
  have lenr: "length ?ranked = length (bn_samples b)" by simp
  obtain p1 rest where r1: "?ranked = p1 # rest" using len lenr by (cases ?ranked) auto
  obtain p2 ps where r2: "?ranked = p1 # p2 # ps" using len lenr r1 by (cases rest) auto
  obtain l r where lr: "lpt_loop bin_cost ?ranked [] 0 [] 0 = (l, r)" by (cases "lpt_loop bin_cost ?ranked [] 0 [] 0")
  have lr': "left = bin_of l" "right = bin_of r" using s lr by (auto simp: split_by_workload_def)
  have m: "mset l + mset r = mset (bn_samples b)" using lpt_loop_mset[OF lr] by simp
  have mem: "set l \<union> set r = set (bn_samples b)" using m by (metis set_mset_mset set_mset_union)
  have "set ?ranked = set (bn_samples b)" by simp
  then have "p1 \<in> set (bn_samples b)" using r2 by (metis list.set_intros(1))
  then have "0 < bin_cost [sample_len p1]" using b cost by (auto simp: bin_ok_def)
  then have "lpt_loop bin_cost ps [p1] (bin_cost [sample_len p1]) [p2] (bin_cost [sample_len p2]) = (l, r)"
    using lr unfolding r2 by (simp add: Let_def)
  then have ne: "l \<noteq> []" "r \<noteq> []" using lpt_loop_mset by fastforce+
  have "sum_list (map sample_len l) + sum_list (map sample_len r) = sum_list (map sample_len (bn_samples b))"
    using m by (metis map_append mset_append mset_map sum_list_append sum_mset_sum_list)
  moreover have "\<exists>present. \<forall>p \<in> set l \<union> set r. sample_fits present d t loras p" using b mem by (simp add: bin_ok_def)
  moreover have "\<forall>p \<in> set l \<union> set r. 0 < sample_len p \<and> \<not> is_multimodal_sample (snd p)" using b len mem by (simp add: bin_ok_def)
  ultimately show ?thesis using b ne m by (auto simp: bin_ok_def lr' bin_of_def)
qed

lemma expand_pick:
  assumes "expand_candidates bin_cost bins \<noteq> []"
  shows "snd (Max (set (expand_candidates bin_cost bins))) < length bins"
    "length (bn_samples (bins ! snd (Max (set (expand_candidates bin_cost bins))))) > 1"
proof -
  have "Max (set (expand_candidates bin_cost bins)) \<in> set (expand_candidates bin_cost bins)" by (rule Max_in) (use assms in auto)
  then show "snd (Max (set (expand_candidates bin_cost bins))) < length bins"
    "length (bn_samples (bins ! snd (Max (set (expand_candidates bin_cost bins))))) > 1"
    by (auto simp: expand_candidates_def)
qed

lemma all_samples_update:
  "i < length bins \<Longrightarrow> mset (all_samples (bins[i := l])) + mset (bn_samples (bins ! i)) = mset (all_samples bins) + mset (bn_samples l)"
  unfolding all_samples_def by (induction bins arbitrary: i) (auto split: nat.splits)

lemma expand_ok:
  assumes "\<forall>n. 0 < n \<longrightarrow> 0 < bin_cost [n]" "\<forall>b \<in> set bins. bin_ok seq_len d t loras b"
  shows "(\<forall>b \<in> set (expand_bins_by_splitting target bin_cost bins). bin_ok seq_len d t loras b) \<and>
     mset (all_samples (expand_bins_by_splitting target bin_cost bins)) = mset (all_samples bins)"
  using assms(2)
proof (induction "target - length bins" arbitrary: bins rule: less_induct)
  case less
  show ?case
  proof (cases "length bins < target \<and> expand_candidates bin_cost bins \<noteq> []")
    case False
    then show ?thesis using less.prems by (subst (1 2) expand_bins_by_splitting.simps) auto
  next
    case True
    define i where "i = snd (Max (set (expand_candidates bin_cost bins)))"
    have i: "i < length bins" "length (bn_samples (bins ! i)) > 1" using expand_pick True by (auto simp: i_def)
    obtain l r where s: "split_by_workload bin_cost (bins ! i) = (l, r)" by (cases "split_by_workload bin_cost (bins ! i)")
    have bi: "bin_ok seq_len d t loras (bins ! i)" using less.prems i by auto
    note sp = split_ok[OF bi i(2) assms(1) s]
    let ?bins = "bins[i := l] @ [r]"
    have ok: "\<forall>b \<in> set ?bins. bin_ok seq_len d t loras b"
      using less.prems sp by (auto dest: subsetD[OF set_update_subset_insert])
    have "mset (all_samples ?bins) + mset (bn_samples (bins ! i)) = mset (all_samples bins) + (mset (bn_samples l) + mset (bn_samples r))"
      using all_samples_update[OF i(1), of l] by (simp add: all_samples_def)
    then have m: "mset (all_samples ?bins) = mset (all_samples bins)" using sp by simp
    have step: "expand_bins_by_splitting target bin_cost bins = expand_bins_by_splitting target bin_cost ?bins"
      using True s by (subst expand_bins_by_splitting.simps) (simp add: Let_def i_def)
    have "target - length ?bins < target - length bins" using conjunct1[OF True] by simp
    from less.hyps[OF this ok] show ?thesis unfolding step m .
  qed
qed

lemma packed_bins_ok:
  assumes "\<forall>n. 0 < n \<longrightarrow> 0 < bin_cost [n]" "\<forall>p \<in> set samples. sample_ok seq_len d t loras p"
  shows "(\<forall>b \<in> set (packed_bins bin_cost seq_len workers samples). bin_ok seq_len d t loras b) \<and>
     mset (all_samples (packed_bins bin_cost seq_len workers samples)) = mset samples"
proof -
  have "mset (packing_order samples) = mset samples" by (simp add: packing_order_def)
  moreover have "\<forall>p \<in> set (packing_order samples). sample_ok seq_len d t loras p" using assms(2) by (simp add: packing_order_def)
  ultimately show ?thesis
    using fill_bins_ok[of "packing_order samples" seq_len d t loras] expand_ok[of bin_cost "fill_bins seq_len (packing_order samples)" seq_len d t loras, OF assms(1)]
    by (simp add: packed_bins_def Let_def)
qed

section \<open>Padding\<close>

lemma filled_pad:
  assumes "mb_input_ids mb' = mb_input_ids mb @ pad" "get mb' = pad_stream x (length pad) (get mb)"
  shows "filled fill get mb' = filled fill get mb @ replicate (length pad) (if get mb = None then fill else x)"
  using assms by (cases "get mb") (auto simp: filled_def pad_stream_def replicate_add)

lemma stream_len_pad: "stream_len m s \<Longrightarrow> stream_len (m + n) (pad_stream x n s)"
  by (cases s) (auto simp: pad_stream_def)

lemma pad_routed_ok:
  assumes "routed_ok m rx"
  shows "\<exists>rx'. pad_routed_experts rx n = Ok rx' \<and> routed_ok (m + n) rx'"
proof -
  obtain row where row: "routed_experts_row_size rx = Ok row" "rx_shape rx ! 0 = m" "length (rx_data rx) = m * row"
    using assms by (auto simp: routed_ok_def)
  obtain x t where sh: "rx_shape rx = x # t" using row_size_shape[OF row(1)] by (cases "rx_shape rx") auto
  let ?r = "rx\<lparr> rx_data := rx_data rx @ replicate (n * row) 0, rx_shape := (rx_shape rx)[0 := rx_shape rx ! 0 + n] \<rparr>"
  have "routed_experts_row_size ?r = Ok row"
    by (rule row_size_like[OF row(1), of "rx_dtype rx" t]) (simp_all add: rx_like_def sh)
  then have "routed_ok (m + n) ?r" using row sh by (simp add: routed_ok_def algebra_simps)
  then show ?thesis using row by (simp add: pad_routed_experts_def)
qed

lemma pad_versions_ok: "versions_ok m v \<Longrightarrow> versions_ok (m + n) (pad_versions m n v)"
  using bytes_ok_append bytes_ok_unknown by (cases v) (auto simp: versions_ok_def pad_versions_def)

lemma padded_aligned:
  assumes al: "aligned mb" and routed: "pred_option (routed_ok (length (mb_input_ids mb) + n)) routed"
  shows "aligned (padded_batch n lora routed mb)"
proof -
  have "sum_list (mb_sequence_lengths mb) = length (mb_input_ids mb)" and
    st: "stream_len (length (mb_input_ids mb)) (mb_ref_logprobs mb)" "stream_len (length (mb_input_ids mb)) (mb_rl_weights mb)"
      "stream_len (length (mb_input_ids mb)) (mb_ce_weights mb)" "stream_len (length (mb_input_ids mb)) (mb_ref_kl_weights mb)"
      "stream_len (length (mb_input_ids mb)) (mb_mm_token_type_ids mb)"
    using al by (simp_all add: aligned_def Let_def)
  then show ?thesis
    using aligned_lengths[OF al] routed st[THEN stream_len_pad] pad_versions_ok
    by (simp add: aligned_def Let_def padded_batch_def)
qed

lemma padded_trained:
  assumes al: "aligned mb"
  shows "trained (padded_batch n lora routed mb) = trained mb"
proof -
  let ?p = "padded_batch n lora routed mb" and ?pad = "replicate n (1::int)"
  have ids: "mb_input_ids ?p = mb_input_ids mb @ ?pad" by (simp add: padded_batch_def)
  have fl: "filled 1 mb_rl_weights ?p = filled 1 mb_rl_weights mb @ replicate n (if mb_rl_weights mb = None then 1 else 0)"
    "filled 0 mb_ce_weights ?p = filled 0 mb_ce_weights mb @ replicate n 0"
    "filled 0 mb_ref_kl_weights ?p = filled 0 mb_ref_kl_weights mb @ replicate n 0"
    "filled 0 mb_ref_logprobs ?p = filled 0 mb_ref_logprobs mb @ replicate n 0"
    using filled_pad[OF ids, of mb_rl_weights 0 1] filled_pad[OF ids, of mb_ce_weights 0 0] filled_pad[OF ids, of mb_ref_kl_weights 0 0]
      filled_pad[OF ids, of mb_ref_logprobs 0 0]
    by (simp_all add: padded_batch_def split: if_splits)
  have "\<exists>a b c d e f. tokens ?p = tokens mb @ replicate n (a, False, b, c, d, f, e, 0, 0)"
    unfolding tokens_def fl using aligned_lengths[OF al] by (simp add: padded_batch_def zip_replicate1 map_replicate_const)
  then show ?thesis by (auto simp: trained_def)
qed

lemma pad_mod:
  assumes "0 < (m::nat)"
  shows "(l + (m - l mod m) mod m) mod m = 0"
proof (cases "l mod m = 0")
  case False
  define q r where "q = l div m" and "r = l mod m"
  have l: "l = m * q + r" and r: "r < m" using assms by (simp_all add: q_def r_def)
  have "m * q + r + (m - r) = m * (q + 1)" using r by simp
  moreover have "(m - r) mod m = m - r" using False r by (simp add: r_def)
  ultimately show ?thesis using l by (metis mod_mult_self1_is_0 r_def)
qed (use assms in simp)

lemma pad_micro_batch_ok:
  assumes al: "aligned mb" and lora: "mb_lora_num_tokens mb = Some counts" "counts \<noteq> []" and m: "0 < multiple"
  shows "\<exists>mb'. pad_micro_batch multiple mb = Ok mb' \<and> aligned mb' \<and> trained mb' = trained mb \<and>
     length (mb_input_ids mb') mod multiple = 0 \<and> length (mb_input_ids mb) \<le> length (mb_input_ids mb') \<and>
     length (mb_input_ids mb') < length (mb_input_ids mb) + multiple \<and> is_multimodal_sample mb' = is_multimodal_sample mb"
proof -
  let ?len = "length (mb_input_ids mb)"
  let ?n = "(multiple - ?len mod multiple) mod multiple"
  have v: "check_versions (mb_token_policy_versions mb) ?len = Ok ()"
    using aligned_lengths(12)[OF al] by (simp only: check_versions_iff)
  have env: "length (mb_env_names mb) = ?len" by (rule aligned_lengths(6)[OF al])
  have md: "(?len + ?n) mod multiple = 0"
    by (rule pad_mod[OF m])
  show ?thesis
  proof (cases "multiple > 1 \<and> ?n > 0")
    case False
    then have "pad_micro_batch multiple mb = Ok mb" using m env v by (simp add: pad_micro_batch_def Let_def)
    moreover have "?len mod multiple = 0"
    proof (cases "?n = 0")
      case True
      then show ?thesis using md by (simp only: add_0_right)
    next
      case nz: False
      then have "multiple = 1" using False m by simp
      then show ?thesis by simp
    qed
    ultimately show ?thesis using al m by auto
  next
    case True
    obtain lora' where lo: "pad_lora ?n (mb_lora_num_tokens mb) = Ok lora'" using lora by (simp add: pad_lora_def)
    obtain routed where r: "(case mb_routed_experts mb of None \<Rightarrow> Ok None | Some rx \<Rightarrow> bindE (pad_routed_experts rx ?n) (\<lambda>r. Ok (Some r))) = Ok routed"
        "pred_option (routed_ok (?len + ?n)) routed"
    proof (cases "mb_routed_experts mb")
      case (Some rx)
      have "routed_ok ?len rx" using aligned_lengths(13)[OF al] Some by simp
      then obtain rx' where "pad_routed_experts rx ?n = Ok rx'" "routed_ok (?len + ?n) rx'" using pad_routed_ok by blast
      then show ?thesis using that[of "Some rx'"] Some by simp
    qed (use that[of None] in simp)
    have "pad_micro_batch multiple mb = Ok (padded_batch ?n lora' routed mb)"
      using True m env v lo r(1) by (simp add: pad_micro_batch_def Let_def)
    moreover have "length (mb_input_ids (padded_batch ?n lora' routed mb)) = ?len + ?n" by (simp add: padded_batch_def)
    moreover have "?n < multiple" using m by simp
    moreover have "is_multimodal_sample (padded_batch ?n lora' routed mb) = is_multimodal_sample mb"
      by (simp add: is_multimodal_sample_def padded_batch_def)
    ultimately show ?thesis
      using padded_aligned[OF al r(2)] padded_trained[OF al, of ?n lora' routed] md by auto
  qed
qed

section \<open>Distribution\<close>

lemma pad_group_length: "0 < workers \<Longrightarrow> length (pad_group_for_distribution workers bs) mod workers = 0"
proof -
  assume w: "0 < workers"
  have "int (length bs + nat ((- int (length bs)) mod int workers)) mod int workers = 0"
    using w by (simp add: mod_add_right_eq)
  then have "(length bs + nat ((- int (length bs)) mod int workers)) mod workers = 0" by (metis of_nat_eq_0_iff zmod_int)
  then show ?thesis by (auto simp: pad_group_for_distribution_def Let_def)
qed

lemma dummy_aligned: "aligned mb \<Longrightarrow> aligned (make_dummy_batch mb)"
  by (simp add: aligned_def make_dummy_batch_def Let_def versions_ok_def)

lemma dummy_trained: "trained (make_dummy_batch mb) = []"
proof -
  have "\<not> m \<and> ce = 0 \<and> rk = 0" if "(i, m, adv, lp, temp, ref, rl, ce, rk) \<in> set (tokens (make_dummy_batch mb))" for i m adv lp temp ref rl ce rk
  proof -
    note z1 = set_zip_rightD[OF that[unfolded tokens_def]]
    note z6 = set_zip_rightD[OF set_zip_rightD[OF set_zip_rightD[OF set_zip_rightD[OF set_zip_rightD[OF set_zip_rightD[OF z1]]]]]]
    show ?thesis using set_zip_leftD[OF z1] set_zip_leftD[OF z6] set_zip_rightD[OF z6]
      by (auto simp: make_dummy_batch_def filled_def)
  qed
  then show ?thesis unfolding trained_def filter_empty_conv by (auto split: prod.splits) blast+
qed

lemma pad_group_ok:
  assumes "\<forall>b \<in> set bs. aligned b \<and> is_multimodal_sample b = mm \<and> length (mb_input_ids b) mod k = 0 \<and> length (mb_input_ids b) \<le> n"
  shows "(\<forall>b \<in> set (pad_group_for_distribution workers bs). aligned b \<and> is_multimodal_sample b = mm \<and>
        length (mb_input_ids b) mod k = 0 \<and> length (mb_input_ids b) \<le> n) \<and>
     concat (map trained (pad_group_for_distribution workers bs)) = concat (map trained bs)"
proof (cases bs)
  case (Cons b bs')
  have "aligned (make_dummy_batch b)" using assms dummy_aligned Cons by auto
  moreover have "is_multimodal_sample (make_dummy_batch b) = mm" "mb_input_ids (make_dummy_batch b) = mb_input_ids b"
    using assms Cons by (auto simp: is_multimodal_sample_def make_dummy_batch_def)
  moreover have "concat (map trained (replicate m (make_dummy_batch b))) = []" for m by (induction m) (auto simp: dummy_trained)
  ultimately show ?thesis using assms Cons by (auto simp: pad_group_for_distribution_def Let_def)
qed (simp add: pad_group_for_distribution_def Let_def)

lemma distribute_group_ok:
  assumes w: "0 < workers" and len: "length bs mod workers = 0"
  shows "\<exists>shares. distribute_group bin_cost workers bs = Some (Ok shares) \<and> length shares = workers \<and>
     (\<forall>share \<in> set shares. length share = length bs div workers) \<and> mset (concat shares) = mset bs"
proof (cases "bs = []")
  case True
  then show ?thesis using w by (simp add: distribute_group_def concat_replicate_trivial)
next
  case False
  from bal.balanced_shares[OF w len False, of "\<lambda>mb. bin_cost (mb_sequence_lengths mb)"]
  obtain parts where "balanced_partition (map (\<lambda>mb. bin_cost (mb_sequence_lengths mb)) bs) workers = Some (Ok parts)"
      "length (map (map (\<lambda>i. bs ! i)) parts) = workers"
      "list_all (\<lambda>share. length share = length bs div workers) (map (map (\<lambda>i. bs ! i)) parts)"
      "mset (concat (map (map (\<lambda>i. bs ! i)) parts)) = mset bs"
    by blast
  then show ?thesis using w len False by (simp add: distribute_group_def list_all_iff)
qed

text \<open>The whole pipeline after the samples are prepared.\<close>

definition rank_ok :: "nat \<Rightarrow> nat \<Rightarrow> MicroBatch list \<Rightarrow> bool" where
  "rank_ok m n rank \<longleftrightarrow> length rank = m + n \<and> list_all is_multimodal_sample (take m rank) \<and>
     list_all (\<lambda>b. \<not> is_multimodal_sample b) (drop m rank)"

definition batch_ok :: "nat \<Rightarrow> nat \<Rightarrow> MicroBatch \<Rightarrow> bool" where
  "batch_ok seq_len multiple mb \<longleftrightarrow> aligned mb \<and> length (mb_input_ids mb) mod multiple = 0 \<and> length (mb_input_ids mb) < seq_len + multiple"

lemma packed_ok:
  assumes cost: "\<forall>n. 0 < n \<longrightarrow> 0 < bin_cost [n]" and samples: "\<forall>p \<in> set samples. sample_ok seq_len d t loras p"
    and pos: "0 < loras" "0 < multiple"
  shows "\<exists>packed padded. packed_samples_into_micro_bs bin_cost seq_len loras workers samples = Ok packed \<and>
     traverse (pad_micro_batch multiple) packed = Ok padded \<and> (\<forall>mb \<in> set padded. batch_ok seq_len multiple mb) \<and>
     mset (concat (map trained padded)) = mset (concat (map (\<lambda>p. trained (snd p)) samples))"
proof -
  let ?bins = "packed_bins bin_cost seq_len workers samples"
  have bins: "\<forall>b \<in> set ?bins. bin_ok seq_len d t loras b" and m: "mset (all_samples ?bins) = mset samples"
    using packed_bins_ok[of bin_cost samples seq_len d t loras workers, OF cost samples] by auto
  have each: "\<exists>mb mb'. materialize_bin loras b = Ok mb \<and> pad_micro_batch multiple mb = Ok mb' \<and> batch_ok seq_len multiple mb' \<and>
      trained mb' = concat (map (\<lambda>p. trained (snd p)) (bn_samples b))" if b: "bin_ok seq_len d t loras b" for b
  proof -
    obtain present where fits: "\<forall>p \<in> set (bn_samples b). sample_fits present d t loras p" and ne: "bn_samples b \<noteq> []"
      and len: "sum_list (map sample_len (bn_samples b)) \<le> seq_len" using b by (auto simp: bin_ok_def)
    obtain mb counts where mb: "materialize_bin loras b = Ok mb" "aligned mb"
        "tokens mb = concat (map (\<lambda>p. tokens (snd p)) (bn_samples b))"
        "length (mb_input_ids mb) = sum_list (map sample_len (bn_samples b))" "mb_lora_num_tokens mb = Some counts" "length counts = loras"
      using materialize_bin_ok[OF ne fits] by (elim exE conjE)
    have counts: "counts \<noteq> []" using mb(6) pos(1) by auto
    obtain mb' where p: "pad_micro_batch multiple mb = Ok mb'" "aligned mb'" "trained mb' = trained mb"
        "length (mb_input_ids mb') mod multiple = 0" "length (mb_input_ids mb') < length (mb_input_ids mb) + multiple"
      using pad_micro_batch_ok[OF mb(2,5) counts pos(2)] by (elim exE conjE) (rule that)
    have "trained mb = concat (map (\<lambda>p. trained (snd p)) (bn_samples b))"
      unfolding trained_def mb(3) filter_concat by (simp add: comp_def)
    then show ?thesis using mb p len by (auto simp: batch_ok_def)
  qed
  have "\<exists>packed padded. traverse (materialize_bin loras) bs = Ok packed \<and> traverse (pad_micro_batch multiple) packed = Ok padded \<and>
      (\<forall>mb \<in> set padded. batch_ok seq_len multiple mb) \<and>
      concat (map trained padded) = concat (map (\<lambda>p. trained (snd p)) (all_samples bs))"
    if "\<forall>b \<in> set bs. bin_ok seq_len d t loras b" for bs
    using that
  proof (induction bs)
    case (Cons b bs)
    obtain packed padded where ih: "traverse (materialize_bin loras) bs = Ok packed" "traverse (pad_micro_batch multiple) packed = Ok padded"
        "\<forall>mb \<in> set padded. batch_ok seq_len multiple mb"
        "concat (map trained padded) = concat (map (\<lambda>p. trained (snd p)) (all_samples bs))"
      using Cons by auto
    obtain mb mb' where "materialize_bin loras b = Ok mb" "pad_micro_batch multiple mb = Ok mb'" "batch_ok seq_len multiple mb'"
        "trained mb' = concat (map (\<lambda>p. trained (snd p)) (bn_samples b))"
      using each[of b] Cons.prems by auto
    then show ?case using ih by (intro exI[of _ "mb # packed"] exI[of _ "mb' # padded"]) (simp add: all_samples_def)
  qed (simp add: all_samples_def)
  from this[OF bins] show ?thesis
    using mset_concat_map[OF m, of "\<lambda>p. trained (snd p)"] unfolding packed_samples_into_micro_bs_def by metis
qed

lemma concat_map2_append: "length xs = length ys \<Longrightarrow> mset (concat (map2 (@) xs ys)) = mset (concat xs) + mset (concat ys)"
  by (induction xs ys rule: list_induct2) auto

lemma mset_trained: "mset xs = mset ys \<Longrightarrow> mset (concat (map trained xs)) = mset (concat (map trained ys))"
  by (rule mset_concat_map)

lemma traverse_ignore: "(\<And>x. x \<in> set xs \<Longrightarrow> f x = Ok (g x)) \<Longrightarrow> \<exists>ys. traverse f xs = Ok ys"
  using traverse_total[of xs f g] by blast

lemma distribute_pair_ok:
  assumes w: "0 < workers" and padded: "\<forall>mb \<in> set padded. batch_ok seq_len multiple mb" and m0: "0 < multiple"
    and mm: "mm = pad_group_for_distribution workers (filter is_multimodal_sample padded)"
    and pl: "pl = pad_group_for_distribution workers (filter (\<lambda>b. \<not> is_multimodal_sample b) padded)"
  shows "(\<forall>b \<in> set (mm @ pl). batch_ok seq_len multiple b) \<and>
    (\<exists>a b. distribute_group bin_cost workers mm = Some (Ok a) \<and> distribute_group bin_cost workers pl = Some (Ok b) \<and>
      length (map2 (@) a b) = workers \<and>
      list_all (rank_ok (length mm div workers) (length pl div workers)) (map2 (@) a b) \<and>
      list_all (list_all (batch_ok seq_len multiple)) (map2 (@) a b) \<and>
      mset (concat (map trained (concat (map2 (@) a b)))) = mset (concat (map trained padded)))"
proof -
  let ?n = "seq_len + multiple - 1"
  have bo: "batch_ok seq_len multiple b \<longleftrightarrow> aligned b \<and> length (mb_input_ids b) mod multiple = 0 \<and> length (mb_input_ids b) \<le> ?n" for b
    using m0 by (auto simp: batch_ok_def)
  have g1: "(\<forall>b \<in> set mm. aligned b \<and> is_multimodal_sample b = True \<and> length (mb_input_ids b) mod multiple = 0 \<and> length (mb_input_ids b) \<le> ?n) \<and>
      concat (map trained mm) = concat (map trained (filter is_multimodal_sample padded))"
    unfolding mm by (rule pad_group_ok) (use padded bo in auto)
  have g2: "(\<forall>b \<in> set pl. aligned b \<and> is_multimodal_sample b = False \<and> length (mb_input_ids b) mod multiple = 0 \<and> length (mb_input_ids b) \<le> ?n) \<and>
      concat (map trained pl) = concat (map trained (filter (\<lambda>b. \<not> is_multimodal_sample b) padded))"
    unfolding pl by (rule pad_group_ok) (use padded bo in auto)
  have lm: "length mm mod workers = 0" unfolding mm by (rule pad_group_length[OF w])
  have lp: "length pl mod workers = 0" unfolding pl by (rule pad_group_length[OF w])
  obtain a where a: "distribute_group bin_cost workers mm = Some (Ok a)" "length a = workers"
      "\<forall>share \<in> set a. length share = length mm div workers" "mset (concat a) = mset mm"
    using distribute_group_ok[OF w lm, of bin_cost] by (elim exE conjE) (rule that)
  obtain b where b: "distribute_group bin_cost workers pl = Some (Ok b)" "length b = workers"
      "\<forall>share \<in> set b. length share = length pl div workers" "mset (concat b) = mset pl"
    using distribute_group_ok[OF w lp, of bin_cost] by (elim exE conjE) (rule that)
  have sa: "\<And>x. x \<in> set a \<Longrightarrow> set x \<subseteq> set mm" using mset_eq_setD[OF a(4)] by auto
  have sb: "\<And>x. x \<in> set b \<Longrightarrow> set x \<subseteq> set pl" using mset_eq_setD[OF b(4)] by auto
  have ranks: "rank_ok (length mm div workers) (length pl div workers) r \<and> list_all (batch_ok seq_len multiple) r"
    if rm: "r \<in> set (map2 (@) a b)" for r
  proof -
    obtain x y where xy: "x \<in> set a" "y \<in> set b" "r = x @ y" using rm by (auto dest: set_zip_leftD set_zip_rightD)
    have "length x = length mm div workers" "length y = length pl div workers" using xy a(3) b(3) by auto
    moreover have "\<forall>z \<in> set x. is_multimodal_sample z \<and> batch_ok seq_len multiple z" using sa[OF xy(1)] g1 bo by blast
    moreover have "\<forall>z \<in> set y. \<not> is_multimodal_sample z \<and> batch_ok seq_len multiple z" using sb[OF xy(2)] g2 bo by blast
    ultimately show ?thesis by (auto simp: xy(3) rank_ok_def list_all_iff)
  qed
  have "mset (concat (map2 (@) a b)) = mset (mm @ pl)" using concat_map2_append[of a b] a(2,4) b(2,4) by simp
  then have "mset (concat (map trained (concat (map2 (@) a b)))) = mset (concat (map trained (mm @ pl)))" by (rule mset_trained)
  also have "\<dots> = mset (concat (map trained padded))"
  proof -
    have "mset (filter is_multimodal_sample padded @ filter (\<lambda>b. \<not> is_multimodal_sample b) padded) = mset padded"
      by (induction padded) auto
    from mset_trained[OF this] show ?thesis using g1 g2 by simp
  qed
  finally have tr: "mset (concat (map trained (concat (map2 (@) a b)))) = mset (concat (map trained padded))" .
  have r1: "list_all (rank_ok (length mm div workers) (length pl div workers)) (map2 (@) a b)"
    and r2: "list_all (list_all (batch_ok seq_len multiple)) (map2 (@) a b)"
    unfolding list_all_iff[where xs = "map2 (@) a b"] using ranks by blast+
  have all: "\<forall>b \<in> set (mm @ pl). batch_ok seq_len multiple b" unfolding bo using g1 g2 by auto
  have "length (map2 (@) a b) = workers" using a(2) b(2) by simp
  then show ?thesis using all a(1) b(1) r1 r2 tr by blast
qed

lemma prepare_batch_total:
  assumes prep: "traverse (\<lambda>(i, ex). bindE (prepare_sample grid_rows itemsize ex seq_len) (\<lambda>mb. Ok (i, mb))) (zip idxs rollouts) = Ok samples"
    and samples: "\<forall>p \<in> set samples. fst p < loras \<and> mb_input_ids (snd p) \<noteq> [] \<and> pred_option (rx_like d t) (mb_routed_experts (snd p))"
    and cost: "\<forall>n. 0 < n \<longrightarrow> 0 < bin_cost [n]" and pos: "0 < workers" "0 < loras" "0 < multiple"
  shows "\<exists>grid m n. prepare_batch grid_rows itemsize bin_cost rollouts seq_len workers idxs loras multiple = Some (Ok grid) \<and>
     length grid = workers \<and> list_all (rank_ok m n) grid \<and> list_all (list_all (batch_ok seq_len multiple)) grid \<and>
     mset (concat (map trained (concat grid))) = mset (concat (map (\<lambda>p. trained (snd p)) samples))"
proof -
  have ok: "\<forall>p \<in> set samples. sample_ok seq_len d t loras p"
  proof
    fix p assume p: "p \<in> set samples"
    from traverse_origin[OF prep p] obtain x where
      "(case x of (i, ex) \<Rightarrow> bindE (prepare_sample grid_rows itemsize ex seq_len) (\<lambda>mb. Ok (i, mb))) = Ok p" by blast
    then obtain i ex where "bindE (prepare_sample grid_rows itemsize ex seq_len) (\<lambda>mb. Ok (i, mb)) = Ok p" by (cases x) auto
    then have "prepared seq_len (snd p)" using prepare_sample_prepared by (auto simp: result_simps)
    then show "sample_ok seq_len d t loras p" using samples p by (auto simp: sample_ok_def sample_fits_def prepared_def sample_len_def)
  qed
  obtain packed padded where pk: "packed_samples_into_micro_bs bin_cost seq_len loras workers samples = Ok packed"
      "traverse (pad_micro_batch multiple) packed = Ok padded" "\<forall>mb \<in> set padded. batch_ok seq_len multiple mb"
      "mset (concat (map trained padded)) = mset (concat (map (\<lambda>p. trained (snd p)) samples))"
    using packed_ok[of bin_cost samples seq_len d t loras multiple workers, OF cost ok pos(2,3)] by (elim exE conjE) (rule that)
  define mm where "mm = pad_group_for_distribution workers (filter is_multimodal_sample padded)"
  define pl where "pl = pad_group_for_distribution workers (filter (\<lambda>b. \<not> is_multimodal_sample b) padded)"
  note dist = distribute_pair_ok[OF pos(1) pk(3) pos(3) mm_def pl_def, of bin_cost]
  obtain units where "traverse assert_token_arrays_aligned (mm @ pl) = Ok units"
    using traverse_ignore[of "mm @ pl" assert_token_arrays_aligned "\<lambda>_. ()"] dist aligned_passes by (auto simp: batch_ok_def)
  then have stage: "bindE (traverse (\<lambda>(idx, ex). bindE (prepare_sample grid_rows itemsize ex seq_len) (\<lambda>mb. Ok (idx, mb))) (zip idxs rollouts)) (\<lambda>samples.
           bindE (packed_samples_into_micro_bs bin_cost seq_len loras workers samples) (\<lambda>packed.
           bindE (traverse (pad_micro_batch multiple) packed) (\<lambda>micro_batches.
           raise_if (workers = 0) ZeroDivisionError
           (let mm = pad_group_for_distribution workers (filter is_multimodal_sample micro_batches);
                txt = pad_group_for_distribution workers (filter (\<lambda>b. \<not> is_multimodal_sample b) micro_batches)
            in bindE (traverse assert_token_arrays_aligned (mm @ txt)) (\<lambda>_. Ok (mm, txt)))))) = Ok (mm, pl)"
    using prep pk(1,2) pos(1) by (simp add: mm_def pl_def Let_def)
  obtain a b where ab: "distribute_group bin_cost workers mm = Some (Ok a)" "distribute_group bin_cost workers pl = Some (Ok b)"
    "length (map2 (@) a b) = workers" "list_all (rank_ok (length mm div workers) (length pl div workers)) (map2 (@) a b)"
    "list_all (list_all (batch_ok seq_len multiple)) (map2 (@) a b)"
    "mset (concat (map trained (concat (map2 (@) a b)))) = mset (concat (map trained padded))"
    using conjunct2[OF dist] by (elim exE conjE) (rule that)
  have "prepare_batch grid_rows itemsize bin_cost rollouts seq_len workers idxs loras multiple = Some (Ok (map2 (@) a b))"
    unfolding prepare_batch_def stage using ab(1,2) by simp
  then show ?thesis using ab(3-6) pk(4) by (intro exI conjI) (assumption | simp)+
qed

text \<open>
  Preparing a batch keeps the ranks in step. For non-empty prepared samples with one layout of
  routed experts and a cost model that charges every sequence, \<open>prepare_batch\<close> returns (none of its assertions, nor
  an alignment error, fires) one list of microbatches per worker; all lists have the same length and
  hold the multimodal microbatches at the same leading positions, so at every step all ranks see the
  same modality; every microbatch has all its per-token streams aligned, a length that is a multiple of the padding
  and at most \<open>seq_len\<close> tokens before padding.
\<close>

lemma prepare_batch_uniform:
  assumes prep: "traverse (\<lambda>(i, ex). bindE (prepare_sample grid_rows itemsize ex seq_len) (\<lambda>mb. Ok (i, mb))) (zip idxs rollouts) = Ok samples"
    and samples: "\<forall>p \<in> set samples. fst p < loras \<and> mb_input_ids (snd p) \<noteq> [] \<and> pred_option (rx_like d t) (mb_routed_experts (snd p))"
    and cost: "\<forall>n. 0 < n \<longrightarrow> 0 < bin_cost [n]" and pos: "0 < workers" "0 < loras" "0 < multiple"
  shows "\<exists>grid m n. prepare_batch grid_rows itemsize bin_cost rollouts seq_len workers idxs loras multiple = Some (Ok grid) \<and>
     length grid = workers \<and> list_all (rank_ok m n) grid \<and> list_all (list_all (batch_ok seq_len multiple)) grid"
  using prepare_batch_total[OF prep samples cost pos] by blast

text \<open>
  C31: Packing, splitting, padding and dummy batches neither lose nor duplicate a trained token: over
  all ranks, the multiset of tokens that some loss component trains, each with its mask, advantage, inference
  and reference log-probability (0 where a sample has none), temperature and the three component weights, is that of the prepared samples.
\<close>

theorem prepare_batch_trains_exactly:
  assumes prep: "traverse (\<lambda>(i, ex). bindE (prepare_sample grid_rows itemsize ex seq_len) (\<lambda>mb. Ok (i, mb))) (zip idxs rollouts) = Ok samples"
    and samples: "\<forall>p \<in> set samples. fst p < loras \<and> mb_input_ids (snd p) \<noteq> [] \<and> pred_option (rx_like d t) (mb_routed_experts (snd p))"
    and cost: "\<forall>n. 0 < n \<longrightarrow> 0 < bin_cost [n]" and pos: "0 < workers" "0 < loras" "0 < multiple"
  shows "\<exists>grid. prepare_batch grid_rows itemsize bin_cost rollouts seq_len workers idxs loras multiple = Some (Ok grid) \<and>
     mset (concat (map trained (concat grid))) = mset (concat (map (\<lambda>p. trained (snd p)) samples))"
  using prepare_batch_total[OF prep samples cost pos] by blast

text \<open>
  Truncating a multimodal sample never splits an image: the cut lies at or before \<open>seq_len\<close>, and the
  image placeholders before the cut are exactly those of the first \<open>kept\<close> images, whose embeddings are the ones kept
  (none when no image survives).
\<close>

lemma truncate_mm_whole_images:
  assumes "truncate_mm grid_rows itemsize types kwargs seq_len = Ok (cut_at, kept_kwargs)"
  shows "\<exists>kept grid pixels ppt. cut_at \<le> seq_len \<and>
     map_of kwargs ''image_grid_thw'' = Some grid \<and> map_of kwargs ''pixel_values'' = Some pixels \<and>
     ppt = (if image_tokens types \<noteq> 0 then nat (et_shape pixels ! 0) div image_tokens types else 1) \<and>
     image_tokens (take cut_at types) = sum_list (take kept (map (\<lambda>p. p div ppt) (map prod_list (grid_rows grid)))) \<and>
     (kept_kwargs = None \<longleftrightarrow> kept = 0)"
  by (rule truncate_mm_at[OF assms])

section \<open>A concrete batch\<close>

definition demo_example :: "nat \<Rightarrow> TrainingExample" where
  "demo_example n = \<lparr> te_token_ids = replicate n 5, te_mask = replicate n True, te_logprobs = replicate n 0,
     te_temperatures = replicate n 1, te_env_name = ''math'', te_ref_logprobs = None, te_mm_kwargs = None,
     te_routed_experts = None, te_mm_token_type_ids = None, te_rl_weights = None, te_ce_weights = None,
     te_ref_kl_weights = None, te_advantages = Some (replicate n 1), te_token_policy_versions = None \<rparr>"

lemma demo_prepared:
  "n \<le> 4 \<Longrightarrow> prepare_sample grid_rows itemsize (demo_example n) 4 = Ok (whole_sample (demo_example n) (replicate n 1))"
  by (simp add: prepare_sample_def demo_example_def check_versions_def sample_advantages_def whole_sample_def
      assert_prepared_def Let_def)

definition demo_samples :: "(nat \<times> MicroBatch) list" where
  "demo_samples = [(0, whole_sample (demo_example 3) (replicate 3 1)), (0, whole_sample (demo_example 1) (replicate 1 1)),
     (0, whole_sample (demo_example 2) (replicate 2 1))]"

lemma demo_hyps:
  "traverse (\<lambda>(i, ex). bindE (prepare_sample grid_rows itemsize ex 4) (\<lambda>mb. Ok (i, mb)))
     (zip [0, 0, 0] [demo_example 3, demo_example 1, demo_example 2]) = Ok demo_samples"
  "\<forall>p \<in> set demo_samples. fst p < 1 \<and> mb_input_ids (snd p) \<noteq> [] \<and> pred_option (rx_like [] []) (mb_routed_experts (snd p))"
  "\<forall>n. 0 < n \<longrightarrow> 0 < int (sum_list [n])" "0 < (2::nat)" "0 < (1::nat)" "0 < (8::nat)"
  by (simp_all add: demo_prepared demo_samples_def) (simp_all add: whole_sample_def demo_example_def Let_def)

lemma prepare_batch_uniform_witness:
  "\<exists>grid. prepare_batch (\<lambda>t. []) (\<lambda>d. 1) (\<lambda>ns. int (sum_list ns)) [demo_example 3, demo_example 1, demo_example 2]
     4 2 [0, 0, 0] 1 8 = Some (Ok grid) \<and> length grid = 2"
  using prepare_batch_uniform[OF demo_hyps, where grid_rows = "\<lambda>t. []" and itemsize = "\<lambda>d. 1"] by blast

theorem prepare_batch_trains_exactly_witness:
  "\<exists>grid. prepare_batch (\<lambda>t. []) (\<lambda>d. 1) (\<lambda>ns. int (sum_list ns)) [demo_example 3, demo_example 1, demo_example 2]
     4 2 [0, 0, 0] 1 8 = Some (Ok grid) \<and>
     mset (concat (map trained (concat grid))) = mset (concat (map (\<lambda>p. trained (snd p)) demo_samples))"
  using prepare_batch_trains_exactly[OF demo_hyps, where grid_rows = "\<lambda>t. []" and itemsize = "\<lambda>d. 1"] by blast

definition demo_kwargs :: "(string \<times> EncodedTensor) list" where
  "demo_kwargs = [(''image_grid_thw'', \<lparr> et_dtype = ''int64'', et_shape = [2, 3], et_data = [] \<rparr>),
     (''pixel_values'', \<lparr> et_dtype = ''float32'', et_shape = [8, 4], et_data = [] \<rparr>)]"

lemma demo_truncate:
  "\<exists>kw. truncate_mm (\<lambda>t. [[1, 2, 2], [1, 2, 2]]) (\<lambda>d. 1) [0, 1, 1, 0, 1, 1] demo_kwargs 5 = Ok (4, kw)"
  by (simp add: truncate_mm_def demo_kwargs_def nth_chk_def image_tokens_def Let_def)

lemma truncate_mm_whole_images_witness:
  "\<exists>kw kept. truncate_mm (\<lambda>t. [[1, 2, 2], [1, 2, 2]]) (\<lambda>d. 1) [0, 1, 1, 0, 1, 1] demo_kwargs 5 = Ok (4, kw) \<and>
     image_tokens (take 4 [0, 1, 1, 0, 1, 1]) = sum_list (take kept [2, 2])"
proof -
  obtain kw where kw: "truncate_mm (\<lambda>t. [[1, 2, 2], [1, 2, 2]]) (\<lambda>d. 1) [0, 1, 1, 0, 1, 1] demo_kwargs 5 = Ok (4, kw)"
    using demo_truncate by blast
  from truncate_mm_whole_images[OF kw] show ?thesis
    using kw by (auto simp: demo_kwargs_def image_tokens_def)
qed

end
