(* ===== verification/RL_Runs.thy ===== *)
theory RL_Runs
  imports Prelude
begin

text \<open>
  \<^verbatim>\<open>trainer/runs.py\<close>: the registry of concurrent runs. A run (by its directory name) owns one adapter
  index; the master rank discovers and forgets runs on the file system and the other ranks follow it in
  \<open>synchronize_state\<close>. Dicts are association lists in insertion order. The directory scan, the
  evicted markers, the parsed configs and the checkpoint steps found on disk are arguments; hooks
  are reported as the list of their calls.
\<close>

section \<open>State\<close>

record Progress =
  pg_step :: int
  pg_total_tokens :: int
  pg_total_samples :: int

definition Progress_init :: Progress where
  "Progress_init = \<lparr> pg_step = 1, pg_total_tokens = 0, pg_total_samples = 0 \<rparr>"

text \<open>What \<open>runs.py\<close> reads of an orchestrator config: \<open>ckpt.resume_step\<close> and \<open>model.lora\<close>.\<close>

record LoRAConfig =
  lc_rank :: "int option"
  lc_alpha :: "real option"

record RunConfig =
  rc_resume_step :: "int option"
  rc_lora :: "LoRAConfig option"

text \<open>
  The scaling factors are exact reals; the source keeps them in a bfloat16 tensor, which rounds what is stored (nothing modelled computes with a stored factor).
\<close>

record MultiRunManager =
  rm_max_runs :: nat
  rm_idx_2_id :: "(nat \<times> string) list"
  rm_id_2_idx :: "(string \<times> nat) list"
  rm_unused_idxs :: "nat set"
  rm_progress :: "(nat \<times> Progress) list"
  rm_config :: "(nat \<times> RunConfig) list"
  rm_ready_to_update :: "bool list"
  rm_scaling_factors :: "real list"
  rm_last_synced :: "(string \<times> nat) list"

definition MultiRunManager_init :: "nat \<Rightarrow> MultiRunManager" where
  "MultiRunManager_init max_runs =
     \<lparr> rm_max_runs = max_runs, rm_idx_2_id = [], rm_id_2_idx = [], rm_unused_idxs = {0..<max_runs},
       rm_progress = [], rm_config = [], rm_ready_to_update = replicate max_runs False,
       rm_scaling_factors = replicate max_runs 1000000, rm_last_synced = [] \<rparr>"

text \<open>\<open>d[k] = v\<close> on an insertion-ordered dict, \<open>del d[k]\<close>, and \<open>keys()\<close>.\<close>

fun dict_set :: "'k \<Rightarrow> 'v \<Rightarrow> ('k \<times> 'v) list \<Rightarrow> ('k \<times> 'v) list" where
  "dict_set k v [] = [(k, v)]"
| "dict_set k v (p # d) = (if fst p = k then (k, v) # d else p # dict_set k v d)"

definition dict_del :: "'k \<Rightarrow> ('k \<times> 'v) list \<Rightarrow> ('k \<times> 'v) list result" where
  "dict_del k d = (if k \<in> fst ` set d then Ok (filter (\<lambda>p. fst p \<noteq> k) d) else Raise KeyError)"

definition dict_get :: "'k \<Rightarrow> ('k \<times> 'v) list \<Rightarrow> 'v result" where
  "dict_get k d = (case map_of d k of Some v \<Rightarrow> Ok v | None \<Rightarrow> Raise KeyError)"

abbreviation keys :: "('k \<times> 'v) list \<Rightarrow> 'k list" where
  "keys d \<equiv> map fst d"

section \<open>Runs come and go\<close>

text \<open>The resume step: \<open>step_S\<close> means step S finished, so resuming continues at S + 1.\<close>

definition resume_progress :: "RunConfig \<Rightarrow> int list \<Rightarrow> Progress" where
  "resume_progress config steps =
     Progress_init\<lparr> pg_step :=
       (case rc_resume_step config of
          None \<Rightarrow> 1
        | Some s \<Rightarrow> if s = -1 then (case steps of [] \<Rightarrow> 1 | x # xs \<Rightarrow> fold max xs x + 1) else s + 1) \<rparr>"

definition create_run_data ::
  "(string \<Rightarrow> int list) \<Rightarrow> string \<Rightarrow> nat \<Rightarrow> RunConfig \<Rightarrow> MultiRunManager \<Rightarrow> MultiRunManager result" where
  "create_run_data ckpt_steps run i config m =
     raise_if (i \<notin> rm_unused_idxs m) KeyError
     (Ok (m\<lparr> rm_id_2_idx := dict_set run i (rm_id_2_idx m), rm_unused_idxs := rm_unused_idxs m - {i},
             rm_idx_2_id := dict_set i run (rm_idx_2_id m),
             rm_progress := dict_set i (resume_progress config (ckpt_steps run)) (rm_progress m),
             rm_config := dict_set i config (rm_config m) \<rparr>))"

definition delete_run_data :: "string \<Rightarrow> nat \<Rightarrow> MultiRunManager \<Rightarrow> MultiRunManager result" where
  "delete_run_data run i m =
     bindE (dict_del i (rm_progress m)) (\<lambda>progress.
     bindE (dict_del i (rm_idx_2_id m)) (\<lambda>idx_2_id.
     bindE (dict_del run (rm_id_2_idx m)) (\<lambda>id_2_idx.
       Ok (m\<lparr> rm_progress := progress, rm_config := filter (\<lambda>p. fst p \<noteq> i) (rm_config m),
              rm_scaling_factors := (rm_scaling_factors m)[i := 1000000],
              rm_unused_idxs := insert i (rm_unused_idxs m), rm_idx_2_id := idx_2_id, rm_id_2_idx := id_2_idx \<rparr>))))"

text \<open>
  The LoRA hooks of \<open>setup_multi_run_manager\<close>. The validation hook fills in the trainer's rank and alpha
  (mutating the config it is given) and answers whether the config is valid; the discovery hook sets the adapter's
  scaling factor.
\<close>

definition validate_lora_rank :: "int \<times> real \<Rightarrow> RunConfig \<Rightarrow> (bool \<times> string) \<times> RunConfig" where
  "validate_lora_rank trainer_lora config =
     (case rc_lora config of
        None \<Rightarrow> ((False, ''orchestrator.model.lora is required when trainer is configured with LoRA''), config)
      | Some lora \<Rightarrow>
          let rank = (case lc_rank lora of None \<Rightarrow> fst trainer_lora | Some r \<Rightarrow> r);
              alpha = (case lc_alpha lora of None \<Rightarrow> snd trainer_lora | Some a \<Rightarrow> a);
              config' = config\<lparr> rc_lora := Some \<lparr> lc_rank = Some rank, lc_alpha = Some alpha \<rparr> \<rparr>
          in if rank > fst trainer_lora then ((False, ''orchestrator.model.lora.rank exceeds trainer max rank''), config')
             else ((True, []), config'))"

definition on_run_discovered :: "nat \<Rightarrow> RunConfig \<Rightarrow> MultiRunManager \<Rightarrow> MultiRunManager result" where
  "on_run_discovered i config m =
     (case rc_lora config of
        None \<Rightarrow> Raise AttributeError
      | Some lora \<Rightarrow> (case (lc_alpha lora, lc_rank lora) of
            (Some a, Some r) \<Rightarrow>
               raise_if (r = 0) ZeroDivisionError
               (Ok (m\<lparr> rm_scaling_factors := (rm_scaling_factors m)[i := a / real_of_int r] \<rparr>))
          | _ \<Rightarrow> Raise (TypeError ''unsupported operand type(s) for /'')))"

text \<open>
  Loading a run's config: \<open>file\<close> is absent, unparsable, or a parsed config; the second component of the
  result is what \<open>config_validation_error.txt\<close> holds afterwards (\<open>err\<close> is what it held before).
\<close>

definition get_orchestrator_config ::
  "(int \<times> real) option \<Rightarrow> (string + RunConfig) option \<Rightarrow> string option \<Rightarrow> RunConfig option \<times> string option" where
  "get_orchestrator_config trainer_lora file err =
     (case file of
        None \<Rightarrow> (None, err)
      | Some (Inl e) \<Rightarrow> (None, Some (''Error parsing orchestrator config: '' @ e))
      | Some (Inr config) \<Rightarrow>
          (case trainer_lora of
             None \<Rightarrow> (Some config, None)
           | Some lora \<Rightarrow> (case validate_lora_rank lora config of
                 ((True, _), config') \<Rightarrow> (Some config', None)
               | ((False, message), _) \<Rightarrow> (None, Some message))))"

section \<open>Discovery on the master\<close>

fun forget_runs :: "string list \<Rightarrow> MultiRunManager \<Rightarrow> MultiRunManager result" where
  "forget_runs [] m = Ok m"
| "forget_runs (run # runs) m =
     bindE (dict_get run (rm_id_2_idx m)) (\<lambda>i. bindE (delete_run_data run i m) (forget_runs runs))"

text \<open>\<open>pick\<close> is the element that \<open>next(iter(unused_idxs))\<close> returns.\<close>

fun adopt_runs ::
  "(int \<times> real) option \<Rightarrow> (string \<Rightarrow> int list) \<Rightarrow> (nat set \<Rightarrow> nat) \<Rightarrow> (string \<Rightarrow> (string + RunConfig) option) \<Rightarrow>
   string list \<Rightarrow> MultiRunManager \<Rightarrow> MultiRunManager result" where
  "adopt_runs trainer_lora ckpt_steps pick file_of [] m = Ok m"
| "adopt_runs trainer_lora ckpt_steps pick file_of (run # runs) m =
     (if rm_unused_idxs m = {} then adopt_runs trainer_lora ckpt_steps pick file_of runs m
      else let i = pick (rm_unused_idxs m) in
        (case fst (get_orchestrator_config trainer_lora (file_of run) None) of
           None \<Rightarrow> adopt_runs trainer_lora ckpt_steps pick file_of runs m
         | Some config \<Rightarrow>
             bindE (create_run_data ckpt_steps run i config m) (\<lambda>m1.
             bindE (if trainer_lora = None then Ok m1 else on_run_discovered i config m1)
               (adopt_runs trainer_lora ckpt_steps pick file_of runs))))"

text \<open>The runs a scan no longer finds; the forgotten hooks get each with its index before it is deleted.\<close>

definition forgotten_runs :: "(string \<Rightarrow> bool) \<Rightarrow> string list \<Rightarrow> MultiRunManager \<Rightarrow> string list" where
  "forgotten_runs evicted found m = filter (\<lambda>r. r \<notin> set (filter (\<lambda>r. \<not> evicted r) found)) (keys (rm_id_2_idx m))"

definition discover_runs ::
  "(int \<times> real) option \<Rightarrow> (string \<Rightarrow> int list) \<Rightarrow> (nat set \<Rightarrow> nat) \<Rightarrow> (string \<Rightarrow> (string + RunConfig) option) \<Rightarrow>
   (string \<Rightarrow> bool) \<Rightarrow> string list \<Rightarrow> MultiRunManager \<Rightarrow> MultiRunManager result" where
  "discover_runs trainer_lora ckpt_steps pick file_of evicted found m =
     (let run_ids = filter (\<lambda>r. \<not> evicted r) found;
          fresh = filter (\<lambda>r. r \<notin> set (keys (rm_id_2_idx m))) run_ids
      in bindE (forget_runs (forgotten_runs evicted found m) m) (adopt_runs trainer_lora ckpt_steps pick file_of fresh))"

text \<open>Eviction leaves a marker for the orchestrator, which later discoveries honour (\<open>markers\<close> are the files on disk).\<close>

definition evict_run :: "nat \<Rightarrow> string \<Rightarrow> MultiRunManager \<Rightarrow> (string \<rightharpoonup> string) \<Rightarrow> (string \<rightharpoonup> string)" where
  "evict_run i reason m markers =
     (case map_of (rm_idx_2_id m) i of None \<Rightarrow> markers | Some run \<Rightarrow> markers(run \<mapsto> reason))"

section \<open>Synchronisation\<close>

record SyncData =
  sd_id_2_idx :: "(string \<times> nat) list"
  sd_ready_to_update :: "bool list"
  sd_scaling_factors :: "real list"
  sd_new_configs :: "(string \<times> RunConfig) list"
  sd_progress :: "(nat \<times> Progress) list"

text \<open>What the master publishes, and its own view of what changed.\<close>

definition fresh_runs :: "(string \<times> nat) list \<Rightarrow> (string \<times> nat) list \<Rightarrow> string list" where
  "fresh_runs new old = filter (\<lambda>r. r \<notin> set (keys old)) (keys new)"

definition master_sync_data :: "MultiRunManager \<Rightarrow> SyncData result" where
  "master_sync_data m =
     bindE (traverse (\<lambda>run. bindE (dict_get run (rm_id_2_idx m)) (\<lambda>i. bindE (dict_get i (rm_config m)) (\<lambda>c. Ok (run, c))))
              (fresh_runs (rm_id_2_idx m) (rm_last_synced m))) (\<lambda>configs.
       Ok \<lparr> sd_id_2_idx = rm_id_2_idx m, sd_ready_to_update = rm_ready_to_update m,
            sd_scaling_factors = rm_scaling_factors m, sd_new_configs = configs, sd_progress = rm_progress m \<rparr>)"

datatype run_hook = DeletionHook nat string | CreationHook nat string

definition master_synchronize :: "MultiRunManager \<Rightarrow> (run_hook list \<times> MultiRunManager) result" where
  "master_synchronize m =
     (let deleted = fresh_runs (rm_last_synced m) (rm_id_2_idx m); created = fresh_runs (rm_id_2_idx m) (rm_last_synced m)
      in bindE (traverse (\<lambda>run. bindE (dict_get run (rm_last_synced m)) (\<lambda>i. Ok (DeletionHook i run))) deleted) (\<lambda>ds.
         bindE (traverse (\<lambda>run. bindE (dict_get run (rm_id_2_idx m)) (\<lambda>i. Ok (CreationHook i run))) created) (\<lambda>cs.
           Ok (ds @ cs, m\<lparr> rm_last_synced := rm_id_2_idx m \<rparr>))))"

fun catch_up ::
  "(string \<Rightarrow> int list) \<Rightarrow> (string \<times> nat) list \<Rightarrow> (string \<times> RunConfig) list \<Rightarrow> string list \<Rightarrow> MultiRunManager \<Rightarrow> MultiRunManager result" where
  "catch_up ckpt_steps new_ids configs [] m = Ok m"
| "catch_up ckpt_steps new_ids configs (run # runs) m =
     bindE (dict_get run new_ids) (\<lambda>i. bindE (dict_get run configs) (\<lambda>c.
     bindE (create_run_data ckpt_steps run i c m) (catch_up ckpt_steps new_ids configs runs)))"

definition follower_synchronize ::
  "(string \<Rightarrow> int list) \<Rightarrow> SyncData \<Rightarrow> MultiRunManager \<Rightarrow> (run_hook list \<times> MultiRunManager) result" where
  "follower_synchronize ckpt_steps data m0 =
     (let m = m0\<lparr> rm_ready_to_update := sd_ready_to_update data, rm_scaling_factors := sd_scaling_factors data \<rparr>;
          created = fresh_runs (sd_id_2_idx data) (rm_id_2_idx m);
          deleted = fresh_runs (rm_id_2_idx m) (sd_id_2_idx data)
      in bindE (traverse (\<lambda>run. bindE (dict_get run (rm_id_2_idx m)) (\<lambda>i. Ok (DeletionHook i run))) deleted) (\<lambda>ds.
         bindE (forget_runs deleted m) (\<lambda>m1.
         bindE (catch_up ckpt_steps (sd_id_2_idx data) (sd_new_configs data) created m1) (\<lambda>m2.
         let m3 = m2\<lparr> rm_progress := sd_progress data \<rparr>
         in bindE (traverse (\<lambda>run. bindE (dict_get run (rm_id_2_idx m3)) (\<lambda>i. Ok (CreationHook i run))) created) (\<lambda>cs.
              Ok (ds @ cs, m3))))))"

definition used_idxs :: "MultiRunManager \<Rightarrow> nat list" where
  "used_idxs m = sort (keys (rm_idx_2_id m))"

definition ready_to_update_idxs :: "MultiRunManager \<Rightarrow> nat list" where
  "ready_to_update_idxs m = filter (\<lambda>i. rm_ready_to_update m ! i) [0..<length (rm_ready_to_update m)]"

section \<open>The registry is a bijection\<close>

definition registry_ok :: "MultiRunManager \<Rightarrow> bool" where
  "registry_ok m \<longleftrightarrow>
     distinct (keys (rm_id_2_idx m)) \<and> distinct (keys (rm_idx_2_id m)) \<and>
     set (rm_idx_2_id m) = (\<lambda>(r, i). (i, r)) ` set (rm_id_2_idx m) \<and>
     rm_unused_idxs m = {0..<rm_max_runs m} - set (keys (rm_idx_2_id m)) \<and>
     set (keys (rm_idx_2_id m)) \<subseteq> {0..<rm_max_runs m} \<and>
     set (keys (rm_progress m)) = set (keys (rm_idx_2_id m)) \<and> distinct (keys (rm_progress m)) \<and>
     set (keys (rm_config m)) = set (keys (rm_idx_2_id m)) \<and> distinct (keys (rm_config m))"

lemma dict_set_fresh: "k \<notin> set (keys d) \<Longrightarrow> dict_set k v d = d @ [(k, v)]"
  by (induction d) auto

lemma dict_del_ok: "k \<in> set (keys d) \<Longrightarrow> dict_del k d = Ok (filter (\<lambda>p. fst p \<noteq> k) d)"
  by (simp add: dict_del_def)

lemma keys_filter: "keys (filter (\<lambda>p. fst p \<noteq> k) d) = filter (\<lambda>x. x \<noteq> k) (keys d)"
  by (induction d) auto

lemma set_keys_filter: "set (keys (filter (\<lambda>p. fst p \<noteq> k) d)) = set (keys d) - {k}"
  by (auto simp: keys_filter)

lemma registry_pairs:
  assumes "registry_ok m"
  shows "(i, r) \<in> set (rm_idx_2_id m) \<longleftrightarrow> (r, i) \<in> set (rm_id_2_idx m)"
    "(r, i) \<in> set (rm_id_2_idx m) \<Longrightarrow> (r', i) \<in> set (rm_id_2_idx m) \<Longrightarrow> r = r'"
    "(r, i) \<in> set (rm_id_2_idx m) \<Longrightarrow> (r, j) \<in> set (rm_id_2_idx m) \<Longrightarrow> i = j"
    "(r, i) \<in> set (rm_id_2_idx m) \<Longrightarrow> i \<in> set (keys (rm_idx_2_id m))"
proof -
  show eq: "(i, r) \<in> set (rm_idx_2_id m) \<longleftrightarrow> (r, i) \<in> set (rm_id_2_idx m)" for i r
    using assms by (force simp: registry_ok_def)
  show "(r, i) \<in> set (rm_id_2_idx m) \<Longrightarrow> (r', i) \<in> set (rm_id_2_idx m) \<Longrightarrow> r = r'"
    using assms by (auto simp: registry_ok_def eq[symmetric] dest: eq_key_imp_eq_value)
  show "(r, i) \<in> set (rm_id_2_idx m) \<Longrightarrow> (r, j) \<in> set (rm_id_2_idx m) \<Longrightarrow> i = j"
    using assms by (auto simp: registry_ok_def dest: eq_key_imp_eq_value)
  show "(r, i) \<in> set (rm_id_2_idx m) \<Longrightarrow> i \<in> set (keys (rm_idx_2_id m))"
    using eq[of i r] by force
qed

lemma create_ok:
  assumes ok: "registry_ok m" and i: "i \<in> rm_unused_idxs m" and run: "run \<notin> set (keys (rm_id_2_idx m))"
  shows "\<exists>m'. create_run_data ckpt_steps run i config m = Ok m' \<and> registry_ok m' \<and>
     rm_id_2_idx m' = rm_id_2_idx m @ [(run, i)] \<and> rm_max_runs m' = rm_max_runs m \<and>
     rm_ready_to_update m' = rm_ready_to_update m \<and> rm_scaling_factors m' = rm_scaling_factors m"
proof -
  have ni: "i \<notin> set (keys (rm_idx_2_id m))" "i < rm_max_runs m" using ok i by (auto simp: registry_ok_def)
  have np: "i \<notin> set (keys (rm_progress m))" "i \<notin> set (keys (rm_config m))" using ok ni(1) by (simp_all add: registry_ok_def)
  define m' where "m' = m\<lparr> rm_id_2_idx := rm_id_2_idx m @ [(run, i)], rm_unused_idxs := rm_unused_idxs m - {i},
      rm_idx_2_id := rm_idx_2_id m @ [(i, run)],
      rm_progress := rm_progress m @ [(i, resume_progress config (ckpt_steps run))], rm_config := rm_config m @ [(i, config)] \<rparr>"
  have "create_run_data ckpt_steps run i config m = Ok m'"
    using i run ni np by (simp add: create_run_data_def dict_set_fresh m'_def)
  moreover have "set (rm_idx_2_id m') = (\<lambda>(r, j). (j, r)) ` set (rm_id_2_idx m')"
    using ok by (simp add: m'_def registry_ok_def)
  then have "registry_ok m'"
    unfolding registry_ok_def
    by (intro conjI) (use ok ni np run in \<open>auto simp: m'_def registry_ok_def simp del: set_map\<close>)
  ultimately show ?thesis by (simp add: m'_def)
qed

lemma delete_ok:
  assumes ok: "registry_ok m" and mem: "(run, i) \<in> set (rm_id_2_idx m)"
  shows "\<exists>m'. delete_run_data run i m = Ok m' \<and> registry_ok m' \<and>
     rm_id_2_idx m' = filter (\<lambda>p. fst p \<noteq> run) (rm_id_2_idx m) \<and> rm_max_runs m' = rm_max_runs m \<and>
     rm_ready_to_update m' = rm_ready_to_update m"
proof -
  note rp = registry_pairs[OF ok]
  have ki: "i \<in> set (keys (rm_idx_2_id m))" "run \<in> set (keys (rm_id_2_idx m))" using rp(4)[OF mem] mem by force+
  then have kp: "i \<in> set (keys (rm_progress m))" using ok by (simp add: registry_ok_def)
  define m' where "m' = m\<lparr> rm_progress := filter (\<lambda>p. fst p \<noteq> i) (rm_progress m), rm_config := filter (\<lambda>p. fst p \<noteq> i) (rm_config m),
      rm_scaling_factors := (rm_scaling_factors m)[i := 1000000], rm_unused_idxs := insert i (rm_unused_idxs m),
      rm_idx_2_id := filter (\<lambda>p. fst p \<noteq> i) (rm_idx_2_id m), rm_id_2_idx := filter (\<lambda>p. fst p \<noteq> run) (rm_id_2_idx m) \<rparr>"
  have run: "delete_run_data run i m = Ok m'"
    using ki kp by (simp add: delete_run_data_def dict_del_ok m'_def)
  have pairs: "set (rm_idx_2_id m') = (\<lambda>(r, j). (j, r)) ` set (rm_id_2_idx m')"
  proof (rule set_eqI)
    fix q :: "nat \<times> string"
    obtain j r where q: "q = (j, r)" by (cases q)
    have "(j, r) \<in> set (rm_idx_2_id m') \<longleftrightarrow> (r, j) \<in> set (rm_id_2_idx m) \<and> j \<noteq> i" by (auto simp: m'_def rp(1))
    also have "\<dots> \<longleftrightarrow> (r, j) \<in> set (rm_id_2_idx m) \<and> r \<noteq> run" using rp(2,3) mem by blast
    finally show "q \<in> set (rm_idx_2_id m') \<longleftrightarrow> q \<in> (\<lambda>(r, j). (j, r)) ` set (rm_id_2_idx m')" by (force simp: q m'_def)
  qed
  have "registry_ok m'"
    unfolding registry_ok_def
    by (intro conjI pairs)
       (use ok ki in \<open>auto simp: m'_def registry_ok_def keys_filter set_keys_filter simp del: set_map\<close>)
  then show ?thesis using run by (simp add: m'_def)
qed

lemma dict_get_mem: "distinct (keys d) \<Longrightarrow> (k, v) \<in> set d \<Longrightarrow> dict_get k d = Ok v"
  by (simp add: dict_get_def)

lemma mem_keys: "k \<in> set (keys d) \<longleftrightarrow> (\<exists>v. (k, v) \<in> set d)"
  by force

lemma forget_runs_ok:
  "registry_ok m \<Longrightarrow> distinct runs \<Longrightarrow> set runs \<subseteq> set (keys (rm_id_2_idx m)) \<Longrightarrow>
   \<exists>m'. forget_runs runs m = Ok m' \<and> registry_ok m' \<and>
     rm_id_2_idx m' = filter (\<lambda>p. fst p \<notin> set runs) (rm_id_2_idx m) \<and> rm_max_runs m' = rm_max_runs m \<and>
     rm_ready_to_update m' = rm_ready_to_update m"
proof (induction runs arbitrary: m)
  case (Cons run runs)
  have "run \<in> set (keys (rm_id_2_idx m))" using Cons.prems(3) by simp
  then obtain i where i: "(run, i) \<in> set (rm_id_2_idx m)" unfolding mem_keys ..
  have g: "dict_get run (rm_id_2_idx m) = Ok i" using Cons.prems(1) i by (simp add: dict_get_mem registry_ok_def)
  obtain m1 where m1: "delete_run_data run i m = Ok m1" "registry_ok m1"
      "rm_id_2_idx m1 = filter (\<lambda>p. fst p \<noteq> run) (rm_id_2_idx m)" "rm_max_runs m1 = rm_max_runs m"
      "rm_ready_to_update m1 = rm_ready_to_update m"
    using delete_ok[OF Cons.prems(1) i] by blast
  have "set runs \<subseteq> set (keys (rm_id_2_idx m1))" unfolding m1(3) set_keys_filter using Cons.prems(2,3) by auto
  then obtain m2 where "forget_runs runs m1 = Ok m2" "registry_ok m2"
      "rm_id_2_idx m2 = filter (\<lambda>p. fst p \<notin> set runs) (rm_id_2_idx m1)" "rm_max_runs m2 = rm_max_runs m1"
      "rm_ready_to_update m2 = rm_ready_to_update m1"
    using Cons.IH[OF m1(2)] Cons.prems(2) by auto
  then show ?case using g m1 by (auto simp: filter_filter conj_commute)
qed simp


text \<open>Pydantic's bounds on the configs, \<open>Field(ge=1)\<close> on both LoRA ranks.\<close>

definition ranks_positive :: "(int \<times> real) option \<Rightarrow> (string \<Rightarrow> (string + RunConfig) option) \<Rightarrow> string list \<Rightarrow> bool" where
  "ranks_positive trainer_lora file_of found \<longleftrightarrow>
     (case trainer_lora of None \<Rightarrow> True | Some t \<Rightarrow> fst t \<ge> 1) \<and>
     list_all (\<lambda>run. case file_of run of
         Some (Inr config) \<Rightarrow> (case rc_lora config of None \<Rightarrow> True | Some lora \<Rightarrow> (case lc_rank lora of None \<Rightarrow> True | Some r \<Rightarrow> r \<ge> 1))
       | _ \<Rightarrow> True) found"

lemma ranks_positive_Cons:
  "ranks_positive tlora file_of (run # runs) \<Longrightarrow> ranks_positive tlora file_of [run] \<and> ranks_positive tlora file_of runs"
  by (auto simp: ranks_positive_def)

lemma validated_config:
  assumes ranks: "ranks_positive (Some t) file_of [run]"
    and cfg: "fst (get_orchestrator_config (Some t) (file_of run) err) = Some config"
  shows "\<exists>a r. rc_lora config = Some \<lparr> lc_rank = Some r, lc_alpha = Some a \<rparr> \<and> 1 \<le> r \<and> r \<le> fst t"
proof -
  obtain c where c: "file_of run = Some (Inr c)"
    using cfg by (auto simp: get_orchestrator_config_def split: option.splits sum.splits)
  obtain lora where lora: "rc_lora c = Some lora"
    using cfg c by (cases "rc_lora c") (simp_all add: get_orchestrator_config_def validate_lora_rank_def)
  have t: "1 \<le> fst t" and r: "lc_rank lora = Some r \<Longrightarrow> 1 \<le> r" for r using ranks c lora by (simp_all add: ranks_positive_def)
  let ?r = "case lc_rank lora of None \<Rightarrow> fst t | Some r \<Rightarrow> r" and ?a = "case lc_alpha lora of None \<Rightarrow> snd t | Some a \<Rightarrow> a"
  have "1 \<le> ?r" using t r by (cases "lc_rank lora") simp_all
  moreover have "?r \<le> fst t \<and> rc_lora config = Some \<lparr> lc_rank = Some ?r, lc_alpha = Some ?a \<rparr>"
    using cfg c lora by (cases "?r > fst t") (auto simp: get_orchestrator_config_def validate_lora_rank_def Let_def)
  ultimately show ?thesis by blast
qed

lemma registry_ok_scaling [simp]: "registry_ok (m\<lparr> rm_scaling_factors := x \<rparr>) = registry_ok m"
  by (simp add: registry_ok_def)

lemma on_run_discovered_fields:
  assumes "on_run_discovered i c m = Ok m'"
  shows "registry_ok m' = registry_ok m" "rm_id_2_idx m' = rm_id_2_idx m" "rm_max_runs m' = rm_max_runs m"
proof -
  obtain x where "m' = m\<lparr> rm_scaling_factors := x \<rparr>"
    using assms by (auto simp: on_run_discovered_def result_simps split: option.splits)
  then show "registry_ok m' = registry_ok m" "rm_id_2_idx m' = rm_id_2_idx m" "rm_max_runs m' = rm_max_runs m" by simp_all
qed

lemma discovered_hook_ok:
  assumes "ranks_positive trainer_lora file_of [run]"
    and "fst (get_orchestrator_config trainer_lora (file_of run) err) = Some config" and ok: "registry_ok m"
  shows "\<exists>m'. (if trainer_lora = None then Ok m else on_run_discovered i config m) = Ok m' \<and> registry_ok m' \<and>
     rm_id_2_idx m' = rm_id_2_idx m \<and> rm_max_runs m' = rm_max_runs m"
proof (cases trainer_lora)
  case (Some t)
  obtain a r where "rc_lora config = Some \<lparr> lc_rank = Some r, lc_alpha = Some a \<rparr>" "1 \<le> r"
    using validated_config[of t file_of run err config] assms(1,2) Some by auto
  then obtain m' where m': "on_run_discovered i config m = Ok m'" by (simp add: on_run_discovered_def)
  then show ?thesis using on_run_discovered_fields[OF m'] Some ok by auto
qed (use ok in simp)

lemma adopt_runs_ok:
  assumes pick: "\<forall>S. finite S \<and> S \<noteq> {} \<longrightarrow> pick S \<in> S"
  shows "registry_ok m \<Longrightarrow> distinct runs \<Longrightarrow> set runs \<inter> set (keys (rm_id_2_idx m)) = {} \<Longrightarrow>
   ranks_positive tlora file_of runs \<Longrightarrow>
   \<exists>m' added. adopt_runs tlora ckpt_steps pick file_of runs m = Ok m' \<and> registry_ok m' \<and>
     rm_id_2_idx m' = rm_id_2_idx m @ added \<and> set (keys added) \<subseteq> set runs \<and> rm_max_runs m' = rm_max_runs m"
proof (induction runs arbitrary: m)
  case (Cons run runs)
  note rk = ranks_positive_Cons[OF Cons.prems(4)]
  have tail: "distinct runs" "set runs \<inter> set (keys (rm_id_2_idx m)) = {}" "run \<notin> set runs" using Cons.prems(2,3) by auto
  show ?case
  proof (cases "rm_unused_idxs m = {} \<or> fst (get_orchestrator_config tlora (file_of run) None) = None")
    case True
    then have "adopt_runs tlora ckpt_steps pick file_of (run # runs) m = adopt_runs tlora ckpt_steps pick file_of runs m" by auto
    then show ?thesis using Cons.IH[OF Cons.prems(1) tail(1,2)] rk by fastforce
  next
    case False
    then obtain config where c: "fst (get_orchestrator_config tlora (file_of run) None) = Some config" by auto
    let ?i = "pick (rm_unused_idxs m)"
    have "finite (rm_unused_idxs m)" using Cons.prems(1) by (simp add: registry_ok_def)
    then have "?i \<in> rm_unused_idxs m" "run \<notin> set (keys (rm_id_2_idx m))" using pick False Cons.prems(3) by auto
    then obtain m1 where m1: "create_run_data ckpt_steps run ?i config m = Ok m1" "registry_ok m1"
        "rm_id_2_idx m1 = rm_id_2_idx m @ [(run, ?i)]" "rm_max_runs m1 = rm_max_runs m"
      using create_ok[OF Cons.prems(1)] by blast
    obtain m2 where m2: "(if tlora = None then Ok m1 else on_run_discovered ?i config m1) = Ok m2" "registry_ok m2"
        "rm_id_2_idx m2 = rm_id_2_idx m1" "rm_max_runs m2 = rm_max_runs m1"
      using discovered_hook_ok[OF conjunct1[OF rk] c m1(2)] by blast
    have "set runs \<inter> set (keys (rm_id_2_idx m2)) = {}" using m1(3) m2(3) tail by auto
    from Cons.IH[OF m2(2) tail(1) this conjunct2[OF rk]]
    obtain m3 added where "adopt_runs tlora ckpt_steps pick file_of runs m2 = Ok m3" "registry_ok m3"
        "rm_id_2_idx m3 = rm_id_2_idx m2 @ added" "set (keys added) \<subseteq> set runs" "rm_max_runs m3 = rm_max_runs m2"
      by blast
    then show ?thesis
      using False c m1 m2 by (intro exI[of _ m3] exI[of _ "(run, ?i) # added"]) (auto simp: Let_def)
  qed
qed auto

lemma discover_runs_ok:
  assumes ok: "registry_ok m" and found: "distinct found" and pick: "\<forall>S. finite S \<and> S \<noteq> {} \<longrightarrow> pick S \<in> S"
    and ranks: "ranks_positive trainer_lora file_of found"
  shows "\<exists>m'. discover_runs trainer_lora ckpt_steps pick file_of evicted found m = Ok m' \<and> registry_ok m' \<and> rm_max_runs m' = rm_max_runs m \<and>
     list_all (\<lambda>r. r \<in> set found \<and> \<not> evicted r) (keys (rm_id_2_idx m')) \<and>
     list_all (\<lambda>p. fst p \<in> set found \<and> \<not> evicted (fst p) \<longrightarrow> p \<in> set (rm_id_2_idx m')) (rm_id_2_idx m)"
proof -
  define ids where "ids = filter (\<lambda>r. \<not> evicted r) found"
  define deleted where "deleted = filter (\<lambda>r. r \<notin> set ids) (keys (rm_id_2_idx m))"
  define fresh where "fresh = filter (\<lambda>r. r \<notin> set (keys (rm_id_2_idx m))) ids"
  have dd: "distinct deleted" "set deleted \<subseteq> set (keys (rm_id_2_idx m))" using ok by (auto simp: deleted_def registry_ok_def)
  obtain m1 where m1: "forget_runs deleted m = Ok m1" "registry_ok m1"
      "rm_id_2_idx m1 = filter (\<lambda>p. fst p \<notin> set deleted) (rm_id_2_idx m)" "rm_max_runs m1 = rm_max_runs m"
    using forget_runs_ok[OF ok dd] by blast
  have kept: "set (rm_id_2_idx m1) = {p \<in> set (rm_id_2_idx m). fst p \<in> set ids}"
    by (auto simp: m1(3) deleted_def)
  have fr: "distinct fresh" "set fresh \<inter> set (keys (rm_id_2_idx m1)) = {}"
    using found kept by (auto simp: fresh_def ids_def)
  have "ranks_positive trainer_lora file_of fresh"
    using ranks unfolding ranks_positive_def list_all_iff fresh_def ids_def by auto
  then obtain m2 added where m2: "adopt_runs trainer_lora ckpt_steps pick file_of fresh m1 = Ok m2" "registry_ok m2"
      "rm_id_2_idx m2 = rm_id_2_idx m1 @ added" "set (keys added) \<subseteq> set fresh" "rm_max_runs m2 = rm_max_runs m1"
    using adopt_runs_ok[OF pick m1(2) fr] by blast
  have "discover_runs trainer_lora ckpt_steps pick file_of evicted found m = Ok m2"
    using m1(1) m2(1) by (simp add: discover_runs_def forgotten_runs_def Let_def ids_def deleted_def fresh_def)
  moreover have "set (keys (rm_id_2_idx m2)) \<subseteq> set ids" using m2(3,4) kept by (auto simp: fresh_def)
  ultimately show ?thesis using m1(4) m2(2,3,5) kept by (auto simp: list_all_iff ids_def)
qed

text \<open>
  C34: Discovery keeps the registry a bijection. Whatever runs appear, vanish or are evicted on disk, whatever their
  config files hold, and whichever free index Python's set iteration offers, \<open>discover_runs\<close> does not raise and
  leaves run ids and adapter indices in one-to-one correspondence within \<open>max_runs\<close>, with the free indices exactly
  the others and a progress and a config per used index; a run that vanished or was evicted is gone, a run that stays
  keeps its index.
\<close>

theorem discover_runs_bijective:
  assumes ok: "registry_ok m" and found: "distinct found" and pick: "\<forall>S. finite S \<and> S \<noteq> {} \<longrightarrow> pick S \<in> S"
    and ranks: "ranks_positive trainer_lora file_of found"
  shows "\<exists>m'. discover_runs trainer_lora ckpt_steps pick file_of evicted found m = Ok m' \<and> registry_ok m' \<and>
     list_all (\<lambda>r. r \<in> set found \<and> \<not> evicted r) (keys (rm_id_2_idx m')) \<and>
     list_all (\<lambda>p. fst p \<in> set found \<and> \<not> evicted (fst p) \<longrightarrow> p \<in> set (rm_id_2_idx m')) (rm_id_2_idx m)"
  using discover_runs_ok[OF assms] by blast

theorem discover_runs_bijective_witness:
  "\<exists>m'. discover_runs (Some (16, 32)) (\<lambda>_. []) Min (\<lambda>_. Some (Inr \<lparr> rc_resume_step = None, rc_lora = None \<rparr>)) (\<lambda>_. False) [''run_a'']
      (MultiRunManager_init 2) = Ok m' \<and> registry_ok m'"
  using discover_runs_bijective[of "MultiRunManager_init 2" "[''run_a'']" Min "Some (16, 32)"
      "\<lambda>_. Some (Inr \<lparr> rc_resume_step = None, rc_lora = None \<rparr>)" "\<lambda>_. []" "\<lambda>_. False"]
  by (auto simp: registry_ok_def MultiRunManager_init_def ranks_positive_def)


section \<open>What discovery leaves alone\<close>

lemma map_of_dict_set: "map_of (dict_set k v d) j = (if j = k then Some v else map_of d j)"
  by (induction d) auto

lemma forget_runs_frame:
  "forget_runs runs m = Ok m' \<Longrightarrow> rm_ready_to_update m' = rm_ready_to_update m \<and>
   ((\<forall>run \<in> set runs. map_of (rm_id_2_idx m) run \<noteq> Some j) \<longrightarrow> map_of (rm_progress m') j = map_of (rm_progress m) j)"
proof (induction runs arbitrary: m)
  case (Cons run runs)
  obtain i m1 where i: "dict_get run (rm_id_2_idx m) = Ok i" and m1: "delete_run_data run i m = Ok m1" "forget_runs runs m1 = Ok m'"
    using Cons.prems by (auto simp: result_simps)
  have f: "rm_ready_to_update m1 = rm_ready_to_update m" "rm_progress m1 = filter (\<lambda>p. fst p \<noteq> i) (rm_progress m)"
      "rm_id_2_idx m1 = filter (\<lambda>p. fst p \<noteq> run) (rm_id_2_idx m)"
    using m1(1) by (auto simp: delete_run_data_def dict_del_def result_simps split: if_splits)
  have "map_of (rm_id_2_idx m) run = Some i" using i by (auto simp: dict_get_def split: option.splits)
  then show ?case using Cons.IH[OF m1(2)] unfolding f by (auto simp: map_of_filter_key)
qed simp

lemma adopt_runs_frame:
  "adopt_runs tlora ckpt_steps pick file_of runs m = Ok m' \<Longrightarrow> rm_ready_to_update m' = rm_ready_to_update m \<and>
   (j \<notin> rm_unused_idxs m \<longrightarrow> map_of (rm_progress m') j = map_of (rm_progress m) j)"
proof (induction runs arbitrary: m)
  case (Cons run runs)
  let ?i = "pick (rm_unused_idxs m)"
  show ?case
  proof (cases "rm_unused_idxs m = {} \<or> fst (get_orchestrator_config tlora (file_of run) None) = None")
    case True
    then have "adopt_runs tlora ckpt_steps pick file_of runs m = Ok m'" using Cons.prems by (auto simp: Let_def split: if_splits)
    then show ?thesis by (rule Cons.IH)
  next
    case False
    then obtain config m1 m2 where m: "create_run_data ckpt_steps run ?i config m = Ok m1"
        "(if tlora = None then Ok m1 else on_run_discovered ?i config m1) = Ok m2" "adopt_runs tlora ckpt_steps pick file_of runs m2 = Ok m'"
      using Cons.prems by (auto simp: Let_def result_simps)
    have c: "?i \<in> rm_unused_idxs m" "rm_unused_idxs m1 = rm_unused_idxs m - {?i}" "rm_ready_to_update m1 = rm_ready_to_update m"
        "rm_progress m1 = dict_set ?i (resume_progress config (ckpt_steps run)) (rm_progress m)"
      using m(1) by (auto simp: create_run_data_def result_simps)
    have "\<exists>x. m2 = m1\<lparr> rm_scaling_factors := x \<rparr>"
    proof (cases tlora)
      case None
      then show ?thesis using m(2) by (intro exI[of _ "rm_scaling_factors m1"]) simp
    next
      case (Some t)
      then show ?thesis using m(2) by (auto simp: on_run_discovered_def result_simps split: option.splits)
    qed
    then have f: "rm_unused_idxs m2 = rm_unused_idxs m1" "rm_ready_to_update m2 = rm_ready_to_update m1" "rm_progress m2 = rm_progress m1"
      by auto
    have "j \<noteq> ?i" if "j \<notin> rm_unused_idxs m" using that c(1) by blast
    then show ?thesis using Cons.IH[OF m(3)] unfolding f c(2-4) by (auto simp: map_of_dict_set)
  qed
qed simp

lemma discover_runs_frame:
  assumes ok: "registry_ok m" and run: "discover_runs tlora ckpt_steps pick file_of evicted found m = Ok m'"
  shows "rm_ready_to_update m' = rm_ready_to_update m"
    and "(r, j) \<in> set (rm_id_2_idx m) \<Longrightarrow> r \<notin> set (forgotten_runs evicted found m) \<Longrightarrow>
      map_of (rm_progress m') j = map_of (rm_progress m) j"
proof -
  let ?gone = "forgotten_runs evicted found m"
  obtain m1 where m1: "forget_runs ?gone m = Ok m1"
      "adopt_runs tlora ckpt_steps pick file_of
         (filter (\<lambda>r. r \<notin> set (keys (rm_id_2_idx m))) (filter (\<lambda>r. \<not> evicted r) found)) m1 = Ok m'"
    using run by (auto simp: discover_runs_def Let_def result_simps)
  show "rm_ready_to_update m' = rm_ready_to_update m"
    using forget_runs_frame[OF m1(1)] adopt_runs_frame[OF m1(2)] by simp
  have gone: "distinct ?gone" "set ?gone \<subseteq> set (keys (rm_id_2_idx m))"
    using ok by (auto simp: forgotten_runs_def registry_ok_def)
  have m1ok: "registry_ok m1" "rm_id_2_idx m1 = filter (\<lambda>p. fst p \<notin> set ?gone) (rm_id_2_idx m)"
    using forget_runs_ok[OF ok gone] m1(1) by auto
  assume rj: "(r, j) \<in> set (rm_id_2_idx m)" "r \<notin> set ?gone"
  have "map_of (rm_id_2_idx m) run \<noteq> Some j" if "run \<in> set ?gone" for run
    using registry_pairs(2)[OF ok, of run j r] rj that map_of_SomeD by fastforce
  then have "map_of (rm_progress m1) j = map_of (rm_progress m) j" using forget_runs_frame[OF m1(1)] by blast
  moreover have "(r, j) \<in> set (rm_id_2_idx m1)" using rj unfolding m1ok(2) by simp
  then have "j \<notin> rm_unused_idxs m1" using registry_pairs(4)[OF m1ok(1)] m1ok(1) unfolding registry_ok_def by blast
  ultimately show "map_of (rm_progress m') j = map_of (rm_progress m) j" using adopt_runs_frame[OF m1(2)] by simp
qed

section \<open>Followers agree with the master\<close>

lemma delete_scaling:
  "delete_run_data run i m = Ok m' \<Longrightarrow> rm_scaling_factors m' = (rm_scaling_factors m)[i := 1000000]"
  by (auto simp: delete_run_data_def result_simps)

lemma registry_index_bound:
  "registry_ok m \<Longrightarrow> (r, i) \<in> set (rm_id_2_idx m) \<Longrightarrow> i < rm_max_runs m"
  using registry_pairs(4)[of m r i] unfolding registry_ok_def by fastforce

lemma forget_runs_scaling:
  "registry_ok m \<Longrightarrow> distinct runs \<Longrightarrow> set runs \<subseteq> set (keys (rm_id_2_idx m)) \<Longrightarrow> forget_runs runs m = Ok m' \<Longrightarrow>
   j < length (rm_scaling_factors m) \<Longrightarrow> length (rm_scaling_factors m') = length (rm_scaling_factors m) \<and>
   rm_scaling_factors m' ! j = (if \<exists>r\<in>set runs. (r, j) \<in> set (rm_id_2_idx m) then 1000000 else rm_scaling_factors m ! j)"
proof (induction runs arbitrary: m)
  case (Cons run runs)
  have "run \<in> set (keys (rm_id_2_idx m))" using Cons.prems(3) by simp
  then obtain i where i: "(run, i) \<in> set (rm_id_2_idx m)" unfolding mem_keys ..
  have g: "dict_get run (rm_id_2_idx m) = Ok i" using Cons.prems(1) i by (simp add: dict_get_mem registry_ok_def)
  obtain m1 where m1: "delete_run_data run i m = Ok m1" "registry_ok m1"
      "rm_id_2_idx m1 = filter (\<lambda>p. fst p \<noteq> run) (rm_id_2_idx m)"
    using delete_ok[OF Cons.prems(1) i] by blast
  note sc = delete_scaling[OF m1(1)]
  have sub: "set runs \<subseteq> set (keys (rm_id_2_idx m1))" unfolding m1(3) set_keys_filter using Cons.prems(2,3) by auto
  have rest: "forget_runs runs m1 = Ok m'" using Cons.prems(4) g m1(1) by simp
  have IH: "length (rm_scaling_factors m') = length (rm_scaling_factors m) \<and>
      rm_scaling_factors m' ! j = (if \<exists>r\<in>set runs. (r, j) \<in> set (rm_id_2_idx m1) then 1000000 else rm_scaling_factors m1 ! j)"
    using Cons.IH[OF m1(2) _ sub rest] Cons.prems(2,5) sc by simp
  have "(\<exists>r\<in>set runs. (r, j) \<in> set (rm_id_2_idx m1)) \<longleftrightarrow> (\<exists>r\<in>set runs. (r, j) \<in> set (rm_id_2_idx m))"
    using Cons.prems(2) by (auto simp: m1(3))
  moreover have "(run, j) \<in> set (rm_id_2_idx m) \<longleftrightarrow> j = i" using i registry_pairs(3)[OF Cons.prems(1)] by blast
  ultimately show ?case using IH sc Cons.prems(5) by (auto simp: nth_list_update)
qed auto

lemma catch_up_ok:
  assumes okm: "registry_ok m"
  shows "registry_ok f \<Longrightarrow> rm_max_runs f = rm_max_runs m \<Longrightarrow> set (rm_id_2_idx f) \<subseteq> set (rm_id_2_idx m) \<Longrightarrow>
    distinct runs \<Longrightarrow> set runs \<subseteq> set (keys (rm_id_2_idx m)) \<Longrightarrow> set runs \<inter> set (keys (rm_id_2_idx f)) = {} \<Longrightarrow>
    set runs \<subseteq> set (keys configs) \<Longrightarrow>
    \<exists>f'. catch_up ckpt_steps (rm_id_2_idx m) configs runs f = Ok f' \<and> registry_ok f' \<and> rm_max_runs f' = rm_max_runs m \<and>
      set (rm_id_2_idx f') = set (rm_id_2_idx f) \<union> {p \<in> set (rm_id_2_idx m). fst p \<in> set runs} \<and>
      rm_ready_to_update f' = rm_ready_to_update f \<and> rm_scaling_factors f' = rm_scaling_factors f"
proof (induction runs arbitrary: f)
  case (Cons run runs)
  have "run \<in> set (keys (rm_id_2_idx m))" "run \<in> set (keys configs)" using Cons.prems(5,7) by simp_all
  then obtain i where i: "(run, i) \<in> set (rm_id_2_idx m)" by (auto simp: mem_keys)
  have g: "dict_get run (rm_id_2_idx m) = Ok i" using okm i by (simp add: dict_get_mem registry_ok_def)
  obtain c where c: "dict_get run configs = Ok c"
    using \<open>run \<in> set (keys configs)\<close> by (cases "map_of configs run") (auto simp: dict_get_def map_of_eq_None_iff)
  have fresh: "run \<notin> set (keys (rm_id_2_idx f))" using Cons.prems(6) by auto
  have "i \<notin> set (keys (rm_idx_2_id f))"
  proof
    assume "i \<in> set (keys (rm_idx_2_id f))"
    then obtain r where "(r, i) \<in> set (rm_id_2_idx f)" using registry_pairs(1)[OF Cons.prems(1)] unfolding mem_keys by blast
    then have "r = run" "(r, i) \<in> set (rm_id_2_idx f)" using registry_pairs(2)[OF okm _ i] Cons.prems(3) by auto
    then show False using fresh unfolding mem_keys by blast
  qed
  then have "i \<in> rm_unused_idxs f"
    using registry_index_bound[OF okm i] Cons.prems(1,2) unfolding registry_ok_def by simp
  then obtain f1 where f1: "create_run_data ckpt_steps run i c f = Ok f1" "registry_ok f1"
      "rm_id_2_idx f1 = rm_id_2_idx f @ [(run, i)]" "rm_max_runs f1 = rm_max_runs f"
      "rm_ready_to_update f1 = rm_ready_to_update f" "rm_scaling_factors f1 = rm_scaling_factors f"
    using create_ok[OF Cons.prems(1) _ fresh] by blast
  have pre: "rm_max_runs f1 = rm_max_runs m" "set (rm_id_2_idx f1) \<subseteq> set (rm_id_2_idx m)" "distinct runs"
      "set runs \<subseteq> set (keys (rm_id_2_idx m))" "set runs \<inter> set (keys (rm_id_2_idx f1)) = {}" "set runs \<subseteq> set (keys configs)"
    using f1 i Cons.prems by auto
  obtain f2 where f2: "catch_up ckpt_steps (rm_id_2_idx m) configs runs f1 = Ok f2" "registry_ok f2" "rm_max_runs f2 = rm_max_runs m"
      "set (rm_id_2_idx f2) = set (rm_id_2_idx f1) \<union> {p \<in> set (rm_id_2_idx m). fst p \<in> set runs}"
      "rm_ready_to_update f2 = rm_ready_to_update f1" "rm_scaling_factors f2 = rm_scaling_factors f1"
    using Cons.IH[OF f1(2) pre] by blast
  have "{p \<in> set (rm_id_2_idx m). fst p \<in> set (run # runs)} = insert (run, i) {p \<in> set (rm_id_2_idx m). fst p \<in> set runs}"
    using i registry_pairs(3)[OF okm] by auto
  then show ?case using g c f1 f2 by auto
qed auto


lemma dict_get_the: "k \<in> set (keys d) \<Longrightarrow> dict_get k d = Ok (the (map_of d k))"
  by (cases "map_of d k") (auto simp: dict_get_def map_of_eq_None_iff)

lemma hooks_traverse:
  "set runs \<subseteq> set (keys d) \<Longrightarrow>
   traverse (\<lambda>run. bindE (dict_get run d) (\<lambda>i. Ok (h i run))) runs = Ok (map (\<lambda>run. h (the (map_of d run)) run) runs)"
  by (induction runs) (auto simp: dict_get_the simp del: set_map)

lemma map_of_same_set:
  "set d = set d' \<Longrightarrow> distinct (keys d) \<Longrightarrow> distinct (keys d') \<Longrightarrow> map_of d = map_of d'"
  by (metis map_of_inject_set)

lemma set_fresh_runs: "set (fresh_runs new old) = set (keys new) - set (keys old)"
  by (auto simp: fresh_runs_def)

lemma distinct_fresh_runs: "distinct (keys new) \<Longrightarrow> distinct (fresh_runs new old)"
  by (simp add: fresh_runs_def)

lemma master_sync_data_ok:
  assumes ok: "registry_ok m"
  shows "\<exists>configs. master_sync_data m = Ok \<lparr> sd_id_2_idx = rm_id_2_idx m, sd_ready_to_update = rm_ready_to_update m,
            sd_scaling_factors = rm_scaling_factors m, sd_new_configs = configs, sd_progress = rm_progress m \<rparr> \<and>
     set (keys configs) = set (fresh_runs (rm_id_2_idx m) (rm_last_synced m))"
proof -
  let ?f = "\<lambda>run. bindE (dict_get run (rm_id_2_idx m)) (\<lambda>i. bindE (dict_get i (rm_config m)) (\<lambda>c. Ok (run, c)))"
  have step: "?f run = Ok (run, the (map_of (rm_config m) (the (map_of (rm_id_2_idx m) run))))" if "run \<in> set (keys (rm_id_2_idx m))" for run
  proof -
    obtain i where i: "(run, i) \<in> set (rm_id_2_idx m)" using \<open>run \<in> _\<close> by (auto simp: mem_keys)
    have "i \<in> set (keys (rm_config m))" using registry_pairs(4)[OF ok i] ok unfolding registry_ok_def by simp
    moreover have "dict_get run (rm_id_2_idx m) = Ok i" using ok i by (simp add: dict_get_mem registry_ok_def)
    ultimately show ?thesis using that by (simp add: dict_get_the del: set_map)
  qed
  have tr: "traverse ?f runs = Ok (map (\<lambda>run. (run, the (map_of (rm_config m) (the (map_of (rm_id_2_idx m) run))))) runs)"
    if "set runs \<subseteq> set (keys (rm_id_2_idx m))" for runs
    using that by (induction runs) (simp_all add: step)
  have "set (fresh_runs (rm_id_2_idx m) (rm_last_synced m)) \<subseteq> set (keys (rm_id_2_idx m))" by (simp add: set_fresh_runs)
  from tr[OF this] show ?thesis by (simp add: master_sync_data_def o_def del: set_map)
qed


text \<open>The ranks before a synchronisation: the follower holds what the master last published, and no run moved since.\<close>

definition ranks_in_step :: "MultiRunManager \<Rightarrow> MultiRunManager \<Rightarrow> bool" where
  "ranks_in_step m f \<longleftrightarrow>
     registry_ok m \<and> registry_ok f \<and> rm_max_runs f = rm_max_runs m \<and> length (rm_scaling_factors m) = rm_max_runs m \<and>
     distinct (keys (rm_last_synced m)) \<and> set (rm_last_synced m) = set (rm_id_2_idx f) \<and>
     list_all (\<lambda>(r, i). case map_of (rm_id_2_idx m) r of None \<Rightarrow> True | Some j \<Rightarrow> j = i) (rm_last_synced m)"

lemma ranks_in_step_kept:
  assumes "ranks_in_step m f" "(r, i) \<in> set (rm_id_2_idx f)" "r \<in> set (keys (rm_id_2_idx m))"
  shows "(r, i) \<in> set (rm_id_2_idx m)"
proof -
  obtain j where j: "map_of (rm_id_2_idx m) r = Some j" using assms(3) by (cases "map_of (rm_id_2_idx m) r") (auto simp: map_of_eq_None_iff)
  then have "j = i" using assms(1,2) unfolding ranks_in_step_def list_all_iff by fastforce
  then show ?thesis using j map_of_SomeD by fastforce
qed

lemma registry_ok_fields [simp]:
  "registry_ok (m\<lparr> rm_ready_to_update := x \<rparr>) = registry_ok m"
  "registry_ok (m\<lparr> rm_last_synced := z \<rparr>) = registry_ok m"
  by (simp_all add: registry_ok_def)

lemma registry_ok_progress:
  "registry_ok f \<Longrightarrow> set (keys pr) = set (keys (rm_idx_2_id f)) \<Longrightarrow> distinct (keys pr) \<Longrightarrow> registry_ok (f\<lparr> rm_progress := pr \<rparr>)"
  unfolding registry_ok_def by (simp del: set_map)

lemma same_registry:
  assumes "registry_ok m" "registry_ok f" "rm_max_runs f = rm_max_runs m" "set (rm_id_2_idx f) = set (rm_id_2_idx m)"
  shows "set (rm_idx_2_id f) = set (rm_idx_2_id m)" "rm_unused_idxs f = rm_unused_idxs m"
    "set (keys (rm_progress m)) = set (keys (rm_idx_2_id f))"
proof -
  show eq: "set (rm_idx_2_id f) = set (rm_idx_2_id m)" using assms unfolding registry_ok_def by metis
  then have k: "set (keys (rm_idx_2_id f)) = set (keys (rm_idx_2_id m))" by simp
  show "rm_unused_idxs f = rm_unused_idxs m" using assms(1-3) k unfolding registry_ok_def by metis
  show "set (keys (rm_progress m)) = set (keys (rm_idx_2_id f))" using assms(1) k unfolding registry_ok_def by metis
qed

lemma master_synchronize_ok:
  "master_synchronize m = Ok
     (map (\<lambda>r. DeletionHook (the (map_of (rm_last_synced m) r)) r) (fresh_runs (rm_last_synced m) (rm_id_2_idx m)) @
      map (\<lambda>r. CreationHook (the (map_of (rm_id_2_idx m) r)) r) (fresh_runs (rm_id_2_idx m) (rm_last_synced m)),
      m\<lparr> rm_last_synced := rm_id_2_idx m \<rparr>)"
  by (simp add: master_synchronize_def hooks_traverse set_fresh_runs del: set_map)

lemma follower_synchronize_ok:
  assumes step: "ranks_in_step m f" and data: "master_sync_data m = Ok data"
  defines "deleted \<equiv> fresh_runs (rm_id_2_idx f) (rm_id_2_idx m)" and "created \<equiv> fresh_runs (rm_id_2_idx m) (rm_id_2_idx f)"
  shows "\<exists>f'. follower_synchronize ckpt_steps data f = Ok
      (map (\<lambda>r. DeletionHook (the (map_of (rm_id_2_idx f) r)) r) deleted @ map (\<lambda>r. CreationHook (the (map_of (rm_id_2_idx m) r)) r) created, f') \<and>
     registry_ok f' \<and> rm_max_runs f' = rm_max_runs m \<and> set (rm_id_2_idx f') = set (rm_id_2_idx m) \<and>
     rm_progress f' = rm_progress m \<and> rm_ready_to_update f' = rm_ready_to_update m \<and>
     (\<forall>j < rm_max_runs m. rm_scaling_factors f' ! j =
        (if \<exists>r\<in>set deleted. (r, j) \<in> set (rm_id_2_idx f) then 1000000 else rm_scaling_factors m ! j))"
proof -
  have okm: "registry_ok m" and okf: "registry_ok f" and mx: "rm_max_runs f = rm_max_runs m"
    and len: "length (rm_scaling_factors m) = rm_max_runs m" and sync: "set (rm_last_synced m) = set (rm_id_2_idx f)"
    using step by (simp_all add: ranks_in_step_def)
  have dm: "distinct (keys (rm_id_2_idx m))" and df: "distinct (keys (rm_id_2_idx f))" using okm okf by (simp_all add: registry_ok_def)
  obtain configs where d: "data = \<lparr> sd_id_2_idx = rm_id_2_idx m, sd_ready_to_update = rm_ready_to_update m,
            sd_scaling_factors = rm_scaling_factors m, sd_new_configs = configs, sd_progress = rm_progress m \<rparr>"
      "set (keys configs) = set (fresh_runs (rm_id_2_idx m) (rm_last_synced m))"
    using master_sync_data_ok[OF okm] data by auto
  have cs: "set (keys configs) = set created" using d(2) sync by (simp add: created_def set_fresh_runs)
  define g where "g = f\<lparr> rm_ready_to_update := rm_ready_to_update m, rm_scaling_factors := rm_scaling_factors m \<rparr>"
  have okg: "registry_ok g" and gid: "rm_id_2_idx g = rm_id_2_idx f" and gs: "rm_scaling_factors g = rm_scaling_factors m"
    and gr: "rm_ready_to_update g = rm_ready_to_update m" and gm: "rm_max_runs g = rm_max_runs m"
    using okf mx by (simp_all add: g_def)
  have dd: "distinct deleted" "set deleted \<subseteq> set (keys (rm_id_2_idx g))"
    using df by (simp_all add: deleted_def distinct_fresh_runs set_fresh_runs gid del: set_map)
  obtain f1 where f1: "forget_runs deleted g = Ok f1" "registry_ok f1" "rm_id_2_idx f1 = filter (\<lambda>p. fst p \<notin> set deleted) (rm_id_2_idx g)"
      "rm_max_runs f1 = rm_max_runs g" "rm_ready_to_update f1 = rm_ready_to_update g"
    using forget_runs_ok[OF okg dd] by blast
  have kept: "set (rm_id_2_idx f1) = {p \<in> set (rm_id_2_idx f). fst p \<in> set (keys (rm_id_2_idx m))}"
    unfolding f1(3) deleted_def set_fresh_runs gid set_filter by (auto simp: mem_keys simp del: set_map)
  have sub: "set (rm_id_2_idx f1) \<subseteq> set (rm_id_2_idx m)"
    using ranks_in_step_kept[OF step] unfolding kept by (auto simp del: set_map)
  have pre: "distinct created" "set created \<subseteq> set (keys (rm_id_2_idx m))" "set created \<inter> set (keys (rm_id_2_idx f1)) = {}"
    using dm kept by (auto simp: created_def set_fresh_runs distinct_fresh_runs)
  obtain f2 where f2: "catch_up ckpt_steps (rm_id_2_idx m) configs created f1 = Ok f2" "registry_ok f2" "rm_max_runs f2 = rm_max_runs m"
      "set (rm_id_2_idx f2) = set (rm_id_2_idx f1) \<union> {p \<in> set (rm_id_2_idx m). fst p \<in> set created}"
      "rm_ready_to_update f2 = rm_ready_to_update f1" "rm_scaling_factors f2 = rm_scaling_factors f1"
    using catch_up_ok[OF okm f1(2) _ sub pre, of configs ckpt_steps] f1(4) gm cs by auto
  have ids: "set (rm_id_2_idx f2) = set (rm_id_2_idx m)"
  proof
    show "set (rm_id_2_idx f2) \<subseteq> set (rm_id_2_idx m)" using sub unfolding f2(4) by blast
    show "set (rm_id_2_idx m) \<subseteq> set (rm_id_2_idx f2)"
    proof
      fix p assume p: "p \<in> set (rm_id_2_idx m)"
      show "p \<in> set (rm_id_2_idx f2)"
      proof (cases "fst p \<in> set (keys (rm_id_2_idx f))")
        case True
        then obtain i where i: "(fst p, i) \<in> set (rm_id_2_idx f)" by (auto simp: mem_keys)
        have "(fst p, i) \<in> set (rm_id_2_idx m)" using ranks_in_step_kept[OF step i] p by simp
        then have "p = (fst p, i)" using registry_pairs(3)[OF okm, of "fst p" i "snd p"] p by (simp add: prod_eq_iff)
        then have "p \<in> set (rm_id_2_idx f1)" using i p unfolding kept by auto
        then show ?thesis unfolding f2(4) by blast
      next
        case False
        then show ?thesis using p unfolding f2(4) created_def set_fresh_runs by auto
      qed
    qed
  qed
  have mo: "map_of (rm_id_2_idx f2) = map_of (rm_id_2_idx m)"
    using map_of_same_set[OF ids _ dm] f2(2) by (simp add: registry_ok_def)
  let ?f = "f2\<lparr> rm_progress := rm_progress m \<rparr>"
  have "distinct (keys (rm_progress m))" using okm by (simp add: registry_ok_def)
  then have okf': "registry_ok ?f" by (rule registry_ok_progress[OF f2(2) same_registry(3)[OF okm f2(2,3) ids]])
  have run: "follower_synchronize ckpt_steps data f = Ok
      (map (\<lambda>r. DeletionHook (the (map_of (rm_id_2_idx f) r)) r) deleted @ map (\<lambda>r. CreationHook (the (map_of (rm_id_2_idx m) r)) r) created, ?f)"
    using f1(1) f2(1) ids pre(2) dd(2)
    by (simp add: follower_synchronize_def Let_def d(1) deleted_def[symmetric] created_def[symmetric] g_def[symmetric] gid hooks_traverse mo del: set_map)
       (simp add: hooks_traverse mo)
  have "\<forall>j < rm_max_runs m. rm_scaling_factors ?f ! j =
        (if \<exists>r\<in>set deleted. (r, j) \<in> set (rm_id_2_idx f) then 1000000 else rm_scaling_factors m ! j)"
    using forget_runs_scaling[OF okg dd f1(1)] len f2(6) by (simp add: gs gid)
  then show ?thesis using run okf' ids f2(3,5) f1(5) gr by auto
qed


text \<open>
  C35: After one \<open>synchronize_state\<close> a follower rank holds the master's registry. If the follower stood at the master's last
  published state and no run changed its index since, neither rank raises, both ranks run the same deletion and
  creation hooks on the same indices, and afterwards they agree on the run/index mappings, the free indices,
  the progress, the ready flags and, for the next round, on what was last published. The follower's
  LoRA scaling factors equal the master's except at the indices of deleted runs, where they are the reset value.
\<close>

theorem synchronize_state_agrees:
  assumes "ranks_in_step m f"
  shows "\<exists>data hm m' hf f'. master_sync_data m = Ok data \<and> master_synchronize m = Ok (hm, m') \<and>
     follower_synchronize ckpt_steps data f = Ok (hf, f') \<and> set hf = set hm \<and> registry_ok f' \<and>
     set (rm_id_2_idx f') = set (rm_id_2_idx m') \<and> set (rm_idx_2_id f') = set (rm_idx_2_id m') \<and>
     rm_unused_idxs f' = rm_unused_idxs m' \<and> rm_progress f' = rm_progress m' \<and>
     rm_ready_to_update f' = rm_ready_to_update m' \<and> rm_last_synced m' = rm_id_2_idx m' \<and> ranks_in_step m' f' \<and>
     list_all (\<lambda>j. rm_scaling_factors f' ! j =
        (if \<exists>r\<in>set (keys (rm_id_2_idx f)). DeletionHook j r \<in> set hf then 1000000 else rm_scaling_factors m' ! j)) [0..<rm_max_runs m]"
proof -
  have okm: "registry_ok m" and okf: "registry_ok f" and dl: "distinct (keys (rm_last_synced m))"
    and sync: "set (rm_last_synced m) = set (rm_id_2_idx f)" and len: "length (rm_scaling_factors m) = rm_max_runs m"
    using assms by (simp_all add: ranks_in_step_def)
  obtain data where data: "master_sync_data m = Ok data" using master_sync_data_ok[OF okm] by blast
  let ?del = "fresh_runs (rm_id_2_idx f) (rm_id_2_idx m)" and ?cre = "fresh_runs (rm_id_2_idx m) (rm_id_2_idx f)"
  define hf where "hf = map (\<lambda>r. DeletionHook (the (map_of (rm_id_2_idx f) r)) r) ?del @ map (\<lambda>r. CreationHook (the (map_of (rm_id_2_idx m) r)) r) ?cre"
  obtain f' where f': "follower_synchronize ckpt_steps data f = Ok (hf, f')" "registry_ok f'" "rm_max_runs f' = rm_max_runs m"
      "set (rm_id_2_idx f') = set (rm_id_2_idx m)" "rm_progress f' = rm_progress m" "rm_ready_to_update f' = rm_ready_to_update m"
      "\<forall>j < rm_max_runs m. rm_scaling_factors f' ! j =
        (if \<exists>r\<in>set ?del. (r, j) \<in> set (rm_id_2_idx f) then 1000000 else rm_scaling_factors m ! j)"
    using follower_synchronize_ok[OF assms data] unfolding hf_def by blast
  let ?m = "m\<lparr> rm_last_synced := rm_id_2_idx m \<rparr>"
  define hm where "hm = map (\<lambda>r. DeletionHook (the (map_of (rm_last_synced m) r)) r) (fresh_runs (rm_last_synced m) (rm_id_2_idx m)) @
      map (\<lambda>r. CreationHook (the (map_of (rm_id_2_idx m) r)) r) (fresh_runs (rm_id_2_idx m) (rm_last_synced m))"
  have df: "distinct (keys (rm_id_2_idx f))" and dm: "distinct (keys (rm_id_2_idx m))"
    using okf okm by (simp_all add: registry_ok_def)
  have mo: "map_of (rm_last_synced m) = map_of (rm_id_2_idx f)" by (rule map_of_same_set[OF sync dl df])
  have hooks: "set hf = set hm" by (simp add: hf_def hm_def mo set_fresh_runs sync)
  have del: "(\<exists>r\<in>set (keys (rm_id_2_idx f)). DeletionHook j r \<in> set hf) \<longleftrightarrow> (\<exists>r\<in>set ?del. (r, j) \<in> set (rm_id_2_idx f))" for j
  proof -
    have "DeletionHook j r \<in> set hf \<longleftrightarrow> r \<in> set ?del \<and> (r, j) \<in> set (rm_id_2_idx f)" for r
      using df by (auto simp: hf_def set_fresh_runs image_iff dest: eq_key_imp_eq_value)
    then show ?thesis by (auto simp: set_fresh_runs)
  qed
  have "ranks_in_step ?m f'"
    using okm f'(2-4) len dm by (auto simp: ranks_in_step_def list_all_iff)
  moreover have "list_all (\<lambda>j. rm_scaling_factors f' ! j =
      (if \<exists>r\<in>set (keys (rm_id_2_idx f)). DeletionHook j r \<in> set hf then 1000000 else rm_scaling_factors ?m ! j)) [0..<rm_max_runs m]"
    unfolding del list_all_iff using f'(7) by simp
  moreover have "master_synchronize m = Ok (hm, ?m)" using master_synchronize_ok[of m] by (simp add: hm_def)
  ultimately show ?thesis
    using data f'(1-6) hooks same_registry[OF okm f'(2-4)]
    by (intro exI[of _ data] exI[of _ hm] exI[of _ ?m] exI[of _ hf] exI[of _ f'] conjI) (assumption | simp)+
qed

text \<open>Two ranks with one adapter slot: run a ended, run b took its slot; and both ran, then were re-created.\<close>

definition lora_config :: RunConfig where
  "lora_config = \<lparr> rc_resume_step = None, rc_lora = Some \<lparr> lc_rank = Some 16, lc_alpha = Some 32 \<rparr> \<rparr>"

definition rank_with :: "nat \<Rightarrow> (string \<times> nat) list \<Rightarrow> (string \<times> nat) list \<Rightarrow> MultiRunManager" where
  "rank_with n ids synced =
     \<lparr> rm_max_runs = n, rm_idx_2_id = map (\<lambda>(r, i). (i, r)) ids, rm_id_2_idx = ids,
       rm_unused_idxs = {0..<n} - snd ` set ids, rm_progress = map (\<lambda>(r, i). (i, Progress_init)) ids,
       rm_config = map (\<lambda>(r, i). (i, lora_config)) ids, rm_ready_to_update = replicate n False,
       rm_scaling_factors = replicate n 2, rm_last_synced = synced \<rparr>"

theorem synchronize_state_agrees_witness:
  "\<exists>data hm m' hf f'. master_sync_data (rank_with 2 [(''b'', 0)] [(''a'', 0)]) = Ok data \<and>
     master_synchronize (rank_with 2 [(''b'', 0)] [(''a'', 0)]) = Ok (hm, m') \<and>
     follower_synchronize (\<lambda>_. []) data (rank_with 2 [(''a'', 0)] []) = Ok (hf, f') \<and> ranks_in_step m' f'"
proof -
  have "ranks_in_step (rank_with 2 [(''b'', 0)] [(''a'', 0)]) (rank_with 2 [(''a'', 0)] [])"
    by (simp add: ranks_in_step_def registry_ok_def rank_with_def)
  from synchronize_state_agrees[OF this, of "\<lambda>_. []"] show ?thesis by blast
qed

text \<open>
  C36: An adapter index that passes from a deleted run to a new one between two synchronisations keeps the reset scaling
  factor on the followers: they copy the master's factors first and reset the deleted index afterwards, and only the
  master's discovery hook computes the factor of the new run. So for every run the master dropped whose index it gave
  to a new run, the follower applies 1000000 to the new run's adapter until the next synchronisation,
  whatever the master computed.
\<close>

theorem reused_index_keeps_reset_scaling:
  assumes "ranks_in_step m f" and "(old, i) \<in> set (rm_id_2_idx f)" and "old \<notin> set (keys (rm_id_2_idx m))"
    and "(new, i) \<in> set (rm_id_2_idx m)" and "master_sync_data m = Ok data" and "follower_synchronize ckpt_steps data f = Ok (hf, f')"
  shows "(new, i) \<in> set (rm_id_2_idx f') \<and> rm_scaling_factors f' ! i = 1000000"
proof -
  have "i < rm_max_runs m" using assms(1,4) by (auto simp: ranks_in_step_def intro: registry_index_bound)
  moreover have "old \<in> set (fresh_runs (rm_id_2_idx f) (rm_id_2_idx m))"
    using assms(2,3) unfolding set_fresh_runs by force
  ultimately show ?thesis
    using follower_synchronize_ok[OF assms(1,5), of ckpt_steps] assms(2,4,6) by auto
qed

theorem reused_index_keeps_reset_scaling_witness:
  "\<exists>data hf f'. master_sync_data (rank_with 1 [(''b'', 0)] [(''a'', 0)]) = Ok data \<and>
     follower_synchronize (\<lambda>_. []) data (rank_with 1 [(''a'', 0)] []) = Ok (hf, f') \<and>
     rm_scaling_factors (rank_with 1 [(''b'', 0)] [(''a'', 0)]) ! 0 = 2 \<and> rm_scaling_factors f' ! 0 = 1000000"
proof -
  let ?m = "rank_with 1 [(''b'', 0)] [(''a'', 0)]" and ?f = "rank_with 1 [(''a'', 0)] []"
  have step: "ranks_in_step ?m ?f" by (simp add: ranks_in_step_def registry_ok_def rank_with_def)
  have "registry_ok ?m" using step by (simp add: ranks_in_step_def)
  then obtain data where data: "master_sync_data ?m = Ok data" using master_sync_data_ok by blast
  obtain hf f' where f': "follower_synchronize (\<lambda>_. []) data ?f = Ok (hf, f')" using follower_synchronize_ok[OF step data] by blast
  have "rm_scaling_factors f' ! 0 = 1000000"
    using reused_index_keeps_reset_scaling[OF step _ _ _ data f', of "''a''" 0 "''b''"] by (simp add: rank_with_def)
  then show ?thesis using data f' by (simp add: rank_with_def)
qed

text \<open>
  A run that ends and is re-created under its old id between two synchronisations can stop a follower: with runs compared by id
  only, the follower keeps the old index of \<open>a\<close>, and taking index 0 for \<open>b\<close> raises.
\<close>

lemma recreated_run_stops_follower:
  "bindE (discover_runs None (\<lambda>_. []) Min (\<lambda>_. Some (Inr lora_config)) (\<lambda>_. False) [] (rank_with 2 [(''a'', 0)] [(''a'', 0)])) (\<lambda>m1.
   bindE (discover_runs None (\<lambda>_. []) Min (\<lambda>_. Some (Inr lora_config)) (\<lambda>_. False) [''b'', ''a''] m1) (\<lambda>m2.
   bindE (master_sync_data m2) (\<lambda>data.
     Ok (follower_synchronize (\<lambda>_. []) data (rank_with 2 [(''a'', 0)] []))))) = Ok (Raise KeyError)"
proof -
  let ?disc = "discover_runs None (\<lambda>_. []) Min (\<lambda>_. Some (Inr lora_config)) (\<lambda>_. False)"
  define m1 where "m1 = (rank_with 2 [] [(''a'', 0)])\<lparr> rm_scaling_factors := [1000000, 2] \<rparr>"
  define m2 where "m2 = (rank_with 2 [(''b'', 0), (''a'', 1)] [(''a'', 0)])\<lparr> rm_scaling_factors := [1000000, 2] \<rparr>"
  have two: "{0..<2} = {0, Suc 0}" and rep2: "replicate 2 x = [x, x]" for x :: real by (auto simp: numeral_2_eq_2)
  have d1: "?disc [] (rank_with 2 [(''a'', 0)] [(''a'', 0)]) = Ok m1"
    by (simp add: discover_runs_def forgotten_runs_def rank_with_def m1_def delete_run_data_def dict_get_def dict_del_def two rep2)
  have d2: "?disc [''b'', ''a''] m1 = Ok m2"
    by (simp add: discover_runs_def forgotten_runs_def rank_with_def m1_def m2_def get_orchestrator_config_def create_run_data_def resume_progress_def
        lora_config_def Progress_init_def two)
  have "\<exists>data. master_sync_data m2 = Ok data \<and> follower_synchronize (\<lambda>_. []) data (rank_with 2 [(''a'', 0)] []) = Raise KeyError"
    by (simp add: master_sync_data_def follower_synchronize_def m2_def rank_with_def fresh_runs_def dict_get_def create_run_data_def Let_def two)
  then show ?thesis using d1 d2 by auto
qed

end
