(* ===== verification/RL_Packer.thy ===== *)
theory RL_Packer
  imports RL_Batch RL_Runs
begin

text \<open>
  \<^verbatim>\<open>trainer/rl/packer.py\<close>: the multi-run packer. Per-run buffers of samples with their run step; a step takes samples
  round-robin within a token budget, advances the progress of the runs it drained, and prepares the
  microbatches of each run separately. What the file system shows at a scan (\<open>Disk\<close>), the batches the
  receiver returns and the elapsed timeout of each poll are inputs; \<open>pick\<close> is Python's choice of a free index.
\<close>

section \<open>State\<close>

record TrainingBatch =
  tb_examples :: "TrainingExample list"
  tb_step :: int
  tb_run_idx :: "nat option"

record Disk =
  dk_found :: "string list"
  dk_files :: "string \<Rightarrow> (string + RunConfig) option"
  dk_ckpt_steps :: "string \<Rightarrow> int list"

record PackerConfig =
  pc_dp_world_size :: nat
  pc_seq_len :: nat
  pc_pad_to_multiple_of :: nat
  pc_trainer_lora :: "(int \<times> real) option"
  pc_pick :: "nat set \<Rightarrow> nat"
  pc_grid_rows :: "EncodedTensor \<Rightarrow> nat list list"
  pc_itemsize :: "string \<Rightarrow> nat"
  pc_bin_cost :: "nat list \<Rightarrow> int"

type_synonym buffered = "TrainingExample \<times> int"

record MultiPacker =
  pk_runs :: MultiRunManager
  pk_markers :: "string \<rightharpoonup> string"
  pk_receiver_resets :: "nat list"
  pk_buffers :: "buffered list list"
  pk_round_robin_position :: nat

definition MultiPacker_init :: "MultiRunManager \<Rightarrow> MultiPacker" where
  "MultiPacker_init m = \<lparr> pk_runs = m, pk_markers = Map.empty, pk_receiver_resets = [],
     pk_buffers = replicate (rm_max_runs m) [], pk_round_robin_position = 0 \<rparr>"

section \<open>Receiving\<close>

definition on_run_data_deleted :: "nat \<Rightarrow> MultiPacker \<Rightarrow> MultiPacker" where
  "on_run_data_deleted i p =
     p\<lparr> pk_receiver_resets := pk_receiver_resets p @ [i], pk_buffers := (pk_buffers p)[i := []] \<rparr>"

text \<open>\<open>discover_runs\<close> with the packer's forgotten hook.\<close>

definition packer_discover :: "PackerConfig \<Rightarrow> Disk \<Rightarrow> MultiPacker \<Rightarrow> MultiPacker result" where
  "packer_discover c disk p =
     (let m = pk_runs p; evicted = (\<lambda>r. pk_markers p r \<noteq> None) in
      bindE (traverse (\<lambda>r. dict_get r (rm_id_2_idx m)) (forgotten_runs evicted (dk_found disk) m)) (\<lambda>idxs.
      bindE (discover_runs (pc_trainer_lora c) (dk_ckpt_steps disk) (pc_pick c) (dk_files disk) evicted (dk_found disk) m) (\<lambda>m'.
        Ok ((fold on_run_data_deleted idxs p)\<lparr> pk_runs := m' \<rparr>))))"

definition validate_sample :: "nat \<Rightarrow> TrainingExample \<Rightarrow> bool \<times> string option" where
  "validate_sample seq_len s =
     (let n = length (te_token_ids s) in
      if length (te_mask s) \<noteq> n then (False, Some ''mask length'')
      else if length (te_logprobs s) \<noteq> n then (False, Some ''logprobs length'')
      else if length (te_temperatures s) \<noteq> n then (False, Some ''temperatures length'')
      else if n = 0 then (False, Some ''Run wrote a sample with no tokens'')
      else if n > seq_len then (False, Some ''exceeds max sequence length'')
      else if \<not> stream_len n (te_ref_logprobs s) then (False, Some ''ref logprobs length'')
      else (True, None))"

definition packer_evict :: "nat \<Rightarrow> string \<Rightarrow> MultiPacker \<Rightarrow> MultiPacker" where
  "packer_evict i reason p = p\<lparr> pk_markers := evict_run i reason (pk_runs p) (pk_markers p) \<rparr>"

fun buffer_examples :: "nat \<Rightarrow> nat \<Rightarrow> int \<Rightarrow> TrainingExample list \<Rightarrow> MultiPacker \<Rightarrow> MultiPacker result" where
  "buffer_examples seq_len i step [] p = Ok p"
| "buffer_examples seq_len i step (s # ss) p =
     (if \<not> fst (validate_sample seq_len s)
      then Ok (packer_evict i (''Run wrote a sample with invalid data: '' @ the (snd (validate_sample seq_len s))) p)
      else raise_if (i \<ge> length (pk_buffers p)) IndexError
        (buffer_examples seq_len i step ss (p\<lparr> pk_buffers := (pk_buffers p)[i := pk_buffers p ! i @ [(s, step)]] \<rparr>)))"

fun buffer_batches :: "nat \<Rightarrow> TrainingBatch list \<Rightarrow> MultiPacker \<Rightarrow> MultiPacker result" where
  "buffer_batches seq_len [] p = Ok p"
| "buffer_batches seq_len (b # bs) p =
     (case tb_run_idx b of
        None \<Rightarrow> buffer_batches seq_len bs p
      | Some i \<Rightarrow>
          if tb_examples b = [] then buffer_batches seq_len bs (packer_evict i ''Run wrote a batch with no samples'' p)
          else bindE (buffer_examples seq_len i (tb_step b) (tb_examples b) p) (buffer_batches seq_len bs))"

text \<open>\<open>poll\<close>: what one call of \<open>_get_batch\<close> sees, and whether the timeout had expired before it.\<close>

record poll =
  po_expired :: bool
  po_before :: Disk
  po_batches :: "TrainingBatch list"
  po_after :: Disk

definition get_batch :: "PackerConfig \<Rightarrow> poll \<Rightarrow> MultiPacker \<Rightarrow> MultiPacker result" where
  "get_batch c po p =
     bindE (packer_discover c (po_before po) p) (\<lambda>p1.
     bindE (buffer_batches (pc_seq_len c) (po_batches po) p1) (packer_discover c (po_after po)))"

section \<open>Counting\<close>

text \<open>One run's buffer: \<open>Inl\<close> when the threshold is reached inside it.\<close>

fun count_buffer :: "nat option \<Rightarrow> int \<Rightarrow> nat \<Rightarrow> buffered list \<Rightarrow> nat + nat" where
  "count_buffer threshold current acc [] = Inr acc"
| "count_buffer threshold current acc ((s, step) # q) =
     (if step > current then Inr acc
      else let t = acc + length (te_token_ids s)
        in if threshold \<noteq> None \<and> t \<ge> the threshold then Inl t else count_buffer threshold current t q)"

fun count_runs :: "nat option \<Rightarrow> MultiPacker \<Rightarrow> nat \<Rightarrow> nat list \<Rightarrow> nat result" where
  "count_runs threshold p acc [] = Ok acc"
| "count_runs threshold p acc (i # is) =
     bindE (nth_chk (pk_buffers p) i) (\<lambda>q. bindE (dict_get i (rm_progress (pk_runs p))) (\<lambda>pr.
       case count_buffer threshold (pg_step pr) acc q of
         Inl t \<Rightarrow> Ok t
       | Inr t \<Rightarrow> count_runs threshold p t is))"

definition count_tokens :: "nat option \<Rightarrow> MultiPacker \<Rightarrow> nat result" where
  "count_tokens threshold p = count_runs threshold p 0 (used_idxs (pk_runs p))"

definition has_enough_tokens :: "PackerConfig \<Rightarrow> MultiPacker \<Rightarrow> bool result" where
  "has_enough_tokens c p =
     (let threshold = pc_seq_len c * pc_dp_world_size c
      in bindE (count_tokens (Some threshold) p) (\<lambda>t. Ok (t \<ge> threshold)))"

section \<open>Selecting\<close>

text \<open>The inner \<open>for ... else\<close>: the first position, from the current one, whose head sample is due.\<close>

fun seek_run :: "(nat \<times> Progress) list \<Rightarrow> buffered list list \<Rightarrow> nat \<Rightarrow> nat \<Rightarrow> (nat option \<times> nat) result" where
  "seek_run progress buffers 0 pos = Ok (None, pos)"
| "seek_run progress buffers (Suc k) pos =
     bindE (nth_chk buffers pos) (\<lambda>q.
       case q of
         [] \<Rightarrow> seek_run progress buffers k ((pos + 1) mod length buffers)
       | h # _ \<Rightarrow> bindE (dict_get pos progress) (\<lambda>pr.
           if snd h \<le> pg_step pr then Ok (Some pos, pos)
           else seek_run progress buffers k ((pos + 1) mod length buffers)))"

text \<open>The inner \<open>while\<close>: tokens collected, samples taken, the rest of the buffer, and whether it returned.\<close>

fun drain :: "nat \<Rightarrow> int \<Rightarrow> nat \<Rightarrow> buffered list \<Rightarrow> nat \<times> buffered list \<times> buffered list \<times> bool" where
  "drain budget current acc [] = (acc, [], [], False)"
| "drain budget current acc ((s, step) # q) =
     (if step > current then (acc, [], (s, step) # q, False)
      else let n = length (te_token_ids s); t = acc + n
        in if t > budget then
             (if t = n then drain budget current (t - n) q else (t, [], (s, step) # q, True))
           else let (t', taken, rest, stop) = drain budget current t q in (t', (s, step) # taken, rest, stop))"

type_synonym selection = "(nat \<times> TrainingExample \<times> int) list"

lemma drain_shrinks:
  "drain budget current acc q = (t, taken, rest, stop) \<Longrightarrow>
   length rest \<le> length q \<and> (q \<noteq> [] \<and> snd (hd q) \<le> current \<and> \<not> stop \<longrightarrow> length rest < length q)"
  by (induction budget current acc q arbitrary: t taken rest stop rule: drain.induct)
     (fastforce simp: Let_def split: if_splits prod.splits)+

lemma seek_run_due:
  "seek_run progress buffers k pos = Ok (Some i, pos') \<Longrightarrow>
   i < length buffers \<and> buffers ! i \<noteq> [] \<and> (\<exists>pr. dict_get i progress = Ok pr \<and> snd (hd (buffers ! i)) \<le> pg_step pr)"
  by (induction k arbitrary: pos)
     (auto simp: result_simps nth_chk_def split: if_splits list.splits)

lemma sum_lengths_update:
  "i < length bs \<Longrightarrow> sum_list (map length (bs[i := q])) + length (bs ! i) = sum_list (map length bs) + length q"
  by (induction bs arbitrary: i) (auto split: nat.splits)

function select_loop ::
  "nat \<Rightarrow> (nat \<times> Progress) list \<Rightarrow> buffered list list \<Rightarrow> nat \<Rightarrow> nat \<Rightarrow> selection \<Rightarrow> (selection \<times> buffered list list \<times> nat) result" where
  "select_loop budget progress buffers pos acc selected =
     (if acc \<ge> budget then Ok (selected, buffers, pos)
      else (case seek_run progress buffers (length buffers) pos of
              Inl e \<Rightarrow> Raise e
            | Inr (None, pos') \<Rightarrow> Ok (selected, buffers, pos')
            | Inr (Some i, _) \<Rightarrow>
                (case dict_get i progress of
                   Inl e \<Rightarrow> Raise e
                 | Inr pr \<Rightarrow>
                     (case drain budget (pg_step pr) acc (buffers ! i) of
                        (t, taken, rest, stop) \<Rightarrow>
                          if stop then Ok (selected @ map (Pair i) taken, buffers[i := rest], (i + 1) mod length buffers)
                          else select_loop budget progress (buffers[i := rest]) ((i + 1) mod length buffers) t
                                 (selected @ map (Pair i) taken)))))"
  by pat_completeness auto

termination
proof (relation "measure (\<lambda>(_, _, buffers, _). sum_list (map length buffers))", goal_cases)
  case (2 budget progress buffers pos acc selected r oi pos' i pr t tr taken rr rest stop)
  then have seek: "seek_run progress buffers (length buffers) pos = Ok (Some i, pos')"
    and d: "drain budget (pg_step pr) acc (buffers ! i) = (t, taken, rest, stop)" "dict_get i progress = Ok pr" "\<not> stop"
    by simp_all
  note due = seek_run_due[OF seek]
  then have "length rest < length (buffers ! i)" using drain_shrinks[OF d(1)] d(2,3) by auto
  then show ?case using sum_lengths_update[of i buffers rest] due by simp
qed simp

declare select_loop.simps [simp del]

definition select_samples_round_robin :: "nat \<Rightarrow> MultiPacker \<Rightarrow> (selection \<times> MultiPacker) result" where
  "select_samples_round_robin budget p =
     bindE (select_loop budget (rm_progress (pk_runs p)) (pk_buffers p) (pk_round_robin_position p) 0 [])
       (\<lambda>(selected, buffers, pos). Ok (selected, p\<lparr> pk_buffers := buffers, pk_round_robin_position := pos \<rparr>))"

section \<open>Packing\<close>

text \<open>\<open>samples_by_run\<close>, \<open>steps_by_run\<close> and \<open>per_run_stats\<close>, which always have the same keys, as one dict.\<close>

record RunGroup =
  rg_samples :: "TrainingExample list"
  rg_step :: int
  rg_num_samples :: nat
  rg_num_tokens :: nat

fun group_samples :: "selection \<Rightarrow> (nat \<times> RunGroup) list \<Rightarrow> (nat \<times> RunGroup) list result" where
  "group_samples [] groups = Ok groups"
| "group_samples ((i, s, step) # rest) groups =
     (case map_of groups i of
        None \<Rightarrow> group_samples rest (dict_set i \<lparr> rg_samples = [s], rg_step = step, rg_num_samples = 1,
                  rg_num_tokens = length (te_token_ids s) \<rparr> groups)
      | Some g \<Rightarrow>
          raise_if (rg_step g \<noteq> step) (AssertionError ''Micro batches for a run must come from a single run step'')
          (group_samples rest (dict_set i (g\<lparr> rg_samples := rg_samples g @ [s], rg_num_samples := rg_num_samples g + 1,
                  rg_num_tokens := rg_num_tokens g + length (te_token_ids s) \<rparr>) groups)))"

definition update_run_progress :: "nat \<Rightarrow> nat \<Rightarrow> nat \<Rightarrow> MultiPacker \<Rightarrow> MultiPacker result" where
  "update_run_progress i num_samples num_tokens p =
     bindE (nth_chk (pk_buffers p) i) (\<lambda>q. bindE (dict_get i (rm_progress (pk_runs p))) (\<lambda>pr.
       let advance = (q = [] \<or> snd (hd q) > pg_step pr);
           pr' = pr\<lparr> pg_step := (if advance then pg_step pr + 1 else pg_step pr),
                     pg_total_tokens := pg_total_tokens pr + int num_tokens,
                     pg_total_samples := pg_total_samples pr + int num_samples \<rparr>
       in raise_if (advance \<and> i \<ge> length (rm_ready_to_update (pk_runs p))) IndexError
          (Ok (p\<lparr> pk_runs := (pk_runs p)\<lparr> rm_progress := dict_set i pr' (rm_progress (pk_runs p)),
                 rm_ready_to_update := (if advance then (rm_ready_to_update (pk_runs p))[i := True] else rm_ready_to_update (pk_runs p)) \<rparr> \<rparr>))))"

fun update_groups :: "(nat \<times> RunGroup) list \<Rightarrow> MultiPacker \<Rightarrow> MultiPacker result" where
  "update_groups [] p = Ok p"
| "update_groups ((i, g) # gs) p = bindE (update_run_progress i (rg_num_samples g) (rg_num_tokens g) p) (update_groups gs)"

text \<open>A microbatch with the \<open>run_id\<close> and \<open>run_step\<close> the packer stamps on it.\<close>

record RunMicroBatch =
  rb_run_id :: string
  rb_run_step :: int
  rb_batch :: MicroBatch

definition stamp :: "string \<Rightarrow> int \<Rightarrow> MicroBatch \<Rightarrow> RunMicroBatch" where
  "stamp run_id step mb = \<lparr> rb_run_id = run_id, rb_run_step = step, rb_batch = mb \<rparr>"

definition merge_grid :: "RunMicroBatch list list \<Rightarrow> RunMicroBatch list list \<Rightarrow> RunMicroBatch list list result" where
  "merge_grid all grid =
     raise_if (length grid > length all) IndexError
       (Ok (map2 (@) all (grid @ replicate (length all - length grid) [])))"

fun pack_runs ::
  "PackerConfig \<Rightarrow> MultiRunManager \<Rightarrow> (nat \<times> RunGroup) list \<Rightarrow> RunMicroBatch list list \<Rightarrow> RunMicroBatch list list result option" where
  "pack_runs c m [] all = Some (Ok all)"
| "pack_runs c m ((i, g) # gs) all =
     (case prepare_batch (pc_grid_rows c) (pc_itemsize c) (pc_bin_cost c) (rg_samples g) (pc_seq_len c) (pc_dp_world_size c)
             (replicate (length (rg_samples g)) i) (rm_max_runs m) (pc_pad_to_multiple_of c) of
        None \<Rightarrow> None
      | Some (Inl e) \<Rightarrow> Some (Raise e)
      | Some (Inr grid) \<Rightarrow>
          (case bindE (dict_get i (rm_idx_2_id m)) (\<lambda>run_id. merge_grid all (map (map (stamp run_id (rg_step g))) grid)) of
             Inl e \<Rightarrow> Some (Raise e)
           | Inr all' \<Rightarrow> pack_runs c m gs all'))"

definition sorted_groups :: "(nat \<times> RunGroup) list \<Rightarrow> (nat \<times> RunGroup) list" where
  "sorted_groups groups = map (\<lambda>i. (i, the (map_of groups i))) (sort (keys groups))"

text \<open>\<open>pack\<close> after its wait: select, group, account, prepare; the grid is what \<open>sender.send\<close> gets.\<close>

definition pack_selected :: "PackerConfig \<Rightarrow> MultiPacker \<Rightarrow> (RunMicroBatch list list \<times> MultiPacker) result option" where
  "pack_selected c p =
     (case bindE (select_samples_round_robin (pc_seq_len c * pc_dp_world_size c) p) (\<lambda>(selected, p1).
           raise_if (selected = []) (AssertionError ''No samples selected'')
           (bindE (group_samples selected []) (\<lambda>groups. bindE (update_groups groups p1) (\<lambda>p2. Ok (groups, p2))))) of
        Inl e \<Rightarrow> Some (Raise e)
      | Inr (groups, p2) \<Rightarrow>
          (case pack_runs c (pk_runs p2) (sorted_groups groups) (replicate (pc_dp_world_size c) []) of
             None \<Rightarrow> None
           | Some (Inl e) \<Rightarrow> Some (Raise e)
           | Some (Inr grid) \<Rightarrow> Some (Ok (grid, p2))))"

text \<open>The wait: \<open>None\<close> while it still polls after the given polls.\<close>

fun wait_for_tokens :: "PackerConfig \<Rightarrow> poll list \<Rightarrow> MultiPacker \<Rightarrow> MultiPacker result option" where
  "wait_for_tokens c polls p =
     (case has_enough_tokens c p of
        Inl e \<Rightarrow> Some (Raise e)
      | Inr True \<Rightarrow> Some (Ok p)
      | Inr False \<Rightarrow>
         (case polls of
            [] \<Rightarrow> None
          | po # polls' \<Rightarrow>
              (case (if po_expired po then count_tokens None p else Ok 0) of
                 Inl e \<Rightarrow> Some (Raise e)
               | Inr t \<Rightarrow> if po_expired po \<and> t > 0 then Some (Ok p)
                  else (case get_batch c po p of
                          Inl e \<Rightarrow> Some (Raise e)
                        | Inr p' \<Rightarrow> wait_for_tokens c polls' p'))))"

declare wait_for_tokens.simps [simp del]

definition pack :: "PackerConfig \<Rightarrow> poll \<Rightarrow> poll list \<Rightarrow> MultiPacker \<Rightarrow> (RunMicroBatch list list \<times> MultiPacker) result option" where
  "pack c first polls p =
     (case get_batch c first p of
        Inl e \<Rightarrow> Some (Raise e)
      | Inr p1 \<Rightarrow> (case wait_for_tokens c polls p1 of
           None \<Rightarrow> None
         | Some (Inl e) \<Rightarrow> Some (Raise e)
         | Some (Inr p2) \<Rightarrow> pack_selected c p2))"

section \<open>One run\<close>

text \<open>\<open>SinglePacker.pack\<close>: polls until a batch arrives; \<open>None\<close> while none of the given polls brought one.\<close>

fun single_wait :: "PackerConfig \<Rightarrow> (string \<Rightarrow> bool) \<Rightarrow> poll list \<Rightarrow> MultiRunManager \<Rightarrow> (TrainingBatch list \<times> MultiRunManager) result option" where
  "single_wait c evicted [] m = None"
| "single_wait c evicted (po # polls) m =
     (case discover_runs (pc_trainer_lora c) (dk_ckpt_steps (po_before po)) (pc_pick c) (dk_files (po_before po)) evicted
             (dk_found (po_before po)) m of
        Inl e \<Rightarrow> Some (Raise e)
      | Inr m' \<Rightarrow> if po_batches po = [] then single_wait c evicted polls m' else Some (Ok (po_batches po, m')))"

definition single_pack :: "PackerConfig \<Rightarrow> (string \<Rightarrow> bool) \<Rightarrow> poll list \<Rightarrow> MultiRunManager \<Rightarrow> (RunMicroBatch list list \<times> MultiRunManager) result option" where
  "single_pack c evicted polls m =
     (case single_wait c evicted polls m of
        None \<Rightarrow> None
      | Some (Inl e) \<Rightarrow> Some (Raise e)
      | Some (Inr (batches, m1)) \<Rightarrow>
         (case raise_if (length batches \<noteq> 1) (AssertionError ''SinglePacker only supports one batch per step'')
                 (raise_if (rm_ready_to_update m1 = []) IndexError
                 (bindE (dict_get 0 (rm_progress m1)) (\<lambda>pr.
                   Ok (m1\<lparr> rm_ready_to_update := (rm_ready_to_update m1)[0 := True],
                           rm_progress := dict_set 0 (pr\<lparr> pg_step := pg_step pr + 1 \<rparr>) (rm_progress m1) \<rparr>)))) of
            Inl e \<Rightarrow> Some (Raise e)
          | Inr m2 \<Rightarrow>
             let b = hd batches in
             (case prepare_batch (pc_grid_rows c) (pc_itemsize c) (pc_bin_cost c) (tb_examples b) (pc_seq_len c) (pc_dp_world_size c)
                     (replicate (length (tb_examples b)) 0) (rm_max_runs m2) (pc_pad_to_multiple_of c) of
                None \<Rightarrow> None
              | Some (Inl e) \<Rightarrow> Some (Raise e)
              | Some (Inr grid) \<Rightarrow>
                 (case (case tb_run_idx b of None \<Rightarrow> Raise KeyError | Some i \<Rightarrow> dict_get i (rm_idx_2_id m2)) of
                    Inl e \<Rightarrow> Some (Raise e)
                  | Inr run_id \<Rightarrow> Some (Ok (map (map (stamp run_id (tb_step b))) grid, m2))))))"

section \<open>What a selection takes\<close>

definition toks :: "buffered list \<Rightarrow> nat" where
  "toks q = sum_list (map (\<lambda>x. length (te_token_ids (fst x))) q)"

lemma toks_simps [simp]: "toks [] = 0" "toks (x # q) = length (te_token_ids (fst x)) + toks q" "toks (q @ r) = toks q + toks r"
  by (simp_all add: toks_def)

definition fitting :: "nat \<Rightarrow> buffered list \<Rightarrow> bool" where
  "fitting budget q \<longleftrightarrow> (\<forall>x \<in> set q. te_token_ids (fst x) \<noteq> [] \<and> length (te_token_ids (fst x)) \<le> budget)"

lemma fitting_append [simp]: "fitting budget (q @ r) \<longleftrightarrow> fitting budget q \<and> fitting budget r"
  by (auto simp: fitting_def)

lemma drain_ok:
  "drain budget cur t q = (t', taken, rest, stop) \<Longrightarrow> fitting budget q \<Longrightarrow> t \<le> budget \<Longrightarrow>
   q = taken @ rest \<and> t + toks taken \<le> budget \<and> (\<forall>x \<in> set taken. snd x \<le> cur) \<and>
   (\<not> stop \<longrightarrow> t' = t + toks taken \<and> (rest = [] \<or> cur < snd (hd rest))) \<and>
   (stop \<longrightarrow> rest \<noteq> [] \<and> snd (hd rest) \<le> cur \<and> budget < t + toks taken + length (te_token_ids (fst (hd rest))) \<and> 0 < t + toks taken)"
proof (induction budget cur t q arbitrary: t' taken rest stop rule: drain.induct)
  case (2 budget cur t s step q)
  let ?n = "length (te_token_ids s)"
  have fit: "0 < ?n" "?n \<le> budget" "fitting budget q" using "2.prems"(2) by (auto simp: fitting_def)
  consider "cur < step" | "step \<le> cur" "budget < t + ?n" | "step \<le> cur" "t + ?n \<le> budget" by linarith
  then show ?case
  proof cases
    case 3
    obtain taken' where d: "drain budget cur (t + ?n) q = (t', taken', rest, stop)" "taken = (s, step) # taken'"
      using "2.prems"(1) 3 by (auto simp: Let_def split: prod.splits)
    then show ?thesis using "2.IH"(2)[OF _ refl refl _ d(1) fit(3)] 3 by auto
  qed (use "2.prems" fit in \<open>auto simp: Let_def\<close>)
qed auto

definition due :: "(nat \<times> Progress) list \<Rightarrow> buffered list list \<Rightarrow> nat \<Rightarrow> bool" where
  "due progress buffers i \<longleftrightarrow> buffers ! i \<noteq> [] \<and> snd (hd (buffers ! i)) \<le> pg_step (the (map_of progress i))"

lemma seek_run_ok:
  assumes keys: "\<forall>i < length buffers. buffers ! i \<noteq> [] \<longrightarrow> i \<in> set (keys progress)" and pos: "pos < length buffers"
  shows "\<exists>r. seek_run progress buffers k pos = Ok r \<and>
     (fst r = None \<longrightarrow> snd r < length buffers \<and> (\<forall>j < k. \<not> due progress buffers ((pos + j) mod length buffers)))"
  using pos
proof (induction k arbitrary: pos)
  case (Suc k)
  let ?n = "length buffers"
  let ?due = "\<lambda>i. \<not> due progress buffers i"
  have "(pos + 1) mod ?n < ?n" using Suc.prems by (intro mod_less_divisor) auto
  then obtain r where r: "seek_run progress buffers k ((pos + 1) mod ?n) = Ok r"
      "fst r = None \<Longrightarrow> snd r < ?n" "\<And>j. fst r = None \<Longrightarrow> j < k \<Longrightarrow> ?due (((pos + 1) mod ?n + j) mod ?n)"
    using Suc.IH[of "(pos + 1) mod ?n"] by auto
  have shift: "((pos + 1) mod ?n + j) mod ?n = (pos + Suc j) mod ?n" for j by (simp add: mod_simps)
  have all: "?due ((pos + j) mod ?n)" if "?due pos" "fst r = None" "j < Suc k" for j
    using that r(3)[of "j - 1"] shift[of "j - 1"] Suc.prems by (cases j) auto
  show ?case
  proof (cases "?due pos")
    case True
    have "seek_run progress buffers (Suc k) pos = Ok r"
    proof (cases "buffers ! pos")
      case Nil
      then show ?thesis using r(1) Suc.prems by (simp add: nth_chk_def)
    next
      case (Cons h q)
      have "pos \<in> set (keys progress)" using keys Suc.prems Cons by simp
      then obtain pr where pr: "map_of progress pos = Some pr" by (cases "map_of progress pos") (auto simp: map_of_eq_None_iff)
      have "\<not> snd h \<le> pg_step pr" using True Cons pr by (simp add: due_def)
      then show ?thesis using r(1) Suc.prems Cons pr by (simp add: nth_chk_def dict_get_def)
    qed
    then show ?thesis using r(2) all[OF True] by auto
  next
    case False
    then obtain h q where hq: "buffers ! pos = h # q" by (cases "buffers ! pos") (auto simp: due_def)
    have "pos \<in> set (keys progress)" using keys Suc.prems hq by simp
    then obtain pr where pr: "map_of progress pos = Some pr" by (cases "map_of progress pos") (auto simp: map_of_eq_None_iff)
    have "snd h \<le> pg_step pr" using False hq pr by (simp add: due_def)
    then have "seek_run progress buffers (Suc k) pos = Ok (Some pos, pos)" using Suc.prems hq pr by (simp add: nth_chk_def dict_get_def)
    then show ?thesis by simp
  qed
qed simp

lemma seek_run_none:
  assumes "seek_run progress buffers (length buffers) pos = Ok (None, pos')"
    and "\<forall>i < length buffers. buffers ! i \<noteq> [] \<longrightarrow> i \<in> set (keys progress)" and "pos < length buffers"
  shows "pos' < length buffers \<and> (\<forall>i < length buffers. \<not> due progress buffers i)"
proof -
  let ?n = "length buffers"
  have r: "pos' < ?n" "\<not> due progress buffers ((pos + j) mod ?n)" if "j < ?n" for j
    using seek_run_ok[OF assms(2,3), of "length buffers"] assms(1) that by auto
  have "\<not> due progress buffers i" if i: "i < ?n" for i
  proof (cases "pos \<le> i")
    case True
    then show ?thesis using r(2)[of "i - pos"] i by simp
  next
    case False
    then have "(pos + (i + ?n - pos)) mod ?n = i" "i + ?n - pos < ?n" using assms(3) i by simp_all
    then show ?thesis using r(2)[of "i + ?n - pos"] by simp
  qed
  then show ?thesis using r(1)[of pos] assms(3) by blast
qed

definition of_run :: "nat \<Rightarrow> selection \<Rightarrow> buffered list" where
  "of_run i selected = map snd (filter (\<lambda>x. fst x = i) selected)"

lemma map_snd_Pair [simp]: "map (snd \<circ> Pair i) q = q"
  by (induction q) auto

lemma of_run_simps [simp]:
  "of_run i [] = []" "of_run i (a @ b) = of_run i a @ of_run i b"
  "of_run i (map (Pair j) q) = (if i = j then q else [])"
  by (simp_all add: of_run_def filter_map o_def)

section \<open>The order of a selection\<close>

text \<open>
  What is due in one buffer, and all that is due in the order of the round: run after run from the current position, each in arrival
  order.
\<close>

definition due_part :: "(nat \<times> Progress) list \<Rightarrow> buffered list list \<Rightarrow> nat \<Rightarrow> buffered list" where
  "due_part progress buffers i = takeWhile (\<lambda>x. snd x \<le> pg_step (the (map_of progress i))) (buffers ! i)"

definition due_stream :: "(nat \<times> Progress) list \<Rightarrow> buffered list list \<Rightarrow> nat \<Rightarrow> selection" where
  "due_stream progress buffers pos =
     concat (map (\<lambda>i. map (Pair i) (due_part progress buffers i)) (rotate pos [0..<length buffers]))"

text \<open>The longest prefix of a stream that fits into what is left of the budget.\<close>

definition longest_fit :: "nat \<Rightarrow> selection \<Rightarrow> selection \<Rightarrow> bool" where
  "longest_fit left stream new \<longleftrightarrow> prefix new stream \<and> toks (map snd new) \<le> left \<and>
     (new = stream \<or> left < toks (map snd (take (Suc (length new)) stream)))"

text \<open>
  Where the next selection starts: after the run served last. That is the run of the first due sample left out, or the run of the
  last one selected when the budget is used up exactly or nothing is left out.
\<close>

definition next_position :: "nat \<Rightarrow> nat \<Rightarrow> nat \<Rightarrow> selection \<Rightarrow> selection \<Rightarrow> nat" where
  "next_position n left pos stream new =
     (if stream = [] \<or> left = 0 then pos
      else if new = stream \<or> toks (map snd new) = left then (fst (last new) + 1) mod n
      else (fst (stream ! length new) + 1) mod n)"

lemma rotate_upt: "pos < n \<Longrightarrow> rotate pos [0..<n] = map (\<lambda>j. (pos + j) mod n) [0..<n]"
  by (rule nth_equalityI) (simp_all add: nth_rotate)

lemma due_part_not_due: "\<not> due progress buffers i \<Longrightarrow> due_part progress buffers i = []"
  by (cases "buffers ! i") (simp_all add: due_def due_part_def)

lemma seek_run_first:
  assumes "seek_run progress buffers k pos = Ok (Some i, pos')" "pos < length buffers"
  shows "\<exists>j < k. i = (pos + j) mod length buffers \<and> (\<forall>l < j. \<not> due progress buffers ((pos + l) mod length buffers))"
  using assms
proof (induction k arbitrary: pos)
  case (Suc k)
  let ?n = "length buffers"
  show ?case
  proof (cases "due progress buffers pos")
    case True
    then obtain h q where "buffers ! pos = h # q" "snd h \<le> pg_step (the (map_of progress pos))"
      by (cases "buffers ! pos") (auto simp: due_def)
    then have "i = pos" using Suc.prems by (auto simp: nth_chk_def dict_get_def result_simps split: option.splits if_splits)
    then show ?thesis using Suc.prems(2) by (intro exI[of _ 0]) simp
  next
    case False
    have "seek_run progress buffers k ((pos + 1) mod ?n) = Ok (Some i, pos')"
      using Suc.prems False by (auto simp: nth_chk_def dict_get_def due_def result_simps split: option.splits if_splits list.splits)
    moreover have "(pos + 1) mod ?n < ?n" using Suc.prems(2) by (intro mod_less_divisor) auto
    ultimately obtain j where j: "j < k" "i = ((pos + 1) mod ?n + j) mod ?n" "\<forall>l < j. \<not> due progress buffers (((pos + 1) mod ?n + l) mod ?n)"
      using Suc.IH by blast
    have shift: "((pos + 1) mod ?n + l) mod ?n = (pos + Suc l) mod ?n" for l by (simp add: mod_simps)
    have "\<not> due progress buffers ((pos + l) mod ?n)" if "l < Suc j" for l
      using that j(3) False Suc.prems(2) unfolding shift by (cases l) auto
    then show ?thesis using j(1,2) unfolding shift by (intro exI[of _ "Suc j"]) auto
  qed
qed simp

lemma seek_run_back:
  assumes "seek_run progress buffers k pos = Ok (None, pos')" "pos < length buffers"
  shows "pos' = (pos + k) mod length buffers"
  using assms
proof (induction k arbitrary: pos)
  case (Suc k)
  have "seek_run progress buffers k ((pos + 1) mod length buffers) = Ok (None, pos')"
    using Suc.prems by (auto simp: nth_chk_def dict_get_def result_simps split: option.splits if_splits list.splits)
  moreover have "(pos + 1) mod length buffers < length buffers" using Suc.prems(2) by (intro mod_less_divisor) auto
  ultimately have "pos' = ((pos + 1) mod length buffers + k) mod length buffers" by (rule Suc.IH)
  then show ?case by (simp add: mod_simps)
qed simp

text \<open>Serving the first due run moves its due part from the front of the stream.\<close>

lemma due_stream_none:
  assumes "\<forall>i < length buffers. \<not> due progress buffers i" "pos < length buffers"
  shows "due_stream progress buffers pos = []"
proof -
  have "due_part progress buffers ((pos + j) mod length buffers) = []" for j
    using assms by (intro due_part_not_due) (metis mod_less_divisor gr_implies_not_zero neq0_conv)
  then show ?thesis by (simp add: due_stream_def rotate_upt[OF assms(2)] o_def)
qed

lemma due_stream_serve:
  assumes i: "i = (pos + j) mod length buffers" and j: "j < length buffers" and pos: "pos < length buffers"
    and before: "\<forall>l < j. \<not> due progress buffers ((pos + l) mod length buffers)"
    and rest: "takeWhile (\<lambda>x. snd x \<le> pg_step (the (map_of progress i))) rest = []"
  shows "due_stream progress buffers pos =
     map (Pair i) (due_part progress buffers i) @ due_stream progress (buffers[i := rest]) ((i + 1) mod length buffers)"
proof -
  let ?n = "length buffers"
  let ?part = "\<lambda>bs l. map (Pair ((pos + l) mod ?n)) (due_part progress bs ((pos + l) mod ?n))"
  let ?bs = "buffers[i := rest]"
  have n: "0 < ?n" using pos by linarith
  have i': "i < ?n" using i n by simp
  have split: "[0..<?n] = [0..<j] @ j # [Suc j..<?n]" using j by (metis append_Cons append_Nil le0 upt_add_eq_append upt_conv_Cons le_Suc_ex less_imp_le)
  have none: "concat (map (?part buffers) [0..<j]) = []" using before due_part_not_due by simp
  have old: "due_stream progress buffers pos = map (Pair i) (due_part progress buffers i) @ concat (map (?part buffers) [Suc j..<?n])"
    unfolding due_stream_def rotate_upt[OF pos] map_map o_def by (subst split) (use none i in \<open>simp del: concat_eq_Nil_conv\<close>)
  have nx: "(i + 1) mod ?n < ?n" using n by simp
  have shift: "((i + 1) mod ?n + l) mod ?n = (pos + (Suc j + l)) mod ?n" for l by (simp add: i mod_simps add.assoc)
  have "due_stream progress ?bs ((i + 1) mod ?n) = concat (map (\<lambda>l. ?part ?bs (Suc j + l)) [0..<?n])"
    unfolding due_stream_def length_list_update rotate_upt[OF nx] map_map o_def shift ..
  also have "[0..<?n] = [0..<?n - Suc j] @ [?n - Suc j..<?n]" using j by (metis diff_le_self le0 upt_add_eq_append le_add_diff_inverse)
  also have "concat (map (\<lambda>l. ?part ?bs (Suc j + l)) ([0..<?n - Suc j] @ [?n - Suc j..<?n])) =
      concat (map (\<lambda>l. ?part ?bs (Suc j + l)) [0..<?n - Suc j]) @ concat (map (\<lambda>l. ?part ?bs (Suc j + l)) [?n - Suc j..<?n])" by simp
  also have "concat (map (\<lambda>l. ?part ?bs (Suc j + l)) [?n - Suc j..<?n]) = []"
  proof -
    have "due_part progress ?bs ((pos + (Suc j + l)) mod ?n) = []" if l: "?n - Suc j \<le> l" "l < ?n" for l
    proof -
      define k where "k = Suc j + l - ?n"
      have k: "Suc j + l = ?n + k" "k \<le> j" using l j unfolding k_def by linarith+
      have idx: "(pos + (Suc j + l)) mod ?n = (pos + k) mod ?n"
      proof -
        have "pos + (Suc j + l) = (pos + k) + ?n" using k(1) by linarith
        then show ?thesis by (simp only: mod_add_self2)
      qed
      show ?thesis
      proof (cases "(pos + k) mod ?n = i")
        case True
        then show ?thesis unfolding idx due_part_def using rest i' by simp
      next
        case False
        then have "k < j" using k(2) i by (cases "k = j") auto
        then have "\<not> due progress buffers ((pos + k) mod ?n)" using before by blast
        then have "due_part progress buffers ((pos + k) mod ?n) = []" by (rule due_part_not_due)
        then show ?thesis unfolding idx due_part_def using False by simp
      qed
    qed
    then show ?thesis by simp
  qed
  also have "concat (map (\<lambda>l. ?part ?bs (Suc j + l)) [0..<?n - Suc j]) = concat (map (?part buffers) [Suc j..<?n])"
  proof -
    have same: "?part ?bs (Suc j + l) = ?part buffers (Suc j + l)" if "l < ?n - Suc j" for l
    proof -
      have "(pos + (Suc j + l)) mod ?n \<noteq> (pos + j) mod ?n"
      proof
        assume "(pos + (Suc j + l)) mod ?n = (pos + j) mod ?n"
        then have "?n dvd (pos + (Suc j + l)) - (pos + j)" by (intro mod_eq_dvd_iff_nat[THEN iffD1]) auto
        then show False using that by (auto dest: dvd_imp_le)
      qed
      then show ?thesis by (simp add: due_part_def i)
    qed
    have "map (\<lambda>l. ?part ?bs (Suc j + l)) [0..<?n - Suc j] = map (?part buffers) [Suc j..<?n]"
      by (rule nth_equalityI) (use same in simp_all)
    then show ?thesis by (rule arg_cong)
  qed
  finally show ?thesis using old by simp
qed

lemma longest_fit_none: "fitting budget (map snd stream) \<Longrightarrow> longest_fit 0 stream []"
  by (cases stream) (auto simp: longest_fit_def fitting_def)

lemma longest_fit_append:
  assumes "longest_fit (left - toks (map snd P)) S new" "toks (map snd P) \<le> left"
  shows "longest_fit left (P @ S) (P @ new)"
  using assms by (auto simp: longest_fit_def)

lemma longest_fit_stop:
  "toks (map snd P) \<le> left \<Longrightarrow> left < toks (map snd P) + length (te_token_ids (fst (snd x))) \<Longrightarrow> longest_fit left (P @ x # S) P"
  by (simp add: longest_fit_def)

lemma next_position_append:
  assumes P: "P \<noteq> []" "fst (last P) = i" "toks (map snd P) \<le> left" "0 < left"
    and fit: "longest_fit (left - toks (map snd P)) S new" "fitting budget (map snd S)"
  shows "next_position n left pos (P @ S) (P @ new) = next_position n (left - toks (map snd P)) ((i + 1) mod n) S new"
proof (cases "S = [] \<or> left = toks (map snd P)")
  case True
  have "new = []"
  proof (cases "S = []")
    case False
    then have "left - toks (map snd P) = 0" "prefix new S" "toks (map snd new) = 0" using True fit(1) by (auto simp: longest_fit_def)
    then show ?thesis using fit(2) by (cases new) (auto simp: fitting_def prefix_def)
  qed (use fit(1) in \<open>simp add: longest_fit_def\<close>)
  then show ?thesis using True P by (auto simp: next_position_def)
next
  case False
  then have pos: "S \<noteq> []" "left - toks (map snd P) \<noteq> 0" using P(3) by auto
  have eq: "toks (map snd (P @ new)) = left \<longleftrightarrow> toks (map snd new) = left - toks (map snd P)" using P(3) by auto
  show ?thesis
  proof (cases "new = S \<or> toks (map snd new) = left - toks (map snd P)")
    case True
    then have "new \<noteq> []" using pos by auto
    then show ?thesis using True pos P(1,4) eq by (simp add: next_position_def)
  next
    case False
    then show ?thesis using pos P(1,4) eq by (simp add: next_position_def)
  qed
qed

lemma next_position_stop:
  assumes "\<forall>y \<in> set P. fst y = i" "toks (map snd P) \<le> left" "0 < left"
  shows "next_position n left pos (P @ (i, x) # S) P = (i + 1) mod n"
proof (cases "toks (map snd P) = left")
  case True
  then have "P \<noteq> []" using assms(3) by auto
  then show ?thesis using True assms by (simp add: next_position_def)
next
  case False
  then show ?thesis using assms(3) by (simp add: next_position_def)
qed

lemma due_stream_fitting:
  assumes "\<forall>i < length buffers. fitting budget (buffers ! i)"
  shows "fitting budget (map snd (due_stream progress buffers pos))"
  using assms by (fastforce simp: fitting_def due_stream_def due_part_def dest: set_takeWhileD)

lemma select_loop_ok:
  assumes "\<forall>i < length buffers. buffers ! i \<noteq> [] \<longrightarrow> i \<in> set (keys progress)" and "pos < length buffers"
    and "\<forall>i < length buffers. fitting budget (buffers ! i)" and "t \<le> budget"
  shows "\<exists>new buffers' pos'. select_loop budget progress buffers pos t selected = Ok (selected @ new, buffers', pos') \<and>
     length buffers' = length buffers \<and> pos' < length buffers \<and>
     (\<forall>i < length buffers. buffers ! i = of_run i new @ buffers' ! i) \<and>
     (\<forall>x \<in> set new. fst x < length buffers \<and> snd (snd x) \<le> pg_step (the (map_of progress (fst x)))) \<and>
     longest_fit (budget - t) (due_stream progress buffers pos) new \<and>
     pos' = next_position (length buffers) (budget - t) pos (due_stream progress buffers pos) new"
  using assms
proof (induction "sum_list (map length buffers)" arbitrary: buffers pos t selected rule: less_induct)
  case (less buffers)
  let ?n = "length buffers" and ?st = "due_stream progress buffers pos"
  note sfit = due_stream_fitting[OF less.prems(3), of progress pos]
  show ?case
  proof (cases "budget \<le> t")
    case True
    then have "select_loop budget progress buffers pos t selected = Ok (selected @ [], buffers, pos)"
      by (simp add: select_loop.simps[of budget progress buffers])
    moreover have "budget - t = 0" using True by simp
    ultimately show ?thesis using less.prems(2) longest_fit_none[OF sfit]
      by (intro exI[of _ "[]"] exI conjI) (auto simp: next_position_def)
  next
    case False
    obtain r where r: "seek_run progress buffers ?n pos = Ok r" using seek_run_ok[OF less.prems(1,2)] by blast
    show ?thesis
    proof (cases "fst r")
      case None
      then obtain pos' where pos': "r = (None, pos')" by (cases r) auto
      have "select_loop budget progress buffers pos t selected = Ok (selected @ [], buffers, pos')"
        using False r pos' by (simp add: select_loop.simps[of budget progress buffers])
      moreover have "pos' = pos" using seek_run_back[OF r[unfolded pos'] less.prems(2)] less.prems(2) by simp
      moreover have "?st = []" using seek_run_none[OF r[unfolded pos'] less.prems(1,2)] due_stream_none less.prems(2) by blast
      ultimately show ?thesis using less.prems(2)
        by (intro exI[of _ "[]"] exI conjI) (auto simp: next_position_def longest_fit_def)
    next
      case (Some i)
      then obtain pos' where pos': "r = (Some i, pos')" by (cases r) auto
      note sd = seek_run_due[OF r[unfolded pos']]
      obtain j where j: "j < ?n" "i = (pos + j) mod ?n" "\<forall>l < j. \<not> due progress buffers ((pos + l) mod ?n)"
        using seek_run_first[OF r[unfolded pos'] less.prems(2)] by blast
      obtain pr where pr: "dict_get i progress = Ok pr" "snd (hd (buffers ! i)) \<le> pg_step pr" using sd by auto
      have i: "i < ?n" "buffers ! i \<noteq> []" using sd by auto
      have cur: "pg_step (the (map_of progress i)) = pg_step pr" using pr(1) by (auto simp: dict_get_def split: option.splits)
      obtain t' taken rest stop where d: "drain budget (pg_step pr) t (buffers ! i) = (t', taken, rest, stop)"
        by (metis prod_cases4)
      have fit: "fitting budget (buffers ! i)" using less.prems(3) i by simp
      note dk = drain_ok[OF d fit less.prems(4)]
      have part: "due_part progress buffers i = taken @ takeWhile (\<lambda>x. snd x \<le> pg_step pr) rest"
        unfolding due_part_def cur using dk by (simp add: takeWhile_append)
      let ?bs = "buffers[i := rest]" and ?pos = "(i + 1) mod ?n"
      have pos: "?pos < ?n" using i by (intro mod_less_divisor) auto
      have takenm: "toks (map snd (map (Pair i) taken)) = toks taken" by (simp add: o_def)
      show ?thesis
      proof (cases stop)
        case True
        have loop: "select_loop budget progress buffers pos t selected = Ok (selected @ map (Pair i) taken, ?bs, ?pos)"
          using False r pos' pr d True by (simp add: select_loop.simps[of budget progress buffers])
        obtain h q where h: "rest = h # q" "snd h \<le> pg_step pr" "budget < t + toks taken + length (te_token_ids (fst h))"
          using dk True by (cases rest) auto
        have "\<exists>S. ?st = map (Pair i) taken @ (i, h) # S"
        proof -
          have "takeWhile (\<lambda>x. snd x \<le> pg_step (the (map_of progress i))) [] = []" by simp
          from due_stream_serve[OF j(2,1) less.prems(2) j(3) this] show ?thesis unfolding part by (simp add: h(1,2))
        qed
        then obtain S where S: "?st = map (Pair i) taken @ (i, h) # S" by blast
        have "toks taken \<le> budget - t" "0 < budget - t" "budget - t < toks taken + length (te_token_ids (fst h))"
          using dk h(3) False by auto
        then have "longest_fit (budget - t) ?st (map (Pair i) taken)" "?pos = next_position ?n (budget - t) pos ?st (map (Pair i) taken)"
          unfolding S using longest_fit_stop[of "map (Pair i) taken" "budget - t" "(i, h)" S]
            next_position_stop[of "map (Pair i) taken" i "budget - t"] takenm by auto
        then show ?thesis using loop pos dk i cur
          by (intro exI[of _ "map (Pair i) taken"] exI[of _ ?bs] exI[of _ ?pos]) (auto simp: nth_list_update)
      next
        case stop: False
        have t': "t' = t + toks taken" "t + toks taken \<le> budget" using dk stop by simp_all
        have none: "takeWhile (\<lambda>x. snd x \<le> pg_step (the (map_of progress i))) rest = []"
          using dk stop unfolding cur by (cases rest) auto
        have shrink: "sum_list (map length ?bs) < sum_list (map length buffers)"
          using drain_shrinks[OF d] i pr(2) stop sum_lengths_update[of i buffers rest] by simp
        have dq: "buffers ! i = taken @ rest" using dk by simp
        have pre: "\<forall>j < length ?bs. ?bs ! j \<noteq> [] \<longrightarrow> j \<in> set (keys progress)" "?pos < length ?bs"
            "\<forall>j < length ?bs. fitting budget (?bs ! j)" "t' \<le> budget"
          using less.prems(1,3) dq fit pos i t' by (auto simp: nth_list_update)
        obtain new buffers' pos'' where IH: "select_loop budget progress ?bs ?pos t' (selected @ map (Pair i) taken) =
              Ok ((selected @ map (Pair i) taken) @ new, buffers', pos'')" "length buffers' = length ?bs" "pos'' < length ?bs"
            "\<forall>j < length ?bs. ?bs ! j = of_run j new @ buffers' ! j"
            "\<forall>x \<in> set new. fst x < length ?bs \<and> snd (snd x) \<le> pg_step (the (map_of progress (fst x)))"
            "longest_fit (budget - t') (due_stream progress ?bs ?pos) new"
            "pos'' = next_position (length ?bs) (budget - t') ?pos (due_stream progress ?bs ?pos) new"
          using less.hyps[OF shrink pre] by blast
        have loop: "select_loop budget progress buffers pos t selected = Ok (selected @ (map (Pair i) taken @ new), buffers', pos'')"
          using False r pos' pr d stop IH(1) by (simp add: select_loop.simps[of budget progress buffers])
        have st: "?st = map (Pair i) taken @ due_stream progress ?bs ?pos"
          using due_stream_serve[OF j(2,1) less.prems(2) j(3) none] none unfolding part cur by simp
        have "taken \<noteq> []"
        proof
          assume "taken = []"
          then show False using dq i(2) none pr(2) unfolding cur by (cases rest) auto
        qed
        then have P: "map (Pair i) taken \<noteq> []" "fst (last (map (Pair i) taken)) = i" "toks (map snd (map (Pair i) taken)) \<le> budget - t" "0 < budget - t"
          using t' False takenm by (simp_all add: last_map del: map_map)
        have left: "budget - t' = budget - t - toks (map snd (map (Pair i) taken))" using t' takenm by simp
        have lf: "longest_fit (budget - t) ?st (map (Pair i) taken @ new)"
          unfolding st by (rule longest_fit_append[OF IH(6)[unfolded left] P(3)])
        have np: "pos'' = next_position ?n (budget - t) pos ?st (map (Pair i) taken @ new)"
          unfolding st next_position_append[OF P IH(6)[unfolded left] due_stream_fitting[OF pre(3)]] using IH(7) left by simp
        have "\<forall>j < ?n. buffers ! j = of_run j (map (Pair i) taken @ new) @ buffers' ! j"
          using IH(4) dq i by (auto simp: nth_list_update split: if_splits)
        then show ?thesis using loop lf np IH(2,3,5) dk i cur
          by (intro exI[of _ "map (Pair i) taken @ new"] exI[of _ buffers'] exI[of _ pos'']) auto
      qed
    qed
  qed
qed

section \<open>The packer's invariant\<close>

definition sample_ready :: "PackerConfig \<Rightarrow> string \<Rightarrow> nat list \<Rightarrow> TrainingExample \<Rightarrow> bool" where
  "sample_ready c d t s \<longleftrightarrow> fst (validate_sample (pc_seq_len c) s) \<and>
     (case prepare_sample (pc_grid_rows c) (pc_itemsize c) s (pc_seq_len c) of
        Inl _ \<Rightarrow> False
      | Inr mb \<Rightarrow> mb_input_ids mb \<noteq> [] \<and> pred_option (rx_like d t) (mb_routed_experts mb))"

definition buffer_ok :: "PackerConfig \<Rightarrow> string \<Rightarrow> nat list \<Rightarrow> int \<Rightarrow> buffered list \<Rightarrow> bool" where
  "buffer_ok c d t step q \<longleftrightarrow> list_all (\<lambda>x. sample_ready c d t (fst x) \<and> step \<le> snd x) q \<and> sorted (map snd q)"

abbreviation run_step :: "MultiPacker \<Rightarrow> nat \<Rightarrow> int" where
  "run_step p i \<equiv> pg_step (the (map_of (rm_progress (pk_runs p)) i))"

definition packer_ok :: "PackerConfig \<Rightarrow> string \<Rightarrow> nat list \<Rightarrow> MultiPacker \<Rightarrow> bool" where
  "packer_ok c d t p \<longleftrightarrow>
     registry_ok (pk_runs p) \<and> length (pk_buffers p) = rm_max_runs (pk_runs p) \<and>
     length (rm_ready_to_update (pk_runs p)) = rm_max_runs (pk_runs p) \<and> pk_round_robin_position p < rm_max_runs (pk_runs p) \<and>
     list_all (\<lambda>i. pk_buffers p ! i = [] \<or>
        (i \<in> set (keys (rm_idx_2_id (pk_runs p))) \<and> buffer_ok c d t (run_step p i) (pk_buffers p ! i))) [0..<rm_max_runs (pk_runs p)]"

definition packer_config_ok :: "PackerConfig \<Rightarrow> bool" where
  "packer_config_ok c \<longleftrightarrow> 0 < pc_dp_world_size c \<and> 0 < pc_seq_len c \<and> 0 < pc_pad_to_multiple_of c \<and>
     (\<forall>n. 0 < n \<longrightarrow> 0 < pc_bin_cost c [n]) \<and> (\<forall>S. finite S \<and> S \<noteq> {} \<longrightarrow> pc_pick c S \<in> S)"

definition disk_ok :: "PackerConfig \<Rightarrow> Disk \<Rightarrow> bool" where
  "disk_ok c disk \<longleftrightarrow> distinct (dk_found disk) \<and> ranks_positive (pc_trainer_lora c) (dk_files disk) (dk_found disk)"

text \<open>What the receiver hands over: batches of registered runs, in step order, not older than the run's progress.\<close>

definition arrivals_ok :: "PackerConfig \<Rightarrow> string \<Rightarrow> nat list \<Rightarrow> TrainingBatch list \<Rightarrow> MultiPacker \<Rightarrow> bool" where
  "arrivals_ok c d t batches p \<longleftrightarrow>
     list_all (\<lambda>b. case tb_run_idx b of None \<Rightarrow> True | Some i \<Rightarrow>
        i \<in> set (keys (rm_idx_2_id (pk_runs p))) \<and> run_step p i \<le> tb_step b \<and> list_all (\<lambda>x. snd x \<le> tb_step b) (pk_buffers p ! i) \<and>
        list_all (\<lambda>s. fst (validate_sample (pc_seq_len c) s) \<longrightarrow> sample_ready c d t s) (tb_examples b)) batches \<and>
     sorted_wrt (\<lambda>b b'. tb_run_idx b = tb_run_idx b' \<longrightarrow> tb_step b \<le> tb_step b') batches"

lemma packer_buffer:
  assumes "packer_ok c d t p" "i < rm_max_runs (pk_runs p)" "pk_buffers p ! i \<noteq> []"
  shows "i \<in> set (keys (rm_idx_2_id (pk_runs p)))" "buffer_ok c d t (run_step p i) (pk_buffers p ! i)"
  using assms by (auto simp: packer_ok_def list_all_iff)

lemma packer_okI:
  assumes "registry_ok (pk_runs p)" "length (pk_buffers p) = rm_max_runs (pk_runs p)"
    "length (rm_ready_to_update (pk_runs p)) = rm_max_runs (pk_runs p)" "pk_round_robin_position p < rm_max_runs (pk_runs p)"
    "\<And>i. i < rm_max_runs (pk_runs p) \<Longrightarrow> pk_buffers p ! i \<noteq> [] \<Longrightarrow>
       i \<in> set (keys (rm_idx_2_id (pk_runs p))) \<and> buffer_ok c d t (run_step p i) (pk_buffers p ! i)"
  shows "packer_ok c d t p"
  unfolding packer_ok_def list_all_iff using assms by auto

lemma registry_key_bound: "registry_ok m \<Longrightarrow> i \<in> set (keys (rm_idx_2_id m)) \<Longrightarrow> i < rm_max_runs m"
  unfolding registry_ok_def by fastforce

lemma packer_evict_fields:
  "pk_runs (packer_evict i reason p) = pk_runs p" "pk_buffers (packer_evict i reason p) = pk_buffers p"
  by (simp_all add: packer_evict_def)

lemma packer_evict_ok: "packer_ok c d t (packer_evict i reason p) = packer_ok c d t p"
  by (simp add: packer_ok_def packer_evict_def)

lemma fold_deleted:
  "pk_runs (fold on_run_data_deleted idxs p) = pk_runs p" "pk_markers (fold on_run_data_deleted idxs p) = pk_markers p"
  "pk_round_robin_position (fold on_run_data_deleted idxs p) = pk_round_robin_position p"
  "length (pk_buffers (fold on_run_data_deleted idxs p)) = length (pk_buffers p)"
  "j < length (pk_buffers p) \<Longrightarrow> pk_buffers (fold on_run_data_deleted idxs p) ! j = (if j \<in> set idxs then [] else pk_buffers p ! j)"
  by (induction idxs arbitrary: p) (auto simp: on_run_data_deleted_def nth_list_update)

lemma packer_discover_ok:
  assumes ok: "packer_ok c d t p" and cfg: "packer_config_ok c" and disk: "disk_ok c disk"
  shows "\<exists>p'. packer_discover c disk p = Ok p' \<and> packer_ok c d t p' \<and> pk_markers p' = pk_markers p \<and>
     (\<forall>r \<in> set (keys (rm_id_2_idx (pk_runs p'))). pk_markers p r = None) \<and>
     (\<forall>(i, r) \<in> set (rm_idx_2_id (pk_runs p)). pk_markers p r \<noteq> None \<longrightarrow> pk_buffers p' ! i = [])"
proof -
  let ?m = "pk_runs p" and ?ev = "\<lambda>r. pk_markers p r \<noteq> None"
  let ?gone = "forgotten_runs ?ev (dk_found disk) ?m"
  have reg: "registry_ok ?m" and lens: "length (pk_buffers p) = rm_max_runs ?m" "length (rm_ready_to_update ?m) = rm_max_runs ?m"
      "pk_round_robin_position p < rm_max_runs ?m"
    using ok by (simp_all add: packer_ok_def)
  obtain m' where m': "discover_runs (pc_trainer_lora c) (dk_ckpt_steps disk) (pc_pick c) (dk_files disk) ?ev (dk_found disk) ?m = Ok m'"
      "registry_ok m'" "rm_max_runs m' = rm_max_runs ?m"
      "list_all (\<lambda>q. fst q \<in> set (dk_found disk) \<and> \<not> ?ev (fst q) \<longrightarrow> q \<in> set (rm_id_2_idx m')) (rm_id_2_idx ?m)"
      "list_all (\<lambda>r. r \<in> set (dk_found disk) \<and> \<not> ?ev r) (keys (rm_id_2_idx m'))"
    using discover_runs_ok[OF reg, of "dk_found disk" "pc_pick c" "pc_trainer_lora c" "dk_files disk" "dk_ckpt_steps disk" ?ev] cfg disk
    by (auto simp: packer_config_ok_def disk_ok_def)
  note frame = discover_runs_frame[OF reg m'(1)]
  have gone: "set ?gone \<subseteq> set (keys (rm_id_2_idx ?m))" by (auto simp: forgotten_runs_def)
  then have tr: "traverse (\<lambda>r. dict_get r (rm_id_2_idx ?m)) ?gone = Ok (map (\<lambda>r. the (map_of (rm_id_2_idx ?m) r)) ?gone)"
    by (intro traverse_total dict_get_the) blast
  define idxs where "idxs = map (\<lambda>r. the (map_of (rm_id_2_idx ?m) r)) ?gone"
  let ?p = "(fold on_run_data_deleted idxs p)\<lparr> pk_runs := m' \<rparr>"
  have "packer_discover c disk p = Ok ?p" unfolding packer_discover_def Let_def tr m'(1) idxs_def by simp
  moreover have "packer_ok c d t ?p"
  proof (rule packer_okI)
    fix i assume i: "i < rm_max_runs (pk_runs ?p)" "pk_buffers ?p ! i \<noteq> []"
    then have b: "pk_buffers ?p ! i = pk_buffers p ! i" "i \<notin> set idxs" "i < rm_max_runs ?m"
      using lens m'(3) by (auto simp: fold_deleted split: if_splits)
    note pb = packer_buffer[OF ok b(3)]
    have "i \<in> set (keys (rm_idx_2_id ?m))" using pb(1) b(1) i(2) by simp
    then obtain r where r: "(r, i) \<in> set (rm_id_2_idx ?m)" using registry_pairs(1)[OF reg] unfolding mem_keys by blast
    have live: "r \<notin> set ?gone"
    proof
      assume "r \<in> set ?gone"
      moreover have "map_of (rm_id_2_idx ?m) r = Some i" using reg r by (simp add: registry_ok_def)
      ultimately show False using b(2) by (force simp: idxs_def)
    qed
    have "r \<in> set (keys (rm_id_2_idx ?m))" using r by force
    then have "r \<in> set (dk_found disk)" "\<not> ?ev r" using live by (auto simp: forgotten_runs_def)
    then have "(r, i) \<in> set (rm_id_2_idx m')" using m'(4) r unfolding list_all_iff by fastforce
    then have "i \<in> set (keys (rm_idx_2_id m'))" using registry_pairs(4)[OF m'(2)] by blast
    then show "i \<in> set (keys (rm_idx_2_id (pk_runs ?p))) \<and> buffer_ok c d t (run_step ?p i) (pk_buffers ?p ! i)"
      using pb(2) b(1) i(2) frame(2)[OF r live] by simp
  qed (use m'(2,3) lens frame(1) in \<open>simp_all add: fold_deleted\<close>)
  moreover have "pk_markers ?p = pk_markers p" by (simp add: fold_deleted)
  moreover have "\<forall>r \<in> set (keys (rm_id_2_idx (pk_runs ?p))). pk_markers p r = None" using m'(5) by (simp add: list_all_iff)
  moreover have "\<forall>(i, r) \<in> set (rm_idx_2_id ?m). pk_markers p r \<noteq> None \<longrightarrow> pk_buffers ?p ! i = []"
  proof clarify
    fix i r reason assume a: "(i, r) \<in> set (rm_idx_2_id ?m)" "pk_markers p r = Some reason"
    have r: "(r, i) \<in> set (rm_id_2_idx ?m)" using registry_pairs(1)[OF reg] a(1) by blast
    then have "map_of (rm_id_2_idx ?m) r = Some i" using reg by (simp add: registry_ok_def)
    moreover have "r \<in> set ?gone" using r a(2) by (force simp: forgotten_runs_def)
    ultimately have "i \<in> set idxs" by (force simp: idxs_def)
    moreover have "i \<in> set (keys (rm_idx_2_id ?m))" using a(1) by force
    then have "i < length (pk_buffers p)" using registry_key_bound[OF reg] lens(1) by simp
    ultimately show "pk_buffers ?p ! i = []" by (simp add: fold_deleted)
  qed
  ultimately show ?thesis by blast
qed

lemma buffer_ok_snoc:
  "buffer_ok c d t step q \<Longrightarrow> sample_ready c d t s \<Longrightarrow> step \<le> st \<Longrightarrow> \<forall>x \<in> set q. snd x \<le> st \<Longrightarrow> buffer_ok c d t step (q @ [(s, st)])"
  by (auto simp: buffer_ok_def sorted_append)

lemma buffer_examples_ok:
  "packer_ok c d t p \<Longrightarrow> i \<in> set (keys (rm_idx_2_id (pk_runs p))) \<Longrightarrow> run_step p i \<le> step \<Longrightarrow>
   \<forall>x \<in> set (pk_buffers p ! i). snd x \<le> step \<Longrightarrow>
   \<forall>s \<in> set ss. fst (validate_sample (pc_seq_len c) s) \<longrightarrow> sample_ready c d t s \<Longrightarrow>
   \<exists>p'. buffer_examples (pc_seq_len c) i step ss p = Ok p' \<and> packer_ok c d t p' \<and> pk_runs p' = pk_runs p \<and>
     (\<forall>j. j \<noteq> i \<longrightarrow> pk_buffers p' ! j = pk_buffers p ! j) \<and> (\<forall>x \<in> set (pk_buffers p' ! i). snd x \<le> step)"
proof (induction ss arbitrary: p)
  case (Cons s ss)
  show ?case
  proof (cases "fst (validate_sample (pc_seq_len c) s)")
    case False
    then show ?thesis using Cons.prems(1,4) by (simp add: packer_evict_ok) (simp add: packer_evict_def)
  next
    case True
    then have ready: "sample_ready c d t s" using Cons.prems(5) by simp
    have reg: "registry_ok (pk_runs p)" and len: "length (pk_buffers p) = rm_max_runs (pk_runs p)"
      using Cons.prems(1) by (simp_all add: packer_ok_def)
    have i: "i < length (pk_buffers p)" using registry_key_bound[OF reg Cons.prems(2)] len by simp
    let ?p = "p\<lparr> pk_buffers := (pk_buffers p)[i := pk_buffers p ! i @ [(s, step)]] \<rparr>"
    have bi: "buffer_ok c d t (run_step p i) (pk_buffers p ! i @ [(s, step)])"
    proof (cases "pk_buffers p ! i = []")
      case True
      then show ?thesis using ready Cons.prems(3) by (simp add: buffer_ok_def)
    next
      case False
      then show ?thesis using packer_buffer(2)[OF Cons.prems(1) _ False] i len
        by (intro buffer_ok_snoc[OF _ ready Cons.prems(3,4)]) simp
    qed
    have "packer_ok c d t ?p"
    proof (rule packer_okI)
      fix j assume "j < rm_max_runs (pk_runs ?p)" "pk_buffers ?p ! j \<noteq> []"
      then show "j \<in> set (keys (rm_idx_2_id (pk_runs ?p))) \<and> buffer_ok c d t (run_step ?p j) (pk_buffers ?p ! j)"
        using packer_buffer[OF Cons.prems(1), of j] bi i Cons.prems(2) by (cases "j = i") simp_all
    qed (use Cons.prems(1) in \<open>simp_all add: packer_ok_def\<close>)
    then have "\<exists>p'. buffer_examples (pc_seq_len c) i step ss ?p = Ok p' \<and> packer_ok c d t p' \<and> pk_runs p' = pk_runs ?p \<and>
     (\<forall>j. j \<noteq> i \<longrightarrow> pk_buffers p' ! j = pk_buffers ?p ! j) \<and> (\<forall>x \<in> set (pk_buffers p' ! i). snd x \<le> step)"
      by (rule Cons.IH) (use Cons.prems i in auto)
    then show ?thesis using True i by auto
  qed
qed auto

lemma buffer_batches_ok:
  "packer_ok c d t p \<Longrightarrow> arrivals_ok c d t batches p \<Longrightarrow>
   \<exists>p'. buffer_batches (pc_seq_len c) batches p = Ok p' \<and> packer_ok c d t p'"
proof (induction batches arbitrary: p)
  case (Cons b bs)
  have rest: "arrivals_ok c d t bs p" using Cons.prems(2) by (simp add: arrivals_ok_def)
  show ?case
  proof (cases "tb_run_idx b")
    case None
    then show ?thesis using Cons.IH[OF Cons.prems(1) rest] by simp
  next
    case (Some i)
    show ?thesis
    proof (cases "tb_examples b = []")
      case True
      have "arrivals_ok c d t bs (packer_evict i ''Run wrote a batch with no samples'' p)"
        using rest unfolding arrivals_ok_def packer_evict_fields .
      then show ?thesis using Cons.IH[of "packer_evict i ''Run wrote a batch with no samples'' p"] Cons.prems(1) Some True
        by (simp add: packer_evict_ok)
    next
      case False
      have b: "i \<in> set (keys (rm_idx_2_id (pk_runs p)))" "run_step p i \<le> tb_step b" "\<forall>x \<in> set (pk_buffers p ! i). snd x \<le> tb_step b"
          "\<forall>s \<in> set (tb_examples b). fst (validate_sample (pc_seq_len c) s) \<longrightarrow> sample_ready c d t s"
        using Cons.prems(2) Some by (simp_all add: arrivals_ok_def list_all_iff)
      obtain p1 where p1: "buffer_examples (pc_seq_len c) i (tb_step b) (tb_examples b) p = Ok p1" "packer_ok c d t p1" "pk_runs p1 = pk_runs p"
          "\<forall>j. j \<noteq> i \<longrightarrow> pk_buffers p1 ! j = pk_buffers p ! j" "\<forall>x \<in> set (pk_buffers p1 ! i). snd x \<le> tb_step b"
        using buffer_examples_ok[OF Cons.prems(1) b] by blast
      have later: "tb_step b \<le> tb_step b'" if "b' \<in> set bs" "tb_run_idx b' = Some i" for b'
        using Cons.prems(2) that Some by (simp add: arrivals_ok_def)
      have "arrivals_ok c d t bs p1"
        unfolding arrivals_ok_def
      proof (intro conjI)
        show "sorted_wrt (\<lambda>b b'. tb_run_idx b = tb_run_idx b' \<longrightarrow> tb_step b \<le> tb_step b') bs"
          using rest by (simp add: arrivals_ok_def)
        have "list_all (\<lambda>x. snd x \<le> tb_step b') (pk_buffers p1 ! j)" if "b' \<in> set bs" "tb_run_idx b' = Some j" for b' j
        proof (cases "j = i")
          case True
          then show ?thesis using p1(5) later[of b'] that by (fastforce simp: list_all_iff)
        next
          case False
          then show ?thesis using p1(4) rest that by (fastforce simp: arrivals_ok_def list_all_iff)
        qed
        then show "list_all (\<lambda>b. case tb_run_idx b of None \<Rightarrow> True | Some i \<Rightarrow>
            i \<in> set (keys (rm_idx_2_id (pk_runs p1))) \<and> run_step p1 i \<le> tb_step b \<and> list_all (\<lambda>x. snd x \<le> tb_step b) (pk_buffers p1 ! i) \<and>
            list_all (\<lambda>s. fst (validate_sample (pc_seq_len c) s) \<longrightarrow> sample_ready c d t s) (tb_examples b)) bs"
          using rest p1(3) unfolding arrivals_ok_def list_all_iff by (auto split: option.splits)
      qed
      then show ?thesis using Cons.IH[OF p1(2)] p1(1) Some False by simp
    qed
  qed
qed auto

definition poll_ok :: "PackerConfig \<Rightarrow> string \<Rightarrow> nat list \<Rightarrow> poll \<Rightarrow> MultiPacker \<Rightarrow> bool" where
  "poll_ok c d t po p \<longleftrightarrow> disk_ok c (po_before po) \<and> disk_ok c (po_after po) \<and>
     (case packer_discover c (po_before po) p of Inl _ \<Rightarrow> True | Inr p1 \<Rightarrow> arrivals_ok c d t (po_batches po) p1)"

text \<open>A batch that gets its run evicted: it is empty or has an invalid sample.\<close>

definition spoils :: "nat \<Rightarrow> (nat \<times> string) list \<Rightarrow> TrainingBatch \<Rightarrow> string \<Rightarrow> bool" where
  "spoils seq_len idx_2_id b run \<longleftrightarrow>
     (tb_examples b = [] \<or> list_ex (\<lambda>s. \<not> fst (validate_sample seq_len s)) (tb_examples b)) \<and>
     (case tb_run_idx b of None \<Rightarrow> False | Some i \<Rightarrow> map_of idx_2_id i = Some run)"

lemma evict_marks:
  "pk_markers (packer_evict i reason p) r \<noteq> None \<longleftrightarrow> pk_markers p r \<noteq> None \<or> map_of (rm_idx_2_id (pk_runs p)) i = Some r"
  by (auto simp: packer_evict_def evict_run_def split: option.split)

lemma buffer_examples_marks:
  "buffer_examples seq_len i step ss p = Ok p' \<Longrightarrow> pk_runs p' = pk_runs p \<and>
   (pk_markers p' r \<noteq> None \<longleftrightarrow> pk_markers p r \<noteq> None \<or>
      list_ex (\<lambda>s. \<not> fst (validate_sample seq_len s)) ss \<and> map_of (rm_idx_2_id (pk_runs p)) i = Some r)"
proof (induction ss arbitrary: p)
  case (Cons s ss)
  show ?case
  proof (cases "fst (validate_sample seq_len s)")
    case False
    let ?why = "''Run wrote a sample with invalid data: '' @ the (snd (validate_sample seq_len s))"
    have "p' = packer_evict i ?why p" using Cons.prems False by simp
    then show ?thesis using False evict_marks[of i ?why p r] packer_evict_fields[of i ?why p] by (simp del: append.simps)
  next
    case True
    let ?p = "p\<lparr> pk_buffers := (pk_buffers p)[i := pk_buffers p ! i @ [(s, step)]] \<rparr>"
    have "buffer_examples seq_len i step ss ?p = Ok p'" using Cons.prems True by (simp add: raise_if_def split: if_splits)
    from Cons.IH[OF this] show ?thesis using True by simp
  qed
qed simp

lemma buffer_batches_marks:
  "buffer_batches seq_len bs p = Ok p' \<Longrightarrow> pk_runs p' = pk_runs p \<and>
   (pk_markers p' r \<noteq> None \<longleftrightarrow> pk_markers p r \<noteq> None \<or> (\<exists>b \<in> set bs. spoils seq_len (rm_idx_2_id (pk_runs p)) b r))"
proof (induction bs arbitrary: p)
  case (Cons b bs)
  show ?case
  proof (cases "tb_run_idx b")
    case None
    then show ?thesis using Cons.IH[of p] Cons.prems by (simp add: spoils_def)
  next
    case (Some i)
    show ?thesis
    proof (cases "tb_examples b = []")
      case True
      then have run: "buffer_batches seq_len bs (packer_evict i ''Run wrote a batch with no samples'' p) = Ok p'" using Cons.prems Some by simp
      have "spoils seq_len (rm_idx_2_id (pk_runs p)) b r \<longleftrightarrow> map_of (rm_idx_2_id (pk_runs p)) i = Some r" by (simp add: spoils_def True Some)
      then show ?thesis using Cons.IH[OF run] unfolding evict_marks packer_evict_fields by auto
    next
      case False
      then obtain p1 where p1: "buffer_examples seq_len i (tb_step b) (tb_examples b) p = Ok p1" "buffer_batches seq_len bs p1 = Ok p'"
        using Cons.prems Some by (auto simp: result_simps)
      have "spoils seq_len (rm_idx_2_id (pk_runs p)) b r \<longleftrightarrow>
          list_ex (\<lambda>s. \<not> fst (validate_sample seq_len s)) (tb_examples b) \<and> map_of (rm_idx_2_id (pk_runs p)) i = Some r"
        using False by (simp add: spoils_def Some)
      then show ?thesis using Cons.IH[OF p1(2)] buffer_examples_marks[OF p1(1), of r] by auto
    qed
  qed
qed simp

text \<open>No run with a marker is registered.\<close>

definition marked_out :: "MultiPacker \<Rightarrow> bool" where
  "marked_out p \<longleftrightarrow> (\<forall>r \<in> set (keys (rm_id_2_idx (pk_runs p))). pk_markers p r = None)"

text \<open>One poll: the runs with a marker afterwards are those that had one and those a batch spoils; they leave the registry and their
  buffers are empty.\<close>

lemma get_batch_ok:
  assumes ok: "packer_ok c d t p" and cfg: "packer_config_ok c" and poll: "poll_ok c d t po p"
  shows "\<exists>p1 p'. packer_discover c (po_before po) p = Ok p1 \<and> get_batch c po p = Ok p' \<and> packer_ok c d t p' \<and> marked_out p' \<and>
     (\<forall>r. pk_markers p' r \<noteq> None \<longleftrightarrow>
        pk_markers p r \<noteq> None \<or> (\<exists>b \<in> set (po_batches po). spoils (pc_seq_len c) (rm_idx_2_id (pk_runs p1)) b r)) \<and>
     (\<forall>(i, r) \<in> set (rm_idx_2_id (pk_runs p1)). pk_markers p' r \<noteq> None \<longrightarrow> pk_buffers p' ! i = [])"
proof -
  obtain p1 where p1: "packer_discover c (po_before po) p = Ok p1" "packer_ok c d t p1" "pk_markers p1 = pk_markers p"
    using packer_discover_ok[OF ok cfg, of "po_before po"] poll by (auto simp: poll_ok_def)
  obtain p2 where p2: "buffer_batches (pc_seq_len c) (po_batches po) p1 = Ok p2" "packer_ok c d t p2"
    using buffer_batches_ok[OF p1(2)] poll p1(1) by (auto simp: poll_ok_def)
  note marks = buffer_batches_marks[OF p2(1)]
  have disk: "disk_ok c (po_after po)" using poll by (simp add: poll_ok_def)
  obtain p3 where p3: "packer_discover c (po_after po) p2 = Ok p3" "packer_ok c d t p3" "pk_markers p3 = pk_markers p2"
      "\<forall>r \<in> set (keys (rm_id_2_idx (pk_runs p3))). pk_markers p2 r = None"
      "\<forall>(i, r) \<in> set (rm_idx_2_id (pk_runs p2)). pk_markers p2 r \<noteq> None \<longrightarrow> pk_buffers p3 ! i = []"
    using packer_discover_ok[OF p2(2) cfg disk] by (elim exE conjE) (rule that)
  have "get_batch c po p = Ok p3" using p1(1) p2(1) p3(1) by (simp add: get_batch_def)
  moreover have "marked_out p3" using p3(3,4) by (simp add: marked_out_def)
  moreover have "\<forall>r. pk_markers p3 r \<noteq> None \<longleftrightarrow>
        pk_markers p r \<noteq> None \<or> (\<exists>b \<in> set (po_batches po). spoils (pc_seq_len c) (rm_idx_2_id (pk_runs p1)) b r)"
    unfolding p3(3) using marks p1(3) by simp
  moreover have "\<forall>(i, r) \<in> set (rm_idx_2_id (pk_runs p1)). pk_markers p3 r \<noteq> None \<longrightarrow> pk_buffers p3 ! i = []"
    using p3(5) unfolding p3(3) using marks by simp
  ultimately show ?thesis using p1(1) p3(2) by (intro exI[of _ p1] exI[of _ p3] conjI)
qed

section \<open>The wait ends with due work\<close>

abbreviation due_run :: "MultiPacker \<Rightarrow> nat \<Rightarrow> bool" where
  "due_run p i \<equiv> due (rm_progress (pk_runs p)) (pk_buffers p) i"

lemma count_runs_ok:
  "\<forall>i \<in> set is. i < length (pk_buffers p) \<and> i \<in> set (keys (rm_progress (pk_runs p))) \<Longrightarrow>
   \<exists>n. count_runs threshold p acc is = Ok n \<and> (acc < n \<longrightarrow> (\<exists>i \<in> set is. due_run p i))"
proof (induction "is" arbitrary: acc)
  case (Cons i "is")
  have i: "i < length (pk_buffers p)" "i \<in> set (keys (rm_progress (pk_runs p)))" using Cons.prems by simp_all
  obtain pr where pr: "map_of (rm_progress (pk_runs p)) i = Some pr" using i(2) by (cases "map_of (rm_progress (pk_runs p)) i") (auto simp: map_of_eq_None_iff)
  have step: "count_runs threshold p acc (i # is) =
      (case count_buffer threshold (pg_step pr) acc (pk_buffers p ! i) of Inl t \<Rightarrow> Ok t | Inr t \<Rightarrow> count_runs threshold p t is)"
    using i(1) pr by (simp add: nth_chk_def dict_get_def)
  show ?case
  proof (cases "due_run p i")
    case True
    then show ?thesis using Cons.IH Cons.prems unfolding step by (auto split: sum.splits)
  next
    case False
    then have "count_buffer threshold (pg_step pr) acc (pk_buffers p ! i) = Inr acc"
      using pr by (cases "pk_buffers p ! i") (auto simp: due_def)
    then show ?thesis using Cons.IH[of acc] Cons.prems unfolding step by auto
  qed
qed simp

lemma count_tokens_ok:
  assumes ok: "packer_ok c d t p"
  shows "\<exists>n. count_tokens threshold p = Ok n \<and> (0 < n \<longrightarrow> (\<exists>i < rm_max_runs (pk_runs p). due_run p i))"
proof -
  have reg: "registry_ok (pk_runs p)" and len: "length (pk_buffers p) = rm_max_runs (pk_runs p)" using ok by (simp_all add: packer_ok_def)
  have used: "\<forall>i \<in> set (used_idxs (pk_runs p)). i < length (pk_buffers p) \<and> i \<in> set (keys (rm_progress (pk_runs p)))"
    using registry_key_bound[OF reg] reg len by (auto simp: used_idxs_def registry_ok_def)
  from count_runs_ok[OF this, of threshold 0] show ?thesis using used len by (auto simp: count_tokens_def)
qed

fun polls_ok :: "PackerConfig \<Rightarrow> string \<Rightarrow> nat list \<Rightarrow> poll list \<Rightarrow> MultiPacker \<Rightarrow> bool" where
  "polls_ok c d t [] p = True"
| "polls_ok c d t (po # polls) p =
     (poll_ok c d t po p \<and> (case get_batch c po p of Inl _ \<Rightarrow> True | Inr p' \<Rightarrow> polls_ok c d t polls p'))"

lemma wait_for_tokens_ok:
  assumes cfg: "packer_config_ok c"
  shows "packer_ok c d t p \<Longrightarrow> polls_ok c d t polls p \<Longrightarrow> marked_out p \<Longrightarrow>
   wait_for_tokens c polls p = None \<or>
   (\<exists>p'. wait_for_tokens c polls p = Some (Ok p') \<and> packer_ok c d t p' \<and> (\<exists>i < rm_max_runs (pk_runs p'). due_run p' i) \<and>
     marked_out p' \<and> (\<forall>r. pk_markers p r \<noteq> None \<longrightarrow> pk_markers p' r \<noteq> None))"
proof (induction polls arbitrary: p)
  case Nil
  obtain n where "count_tokens (Some (pc_seq_len c * pc_dp_world_size c)) p = Ok n" "0 < n \<longrightarrow> (\<exists>i < rm_max_runs (pk_runs p). due_run p i)"
    using count_tokens_ok[OF Nil.prems(1)] by blast
  moreover have "0 < pc_seq_len c * pc_dp_world_size c" using cfg by (simp add: packer_config_ok_def)
  ultimately show ?case using Nil.prems(1,3)
    by (cases "pc_seq_len c * pc_dp_world_size c \<le> n") (simp_all add: wait_for_tokens.simps[of c "[]"] has_enough_tokens_def)
next
  case (Cons po polls)
  let ?th = "pc_seq_len c * pc_dp_world_size c"
  obtain n where n: "count_tokens (Some ?th) p = Ok n" "0 < n \<longrightarrow> (\<exists>i < rm_max_runs (pk_runs p). due_run p i)"
    using count_tokens_ok[OF Cons.prems(1)] by blast
  obtain n' where n': "count_tokens None p = Ok n'" "0 < n' \<longrightarrow> (\<exists>i < rm_max_runs (pk_runs p). due_run p i)"
    using count_tokens_ok[OF Cons.prems(1)] by blast
  have poll: "poll_ok c d t po p" using Cons.prems(2) by simp
  obtain p1 where p1: "get_batch c po p = Ok p1" "packer_ok c d t p1" "marked_out p1" "\<forall>r. pk_markers p r \<noteq> None \<longrightarrow> pk_markers p1 r \<noteq> None"
    using get_batch_ok[OF Cons.prems(1) cfg poll] by blast
  have "polls_ok c d t polls p1" using Cons.prems(2) p1(1) by simp
  from Cons.IH[OF p1(2) this p1(3)]
  have IH: "wait_for_tokens c polls p1 = None \<or>
     (\<exists>p'. wait_for_tokens c polls p1 = Some (Ok p') \<and> packer_ok c d t p' \<and> (\<exists>i < rm_max_runs (pk_runs p'). due_run p' i) \<and>
       marked_out p' \<and> (\<forall>r. pk_markers p r \<noteq> None \<longrightarrow> pk_markers p' r \<noteq> None))" using p1(4) by blast
  consider "?th \<le> n" | "n < ?th" "po_expired po" "0 < n'" | "n < ?th" "\<not> (po_expired po \<and> 0 < n')" by linarith
  then show ?case
  proof cases
    case 1
    then have "wait_for_tokens c (po # polls) p = Some (Ok p)"
      using n(1) by (simp add: wait_for_tokens.simps[of c "po # polls"] has_enough_tokens_def)
    moreover have "0 < ?th" using cfg by (simp add: packer_config_ok_def)
    then have "0 < n" using 1 by linarith
    ultimately show ?thesis using n(2) Cons.prems(1,3) by simp
  next
    case 2
    then have "wait_for_tokens c (po # polls) p = Some (Ok p)"
      using n(1) n'(1) by (simp add: wait_for_tokens.simps[of c "po # polls"] has_enough_tokens_def)
    then show ?thesis using n'(2) 2 Cons.prems(1,3) by simp
  next
    case 3
    then have "wait_for_tokens c (po # polls) p = wait_for_tokens c polls p1"
      using n(1) n'(1) p1(1) by (auto simp: wait_for_tokens.simps[of c "po # polls"] has_enough_tokens_def)
    then show ?thesis using IH by simp
  qed
qed

section \<open>Selecting from a good packer\<close>

abbreviation round_stream :: "MultiPacker \<Rightarrow> selection" where
  "round_stream p \<equiv> due_stream (rm_progress (pk_runs p)) (pk_buffers p) (pk_round_robin_position p)"

lemma longest_fit_nonempty:
  assumes "longest_fit budget stream []" "fitting budget (map snd stream)"
  shows "stream = []"
  using assms by (cases stream) (auto simp: longest_fit_def fitting_def)

lemma due_stream_nonempty:
  assumes "due progress buffers i" "i < length buffers"
  shows "due_stream progress buffers pos \<noteq> []"
proof -
  have "due_part progress buffers i \<noteq> []" using assms(1) by (cases "buffers ! i") (auto simp: due_def due_part_def)
  then show ?thesis using assms(2) by (auto simp: due_stream_def)
qed

lemma sample_ready_len: "sample_ready c d t s \<Longrightarrow> te_token_ids s \<noteq> [] \<and> length (te_token_ids s) \<le> pc_seq_len c"
  by (auto simp: sample_ready_def validate_sample_def Let_def split: if_splits)

lemma select_samples_ok:
  assumes ok: "packer_ok c d t p" and cfg: "packer_config_ok c"
  defines "budget \<equiv> pc_seq_len c * pc_dp_world_size c" and "n \<equiv> rm_max_runs (pk_runs p)"
  shows "\<exists>selected p'. select_samples_round_robin budget p = Ok (selected, p') \<and> packer_ok c d t p' \<and> pk_runs p' = pk_runs p \<and>
     (\<forall>i < n. pk_buffers p ! i = of_run i selected @ pk_buffers p' ! i) \<and>
     (\<forall>x \<in> set selected. fst x < n \<and> fst x \<in> set (keys (rm_idx_2_id (pk_runs p))) \<and> sample_ready c d t (fst (snd x)) \<and> snd (snd x) = run_step p (fst x)) \<and>
     longest_fit budget (round_stream p) selected \<and>
     pk_round_robin_position p' = next_position n budget (pk_round_robin_position p) (round_stream p) selected \<and>
     ((\<exists>i < n. due_run p i) \<longrightarrow> selected \<noteq> [])"
proof -
  let ?pr = "rm_progress (pk_runs p)"
  have reg: "registry_ok (pk_runs p)" and len: "length (pk_buffers p) = n" and pos: "pk_round_robin_position p < n"
    using ok by (simp_all add: packer_ok_def n_def)
  have pb: "i \<in> set (keys (rm_idx_2_id (pk_runs p)))" "buffer_ok c d t (run_step p i) (pk_buffers p ! i)"
    if "i < n" "pk_buffers p ! i \<noteq> []" for i using packer_buffer[OF ok] that by (simp_all add: n_def)
  have keys: "\<forall>i < length (pk_buffers p). pk_buffers p ! i \<noteq> [] \<longrightarrow> i \<in> set (keys ?pr)"
    using pb(1) reg len by (auto simp: registry_ok_def)
  have sl: "pc_seq_len c \<le> budget" "0 < budget" using cfg by (auto simp: packer_config_ok_def budget_def)
  have fit: "fitting budget (pk_buffers p ! i)" if "i < n" for i
    using pb(2)[OF that] sample_ready_len sl(1) by (cases "pk_buffers p ! i = []") (fastforce simp: fitting_def buffer_ok_def list_all_iff)+
  obtain sel bs pos' where sel: "select_loop budget ?pr (pk_buffers p) (pk_round_robin_position p) 0 [] = Ok ([] @ sel, bs, pos')"
      "length bs = n" "pos' < n" "\<forall>i < n. pk_buffers p ! i = of_run i sel @ bs ! i"
      "\<forall>x \<in> set sel. fst x < n \<and> snd (snd x) \<le> run_step p (fst x)" "longest_fit budget (round_stream p) sel"
      "pos' = next_position n budget (pk_round_robin_position p) (round_stream p) sel"
    using select_loop_ok[OF keys, of "pk_round_robin_position p" budget 0 "[]"] fit pos len by auto
  let ?p = "p\<lparr> pk_buffers := bs, pk_round_robin_position := pos' \<rparr>"
  have mem: "snd x \<in> set (pk_buffers p ! fst x)" if "x \<in> set sel" for x
  proof -
    have "snd x \<in> set (of_run (fst x) sel)" using that by (auto simp: of_run_def)
    then show ?thesis using sel(4,5) that by simp
  qed
  have taken: "fst x \<in> set (keys (rm_idx_2_id (pk_runs p))) \<and> sample_ready c d t (fst (snd x)) \<and> snd (snd x) = run_step p (fst x)"
    if x: "x \<in> set sel" for x
  proof -
    have "fst x < n" "pk_buffers p ! fst x \<noteq> []" using sel(5) x mem[OF x] by auto
    then show ?thesis using pb[of "fst x"] mem[OF x] sel(5) x by (fastforce simp: buffer_ok_def list_all_iff)
  qed
  have "packer_ok c d t ?p"
  proof (rule packer_okI)
    fix i assume i: "i < rm_max_runs (pk_runs ?p)" "pk_buffers ?p ! i \<noteq> []"
    then have split: "pk_buffers p ! i = of_run i sel @ bs ! i" "pk_buffers p ! i \<noteq> []" "i < n" using sel(4) by (auto simp: n_def)
    then show "i \<in> set (keys (rm_idx_2_id (pk_runs ?p))) \<and> buffer_ok c d t (run_step ?p i) (pk_buffers ?p ! i)"
      using pb[of i] by (auto simp: buffer_ok_def sorted_append)
  qed (use ok sel(2,3) in \<open>simp_all add: packer_ok_def n_def\<close>)
  moreover have "select_samples_round_robin budget p = Ok (sel, ?p)" using sel(1) by (simp add: select_samples_round_robin_def)
  moreover have "sel \<noteq> []" if work: "\<exists>i < n. due_run p i"
  proof
    assume "sel = []"
    then have "round_stream p = []"
      using sel(6) longest_fit_nonempty due_stream_fitting[of "pk_buffers p" budget] fit len by metis
    then show False using work due_stream_nonempty len by metis
  qed
  ultimately show ?thesis using sel(4-7) taken by (intro exI[of _ sel] exI[of _ ?p]) simp
qed

section \<open>Grouping and accounting\<close>

definition group_of :: "buffered list \<Rightarrow> RunGroup" where
  "group_of q = \<lparr> rg_samples = map fst q, rg_step = snd (hd q), rg_num_samples = length q, rg_num_tokens = toks q \<rparr>"

definition groups_of :: "selection \<Rightarrow> (nat \<times> RunGroup) list \<Rightarrow> bool" where
  "groups_of selected groups \<longleftrightarrow> distinct (keys groups) \<and>
     (\<forall>i. map_of groups i = (if of_run i selected = [] then None else Some (group_of (of_run i selected))))"

lemma of_run_single: "of_run i [(j, x)] = (if i = j then [x] else [])"
  by (simp add: of_run_def)

lemma set_keys_dict_set: "set (keys (dict_set k v d)) = insert k (set (keys d))"
  by (induction d) auto

lemma distinct_dict_set: "distinct (keys d) \<Longrightarrow> distinct (keys (dict_set k v d))"
  by (induction d) (auto simp: set_keys_dict_set simp del: set_map)

lemma group_samples_ok:
  "groups_of before groups \<Longrightarrow> \<forall>x \<in> set (before @ selected). snd (snd x) = st (fst x) \<Longrightarrow>
   \<exists>groups'. group_samples selected groups = Ok groups' \<and> groups_of (before @ selected) groups'"
proof (induction selected arbitrary: before groups)
  case (Cons x rest)
  obtain i s step where x: "x = (i, s, step)" by (cases x)
  let ?q = "of_run i before"
  have gi: "map_of groups i = (if ?q = [] then None else Some (group_of ?q))" using Cons.prems(1) by (simp add: groups_of_def)
  let ?g = "group_of (?q @ [(s, step)])"
  have one: "group_samples (x # rest) groups = group_samples rest (dict_set i ?g groups)"
  proof (cases "?q = []")
    case True
    then show ?thesis using gi x by (simp add: group_of_def)
  next
    case False
    obtain y where y: "y \<in> set before" "fst y = i" "snd y = hd ?q"
      using False hd_in_set[OF False] by (auto simp: of_run_def)
    then have "snd (hd ?q) = step" using Cons.prems(2) x by (metis Un_iff fst_conv list.set_intros(1) set_append snd_conv)
    then show ?thesis using gi x False by (simp add: group_of_def hd_append)
  qed
  have "groups_of (before @ [x]) (dict_set i ?g groups)"
    using Cons.prems(1) by (auto simp: groups_of_def x of_run_single map_of_dict_set distinct_dict_set)
  then have "\<exists>groups'. group_samples rest (dict_set i ?g groups) = Ok groups' \<and> groups_of ((before @ [x]) @ rest) groups'"
    by (rule Cons.IH) (use Cons.prems(2) in auto)
  then show ?case using one by simp
qed auto

lemma registry_ok_ready [simp]: "registry_ok (m\<lparr> rm_progress := pr, rm_ready_to_update := r \<rparr>) = registry_ok (m\<lparr> rm_progress := pr \<rparr>)"
  by (simp add: registry_ok_def)

lemma update_run_progress_ok:
  assumes ok: "packer_ok c d t p" and i: "i \<in> set (keys (rm_idx_2_id (pk_runs p)))"
  shows "\<exists>p'. update_run_progress i ns nt p = Ok p' \<and> packer_ok c d t p' \<and> pk_buffers p' = pk_buffers p \<and>
     rm_idx_2_id (pk_runs p') = rm_idx_2_id (pk_runs p) \<and> rm_max_runs (pk_runs p') = rm_max_runs (pk_runs p)"
proof -
  have reg: "registry_ok (pk_runs p)" using ok by (simp add: packer_ok_def)
  let ?pr = "rm_progress (pk_runs p)" and ?q = "pk_buffers p ! i"
  have il: "i < rm_max_runs (pk_runs p)" by (rule registry_key_bound[OF reg i])
  then have ib: "i < length (pk_buffers p)" "i < length (rm_ready_to_update (pk_runs p))" using ok by (simp_all add: packer_ok_def)
  have ik: "i \<in> set (keys ?pr)" using i reg by (simp add: registry_ok_def)
  then obtain pr where pr: "map_of ?pr i = Some pr" by (cases "map_of ?pr i") (auto simp: map_of_eq_None_iff)
  define adv where "adv = (?q = [] \<or> snd (hd ?q) > pg_step pr)"
  define pr' where "pr' = pr\<lparr> pg_step := (if adv then pg_step pr + 1 else pg_step pr),
      pg_total_tokens := pg_total_tokens pr + int nt, pg_total_samples := pg_total_samples pr + int ns \<rparr>"
  define p' where "p' = p\<lparr> pk_runs := (pk_runs p)\<lparr> rm_progress := dict_set i pr' ?pr,
      rm_ready_to_update := (if adv then (rm_ready_to_update (pk_runs p))[i := True] else rm_ready_to_update (pk_runs p)) \<rparr> \<rparr>"
  have run: "update_run_progress i ns nt p = Ok p'"
    using ib pr by (simp add: update_run_progress_def nth_chk_def dict_get_def Let_def adv_def[symmetric] pr'_def[symmetric] p'_def)
  have keys: "set (keys (dict_set i pr' ?pr)) = set (keys (rm_idx_2_id (pk_runs p)))" "distinct (keys (dict_set i pr' ?pr))"
    using ik reg by (auto simp: set_keys_dict_set distinct_dict_set registry_ok_def simp del: set_map)
  have reg': "registry_ok (pk_runs p')" using registry_ok_progress[OF reg keys] by (simp add: p'_def)
  have step: "run_step p' j = (if j = i then pg_step pr' else run_step p j)" for j by (simp add: p'_def map_of_dict_set)
  have "packer_ok c d t p'"
  proof (rule packer_okI)
    fix j assume "j < rm_max_runs (pk_runs p')" "pk_buffers p' ! j \<noteq> []"
    then have j: "j < rm_max_runs (pk_runs p)" "pk_buffers p ! j \<noteq> []" by (simp_all add: p'_def)
    note pb = packer_buffer[OF ok j]
    have "buffer_ok c d t (pg_step pr') ?q" if "j = i"
    proof (cases adv)
      case True
      have b: "buffer_ok c d t (pg_step pr) ?q" using pb(2) that pr by simp
      have "pg_step pr < snd (hd ?q)" "?q \<noteq> []" using True j that by (auto simp: adv_def)
      moreover from this have "snd (hd ?q) \<le> snd x" if "x \<in> set ?q" for x
        using b that by (cases ?q) (auto simp: buffer_ok_def)
      ultimately show ?thesis using b True by (fastforce simp: buffer_ok_def list_all_iff pr'_def)
    next
      case False
      then show ?thesis using pb(2) that pr by (simp add: pr'_def)
    qed
    then show "j \<in> set (keys (rm_idx_2_id (pk_runs p'))) \<and> buffer_ok c d t (run_step p' j) (pk_buffers p' ! j)"
      using pb unfolding step by (auto simp: p'_def)
  qed (use ok reg' in \<open>simp_all add: packer_ok_def p'_def\<close>)
  then show ?thesis using run by (simp add: p'_def)
qed

lemma update_groups_ok:
  "packer_ok c d t p \<Longrightarrow> set (keys gs) \<subseteq> set (keys (rm_idx_2_id (pk_runs p))) \<Longrightarrow>
   \<exists>p'. update_groups gs p = Ok p' \<and> packer_ok c d t p' \<and> pk_buffers p' = pk_buffers p \<and>
     rm_idx_2_id (pk_runs p') = rm_idx_2_id (pk_runs p) \<and> rm_max_runs (pk_runs p') = rm_max_runs (pk_runs p)"
proof (induction gs arbitrary: p)
  case (Cons x gs)
  obtain i g where x: "x = (i, g)" by (cases x)
  have "i \<in> set (keys (rm_idx_2_id (pk_runs p)))" using Cons.prems(2) x by simp
  then obtain p1 where p1: "update_run_progress i (rg_num_samples g) (rg_num_tokens g) p = Ok p1" "packer_ok c d t p1"
      "pk_buffers p1 = pk_buffers p" "rm_idx_2_id (pk_runs p1) = rm_idx_2_id (pk_runs p)" "rm_max_runs (pk_runs p1) = rm_max_runs (pk_runs p)"
    using update_run_progress_ok[OF Cons.prems(1)] by blast
  have "set (keys gs) \<subseteq> set (keys (rm_idx_2_id (pk_runs p1)))" using Cons.prems(2) p1(4) by simp
  from Cons.IH[OF p1(2) this] show ?case using p1 x by auto
qed auto

section \<open>Packing run by run\<close>

text \<open>The trained tokens a grid holds for a run, and those of one prepared sample.\<close>

definition stamped_tokens :: "RunMicroBatch list list \<Rightarrow> string \<Rightarrow> token list" where
  "stamped_tokens grid r = concat (map (\<lambda>b. if rb_run_id b = r then trained (rb_batch b) else []) (concat grid))"

definition sample_tokens :: "PackerConfig \<Rightarrow> TrainingExample \<Rightarrow> token list" where
  "sample_tokens c s = (case prepare_sample (pc_grid_rows c) (pc_itemsize c) s (pc_seq_len c) of Inl _ \<Rightarrow> [] | Inr mb \<Rightarrow> trained mb)"

definition group_tokens :: "PackerConfig \<Rightarrow> MultiRunManager \<Rightarrow> string \<Rightarrow> nat \<times> RunGroup \<Rightarrow> token list" where
  "group_tokens c m r ig = (if map_of (rm_idx_2_id m) (fst ig) = Some r then concat (map (sample_tokens c) (rg_samples (snd ig))) else [])"

definition even_grid :: "nat \<Rightarrow> 'a list list \<Rightarrow> bool" where
  "even_grid workers grid \<longleftrightarrow> length grid = workers \<and> (\<exists>k. list_all (\<lambda>row. length row = k) grid)"

lemma mset_concat_map2: "length a = length b \<Longrightarrow> mset (concat (map2 (@) a b)) = mset (concat a) + mset (concat b)"
  by (induction a b rule: list_induct2) auto

lemma stamped_merge:
  assumes "length a = length b"
  shows "mset (stamped_tokens (map2 (@) a b) r) = mset (stamped_tokens a r) + mset (stamped_tokens b r)"
proof -
  have "mset (concat (map2 (@) a b)) = mset (concat a @ concat b)" by (simp add: mset_concat_map2[OF assms])
  from mset_concat_map[OF this, of "\<lambda>b. if rb_run_id b = r then trained (rb_batch b) else []"]
  show ?thesis by (simp add: stamped_tokens_def)
qed

lemma stamped_stamp:
  "stamped_tokens (map (map (stamp run st)) grid) r = (if run = r then concat (map trained (concat grid)) else [])"
proof -
  have "concat (map (map (stamp run st)) grid) = map (stamp run st) (concat grid)" by (simp add: map_concat)
  then show ?thesis by (simp add: stamped_tokens_def o_def stamp_def)
qed

lemma even_grid_merge: "even_grid w a \<Longrightarrow> even_grid w b \<Longrightarrow> even_grid w (map2 (@) a b)"
proof -
  assume "even_grid w a" "even_grid w b"
  then obtain k l where kl: "length a = w" "length b = w" "\<forall>x \<in> set a. length x = k" "\<forall>x \<in> set b. length x = l"
    by (auto simp: even_grid_def list_all_iff)
  then have "\<forall>x \<in> set (map2 (@) a b). length x = k + l" by (fastforce dest: set_zip_leftD set_zip_rightD)
  then show ?thesis using kl(1,2) by (auto simp: even_grid_def list_all_iff)
qed

lemma prepare_run_ok:
  assumes cfg: "packer_config_ok c" and ready: "\<forall>s \<in> set ss. sample_ready c d t s" and i: "i < loras"
  shows "\<exists>grid. prepare_batch (pc_grid_rows c) (pc_itemsize c) (pc_bin_cost c) ss (pc_seq_len c) (pc_dp_world_size c)
       (replicate (length ss) i) loras (pc_pad_to_multiple_of c) = Some (Ok grid) \<and> even_grid (pc_dp_world_size c) grid \<and>
     (\<forall>mb \<in> set (concat grid). batch_ok (pc_seq_len c) (pc_pad_to_multiple_of c) mb) \<and>
     mset (concat (map trained (concat grid))) = mset (concat (map (sample_tokens c) ss))"
proof -
  let ?prep = "\<lambda>s. prepare_sample (pc_grid_rows c) (pc_itemsize c) s (pc_seq_len c)"
  define mb where "mb s = projr (?prep s)" for s
  have mb: "?prep s = Ok (mb s)" "mb_input_ids (mb s) \<noteq> []" "pred_option (rx_like d t) (mb_routed_experts (mb s))"
      "trained (mb s) = sample_tokens c s" if "s \<in> set ss" for s
    using bspec[OF ready that] by (cases "?prep s"; simp add: sample_ready_def mb_def sample_tokens_def)+
  have tr: "traverse (\<lambda>(i, ex). bindE (?prep ex) (\<lambda>mb. Ok (i, mb))) (zip (replicate (length ss) i) ss) = Ok (map (\<lambda>q. (i, mb (snd q))) (zip (replicate (length ss) i) ss))"
    by (rule traverse_total) (use mb(1) in \<open>auto simp: zip_replicate1\<close>)
  have samples: "map (\<lambda>q. (i, mb (snd q))) (zip (replicate (length ss) i) ss) = map (\<lambda>s. (i, mb s)) ss"
    by (simp add: zip_replicate1 o_def)
  have hyp: "\<forall>q \<in> set (map (\<lambda>s. (i, mb s)) ss). fst q < loras \<and> mb_input_ids (snd q) \<noteq> [] \<and> pred_option (rx_like d t) (mb_routed_experts (snd q))"
    using mb(2,3) i by auto
  have pos: "\<forall>n. 0 < n \<longrightarrow> 0 < pc_bin_cost c [n]" "0 < pc_dp_world_size c" "0 < loras" "0 < pc_pad_to_multiple_of c"
    using cfg i by (auto simp: packer_config_ok_def)
  obtain grid m n where g: "prepare_batch (pc_grid_rows c) (pc_itemsize c) (pc_bin_cost c) ss (pc_seq_len c) (pc_dp_world_size c)
       (replicate (length ss) i) loras (pc_pad_to_multiple_of c) = Some (Ok grid)" "length grid = pc_dp_world_size c"
      "list_all (rank_ok m n) grid" "list_all (list_all (batch_ok (pc_seq_len c) (pc_pad_to_multiple_of c))) grid"
      "mset (concat (map trained (concat grid))) = mset (concat (map (\<lambda>p. trained (snd p)) (map (\<lambda>s. (i, mb s)) ss)))"
    using prepare_batch_total[OF tr[unfolded samples] hyp pos] by (elim exE conjE) (rule that)
  have "concat (map (\<lambda>p. trained (snd p)) (map (\<lambda>s. (i, mb s)) ss)) = concat (map (sample_tokens c) ss)"
    using mb(4) by (auto simp: o_def intro!: arg_cong[of _ _ concat])
  moreover have "even_grid (pc_dp_world_size c) grid"
    using g(2,3) by (auto simp: even_grid_def rank_ok_def list_all_iff)
  ultimately show ?thesis using g(1,4,5) by (auto simp: list_all_iff)
qed

lemma pack_runs_ok:
  assumes cfg: "packer_config_ok c"
  shows "even_grid (pc_dp_world_size c) all \<Longrightarrow>
   \<forall>ig \<in> set gs. fst ig \<in> set (keys (rm_idx_2_id m)) \<and> fst ig < rm_max_runs m \<and> (\<forall>s \<in> set (rg_samples (snd ig)). sample_ready c d t s) \<Longrightarrow>
   \<exists>grid. pack_runs c m gs all = Some (Ok grid) \<and> even_grid (pc_dp_world_size c) grid \<and>
     (\<forall>r. mset (stamped_tokens grid r) = mset (stamped_tokens all r) + mset (concat (map (group_tokens c m r) gs))) \<and>
     (\<forall>b \<in> set (concat grid). b \<in> set (concat all) \<or> (batch_ok (pc_seq_len c) (pc_pad_to_multiple_of c) (rb_batch b) \<and>
        (\<exists>ig \<in> set gs. map_of (rm_idx_2_id m) (fst ig) = Some (rb_run_id b) \<and> rb_run_step b = rg_step (snd ig))))"
proof (induction gs arbitrary: all)
  case (Cons ig gs)
  obtain i g where ig: "ig = (i, g)" by (cases ig)
  have i: "i \<in> set (keys (rm_idx_2_id m))" "i < rm_max_runs m" "\<forall>s \<in> set (rg_samples g). sample_ready c d t s"
    using Cons.prems(2) ig by auto
  obtain run where run: "map_of (rm_idx_2_id m) i = Some run" using i(1) by (cases "map_of (rm_idx_2_id m) i") (auto simp: map_of_eq_None_iff)
  obtain grid where grid: "prepare_batch (pc_grid_rows c) (pc_itemsize c) (pc_bin_cost c) (rg_samples g) (pc_seq_len c) (pc_dp_world_size c)
       (replicate (length (rg_samples g)) i) (rm_max_runs m) (pc_pad_to_multiple_of c) = Some (Ok grid)"
      "even_grid (pc_dp_world_size c) grid" "\<forall>mb \<in> set (concat grid). batch_ok (pc_seq_len c) (pc_pad_to_multiple_of c) mb"
      "mset (concat (map trained (concat grid))) = mset (concat (map (sample_tokens c) (rg_samples g)))"
    using prepare_run_ok[OF cfg i(3,2)] by blast
  let ?new = "map (map (stamp run (rg_step g))) grid"
  have len: "length all = pc_dp_world_size c" "length ?new = pc_dp_world_size c" using Cons.prems(1) grid(2) by (simp_all add: even_grid_def)
  have merge: "merge_grid all ?new = Ok (map2 (@) all ?new)" using len by (simp add: merge_grid_def)
  have step: "pack_runs c m (ig # gs) all = pack_runs c m gs (map2 (@) all ?new)"
    using grid(1) run merge ig by (simp add: dict_get_def)
  have "even_grid (pc_dp_world_size c) ?new" using grid(2) by (auto simp: even_grid_def list_all_iff)
  then have ev: "even_grid (pc_dp_world_size c) (map2 (@) all ?new)" by (rule even_grid_merge[OF Cons.prems(1)])
  obtain out where out: "pack_runs c m gs (map2 (@) all ?new) = Some (Ok out)" "even_grid (pc_dp_world_size c) out"
      "\<forall>r. mset (stamped_tokens out r) = mset (stamped_tokens (map2 (@) all ?new) r) + mset (concat (map (group_tokens c m r) gs))"
      "\<forall>b \<in> set (concat out). b \<in> set (concat (map2 (@) all ?new)) \<or> (batch_ok (pc_seq_len c) (pc_pad_to_multiple_of c) (rb_batch b) \<and>
        (\<exists>ig \<in> set gs. map_of (rm_idx_2_id m) (fst ig) = Some (rb_run_id b) \<and> rb_run_step b = rg_step (snd ig)))"
    using Cons.IH[OF ev] Cons.prems(2) by auto
  have toks: "mset (stamped_tokens out r) = mset (stamped_tokens all r) + mset (concat (map (group_tokens c m r) (ig # gs)))" for r
    using out(3) stamped_merge[of all ?new r] len run grid(4) ig by (simp add: stamped_stamp group_tokens_def)
  have "set (concat (map2 (@) all ?new)) = set (concat all) \<union> set (concat ?new)"
    using mset_concat_map2[of all ?new] len by (metis set_mset_mset set_mset_union)
  moreover have "batch_ok (pc_seq_len c) (pc_pad_to_multiple_of c) (rb_batch b) \<and>
      map_of (rm_idx_2_id m) (fst ig) = Some (rb_run_id b) \<and> rb_run_step b = rg_step (snd ig)" if "b \<in> set (concat ?new)" for b
    using that grid(3) run ig by (auto simp: stamp_def)
  ultimately show ?case using out(1,2,4) toks step by (intro exI[of _ out]) (auto simp del: set_concat)
qed auto

lemma concat_pick:
  "distinct ks \<Longrightarrow> concat (map (\<lambda>j. if j = i then f j else []) ks) = (if i \<in> set ks then f i else [])"
  by (induction ks) auto

lemma sorted_groups_tokens:
  assumes g: "groups_of selected groups" and reg: "registry_ok m0" "rm_idx_2_id m = rm_idx_2_id m0" and ir: "(i, r) \<in> set (rm_idx_2_id m0)"
  shows "concat (map (group_tokens c m r) (sorted_groups groups)) = concat (map (sample_tokens c) (map fst (of_run i selected)))"
proof -
  have d: "distinct (keys (rm_idx_2_id m0))" "distinct (keys groups)" using reg g by (simp_all add: registry_ok_def groups_of_def)
  have one: "map_of (rm_idx_2_id m0) j = Some r \<longleftrightarrow> j = i" for j
  proof
    assume "map_of (rm_idx_2_id m0) j = Some r"
    then have "(j, r) \<in> set (rm_idx_2_id m0)" by (rule map_of_SomeD)
    then show "j = i" using registry_pairs(3)[OF reg(1), of r j i] ir unfolding registry_pairs(1)[OF reg(1)] by blast
  qed (use ir d in simp)
  let ?f = "\<lambda>j. concat (map (sample_tokens c) (rg_samples (the (map_of groups j))))"
  have "concat (map (group_tokens c m r) (sorted_groups groups)) = concat (map (\<lambda>j. if j = i then ?f j else []) (sort (keys groups)))"
    by (auto simp: sorted_groups_def group_tokens_def reg(2) one o_def intro!: arg_cong[of _ _ concat])
  also have "\<dots> = (if i \<in> set (keys groups) then ?f i else [])" using d(2) by (simp add: concat_pick)
  also have "\<dots> = concat (map (sample_tokens c) (map fst (of_run i selected)))"
  proof (cases "of_run i selected = []")
    case True
    then have "map_of groups i = None" using g by (simp add: groups_of_def)
    then show ?thesis using True by (simp add: map_of_eq_None_iff)
  next
    case False
    then have "map_of groups i = Some (group_of (of_run i selected))" using g by (simp add: groups_of_def)
    moreover from this have "i \<in> set (keys groups)" by (metis map_of_eq_None_iff option.distinct(1) set_map)
    ultimately show ?thesis by (simp add: group_of_def del: set_map)
  qed
  finally show ?thesis .
qed

lemma pack_selected_ok:
  assumes ok: "packer_ok c d t p" and cfg: "packer_config_ok c" and work: "\<exists>i < rm_max_runs (pk_runs p). due_run p i"
  shows "\<exists>selected p1 grid p2.
     select_samples_round_robin (pc_seq_len c * pc_dp_world_size c) p = Ok (selected, p1) \<and>
     pack_selected c p = Some (Ok (grid, p2)) \<and> packer_ok c d t p2 \<and> pk_buffers p2 = pk_buffers p1 \<and>
     even_grid (pc_dp_world_size c) grid \<and>
     (\<forall>(i, r) \<in> set (rm_idx_2_id (pk_runs p)). mset (stamped_tokens grid r) = mset (concat (map (sample_tokens c) (map fst (of_run i selected))))) \<and>
     (\<forall>b \<in> set (concat grid). batch_ok (pc_seq_len c) (pc_pad_to_multiple_of c) (rb_batch b) \<and>
        (\<exists>i. (i, rb_run_id b) \<in> set (rm_idx_2_id (pk_runs p)) \<and> of_run i selected \<noteq> [] \<and> rb_run_step b = run_step p i))"
proof -
  let ?budget = "pc_seq_len c * pc_dp_world_size c"
  obtain sel p1 where sel: "select_samples_round_robin ?budget p = Ok (sel, p1)" "packer_ok c d t p1" "pk_runs p1 = pk_runs p" "sel \<noteq> []"
      and taken: "\<forall>x \<in> set sel. fst x < rm_max_runs (pk_runs p) \<and> fst x \<in> set (keys (rm_idx_2_id (pk_runs p))) \<and>
        sample_ready c d t (fst (snd x)) \<and> snd (snd x) = run_step p (fst x)"
    using select_samples_ok[OF ok cfg] work by blast
  have reg: "registry_ok (pk_runs p)" using ok by (simp add: packer_ok_def)
  have "groups_of [] []" by (simp add: groups_of_def)
  then obtain groups where groups: "group_samples sel [] = Ok groups" "groups_of sel groups"
    using group_samples_ok[of "[]" "[]" sel "run_step p"] taken by auto
  have gk: "j \<in> set (keys groups) \<longleftrightarrow> of_run j sel \<noteq> []" for j
    using groups(2) map_of_eq_None_iff[of groups j] by (simp add: groups_of_def split: if_splits)
  have run_mem: "\<exists>x \<in> set sel. fst x = j" if "of_run j sel \<noteq> []" for j
    using that by (auto simp: of_run_def filter_empty_conv)
  have sub: "set (keys groups) \<subseteq> set (keys (rm_idx_2_id (pk_runs p1)))"
    unfolding sel(3) by (rule subsetI, drule gk[THEN iffD1], drule run_mem) (use taken in blast)
  obtain p2 where p2: "update_groups groups p1 = Ok p2" "packer_ok c d t p2" "pk_buffers p2 = pk_buffers p1"
      "rm_idx_2_id (pk_runs p2) = rm_idx_2_id (pk_runs p1)" "rm_max_runs (pk_runs p2) = rm_max_runs (pk_runs p1)"
    using update_groups_ok[OF sel(2) sub] by blast
  have gof: "the (map_of groups j) = group_of (of_run j sel)" if "of_run j sel \<noteq> []" for j
    using groups(2) that by (simp add: groups_of_def)
  have each: "fst ig \<in> set (keys (rm_idx_2_id (pk_runs p2))) \<and> fst ig < rm_max_runs (pk_runs p2) \<and>
      (\<forall>s \<in> set (rg_samples (snd ig)). sample_ready c d t s) \<and> of_run (fst ig) sel \<noteq> [] \<and> rg_step (snd ig) = run_step p (fst ig)"
    if mem: "ig \<in> set (sorted_groups groups)" for ig
  proof -
    obtain j where j: "ig = (j, the (map_of groups j))" "j \<in> set (keys groups)" using mem by (auto simp: sorted_groups_def)
    have ne: "of_run j sel \<noteq> []" using gk j(2) by simp
    obtain x where "x \<in> set sel" "fst x = j" using run_mem[OF ne] by blast
    moreover have "\<forall>y \<in> set (of_run j sel). sample_ready c d t (fst y) \<and> snd y = run_step p j"
      using taken by (auto simp: of_run_def)
    ultimately show ?thesis using taken ne j(1) p2(4,5) sel(3) hd_in_set[OF ne] by (auto simp: gof[OF ne] group_of_def)
  qed
  let ?empty = "replicate (pc_dp_world_size c) [] :: RunMicroBatch list list"
  have "even_grid (pc_dp_world_size c) ?empty" by (auto simp: even_grid_def list_all_iff)
  moreover have "\<forall>ig \<in> set (sorted_groups groups). fst ig \<in> set (keys (rm_idx_2_id (pk_runs p2))) \<and> fst ig < rm_max_runs (pk_runs p2) \<and>
      (\<forall>s \<in> set (rg_samples (snd ig)). sample_ready c d t s)" using each by blast
  ultimately obtain grid where grid: "pack_runs c (pk_runs p2) (sorted_groups groups) ?empty = Some (Ok grid)" "even_grid (pc_dp_world_size c) grid"
      "\<forall>r. mset (stamped_tokens grid r) = mset (stamped_tokens ?empty r) + mset (concat (map (group_tokens c (pk_runs p2) r) (sorted_groups groups)))"
      "\<forall>b \<in> set (concat grid). b \<in> set (concat ?empty) \<or> (batch_ok (pc_seq_len c) (pc_pad_to_multiple_of c) (rb_batch b) \<and>
        (\<exists>ig \<in> set (sorted_groups groups). map_of (rm_idx_2_id (pk_runs p2)) (fst ig) = Some (rb_run_id b) \<and> rb_run_step b = rg_step (snd ig)))"
    using pack_runs_ok[OF cfg] by blast
  have none: "concat ?empty = []" "stamped_tokens ?empty r = []" for r by (simp_all add: stamped_tokens_def)
  have "pack_selected c p = Some (Ok (grid, p2))"
    using sel(1,4) groups(1) p2(1) grid(1) by (simp add: pack_selected_def)
  moreover have "mset (stamped_tokens grid r) = mset (concat (map (sample_tokens c) (map fst (of_run i sel))))"
    if "(i, r) \<in> set (rm_idx_2_id (pk_runs p))" for i r
    using grid(3) sorted_groups_tokens[OF groups(2) reg _ that, of "pk_runs p2" c] p2(4) sel(3) by (simp add: none)
  moreover have "batch_ok (pc_seq_len c) (pc_pad_to_multiple_of c) (rb_batch b) \<and>
      (\<exists>i. (i, rb_run_id b) \<in> set (rm_idx_2_id (pk_runs p)) \<and> of_run i sel \<noteq> [] \<and> rb_run_step b = run_step p i)"
    if b: "b \<in> set (concat grid)" for b
  proof -
    obtain ig where ig: "batch_ok (pc_seq_len c) (pc_pad_to_multiple_of c) (rb_batch b)" "ig \<in> set (sorted_groups groups)"
        "map_of (rm_idx_2_id (pk_runs p2)) (fst ig) = Some (rb_run_id b)" "rb_run_step b = rg_step (snd ig)"
      using bspec[OF grid(4) b] none by auto
    have "(fst ig, rb_run_id b) \<in> set (rm_idx_2_id (pk_runs p))" using map_of_SomeD[OF ig(3)] p2(4) sel(3) by simp
    then show ?thesis using ig(1,4) each[OF ig(2)] by auto
  qed
  ultimately show ?thesis using sel(1) p2(2,3) grid(2)
    by (intro exI[of _ sel] exI[of _ p1] exI[of _ grid] exI[of _ p2]) blast
qed

section \<open>Correctness of the packer\<close>

text \<open>
  C38: Round-robin selection is fair to order and to the budget. From a good packer it returns (no \<open>KeyError\<close> or
  \<open>IndexError\<close>, and the loop ends) exactly the longest prefix, within the token budget, of one stream: the samples due (those
  of each run's current step at the front of its buffer), run after run from the round-robin position on, each run in arrival order.
  It stops at the first sample of that stream that does not fit, even if a later one would. From every buffer it takes a prefix and
  drops nothing; the next selection starts after the run served last; and the selection is not empty when some run has due work.
\<close>

theorem select_round_robin_fifo:
  assumes "packer_ok c d t p" and "packer_config_ok c"
  shows "let budget = pc_seq_len c * pc_dp_world_size c; n = rm_max_runs (pk_runs p); pos = pk_round_robin_position p;
       stream = concat (map (\<lambda>i. map (Pair i) (takeWhile (\<lambda>x. snd x \<le> run_step p i) (pk_buffers p ! i))) (rotate pos [0..<n])) in
     \<exists>selected p'. select_samples_round_robin budget p = Ok (selected, p') \<and> packer_ok c d t p' \<and> pk_runs p' = pk_runs p \<and>
       longest_fit budget stream selected \<and> pk_round_robin_position p' = next_position n budget pos stream selected \<and>
       list_all (\<lambda>i. pk_buffers p ! i = of_run i selected @ pk_buffers p' ! i) [0..<n] \<and>
       list_all (\<lambda>(i, s, step). i < n \<and> step = run_step p i) selected \<and>
       (list_ex (due_run p) [0..<n] \<longrightarrow> selected \<noteq> [])"
proof -
  let ?budget = "pc_seq_len c * pc_dp_world_size c" and ?n = "rm_max_runs (pk_runs p)" and ?pos = "pk_round_robin_position p"
  obtain sel p' where s: "select_samples_round_robin ?budget p = Ok (sel, p')" "packer_ok c d t p'" "pk_runs p' = pk_runs p"
      "\<forall>i < ?n. pk_buffers p ! i = of_run i sel @ pk_buffers p' ! i"
      "\<forall>x \<in> set sel. fst x < ?n \<and> fst x \<in> set (keys (rm_idx_2_id (pk_runs p))) \<and> sample_ready c d t (fst (snd x)) \<and> snd (snd x) = run_step p (fst x)"
      "longest_fit ?budget (round_stream p) sel" "pk_round_robin_position p' = next_position ?n ?budget ?pos (round_stream p) sel"
      "(\<exists>i < ?n. due_run p i) \<longrightarrow> sel \<noteq> []"
    using select_samples_ok[OF assms] by (elim exE conjE) (rule that)
  have len: "length (pk_buffers p) = ?n" using assms(1) by (simp add: packer_ok_def)
  have stream: "concat (map (\<lambda>i. map (Pair i) (takeWhile (\<lambda>x. snd x \<le> run_step p i) (pk_buffers p ! i))) (rotate ?pos [0..<?n])) = round_stream p"
    by (simp add: due_stream_def due_part_def len)
  have "list_ex (due_run p) [0..<?n] \<longrightarrow> sel \<noteq> []" using s(8) by (auto simp: list_ex_iff)
  moreover have "list_all (\<lambda>(i, s, step). i < ?n \<and> step = run_step p i) sel" using s(5) by (auto simp: list_all_iff)
  moreover have "list_all (\<lambda>i. pk_buffers p ! i = of_run i sel @ pk_buffers p' ! i) [0..<?n]" using s(4) by (simp add: list_all_iff)
  ultimately show ?thesis using s(1-3,6,7) unfolding Let_def stream by (intro exI[of _ sel] exI[of _ p'] conjI)
qed

text \<open>
  C39: A pack trains exactly what it selected, run by run. When some run has due work, \<open>pack\<close> after its wait
  returns a grid (no assertion fires: the selection is not empty, each run contributes one step, every batch is
  aligned) with one equally long row per data rank. Every microbatch belongs to one registered run, carries
  that run's id and current step, and is aligned, padded and bounded; for every run, the trained tokens of its
  microbatches are, as a multiset, those of the samples selected from its buffer; and the packer stays good.
\<close>

theorem pack_trains_selection:
  assumes "packer_ok c d t p" and "packer_config_ok c" and "list_ex (due_run p) [0..<rm_max_runs (pk_runs p)]"
  shows "\<exists>selected p1 grid p2.
     select_samples_round_robin (pc_seq_len c * pc_dp_world_size c) p = Ok (selected, p1) \<and>
     pack_selected c p = Some (Ok (grid, p2)) \<and> packer_ok c d t p2 \<and> pk_buffers p2 = pk_buffers p1 \<and>
     even_grid (pc_dp_world_size c) grid \<and>
     list_all (\<lambda>(i, r). mset (stamped_tokens grid r) = mset (concat (map (sample_tokens c) (map fst (of_run i selected))))) (rm_idx_2_id (pk_runs p)) \<and>
     list_all (\<lambda>b. batch_ok (pc_seq_len c) (pc_pad_to_multiple_of c) (rb_batch b) \<and>
        list_ex (\<lambda>(i, r). r = rb_run_id b \<and> of_run i selected \<noteq> [] \<and> rb_run_step b = run_step p i) (rm_idx_2_id (pk_runs p))) (concat grid)"
proof -
  have work: "\<exists>i < rm_max_runs (pk_runs p). due_run p i" using assms(3) by (auto simp: list_ex_iff)
  obtain sel p1 grid p2 where s:
     "select_samples_round_robin (pc_seq_len c * pc_dp_world_size c) p = Ok (sel, p1)"
     "pack_selected c p = Some (Ok (grid, p2))" "packer_ok c d t p2" "pk_buffers p2 = pk_buffers p1" "even_grid (pc_dp_world_size c) grid"
     "\<forall>(i, r) \<in> set (rm_idx_2_id (pk_runs p)). mset (stamped_tokens grid r) = mset (concat (map (sample_tokens c) (map fst (of_run i sel))))"
     "\<forall>b \<in> set (concat grid). batch_ok (pc_seq_len c) (pc_pad_to_multiple_of c) (rb_batch b) \<and>
        (\<exists>i. (i, rb_run_id b) \<in> set (rm_idx_2_id (pk_runs p)) \<and> of_run i sel \<noteq> [] \<and> rb_run_step b = run_step p i)"
    using pack_selected_ok[OF assms(1,2) work] by (elim exE conjE) (rule that)
  have "list_all (\<lambda>b. batch_ok (pc_seq_len c) (pc_pad_to_multiple_of c) (rb_batch b) \<and>
        list_ex (\<lambda>(i, r). r = rb_run_id b \<and> of_run i sel \<noteq> [] \<and> rb_run_step b = run_step p i) (rm_idx_2_id (pk_runs p))) (concat grid)"
    unfolding list_all_iff list_ex_iff
  proof
    fix b assume "b \<in> set (concat grid)"
    then obtain i where "batch_ok (pc_seq_len c) (pc_pad_to_multiple_of c) (rb_batch b)"
        "(i, rb_run_id b) \<in> set (rm_idx_2_id (pk_runs p))" "of_run i sel \<noteq> []" "rb_run_step b = run_step p i" using s(7) by blast
    then show "batch_ok (pc_seq_len c) (pc_pad_to_multiple_of c) (rb_batch b) \<and>
        (\<exists>x \<in> set (rm_idx_2_id (pk_runs p)). case x of (i, r) \<Rightarrow> r = rb_run_id b \<and> of_run i sel \<noteq> [] \<and> rb_run_step b = run_step p i)" by blast
  qed
  moreover have "list_all (\<lambda>(i, r). mset (stamped_tokens grid r) = mset (concat (map (sample_tokens c) (map fst (of_run i sel))))) (rm_idx_2_id (pk_runs p))"
    using s(6) unfolding list_all_iff .
  ultimately show ?thesis using s(1-5) by blast
qed

lemma update_groups_registry:
  "update_groups gs p = Ok p' \<Longrightarrow> rm_id_2_idx (pk_runs p') = rm_id_2_idx (pk_runs p)"
proof (induction gs arbitrary: p)
  case (Cons g gs)
  obtain i rg where g: "g = (i, rg)" by (cases g)
  obtain p1 where p1: "update_run_progress i (rg_num_samples rg) (rg_num_tokens rg) p = Ok p1" "update_groups gs p1 = Ok p'"
    using Cons.prems by (auto simp: g result_simps)
  have "rm_id_2_idx (pk_runs p1) = rm_id_2_idx (pk_runs p)"
    using p1(1) by (auto simp: update_run_progress_def result_simps Let_def)
  then show ?case using Cons.IH[OF p1(2)] by simp
qed simp

lemma pack_selected_registry:
  assumes "pack_selected c p = Some (Ok (grid, p'))"
  shows "rm_id_2_idx (pk_runs p') = rm_id_2_idx (pk_runs p)"
proof -
  obtain groups where g: "bindE (select_samples_round_robin (pc_seq_len c * pc_dp_world_size c) p) (\<lambda>(selected, p1).
           raise_if (selected = []) (AssertionError ''No samples selected'')
           (bindE (group_samples selected []) (\<lambda>groups. bindE (update_groups groups p1) (\<lambda>p2. Ok (groups, p2))))) = Ok (groups, p')"
    using assms by (auto simp: pack_selected_def split: sum.splits option.splits)
  then obtain selected p1 where s: "select_samples_round_robin (pc_seq_len c * pc_dp_world_size c) p = Ok (selected, p1)"
      "update_groups groups p1 = Ok p'" by (auto simp: result_simps)
  have "pk_runs p1 = pk_runs p" using s(1) by (auto simp: select_samples_round_robin_def result_simps)
  then show ?thesis using update_groups_registry[OF s(2)] by simp
qed

text \<open>
  C40: The packer survives anything well-behaved runs send. Starting good, over any sequence of polls whose
  disks parse and whose batches come from registered runs in step order, \<open>pack\<close> either is still in its wait or
  returns a grid and a good packer, and \<open>No samples selected\<close> never fires. Invalid data evicts its run instead of raising: the
  runs with an eviction marker after the first poll are exactly those that had one and those for which it brought an empty batch or
  one with an invalid sample; an evicted run is out of the registry, its index's buffer is empty, and it is not registered again
  before the grid is returned.
\<close>

theorem pack_never_raises:
  assumes ok: "packer_ok c d t p" and cfg: "packer_config_ok c" and polls: "polls_ok c d t (first # polls) p"
  shows "\<exists>p1 p2. packer_discover c (po_before first) p = Ok p1 \<and> get_batch c first p = Ok p2 \<and>
     (\<forall>r. pk_markers p2 r \<noteq> None \<longleftrightarrow>
        pk_markers p r \<noteq> None \<or> (\<exists>b \<in> set (po_batches first). spoils (pc_seq_len c) (rm_idx_2_id (pk_runs p1)) b r)) \<and>
     (\<forall>r \<in> set (keys (rm_id_2_idx (pk_runs p2))). pk_markers p2 r = None) \<and>
     (\<forall>(i, r) \<in> set (rm_idx_2_id (pk_runs p1)). pk_markers p2 r \<noteq> None \<longrightarrow> pk_buffers p2 ! i = []) \<and>
     (wait_for_tokens c polls p2 = None \<and> pack c first polls p = None \<or>
      (\<exists>grid p'. pack c first polls p = Some (Ok (grid, p')) \<and> packer_ok c d t p' \<and> even_grid (pc_dp_world_size c) grid \<and>
         (\<forall>r \<in> set (keys (rm_id_2_idx (pk_runs p'))). pk_markers p2 r = None)))"
proof -
  have "poll_ok c d t first p" using polls by simp
  then obtain p1 p2 where g: "packer_discover c (po_before first) p = Ok p1" "get_batch c first p = Ok p2" "packer_ok c d t p2" "marked_out p2"
     "\<forall>r. pk_markers p2 r \<noteq> None \<longleftrightarrow>
        pk_markers p r \<noteq> None \<or> (\<exists>b \<in> set (po_batches first). spoils (pc_seq_len c) (rm_idx_2_id (pk_runs p1)) b r)"
     "\<forall>(i, r) \<in> set (rm_idx_2_id (pk_runs p1)). pk_markers p2 r \<noteq> None \<longrightarrow> pk_buffers p2 ! i = []"
    using get_batch_ok[OF ok cfg] by blast
  have "polls_ok c d t polls p2" using polls g(2) by simp
  note wait = wait_for_tokens_ok[OF cfg g(3) this g(4)]
  have "wait_for_tokens c polls p2 = None \<and> pack c first polls p = None \<or>
      (\<exists>grid p'. pack c first polls p = Some (Ok (grid, p')) \<and> packer_ok c d t p' \<and> even_grid (pc_dp_world_size c) grid \<and>
         (\<forall>r \<in> set (keys (rm_id_2_idx (pk_runs p'))). pk_markers p2 r = None))"
  proof (cases "wait_for_tokens c polls p2 = None")
    case True
    then show ?thesis using g(2) by (simp add: pack_def)
  next
    case False
    with wait have "\<exists>p3. wait_for_tokens c polls p2 = Some (Ok p3) \<and> packer_ok c d t p3 \<and>
        (\<exists>i < rm_max_runs (pk_runs p3). due_run p3 i) \<and> marked_out p3 \<and> (\<forall>r. pk_markers p2 r \<noteq> None \<longrightarrow> pk_markers p3 r \<noteq> None)"
      by simp
    then obtain p3 i where p3: "wait_for_tokens c polls p2 = Some (Ok p3)" "packer_ok c d t p3" "i < rm_max_runs (pk_runs p3)" "due_run p3 i"
        "marked_out p3" "\<forall>r. pk_markers p2 r \<noteq> None \<longrightarrow> pk_markers p3 r \<noteq> None"
      by (elim exE conjE) (rule that)
    from p3(3,4) have work: "\<exists>i < rm_max_runs (pk_runs p3). due_run p3 i" by blast
    obtain grid p4 where p4: "pack_selected c p3 = Some (Ok (grid, p4))" "packer_ok c d t p4" "even_grid (pc_dp_world_size c) grid"
      using pack_selected_ok[OF p3(2) cfg work] by (elim exE conjE) (rule that)
    have "\<forall>r \<in> set (keys (rm_id_2_idx (pk_runs p4))). pk_markers p2 r = None"
      using p3(5,6) unfolding pack_selected_registry[OF p4(1)] marked_out_def by blast
    moreover have "pack c first polls p = Some (Ok (grid, p4))" using g(2) p3(1) p4(1) by (simp add: pack_def)
    ultimately show ?thesis using p4(2,3) by (intro disjI2 exI[of _ grid] exI[of _ p4] conjI)
  qed
  moreover have "\<forall>r \<in> set (keys (rm_id_2_idx (pk_runs p2))). pk_markers p2 r = None" using g(4) by (simp add: marked_out_def)
  ultimately show ?thesis using g(1,2,5,6) by (intro exI[of _ p1] exI[of _ p2] conjI)
qed

section \<open>A concrete packer\<close>

definition demo_config :: PackerConfig where
  "demo_config = \<lparr> pc_dp_world_size = 2, pc_seq_len = 4, pc_pad_to_multiple_of = 8, pc_trainer_lora = None, pc_pick = Min,
     pc_grid_rows = (\<lambda>_. []), pc_itemsize = (\<lambda>_. 1), pc_bin_cost = (\<lambda>ns. int (sum_list ns)) \<rparr>"

definition demo_packer :: "buffered list \<Rightarrow> MultiPacker" where
  "demo_packer q = \<lparr> pk_runs = rank_with 2 [(''a'', 0)] [], pk_markers = Map.empty, pk_receiver_resets = [],
     pk_buffers = [q, []], pk_round_robin_position = 1 \<rparr>"

lemma demo_ready: "0 < n \<Longrightarrow> n \<le> 4 \<Longrightarrow> sample_ready demo_config [] [] (demo_example n)"
  by (simp add: sample_ready_def demo_config_def validate_sample_def Let_def demo_prepared)
     (simp add: demo_example_def whole_sample_def Let_def)

lemma demo_config_ok: "packer_config_ok demo_config"
  by (simp add: packer_config_ok_def demo_config_def)

lemma demo_registry: "registry_ok (rank_with 2 [(''a'', 0)] [])"
  by (simp add: registry_ok_def rank_with_def)

lemma demo_packer_ok: "buffer_ok demo_config [] [] 1 q \<Longrightarrow> packer_ok demo_config [] [] (demo_packer q)"
  using demo_registry
  by (simp add: packer_ok_def demo_packer_def numeral_2_eq_2) (simp add: rank_with_def Progress_init_def numeral_2_eq_2)

lemma demo_buffer: "buffer_ok demo_config [] [] 1 [(demo_example 3, 1), (demo_example 4, 2)]"
  by (simp add: buffer_ok_def demo_ready)

abbreviation demo_state :: MultiPacker where
  "demo_state \<equiv> demo_packer [(demo_example 3, 1), (demo_example 4, 2)]"

lemma demo_due: "list_ex (due_run demo_state) [0..<rm_max_runs (pk_runs demo_state)]"
  by (simp add: demo_packer_def due_def rank_with_def Progress_init_def numeral_2_eq_2)

text \<open>Two runs with work, from the second on: its two samples fit, the first run's no longer does.\<close>

definition demo_round :: MultiPacker where
  "demo_round = \<lparr> pk_runs = rank_with 2 [(''a'', 0), (''b'', 1)] [], pk_markers = Map.empty, pk_receiver_resets = [],
     pk_buffers = [[(demo_example 3, 1)], [(demo_example 4, 1), (demo_example 3, 1)]], pk_round_robin_position = 1 \<rparr>"

lemma demo_round_ok: "packer_ok demo_config [] [] demo_round"
proof -
  have reg: "registry_ok (rank_with 2 [(''a'', 0), (''b'', 1)] [])" by (simp add: registry_ok_def rank_with_def)
  have "buffer_ok demo_config [] [] 1 [(demo_example 3, 1)]" "buffer_ok demo_config [] [] 1 [(demo_example 4, 1), (demo_example 3, 1)]"
    by (simp_all add: buffer_ok_def demo_ready)
  then show ?thesis using reg
    by (simp add: packer_ok_def demo_round_def numeral_2_eq_2) (simp add: rank_with_def Progress_init_def numeral_2_eq_2)
qed

theorem select_round_robin_fifo_witness:
  "\<exists>p'. select_samples_round_robin 8 demo_round = Ok ([(1, demo_example 4, 1), (1, demo_example 3, 1)], p') \<and>
     pk_buffers p' ! 0 = [(demo_example 3, 1)] \<and> pk_buffers p' ! 1 = [] \<and> pk_round_robin_position p' = 1"
proof -
  have c: "pc_seq_len demo_config * pc_dp_world_size demo_config = 8" and n: "rm_max_runs (pk_runs demo_round) = 2"
    and pos: "pk_round_robin_position demo_round = 1"
    by (simp_all add: demo_config_def demo_round_def rank_with_def)
  have r: "rotate 1 [0..<2] = [1, 0]" by (simp add: numeral_2_eq_2)
  have step: "run_step demo_round 0 = 1" "run_step demo_round 1 = 1" by (simp_all add: demo_round_def rank_with_def Progress_init_def)
  have bufs: "pk_buffers demo_round ! 0 = [(demo_example 3, 1)]" "pk_buffers demo_round ! 1 = [(demo_example 4, 1), (demo_example 3, 1)]"
    by (simp_all add: demo_round_def)
  have stream: "concat (map (\<lambda>i. map (Pair i) (takeWhile (\<lambda>x. snd x \<le> run_step demo_round i) (pk_buffers demo_round ! i))) [1, 0]) =
      [(1, demo_example 4, 1), (1, demo_example 3, 1), (0, demo_example 3, 1)]" by (simp add: step bufs del: One_nat_def)
  have len: "length (te_token_ids (demo_example k)) = k" for k by (simp add: demo_example_def)
  obtain sel p' where s: "select_samples_round_robin 8 demo_round = Ok (sel, p')"
      "longest_fit 8 [(1, demo_example 4, 1), (1, demo_example 3, 1), (0, demo_example 3, 1)] sel"
      "pk_round_robin_position p' = next_position 2 8 1 [(1, demo_example 4, 1), (1, demo_example 3, 1), (0, demo_example 3, 1)] sel"
      "list_all (\<lambda>i. pk_buffers demo_round ! i = of_run i sel @ pk_buffers p' ! i) [0..<2]"
    using select_round_robin_fifo[OF demo_round_ok demo_config_ok] unfolding Let_def c n pos r stream by (elim exE conjE) (rule that)
  have sel: "sel = [(1, demo_example 4, 1), (1, demo_example 3, 1)]"
    using s(2) by (auto simp: longest_fit_def prefix_Cons len)
  have q: "pk_buffers demo_round ! 0 = of_run 0 sel @ pk_buffers p' ! 0" "pk_buffers demo_round ! 1 = of_run 1 sel @ pk_buffers p' ! 1"
    using s(4) by (simp_all add: numeral_2_eq_2)
  have "pk_buffers p' ! 0 = [(demo_example 3, 1)]" using q(1) unfolding bufs sel by (simp add: of_run_def)
  moreover have "pk_buffers p' ! 1 = []" using q(2) unfolding bufs sel by (simp add: of_run_def)
  moreover have "pk_round_robin_position p' = 1" unfolding s(3) sel next_position_def by (simp add: len)
  ultimately show ?thesis using s(1) unfolding sel by blast
qed

theorem pack_trains_selection_witness:
  "\<exists>grid p2. pack_selected demo_config demo_state = Some (Ok (grid, p2)) \<and> even_grid 2 grid \<and> packer_ok demo_config [] [] p2"
proof -
  have c: "pc_dp_world_size demo_config = 2" by (simp add: demo_config_def)
  show ?thesis using pack_trains_selection[OF demo_packer_ok[OF demo_buffer] demo_config_ok demo_due] unfolding c by blast
qed

text \<open>A poll that brings two whole samples of the first run and one overlong sample of the second, which has buffered work.\<close>

definition demo_pair :: MultiPacker where
  "demo_pair = \<lparr> pk_runs = rank_with 2 [(''a'', 0), (''b'', 1)] [], pk_markers = Map.empty, pk_receiver_resets = [],
     pk_buffers = [[], [(demo_example 3, 1)]], pk_round_robin_position = 1 \<rparr>"

definition demo_disk :: Disk where
  "demo_disk = \<lparr> dk_found = [''a'', ''b''], dk_files = (\<lambda>_. None), dk_ckpt_steps = (\<lambda>_. []) \<rparr>"

definition demo_poll :: poll where
  "demo_poll = \<lparr> po_expired = False, po_before = demo_disk,
     po_batches = [\<lparr> tb_examples = [demo_example 4, demo_example 4], tb_step = 1, tb_run_idx = Some 0 \<rparr>,
                   \<lparr> tb_examples = [demo_example 5], tb_step = 1, tb_run_idx = Some 1 \<rparr>], po_after = demo_disk \<rparr>"

lemma demo_pair_ok: "packer_ok demo_config [] [] demo_pair"
proof -
  have reg: "registry_ok (rank_with 2 [(''a'', 0), (''b'', 1)] [])" by (simp add: registry_ok_def rank_with_def)
  have "buffer_ok demo_config [] [] 1 [(demo_example 3, 1)]" by (simp_all add: buffer_ok_def demo_ready)
  then show ?thesis using reg
    by (simp add: packer_ok_def demo_pair_def numeral_2_eq_2) (simp add: rank_with_def Progress_init_def numeral_2_eq_2)
qed

lemma demo_discover: "packer_discover demo_config demo_disk demo_pair = Ok demo_pair"
  by (simp add: packer_discover_def demo_disk_def demo_pair_def rank_with_def forgotten_runs_def discover_runs_def)

lemma demo_invalid: "\<not> fst (validate_sample 4 (demo_example 5))" "fst (validate_sample 4 (demo_example 4))"
  by (simp_all add: validate_sample_def demo_example_def)

lemma demo_polls_ok: "polls_ok demo_config [] [] [demo_poll] demo_pair"
proof -
  have "arrivals_ok demo_config [] [] (po_batches demo_poll) demo_pair"
    using demo_ready[of 4] demo_invalid
    by (simp add: arrivals_ok_def demo_poll_def demo_pair_def rank_with_def Progress_init_def) (simp add: demo_config_def)
  then show ?thesis using demo_discover
    by (simp add: poll_ok_def demo_poll_def split: sum.splits) (simp add: disk_ok_def demo_disk_def ranks_positive_def demo_config_def)
qed

text \<open>The second run is evicted, the first one's eight tokens are enough for the step.\<close>

lemma demo_enough:
  assumes "get_batch demo_config demo_poll demo_pair = Ok p2"
  shows "has_enough_tokens demo_config p2 = Ok True"
proof -
  have step: "pc_seq_len demo_config = 4" "po_before demo_poll = demo_disk" "po_after demo_poll = demo_disk"
    by (simp_all add: demo_config_def demo_poll_def)
  let ?reason = "''Run wrote a sample with invalid data: '' @ the (snd (validate_sample 4 (demo_example 5)))"
  let ?p = "demo_pair\<lparr> pk_buffers := [[(demo_example 4, 1), (demo_example 4, 1)], [(demo_example 3, 1)]], pk_markers := [''b'' \<mapsto> ?reason] \<rparr>"
  have "buffer_batches 4 (po_batches demo_poll) demo_pair = Ok ?p"
    using demo_invalid by (simp add: demo_poll_def demo_pair_def packer_evict_def evict_run_def rank_with_def del: append.simps)
  then have "packer_discover demo_config demo_disk ?p = Ok p2"
    using assms unfolding get_batch_def step demo_discover by simp
  then have "rm_idx_2_id (pk_runs p2) = [(0, ''a'')]" "pk_buffers p2 = [[(demo_example 4, 1), (demo_example 4, 1)], []]"
      "rm_progress (pk_runs p2) = [(0, Progress_init)]"
    by (auto simp: packer_discover_def demo_disk_def demo_pair_def rank_with_def forgotten_runs_def discover_runs_def
        delete_run_data_def on_run_data_deleted_def dict_del_def dict_get_def)
  then show ?thesis
    by (simp add: has_enough_tokens_def count_tokens_def used_idxs_def demo_config_def Progress_init_def demo_example_def nth_chk_def dict_get_def)
qed

theorem pack_never_raises_witness:
  "\<exists>p2 grid p'. get_batch demo_config demo_poll demo_pair = Ok p2 \<and>
     pk_markers p2 ''b'' \<noteq> None \<and> pk_markers p2 ''a'' = None \<and> ''b'' \<notin> set (keys (rm_id_2_idx (pk_runs p2))) \<and> pk_buffers p2 ! 1 = [] \<and>
     pack demo_config demo_poll [] demo_pair = Some (Ok (grid, p')) \<and> even_grid 2 grid \<and> ''b'' \<notin> set (keys (rm_id_2_idx (pk_runs p')))"
proof -
  have c: "pc_dp_world_size demo_config = 2" "pc_seq_len demo_config = 4" and po: "po_before demo_poll = demo_disk"
    by (simp_all add: demo_config_def demo_poll_def)
  have spoil: "(\<exists>b \<in> set (po_batches demo_poll). spoils 4 (rm_idx_2_id (pk_runs demo_pair)) b r) \<longleftrightarrow> r = ''b''" for r
    using demo_invalid by (auto simp: demo_poll_def spoils_def demo_pair_def rank_with_def)
  have start: "pk_markers demo_pair r = None" "rm_idx_2_id (pk_runs demo_pair) = [(0, ''a''), (1, ''b'')]" for r
    by (simp_all add: demo_pair_def rank_with_def)
  obtain p1 p2 where g: "packer_discover demo_config demo_disk demo_pair = Ok p1" "get_batch demo_config demo_poll demo_pair = Ok p2"
     "\<forall>r. pk_markers p2 r \<noteq> None \<longleftrightarrow>
        pk_markers demo_pair r \<noteq> None \<or> (\<exists>b \<in> set (po_batches demo_poll). spoils 4 (rm_idx_2_id (pk_runs p1)) b r)"
     "\<forall>r \<in> set (keys (rm_id_2_idx (pk_runs p2))). pk_markers p2 r = None"
     "\<forall>(i, r) \<in> set (rm_idx_2_id (pk_runs p1)). pk_markers p2 r \<noteq> None \<longrightarrow> pk_buffers p2 ! i = []"
     "wait_for_tokens demo_config [] p2 = None \<and> pack demo_config demo_poll [] demo_pair = None \<or>
      (\<exists>grid p'. pack demo_config demo_poll [] demo_pair = Some (Ok (grid, p')) \<and> packer_ok demo_config [] [] p' \<and> even_grid 2 grid \<and>
         (\<forall>r \<in> set (keys (rm_id_2_idx (pk_runs p'))). pk_markers p2 r = None))"
    using pack_never_raises[OF demo_pair_ok demo_config_ok demo_polls_ok] unfolding c po by (elim exE conjE) (rule that)
  have p1: "p1 = demo_pair" using g(1) demo_discover by simp
  have marks: "pk_markers p2 r \<noteq> None \<longleftrightarrow> r = ''b''" for r using g(3) unfolding p1 spoil start(1) by simp
  have "wait_for_tokens demo_config [] p2 \<noteq> None" using demo_enough[OF g(2)] by (simp add: wait_for_tokens.simps)
  with g(6) have "\<exists>grid p'. pack demo_config demo_poll [] demo_pair = Some (Ok (grid, p')) \<and> packer_ok demo_config [] [] p' \<and>
      even_grid 2 grid \<and> (\<forall>r \<in> set (keys (rm_id_2_idx (pk_runs p'))). pk_markers p2 r = None)" by simp
  then obtain grid p' where gr: "pack demo_config demo_poll [] demo_pair = Some (Ok (grid, p'))" "even_grid 2 grid"
      "\<forall>r \<in> set (keys (rm_id_2_idx (pk_runs p'))). pk_markers p2 r = None" by (elim exE conjE) (rule that)
  have "pk_buffers p2 ! 1 = []" using g(5) marks unfolding p1 start(2) by simp
  moreover have "pk_markers p2 ''b'' \<noteq> None" "\<not> pk_markers p2 ''a'' \<noteq> None" by (simp_all add: marks del: not_None_eq)
  moreover have "''b'' \<notin> set (keys (rm_id_2_idx (pk_runs p2)))" "''b'' \<notin> set (keys (rm_id_2_idx (pk_runs p')))"
    using g(4) gr(3) marks[of "''b''"] by (metis (no_types, lifting))+
  ultimately show ?thesis using g(2) gr(1,2) unfolding not_not by (intro exI[of _ p2] exI[of _ grid] exI[of _ p'] conjI)
qed

end
