(* ===== verification/Tether_Fit.thy ===== *)
theory Tether_Fit
  imports Prelude
begin

text \<open>
  \<^verbatim>\<open>orchestrator/algo/tether.py\<close>, the regression half: token-weighted sufficient statistics, the relative-ridge scalar
  fit, the lagged coefficient over exact rollout windows (one coefficient, and one per action-position bin) and the
  checkpoint of both. Floats are exact reals in memory, so the \<open>isfinite\<close> guards on computed values hold by
  construction; values read from a checkpoint are \<open>pyval\<close>s and may be non-finite or of the wrong type.
\<close>

section \<open>Python values of a checkpoint\<close>

datatype pyval = PNone | PBool bool | PInt int | PFloat real | PNonFinite | PStr string | PList "pyval list" | PDict "(string \<times> pyval) list"

definition py_get :: "(string \<times> pyval) list \<Rightarrow> string \<Rightarrow> pyval" where
  "py_get d k = (case map_of d k of None \<Rightarrow> PNone | Some v \<Rightarrow> v)"

abbreviation invalid :: "'a result" where
  "invalid \<equiv> Raise (ValueError ''adaptive TETHER checkpoint contains an invalid value'')"

fun strict_int :: "pyval \<Rightarrow> int \<Rightarrow> int result" where
  "strict_int (PInt i) minimum = (if i < minimum then invalid else Ok i)"
| "strict_int _ minimum = invalid"

fun finite_float :: "pyval \<Rightarrow> real result" where
  "finite_float (PInt i) = Ok (of_int i)"
| "finite_float (PFloat r) = Ok r"
| "finite_float _ = invalid"

definition nonnegative_float :: "pyval \<Rightarrow> real result" where
  "nonnegative_float v = bindE (finite_float v) (\<lambda>r. if r < 0 then invalid else Ok r)"

definition unit_float :: "pyval \<Rightarrow> real result" where
  "unit_float v = bindE (finite_float v) (\<lambda>r. if \<not> (0 \<le> r \<and> r \<le> 1) then invalid else Ok r)"

fun strict_bool :: "pyval \<Rightarrow> bool result" where
  "strict_bool (PBool b) = Ok b"
| "strict_bool _ = invalid"

fun strict_vector :: "(pyval \<Rightarrow> 'a result) \<Rightarrow> pyval \<Rightarrow> nat \<Rightarrow> 'a list result" where
  "strict_vector item (PList vs) n = (if length vs \<noteq> n then invalid else traverse item vs)"
| "strict_vector item _ n = invalid"

definition strict_float_vector :: "pyval \<Rightarrow> nat \<Rightarrow> real list result" where
  "strict_float_vector = strict_vector finite_float"

definition strict_int_vector :: "pyval \<Rightarrow> nat \<Rightarrow> int list result" where
  "strict_int_vector = strict_vector (\<lambda>v. strict_int v 0)"

definition strict_bool_vector :: "pyval \<Rightarrow> nat \<Rightarrow> bool list result" where
  "strict_bool_vector = strict_vector strict_bool"

fun strict_dict :: "pyval \<Rightarrow> (string \<times> pyval) list result" where
  "strict_dict (PDict d) = Ok d"
| "strict_dict _ = invalid"

section \<open>Regression statistics\<close>

text \<open>The count is any Python number: the dataclass does not enforce its annotation, and a checkpoint can put a float there.\<close>

record TetherRegressionStats =
  rs_weight :: real
  rs_feature_feature :: real
  rs_feature_target :: real
  rs_target_target :: real

definition TetherRegressionStats_init :: "real \<Rightarrow> real \<Rightarrow> real \<Rightarrow> real \<Rightarrow> TetherRegressionStats result" where
  "TetherRegressionStats_init weight ff ft tt =
     raise_if (weight < 0) (ValueError ''invalid adaptive TETHER regression count'')
     (raise_if (ff < 0 \<or> tt < 0) (ValueError ''adaptive TETHER diagonal moments must be non-negative'')
     (Ok \<lparr> rs_weight = weight, rs_feature_feature = ff, rs_feature_target = ft, rs_target_target = tt \<rparr>))"

definition no_stats :: TetherRegressionStats where
  "no_stats = \<lparr> rs_weight = 0, rs_feature_feature = 0, rs_feature_target = 0, rs_target_target = 0 \<rparr>"

definition stats_add :: "TetherRegressionStats \<Rightarrow> TetherRegressionStats \<Rightarrow> TetherRegressionStats result" where
  "stats_add a b = TetherRegressionStats_init (rs_weight a + rs_weight b)
     (rs_feature_feature a + rs_feature_feature b) (rs_feature_target a + rs_feature_target b) (rs_target_target a + rs_target_target b)"

text \<open>\<open>TetherRegressionStats(**d)\<close>: unknown keywords and non-numbers raise \<open>TypeError\<close>, non-finite moments \<open>ValueError\<close>.
  (A NaN or +inf count, which \<open>weight < 0\<close> lets through, is rejected here.)\<close>

fun py_number :: "pyval \<Rightarrow> real result" where
  "py_number (PInt i) = Ok (of_int i)"
| "py_number (PFloat r) = Ok r"
| "py_number (PBool b) = Ok (if b then 1 else 0)"
| "py_number PNonFinite = Raise (ValueError ''adaptive TETHER regression moments must be finite'')"
| "py_number _ = Raise (TypeError ''must be real number'')"

definition keyword :: "(string \<times> pyval) list \<Rightarrow> string \<Rightarrow> real result" where
  "keyword d k = (case map_of d k of None \<Rightarrow> Ok 0 | Some v \<Rightarrow> py_number v)"

definition stats_of_dict :: "(string \<times> pyval) list \<Rightarrow> TetherRegressionStats result" where
  "stats_of_dict d =
     raise_if (\<not> list_all (\<lambda>p. fst p \<in> {''weight'', ''feature_feature'', ''feature_target'', ''target_target''}) d)
       (TypeError ''got an unexpected keyword argument'')
     (bindE (keyword d ''weight'') (\<lambda>w. bindE (keyword d ''feature_feature'') (\<lambda>ff.
      bindE (keyword d ''feature_target'') (\<lambda>ft. bindE (keyword d ''target_target'') (\<lambda>tt.
        TetherRegressionStats_init w ff ft tt)))))"

definition stats_dict :: "TetherRegressionStats \<Rightarrow> (string \<times> pyval) list" where
  "stats_dict s = [(''weight'', PFloat (rs_weight s)), (''feature_feature'', PFloat (rs_feature_feature s)),
     (''feature_target'', PFloat (rs_feature_target s)), (''target_target'', PFloat (rs_target_target s))]"

section \<open>The fit\<close>

text \<open>\<open>None\<close> where the code returns None.\<close>

definition fit_tether :: "TetherRegressionStats \<Rightarrow> real \<Rightarrow> real option result" where
  "fit_tether stats ridge =
     raise_if (rs_weight stats < 1) (ValueError ''adaptive TETHER fit needs at least one row'')
     (let inv_weight = 1 / rs_weight stats;
          feature_power = rs_feature_feature stats * inv_weight;
          target_power = rs_target_target stats * inv_weight;
          scale = max feature_power target_power;
          denominator = feature_power + ridge * scale
      in Ok (if feature_power \<le> 0 \<or> scale \<le> 0 \<or> denominator \<le> 0 then None
             else Some (rs_feature_target stats * inv_weight / denominator)))"

definition residual_sum :: "TetherRegressionStats \<Rightarrow> real \<Rightarrow> real" where
  "residual_sum stats rho =
     max (rs_target_target stats - 2 * rho * rs_feature_target stats + rho * rho * rs_feature_feature stats) 0"

section \<open>One adaptive coefficient\<close>

record AdaptiveTetherConfig =
  ac_ridge :: real
  ac_ema_decay :: real
  ac_initial_rho :: real

record AdaptiveTether =
  at_config :: AdaptiveTetherConfig
  at_batch_size :: int
  at_gamma :: real
  at_gae_lambda :: real
  at_rho :: real
  at_pending_rollouts :: int
  at_pending :: TetherRegressionStats
  at_updates :: int
  at_skipped_updates :: int
  at_last_fit_rho :: real
  at_last_fit_valid :: bool
  at_last_mse_group :: real
  at_last_mse_fit :: real
  at_last_mse_ema :: real
  at_last_feature_power :: real

definition AdaptiveTether_init :: "AdaptiveTetherConfig \<Rightarrow> int \<Rightarrow> real \<Rightarrow> real \<Rightarrow> AdaptiveTether result" where
  "AdaptiveTether_init config batch_size gamma gae_lambda =
     raise_if (batch_size < 1) (ValueError ''adaptive TETHER batch_size must be positive'')
     (raise_if (\<not> (0 \<le> gamma \<and> gamma \<le> 1)) (ValueError ''adaptive TETHER gamma must be in [0, 1]'')
     (raise_if (\<not> (0 \<le> gae_lambda \<and> gae_lambda \<le> 1)) (ValueError ''adaptive TETHER gae_lambda must be in [0, 1]'')
     (Ok \<lparr> at_config = config, at_batch_size = batch_size, at_gamma = gamma, at_gae_lambda = gae_lambda,
           at_rho = ac_initial_rho config, at_pending_rollouts = 0, at_pending = no_stats, at_updates = 0, at_skipped_updates = 0,
           at_last_fit_rho = ac_initial_rho config, at_last_fit_valid = False, at_last_mse_group = 0, at_last_mse_fit = 0,
           at_last_mse_ema = 0, at_last_feature_power = 0 \<rparr>)))"

definition skip :: "AdaptiveTether \<Rightarrow> AdaptiveTether" where
  "skip a = a\<lparr> at_skipped_updates := at_skipped_updates a + 1 \<rparr>"

definition update_tether :: "TetherRegressionStats \<Rightarrow> AdaptiveTether \<Rightarrow> AdaptiveTether result" where
  "update_tether stats a0 =
     (let a = a0\<lparr> at_last_fit_valid := False, at_last_fit_rho := at_rho a0 \<rparr> in
      if rs_weight stats = 0
      then Ok (skip (a\<lparr> at_last_mse_group := 0, at_last_mse_fit := 0, at_last_mse_ema := 0, at_last_feature_power := 0 \<rparr>))
      else let inv_weight = 1 / rs_weight stats;
               mse = residual_sum stats (at_rho a) * inv_weight;
               b = a\<lparr> at_last_mse_group := rs_target_target stats * inv_weight,
                      at_last_feature_power := rs_feature_feature stats * inv_weight,
                      at_last_mse_fit := mse, at_last_mse_ema := mse \<rparr>
           in bindE (fit_tether stats (ac_ridge (at_config a))) (\<lambda>fit.
                case fit of
                  None \<Rightarrow> Ok (skip b)
                | Some fit_rho \<Rightarrow>
                    let decay = ac_ema_decay (at_config b); rho = decay * at_rho b + (1 - decay) * fit_rho
                    in Ok (b\<lparr> at_rho := rho, at_updates := at_updates b + 1, at_last_fit_rho := fit_rho, at_last_fit_valid := True,
                              at_last_mse_fit := residual_sum stats fit_rho * inv_weight,
                              at_last_mse_ema := residual_sum stats rho * inv_weight \<rparr>)))"

fun observe_group :: "TetherRegressionStats list \<Rightarrow> AdaptiveTether \<Rightarrow> AdaptiveTether result" where
  "observe_group [] a = Ok a"
| "observe_group (s # ss) a =
     bindE (stats_add (at_pending a) s) (\<lambda>pending.
     let b = a\<lparr> at_pending := pending, at_pending_rollouts := at_pending_rollouts a + 1 \<rparr> in
     if at_pending_rollouts b = at_batch_size b
     then bindE (update_tether (at_pending b) b) (\<lambda>d. observe_group ss (d\<lparr> at_pending_rollouts := 0, at_pending := no_stats \<rparr>))
     else observe_group ss b)"

definition tether_state_dict :: "AdaptiveTether \<Rightarrow> (string \<times> pyval) list" where
  "tether_state_dict a =
     [(''schema_version'', PInt 2), (''kind'', PStr ''adaptive_tether''), (''batch_size'', PInt (at_batch_size a)),
      (''gamma'', PFloat (at_gamma a)), (''gae_lambda'', PFloat (at_gae_lambda a)), (''ridge'', PFloat (ac_ridge (at_config a))),
      (''ema_decay'', PFloat (ac_ema_decay (at_config a))), (''rho'', PFloat (at_rho a)),
      (''pending_rollouts'', PInt (at_pending_rollouts a)), (''pending'', PDict (stats_dict (at_pending a))),
      (''updates'', PInt (at_updates a)), (''skipped_updates'', PInt (at_skipped_updates a)),
      (''last_fit_rho'', PFloat (at_last_fit_rho a)), (''last_fit_valid'', PBool (at_last_fit_valid a)),
      (''last_mse_group'', PFloat (at_last_mse_group a)), (''last_mse_fit'', PFloat (at_last_mse_fit a)),
      (''last_mse_ema'', PFloat (at_last_mse_ema a)), (''last_feature_power'', PFloat (at_last_feature_power a))]"

definition check_contract :: "(string \<times> pyval) list \<Rightarrow> AdaptiveTether \<Rightarrow> unit result" where
  "check_contract state a =
     bindE (strict_int (py_get state ''batch_size'') 1) (\<lambda>batch_size. bindE (finite_float (py_get state ''gamma'')) (\<lambda>gamma.
     bindE (finite_float (py_get state ''gae_lambda'')) (\<lambda>gae_lambda. bindE (finite_float (py_get state ''ridge'')) (\<lambda>ridge.
     bindE (finite_float (py_get state ''ema_decay'')) (\<lambda>ema_decay.
       raise_if (\<not> (py_get state ''kind'' = PStr ''adaptive_tether'' \<and> batch_size = at_batch_size a \<and> gamma = at_gamma a \<and>
           gae_lambda = at_gae_lambda a \<and> ridge = ac_ridge (at_config a) \<and> ema_decay = ac_ema_decay (at_config a)))
         (ValueError ''adaptive TETHER checkpoint contract does not match config'') (Ok ()))))))"

definition load_tether :: "(string \<times> pyval) list \<Rightarrow> AdaptiveTether \<Rightarrow> AdaptiveTether result" where
  "load_tether state a =
     bindE (strict_int (py_get state ''schema_version'') 1) (\<lambda>schema.
     raise_if (schema \<noteq> 2) (ValueError ''unsupported adaptive TETHER checkpoint schema'')
     (bindE (check_contract state a) (\<lambda>_. bindE (finite_float (py_get state ''rho'')) (\<lambda>rho.
      bindE (strict_int (py_get state ''pending_rollouts'') 0) (\<lambda>pending_rollouts.
      bindE (strict_dict (py_get state ''pending'')) (\<lambda>d. bindE (stats_of_dict d) (\<lambda>pending.
      bindE (strict_int (py_get state ''updates'') 0) (\<lambda>updates. bindE (strict_int (py_get state ''skipped_updates'') 0) (\<lambda>skipped.
      bindE (finite_float (py_get state ''last_fit_rho'')) (\<lambda>last_fit_rho. bindE (strict_bool (py_get state ''last_fit_valid'')) (\<lambda>valid.
      bindE (nonnegative_float (py_get state ''last_mse_group'')) (\<lambda>mse_group. bindE (nonnegative_float (py_get state ''last_mse_fit'')) (\<lambda>mse_fit.
      bindE (nonnegative_float (py_get state ''last_mse_ema'')) (\<lambda>mse_ema. bindE (nonnegative_float (py_get state ''last_feature_power'')) (\<lambda>power.
        raise_if (pending_rollouts \<ge> at_batch_size a) (ValueError ''adaptive TETHER checkpoint has an invalid pending rollout count'')
        (Ok (a\<lparr> at_rho := rho, at_pending_rollouts := pending_rollouts, at_pending := pending, at_updates := updates,
                at_skipped_updates := skipped, at_last_fit_rho := last_fit_rho, at_last_fit_valid := valid, at_last_mse_group := mse_group,
                at_last_mse_fit := mse_fit, at_last_mse_ema := mse_ema, at_last_feature_power := power \<rparr>)))))))))))))))))"

section \<open>One coefficient per action-position bin\<close>

record TetherCoefficientTable =
  ct_rho :: "real list"
  ct_bin_size :: int

definition TetherCoefficientTable_init :: "real list \<Rightarrow> int \<Rightarrow> TetherCoefficientTable result" where
  "TetherCoefficientTable_init rho bin_size =
     raise_if (length rho < 2 \<or> bin_size < 1) (ValueError ''positioned TETHER needs at least two positive-width bins'')
       (Ok \<lparr> ct_rho = rho, ct_bin_size = bin_size \<rparr>)"

definition bin_index :: "TetherCoefficientTable \<Rightarrow> int \<Rightarrow> int result" where
  "bin_index table action_position =
     raise_if (action_position < 0) (ValueError ''TETHER action position must be non-negative'')
       (Ok (min (action_position div ct_bin_size table) (int (length (ct_rho table)) - 1)))"

definition TetherRolloutStats_init :: "TetherRegressionStats list \<Rightarrow> TetherRegressionStats list result" where
  "TetherRolloutStats_init bins =
     raise_if (length bins < 2) (ValueError ''positioned TETHER rollout stats need at least two bins'') (Ok bins)"

record TetherPositionConfig =
  tc_bin_size :: int
  tc_max_action_tokens :: "int option"
  tc_min_bin_rollouts :: "int option"

text \<open>\<open>math.ceil(a / b)\<close> on positive integers, as exact division; a configured 0 cannot occur (\<open>Field(ge=1)\<close>).\<close>

definition ceil_div :: "int \<Rightarrow> int \<Rightarrow> int" where
  "ceil_div a b = - ((- a) div b)"

definition resolve_position :: "TetherPositionConfig \<Rightarrow> int \<Rightarrow> int \<Rightarrow> (int \<times> int \<times> int) result" where
  "resolve_position config policy_seq_len batch_size =
     (let horizon = (case tc_max_action_tokens config of None \<Rightarrow> policy_seq_len | Some h \<Rightarrow> h);
          num_bins = ceil_div horizon (tc_bin_size config);
          min_bin = (case tc_min_bin_rollouts config of None \<Rightarrow> min batch_size (max 1 (ceil_div batch_size 8)) | Some m \<Rightarrow> m)
      in raise_if (horizon > policy_seq_len) (ValueError ''tether position max_action_tokens cannot exceed policy sequence length'')
         (raise_if (num_bins < 2) (ValueError ''tether position conditioning needs at least two bins'')
         (raise_if (num_bins > 128) (ValueError ''tether position config creates too many bins'')
         (raise_if (min_bin > batch_size) (ValueError ''tether position min_bin_rollouts cannot exceed adaptive batch_size'')
         (Ok (num_bins, tc_bin_size config, min_bin))))))"

record PositionTether =
  pt_config :: AdaptiveTetherConfig
  pt_batch_size :: int
  pt_gamma :: real
  pt_gae_lambda :: real
  pt_num_bins :: int
  pt_bin_size :: int
  pt_min_bin_rollouts :: int
  pt_rho :: "real list"
  pt_pending_rollouts :: int
  pt_pending_bins :: "TetherRegressionStats list"
  pt_pending_contributors :: "int list"
  pt_updates :: int
  pt_skipped_updates :: int
  pt_bin_updates :: "int list"
  pt_last_fit_valid :: "bool list"
  pt_last_contributors :: "int list"
  pt_last_mse_group :: real
  pt_last_mse_fit :: real
  pt_last_mse_ema :: real
  pt_last_feature_power :: real
  pt_last_fit_token_fraction :: real

definition PositionTether_init :: "AdaptiveTetherConfig \<Rightarrow> int \<Rightarrow> real \<Rightarrow> real \<Rightarrow> int \<Rightarrow> int \<Rightarrow> int \<Rightarrow> PositionTether result" where
  "PositionTether_init config batch_size gamma gae_lambda num_bins bin_size min_bin_rollouts =
     raise_if (batch_size < 1) (ValueError ''adaptive positioned TETHER batch_size must be positive'')
     (raise_if (\<not> (0 \<le> gamma \<and> gamma \<le> 1)) (ValueError ''adaptive positioned TETHER gamma must be in [0, 1]'')
     (raise_if (\<not> (0 \<le> gae_lambda \<and> gae_lambda \<le> 1)) (ValueError ''adaptive positioned TETHER gae_lambda must be in [0, 1]'')
     (raise_if (num_bins < 2 \<or> bin_size < 1) (ValueError ''adaptive positioned TETHER needs at least two positive-width bins'')
     (raise_if (\<not> (1 \<le> min_bin_rollouts \<and> min_bin_rollouts \<le> batch_size)) (ValueError ''adaptive positioned TETHER has invalid minimum bin support'')
     (let n = nat num_bins in
      Ok \<lparr> pt_config = config, pt_batch_size = batch_size, pt_gamma = gamma, pt_gae_lambda = gae_lambda, pt_num_bins = num_bins,
           pt_bin_size = bin_size, pt_min_bin_rollouts = min_bin_rollouts, pt_rho = replicate n (ac_initial_rho config),
           pt_pending_rollouts = 0, pt_pending_bins = replicate n no_stats, pt_pending_contributors = replicate n 0,
           pt_updates = 0, pt_skipped_updates = 0, pt_bin_updates = replicate n 0, pt_last_fit_valid = replicate n False,
           pt_last_contributors = replicate n 0, pt_last_mse_group = 0, pt_last_mse_fit = 0, pt_last_mse_ema = 0,
           pt_last_feature_power = 0, pt_last_fit_token_fraction = 0 \<rparr>)))))"

definition coefficient_table :: "PositionTether \<Rightarrow> TetherCoefficientTable result" where
  "coefficient_table a = TetherCoefficientTable_init (pt_rho a) (pt_bin_size a)"

fun add_bins :: "TetherRegressionStats list \<Rightarrow> int list \<Rightarrow> TetherRegressionStats list \<Rightarrow> (TetherRegressionStats list \<times> int list) result" where
  "add_bins ps cs [] = Ok (ps, cs)"
| "add_bins (p # ps) (c # cs) (b # bs) =
     bindE (stats_add p b) (\<lambda>p'. bindE (add_bins ps cs bs) (\<lambda>(ps', cs').
       Ok (p' # ps', (c + (if rs_weight b > 0 then 1 else 0)) # cs')))"
| "add_bins _ _ (b # bs) = Raise IndexError"

text \<open>One bin of \<open>_update\<close>: its new coefficient, whether it was fitted, its update count, and what it adds to the fitted weight and residual.\<close>

record bin_fit =
  bf_rho :: real
  bf_valid :: bool
  bf_updates :: int
  bf_weight :: real
  bf_residual :: real

definition fit_bin :: "AdaptiveTetherConfig \<Rightarrow> int \<Rightarrow> TetherRegressionStats \<times> int \<Rightarrow> real \<times> int \<Rightarrow> bin_fit result" where
  "fit_bin config min_support = (\<lambda>(stats, support) (rho, updates).
     let unfitted = \<lparr> bf_rho = rho, bf_valid = False, bf_updates = updates, bf_weight = 0, bf_residual = 0 \<rparr> in
     if rs_weight stats = 0 \<or> support < min_support then Ok unfitted
     else bindE (fit_tether stats (ac_ridge config)) (\<lambda>fit. case fit of
         None \<Rightarrow> Ok unfitted
       | Some fit_rho \<Rightarrow> Ok \<lparr> bf_rho = ac_ema_decay config * rho + (1 - ac_ema_decay config) * fit_rho, bf_valid = True,
            bf_updates = updates + 1, bf_weight = rs_weight stats, bf_residual = residual_sum stats fit_rho \<rparr>))"

definition update_positions :: "TetherRegressionStats list \<Rightarrow> int list \<Rightarrow> PositionTether \<Rightarrow> PositionTether result" where
  "update_positions stats contributors a0 =
     (let total_weight = sum_list (map rs_weight stats);
          a = a0\<lparr> pt_last_fit_valid := replicate (nat (pt_num_bins a0)) False, pt_last_contributors := contributors \<rparr> in
      if total_weight = 0
      then Ok (a\<lparr> pt_skipped_updates := pt_skipped_updates a + 1, pt_last_mse_group := 0, pt_last_mse_fit := 0, pt_last_mse_ema := 0,
                  pt_last_feature_power := 0, pt_last_fit_token_fraction := 0 \<rparr>)
      else
        raise_if (length stats \<noteq> length contributors) (ValueError ''zip() arguments have different lengths'')
        (raise_if (length (pt_rho a) \<noteq> length stats \<or> length (pt_bin_updates a) \<noteq> length stats) IndexError
        (bindE (traverse (\<lambda>(sc, ru). fit_bin (pt_config a) (pt_min_bin_rollouts a) sc ru)
                 (zip (zip stats contributors) (zip (pt_rho a) (pt_bin_updates a)))) (\<lambda>fits.
         let rho = map bf_rho fits; valid = map bf_valid fits;
             fit_weight = sum_list (map bf_weight fits); fit_residual = sum_list (map bf_residual fits);
             fitted = list_ex id valid
         in Ok (a\<lparr> pt_rho := rho, pt_last_fit_valid := valid, pt_bin_updates := map bf_updates fits,
                   pt_updates := pt_updates a + (if fitted then 1 else 0), pt_skipped_updates := pt_skipped_updates a + (if fitted then 0 else 1),
                   pt_last_mse_group := sum_list (map rs_target_target stats) / total_weight,
                   pt_last_mse_fit := (if fit_weight \<noteq> 0 then fit_residual / fit_weight else 0),
                   pt_last_mse_ema := sum_list (map2 residual_sum stats rho) / total_weight,
                   pt_last_feature_power := sum_list (map rs_feature_feature stats) / total_weight,
                   pt_last_fit_token_fraction := fit_weight / total_weight \<rparr>)))))"

fun observe_positions :: "TetherRegressionStats list list \<Rightarrow> PositionTether \<Rightarrow> PositionTether result" where
  "observe_positions [] a = Ok a"
| "observe_positions (bins # rest) a =
     raise_if (int (length bins) \<noteq> pt_num_bins a) (ValueError ''positioned TETHER rollout bin count mismatch'')
     (bindE (add_bins (pt_pending_bins a) (pt_pending_contributors a) bins) (\<lambda>(pending, contributors).
      let b = a\<lparr> pt_pending_bins := pending, pt_pending_contributors := contributors, pt_pending_rollouts := pt_pending_rollouts a + 1 \<rparr> in
      if pt_pending_rollouts b = pt_batch_size b
      then bindE (update_positions pending contributors b) (\<lambda>d.
             observe_positions rest (d\<lparr> pt_pending_rollouts := 0, pt_pending_bins := replicate (nat (pt_num_bins d)) no_stats,
               pt_pending_contributors := replicate (nat (pt_num_bins d)) 0 \<rparr>))
      else observe_positions rest b))"

definition position_state_dict :: "PositionTether \<Rightarrow> (string \<times> pyval) list" where
  "position_state_dict a =
     [(''schema_version'', PInt 1), (''kind'', PStr ''adaptive_tether_position''), (''batch_size'', PInt (pt_batch_size a)),
      (''gamma'', PFloat (pt_gamma a)), (''gae_lambda'', PFloat (pt_gae_lambda a)), (''ridge'', PFloat (ac_ridge (pt_config a))),
      (''ema_decay'', PFloat (ac_ema_decay (pt_config a))), (''num_bins'', PInt (pt_num_bins a)), (''bin_size'', PInt (pt_bin_size a)),
      (''min_bin_rollouts'', PInt (pt_min_bin_rollouts a)), (''rho'', PList (map PFloat (pt_rho a))),
      (''pending_rollouts'', PInt (pt_pending_rollouts a)), (''pending_bins'', PList (map (\<lambda>s. PDict (stats_dict s)) (pt_pending_bins a))),
      (''pending_contributors'', PList (map PInt (pt_pending_contributors a))), (''updates'', PInt (pt_updates a)),
      (''skipped_updates'', PInt (pt_skipped_updates a)), (''bin_updates'', PList (map PInt (pt_bin_updates a))),
      (''last_fit_valid'', PList (map PBool (pt_last_fit_valid a))), (''last_contributors'', PList (map PInt (pt_last_contributors a))),
      (''last_mse_group'', PFloat (pt_last_mse_group a)), (''last_mse_fit'', PFloat (pt_last_mse_fit a)),
      (''last_mse_ema'', PFloat (pt_last_mse_ema a)), (''last_feature_power'', PFloat (pt_last_feature_power a)),
      (''last_fit_token_fraction'', PFloat (pt_last_fit_token_fraction a))]"

definition check_position_contract :: "(string \<times> pyval) list \<Rightarrow> PositionTether \<Rightarrow> unit result" where
  "check_position_contract state a =
     bindE (strict_int (py_get state ''batch_size'') 1) (\<lambda>batch_size. bindE (finite_float (py_get state ''gamma'')) (\<lambda>gamma.
     bindE (finite_float (py_get state ''gae_lambda'')) (\<lambda>gae_lambda. bindE (finite_float (py_get state ''ridge'')) (\<lambda>ridge.
     bindE (finite_float (py_get state ''ema_decay'')) (\<lambda>ema_decay. bindE (strict_int (py_get state ''num_bins'') 2) (\<lambda>num_bins.
     bindE (strict_int (py_get state ''bin_size'') 1) (\<lambda>bin_size. bindE (strict_int (py_get state ''min_bin_rollouts'') 1) (\<lambda>min_bin.
       raise_if (\<not> (batch_size = pt_batch_size a \<and> gamma = pt_gamma a \<and> gae_lambda = pt_gae_lambda a \<and> ridge = ac_ridge (pt_config a) \<and>
           ema_decay = ac_ema_decay (pt_config a) \<and> num_bins = pt_num_bins a \<and> bin_size = pt_bin_size a \<and> min_bin = pt_min_bin_rollouts a))
         (ValueError ''adaptive positioned TETHER checkpoint contract does not match'') (Ok ())))))))))"

definition load_pending_bins :: "pyval \<Rightarrow> int \<Rightarrow> TetherRegressionStats list result" where
  "load_pending_bins v num_bins =
     (case v of
        PList vs \<Rightarrow> if int (length vs) \<noteq> num_bins then invalid else traverse (\<lambda>x. bindE (strict_dict x) stats_of_dict) vs
      | _ \<Rightarrow> invalid)"

definition bin_consistent :: "TetherRegressionStats \<Rightarrow> int \<Rightarrow> bool" where
  "bin_consistent s contributors \<longleftrightarrow>
     \<not> ((rs_weight s = 0) \<noteq> (contributors = 0) \<or> rs_weight s < of_int contributors \<or>
        (rs_weight s = 0 \<and> (rs_feature_feature s \<noteq> 0 \<or> rs_feature_target s \<noteq> 0 \<or> rs_target_target s \<noteq> 0)))"

definition load_positions :: "(string \<times> pyval) list \<Rightarrow> PositionTether \<Rightarrow> PositionTether result" where
  "load_positions state a =
     (let n = nat (pt_num_bins a) in
     bindE (strict_int (py_get state ''schema_version'') 1) (\<lambda>schema.
     raise_if (schema \<noteq> 1 \<or> py_get state ''kind'' \<noteq> PStr ''adaptive_tether_position'')
       (ValueError ''adaptive positioned TETHER checkpoint kind/schema is incompatible'')
     (bindE (check_position_contract state a) (\<lambda>_. bindE (strict_float_vector (py_get state ''rho'') n) (\<lambda>rho.
      bindE (strict_int (py_get state ''pending_rollouts'') 0) (\<lambda>pending_rollouts.
      bindE (load_pending_bins (py_get state ''pending_bins'') (pt_num_bins a)) (\<lambda>pending_bins.
      bindE (strict_int_vector (py_get state ''pending_contributors'') n) (\<lambda>contributors.
      bindE (strict_int (py_get state ''updates'') 0) (\<lambda>updates. bindE (strict_int (py_get state ''skipped_updates'') 0) (\<lambda>skipped.
      bindE (strict_int_vector (py_get state ''bin_updates'') n) (\<lambda>bin_updates.
      bindE (strict_bool_vector (py_get state ''last_fit_valid'') n) (\<lambda>valid.
      bindE (strict_int_vector (py_get state ''last_contributors'') n) (\<lambda>last_contributors.
      bindE (nonnegative_float (py_get state ''last_mse_group'')) (\<lambda>mse_group. bindE (nonnegative_float (py_get state ''last_mse_fit'')) (\<lambda>mse_fit.
      bindE (nonnegative_float (py_get state ''last_mse_ema'')) (\<lambda>mse_ema. bindE (nonnegative_float (py_get state ''last_feature_power'')) (\<lambda>power.
      bindE (unit_float (py_get state ''last_fit_token_fraction'')) (\<lambda>fraction.
        raise_if (pending_rollouts \<ge> pt_batch_size a) (ValueError ''adaptive positioned TETHER checkpoint has an invalid pending rollout count'')
        (raise_if (list_ex (\<lambda>v. v > pending_rollouts) contributors) (ValueError ''adaptive positioned TETHER checkpoint has invalid pending bin support'')
        (raise_if (\<not> list_all (\<lambda>(s, k). bin_consistent s k) (zip pending_bins contributors))
           (ValueError ''adaptive positioned TETHER checkpoint has inconsistent pending bin state'')
        (Ok (a\<lparr> pt_rho := rho, pt_pending_rollouts := pending_rollouts, pt_pending_bins := pending_bins, pt_pending_contributors := contributors,
                pt_updates := updates, pt_skipped_updates := skipped, pt_bin_updates := bin_updates, pt_last_fit_valid := valid,
                pt_last_contributors := last_contributors, pt_last_mse_group := mse_group, pt_last_mse_fit := mse_fit,
                pt_last_mse_ema := mse_ema, pt_last_feature_power := power, pt_last_fit_token_fraction := fraction \<rparr>))))))))))))))))))))))"

section \<open>Statistics of rows\<close>

text \<open>What the scoring loop produces: a row count, and moments that satisfy Cauchy-Schwarz.\<close>

definition stats_ok :: "TetherRegressionStats \<Rightarrow> bool" where
  "stats_ok s \<longleftrightarrow> rs_weight s \<in> \<nat> \<and> 0 \<le> rs_feature_feature s \<and> 0 \<le> rs_target_target s \<and>
     (rs_feature_target s)\<^sup>2 \<le> rs_feature_feature s * rs_target_target s \<and>
     (rs_weight s = 0 \<longrightarrow> rs_feature_feature s = 0 \<and> rs_feature_target s = 0 \<and> rs_target_target s = 0)"

definition stats_plus :: "TetherRegressionStats \<Rightarrow> TetherRegressionStats \<Rightarrow> TetherRegressionStats" where
  "stats_plus a b = \<lparr> rs_weight = rs_weight a + rs_weight b, rs_feature_feature = rs_feature_feature a + rs_feature_feature b,
     rs_feature_target = rs_feature_target a + rs_feature_target b, rs_target_target = rs_target_target a + rs_target_target b \<rparr>"

definition stats_total :: "TetherRegressionStats list \<Rightarrow> TetherRegressionStats" where
  "stats_total ss = foldl stats_plus no_stats ss"

lemma stats_ok_weight: "stats_ok s \<Longrightarrow> rs_weight s = 0 \<or> 1 \<le> rs_weight s"
  by (auto simp: stats_ok_def elim!: Nats_cases)

lemma stats_ok_none [simp]: "stats_ok no_stats"
  by (simp add: stats_ok_def no_stats_def)

lemma cauchy_sum:
  fixes a b c d x y :: real
  assumes "0 \<le> a" "0 \<le> b" "0 \<le> c" "0 \<le> d" "x\<^sup>2 \<le> a * b" "y\<^sup>2 \<le> c * d"
  shows "(x + y)\<^sup>2 \<le> (a + c) * (b + d)"
proof -
  have "(x * y)\<^sup>2 \<le> (a * b) * (c * d)" using assms by (simp add: power_mult_distrib mult_mono)
  also have "4 * ((a * b) * (c * d)) \<le> (a * d + c * b)\<^sup>2" using zero_le_power2[of "a * d - c * b"] by (simp add: power2_eq_square algebra_simps)
  finally have "(2 * (x * y))\<^sup>2 \<le> (a * d + c * b)\<^sup>2" by (simp add: power_mult_distrib)
  then have "2 * (x * y) \<le> a * d + c * b" using assms(1-4) by (auto intro: power2_le_imp_le)
  then show ?thesis using assms(5,6) by (simp add: power2_eq_square algebra_simps)
qed

lemma stats_plus_ok:
  assumes "stats_ok a" "stats_ok b"
  shows "stats_ok (stats_plus a b)"
proof -
  have w: "0 \<le> rs_weight a" "0 \<le> rs_weight b" using stats_ok_weight[OF assms(1)] stats_ok_weight[OF assms(2)] by auto
  have "(rs_feature_target a + rs_feature_target b)\<^sup>2 \<le> (rs_feature_feature a + rs_feature_feature b) * (rs_target_target a + rs_target_target b)"
    by (rule cauchy_sum) (use assms in \<open>simp_all add: stats_ok_def\<close>)
  then show ?thesis using assms w by (simp add: stats_ok_def stats_plus_def)
qed

lemma stats_add_ok: "stats_ok a \<Longrightarrow> stats_ok b \<Longrightarrow> stats_add a b = Ok (stats_plus a b)"
proof -
  assume ok: "stats_ok a" "stats_ok b"
  have p: "stats_ok (stats_plus a b)" by (rule stats_plus_ok[OF ok])
  then have "\<not> rs_weight (stats_plus a b) < 0" using stats_ok_weight[OF p] by linarith
  then show ?thesis using p by (simp add: stats_add_def TetherRegressionStats_init_def stats_plus_def stats_ok_def)
qed

section \<open>The fit is the ridge minimiser\<close>

definition ridge_objective :: "TetherRegressionStats \<Rightarrow> real \<Rightarrow> real \<Rightarrow> real" where
  "ridge_objective s ridge x = rs_target_target s - 2 * x * rs_feature_target s + x * x * rs_feature_feature s +
     ridge * max (rs_feature_feature s) (rs_target_target s) * x\<^sup>2"

lemma fit_tether_some:
  assumes "fit_tether s ridge = Ok (Some rho)"
  shows "let denom = rs_feature_feature s + ridge * max (rs_feature_feature s) (rs_target_target s)
     in 0 < denom \<and> 0 < rs_feature_feature s \<and> rho = rs_feature_target s / denom"
proof -
  let ?w = "rs_weight s" and ?ff = "rs_feature_feature s" and ?tt = "rs_target_target s"
  have w: "1 \<le> ?w" using assms by (simp add: fit_tether_def result_simps)
  have r: "\<not> ?ff / ?w \<le> 0" "\<not> ?ff / ?w + ridge * max (?ff / ?w) (?tt / ?w) \<le> 0"
      "rho = rs_feature_target s / ?w / (?ff / ?w + ridge * max (?ff / ?w) (?tt / ?w))"
    using assms by (simp_all add: fit_tether_def result_simps Let_def split: if_splits)
  have m: "max (?ff / ?w) (?tt / ?w) = max ?ff ?tt / ?w" using w by (simp add: max_def divide_le_cancel)
  have d: "?ff / ?w + ridge * (max ?ff ?tt / ?w) = (?ff + ridge * max ?ff ?tt) / ?w" by (simp add: add_divide_distrib)
  have "0 < ?ff" "0 < ?ff + ridge * max ?ff ?tt" using r(1,2) w unfolding m d by (auto simp: zero_less_divide_iff not_le)
  moreover have "rho = rs_feature_target s / (?ff + ridge * max ?ff ?tt)" using r(3) w unfolding m d by simp
  ultimately show ?thesis by (simp add: Let_def)
qed

lemma fit_tether_total: "1 \<le> rs_weight s \<Longrightarrow> \<exists>r. fit_tether s ridge = Ok r"
  by (simp add: fit_tether_def Let_def)

lemma fit_tether_unique_minimum:
  assumes "fit_tether s ridge = Ok (Some rho)" "x \<noteq> rho"
  shows "ridge_objective s ridge rho < ridge_objective s ridge x"
proof -
  define denom where "denom = rs_feature_feature s + ridge * max (rs_feature_feature s) (rs_target_target s)"
  have d: "0 < denom" "rho = rs_feature_target s / denom"
    using fit_tether_some[OF assms(1)] by (simp_all add: Let_def denom_def)
  have obj: "ridge_objective s ridge y = rs_target_target s - 2 * y * rs_feature_target s + denom * y\<^sup>2" for y
    by (simp add: ridge_objective_def denom_def power2_eq_square algebra_simps)
  have ft: "rs_feature_target s = rho * denom" using d by simp
  have "ridge_objective s ridge x - ridge_objective s ridge rho = denom * (x - rho)\<^sup>2"
    unfolding obj ft by (simp add: power2_eq_square algebra_simps)
  moreover have "0 < denom * (x - rho)\<^sup>2" using d(1) assms(2) by simp
  ultimately show ?thesis by linarith
qed

lemma fit_tether_bounded:
  assumes fit: "fit_tether s ridge = Ok (Some rho)" and "stats_ok s \<and> 0 < ridge"
  shows "\<bar>rho\<bar> \<le> 1 / (2 * sqrt ridge)"
proof -
  let ?ff = "rs_feature_feature s" and ?ft = "rs_feature_target s" and ?tt = "rs_target_target s"
  define denom where "denom = ?ff + ridge * max ?ff ?tt"
  have d: "0 < denom" "rho = ?ft / denom" using fit_tether_some[OF fit] by (simp_all add: Let_def denom_def)
  have ok: "0 \<le> ?ff" "0 \<le> ?tt" "?ft\<^sup>2 \<le> ?ff * ?tt" "0 < ridge" using assms(2) by (simp_all add: stats_ok_def)
  have le: "?ff + ridge * ?tt \<le> denom" using ok by (simp add: denom_def mult_left_mono)
  have "(2 * sqrt ridge * ?ft)\<^sup>2 = 4 * ridge * ?ft\<^sup>2" using ok(4) by (simp add: power_mult_distrib)
  also have "\<dots> \<le> 4 * ridge * (?ff * ?tt)" using ok(3,4) by (simp add: mult_left_mono)
  also have "\<dots> \<le> (?ff + ridge * ?tt)\<^sup>2" using zero_le_power2[of "?ff - ridge * ?tt"] by (simp add: power2_eq_square algebra_simps)
  also have "\<dots> \<le> denom\<^sup>2" using le ok by (simp add: power_mono)
  finally have "\<bar>2 * sqrt ridge * ?ft\<bar> \<le> denom" using d(1) abs_le_square_iff[of "2 * sqrt ridge * ?ft" denom] by simp
  then have "2 * sqrt ridge * \<bar>?ft\<bar> \<le> denom" using ok(4) by (simp add: abs_mult)
  then have "\<bar>?ft\<bar> / denom \<le> 1 / (2 * sqrt ridge)" using d(1) ok(4) by (simp add: field_simps)
  then show ?thesis using d by (simp add: abs_divide)
qed

text \<open>
  C15: The scalar fit solves its regression: whenever \<open>_fit_tether\<close> returns a coefficient it is the unique minimiser of the
  residual plus the relative ridge penalty; and for statistics of rows and a positive ridge the coefficient is bounded by
  \<open>1 / (2 sqrt ridge)\<close>, whatever the rewards and predictions.
\<close>

theorem fit_tether_minimises:
  assumes "fit_tether s ridge = Ok (Some rho)"
  shows "(x \<noteq> rho \<longrightarrow> ridge_objective s ridge rho < ridge_objective s ridge x) \<and>
     (stats_ok s \<and> 0 < ridge \<longrightarrow> \<bar>rho\<bar> \<le> 1 / (2 * sqrt ridge))"
  using fit_tether_unique_minimum[OF assms] fit_tether_bounded[OF assms] by blast

theorem fit_tether_minimises_witness:
  "fit_tether \<lparr> rs_weight = 2, rs_feature_feature = 4, rs_feature_target = 2, rs_target_target = 3 \<rparr> 1 = Ok (Some (1 / 4)) \<and>
   ridge_objective \<lparr> rs_weight = 2, rs_feature_feature = 4, rs_feature_target = 2, rs_target_target = 3 \<rparr> 1 (1 / 4) <
   ridge_objective \<lparr> rs_weight = 2, rs_feature_feature = 4, rs_feature_target = 2, rs_target_target = 3 \<rparr> 1 0"
proof -
  have f: "fit_tether \<lparr> rs_weight = 2, rs_feature_feature = 4, rs_feature_target = 2, rs_target_target = 3 \<rparr> 1 = Ok (Some (1 / 4))"
    by (simp add: fit_tether_def)
  from fit_tether_minimises[OF this, of 0] f show ?thesis by simp
qed

section \<open>Exact windows\<close>

lemma observe_group_append: "observe_group (xs @ ys) a = bindE (observe_group xs a) (observe_group ys)"
proof (induction xs arbitrary: a)
  case (Cons x xs)
  show ?case
  proof (cases "stats_add (at_pending a) x")
    case (Inr pending)
    show ?thesis using Cons.IH by (simp add: Inr Let_def bindE_assoc)
  qed simp
qed simp

lemma stats_total_snoc: "stats_total (ss @ [s]) = stats_plus (stats_total ss) s"
  by (simp add: stats_total_def)

lemma stats_total_ok: "list_all stats_ok ss \<Longrightarrow> stats_ok (stats_total ss)"
proof (induction ss rule: rev_induct)
  case (snoc s ss)
  then show ?case by (simp add: stats_total_snoc stats_plus_ok)
qed (simp add: stats_total_def)

lemma list_all_drop: "list_all P xs \<Longrightarrow> list_all P (drop n xs)"
  by (auto simp: list_all_iff dest: in_set_dropD)

text \<open>The abstract controller: an exponential moving average of one fit per complete window.\<close>

definition window :: "nat \<Rightarrow> 'a list \<Rightarrow> nat \<Rightarrow> 'a list" where
  "window n xs k = take n (drop (k * n) xs)"

definition ema_step :: "AdaptiveTetherConfig \<Rightarrow> TetherRegressionStats \<Rightarrow> real \<Rightarrow> real" where
  "ema_step config s rho =
     (if rs_weight s = 0 then rho
      else case fit_tether s (ac_ridge config) of
             Inr (Some fit_rho) \<Rightarrow> ac_ema_decay config * rho + (1 - ac_ema_decay config) * fit_rho
           | _ \<Rightarrow> rho)"

fun windowed_rho :: "AdaptiveTetherConfig \<Rightarrow> nat \<Rightarrow> TetherRegressionStats list \<Rightarrow> nat \<Rightarrow> real" where
  "windowed_rho config n xs 0 = ac_initial_rho config"
| "windowed_rho config n xs (Suc k) = ema_step config (stats_total (window n xs k)) (windowed_rho config n xs k)"

lemma window_append: "(k + 1) * n \<le> length xs \<Longrightarrow> window n (xs @ ys) k = window n xs k"
  by (simp add: window_def)

lemma windowed_rho_append: "k * n \<le> length xs \<Longrightarrow> windowed_rho config n (xs @ ys) k = windowed_rho config n xs k"
proof (induction k)
  case (Suc k)
  have "k * n \<le> length xs" using Suc.prems by simp
  then show ?case using Suc window_append[of k n xs ys] by simp
qed simp

lemma update_tether_ok:
  assumes ok: "stats_ok s"
  shows "\<exists>a'. update_tether s a = Ok a' \<and> at_config a' = at_config a \<and> at_batch_size a' = at_batch_size a \<and> at_gamma a' = at_gamma a \<and>
     at_gae_lambda a' = at_gae_lambda a \<and> at_rho a' = ema_step (at_config a) s (at_rho a) \<and>
     at_updates a' + at_skipped_updates a' = at_updates a + at_skipped_updates a + 1"
proof (cases "rs_weight s = 0")
  case True
  then show ?thesis by (simp add: update_tether_def Let_def ema_step_def skip_def)
next
  case False
  then obtain r where r: "fit_tether s (ac_ridge (at_config a)) = Ok r"
    using stats_ok_weight[OF ok] fit_tether_total by blast
  show ?thesis using False r by (cases r) (simp_all add: update_tether_def Let_def ema_step_def skip_def)
qed

lemma observe_one:
  assumes ok: "stats_ok (at_pending a)" "stats_ok s"
  shows "\<exists>a'. observe_group [s] a = Ok a' \<and> at_config a' = at_config a \<and> at_batch_size a' = at_batch_size a \<and>
     (if at_pending_rollouts a + 1 = at_batch_size a
      then at_pending_rollouts a' = 0 \<and> at_pending a' = no_stats \<and>
        at_rho a' = ema_step (at_config a) (stats_plus (at_pending a) s) (at_rho a) \<and>
        at_updates a' + at_skipped_updates a' = at_updates a + at_skipped_updates a + 1
      else at_pending_rollouts a' = at_pending_rollouts a + 1 \<and> at_pending a' = stats_plus (at_pending a) s \<and>
        at_rho a' = at_rho a \<and> at_updates a' + at_skipped_updates a' = at_updates a + at_skipped_updates a)"
proof -
  let ?b = "a\<lparr> at_pending := stats_plus (at_pending a) s, at_pending_rollouts := at_pending_rollouts a + 1 \<rparr>"
  show ?thesis
    using update_tether_ok[OF stats_plus_ok[OF ok], of ?b] by (auto simp: stats_add_ok[OF ok] Let_def)
qed

lemma observe_windows:
  assumes a0: "AdaptiveTether_init config batch_size gamma gae_lambda = Ok a0" and ok: "list_all stats_ok ss"
  defines "n \<equiv> nat batch_size"
  shows "\<exists>a. observe_group ss a0 = Ok a \<and> at_config a = config \<and> at_batch_size a = batch_size \<and>
     at_rho a = windowed_rho config n ss (length ss div n) \<and> at_updates a + at_skipped_updates a = int (length ss div n) \<and>
     at_pending_rollouts a = int (length ss mod n) \<and> at_pending a = stats_total (drop (length ss div n * n) ss)"
  using ok
proof (induction ss rule: rev_induct)
  case Nil
  then show ?case using a0 by (auto simp: AdaptiveTether_init_def result_simps stats_total_def)
next
  case (snoc s ss)
  have n: "0 < n" "int n = batch_size" using a0 by (auto simp: AdaptiveTether_init_def result_simps n_def)
  let ?k = "length ss div n"
  obtain a where a: "observe_group ss a0 = Ok a" "at_config a = config" "at_batch_size a = batch_size"
      "at_rho a = windowed_rho config n ss ?k" "at_updates a + at_skipped_updates a = int ?k"
      "at_pending_rollouts a = int (length ss mod n)" "at_pending a = stats_total (drop (?k * n) ss)"
    using snoc by auto
  have kn: "?k * n \<le> length ss" by (simp add: div_times_less_eq_dividend)
  have pend: "stats_plus (at_pending a) s = stats_total (drop (?k * n) (ss @ [s]))" using a(7) kn by (simp add: stats_total_snoc)
  have "stats_ok (at_pending a)" "stats_ok s"
    using snoc.prems by (simp_all add: a(7) stats_total_ok list_all_drop)
  from observe_one[OF this] obtain b where b: "observe_group [s] a = Ok b" "at_config b = config" "at_batch_size b = batch_size"
      "if int (length ss mod n) + 1 = batch_size
      then at_pending_rollouts b = 0 \<and> at_pending b = no_stats \<and>
        at_rho b = ema_step config (stats_plus (at_pending a) s) (at_rho a) \<and> at_updates b + at_skipped_updates b = int ?k + 1
      else at_pending_rollouts b = int (length ss mod n) + 1 \<and> at_pending b = stats_plus (at_pending a) s \<and>
        at_rho b = at_rho a \<and> at_updates b + at_skipped_updates b = int ?k"
    unfolding a(2,3,5,6) by blast
  have run: "observe_group (ss @ [s]) a0 = Ok b" using a(1) b(1) by (simp add: observe_group_append)
  show ?case
  proof (cases "Suc (length ss mod n) = n")
    case True
    have len: "Suc (length ss) = Suc ?k * n" using True by (metis add_Suc_right div_mult_mod_eq mult_Suc add.commute)
    then have k: "length (ss @ [s]) div n = Suc ?k" "length (ss @ [s]) mod n = 0" using n(1) by simp_all
    have w: "window n (ss @ [s]) ?k = drop (?k * n) (ss @ [s])" using len by (simp add: window_def)
    have r: "windowed_rho config n (ss @ [s]) ?k = windowed_rho config n ss ?k" by (rule windowed_rho_append[OF kn])
    have "int (length ss mod n) + 1 = batch_size" using True n(2) by linarith
    moreover have "stats_total (drop (Suc ?k * n) (ss @ [s])) = no_stats" using len by (simp add: stats_total_def del: drop_append)
    ultimately show ?thesis using run b pend a(4) unfolding k windowed_rho.simps w r by (simp del: drop_append)
  next
    case False
    then have k: "length (ss @ [s]) div n = ?k" "length (ss @ [s]) mod n = Suc (length ss mod n)" by (simp_all add: div_Suc mod_Suc)
    have r: "windowed_rho config n (ss @ [s]) ?k = windowed_rho config n ss ?k" by (rule windowed_rho_append[OF kn])
    have "int (length ss mod n) + 1 \<noteq> batch_size" using False n(2) by linarith
    then show ?thesis using run b pend a(4) unfolding k r by auto
  qed
qed


lemma ema_step_bounded:
  assumes "stats_ok s" "0 < ac_ridge config" "0 \<le> ac_ema_decay config" "ac_ema_decay config \<le> 1"
    and "1 / (2 * sqrt (ac_ridge config)) \<le> M" "\<bar>rho\<bar> \<le> M"
  shows "\<bar>ema_step config s rho\<bar> \<le> M"
proof (cases "fit_tether s (ac_ridge config)")
  case (Inr fit)
  show ?thesis
  proof (cases fit)
    case (Some r)
    then have "\<bar>r\<bar> \<le> M" using Inr fit_tether_bounded[of s "ac_ridge config" r] assms by simp
    then have "ac_ema_decay config * \<bar>rho\<bar> + (1 - ac_ema_decay config) * \<bar>r\<bar> \<le> M"
      using assms(3,4,6) by (intro convex_bound_le) simp_all
    moreover have "\<bar>ac_ema_decay config * rho + (1 - ac_ema_decay config) * r\<bar> \<le> ac_ema_decay config * \<bar>rho\<bar> + (1 - ac_ema_decay config) * \<bar>r\<bar>"
      using abs_triangle_ineq[of "ac_ema_decay config * rho" "(1 - ac_ema_decay config) * r"] assms(3,4) by (simp add: abs_mult)
    ultimately show ?thesis using assms(6) by (simp add: ema_step_def Inr Some)
  qed (simp add: ema_step_def Inr assms(6))
qed (simp add: ema_step_def assms(6))

lemma list_all_take: "list_all P xs \<Longrightarrow> list_all P (take n xs)"
  by (auto simp: list_all_iff dest: in_set_takeD)

lemma windowed_rho_bounded:
  assumes "list_all stats_ok ss" "0 < ac_ridge config" "0 \<le> ac_ema_decay config" "ac_ema_decay config \<le> 1"
  shows "\<bar>windowed_rho config n ss k\<bar> \<le> max \<bar>ac_initial_rho config\<bar> (1 / (2 * sqrt (ac_ridge config)))"
proof (induction k)
  case (Suc k)
  have "stats_ok (stats_total (window n ss k))"
    by (simp add: stats_total_ok window_def list_all_take list_all_drop assms(1))
  then show ?case by (simp only: windowed_rho.simps) (rule ema_step_bounded[OF _ assms(2-4) max.cobounded2 Suc])
qed simp

text \<open>
  C14: The adaptive coefficient is a lagged average over exact rollout windows: with a positive ridge, however the observed rollouts arrive, after
  \<open>m\<close> of them the controller has made one update (or one skip) per complete window of \<open>batch_size\<close> rollouts, its coefficient
  is the exponential moving average of the fits of those windows alone, and the remainder, whole rollouts only, is pending.
  The coefficient never leaves the interval given by its start and \<open>1 / (2 sqrt ridge)\<close>.
\<close>

theorem observe_group_windows:
  assumes "AdaptiveTether_init config batch_size gamma gae_lambda = Ok a0" "list_all stats_ok ss"
    and "0 < ac_ridge config" "0 \<le> ac_ema_decay config" "ac_ema_decay config \<le> 1"
  shows "\<exists>a. observe_group ss a0 = Ok a \<and>
     at_rho a = windowed_rho config (nat batch_size) ss (length ss div nat batch_size) \<and>
     at_updates a + at_skipped_updates a = int (length ss div nat batch_size) \<and>
     at_pending_rollouts a = int (length ss mod nat batch_size) \<and>
     at_pending a = stats_total (drop (length ss div nat batch_size * nat batch_size) ss) \<and>
     \<bar>at_rho a\<bar> \<le> max \<bar>ac_initial_rho config\<bar> (1 / (2 * sqrt (ac_ridge config)))"
proof -
  obtain a where "observe_group ss a0 = Ok a" "at_rho a = windowed_rho config (nat batch_size) ss (length ss div nat batch_size)"
      "at_updates a + at_skipped_updates a = int (length ss div nat batch_size)"
      "at_pending_rollouts a = int (length ss mod nat batch_size)"
      "at_pending a = stats_total (drop (length ss div nat batch_size * nat batch_size) ss)"
    using observe_windows[OF assms(1,2)] by (elim exE conjE) (rule that)
  then show ?thesis using windowed_rho_bounded[OF assms(2-5)] by simp
qed

theorem observe_group_windows_witness:
  "let config = \<lparr> ac_ridge = 1 / 4, ac_ema_decay = 1 / 2, ac_initial_rho = 0 \<rparr>;
       s = \<lparr> rs_weight = 2, rs_feature_feature = 4, rs_feature_target = 2, rs_target_target = 3 \<rparr>
   in \<exists>a0 a. AdaptiveTether_init config 2 1 1 = Ok a0 \<and> observe_group [s, s, s] a0 = Ok a \<and> at_pending_rollouts a = 1 \<and> at_rho a = 1 / 5"
proof -
  let ?config = "\<lparr> ac_ridge = 1 / 4, ac_ema_decay = 1 / 2, ac_initial_rho = 0 \<rparr>"
  let ?s = "\<lparr> rs_weight = 2, rs_feature_feature = 4, rs_feature_target = 2, rs_target_target = 3 \<rparr>"
  obtain a0 where a0: "AdaptiveTether_init ?config 2 1 1 = Ok a0" by (simp add: AdaptiveTether_init_def)
  have ok: "list_all stats_ok [?s, ?s, ?s]" by (simp add: stats_ok_def)
  have "windowed_rho ?config 2 [?s, ?s, ?s] 1 = 1 / 5"
    by (simp add: window_def stats_total_def stats_plus_def no_stats_def ema_step_def fit_tether_def Let_def)
  then show ?thesis using observe_group_windows[OF a0 ok] a0 by (auto simp: Let_def)
qed

section \<open>The positioned controller and its checkpoint\<close>

text \<open>What a pending bin satisfies after \<open>k\<close> rollouts: every contributor brought at least one row.\<close>

definition bin_support :: "int \<Rightarrow> TetherRegressionStats \<Rightarrow> int \<Rightarrow> bool" where
  "bin_support k s c \<longleftrightarrow> stats_ok s \<and> 0 \<le> c \<and> c \<le> k \<and> (c = 0 \<longleftrightarrow> rs_weight s = 0) \<and> of_int c \<le> rs_weight s"

lemma bin_support_add:
  assumes "bin_support k s c" "stats_ok b"
  shows "bin_support (k + 1) (stats_plus s b) (c + (if rs_weight b > 0 then 1 else 0))"
proof -
  have "rs_weight b = 0 \<or> 1 \<le> rs_weight b" "rs_weight s = 0 \<or> 1 \<le> rs_weight s"
    using assms stats_ok_weight by (auto simp: bin_support_def)
  then show ?thesis using assms stats_plus_ok[of s b] by (auto simp: bin_support_def) (auto simp: stats_plus_def)
qed

lemma add_bins_ok:
  assumes "list_all2 (bin_support k) ps cs" "list_all stats_ok bs" "length bs = length ps"
  shows "\<exists>ps' cs'. add_bins ps cs bs = Ok (ps', cs') \<and> list_all2 (bin_support (k + 1)) ps' cs' \<and> length ps' = length ps"
  using assms
proof (induction ps cs bs rule: add_bins.induct)
  case (2 p ps c cs b bs)
  have pc: "bin_support k p c" "list_all2 (bin_support k) ps cs" and b: "stats_ok b" "list_all stats_ok bs" "length bs = length ps"
    using 2(2-4) by simp_all
  have add: "stats_add p b = Ok (stats_plus p b)" using pc(1) b(1) by (simp add: bin_support_def stats_add_ok)
  obtain ps' cs' where r: "add_bins ps cs bs = Ok (ps', cs')" "list_all2 (bin_support (k + 1)) ps' cs'" "length ps' = length ps"
    using 2(1)[OF pc(2) b(2,3)] by blast
  show ?case using r(2,3) bin_support_add[OF pc(1) b(1)] by (simp add: add r(1))
qed auto

definition bin_fit_ok :: "TetherRegressionStats \<Rightarrow> bin_fit \<Rightarrow> bool" where
  "bin_fit_ok s f \<longleftrightarrow> 0 \<le> bf_updates f \<and> 0 \<le> bf_weight f \<and> bf_weight f \<le> rs_weight s \<and> 0 \<le> bf_residual f"

lemma residual_sum_nonneg: "0 \<le> residual_sum s r"
  by (simp add: residual_sum_def)

lemma fit_bin_ok:
  assumes ok: "stats_ok s" and u: "0 \<le> u"
  shows "\<exists>f. fit_bin config m (s, c) (r, u) = Ok f \<and> bin_fit_ok s f"
proof (cases "rs_weight s = 0 \<or> c < m")
  case True
  then show ?thesis using u stats_ok_weight[OF ok] by (auto simp: fit_bin_def bin_fit_ok_def)
next
  case False
  then have w: "1 \<le> rs_weight s" using stats_ok_weight[OF ok] by blast
  obtain fit where "fit_tether s (ac_ridge config) = Ok fit" using fit_tether_total[OF w] by blast
  then show ?thesis using False u w by (cases fit) (auto simp: fit_bin_def bin_fit_ok_def residual_sum_nonneg Let_def)
qed


lemma fit_bins_ok:
  assumes "list_all2 (bin_support k) ss cs" "length rs = length ss" "length us = length ss" "list_all (\<lambda>u. 0 \<le> u) us"
  shows "\<exists>fs. traverse (\<lambda>(sc, ru). fit_bin config m sc ru) (zip (zip ss cs) (zip rs us)) = Ok fs \<and> list_all2 bin_fit_ok ss fs"
  using assms
proof (induction ss cs arbitrary: rs us rule: list_all2_induct)
  case (Cons s ss c cs)
  obtain r rs' u us' where ru: "rs = r # rs'" "us = u # us'" using Cons.prems(1,2) by (cases rs; cases us) auto
  have len: "length rs' = length ss" "length us' = length ss" and u: "0 \<le> u" "list_all (\<lambda>u. 0 \<le> u) us'"
    using Cons.prems by (simp_all add: ru)
  obtain f where f: "fit_bin config m (s, c) (r, u) = Ok f" "bin_fit_ok s f"
    using fit_bin_ok[OF _ u(1), of s config m c r] Cons.hyps by (auto simp: bin_support_def)
  obtain fs where fs: "traverse (\<lambda>(sc, ru). fit_bin config m sc ru) (zip (zip ss cs) (zip rs' us')) = Ok fs" "list_all2 bin_fit_ok ss fs"
    using Cons.IH[OF len u(2)] by blast
  show ?case by (simp add: ru f fs)
qed simp

lemma bin_fits_sums:
  assumes "list_all2 bin_fit_ok ss fs"
  shows "0 \<le> sum_list (map bf_weight fs) \<and> sum_list (map bf_weight fs) \<le> sum_list (map rs_weight ss) \<and> 0 \<le> sum_list (map bf_residual fs) \<and>
     list_all (\<lambda>u. 0 \<le> u) (map bf_updates fs)"
  using assms by (induction rule: list_all2_induct) (auto simp: bin_fit_ok_def)

definition pos_ok :: "PositionTether \<Rightarrow> bool" where
  "pos_ok a \<longleftrightarrow> (let n = nat (pt_num_bins a) in
     1 \<le> pt_batch_size a \<and> 2 \<le> pt_num_bins a \<and> 1 \<le> pt_bin_size a \<and> 1 \<le> pt_min_bin_rollouts a \<and>
     0 \<le> pt_pending_rollouts a \<and> pt_pending_rollouts a < pt_batch_size a \<and>
     length (pt_rho a) = n \<and> length (pt_pending_bins a) = n \<and>
     list_all2 (bin_support (pt_pending_rollouts a)) (pt_pending_bins a) (pt_pending_contributors a) \<and>
     0 \<le> pt_updates a \<and> 0 \<le> pt_skipped_updates a \<and> length (pt_bin_updates a) = n \<and> list_all (\<lambda>u. 0 \<le> u) (pt_bin_updates a) \<and>
     length (pt_last_fit_valid a) = n \<and> length (pt_last_contributors a) = n \<and> list_all (\<lambda>u. 0 \<le> u) (pt_last_contributors a) \<and>
     0 \<le> pt_last_mse_group a \<and> 0 \<le> pt_last_mse_fit a \<and> 0 \<le> pt_last_mse_ema a \<and> 0 \<le> pt_last_feature_power a \<and>
     0 \<le> pt_last_fit_token_fraction a \<and> pt_last_fit_token_fraction a \<le> 1)"

definition same_contract :: "PositionTether \<Rightarrow> PositionTether \<Rightarrow> bool" where
  "same_contract a b \<longleftrightarrow> pt_config a = pt_config b \<and> pt_batch_size a = pt_batch_size b \<and> pt_gamma a = pt_gamma b \<and>
     pt_gae_lambda a = pt_gae_lambda b \<and> pt_num_bins a = pt_num_bins b \<and> pt_bin_size a = pt_bin_size b \<and>
     pt_min_bin_rollouts a = pt_min_bin_rollouts b"

lemma list_all2_replicate_same: "P x y \<Longrightarrow> list_all2 P (replicate n x) (replicate n y)"
  by (simp add: list_all2_conv_all_nth)

lemma bin_support_none: "0 \<le> k \<Longrightarrow> bin_support k no_stats 0"
  by (simp add: bin_support_def) (simp add: no_stats_def)

lemma PositionTether_init_ok:
  assumes "PositionTether_init config batch gamma lam n w m = Ok a"
  shows "pos_ok a"
  using assms
  by (auto simp: PositionTether_init_def result_simps Let_def pos_ok_def list_all_length bin_support_none list_all2_replicate_same)

lemma bin_support_facts:
  assumes "list_all2 (bin_support k) ss cs"
  shows "list_all stats_ok ss \<and> list_all (\<lambda>c. 0 \<le> c) cs \<and> 0 \<le> sum_list (map rs_weight ss) \<and> 0 \<le> sum_list (map rs_target_target ss) \<and>
    0 \<le> sum_list (map rs_feature_feature ss)"
  using assms
proof (induction rule: list_all2_induct)
  case (Cons s ss c cs)
  then have "0 \<le> rs_weight s" using stats_ok_weight[of s] by (auto simp: bin_support_def)
  then show ?case using Cons by (simp add: bin_support_def stats_ok_def)
qed simp

lemma sum_residuals_nonneg: "0 \<le> sum_list (map2 residual_sum ss rs)"
  by (intro sum_list_nonneg) (auto simp: residual_sum_nonneg)

lemma update_positions_ok:
  assumes sup: "list_all2 (bin_support k) ss cs" and len: "length ss = nat (pt_num_bins a)" "length (pt_rho a) = nat (pt_num_bins a)"
      "length (pt_bin_updates a) = nat (pt_num_bins a)" and u: "list_all (\<lambda>u. 0 \<le> u) (pt_bin_updates a)"
      "0 \<le> pt_updates a" "0 \<le> pt_skipped_updates a"
  shows "\<exists>d. update_positions ss cs a = Ok d \<and> same_contract d a \<and> length (pt_rho d) = nat (pt_num_bins a) \<and>
     0 \<le> pt_updates d \<and> 0 \<le> pt_skipped_updates d \<and> pt_updates d + pt_skipped_updates d = pt_updates a + pt_skipped_updates a + 1 \<and>
     length (pt_bin_updates d) = nat (pt_num_bins a) \<and> list_all (\<lambda>u. 0 \<le> u) (pt_bin_updates d) \<and>
     length (pt_last_fit_valid d) = nat (pt_num_bins a) \<and> pt_last_contributors d = cs \<and>
     0 \<le> pt_last_mse_group d \<and> 0 \<le> pt_last_mse_fit d \<and> 0 \<le> pt_last_mse_ema d \<and> 0 \<le> pt_last_feature_power d \<and>
     0 \<le> pt_last_fit_token_fraction d \<and> pt_last_fit_token_fraction d \<le> 1"
proof (cases "sum_list (map rs_weight ss) = 0")
  case True
  then show ?thesis using len u by (simp add: update_positions_def Let_def same_contract_def)
next
  case False
  have w: "0 < sum_list (map rs_weight ss)" and m: "0 \<le> sum_list (map rs_target_target ss)" "0 \<le> sum_list (map rs_feature_feature ss)"
    using False bin_support_facts[OF sup] by auto
  have lc: "length ss = length cs" using sup by (rule list_all2_lengthD)
  obtain fs where fs: "traverse (\<lambda>(sc, ru). fit_bin (pt_config a) (pt_min_bin_rollouts a) sc ru) (zip (zip ss cs) (zip (pt_rho a) (pt_bin_updates a))) = Ok fs"
      "list_all2 bin_fit_ok ss fs"
    using fit_bins_ok[OF sup _ _ u(1)] len by metis
  have lf: "length fs = nat (pt_num_bins a)" using fs(2) len(1) by (auto dest: list_all2_lengthD)
  note sums = bin_fits_sums[OF fs(2)]
  have lens: "\<not> (length (pt_rho a) \<noteq> length ss \<or> length (pt_bin_updates a) \<noteq> length ss)" using len by simp
  have eq: "update_positions ss cs a = Ok (a\<lparr> pt_last_contributors := cs, pt_rho := map bf_rho fs, pt_last_fit_valid := map bf_valid fs,
      pt_bin_updates := map bf_updates fs,
      pt_updates := pt_updates a + (if list_ex id (map bf_valid fs) then 1 else 0),
      pt_skipped_updates := pt_skipped_updates a + (if list_ex id (map bf_valid fs) then 0 else 1),
      pt_last_mse_group := sum_list (map rs_target_target ss) / sum_list (map rs_weight ss),
      pt_last_mse_fit := (if sum_list (map bf_weight fs) \<noteq> 0 then sum_list (map bf_residual fs) / sum_list (map bf_weight fs) else 0),
      pt_last_mse_ema := sum_list (map2 residual_sum ss (map bf_rho fs)) / sum_list (map rs_weight ss),
      pt_last_feature_power := sum_list (map rs_feature_feature ss) / sum_list (map rs_weight ss),
      pt_last_fit_token_fraction := sum_list (map bf_weight fs) / sum_list (map rs_weight ss) \<rparr>)"
    using False lc lens fs(1) by (simp add: update_positions_def Let_def)
  show ?thesis unfolding eq
    using w m sums lf u(2,3) sum_residuals_nonneg[of ss "map bf_rho fs"] by (simp add: same_contract_def zero_le_divide_iff)
qed

lemma observe_one_position:
  assumes ok: "pos_ok a" and row: "list_all stats_ok bins" "int (length bins) = pt_num_bins a"
  shows "\<exists>b. observe_positions [bins] a = Ok b \<and> pos_ok b \<and> same_contract b a"
proof -
  have f: "length (pt_pending_bins a) = nat (pt_num_bins a)" "list_all2 (bin_support (pt_pending_rollouts a)) (pt_pending_bins a) (pt_pending_contributors a)"
      "length (pt_rho a) = nat (pt_num_bins a)" "length (pt_bin_updates a) = nat (pt_num_bins a)"
      "list_all (\<lambda>u. 0 \<le> u) (pt_bin_updates a)" "0 \<le> pt_updates a" "0 \<le> pt_skipped_updates a"
    using ok by (simp_all add: pos_ok_def Let_def)
  have len: "length bins = length (pt_pending_bins a)" using row(2) f(1) by linarith
  obtain ps cs where pc: "add_bins (pt_pending_bins a) (pt_pending_contributors a) bins = Ok (ps, cs)"
      "list_all2 (bin_support (pt_pending_rollouts a + 1)) ps cs" "length ps = length (pt_pending_bins a)"
    using add_bins_ok[OF f(2) row(1) len] by blast
  let ?b = "a\<lparr> pt_pending_bins := ps, pt_pending_contributors := cs, pt_pending_rollouts := pt_pending_rollouts a + 1 \<rparr>"
  show ?thesis
  proof (cases "pt_pending_rollouts a + 1 = pt_batch_size a")
    case True
    have cs: "length cs = nat (pt_num_bins a)" "list_all (\<lambda>c. 0 \<le> c) cs"
      using pc(2,3) f(1) bin_support_facts[OF pc(2)] by (auto dest: list_all2_lengthD)
    obtain d where d: "update_positions ps cs ?b = Ok d" "same_contract d ?b" "length (pt_rho d) = nat (pt_num_bins a)"
        "0 \<le> pt_updates d" "0 \<le> pt_skipped_updates d"
        "length (pt_bin_updates d) = nat (pt_num_bins a)" "list_all (\<lambda>u. 0 \<le> u) (pt_bin_updates d)"
        "length (pt_last_fit_valid d) = nat (pt_num_bins a)" "pt_last_contributors d = cs"
        "0 \<le> pt_last_mse_group d" "0 \<le> pt_last_mse_fit d" "0 \<le> pt_last_mse_ema d" "0 \<le> pt_last_feature_power d"
        "0 \<le> pt_last_fit_token_fraction d" "pt_last_fit_token_fraction d \<le> 1"
      using update_positions_ok[OF pc(2), of ?b] f pc(3) by auto
    have c: "pt_batch_size d = pt_batch_size a" "pt_num_bins d = pt_num_bins a" "pt_bin_size d = pt_bin_size a"
        "pt_min_bin_rollouts d = pt_min_bin_rollouts a" using d(2) by (simp_all add: same_contract_def)
    let ?e = "d\<lparr> pt_pending_rollouts := 0, pt_pending_bins := replicate (nat (pt_num_bins d)) no_stats,
               pt_pending_contributors := replicate (nat (pt_num_bins d)) 0 \<rparr>"
    have "observe_positions [bins] a = Ok ?e" using row(2) pc(1) True d(1) by (simp add: Let_def)
    moreover have "pos_ok ?e" using ok d(3-) cs
      by (simp add: pos_ok_def Let_def c bin_support_none list_all2_replicate_same)
    moreover have "same_contract ?e a" using d(2) by (simp add: same_contract_def)
    ultimately show ?thesis by blast
  next
    case False
    have "observe_positions [bins] a = Ok ?b" using row(2) pc(1) False by (simp add: Let_def)
    moreover have "pos_ok ?b" using ok pc(2,3) False by (simp add: pos_ok_def Let_def)
    moreover have "same_contract ?b a" by (simp add: same_contract_def)
    ultimately show ?thesis by blast
  qed
qed


lemma observe_positions_append: "observe_positions (xs @ ys) a = bindE (observe_positions xs a) (observe_positions ys)"
proof (induction xs arbitrary: a)
  case (Cons x xs)
  show ?case
  proof (cases "int (length x) \<noteq> pt_num_bins a")
    case False
    show ?thesis
    proof (cases "add_bins (pt_pending_bins a) (pt_pending_contributors a) x")
      case (Inr pc)
      show ?thesis using Cons.IH False by (cases pc) (simp add: Inr Let_def bindE_assoc)
    qed (simp add: False)
  qed simp
qed simp

lemma same_contract_trans: "same_contract a b \<Longrightarrow> same_contract b c \<Longrightarrow> same_contract a c"
  by (simp add: same_contract_def)

lemma observe_positions_ok:
  assumes "pos_ok a" "list_all (\<lambda>bins. list_all stats_ok bins \<and> int (length bins) = pt_num_bins a) rows"
  shows "\<exists>b. observe_positions rows a = Ok b \<and> pos_ok b \<and> same_contract b a"
  using assms
proof (induction rows arbitrary: a)
  case Nil
  then show ?case by (simp add: same_contract_def)
next
  case (Cons bins rows)
  obtain b where b: "observe_positions [bins] a = Ok b" "pos_ok b" "same_contract b a"
    using observe_one_position[OF Cons.prems(1), of bins] Cons.prems(2) by auto
  have "pt_num_bins b = pt_num_bins a" using b(3) by (simp add: same_contract_def)
  then obtain d where d: "observe_positions rows b = Ok d" "pos_ok d" "same_contract d b"
    using Cons.IH[OF b(2)] Cons.prems(2) by auto
  have "observe_positions (bins # rows) a = Ok d" using observe_positions_append[of "[bins]" rows a] b(1) d(1) by simp
  then show ?case using d(2) same_contract_trans[OF d(3) b(3)] by blast
qed

lemma stats_dict_loads: "stats_ok s \<Longrightarrow> stats_of_dict (stats_dict s) = Ok s"
  using stats_ok_weight[of s]
  by (auto simp: stats_of_dict_def stats_dict_def keyword_def TetherRegressionStats_init_def stats_ok_def)

lemma traverse_map_Ok: "list_all (\<lambda>x. f (g x) = Ok x) xs \<Longrightarrow> traverse f (map g xs) = Ok xs"
  by (induction xs) auto

lemma float_vector_loads: "length xs = n \<Longrightarrow> strict_float_vector (PList (map PFloat xs)) n = Ok xs"
  by (simp add: strict_float_vector_def traverse_map_Ok list_all_iff)

lemma bool_vector_loads: "length bs = n \<Longrightarrow> strict_bool_vector (PList (map PBool bs)) n = Ok bs"
  by (simp add: strict_bool_vector_def traverse_map_Ok list_all_iff)

lemma int_vector_loads:
  assumes "length ns = n" "list_all (\<lambda>i. 0 \<le> i) ns"
  shows "strict_int_vector (PList (map PInt ns)) n = Ok ns"
proof -
  have "traverse (\<lambda>v. strict_int v 0) (map PInt ns) = Ok ns"
    by (rule traverse_map_Ok) (use assms(2) in \<open>auto simp: list_all_iff not_less\<close>)
  then show ?thesis using assms(1) by (simp add: strict_int_vector_def)
qed

lemmas vectors_load = float_vector_loads bool_vector_loads int_vector_loads

lemma pending_bins_load:
  "list_all stats_ok ss \<Longrightarrow> int (length ss) = n \<Longrightarrow> load_pending_bins (PList (map (\<lambda>s. PDict (stats_dict s)) ss)) n = Ok ss"
  by (simp add: load_pending_bins_def traverse_map_Ok list_all_iff stats_dict_loads)

lemma bin_support_consistent:
  "list_all2 (bin_support k) ss cs \<Longrightarrow> list_all (\<lambda>(s, c). bin_consistent s c) (zip ss cs) \<and> \<not> list_ex (\<lambda>v. v > k) cs"
  by (induction rule: list_all2_induct) (auto simp: bin_support_def bin_consistent_def stats_ok_def)

lemma strict_int_PInt [simp]: "minimum \<le> i \<Longrightarrow> strict_int (PInt i) minimum = Ok i"
  by simp

lemma nonnegative_float_PFloat [simp]: "0 \<le> r \<Longrightarrow> nonnegative_float (PFloat r) = Ok r"
  by (simp add: nonnegative_float_def)

lemma unit_float_PFloat [simp]: "0 \<le> r \<Longrightarrow> r \<le> 1 \<Longrightarrow> unit_float (PFloat r) = Ok r"
  by (simp add: unit_float_def)

lemma load_position_state_dict:
  assumes ok: "pos_ok a" and same: "same_contract a a0"
  shows "load_positions (position_state_dict a) a0 = Ok a"
proof -
  let ?n = "nat (pt_num_bins a)"
  have f: "1 \<le> pt_batch_size a" "2 \<le> pt_num_bins a" "1 \<le> pt_bin_size a" "1 \<le> pt_min_bin_rollouts a"
      "0 \<le> pt_pending_rollouts a" "pt_pending_rollouts a < pt_batch_size a"
      "length (pt_rho a) = ?n" "length (pt_pending_bins a) = ?n"
      "list_all2 (bin_support (pt_pending_rollouts a)) (pt_pending_bins a) (pt_pending_contributors a)"
      "0 \<le> pt_updates a" "0 \<le> pt_skipped_updates a" "length (pt_bin_updates a) = ?n" "list_all (\<lambda>u. 0 \<le> u) (pt_bin_updates a)"
      "length (pt_last_fit_valid a) = ?n" "length (pt_last_contributors a) = ?n" "list_all (\<lambda>u. 0 \<le> u) (pt_last_contributors a)"
      "0 \<le> pt_last_mse_group a" "0 \<le> pt_last_mse_fit a" "0 \<le> pt_last_mse_ema a" "0 \<le> pt_last_feature_power a"
      "0 \<le> pt_last_fit_token_fraction a" "pt_last_fit_token_fraction a \<le> 1"
    using ok by (simp_all add: pos_ok_def Let_def)
  have bins: "list_all stats_ok (pt_pending_bins a)" "list_all (\<lambda>c. 0 \<le> c) (pt_pending_contributors a)"
      "int (length (pt_pending_bins a)) = pt_num_bins a" "length (pt_pending_contributors a) = ?n"
    using bin_support_facts[OF f(9)] f(2,8) f(9)[THEN list_all2_lengthD] by simp_all
  note sup = bin_support_consistent[OF f(9)]
  have c: "pt_config a0 = pt_config a" "pt_batch_size a0 = pt_batch_size a" "pt_gamma a0 = pt_gamma a" "pt_gae_lambda a0 = pt_gae_lambda a"
      "pt_num_bins a0 = pt_num_bins a" "pt_bin_size a0 = pt_bin_size a" "pt_min_bin_rollouts a0 = pt_min_bin_rollouts a"
    using same by (simp_all add: same_contract_def)
  have contract: "check_position_contract (position_state_dict a) a0 = Ok ()"
    using f(1-4) by (simp add: check_position_contract_def position_state_dict_def py_get_def c)
  have "load_positions (position_state_dict a) a0 = Ok (a0\<lparr> pt_rho := pt_rho a, pt_pending_rollouts := pt_pending_rollouts a,
      pt_pending_bins := pt_pending_bins a, pt_pending_contributors := pt_pending_contributors a,
      pt_updates := pt_updates a, pt_skipped_updates := pt_skipped_updates a, pt_bin_updates := pt_bin_updates a, pt_last_fit_valid := pt_last_fit_valid a,
      pt_last_contributors := pt_last_contributors a, pt_last_mse_group := pt_last_mse_group a, pt_last_mse_fit := pt_last_mse_fit a,
      pt_last_mse_ema := pt_last_mse_ema a, pt_last_feature_power := pt_last_feature_power a, pt_last_fit_token_fraction := pt_last_fit_token_fraction a \<rparr>)"
    unfolding load_positions_def Let_def contract bindE.simps
    using f(5-22) bins sup by (simp add: position_state_dict_def py_get_def c vectors_load pending_bins_load)
  also have "\<dots> = Ok a" using c by simp
  finally show ?thesis .
qed

text \<open>
  C16: The positioned controller's checkpoint loses nothing: from a fresh controller and any rollouts with well-formed
  statistics, observing raises nothing, and the loader, with all its validation of types, ranges, support and
  consistency, accepts \<open>state_dict\<close> of the result into a fresh controller and rebuilds exactly that state.
\<close>

theorem position_checkpoint_roundtrip:
  assumes "PositionTether_init config batch_size gamma gae_lambda num_bins bin_size min_bin = Ok a0"
    and "list_all (\<lambda>bins. list_all stats_ok bins \<and> int (length bins) = num_bins) rows"
  shows "\<exists>a. observe_positions rows a0 = Ok a \<and> load_positions (position_state_dict a) a0 = Ok a"
proof -
  have n: "pt_num_bins a0 = num_bins" using assms(1) by (auto simp: PositionTether_init_def result_simps Let_def)
  from observe_positions_ok[OF PositionTether_init_ok[OF assms(1)]] assms(2) obtain a
    where "observe_positions rows a0 = Ok a" "pos_ok a" "same_contract a a0" unfolding n by blast
  then show ?thesis using load_position_state_dict by blast
qed

theorem position_checkpoint_roundtrip_witness:
  "let config = \<lparr> ac_ridge = 1 / 4, ac_ema_decay = 1 / 2, ac_initial_rho = 0 \<rparr>;
       s = \<lparr> rs_weight = 2, rs_feature_feature = 4, rs_feature_target = 2, rs_target_target = 3 \<rparr>
   in \<exists>a0 a. PositionTether_init config 2 1 1 2 8 1 = Ok a0 \<and> observe_positions [[s, no_stats], [s, s], [no_stats, s]] a0 = Ok a \<and>
        load_positions (position_state_dict a) a0 = Ok a"
proof -
  let ?config = "\<lparr> ac_ridge = 1 / 4, ac_ema_decay = 1 / 2, ac_initial_rho = 0 \<rparr>"
  let ?s = "\<lparr> rs_weight = 2, rs_feature_feature = 4, rs_feature_target = 2, rs_target_target = 3 \<rparr>"
  obtain a0 where a0: "PositionTether_init ?config 2 1 1 2 8 1 = Ok a0" by (simp add: PositionTether_init_def Let_def)
  have ok: "list_all (\<lambda>bins. list_all stats_ok bins \<and> int (length bins) = 2) [[?s, no_stats], [?s, ?s], [no_stats, ?s]]"
    by (simp add: stats_ok_def[of ?s])
  show ?thesis using position_checkpoint_roundtrip[OF a0 ok] a0 by (auto simp: Let_def)
qed

end
