(* ===== verification/Rollouts.thy ===== *)
theory Rollouts
  imports Value_Credit Ordered_Dict
begin

text \<open>
  The rollout object of \<^verbatim>\<open>orchestrator/types.py\<close> with the operations that write credit on it: \<^verbatim>\<open>algo/advantage.py\<close>,
  \<^verbatim>\<open>algo/routing.py\<close>, \<^verbatim>\<open>algo/max_rl.py\<close> and the degenerate-generation filters of \<^verbatim>\<open>orchestrator/filters.py\<close>.
\<close>

section \<open>Data\<close>

text \<open>The wire sample: the materialised sample with the streams the orchestrator stamps on it.\<close>

record WireSample = TrainingSample +
  ws_temperatures :: "real list"
  ws_ref_logprobs :: "real list option"
  ws_rl_weights :: "real list option"
  ws_ce_weights :: "real list option"
  ws_ref_kl_weights :: "real list option"
  ws_advantages :: "real list option"

text \<open>
  \<open>Rollout\<close> extends the environment library's trace; the library's computed properties the code reads (\<open>has_error\<close>, token and
  turn counts) are fields, as are the object identity and the task's index and privileged prompt.
\<close>

record Rollout =
  ro_id :: nat
  ro_trace :: trace
  ro_reward :: real
  ro_has_error :: bool
  ro_trainable :: bool
  ro_num_output_tokens :: int
  ro_num_total_tokens :: int
  ro_num_turns :: int
  ro_task_prompt :: "string option"
  ro_env_name :: string
  ro_group_id :: string
  ro_policy_version :: int
  ro_samples :: "WireSample list"
  ro_training_layout :: "TrainingLayout option"
  ro_advantages :: "real list option"
  ro_value_predictions :: "real list list option"
  ro_value_advantages :: "real list list option"
  ro_value_returns :: "real list list option"
  ro_value_version :: "int option"
  ro_value_prefix :: "TokenPrefix option"
  ro_value_trajectory :: "ValueTrajectory option"
  ro_is_filtered :: bool
  ro_filter_results :: "(string, bool) odict"

section \<open>Credit\<close>

datatype credit = Scalar real | PerToken "real list"

definition total_tokens :: "Rollout \<Rightarrow> nat" where
  "total_tokens r = sum_list (map (\<lambda>s. length (smp_token_ids s)) (ro_samples r))"

fun assign_advantages :: "credit \<Rightarrow> Rollout \<Rightarrow> Rollout result" where
  "assign_advantages (Scalar v) r =
     Ok (r\<lparr> ro_advantages := Some (concat (map (\<lambda>s. map (\<lambda>trainable. if trainable then v else 0) (smp_mask s)) (ro_samples r))) \<rparr>)"
| "assign_advantages (PerToken vs) r =
     raise_if (length vs \<noteq> total_tokens r) (ValueError ''per-token advantages must align with the rollout tokens'')
       (Ok (r\<lparr> ro_advantages := Some vs \<rparr>))"

definition scalar_advantage :: "Rollout \<Rightarrow> real option" where
  "scalar_advantage r =
     (case ro_advantages r of
        None \<Rightarrow> None
      | Some as \<Rightarrow> if as = [] then None
          else let nonzero = filter (\<lambda>a. a \<noteq> 0) as
               in Some (if nonzero \<noteq> [] then sum_list nonzero / of_nat (length nonzero) else 0))"

definition is_trainable :: "Rollout \<Rightarrow> bool" where
  "is_trainable r \<longleftrightarrow> (case ro_advantages r of None \<Rightarrow> False | Some as \<Rightarrow> as \<noteq> [] \<and> list_ex (\<lambda>a. a \<noteq> 0) as)"

definition others :: "nat \<Rightarrow> 'a list \<Rightarrow> 'a list" where
  "others i xs = take i xs @ drop (Suc i) xs"

definition group_baselines :: "real list \<Rightarrow> string \<Rightarrow> real list result" where
  "group_baselines rewards baseline =
     (if rewards = [] then Ok []
      else if baseline = ''mean'' then
        (let mean = sum_list rewards / of_nat (length rewards) in Ok (replicate (length rewards) mean))
      else if baseline = ''leave_one_out'' then
        raise_if (length rewards < 2) (ValueError ''leave_one_out baseline requires group_size >= 2'')
          (Ok (map (\<lambda>i. sum_list (others i rewards) / of_nat (length rewards - 1)) [0..<length rewards]))
      else Raise (ValueError ''unsupported group baseline''))"

definition group_advantages :: "real list \<Rightarrow> string \<Rightarrow> real list result" where
  "group_advantages rewards baseline = bindE (group_baselines rewards baseline) (\<lambda>bs. Ok (map2 (\<lambda>r b. r - b) rewards bs))"

text \<open>\<open>for rollout, advantage in zip(group, advantages, strict=True): rollout.assign_advantages(advantage)\<close>\<close>

fun assign_all :: "Rollout list \<Rightarrow> credit list \<Rightarrow> Rollout list result" where
  "assign_all [] [] = Ok []"
| "assign_all (r # rs) (c # cs) = bindE (assign_advantages c r) (\<lambda>r'. bindE (assign_all rs cs) (\<lambda>rs'. Ok (r' # rs')))"
| "assign_all _ _ = Raise (ValueError ''zip() arguments have different lengths'')"

text \<open>\<open>MaxRLAlgorithm.score_group\<close>; the mean of an empty tensor is NaN, and no rollout is assigned then.\<close>

definition max_rl_score_group :: "Rollout list \<Rightarrow> Rollout list result" where
  "max_rl_score_group rollouts =
     (let rewards = map ro_reward rollouts; mean = sum_list rewards / of_nat (length rewards);
          advantages = (if mean \<le> 0 then map (\<lambda>_. 0) rewards else map (\<lambda>r. (r - mean) / mean) rewards)
      in assign_all rollouts (map Scalar advantages))"

section \<open>Stamping the wire fields\<close>

datatype ActionLossType = RlLoss | CeLoss | RefKlLoss

text \<open>\<open>for i, trains in enumerate(sample.mask): if trains: action_weights[i] = 1.0\<close>\<close>

fun mark_actions :: "real list \<Rightarrow> bool list \<Rightarrow> real list result" where
  "mark_actions ws [] = Ok ws"
| "mark_actions (w # ws) (b # bs) = bindE (mark_actions ws bs) (\<lambda>r. Ok ((if b then 1 else w) # r))"
| "mark_actions [] (b # bs) = (if b then Raise IndexError else mark_actions [] bs)"

definition stamp_loss_routing :: "WireSample \<Rightarrow> ActionLossType \<Rightarrow> WireSample result" where
  "stamp_loss_routing sample action_loss_type =
     (if action_loss_type = RlLoss then Ok sample
      else
        (let zeros = replicate (length (smp_token_ids sample)) 0;
             s = sample\<lparr> ws_rl_weights := Some zeros \<rparr>;
             action_weights = (case ws_ce_weights s of Some w \<Rightarrow> (if action_loss_type = CeLoss then w else zeros) | None \<Rightarrow> zeros)
         in bindE (mark_actions action_weights (smp_mask s)) (\<lambda>marked.
              Ok (if action_loss_type = CeLoss then s\<lparr> ws_ce_weights := Some marked \<rparr> else s\<lparr> ws_ref_kl_weights := Some marked \<rparr>))))"

text \<open>The loop that slices the stream over the samples; \<open>rest\<close> is \<open>advantages[offset:]\<close>.\<close>

fun slice_advantages :: "real list \<Rightarrow> WireSample list \<Rightarrow> WireSample list" where
  "slice_advantages rest [] = []"
| "slice_advantages rest (s # ss) =
     s\<lparr> ws_advantages := Some (take (length (smp_token_ids s)) rest) \<rparr> # slice_advantages (drop (length (smp_token_ids s)) rest) ss"

definition stamp_advantages :: "Rollout \<Rightarrow> Rollout result" where
  "stamp_advantages r =
     (case ro_advantages r of
        None \<Rightarrow> Ok r
      | Some as \<Rightarrow> raise_if (length as \<noteq> total_tokens r) (ValueError ''advantage stream must align with the rollout tokens'')
          (Ok (r\<lparr> ro_samples := slice_advantages as (ro_samples r) \<rparr>)))"

section \<open>Filters\<close>

datatype RolloutFilter =
    GibberishFilter (rf_name: string) (gf_token_id_threshold: int) (gf_logprob_threshold: real) (rf_enforce: bool)
  | RepetitionFilter (rf_name: string) (pf_window: int) (pf_logprob_threshold: real) (rf_enforce: bool)
  | ZeroAdvantageFilter (rf_name: string) (rf_enforce: bool)

definition gibberish_branch :: "int \<Rightarrow> real \<Rightarrow> branch \<Rightarrow> bool" where
  "gibberish_branch token_id_threshold logprob_threshold b \<longleftrightarrow>
     list_ex (\<lambda>(token_id, logprob, sampled). sampled \<and> token_id > token_id_threshold \<and> logprob < logprob_threshold)
       (zip (br_token_ids b) (zip (br_logprobs b) (br_sampled_mask b)))"

text \<open>The streak loop of one branch; True is the early return.\<close>

fun repetition_loop :: "int \<Rightarrow> real \<Rightarrow> int \<Rightarrow> (real \<times> bool) list \<Rightarrow> bool" where
  "repetition_loop window threshold consecutive [] = False"
| "repetition_loop window threshold consecutive ((logprob, sampled) # rest) =
     (if \<not> sampled then repetition_loop window threshold consecutive rest
      else let consecutive' = (if logprob > threshold then consecutive + 1 else 0)
           in if consecutive' \<ge> window then True else repetition_loop window threshold consecutive' rest)"

fun filter_check :: "RolloutFilter \<Rightarrow> Rollout \<Rightarrow> bool" where
  "filter_check (GibberishFilter name token_id_threshold logprob_threshold enforce) r =
     list_ex (gibberish_branch token_id_threshold logprob_threshold) (tr_branches (ro_trace r))"
| "filter_check (RepetitionFilter name window logprob_threshold enforce) r =
     list_ex (\<lambda>b. repetition_loop window logprob_threshold 0 (zip (br_logprobs b) (br_sampled_mask b))) (tr_branches (ro_trace r))"
| "filter_check (ZeroAdvantageFilter name enforce) r =
     (case ro_advantages r of None \<Rightarrow> False | Some as \<Rightarrow> list_all (\<lambda>a. a = 0) as)"

datatype FilterConfig =
    GibberishFilterConfig bool int real
  | RepetitionFilterConfig bool int real
  | ZeroAdvantageFilterConfig bool

text \<open>The natural logarithm of \<open>math.log\<close>, which raises on a non-positive argument.\<close>

definition math_log :: "real \<Rightarrow> real result" where
  "math_log x = raise_if (x \<le> 0) (ValueError ''math domain error'') (Ok (ln x))"

fun setup_filter :: "FilterConfig \<Rightarrow> int \<Rightarrow> RolloutFilter result" where
  "setup_filter (GibberishFilterConfig enforce token_id_threshold logprob_offset) vocab_size =
     bindE (math_log (of_int vocab_size)) (\<lambda>l. Ok (GibberishFilter ''gibberish'' token_id_threshold (- l - logprob_offset) enforce))"
| "setup_filter (RepetitionFilterConfig enforce window prob_threshold) vocab_size =
     bindE (math_log prob_threshold) (\<lambda>l. Ok (RepetitionFilter ''repetition'' window l enforce))"
| "setup_filter (ZeroAdvantageFilterConfig enforce) vocab_size = Ok (ZeroAdvantageFilter ''zero_advantage'' enforce)"

definition setup_filters :: "FilterConfig list \<Rightarrow> int \<Rightarrow> RolloutFilter list result" where
  "setup_filters configs vocab_size = traverse (\<lambda>c. setup_filter c vocab_size) configs"

definition clear_results :: "RolloutFilter list \<Rightarrow> Rollout \<Rightarrow> Rollout" where
  "clear_results filters r = r\<lparr> ro_filter_results := foldl (\<lambda>d f. od_set (rf_name f) False d) [] filters, ro_is_filtered := False \<rparr>"

text \<open>The inner loop with its \<open>break\<close> at the first filter that detects.\<close>

fun first_match :: "RolloutFilter list \<Rightarrow> Rollout \<Rightarrow> Rollout" where
  "first_match [] r = r"
| "first_match (f # fs) r =
     (if filter_check f r
      then r\<lparr> ro_filter_results := od_set (rf_name f) True (ro_filter_results r),
              ro_is_filtered := (if rf_enforce f then True else ro_is_filtered r) \<rparr>
      else first_match fs r)"

definition apply_filters :: "RolloutFilter list \<Rightarrow> Rollout list \<Rightarrow> Rollout list" where
  "apply_filters filters rollouts =
     (let cleared = map (clear_results filters) rollouts
      in if filters = [] then cleared else map (first_match filters) cleared)"


section \<open>Repetition\<close>

definition sampled_logprobs :: "branch \<Rightarrow> real list" where
  "sampled_logprobs b = map fst (filter snd (zip (br_logprobs b) (br_sampled_mask b)))"

definition confident :: "real \<Rightarrow> int \<Rightarrow> real list \<Rightarrow> bool" where
  "confident threshold n run \<longleftrightarrow> int (length run) = n \<and> list_all (\<lambda>l. threshold < l) run"

lemma confident_Cons: "confident t n (x # run) \<longleftrightarrow> t < x \<and> confident t (n - 1) run"
  by (auto simp: confident_def)

lemma prefix_confident_Cons:
  "0 < n \<Longrightarrow> (\<exists>run. prefix run (x # S) \<and> confident t n run) \<longleftrightarrow> t < x \<and> (\<exists>run. prefix run S \<and> confident t (n - 1) run)"
  by (simp add: prefix_Cons) (auto simp: confident_Cons, auto simp: confident_def)

lemma prefix_confident_shorter:
  assumes "prefix run S" "confident t n run" "m \<le> n" "0 \<le> m"
  shows "\<exists>run. prefix run S \<and> confident t m run"
proof -
  have "prefix (take (nat m) run) S" using take_is_prefix assms(1) prefix_order.trans by blast
  moreover have "confident t m (take (nat m) run)" using assms by (auto simp: confident_def list_all_iff dest: in_set_takeD)
  ultimately show ?thesis by blast
qed

lemma repetition_loop_run:
  assumes "0 \<le> c" "c < window"
  shows "repetition_loop window t c zs \<longleftrightarrow>
     (\<exists>run. sublist run (map fst (filter snd zs)) \<and> confident t window run) \<or>
     (\<exists>run. prefix run (map fst (filter snd zs)) \<and> confident t (window - c) run)"
  using assms
proof (induction zs arbitrary: c)
  case Nil
  then show ?case by (auto simp: confident_def)
next
  case (Cons z zs)
  obtain x sampled where z: "z = (x, sampled)" by (cases z)
  let ?S = "map fst (filter snd zs)"
  have sub: "(\<exists>run. sublist run (x # ?S) \<and> confident t window run) \<longleftrightarrow>
      (\<exists>run. prefix run (x # ?S) \<and> confident t window run) \<or> (\<exists>run. sublist run ?S \<and> confident t window run)"
    by (auto simp: sublist_Cons_right)
  consider "\<not> sampled" | "sampled" "t < x" "window \<le> c + 1" | "sampled" "t < x" "c + 1 < window" | "sampled" "\<not> t < x" by linarith
  then show ?case
  proof cases
    case 1
    then show ?thesis using Cons by (simp add: z)
  next
    case 2
    then have "prefix [] ?S \<and> confident t (window - c - 1) []" using Cons.prems by (simp add: confident_def)
    then show ?thesis using 2 Cons.prems prefix_confident_Cons[of "window - c" x ?S t] by (auto simp: z)
  next
    case 3
    have "(\<exists>run. prefix run (x # ?S) \<and> confident t window run) \<Longrightarrow> (\<exists>run. prefix run (x # ?S) \<and> confident t (window - c) run)"
      using prefix_confident_shorter[of _ "x # ?S" t window "window - c"] Cons.prems by auto
    then show ?thesis using 3 Cons.prems Cons.IH[of "c + 1"] sub prefix_confident_Cons[of "window - c" x ?S t]
      by (simp add: z diff_diff_eq) blast
  next
    case 4
    have "(\<exists>run. prefix run ?S \<and> confident t window run) \<Longrightarrow> (\<exists>run. sublist run ?S \<and> confident t window run)"
      using prefix_imp_sublist by blast
    then show ?thesis using 4 Cons.prems Cons.IH[of 0] sub prefix_confident_Cons[of "window - c" x ?S t] prefix_confident_Cons[of window x ?S t]
      by (simp add: z) blast
  qed
qed

text \<open>
  C20: The repetition filter flags a rollout exactly when, on one branch, \<open>window\<close> consecutive sampled tokens all have a logprob
  above the threshold; context tokens in between do not break a streak, and streaks do not cross branches.
\<close>

theorem repetition_filter_exact:
  assumes "1 \<le> window"
  shows "filter_check (RepetitionFilter name window threshold enforce) r \<longleftrightarrow>
     (\<exists>b \<in> set (tr_branches (ro_trace r)). \<exists>run. sublist run (sampled_logprobs b) \<and> int (length run) = window \<and> list_all (\<lambda>l. threshold < l) run)"
  using assms repetition_loop_run[of 0 window threshold] prefix_imp_sublist
  by (simp add: list_ex_iff sampled_logprobs_def confident_def) blast

section \<open>The filter pass\<close>

lemma first_match_find:
  "first_match fs r =
     (case find (\<lambda>f. filter_check f r) fs of
        None \<Rightarrow> r
      | Some f \<Rightarrow> r\<lparr> ro_filter_results := od_set (rf_name f) True (ro_filter_results r), ro_is_filtered := rf_enforce f \<or> ro_is_filtered r \<rparr>)"
  by (induction fs) auto

lemma filter_check_frame [simp]:
  "filter_check f (clear_results filters r) = filter_check f r"
  by (cases f) (simp_all add: clear_results_def)

lemma cleared_results: "od_get n (ro_filter_results (clear_results fs r)) = (if n \<in> rf_name ` set fs then Some False else None)"
proof -
  have "od_get n (foldl (\<lambda>d f. od_set (rf_name f) False d) d fs) = (if n \<in> rf_name ` set fs then Some False else od_get n d)" for d
    by (induction fs arbitrary: d) auto
  then show ?thesis by (simp add: clear_results_def)
qed

lemma apply_filters_eq:
  "apply_filters filters rollouts = map (\<lambda>r. first_match filters (clear_results filters r)) rollouts"
  by (simp add: apply_filters_def Let_def)

text \<open>
  The filter pass gives every rollout exactly one verdict: of all filters that would detect it, only the first is recorded, and
  the rollout is dropped exactly when that one enforces; the rest of the rollout is untouched. (So a monitoring filter
  listed before an enforcing one shields the rollouts that both detect.)
\<close>

lemma apply_filters_first_match:
  assumes "i < length rollouts"
  shows "let r = rollouts ! i; r' = apply_filters filters rollouts ! i; hit = find (\<lambda>f. filter_check f r) filters
     in ro_is_filtered r' = (\<exists>f. hit = Some f \<and> rf_enforce f) \<and>
        (\<forall>n. od_get n (ro_filter_results r') =
           (if n \<in> rf_name ` set filters then Some (\<exists>f. hit = Some f \<and> rf_name f = n) else None)) \<and>
        r'\<lparr> ro_is_filtered := ro_is_filtered r, ro_filter_results := ro_filter_results r \<rparr> = r"
proof -
  let ?r = "rollouts ! i"
  have r': "apply_filters filters rollouts ! i = first_match filters (clear_results filters ?r)"
    using assms by (simp add: apply_filters_eq)
  have frame: "(clear_results filters ?r)\<lparr> ro_is_filtered := ro_is_filtered ?r, ro_filter_results := ro_filter_results ?r \<rparr> = ?r"
      "\<not> ro_is_filtered (clear_results filters ?r)"
    by (simp_all add: clear_results_def)
  show ?thesis
  proof (cases "find (\<lambda>f. filter_check f ?r) filters")
    case None
    then show ?thesis using frame by (simp add: r' first_match_find cleared_results)
  next
    case (Some f)
    then have "rf_name f \<in> rf_name ` set filters" by (auto simp: find_Some_iff)
    then show ?thesis using Some frame by (auto simp: r' first_match_find cleared_results)
  qed
qed

definition sample_trace :: trace where
  "sample_trace = \<lparr> tr_id = ''t'', tr_nodes = [], tr_branches = [\<lparr> br_index = 0, br_nodes = [], br_token_ids = [1, 2, 3], br_sampled_mask = [True, False, True],
     br_logprobs = [0, -5, 0], br_media = False, br_trainable = True, br_routed_experts = None \<rparr>], tr_calls = [], tr_tools = [],
     tr_stop_condition = ''stop'', tr_is_completed = True, tr_is_truncated = False, tr_media_map = False, tr_projection = None \<rparr>"

definition sample_rollout :: "nat \<Rightarrow> real \<Rightarrow> WireSample list \<Rightarrow> Rollout" where
  "sample_rollout ident reward samples = \<lparr> ro_id = ident, ro_trace = sample_trace, ro_reward = reward, ro_has_error = False, ro_trainable = True,
     ro_num_output_tokens = 2, ro_num_total_tokens = 3, ro_num_turns = 1, ro_task_prompt = None, ro_env_name = ''env'', ro_group_id = ''g'',
     ro_policy_version = 0, ro_samples = samples, ro_training_layout = None, ro_advantages = Some [0, 0, 0], ro_value_predictions = None,
     ro_value_advantages = None, ro_value_returns = None, ro_value_version = None, ro_value_prefix = None, ro_value_trajectory = None,
     ro_is_filtered = False, ro_filter_results = [] \<rparr>"

theorem repetition_filter_exact_witness:
  "\<exists>b \<in> set (tr_branches (ro_trace (sample_rollout 0 1 []))). \<exists>run.
     sublist run (sampled_logprobs b) \<and> int (length run) = 2 \<and> list_all (\<lambda>l. - 1 < l) run"
  using repetition_filter_exact[of 2 "''repetition''" "- 1" True "sample_rollout 0 1 []"]
  by (simp add: sample_rollout_def sample_trace_def Let_def)

lemma apply_filters_first_match_witness:
  "let filters = [RepetitionFilter ''repetition'' 2 (- 1) False, ZeroAdvantageFilter ''zero_advantage'' True];
       r = sample_rollout 0 1 []
   in \<not> ro_is_filtered (apply_filters filters [r] ! 0) \<and> filter_check (ZeroAdvantageFilter ''zero_advantage'' True) r"
  using apply_filters_first_match[of 0 "[sample_rollout 0 1 []]"
      "[RepetitionFilter ''repetition'' 2 (- 1) False, ZeroAdvantageFilter ''zero_advantage'' True]"]
  by (simp add: sample_rollout_def sample_trace_def Let_def)

section \<open>Group baselines\<close>

lemma sum_list_others: "i < length xs \<Longrightarrow> sum_list (others i xs) + xs ! i = (sum_list xs :: real)"
  unfolding others_def by (subst (3) id_take_nth_drop[of i xs]) (simp_all add: algebra_simps)

lemma others_update: "others i (xs[i := y]) = others i xs"
  by (simp add: others_def)

lemma group_advantages_mean:
  assumes "rewards \<noteq> []"
  shows "group_advantages rewards ''mean'' = Ok (map (\<lambda>r. r - sum_list rewards / of_nat (length rewards)) rewards)"
  using assms by (simp add: group_advantages_def group_baselines_def map2_map_map zip_replicate2 Let_def)

lemma group_advantages_loo:
  assumes "2 \<le> length rewards"
  shows "group_advantages rewards ''leave_one_out'' =
    Ok (map (\<lambda>r. of_nat (length rewards) / of_nat (length rewards - 1) * (r - sum_list rewards / of_nat (length rewards))) rewards)"
proof -
  let ?n = "length rewards"
  have "rewards ! i - sum_list (others i rewards) / of_nat (?n - 1) = of_nat ?n / of_nat (?n - 1) * (rewards ! i - sum_list rewards / of_nat ?n)"
    if i: "i < ?n" for i
  proof -
    have o: "sum_list (others i rewards) = sum_list rewards - rewards ! i" using sum_list_others[OF i] by simp
    have "(of_nat (?n - 1) :: real) = of_nat ?n - 1" "(of_nat ?n :: real) > 1" using assms by (simp_all add: of_nat_diff)
    then show ?thesis by (simp add: o field_simps)
  qed
  then have "map2 (-) rewards (map (\<lambda>i. sum_list (others i rewards) / of_nat (?n - 1)) [0..<?n]) =
      map (\<lambda>r. of_nat ?n / of_nat (?n - 1) * (r - sum_list rewards / of_nat ?n)) rewards"
    by (intro nth_equalityI) simp_all
  moreover have "rewards \<noteq> []" using assms by auto
  ultimately show ?thesis using assms by (simp add: group_advantages_def group_baselines_def case_prod_unfold)
qed

lemma sum_list_centered: "xs \<noteq> [] \<Longrightarrow> (\<Sum>r\<leftarrow>xs. r - sum_list xs / of_nat (length xs)) = (0::real)"
proof -
  have "(\<Sum>r\<leftarrow>ys. r - c) = sum_list ys - of_nat (length ys) * c" for ys and c :: real by (induction ys) (simp_all add: algebra_simps)
  then show "xs \<noteq> [] \<Longrightarrow> ?thesis" by simp
qed

text \<open>
  Group credit is centred: on a group that the algorithm can score, both baselines give one advantage per rollout and the
  advantages sum to zero; the leave-one-out advantages are the mean-baseline ones scaled by \<open>n / (n - 1)\<close>, and a rollout's
  leave-one-out baseline does not depend on its own reward.
\<close>

lemma group_advantages_centred:
  assumes "2 \<le> length rewards"
  shows "\<exists>mean loo. group_advantages rewards ''mean'' = Ok mean \<and> group_advantages rewards ''leave_one_out'' = Ok loo \<and>
     length mean = length rewards \<and> sum_list mean = 0 \<and> sum_list loo = 0 \<and>
     loo = map (\<lambda>a. of_nat (length rewards) / of_nat (length rewards - 1) * a) mean \<and>
     (\<forall>i < length rewards. \<forall>x bs bs'. group_baselines rewards ''leave_one_out'' = Ok bs \<longrightarrow>
        group_baselines (rewards[i := x]) ''leave_one_out'' = Ok bs' \<longrightarrow> bs' ! i = bs ! i)"
proof -
  have ne: "rewards \<noteq> []" using assms by auto
  have indep: "bs' ! i = bs ! i" if "i < length rewards" "group_baselines rewards ''leave_one_out'' = Ok bs"
      "group_baselines (rewards[i := x]) ''leave_one_out'' = Ok bs'" for i x bs bs'
    using that ne by (auto simp: group_baselines_def result_simps others_update)
  define c where "c = (of_nat (length rewards) / of_nat (length rewards - 1) :: real)"
  define mean where "mean = map (\<lambda>r. r - sum_list rewards / of_nat (length rewards)) rewards"
  have loo: "map (\<lambda>r. c * (r - sum_list rewards / of_nat (length rewards))) rewards = map (\<lambda>a. c * a) mean"
    by (simp add: mean_def)
  have zero: "sum_list mean = 0" unfolding mean_def by (rule sum_list_centered[OF ne])
  then have "sum_list (map (\<lambda>a. c * a) mean) = 0" by (simp add: sum_list_const_mult)
  then show ?thesis
    unfolding group_advantages_mean[OF ne] group_advantages_loo[OF assms] c_def[symmetric] mean_def[symmetric] loo
    using indep zero by (auto simp: mean_def)
qed

lemma group_advantages_centred_witness:
  "group_advantages [1, 0, 0] ''leave_one_out'' = Ok [1, - (1 / 2), - (1 / 2)] \<and> (\<exists>loo. group_advantages [1, 0, 0] ''leave_one_out'' = Ok loo \<and> sum_list loo = 0)"
  using group_advantages_centred[of "[1, 0, 0]"] by (auto simp: group_advantages_loo)

section \<open>Stamps\<close>

lemma assign_advantages_length:
  assumes "assign_advantages c r = Ok r'" "list_all (\<lambda>s. length (smp_mask s) = length (smp_token_ids s)) (ro_samples r)"
  shows "\<exists>as. ro_advantages r' = Some as \<and> length as = total_tokens r \<and> r' = r\<lparr> ro_advantages := Some as \<rparr>"
proof (cases c)
  case (Scalar v)
  have "length (concat (map (\<lambda>s. map f (smp_mask s)) ss)) = sum_list (map (\<lambda>s. length (smp_token_ids s)) ss)"
    if "list_all (\<lambda>s. length (smp_mask s) = length (smp_token_ids s)) ss" for f :: "bool \<Rightarrow> real" and ss :: "WireSample list"
    using that by (induction ss) simp_all
  then show ?thesis using assms by (auto simp: Scalar total_tokens_def)
next
  case (PerToken vs)
  then show ?thesis using assms by (auto simp: result_simps)
qed

lemma slice_advantages_spec:
  assumes "length as = sum_list (map (\<lambda>s. length (smp_token_ids s)) ss)"
  shows "concat (map (\<lambda>s. the (ws_advantages s)) (slice_advantages as ss)) = as \<and>
     list_all2 (\<lambda>s s'. \<exists>a. s' = s\<lparr> ws_advantages := Some a \<rparr> \<and> length a = length (smp_token_ids s)) ss (slice_advantages as ss)"
  using assms
proof (induction ss arbitrary: as)
  case (Cons s ss)
  have len: "length (drop (length (smp_token_ids s)) as) = sum_list (map (\<lambda>s. length (smp_token_ids s)) ss)" using Cons.prems by simp
  have take: "length (take (length (smp_token_ids s)) as) = length (smp_token_ids s)" using Cons.prems by simp
  show ?case unfolding slice_advantages.simps list_all2_Cons using Cons.IH[OF len] take by auto
qed simp

lemma stamp_advantages_spec:
  assumes "ro_advantages r = Some as" "length as = total_tokens r"
  shows "\<exists>r'. stamp_advantages r = Ok r' \<and> r' = r\<lparr> ro_samples := slice_advantages as (ro_samples r) \<rparr> \<and>
     concat (map (\<lambda>s. the (ws_advantages s)) (ro_samples r')) = as"
  using assms slice_advantages_spec[of as "ro_samples r"] by (simp add: stamp_advantages_def total_tokens_def)

lemma mark_actions_spec:
  assumes "length msk = length ws"
  shows "mark_actions ws msk = Ok (map2 (\<lambda>w b. if b then 1 else w) ws msk)"
  using assms by (induction ws msk rule: mark_actions.induct) auto

text \<open>The weight a component gives token \<open>i\<close>: an absent rl stream means 1 on the mask, an absent other stream 0.\<close>

definition rl_weight :: "WireSample \<Rightarrow> nat \<Rightarrow> real" where
  "rl_weight s i = (case ws_rl_weights s of None \<Rightarrow> if smp_mask s ! i then 1 else 0 | Some w \<Rightarrow> w ! i)"

definition stream_weight :: "real list option \<Rightarrow> nat \<Rightarrow> real" where
  "stream_weight w i = (case w of None \<Rightarrow> 0 | Some ws \<Rightarrow> ws ! i)"

definition fresh_sample :: "WireSample \<Rightarrow> bool" where
  "fresh_sample s \<longleftrightarrow> length (smp_mask s) = length (smp_token_ids s) \<and> ws_rl_weights s = None \<and> ws_ref_kl_weights s = None \<and>
     (\<forall>w. ws_ce_weights s = Some w \<longrightarrow> length w = length (smp_token_ids s) \<and> (\<forall>i < length w. smp_mask s ! i \<longrightarrow> w ! i = 0))"

text \<open>
  C19: Loss routing is exclusive: stamping an unrouted sample succeeds, every trainable token then has weight 1 in the component the
  algorithm declares and 0 in the other two, and a context token keeps whatever ce weight the algorithm gave it and
  enters no other component.
\<close>

theorem stamp_loss_routing_exclusive:
  assumes "fresh_sample s" "i < length (smp_token_ids s)"
  shows "\<exists>s'. stamp_loss_routing s kind = Ok s' \<and>
     (let rl = rl_weight s' i; ce = stream_weight (ws_ce_weights s') i; ref_kl = stream_weight (ws_ref_kl_weights s') i in
      (smp_mask s ! i \<longrightarrow> rl = (if kind = RlLoss then 1 else 0) \<and> ce = (if kind = CeLoss then 1 else 0) \<and> ref_kl = (if kind = RefKlLoss then 1 else 0)) \<and>
      (\<not> smp_mask s ! i \<longrightarrow> rl = 0 \<and> ref_kl = 0 \<and> ce = stream_weight (ws_ce_weights s) i))"
proof (cases kind)
  case RlLoss
  then show ?thesis using assms
    by (auto simp: stamp_loss_routing_def fresh_sample_def rl_weight_def stream_weight_def Let_def split: option.splits)
next
  case CeLoss
  define w where "w = (case ws_ce_weights s of Some w \<Rightarrow> w | None \<Rightarrow> replicate (length (smp_token_ids s)) 0)"
  have len: "length (smp_mask s) = length w" "i < length w" and w: "\<not> smp_mask s ! i \<longrightarrow> w ! i = stream_weight (ws_ce_weights s) i"
    and none: "ws_ref_kl_weights s = None"
    using assms by (auto simp: w_def fresh_sample_def stream_weight_def split: option.splits)
  have "stamp_loss_routing s kind = Ok (s\<lparr> ws_rl_weights := Some (replicate (length (smp_token_ids s)) 0),
      ws_ce_weights := Some (map2 (\<lambda>w b. if b then 1 else w) w (smp_mask s)) \<rparr>)"
    using mark_actions_spec[OF len(1)] by (cases "ws_ce_weights s") (simp_all add: stamp_loss_routing_def CeLoss w_def Let_def)
  then show ?thesis using assms(2) len w none by (auto simp: CeLoss rl_weight_def stream_weight_def Let_def)
next
  case RefKlLoss
  have len: "length (smp_mask s) = length (smp_token_ids s)" and z: "smp_mask s ! i \<longrightarrow> stream_weight (ws_ce_weights s) i = 0"
    using assms by (auto simp: fresh_sample_def stream_weight_def split: option.splits)
  have "stamp_loss_routing s kind = Ok (s\<lparr> ws_rl_weights := Some (replicate (length (smp_token_ids s)) 0),
      ws_ref_kl_weights := Some (map2 (\<lambda>w b. if b then 1 else w) (replicate (length (smp_token_ids s)) 0) (smp_mask s)) \<rparr>)"
    using mark_actions_spec[of "smp_mask s" "replicate (length (smp_token_ids s)) 0"] len
    by (cases "ws_ce_weights s") (simp_all add: stamp_loss_routing_def RefKlLoss Let_def)
  then show ?thesis using assms(2) len z by (auto simp: RefKlLoss rl_weight_def stream_weight_def Let_def)
qed

definition routed_sample :: WireSample where
  "routed_sample = \<lparr> smp_token_ids = [1, 2, 3], smp_mask = [False, True, False], smp_logprobs = [0, 0, 0], smp_env_name = ''env'',
     smp_policy_versions = None, smp_routed_experts = None, ws_temperatures = [1, 1, 1], ws_ref_logprobs = None, ws_rl_weights = None,
     ws_ce_weights = Some [0, 0, 1 / 10], ws_ref_kl_weights = None, ws_advantages = None \<rparr>"

theorem stamp_loss_routing_exclusive_witness:
  "\<exists>s'. stamp_loss_routing routed_sample CeLoss = Ok s' \<and> stream_weight (ws_ce_weights s') 1 = 1 \<and> rl_weight s' 1 = 0"
  using stamp_loss_routing_exclusive[of routed_sample 1 CeLoss]
  by (auto simp: fresh_sample_def routed_sample_def Let_def less_Suc_eq numeral_3_eq_3 nth_Cons split: nat.splits)

end
