(* ===== verification/Tether_Scoring.thy ===== *)
theory Tether_Scoring
  imports Tether_Fit Rollouts
begin

text \<open>
  \<open>TetherRuntime\<close> of \<^verbatim>\<open>orchestrator/algo/tether.py\<close> and \<open>GRPOAlgorithm\<close> of \<^verbatim>\<open>orchestrator/algo/grpo.py\<close>: the credit that subtracts a
  mixed group/critic baseline from the critic's lambda-return, with one coefficient or one per action-position bin, the
  regression statistics it collects, and the metrics measured before any fit. A raise abandons the whole group: rollouts
  assigned before it are not part of the result.
\<close>

section \<open>Runtime\<close>

record TetherBaselineConfig =
  tb_group :: string
  tb_rho :: real
  tb_adaptive :: "(AdaptiveTetherConfig \<times> TetherPositionConfig option) option"

record TetherRuntime =
  tt_config :: TetherBaselineConfig
  tt_gamma :: real
  tt_gae_lambda :: real
  tt_value_seq_len :: nat
  tt_policy_seq_len :: nat
  tt_adaptive_min_value_version :: int
  tt_mse_applied :: real
  tt_mse_group_applied :: real
  tt_adaptive :: "AdaptiveTether option"
  tt_positioned :: "PositionTether option"

definition TetherRuntime_init :: "TetherBaselineConfig \<Rightarrow> real \<Rightarrow> real \<Rightarrow> nat \<Rightarrow> nat \<Rightarrow> int option \<Rightarrow> int \<Rightarrow> TetherRuntime result" where
  "TetherRuntime_init config gamma gae_lambda value_seq_len policy_seq_len adaptive_batch_size min_value_version =
     (let rt = \<lparr> tt_config = config, tt_gamma = gamma, tt_gae_lambda = gae_lambda, tt_value_seq_len = value_seq_len,
                 tt_policy_seq_len = policy_seq_len, tt_adaptive_min_value_version = min_value_version, tt_mse_applied = 0,
                 tt_mse_group_applied = 0, tt_adaptive = None, tt_positioned = None \<rparr>
      in case tb_adaptive config of
           None \<Rightarrow> Ok rt
         | Some (adaptive, position) \<Rightarrow>
             (case adaptive_batch_size of
                None \<Rightarrow> Raise (ValueError ''adaptive TETHER needs a resolved rollout batch size'')
              | Some batch_size \<Rightarrow>
                  (case position of
                     None \<Rightarrow> bindE (AdaptiveTether_init adaptive batch_size gamma gae_lambda) (\<lambda>a. Ok (rt\<lparr> tt_adaptive := Some a \<rparr>))
                   | Some p \<Rightarrow> bindE (resolve_position p (int policy_seq_len) batch_size) (\<lambda>(num_bins, bin_size, min_bin).
                       bindE (PositionTether_init adaptive batch_size gamma gae_lambda num_bins bin_size min_bin) (\<lambda>a.
                         Ok (rt\<lparr> tt_positioned := Some a \<rparr>))))))"

definition tether_rho :: "TetherRuntime \<Rightarrow> real result" where
  "tether_rho rt =
     (if tt_positioned rt \<noteq> None then Raise AttributeError
      else Ok (case tt_adaptive rt of Some a \<Rightarrow> at_rho a | None \<Rightarrow> tb_rho (tt_config rt)))"

definition scored_reward :: "Rollout \<Rightarrow> real" where
  "scored_reward r = (case ro_value_trajectory r of Some t \<Rightarrow> vt_reward t | None \<Rightarrow> ro_reward r)"

definition critic_visible_length :: "TetherRuntime \<Rightarrow> Rollout \<Rightarrow> nat \<Rightarrow> nat" where
  "critic_visible_length rt r sample_length =
     (let tprefix = (case ro_value_trajectory r of Some t \<Rightarrow> vt_prefix t | None \<Rightarrow> ro_value_prefix r);
          critic_length = (if tprefix \<noteq> None then sample_length else tt_value_seq_len rt)
      in min sample_length critic_length)"

definition observation_ready :: "TetherRuntime \<Rightarrow> Rollout list \<Rightarrow> bool" where
  "observation_ready rt rollouts \<longleftrightarrow>
     (let minimum = tt_adaptive_min_value_version rt
      in minimum = 0 \<or> list_all (\<lambda>r. case ro_value_version r of None \<Rightarrow> False | Some v \<Rightarrow> v \<ge> minimum) rollouts)"

definition record_applied_metrics :: "(TetherRegressionStats \<times> real) list \<Rightarrow> TetherRuntime \<Rightarrow> TetherRuntime" where
  "record_applied_metrics rows rt =
     (let weight = sum_list (map (\<lambda>(s, rho). rs_weight s) rows);
          residual = sum_list (map (\<lambda>(s, rho). residual_sum s rho) rows);
          group_residual = sum_list (map (\<lambda>(s, rho). rs_target_target s) rows)
      in rt\<lparr> tt_mse_applied := residual / max weight 1, tt_mse_group_applied := group_residual / max weight 1 \<rparr>)"

section \<open>One coefficient\<close>

text \<open>The token streams and train mask of \<open>trajectory.samples\<close>, or of \<open>rollout.samples\<close> without a trajectory.\<close>

definition sample_views :: "Rollout \<Rightarrow> (int list \<times> bool list) list" where
  "sample_views r = (case ro_value_trajectory r of
      Some t \<Rightarrow> map (\<lambda>s. (vs_token_ids s, vs_mask s)) (vt_samples t)
    | None \<Rightarrow> map (\<lambda>s. (smp_token_ids s, smp_mask s)) (ro_samples r))"

definition add_row :: "TetherRegressionStats \<Rightarrow> real \<Rightarrow> real \<Rightarrow> TetherRegressionStats" where
  "add_row acc feature target = \<lparr> rs_weight = rs_weight acc + 1, rs_feature_feature = rs_feature_feature acc + feature * feature,
     rs_feature_target = rs_feature_target acc + feature * target, rs_target_target = rs_target_target acc + target * target \<rparr>"

definition freeze :: "TetherRegressionStats \<Rightarrow> TetherRegressionStats result" where
  "freeze acc = TetherRegressionStats_init (rs_weight acc) (rs_feature_feature acc) (rs_feature_target acc) (rs_target_target acc)"

fun score_tokens :: "bool \<Rightarrow> bool list \<Rightarrow> real list \<Rightarrow> real list \<Rightarrow> real \<Rightarrow> real \<Rightarrow> nat list \<Rightarrow> real list \<times> TetherRegressionStats \<Rightarrow>
    (real list \<times> TetherRegressionStats) result" where
  "score_tokens adaptive msk vs advs anchor rho [] st = Ok st"
| "score_tokens adaptive msk vs advs anchor rho (i # is) (out, acc) =
     bindE (nth_chk msk i) (\<lambda>trainable.
       if \<not> trainable then score_tokens adaptive msk vs advs anchor rho is (out, acc)
       else let value_advantage = advs ! i; feature = vs ! i - anchor; centered_target = value_advantage + feature
            in score_tokens adaptive msk vs advs anchor rho is
                 (out[i := value_advantage + (1 - rho) * feature], if adaptive then add_row acc feature centered_target else acc))"

definition score_sample :: "TetherRuntime \<Rightarrow> Rollout \<Rightarrow> real \<Rightarrow> real \<Rightarrow> int list \<times> bool list \<Rightarrow> real list \<Rightarrow> real list \<Rightarrow> TetherRegressionStats \<Rightarrow>
    (real list \<times> TetherRegressionStats) result" where
  "score_sample rt r anchor rho view vs advs acc =
     (let sample_length = length (fst view); visible = critic_visible_length rt r sample_length in
      raise_if (length vs \<noteq> sample_length \<or> length advs \<noteq> sample_length) (ValueError ''TETHER value streams must span the padded sample stream'')
      (raise_if ((tt_gamma rt < 1 \<or> tt_gae_lambda rt < 1) \<and> True \<in> set (drop visible (snd view)))
        (ValueError ''TETHER temporal credit requires every trainable token to be visible to the critic'')
        (score_tokens (tt_adaptive rt \<noteq> None) (snd view) vs advs anchor rho [0..<min visible (tt_policy_seq_len rt)] (replicate sample_length 0, acc))))"

fun score_samples :: "TetherRuntime \<Rightarrow> Rollout \<Rightarrow> real \<Rightarrow> real \<Rightarrow> (int list \<times> bool list) list \<Rightarrow> real list list \<Rightarrow> real list list \<Rightarrow>
    TetherRegressionStats \<Rightarrow> (real list \<times> TetherRegressionStats) result" where
  "score_samples rt r anchor rho [] [] [] acc = Ok ([], acc)"
| "score_samples rt r anchor rho (v # views) (p # ps) (a # as) acc =
     bindE (score_sample rt r anchor rho v p a acc) (\<lambda>(out, acc').
     bindE (score_samples rt r anchor rho views ps as acc') (\<lambda>(rest, acc''). Ok (out @ rest, acc'')))"
| "score_samples rt r anchor rho _ _ _ acc = Raise (ValueError ''zip() arguments have different lengths'')"

definition score_rollout :: "TetherRuntime \<Rightarrow> real \<Rightarrow> Rollout \<Rightarrow> real \<Rightarrow> (Rollout \<times> TetherRegressionStats) result" where
  "score_rollout rt rho r anchor =
     (let views = sample_views r in
      case (ro_value_predictions r, ro_value_advantages r) of
        (Some ps, Some as) \<Rightarrow>
          raise_if (length ps \<noteq> length views \<or> length as \<noteq> length views) (ValueError ''TETHER value/sample branch count mismatch'')
            (bindE (score_samples rt r anchor rho views ps as no_stats) (\<lambda>(out, acc).
             bindE (assign_advantages (PerToken out) r) (\<lambda>r'. bindE (freeze acc) (\<lambda>stats. Ok (r', stats)))))
      | _ \<Rightarrow> Raise (RuntimeError ''value evaluator did not attach TETHER predictions and policy GAE''))"

fun score_rollouts :: "TetherRuntime \<Rightarrow> real \<Rightarrow> Rollout list \<Rightarrow> real list \<Rightarrow> (Rollout \<times> TetherRegressionStats) list result" where
  "score_rollouts rt rho [] [] = Ok []"
| "score_rollouts rt rho (r # rs) (b # bs) =
     bindE (score_rollout rt rho r b) (\<lambda>x. bindE (score_rollouts rt rho rs bs) (\<lambda>xs. Ok (x # xs)))"
| "score_rollouts rt rho _ _ = Raise (ValueError ''zip() arguments have different lengths'')"

section \<open>One coefficient per position bin\<close>

definition branch_views :: "Rollout \<Rightarrow> (int list \<times> bool list \<times> bool list) list result" where
  "branch_views r = (case ro_value_trajectory r of
      Some t \<Rightarrow> Ok (map (\<lambda>s. (vs_token_ids s, vs_sampled_mask s, vs_mask s)) (vt_samples t))
    | None \<Rightarrow> bindE (iter_trainable_branches (ro_trace r)) (\<lambda>items.
        Ok (map (\<lambda>b. (br_token_ids (tb_branch b), br_sampled_mask (tb_branch b), tb_mask b)) items)))"

record position_state =
  ps_out :: "real list"
  ps_accumulators :: "TetherRegressionStats list"
  ps_action_position :: int

fun position_tokens :: "TetherCoefficientTable \<Rightarrow> bool list \<Rightarrow> bool list \<Rightarrow> real list \<Rightarrow> real list \<Rightarrow> real \<Rightarrow> nat list \<Rightarrow> position_state \<Rightarrow> position_state result" where
  "position_tokens table action_mask train_mask vs advs anchor [] st = Ok st"
| "position_tokens table action_mask train_mask vs advs anchor (i # is) st =
     (if \<not> action_mask ! i then position_tokens table action_mask train_mask vs advs anchor is st
      else bindE (bin_index table (ps_action_position st)) (\<lambda>b.
        let st' = st\<lparr> ps_action_position := ps_action_position st + 1 \<rparr> in
        if \<not> train_mask ! i then position_tokens table action_mask train_mask vs advs anchor is st'
        else let value_advantage = advs ! i; feature = vs ! i - anchor; centered_target = value_advantage + feature; rho = ct_rho table ! nat b
             in position_tokens table action_mask train_mask vs advs anchor is
                  (st'\<lparr> ps_out := (ps_out st)[i := value_advantage + (1 - rho) * feature],
                        ps_accumulators := (ps_accumulators st)[nat b := add_row (ps_accumulators st ! nat b) feature centered_target] \<rparr>)))"

definition add_accumulators :: "TetherRegressionStats list \<Rightarrow> TetherRegressionStats list \<Rightarrow> TetherRegressionStats list result" where
  "add_accumulators bins accs = traverse (\<lambda>(current, acc). bindE (freeze acc) (stats_add current)) (zip bins accs)"

definition position_sample :: "TetherRuntime \<Rightarrow> TetherCoefficientTable \<Rightarrow> Rollout \<Rightarrow> real \<Rightarrow> int list \<times> bool list \<times> bool list \<Rightarrow> int list \<times> bool list \<Rightarrow>
    real list \<Rightarrow> real list \<Rightarrow> TetherRegressionStats list \<Rightarrow> (real list \<times> TetherRegressionStats list) result" where
  "position_sample rt table r anchor view sample vs advs bins =
     (case view of (branch_tokens, action_mask, train_mask) \<Rightarrow>
      (let sample_length = length (fst sample); visible = critic_visible_length rt r sample_length; n = length (ct_rho table) in
      raise_if (fst sample \<noteq> branch_tokens \<or> snd sample \<noteq> train_mask) (ValueError ''positioned TETHER branch/sample token streams are misaligned'')
      (raise_if (length vs \<noteq> sample_length \<or> length advs \<noteq> sample_length) (ValueError ''TETHER value streams must span the padded sample stream'')
      (raise_if (length action_mask \<noteq> sample_length \<or> list_ex (\<lambda>(trainable, sampled). trainable \<and> \<not> sampled) (zip train_mask action_mask))
        (ValueError ''positioned TETHER train mask must follow native sampled provenance'')
      (raise_if (length train_mask \<noteq> length action_mask) (ValueError ''zip() arguments have different lengths'')
      (raise_if ((tt_gamma rt < 1 \<or> tt_gae_lambda rt < 1) \<and> True \<in> set (drop visible train_mask))
        (ValueError ''TETHER temporal credit requires every trainable token to be visible to the critic'')
      (bindE (position_tokens table action_mask train_mask vs advs anchor [0..<min visible (tt_policy_seq_len rt)]
                \<lparr> ps_out = replicate sample_length 0, ps_accumulators = replicate n no_stats, ps_action_position = 0 \<rparr>) (\<lambda>st.
       bindE (add_accumulators bins (ps_accumulators st)) (\<lambda>bins'. Ok (ps_out st, bins'))))))))))"

fun position_samples :: "TetherRuntime \<Rightarrow> TetherCoefficientTable \<Rightarrow> Rollout \<Rightarrow> real \<Rightarrow> (int list \<times> bool list \<times> bool list) list \<Rightarrow>
    (int list \<times> bool list) list \<Rightarrow> real list list \<Rightarrow> real list list \<Rightarrow> TetherRegressionStats list \<Rightarrow> (real list \<times> TetherRegressionStats list) result" where
  "position_samples rt table r anchor [] [] [] [] bins = Ok ([], bins)"
| "position_samples rt table r anchor (w # ws) (v # vs) (p # ps) (a # as) bins =
     bindE (position_sample rt table r anchor w v p a bins) (\<lambda>(out, bins').
     bindE (position_samples rt table r anchor ws vs ps as bins') (\<lambda>(rest, bins''). Ok (out @ rest, bins'')))"
| "position_samples rt table r anchor _ _ _ _ bins = Raise (ValueError ''zip() arguments have different lengths'')"

definition position_rollout :: "TetherRuntime \<Rightarrow> TetherCoefficientTable \<Rightarrow> Rollout \<Rightarrow> real \<Rightarrow> (Rollout \<times> TetherRegressionStats list) result" where
  "position_rollout rt table r anchor =
     (let views = sample_views r in
      case (ro_value_predictions r, ro_value_advantages r) of
        (Some ps, Some as) \<Rightarrow>
          bindE (branch_views r) (\<lambda>ws.
          raise_if (length ws \<noteq> length views \<or> length ps \<noteq> length views \<or> length as \<noteq> length views)
            (ValueError ''positioned TETHER branch/sample/value alignment mismatch'')
            (bindE (position_samples rt table r anchor ws views ps as (replicate (length (ct_rho table)) no_stats)) (\<lambda>(out, bins).
             bindE (assign_advantages (PerToken out) r) (\<lambda>r'. bindE (TetherRolloutStats_init bins) (\<lambda>stats. Ok (r', stats))))))
      | _ \<Rightarrow> Raise (RuntimeError ''value evaluator did not attach TETHER predictions and policy GAE''))"

fun position_rollouts :: "TetherRuntime \<Rightarrow> TetherCoefficientTable \<Rightarrow> Rollout list \<Rightarrow> real list \<Rightarrow> (Rollout \<times> TetherRegressionStats list) list result" where
  "position_rollouts rt table [] [] = Ok []"
| "position_rollouts rt table (r # rs) (b # bs) =
     bindE (position_rollout rt table r b) (\<lambda>x. bindE (position_rollouts rt table rs bs) (\<lambda>xs. Ok (x # xs)))"
| "position_rollouts rt table _ _ = Raise (ValueError ''zip() arguments have different lengths'')"

definition score_positioned_group :: "PositionTether \<Rightarrow> TetherRuntime \<Rightarrow> Rollout list \<Rightarrow> (Rollout list \<times> TetherRuntime) result" where
  "score_positioned_group positioned rt rollouts =
     bindE (group_baselines (map scored_reward rollouts) (tb_group (tt_config rt))) (\<lambda>anchors.
     bindE (coefficient_table positioned) (\<lambda>table.
     bindE (position_rollouts rt table rollouts anchors) (\<lambda>scored.
       let rt' = record_applied_metrics (concat (map (\<lambda>x. zip (snd x) (ct_rho table)) scored)) rt
       in if observation_ready rt rollouts
          then bindE (observe_positions (map snd scored) positioned) (\<lambda>p. Ok (map fst scored, rt'\<lparr> tt_positioned := Some p \<rparr>))
          else Ok (map fst scored, rt'))))"

definition score_group :: "TetherRuntime \<Rightarrow> Rollout list \<Rightarrow> (Rollout list \<times> TetherRuntime) result" where
  "score_group rt rollouts =
     (case tt_positioned rt of
        Some positioned \<Rightarrow> score_positioned_group positioned rt rollouts
      | None \<Rightarrow>
          bindE (group_baselines (map scored_reward rollouts) (tb_group (tt_config rt))) (\<lambda>anchors.
          bindE (tether_rho rt) (\<lambda>rho.
          bindE (score_rollouts rt rho rollouts anchors) (\<lambda>scored.
            case tt_adaptive rt of
              None \<Rightarrow> Ok (map fst scored, rt)
            | Some adaptive \<Rightarrow>
                let rt' = record_applied_metrics (map (\<lambda>x. (snd x, rho)) scored) rt
                in if observation_ready rt rollouts
                   then bindE (Tether_Fit.observe_group (map snd scored) adaptive) (\<lambda>a. Ok (map fst scored, rt'\<lparr> tt_adaptive := Some a \<rparr>))
                   else Ok (map fst scored, rt')))))"

section \<open>GRPO\<close>

record LinearLengthPenaltyConfig =
  lp_num_output_tokens_weight :: real
  lp_num_input_tokens_weight :: real
  lp_num_turns_weight :: real

datatype GRPOBaseline = GroupBaseline string | ValueBaseline | TetherBaseline TetherRuntime

text \<open>\<open>x / x.max().clamp(min=1)\<close>\<close>

definition max_fraction :: "real list \<Rightarrow> real list" where
  "max_fraction xs = map (\<lambda>x. x / max 1 (Max (set xs))) xs"

definition shaped_rewards :: "LinearLengthPenaltyConfig option \<Rightarrow> Rollout list \<Rightarrow> real list result" where
  "shaped_rewards length_penalty rollouts =
     (let rewards = map ro_reward rollouts in
      case length_penalty of
        None \<Rightarrow> Ok rewards
      | Some lp \<Rightarrow>
          if rollouts = [] then Raise (RuntimeError ''max(): Expected reduction dim to be specified for input.numel() == 0'')
          else
            (let output_tokens = map (\<lambda>r. of_int (ro_num_output_tokens r)) rollouts;
                 input_tokens = map (\<lambda>r. of_int (ro_num_total_tokens r) - of_int (ro_num_output_tokens r)) rollouts;
                 turns = map (\<lambda>r. of_int (ro_num_turns r)) rollouts;
                 mean = sum_list rewards / of_nat (length rewards);
                 penalty_frac = map2 (+) (map2 (+) (map ((*) (lp_num_output_tokens_weight lp)) (max_fraction output_tokens))
                                                   (map ((*) (lp_num_input_tokens_weight lp)) (max_fraction input_tokens)))
                                         (map ((*) (lp_num_turns_weight lp)) (max_fraction turns))
             in Ok (map2 (\<lambda>r f. r - mean * f) rewards penalty_frac)))"

definition grpo_score_group :: "LinearLengthPenaltyConfig option \<Rightarrow> GRPOBaseline \<Rightarrow> Rollout list \<Rightarrow> (Rollout list \<times> GRPOBaseline) result" where
  "grpo_score_group length_penalty baseline rollouts =
     bindE (shaped_rewards length_penalty rollouts) (\<lambda>rewards.
     case baseline of
       GroupBaseline name \<Rightarrow>
         bindE (group_advantages rewards name) (\<lambda>advantages.
         bindE (assign_all rollouts (map Scalar advantages)) (\<lambda>rs. Ok (rs, baseline)))
     | ValueBaseline \<Rightarrow>
         bindE (traverse (\<lambda>r. case ro_value_advantages r of
             None \<Rightarrow> Raise (RuntimeError ''value evaluator did not attach GAE advantages'')
           | Some branches \<Rightarrow> assign_advantages (PerToken (concat branches)) r) rollouts) (\<lambda>rs. Ok (rs, baseline))
     | TetherBaseline rt \<Rightarrow> bindE (score_group rt rollouts) (\<lambda>(rs, rt'). Ok (rs, TetherBaseline rt')))"

section \<open>Checkpoints\<close>

definition runtime_state_dict :: "TetherRuntime \<Rightarrow> (string \<times> pyval) list" where
  "runtime_state_dict rt = (case tt_positioned rt of Some p \<Rightarrow> position_state_dict p
     | None \<Rightarrow> (case tt_adaptive rt of Some a \<Rightarrow> tether_state_dict a | None \<Rightarrow> []))"

definition runtime_load_state_dict :: "(string \<times> pyval) list \<Rightarrow> TetherRuntime \<Rightarrow> TetherRuntime result" where
  "runtime_load_state_dict state rt =
     (case tt_positioned rt of
        Some p \<Rightarrow> bindE (load_positions state p) (\<lambda>p'. Ok (rt\<lparr> tt_positioned := Some p' \<rparr>))
      | None \<Rightarrow> (case tt_adaptive rt of
          None \<Rightarrow> Raise (ValueError ''checkpoint contains adaptive TETHER state but adaptive mode is disabled'')
        | Some a \<Rightarrow> bindE (load_tether state a) (\<lambda>a'. Ok (rt\<lparr> tt_adaptive := Some a' \<rparr>))))"

fun grpo_state_dict :: "GRPOBaseline \<Rightarrow> (string \<times> pyval) list" where
  "grpo_state_dict (TetherBaseline rt) = (let state = runtime_state_dict rt in if state \<noteq> [] then [(''tether'', PDict state)] else [])"
| "grpo_state_dict _ = []"

fun grpo_load_state_dict :: "(string \<times> pyval) list \<Rightarrow> GRPOBaseline \<Rightarrow> GRPOBaseline result" where
  "grpo_load_state_dict state (TetherBaseline rt) =
     (if fst ` set state \<noteq> {''tether''} then Raise (ValueError ''GRPO checkpoint must contain exactly the baseline state'')
      else case py_get state ''tether'' of
        PDict d \<Rightarrow> bindE (runtime_load_state_dict d rt) (\<lambda>rt'. Ok (TetherBaseline rt'))
      | _ \<Rightarrow> Raise (ValueError ''GRPO checkpoint must contain exactly the baseline state''))"
| "grpo_load_state_dict state baseline =
     raise_if (state \<noteq> []) (ValueError ''checkpoint contains baseline state for a stateless GRPO algorithm'') (Ok baseline)"

section \<open>Rows and their statistics\<close>

definition stats_of_rows :: "(real \<times> real) list \<Rightarrow> TetherRegressionStats" where
  "stats_of_rows rows = foldl (\<lambda>acc (f, t). add_row acc f t) no_stats rows"

lemma stats_of_rows_snoc: "stats_of_rows (rows @ [(f, t)]) = add_row (stats_of_rows rows) f t"
  by (simp add: stats_of_rows_def)

lemma add_row_ok: "stats_ok s \<Longrightarrow> stats_ok (add_row s f t)"
proof -
  assume s: "stats_ok s"
  have "stats_ok \<lparr> rs_weight = 1, rs_feature_feature = f * f, rs_feature_target = f * t, rs_target_target = t * t \<rparr>"
    by (simp add: stats_ok_def power2_eq_square mult_ac)
  from stats_plus_ok[OF s this] show ?thesis by (simp add: add_row_def stats_plus_def)
qed

lemma stats_of_rows_ok: "stats_ok (stats_of_rows rows)"
proof (induction rows rule: rev_induct)
  case (snoc row rows)
  then show ?case by (cases row) (simp add: stats_of_rows_snoc add_row_ok)
qed (simp add: stats_of_rows_def)

lemma rs_weight_rows: "rs_weight (stats_of_rows rows) = of_nat (length rows)"
proof (induction rows rule: rev_induct)
  case (snoc row rows)
  then show ?case by (cases row) (simp add: stats_of_rows_snoc add_row_def)
qed (simp add: stats_of_rows_def no_stats_def)

lemma residual_raw:
  "rs_target_target (stats_of_rows rows) - 2 * rho * rs_feature_target (stats_of_rows rows) + rho * rho * rs_feature_feature (stats_of_rows rows) =
   (\<Sum>(f, t)\<leftarrow>rows. (t - rho * f)\<^sup>2)"
proof (induction rows rule: rev_induct)
  case (snoc row rows)
  then show ?case by (cases row) (simp add: stats_of_rows_snoc add_row_def power2_eq_square algebra_simps)
qed (simp add: stats_of_rows_def no_stats_def)

lemma residual_rows: "residual_sum (stats_of_rows rows) rho = (\<Sum>(f, t)\<leftarrow>rows. (t - rho * f)\<^sup>2)"
proof -
  have "0 \<le> (\<Sum>(f, t)\<leftarrow>rows. (t - rho * f)\<^sup>2)" by (intro sum_list_nonneg) auto
  then show ?thesis unfolding residual_sum_def residual_raw by simp
qed

lemma freeze_ok: "stats_ok s \<Longrightarrow> freeze s = Ok s"
  using stats_ok_weight[of s] by (auto simp: freeze_def TetherRegressionStats_init_def stats_ok_def)

section \<open>The credit of one token, sample and rollout\<close>

text \<open>The critic's lambda-return minus the mixed baseline.\<close>

definition mixed_credit :: "real \<Rightarrow> real \<Rightarrow> real \<Rightarrow> real \<Rightarrow> real" where
  "mixed_credit rho anchor v a = (a + v) - (rho * v + (1 - rho) * anchor)"

lemma mixed_credit_eq: "mixed_credit rho anchor v a = a + (1 - rho) * (v - anchor)"
  by (simp add: mixed_credit_def algebra_simps)

definition credited :: "TetherRuntime \<Rightarrow> Rollout \<Rightarrow> int list \<times> bool list \<Rightarrow> nat \<Rightarrow> bool" where
  "credited rt r view j \<longleftrightarrow> j < min (critic_visible_length rt r (length (fst view))) (tt_policy_seq_len rt) \<and> snd view ! j"

definition sample_credit_stream :: "TetherRuntime \<Rightarrow> Rollout \<Rightarrow> real \<Rightarrow> real \<Rightarrow> (int list \<times> bool list) \<times> real list \<times> real list \<Rightarrow> real list" where
  "sample_credit_stream rt r rho anchor = (\<lambda>(view, vs, advs).
     map (\<lambda>j. if credited rt r view j then mixed_credit rho anchor (vs ! j) (advs ! j) else 0) [0..<length (fst view)])"

definition sample_rows :: "TetherRuntime \<Rightarrow> Rollout \<Rightarrow> real \<Rightarrow> (int list \<times> bool list) \<times> real list \<times> real list \<Rightarrow> (real \<times> real) list" where
  "sample_rows rt r anchor = (\<lambda>(view, vs, advs).
     map (\<lambda>j. (vs ! j - anchor, advs ! j + (vs ! j - anchor)))
       (filter ((!) (snd view)) [0..<min (critic_visible_length rt r (length (fst view))) (tt_policy_seq_len rt)]))"

definition sample_ready :: "TetherRuntime \<Rightarrow> Rollout \<Rightarrow> (int list \<times> bool list) \<times> real list \<times> real list \<Rightarrow> bool" where
  "sample_ready rt r = (\<lambda>(view, vs, advs).
     length vs = length (fst view) \<and> length advs = length (fst view) \<and> length (snd view) = length (fst view) \<and>
     (tt_gamma rt < 1 \<or> tt_gae_lambda rt < 1 \<longrightarrow> True \<notin> set (drop (critic_visible_length rt r (length (fst view))) (snd view))))"

definition credit_inputs :: "Rollout \<Rightarrow> ((int list \<times> bool list) \<times> real list \<times> real list) list" where
  "credit_inputs r = (case (ro_value_predictions r, ro_value_advantages r) of
      (Some ps, Some as) \<Rightarrow> zip (sample_views r) (zip ps as) | _ \<Rightarrow> [])"

definition rollout_ready :: "TetherRuntime \<Rightarrow> Rollout \<Rightarrow> bool" where
  "rollout_ready rt r \<longleftrightarrow>
     (case (ro_value_predictions r, ro_value_advantages r) of
        (Some ps, Some as) \<Rightarrow> length ps = length (sample_views r) \<and> length as = length (sample_views r)
      | _ \<Rightarrow> False) \<and>
     list_all (sample_ready rt r) (credit_inputs r) \<and> sum_list (map (\<lambda>v. length (fst v)) (sample_views r)) = total_tokens r"

definition rollout_credit :: "TetherRuntime \<Rightarrow> real \<Rightarrow> Rollout \<Rightarrow> real \<Rightarrow> real list" where
  "rollout_credit rt rho r anchor = concat (map (sample_credit_stream rt r rho anchor) (credit_inputs r))"

definition rollout_rows :: "TetherRuntime \<Rightarrow> Rollout \<Rightarrow> real \<Rightarrow> (real \<times> real) list" where
  "rollout_rows rt r anchor = concat (map (sample_rows rt r anchor) (credit_inputs r))"

lemma visible_le: "critic_visible_length rt r n \<le> n"
  by (simp add: critic_visible_length_def Let_def)

lemma score_tokens_spec:
  assumes "list_all (\<lambda>i. i < length msk \<and> i < length out) is"
  shows "\<exists>out'. score_tokens adaptive msk vs advs anchor rho is (out, acc) =
       Ok (out', if adaptive then foldl (\<lambda>acc (f, t). add_row acc f t) acc
         (map (\<lambda>j. (vs ! j - anchor, advs ! j + (vs ! j - anchor))) (filter ((!) msk) is)) else acc) \<and> length out' = length out \<and>
     (\<forall>j < length out. out' ! j = (if j \<in> set is \<and> msk ! j then mixed_credit rho anchor (vs ! j) (advs ! j) else out ! j))"
  using assms
proof (induction "is" arbitrary: out acc)
  case (Cons i js)
  have i: "i < length msk" "i < length out" using Cons.prems by simp_all
  show ?case
  proof (cases "msk ! i")
    case False
    then show ?thesis using Cons.IH[of out acc] Cons.prems i by (auto simp: nth_chk_def)
  next
    case True
    let ?out = "out[i := advs ! i + (1 - rho) * (vs ! i - anchor)]"
    let ?acc = "if adaptive then add_row acc (vs ! i - anchor) (advs ! i + (vs ! i - anchor)) else acc"
    have "list_all (\<lambda>i. i < length msk \<and> i < length ?out) js" using Cons.prems by simp
    from Cons.IH[OF this, of ?acc] obtain out' where
        run: "score_tokens adaptive msk vs advs anchor rho js (?out, ?acc) =
          Ok (out', if adaptive then foldl (\<lambda>acc (f, t). add_row acc f t) ?acc
            (map (\<lambda>j. (vs ! j - anchor, advs ! j + (vs ! j - anchor))) (filter ((!) msk) js)) else ?acc)"
      and out': "length out' = length ?out"
        "\<forall>j < length ?out. out' ! j = (if j \<in> set js \<and> msk ! j then mixed_credit rho anchor (vs ! j) (advs ! j) else ?out ! j)"
      by blast
    have "\<forall>j < length out. out' ! j = (if j \<in> set (i # js) \<and> msk ! j then mixed_credit rho anchor (vs ! j) (advs ! j) else out ! j)"
    proof (intro allI impI)
      fix j assume j: "j < length out"
      then show "out' ! j = (if j \<in> set (i # js) \<and> msk ! j then mixed_credit rho anchor (vs ! j) (advs ! j) else out ! j)"
        using out' True by (cases "j = i") (auto simp: mixed_credit_eq)
    qed
    moreover have "score_tokens adaptive msk vs advs anchor rho (i # js) (out, acc) = score_tokens adaptive msk vs advs anchor rho js (?out, ?acc)"
      using True i by (simp add: nth_chk_def Let_def)
    ultimately show ?thesis using run out'(1) True by (intro exI[of _ out']) simp
  qed
qed simp

lemma score_sample_spec:
  assumes "sample_ready rt r (view, vs, advs)"
  shows "score_sample rt r anchor rho view vs advs acc =
    Ok (sample_credit_stream rt r rho anchor (view, vs, advs),
        if tt_adaptive rt \<noteq> None then foldl (\<lambda>acc (f, t). add_row acc f t) acc (sample_rows rt r anchor (view, vs, advs)) else acc)"
proof -
  let ?n = "length (fst view)" and ?m = "min (critic_visible_length rt r (length (fst view))) (tt_policy_seq_len rt)"
  have len: "length vs = ?n" "length advs = ?n" "length (snd view) = ?n" using assms by (simp_all add: sample_ready_def)
  have temporal: "\<not> ((tt_gamma rt < 1 \<or> tt_gae_lambda rt < 1) \<and> True \<in> set (drop (critic_visible_length rt r ?n) (snd view)))"
    using assms by (auto simp: sample_ready_def)
  have all: "list_all (\<lambda>i. i < length (snd view) \<and> i < length (replicate ?n (0::real))) [0..<?m]"
    using visible_le[of rt r ?n] len by (auto simp: list_all_iff)
  obtain out' where out: "score_tokens (tt_adaptive rt \<noteq> None) (snd view) vs advs anchor rho [0..<?m] (replicate ?n 0, acc) =
        Ok (out', if tt_adaptive rt \<noteq> None then foldl (\<lambda>acc (f, t). add_row acc f t) acc (sample_rows rt r anchor (view, vs, advs)) else acc)"
      "length out' = ?n"
      "\<forall>j < ?n. out' ! j = (if j \<in> set [0..<?m] \<and> snd view ! j then mixed_credit rho anchor (vs ! j) (advs ! j) else 0)"
    using score_tokens_spec[OF all, of "tt_adaptive rt \<noteq> None" vs advs anchor rho acc] unfolding sample_rows_def by auto
  have "out' = sample_credit_stream rt r rho anchor (view, vs, advs)"
    using out(2,3) by (intro nth_equalityI) (auto simp: sample_credit_stream_def credited_def)
  then show ?thesis using len out(1) by (simp only: score_sample_def Let_def temporal raise_if_False) simp
qed

lemma sum_list_0_eq: "(\<And>x. x \<in> set xs \<Longrightarrow> f x = (0::real)) \<Longrightarrow> (\<Sum>x\<leftarrow>xs. f x) = 0"
  by (induction xs) simp_all

lemma sample_credit_squares:
  "(\<Sum>a\<leftarrow>sample_credit_stream rt r rho anchor x. a\<^sup>2) = (\<Sum>(f, t)\<leftarrow>sample_rows rt r anchor x. (t - rho * f)\<^sup>2)"
proof -
  obtain view vs advs where x: "x = (view, vs, advs)" by (cases x) auto
  let ?n = "length (fst view)" and ?m = "min (critic_visible_length rt r (length (fst view))) (tt_policy_seq_len rt)"
  let ?c = "\<lambda>j. mixed_credit rho anchor (vs ! j) (advs ! j)"
  have split: "[0..<?n] = [0..<?m] @ [?m..<?n]" using visible_le[of rt r ?n] upt_add_eq_append[of 0 ?m "?n - ?m"] by simp
  have low: "(\<Sum>j\<leftarrow>[0..<k]. (if j < ?m \<and> snd view ! j then ?c j else 0)\<^sup>2) = (\<Sum>j\<leftarrow>filter ((!) (snd view)) [0..<k]. (?c j)\<^sup>2)" if "k \<le> ?m" for k
    using that by (induction k) auto
  have high: "(\<Sum>j\<leftarrow>[?m..<?n]. (if j < ?m \<and> snd view ! j then ?c j else 0)\<^sup>2) = 0"
    by (rule sum_list_0_eq) auto
  have "(\<Sum>a\<leftarrow>sample_credit_stream rt r rho anchor x. a\<^sup>2) = (\<Sum>j\<leftarrow>[0..<?n]. (if j < ?m \<and> snd view ! j then ?c j else 0)\<^sup>2)"
    by (simp add: x sample_credit_stream_def credited_def o_def)
  also have "\<dots> = (\<Sum>j\<leftarrow>filter ((!) (snd view)) [0..<?m]. (?c j)\<^sup>2)"
    unfolding split map_append sum_list.append low[OF order_refl] high by simp
  also have "\<dots> = (\<Sum>(f, t)\<leftarrow>sample_rows rt r anchor x. (t - rho * f)\<^sup>2)"
    by (simp add: x sample_rows_def o_def mixed_credit_def algebra_simps)
  finally show ?thesis .
qed

lemma score_samples_spec:
  assumes "list_all (sample_ready rt r) (zip views (zip ps as))" "length ps = length views" "length as = length views"
  shows "score_samples rt r anchor rho views ps as acc =
    Ok (concat (map (sample_credit_stream rt r rho anchor) (zip views (zip ps as))),
        if tt_adaptive rt \<noteq> None then foldl (\<lambda>acc (f, t). add_row acc f t) acc (concat (map (sample_rows rt r anchor) (zip views (zip ps as)))) else acc)"
  using assms
proof (induction views arbitrary: ps as acc)
  case (Cons v views)
  obtain p ps' a as' where e: "ps = p # ps'" "as = a # as'" using Cons.prems by (cases ps; cases as) auto
  have ready: "sample_ready rt r (v, p, a)" and rest: "list_all (sample_ready rt r) (zip views (zip ps' as'))"
      "length ps' = length views" "length as' = length views"
    using Cons.prems by (simp_all add: e)
  show ?case unfolding e using score_sample_spec[OF ready] Cons.IH[OF rest] by simp
qed simp

lemma rollout_credit_length:
  assumes "rollout_ready rt r"
  shows "length (rollout_credit rt rho r anchor) = total_tokens r"
proof -
  obtain ps as where v: "ro_value_predictions r = Some ps" "ro_value_advantages r = Some as"
      "length ps = length (sample_views r)" "length as = length (sample_views r)"
    using assms by (auto simp: rollout_ready_def split: option.splits)
  have "length (concat (map (sample_credit_stream rt r rho anchor) (zip views (zip ps as)))) = sum_list (map (\<lambda>v. length (fst v)) views)"
    if "length ps = length views" "length as = length views" for views :: "(int list \<times> bool list) list" and ps as
    using that
  proof (induction views arbitrary: ps as)
    case (Cons v views)
    then show ?case by (cases ps; cases as) (simp_all add: sample_credit_stream_def)
  qed simp
  then show ?thesis using v assms by (simp add: rollout_credit_def credit_inputs_def rollout_ready_def)
qed

lemma score_rollout_spec:
  assumes "rollout_ready rt r"
  shows "score_rollout rt rho r anchor = Ok (r\<lparr> ro_advantages := Some (rollout_credit rt rho r anchor) \<rparr>,
    if tt_adaptive rt \<noteq> None then stats_of_rows (rollout_rows rt r anchor) else no_stats)"
proof -
  obtain ps as where v: "ro_value_predictions r = Some ps" "ro_value_advantages r = Some as"
      "length ps = length (sample_views r)" "length as = length (sample_views r)"
    using assms by (auto simp: rollout_ready_def split: option.splits)
  have inputs: "credit_inputs r = zip (sample_views r) (zip ps as)" by (simp add: credit_inputs_def v)
  have ready: "list_all (sample_ready rt r) (zip (sample_views r) (zip ps as))" using assms by (simp add: rollout_ready_def inputs)
  show ?thesis
    using score_samples_spec[OF ready v(3,4), of anchor rho no_stats] rollout_credit_length[OF assms, of rho anchor]
      freeze_ok[OF stats_of_rows_ok[of "rollout_rows rt r anchor"]] freeze_ok[OF stats_ok_none]
    by (auto simp: score_rollout_def v Let_def rollout_credit_def rollout_rows_def inputs stats_of_rows_def)
qed

lemma score_rollouts_spec:
  assumes "list_all (rollout_ready rt) rs" "length bs = length rs"
  shows "score_rollouts rt rho rs bs = Ok (map2 (\<lambda>r b. (r\<lparr> ro_advantages := Some (rollout_credit rt rho r b) \<rparr>,
    if tt_adaptive rt \<noteq> None then stats_of_rows (rollout_rows rt r b) else no_stats)) rs bs)"
  using assms
proof (induction rs arbitrary: bs)
  case (Cons r rs)
  obtain b bs' where b: "bs = b # bs'" using Cons.prems by (cases bs) auto
  show ?case using Cons by (simp add: b score_rollout_spec)
qed simp

lemma observe_group_total:
  assumes "stats_ok (at_pending a)" "list_all stats_ok ss"
  shows "\<exists>a'. Tether_Fit.observe_group ss a = Ok a'"
  using assms
proof (induction ss arbitrary: a)
  case (Cons s ss)
  have s: "stats_ok s" "list_all stats_ok ss" using Cons.prems by simp_all
  obtain b where b: "Tether_Fit.observe_group [s] a = Ok b"
      "if at_pending_rollouts a + 1 = at_batch_size a then at_pending b = no_stats else at_pending b = stats_plus (at_pending a) s"
    using observe_one[OF Cons.prems(1) s(1)] by auto
  have "stats_ok (at_pending b)" using b(2) stats_plus_ok[OF Cons.prems(1) s(1)] by (auto split: if_splits)
  from Cons.IH[OF this s(2)] show ?case using b(1) observe_group_append[of "[s]" ss a] by simp
qed simp

lemma rollout_credit_squares:
  "(\<Sum>a\<leftarrow>rollout_credit rt rho r anchor. a\<^sup>2) = residual_sum (stats_of_rows (rollout_rows rt r anchor)) rho"
proof -
  have "(\<Sum>a\<leftarrow>concat (map (sample_credit_stream rt r rho anchor) xs). a\<^sup>2) =
      (\<Sum>(f, t)\<leftarrow>concat (map (sample_rows rt r anchor) xs). (t - rho * f)\<^sup>2)" for xs
    by (induction xs) (simp_all add: sample_credit_squares)
  then show ?thesis by (simp add: residual_rows rollout_credit_def rollout_rows_def)
qed

lemma group_baselines_length: "group_baselines rewards baseline = Ok bs \<Longrightarrow> length bs = length rewards"
  by (auto simp: group_baselines_def result_simps Let_def split: if_splits)

text \<open>How many tokens of the group are credited.\<close>

definition credited_tokens :: "TetherRuntime \<Rightarrow> Rollout list \<Rightarrow> real list \<Rightarrow> nat" where
  "credited_tokens rt rollouts anchors = sum_list (map2 (\<lambda>r b. length (rollout_rows rt r b)) rollouts anchors)"

text \<open>
  C17: Scalar TETHER credit: on a group whose value streams align, scoring raises nothing; every trainable token the critic and
  the policy see gets the critic's lambda-return minus the mixed baseline \<open>rho * V + (1 - rho) * B\<close>, with the coefficient
  from before this group and the group anchor of its rollout, and every other token 0; and the reported applied
  mean-squared error is exactly the mean square of the credit just assigned.
\<close>

theorem tether_score_group_mixed_baseline:
  assumes "tt_positioned rt = None" "group_baselines (map scored_reward rollouts) (tb_group (tt_config rt)) = Ok anchors"
    and "list_all (rollout_ready rt) rollouts" "tether_rho rt = Ok rho"
    and "case tt_adaptive rt of None \<Rightarrow> True | Some a \<Rightarrow> stats_ok (at_pending a)"
  shows "\<exists>rs rt'. score_group rt rollouts = Ok (rs, rt') \<and>
     rs = map2 (\<lambda>r b. r\<lparr> ro_advantages := Some (rollout_credit rt rho r b) \<rparr>) rollouts anchors \<and>
     (tt_adaptive rt \<noteq> None \<longrightarrow> tt_mse_applied rt' =
        sum_list (map (\<lambda>r. \<Sum>a\<leftarrow>the (ro_advantages r). a\<^sup>2) rs) / max (of_nat (credited_tokens rt rollouts anchors)) 1)"
proof -
  let ?f = "\<lambda>r b. r\<lparr> ro_advantages := Some (rollout_credit rt rho r b) \<rparr>"
  have len: "length anchors = length rollouts" using group_baselines_length[OF assms(2)] by simp
  note scored = score_rollouts_spec[OF assms(3) len, of rho]
  show ?thesis
  proof (cases "tt_adaptive rt")
    case None
    then show ?thesis using assms(1,2,4) scored by (simp add: score_group_def case_prod_unfold)
  next
    case (Some a)
    let ?stats = "map2 (\<lambda>r b. stats_of_rows (rollout_rows rt r b)) rollouts anchors"
    let ?rt = "record_applied_metrics (map2 (\<lambda>r b. (stats_of_rows (rollout_rows rt r b), rho)) rollouts anchors) rt"
    have ok: "stats_ok (at_pending a)" "list_all stats_ok ?stats" using assms(5) Some by (auto simp: list_all_iff stats_of_rows_ok)
    obtain a' where a': "Tether_Fit.observe_group ?stats a = Ok a'" using observe_group_total[OF ok] by blast
    have weight: "sum_list (map (\<lambda>(s, rho). rs_weight s) (map2 (\<lambda>r b. (stats_of_rows (rollout_rows rt r b), rho)) rs bs)) = of_nat (credited_tokens rt rs bs)" for rs bs
      unfolding credited_tokens_def by (induction rs bs rule: list_induct2') (simp_all add: rs_weight_rows)
    have residual: "sum_list (map (\<lambda>(s, rho). residual_sum s rho) (map2 (\<lambda>r b. (stats_of_rows (rollout_rows rt r b), rho)) rs bs)) =
        sum_list (map (\<lambda>r. \<Sum>a\<leftarrow>the (ro_advantages r). a\<^sup>2) (map2 ?f rs bs))" for rs bs
      by (simp add: o_def case_prod_unfold rollout_credit_squares)
    have mse: "tt_mse_applied ?rt = sum_list (map (\<lambda>r. \<Sum>a\<leftarrow>the (ro_advantages r). a\<^sup>2) (map2 ?f rollouts anchors)) / max (of_nat (credited_tokens rt rollouts anchors)) 1"
      unfolding record_applied_metrics_def Let_def weight residual by simp
    define scored' where "scored' = map2 (\<lambda>r b. (?f r b, stats_of_rows (rollout_rows rt r b))) rollouts anchors"
    have run: "score_rollouts rt rho rollouts anchors = Ok scored'" using scored by (simp add: scored'_def Some)
    have parts: "map fst scored' = map2 ?f rollouts anchors" "map snd scored' = ?stats"
        "map (\<lambda>x. (snd x, rho)) scored' = map2 (\<lambda>r b. (stats_of_rows (rollout_rows rt r b), rho)) rollouts anchors"
      by (simp_all add: scored'_def o_def case_prod_unfold)
    have group: "score_group rt rollouts =
        (if observation_ready rt rollouts
         then bindE (Tether_Fit.observe_group ?stats a) (\<lambda>a'. Ok (map2 ?f rollouts anchors, ?rt\<lparr> tt_adaptive := Some a' \<rparr>))
         else Ok (map2 ?f rollouts anchors, ?rt))"
      unfolding score_group_def assms(1,2,4) option.case Some bindE.simps run Let_def parts ..
    obtain rt' where rt': "score_group rt rollouts = Ok (map2 ?f rollouts anchors, rt')" "tt_mse_applied rt' = tt_mse_applied ?rt"
      unfolding group a' bindE.simps by (cases "observation_ready rt rollouts") simp_all
    show ?thesis by (rule exI, rule exI, rule conjI, rule rt'(1)) (simp only: rt'(2) mse simp_thms)
  qed
qed

definition tether_sample :: WireSample where
  "tether_sample = \<lparr> smp_token_ids = [1, 2, 3], smp_mask = [False, True, True], smp_logprobs = [0, 0, 0], smp_env_name = ''env'',
     smp_policy_versions = None, smp_routed_experts = None, ws_temperatures = [1, 1, 1], ws_ref_logprobs = None, ws_rl_weights = None,
     ws_ce_weights = None, ws_ref_kl_weights = None, ws_advantages = None \<rparr>"

definition tether_rollout :: "nat \<Rightarrow> real \<Rightarrow> Rollout" where
  "tether_rollout ident reward = (sample_rollout ident reward [tether_sample])\<lparr> ro_value_predictions := Some [[0, 1 / 2, 1 / 4]],
     ro_value_advantages := Some [[0, 1, 2]], ro_value_version := Some 3 \<rparr>"

definition tether_runtime :: TetherRuntime where
  "tether_runtime = \<lparr> tt_config = \<lparr> tb_group = ''leave_one_out'', tb_rho = 1 / 2, tb_adaptive = None \<rparr>, tt_gamma = 1, tt_gae_lambda = 1,
     tt_value_seq_len = 8, tt_policy_seq_len = 8, tt_adaptive_min_value_version = 0, tt_mse_applied = 0, tt_mse_group_applied = 0,
     tt_adaptive = None, tt_positioned = None \<rparr>"

lemma tether_rollout_ready: "rollout_ready tether_runtime (tether_rollout k x)"
  by (simp add: rollout_ready_def credit_inputs_def sample_views_def tether_rollout_def sample_rollout_def tether_sample_def tether_runtime_def
      sample_ready_def total_tokens_def)

theorem tether_score_group_mixed_baseline_witness:
  "\<exists>rs rt'. score_group tether_runtime [tether_rollout 0 1, tether_rollout 1 0] = Ok (rs, rt') \<and>
     ro_advantages (rs ! 0) = Some [0, 5 / 4, 17 / 8]"
proof -
  let ?rs = "[tether_rollout 0 1, tether_rollout 1 0]"
  have anchors: "group_baselines (map scored_reward ?rs) (tb_group (tt_config tether_runtime)) = Ok [0, 1]"
    by (simp add: group_baselines_def tether_runtime_def scored_reward_def tether_rollout_def sample_rollout_def others_def upt_rec numeral_2_eq_2)
  have rho: "tether_rho tether_runtime = Ok (1 / 2)" by (simp add: tether_rho_def tether_runtime_def)
  obtain rs rt' where r: "score_group tether_runtime ?rs = Ok (rs, rt')"
      "rs = map2 (\<lambda>r b. r\<lparr> ro_advantages := Some (rollout_credit tether_runtime (1 / 2) r b) \<rparr>) ?rs [0, 1]"
    using tether_score_group_mixed_baseline[OF _ anchors _ rho] tether_rollout_ready by (auto simp: tether_runtime_def)
  have "rollout_credit tether_runtime (1 / 2) (tether_rollout 0 1) 0 = [0, 5 / 4, 17 / 8]"
    by (simp add: rollout_credit_def credit_inputs_def sample_credit_stream_def credited_def sample_views_def tether_rollout_def sample_rollout_def
        tether_sample_def tether_runtime_def critic_visible_length_def mixed_credit_def upt_rec numeral_2_eq_2)
  then show ?thesis using r by auto
qed

section \<open>Positioned credit\<close>

definition action_rank :: "bool list \<Rightarrow> nat \<Rightarrow> nat" where
  "action_rank action_mask j = length (filter ((!) action_mask) [0..<j])"

definition position_rho :: "TetherCoefficientTable \<Rightarrow> nat \<Rightarrow> real" where
  "position_rho table p = ct_rho table ! nat (min (int p div ct_bin_size table) (int (length (ct_rho table)) - 1))"

definition table_ok :: "TetherCoefficientTable \<Rightarrow> bool" where
  "table_ok table \<longleftrightarrow> 2 \<le> length (ct_rho table) \<and> 1 \<le> ct_bin_size table"

definition position_stream :: "TetherRuntime \<Rightarrow> TetherCoefficientTable \<Rightarrow> Rollout \<Rightarrow> real \<Rightarrow> bool list \<Rightarrow> (int list \<times> bool list) \<times> real list \<times> real list \<Rightarrow> real list" where
  "position_stream rt table r anchor action_mask = (\<lambda>(view, vs, advs).
     map (\<lambda>j. if credited rt r view j then mixed_credit (position_rho table (action_rank action_mask j)) anchor (vs ! j) (advs ! j) else 0)
       [0..<length (fst view)])"

definition position_sample_ready :: "TetherRuntime \<Rightarrow> Rollout \<Rightarrow> int list \<times> bool list \<times> bool list \<Rightarrow> (int list \<times> bool list) \<times> real list \<times> real list \<Rightarrow> bool" where
  "position_sample_ready rt r = (\<lambda>(branch_tokens, action_mask, train_mask) (view, vs, advs).
     branch_tokens = fst view \<and> train_mask = snd view \<and> length action_mask = length (fst view) \<and>
     (\<forall>j < length (snd view). snd view ! j \<longrightarrow> action_mask ! j) \<and> sample_ready rt r (view, vs, advs))"

definition position_ready :: "TetherRuntime \<Rightarrow> Rollout \<Rightarrow> bool" where
  "position_ready rt r \<longleftrightarrow> rollout_ready rt r \<and>
     (case branch_views r of Inl _ \<Rightarrow> False | Inr ws \<Rightarrow> length ws = length (sample_views r) \<and> list_all2 (position_sample_ready rt r) ws (credit_inputs r))"

definition position_credit :: "TetherRuntime \<Rightarrow> TetherCoefficientTable \<Rightarrow> Rollout \<Rightarrow> real \<Rightarrow> real list" where
  "position_credit rt table r anchor = (case branch_views r of Inl _ \<Rightarrow> []
     | Inr ws \<Rightarrow> concat (map2 (\<lambda>w. position_stream rt table r anchor (fst (snd w))) ws (credit_inputs r)))"

lemma action_rank_Suc: "action_rank m (Suc j) = action_rank m j + (if m ! j then 1 else 0)"
  by (simp add: action_rank_def)

lemma bin_index_ok:
  assumes "table_ok table"
  shows "\<exists>b. bin_index table (int p) = Ok b \<and> nat b < length (ct_rho table) \<and> ct_rho table ! nat b = position_rho table p"
proof -
  have "0 \<le> int p div ct_bin_size table" using assms by (simp add: table_ok_def pos_imp_zdiv_nonneg_iff)
  then show ?thesis using assms by (auto simp: bin_index_def position_rho_def table_ok_def)
qed

lemma list_all_update: "list_all P xs \<Longrightarrow> P y \<Longrightarrow> list_all P (xs[i := y])"
  by (auto simp: list_all_iff dest: set_update_subset_insert[THEN subsetD])

lemma position_tokens_spec:
  assumes "table_ok table" "k \<le> n" "n \<le> length (ps_out st)" "ps_action_position st = int (action_rank action_mask k)"
    "length (ps_accumulators st) = length (ct_rho table)" "list_all stats_ok (ps_accumulators st)"
  shows "\<exists>st'. position_tokens table action_mask train_mask vs advs anchor [k..<n] st = Ok st' \<and> length (ps_out st') = length (ps_out st) \<and>
     (\<forall>j < length (ps_out st). ps_out st' ! j = (if k \<le> j \<and> j < n \<and> action_mask ! j \<and> train_mask ! j
        then mixed_credit (position_rho table (action_rank action_mask j)) anchor (vs ! j) (advs ! j) else ps_out st ! j)) \<and>
     length (ps_accumulators st') = length (ct_rho table) \<and> list_all stats_ok (ps_accumulators st')"
  using assms
proof (induction "n - k" arbitrary: k st)
  case 0
  then show ?case by auto
next
  case (Suc m)
  have k: "k < n" "[k..<n] = k # [Suc k..<n]" "m = n - Suc k" "Suc k \<le> n" using Suc.hyps(2) by (simp_all add: upt_rec)
  note prems = Suc.prems and IH = Suc.hyps(1)[OF k(3) prems(1) k(4)]
  show ?case
  proof (cases "action_mask ! k")
    case False
    then obtain st' where "position_tokens table action_mask train_mask vs advs anchor [Suc k..<n] st = Ok st'" "length (ps_out st') = length (ps_out st)"
        "\<forall>j < length (ps_out st). ps_out st' ! j = (if Suc k \<le> j \<and> j < n \<and> action_mask ! j \<and> train_mask ! j
          then mixed_credit (position_rho table (action_rank action_mask j)) anchor (vs ! j) (advs ! j) else ps_out st ! j)"
        "length (ps_accumulators st') = length (ct_rho table)" "list_all stats_ok (ps_accumulators st')"
      using IH[of st] prems by (auto simp: action_rank_Suc)
    then show ?thesis using False by (auto simp: k(2) Suc_le_eq le_less)
  next
    case True
    obtain b where b: "bin_index table (ps_action_position st) = Ok b" "nat b < length (ct_rho table)"
        "ct_rho table ! nat b = position_rho table (action_rank action_mask k)"
      using bin_index_ok[OF prems(1)] prems(4) by metis
    let ?st1 = "st\<lparr> ps_action_position := ps_action_position st + 1 \<rparr>"
    let ?feature = "vs ! k - anchor"
    let ?st2 = "if train_mask ! k then ?st1\<lparr> ps_out := (ps_out st)[k := advs ! k + (1 - ct_rho table ! nat b) * ?feature],
        ps_accumulators := (ps_accumulators st)[nat b := add_row (ps_accumulators st ! nat b) ?feature (advs ! k + ?feature)] \<rparr> else ?st1"
    have step: "position_tokens table action_mask train_mask vs advs anchor [k..<n] st = position_tokens table action_mask train_mask vs advs anchor [Suc k..<n] ?st2"
      using True b(1) by (simp add: k(2) Let_def)
    have acc: "stats_ok (ps_accumulators st ! nat b)" using prems(5,6) b(2) by (simp add: list_all_length)
    have st2: "length (ps_out ?st2) = length (ps_out st)" "ps_action_position ?st2 = int (action_rank action_mask (Suc k))"
        "length (ps_accumulators ?st2) = length (ct_rho table)" "list_all stats_ok (ps_accumulators ?st2)"
      using prems True add_row_ok[OF acc] by (simp_all add: action_rank_Suc list_all_update)
    have out2: "ps_out ?st2 ! j = (if j = k \<and> train_mask ! k then mixed_credit (position_rho table (action_rank action_mask k)) anchor (vs ! k) (advs ! k) else ps_out st ! j)"
      for j using k(1) prems(3) b(3) by (auto simp: mixed_credit_eq)
    have "n \<le> length (ps_out ?st2)" using prems(3) st2(1) by simp
    from IH[OF this st2(2-4)] obtain st' where st': "position_tokens table action_mask train_mask vs advs anchor [Suc k..<n] ?st2 = Ok st'"
        "length (ps_out st') = length (ps_out ?st2)"
        "\<forall>j < length (ps_out ?st2). ps_out st' ! j = (if Suc k \<le> j \<and> j < n \<and> action_mask ! j \<and> train_mask ! j
          then mixed_credit (position_rho table (action_rank action_mask j)) anchor (vs ! j) (advs ! j) else ps_out ?st2 ! j)"
        "length (ps_accumulators st') = length (ct_rho table)" "list_all stats_ok (ps_accumulators st')"
      by (elim exE conjE) (rule that)
    have "\<forall>j < length (ps_out st). ps_out st' ! j = (if k \<le> j \<and> j < n \<and> action_mask ! j \<and> train_mask ! j
        then mixed_credit (position_rho table (action_rank action_mask j)) anchor (vs ! j) (advs ! j) else ps_out st ! j)"
    proof (intro allI impI)
      fix j assume j: "j < length (ps_out st)"
      consider "j = k" | "j < k" | "Suc k \<le> j" by linarith
      then show "ps_out st' ! j = (if k \<le> j \<and> j < n \<and> action_mask ! j \<and> train_mask ! j
          then mixed_credit (position_rho table (action_rank action_mask j)) anchor (vs ! j) (advs ! j) else ps_out st ! j)"
        using st'(3) j True k(1) unfolding st2(1) out2 by cases simp_all
    qed
    then show ?thesis using st'(1,2,4,5) st2(1) unfolding step by auto
  qed
qed

lemma freeze_all:
  assumes "list_all stats_ok bins" "list_all stats_ok accs" "length accs = length bins"
  shows "\<exists>bins'. add_accumulators bins accs = Ok bins' \<and> list_all stats_ok bins' \<and> length bins' = length bins"
  using assms
proof (induction bins arbitrary: accs)
  case (Cons b bins)
  obtain a accs' where a: "accs = a # accs'" using Cons.prems(3) by (cases accs) auto
  have ok: "stats_ok b" "stats_ok a" "list_all stats_ok bins" "list_all stats_ok accs'" "length accs' = length bins"
    using Cons.prems by (simp_all add: a)
  show ?case using Cons.IH[OF ok(3-5)] stats_add_ok[OF ok(1,2)] stats_plus_ok[OF ok(1,2)]
    by (auto simp: a add_accumulators_def freeze_ok[OF ok(2)])
qed (simp add: add_accumulators_def)

lemma position_sample_spec:
  assumes ready: "position_sample_ready rt r w (view, vs, advs)" and table: "table_ok table"
    and bins: "list_all stats_ok bins" "length bins = length (ct_rho table)"
  shows "\<exists>bins'. position_sample rt table r anchor w view vs advs bins = Ok (position_stream rt table r anchor (fst (snd w)) (view, vs, advs), bins') \<and>
     list_all stats_ok bins' \<and> length bins' = length bins"
proof -
  obtain action_mask where w: "w = (fst view, action_mask, snd view)" using ready by (cases w) (auto simp: position_sample_ready_def)
  let ?n = "length (fst view)" and ?m = "min (critic_visible_length rt r (length (fst view))) (tt_policy_seq_len rt)"
  have len: "length action_mask = ?n" "length vs = ?n" "length advs = ?n" "length (snd view) = ?n"
    and sampled: "\<forall>j < ?n. snd view ! j \<longrightarrow> action_mask ! j"
    using ready by (simp_all add: w position_sample_ready_def sample_ready_def)
  have temporal: "((tt_gamma rt < 1 \<or> tt_gae_lambda rt < 1) \<and> True \<in> set (drop (critic_visible_length rt r ?n) (snd view))) = False"
    using ready by (auto simp: w position_sample_ready_def sample_ready_def)
  have prov: "(list_ex (\<lambda>(trainable, sampled). trainable \<and> \<not> sampled) (zip (snd view) action_mask)) = False"
    using sampled len by (auto simp: list_ex_iff in_set_zip)
  let ?st = "\<lparr> ps_out = replicate ?n 0, ps_accumulators = replicate (length (ct_rho table)) no_stats, ps_action_position = 0 \<rparr>"
  have m: "?m \<le> length (ps_out ?st)" using visible_le[of rt r ?n] by simp
  have rank: "ps_action_position ?st = int (action_rank action_mask 0)" and accs: "length (ps_accumulators ?st) = length (ct_rho table)"
      "list_all stats_ok (ps_accumulators ?st)"
    by (simp_all add: action_rank_def list_all_length)
  from position_tokens_spec[OF table _ m rank accs, of "snd view" vs advs anchor] obtain st' where
      st': "position_tokens table action_mask (snd view) vs advs anchor [0..<?m] ?st = Ok st'" "length (ps_out st') = ?n"
        "\<forall>j < ?n. ps_out st' ! j = (if j < ?m \<and> action_mask ! j \<and> snd view ! j
          then mixed_credit (position_rho table (action_rank action_mask j)) anchor (vs ! j) (advs ! j) else 0)"
        "length (ps_accumulators st') = length (ct_rho table)" "list_all stats_ok (ps_accumulators st')"
    by auto
  obtain bins' where b: "add_accumulators bins (ps_accumulators st') = Ok bins'" "list_all stats_ok bins'" "length bins' = length bins"
    using freeze_all[OF bins(1) st'(5)] st'(4) bins(2) by auto
  have "ps_out st' = position_stream rt table r anchor action_mask (view, vs, advs)"
    using st'(2,3) sampled by (intro nth_equalityI) (auto simp: position_stream_def credited_def)
  then show ?thesis using b st'(1) len prov by (simp add: w position_sample_def Let_def temporal prov)
qed

lemma position_samples_spec:
  assumes "list_all2 (position_sample_ready rt r) ws (zip views (zip ps as))" "length ps = length views" "length as = length views" "table_ok table"
    and "list_all stats_ok bins" "length bins = length (ct_rho table)"
  shows "\<exists>bins'. position_samples rt table r anchor ws views ps as bins =
       Ok (concat (map2 (\<lambda>w. position_stream rt table r anchor (fst (snd w))) ws (zip views (zip ps as))), bins') \<and>
     list_all stats_ok bins' \<and> length bins' = length bins"
  using assms
proof (induction views arbitrary: ws ps as bins)
  case (Cons v views)
  obtain p ps' a as' where e: "ps = p # ps'" "as = a # as'" using Cons.prems(2,3) by (cases ps; cases as) auto
  obtain w ws' where w: "ws = w # ws'" using Cons.prems(1) by (cases ws) (auto simp: e)
  have ready: "position_sample_ready rt r w (v, p, a)" and rest: "list_all2 (position_sample_ready rt r) ws' (zip views (zip ps' as'))"
      "length ps' = length views" "length as' = length views"
    using Cons.prems by (simp_all add: e w)
  obtain bins1 where b1: "position_sample rt table r anchor w v p a bins = Ok (position_stream rt table r anchor (fst (snd w)) (v, p, a), bins1)"
      "list_all stats_ok bins1" "length bins1 = length bins"
    using position_sample_spec[OF ready Cons.prems(4-6)] by blast
  obtain bins2 where b2: "position_samples rt table r anchor ws' views ps' as' bins1 =
        Ok (concat (map2 (\<lambda>w. position_stream rt table r anchor (fst (snd w))) ws' (zip views (zip ps' as'))), bins2)"
      "list_all stats_ok bins2" "length bins2 = length bins1"
    using Cons.IH[OF rest Cons.prems(4) b1(2)] b1(3) Cons.prems(6) by auto
  show ?case using b1 b2 by (simp add: e w)
qed simp

lemma position_stream_constant:
  assumes "table_ok table" "\<forall>x \<in> set (ct_rho table). x = c"
  shows "position_stream rt table r anchor action_mask x = sample_credit_stream rt r c anchor x"
proof -
  have "position_rho table p = c" for p
    using bin_index_ok[OF assms(1), of p] assms(2) by (metis nth_mem)
  then show ?thesis by (cases x) (simp add: position_stream_def sample_credit_stream_def)
qed

lemma position_credit_constant:
  assumes "position_ready rt r" "table_ok table" "\<forall>x \<in> set (ct_rho table). x = c"
  shows "position_credit rt table r anchor = rollout_credit rt c r anchor"
proof -
  obtain ws where ws: "branch_views r = Ok ws" "list_all2 (position_sample_ready rt r) ws (credit_inputs r)"
    using assms(1) by (auto simp: position_ready_def split: sum.splits)
  have "map2 (\<lambda>w. position_stream rt table r anchor (fst (snd w))) ws xs = map (sample_credit_stream rt r c anchor) xs"
    if "list_all2 (position_sample_ready rt r) ws xs" for ws xs
    using that by (induction rule: list_all2_induct) (simp_all add: position_stream_constant[OF assms(2,3)])
  from this[OF ws(2)] show ?thesis by (simp add: position_credit_def rollout_credit_def ws(1))
qed

lemma position_credit_length:
  assumes "position_ready rt r"
  shows "length (position_credit rt table r anchor) = total_tokens r"
proof -
  obtain ws where ws: "branch_views r = Ok ws" "list_all2 (position_sample_ready rt r) ws (credit_inputs r)" and ready: "rollout_ready rt r"
    using assms(1) by (auto simp: position_ready_def split: sum.splits)
  have "length (concat (map2 (\<lambda>w. position_stream rt table r anchor (fst (snd w))) ws xs)) = length (concat (map (sample_credit_stream rt r 0 anchor) xs))"
    if "list_all2 (position_sample_ready rt r) ws xs" for ws xs
    using that by (induction rule: list_all2_induct) (auto simp: position_stream_def sample_credit_stream_def)
  from this[OF ws(2)] show ?thesis using rollout_credit_length[OF ready, of 0 anchor]
    by (simp add: position_credit_def ws(1) rollout_credit_def)
qed

lemma position_rollout_spec:
  assumes ready: "position_ready rt r" and table: "table_ok table"
  shows "\<exists>bins. position_rollout rt table r anchor = Ok (r\<lparr> ro_advantages := Some (position_credit rt table r anchor) \<rparr>, bins) \<and>
     list_all stats_ok bins \<and> length bins = length (ct_rho table)"
proof -
  obtain ws where ws: "branch_views r = Ok ws" "length ws = length (sample_views r)" "list_all2 (position_sample_ready rt r) ws (credit_inputs r)"
    and roll: "rollout_ready rt r"
    using ready by (auto simp: position_ready_def split: sum.splits)
  obtain ps as where v: "ro_value_predictions r = Some ps" "ro_value_advantages r = Some as"
      "length ps = length (sample_views r)" "length as = length (sample_views r)"
    using roll by (auto simp: rollout_ready_def split: option.splits)
  have inputs: "credit_inputs r = zip (sample_views r) (zip ps as)" by (simp add: credit_inputs_def v)
  have zero: "list_all stats_ok (replicate (length (ct_rho table)) no_stats)" "length (replicate (length (ct_rho table)) no_stats) = length (ct_rho table)"
    by (simp_all add: list_all_length)
  obtain bins where b: "position_samples rt table r anchor ws (sample_views r) ps as (replicate (length (ct_rho table)) no_stats) =
        Ok (position_credit rt table r anchor, bins)" "list_all stats_ok bins" "length bins = length (ct_rho table)"
    using position_samples_spec[OF ws(3)[unfolded inputs] v(3,4) table zero, of anchor] by (auto simp: position_credit_def ws(1) inputs)
  have "2 \<le> length bins" using b(3) table by (simp add: table_ok_def)
  then show ?thesis using b v ws(1,2) position_credit_length[OF ready, of table anchor]
    by (simp add: position_rollout_def Let_def TetherRolloutStats_init_def)
qed

lemma position_rollouts_spec:
  assumes "list_all (position_ready rt) rs" "length bs = length rs" "table_ok table"
  shows "\<exists>scored. position_rollouts rt table rs bs = Ok scored \<and>
     map fst scored = map2 (\<lambda>r b. r\<lparr> ro_advantages := Some (position_credit rt table r b) \<rparr>) rs bs \<and>
     list_all (\<lambda>bins. list_all stats_ok bins \<and> length bins = length (ct_rho table)) (map snd scored)"
  using assms(1,2)
proof (induction rs arbitrary: bs)
  case (Cons r rs)
  obtain b bs' where b: "bs = b # bs'" using Cons.prems by (cases bs) auto
  obtain bins where bins: "position_rollout rt table r b = Ok (r\<lparr> ro_advantages := Some (position_credit rt table r b) \<rparr>, bins)"
      "list_all stats_ok bins" "length bins = length (ct_rho table)"
    using position_rollout_spec[OF _ assms(3), of rt r b] Cons.prems by auto
  obtain scored where s: "position_rollouts rt table rs bs' = Ok scored"
      "map fst scored = map2 (\<lambda>r b. r\<lparr> ro_advantages := Some (position_credit rt table r b) \<rparr>) rs bs'"
      "list_all (\<lambda>bins. list_all stats_ok bins \<and> length bins = length (ct_rho table)) (map snd scored)"
    using Cons.IH[of bs'] Cons.prems b by auto
  show ?case using bins s by (simp add: b)
qed simp

text \<open>
  C18: Positioned TETHER credit: on a group whose branches and value streams align, scoring raises nothing, the controller keeps its
  invariant, and a trainable visible token gets the lambda-return minus the mixed baseline with the coefficient of the bin
  of its causal action position, that is of how many sampled tokens of its branch precede it; when all bins hold the same
  coefficient this is exactly the scalar credit.
\<close>

theorem positioned_credit_generalises_scalar:
  assumes "tt_positioned rt = Some p" "pos_ok p" "group_baselines (map scored_reward rollouts) (tb_group (tt_config rt)) = Ok anchors"
    and "list_all (position_ready rt) rollouts"
  shows "\<exists>rs rt' p' table. score_group rt rollouts = Ok (rs, rt') \<and> tt_positioned rt' = Some p' \<and> pos_ok p' \<and> coefficient_table p = Ok table \<and>
     rs = map2 (\<lambda>r b. r\<lparr> ro_advantages := Some (position_credit rt table r b) \<rparr>) rollouts anchors \<and>
     (\<forall>c. (\<forall>x \<in> set (ct_rho table). x = c) \<longrightarrow>
        rs = map2 (\<lambda>r b. r\<lparr> ro_advantages := Some (rollout_credit rt c r b) \<rparr>) rollouts anchors)"
proof -
  have p: "2 \<le> pt_num_bins p" "length (pt_rho p) = nat (pt_num_bins p)" "1 \<le> pt_bin_size p" using assms(2) by (simp_all add: pos_ok_def Let_def)
  have n: "\<not> nat (pt_num_bins p) < 2" using p(1) by linarith
  define table where "table = \<lparr> ct_rho = pt_rho p, ct_bin_size = pt_bin_size p \<rparr>"
  have table: "coefficient_table p = Ok table" "table_ok table" "length (ct_rho table) = nat (pt_num_bins p)"
    using p n by (simp_all add: coefficient_table_def TetherCoefficientTable_init_def table_def table_ok_def)
  have len: "length anchors = length rollouts" using group_baselines_length[OF assms(3)] by simp
  obtain scored where s: "position_rollouts rt table rollouts anchors = Ok scored"
      "map fst scored = map2 (\<lambda>r b. r\<lparr> ro_advantages := Some (position_credit rt table r b) \<rparr>) rollouts anchors"
      "list_all (\<lambda>bins. list_all stats_ok bins \<and> length bins = length (ct_rho table)) (map snd scored)"
    using position_rollouts_spec[OF assms(4) len table(2)] by blast
  let ?rt = "record_applied_metrics (concat (map (\<lambda>x. zip (snd x) (ct_rho table)) scored)) rt"
  have group: "score_group rt rollouts = (if observation_ready rt rollouts
       then bindE (observe_positions (map snd scored) p) (\<lambda>p'. Ok (map fst scored, ?rt\<lparr> tt_positioned := Some p' \<rparr>)) else Ok (map fst scored, ?rt))"
    unfolding score_group_def assms(1) option.case score_positioned_group_def assms(3) bindE.simps table(1) s(1) Let_def ..
  have "list_all (\<lambda>bins. list_all stats_ok bins \<and> int (length bins) = pt_num_bins p) (map snd scored)"
    using s(3) table(3) p(1) by (simp add: list_all_iff)
  then obtain p1 where p1: "observe_positions (map snd scored) p = Ok p1" "pos_ok p1" using observe_positions_ok[OF assms(2)] by blast
  have keep: "tt_positioned ?rt = Some p" using assms(1) by (simp add: record_applied_metrics_def Let_def)
  obtain rt' p' where r: "score_group rt rollouts = Ok (map fst scored, rt')" "tt_positioned rt' = Some p'" "pos_ok p'"
    unfolding group using p1 keep assms(2) by (cases "observation_ready rt rollouts") auto
  have const: "map fst scored = map2 (\<lambda>r b. r\<lparr> ro_advantages := Some (rollout_credit rt c r b) \<rparr>) rollouts anchors"
    if c: "\<forall>x \<in> set (ct_rho table). x = c" for c
    unfolding s(2) using assms(4) position_credit_constant[OF _ table(2) c] by (auto simp: list_all_iff dest: set_zip_leftD intro!: map_cong)
  show ?thesis using r table(1) s(2) const by blast
qed

definition positioned_config :: TetherBaselineConfig where
  "positioned_config = \<lparr> tb_group = ''leave_one_out'', tb_rho = 1 / 2, tb_adaptive = Some (\<lparr> ac_ridge = 1 / 4, ac_ema_decay = 1 / 2, ac_initial_rho = 1 / 2 \<rparr>,
     Some \<lparr> tc_bin_size = 1, tc_max_action_tokens = Some 2, tc_min_bin_rollouts = Some 1 \<rparr>) \<rparr>"

definition positioned_rollout :: "nat \<Rightarrow> real \<Rightarrow> Rollout" where
  "positioned_rollout ident reward = (tether_rollout ident reward)\<lparr> ro_value_trajectory := Some \<lparr> vt_samples = [\<lparr> vs_token_ids = [1, 2, 3],
     vs_mask = [False, True, True], vs_sampled_mask = [False, True, True] \<rparr>], vt_layout = None, vt_reward = reward, vt_prefix = None,
     vt_env_name = ''env'', vt_group_id = ''g'', vt_policy_version = 0 \<rparr> \<rparr>"

theorem positioned_credit_generalises_scalar_witness:
  "\<exists>rt rs rt'. TetherRuntime_init positioned_config 1 1 8 8 (Some 4) 0 = Ok rt \<and>
     score_group rt [positioned_rollout 0 1, positioned_rollout 1 0] = Ok (rs, rt') \<and> ro_advantages (rs ! 0) = Some [0, 5 / 4, 17 / 8]"
proof -
  let ?rs = "[positioned_rollout 0 1, positioned_rollout 1 0]"
  obtain p where p: "PositionTether_init \<lparr> ac_ridge = 1 / 4, ac_ema_decay = 1 / 2, ac_initial_rho = 1 / 2 \<rparr> 4 1 1 2 1 1 = Ok p"
      "pt_rho p = [1 / 2, 1 / 2]"
    by (simp add: PositionTether_init_def Let_def numeral_2_eq_2)
  have "resolve_position \<lparr> tc_bin_size = 1, tc_max_action_tokens = Some 2, tc_min_bin_rollouts = Some 1 \<rparr> 8 4 = Ok (2, 1, 1)"
    by (simp add: resolve_position_def ceil_div_def)
  then obtain rt where rt: "TetherRuntime_init positioned_config 1 1 8 8 (Some 4) 0 = Ok rt" "tt_positioned rt = Some p"
      "tt_config rt = positioned_config" "tt_policy_seq_len rt = 8" "tt_value_seq_len rt = 8" "tt_gamma rt = 1" "tt_gae_lambda rt = 1"
    using p(1) by (simp add: TetherRuntime_init_def positioned_config_def)
  note rollout = positioned_rollout_def tether_rollout_def sample_rollout_def tether_sample_def
  have ready: "position_ready rt (positioned_rollout k x)" for k x
    by (simp add: position_ready_def rollout_ready_def credit_inputs_def branch_views_def sample_views_def rollout sample_ready_def
        position_sample_ready_def total_tokens_def rt less_Suc_eq nth_Cons split: nat.splits)
  have anchors: "group_baselines (map scored_reward ?rs) (tb_group (tt_config rt)) = Ok [0, 1]"
    by (simp add: group_baselines_def rt positioned_config_def scored_reward_def rollout others_def upt_rec numeral_2_eq_2)
  obtain rs rt' table where r: "score_group rt ?rs = Ok (rs, rt')" "coefficient_table p = Ok table"
      "\<forall>c. (\<forall>x \<in> set (ct_rho table). x = c) \<longrightarrow> rs = map2 (\<lambda>r b. r\<lparr> ro_advantages := Some (rollout_credit rt c r b) \<rparr>) ?rs [0, 1]"
    using positioned_credit_generalises_scalar[OF rt(2) PositionTether_init_ok[OF p(1)] anchors] ready by auto
  have "ct_rho table = [1 / 2, 1 / 2]" using r(2) p(2) by (auto simp: coefficient_table_def TetherCoefficientTable_init_def result_simps)
  then have "rs = map2 (\<lambda>r b. r\<lparr> ro_advantages := Some (rollout_credit rt (1 / 2) r b) \<rparr>) ?rs [0, 1]" using r(3) by simp
  moreover have "rollout_credit rt (1 / 2) (positioned_rollout 0 1) 0 = [0, 5 / 4, 17 / 8]"
    by (simp add: rollout_credit_def credit_inputs_def sample_credit_stream_def credited_def sample_views_def rollout
        rt critic_visible_length_def mixed_credit_def upt_rec numeral_2_eq_2)
  ultimately show ?thesis using rt(1) r(1) by auto
qed

end
