(* ===== verification/Algorithms.thy ===== *)
theory Algorithms
  imports Tether_Scoring Value_Types
begin

text \<open>
  \<open>Algorithm\<close> of \<^verbatim>\<open>orchestrator/algo/base.py\<close> with the scoring hooks of its subclasses (grpo, max_rl, opd, opsd): rollout-local
  scoring at arrival, group scoring, value evaluation, and stamping. Everything outside the repository that a hook calls
  is a field of \<open>Services\<close>: the value evaluator's answer (keyed by the first rollout of the call), prefill scoring by a frozen
  or live model, and the tokenised demonstration hint.
\<close>

record Services =
  sv_evaluate :: "nat \<Rightarrow> int list list \<Rightarrow> ValueEvaluationResponse result"
  sv_prefill :: "int list \<Rightarrow> real list result"
  sv_hint :: "Rollout \<Rightarrow> int list result"
  sv_render :: "string \<Rightarrow> int list"
  sv_bos_token_id :: "int option"
  sv_loo_prompts :: "Rollout list \<Rightarrow> string list result"

datatype GroupScore = GrpoScore "LinearLengthPenaltyConfig option" GRPOBaseline | MaxRlScore | NoGroupScore

datatype RolloutScore = NoRolloutScore | OpdScore | OpsdScore

record Algorithm =
  al_action_loss_type :: ActionLossType
  al_group_score :: GroupScore
  al_rollout_score :: RolloutScore
  al_value_config :: "ValueFunctionConfig option"
  al_group_context :: bool
  al_uses_policy_gae :: bool
  al_branch_semantics :: "string option"

fun effective_group :: "GRPOBaseline \<Rightarrow> string option" where
  "effective_group (GroupBaseline name) = Some name"
| "effective_group ValueBaseline = None"
| "effective_group (TetherBaseline rt) = Some (tb_group (tt_config rt))"

definition minimum_group_size :: "Algorithm \<Rightarrow> nat" where
  "minimum_group_size al = (case al_group_score al of
      GrpoScore _ baseline \<Rightarrow> (if effective_group baseline = Some ''leave_one_out'' then 2 else 1) | _ \<Rightarrow> 1)"

section \<open>Rollout phase\<close>

definition score_sample_refs :: "Services \<Rightarrow> int list \<Rightarrow> WireSample \<Rightarrow> WireSample result" where
  "score_sample_refs svc hint_block s =
     bindE (sv_prefill svc (hint_block @ smp_token_ids s)) (\<lambda>logprobs. Ok (s\<lparr> ws_ref_logprobs := Some (drop (length hint_block) logprobs) \<rparr>))"

definition algo_score_rollout :: "Services \<Rightarrow> Algorithm \<Rightarrow> Rollout \<Rightarrow> Rollout result" where
  "algo_score_rollout svc al r =
     (case al_rollout_score al of
        NoRolloutScore \<Rightarrow> Ok r
      | OpdScore \<Rightarrow> bindE (traverse (score_sample_refs svc []) (ro_samples r)) (\<lambda>ss. Ok (r\<lparr> ro_samples := ss \<rparr>))
      | OpsdScore \<Rightarrow> bindE (sv_hint svc r) (\<lambda>hint_block.
          bindE (traverse (score_sample_refs svc hint_block) (ro_samples r)) (\<lambda>ss. Ok (r\<lparr> ro_samples := ss \<rparr>))))"

text \<open>\<open>_value_trajectory\<close>: the attached trajectory, or a snapshot that is attached.\<close>

definition value_trajectory :: "Rollout \<Rightarrow> (ValueTrajectory \<times> Rollout) result" where
  "value_trajectory r =
     (case ro_value_trajectory r of
        Some t \<Rightarrow> Ok (t, r)
      | None \<Rightarrow>
          bindE (iter_trainable_branches (ro_trace r)) (\<lambda>branches.
          let sampled_masks = (if branches \<noteq> [] then map (\<lambda>b. br_sampled_mask (tb_branch b)) branches else map smp_mask (ro_samples r))
          in bindE (snapshot_value_trajectory (map TrainingSample.truncate (ro_samples r)) sampled_masks (ro_training_layout r) (ro_reward r)
                      (ro_value_prefix r) (ro_env_name r) (ro_group_id r) (ro_policy_version r)) (\<lambda>t.
               Ok (t, r\<lparr> ro_value_trajectory := Some t \<rparr>))))"

definition value_layout :: "ValueFunctionConfig \<Rightarrow> Algorithm \<Rightarrow> ValueTrajectory \<Rightarrow> TrainingLayout option result" where
  "value_layout config al t = sequential_value_layout t config (al_uses_policy_gae al) (al_branch_semantics al)"

definition value_inputs :: "ValueFunctionConfig \<Rightarrow> ValueTrajectory \<Rightarrow> int list list result" where
  "value_inputs config t = traverse (\<lambda>s. value_input (vs_token_ids s) (vt_prefix t) (vf_seq_len config)) (vt_samples t)"

definition assign_value :: "int \<Rightarrow> real list list \<times> real list list \<times> real list list \<Rightarrow> Rollout \<Rightarrow> Rollout" where
  "assign_value version result r = (case result of (predictions, advantages, returns) \<Rightarrow>
     r\<lparr> ro_value_predictions := Some predictions, ro_value_advantages := Some advantages, ro_value_returns := Some returns,
        ro_value_version := Some version \<rparr>)"

definition evaluate_value :: "Services \<Rightarrow> ValueFunctionConfig \<Rightarrow> Algorithm \<Rightarrow> Rollout \<Rightarrow> Rollout result" where
  "evaluate_value svc config al r =
     bindE (value_trajectory r) (\<lambda>(t, r1).
     bindE (value_layout config al t) (\<lambda>layout.
     bindE (value_inputs config t) (\<lambda>inputs.
     bindE (sv_evaluate svc (ro_id r) inputs) (\<lambda>response.
     bindE (compute_value_result t (vresp_values response) config layout) (\<lambda>res.
       Ok (assign_value (vresp_version response) res r1))))))"

definition finalize_rollout :: "Services \<Rightarrow> Algorithm \<Rightarrow> Rollout \<Rightarrow> Rollout result" where
  "finalize_rollout svc al r =
     (if ro_samples r = [] then Ok r
      else case al_value_config al of
        None \<Rightarrow> algo_score_rollout svc al r
      | Some config \<Rightarrow>
          bindE (value_trajectory r) (\<lambda>(t, r1).
          bindE (algo_score_rollout svc al r1) (\<lambda>r2.
          let r3 = r2\<lparr> ro_value_trajectory := Some (t\<lparr> vt_reward := ro_reward r2 \<rparr>) \<rparr>
          in if \<not> al_group_context al then evaluate_value svc config al r3 else Ok r3)))"

section \<open>Group phase\<close>

text \<open>The slices \<open>response.values[offset : offset + count]\<close> of the group's answer.\<close>

fun group_results :: "ValueFunctionConfig \<Rightarrow> (ValueTrajectory \<times> TrainingLayout option) list \<Rightarrow> real list list \<Rightarrow>
    (real list list \<times> real list list \<times> real list list) list result" where
  "group_results config [] vals = Ok []"
| "group_results config ((t, layout) # ts) vals =
     bindE (compute_value_result t (take (length (vt_samples t)) vals) config layout) (\<lambda>res.
     bindE (group_results config ts (drop (length (vt_samples t)) vals)) (\<lambda>rest. Ok (res # rest)))"

definition evaluate_value_group :: "Services \<Rightarrow> ValueFunctionConfig \<Rightarrow> Algorithm \<Rightarrow> Rollout list \<Rightarrow> Rollout list result" where
  "evaluate_value_group svc config al rollouts =
     bindE (traverse value_trajectory rollouts) (\<lambda>trs.
     bindE (traverse (\<lambda>(t, r). value_layout config al t) trs) (\<lambda>layouts.
     bindE (traverse (\<lambda>(t, r). value_inputs config t) trs) (\<lambda>inputs.
     bindE (sv_evaluate svc (case rollouts of [] \<Rightarrow> 0 | r # _ \<Rightarrow> ro_id r) (concat inputs)) (\<lambda>response.
     raise_if (length (vresp_values response) \<noteq> length (concat inputs)) (ValueError ''value evaluator returned another number of branches for group request'')
     (bindE (group_results config (zip (map fst trs) layouts) (vresp_values response)) (\<lambda>updates.
        Ok (map2 (assign_value (vresp_version response)) updates (map snd trs))))))))"

definition algo_score_group :: "Algorithm \<Rightarrow> Rollout list \<Rightarrow> (Rollout list \<times> Algorithm) result" where
  "algo_score_group al rollouts =
     (case al_group_score al of
        GrpoScore length_penalty baseline \<Rightarrow>
          bindE (grpo_score_group length_penalty baseline rollouts) (\<lambda>(rs, baseline').
            Ok (rs, al\<lparr> al_group_score := GrpoScore length_penalty baseline' \<rparr>))
      | MaxRlScore \<Rightarrow> bindE (max_rl_score_group rollouts) (\<lambda>rs. Ok (rs, al))
      | NoGroupScore \<Rightarrow> Ok (rollouts, al))"

definition stamp_rollout :: "Algorithm \<Rightarrow> Rollout \<Rightarrow> Rollout result" where
  "stamp_rollout al r =
     bindE (stamp_advantages r) (\<lambda>r1.
     bindE (traverse (\<lambda>s. stamp_loss_routing s (al_action_loss_type al)) (ro_samples r1)) (\<lambda>ss. Ok (r1\<lparr> ro_samples := ss \<rparr>)))"

definition finalize_group :: "Services \<Rightarrow> Algorithm \<Rightarrow> Rollout list \<Rightarrow> (Rollout list \<times> Algorithm) result" where
  "finalize_group svc al rollouts =
     bindE (case al_value_config al of
         None \<Rightarrow> Ok rollouts
       | Some config \<Rightarrow>
           raise_if (al_group_context al \<and> list_ex (\<lambda>r. ro_value_prefix r = None) rollouts)
             (RuntimeError ''group_leave_one_out value context was not attached before group finalization'')
             (if al_group_context al then evaluate_value_group svc config al rollouts else Ok rollouts)) (\<lambda>rs.
     bindE (algo_score_group al rs) (\<lambda>(rs', al').
     bindE (traverse (stamp_rollout al) rs') (\<lambda>rs''. Ok (rs'', al'))))"

section \<open>Frame\<close>

text \<open>What scoring never changes about a rollout.\<close>

definition same_rollout :: "Rollout \<Rightarrow> Rollout \<Rightarrow> bool" where
  "same_rollout r r' \<longleftrightarrow> ro_id r' = ro_id r \<and> ro_reward r' = ro_reward r \<and> ro_has_error r' = ro_has_error r \<and>
     ro_num_total_tokens r' = ro_num_total_tokens r \<and> ro_env_name r' = ro_env_name r \<and> ro_group_id r' = ro_group_id r \<and>
     ro_policy_version r' = ro_policy_version r \<and>
     map (\<lambda>s. (smp_token_ids s, smp_mask s)) (ro_samples r') = map (\<lambda>s. (smp_token_ids s, smp_mask s)) (ro_samples r)"

lemma same_rollout_refl [simp]: "same_rollout r r"
  by (simp add: same_rollout_def)

lemma same_rollout_trans: "same_rollout a b \<Longrightarrow> same_rollout b c \<Longrightarrow> same_rollout a c"
  by (simp add: same_rollout_def)

lemma same_rollouts_trans: "list_all2 same_rollout as bs \<Longrightarrow> list_all2 same_rollout bs cs \<Longrightarrow> list_all2 same_rollout as cs"
  by (rule list_all2_trans[OF same_rollout_trans])

lemma same_rollouts_refl: "list_all2 same_rollout rs rs"
  by (simp add: list_all2_same)

lemma same_rollout_samples: "same_rollout r r' \<Longrightarrow> ro_samples r' = [] \<longleftrightarrow> ro_samples r = []"
  by (auto simp: same_rollout_def)

lemma traverse_same: "(\<And>x y. f x = Ok y \<Longrightarrow> same_rollout x y) \<Longrightarrow> traverse f rs = Ok rs' \<Longrightarrow> list_all2 same_rollout rs rs'"
  by (auto simp: traverse_Inr_iff elim!: list_all2_mono)

lemma same_rollout_advantages [simp]: "same_rollout r (r\<lparr> ro_advantages := x \<rparr>)"
  by (simp add: same_rollout_def)

lemma assign_advantages_same: "assign_advantages c r = Ok r' \<Longrightarrow> same_rollout r r'"
  by (cases c) (auto simp: result_simps same_rollout_def)

lemma assign_all_same: "assign_all rs cs = Ok rs' \<Longrightarrow> list_all2 same_rollout rs rs'"
  by (induction rs cs arbitrary: rs' rule: assign_all.induct) (auto simp: result_simps assign_advantages_same)

lemma score_rollout_same: "score_rollout rt rho r b = Ok (r', st) \<Longrightarrow> same_rollout r r'"
  by (auto simp: score_rollout_def result_simps Let_def assign_advantages_same split: option.splits)

lemma score_rollouts_same: "score_rollouts rt rho rs bs = Ok xs \<Longrightarrow> list_all2 same_rollout rs (map fst xs)"
  by (induction rt rho rs bs arbitrary: xs rule: score_rollouts.induct) (auto simp: result_simps dest: score_rollout_same)

lemma position_rollout_same: "position_rollout rt table r b = Ok (r', st) \<Longrightarrow> same_rollout r r'"
  by (auto simp: position_rollout_def result_simps Let_def assign_advantages_same split: option.splits)

lemma position_rollouts_same: "position_rollouts rt table rs bs = Ok xs \<Longrightarrow> list_all2 same_rollout rs (map fst xs)"
  by (induction rt table rs bs arbitrary: xs rule: position_rollouts.induct) (auto simp: result_simps dest: position_rollout_same)

lemma score_group_same: "score_group rt rs = Ok (rs', rt') \<Longrightarrow> list_all2 same_rollout rs rs'"
  by (auto simp: score_group_def score_positioned_group_def result_simps Let_def split: option.splits if_splits
      dest: score_rollouts_same position_rollouts_same)

lemma grpo_score_group_same: "grpo_score_group lp b rs = Ok (rs', b') \<Longrightarrow> list_all2 same_rollout rs rs'"
proof -
  assume run: "grpo_score_group lp b rs = Ok (rs', b')"
  show ?thesis
  proof (cases b)
    case ValueBaseline
    then have "traverse (\<lambda>r. case ro_value_advantages r of
             None \<Rightarrow> Raise (RuntimeError ''value evaluator did not attach GAE advantages'')
           | Some branches \<Rightarrow> assign_advantages (PerToken (concat branches)) r) rs = Ok rs'"
      using run by (auto simp: grpo_score_group_def result_simps)
    then show ?thesis by (rule traverse_same[rotated]) (auto simp: result_simps split: option.splits)
  qed (use run in \<open>auto simp: grpo_score_group_def result_simps dest: score_group_same assign_all_same\<close>)
qed

lemma algo_score_group_same: "algo_score_group al rs = Ok (rs', al') \<Longrightarrow> list_all2 same_rollout rs rs'"
  by (auto simp: algo_score_group_def max_rl_score_group_def result_simps Let_def same_rollouts_refl split: GroupScore.splits
      dest: grpo_score_group_same assign_all_same)

lemma samples_same:
  assumes "traverse f (ro_samples r) = Ok ss" "\<And>s s'. f s = Ok s' \<Longrightarrow> smp_token_ids s' = smp_token_ids s \<and> smp_mask s' = smp_mask s"
  shows "same_rollout r (r\<lparr> ro_samples := ss \<rparr>)"
proof -
  have "list_all2 (\<lambda>s s'. smp_token_ids s' = smp_token_ids s \<and> smp_mask s' = smp_mask s) (ro_samples r) ss"
    using assms by (auto simp: traverse_Inr_iff elim!: list_all2_mono)
  then have "map (\<lambda>s. (smp_token_ids s, smp_mask s)) ss = map (\<lambda>s. (smp_token_ids s, smp_mask s)) (ro_samples r)"
    by (induction rule: list_all2_induct) simp_all
  then show ?thesis by (simp add: same_rollout_def)
qed

lemma algo_score_rollout_same: "algo_score_rollout svc al r = Ok r' \<Longrightarrow> same_rollout r r'"
  by (auto simp: algo_score_rollout_def result_simps score_sample_refs_def split: RolloutScore.splits intro!: samples_same)

lemma value_trajectory_same: "value_trajectory r = Ok (t, r') \<Longrightarrow> same_rollout r r' \<and> ro_value_trajectory r' = Some t"
  by (auto simp: value_trajectory_def result_simps Let_def same_rollout_def split: option.splits)

lemma assign_value_same: "same_rollout r (assign_value v x r)"
  by (cases x) (simp add: assign_value_def same_rollout_def)

lemma evaluate_value_same: "evaluate_value svc config al r = Ok r' \<Longrightarrow> same_rollout r r'"
  by (auto simp: evaluate_value_def result_simps dest!: value_trajectory_same intro: same_rollout_trans[OF _ assign_value_same])

lemma finalize_rollout_same: "finalize_rollout svc al r = Ok r' \<Longrightarrow> same_rollout r r'"
proof -
  assume run: "finalize_rollout svc al r = Ok r'"
  show ?thesis
  proof (cases "ro_samples r = [] \<or> al_value_config al = None")
    case True
    then show ?thesis using run by (auto simp: finalize_rollout_def algo_score_rollout_same split: if_splits)
  next
    case False
    then obtain config where c: "al_value_config al = Some config" "ro_samples r \<noteq> []" by auto
    then obtain t r1 r2 where s: "value_trajectory r = Ok (t, r1)" "algo_score_rollout svc al r1 = Ok r2"
        "(if \<not> al_group_context al then evaluate_value svc config al (r2\<lparr> ro_value_trajectory := Some (t\<lparr> vt_reward := ro_reward r2 \<rparr>) \<rparr>)
          else Ok (r2\<lparr> ro_value_trajectory := Some (t\<lparr> vt_reward := ro_reward r2 \<rparr>) \<rparr>)) = Ok r'"
      using run by (auto simp: finalize_rollout_def result_simps Let_def)
    have "same_rollout r r2" using value_trajectory_same[OF s(1)] algo_score_rollout_same[OF s(2)] same_rollout_trans by blast
    moreover have "same_rollout r2 (r2\<lparr> ro_value_trajectory := Some (t\<lparr> vt_reward := ro_reward r2 \<rparr>) \<rparr>)" by (simp add: same_rollout_def)
    ultimately show ?thesis using s(3) by (auto split: if_splits dest!: evaluate_value_same intro: same_rollout_trans)
  qed
qed

lemma stamp_rollout_same: "stamp_rollout al r = Ok r' \<Longrightarrow> same_rollout r r'"
proof -
  assume "stamp_rollout al r = Ok r'"
  then obtain r1 ss where s: "stamp_advantages r = Ok r1" "traverse (\<lambda>s. stamp_loss_routing s (al_action_loss_type al)) (ro_samples r1) = Ok ss"
      "r' = r1\<lparr> ro_samples := ss \<rparr>"
    by (auto simp: stamp_rollout_def result_simps)
  have sl: "map (\<lambda>s. (smp_token_ids s, smp_mask s)) (slice_advantages as ss) = map (\<lambda>s. (smp_token_ids s, smp_mask s)) ss" for as ss
    by (induction ss arbitrary: as) simp_all
  have "same_rollout r r1" using s(1) by (auto simp: stamp_advantages_def result_simps same_rollout_def sl split: option.splits)
  moreover have "same_rollout r1 r'" unfolding s(3)
    by (rule samples_same[OF s(2)]) (auto simp: stamp_loss_routing_def result_simps Let_def split: if_splits)
  ultimately show ?thesis by (rule same_rollout_trans)
qed

lemma evaluate_value_group_same:
  assumes "evaluate_value_group svc config al rs = Ok rs'"
  shows "list_all2 same_rollout rs rs'"
proof -
  obtain trs layouts updates and response :: ValueEvaluationResponse where s: "traverse value_trajectory rs = Ok trs"
      "traverse (\<lambda>(t, r). value_layout config al t) trs = Ok layouts"
      "group_results config (zip (map fst trs) layouts) (vresp_values response) = Ok updates"
      "rs' = map2 (assign_value (vresp_version response)) updates (map snd trs)"
    using assms unfolding evaluate_value_group_def bindE_Inr_iff raise_if_Inr_iff
    by (elim exE conjE) (rule that, assumption, assumption, assumption, simp)
  have "length updates = length xs" if "group_results config xs vs = Ok updates" for xs vs updates
    using that by (induction config xs vs arbitrary: updates rule: group_results.induct) (auto simp: result_simps)
  from this[OF s(3)] have len: "length updates = length trs" using traverse_length[OF s(2)] by simp
  have "list_all2 same_rollout rs (map2 (assign_value v) us (map snd trs))" if "length us = length trs" "list_all2 (\<lambda>x y. value_trajectory x = Ok y) rs trs"
    for us v rs trs
    using that(2,1)
  proof (induction arbitrary: us rule: list_all2_induct)
    case (Cons r rs tr trs)
    then obtain u us' where u: "us = u # us'" by (cases us) auto
    obtain t r1 where tr: "tr = (t, r1)" by (cases tr)
    have "same_rollout r r1" using value_trajectory_same[of r t r1] Cons.hyps(1) by (simp add: tr)
    then show ?case using Cons.IH[of us'] Cons.prems assign_value_same[of r1 v u] same_rollout_trans by (auto simp: u tr)
  qed simp
  from this[OF len s(1)[unfolded traverse_Inr_iff]] show ?thesis by (simp add: s(4))
qed

lemma finalize_group_same:
  assumes "finalize_group svc al rs = Ok (rs', al')"
  shows "list_all2 same_rollout rs rs'"
proof -
  obtain r1 r2 where s: "(case al_value_config al of
         None \<Rightarrow> Ok rs
       | Some config \<Rightarrow>
           raise_if (al_group_context al \<and> list_ex (\<lambda>r. ro_value_prefix r = None) rs)
             (RuntimeError ''group_leave_one_out value context was not attached before group finalization'')
             (if al_group_context al then evaluate_value_group svc config al rs else Ok rs)) = Ok r1"
      "algo_score_group al r1 = Ok (r2, al')" "traverse (stamp_rollout al) r2 = Ok rs'"
    using assms by (auto simp: finalize_group_def result_simps)
  have "list_all2 same_rollout rs r1"
    using s(1) by (auto simp: result_simps same_rollouts_refl evaluate_value_group_same split: option.splits if_splits)
  moreover have "list_all2 same_rollout r1 r2" using s(2) by (rule algo_score_group_same)
  moreover have "list_all2 same_rollout r2 rs'" using s(3) by (rule traverse_same[rotated]) (rule stamp_rollout_same)
  ultimately show ?thesis using same_rollouts_trans by blast
qed

end
