(* ===== verification/Train_Sink.thy ===== *)
theory Train_Sink
  imports Algorithms
begin

text \<open>
  \<^verbatim>\<open>orchestrator/train_sink.py\<close>: arrivals are tokenised, grouped, scored and filtered, and survivors are queued for the trainer.
  Rollouts are shared objects: the sink's lists hold their identities and \<open>sk_store\<close> their current contents. The orchestrator
  awaits one \<open>add\<close> at a time. A rollout's scoring task writes only that rollout and is awaited before its group is processed, so
  it runs there. The critic publisher is the log \<open>sk_published\<close>; log lines are dropped. A raise ends the run.
\<close>

section \<open>State\<close>

record TrainEnv =
  en_algorithm :: Algorithm
  en_group_size :: int
  en_requires_group_scoring :: bool
  en_temperature :: real
  en_live_policy :: bool

record TrainSink =
  sk_batch_size :: "int option"
  sk_token_batch_size :: "int option"
  sk_pre_filters :: "RolloutFilter list"
  sk_post_filters :: "RolloutFilter list"
  sk_publishing :: bool
  sk_value_seq_len :: "nat option"
  sk_group_context :: bool
  sk_empty_batch_rollout_limit :: int
  sk_last_empty_batch_progress :: int
  sk_next_value_rollout_id :: int
  sk_envs :: "(string, TrainEnv) odict"
  sk_store :: "nat \<Rightarrow> Rollout"
  sk_pending_rollouts :: "nat list"
  sk_pending_groups :: "(string, nat list) odict"
  sk_pending_batch :: "nat list"
  sk_pending_tokens :: int
  sk_scoring_tasks :: "nat list"
  sk_pre_filter_seen :: int
  sk_pre_filter_dropped :: int
  sk_pre_filter_dropped_by_name :: "(string, int) odict"
  sk_published :: "ValueTrainingRollout list"

record TrainBatch =
  tb_rollouts :: "Rollout list"
  tb_samples :: "WireSample list"
  tb_shipped_value_version_min :: "int option"
  tb_empty_batch_made_progress :: bool


definition put :: "Rollout \<Rightarrow> TrainSink \<Rightarrow> TrainSink" where
  "put r sk = sk\<lparr> sk_store := (sk_store sk)(ro_id r := r) \<rparr>"

definition get_env :: "TrainSink \<Rightarrow> string \<Rightarrow> TrainEnv result" where
  "get_env sk name = (case od_get name (sk_envs sk) of None \<Rightarrow> Raise KeyError | Some e \<Rightarrow> Ok e)"

definition queued_batch_progress :: "TrainSink \<Rightarrow> int" where
  "queued_batch_progress sk = (if sk_batch_size sk \<noteq> None then int (length (sk_pending_batch sk)) else sk_pending_tokens sk)"

definition retained :: "TrainSink \<Rightarrow> nat set" where
  "retained sk = set (sk_pending_batch sk) \<union> set (concat (od_values (sk_pending_groups sk)))"

definition pop_settled_rollouts :: "int \<Rightarrow> TrainSink \<Rightarrow> nat list \<times> TrainSink" where
  "pop_settled_rollouts minimum sk =
     (let settled = filter (\<lambda>i. i \<notin> retained sk) (sk_pending_rollouts sk)
      in if int (length settled) < minimum then ([], sk)
         else (settled, sk\<lparr> sk_pending_rollouts := filter (\<lambda>i. i \<in> retained sk) (sk_pending_rollouts sk) \<rparr>))"

section \<open>Privileged prefix\<close>

text \<open>The characters \<open>str.strip\<close> removes, among the first 256 code points.\<close>

definition py_space :: "char \<Rightarrow> bool" where
  "py_space c \<longleftrightarrow> (let n = (of_char c :: nat) in (9 \<le> n \<and> n \<le> 13) \<or> (28 \<le> n \<and> n \<le> 32) \<or> n = 133 \<or> n = 160)"

definition has_bos :: "int option \<Rightarrow> int list \<Rightarrow> bool" where
  "has_bos bos tokens \<longleftrightarrow> (case bos of None \<Rightarrow> False | Some b \<Rightarrow> take 1 tokens = [b])"

definition build_value_prefix :: "Services \<Rightarrow> nat option \<Rightarrow> 'a TrainingSample_scheme list \<Rightarrow> string option \<Rightarrow> bool \<Rightarrow> TokenPrefix option result" where
  "build_value_prefix svc value_seq_len samples prompt enabled =
     (case (value_seq_len, prompt) of
        (Some seq_len, Some p) \<Rightarrow>
          if \<not> enabled \<or> samples = [] then Ok None
          else
            raise_if (list_all py_space p) (ValueError ''value context prompt must contain non-whitespace text'')
            (let rendered = sv_render svc p;
                 branch_has_bos = map (\<lambda>s. has_bos (sv_bos_token_id svc) (smp_token_ids s)) samples;
                 rendered_has_bos = has_bos (sv_bos_token_id svc) rendered;
                 prefix_token_ids = (if rendered_has_bos then drop 1 rendered else rendered)
             in raise_if (\<exists>b \<in> set branch_has_bos. b \<noteq> hd branch_has_bos)
                  (ValueError ''all branches in a rollout must use the same BOS convention'')
                (raise_if (rendered_has_bos \<noteq> hd branch_has_bos)
                  (ValueError ''rendered value context and policy branches must use the same BOS convention'')
                (raise_if (prefix_token_ids = []) (ValueError ''value context rendered to no prefix tokens'')
                (bindE (TokenPrefix_init prefix_token_ids (if rendered_has_bos then 1 else 0)) (\<lambda>pre.
                 raise_if (list_ex (\<lambda>s. length (smp_token_ids s) + length (tp_token_ids pre) > seq_len) samples)
                   (ValueError ''conditioned value input exceeds value_function.model.seq_len'')
                   (Ok (Some pre)))))))
      | _ \<Rightarrow> Ok None)"

section \<open>Arrival\<close>

definition wire_sample :: "TrainingSample \<Rightarrow> WireSample" where
  "wire_sample s = TrainingSample.extend s \<lparr> ws_temperatures = [], ws_ref_logprobs = None, ws_rl_weights = None, ws_ce_weights = None,
     ws_ref_kl_weights = None, ws_advantages = None \<rparr>"

definition process_rollout :: "Services \<Rightarrow> Rollout \<Rightarrow> TrainSink \<Rightarrow> TrainSink result" where
  "process_rollout svc r sk =
     (if ro_has_error r \<or> \<not> ro_trainable r then Ok (put r sk)
      else
        bindE (get_env sk (ro_env_name r)) (\<lambda>env.
        let value_enabled = al_value_config (en_algorithm env) \<noteq> None;
            task_prompt = (if value_enabled then ro_task_prompt r else None)
        in raise_if (value_enabled \<and> sk_group_context sk \<and> task_prompt \<noteq> None)
             (ValueError ''task value_function_prompt cannot be combined with group_leave_one_out'')
           (bindE (materialize_training_data (ro_trace r) (ro_env_name r) value_enabled (en_live_policy env)) (\<lambda>m.
            bindE (build_value_prefix svc (sk_value_seq_len sk) (tm_samples m) (if \<not> sk_group_context sk then task_prompt else None) value_enabled) (\<lambda>pre.
            let r1 = r\<lparr> ro_samples := map wire_sample (tm_samples m), ro_training_layout := tm_layout m, ro_value_prefix := pre \<rparr>
            in bindE (if value_enabled
                 then bindE (snapshot_value_trajectory (tm_samples m) (tm_sampled_masks m) (tm_layout m) (ro_reward r) pre (ro_env_name r)
                        (ro_group_id r) (ro_policy_version r)) (\<lambda>t. Ok (r1\<lparr> ro_value_trajectory := Some t \<rparr>))
                 else Ok r1) (\<lambda>r2.
               Ok (put r2 (sk\<lparr> sk_scoring_tasks := sk_scoring_tasks sk @ [ro_id r] \<rparr>))))))))"

section \<open>Publication to the critic\<close>

definition value_sample :: "nat \<Rightarrow> ValueTrajectory \<Rightarrow> ValueTrajectorySample \<Rightarrow> real list \<Rightarrow> ValueTrainingSample result" where
  "value_sample seq_len t s targets =
     (case vt_prefix t of
        Some p \<Rightarrow>
          bindE (prefix_apply p (vs_token_ids s)) (\<lambda>token_ids. bindE (prefix_lift p (vs_mask s) False) (\<lambda>msk.
          bindE (prefix_lift p targets 0) (\<lambda>value_targets.
            Ok \<lparr> vts_token_ids = token_ids, vts_mask = msk, vts_targets = value_targets \<rparr>)))
      | None \<Rightarrow>
          (let value_length = min (length (vs_token_ids s)) seq_len
           in Ok \<lparr> vts_token_ids = take value_length (vs_token_ids s), vts_mask = take value_length (vs_mask s),
                   vts_targets = take value_length targets \<rparr>))"

fun value_samples :: "nat \<Rightarrow> ValueTrajectory \<Rightarrow> ValueTrajectorySample list \<Rightarrow> real list list \<Rightarrow> ValueTrainingSample list result" where
  "value_samples seq_len t [] [] = Ok []"
| "value_samples seq_len t (s # ss) (ts # tss) =
     bindE (value_sample seq_len t s ts) (\<lambda>v. bindE (value_samples seq_len t ss tss) (\<lambda>vs. Ok (v # vs)))"
| "value_samples seq_len t _ _ = Raise (ValueError ''zip() arguments have different lengths'')"

fun publish_rollouts :: "nat \<Rightarrow> Rollout list \<Rightarrow> TrainSink \<Rightarrow> TrainSink result" where
  "publish_rollouts seq_len [] sk = Ok sk"
| "publish_rollouts seq_len (r # rs) sk =
     (case (ro_value_trajectory r, ro_value_returns r, ro_value_version r) of
        (Some t, Some returns, Some version) \<Rightarrow>
          bindE (value_samples seq_len t (vt_samples t) returns) (\<lambda>samples.
            publish_rollouts seq_len rs
              (sk\<lparr> sk_published := sk_published sk @ [\<lparr> vtr_samples = samples, vtr_rollout_id = sk_next_value_rollout_id sk,
                     vtr_policy_version = vt_policy_version t, vtr_value_version = version \<rparr>],
                  sk_next_value_rollout_id := sk_next_value_rollout_id sk + 1 \<rparr>))
      | _ \<Rightarrow> Raise (AssertionError ''rollout.value_returns is not None''))"

definition publish_value_rollouts :: "Rollout list \<Rightarrow> TrainSink \<Rightarrow> TrainSink result" where
  "publish_value_rollouts rollouts sk =
     (if \<not> sk_publishing sk then Ok sk
      else
        let trainable_rollouts = filter (\<lambda>r. (case ro_value_trajectory r of None \<Rightarrow> False | Some t \<Rightarrow> vt_samples t \<noteq> []) \<or> ro_samples r \<noteq> []) rollouts
        in if \<not> list_ex (\<lambda>r. ro_value_returns r \<noteq> None) trainable_rollouts then Ok sk
           else raise_if (\<not> list_all (\<lambda>r. ro_value_returns r \<noteq> None \<and> ro_value_version r \<noteq> None) trainable_rollouts)
                  (RuntimeError ''value evaluator did not attach concrete lambda-return targets'')
                (raise_if (list_ex (\<lambda>r. ro_value_trajectory r = None) trainable_rollouts)
                  (RuntimeError ''value trajectory was not captured before critic publication'')
                (case sk_value_seq_len sk of
                   None \<Rightarrow> Raise (AssertionError ''self._value_seq_len is not None'')
                 | Some seq_len \<Rightarrow> publish_rollouts seq_len trainable_rollouts sk)))"

section \<open>Group finalisation\<close>

text \<open>Awaiting the scoring tasks of the group's members, in order.\<close>

fun run_tasks :: "Services \<Rightarrow> nat list \<Rightarrow> TrainSink \<Rightarrow> TrainSink result" where
  "run_tasks svc [] sk = Ok sk"
| "run_tasks svc (i # is) sk =
     (if i \<in> set (sk_scoring_tasks sk)
      then bindE (get_env sk (ro_env_name (sk_store sk i))) (\<lambda>env. bindE (finalize_rollout svc (en_algorithm env) (sk_store sk i)) (\<lambda>r.
             run_tasks svc is (put r (sk\<lparr> sk_scoring_tasks := filter (\<lambda>j. j \<noteq> i) (sk_scoring_tasks sk) \<rparr>))))
      else run_tasks svc is sk)"

definition build_group_value_prefixes :: "Services \<Rightarrow> TrainSink \<Rightarrow> Rollout list \<Rightarrow> TokenPrefix list result" where
  "build_group_value_prefixes svc sk rollouts =
     bindE (sv_loo_prompts svc rollouts) (\<lambda>prompts.
     raise_if (length prompts \<noteq> length rollouts) (ValueError ''zip() arguments have different lengths'')
     (bindE (traverse (\<lambda>(r, prompt). build_value_prefix svc (sk_value_seq_len sk) (ro_samples r) (Some prompt) True) (zip rollouts prompts)) (\<lambda>prefixes.
      raise_if (None \<in> set prefixes) (RuntimeError ''group_leave_one_out prompt unexpectedly produced no value prefix'')
        (Ok (concat (map (\<lambda>p. case p of None \<Rightarrow> [] | Some x \<Rightarrow> [x]) prefixes))))))"

definition attach_prefixes :: "Services \<Rightarrow> TrainSink \<Rightarrow> Rollout list \<Rightarrow> Rollout list result" where
  "attach_prefixes svc sk rollouts =
     bindE (build_group_value_prefixes svc sk rollouts) (\<lambda>prefixes.
     raise_if (list_ex (\<lambda>r. ro_value_trajectory r = None) rollouts) (RuntimeError ''value trajectory was not captured before group finalization'')
       (Ok (map2 (\<lambda>r p. r\<lparr> ro_value_prefix := Some p,
              ro_value_trajectory := map_option (\<lambda>t. t\<lparr> vt_prefix := Some p \<rparr>) (ro_value_trajectory r) \<rparr>) rollouts prefixes)))"

definition fan_out_temperature :: "real \<Rightarrow> Rollout \<Rightarrow> Rollout" where
  "fan_out_temperature temperature r =
     r\<lparr> ro_samples := map (\<lambda>s. s\<lparr> ws_temperatures := replicate (length (smp_token_ids s)) temperature \<rparr>) (ro_samples r) \<rparr>"

definition bump :: "string \<Rightarrow> (string, int) odict \<Rightarrow> (string, int) odict" where
  "bump name d = od_set name ((case od_get name d of None \<Rightarrow> 0 | Some n \<Rightarrow> n) + 1) d"

text \<open>The last loop of \<open>process_group\<close>: survivors of the pre-filters are queued with clean annotations.\<close>

fun queue_survivors :: "Rollout list \<Rightarrow> TrainSink \<Rightarrow> TrainSink" where
  "queue_survivors [] sk = sk"
| "queue_survivors (r # rs) sk =
     (let sk1 = sk\<lparr> sk_pre_filter_seen := sk_pre_filter_seen sk + 1 \<rparr> in
      queue_survivors rs
        (if ro_is_filtered r
         then put r (sk1\<lparr> sk_pre_filter_dropped := sk_pre_filter_dropped sk1 + 1,
                sk_pre_filter_dropped_by_name := fold (\<lambda>(name, hit) d. if hit then bump name d else d) (ro_filter_results r) (sk_pre_filter_dropped_by_name sk1) \<rparr>)
         else put (r\<lparr> ro_filter_results := [], ro_is_filtered := False \<rparr>)
                (sk1\<lparr> sk_pending_batch := sk_pending_batch sk1 @ [ro_id r],
                      sk_pending_tokens := sk_pending_tokens sk1 + (if sk_token_batch_size sk1 \<noteq> None then ro_num_total_tokens r else 0) \<rparr>)))"

definition finish_group :: "Services \<Rightarrow> TrainEnv \<Rightarrow> string \<Rightarrow> Rollout list \<Rightarrow> TrainSink \<Rightarrow> TrainSink result" where
  "finish_group svc env env_name survivors sk =
     bindE (finalize_group svc (en_algorithm env) survivors) (\<lambda>(rs, al').
     let sk1 = sk\<lparr> sk_envs := od_set env_name (env\<lparr> en_algorithm := al' \<rparr>) (sk_envs sk) \<rparr> in
     bindE (publish_value_rollouts rs sk1) (\<lambda>sk2.
     let rs' = map (fan_out_temperature (en_temperature env)) rs;
         rs'' = (if sk_pre_filters sk2 \<noteq> [] then apply_filters (sk_pre_filters sk2) rs' else rs')
     in Ok (queue_survivors rs'' sk2)))"

text \<open>\<open>process_group\<close> once the scoring tasks are done: the reasons to drop the group, then its finalisation.\<close>

definition settle_group :: "Services \<Rightarrow> Rollout list \<Rightarrow> TrainEnv \<Rightarrow> TrainSink \<Rightarrow> TrainSink result" where
  "settle_group svc members env sk =
     (let num_errored = length (filter ro_has_error members);
          num_without_samples = length (filter (\<lambda>r. \<not> ro_has_error r \<and> ro_samples r = []) members);
          survivors = map (sk_store sk) (map ro_id (filter (\<lambda>r. \<not> ro_has_error r \<and> ro_samples r \<noteq> []) members));
          group_value_context = sk_group_context sk \<and> al_value_config (en_algorithm env) \<noteq> None
      in if (num_errored > 0 \<or> num_without_samples > 0) \<and> en_requires_group_scoring env then Ok sk
         else if survivors = [] then Ok sk
         else
           raise_if (group_value_context \<and> int (length members) \<noteq> en_group_size env)
             (RuntimeError ''group_leave_one_out value context reached an invalid group barrier'')
           (if group_value_context \<and> int (length survivors) \<noteq> en_group_size env then Ok sk
            else if length survivors < minimum_group_size (en_algorithm env) then Ok sk
            else bindE (if group_value_context then attach_prefixes svc sk survivors else Ok survivors) (\<lambda>rs.
                   finish_group svc env (ro_env_name (hd members)) rs sk)))"

definition process_group :: "Services \<Rightarrow> string \<Rightarrow> TrainSink \<Rightarrow> TrainSink result" where
  "process_group svc group_id sk =
     (case od_get group_id (sk_pending_groups sk) of
        None \<Rightarrow> Ok sk
      | Some ids \<Rightarrow>
          (let sk0 = sk\<lparr> sk_pending_groups := od_del group_id (sk_pending_groups sk) \<rparr>; members = map (sk_store sk0) ids
           in if ids = [] then Ok sk0
              else bindE (run_tasks svc ids sk0) (\<lambda>sk1. bindE (get_env sk1 (ro_env_name (hd members))) (\<lambda>env. settle_group svc members env sk1))))"

section \<open>Batches\<close>

text \<open>The token cut: how many queued rollouts are taken and their running total.\<close>

fun token_cut :: "int \<Rightarrow> int \<Rightarrow> Rollout list \<Rightarrow> nat \<times> int" where
  "token_cut target running [] = (0, running)"
| "token_cut target running (r # rs) =
     (let running' = running + ro_num_total_tokens r
      in if running' \<ge> target then (1, running') else (let (n, total) = token_cut target running' rs in (Suc n, total)))"

definition take_cohort :: "TrainSink \<Rightarrow> (nat list \<times> TrainSink) result" where
  "take_cohort sk =
     (case sk_batch_size sk of
        Some batch_size \<Rightarrow>
          Ok (take (nat batch_size) (sk_pending_batch sk), sk\<lparr> sk_pending_batch := drop (nat batch_size) (sk_pending_batch sk) \<rparr>)
      | None \<Rightarrow>
          (case sk_token_batch_size sk of
             None \<Rightarrow> Raise (AssertionError ''self.token_batch_size is not None'')
           | Some target \<Rightarrow>
               (let (n, running) = token_cut target 0 (map (sk_store sk) (sk_pending_batch sk))
                in Ok (take n (sk_pending_batch sk), sk\<lparr> sk_pending_batch := drop n (sk_pending_batch sk),
                         sk_pending_tokens := sk_pending_tokens sk - running \<rparr>))))"

definition min_version :: "int list \<Rightarrow> int option" where
  "min_version vs = (if vs = [] then None else Some (Min (set vs)))"

definition process_batch :: "TrainSink \<Rightarrow> (TrainBatch \<times> TrainSink) result" where
  "process_batch sk =
     bindE (take_cohort sk) (\<lambda>(ids, sk1).
     let cohort = map (sk_store sk1) ids;
         cohort' = (if sk_post_filters sk1 \<noteq> [] then apply_filters (sk_post_filters sk1) cohort else cohort);
         sk2 = fold put cohort' sk1;
         shipped = filter (\<lambda>r. \<not> ro_is_filtered r) cohort';
         samples = concat (map ro_samples shipped);
         value_versions = concat (map (\<lambda>r. case ro_value_version r of None \<Rightarrow> [] | Some v \<Rightarrow> [v]) shipped);
         (rollouts, sk3) = (if samples \<noteq> [] then (sk_pending_rollouts sk2, sk2\<lparr> sk_pending_rollouts := [] \<rparr>) else pop_settled_rollouts 1 sk2);
         sk4 = sk3\<lparr> sk_last_empty_batch_progress := queued_batch_progress sk3 \<rparr>
     in Ok (\<lparr> tb_rollouts = map (sk_store sk4) rollouts, tb_samples = samples, tb_shipped_value_version_min = min_version value_versions,
              tb_empty_batch_made_progress = False \<rparr>, sk4))"

definition batch_ready :: "TrainSink \<Rightarrow> bool" where
  "batch_ready sk \<longleftrightarrow> (case sk_batch_size sk of
      Some batch_size \<Rightarrow> int (length (sk_pending_batch sk)) \<ge> batch_size
    | None \<Rightarrow> sk_pending_tokens sk \<ge> (case sk_token_batch_size sk of None \<Rightarrow> 0 | Some n \<Rightarrow> n))"

definition flush_settled :: "TrainSink \<Rightarrow> TrainBatch option \<times> TrainSink" where
  "flush_settled sk =
     (case pop_settled_rollouts (sk_empty_batch_rollout_limit sk) sk of (settled, sk1) \<Rightarrow>
        if settled \<noteq> []
        then let progress = queued_batch_progress sk1
             in (Some \<lparr> tb_rollouts = map (sk_store sk1) settled, tb_samples = [], tb_shipped_value_version_min = None,
                        tb_empty_batch_made_progress = progress > sk_last_empty_batch_progress sk1 \<rparr>,
                 sk1\<lparr> sk_last_empty_batch_progress := progress \<rparr>)
        else (None, sk1))"

definition append_group :: "string \<Rightarrow> nat \<Rightarrow> (string, nat list) odict \<Rightarrow> (string, nat list) odict" where
  "append_group g i d = od_set g ((case od_get g d of None \<Rightarrow> [] | Some is \<Rightarrow> is) @ [i]) d"

definition add :: "Services \<Rightarrow> Rollout \<Rightarrow> TrainSink \<Rightarrow> (TrainBatch option \<times> TrainSink) result" where
  "add svc r sk0 =
     bindE (process_rollout svc r sk0) (\<lambda>sk1.
     let sk2 = sk1\<lparr> sk_pending_rollouts := sk_pending_rollouts sk1 @ [ro_id r],
                    sk_pending_groups := append_group (ro_group_id r) (ro_id r) (sk_pending_groups sk1) \<rparr>;
         size = length (case od_get (ro_group_id r) (sk_pending_groups sk2) of None \<Rightarrow> [] | Some is \<Rightarrow> is)
     in bindE (get_env sk2 (ro_env_name r)) (\<lambda>env.
        let group_completed = int size \<ge> en_group_size env in
        bindE (if group_completed then process_group svc (ro_group_id r) sk2 else Ok sk2) (\<lambda>sk3.
          if batch_ready sk3 then bindE (process_batch sk3) (\<lambda>(b, sk4). Ok (Some b, sk4))
          else if group_completed then Ok (flush_settled sk3)
          else Ok (None, sk3))))"


section \<open>Reports\<close>

definition group_size_for :: "TrainSink \<Rightarrow> string \<Rightarrow> int result" where
  "group_size_for sk name = bindE (get_env sk name) (\<lambda>env. Ok (en_group_size env))"

fun in_progress :: "TrainSink \<Rightarrow> nat list list \<Rightarrow> nat list list result" where
  "in_progress sk [] = Ok []"
| "in_progress sk ([] # groups) = in_progress sk groups"
| "in_progress sk ((i # is) # groups) =
     bindE (get_env sk (ro_env_name (sk_store sk i))) (\<lambda>env.
     bindE (in_progress sk groups) (\<lambda>out. Ok (if en_requires_group_scoring env then out else (i # is) # out)))"

definition in_progress_groups :: "TrainSink \<Rightarrow> nat list list result" where
  "in_progress_groups sk = in_progress sk (od_values (sk_pending_groups sk))"

definition batch_progress :: "TrainSink \<Rightarrow> (int \<times> int \<times> string) result" where
  "batch_progress sk =
     (case sk_batch_size sk of
        Some batch_size \<Rightarrow> Ok (int (length (sk_pending_batch sk)), batch_size, ''rollouts'')
      | None \<Rightarrow>
          (case sk_token_batch_size sk of
             None \<Rightarrow> Raise (AssertionError ''self.token_batch_size is not None'')
           | Some token_batch_size \<Rightarrow> Ok (sk_pending_tokens sk, token_batch_size, ''tokens'')))"

definition buffered_count :: "TrainSink \<Rightarrow> nat result" where
  "buffered_count sk = bindE (in_progress_groups sk) (\<lambda>groups. Ok (sum_list (map length groups)))"

definition pending_batch_by_env :: "TrainSink \<Rightarrow> (string, int) odict" where
  "pending_batch_by_env sk = fold (\<lambda>i counts. bump (ro_env_name (sk_store sk i)) counts) (sk_pending_batch sk) []"

definition reset_pre_filter_stats :: "TrainSink \<Rightarrow> TrainSink" where
  "reset_pre_filter_stats sk = sk\<lparr> sk_pre_filter_seen := 0, sk_pre_filter_dropped := 0, sk_pre_filter_dropped_by_name := [] \<rparr>"

text \<open>\<open>stop\<close> forgets the scoring tasks left behind by partial groups and cancels them.\<close>

definition stop :: "TrainSink \<Rightarrow> nat list \<times> TrainSink" where
  "stop sk = (sk_scoring_tasks sk, sk\<lparr> sk_scoring_tasks := [] \<rparr>)"

section \<open>Frame\<close>

text \<open>Only the rollouts in \<open>S\<close> may have changed, and only in what scoring writes.\<close>

definition agree :: "nat set \<Rightarrow> (nat \<Rightarrow> Rollout) \<Rightarrow> (nat \<Rightarrow> Rollout) \<Rightarrow> bool" where
  "agree S m m' \<longleftrightarrow> (\<forall>i \<in> S. same_rollout (m i) (m' i)) \<and> (\<forall>i. i \<notin> S \<longrightarrow> m' i = m i)"

lemma agree_refl [simp]: "agree S m m"
  by (simp add: agree_def)











text \<open>The fields no part of group finalisation writes.\<close>

definition same_plan :: "TrainSink \<Rightarrow> TrainSink \<Rightarrow> bool" where
  "same_plan sk sk' \<longleftrightarrow> sk_batch_size sk' = sk_batch_size sk \<and> sk_token_batch_size sk' = sk_token_batch_size sk \<and>
     sk_pre_filters sk' = sk_pre_filters sk \<and> sk_post_filters sk' = sk_post_filters sk \<and> sk_publishing sk' = sk_publishing sk \<and>
     sk_value_seq_len sk' = sk_value_seq_len sk \<and> sk_group_context sk' = sk_group_context sk \<and>
     sk_empty_batch_rollout_limit sk' = sk_empty_batch_rollout_limit sk \<and>
     sk_last_empty_batch_progress sk' = sk_last_empty_batch_progress sk \<and>
     sk_pending_rollouts sk' = sk_pending_rollouts sk \<and> sk_pending_groups sk' = sk_pending_groups sk"

lemma same_plan_refl [simp]: "same_plan sk sk"
  by (simp add: same_plan_def)


















section \<open>The invariant of the sink\<close>






text \<open>The content of a rollout that is trained: the tokens and masks of its samples.\<close>

definition content :: "'a TrainingSample_scheme list \<Rightarrow> (int list \<times> bool list) list" where
  "content samples = map (\<lambda>s. (smp_token_ids s, smp_mask s)) samples"








lemma content_wire [simp]: "content (map wire_sample ss) = content ss"
  by (simp add: content_def wire_sample_def TrainingSample.defs o_def)




section \<open>Batches\<close>





lemma filter_check_verdict [simp]:
  "filter_check f (r\<lparr> ro_filter_results := x, ro_is_filtered := y \<rparr>) = filter_check f r"
  by (cases f) simp_all
























end
