(* ===== verification/Sources.thy ===== *)
theory Sources
  imports Ordered_Dict
begin

text \<open>
  \<^verbatim>\<open>orchestrator/train_source.py\<close> and \<^verbatim>\<open>orchestrator/eval_source.py\<close>: where the dispatcher pulls examples from. Draws of
  \<open>random.Random\<close> (the weighted choice of an environment and the result of a shuffle) and the next task of an infinite
  generator are arguments; \<open>shuffle\<close> is only assumed to permute.
\<close>

record Example =
  ex_env_name :: string
  ex_task_idx :: int
  ex_task_data :: "string option"
  ex_eval_step :: "int option"

text \<open>\<open>env.tasks\<close> and \<open>env.num_tasks\<close>: an index range, an infinite generator, or a finite table of tasks.\<close>

datatype Taskset = IndexRange nat | Generator | TaskTable "(int \<times> string) list"

record EnvSpec =
  es_name :: string
  es_tasks :: Taskset
  es_group_size :: int
  es_requires_group_scoring :: bool
  es_ratio :: real
  es_live :: bool

definition permit_cost :: "EnvSpec \<Rightarrow> int" where
  "permit_cost env = (if es_requires_group_scoring env then es_group_size env else 1)"

section \<open>Training examples\<close>

record TrainSource =
  ts_env_names :: "string list"
  ts_weights :: "real list"
  ts_examples :: "(string, Example list option) odict"
  ts_cursors :: "(string, nat) odict"
  ts_env_costs :: "(string, int) odict"

definition env_rows :: "EnvSpec \<Rightarrow> Example list option" where
  "env_rows env = (case es_tasks env of
      IndexRange n \<Rightarrow> Some (map (\<lambda>i. \<lparr> ex_env_name = es_name env, ex_task_idx = int i, ex_task_data = None, ex_eval_step = None \<rparr>) [0..<n])
    | Generator \<Rightarrow> None
    | TaskTable tasks \<Rightarrow> Some (map (\<lambda>(idx, data). \<lparr> ex_env_name = es_name env, ex_task_idx = idx, ex_task_data = Some data, ex_eval_step = None \<rparr>) tasks))"

fun add_envs :: "(Example list \<Rightarrow> Example list) \<Rightarrow> EnvSpec list \<Rightarrow> TrainSource \<Rightarrow> TrainSource result" where
  "add_envs shuffle [] src = Ok src"
| "add_envs shuffle (env # envs) src =
     (let rows = map_option shuffle (env_rows env)
      in raise_if (rows = Some []) (ValueError ''Train env has no tasks'')
        (add_envs shuffle envs
          (src\<lparr> ts_examples := od_set (es_name env) rows (ts_examples src), ts_cursors := od_set (es_name env) 0 (ts_cursors src),
                ts_env_costs := od_set (es_name env) (permit_cost env) (ts_env_costs src) \<rparr>)))"

definition TrainSource_init :: "(Example list \<Rightarrow> Example list) \<Rightarrow> EnvSpec list \<Rightarrow> TrainSource result" where
  "TrainSource_init shuffle envs =
     raise_if (envs = []) (ValueError ''TrainSource needs at least one train env'')
     (add_envs shuffle envs \<lparr> ts_env_names = map es_name envs, ts_weights = map es_ratio envs, ts_examples = [], ts_cursors = [], ts_env_costs = [] \<rparr>)"

text \<open>\<open>name\<close> is the weighted draw, \<open>task\<close> the next task of an infinite environment.\<close>

definition train_next :: "string \<Rightarrow> (Example list \<Rightarrow> Example list) \<Rightarrow> int \<times> string \<Rightarrow> int \<Rightarrow> TrainSource \<Rightarrow> (Example option \<times> TrainSource) result" where
  "train_next name shuffle task available_permits src =
     (case (od_get name (ts_env_costs src), od_get name (ts_examples src), od_get name (ts_cursors src)) of
        (Some cost, Some rows, Some cursor) \<Rightarrow>
          if cost > available_permits then Ok (None, src)
          else (case rows of
                  None \<Rightarrow> Ok (Some \<lparr> ex_env_name = name, ex_task_idx = fst task, ex_task_data = Some (snd task), ex_eval_step = None \<rparr>, src)
                | Some table \<Rightarrow>
                    (let (table', cursor') = (if cursor \<ge> length table then (shuffle table, 0) else (table, cursor))
                     in bindE (nth_chk table' cursor') (\<lambda>example.
                          Ok (Some example, src\<lparr> ts_examples := od_set name (Some table') (ts_examples src),
                                 ts_cursors := od_set name (cursor' + 1) (ts_cursors src) \<rparr>))))
      | _ \<Rightarrow> Raise KeyError)"

text \<open>A draw: the environment, the shuffle and generated task in case they are needed, and the permits.\<close>

type_synonym Draw = "string \<times> (Example list \<Rightarrow> Example list) \<times> (int \<times> string) \<times> int"

fun train_pulls :: "Draw list \<Rightarrow> TrainSource \<Rightarrow> ((string \<times> Example) list \<times> TrainSource) result" where
  "train_pulls [] src = Ok ([], src)"
| "train_pulls ((name, shuffle, task, permits) # draws) src =
     bindE (train_next name shuffle task permits src) (\<lambda>(example, src1).
     bindE (train_pulls draws src1) (\<lambda>(examples, src2). Ok ((case example of None \<Rightarrow> [] | Some e \<Rightarrow> [(name, e)]) @ examples, src2)))"

section \<open>Evaluation examples\<close>

record EvalSource =
  el_examples_by_env :: "(string, Example list) odict"
  el_intervals :: "(string, int) odict"
  el_queue :: "Example list"
  el_first_trigger :: bool
  el_skip_first_step :: bool

definition EvalSource_init :: "(string \<times> Example list \<times> int) list \<Rightarrow> bool \<Rightarrow> bool \<Rightarrow> EvalSource" where
  "EvalSource_init envs skip_first_step is_resumed =
     \<lparr> el_examples_by_env = fold (\<lambda>(name, rows, _). od_set name (map (\<lambda>ex. ex\<lparr> ex_env_name := name \<rparr>) rows)) envs [],
       el_intervals = fold (\<lambda>(name, _, interval). od_set name interval) envs [],
       el_queue = [], el_first_trigger = \<not> is_resumed, el_skip_first_step = skip_first_step \<rparr>"

fun fired_envs :: "bool \<Rightarrow> int \<Rightarrow> (string, int) odict \<Rightarrow> string list result" where
  "fired_envs is_first step [] = Ok []"
| "fired_envs is_first step ((name, interval) # rest) =
     (if is_first then bindE (fired_envs is_first step rest) (\<lambda>fired. Ok (name # fired))
      else raise_if (interval = 0) ZeroDivisionError
        (bindE (fired_envs is_first step rest) (\<lambda>fired. Ok (if step mod interval = 0 then name # fired else fired))))"

text \<open>The rounds of \<open>zip_longest\<close> with the exhausted iterators left out.\<close>

function round_robin :: "'a list list \<Rightarrow> 'a list" where
  "round_robin xss = (if \<forall>xs \<in> set xss. xs = [] then [] else concat (map (take 1) xss) @ round_robin (map (drop 1) xss))"
  by pat_completeness auto

lemma sum_list_drop_less: "xs \<in> set xss \<Longrightarrow> xs \<noteq> [] \<Longrightarrow> (\<Sum>ys\<leftarrow>xss. length ys - Suc 0) < (\<Sum>ys\<leftarrow>xss. length ys)"
proof (induction xss)
  case (Cons ys xss)
  have le: "(\<Sum>ys\<leftarrow>xss. length ys - Suc 0) \<le> (\<Sum>ys\<leftarrow>xss. length ys)" by (rule sum_list_mono) simp
  show ?case
  proof (cases "xs = ys")
    case True
    then show ?thesis using Cons.prems(2) le by (cases ys) auto
  next
    case False
    then have "(\<Sum>ys\<leftarrow>xss. length ys - Suc 0) < (\<Sum>ys\<leftarrow>xss. length ys)" using Cons by simp
    then show ?thesis by simp
  qed
qed simp

termination round_robin
  using sum_list_drop_less by (relation "measure (\<lambda>xss. sum_list (map length xss))") (auto simp: comp_def)

declare round_robin.simps [simp del]

definition eval_trigger :: "int \<Rightarrow> EvalSource \<Rightarrow> (string list \<times> EvalSource) result" where
  "eval_trigger step src =
     (let is_first = el_first_trigger src; src1 = src\<lparr> el_first_trigger := False \<rparr>
      in if is_first \<and> el_skip_first_step src then Ok ([], src1)
         else bindE (fired_envs is_first step (el_intervals src)) (\<lambda>fired.
              bindE (traverse (\<lambda>name. case od_get name (el_examples_by_env src) of None \<Rightarrow> Raise KeyError | Some rows \<Rightarrow> Ok rows) fired) (\<lambda>iters.
                Ok (fired, src1\<lparr> el_queue := el_queue src @ map (\<lambda>ex. ex\<lparr> ex_eval_step := Some step \<rparr>) (round_robin iters) \<rparr>))))"

definition eval_next :: "(string, EnvSpec) odict \<Rightarrow> int \<Rightarrow> EvalSource \<Rightarrow> (Example option \<times> EvalSource) result" where
  "eval_next envs available_permits src =
     (case el_queue src of
        [] \<Rightarrow> Ok (None, src)
      | head # rest \<Rightarrow>
          (case od_get (ex_env_name head) envs of
             None \<Rightarrow> Raise KeyError
           | Some env \<Rightarrow> if permit_cost env > available_permits then Ok (None, src) else Ok (Some head, src\<lparr> el_queue := rest \<rparr>)))"

section \<open>Facts\<close>

lemma round_robin_mset: "mset (round_robin xss) = mset (concat xss)"
proof (induction xss rule: round_robin.induct)
  case (1 xss)
  have split: "mset (concat (map (take 1) yss)) + mset (concat (map (drop 1) yss)) = mset (concat yss)" for yss :: "'a list list"
  proof (induction yss)
    case (Cons ys yss)
    have "mset ys = mset (take 1 ys) + mset (drop 1 ys)" by (metis append_take_drop_id mset_append)
    then show ?case using Cons by (simp add: ac_simps)
  qed simp
  show ?case
  proof (cases "\<forall>xs \<in> set xss. xs = []")
    case True
    then have "concat xss = []" by simp
    then show ?thesis using True by (subst round_robin.simps) simp
  next
    case False
    then show ?thesis using 1 split[of xss] by (subst round_robin.simps) simp
  qed
qed

text \<open>The \<open>k\<close>-th round holds the \<open>k\<close>-th example of every environment that still has one.\<close>

lemma round_robin_rounds:
  "\<forall>xs \<in> set xss. length xs \<le> n \<Longrightarrow> round_robin xss = concat (map (\<lambda>k. concat (map (\<lambda>xs. take 1 (drop k xs)) xss)) [0..<n])"
proof (induction n arbitrary: xss)
  case 0
  then show ?case by (subst round_robin.simps) simp
next
  case (Suc n)
  have shift: "[0..<Suc n] = 0 # map Suc [0..<n]" by (metis upt_rec map_Suc_upt zero_less_Suc)
  show ?case
  proof (cases "\<forall>xs \<in> set xss. xs = []")
    case True
    then have "concat (map (\<lambda>xs. take 1 (drop k xs)) xss) = []" for k by auto
    then have "concat (map (\<lambda>k. concat (map (\<lambda>xs. take 1 (drop k xs)) xss)) ks) = []" for ks :: "nat list"
      by (simp only: map_replicate_const concat_replicate_trivial)
    moreover have "round_robin xss = []" using True by (subst round_robin.simps) (rule if_P)
    ultimately show ?thesis by (simp only:)
  next
    case False
    have "\<forall>xs \<in> set (map (drop 1) xss). length xs \<le> n" using Suc.prems by auto
    from Suc.IH[OF this] have "round_robin (map (drop 1) xss) = concat (map (\<lambda>k. concat (map (\<lambda>xs. take 1 (drop (Suc k) xs)) xss)) [0..<n])"
      by (simp add: comp_def)
    moreover have "round_robin xss = concat (map (take 1) xss) @ round_robin (map (drop 1) xss)"
      using False by (subst round_robin.simps) (simp only: if_False)
    ultimately show ?thesis unfolding shift by (simp add: comp_def)
  qed
qed

lemma train_next_rows:
  assumes "train_next name shuffle task permits src = Ok (ex, src')" "od_get e (ts_examples src) = Some (Some table)"
    "od_get e (ts_cursors src) = Some c" "c \<le> length table" "\<And>xs. mset (shuffle xs) = mset xs"
  obtains table' c' where "od_get e (ts_examples src') = Some (Some table')" "od_get e (ts_cursors src') = Some c'" "c' \<le> length table'"
    "(name \<noteq> e \<or> ex = None) \<and> table' = table \<and> c' = c \<or>
     (\<exists>x. name = e \<and> ex = Some x \<and> c < length table \<and> table' = table \<and> c' = Suc c \<and> x = table ! c) \<or>
     (\<exists>x. name = e \<and> ex = Some x \<and> c = length table \<and> mset table' = mset table \<and> c' = 1 \<and> x = table' ! 0)"
proof (cases "name = e \<and> ex \<noteq> None")
  case False
  then have "od_get e (ts_examples src') = Some (Some table)" "od_get e (ts_cursors src') = Some c"
    using assms by (auto simp: train_next_def result_simps split: option.splits if_splits)
  then show thesis using False assms(4) by (intro that) auto
next
  case True
  then show thesis
  proof (cases "c < length table")
    case True
    then show ?thesis using \<open>name = e \<and> ex \<noteq> None\<close> assms
      by (intro that[of table "Suc c"]) (auto simp: train_next_def result_simps split: option.splits if_splits)
  next
    case False
    then have perm: "mset (shuffle table) = mset table" "c = length table" "length (shuffle table) = length table"
      using assms(4,5) by (auto intro: mset_eq_length)
    have "shuffle table \<noteq> []" "od_get e (ts_examples src') = Some (Some (shuffle table))" "od_get e (ts_cursors src') = Some 1"
        "ex = Some (shuffle table ! 0)"
      using \<open>name = e \<and> ex \<noteq> None\<close> assms(1-3) False by (auto simp: train_next_def result_simps split: option.splits if_splits)
    then show ?thesis using \<open>name = e \<and> ex \<noteq> None\<close> perm
      by (intro that[of "shuffle table" 1]) (auto simp: Suc_le_eq)
  qed
qed

definition names_ok :: "TrainSource \<Rightarrow> bool" where
  "names_ok src \<longleftrightarrow> (\<forall>name rows. od_get name (ts_examples src) = Some (Some rows) \<longrightarrow> (\<forall>ex \<in> set rows. ex_env_name ex = name))"

lemma train_next_props:
  assumes run: "train_next name shuffle task permits src = Ok (ex, src')" and names: "names_ok src" and shuffle: "\<And>xs. mset (shuffle xs) = mset xs"
  shows "names_ok src' \<and> ts_env_costs src' = ts_env_costs src \<and> ts_env_names src' = ts_env_names src \<and>
    (\<forall>e. ex = Some e \<longrightarrow> ex_env_name e = name \<and> (\<exists>cost. od_get name (ts_env_costs src) = Some cost \<and> cost \<le> permits))"
proof -
  obtain cost rows cursor where k: "od_get name (ts_env_costs src) = Some cost" "od_get name (ts_examples src) = Some rows"
      "od_get name (ts_cursors src) = Some cursor"
    using run by (auto simp: train_next_def split: option.splits)
  have same: "set (shuffle xs) = set xs" for xs using shuffle by (metis set_mset_mset)
  show ?thesis
  proof (cases "cost > permits \<or> rows = None")
    case True
    then show ?thesis using run names k by (cases rows) (auto simp: train_next_def split: if_splits)
  next
    case False
    then obtain table where rows: "rows = Some table" by auto
    define t' where "t' = (if cursor \<ge> length table then shuffle table else table)"
    define c' where "c' = (if cursor \<ge> length table then 0 else cursor)"
    have pair: "(if cursor \<ge> length table then (shuffle table, 0) else (table, cursor)) = (t', c')" by (simp add: t'_def c'_def)
    have res: "c' < length t'" "ex = Some (t' ! c')"
        "src' = src\<lparr> ts_examples := od_set name (Some t') (ts_examples src), ts_cursors := od_set name (c' + 1) (ts_cursors src) \<rparr>"
      using run False k rows unfolding train_next_def k option.case prod.case rows Let_def pair by (auto simp: result_simps)
    have t': "\<forall>e \<in> set t'. ex_env_name e = name" using names k(2) rows same by (auto simp: names_ok_def t'_def)
    then have "ex_env_name (t' ! c') = name" using res(1) by simp
    moreover have "names_ok src'" using names t' unfolding names_ok_def res(3) by auto
    ultimately show ?thesis using res False k(1) by simp
  qed
qed

definition permuting :: "Draw list \<Rightarrow> bool" where
  "permuting draws \<longleftrightarrow> (\<forall>(name, shuffle, task, permits) \<in> set draws. \<forall>xs. mset (shuffle xs) = mset xs)"

text \<open>What was served of a finite environment so far: whole epochs and the part of the current one before the cursor.\<close>

definition served :: "Example list \<Rightarrow> string \<Rightarrow> TrainSource \<Rightarrow> Example list \<Rightarrow> bool" where
  "served table e src out \<longleftrightarrow> (\<exists>epochs current c. od_get e (ts_examples src) = Some (Some current) \<and> od_get e (ts_cursors src) = Some c \<and>
     c \<le> length current \<and> mset current = mset table \<and> (\<forall>ep \<in> set epochs. mset ep = mset table) \<and> out = concat epochs @ take c current)"

lemma served_next:
  assumes next_ex: "train_next name shuffle task permits src = Ok (ex, src')" and inv: "served table e src out"
    and shuffle: "\<And>xs. mset (shuffle xs) = mset xs"
  shows "served table e src' (out @ (if name = e then (case ex of None \<Rightarrow> [] | Some x \<Rightarrow> [x]) else []))"
proof -
  obtain epochs current c where c: "od_get e (ts_examples src) = Some (Some current)" "od_get e (ts_cursors src) = Some c"
      "c \<le> length current" "mset current = mset table" "\<forall>ep \<in> set epochs. mset ep = mset table" "out = concat epochs @ take c current"
    using inv unfolding served_def by (elim exE conjE) (rule that)
  obtain t' c' where t: "od_get e (ts_examples src') = Some (Some t')" "od_get e (ts_cursors src') = Some c'" "c' \<le> length t'"
    and cases: "(name \<noteq> e \<or> ex = None) \<and> t' = current \<and> c' = c \<or>
     (\<exists>x. name = e \<and> ex = Some x \<and> c < length current \<and> t' = current \<and> c' = Suc c \<and> x = current ! c) \<or>
     (\<exists>x. name = e \<and> ex = Some x \<and> c = length current \<and> mset t' = mset current \<and> c' = 1 \<and> x = t' ! 0)"
    by (rule train_next_rows[OF next_ex c(1-3) shuffle])
  from cases consider (keep) "name \<noteq> e \<or> ex = None" "t' = current" "c' = c"
    | (step) x where "name = e" "ex = Some x" "c < length current" "t' = current" "c' = Suc c" "x = current ! c"
    | (epoch) x where "name = e" "ex = Some x" "c = length current" "mset t' = mset current" "c' = 1" "x = t' ! 0"
    by blast
  then show ?thesis
  proof cases
    case keep
    then show ?thesis using t c unfolding served_def by (intro exI[of _ epochs] exI[of _ current] exI[of _ c]) auto
  next
    case step
    then show ?thesis using t c unfolding served_def
      by (intro exI[of _ epochs] exI[of _ current] exI[of _ "Suc c"]) (simp add: take_Suc_conv_app_nth)
  next
    case epoch
    then have "take 1 t' = [x]" using t(3) by (cases t') auto
    then show ?thesis using epoch t c unfolding served_def
      by (intro exI[of _ "epochs @ [current]"] exI[of _ t'] exI[of _ 1]) simp
  qed
qed

lemma served_pulls:
  assumes "train_pulls draws src = Ok (out, src')" "served table e src got" "permuting draws"
  shows "served table e src' (got @ map snd (filter (\<lambda>(n, _). n = e) out))"
  using assms
proof (induction draws arbitrary: src out got)
  case (Cons d draws)
  obtain name shuffle task permits where d: "d = (name, shuffle, task, permits)" by (cases d)
  obtain ex src1 rest where run: "train_next name shuffle task permits src = Ok (ex, src1)" "train_pulls draws src1 = Ok (rest, src')"
      "out = (case ex of None \<Rightarrow> [] | Some x \<Rightarrow> [(name, x)]) @ rest"
    using Cons.prems(1) unfolding d by (auto simp: result_simps)
  have shuffle: "mset (shuffle xs) = mset xs" for xs using Cons.prems(3) by (auto simp: permuting_def d)
  have "permuting draws" using Cons.prems(3) by (simp add: permuting_def)
  from Cons.IH[OF run(2) served_next[OF run(1) Cons.prems(2) shuffle] this]
  show ?case unfolding run(3) by (auto split: option.splits)
qed simp

lemma add_envs_keep:
  "add_envs shuffle envs src = Ok src' \<Longrightarrow> e \<notin> es_name ` set envs \<Longrightarrow>
     od_get e (ts_examples src') = od_get e (ts_examples src) \<and> od_get e (ts_cursors src') = od_get e (ts_cursors src)"
  by (induction envs arbitrary: src) (auto simp: Let_def result_simps)

lemma add_envs_rows:
  assumes "add_envs shuffle envs src = Ok src'" "env \<in> set envs" "distinct (map es_name envs)" "env_rows env = Some table"
  shows "od_get (es_name env) (ts_examples src') = Some (Some (shuffle table)) \<and> od_get (es_name env) (ts_cursors src') = Some 0"
  using assms
proof (induction envs arbitrary: src)
  case (Cons x envs)
  note run = Cons.prems(1)
  show ?case
  proof (cases "env = x")
    case True
    then have "es_name env \<notin> es_name ` set envs" using Cons.prems(3) by auto
    then show ?thesis using run True Cons.prems(4) by (auto simp: Let_def result_simps dest!: add_envs_keep)
  next
    case False
    then show ?thesis using Cons by (auto simp: Let_def result_simps)
  qed
qed simp

text \<open>
  C21: Whatever environments are drawn and in whatever order, the examples served of a finite environment run through its task
  table in whole epochs: each epoch is a permutation of the table and only the last one may be incomplete.
\<close>

theorem train_source_epochs:
  assumes "TrainSource_init shuffle envs = Ok src" "\<forall>xs. mset (shuffle xs) = mset xs" "distinct (map es_name envs)"
    and "env \<in> set envs" "env_rows env = Some table"
    and "train_pulls draws src = Ok (out, src')" "permuting draws"
  shows "\<exists>epochs current n. map snd (filter (\<lambda>(name, _). name = es_name env) out) = concat epochs @ take n current \<and>
    mset current = mset table \<and> (\<forall>ep \<in> set epochs. mset ep = mset table)"
proof -
  have run: "add_envs shuffle envs \<lparr> ts_env_names = map es_name envs, ts_weights = map es_ratio envs, ts_examples = [], ts_cursors = [],
      ts_env_costs = [] \<rparr> = Ok src" using assms(1) by (simp add: TrainSource_init_def result_simps)
  have "od_get (es_name env) (ts_examples src) = Some (Some (shuffle table)) \<and> od_get (es_name env) (ts_cursors src) = Some 0"
    by (rule add_envs_rows[OF run assms(4,3,5)])
  then have "served table (es_name env) src []" using assms(2) unfolding served_def
    by (intro exI[of _ "[]"] exI[of _ "shuffle table"] exI[of _ 0]) simp
  from served_pulls[OF assms(6) this assms(7)] show ?thesis unfolding served_def append_Nil
    by (elim exE conjE) (intro exI conjI)
qed

definition table_env :: EnvSpec where
  "table_env = \<lparr> es_name = ''a'', es_tasks = IndexRange 2, es_group_size = 2, es_requires_group_scoring = False, es_ratio = 1, es_live = True \<rparr>"

theorem train_source_epochs_witness:
  "\<exists>src out src' epochs current n. TrainSource_init rev [table_env] = Ok src \<and>
     train_pulls (replicate 3 (''a'', rev, (0, []), 4)) src = Ok (out, src') \<and> map (ex_task_idx \<circ> snd) out = [1, 0, 0] \<and>
     map snd (filter (\<lambda>(name, _). name = ''a'') out) = concat epochs @ take n current"
proof -
  define rows where "rows = map (\<lambda>i. \<lparr> ex_env_name = ''a'', ex_task_idx = int i, ex_task_data = None, ex_eval_step = None \<rparr>) [0..<2]"
  have rows: "env_rows table_env = Some rows" by (simp add: env_rows_def table_env_def rows_def)
  obtain src where src: "TrainSource_init rev [table_env] = Ok src"
    by (simp add: TrainSource_init_def env_rows_def table_env_def numeral_2_eq_2)
  obtain out src' where run: "train_pulls (replicate 3 (''a'', rev, (0, []), 4)) src = Ok (out, src')" "map (ex_task_idx \<circ> snd) out = [1, 0, 0]"
    using src by (auto simp: TrainSource_init_def env_rows_def table_env_def numeral_2_eq_2 numeral_3_eq_3 train_next_def permit_cost_def nth_chk_def
        result_simps)
  have "permuting (replicate 3 (''a'', rev, (0, []), 4))" by (simp add: permuting_def)
  from train_source_epochs[OF src _ _ _ rows run(1) this]
  obtain epochs current n where "map snd (filter (\<lambda>(name, _). name = ''a'') out) = concat epochs @ take n current"
    by (auto simp: table_env_def)
  with src run show ?thesis by - (intro exI conjI; assumption)
qed

text \<open>
  A trigger fires the environments whose interval divides the step (all of them at the first trigger, none when that one is
  skipped), and queues behind what was pending every example of the fired environments exactly once, stamped with the
  step, in rounds: the \<open>k\<close>-th round holds the \<open>k\<close>-th example of each environment that has one.
\<close>

lemma eval_trigger_rounds:
  assumes "eval_trigger step src = Ok (fired, src')" "\<not> (el_first_trigger src \<and> el_skip_first_step src)"
    and "\<forall>name \<in> set (od_keys (el_intervals src)). \<exists>rows. od_get name (el_examples_by_env src) = Some rows \<and> length rows \<le> n"
  shows "fired = map fst (filter (\<lambda>(name, interval). el_first_trigger src \<or> step mod interval = 0) (el_intervals src)) \<and>
    (let rows = map (\<lambda>name. the (od_get name (el_examples_by_env src))) fired; stamp = (\<lambda>ex. ex\<lparr> ex_eval_step := Some step \<rparr>)
     in el_queue src' = el_queue src @ map stamp (concat (map (\<lambda>k. concat (map (\<lambda>xs. take 1 (drop k xs)) rows)) [0..<n])) \<and>
        mset (el_queue src') = mset (el_queue src) + mset (map stamp (concat rows))) \<and> \<not> el_first_trigger src'"
proof -
  have fired_filter: "fired_envs is_first step ivs = Ok fs \<Longrightarrow> fs = map fst (filter (\<lambda>(name, interval). is_first \<or> step mod interval = 0) ivs)"
    for is_first ivs fs by (induction is_first step ivs arbitrary: fs rule: fired_envs.induct) (auto simp: result_simps split: if_splits)
  obtain iters where run: "fired_envs (el_first_trigger src) step (el_intervals src) = Ok fired"
      "traverse (\<lambda>name. case od_get name (el_examples_by_env src) of None \<Rightarrow> Raise KeyError | Some rows \<Rightarrow> Ok rows) fired = Ok iters"
      "src' = src\<lparr> el_first_trigger := False, el_queue := el_queue src @ map (\<lambda>ex. ex\<lparr> ex_eval_step := Some step \<rparr>) (round_robin iters) \<rparr>"
    using assms(1,2) by (auto simp: eval_trigger_def Let_def result_simps)
  have fired: "fired = map fst (filter (\<lambda>(name, interval). el_first_trigger src \<or> step mod interval = 0) (el_intervals src))"
    by (rule fired_filter[OF run(1)])
  have "list_all2 (\<lambda>name rows. od_get name (el_examples_by_env src) = Some rows) fired iters"
    using run(2) unfolding traverse_Inr_iff by (rule list_all2_mono) (auto split: option.splits)
  then have iters: "iters = map (\<lambda>name. the (od_get name (el_examples_by_env src))) fired"
    by (induction rule: list_all2_induct) auto
  have "\<forall>xs \<in> set iters. length xs \<le> n" using assms(3) unfolding iters fired by fastforce
  from round_robin_rounds[OF this] have rounds: "round_robin iters = concat (map (\<lambda>k. concat (map (\<lambda>xs. take 1 (drop k xs)) iters)) [0..<n])" .
  have "mset (el_queue src') = mset (el_queue src) + mset (map (\<lambda>ex. ex\<lparr> ex_eval_step := Some step \<rparr>) (concat iters))"
    unfolding run(3) by (simp add: round_robin_mset)
  then show ?thesis using fired rounds unfolding Let_def iters[symmetric] run(3) by simp
qed

definition two_evals :: EvalSource where
  "two_evals = EvalSource_init
     [(''a'', map (\<lambda>i. \<lparr> ex_env_name = [], ex_task_idx = i, ex_task_data = None, ex_eval_step = None \<rparr>) [0, 1], 2),
      (''b'', map (\<lambda>i. \<lparr> ex_env_name = [], ex_task_idx = i, ex_task_data = None, ex_eval_step = None \<rparr>) [7], 3)] False False"

lemma eval_trigger_rounds_witness:
  "\<exists>src'. eval_trigger 1 two_evals = Ok ([''a'', ''b''], src') \<and> map ex_task_idx (el_queue src') = [0, 7, 1]"
proof -
  obtain src' where run: "eval_trigger 1 two_evals = Ok ([''a'', ''b''], src')"
    by (simp add: eval_trigger_def two_evals_def EvalSource_init_def)
  have "el_queue src' = map (\<lambda>ex. ex\<lparr> ex_eval_step := Some 1 \<rparr>) (concat (map (\<lambda>k. concat (map (\<lambda>xs. take 1 (drop k xs))
      (map (\<lambda>name. the (od_get name (el_examples_by_env two_evals))) [''a'', ''b'']))) [0..<2]))"
    using eval_trigger_rounds[OF run, of 2] by (simp add: two_evals_def EvalSource_init_def Let_def)
  then show ?thesis using run by (simp add: two_evals_def EvalSource_init_def numeral_2_eq_2)
qed

end
