(* ===== verification/Dispatcher.thy ===== *)
theory Dispatcher
  imports Sources
begin

text \<open>
  \<open>RolloutDispatcher\<close> of \<^verbatim>\<open>orchestrator/dispatcher.py\<close>. Its coroutines (the dispatch loop and \<open>on_version_pending\<close>, which the
  weight watcher runs) are cut at the awaits where they can be suspended; what lies between two cuts is one atomic operation, and
  the program counters \<open>dp_loop\<close> and \<open>dp_drop\<close> say where each is suspended. Group objects are shared: \<open>dp_store\<close> holds
  them by group id and \<open>dp_groups\<close> lists the ids registered in \<open>self.groups\<close>. Fresh ids are counted up, as
  \<open>uuid4\<close> and new tasks are distinct. What an environment task returns, the client chosen for a group, and the draws
  of the train source are inputs. \<open>dp_delivered\<close> (what consumers took from \<open>out_q\<close>) and \<open>dp_abandoned\<close> (rollouts given up
  without a marker, per group) are ghosts.
\<close>

datatype RolloutKind = Train | Eval

datatype DispatcherMode = PREFER_TRAIN | PREFER_EVAL

record GroupState =
  gs_kind :: RolloutKind
  gs_env_name :: string
  gs_task_idx :: int
  gs_rollouts_to_schedule :: int
  gs_target_rollouts :: int
  gs_task_data :: "string option"
  gs_emitted :: int
  gs_eval_step :: "int option"
  gs_pinned_client :: "nat option"
  gs_policy_version_at_start :: int

record InflightRollout =
  if_kind :: RolloutKind
  if_env_name :: string
  if_group_id :: nat
  if_policy_version :: int
  if_rollout_count :: int
  if_client_config :: "nat option"
  if_off_policy_steps :: int
  if_eval_step :: "int option"

text \<open>What the dispatcher reads and writes of a rollout; an error is the type name of its \<open>vf.Error\<close>.\<close>

record TaskRollout =
  tr_task_idx :: int
  tr_task_data :: "string option"
  tr_errors :: "string list"
  tr_num_turns :: int
  tr_kind :: RolloutKind
  tr_env_name :: string
  tr_group_id :: nat
  tr_policy_version :: int
  tr_off_policy_steps :: int
  tr_eval_step :: "int option"

text \<open>\<open>task.result()\<close>\<close>

datatype TaskOutcome = Returned "TaskRollout list" | TaskCancelled | UnsupportedEpisode | TaskFailed string

text \<open>
  Where the dispatch loop is suspended: at the top of \<open>fill_inflight\<close>'s loop, choosing a client for a group, reserving permits
  (of \<open>n\<close> needed, \<open>k\<close> taken), waiting for tasks, working through the completed tasks, blocked on a full \<open>out_q\<close> with a stamped
  rollout in hand, or ended.
\<close>

datatype LoopPc =
    LoopTop
  | LoopSelecting nat
  | LoopAcquiring nat int int
  | LoopWaiting
  | LoopHandling "nat list"
  | LoopBlocked bool TaskRollout "(InflightRollout \<times> TaskRollout) list" "nat list"
  | LoopFailed py_exn

text \<open>
  Where \<open>on_version_pending\<close> is suspended: between two stale groups, or blocked on a full \<open>out_q\<close> while it emits the markers of one,
  with what it has to record afterwards.
\<close>

datatype DropPc =
    DropIdle
  | DropGroups "nat list"
  | DropBlocked bool TaskRollout "(InflightRollout \<times> TaskRollout) list" "(RolloutKind \<times> string \<times> int) option" "nat list"
  | DropFailed py_exn

record Dispatcher =
  dp_train_envs :: "(string, EnvSpec) odict"
  dp_eval_envs :: "(string, EnvSpec) odict option"
  dp_train_source :: TrainSource
  dp_eval_source :: "EvalSource option"
  dp_policy_version :: int
  dp_max_off_policy_steps :: int
  dp_max_inflight :: int
  dp_inflight_permits :: int
  dp_rate_limited :: bool
  dp_inflight :: "(nat, InflightRollout) odict"
  dp_store :: "nat \<Rightarrow> GroupState"
  dp_groups :: "nat list"
  dp_out_q :: "TaskRollout list"
  dp_mode :: DispatcherMode
  dp_train_scheduling_disabled :: bool
  dp_cancelled :: "(RolloutKind \<times> string, int) odict"
  dp_errored :: "(RolloutKind \<times> string, int) odict"
  dp_dispatch_allowed :: bool
  dp_next_group :: nat
  dp_next_task :: nat
  dp_loop :: LoopPc
  dp_drop :: DropPc
  dp_delivered :: "TaskRollout list"
  dp_abandoned :: "nat \<Rightarrow> int"

definition no_group :: GroupState where
  "no_group = \<lparr> gs_kind = Train, gs_env_name = [], gs_task_idx = 0, gs_rollouts_to_schedule = 0, gs_target_rollouts = 0, gs_task_data = None,
     gs_emitted = 0, gs_eval_step = None, gs_pinned_client = None, gs_policy_version_at_start = 0 \<rparr>"

definition Dispatcher_init :: "(string, EnvSpec) odict \<Rightarrow> (string, EnvSpec) odict option \<Rightarrow> TrainSource \<Rightarrow> EvalSource option \<Rightarrow> int \<Rightarrow> int \<Rightarrow> int \<Rightarrow>
    bool \<Rightarrow> Dispatcher" where
  "Dispatcher_init train_envs eval_envs train_source eval_source policy_version max_inflight_rollouts max_off_policy_steps rate_limited =
     \<lparr> dp_train_envs = train_envs, dp_eval_envs = eval_envs, dp_train_source = train_source, dp_eval_source = eval_source,
       dp_policy_version = policy_version, dp_max_off_policy_steps = max_off_policy_steps, dp_max_inflight = max_inflight_rollouts,
       dp_inflight_permits = 0, dp_rate_limited = rate_limited, dp_inflight = [], dp_store = (\<lambda>_. no_group), dp_groups = [], dp_out_q = [],
       dp_mode = PREFER_TRAIN, dp_train_scheduling_disabled = False, dp_cancelled = [], dp_errored = [], dp_dispatch_allowed = True,
       dp_next_group = 0, dp_next_task = 0, dp_loop = LoopTop, dp_drop = DropIdle, dp_delivered = [], dp_abandoned = (\<lambda>_. 0) \<rparr>"

section \<open>Views\<close>

definition out_maxsize :: "Dispatcher \<Rightarrow> int" where
  "out_maxsize d = max 8 (dp_max_inflight d)"

definition out_full :: "Dispatcher \<Rightarrow> bool" where
  "out_full d \<longleftrightarrow> int (length (dp_out_q d)) \<ge> out_maxsize d"

definition inflight_count :: "RolloutKind \<Rightarrow> Dispatcher \<Rightarrow> int" where
  "inflight_count kind d = sum_list (map if_rollout_count (filter (\<lambda>m. if_kind m = kind) (od_values (dp_inflight d))))"

definition available_permits :: "Dispatcher \<Rightarrow> int" where
  "available_permits d = dp_max_inflight d - dp_inflight_permits d"

definition bump_by :: "'k \<Rightarrow> int \<Rightarrow> ('k, int) odict \<Rightarrow> ('k, int) odict" where
  "bump_by k n counts = od_set k ((case od_get k counts of None \<Rightarrow> 0 | Some c \<Rightarrow> c) + n) counts"

definition inflight_by_env :: "Dispatcher \<Rightarrow> (RolloutKind \<times> string, int) odict" where
  "inflight_by_env d = fold (\<lambda>m. bump_by (if_kind m, if_env_name m) (if_rollout_count m)) (od_values (dp_inflight d)) []"

definition queued_eval_examples :: "Dispatcher \<Rightarrow> nat" where
  "queued_eval_examples d = (case dp_eval_source d of None \<Rightarrow> 0 | Some src \<Rightarrow> length (el_queue src))"

definition eval_has_work :: "Dispatcher \<Rightarrow> bool" where
  "eval_has_work d \<longleftrightarrow> queued_eval_examples d > 0 \<or>
     list_ex (\<lambda>g. gs_kind (dp_store d g) = Eval \<and> gs_rollouts_to_schedule (dp_store d g) > 0) (dp_groups d)"

definition is_idle :: "Dispatcher \<Rightarrow> bool" where
  "is_idle d \<longleftrightarrow> dp_inflight d = [] \<and> \<not> eval_has_work d \<and> dp_out_q d = []"

definition off_policy_levels :: "Dispatcher \<Rightarrow> int list" where
  "off_policy_levels d = map if_off_policy_steps (filter (\<lambda>m. if_kind m = Train) (od_values (dp_inflight d)))"

definition max_off_policy_level :: "Dispatcher \<Rightarrow> int" where
  "max_off_policy_level d = (if off_policy_levels d \<noteq> [] then Max (set (off_policy_levels d)) else 0)"

definition mean_off_policy_level :: "Dispatcher \<Rightarrow> real" where
  "mean_off_policy_level d =
     (if off_policy_levels d \<noteq> [] then real_of_int (sum_list (off_policy_levels d)) / real (length (off_policy_levels d)) else 0)"

definition gauges :: "Dispatcher \<Rightarrow> (string \<times> real) list" where
  "gauges d = [(''dispatcher/inflight_train'', of_int (inflight_count Train d)), (''dispatcher/inflight_eval'', of_int (inflight_count Eval d)),
     (''dispatcher/queued/eval'', of_nat (queued_eval_examples d)), (''dispatcher/mode'', if dp_mode d = PREFER_EVAL then 1 else 0),
     (''dispatcher/groups_in_flight'', of_nat (length (dp_groups d))), (''dispatcher/off_policy_level_max'', of_int (max_off_policy_level d)),
     (''dispatcher/off_policy_level_mean'', mean_off_policy_level d)]"

section \<open>Metrics\<close>

definition record_cancellation :: "RolloutKind \<Rightarrow> string \<Rightarrow> int \<Rightarrow> Dispatcher \<Rightarrow> Dispatcher" where
  "record_cancellation kind env_name n d = d\<lparr> dp_cancelled := bump_by (kind, env_name) n (dp_cancelled d) \<rparr>"

definition record_error :: "RolloutKind \<Rightarrow> string \<Rightarrow> Dispatcher \<Rightarrow> Dispatcher" where
  "record_error kind env_name d = d\<lparr> dp_errored := bump_by (kind, env_name) 1 (dp_errored d) \<rparr>"

definition counter :: "(RolloutKind \<times> string, int) odict \<Rightarrow> RolloutKind \<Rightarrow> string \<Rightarrow> int" where
  "counter counts kind env = (case od_get (kind, env) counts of None \<Rightarrow> 0 | Some n \<Rightarrow> n)"

text \<open>\<open>drained\<close>: totals per kind (train, then eval), then per environment, as pairs (cancelled, errored); the counters are cleared.\<close>

definition drained :: "string list \<Rightarrow> string list \<Rightarrow> Dispatcher \<Rightarrow> ((int \<times> int) list \<times> (string \<times> int \<times> int) list) \<times> Dispatcher" where
  "drained train_envs eval_envs d =
     (let total = (\<lambda>counts kind envs. sum_list (map (counter counts kind) envs));
          per_env = (\<lambda>counts env. counter counts Train env + counter counts Eval env)
      in ((map (\<lambda>(kind, envs). (total (dp_cancelled d) kind envs, total (dp_errored d) kind envs)) [(Train, train_envs), (Eval, eval_envs)],
           map (\<lambda>env. (env, per_env (dp_cancelled d) env, per_env (dp_errored d) env)) (remdups (train_envs @ eval_envs))),
          d\<lparr> dp_cancelled := [], dp_errored := [] \<rparr>))"

section \<open>Emission\<close>

definition failure_rollout :: "GroupState option \<Rightarrow> int \<Rightarrow> bool \<Rightarrow> TaskRollout" where
  "failure_rollout grp task_idx cancelled =
     \<lparr> tr_task_idx = task_idx, tr_task_data = (case grp of None \<Rightarrow> None | Some g \<Rightarrow> gs_task_data g),
       tr_errors = (if cancelled then [''Cancelled''] else []), tr_num_turns = 0, tr_kind = Train, tr_env_name = [], tr_group_id = 0,
       tr_policy_version = 0, tr_off_policy_steps = 0, tr_eval_step = None \<rparr>"

definition release :: "int \<Rightarrow> Dispatcher \<Rightarrow> Dispatcher" where
  "release n d = d\<lparr> dp_inflight_permits := dp_inflight_permits d - n \<rparr>"

text \<open>\<open>emit_rollout\<close> up to the \<open>put\<close>: \<open>has_group\<close> says whether the caller holds the group object.\<close>

definition emit_stamp :: "InflightRollout \<Rightarrow> bool \<Rightarrow> TaskRollout \<Rightarrow> Dispatcher \<Rightarrow> (TaskRollout \<times> Dispatcher) result" where
  "emit_stamp meta has_group r d =
     (let gid = if_group_id meta; g = dp_store d gid;
          eval_step = (if has_group then gs_eval_step g else if_eval_step meta);
          policy_version = (if has_group then gs_policy_version_at_start g else if_policy_version meta);
          g' = g\<lparr> gs_emitted := gs_emitted g + 1 \<rparr>;
          d' = (if has_group
                then d\<lparr> dp_store := (dp_store d)(gid := g'),
                        dp_groups := (if gs_emitted g' \<ge> gs_target_rollouts g' then filter (\<lambda>x. x \<noteq> gid) (dp_groups d) else dp_groups d) \<rparr>
                else d);
          r' = r\<lparr> tr_kind := if_kind meta, tr_env_name := if_env_name meta, tr_group_id := gid, tr_policy_version := policy_version,
                  tr_off_policy_steps := if_off_policy_steps meta \<rparr>
      in if if_kind meta = Eval
         then raise_if (eval_step = None) (AssertionError ''eval rollout missing eval_step'') (Ok (r'\<lparr> tr_eval_step := eval_step \<rparr>, d'))
         else Ok (r', d'))"

datatype Emission = Emitted | Blocked TaskRollout "(InflightRollout \<times> TaskRollout) list"

text \<open>
  A \<open>for\<close> loop around \<open>emit_rollout\<close>: each rollout is prepared, stamped and put; it runs on while \<open>out_q\<close> has room, and a \<open>put\<close> into a
  full queue suspends it.
\<close>

fun emit_all :: "(InflightRollout \<Rightarrow> TaskRollout \<Rightarrow> Dispatcher \<Rightarrow> TaskRollout \<times> Dispatcher) \<Rightarrow> bool \<Rightarrow> (InflightRollout \<times> TaskRollout) list \<Rightarrow>
    Dispatcher \<Rightarrow> (Emission \<times> Dispatcher) result" where
  "emit_all prepare has_group [] d = Ok (Emitted, d)"
| "emit_all prepare has_group ((meta, r) # rest) d =
     (let (r1, d1) = prepare meta r d in
      bindE (emit_stamp meta has_group r1 d1) (\<lambda>(r2, d2).
        if out_full d2 then Ok (Blocked r2 rest, d2) else emit_all prepare has_group rest (d2\<lparr> dp_out_q := dp_out_q d2 @ [r2] \<rparr>)))"

text \<open>An empty trajectory becomes an error, and errors are counted.\<close>

definition settle_result :: "InflightRollout \<Rightarrow> TaskRollout \<Rightarrow> Dispatcher \<Rightarrow> TaskRollout \<times> Dispatcher" where
  "settle_result meta r d =
     (let r1 = (if tr_errors r = [] \<and> tr_num_turns r = 0 then r\<lparr> tr_errors := [''EmptyTrajectory''] \<rparr> else r)
      in (r1, if tr_errors r1 \<noteq> [] then record_error (if_kind meta) (if_env_name meta) d else d))"

definition keep_marker :: "InflightRollout \<Rightarrow> TaskRollout \<Rightarrow> Dispatcher \<Rightarrow> TaskRollout \<times> Dispatcher" where
  "keep_marker meta r d = (r, d)"

definition loop_emission :: "bool \<Rightarrow> nat list \<Rightarrow> (Emission \<times> Dispatcher) result \<Rightarrow> Dispatcher \<Rightarrow> Dispatcher" where
  "loop_emission has_group tasks res d0 =
     (case res of
        Inl e \<Rightarrow> d0\<lparr> dp_loop := LoopFailed e \<rparr>
      | Inr (Emitted, d) \<Rightarrow> d\<lparr> dp_loop := LoopHandling tasks \<rparr>
      | Inr (Blocked r rest, d) \<Rightarrow> d\<lparr> dp_loop := LoopBlocked has_group r rest tasks \<rparr>)"

text \<open>\<open>handle_completed_rollout\<close> of the first task in hand, the others being \<open>tasks\<close>.\<close>

definition handle_completed_rollout :: "nat \<Rightarrow> nat list \<Rightarrow> TaskOutcome \<Rightarrow> Dispatcher \<Rightarrow> Dispatcher" where
  "handle_completed_rollout task tasks outcome d =
     (case od_get task (dp_inflight d) of
        None \<Rightarrow> d\<lparr> dp_loop := LoopHandling tasks \<rparr>
      | Some meta \<Rightarrow>
          (let d1 = release (if_rollout_count meta) (d\<lparr> dp_inflight := od_del task (dp_inflight d) \<rparr>);
               gid = if_group_id meta; has_group = (gid \<in> set (dp_groups d)); grp = (if has_group then Some (dp_store d gid) else None);
               lost = d1\<lparr> dp_abandoned := (dp_abandoned d1)(gid := dp_abandoned d1 gid + if_rollout_count meta) \<rparr>;
               send = (\<lambda>rollouts. loop_emission has_group tasks (emit_all settle_result has_group (map (Pair meta) rollouts) d1) d1)
           in case outcome of
                Returned rollouts \<Rightarrow> send rollouts
              | TaskCancelled \<Rightarrow> lost\<lparr> dp_loop := LoopHandling tasks \<rparr>
              | UnsupportedEpisode \<Rightarrow> lost\<lparr> dp_loop := LoopFailed (ValueError ''UnsupportedEpisodeError'') \<rparr>
              | TaskFailed exn \<Rightarrow>
                  send (replicate (nat (if_rollout_count meta))
                    ((failure_rollout grp (case grp of None \<Rightarrow> -1 | Some g \<Rightarrow> gs_task_idx g) False)\<lparr> tr_errors := [exn] \<rparr>))))"

section \<open>Scheduling\<close>

definition group_envs :: "RolloutKind \<Rightarrow> Dispatcher \<Rightarrow> (string, EnvSpec) odict option" where
  "group_envs kind d = (case kind of Train \<Rightarrow> Some (dp_train_envs d) | Eval \<Rightarrow> dp_eval_envs d)"

definition env_get :: "string \<Rightarrow> (string, EnvSpec) odict \<Rightarrow> EnvSpec result" where
  "env_get name envs = (case od_get name envs of None \<Rightarrow> Raise KeyError | Some env \<Rightarrow> Ok env)"

text \<open>The loop of \<open>try_schedule\<close> over the open groups.\<close>

fun continue_group :: "RolloutKind \<Rightarrow> (string, EnvSpec) odict \<Rightarrow> nat list \<Rightarrow> Dispatcher \<Rightarrow> nat option result" where
  "continue_group kind envs [] d = Ok None"
| "continue_group kind envs (gid # gids) d =
     (let grp = dp_store d gid in
      if gs_kind grp \<noteq> kind \<or> gs_rollouts_to_schedule grp \<le> 0 then continue_group kind envs gids d
      else bindE (env_get (gs_env_name grp) envs) (\<lambda>env.
        if (if es_requires_group_scoring env then gs_rollouts_to_schedule grp else 1) \<le> available_permits d then Ok (Some gid)
        else continue_group kind envs gids d))"

definition next_fresh_group :: "Draw \<Rightarrow> RolloutKind \<Rightarrow> (string, EnvSpec) odict \<Rightarrow> Dispatcher \<Rightarrow> (GroupState option \<times> Dispatcher) result" where
  "next_fresh_group draw kind envs d =
     bindE (case kind of
         Train \<Rightarrow> (case draw of (name, shuffle, task, _) \<Rightarrow>
             bindE (train_next name shuffle task (available_permits d) (dp_train_source d)) (\<lambda>(ex, src). Ok (ex, d\<lparr> dp_train_source := src \<rparr>)))
       | Eval \<Rightarrow> (case dp_eval_source d of
             None \<Rightarrow> Raise (AssertionError ''self.eval_source is not None'')
           | Some source \<Rightarrow> bindE (eval_next envs (available_permits d) source) (\<lambda>(ex, src). Ok (ex, d\<lparr> dp_eval_source := Some src \<rparr>)))) (\<lambda>(ex, d1).
     case ex of
       None \<Rightarrow> Ok (None, d1)
     | Some example \<Rightarrow>
         bindE (env_get (ex_env_name example) envs) (\<lambda>env.
           Ok (Some \<lparr> gs_kind = kind, gs_env_name = ex_env_name example, gs_task_idx = ex_task_idx example,
                 gs_rollouts_to_schedule = es_group_size env, gs_target_rollouts = es_group_size env, gs_task_data = ex_task_data example,
                 gs_emitted = 0, gs_eval_step = (if kind = Eval then ex_eval_step example else None), gs_pinned_client = None,
                 gs_policy_version_at_start = dp_policy_version d1 \<rparr>, d1)))"

text \<open>The end of \<open>schedule_group_rollout\<close>: the task is created and the loop goes on.\<close>

definition launch :: "nat \<Rightarrow> int \<Rightarrow> Dispatcher \<Rightarrow> Dispatcher" where
  "launch gid permits d =
     (let grp = dp_store d gid in
      d\<lparr> dp_inflight := od_set (dp_next_task d)
           \<lparr> if_kind = gs_kind grp, if_env_name = gs_env_name grp, if_group_id = gid, if_policy_version = gs_policy_version_at_start grp,
             if_rollout_count = permits, if_client_config = gs_pinned_client grp, if_off_policy_steps = 0, if_eval_step = gs_eval_step grp \<rparr>
           (dp_inflight d),
         dp_next_task := Suc (dp_next_task d), dp_loop := LoopTop \<rparr>)"

text \<open>
  The middle of \<open>schedule_group_rollout\<close>, with the client pinned: the group's counter is lowered, then the permits are acquired, at
  once or one by one behind the rate limiter.
\<close>

definition claim_group :: "nat \<Rightarrow> Dispatcher \<Rightarrow> Dispatcher result" where
  "claim_group gid d =
     (let grp = dp_store d gid in
      case group_envs (gs_kind grp) d of
        None \<Rightarrow> Ok (d\<lparr> dp_loop := LoopWaiting \<rparr>)
      | Some envs \<Rightarrow>
          bindE (env_get (gs_env_name grp) envs) (\<lambda>env.
          let permits = (if es_requires_group_scoring env then gs_rollouts_to_schedule grp else 1);
              left = (if es_requires_group_scoring env then 0 else gs_rollouts_to_schedule grp - 1);
              d1 = d\<lparr> dp_store := (dp_store d)(gid := grp\<lparr> gs_rollouts_to_schedule := left \<rparr>) \<rparr>
          in Ok (if dp_rate_limited d1 then d1\<lparr> dp_loop := LoopAcquiring gid permits 0 \<rparr>
                 else launch gid permits (d1\<lparr> dp_inflight_permits := dp_inflight_permits d1 + max 0 permits \<rparr>))))"

definition schedule_group_rollout :: "nat \<Rightarrow> Dispatcher \<Rightarrow> Dispatcher result" where
  "schedule_group_rollout gid d =
     (if gs_pinned_client (dp_store d gid) = None then Ok (d\<lparr> dp_loop := LoopSelecting gid \<rparr>) else claim_group gid d)"

text \<open>\<open>schedule_group_rollout\<close> resumed with the client that was selected.\<close>

definition client_selected :: "nat \<Rightarrow> nat \<Rightarrow> Dispatcher \<Rightarrow> Dispatcher result" where
  "client_selected gid client d =
     (if gid \<notin> set (dp_groups d) then Ok (d\<lparr> dp_loop := LoopWaiting \<rparr>)
      else claim_group gid (d\<lparr> dp_store := (dp_store d)(gid := (dp_store d gid)\<lparr> gs_pinned_client := Some client \<rparr>) \<rparr>))"

text \<open>One turn of the loop in \<open>acquire\<close>, then the launch.\<close>

definition acquire_next :: "nat \<Rightarrow> int \<Rightarrow> int \<Rightarrow> Dispatcher \<Rightarrow> Dispatcher" where
  "acquire_next gid permits taken d =
     (if taken < permits
      then d\<lparr> dp_inflight_permits := dp_inflight_permits d + 1, dp_loop := LoopAcquiring gid permits (taken + 1) \<rparr>
      else launch gid permits d)"

definition try_schedule :: "Draw \<Rightarrow> RolloutKind \<Rightarrow> Dispatcher \<Rightarrow> Dispatcher result" where
  "try_schedule draw kind d =
     (if kind = Train \<and> dp_train_scheduling_disabled d then Ok (d\<lparr> dp_loop := LoopWaiting \<rparr>)
      else case group_envs kind d of
        None \<Rightarrow> Ok (d\<lparr> dp_loop := LoopWaiting \<rparr>)
      | Some envs \<Rightarrow>
          bindE (continue_group kind envs (dp_groups d) d) (\<lambda>found.
          case found of
            Some gid \<Rightarrow> schedule_group_rollout gid d
          | None \<Rightarrow>
              bindE (next_fresh_group draw kind envs d) (\<lambda>(fresh, d1).
              case fresh of
                None \<Rightarrow> Ok (d1\<lparr> dp_loop := LoopWaiting \<rparr>)
              | Some grp \<Rightarrow>
                  (let gid = dp_next_group d1
                   in schedule_group_rollout gid
                        (d1\<lparr> dp_store := (dp_store d1)(gid := grp), dp_groups := dp_groups d1 @ [gid], dp_next_group := Suc gid \<rparr>)))))"

definition switch_mode :: "DispatcherMode \<Rightarrow> Dispatcher \<Rightarrow> Dispatcher" where
  "switch_mode mode d = d\<lparr> dp_mode := mode \<rparr>"

text \<open>One turn of the \<open>while True\<close> of \<open>fill_inflight\<close>.\<close>

definition fill_inflight :: "Draw \<Rightarrow> Dispatcher \<Rightarrow> Dispatcher result" where
  "fill_inflight draw d =
     (if available_permits d \<le> 0 then Ok (d\<lparr> dp_loop := LoopWaiting \<rparr>)
      else if dp_mode d = PREFER_EVAL then
        raise_if (dp_eval_source d = None) (AssertionError ''self.eval_source is not None'')
          (if \<not> eval_has_work d then Ok (switch_mode PREFER_TRAIN d) else try_schedule draw Eval d)
      else if \<not> dp_dispatch_allowed d then Ok (d\<lparr> dp_loop := LoopWaiting \<rparr>)
      else try_schedule draw Train d)"

section \<open>Dropping groups\<close>

definition drop_emission :: "bool \<Rightarrow> (RolloutKind \<times> string \<times> int) option \<Rightarrow> nat list \<Rightarrow> (Emission \<times> Dispatcher) result \<Rightarrow> Dispatcher \<Rightarrow> Dispatcher" where
  "drop_emission has_group note gids res d0 =
     (case res of
        Inl e \<Rightarrow> d0\<lparr> dp_drop := DropFailed e \<rparr>
      | Inr (Emitted, d) \<Rightarrow>
          (case note of None \<Rightarrow> d | Some (kind, env, n) \<Rightarrow> record_cancellation kind env n d)\<lparr> dp_drop := DropGroups gids \<rparr>
      | Inr (Blocked r rest, d) \<Rightarrow> d\<lparr> dp_drop := DropBlocked has_group r rest note gids \<rparr>)"

text \<open>The synchronous claim of the group's tasks with the release of their permits.\<close>

definition claim_tasks :: "nat \<Rightarrow> Dispatcher \<Rightarrow> InflightRollout list \<times> Dispatcher" where
  "claim_tasks gid d =
     (let claimed = filter (\<lambda>m. if_group_id m = gid) (od_values (dp_inflight d))
      in (claimed, release (sum_list (map if_rollout_count claimed)) (d\<lparr> dp_inflight := filter (\<lambda>(_, m). if_group_id m \<noteq> gid) (dp_inflight d) \<rparr>)))"

definition stand_in :: "nat \<Rightarrow> GroupState \<Rightarrow> InflightRollout" where
  "stand_in gid grp = \<lparr> if_kind = gs_kind grp, if_env_name = gs_env_name grp, if_group_id = gid,
     if_policy_version = gs_policy_version_at_start grp, if_rollout_count = 1, if_client_config = None, if_off_policy_steps = 0,
     if_eval_step = gs_eval_step grp \<rparr>"

text \<open>The markers \<open>drop_group\<close> emits: one per rollout in flight, then one per rollout never scheduled.\<close>

definition drop_markers :: "nat \<Rightarrow> GroupState option \<Rightarrow> InflightRollout list \<Rightarrow> (InflightRollout \<times> TaskRollout) list" where
  "drop_markers gid grp claimed =
     (let marker = failure_rollout grp (case grp of None \<Rightarrow> -1 | Some g \<Rightarrow> gs_task_idx g) True
      in concat (map (\<lambda>m. replicate (nat (if_rollout_count m)) (m, marker)) claimed) @
         (case grp of
            None \<Rightarrow> []
          | Some g \<Rightarrow> replicate (nat (gs_rollouts_to_schedule g)) (if claimed \<noteq> [] then last claimed else stand_in gid g, marker)))"

definition drop_group :: "nat \<Rightarrow> nat list \<Rightarrow> Dispatcher \<Rightarrow> Dispatcher" where
  "drop_group gid gids d =
     (let has_group = (gid \<in> set (dp_groups d)); grp = (if has_group then Some (dp_store d gid) else None);
          (claimed, d1) = claim_tasks gid (d\<lparr> dp_groups := filter (\<lambda>x. x \<noteq> gid) (dp_groups d) \<rparr>);
          markers = drop_markers gid grp claimed;
          log_meta = (if claimed \<noteq> [] then Some (last claimed) else map_option (stand_in gid) grp);
          note = (if markers = [] then None else map_option (\<lambda>m. (if_kind m, if_env_name m, int (length markers))) log_meta)
      in drop_emission has_group note gids (emit_all keep_marker has_group markers d1) d1)"

definition ages :: "Dispatcher \<Rightarrow> InflightRollout \<Rightarrow> bool result" where
  "ages d m = (if if_kind m \<noteq> Train then Ok False else bindE (env_get (if_env_name m) (dp_train_envs d)) (\<lambda>env. Ok (es_live env)))"

text \<open>The ageing pass of \<open>on_version_pending\<close>; the stale groups are a set, dropped in the order \<open>order\<close> gives it.\<close>

fun age_all :: "Dispatcher \<Rightarrow> (nat, InflightRollout) odict \<Rightarrow> (nat, InflightRollout) odict result" where
  "age_all d [] = Ok []"
| "age_all d ((task, m) # rest) =
     bindE (ages d m) (\<lambda>b. bindE (age_all d rest) (\<lambda>aged.
       Ok ((task, if b then m\<lparr> if_off_policy_steps := if_off_policy_steps m + 1 \<rparr> else m) # aged)))"

definition stale_groups :: "Dispatcher \<Rightarrow> (nat, InflightRollout) odict \<Rightarrow> nat list result" where
  "stale_groups d aged =
     bindE (traverse (\<lambda>m. bindE (ages d m) (\<lambda>b. Ok (if b \<and> if_off_policy_steps m > dp_max_off_policy_steps d then [if_group_id m] else []))) (od_values aged))
       (\<lambda>gs. Ok (remdups (concat gs)))"

definition on_version_pending :: "(nat list \<Rightarrow> nat list) \<Rightarrow> Dispatcher \<Rightarrow> Dispatcher" where
  "on_version_pending order d =
     (case bindE (age_all d (dp_inflight d)) (\<lambda>aged. bindE (stale_groups d aged) (\<lambda>stale. Ok (aged, stale))) of
        Inl e \<Rightarrow> d\<lparr> dp_drop := DropFailed e \<rparr>
      | Inr (aged, stale) \<Rightarrow> d\<lparr> dp_inflight := aged, dp_drop := DropGroups (order stale) \<rparr>)"

section \<open>Shutdown\<close>

definition disable_train_scheduling :: "Dispatcher \<Rightarrow> Dispatcher" where
  "disable_train_scheduling d = d\<lparr> dp_train_scheduling_disabled := True \<rparr>"

text \<open>The rollouts given up are counted per group: those in flight and those the removed groups still had to schedule.\<close>

definition cancel_inflight_train_rollouts :: "Dispatcher \<Rightarrow> int \<times> Dispatcher" where
  "cancel_inflight_train_rollouts d =
     (let metas = filter (\<lambda>m. if_kind m = Train) (od_values (dp_inflight d)); gids = map if_group_id metas;
          n = sum_list (map if_rollout_count metas);
          d1 = fold (\<lambda>m. record_cancellation Train (if_env_name m) (if_rollout_count m)) metas d
      in (n, (release n d1)\<lparr> dp_inflight := filter (\<lambda>(_, m). if_kind m \<noteq> Train) (dp_inflight d),
               dp_groups := filter (\<lambda>g. g \<notin> set gids) (dp_groups d),
               dp_abandoned := (\<lambda>g. dp_abandoned d g + sum_list (map if_rollout_count (filter (\<lambda>m. if_group_id m = g) metas)) +
                  (if g \<in> set gids \<and> g \<in> set (dp_groups d) then gs_rollouts_to_schedule (dp_store d g) else 0)) \<rparr>))"

definition cancel_inflight_rollouts :: "Dispatcher \<Rightarrow> Dispatcher" where
  "cancel_inflight_rollouts d =
     (let metas = od_values (dp_inflight d); d1 = fold (\<lambda>m. record_cancellation (if_kind m) (if_env_name m) (if_rollout_count m)) metas d
      in (release (sum_list (map if_rollout_count metas)) d1)\<lparr> dp_inflight := [], dp_groups := [],
           dp_abandoned := (\<lambda>g. dp_abandoned d g + sum_list (map if_rollout_count (filter (\<lambda>m. if_group_id m = g) metas)) +
              (if g \<in> set (dp_groups d) then gs_rollouts_to_schedule (dp_store d g) else 0)) \<rparr>)"

end
