(* ===== verification/Dispatch_Loop.thy ===== *)
theory Dispatch_Loop
  imports Dispatcher
begin

text \<open>
  The dispatcher as a transition system: every interleaving of its dispatch loop, of the watcher's \<open>on_version_pending\<close>, of the
  orchestrator's calls and of the consumer of \<open>out_q\<close>. The accounting of every group ever opened, the permits, the metadata of what is
  emitted, the staleness bound, and the termination of a filling pass.
\<close>

section \<open>Steps\<close>

text \<open>A draw of the train source names one of its environments and its shuffle permutes.\<close>

definition valid_draw :: "Draw \<Rightarrow> TrainSource \<Rightarrow> bool" where
  "valid_draw draw src \<longleftrightarrow> fst draw \<in> set (ts_env_names src) \<and> (\<forall>xs. mset (fst (snd draw) xs) = mset xs)"

text \<open>\<open>run_rollout\<close> returns one rollout, \<open>run_group\<close> one per permit.\<close>

definition outcome_ok :: "nat \<Rightarrow> TaskOutcome \<Rightarrow> Dispatcher \<Rightarrow> bool" where
  "outcome_ok task outcome d \<longleftrightarrow> (\<forall>m rs. od_get task (dp_inflight d) = Some m \<longrightarrow> outcome = Returned rs \<longrightarrow> int (length rs) = if_rollout_count m)"

definition or_fail :: "Dispatcher result \<Rightarrow> Dispatcher \<Rightarrow> Dispatcher" where
  "or_fail res d = (case res of Inl e \<Rightarrow> d\<lparr> dp_loop := LoopFailed e \<rparr> | Inr d' \<Rightarrow> d')"

text \<open>The dispatch loop, suspended at \<open>out_q.put\<close> or not.\<close>

inductive loop_step :: "Dispatcher \<Rightarrow> Dispatcher \<Rightarrow> bool" where
  fill: "dp_loop d = LoopTop \<Longrightarrow> valid_draw draw (dp_train_source d) \<Longrightarrow> loop_step d (or_fail (fill_inflight draw d) d)"
| select: "dp_loop d = LoopSelecting gid \<Longrightarrow> loop_step d (or_fail (client_selected gid client d) d)"
| acquire: "dp_loop d = LoopAcquiring gid permits taken \<Longrightarrow> loop_step d (acquire_next gid permits taken d)"

inductive disp_step :: "Dispatcher \<Rightarrow> Dispatcher \<Rightarrow> bool" where
  loop: "loop_step d d' \<Longrightarrow> disp_step d d'"
| wake: "dp_loop d = LoopWaiting \<Longrightarrow> set tasks \<subseteq> set (od_keys (dp_inflight d)) \<Longrightarrow> disp_step d (d\<lparr> dp_loop := LoopHandling tasks \<rparr>)"
| handled: "dp_loop d = LoopHandling [] \<Longrightarrow> disp_step d (d\<lparr> dp_loop := LoopTop \<rparr>)"
| handle: "dp_loop d = LoopHandling (task # tasks) \<Longrightarrow> outcome_ok task outcome d \<Longrightarrow> disp_step d (handle_completed_rollout task tasks outcome d)"
| put_loop: "dp_loop d = LoopBlocked has_group r rest tasks \<Longrightarrow> \<not> out_full d \<Longrightarrow>
    disp_step d (loop_emission has_group tasks (emit_all settle_result has_group rest (d\<lparr> dp_out_q := dp_out_q d @ [r] \<rparr>)) d)"
| pending: "dp_drop d = DropIdle \<Longrightarrow> (\<forall>gs. set (order gs) = set gs) \<Longrightarrow> disp_step d (on_version_pending order d)"
| drop: "dp_drop d = DropGroups (gid # gids) \<Longrightarrow> disp_step d (drop_group gid gids d)"
| put_drop: "dp_drop d = DropBlocked has_group r rest note gids \<Longrightarrow> \<not> out_full d \<Longrightarrow>
    disp_step d (drop_emission has_group note gids (emit_all keep_marker has_group rest (d\<lparr> dp_out_q := dp_out_q d @ [r] \<rparr>)) d)"
| adopt: "dp_drop d = DropGroups [] \<Longrightarrow> version \<ge> dp_policy_version d \<Longrightarrow> disp_step d (d\<lparr> dp_drop := DropIdle, dp_policy_version := version \<rparr>)"
| consume: "dp_out_q d = r # rs \<Longrightarrow> disp_step d (d\<lparr> dp_out_q := rs, dp_delivered := dp_delivered d @ [r] \<rparr>)"
| trigger: "dp_eval_source d = Some src \<Longrightarrow> eval_trigger step src = Ok (fired, src') \<Longrightarrow>
    disp_step d (d\<lparr> dp_eval_source := Some src', dp_mode := (if fired \<noteq> [] then PREFER_EVAL else dp_mode d) \<rparr>)"
| gate: "disp_step d (d\<lparr> dp_dispatch_allowed := b \<rparr>)"
| drain_metrics: "disp_step d (snd (drained train_names eval_names d))"
| disable: "disp_step d (disable_train_scheduling d)"
| cancel_train: "disp_step d (snd (cancel_inflight_train_rollouts d))"
| cancel_all: "disp_step d (cancel_inflight_rollouts d)"

inductive_cases loop_stepE: "loop_step d d'"

abbreviation reaches :: "Dispatcher \<Rightarrow> Dispatcher \<Rightarrow> bool" where
  "reaches \<equiv> disp_step\<^sup>*\<^sup>*"

section \<open>The ledger of a group\<close>

definition inflight_of :: "Dispatcher \<Rightarrow> nat \<Rightarrow> int" where
  "inflight_of d g = sum_list (map (\<lambda>(_, m). if if_group_id m = g then if_rollout_count m else 0) (dp_inflight d))"

definition count_of :: "nat \<Rightarrow> TaskRollout list \<Rightarrow> int" where
  "count_of g rs = int (length (filter (\<lambda>r. tr_group_id r = g) rs))"

definition pending_of :: "nat \<Rightarrow> (InflightRollout \<times> TaskRollout) list \<Rightarrow> int" where
  "pending_of g ms = int (length (filter (\<lambda>(m, _). if_group_id m = g) ms))"

text \<open>What the two coroutines hold: still to be stamped or launched, and stamped but not yet put.\<close>

fun loop_held :: "LoopPc \<Rightarrow> nat \<Rightarrow> int" where
  "loop_held (LoopAcquiring gid permits taken) g = (if gid = g then permits else 0)"
| "loop_held (LoopBlocked has_group r rest tasks) g = pending_of g rest"
| "loop_held _ g = 0"

fun loop_stamped :: "LoopPc \<Rightarrow> nat \<Rightarrow> int" where
  "loop_stamped (LoopBlocked has_group r rest tasks) g = (if tr_group_id r = g then 1 else 0)"
| "loop_stamped _ g = 0"

fun drop_held :: "DropPc \<Rightarrow> nat \<Rightarrow> int" where
  "drop_held (DropBlocked has_group r rest note gids) g = pending_of g rest"
| "drop_held _ g = 0"

fun drop_stamped :: "DropPc \<Rightarrow> nat \<Rightarrow> int" where
  "drop_stamped (DropBlocked has_group r rest note gids) g = (if tr_group_id r = g then 1 else 0)"
| "drop_stamped _ g = 0"

definition unscheduled :: "Dispatcher \<Rightarrow> nat \<Rightarrow> int" where
  "unscheduled d g = (if g \<in> set (dp_groups d) then gs_rollouts_to_schedule (dp_store d g) else 0)"

definition stamped :: "Dispatcher \<Rightarrow> nat \<Rightarrow> int" where
  "stamped d g = count_of g (dp_delivered d) + count_of g (dp_out_q d) + loop_stamped (dp_loop d) g + drop_stamped (dp_drop d) g"

definition owed :: "Dispatcher \<Rightarrow> nat \<Rightarrow> int" where
  "owed d g = inflight_of d g + loop_held (dp_loop d) g + drop_held (dp_drop d) g + unscheduled d g"

definition ledger :: "Dispatcher \<Rightarrow> nat \<Rightarrow> bool" where
  "ledger d g \<longleftrightarrow> stamped d g + owed d g + dp_abandoned d g = gs_target_rollouts (dp_store d g)"

fun taken_permits :: "LoopPc \<Rightarrow> int" where
  "taken_permits (LoopAcquiring gid permits taken) = taken"
| "taken_permits _ = 0"

definition all_inflight :: "Dispatcher \<Rightarrow> int" where
  "all_inflight d = sum_list (map (\<lambda>(_, m). if_rollout_count m) (dp_inflight d))"

definition meta_matches :: "Dispatcher \<Rightarrow> InflightRollout \<Rightarrow> bool" where
  "meta_matches d m \<longleftrightarrow> (let g = dp_store d (if_group_id m) in
     if_group_id m < dp_next_group d \<and> 1 \<le> if_rollout_count m \<and> if_kind m = gs_kind g \<and> if_env_name m = gs_env_name g \<and>
     if_policy_version m = gs_policy_version_at_start g \<and> if_eval_step m = gs_eval_step g)"

text \<open>All rollouts in hand belong to one group, and the stamped one carries its metadata.\<close>

definition rollout_matches :: "Dispatcher \<Rightarrow> TaskRollout \<Rightarrow> bool" where
  "rollout_matches d r \<longleftrightarrow> (let g = dp_store d (tr_group_id r) in
     tr_group_id r < dp_next_group d \<and> tr_kind r = gs_kind g \<and> tr_env_name r = gs_env_name g \<and> tr_policy_version r = gs_policy_version_at_start g \<and>
     (gs_kind g = Eval \<longrightarrow> tr_eval_step r = gs_eval_step g \<and> tr_eval_step r \<noteq> None))"

definition hand_ok :: "Dispatcher \<Rightarrow> TaskRollout \<Rightarrow> (InflightRollout \<times> TaskRollout) list \<Rightarrow> bool" where
  "hand_ok d r rest \<longleftrightarrow> rollout_matches d r \<and> (\<forall>(m, _) \<in> set rest. if_group_id m = tr_group_id r \<and> meta_matches d m)"

definition envs_ok :: "(string, EnvSpec) odict \<Rightarrow> bool" where
  "envs_ok envs \<longleftrightarrow> (\<forall>name env. od_get name envs = Some env \<longrightarrow> 1 \<le> es_group_size env)"

text \<open>The static facts of the configuration, which no step changes.\<close>

definition config_ok :: "Dispatcher \<Rightarrow> bool" where
  "config_ok d \<longleftrightarrow> envs_ok (dp_train_envs d) \<and> (\<forall>envs. dp_eval_envs d = Some envs \<longrightarrow> envs_ok envs) \<and> 0 \<le> dp_max_inflight d \<and>
     (\<forall>name cost. od_get name (ts_env_costs (dp_train_source d)) = Some cost \<longrightarrow>
        (\<exists>env. od_get name (dp_train_envs d) = Some env \<and> cost = permit_cost env)) \<and>
     names_ok (dp_train_source d) \<and> ts_env_names (dp_train_source d) \<noteq> [] \<and>
     (\<forall>src. dp_eval_source d = Some src \<longrightarrow> (\<forall>ex \<in> set (el_queue src). ex_eval_step ex \<noteq> None))"

lemma group_envs_upd [simp]:
  "group_envs kind (d\<lparr> dp_inflight := a \<rparr>) = group_envs kind d" "group_envs kind (d\<lparr> dp_inflight_permits := b \<rparr>) = group_envs kind d"
  "group_envs kind (d\<lparr> dp_loop := c \<rparr>) = group_envs kind d" "group_envs kind (d\<lparr> dp_drop := e \<rparr>) = group_envs kind d"
  "group_envs kind (d\<lparr> dp_out_q := f \<rparr>) = group_envs kind d" "group_envs kind (d\<lparr> dp_store := g \<rparr>) = group_envs kind d"
  "group_envs kind (d\<lparr> dp_groups := h \<rparr>) = group_envs kind d" "group_envs kind (d\<lparr> dp_errored := i \<rparr>) = group_envs kind d"
  "group_envs kind (d\<lparr> dp_cancelled := i \<rparr>) = group_envs kind d" "group_envs kind (d\<lparr> dp_delivered := f \<rparr>) = group_envs kind d"
  "group_envs kind (d\<lparr> dp_abandoned := j \<rparr>) = group_envs kind d" "group_envs kind (d\<lparr> dp_next_group := k \<rparr>) = group_envs kind d"
  "group_envs kind (d\<lparr> dp_next_task := k \<rparr>) = group_envs kind d" "group_envs kind (d\<lparr> dp_mode := l \<rparr>) = group_envs kind d"
  "group_envs kind (d\<lparr> dp_policy_version := m \<rparr>) = group_envs kind d" "group_envs kind (d\<lparr> dp_eval_source := n \<rparr>) = group_envs kind d"
  "group_envs kind (d\<lparr> dp_train_source := o' \<rparr>) = group_envs kind d" "group_envs kind (d\<lparr> dp_dispatch_allowed := q \<rparr>) = group_envs kind d"
  "group_envs kind (d\<lparr> dp_train_scheduling_disabled := q \<rparr>) = group_envs kind d"
  by (cases kind; simp add: group_envs_def)+

definition known_env :: "Dispatcher \<Rightarrow> nat \<Rightarrow> bool" where
  "known_env d g \<longleftrightarrow> (\<exists>envs env. group_envs (gs_kind (dp_store d g)) d = Some envs \<and> od_get (gs_env_name (dp_store d g)) envs = Some env)"

definition groups_ok :: "Dispatcher \<Rightarrow> bool" where
  "groups_ok d \<longleftrightarrow> distinct (dp_groups d) \<and> (\<forall>g \<in> set (dp_groups d). g < dp_next_group d \<and> 0 \<le> gs_rollouts_to_schedule (dp_store d g) \<and>
     gs_emitted (dp_store d g) = stamped d g) \<and>
     (\<forall>g < dp_next_group d. (gs_kind (dp_store d g) = Eval \<longrightarrow> gs_eval_step (dp_store d g) \<noteq> None) \<and> known_env d g)"

definition inflight_ok :: "Dispatcher \<Rightarrow> bool" where
  "inflight_ok d \<longleftrightarrow> od_ok (dp_inflight d) \<and> (\<forall>task \<in> set (od_keys (dp_inflight d)). task < dp_next_task d) \<and>
     (\<forall>m \<in> set (od_values (dp_inflight d)). meta_matches d m)"

definition queue_ok :: "Dispatcher \<Rightarrow> bool" where
  "queue_ok d \<longleftrightarrow> (\<forall>r \<in> set (dp_delivered d @ dp_out_q d). rollout_matches d r) \<and> int (length (dp_out_q d)) \<le> out_maxsize d"

definition group_cost :: "Dispatcher \<Rightarrow> nat \<Rightarrow> int option" where
  "group_cost d gid = (let g = dp_store d gid in
     case group_envs (gs_kind g) d of None \<Rightarrow> None
     | Some envs \<Rightarrow> map_option (\<lambda>env. if es_requires_group_scoring env then gs_rollouts_to_schedule g else 1) (od_get (gs_env_name g) envs))"

definition loop_ok :: "Dispatcher \<Rightarrow> bool" where
  "loop_ok d \<longleftrightarrow> (case dp_loop d of
      LoopSelecting gid \<Rightarrow> gid < dp_next_group d \<and> (gid \<in> set (dp_groups d) \<longrightarrow>
        1 \<le> gs_rollouts_to_schedule (dp_store d gid) \<and> (\<exists>cost. group_cost d gid = Some cost \<and> cost \<le> available_permits d))
    | LoopAcquiring gid permits taken \<Rightarrow> gid < dp_next_group d \<and> 1 \<le> permits \<and> 0 \<le> taken \<and> taken \<le> permits \<and> permits - taken \<le> available_permits d
    | LoopBlocked has_group r rest tasks \<Rightarrow> hand_ok d r rest \<and> (tr_group_id r \<in> set (dp_groups d) \<longrightarrow> has_group)
    | _ \<Rightarrow> True)"

definition drop_ok :: "Dispatcher \<Rightarrow> bool" where
  "drop_ok d \<longleftrightarrow> (case dp_drop d of
      DropGroups gids \<Rightarrow> \<forall>g \<in> set gids. g < dp_next_group d
    | DropBlocked has_group r rest note gids \<Rightarrow> hand_ok d r rest \<and> tr_group_id r \<notin> set (dp_groups d) \<and> (\<forall>g \<in> set gids. g < dp_next_group d)
    | DropFailed e \<Rightarrow> False
    | DropIdle \<Rightarrow> True)"

definition permits_ok :: "Dispatcher \<Rightarrow> bool" where
  "permits_ok d \<longleftrightarrow> dp_inflight_permits d = all_inflight d + taken_permits (dp_loop d) \<and> dp_inflight_permits d \<le> dp_max_inflight d"

definition ledgers_ok :: "Dispatcher \<Rightarrow> bool" where
  "ledgers_ok d \<longleftrightarrow> (\<forall>g < dp_next_group d. ledger d g \<and> 0 \<le> dp_abandoned d g) \<and> (\<forall>g \<ge> dp_next_group d. dp_abandoned d g = 0)"

definition disp_inv :: "Dispatcher \<Rightarrow> bool" where
  "disp_inv d \<longleftrightarrow> config_ok d \<and> groups_ok d \<and> inflight_ok d \<and> queue_ok d \<and> loop_ok d \<and> drop_ok d \<and> permits_ok d \<and> ledgers_ok d"

lemma count_of_simps [simp]: "count_of g [] = 0" "count_of g (r # rs) = (if tr_group_id r = g then 1 else 0) + count_of g rs"
  "count_of g (rs @ ss) = count_of g rs + count_of g ss" "0 \<le> count_of g rs"
  by (simp_all add: count_of_def)

lemma pending_of_simps [simp]: "pending_of g [] = 0" "pending_of g (p # ms) = (if if_group_id (fst p) = g then 1 else 0) + pending_of g ms"
  "0 \<le> pending_of g ms"
  by (auto simp: pending_of_def split: prod.splits)

lemma count_of_all: "\<forall>r \<in> set rs. tr_group_id r = gid \<Longrightarrow> count_of g rs = (if g = gid then int (length rs) else 0)"
  by (induction rs) auto

lemma pending_of_all: "\<forall>(m, r) \<in> set ms. if_group_id m = gid \<Longrightarrow> pending_of g ms = (if g = gid then int (length ms) else 0)"
  by (induction ms) auto

lemma held_nonneg [simp]: "0 \<le> drop_held pc g" "0 \<le> drop_stamped pc g" "0 \<le> loop_stamped lpc g"
  by (cases pc; simp)+ (cases lpc; simp)

lemma out_maxsize_cong: "dp_max_inflight d' = dp_max_inflight d \<Longrightarrow> out_maxsize d' = out_maxsize d"
  by (simp add: out_maxsize_def)

section \<open>Emission\<close>

text \<open>The effect of emitting \<open>k\<close> rollouts of group \<open>gid\<close>, of which \<open>q\<close> went into the queue.\<close>

definition bumped :: "Dispatcher \<Rightarrow> nat \<Rightarrow> bool \<Rightarrow> nat \<Rightarrow> TaskRollout list \<Rightarrow> (RolloutKind \<times> string, int) odict \<Rightarrow> Dispatcher" where
  "bumped d gid hg k q e =
     d\<lparr> dp_store := (dp_store d)(gid := (dp_store d gid)\<lparr> gs_emitted := gs_emitted (dp_store d gid) + (if hg then int k else 0) \<rparr>),
        dp_groups := (if hg \<and> 0 < k \<and> gs_emitted (dp_store d gid) + int k \<ge> gs_target_rollouts (dp_store d gid)
                      then filter (\<lambda>x. x \<noteq> gid) (dp_groups d) else dp_groups d),
        dp_out_q := dp_out_q d @ q, dp_errored := e \<rparr>"

lemma bumped_0 [simp]: "bumped d gid hg 0 [] (dp_errored d) = d"
  by (simp add: bumped_def)

lemma bumped_trans: "0 < j \<Longrightarrow> bumped (bumped d gid hg j q e) gid hg k q' e' = bumped d gid hg (j + k) (q @ q') e'"
  by (cases hg) (auto simp: bumped_def add.assoc)

lemma bumped_fields [simp]:
  "dp_train_envs (bumped d gid hg k q e) = dp_train_envs d" "dp_eval_envs (bumped d gid hg k q e) = dp_eval_envs d"
  "dp_train_source (bumped d gid hg k q e) = dp_train_source d" "dp_eval_source (bumped d gid hg k q e) = dp_eval_source d"
  "dp_max_inflight (bumped d gid hg k q e) = dp_max_inflight d" "dp_inflight_permits (bumped d gid hg k q e) = dp_inflight_permits d"
  "dp_inflight (bumped d gid hg k q e) = dp_inflight d" "dp_out_q (bumped d gid hg k q e) = dp_out_q d @ q"
  "dp_next_group (bumped d gid hg k q e) = dp_next_group d" "dp_next_task (bumped d gid hg k q e) = dp_next_task d"
  "dp_loop (bumped d gid hg k q e) = dp_loop d" "dp_drop (bumped d gid hg k q e) = dp_drop d"
  "dp_delivered (bumped d gid hg k q e) = dp_delivered d" "dp_abandoned (bumped d gid hg k q e) = dp_abandoned d"
  "dp_max_off_policy_steps (bumped d gid hg k q e) = dp_max_off_policy_steps d"
  "gs_kind (dp_store (bumped d gid hg k q e) g) = gs_kind (dp_store d g)"
  "gs_env_name (dp_store (bumped d gid hg k q e) g) = gs_env_name (dp_store d g)"
  "gs_eval_step (dp_store (bumped d gid hg k q e) g) = gs_eval_step (dp_store d g)"
  "gs_policy_version_at_start (dp_store (bumped d gid hg k q e) g) = gs_policy_version_at_start (dp_store d g)"
  "gs_rollouts_to_schedule (dp_store (bumped d gid hg k q e) g) = gs_rollouts_to_schedule (dp_store d g)"
  "gs_target_rollouts (dp_store (bumped d gid hg k q e) g) = gs_target_rollouts (dp_store d g)"
  "gs_emitted (dp_store (bumped d gid hg k q e) g) = gs_emitted (dp_store d g) + (if g = gid \<and> hg then int k else 0)"
  by (simp_all add: bumped_def)

lemma bumped_groups: "set (dp_groups (bumped d gid hg k q e)) \<subseteq> set (dp_groups d)"
  "g \<noteq> gid \<Longrightarrow> g \<in> set (dp_groups (bumped d gid hg k q e)) \<longleftrightarrow> g \<in> set (dp_groups d)"
  "distinct (dp_groups d) \<Longrightarrow> distinct (dp_groups (bumped d gid hg k q e))"
  by (auto simp: bumped_def)

lemma meta_matches_bumped [simp]: "meta_matches (bumped d gid hg k q e) m = meta_matches d m"
  by (simp add: meta_matches_def Let_def)

lemma rollout_matches_bumped [simp]: "rollout_matches (bumped d gid hg k q e) r = rollout_matches d r"
  by (simp add: rollout_matches_def Let_def)

lemma emit_stamp_effect:
  assumes m: "meta_matches d m" and eval: "gs_kind (dp_store d (if_group_id m)) = Eval \<Longrightarrow> gs_eval_step (dp_store d (if_group_id m)) \<noteq> None"
  obtains r' where "emit_stamp m hg r d = Ok (r', bumped d (if_group_id m) hg 1 [] (dp_errored d))" "rollout_matches d r'"
    "tr_group_id r' = if_group_id m" "tr_off_policy_steps r' = if_off_policy_steps m" "tr_errors r' = tr_errors r"
proof -
  have eq: "(if hg then d\<lparr> dp_store := (dp_store d)(if_group_id m := (dp_store d (if_group_id m))\<lparr> gs_emitted := gs_emitted (dp_store d (if_group_id m)) + 1 \<rparr>),
      dp_groups := (if gs_emitted (dp_store d (if_group_id m)) + 1 \<ge> gs_target_rollouts (dp_store d (if_group_id m))
         then filter (\<lambda>x. x \<noteq> if_group_id m) (dp_groups d) else dp_groups d) \<rparr> else d) = bumped d (if_group_id m) hg 1 [] (dp_errored d)"
    by (simp add: bumped_def)
  define r0 where "r0 = r\<lparr> tr_kind := if_kind m, tr_env_name := if_env_name m, tr_group_id := if_group_id m,
      tr_policy_version := gs_policy_version_at_start (dp_store d (if_group_id m)), tr_off_policy_steps := if_off_policy_steps m \<rparr>"
  note same = m[unfolded meta_matches_def Let_def]
  have version: "(if hg then gs_policy_version_at_start (dp_store d (if_group_id m)) else if_policy_version m) =
      gs_policy_version_at_start (dp_store d (if_group_id m))" and
    step: "(if hg then gs_eval_step (dp_store d (if_group_id m)) else if_eval_step m) = gs_eval_step (dp_store d (if_group_id m))"
    using same by simp_all
  define r1 where "r1 = (if if_kind m = Eval then r0\<lparr> tr_eval_step := gs_eval_step (dp_store d (if_group_id m)) \<rparr> else r0)"
  have "emit_stamp m hg r d = Ok (r1, bumped d (if_group_id m) hg 1 [] (dp_errored d))"
    using eval same unfolding emit_stamp_def Let_def version step eq[symmetric] r1_def r0_def by (auto simp: raise_if_def)
  moreover have "rollout_matches d r1" using eval same by (auto simp: rollout_matches_def Let_def r1_def r0_def)
  moreover have "tr_group_id r1 = if_group_id m" "tr_off_policy_steps r1 = if_off_policy_steps m" "tr_errors r1 = tr_errors r"
    by (simp_all add: r1_def r0_def)
  ultimately show thesis by (rule that)
qed

text \<open>What \<open>prepare\<close> may do: rewrite the errors and the error counters.\<close>

definition prepares :: "(InflightRollout \<Rightarrow> TaskRollout \<Rightarrow> Dispatcher \<Rightarrow> TaskRollout \<times> Dispatcher) \<Rightarrow> bool" where
  "prepares prepare \<longleftrightarrow> (\<forall>m r d. \<exists>r' e. prepare m r d = (r', d\<lparr> dp_errored := e \<rparr>))"

lemma prepares_settle: "prepares settle_result"
  unfolding prepares_def
proof (intro allI)
  fix m and r :: TaskRollout and d :: Dispatcher
  define r1 where "r1 = (if tr_errors r = [] \<and> tr_num_turns r = 0 then r\<lparr> tr_errors := [''EmptyTrajectory''] \<rparr> else r)"
  have "settle_result m r d = (r1, d\<lparr> dp_errored := (if tr_errors r1 \<noteq> [] then bump_by (if_kind m, if_env_name m) 1 (dp_errored d) else dp_errored d) \<rparr>)"
    unfolding settle_result_def Let_def r1_def[symmetric] by (simp add: record_error_def)
  then show "\<exists>r' e. settle_result m r d = (r', d\<lparr> dp_errored := e \<rparr>)" by blast
qed

lemma prepares_keep: "prepares keep_marker"
  unfolding prepares_def
proof (intro allI)
  fix m and r :: TaskRollout and d :: Dispatcher
  have "keep_marker m r d = (r, d\<lparr> dp_errored := dp_errored d \<rparr>)" by (simp add: keep_marker_def)
  then show "\<exists>r' e. keep_marker m r d = (r', d\<lparr> dp_errored := e \<rparr>)" by blast
qed

fun emission_ok :: "Dispatcher \<Rightarrow> nat \<Rightarrow> (InflightRollout \<times> TaskRollout) list \<Rightarrow> TaskRollout list \<Rightarrow> nat \<Rightarrow> Emission \<Rightarrow> bool" where
  "emission_ok d gid ms q k Emitted \<longleftrightarrow> k = length ms \<and> length q = length ms"
| "emission_ok d gid ms q k (Blocked r rest) \<longleftrightarrow> rollout_matches d r \<and> tr_group_id r = gid \<and> k = Suc (length q) \<and>
     length ms = k + length rest \<and> set rest \<subseteq> set ms"

lemma meta_matches_errored [simp]: "meta_matches (d\<lparr> dp_errored := e \<rparr>) m = meta_matches d m"
  by (simp add: meta_matches_def)

lemma rollout_matches_errored [simp]: "rollout_matches (d\<lparr> dp_errored := e \<rparr>) m = rollout_matches d m"
  by (simp add: rollout_matches_def)

lemma bumped_errored: "bumped (d\<lparr> dp_errored := e \<rparr>) gid hg k q e' = bumped d gid hg k q e'"
  by (simp add: bumped_def)

lemma emit_all_effect:
  assumes "prepares prepare" "\<forall>(m, _) \<in> set ms. if_group_id m = gid \<and> meta_matches d m"
    "gs_kind (dp_store d gid) = Eval \<Longrightarrow> gs_eval_step (dp_store d gid) \<noteq> None" "int (length (dp_out_q d)) \<le> out_maxsize d"
  shows "\<exists>em q e k. emit_all prepare hg ms d = Ok (em, bumped d gid hg k q e) \<and> emission_ok d gid ms q k em \<and>
    (\<forall>r \<in> set q. rollout_matches d r \<and> tr_group_id r = gid) \<and> int (length (dp_out_q d @ q)) \<le> out_maxsize d"
  using assms(2-4)
proof (induction ms arbitrary: d)
  case Nil
  then show ?case by (intro exI[of _ Emitted] exI[of _ "[]"] exI[of _ "dp_errored d"] exI[of _ 0]) simp
next
  case (Cons p ms)
  obtain m r where p: "p = (m, r)" by (cases p)
  have m: "if_group_id m = gid" "meta_matches d m" using Cons.prems(1) p by auto
  obtain r1 e1 where prep: "prepare m r d = (r1, d\<lparr> dp_errored := e1 \<rparr>)" using assms(1) unfolding prepares_def by blast
  let ?d1 = "d\<lparr> dp_errored := e1 \<rparr>"
  have "meta_matches ?d1 m" "gs_kind (dp_store ?d1 (if_group_id m)) = Eval \<Longrightarrow> gs_eval_step (dp_store ?d1 (if_group_id m)) \<noteq> None"
    using m Cons.prems(2) by simp_all
  then obtain r2 where stamp: "emit_stamp m hg r1 ?d1 = Ok (r2, bumped d gid hg 1 [] e1)" "rollout_matches d r2" "tr_group_id r2 = gid"
    using emit_stamp_effect[of ?d1 m hg r1] m(1) by (auto simp: bumped_errored)
  let ?d2 = "bumped d gid hg 1 [] e1"
  show ?case
  proof (cases "out_full ?d2")
    case True
    then have "emit_all prepare hg (p # ms) d = Ok (Blocked r2 ms, bumped d gid hg 1 [] e1)" using p prep stamp(1) by simp
    then show ?thesis using stamp(2,3) Cons.prems(3) by (intro exI[of _ "Blocked r2 ms"] exI[of _ "[]"] exI[of _ e1] exI[of _ 1]) auto
  next
    case False
    have put: "?d2\<lparr> dp_out_q := dp_out_q ?d2 @ [r2] \<rparr> = bumped d gid hg 1 [r2] e1" by (simp add: bumped_def)
    let ?d3 = "bumped d gid hg 1 [r2] e1"
    have max3: "out_maxsize ?d3 = out_maxsize d" "out_maxsize ?d2 = out_maxsize d" by (rule out_maxsize_cong; simp)+
    have room: "int (length (dp_out_q ?d3)) \<le> out_maxsize ?d3" using False max3 by (simp add: out_full_def)
    obtain em q e k where IH: "emit_all prepare hg ms ?d3 = Ok (em, bumped ?d3 gid hg k q e)" "emission_ok ?d3 gid ms q k em"
        "\<forall>r \<in> set q. rollout_matches ?d3 r \<and> tr_group_id r = gid" "int (length (dp_out_q ?d3 @ q)) \<le> out_maxsize ?d3"
      using Cons.IH[of ?d3] Cons.prems(1,2) room by auto
    have "emit_all prepare hg (p # ms) d = Ok (em, bumped d gid hg (Suc k) (r2 # q) e)"
      using p prep stamp(1) False put IH(1) by (simp add: bumped_trans)
    moreover have "emission_ok d gid (p # ms) (r2 # q) (Suc k) em" using IH(2) by (cases em) auto
    ultimately show ?thesis using IH(3,4) stamp(2,3) max3(1)
      by (intro exI[of _ em] exI[of _ "r2 # q"] exI[of _ e] exI[of _ "Suc k"]) auto
  qed
qed

section \<open>Emission keeps the invariant\<close>

lemma inflight_of_nonneg: "inflight_ok d \<Longrightarrow> 0 \<le> inflight_of d g"
  unfolding inflight_of_def by (rule sum_list_nonneg_int) (force simp: inflight_ok_def meta_matches_def Let_def)

lemma unscheduled_nonneg: "groups_ok d \<Longrightarrow> 0 \<le> unscheduled d g"
  by (simp add: unscheduled_def groups_ok_def)

lemma config_ok_bumped [simp]: "config_ok (bumped d gid hg k q e) = config_ok d"
  by (simp add: config_ok_def)

lemma known_env_bumped [simp]: "known_env (bumped d gid hg k q e) g = known_env d g"
  by (simp add: known_env_def group_envs_def split: RolloutKind.splits)

lemma group_cost_bumped [simp]: "group_cost (bumped d gid hg k q e) g = group_cost d g"
  unfolding group_cost_def group_envs_def Let_def bumped_fields ..

lemma inflight_ok_bumped [simp]: "inflight_ok (bumped d gid hg k q e) = inflight_ok d"
  by (simp add: inflight_ok_def)

lemma inflight_of_bumped [simp]: "inflight_of (bumped d gid hg k q e) g = inflight_of d g"
  by (simp add: inflight_of_def)

text \<open>A group leaves the table only once nothing of it is left, so its unscheduled count does not change.\<close>

lemma unscheduled_bumped:
  assumes groups: "groups_ok d" and left: "hg \<Longrightarrow> gid \<in> set (dp_groups d) \<Longrightarrow> 0 < k \<Longrightarrow>
      gs_emitted (dp_store d gid) + int k \<ge> gs_target_rollouts (dp_store d gid) \<Longrightarrow> unscheduled d gid = 0"
  shows "unscheduled (bumped d gid hg k q e) g = unscheduled d g"
proof (cases "g = gid \<and> hg \<and> gid \<in> set (dp_groups d) \<and> 0 < k \<and> gs_emitted (dp_store d gid) + int k \<ge> gs_target_rollouts (dp_store d gid)")
  case True
  then have "unscheduled d g = 0" using left by simp
  then show ?thesis using True by (simp add: unscheduled_def bumped_def)
next
  case False
  then have "g \<in> set (dp_groups (bumped d gid hg k q e)) \<longleftrightarrow> g \<in> set (dp_groups d)" by (auto simp: bumped_def)
  then show ?thesis by (simp add: unscheduled_def)
qed

lemma loop_pc_simps [simp]:
  "config_ok (d\<lparr> dp_loop := pc \<rparr>) = config_ok d" "inflight_ok (d\<lparr> dp_loop := pc \<rparr>) = inflight_ok d" "queue_ok (d\<lparr> dp_loop := pc \<rparr>) = queue_ok d"
  "drop_ok (d\<lparr> dp_loop := pc \<rparr>) = drop_ok d" "inflight_of (d\<lparr> dp_loop := pc \<rparr>) g = inflight_of d g" "unscheduled (d\<lparr> dp_loop := pc \<rparr>) g = unscheduled d g"
  "meta_matches (d\<lparr> dp_loop := pc \<rparr>) m = meta_matches d m" "rollout_matches (d\<lparr> dp_loop := pc \<rparr>) r = rollout_matches d r"
  "known_env (d\<lparr> dp_loop := pc \<rparr>) g = known_env d g" "all_inflight (d\<lparr> dp_loop := pc \<rparr>) = all_inflight d"
  "available_permits (d\<lparr> dp_loop := pc \<rparr>) = available_permits d" "hand_ok (d\<lparr> dp_loop := pc \<rparr>) r rest = hand_ok d r rest"
  "group_cost (d\<lparr> dp_loop := pc \<rparr>) g = group_cost d g"
  by (simp_all add: config_ok_def inflight_ok_def queue_ok_def drop_ok_def inflight_of_def unscheduled_def meta_matches_def rollout_matches_def
      known_env_def all_inflight_def available_permits_def hand_ok_def out_maxsize_def group_envs_def group_cost_def Let_def cong: DropPc.case_cong RolloutKind.case_cong)

lemma drop_pc_simps [simp]:
  "config_ok (d\<lparr> dp_drop := pc \<rparr>) = config_ok d" "inflight_ok (d\<lparr> dp_drop := pc \<rparr>) = inflight_ok d" "queue_ok (d\<lparr> dp_drop := pc \<rparr>) = queue_ok d"
  "loop_ok (d\<lparr> dp_drop := pc \<rparr>) = loop_ok d" "inflight_of (d\<lparr> dp_drop := pc \<rparr>) g = inflight_of d g" "unscheduled (d\<lparr> dp_drop := pc \<rparr>) g = unscheduled d g"
  "meta_matches (d\<lparr> dp_drop := pc \<rparr>) m = meta_matches d m" "rollout_matches (d\<lparr> dp_drop := pc \<rparr>) r = rollout_matches d r"
  "known_env (d\<lparr> dp_drop := pc \<rparr>) g = known_env d g" "permits_ok (d\<lparr> dp_drop := pc \<rparr>) = permits_ok d"
  "available_permits (d\<lparr> dp_drop := pc \<rparr>) = available_permits d" "hand_ok (d\<lparr> dp_drop := pc \<rparr>) r rest = hand_ok d r rest"
  by (simp_all add: config_ok_def inflight_ok_def queue_ok_def loop_ok_def inflight_of_def unscheduled_def meta_matches_def rollout_matches_def
      known_env_def all_inflight_def available_permits_def hand_ok_def out_maxsize_def group_envs_def group_cost_def permits_ok_def Let_def
      cong: LoopPc.case_cong RolloutKind.case_cong)

text \<open>What holds before \<open>n\<close> rollouts of \<open>gid\<close> are emitted by a coroutine that holds nothing else.\<close>

definition before_emission :: "Dispatcher \<Rightarrow> nat \<Rightarrow> int \<Rightarrow> bool" where
  "before_emission d gid n \<longleftrightarrow> config_ok d \<and> groups_ok d \<and> inflight_ok d \<and> queue_ok d \<and> gid < dp_next_group d \<and>
     (\<forall>g < dp_next_group d. stamped d g + owed d g + dp_abandoned d g + (if g = gid then n else 0) = gs_target_rollouts (dp_store d g) \<and>
        0 \<le> dp_abandoned d g) \<and> (\<forall>g \<ge> dp_next_group d. dp_abandoned d g = 0)"

lemma emission_left:
  assumes before: "before_emission d gid n" and k: "int k \<le> n" and hold: "0 \<le> loop_held (dp_loop d) gid"
    and full: "gid \<in> set (dp_groups d)" "gs_emitted (dp_store d gid) + int k \<ge> gs_target_rollouts (dp_store d gid)"
  shows "unscheduled d gid = 0"
proof -
  have b: "groups_ok d" "inflight_ok d" "gid < dp_next_group d"
    and led: "stamped d gid + owed d gid + dp_abandoned d gid + n = gs_target_rollouts (dp_store d gid)" "0 \<le> dp_abandoned d gid"
    using before unfolding before_emission_def by auto
  have "gs_emitted (dp_store d gid) = stamped d gid" using b(1) full(1) by (simp add: groups_ok_def)
  moreover have "0 \<le> unscheduled d gid" by (rule unscheduled_nonneg[OF b(1)])
  moreover have "0 \<le> inflight_of d gid" by (rule inflight_of_nonneg[OF b(2)])
  moreover have "0 \<le> drop_held (dp_drop d) gid" by simp
  ultimately show ?thesis using led full(2) k hold unfolding owed_def by linarith
qed

lemma emission_unscheduled:
  assumes "before_emission d gid n" "int k \<le> n" "0 \<le> loop_held (dp_loop d) gid"
  shows "unscheduled (bumped d gid hg k q e) g = unscheduled d g"
  using emission_left[OF assms] assms(1) by (intro unscheduled_bumped) (auto simp: before_emission_def)

lemma emission_groups_ok:
  assumes before: "before_emission d gid n" and hg: "gid \<in> set (dp_groups d) \<longrightarrow> hg"
    and st: "\<And>g. stamped x g = stamped d g + (if g = gid then int k else 0)"
    and x: "dp_groups x = dp_groups (bumped d gid hg k q e)" "dp_store x = dp_store (bumped d gid hg k q e)" "dp_next_group x = dp_next_group d"
      "dp_train_envs x = dp_train_envs d" "dp_eval_envs x = dp_eval_envs d"
  shows "groups_ok x"
proof -
  have ok: "groups_ok d" using before by (simp add: before_emission_def)
  have env: "known_env x g = known_env (bumped d gid hg k q e) g" for g
    unfolding known_env_def group_envs_def x bumped_fields ..
  show ?thesis unfolding groups_ok_def
  proof (intro conjI ballI allI impI)
    show "distinct (dp_groups x)" using ok x(1) bumped_groups(3) by (simp add: groups_ok_def)
  next
    fix g assume "g \<in> set (dp_groups x)"
    then have g: "g \<in> set (dp_groups d)" using bumped_groups(1)[of d gid hg k q e] x(1) by auto
    then show "g < dp_next_group x" "0 \<le> gs_rollouts_to_schedule (dp_store x g)" using ok x by (simp_all add: groups_ok_def)
    have "gs_emitted (dp_store d g) = stamped d g" using ok g by (simp add: groups_ok_def)
    then show "gs_emitted (dp_store x g) = stamped x g" using x(2) st[of g] hg g by auto
  next
    fix g assume "g < dp_next_group x"
    then have g: "g < dp_next_group d" using x(3) by simp
    show "known_env x g" unfolding env using ok g by (simp add: groups_ok_def)
    show "gs_eval_step (dp_store x g) \<noteq> None" if "gs_kind (dp_store x g) = Eval" using ok g x(2) that by (simp add: groups_ok_def)
  qed
qed

lemma matches_cong:
  assumes "\<And>g. gs_kind (dp_store x g) = gs_kind (dp_store d g)" "\<And>g. gs_env_name (dp_store x g) = gs_env_name (dp_store d g)"
    "\<And>g. gs_policy_version_at_start (dp_store x g) = gs_policy_version_at_start (dp_store d g)"
    "\<And>g. gs_eval_step (dp_store x g) = gs_eval_step (dp_store d g)" "dp_next_group x = dp_next_group d"
  shows "meta_matches x m = meta_matches d m" "rollout_matches x r = rollout_matches d r"
  unfolding meta_matches_def rollout_matches_def Let_def using assms by simp_all

lemma loop_emission_inv:
  assumes before: "before_emission d gid n" "dp_loop d = LoopHandling tasks" and d: "d = d1\<lparr> dp_loop := LoopHandling tasks \<rparr>"
    and drop: "drop_ok d" and permits: "dp_inflight_permits d = all_inflight d" "dp_inflight_permits d \<le> dp_max_inflight d"
    and ms: "\<forall>(m, _) \<in> set ms. if_group_id m = gid \<and> meta_matches d m" "int (length ms) = n" and hg: "gid \<in> set (dp_groups d) \<longrightarrow> hg"
    and prep: "prepares prepare"
  shows "disp_inv (loop_emission hg tasks (emit_all prepare hg ms d1) d0)"
proof -
  have b: "config_ok d" "groups_ok d" "inflight_ok d" "queue_ok d" "gid < dp_next_group d"
    using before(1) by (simp_all add: before_emission_def)
  have ms1: "\<forall>(m, _) \<in> set ms. if_group_id m = gid \<and> meta_matches d1 m" using ms(1) d by auto
  have eval: "gs_kind (dp_store d1 gid) = Eval \<Longrightarrow> gs_eval_step (dp_store d1 gid) \<noteq> None" using b(2,5) d by (simp add: groups_ok_def)
  have room: "int (length (dp_out_q d1)) \<le> out_maxsize d1" using b(4) d by (simp add: queue_ok_def out_maxsize_def)
  obtain em q e k where run: "emit_all prepare hg ms d1 = Ok (em, bumped d1 gid hg k q e)" "emission_ok d1 gid ms q k em"
      "\<forall>r \<in> set q. rollout_matches d1 r \<and> tr_group_id r = gid" "int (length (dp_out_q d1 @ q)) \<le> out_maxsize d1"
    using emit_all_effect[OF prep ms1 eval room] by blast
  have k: "int k \<le> n" using run(2) ms(2) by (cases em) auto
  have hold: "0 \<le> loop_held (dp_loop d) gid" using before(2) by simp
  define pc where "pc = (case em of Emitted \<Rightarrow> LoopHandling tasks | Blocked r rest \<Rightarrow> LoopBlocked hg r rest tasks)"
  define x where "x = (bumped d gid hg k q e)\<lparr> dp_loop := pc \<rparr>"
  have x: "loop_emission hg tasks (emit_all prepare hg ms d1) d0 = x"
    unfolding loop_emission_def run(1) x_def pc_def d by (cases em) (simp_all add: bumped_def)
  have pcs: "loop_stamped pc g + int (length q) * (if g = gid then 1 else 0) = (if g = gid then int k else 0)"
    "loop_held pc g = (if g = gid then n - int k else 0)" "taken_permits pc = 0" for g
  proof -
    have "\<forall>(m, r') \<in> set rest. if_group_id m = gid" if "em = Blocked r rest" for r rest
      using run(2) ms(1) that by auto
    then show "loop_stamped pc g + int (length q) * (if g = gid then 1 else 0) = (if g = gid then int k else 0)"
      "loop_held pc g = (if g = gid then n - int k else 0)" "taken_permits pc = 0"
      using run(2) ms(2) by (cases em; auto simp: pc_def pending_of_all)+
  qed
  have q: "count_of g q = int (length q) * (if g = gid then 1 else 0)" for g using count_of_all[of q gid g] run(3) by auto
  have st: "stamped x g = stamped d g + (if g = gid then int k else 0)" for g
    using pcs(1)[of g] before(2) unfolding stamped_def x_def by (simp add: q)
  have uns: "unscheduled x g = unscheduled d g" for g
    unfolding x_def loop_pc_simps by (rule emission_unscheduled[OF before(1) k hold])
  have ow: "owed x g = owed d g + (if g = gid then n - int k else 0)" for g
    unfolding owed_def uns unfolding x_def by (simp add: pcs(2) before(2))
  have groups: "groups_ok x" by (rule emission_groups_ok[OF before(1) hg st]) (simp_all add: x_def)
  have sub: "set (dp_groups x) \<subseteq> set (dp_groups d)" unfolding x_def using bumped_groups(1)[of d] by simp
  have ledgers: "ledgers_ok x" using before(1) unfolding ledgers_ok_def ledger_def before_emission_def st ow by (auto simp: x_def)
  have queue: "queue_ok x" using b(4) run(3,4) unfolding queue_ok_def x_def d by (auto simp: out_maxsize_def)
  have loop: "loop_ok x"
  proof (cases em)
    case (Blocked r rest)
    then have "hand_ok x r rest" using run(2) ms(1) unfolding hand_ok_def x_def d by auto
    then show ?thesis using Blocked run(2) hg sub unfolding loop_ok_def by (auto simp: x_def pc_def)
  qed (simp add: loop_ok_def x_def pc_def)
  have "drop_ok x" using drop sub unfolding drop_ok_def hand_ok_def x_def by (auto split: DropPc.splits)
  moreover have "permits_ok x" using permits pcs(3) unfolding permits_ok_def x_def by (simp add: all_inflight_def)
  ultimately show ?thesis using b groups ledgers queue loop unfolding x disp_inv_def by (simp add: x_def)
qed

lemma cancelled_simps [simp]:
  "dp_loop (record_cancellation kind env n d) = dp_loop d" "dp_store (record_cancellation kind env n d) = dp_store d"
  "dp_groups (record_cancellation kind env n d) = dp_groups d"
  "config_ok (record_cancellation kind env n d) = config_ok d" "inflight_ok (record_cancellation kind env n d) = inflight_ok d"
  "queue_ok (record_cancellation kind env n d) = queue_ok d" "loop_ok (record_cancellation kind env n d) = loop_ok d"
  "drop_ok (record_cancellation kind env n d) = drop_ok d" "permits_ok (record_cancellation kind env n d) = permits_ok d"
  "stamped (record_cancellation kind env n d) g = stamped d g" "owed (record_cancellation kind env n d) g = owed d g"
  "groups_ok (record_cancellation kind env n d) = groups_ok d" "ledgers_ok (record_cancellation kind env n d) = ledgers_ok d"
  by (simp_all add: record_cancellation_def config_ok_def inflight_ok_def queue_ok_def loop_ok_def drop_ok_def permits_ok_def stamped_def owed_def
      groups_ok_def ledgers_ok_def ledger_def inflight_of_def unscheduled_def meta_matches_def rollout_matches_def known_env_def group_envs_def
      all_inflight_def available_permits_def hand_ok_def out_maxsize_def group_cost_def Let_def cong: LoopPc.case_cong DropPc.case_cong RolloutKind.case_cong)

lemma drop_emission_inv:
  assumes before: "before_emission d gid n" "dp_drop d = DropIdle" and d: "d = d1\<lparr> dp_drop := DropIdle \<rparr>"
    and loop: "loop_ok d" and permits: "permits_ok d" and gone: "gid \<notin> set (dp_groups d)" and gids: "\<forall>g \<in> set gids. g < dp_next_group d"
    and ms: "\<forall>(m, _) \<in> set ms. if_group_id m = gid \<and> meta_matches d m" "int (length ms) = n" and prep: "prepares prepare"
  shows "disp_inv (drop_emission hg note gids (emit_all prepare hg ms d1) d0)"
proof -
  have b: "config_ok d" "groups_ok d" "inflight_ok d" "queue_ok d" "gid < dp_next_group d"
    using before(1) by (simp_all add: before_emission_def)
  have ms1: "\<forall>(m, _) \<in> set ms. if_group_id m = gid \<and> meta_matches d1 m" using ms(1) d by auto
  have eval: "gs_kind (dp_store d1 gid) = Eval \<Longrightarrow> gs_eval_step (dp_store d1 gid) \<noteq> None" using b(2,5) d by (simp add: groups_ok_def)
  have room: "int (length (dp_out_q d1)) \<le> out_maxsize d1" using b(4) d by (simp add: queue_ok_def out_maxsize_def)
  obtain em q e k where run: "emit_all prepare hg ms d1 = Ok (em, bumped d1 gid hg k q e)" "emission_ok d1 gid ms q k em"
      "\<forall>r \<in> set q. rollout_matches d1 r \<and> tr_group_id r = gid" "int (length (dp_out_q d1 @ q)) \<le> out_maxsize d1"
    using emit_all_effect[OF prep ms1 eval room] by blast
  have k: "int k \<le> n" using run(2) ms(2) by (cases em) auto
  define pc where "pc = (case em of Emitted \<Rightarrow> DropGroups gids | Blocked r rest \<Rightarrow> DropBlocked hg r rest note gids)"
  define x where "x = (bumped d gid hg k q e)\<lparr> dp_drop := pc \<rparr>"
  have groups_same: "dp_groups (bumped d gid hg k q e) = dp_groups d"
    using gone by (auto simp: bumped_def filter_id_conv)
  define c where "c = (case em of Emitted \<Rightarrow> note | Blocked r rest \<Rightarrow> None)"
  have x: "drop_emission hg note gids (emit_all prepare hg ms d1) d0 =
      (case c of None \<Rightarrow> x | Some (kind, env, m) \<Rightarrow> record_cancellation kind env m x)"
    unfolding drop_emission_def run(1) x_def pc_def c_def d
    by (cases em; cases "note") (simp_all add: bumped_def record_cancellation_def split: prod.splits)
  have pcs: "drop_stamped pc g + int (length q) * (if g = gid then 1 else 0) = (if g = gid then int k else 0)"
    "drop_held pc g = (if g = gid then n - int k else 0)" for g
  proof -
    have "\<forall>(m, r') \<in> set rest. if_group_id m = gid" if "em = Blocked r rest" for r rest
      using run(2) ms(1) that by auto
    then show "drop_stamped pc g + int (length q) * (if g = gid then 1 else 0) = (if g = gid then int k else 0)"
      "drop_held pc g = (if g = gid then n - int k else 0)"
      using run(2) ms(2) by (cases em; auto simp: pc_def pending_of_all)+
  qed
  have q: "count_of g q = int (length q) * (if g = gid then 1 else 0)" for g using count_of_all[of q gid g] run(3) by auto
  have st: "stamped x g = stamped d g + (if g = gid then int k else 0)" for g
    using pcs(1)[of g] before(2) unfolding stamped_def x_def by (simp add: q)
  have uns: "unscheduled x g = unscheduled d g" for g
    unfolding x_def drop_pc_simps by (simp add: unscheduled_def groups_same)
  have ow: "owed x g = owed d g + (if g = gid then n - int k else 0)" for g
    unfolding owed_def uns unfolding x_def by (simp add: pcs(2) before(2))
  have hg: "gid \<in> set (dp_groups d) \<longrightarrow> hg" using gone by simp
  have groups: "groups_ok x" by (rule emission_groups_ok[OF before(1) hg st]) (simp_all add: x_def)
  have ledgers: "ledgers_ok x" using before(1) unfolding ledgers_ok_def ledger_def before_emission_def st ow by (auto simp: x_def)
  have queue: "queue_ok x" using b(4) run(3,4) unfolding queue_ok_def x_def d by (auto simp: out_maxsize_def)
  have drop: "drop_ok x"
  proof (cases em)
    case (Blocked r rest)
    then have "hand_ok x r rest" using run(2) ms(1) unfolding hand_ok_def x_def d by auto
    moreover have "gid \<notin> set (dp_groups x)" using gone groups_same by (simp add: x_def)
    ultimately show ?thesis using Blocked run(2) gids unfolding drop_ok_def by (auto simp: x_def pc_def)
  qed (use gids in \<open>simp add: drop_ok_def x_def pc_def\<close>)
  have "loop_ok x" using loop unfolding x_def drop_pc_simps unfolding loop_ok_def hand_ok_def
    by (auto simp: groups_same available_permits_def split: LoopPc.splits)
  moreover have "permits_ok x" using permits unfolding permits_ok_def x_def by (simp add: all_inflight_def)
  ultimately have "disp_inv x" using b groups ledgers queue drop unfolding disp_inv_def by (simp add: x_def)
  then show ?thesis unfolding x by (simp add: disp_inv_def split: option.splits prod.splits)
qed

section \<open>Every step keeps the invariant\<close>

lemma inflight_del:
  assumes "inflight_ok d" "od_get task (dp_inflight d) = Some m"
  shows "inflight_of (d\<lparr> dp_inflight := od_del task (dp_inflight d) \<rparr>) g = inflight_of d g - (if if_group_id m = g then if_rollout_count m else 0)"
    and "all_inflight (d\<lparr> dp_inflight := od_del task (dp_inflight d) \<rparr>) = all_inflight d - if_rollout_count m"
    and "inflight_ok (d\<lparr> dp_inflight := od_del task (dp_inflight d) \<rparr>)" and "meta_matches d m"
proof -
  have ok: "od_ok (dp_inflight d)" using assms(1) by (simp add: inflight_ok_def)
  show "inflight_of (d\<lparr> dp_inflight := od_del task (dp_inflight d) \<rparr>) g = inflight_of d g - (if if_group_id m = g then if_rollout_count m else 0)"
    unfolding inflight_of_def using sum_list_od_del[OF ok assms(2), of "\<lambda>(_, m). if if_group_id m = g then if_rollout_count m else 0"] by simp
  show "all_inflight (d\<lparr> dp_inflight := od_del task (dp_inflight d) \<rparr>) = all_inflight d - if_rollout_count m"
    unfolding all_inflight_def using sum_list_od_del[OF ok assms(2), of "\<lambda>(_, m). if_rollout_count m"] by simp
  show "inflight_ok (d\<lparr> dp_inflight := od_del task (dp_inflight d) \<rparr>)"
  proof -
    have "set (od_del task (dp_inflight d)) \<subseteq> set (dp_inflight d)" by (auto simp: od_del_def)
    then show ?thesis using assms(1) unfolding inflight_ok_def by (auto simp: od_keys_del meta_matches_def)
  qed
  show "meta_matches d m" using assms map_of_SomeD[OF assms(2)] unfolding inflight_ok_def by force
qed

lemma handle_inv:
  assumes inv: "disp_inv d" and pc: "dp_loop d = LoopHandling (task # tasks)" and outcome: "outcome_ok task outcome d"
  shows "disp_inv (handle_completed_rollout task tasks outcome d)"
proof (cases "od_get task (dp_inflight d)")
  case None
  then have "handle_completed_rollout task tasks outcome d = d\<lparr> dp_loop := LoopHandling tasks \<rparr>" by (simp add: handle_completed_rollout_def)
  then show ?thesis using inv pc by (simp add: disp_inv_def groups_ok_def ledgers_ok_def ledger_def stamped_def owed_def loop_ok_def permits_ok_def)
next
  case (Some m)
  have i: "config_ok d" "groups_ok d" "inflight_ok d" "queue_ok d" "drop_ok d" "permits_ok d" "ledgers_ok d"
    using inv by (simp_all add: disp_inv_def)
  note del = inflight_del[OF i(3) Some]
  let ?gid = "if_group_id m"
  define d1 where "d1 = release (if_rollout_count m) (d\<lparr> dp_inflight := od_del task (dp_inflight d) \<rparr>)"
  define d2 where "d2 = d1\<lparr> dp_loop := LoopHandling tasks \<rparr>"
  have n: "1 \<le> if_rollout_count m" "?gid < dp_next_group d" using del(4) by (simp_all add: meta_matches_def Let_def)
  have st: "stamped d2 g = stamped d g" "owed d2 g = owed d g - (if g = ?gid then if_rollout_count m else 0)" for g
    using pc del(1)[of g] by (simp_all add: d2_def d1_def release_def stamped_def owed_def inflight_of_def unscheduled_def)
  have before: "before_emission d2 ?gid (if_rollout_count m)"
    unfolding before_emission_def st
    using i n del(3) unfolding d2_def d1_def release_def
    by (auto simp: config_ok_def groups_ok_def queue_ok_def ledgers_ok_def ledger_def known_env_def inflight_ok_def meta_matches_def
        rollout_matches_def stamped_def owed_def out_maxsize_def pc)
  have drop: "drop_ok d2" using i(5) by (simp add: d2_def d1_def release_def drop_ok_def hand_ok_def meta_matches_def rollout_matches_def cong: DropPc.case_cong)
  have permits: "dp_inflight_permits d2 = all_inflight d2" "dp_inflight_permits d2 \<le> dp_max_inflight d2"
    using i(6) del(2) n(1) pc by (simp_all add: d2_def d1_def release_def permits_ok_def all_inflight_def)
  define hg where "hg = (?gid \<in> set (dp_groups d))"
  have hg: "?gid \<in> set (dp_groups d2) \<longrightarrow> hg" by (simp add: hg_def d2_def d1_def release_def)
  have send: "disp_inv (loop_emission hg tasks (emit_all settle_result hg (map (Pair m) rs) d1) d0)"
    if "int (length rs) = if_rollout_count m" for rs d0
  proof (rule loop_emission_inv[OF before _ d2_def drop permits _ _ hg prepares_settle])
    show "\<forall>(m', _) \<in> set (map (Pair m) rs). if_group_id m' = ?gid \<and> meta_matches d2 m'"
      using del(4) by (auto simp: d2_def d1_def release_def meta_matches_def)
  qed (use that in \<open>simp_all add: d2_def\<close>)
  have lost: "disp_inv (d1\<lparr> dp_abandoned := (dp_abandoned d1)(?gid := dp_abandoned d1 ?gid + if_rollout_count m), dp_loop := lpc \<rparr>)"
    if "lpc = LoopHandling tasks \<or> (\<exists>e. lpc = LoopFailed e)" for lpc
  proof -
    define x where "x = d1\<lparr> dp_abandoned := (dp_abandoned d1)(?gid := dp_abandoned d1 ?gid + if_rollout_count m), dp_loop := lpc \<rparr>"
    have "stamped x g = stamped d g" "owed x g = owed d g - (if g = ?gid then if_rollout_count m else 0)" for g
      using that pc del(1)[of g] by (auto simp: x_def d1_def release_def stamped_def owed_def inflight_of_def unscheduled_def)
    note acc = this
    have "ledgers_ok x" using i(7) n unfolding ledgers_ok_def ledger_def acc by (auto simp: x_def d1_def release_def)
    moreover have "groups_ok x" using i(2) unfolding groups_ok_def acc(1) by (simp add: x_def d1_def release_def known_env_def)
    moreover have "config_ok x" "inflight_ok x" "queue_ok x" "drop_ok x"
      using i(1,4,5) del(3) by (simp_all add: x_def d1_def release_def config_ok_def inflight_ok_def queue_ok_def drop_ok_def hand_ok_def
          meta_matches_def rollout_matches_def out_maxsize_def cong: DropPc.case_cong)
    moreover have "loop_ok x" using that by (auto simp: x_def loop_ok_def)
    moreover have "permits_ok x" using that i(6) del(2) n(1) pc by (auto simp: x_def d1_def release_def permits_ok_def all_inflight_def)
    ultimately show ?thesis unfolding x_def[symmetric] disp_inv_def by simp
  qed
  show ?thesis
    unfolding handle_completed_rollout_def Some option.case Let_def d1_def[symmetric] hg_def[symmetric]
    using send lost outcome Some n(1) by (cases outcome) (auto simp: outcome_ok_def simp del: map_replicate)
qed

lemma put_loop_inv:
  assumes inv: "disp_inv d" and pc: "dp_loop d = LoopBlocked hg r rest tasks" and room: "\<not> out_full d"
  shows "disp_inv (loop_emission hg tasks (emit_all settle_result hg rest (d\<lparr> dp_out_q := dp_out_q d @ [r] \<rparr>)) d0)"
proof -
  have i: "config_ok d" "groups_ok d" "inflight_ok d" "queue_ok d" "drop_ok d" "permits_ok d" "ledgers_ok d"
    using inv by (simp_all add: disp_inv_def)
  have hand: "hand_ok d r rest" "tr_group_id r \<in> set (dp_groups d) \<longrightarrow> hg" using inv pc by (simp_all add: disp_inv_def loop_ok_def)
  define d1 where "d1 = d\<lparr> dp_out_q := dp_out_q d @ [r] \<rparr>"
  define d2 where "d2 = d1\<lparr> dp_loop := LoopHandling tasks \<rparr>"
  let ?gid = "tr_group_id r"
  have gid: "?gid < dp_next_group d" using hand(1) by (simp add: hand_ok_def rollout_matches_def Let_def)
  have rest: "\<forall>(m, _) \<in> set rest. if_group_id m = ?gid \<and> meta_matches d2 m"
    using hand(1) by (auto simp: hand_ok_def d2_def d1_def meta_matches_def)
  then have "\<forall>(m, _) \<in> set rest. if_group_id m = ?gid" by auto
  note pend = pending_of_all[OF this]
  have st: "stamped d2 g = stamped d g" "owed d2 g = owed d g - (if g = ?gid then int (length rest) else 0)" for g
    using pc by (auto simp: d2_def d1_def stamped_def owed_def inflight_of_def unscheduled_def pend)
  have before: "before_emission d2 ?gid (int (length rest))"
    unfolding before_emission_def st
    using i hand(1) gid room unfolding d2_def d1_def
    by (auto simp: config_ok_def groups_ok_def queue_ok_def ledgers_ok_def ledger_def known_env_def inflight_ok_def meta_matches_def
        rollout_matches_def hand_ok_def out_full_def stamped_def owed_def out_maxsize_def pc)
  have drop: "drop_ok d2" using i(5) by (simp add: d2_def d1_def drop_ok_def hand_ok_def meta_matches_def rollout_matches_def cong: DropPc.case_cong)
  have permits: "dp_inflight_permits d2 = all_inflight d2" "dp_inflight_permits d2 \<le> dp_max_inflight d2"
    using i(6) pc by (simp_all add: d2_def d1_def permits_ok_def all_inflight_def)
  have hg: "?gid \<in> set (dp_groups d2) \<longrightarrow> hg" using hand(2) by (simp add: d2_def d1_def)
  show ?thesis unfolding d1_def[symmetric]
    by (rule loop_emission_inv[OF before _ d2_def drop permits rest _ hg prepares_settle]) (simp_all add: d2_def)
qed

lemma put_drop_inv:
  assumes inv: "disp_inv d" and pc: "dp_drop d = DropBlocked hg r rest note gids" and room: "\<not> out_full d"
  shows "disp_inv (drop_emission hg note gids (emit_all keep_marker hg rest (d\<lparr> dp_out_q := dp_out_q d @ [r] \<rparr>)) d0)"
proof -
  have i: "config_ok d" "groups_ok d" "inflight_ok d" "queue_ok d" "loop_ok d" "permits_ok d" "ledgers_ok d"
    using inv by (simp_all add: disp_inv_def)
  have hand: "hand_ok d r rest" "tr_group_id r \<notin> set (dp_groups d)" "\<forall>g \<in> set gids. g < dp_next_group d"
    using inv pc by (simp_all add: disp_inv_def drop_ok_def)
  define d1 where "d1 = d\<lparr> dp_out_q := dp_out_q d @ [r] \<rparr>"
  define d2 where "d2 = d1\<lparr> dp_drop := DropIdle \<rparr>"
  let ?gid = "tr_group_id r"
  have gid: "?gid < dp_next_group d" using hand(1) by (simp add: hand_ok_def rollout_matches_def Let_def)
  have rest: "\<forall>(m, _) \<in> set rest. if_group_id m = ?gid \<and> meta_matches d2 m"
    using hand(1) by (auto simp: hand_ok_def d2_def d1_def meta_matches_def)
  then have "\<forall>(m, _) \<in> set rest. if_group_id m = ?gid" by auto
  note pend = pending_of_all[OF this]
  have st: "stamped d2 g = stamped d g" "owed d2 g = owed d g - (if g = ?gid then int (length rest) else 0)" for g
    using pc by (auto simp: d2_def d1_def stamped_def owed_def inflight_of_def unscheduled_def pend)
  have before: "before_emission d2 ?gid (int (length rest))"
    unfolding before_emission_def st
    using i hand(1) gid room unfolding d2_def d1_def
    by (auto simp: config_ok_def groups_ok_def queue_ok_def ledgers_ok_def ledger_def known_env_def inflight_ok_def meta_matches_def
        rollout_matches_def hand_ok_def out_full_def stamped_def owed_def out_maxsize_def pc)
  have loop: "loop_ok d2" using i(5) by (simp add: d2_def d1_def loop_ok_def hand_ok_def meta_matches_def rollout_matches_def group_cost_def
      available_permits_def cong: LoopPc.case_cong)
  have permits: "permits_ok d2" using i(6) by (simp add: d2_def d1_def permits_ok_def all_inflight_def)
  have gone: "?gid \<notin> set (dp_groups d2)" and gids: "\<forall>g \<in> set gids. g < dp_next_group d2" using hand(2,3) by (simp_all add: d2_def d1_def)
  show ?thesis unfolding d1_def[symmetric]
    by (rule drop_emission_inv[OF before _ d2_def loop permits gone gids rest _ prepares_keep]) (simp_all add: d2_def)
qed

text \<open>Scheduling: with the loop suspended at the selection of a client, the claim and the launch keep the invariant.\<close>

lemma inflight_add:
  assumes "inflight_ok d" "meta_matches d m"
  shows "inflight_of (d\<lparr> dp_inflight := od_set (dp_next_task d) m (dp_inflight d) \<rparr>) g = inflight_of d g + (if if_group_id m = g then if_rollout_count m else 0)"
    and "all_inflight (d\<lparr> dp_inflight := od_set (dp_next_task d) m (dp_inflight d) \<rparr>) = all_inflight d + if_rollout_count m"
    and "inflight_ok (d\<lparr> dp_inflight := od_set (dp_next_task d) m (dp_inflight d), dp_next_task := Suc (dp_next_task d) \<rparr>)"
proof -
  have fresh: "dp_next_task d \<notin> set (od_keys (dp_inflight d))" using assms(1) by (auto simp: inflight_ok_def)
  note app = od_set_fresh[OF fresh, of m]
  show "inflight_of (d\<lparr> dp_inflight := od_set (dp_next_task d) m (dp_inflight d) \<rparr>) g = inflight_of d g + (if if_group_id m = g then if_rollout_count m else 0)"
    by (simp add: inflight_of_def app)
  show "all_inflight (d\<lparr> dp_inflight := od_set (dp_next_task d) m (dp_inflight d) \<rparr>) = all_inflight d + if_rollout_count m"
    by (simp add: all_inflight_def app)
  have "\<forall>task \<in> set (od_keys (dp_inflight d @ [(dp_next_task d, m)])). task < Suc (dp_next_task d)"
    using assms(1) by (auto simp: inflight_ok_def less_Suc_eq)
  moreover have "od_ok (dp_inflight d @ [(dp_next_task d, m)])" using assms(1) fresh by (simp add: inflight_ok_def od_ok_def)
  ultimately show "inflight_ok (d\<lparr> dp_inflight := od_set (dp_next_task d) m (dp_inflight d), dp_next_task := Suc (dp_next_task d) \<rparr>)"
    using assms unfolding inflight_ok_def by (auto simp: app meta_matches_def)
qed

lemma launch_inv:
  assumes inv: "disp_inv (d\<lparr> dp_loop := LoopAcquiring gid permits permits \<rparr>)"
  shows "disp_inv (launch gid permits d)"
proof -
  let ?e = "d\<lparr> dp_loop := LoopAcquiring gid permits permits \<rparr>"
  have i: "config_ok d" "groups_ok ?e" "inflight_ok d" "queue_ok d" "drop_ok d" "permits_ok ?e" "ledgers_ok ?e"
    using inv unfolding disp_inv_def by (simp_all only: loop_pc_simps)
  have pc: "gid < dp_next_group d" "1 \<le> permits" using inv by (simp_all add: disp_inv_def loop_ok_def)
  define m where "m = \<lparr> if_kind = gs_kind (dp_store d gid), if_env_name = gs_env_name (dp_store d gid), if_group_id = gid,
      if_policy_version = gs_policy_version_at_start (dp_store d gid), if_rollout_count = permits,
      if_client_config = gs_pinned_client (dp_store d gid), if_off_policy_steps = 0, if_eval_step = gs_eval_step (dp_store d gid) \<rparr>"
  have m: "meta_matches d m" using pc by (simp add: meta_matches_def m_def)
  define x where "x = d\<lparr> dp_inflight := od_set (dp_next_task d) m (dp_inflight d), dp_next_task := Suc (dp_next_task d), dp_loop := LoopTop \<rparr>"
  have x: "launch gid permits d = x" unfolding launch_def Let_def m_def x_def ..
  note add = inflight_add[OF i(3) m]
  have "if_group_id m = gid" "if_rollout_count m = permits" by (simp_all add: m_def)
  then have acc: "stamped x g = stamped ?e g" "owed x g = owed ?e g" for g
    using add(1)[of g] by (auto simp: x_def stamped_def owed_def inflight_of_def unscheduled_def)
  have "ledgers_ok x" using i(7) unfolding ledgers_ok_def ledger_def acc by (simp add: x_def)
  moreover have "groups_ok x" using i(2) unfolding groups_ok_def acc(1) by (simp add: x_def known_env_def)
  moreover have "inflight_ok x" using add(3) by (simp add: x_def)
  moreover have "config_ok x" "queue_ok x" "drop_ok x" using i(1,4,5)
    by (simp_all add: x_def config_ok_def queue_ok_def drop_ok_def hand_ok_def meta_matches_def rollout_matches_def out_maxsize_def cong: DropPc.case_cong)
  moreover have "loop_ok x" by (simp add: x_def loop_ok_def)
  moreover have "permits_ok x" using i(6) add(2) by (simp add: x_def permits_ok_def all_inflight_def m_def)
  ultimately show ?thesis unfolding x disp_inv_def by simp
qed

lemma acquire_inv:
  assumes inv: "disp_inv d" and pc: "dp_loop d = LoopAcquiring gid permits taken"
  shows "disp_inv (acquire_next gid permits taken d)"
proof (cases "taken < permits")
  case True
  define x where "x = d\<lparr> dp_inflight_permits := dp_inflight_permits d + 1, dp_loop := LoopAcquiring gid permits (taken + 1) \<rparr>"
  have i: "config_ok d" "groups_ok d" "inflight_ok d" "queue_ok d" "loop_ok d" "drop_ok d" "permits_ok d" "ledgers_ok d"
    using inv by (simp_all add: disp_inv_def)
  have acc: "stamped x g = stamped d g" "owed x g = owed d g" for g
    using pc by (simp_all add: x_def stamped_def owed_def inflight_of_def unscheduled_def)
  have "ledgers_ok x" using i(8) unfolding ledgers_ok_def ledger_def acc by (simp add: x_def)
  moreover have "groups_ok x" using i(2) unfolding groups_ok_def acc(1) by (simp add: x_def known_env_def)
  moreover have "config_ok x" "inflight_ok x" "queue_ok x" "drop_ok x" using i(1,3,4,6)
    by (simp_all add: x_def config_ok_def inflight_ok_def queue_ok_def drop_ok_def hand_ok_def meta_matches_def rollout_matches_def out_maxsize_def
        cong: DropPc.case_cong)
  moreover have "loop_ok x" using i(5) pc True by (simp add: x_def loop_ok_def available_permits_def)
  moreover have "permits_ok x" using i(5,7) pc True by (simp add: x_def permits_ok_def all_inflight_def loop_ok_def available_permits_def)
  ultimately show ?thesis using True unfolding acquire_next_def x_def[symmetric] disp_inv_def by simp
next
  case False
  have "taken = permits" using False inv pc by (simp add: disp_inv_def loop_ok_def)
  then have "d\<lparr> dp_loop := LoopAcquiring gid permits permits \<rparr> = d" using pc by simp
  then show ?thesis using False inv launch_inv[where d = d and gid = gid and permits = permits] unfolding acquire_next_def by simp
qed

lemma group_cost_frame:
  assumes "gs_kind (dp_store x g) = gs_kind (dp_store d g)" "gs_env_name (dp_store x g) = gs_env_name (dp_store d g)"
    "gs_rollouts_to_schedule (dp_store x g) = gs_rollouts_to_schedule (dp_store d g)" "group_envs (gs_kind (dp_store d g)) x = group_envs (gs_kind (dp_store d g)) d"
  shows "group_cost x g = group_cost d g"
  unfolding group_cost_def Let_def assms ..

lemma claim_inv:
  assumes inv: "disp_inv (d\<lparr> dp_loop := LoopSelecting gid \<rparr>)" and reg: "gid \<in> set (dp_groups d)"
  shows "\<exists>d'. claim_group gid d = Ok d' \<and> disp_inv d'"
proof -
  let ?e = "d\<lparr> dp_loop := LoopSelecting gid \<rparr>"
  have i: "config_ok d" "groups_ok ?e" "inflight_ok d" "queue_ok d" "drop_ok d" "permits_ok ?e" "ledgers_ok ?e"
    using inv unfolding disp_inv_def by (simp_all only: loop_pc_simps)
  have "loop_ok ?e" using inv by (simp add: disp_inv_def)
  then obtain cost where sel: "gid < dp_next_group d" "1 \<le> gs_rollouts_to_schedule (dp_store d gid)" "group_cost d gid = Some cost" "cost \<le> available_permits d"
    using reg by (auto simp: loop_ok_def)
  obtain envs env where env: "group_envs (gs_kind (dp_store d gid)) d = Some envs" "od_get (gs_env_name (dp_store d gid)) envs = Some env"
    using sel(3) unfolding group_cost_def Let_def by (auto split: option.splits)
  then have cost: "cost = (if es_requires_group_scoring env then gs_rollouts_to_schedule (dp_store d gid) else 1)"
    using sel(3) by (simp add: group_cost_def)
  define left where "left = (if es_requires_group_scoring env then 0 else gs_rollouts_to_schedule (dp_store d gid) - 1)"
  have left: "left = gs_rollouts_to_schedule (dp_store d gid) - cost" "1 \<le> cost" "0 \<le> left" using sel(2) by (simp_all add: left_def cost)
  define d1 where "d1 = d\<lparr> dp_store := (dp_store d)(gid := (dp_store d gid)\<lparr> gs_rollouts_to_schedule := left \<rparr>) \<rparr>"
  have claim: "claim_group gid d = Ok (if dp_rate_limited d1 then d1\<lparr> dp_loop := LoopAcquiring gid cost 0 \<rparr>
      else launch gid cost (d1\<lparr> dp_inflight_permits := dp_inflight_permits d1 + max 0 cost \<rparr>))"
    unfolding claim_group_def Let_def env option.case env_get_def bindE.simps cost[symmetric] left_def[symmetric] d1_def ..
  have keep: "disp_inv (d1\<lparr> dp_inflight_permits := dp_inflight_permits d1 + k, dp_loop := LoopAcquiring gid cost k \<rparr>)" if k: "0 \<le> k" "k \<le> cost" for k
  proof -
    define x where "x = d1\<lparr> dp_inflight_permits := dp_inflight_permits d1 + k, dp_loop := LoopAcquiring gid cost k \<rparr>"
    have store: "gs_kind (dp_store x g) = gs_kind (dp_store d g)" "gs_env_name (dp_store x g) = gs_env_name (dp_store d g)"
      "gs_policy_version_at_start (dp_store x g) = gs_policy_version_at_start (dp_store d g)" "gs_eval_step (dp_store x g) = gs_eval_step (dp_store d g)"
      "gs_emitted (dp_store x g) = gs_emitted (dp_store d g)" "gs_target_rollouts (dp_store x g) = gs_target_rollouts (dp_store d g)"
      "gs_rollouts_to_schedule (dp_store x g) = (if g = gid then left else gs_rollouts_to_schedule (dp_store d g))" for g
      by (simp_all add: x_def d1_def)
    have acc: "stamped x g = stamped ?e g" "owed x g = owed ?e g" for g
      using reg left(1) by (auto simp: x_def d1_def stamped_def owed_def inflight_of_def unscheduled_def)
    have ke: "known_env x g = known_env d g" for g unfolding known_env_def store by (simp add: x_def d1_def)
    have match: "meta_matches x m = meta_matches d m" "rollout_matches x r = rollout_matches d r" for m r
      by (rule matches_cong; simp add: x_def d1_def)+
    have "ledgers_ok x" using i(7) unfolding ledgers_ok_def ledger_def acc store by (simp add: x_def d1_def)
    moreover have "groups_ok x" using i(2) left(3) unfolding groups_ok_def acc(1) store ke by (simp add: x_def d1_def)
    moreover have "config_ok x" using i(1) by (simp add: x_def d1_def config_ok_def)
    moreover have "inflight_ok x" "queue_ok x" "drop_ok x" using i(3,4,5) unfolding inflight_ok_def queue_ok_def drop_ok_def hand_ok_def match
      by (simp_all add: x_def d1_def out_maxsize_def cong: DropPc.case_cong)
    moreover have "loop_ok x" using sel(1,4) k left(2) by (simp add: x_def d1_def loop_ok_def available_permits_def)
    moreover have "permits_ok x" using i(6) sel(4) k by (simp add: x_def d1_def permits_ok_def all_inflight_def available_permits_def)
    ultimately show ?thesis unfolding x_def[symmetric] disp_inv_def by simp
  qed
  show ?thesis
  proof (cases "dp_rate_limited d1")
    case True
    then show ?thesis using claim keep[of 0] left(2) by simp
  next
    case False
    have "disp_inv (launch gid cost (d1\<lparr> dp_inflight_permits := dp_inflight_permits d1 + cost \<rparr>))"
      using keep[of cost] left(2) by (intro launch_inv) simp
    then show ?thesis using claim False left(2) by simp
  qed
qed

lemma select_inv:
  assumes inv: "disp_inv d" and pc: "dp_loop d = LoopSelecting gid"
  shows "disp_inv (or_fail (client_selected gid client d) d)"
proof (cases "gid \<in> set (dp_groups d)")
  case False
  define x where "x = d\<lparr> dp_loop := LoopWaiting \<rparr>"
  have acc: "stamped x g = stamped d g" "owed x g = owed d g" for g using pc by (simp_all add: x_def stamped_def owed_def)
  have "disp_inv x" using inv pc unfolding disp_inv_def groups_ok_def ledgers_ok_def ledger_def acc
    by (simp add: x_def loop_ok_def permits_ok_def)
  then show ?thesis using False by (simp add: client_selected_def or_fail_def x_def)
next
  case True
  define x where "x = d\<lparr> dp_store := (dp_store d)(gid := (dp_store d gid)\<lparr> gs_pinned_client := Some client \<rparr>) \<rparr>"
  have pcx: "x\<lparr> dp_loop := LoopSelecting gid \<rparr> = x" using pc by (simp add: x_def)
  have i: "config_ok d" "groups_ok d" "inflight_ok d" "queue_ok d" "loop_ok d" "drop_ok d" "permits_ok d" "ledgers_ok d"
    using inv by (simp_all add: disp_inv_def)
  have store: "gs_kind (dp_store x g) = gs_kind (dp_store d g)" "gs_env_name (dp_store x g) = gs_env_name (dp_store d g)"
    "gs_policy_version_at_start (dp_store x g) = gs_policy_version_at_start (dp_store d g)" "gs_eval_step (dp_store x g) = gs_eval_step (dp_store d g)"
    "gs_emitted (dp_store x g) = gs_emitted (dp_store d g)" "gs_target_rollouts (dp_store x g) = gs_target_rollouts (dp_store d g)"
    "gs_rollouts_to_schedule (dp_store x g) = gs_rollouts_to_schedule (dp_store d g)" for g
    by (simp_all add: x_def)
  have acc: "stamped x g = stamped d g" "owed x g = owed d g" for g
    by (simp_all add: x_def stamped_def owed_def inflight_of_def unscheduled_def)
  have ke: "known_env x g = known_env d g" for g unfolding known_env_def store by (simp add: x_def)
  have gc: "group_cost x g = group_cost d g" for g by (rule group_cost_frame) (simp_all add: x_def)
  have match: "meta_matches x m = meta_matches d m" "rollout_matches x r = rollout_matches d r" for m r
    by (rule matches_cong; simp add: x_def)+
  have "ledgers_ok x" using i(8) unfolding ledgers_ok_def ledger_def acc store by (simp add: x_def)
  moreover have "groups_ok x" using i(2) unfolding groups_ok_def acc(1) store ke by (simp add: x_def)
  moreover have "config_ok x" "permits_ok x" using i(1,7) by (simp_all add: x_def config_ok_def permits_ok_def all_inflight_def)
  moreover have "inflight_ok x" "queue_ok x" "drop_ok x" using i(3,4,6) unfolding inflight_ok_def queue_ok_def drop_ok_def hand_ok_def match
    by (simp_all add: x_def out_maxsize_def cong: DropPc.case_cong)
  moreover have "loop_ok x" using i(5) pc unfolding loop_ok_def gc store by (simp add: x_def available_permits_def)
  ultimately have "disp_inv x" by (simp add: disp_inv_def)
  then obtain d' where "claim_group gid x = Ok d'" "disp_inv d'" using claim_inv[of gid x] True pcx by (auto simp: x_def)
  then show ?thesis using True by (simp add: client_selected_def or_fail_def x_def)
qed

text \<open>Opening a group.\<close>

definition opened :: "GroupState \<Rightarrow> Dispatcher \<Rightarrow> Dispatcher" where
  "opened grp d = d\<lparr> dp_store := (dp_store d)(dp_next_group d := grp), dp_groups := dp_groups d @ [dp_next_group d],
     dp_next_group := Suc (dp_next_group d) \<rparr>"

lemma no_trace:
  assumes "disp_inv d" "dp_next_group d \<le> g"
  shows "stamped d g = loop_stamped (dp_loop d) g" "inflight_of d g = 0" "drop_held (dp_drop d) g = 0" "g \<notin> set (dp_groups d)" "dp_abandoned d g = 0"
proof -
  have i: "groups_ok d" "inflight_ok d" "queue_ok d" "drop_ok d" "ledgers_ok d" using assms(1) by (simp_all add: disp_inv_def)
  have none: "count_of g rs = 0" if "\<forall>r \<in> set rs. rollout_matches d r" for rs
  proof -
    have "tr_group_id r \<noteq> g" if "r \<in> set rs" for r using that \<open>\<forall>r \<in> set rs. _\<close> assms(2) by (auto simp: rollout_matches_def Let_def)
    then show ?thesis by (auto simp: count_of_def filter_empty_conv)
  qed
  have hand: "tr_group_id r \<noteq> g \<and> pending_of g rest = 0" if "hand_ok d r rest" for r rest
  proof -
    have "\<forall>(m, _) \<in> set rest. if_group_id m = tr_group_id r" using that by (auto simp: hand_ok_def)
    then show ?thesis using that assms(2) pending_of_all[of rest "tr_group_id r" g] by (auto simp: hand_ok_def rollout_matches_def Let_def)
  qed
  have drop: "drop_stamped (dp_drop d) g = 0 \<and> drop_held (dp_drop d) g = 0"
    using i(4) hand by (cases "dp_drop d") (auto simp: drop_ok_def)
  show "stamped d g = loop_stamped (dp_loop d) g" using none i(3) drop by (simp add: stamped_def queue_ok_def)
  show "drop_held (dp_drop d) g = 0" using drop by simp
  have "inflight_of d g = sum_list (map (\<lambda>_. 0) (dp_inflight d))"
    unfolding inflight_of_def using i(2) assms(2)
    by (intro arg_cong[where f = sum_list] map_cong) (force simp: inflight_ok_def meta_matches_def Let_def)+
  then show "inflight_of d g = 0" by simp
  show "g \<notin> set (dp_groups d)" using i(1) assms(2) by (auto simp: groups_ok_def)
  show "dp_abandoned d g = 0" using i(5) assms(2) by (simp add: ledgers_ok_def)
qed

lemma opened_inv:
  assumes inv: "disp_inv d" and pc: "dp_loop d = LoopTop"
    and grp: "1 \<le> gs_rollouts_to_schedule grp" "gs_target_rollouts grp = gs_rollouts_to_schedule grp" "gs_emitted grp = 0"
      "gs_kind grp = Eval \<Longrightarrow> gs_eval_step grp \<noteq> None"
      "group_envs (gs_kind grp) d = Some envs" "od_get (gs_env_name grp) envs = Some env"
      "(if es_requires_group_scoring env then gs_rollouts_to_schedule grp else 1) \<le> available_permits d"
  shows "disp_inv ((opened grp d)\<lparr> dp_loop := LoopSelecting (dp_next_group d) \<rparr>)"
proof -
  define x where "x = (opened grp d)\<lparr> dp_loop := LoopSelecting (dp_next_group d) \<rparr>"
  let ?n = "dp_next_group d"
  have i: "config_ok d" "groups_ok d" "inflight_ok d" "queue_ok d" "drop_ok d" "permits_ok d" "ledgers_ok d"
    using inv by (simp_all add: disp_inv_def)
  note nt = no_trace[OF inv, of ?n, simplified]
  have store: "dp_store x g = (if g = ?n then grp else dp_store d g)" for g by (simp add: x_def opened_def)
  have envs: "group_envs kind x = group_envs kind d" for kind by (simp add: x_def opened_def)
  have st: "stamped x g = stamped d g" for g using pc by (simp add: x_def opened_def stamped_def)
  have ow: "owed x g = owed d g + (if g = ?n then gs_rollouts_to_schedule grp else 0)" for g
    using pc nt(4) by (auto simp: x_def opened_def owed_def inflight_of_def unscheduled_def)
  have zero: "owed d ?n = 0" "stamped d ?n = 0" using nt pc by (simp_all add: owed_def unscheduled_def)
  have ke: "known_env x g" if "g < Suc ?n" for g
    using that i(2) grp(5,6) unfolding known_env_def envs store by (auto simp: groups_ok_def known_env_def less_Suc_eq)
  have match: "meta_matches x m" if "meta_matches d m" for m
    using that unfolding meta_matches_def Let_def store by (simp add: x_def opened_def)
  have match': "rollout_matches x r" if "rollout_matches d r" for r
    using that unfolding rollout_matches_def Let_def store by (auto simp: x_def opened_def) metis
  have "ledgers_ok x"
    unfolding ledgers_ok_def ledger_def st ow store
    using i(7) nt(5) zero grp(2) by (auto simp: ledgers_ok_def ledger_def x_def opened_def less_Suc_eq)
  moreover have "groups_ok x"
    unfolding groups_ok_def st store using i(2) ke nt(4) zero(2) grp(1,3,4) by (auto simp: groups_ok_def x_def opened_def less_Suc_eq)
  moreover have "config_ok x" "permits_ok x" using i(1,6) pc by (simp_all add: x_def opened_def config_ok_def permits_ok_def all_inflight_def)
  moreover have "inflight_ok x" using i(3) match by (auto simp: x_def opened_def inflight_ok_def)
  moreover have "queue_ok x" using i(4) match' by (auto simp: x_def opened_def queue_ok_def out_maxsize_def)
  moreover have "drop_ok x"
  proof (cases "dp_drop d")
    case (DropBlocked hg r rest memo gids)
    then have old: "hand_ok d r rest" "tr_group_id r \<notin> set (dp_groups d)" "\<forall>g \<in> set gids. g < ?n" using i(5) by (simp_all add: drop_ok_def)
    then have "hand_ok x r rest" using match match' by (auto simp: hand_ok_def)
    moreover have "tr_group_id r < ?n" using old(1) by (simp add: hand_ok_def rollout_matches_def Let_def)
    ultimately show ?thesis using old DropBlocked by (auto simp: drop_ok_def x_def opened_def)
  qed (use i(5) in \<open>auto simp: drop_ok_def x_def opened_def less_Suc_eq\<close>)
  moreover have "group_cost x ?n = Some (if es_requires_group_scoring env then gs_rollouts_to_schedule grp else 1)"
    unfolding group_cost_def Let_def store envs using grp(5,6) by simp
  then have "loop_ok x" using grp(1,7) by (auto simp: loop_ok_def x_def opened_def available_permits_def)
  ultimately show ?thesis unfolding x_def[symmetric] disp_inv_def by simp
qed

lemma continue_group_props:
  "continue_group kind envs gids d = Ok (Some gid) \<Longrightarrow> gid \<in> set gids \<and> gs_kind (dp_store d gid) = kind \<and> 1 \<le> gs_rollouts_to_schedule (dp_store d gid) \<and>
     (\<exists>env. od_get (gs_env_name (dp_store d gid)) envs = Some env \<and>
        (if es_requires_group_scoring env then gs_rollouts_to_schedule (dp_store d gid) else 1) \<le> available_permits d)"
  by (induction gids) (auto simp: Let_def result_simps env_get_def split: if_splits option.splits)

lemma schedule_inv:
  assumes inv: "disp_inv (d\<lparr> dp_loop := LoopSelecting gid \<rparr>)" and reg: "gid \<in> set (dp_groups d)"
  shows "\<exists>d'. schedule_group_rollout gid d = Ok d' \<and> disp_inv d'"
  using claim_inv[OF assms] inv by (simp add: schedule_group_rollout_def)

lemma loop_pc_inv:
  assumes "disp_inv d" "dp_loop d = LoopTop" "(\<And>g. loop_held pc g = 0)" "(\<And>g. loop_stamped pc g = 0)" "taken_permits pc = 0" "loop_ok (d\<lparr> dp_loop := pc \<rparr>)"
  shows "disp_inv (d\<lparr> dp_loop := pc \<rparr>)"
proof -
  have acc: "stamped (d\<lparr> dp_loop := pc \<rparr>) g = stamped d g" "owed (d\<lparr> dp_loop := pc \<rparr>) g = owed d g" for g
    using assms(2-4) by (simp_all add: stamped_def owed_def)
  show ?thesis using assms(1,2,5,6) unfolding disp_inv_def groups_ok_def ledgers_ok_def ledger_def acc by (simp add: permits_ok_def)
qed

text \<open>Fields the accounting does not read.\<close>

lemma disp_inv_frame:
  assumes inv: "disp_inv d" and cfg: "config_ok x"
    and eq: "dp_train_envs x = dp_train_envs d" "dp_eval_envs x = dp_eval_envs d" "dp_max_inflight x = dp_max_inflight d"
      "dp_inflight_permits x = dp_inflight_permits d" "dp_inflight x = dp_inflight d" "dp_store x = dp_store d" "dp_groups x = dp_groups d"
      "dp_out_q x = dp_out_q d" "dp_next_group x = dp_next_group d" "dp_next_task x = dp_next_task d" "dp_loop x = dp_loop d"
      "dp_drop x = dp_drop d" "dp_delivered x = dp_delivered d" "dp_abandoned x = dp_abandoned d"
  shows "disp_inv x"
proof -
  have envs: "group_envs kind x = group_envs kind d" for kind unfolding group_envs_def eq ..
  have acc: "stamped x g = stamped d g" "owed x g = owed d g" for g
    unfolding stamped_def owed_def inflight_of_def unscheduled_def eq by (rule refl)+
  have ke: "known_env x g = known_env d g" for g unfolding known_env_def envs eq ..
  have gc: "group_cost x g = group_cost d g" for g unfolding group_cost_def Let_def envs eq ..
  have match: "meta_matches x m = meta_matches d m" "rollout_matches x r = rollout_matches d r" for m r
    unfolding meta_matches_def rollout_matches_def eq by (rule refl)+
  show ?thesis
    using inv cfg unfolding disp_inv_def groups_ok_def inflight_ok_def queue_ok_def loop_ok_def drop_ok_def hand_ok_def permits_ok_def ledgers_ok_def
      ledger_def available_permits_def all_inflight_def out_maxsize_def eq acc ke gc match by blast
qed

lemma next_fresh_props:
  assumes inv: "disp_inv d" and draw: "valid_draw draw (dp_train_source d)" and envs: "group_envs kind d = Some envs"
    and run: "next_fresh_group draw kind envs d = Ok (fresh, d1)"
  shows "disp_inv d1 \<and> dp_loop d1 = dp_loop d \<and> (dp_loop d = LoopTop \<longrightarrow>
    (\<forall>grp. fresh = Some grp \<longrightarrow> disp_inv ((opened grp d1)\<lparr> dp_loop := LoopSelecting (dp_next_group d1) \<rparr>)))"
proof -
  have cfg: "config_ok d" using inv by (simp add: disp_inv_def)
  obtain ex :: "Example option" and ts es where d1: "d1 = d\<lparr> dp_train_source := ts, dp_eval_source := es \<rparr>" "config_ok d1" and
    ex: "\<And>e. ex = Some e \<Longrightarrow> (\<exists>env. od_get (ex_env_name e) envs = Some env \<and> permit_cost env \<le> available_permits d) \<and>
        (kind = Eval \<longrightarrow> ex_eval_step e \<noteq> None)" and
    fresh: "(case ex of None \<Rightarrow> Ok (None, d1) | Some example \<Rightarrow> bindE (env_get (ex_env_name example) envs) (\<lambda>env.
           Ok (Some \<lparr> gs_kind = kind, gs_env_name = ex_env_name example, gs_task_idx = ex_task_idx example,
                 gs_rollouts_to_schedule = es_group_size env, gs_target_rollouts = es_group_size env, gs_task_data = ex_task_data example,
                 gs_emitted = 0, gs_eval_step = (if kind = Eval then ex_eval_step example else None), gs_pinned_client = None,
                 gs_policy_version_at_start = dp_policy_version d1 \<rparr>, d1))) = Ok (fresh, d1)"
  proof (cases kind)
    case Train
    obtain name shuffle task x where w: "draw = (name, shuffle, task, x)" by (cases draw)
    obtain ex src where nx: "train_next name shuffle task (available_permits d) (dp_train_source d) = Ok (ex, src)"
      using run unfolding next_fresh_group_def Train w by (auto simp: result_simps)
    have shuffle: "mset (shuffle xs) = mset xs" for xs using draw by (simp add: valid_draw_def w)
    have names: "names_ok (dp_train_source d)" using cfg by (simp add: config_ok_def)
    note pr = train_next_props[OF nx names shuffle]
    let ?d1 = "d\<lparr> dp_train_source := src \<rparr>"
    have rest: "d1 = ?d1" using run unfolding next_fresh_group_def Train w by (auto simp: result_simps nx split: option.splits)
    show thesis
    proof (rule that[where ts = src and es = "dp_eval_source d" and ex = ex])
      show "d1 = d\<lparr> dp_train_source := src, dp_eval_source := dp_eval_source d \<rparr>" unfolding rest by simp
      show "config_ok d1" using cfg pr unfolding rest config_ok_def by simp
    next
      fix e assume "ex = Some e"
      then obtain cost where c: "ex_env_name e = name" "od_get name (ts_env_costs (dp_train_source d)) = Some cost" "cost \<le> available_permits d"
        using pr by auto
      have "\<forall>n cost. od_get n (ts_env_costs (dp_train_source d)) = Some cost \<longrightarrow> (\<exists>env. od_get n (dp_train_envs d) = Some env \<and> cost = permit_cost env)"
        using cfg by (simp add: config_ok_def)
      moreover have "envs = dp_train_envs d" using envs Train by (simp add: group_envs_def)
      ultimately show "(\<exists>env. od_get (ex_env_name e) envs = Some env \<and> permit_cost env \<le> available_permits d) \<and> (kind = Eval \<longrightarrow> ex_eval_step e \<noteq> None)"
        using c Train by (metis RolloutKind.distinct(1))
    qed (use run Train in \<open>cases ex; simp add: next_fresh_group_def w nx rest\<close>)
  next
    case Eval
    obtain source where s: "dp_eval_source d = Some source" using run unfolding next_fresh_group_def Eval by (auto simp: result_simps split: option.splits)
    obtain ex src where nx: "eval_next envs (available_permits d) source = Ok (ex, src)"
      using run unfolding next_fresh_group_def Eval by (auto simp: result_simps s)
    let ?d1 = "d\<lparr> dp_eval_source := Some src \<rparr>"
    have rest: "d1 = ?d1" using run unfolding next_fresh_group_def Eval by (auto simp: result_simps nx s split: option.splits)
    have q: "set (el_queue src) \<subseteq> set (el_queue source)" "\<And>e. ex = Some e \<Longrightarrow> e \<in> set (el_queue source) \<and>
        (\<exists>env. od_get (ex_env_name e) envs = Some env \<and> permit_cost env \<le> available_permits d)"
      using nx by (auto simp: eval_next_def split: list.splits option.splits if_splits)
    show thesis
    proof (rule that[where ts = "dp_train_source d" and es = "Some src" and ex = ex])
      show "d1 = d\<lparr> dp_train_source := dp_train_source d, dp_eval_source := Some src \<rparr>" unfolding rest by simp
      show "config_ok d1" using cfg q(1) s unfolding rest config_ok_def by auto
    next
      fix e assume e: "ex = Some e"
      then show "(\<exists>env. od_get (ex_env_name e) envs = Some env \<and> permit_cost env \<le> available_permits d) \<and> (kind = Eval \<longrightarrow> ex_eval_step e \<noteq> None)"
        using q(2)[OF e] cfg s by (auto simp: config_ok_def)
    qed (use run Eval in \<open>cases ex; simp add: next_fresh_group_def s nx rest\<close>)
  qed
  have inv1: "disp_inv d1" by (rule disp_inv_frame[OF inv d1(2)]) (simp_all add: d1(1))
  have envs1: "group_envs kind d1 = Some envs" using envs by (simp add: d1(1))
  have avail: "available_permits d1 = available_permits d" by (simp add: d1(1) available_permits_def)
  have ok: "envs_ok envs" using cfg envs by (cases kind) (auto simp: config_ok_def group_envs_def)
  have "disp_inv ((opened grp d1)\<lparr> dp_loop := LoopSelecting (dp_next_group d1) \<rparr>)" if pc: "dp_loop d = LoopTop" and some: "fresh = Some grp" for grp
  proof -
    obtain e where e: "ex = Some e" using fresh some by (cases ex) auto
    obtain env where env: "od_get (ex_env_name e) envs = Some env" "permit_cost env \<le> available_permits d" using ex[OF e] by blast
    have g: "gs_kind grp = kind" "gs_env_name grp = ex_env_name e" "gs_rollouts_to_schedule grp = es_group_size env"
        "gs_target_rollouts grp = es_group_size env" "gs_emitted grp = 0" "gs_eval_step grp = (if kind = Eval then ex_eval_step e else None)"
      using fresh some e env(1) by (auto simp: env_get_def)
    have "1 \<le> es_group_size env" using ok env(1) by (auto simp: envs_ok_def)
    then show ?thesis
      by (intro opened_inv[OF inv1, of grp envs env]) (use pc g env ex[OF e] envs1 avail d1(1) in \<open>auto simp: permit_cost_def\<close>)
  qed
  then show ?thesis using inv1 d1(1) by simp
qed

lemma fill_inv:
  assumes inv: "disp_inv d" and pc: "dp_loop d = LoopTop" and draw: "valid_draw draw (dp_train_source d)"
  shows "disp_inv (or_fail (fill_inflight draw d) d)"
proof -
  have wait: "disp_inv (d\<lparr> dp_loop := LoopWaiting \<rparr>)" by (rule loop_pc_inv[OF inv pc]) (simp_all add: loop_ok_def)
  have fail: "disp_inv (d\<lparr> dp_loop := LoopFailed e \<rparr>)" for e by (rule loop_pc_inv[OF inv pc]) (simp_all add: loop_ok_def)
  have mode: "disp_inv (switch_mode m d)" for m
    using inv by (intro disp_inv_frame[OF inv]) (simp_all add: switch_mode_def disp_inv_def config_ok_def)
  have attempt: "disp_inv d'" if run: "try_schedule draw kind d = Ok d'" for kind d'
  proof (cases "kind = Train \<and> dp_train_scheduling_disabled d \<or> group_envs kind d = None")
    case True
    then show ?thesis using run wait by (auto simp: try_schedule_def split: if_splits)
  next
    case False
    then obtain envs where envs: "group_envs kind d = Some envs" by auto
    obtain found where found: "continue_group kind envs (dp_groups d) d = Ok found"
        "(case found of Some gid \<Rightarrow> schedule_group_rollout gid d
          | None \<Rightarrow> bindE (next_fresh_group draw kind envs d) (\<lambda>(fresh, d1).
              case fresh of None \<Rightarrow> Ok (d1\<lparr> dp_loop := LoopWaiting \<rparr>)
              | Some grp \<Rightarrow> schedule_group_rollout (dp_next_group d1) (opened grp d1))) = Ok d'"
      using run False envs unfolding try_schedule_def opened_def Let_def by (auto simp: result_simps)
    show ?thesis
    proof (cases found)
      case (Some gid)
      from continue_group_props[OF found(1)[unfolded Some]] obtain env where g: "gid \<in> set (dp_groups d)" "gs_kind (dp_store d gid) = kind"
          "1 \<le> gs_rollouts_to_schedule (dp_store d gid)" "od_get (gs_env_name (dp_store d gid)) envs = Some env"
          "(if es_requires_group_scoring env then gs_rollouts_to_schedule (dp_store d gid) else 1) \<le> available_permits d" by blast
      have "gid < dp_next_group d" using inv g(1) by (simp add: disp_inv_def groups_ok_def)
      then have "disp_inv (d\<lparr> dp_loop := LoopSelecting gid \<rparr>)"
        using g envs by (intro loop_pc_inv[OF inv pc]) (auto simp: loop_ok_def group_cost_def)
      from schedule_inv[OF this g(1)] show ?thesis using found(2) Some by auto
    next
      case None
      then obtain fresh d1 where fresh: "next_fresh_group draw kind envs d = Ok (fresh, d1)"
          "(case fresh of None \<Rightarrow> Ok (d1\<lparr> dp_loop := LoopWaiting \<rparr>) | Some grp \<Rightarrow> schedule_group_rollout (dp_next_group d1) (opened grp d1)) = Ok d'"
        using found(2) by (auto simp: result_simps)
      from next_fresh_props[OF inv draw envs fresh(1)]
      have d1: "disp_inv d1" "dp_loop d1 = LoopTop" and
        grp: "\<And>grp. fresh = Some grp \<Longrightarrow> disp_inv ((opened grp d1)\<lparr> dp_loop := LoopSelecting (dp_next_group d1) \<rparr>)"
        using pc by auto
      show ?thesis
      proof (cases fresh)
        case None
        then have "d' = d1\<lparr> dp_loop := LoopWaiting \<rparr>" using fresh(2) by simp
        then show ?thesis using loop_pc_inv[OF d1, of LoopWaiting] by (simp add: loop_ok_def)
      next
        case (Some grp0)
        have "dp_next_group d1 \<in> set (dp_groups (opened grp0 d1))" by (simp add: opened_def)
        from schedule_inv[OF grp[OF Some] this] show ?thesis using fresh(2) Some by auto
      qed
    qed
  qed
  show ?thesis
    using wait fail mode attempt unfolding or_fail_def fill_inflight_def
    by (auto simp: raise_if_def split: sum.splits if_splits)
qed

lemma sum_matching: "sum_list (map if_rollout_count (filter (\<lambda>m. if_group_id m = g) (od_values kvs))) =
    sum_list (map (\<lambda>(_, m). if if_group_id m = g then if_rollout_count m else 0) kvs)"
  by (induction kvs) auto

lemma sum_others: "sum_list (map (\<lambda>(_, m). if if_group_id m = g then if_rollout_count m else 0) (filter (\<lambda>(_, m). if_group_id m \<noteq> gid) kvs)) =
    (if g = gid then 0 else sum_list (map (\<lambda>(_, m). if if_group_id m = g then if_rollout_count m else 0) kvs))"
  by (induction kvs) auto

lemma sum_all_others: "sum_list (map (\<lambda>(_, m). if_rollout_count m) (filter (\<lambda>(_, m). if_group_id m \<noteq> gid) kvs)) =
    sum_list (map (\<lambda>(_, m). if_rollout_count m) kvs) - sum_list (map (\<lambda>(_, m). if if_group_id m = gid then if_rollout_count m else 0) kvs)"
  by (induction kvs) auto

lemma length_markers: "\<forall>m \<in> set ms. 0 \<le> if_rollout_count m \<Longrightarrow>
    int (length (concat (map (\<lambda>m. replicate (nat (if_rollout_count m)) (m, x)) ms))) = sum_list (map if_rollout_count ms)"
  by (induction ms) auto

lemma drop_group_inv:
  assumes inv: "disp_inv d" and pc: "dp_drop d = DropGroups (gid # gids)"
  shows "disp_inv (drop_group gid gids d)"
proof -
  have i: "config_ok d" "groups_ok d" "inflight_ok d" "queue_ok d" "loop_ok d" "drop_ok d" "permits_ok d" "ledgers_ok d"
    using inv by (simp_all add: disp_inv_def)
  have gid: "gid < dp_next_group d" "\<forall>g \<in> set gids. g < dp_next_group d" using i(6) pc by (simp_all add: drop_ok_def)
  define hg where "hg = (gid \<in> set (dp_groups d))"
  define grp where "grp = (if hg then Some (dp_store d gid) else None)"
  define claimed where "claimed = filter (\<lambda>m. if_group_id m = gid) (od_values (dp_inflight d))"
  define d1 where "d1 = release (sum_list (map if_rollout_count claimed)) (d\<lparr> dp_groups := filter (\<lambda>x. x \<noteq> gid) (dp_groups d),
      dp_inflight := filter (\<lambda>(_, m). if_group_id m \<noteq> gid) (dp_inflight d) \<rparr>)"
  define d2 where "d2 = d1\<lparr> dp_drop := DropIdle \<rparr>"
  have claim: "claim_tasks gid (d\<lparr> dp_groups := filter (\<lambda>x. x \<noteq> gid) (dp_groups d) \<rparr>) = (claimed, d1)"
    unfolding claim_tasks_def d1_def claimed_def by (simp add: Let_def)
  have sum: "sum_list (map if_rollout_count claimed) = inflight_of d gid" unfolding claimed_def inflight_of_def by (rule sum_matching)
  have mm: "\<forall>m \<in> set claimed. if_group_id m = gid \<and> meta_matches d m" using i(3) by (auto simp: claimed_def inflight_ok_def)
  then have pos: "\<forall>m \<in> set claimed. 0 \<le> if_rollout_count m" by (auto simp: meta_matches_def Let_def)
  define n where "n = inflight_of d gid + unscheduled d gid"
  have infl: "inflight_of d2 g = (if g = gid then 0 else inflight_of d g)" for g
    unfolding inflight_of_def d2_def d1_def release_def using sum_others[of g gid "dp_inflight d"] by simp
  have all: "all_inflight d2 = all_inflight d - inflight_of d gid"
    unfolding all_inflight_def inflight_of_def d2_def d1_def release_def using sum_all_others[of gid "dp_inflight d"] by simp
  have st: "stamped d2 g = stamped d g" for g using pc by (simp add: d2_def d1_def release_def stamped_def)
  have ow: "owed d2 g = owed d g - (if g = gid then n else 0)" for g
    using pc infl[of g] by (auto simp: owed_def n_def d2_def d1_def release_def unscheduled_def)
  have match: "meta_matches d2 m = meta_matches d m" "rollout_matches d2 r = rollout_matches d r" for m r
    by (rule matches_cong; simp add: d2_def d1_def release_def)+
  have infl2: "inflight_ok d2"
  proof -
    have "set (dp_inflight d2) \<subseteq> set (dp_inflight d)" "od_ok (dp_inflight d2)"
      using i(3) by (auto simp: d2_def d1_def release_def inflight_ok_def od_ok_def intro: distinct_map_filter)
    then show ?thesis using i(3) unfolding inflight_ok_def match by (auto simp: d2_def d1_def release_def)
  qed
  have before: "before_emission d2 gid n"
    unfolding before_emission_def st ow
    using i(1,2,4,8) gid(1) infl2 unfolding groups_ok_def queue_ok_def match st
    by (auto simp: config_ok_def ledgers_ok_def ledger_def known_env_def d2_def d1_def release_def out_maxsize_def)
  have gc: "group_cost d2 g = group_cost d g" for g by (rule group_cost_frame) (simp_all add: d2_def d1_def release_def)
  have nonneg: "0 \<le> inflight_of d gid" by (rule inflight_of_nonneg[OF i(3)])
  have loop: "loop_ok d2"
    using i(5) nonneg sum unfolding loop_ok_def hand_ok_def match gc
    by (auto simp: d2_def d1_def release_def available_permits_def split: LoopPc.splits)
  have permits: "permits_ok d2" using i(7) all nonneg sum by (simp add: permits_ok_def d2_def d1_def release_def)
  have gone: "gid \<notin> set (dp_groups d2)" and gids: "\<forall>g \<in> set gids. g < dp_next_group d2" using gid(2) by (simp_all add: d2_def d1_def release_def)
  define markers where "markers = drop_markers gid grp claimed"
  have uns: "0 \<le> unscheduled d gid" by (rule unscheduled_nonneg[OF i(2)])
  have len: "int (length markers) = n"
    using uns unfolding markers_def drop_markers_def Let_def n_def length_append of_nat_add length_markers[OF pos] sum
    by (auto simp: grp_def hg_def unscheduled_def split: if_splits)
  have standin: "meta_matches d (stand_in gid (dp_store d gid))" "if_group_id (stand_in gid (dp_store d gid)) = gid"
    using gid(1) by (simp_all add: meta_matches_def stand_in_def)
  have "\<forall>(m, _) \<in> set markers. if_group_id m = gid \<and> meta_matches d m"
    using mm standin unfolding markers_def drop_markers_def Let_def by (auto simp: grp_def split: option.splits if_splits)
  then have ms: "\<forall>(m, _) \<in> set markers. if_group_id m = gid \<and> meta_matches d2 m" unfolding match .
  show ?thesis
    unfolding drop_group_def Let_def hg_def[symmetric] grp_def[symmetric] claim prod.case markers_def[symmetric]
    by (rule drop_emission_inv[OF before _ d2_def loop permits gone gids ms len prepares_keep]) (simp add: d2_def)
qed

lemma age_all_shape: "age_all d kvs = Ok aged \<Longrightarrow> list_all2 (\<lambda>(t, m) (t', m'). t' = t \<and> (\<exists>k. m' = m\<lparr> if_off_policy_steps := k \<rparr>)) kvs aged"
proof (induction d kvs arbitrary: aged rule: age_all.induct)
  case (2 d task m rest)
  obtain b aged0 where r: "age_all d rest = Ok aged0" "aged = (task, if b then m\<lparr> if_off_policy_steps := if_off_policy_steps m + 1 \<rparr> else m) # aged0"
    using 2(2) by (auto simp: result_simps)
  from 2(1)[OF r(1)] have IH: "list_all2 (\<lambda>(t, m) (t', m'). t' = t \<and> (\<exists>k. m' = m\<lparr> if_off_policy_steps := k \<rparr>)) rest aged0" .
  have "\<exists>k. (if b then m\<lparr> if_off_policy_steps := if_off_policy_steps m + 1 \<rparr> else m) = m\<lparr> if_off_policy_steps := k \<rparr>"
    by (cases b) (auto intro: exI[of _ "if_off_policy_steps m"])
  then show ?case using IH r(2) by simp
qed simp

lemma ages_total: "inflight_ok d \<Longrightarrow> groups_ok d \<Longrightarrow> m \<in> set (od_values (dp_inflight d)) \<Longrightarrow> \<exists>b. ages d m = Ok b"
proof -
  assume ok: "inflight_ok d" "groups_ok d" and m: "m \<in> set (od_values (dp_inflight d))"
  have mm: "meta_matches d m" using ok(1) m unfolding inflight_ok_def by blast
  then have "known_env d (if_group_id m)" using ok(2) by (simp add: groups_ok_def meta_matches_def Let_def)
  then show ?thesis using mm by (cases "if_kind m") (auto simp: ages_def known_env_def meta_matches_def Let_def group_envs_def env_get_def)
qed

lemma ages_steps [simp]: "ages d (m\<lparr> if_off_policy_steps := k \<rparr>) = ages d m"
  by (simp add: ages_def)

lemma age_all_total: "(\<forall>m \<in> set (od_values kvs). \<exists>b. ages d m = Ok b) \<Longrightarrow> \<exists>aged. age_all d kvs = Ok aged"
  by (induction kvs) auto

lemma shape_sums:
  assumes "list_all2 (\<lambda>(t, m) (t', m'). t' = t \<and> (\<exists>k. m' = m\<lparr> if_off_policy_steps := k \<rparr>)) kvs aged"
  shows "od_keys aged = od_keys kvs"
    and "sum_list (map (\<lambda>(_, m). if if_group_id m = g then if_rollout_count m else 0) aged) = sum_list (map (\<lambda>(_, m). if if_group_id m = g then if_rollout_count m else 0) kvs)"
    and "sum_list (map (\<lambda>(_, m). if_rollout_count m) aged) = sum_list (map (\<lambda>(_, m). if_rollout_count m) kvs)"
    and "\<forall>m' \<in> set (od_values aged). \<exists>m \<in> set (od_values kvs). \<exists>k. m' = m\<lparr> if_off_policy_steps := k \<rparr>"
  using assms by (induction rule: list_all2_induct) auto

lemma pending_inv:
  assumes inv: "disp_inv d" and pc: "dp_drop d = DropIdle" and order: "\<forall>gs. set (order gs) = set gs"
  shows "disp_inv (on_version_pending order d)"
proof -
  have i: "config_ok d" "groups_ok d" "inflight_ok d" "queue_ok d" "loop_ok d" "permits_ok d" "ledgers_ok d"
    using inv by (simp_all add: disp_inv_def)
  have tot: "\<forall>m \<in> set (od_values (dp_inflight d)). \<exists>b. ages d m = Ok b" using ages_total[OF i(3,2)] by blast
  obtain aged where aged: "age_all d (dp_inflight d) = Ok aged" using age_all_total[OF tot] by blast
  note sh = shape_sums[OF age_all_shape[OF aged]]
  have "\<forall>m \<in> set (od_values aged). \<exists>b. ages d m = Ok b"
  proof
    fix m' assume "m' \<in> set (od_values aged)"
    then obtain m k where m: "m \<in> set (od_values (dp_inflight d))" "m' = m\<lparr> if_off_policy_steps := k \<rparr>" using sh(4) by blast
    show "\<exists>b. ages d m' = Ok b" unfolding m(2) ages_steps using tot m(1) by blast
  qed
  then have "\<exists>gs. traverse (\<lambda>m. bindE (ages d m) (\<lambda>b. Ok (if b \<and> if_off_policy_steps m > dp_max_off_policy_steps d then [if_group_id m] else []))) (od_values aged) = Ok gs"
    by (induction aged) auto
  then obtain gs where gs: "traverse (\<lambda>m. bindE (ages d m) (\<lambda>b. Ok (if b \<and> if_off_policy_steps m > dp_max_off_policy_steps d then [if_group_id m] else []))) (od_values aged) = Ok gs" by blast
  define stale where "stale = remdups (concat gs)"
  have "stale_groups d aged = Ok stale" using gs by (simp add: stale_groups_def stale_def)
  then have run: "on_version_pending order d = d\<lparr> dp_inflight := aged, dp_drop := DropGroups (order stale) \<rparr>"
    by (simp add: on_version_pending_def aged)
  define x where "x = d\<lparr> dp_inflight := aged, dp_drop := DropGroups (order stale) \<rparr>"
  have gids: "\<forall>g \<in> set stale. g < dp_next_group d"
  proof
    fix g assume "g \<in> set stale"
    then obtain ys where ys: "ys \<in> set gs" "g \<in> set ys" by (auto simp: stale_def)
    from traverse_origin[OF gs ys(1)] obtain m' where m': "m' \<in> set (od_values aged)"
        "bindE (ages d m') (\<lambda>b. Ok (if b \<and> if_off_policy_steps m' > dp_max_off_policy_steps d then [if_group_id m'] else [])) = Ok ys"
      by (elim bexE) (rule that)
    have m'2: "g = if_group_id m'" using m'(2) ys(2) by (auto simp: result_simps split: if_splits)
    from bspec[OF sh(4) m'(1)] obtain m k where m: "m \<in> set (od_values (dp_inflight d))" "m' = m\<lparr> if_off_policy_steps := k \<rparr>" by blast
    have "meta_matches d m" using i(3) m(1) unfolding inflight_ok_def by blast
    then show "g < dp_next_group d" using m'2 m(2) by (simp add: meta_matches_def Let_def)
  qed
  have acc: "stamped x g = stamped d g" "owed x g = owed d g" for g
    using pc sh(2)[of g] by (simp_all add: x_def stamped_def owed_def inflight_of_def unscheduled_def)
  have match: "meta_matches x m = meta_matches d m" "rollout_matches x r = rollout_matches d r" for m r
    by (rule matches_cong; simp add: x_def)+
  have gc: "group_cost x g = group_cost d g" for g by (rule group_cost_frame) (simp_all add: x_def)
  have ke: "known_env x g = known_env d g" for g unfolding known_env_def by (simp add: x_def)
  have mm: "meta_matches d (m\<lparr> if_off_policy_steps := k \<rparr>) = meta_matches d m" for m k by (simp add: meta_matches_def)
  have "\<forall>m \<in> set (od_values aged). meta_matches d m"
  proof
    fix m' assume "m' \<in> set (od_values aged)"
    then obtain m k where m: "m \<in> set (od_values (dp_inflight d))" "m' = m\<lparr> if_off_policy_steps := k \<rparr>" using sh(4) by blast
    show "meta_matches d m'" unfolding m(2) mm using i(3) m(1) unfolding inflight_ok_def by blast
  qed
  then have "inflight_ok x" using i(3) sh(1) unfolding inflight_ok_def match by (simp add: x_def od_ok_def)
  moreover have "ledgers_ok x" "groups_ok x" "queue_ok x" "loop_ok x"
    using i(2,4,5,7) unfolding ledgers_ok_def ledger_def groups_ok_def queue_ok_def loop_ok_def hand_ok_def acc match gc ke
    by (simp_all add: x_def out_maxsize_def available_permits_def cong: LoopPc.case_cong)
  moreover have "config_ok x" "permits_ok x" "drop_ok x" using i(1,6) gids order sh(3)
    by (simp_all add: x_def config_ok_def permits_ok_def drop_ok_def all_inflight_def)
  ultimately show ?thesis unfolding run x_def[symmetric] disp_inv_def by simp
qed

lemma consume_inv:
  assumes inv: "disp_inv d" and q: "dp_out_q d = r # rs"
  shows "disp_inv (d\<lparr> dp_out_q := rs, dp_delivered := dp_delivered d @ [r] \<rparr>)"
proof -
  define x where "x = d\<lparr> dp_out_q := rs, dp_delivered := dp_delivered d @ [r] \<rparr>"
  have i: "config_ok d" "groups_ok d" "inflight_ok d" "queue_ok d" "loop_ok d" "drop_ok d" "permits_ok d" "ledgers_ok d"
    using inv by (simp_all add: disp_inv_def)
  have acc: "stamped x g = stamped d g" "owed x g = owed d g" for g
    using q by (simp_all add: x_def stamped_def owed_def inflight_of_def unscheduled_def)
  have match: "meta_matches x m = meta_matches d m" "rollout_matches x r = rollout_matches d r" for m r
    by (rule matches_cong; simp add: x_def)+
  have gc: "group_cost x g = group_cost d g" for g by (rule group_cost_frame) (simp_all add: x_def)
  have ke: "known_env x g = known_env d g" for g unfolding known_env_def by (simp add: x_def)
  have "ledgers_ok x" "groups_ok x" "inflight_ok x" "queue_ok x" "loop_ok x" "drop_ok x"
    using i(2-6,8) q unfolding ledgers_ok_def ledger_def groups_ok_def inflight_ok_def queue_ok_def loop_ok_def drop_ok_def hand_ok_def acc match gc ke
    by (simp_all add: x_def out_maxsize_def available_permits_def cong: LoopPc.case_cong DropPc.case_cong)
  moreover have "config_ok x" "permits_ok x" using i(1,7) by (simp_all add: x_def config_ok_def permits_ok_def all_inflight_def)
  ultimately show ?thesis unfolding x_def[symmetric] disp_inv_def by simp
qed

text \<open>A loop pc that holds nothing can be replaced by another one.\<close>

lemma idle_loop_inv:
  assumes "disp_inv d" "\<And>g. loop_held (dp_loop d) g = 0" "\<And>g. loop_stamped (dp_loop d) g = 0" "taken_permits (dp_loop d) = 0"
    "pc = LoopTop \<or> pc = LoopWaiting \<or> (\<exists>ts. pc = LoopHandling ts)"
  shows "disp_inv (d\<lparr> dp_loop := pc \<rparr>)"
proof -
  have pc: "loop_held pc g = 0" "loop_stamped pc g = 0" "taken_permits pc = 0" "loop_ok (d\<lparr> dp_loop := pc \<rparr>)" for g
    using assms(5) by (auto simp: loop_ok_def)
  have acc: "stamped (d\<lparr> dp_loop := pc \<rparr>) g = stamped d g" "owed (d\<lparr> dp_loop := pc \<rparr>) g = owed d g" for g
    using assms(2,3) pc by (simp_all add: stamped_def owed_def)
  show ?thesis using assms(1,4) pc(3,4) unfolding disp_inv_def groups_ok_def ledgers_ok_def ledger_def acc by (simp add: permits_ok_def)
qed

lemma adopt_inv:
  assumes inv: "disp_inv d" and pc: "dp_drop d = DropGroups []"
  shows "disp_inv (d\<lparr> dp_drop := DropIdle, dp_policy_version := v \<rparr>)"
proof -
  let ?x = "d\<lparr> dp_drop := DropIdle \<rparr>"
  have acc: "stamped ?x g = stamped d g" "owed ?x g = owed d g" for g using pc by (simp_all add: stamped_def owed_def)
  have "disp_inv ?x" using inv unfolding disp_inv_def groups_ok_def ledgers_ok_def ledger_def acc by (simp add: drop_ok_def known_env_def)
  then show ?thesis by (rule disp_inv_frame) (use inv in \<open>simp_all add: disp_inv_def config_ok_def\<close>)
qed

lemma trigger_inv:
  assumes inv: "disp_inv d" and src: "dp_eval_source d = Some src" and run: "eval_trigger step src = Ok (fired, src')"
  shows "disp_inv (d\<lparr> dp_eval_source := Some src', dp_mode := m \<rparr>)"
proof -
  have cfg: "config_ok d" using inv by (simp add: disp_inv_def)
  then have old: "\<forall>ex \<in> set (el_queue src). ex_eval_step ex \<noteq> None" using src by (simp add: config_ok_def)
  have "\<forall>ex \<in> set (el_queue src'). ex_eval_step ex \<noteq> None"
    using run old unfolding eval_trigger_def Let_def by (auto simp: result_simps split: if_splits)
  then have "config_ok (d\<lparr> dp_eval_source := Some src', dp_mode := m \<rparr>)" using cfg by (simp add: config_ok_def)
  from disp_inv_frame[OF inv this] show ?thesis by simp
qed

text \<open>The cancellation counters.\<close>

lemma fold_cancel: "\<exists>c. fold (\<lambda>m. record_cancellation (f m) (if_env_name m) (if_rollout_count m)) ms d = d\<lparr> dp_cancelled := c \<rparr>"
proof (induction ms arbitrary: d)
  case Nil
  show ?case by (rule exI[of _ "dp_cancelled d"]) simp
next
  case (Cons m ms)
  obtain c1 where c1: "record_cancellation (f m) (if_env_name m) (if_rollout_count m) d = d\<lparr> dp_cancelled := c1 \<rparr>"
    by (simp add: record_cancellation_def)
  obtain c where "fold (\<lambda>m. record_cancellation (f m) (if_env_name m) (if_rollout_count m)) ms (d\<lparr> dp_cancelled := c1 \<rparr>) =
      (d\<lparr> dp_cancelled := c1 \<rparr>)\<lparr> dp_cancelled := c \<rparr>" using Cons.IH by blast
  then show ?case by (auto simp: c1)
qed

lemma sum_kind: "sum_list (map if_rollout_count (filter P (od_values kvs))) + sum_list (map (\<lambda>(_, m). if_rollout_count m) (filter (\<lambda>(_, m). \<not> P m) kvs)) =
    sum_list (map (\<lambda>(_, m). if_rollout_count m) kvs)"
  by (induction kvs) auto

lemma sum_kind_group: "sum_list (map if_rollout_count (filter (\<lambda>m. if_group_id m = g) (filter P (od_values kvs)))) +
    sum_list (map (\<lambda>(_, m). if if_group_id m = g then if_rollout_count m else 0) (filter (\<lambda>(_, m). \<not> P m) kvs)) =
    sum_list (map (\<lambda>(_, m). if if_group_id m = g then if_rollout_count m else 0) kvs)"
  by (induction kvs) auto

text \<open>Giving up the tasks that satisfy \<open>P\<close> with the groups \<open>G\<close> moves what they owe to the abandoned account.\<close>

lemma abandon_inv:
  assumes inv: "disp_inv d" and x: "x = d\<lparr> dp_cancelled := c,
      dp_inflight_permits := dp_inflight_permits d - sum_list (map if_rollout_count (filter P (od_values (dp_inflight d)))),
      dp_inflight := filter (\<lambda>(_, m). \<not> P m) (dp_inflight d), dp_groups := filter (\<lambda>g. g \<notin> G) (dp_groups d),
      dp_abandoned := (\<lambda>g. dp_abandoned d g +
         sum_list (map if_rollout_count (filter (\<lambda>m. if_group_id m = g) (filter P (od_values (dp_inflight d))))) +
         (if g \<in> G \<and> g \<in> set (dp_groups d) then gs_rollouts_to_schedule (dp_store d g) else 0)) \<rparr>"
  shows "disp_inv x"
proof -
  have i: "config_ok d" "groups_ok d" "inflight_ok d" "queue_ok d" "loop_ok d" "drop_ok d" "permits_ok d" "ledgers_ok d"
    using inv by (simp_all add: disp_inv_def)
  have pos: "0 \<le> sum_list (map if_rollout_count (filter Q (od_values (dp_inflight d))))" for Q
    using i(3) by (intro sum_list_nonneg_int) (auto simp: inflight_ok_def meta_matches_def Let_def)
  have posg: "0 \<le> sum_list (map if_rollout_count (filter (\<lambda>m. if_group_id m = g) (filter P (od_values (dp_inflight d)))))" for g
    using pos[of "\<lambda>m. P m \<and> if_group_id m = g"] by (simp add: conj_commute)
  have fields: "dp_delivered x = dp_delivered d" "dp_out_q x = dp_out_q d" "dp_loop x = dp_loop d" "dp_drop x = dp_drop d" "dp_store x = dp_store d"
    "dp_next_group x = dp_next_group d" by (simp_all add: x)
  have st: "stamped x g = stamped d g" for g by (simp add: stamped_def fields)
  have uns: "unscheduled x g = (if g \<in> G then 0 else unscheduled d g)" for g by (auto simp: x unscheduled_def)
  have "inflight_of x g = inflight_of d g - sum_list (map if_rollout_count (filter (\<lambda>m. if_group_id m = g) (filter P (od_values (dp_inflight d)))))" for g
    using sum_kind_group[of g P "dp_inflight d"] by (simp add: x inflight_of_def)
  then have tot: "owed x g + dp_abandoned x g = owed d g + dp_abandoned d g" for g
    unfolding owed_def uns fields by (auto simp: x unscheduled_def)
  have "ledger x g = ledger d g" for g unfolding ledger_def st fields using tot[of g] by linarith
  moreover have "0 \<le> dp_abandoned x g" if "g < dp_next_group d" for g
    using that i(2,8) posg[of g] by (auto simp: x ledgers_ok_def groups_ok_def intro!: add_nonneg_nonneg)
  moreover have "dp_abandoned x g = 0" if "dp_next_group d \<le> g" for g
  proof -
    have "stamped x g + inflight_of x g = stamped d g + inflight_of x g" by (simp add: st)
    have "filter (\<lambda>m. if_group_id m = g) (filter P (od_values (dp_inflight d))) = []"
      using i(3) that by (auto simp: filter_empty_conv inflight_ok_def meta_matches_def Let_def)
    then show ?thesis using no_trace[OF inv that] by (simp add: x)
  qed
  ultimately have "ledgers_ok x" using i(8) unfolding ledgers_ok_def fields by simp
  moreover have match: "meta_matches x m = meta_matches d m" "rollout_matches x r = rollout_matches d r" for m r
    by (rule matches_cong; simp add: x)+
  moreover have gc: "group_cost x g = group_cost d g" for g by (rule group_cost_frame) (simp_all add: x)
  moreover have ke: "known_env x g = known_env d g" for g unfolding known_env_def by (simp add: x)
  moreover have avail: "available_permits d \<le> available_permits x" using pos[of P] by (simp add: x available_permits_def)
  have "inflight_ok x"
  proof -
    have "set (dp_inflight x) \<subseteq> set (dp_inflight d)" "od_ok (dp_inflight x)"
      using i(3) by (auto simp: x inflight_ok_def od_ok_def intro: distinct_map_filter)
    then show ?thesis using i(3) unfolding inflight_ok_def match by (auto simp: x)
  qed
  moreover have "groups_ok x" using i(2) unfolding groups_ok_def st ke by (simp add: x)
  moreover have "queue_ok x" using i(4) unfolding queue_ok_def match by (simp add: x out_maxsize_def)
  moreover have "loop_ok x" using i(5) avail unfolding loop_ok_def hand_ok_def match gc fields
    by (auto simp: x split: LoopPc.splits)
  moreover have "drop_ok x" using i(6) unfolding drop_ok_def hand_ok_def match fields by (auto simp: x split: DropPc.splits)
  moreover have "config_ok x" using i(1) by (simp add: x config_ok_def)
  moreover have "permits_ok x" using i(7) pos[of P] sum_kind[of P "dp_inflight d"] by (simp add: x permits_ok_def all_inflight_def)
  ultimately show ?thesis unfolding disp_inv_def by simp
qed

lemma cancel_train_inv: "disp_inv d \<Longrightarrow> disp_inv (snd (cancel_inflight_train_rollouts d))"
proof -
  assume inv: "disp_inv d"
  let ?metas = "filter (\<lambda>m. if_kind m = Train) (od_values (dp_inflight d))"
  obtain c where c: "fold (\<lambda>m. record_cancellation Train (if_env_name m) (if_rollout_count m)) ?metas d = d\<lparr> dp_cancelled := c \<rparr>"
    using fold_cancel[of "\<lambda>_. Train"] by blast
  show ?thesis
    by (rule abandon_inv[OF inv, where P = "\<lambda>m. if_kind m = Train" and G = "set (map if_group_id ?metas)" and c = c])
      (simp add: cancel_inflight_train_rollouts_def Let_def c release_def)
qed

lemma cancel_all_inv: "disp_inv d \<Longrightarrow> disp_inv (cancel_inflight_rollouts d)"
proof -
  assume inv: "disp_inv d"
  obtain c where c: "fold (\<lambda>m. record_cancellation (if_kind m) (if_env_name m) (if_rollout_count m)) (od_values (dp_inflight d)) d = d\<lparr> dp_cancelled := c \<rparr>"
    using fold_cancel[of if_kind] by blast
  show ?thesis
    by (rule abandon_inv[OF inv, where P = "\<lambda>_. True" and G = UNIV and c = c])
      (simp add: cancel_inflight_rollouts_def Let_def c release_def)
qed

lemma loop_step_inv: "loop_step d d' \<Longrightarrow> disp_inv d \<Longrightarrow> disp_inv d'"
  by (induction rule: loop_step.induct) (simp_all add: fill_inv select_inv acquire_inv)

lemma disp_step_inv: "disp_step d d' \<Longrightarrow> disp_inv d \<Longrightarrow> disp_inv d'"
proof (induction rule: disp_step.induct)
  case (loop d d')
  then show ?case by (rule loop_step_inv)
next
  case (wake d tasks)
  then show ?case by (intro idle_loop_inv) auto
next
  case (handled d)
  then show ?case by (intro idle_loop_inv) auto
next
  case (handle d task tasks outcome)
  then show ?case by (intro handle_inv)
next
  case (put_loop d has_group r rest tasks)
  then show ?case by (intro put_loop_inv)
next
  case (pending d order)
  then show ?case by (intro pending_inv)
next
  case (drop d gid gids)
  then show ?case by (intro drop_group_inv)
next
  case (put_drop d has_group r rest memo gids)
  then show ?case by (intro put_drop_inv)
next
  case (adopt d version)
  then show ?case by (intro adopt_inv)
next
  case (consume d r rs)
  then show ?case by (intro consume_inv)
next
  case (trigger d src step fired src')
  then show ?case by (intro trigger_inv)
next
  case (gate d b)
  then show ?case by (intro disp_inv_frame[OF gate]) (simp_all add: disp_inv_def config_ok_def)
next
  case (drain_metrics d train_names eval_names)
  then show ?case by (intro disp_inv_frame[OF drain_metrics]) (simp_all add: drained_def Let_def disp_inv_def config_ok_def)
next
  case (disable d)
  then show ?case by (intro disp_inv_frame[OF disable]) (simp_all add: disable_train_scheduling_def disp_inv_def config_ok_def)
next
  case (cancel_train d)
  then show ?case by (rule cancel_train_inv)
next
  case (cancel_all d)
  then show ?case by (rule cancel_all_inv)
qed

lemma reaches_inv: "reaches d d' \<Longrightarrow> disp_inv d \<Longrightarrow> disp_inv d'"
  by (induction rule: rtranclp_induct) (auto intro: disp_step_inv)

section \<open>What follows\<close>

lemma Dispatcher_init_inv:
  assumes "config_ok (Dispatcher_init train_envs eval_envs ts es v max_inflight max_off limited)"
  shows "disp_inv (Dispatcher_init train_envs eval_envs ts es v max_inflight max_off limited)"
  using assms by (simp add: disp_inv_def Dispatcher_init_def groups_ok_def inflight_ok_def queue_ok_def loop_ok_def drop_ok_def permits_ok_def
      ledgers_ok_def config_ok_def all_inflight_def out_maxsize_def)

lemma nonneg_parts:
  assumes "disp_inv d"
  shows "0 \<le> inflight_of d g" "0 \<le> unscheduled d g" "0 \<le> loop_held (dp_loop d) g" "0 \<le> owed d g" "0 \<le> stamped d g"
proof -
  have i: "groups_ok d" "inflight_ok d" "loop_ok d" using assms by (simp_all add: disp_inv_def)
  show a: "0 \<le> inflight_of d g" by (rule inflight_of_nonneg[OF i(2)])
  show b: "0 \<le> unscheduled d g" by (rule unscheduled_nonneg[OF i(1)])
  show c: "0 \<le> loop_held (dp_loop d) g" using i(3) by (cases "dp_loop d") (auto simp: loop_ok_def)
  show "0 \<le> owed d g" using a b c by (simp add: owed_def)
  show "0 \<le> stamped d g" by (simp add: stamped_def)
qed

text \<open>
  C8: In every interleaving of the dispatch loop, the weight watcher, the orchestrator and the consumer, every rollout of every group
  opened so far is accounted for exactly once: delivered, queued or in hand with its marker stamped, or still owed by a running
  task, a suspended coroutine or the group's schedule, or given up. Reserved permits never exceed the capacity, the queue never
  overflows, and whatever was emitted carries the metadata of its group.
\<close>

theorem dispatcher_accounts_every_rollout:
  assumes "config_ok (Dispatcher_init train_envs eval_envs ts es v max_inflight max_off limited)"
    and "reaches (Dispatcher_init train_envs eval_envs ts es v max_inflight max_off limited) d"
  shows "(\<forall>g < dp_next_group d. stamped d g + owed d g + dp_abandoned d g = gs_target_rollouts (dp_store d g) \<and>
      0 \<le> owed d g \<and> 0 \<le> dp_abandoned d g) \<and>
    0 \<le> dp_inflight_permits d \<and> dp_inflight_permits d \<le> dp_max_inflight d \<and> int (length (dp_out_q d)) \<le> out_maxsize d \<and>
    (\<forall>r \<in> set (dp_delivered d @ dp_out_q d). rollout_matches d r)"
proof -
  have inv: "disp_inv d" by (rule reaches_inv[OF assms(2) Dispatcher_init_inv[OF assms(1)]])
  then have i: "inflight_ok d" "queue_ok d" "loop_ok d" "permits_ok d" "ledgers_ok d" by (simp_all add: disp_inv_def)
  have "0 \<le> all_inflight d" unfolding all_inflight_def
    by (rule sum_list_nonneg_int) (use i(1) in \<open>force simp: inflight_ok_def meta_matches_def Let_def\<close>)
  moreover have "0 \<le> taken_permits (dp_loop d)" using i(3) by (cases "dp_loop d") (auto simp: loop_ok_def)
  ultimately have "0 \<le> dp_inflight_permits d" using i(4) by (simp add: permits_ok_def)
  then show ?thesis using nonneg_parts[OF inv] i(2,4,5) by (simp add: ledgers_ok_def ledger_def queue_ok_def permits_ok_def)
qed

text \<open>
  C9: A drained dispatcher has delivered everything. When \<open>is_idle\<close> holds, the dispatch loop is between two passes or waiting (so no launch or
  emission is half done) and the watcher is not dropping groups, every rollout of every opened group was taken from the queue, is still
  unscheduled or was given up, and evaluation groups have nothing unscheduled left. Both conditions on the coroutines are needed:
  \<open>is_idle\<close> alone also holds while the loop waits for the rate limiter with a rollout in hand.
\<close>

theorem idle_dispatcher_delivered_everything:
  assumes "config_ok (Dispatcher_init train_envs eval_envs ts es v max_inflight max_off limited)"
    and "reaches (Dispatcher_init train_envs eval_envs ts es v max_inflight max_off limited) d"
    and "is_idle d" "dp_loop d = LoopTop \<or> dp_loop d = LoopWaiting" "dp_drop d = DropIdle" "g < dp_next_group d"
  shows "count_of g (dp_delivered d) + unscheduled d g + dp_abandoned d g = gs_target_rollouts (dp_store d g) \<and>
    (gs_kind (dp_store d g) = Eval \<longrightarrow> unscheduled d g = 0)"
proof -
  have inv: "disp_inv d" by (rule reaches_inv[OF assms(2) Dispatcher_init_inv[OF assms(1)]])
  have idle: "dp_inflight d = []" "dp_out_q d = []" "\<not> eval_has_work d" using assms(3) by (simp_all add: is_idle_def)
  have "stamped d g = count_of g (dp_delivered d)" "owed d g = unscheduled d g"
    using idle assms(4,5) by (auto simp: stamped_def owed_def inflight_of_def)
  moreover have "unscheduled d g = 0" if "gs_kind (dp_store d g) = Eval"
    using idle(3) that nonneg_parts(2)[OF inv, of g] by (auto simp: unscheduled_def eval_has_work_def list_ex_iff)
  ultimately show ?thesis using inv assms(6) by (auto simp: disp_inv_def ledgers_ok_def ledger_def)
qed

section \<open>Filling ends\<close>

definition fill_measure :: "Dispatcher \<Rightarrow> nat" where
  "fill_measure d = (case dp_loop d of
      LoopTop \<Rightarrow> 10 * nat (available_permits d) + (if dp_mode d = PREFER_EVAL then 4 else 3)
    | LoopSelecting gid \<Rightarrow> 10 * nat (available_permits d) + 2
    | LoopAcquiring gid permits taken \<Rightarrow> 10 * nat (available_permits d - (permits - taken)) + 5 + nat (permits - taken)
    | _ \<Rightarrow> 0)"

lemma claim_measure:
  assumes "claim_group gid d = Ok d'" "1 \<le> cost" "group_cost d gid = Some cost" "cost \<le> available_permits d"
  shows "fill_measure d' < 10 * nat (available_permits d) + 2"
proof -
  obtain envs env where env: "group_envs (gs_kind (dp_store d gid)) d = Some envs" "od_get (gs_env_name (dp_store d gid)) envs = Some env"
    using assms(3) unfolding group_cost_def Let_def by (auto split: option.splits)
  then have cost: "cost = (if es_requires_group_scoring env then gs_rollouts_to_schedule (dp_store d gid) else 1)"
    using assms(3) by (simp add: group_cost_def)
  have "available_permits d' = available_permits d \<and> (\<exists>g. dp_loop d' = LoopAcquiring g cost 0) \<or>
      available_permits d' = available_permits d - cost \<and> dp_loop d' = LoopTop"
    using assms(1,2) unfolding claim_group_def Let_def env option.case env_get_def bindE.simps cost[symmetric]
    by (auto simp: available_permits_def launch_def Let_def split: if_splits)
  then show ?thesis using assms(2,4) by (auto simp: fill_measure_def nat_diff_distrib)
qed

lemma schedule_measure:
  assumes "schedule_group_rollout gid d = Ok d'" "1 \<le> cost" "group_cost d gid = Some cost" "cost \<le> available_permits d"
  shows "fill_measure d' < 10 * nat (available_permits d) + 3"
  using assms claim_measure[of gid d d' cost] by (cases "gs_pinned_client (dp_store d gid)") (auto simp: schedule_group_rollout_def fill_measure_def available_permits_def)

lemma selecting_cost:
  assumes "disp_inv (d\<lparr> dp_loop := LoopSelecting gid \<rparr>)" "gid \<in> set (dp_groups d)"
  obtains cost where "group_cost d gid = Some cost" "1 \<le> cost" "cost \<le> available_permits d"
proof -
  have "loop_ok (d\<lparr> dp_loop := LoopSelecting gid \<rparr>)" using assms(1) by (simp add: disp_inv_def)
  then obtain cost where c: "group_cost d gid = Some cost" "cost \<le> available_permits d" "1 \<le> gs_rollouts_to_schedule (dp_store d gid)"
    using assms(2) by (auto simp: loop_ok_def)
  then have "1 \<le> cost" unfolding group_cost_def Let_def by (auto split: option.splits if_splits)
  then show thesis using c that by blast
qed

lemma fill_decreases:
  assumes inv: "disp_inv d" and pc: "dp_loop d = LoopTop" and draw: "valid_draw draw (dp_train_source d)"
  shows "fill_measure (or_fail (fill_inflight draw d) d) < fill_measure d"
proof -
  have top: "10 * nat (available_permits d) + 3 \<le> fill_measure d" using pc by (simp add: fill_measure_def)
  have attempt: "fill_measure d' < fill_measure d" if run: "try_schedule draw kind d = Ok d'" for kind d'
  proof (cases "kind = Train \<and> dp_train_scheduling_disabled d \<or> group_envs kind d = None")
    case True
    then have "dp_loop d' = LoopWaiting" using run by (auto simp: try_schedule_def split: if_splits)
    then show ?thesis using top by (simp add: fill_measure_def)
  next
    case False
    then obtain envs where envs: "group_envs kind d = Some envs" by auto
    obtain found where found: "continue_group kind envs (dp_groups d) d = Ok found"
        "(case found of Some gid \<Rightarrow> schedule_group_rollout gid d
          | None \<Rightarrow> bindE (next_fresh_group draw kind envs d) (\<lambda>(fresh, d1).
              case fresh of None \<Rightarrow> Ok (d1\<lparr> dp_loop := LoopWaiting \<rparr>)
              | Some grp \<Rightarrow> schedule_group_rollout (dp_next_group d1) (opened grp d1))) = Ok d'"
      using run False envs unfolding try_schedule_def opened_def Let_def by (auto simp: result_simps)
    show ?thesis
    proof (cases found)
      case (Some gid)
      from continue_group_props[OF found(1)[unfolded Some]] obtain env where g: "gid \<in> set (dp_groups d)" "gs_kind (dp_store d gid) = kind"
          "1 \<le> gs_rollouts_to_schedule (dp_store d gid)" "od_get (gs_env_name (dp_store d gid)) envs = Some env"
          "(if es_requires_group_scoring env then gs_rollouts_to_schedule (dp_store d gid) else 1) \<le> available_permits d" by blast
      have "group_cost d gid = Some (if es_requires_group_scoring env then gs_rollouts_to_schedule (dp_store d gid) else 1)"
        using g envs by (simp add: group_cost_def)
      moreover have "1 \<le> (if es_requires_group_scoring env then gs_rollouts_to_schedule (dp_store d gid) else 1)"
        using g(3) by simp
      moreover have "schedule_group_rollout gid d = Ok d'" using found(2) Some by simp
      ultimately show ?thesis using schedule_measure[of gid d d'] g(5) top by fastforce
    next
      case None
      then obtain fresh d1 where fresh: "next_fresh_group draw kind envs d = Ok (fresh, d1)"
          "(case fresh of None \<Rightarrow> Ok (d1\<lparr> dp_loop := LoopWaiting \<rparr>) | Some grp \<Rightarrow> schedule_group_rollout (dp_next_group d1) (opened grp d1)) = Ok d'"
        using found(2) by (auto simp: result_simps)
      have avail: "available_permits d1 = available_permits d" using fresh(1)
        unfolding next_fresh_group_def by (cases kind) (auto simp: result_simps available_permits_def split: prod.splits option.splits)
      note pr = next_fresh_props[OF inv draw envs fresh(1)]
      show ?thesis
      proof (cases fresh)
        case None
        then have "d' = d1\<lparr> dp_loop := LoopWaiting \<rparr>" using fresh(2) by simp
        then show ?thesis using pc by (simp add: fill_measure_def)
      next
        case (Some grp)
        then have sel: "disp_inv ((opened grp d1)\<lparr> dp_loop := LoopSelecting (dp_next_group d1) \<rparr>)" using pr pc by auto
        have reg: "dp_next_group d1 \<in> set (dp_groups (opened grp d1))" by (simp add: opened_def)
        obtain cost where c: "group_cost (opened grp d1) (dp_next_group d1) = Some cost" "1 \<le> cost" "cost \<le> available_permits (opened grp d1)"
          by (rule selecting_cost[OF sel reg])
        have "available_permits (opened grp d1) = available_permits d" using avail by (simp add: opened_def available_permits_def)
        then show ?thesis using schedule_measure[OF _ c(2,1,3), of d'] fresh(2) Some top by simp
      qed
    qed
  qed
  have zero: "fill_measure (d\<lparr> dp_loop := LoopWaiting \<rparr>) < fill_measure d" "fill_measure (d\<lparr> dp_loop := LoopFailed e \<rparr>) < fill_measure d" for e
    using top by (simp_all add: fill_measure_def)
  have mode: "fill_measure (switch_mode PREFER_TRAIN d) < fill_measure d" if "dp_mode d = PREFER_EVAL"
    using that pc by (simp add: fill_measure_def switch_mode_def available_permits_def)
  show ?thesis
    using zero mode attempt unfolding or_fail_def fill_inflight_def by (auto simp: raise_if_def split: sum.splits if_splits)
qed

lemma loop_step_decreases: "loop_step d d' \<Longrightarrow> disp_inv d \<Longrightarrow> fill_measure d' < fill_measure d"
proof (induction rule: loop_step.induct)
  case (fill d draw)
  then show ?case by (intro fill_decreases)
next
  case (select d gid client)
  show ?case
  proof (cases "gid \<in> set (dp_groups d)")
    case False
    then show ?thesis using select by (simp add: client_selected_def or_fail_def fill_measure_def)
  next
    case True
    define x where "x = d\<lparr> dp_store := (dp_store d)(gid := (dp_store d gid)\<lparr> gs_pinned_client := Some client \<rparr>) \<rparr>"
    have self: "d\<lparr> dp_loop := LoopSelecting gid \<rparr> = d" using select(1) by simp
    obtain cost where c: "group_cost d gid = Some cost" "1 \<le> cost" "cost \<le> available_permits d"
      using selecting_cost[of gid d] select(2) True self by metis
    have gc: "group_cost x gid = group_cost d gid" by (rule group_cost_frame) (simp_all add: x_def)
    have avail: "available_permits x = available_permits d" by (simp add: x_def available_permits_def)
    have m: "fill_measure d = 10 * nat (available_permits d) + 2" using select(1) by (simp add: fill_measure_def)
    show ?thesis
    proof (cases "claim_group gid x")
      case (Inl e)
      then show ?thesis using True m by (simp add: client_selected_def or_fail_def x_def[symmetric] fill_measure_def)
    next
      case (Inr y)
      from claim_measure[OF Inr c(2) c(1)[folded gc] c(3)[folded avail]] show ?thesis
        using True m avail Inr by (simp add: client_selected_def or_fail_def x_def[symmetric])
    qed
  qed
next
  case (acquire d gid permits taken)
  then have ok: "1 \<le> permits" "0 \<le> taken" "taken \<le> permits" "permits - taken \<le> available_permits d" by (simp_all add: disp_inv_def loop_ok_def)
  show ?case
  proof (cases "taken < permits")
    case True
    then show ?thesis using ok acquire(1) by (simp add: acquire_next_def fill_measure_def available_permits_def)
  next
    case False
    then show ?thesis using ok acquire(1) by (simp add: acquire_next_def fill_measure_def available_permits_def launch_def Let_def)
  qed
qed

lemma loop_steps_decrease: "(loop_step ^^ n) d d' \<Longrightarrow> disp_inv d \<Longrightarrow> disp_inv d' \<and> fill_measure d' + n \<le> fill_measure d"
proof (induction n arbitrary: d')
  case (Suc n)
  then obtain e where e: "(loop_step ^^ n) d e" "loop_step e d'" by auto
  from Suc.IH[OF e(1) Suc.prems(2)] loop_step_decreases[OF e(2)] loop_step_inv[OF e(2)] show ?case by auto
qed simp

lemma loop_step_enabled: "disp_inv d \<Longrightarrow> 0 < fill_measure d \<Longrightarrow> \<exists>d'. loop_step d d'"
proof -
  assume inv: "disp_inv d" and pos: "0 < fill_measure d"
  show ?thesis
  proof (cases "dp_loop d")
    case LoopTop
    obtain name where "name \<in> set (ts_env_names (dp_train_source d))"
      using inv by (cases "ts_env_names (dp_train_source d)") (auto simp: disp_inv_def config_ok_def)
    then have "valid_draw (name, id, (0, []), 0) (dp_train_source d)" by (simp add: valid_draw_def)
    then show ?thesis using LoopTop loop_step.fill by blast
  next
    case (LoopSelecting gid)
    then show ?thesis using loop_step.select by blast
  next
    case (LoopAcquiring gid permits taken)
    then show ?thesis using loop_step.acquire by blast
  qed (use pos in \<open>auto simp: fill_measure_def\<close>)
qed

lemma loop_run_ends: "disp_inv d \<Longrightarrow> \<exists>n d'. (loop_step ^^ n) d d' \<and> fill_measure d' = 0"
proof (induction "fill_measure d" arbitrary: d rule: less_induct)
  case less
  show ?case
  proof (cases "fill_measure d = 0")
    case True
    then show ?thesis by (intro exI[of _ 0] exI[of _ d]) simp
  next
    case False
    then obtain e where e: "loop_step d e" using loop_step_enabled[OF less.prems] by blast
    from less.hyps[OF loop_step_decreases[OF e less.prems] loop_step_inv[OF e less.prems]] obtain n d' where
      "(loop_step ^^ n) e d'" "fill_measure d' = 0" by blast
    have "(loop_step ^^ Suc n) d d'" by (rule relpowp_Suc_I2) fact+
    then show ?thesis using \<open>fill_measure d' = 0\<close> by blast
  qed
qed

text \<open>
  C10: Filling terminates: from any reachable state the dispatch loop, left undisturbed, takes at most \<open>10 * max_inflight + 5\<close> steps of selecting, acquiring
  and launching before it waits (or stops at an exception of a source), however the environments are drawn, and it can always go
  on until then.
\<close>

theorem filling_terminates:
  assumes "config_ok (Dispatcher_init train_envs eval_envs ts es v max_inflight max_off limited)"
    and "reaches (Dispatcher_init train_envs eval_envs ts es v max_inflight max_off limited) d" "(loop_step ^^ n) d d'"
  shows "int n \<le> 10 * dp_max_inflight d + 5 \<and>
    (\<exists>m d''. (loop_step ^^ m) d' d'' \<and> (\<forall>gid permits taken. dp_loop d'' \<noteq> LoopTop \<and> dp_loop d'' \<noteq> LoopSelecting gid \<and>
       dp_loop d'' \<noteq> LoopAcquiring gid permits taken))"
proof -
  have inv: "disp_inv d" by (rule reaches_inv[OF assms(2) Dispatcher_init_inv[OF assms(1)]])
  note run = loop_steps_decrease[OF assms(3) inv]
  have "0 \<le> dp_inflight_permits d" "0 \<le> dp_max_inflight d"
  proof -
    have i: "inflight_ok d" "loop_ok d" "permits_ok d" using inv by (simp_all add: disp_inv_def)
    have "0 \<le> all_inflight d" unfolding all_inflight_def
      by (rule sum_list_nonneg_int) (use i(1) in \<open>force simp: inflight_ok_def meta_matches_def Let_def\<close>)
    moreover have "0 \<le> taken_permits (dp_loop d)" using i(2) by (cases "dp_loop d") (auto simp: loop_ok_def)
    ultimately show "0 \<le> dp_inflight_permits d" using i(3) by (simp add: permits_ok_def)
    show "0 \<le> dp_max_inflight d" using inv by (simp add: disp_inv_def config_ok_def)
  qed
  moreover have "loop_ok d" using inv by (simp add: disp_inv_def)
  ultimately have "int (fill_measure d) \<le> 10 * dp_max_inflight d + 5"
    by (cases "dp_loop d") (auto simp: fill_measure_def loop_ok_def available_permits_def)
  moreover obtain m d'' where "(loop_step ^^ m) d' d''" "fill_measure d'' = 0" using loop_run_ends run by blast
  moreover have "fill_measure d'' = 0 \<Longrightarrow> dp_loop d'' \<noteq> LoopTop \<and> dp_loop d'' \<noteq> LoopSelecting gid \<and> dp_loop d'' \<noteq> LoopAcquiring gid permits taken"
    for gid permits taken by (auto simp: fill_measure_def split: if_splits)
  ultimately show ?thesis using run by (intro conjI) (linarith, blast)
qed

end
