(* ===== verification/Dispatch_Runs.thy ===== *)
theory Dispatch_Runs
  imports Dispatch_Loop
begin

text \<open>
  The staleness bound of the rollouts in flight, counted in weight updates a task survives, and concrete runs of the dispatcher: a rollout scheduled, executed and delivered, and
  an evaluation rollout waiting for the rate limiter.
\<close>

section \<open>Staleness\<close>

fun awaiting_drop :: "DropPc \<Rightarrow> nat set" where
  "awaiting_drop DropIdle = {}"
| "awaiting_drop (DropGroups gids) = set gids"
| "awaiting_drop (DropBlocked has_group r rest note gids) = set gids"
| "awaiting_drop (DropFailed e) = UNIV"

text \<open>Every ageing rollout in flight is within the bound or belongs to a group that is about to be dropped.\<close>

definition bounded_age :: "int \<Rightarrow> Dispatcher \<Rightarrow> bool" where
  "bounded_age bound d \<longleftrightarrow> dp_max_off_policy_steps d = bound \<and>
     (\<forall>m \<in> snd ` set (dp_inflight d). ages d m = Ok True \<longrightarrow> if_off_policy_steps m \<le> bound \<or> if_group_id m \<in> awaiting_drop (dp_drop d))"

text \<open>
  A step is young when the tasks it adds to those in flight are new and their rollouts have not aged; the rollouts it keeps are
  unchanged.
\<close>

definition grows :: "Dispatcher \<Rightarrow> Dispatcher \<Rightarrow> bool" where
  "grows d d' \<longleftrightarrow> (\<forall>(t, m) \<in> set (dp_inflight d'). (t, m) \<in> set (dp_inflight d) \<or>
       dp_next_task d \<le> t \<and> t < dp_next_task d' \<and> if_off_policy_steps m = 0) \<and>
     dp_next_task d \<le> dp_next_task d' \<and> dp_train_envs d' = dp_train_envs d \<and> dp_max_off_policy_steps d' = dp_max_off_policy_steps d"

definition young :: "Dispatcher \<Rightarrow> Dispatcher \<Rightarrow> bool" where
  "young d d' \<longleftrightarrow> grows d d' \<and> dp_drop d' = dp_drop d"

lemma grows_trans:
  assumes a: "grows d d'" and b: "grows d' d''"
  shows "grows d d''"
proof -
  have "(t, m) \<in> set (dp_inflight d) \<or> dp_next_task d \<le> t \<and> t < dp_next_task d'' \<and> if_off_policy_steps m = 0"
    if "(t, m) \<in> set (dp_inflight d'')" for t m
  proof -
    have "(t, m) \<in> set (dp_inflight d') \<or> dp_next_task d' \<le> t \<and> t < dp_next_task d'' \<and> if_off_policy_steps m = 0"
      using b that by (auto simp: grows_def)
    then show ?thesis using a b by (fastforce simp: grows_def)
  qed
  then show ?thesis using a b by (auto simp: grows_def)
qed

lemma grows_subset: "set (dp_inflight d') \<subseteq> set (dp_inflight d) \<Longrightarrow> dp_next_task d' = dp_next_task d \<Longrightarrow> dp_train_envs d' = dp_train_envs d \<Longrightarrow>
    dp_max_off_policy_steps d' = dp_max_off_policy_steps d \<Longrightarrow> grows d d'"
  by (auto simp: grows_def)

lemma young_refl [simp]: "young d d"
  by (auto simp: young_def grows_def)

lemma young_trans: "young d d' \<Longrightarrow> young d' d'' \<Longrightarrow> young d d''"
  unfolding young_def using grows_trans by metis

lemma young_same [intro]: "dp_inflight d' = dp_inflight d \<Longrightarrow> dp_next_task d' = dp_next_task d \<Longrightarrow> dp_train_envs d' = dp_train_envs d \<Longrightarrow>
    dp_max_off_policy_steps d' = dp_max_off_policy_steps d \<Longrightarrow> dp_drop d' = dp_drop d \<Longrightarrow> young d d'"
  by (auto simp: young_def grows_def)

lemma young_subset: "set (dp_inflight d') \<subseteq> set (dp_inflight d) \<Longrightarrow> dp_next_task d' = dp_next_task d \<Longrightarrow> dp_train_envs d' = dp_train_envs d \<Longrightarrow>
    dp_max_off_policy_steps d' = dp_max_off_policy_steps d \<Longrightarrow> dp_drop d' = dp_drop d \<Longrightarrow> young d d'"
  by (simp add: young_def grows_subset)

lemma ages_cong: "dp_train_envs d' = dp_train_envs d \<Longrightarrow> ages d' m = ages d m"
  by (simp add: ages_def)

lemma young_bounded:
  assumes "young d d'" "bounded_age bound d" "0 \<le> bound"
  shows "bounded_age bound d'"
proof -
  have y: "\<forall>m \<in> snd ` set (dp_inflight d'). m \<in> snd ` set (dp_inflight d) \<or> if_off_policy_steps m = 0"
    "dp_train_envs d' = dp_train_envs d" "dp_max_off_policy_steps d' = dp_max_off_policy_steps d" "dp_drop d' = dp_drop d"
    using assms(1) by (auto simp: young_def grows_def)
  show ?thesis
    unfolding bounded_age_def ages_cong[OF y(2)] y(3,4)
    using assms(2,3) y(1) unfolding bounded_age_def by fastforce
qed

lemma od_set_entries: "set (od_set k v d) \<subseteq> insert (k, v) (set d)"
  by (induction k v d rule: od_set.induct) auto

lemma young_launch: "young d (launch gid permits (d\<lparr> dp_store := s, dp_inflight_permits := p \<rparr>))"
proof -
  have "set (dp_inflight (launch gid permits (d\<lparr> dp_store := s, dp_inflight_permits := p \<rparr>))) \<subseteq>
      insert (dp_next_task d, \<lparr> if_kind = gs_kind (s gid), if_env_name = gs_env_name (s gid), if_group_id = gid,
        if_policy_version = gs_policy_version_at_start (s gid), if_rollout_count = permits,
        if_client_config = gs_pinned_client (s gid), if_off_policy_steps = 0, if_eval_step = gs_eval_step (s gid) \<rparr>) (set (dp_inflight d))"
    unfolding launch_def Let_def by (simp add: od_set_entries)
  then show ?thesis unfolding young_def grows_def by (auto simp: launch_def Let_def)
qed

lemma young_claim: "claim_group gid d = Ok d' \<Longrightarrow> young d d'"
  unfolding claim_group_def env_get_def Let_def
  by (auto simp: result_simps intro: young_launch split: option.splits if_splits)

lemma young_schedule: "schedule_group_rollout gid d = Ok d' \<Longrightarrow> young d d'"
  unfolding schedule_group_rollout_def by (auto intro: young_claim split: if_splits)

lemma young_selected: "client_selected gid client d = Ok d' \<Longrightarrow> young d d'"
  unfolding client_selected_def
  using young_trans[OF young_same[of "d\<lparr> dp_store := (dp_store d)(gid := (dp_store d gid)\<lparr> gs_pinned_client := Some client \<rparr>) \<rparr>" d] young_claim]
  by (auto split: if_splits)

lemma young_acquire: "young d (acquire_next gid permits taken d)"
  using young_launch[of d gid permits "dp_inflight_permits d" "dp_store d"] by (auto simp: acquire_next_def)

lemma young_source [simp]: "young d (d\<lparr> dp_train_source := src \<rparr>)" "young d (d\<lparr> dp_eval_source := esrc \<rparr>)"
  by (rule young_same; simp)+

lemma young_fresh: "next_fresh_group draw kind envs d = Ok (fresh, d') \<Longrightarrow> young d d'"
  unfolding next_fresh_group_def
  by (cases kind) (auto simp: result_simps split: prod.splits option.splits)

lemma young_try:
  assumes "try_schedule draw kind d = Ok d'"
  shows "young d d'"
proof (cases "kind = Train \<and> dp_train_scheduling_disabled d \<or> group_envs kind d = None")
  case True
  then show ?thesis using assms by (auto simp: try_schedule_def split: if_splits)
next
  case False
  then obtain envs found where f: "(case found of Some gid \<Rightarrow> schedule_group_rollout gid d
      | None \<Rightarrow> bindE (next_fresh_group draw kind envs d) (\<lambda>(fresh, d1).
          case fresh of None \<Rightarrow> Ok (d1\<lparr> dp_loop := LoopWaiting \<rparr>)
          | Some grp \<Rightarrow> schedule_group_rollout (dp_next_group d1) (opened grp d1))) = Ok d'"
    using assms unfolding try_schedule_def opened_def Let_def by (auto simp: result_simps)
  show ?thesis
  proof (cases found)
    case (Some gid)
    then show ?thesis using f young_schedule by simp
  next
    case None
    then obtain fresh d1 where n: "next_fresh_group draw kind envs d = Ok (fresh, d1)"
      "(case fresh of None \<Rightarrow> Ok (d1\<lparr> dp_loop := LoopWaiting \<rparr>) | Some grp \<Rightarrow> schedule_group_rollout (dp_next_group d1) (opened grp d1)) = Ok d'"
      using f by (auto simp: result_simps)
    have "young d1 d'"
    proof (cases fresh)
      case None
      then show ?thesis using n(2) by auto
    next
      case (Some grp)
      then have "young (opened grp d1) d'" using n(2) young_schedule by simp
      moreover have "young d1 (opened grp d1)" by (simp add: young_same opened_def)
      ultimately show ?thesis by (rule young_trans[rotated])
    qed
    then show ?thesis using young_fresh[OF n(1)] young_trans by blast
  qed
qed

lemma young_fill: "fill_inflight draw d = Ok d' \<Longrightarrow> young d d'"
  unfolding fill_inflight_def switch_mode_def raise_if_def by (auto intro: young_try split: if_splits)

lemma young_loop: "loop_step d d' \<Longrightarrow> young d d'"
  by (induction rule: loop_step.induct)
    (auto simp: or_fail_def intro: young_fill young_selected young_acquire split: sum.splits)

lemma emit_stamp_frame: "emit_stamp m hg r d = Ok (r', d') \<Longrightarrow> dp_inflight d' = dp_inflight d \<and> dp_next_task d' = dp_next_task d \<and> dp_train_envs d' = dp_train_envs d \<and>
    dp_max_off_policy_steps d' = dp_max_off_policy_steps d \<and> dp_drop d' = dp_drop d"
  by (auto simp: emit_stamp_def Let_def raise_if_def split: if_splits)

lemma young_emit: "prepares prepare \<Longrightarrow> emit_all prepare hg ms d = Ok (em, d') \<Longrightarrow> dp_inflight d' = dp_inflight d \<and>
    dp_next_task d' = dp_next_task d \<and> dp_train_envs d' = dp_train_envs d \<and> dp_max_off_policy_steps d' = dp_max_off_policy_steps d \<and> dp_drop d' = dp_drop d"
proof (induction ms arbitrary: d)
  case (Cons p ms)
  obtain m r where p: "p = (m, r)" by (cases p)
  obtain r1 e where prep: "prepare m r d = (r1, d\<lparr> dp_errored := e \<rparr>)" using Cons.prems(1) unfolding prepares_def by blast
  obtain r2 d2 where st: "emit_stamp m hg r1 (d\<lparr> dp_errored := e \<rparr>) = Ok (r2, d2)"
    "(if out_full d2 then Ok (Blocked r2 ms, d2) else emit_all prepare hg ms (d2\<lparr> dp_out_q := dp_out_q d2 @ [r2] \<rparr>)) = Ok (em, d')"
    using Cons.prems(2) unfolding p emit_all.simps prep Let_def prod.case by (auto simp: result_simps)
  note fr = emit_stamp_frame[OF st(1)]
  show ?case
  proof (cases "out_full d2")
    case True
    then show ?thesis using st(2) fr by simp
  next
    case False
    then have "emit_all prepare hg ms (d2\<lparr> dp_out_q := dp_out_q d2 @ [r2] \<rparr>) = Ok (em, d')" using st(2) by simp
    from Cons.IH[OF Cons.prems(1) this] fr show ?thesis by simp
  qed
qed simp

lemma young_loop_emission:
  assumes "prepares prepare" "young d d1"
  shows "young d (loop_emission hg tasks (emit_all prepare hg ms d1) d1)"
proof (cases "emit_all prepare hg ms d1")
  case (Inl e)
  then show ?thesis using assms(2) by (simp add: loop_emission_def young_def grows_def)
next
  case (Inr x)
  obtain em d2 where x: "x = (em, d2)" by (cases x)
  from young_emit[OF assms(1) Inr[unfolded x]] assms(2) show ?thesis
    unfolding loop_emission_def Inr x by (cases em) (simp_all add: young_def grows_def)
qed

section \<open>The bound is kept\<close>

lemma stale_groups_cover:
  assumes "stale_groups d aged = Ok stale" "m \<in> snd ` set aged" "ages d m = Ok True"
  shows "if_off_policy_steps m \<le> dp_max_off_policy_steps d \<or> if_group_id m \<in> set stale"
proof -
  obtain gs where gs: "traverse (\<lambda>m. bindE (ages d m) (\<lambda>b. Ok (if b \<and> if_off_policy_steps m > dp_max_off_policy_steps d then [if_group_id m] else [])))
      (od_values aged) = Ok gs" "stale = remdups (concat gs)"
    using assms(1) by (auto simp: stale_groups_def result_simps)
  from gs(1) have "list_all2 (\<lambda>m g. bindE (ages d m) (\<lambda>b. Ok (if b \<and> if_off_policy_steps m > dp_max_off_policy_steps d then [if_group_id m] else [])) = Ok g)
      (od_values aged) gs" by (simp add: traverse_Inr_iff)
  moreover obtain i where i: "i < length aged" "od_values aged ! i = m"
    using assms(2) by (metis in_set_conv_nth length_map list.set_map)
  ultimately have "gs ! i = (if if_off_policy_steps m > dp_max_off_policy_steps d then [if_group_id m] else [])" "i < length gs"
    using assms(3) by (auto simp: list_all2_conv_all_nth)
  then have "if_off_policy_steps m > dp_max_off_policy_steps d \<longrightarrow> if_group_id m \<in> set (concat gs)"
    by (metis UN_iff list.set_intros(1) nth_mem set_concat)
  then show ?thesis using gs(2) by auto
qed

lemma bounded_pending:
  assumes "bounded_age bound d" "\<forall>gs. set (order gs) = set gs"
  shows "bounded_age bound (on_version_pending order d)"
proof (cases "bindE (age_all d (dp_inflight d)) (\<lambda>aged. bindE (stale_groups d aged) (\<lambda>stale. Ok (aged, stale)))")
  case (Inl e)
  then show ?thesis using assms(1) by (simp add: on_version_pending_def bounded_age_def)
next
  case (Inr x)
  then obtain aged stale where x: "x = (aged, stale)" "stale_groups d aged = Ok stale" by (auto simp: result_simps)
  have eq: "on_version_pending order d = d\<lparr> dp_inflight := aged, dp_drop := DropGroups (order stale) \<rparr>"
    unfolding on_version_pending_def Inr x by simp
  have "ages (d\<lparr> dp_inflight := aged, dp_drop := DropGroups (order stale) \<rparr>) m = ages d m" for m by (rule ages_cong) simp
  then show ?thesis using assms stale_groups_cover[OF x(2)] unfolding eq bounded_age_def by simp
qed

lemma bounded_drop_emission:
  assumes "prepares prepare" "dp_max_off_policy_steps d1 = bound"
    and "\<And>m. m \<in> snd ` set (dp_inflight d1) \<Longrightarrow> ages d1 m = Ok True \<Longrightarrow> if_off_policy_steps m \<le> bound \<or> if_group_id m \<in> set gids"
    and "\<And>e. bounded_age bound (d0\<lparr> dp_drop := DropFailed e \<rparr>)"
  shows "bounded_age bound (drop_emission hg note gids (emit_all prepare hg ms d1) d0)"
proof (cases "emit_all prepare hg ms d1")
  case (Inl e)
  then show ?thesis using assms(4) by (simp add: drop_emission_def)
next
  case (Inr x)
  obtain em d2 where x: "x = (em, d2)" by (cases x)
  note fr = young_emit[OF assms(1) Inr[unfolded x]]
  have ag: "dp_train_envs d' = dp_train_envs d1 \<Longrightarrow> ages d' m = ages d1 m" for d' m by (rule ages_cong)
  define pc where "pc = (case em of Emitted \<Rightarrow> DropGroups gids | Blocked r rest \<Rightarrow> DropBlocked hg r rest note gids)"
  have aw: "awaiting_drop pc = set gids" by (cases em) (simp_all add: pc_def)
  have base: "bounded_age bound (d2\<lparr> dp_drop := pc \<rparr>)"
    using fr assms(2,3) ag[of "d2\<lparr> dp_drop := pc \<rparr>"] unfolding bounded_age_def by (simp add: aw)
  have rec: "bounded_age bound (record_cancellation k e n y) = bounded_age bound y" for k e n y
    by (simp add: bounded_age_def record_cancellation_def ages_def)
  have move: "(record_cancellation k e n y)\<lparr> dp_drop := pc' \<rparr> = record_cancellation k e n (y\<lparr> dp_drop := pc' \<rparr>)" for k e n y pc'
    by (simp add: record_cancellation_def)
  show ?thesis
  proof (cases em)
    case Emitted
    then show ?thesis using base unfolding drop_emission_def Inr x
      by (cases "note") (simp_all add: pc_def move rec split: prod.splits)
  next
    case (Blocked r rest)
    then show ?thesis using base unfolding drop_emission_def Inr x by (simp add: pc_def)
  qed
qed

lemma bounded_failed: "dp_max_off_policy_steps d = bound \<Longrightarrow> bounded_age bound (d\<lparr> dp_drop := DropFailed e \<rparr>)"
  by (simp add: bounded_age_def)

lemma bounded_drop_group:
  assumes b: "bounded_age bound d" and pc: "dp_drop d = DropGroups (gid # gids)"
  shows "bounded_age bound (drop_group gid gids d)"
proof -
  obtain claimed d1 where c: "claim_tasks gid (d\<lparr> dp_groups := filter (\<lambda>x. x \<noteq> gid) (dp_groups d) \<rparr>) = (claimed, d1)"
    by (cases "claim_tasks gid (d\<lparr> dp_groups := filter (\<lambda>x. x \<noteq> gid) (dp_groups d) \<rparr>)")
  then have d1: "dp_inflight d1 = filter (\<lambda>(_, m). if_group_id m \<noteq> gid) (dp_inflight d)" "dp_train_envs d1 = dp_train_envs d"
    "dp_max_off_policy_steps d1 = dp_max_off_policy_steps d" by (auto simp: claim_tasks_def Let_def release_def)
  have max: "dp_max_off_policy_steps d1 = bound" using b d1(3) by (simp add: bounded_age_def)
  have "if_off_policy_steps m \<le> bound \<or> if_group_id m \<in> set gids" if m: "m \<in> snd ` set (dp_inflight d1)" "ages d1 m = Ok True" for m
  proof -
    have "m \<in> snd ` set (dp_inflight d)" "if_group_id m \<noteq> gid" using m(1) d1(1) by auto
    then show ?thesis using b m(2) pc ages_cong[OF d1(2)] by (auto simp: bounded_age_def)
  qed
  from bounded_drop_emission[OF prepares_keep max this bounded_failed[OF max]] show ?thesis
    unfolding drop_group_def Let_def c prod.case .
qed

lemma bounded_put_drop:
  assumes b: "bounded_age bound d" and pc: "dp_drop d = DropBlocked hg r rest note gids"
  shows "bounded_age bound (drop_emission hg note gids (emit_all keep_marker hg rest (d\<lparr> dp_out_q := dp_out_q d @ [r] \<rparr>)) d)"
proof (rule bounded_drop_emission[OF prepares_keep])
  show "bounded_age bound (d\<lparr> dp_drop := DropFailed e \<rparr>)" for e using b by (intro bounded_failed) (simp add: bounded_age_def)
  have "ages (d\<lparr> dp_out_q := dp_out_q d @ [r] \<rparr>) m = ages d m" for m by (rule ages_cong) simp
  then show "if_off_policy_steps m \<le> bound \<or> if_group_id m \<in> set gids"
    if "m \<in> snd ` set (dp_inflight (d\<lparr> dp_out_q := dp_out_q d @ [r] \<rparr>))" "ages (d\<lparr> dp_out_q := dp_out_q d @ [r] \<rparr>) m = Ok True" for m
    using b pc that by (auto simp: bounded_age_def)
qed (use b in \<open>simp add: bounded_age_def\<close>)

lemma fold_record: "fold (\<lambda>m. record_cancellation (k m) (e m) (n m)) metas d = d\<lparr> dp_cancelled := dp_cancelled (fold (\<lambda>m. record_cancellation (k m) (e m) (n m)) metas d) \<rparr>"
proof (induction metas arbitrary: d)
  case (Cons a metas)
  have "(record_cancellation (k a) (e a) (n a) d)\<lparr> dp_cancelled := x \<rparr> = d\<lparr> dp_cancelled := x \<rparr>" for x
    by (simp add: record_cancellation_def)
  from trans[OF Cons.IH this] show ?case by simp
qed simp

lemma young_cancel: "young d (snd (cancel_inflight_train_rollouts d))" "young d (cancel_inflight_rollouts d)"
proof -
  show "young d (snd (cancel_inflight_train_rollouts d))"
    unfolding cancel_inflight_train_rollouts_def Let_def snd_conv by (subst fold_record) (auto simp: young_def grows_def release_def)
  show "young d (cancel_inflight_rollouts d)"
    unfolding cancel_inflight_rollouts_def Let_def by (subst fold_record) (auto simp: young_def grows_def release_def)
qed

lemma young_handle: "young d (handle_completed_rollout task tasks outcome d)"
proof (cases "od_get task (dp_inflight d)")
  case None
  then show ?thesis by (auto simp: handle_completed_rollout_def)
next
  case (Some m)
  define d1 where "d1 = release (if_rollout_count m) (d\<lparr> dp_inflight := od_del task (dp_inflight d) \<rparr>)"
  have d1: "young d d1" by (rule young_subset) (auto simp: d1_def release_def od_del_def)
  have send: "young d (loop_emission hg tasks (emit_all settle_result hg rs d1) d1)" for hg rs
    by (rule young_loop_emission[OF prepares_settle d1])
  have lost: "young d (d1\<lparr> dp_abandoned := a, dp_loop := pc \<rparr>)" for a pc using d1 by (simp add: young_def grows_def)
  show ?thesis unfolding handle_completed_rollout_def Some option.case Let_def d1_def[symmetric]
    using send lost by (cases outcome) simp_all
qed

lemma young_put_loop: "young d (loop_emission hg tasks (emit_all settle_result hg rest (d\<lparr> dp_out_q := dp_out_q d @ [r] \<rparr>)) d)"
proof -
  define d1 where "d1 = d\<lparr> dp_out_q := dp_out_q d @ [r] \<rparr>"
  have res: "loop_emission hg tasks res d1 = (case res of Inl e \<Rightarrow> d1\<lparr> dp_loop := LoopFailed e \<rparr> | _ \<Rightarrow> loop_emission hg tasks res d)" for res
    by (cases res) (auto simp: loop_emission_def split: prod.splits Emission.splits)
  have "young d d1" by (rule young_same) (simp_all add: d1_def)
  from young_loop_emission[OF prepares_settle this, of hg tasks rest]
  have y: "young d (loop_emission hg tasks (emit_all settle_result hg rest d1) d1)" .
  have "young d (loop_emission hg tasks (emit_all settle_result hg rest d1) d)"
  proof (cases "emit_all settle_result hg rest d1")
    case (Inl e)
    then show ?thesis by (auto simp: loop_emission_def)
  next
    case (Inr x)
    then show ?thesis using y unfolding res by simp
  qed
  then show ?thesis unfolding d1_def .
qed

lemma bounded_step:
  assumes "disp_step d d'" "bounded_age bound d" "0 \<le> bound"
  shows "bounded_age bound d'"
  using assms(1)
proof cases
  case loop
  then show ?thesis using young_bounded[OF young_loop assms(2,3)] by blast
next
  case (handle task tasks outcome)
  then show ?thesis using young_bounded[OF young_handle assms(2,3)] by blast
next
  case (put_loop hg r rest tasks)
  then show ?thesis using young_bounded[OF young_put_loop assms(2,3)] by blast
next
  case (pending order)
  then show ?thesis using bounded_pending[OF assms(2)] by blast
next
  case (drop gid gids)
  then show ?thesis using bounded_drop_group[OF assms(2)] by blast
next
  case (put_drop hg r rest memo gids)
  then show ?thesis using bounded_put_drop[OF assms(2)] by blast
next
  case (adopt version)
  have "ages d' m = ages d m" for m by (rule ages_cong) (simp add: adopt)
  then show ?thesis using assms(2) adopt by (simp add: bounded_age_def)
next
  case cancel_train
  then show ?thesis using young_bounded[OF young_cancel(1) assms(2,3)] by blast
next
  case cancel_all
  then show ?thesis using young_bounded[OF young_cancel(2) assms(2,3)] by blast
qed (auto simp: drained_def disable_train_scheduling_def Let_def intro!: young_bounded[OF young_same assms(2,3)])

section \<open>Updates a rollout lives through\<close>

text \<open>A weight update reaches the dispatcher when the watcher enters \<open>on_version_pending\<close>.\<close>

definition notified :: "Dispatcher \<Rightarrow> Dispatcher \<Rightarrow> bool" where
  "notified d d' \<longleftrightarrow> dp_drop d = DropIdle \<and> dp_drop d' \<noteq> DropIdle"

text \<open>\<open>survives task d n d'\<close>: from \<open>d\<close> to \<open>d'\<close> the task was in flight all along, and \<open>n\<close> updates were announced meanwhile.\<close>

inductive survives :: "nat \<Rightarrow> Dispatcher \<Rightarrow> nat \<Rightarrow> Dispatcher \<Rightarrow> bool" for task d where
  start: "task \<in> set (od_keys (dp_inflight d)) \<Longrightarrow> survives task d 0 d"
| step: "survives task d n d' \<Longrightarrow> disp_step d' d'' \<Longrightarrow> task \<in> set (od_keys (dp_inflight d'')) \<Longrightarrow>
    survives task d (if notified d' d'' then Suc n else n) d''"

lemma survives_reaches: "survives task d n d' \<Longrightarrow> disp_step\<^sup>*\<^sup>* d d' \<and> task \<in> set (od_keys (dp_inflight d'))"
  by (induction rule: survives.induct) (auto intro: rtranclp.rtrancl_into_rtrancl)

definition failed :: "Dispatcher \<Rightarrow> bool" where
  "failed d \<longleftrightarrow> (\<exists>e. dp_drop d = DropFailed e)"

text \<open>A step that is not the announcement of an update.\<close>

definition quiet :: "Dispatcher \<Rightarrow> Dispatcher \<Rightarrow> bool" where
  "quiet d d' \<longleftrightarrow> grows d d' \<and> \<not> notified d d' \<and> (failed d \<longrightarrow> failed d')"

lemma young_quiet: "young d d' \<Longrightarrow> quiet d d'"
  by (simp add: young_def quiet_def notified_def failed_def)

lemma drop_emission_grows:
  assumes "prepares prepare" "grows d d1" "grows d d0"
  shows "grows d (drop_emission hg memo gids (emit_all prepare hg ms d1) d0)"
proof (cases "emit_all prepare hg ms d1")
  case (Inl e)
  then show ?thesis using assms(3) by (simp add: drop_emission_def grows_def)
next
  case (Inr x)
  obtain em d2 where x: "x = (em, d2)" by (cases x)
  note fr = young_emit[OF assms(1) Inr[unfolded x]]
  show ?thesis using assms(2) fr unfolding drop_emission_def Inr x
    by (cases em; cases memo) (auto simp: grows_def record_cancellation_def split: prod.splits)
qed

lemma quiet_drop: "grows d d' \<Longrightarrow> dp_drop d \<noteq> DropIdle \<Longrightarrow> \<not> failed d \<Longrightarrow> quiet d d'"
  by (simp add: quiet_def notified_def)

lemma step_quiet:
  assumes "disp_step d d'"
  shows "quiet d d' \<or> (\<exists>order. dp_drop d = DropIdle \<and> d' = on_version_pending order d)"
  using assms
proof cases
  case loop
  then show ?thesis using young_quiet[OF young_loop] by blast
next
  case (handle task tasks outcome)
  then show ?thesis using young_quiet[OF young_handle] by blast
next
  case (put_loop hg r rest tasks)
  then show ?thesis using young_quiet[OF young_put_loop] by blast
next
  case (drop gid gids)
  define x where "x = d\<lparr> dp_groups := filter (\<lambda>x. x \<noteq> gid) (dp_groups d) \<rparr>"
  obtain claimed d1 where c: "claim_tasks gid x = (claimed, d1)" by (cases "claim_tasks gid x")
  then have "grows d d1" by (intro grows_subset) (auto simp: claim_tasks_def Let_def release_def x_def)
  then have "grows d d'" unfolding drop(1) drop_group_def Let_def x_def[symmetric] c prod.case
    by (intro drop_emission_grows[OF prepares_keep])
  then show ?thesis using drop(2) by (intro disjI1 quiet_drop) (simp_all add: failed_def)
next
  case (put_drop hg r rest memo gids)
  have "grows d d'" unfolding put_drop(1)
    by (rule drop_emission_grows[OF prepares_keep]) (rule grows_subset; simp)+
  then show ?thesis using put_drop(2) by (intro disjI1 quiet_drop) (simp_all add: failed_def)
next
  case (adopt version)
  have "grows d d'" unfolding adopt(1) by (rule grows_subset) simp_all
  then show ?thesis using adopt(2) by (intro disjI1 quiet_drop) (simp_all add: failed_def)
next
  case cancel_train
  then show ?thesis using young_quiet[OF young_cancel(1)] by blast
next
  case cancel_all
  then show ?thesis using young_quiet[OF young_cancel(2)] by blast
qed (auto simp: drained_def disable_train_scheduling_def Let_def intro!: young_quiet[OF young_same])

lemma age_all_entries:
  "age_all d xs = Ok ys \<Longrightarrow> (t, m') \<in> set ys \<Longrightarrow>
     \<exists>m b. (t, m) \<in> set xs \<and> ages d m = Ok b \<and> m' = (if b then m\<lparr> if_off_policy_steps := if_off_policy_steps m + 1 \<rparr> else m)"
proof (induction d xs arbitrary: ys rule: age_all.induct)
  case (2 d task m rest)
  then obtain b aged where a: "ages d m = Ok b" "age_all d rest = Ok aged"
    "ys = (task, if b then m\<lparr> if_off_policy_steps := if_off_policy_steps m + 1 \<rparr> else m) # aged" by (auto simp: result_simps)
  show ?case
  proof (cases "(t, m') \<in> set aged")
    case True
    then obtain m0 b0 where "(t, m0) \<in> set rest" "ages d m0 = Ok b0"
        "m' = (if b0 then m0\<lparr> if_off_policy_steps := if_off_policy_steps m0 + 1 \<rparr> else m0)" using 2(1)[OF a(2)] by blast
    then show ?thesis by (intro exI[of _ m0] exI[of _ b0]) simp
  next
    case False
    then show ?thesis using 2(3) a(1,3) by (intro exI[of _ m] exI[of _ b]) simp
  qed
qed simp

text \<open>What a version change does to the rollouts in flight, unless it raises.\<close>

lemma pending_entries:
  assumes "d' = on_version_pending order d" "\<not> failed d'" "(t, m') \<in> set (dp_inflight d')"
  shows "\<exists>m b. (t, m) \<in> set (dp_inflight d) \<and> ages d m = Ok b \<and> m' = (if b then m\<lparr> if_off_policy_steps := if_off_policy_steps m + 1 \<rparr> else m)"
proof -
  obtain aged where "age_all d (dp_inflight d) = Ok aged" "dp_inflight d' = aged"
    using assms(1,2) by (auto simp: on_version_pending_def failed_def result_simps split: sum.splits)
  then show ?thesis using age_all_entries[of d "dp_inflight d" aged t m'] assms(3) by simp
qed

lemma pending_frame:
  "dp_next_task (on_version_pending order d) = dp_next_task d \<and> dp_train_envs (on_version_pending order d) = dp_train_envs d \<and>
   dp_drop (on_version_pending order d) \<noteq> DropIdle"
  by (auto simp: on_version_pending_def split: sum.splits)

text \<open>The numbering of the tasks, and the ageing of one task while \<open>n\<close> updates are announced.\<close>

definition tasks_numbered :: "Dispatcher \<Rightarrow> bool" where
  "tasks_numbered d \<longleftrightarrow> failed d \<or> (\<forall>(t, m) \<in> set (dp_inflight d). t < dp_next_task d \<and> 0 \<le> if_off_policy_steps m)"

definition aged_by :: "nat \<Rightarrow> nat \<Rightarrow> Dispatcher \<Rightarrow> bool" where
  "aged_by task n d \<longleftrightarrow> failed d \<or> (\<forall>m. (task, m) \<in> set (dp_inflight d) \<longrightarrow> ages d m = Ok True \<longrightarrow> int n \<le> if_off_policy_steps m)"

lemma numbered_step:
  assumes "disp_step d d'" "tasks_numbered d"
  shows "tasks_numbered d'"
proof (cases "quiet d d'")
  case True
  then have g: "grows d d'" "failed d \<longrightarrow> failed d'" by (simp_all add: quiet_def)
  have "t < dp_next_task d' \<and> 0 \<le> if_off_policy_steps m" if "(t, m) \<in> set (dp_inflight d')" "\<not> failed d" for t m
    using g(1) that assms(2) by (fastforce simp: grows_def tasks_numbered_def)
  then show ?thesis using g(2) by (auto simp: tasks_numbered_def)
next
  case False
  then obtain order where o: "dp_drop d = DropIdle" "d' = on_version_pending order d" using step_quiet[OF assms(1)] by blast
  have nf: "\<not> failed d" using o(1) by (simp add: failed_def)
  have "t < dp_next_task d' \<and> 0 \<le> if_off_policy_steps m'" if m': "(t, m') \<in> set (dp_inflight d')" "\<not> failed d'" for t m'
  proof -
    obtain m b where m: "(t, m) \<in> set (dp_inflight d)" "m' = (if b then m\<lparr> if_off_policy_steps := if_off_policy_steps m + 1 \<rparr> else m)"
      using pending_entries[OF o(2) m'(2,1)] by blast
    have "t < dp_next_task d \<and> 0 \<le> if_off_policy_steps m" using assms(2) nf m(1) by (auto simp: tasks_numbered_def)
    then show ?thesis using m(2) pending_frame[of order d] o(2) by simp
  qed
  then show ?thesis by (auto simp: tasks_numbered_def)
qed

lemma aged_step:
  assumes "disp_step d d'" "tasks_numbered d" "task \<in> set (od_keys (dp_inflight d))" "aged_by task n d"
  shows "aged_by task (if notified d d' then Suc n else n) d'"
proof (cases "quiet d d'")
  case True
  then have g: "grows d d'" "failed d \<longrightarrow> failed d'" "\<not> notified d d'" by (simp_all add: quiet_def)
  have "int n \<le> if_off_policy_steps m" if m: "(task, m) \<in> set (dp_inflight d')" "ages d' m = Ok True" "\<not> failed d" for m
  proof -
    obtain m0 where "(task, m0) \<in> set (dp_inflight d)" using assms(3) by force
    then have "task < dp_next_task d" using assms(2) m(3) by (auto simp: tasks_numbered_def)
    then have "(task, m) \<in> set (dp_inflight d)" using g(1) m(1) by (auto simp: grows_def)
    moreover have "dp_train_envs d' = dp_train_envs d" using g(1) by (simp add: grows_def)
    then have "ages d m = Ok True" using m(2) by (simp only: ages_cong[of d' d m])
    ultimately show ?thesis using assms(4) m(3) by (simp add: aged_by_def)
  qed
  then show ?thesis using g(2,3) by (auto simp: aged_by_def)
next
  case False
  then obtain order where o: "dp_drop d = DropIdle" "d' = on_version_pending order d" using step_quiet[OF assms(1)] by blast
  have nf: "\<not> failed d" "notified d d'" using o pending_frame[of order d] by (simp_all add: failed_def notified_def)
  have "int (Suc n) \<le> if_off_policy_steps m'" if m': "(task, m') \<in> set (dp_inflight d')" "ages d' m' = Ok True" "\<not> failed d'" for m'
  proof -
    obtain m b where m: "(task, m) \<in> set (dp_inflight d)" "ages d m = Ok b"
        "m' = (if b then m\<lparr> if_off_policy_steps := if_off_policy_steps m + 1 \<rparr> else m)"
      using pending_entries[OF o(2) m'(3,1)] by blast
    have "dp_train_envs d' = dp_train_envs d" using pending_frame[of order d] o(2) by simp
    then have "ages d m' = Ok True" using m'(2) by (simp only: ages_cong[of d' d m'])
    then have "b" using m(2,3) by (cases b) simp_all
    then show ?thesis using assms(4) nf(1) m by (simp add: aged_by_def)
  qed
  then show ?thesis using nf(2) by (auto simp: aged_by_def)
qed

lemma reaches_numbered:
  assumes "reaches (Dispatcher_init train_envs eval_envs ts es v max_inflight max_off limited) d"
  shows "tasks_numbered d"
  using assms
proof (induction rule: rtranclp_induct)
  case base
  show ?case by (simp add: tasks_numbered_def Dispatcher_init_def)
next
  case (step d d')
  then show ?case using numbered_step by blast
qed

lemma survives_aged:
  assumes "survives task d n d'" "tasks_numbered d"
  shows "aged_by task n d' \<and> tasks_numbered d'"
  using assms
proof (induction rule: survives.induct)
  case start
  then show ?case by (auto simp: aged_by_def tasks_numbered_def)
next
  case (step n d' d'')
  have IH: "aged_by task n d'" "tasks_numbered d'" using step.IH step.prems by simp_all
  have "task \<in> set (od_keys (dp_inflight d'))" using survives_reaches[OF step.hyps(1)] by blast
  then show ?case using aged_step[OF step.hyps(2) IH(2) _ IH(1)] numbered_step[OF step.hyps(2) IH(2)] by blast
qed

lemma reaches_bounded:
  assumes "reaches (Dispatcher_init train_envs eval_envs ts es v max_inflight max_off limited) d" "0 \<le> max_off"
  shows "bounded_age max_off d"
  using assms(1)
proof (induction rule: rtranclp_induct)
  case base
  show ?case by (simp add: bounded_age_def Dispatcher_init_def)
next
  case (step d d')
  then show ?case using bounded_step assms(2) by blast
qed

text \<open>
  C11: No stale rollout survives a weight update: whenever the watcher is not in the middle of a version change, and in particular when a
  new version is adopted, a training rollout of the live policy that is in flight has been in flight through at most
  \<open>max_off_policy_steps\<close> updates, counted as the runs of \<open>on_version_pending\<close> since any earlier state in which its task was in flight;
  its own counter has recorded every one of them.
\<close>

theorem live_rollouts_stay_fresh:
  assumes "reaches (Dispatcher_init train_envs eval_envs ts es v max_inflight max_off limited) d" "0 \<le> max_off"
    and "survives task d n d'" "dp_drop d' = DropIdle \<or> dp_drop d' = DropGroups []" "(task, m) \<in> set (dp_inflight d')"
    and "if_kind m = Train" "od_get (if_env_name m) (dp_train_envs d') = Some env" "es_live env"
  shows "int n \<le> if_off_policy_steps m \<and> if_off_policy_steps m \<le> max_off"
proof -
  have ag: "ages d' m = Ok True" using assms(6-8) by (simp add: ages_def env_get_def)
  have run: "reaches (Dispatcher_init train_envs eval_envs ts es v max_inflight max_off limited) d'"
    using assms(1) survives_reaches[OF assms(3)] by (meson rtranclp_trans)
  have "m \<in> snd ` set (dp_inflight d')" using assms(5) by force
  then have "if_off_policy_steps m \<le> max_off" using reaches_bounded[OF run assms(2)] ag assms(4) by (auto simp: bounded_age_def)
  moreover have "aged_by task n d'" using survives_aged[OF assms(3) reaches_numbered[OF assms(1)]] by simp
  then have "int n \<le> if_off_policy_steps m" using assms(4,5) ag by (auto simp: aged_by_def failed_def)
  ultimately show ?thesis by simp
qed

section \<open>A rollout from its draw to its delivery\<close>

definition solo_env :: EnvSpec where
  "solo_env = \<lparr> es_name = ''a'', es_tasks = Generator, es_group_size = 1, es_requires_group_scoring = False, es_ratio = 1, es_live = True \<rparr>"

definition solo_source :: TrainSource where
  "solo_source = \<lparr> ts_env_names = [''a''], ts_weights = [1], ts_examples = [(''a'', None)], ts_cursors = [(''a'', 0)], ts_env_costs = [(''a'', 1)] \<rparr>"

definition solo :: Dispatcher where
  "solo = Dispatcher_init [(''a'', solo_env)] None solo_source None 0 1 2 False"

definition solo_draw :: Draw where
  "solo_draw = (''a'', id, (7, ''task''), 0)"

definition solo_group :: GroupState where
  "solo_group = \<lparr> gs_kind = Train, gs_env_name = ''a'', gs_task_idx = 7, gs_rollouts_to_schedule = 1, gs_target_rollouts = 1,
     gs_task_data = Some ''task'', gs_emitted = 0, gs_eval_step = None, gs_pinned_client = None, gs_policy_version_at_start = 0 \<rparr>"

definition solo_flight :: InflightRollout where
  "solo_flight = \<lparr> if_kind = Train, if_env_name = ''a'', if_group_id = 0, if_policy_version = 0, if_rollout_count = 1,
     if_client_config = Some 3, if_off_policy_steps = 0, if_eval_step = None \<rparr>"

definition solo_result :: TaskRollout where
  "solo_result = \<lparr> tr_task_idx = 7, tr_task_data = Some ''task'', tr_errors = [], tr_num_turns = 2, tr_kind = Train, tr_env_name = [],
     tr_group_id = 9, tr_policy_version = 5, tr_off_policy_steps = 0, tr_eval_step = None \<rparr>"

definition solo_delivered :: TaskRollout where
  "solo_delivered = solo_result\<lparr> tr_env_name := ''a'', tr_group_id := 0, tr_policy_version := 0 \<rparr>"

definition solo_opened :: Dispatcher where
  "solo_opened = solo\<lparr> dp_store := (dp_store solo)(0 := solo_group), dp_groups := [0], dp_next_group := 1, dp_loop := LoopSelecting 0 \<rparr>"

definition solo_running :: Dispatcher where
  "solo_running = solo_opened\<lparr> dp_store := (dp_store solo)(0 := solo_group\<lparr> gs_pinned_client := Some 3, gs_rollouts_to_schedule := 0 \<rparr>),
     dp_inflight_permits := 1, dp_inflight := [(0, solo_flight)], dp_next_task := 1, dp_loop := LoopTop \<rparr>"

definition solo_ended :: Dispatcher where
  "solo_ended = solo_running\<lparr> dp_store := (dp_store solo)(0 := solo_group\<lparr> gs_pinned_client := Some 3, gs_rollouts_to_schedule := 0, gs_emitted := 1 \<rparr>),
     dp_groups := [], dp_inflight_permits := 0, dp_inflight := [], dp_delivered := [solo_delivered], dp_loop := LoopTop \<rparr>"

lemmas solo_defs = solo_env_def solo_source_def solo_def solo_draw_def solo_group_def solo_flight_def solo_result_def solo_delivered_def
  solo_opened_def solo_running_def solo_ended_def

lemma solo_open: "fill_inflight solo_draw solo = Ok solo_opened"
  by (simp add: fill_inflight_def solo_defs Dispatcher_init_def available_permits_def try_schedule_def group_envs_def next_fresh_group_def
      train_next_def env_get_def schedule_group_rollout_def no_group_def)

lemma solo_launch: "client_selected 0 3 solo_opened = Ok solo_running"
  by (simp add: client_selected_def claim_group_def group_envs_def env_get_def launch_def solo_defs Dispatcher_init_def no_group_def Let_def)

lemma solo_runs: "reaches solo solo_running"
proof -
  have "loop_step solo (or_fail (fill_inflight solo_draw solo) solo)"
    by (rule loop_step.fill) (simp_all add: solo_defs Dispatcher_init_def valid_draw_def)
  then have "disp_step solo solo_opened" by (simp add: disp_step.loop solo_open or_fail_def)
  moreover have "loop_step solo_opened (or_fail (client_selected 0 3 solo_opened) solo_opened)"
    by (rule loop_step.select) (simp add: solo_opened_def)
  then have "disp_step solo_opened solo_running" by (simp add: disp_step.loop solo_launch or_fail_def)
  ultimately show ?thesis by (meson converse_rtranclp_into_rtranclp rtranclp.rtrancl_refl)
qed

lemma solo_ends: "reaches solo_running solo_ended"
proof -
  define d1 where "d1 = solo_running\<lparr> dp_loop := LoopWaiting \<rparr>"
  define d2 where "d2 = d1\<lparr> dp_loop := LoopHandling [0] \<rparr>"
  define d3 where "d3 = solo_ended\<lparr> dp_delivered := [], dp_out_q := [solo_delivered], dp_loop := LoopHandling [] \<rparr>"
  define d4 where "d4 = d3\<lparr> dp_loop := LoopTop \<rparr>"
  have "loop_step solo_running (or_fail (fill_inflight solo_draw solo_running) solo_running)"
    by (rule loop_step.fill) (simp_all add: solo_defs Dispatcher_init_def valid_draw_def)
  moreover have "fill_inflight solo_draw solo_running = Ok d1"
    by (simp add: fill_inflight_def available_permits_def d1_def solo_defs Dispatcher_init_def)
  ultimately have s1: "disp_step solo_running d1" by (simp add: disp_step.loop or_fail_def)
  have s2: "disp_step d1 d2" unfolding d2_def by (rule disp_step.wake) (simp_all add: d1_def solo_running_def)
  have "disp_step d2 (handle_completed_rollout 0 [] (Returned [solo_result]) d2)"
    by (rule disp_step.handle) (simp_all add: d2_def d1_def outcome_ok_def solo_running_def solo_flight_def)
  moreover have "handle_completed_rollout 0 [] (Returned [solo_result]) d2 = d3"
    by (simp add: handle_completed_rollout_def d3_def d2_def d1_def solo_defs Dispatcher_init_def no_group_def od_del_def release_def settle_result_def
        emit_stamp_def out_full_def out_maxsize_def loop_emission_def Let_def)
  ultimately have s3: "disp_step d2 d3" by simp
  have s4: "disp_step d3 d4" unfolding d4_def by (rule disp_step.handled) (simp add: d3_def)
  have "disp_step d4 (d4\<lparr> dp_out_q := [], dp_delivered := dp_delivered d4 @ [solo_delivered] \<rparr>)"
    by (rule disp_step.consume) (simp add: d4_def d3_def)
  moreover have "d4\<lparr> dp_out_q := [], dp_delivered := dp_delivered d4 @ [solo_delivered] \<rparr> = solo_ended"
    by (simp add: d4_def d3_def solo_defs Dispatcher_init_def)
  ultimately have s5: "disp_step d4 solo_ended" by simp
  show ?thesis using s1 s2 s3 s4 s5 by (meson converse_rtranclp_into_rtranclp rtranclp.rtrancl_refl)
qed

lemma solo_config: "config_ok (Dispatcher_init [(''a'', solo_env)] None solo_source None 0 1 2 False)"
  by (auto simp: config_ok_def envs_ok_def names_ok_def Dispatcher_init_def solo_env_def solo_source_def permit_cost_def split: if_splits)

theorem dispatcher_accounts_every_rollout_witness:
  "reaches solo solo_running \<and> stamped solo_running 0 = 0 \<and> owed solo_running 0 = 1 \<and>
     stamped solo_running 0 + owed solo_running 0 + dp_abandoned solo_running 0 = gs_target_rollouts (dp_store solo_running 0)"
proof -
  have "dp_next_group solo_running = 1" by (simp add: solo_running_def solo_opened_def)
  with dispatcher_accounts_every_rollout[OF solo_config solo_runs[unfolded solo_def]]
  have "stamped solo_running 0 + owed solo_running 0 + dp_abandoned solo_running 0 = gs_target_rollouts (dp_store solo_running 0)" by simp
  moreover have "stamped solo_running 0 = 0" "owed solo_running 0 = 1"
    by (simp_all add: stamped_def owed_def inflight_of_def unscheduled_def solo_defs Dispatcher_init_def)
  ultimately show ?thesis using solo_runs by blast
qed

theorem idle_dispatcher_delivered_everything_witness:
  "reaches solo solo_ended \<and> is_idle solo_ended \<and> count_of 0 (dp_delivered solo_ended) = 1 \<and>
     count_of 0 (dp_delivered solo_ended) + unscheduled solo_ended 0 + dp_abandoned solo_ended 0 = gs_target_rollouts (dp_store solo_ended 0)"
proof -
  have run: "reaches solo solo_ended" using solo_runs solo_ends by simp
  have idle: "is_idle solo_ended" "dp_loop solo_ended = LoopTop" "dp_drop solo_ended = DropIdle" "0 < dp_next_group solo_ended"
    "count_of 0 (dp_delivered solo_ended) = 1"
    by (simp_all add: is_idle_def eval_has_work_def queued_eval_examples_def solo_defs Dispatcher_init_def)
  from idle_dispatcher_delivered_everything[OF solo_config run[unfolded solo_def] idle(1) disjI1[OF idle(2)] idle(3,4)] run idle show ?thesis by blast
qed

theorem filling_terminates_witness:
  "(loop_step ^^ 1) solo solo_opened \<and> int 1 \<le> 10 * dp_max_inflight solo + 5 \<and> (\<exists>m d''. (loop_step ^^ m) solo_opened d'' \<and> dp_loop d'' \<noteq> LoopTop)"
proof -
  have "loop_step solo (or_fail (fill_inflight solo_draw solo) solo)"
    by (rule loop_step.fill) (simp_all add: solo_defs Dispatcher_init_def valid_draw_def)
  then have step: "(loop_step ^^ 1) solo solo_opened" unfolding relpowp_1 by (simp add: solo_open or_fail_def)
  have "reaches solo solo" by simp
  from filling_terminates[OF solo_config this[unfolded solo_def] step[unfolded solo_def]] step show ?thesis unfolding solo_def by blast
qed

definition solo_updated :: Dispatcher where
  "solo_updated = solo_running\<lparr> dp_inflight := [(0, solo_flight\<lparr> if_off_policy_steps := 1 \<rparr>)], dp_policy_version := 1 \<rparr>"

lemma solo_survives: "survives 0 solo_running 1 solo_updated"
proof -
  define d1 where "d1 = solo_running\<lparr> dp_inflight := [(0, solo_flight\<lparr> if_off_policy_steps := 1 \<rparr>)], dp_drop := DropGroups [] \<rparr>"
  have pend: "on_version_pending id solo_running = d1"
    by (simp add: on_version_pending_def stale_groups_def ages_def env_get_def d1_def solo_defs Dispatcher_init_def)
  have idle: "dp_drop solo_running = DropIdle" by (simp add: solo_defs Dispatcher_init_def)
  have "disp_step solo_running d1" using disp_step.pending[OF idle, of id] pend by simp
  then have "survives 0 solo_running (if notified solo_running d1 then Suc 0 else 0) d1"
    by (intro survives.step[OF survives.start]) (simp_all add: d1_def solo_running_def)
  then have s1: "survives 0 solo_running 1 d1" by (simp add: notified_def idle) (simp add: d1_def)
  have "disp_step d1 (d1\<lparr> dp_drop := DropIdle, dp_policy_version := 1 \<rparr>)"
    by (rule disp_step.adopt) (simp_all add: d1_def solo_defs Dispatcher_init_def)
  moreover have "d1\<lparr> dp_drop := DropIdle, dp_policy_version := 1 \<rparr> = solo_updated"
    by (simp add: d1_def solo_updated_def solo_defs Dispatcher_init_def)
  ultimately have "disp_step d1 solo_updated" by simp
  then have "survives 0 solo_running (if notified d1 solo_updated then Suc 1 else 1) solo_updated"
    by (intro survives.step[OF s1]) (simp_all add: solo_updated_def)
  then show ?thesis by (simp add: notified_def) (simp add: d1_def)
qed

theorem live_rollouts_stay_fresh_witness:
  "reaches solo solo_running \<and> survives 0 solo_running 1 solo_updated \<and> dp_policy_version solo_updated = 1 \<and>
     dp_inflight solo_updated = [(0, solo_flight\<lparr> if_off_policy_steps := 1 \<rparr>)] \<and>
     int 1 \<le> if_off_policy_steps (solo_flight\<lparr> if_off_policy_steps := 1 \<rparr>) \<and> if_off_policy_steps (solo_flight\<lparr> if_off_policy_steps := 1 \<rparr>) \<le> 2"
proof -
  have u: "dp_drop solo_updated = DropIdle" "(0, solo_flight\<lparr> if_off_policy_steps := 1 \<rparr>) \<in> set (dp_inflight solo_updated)"
    "if_kind (solo_flight\<lparr> if_off_policy_steps := 1 \<rparr>) = Train"
    "od_get (if_env_name (solo_flight\<lparr> if_off_policy_steps := 1 \<rparr>)) (dp_train_envs solo_updated) = Some solo_env" "es_live solo_env"
    by (simp_all add: solo_updated_def solo_defs Dispatcher_init_def)
  from live_rollouts_stay_fresh[OF solo_runs[unfolded solo_def] _ solo_survives disjI1[OF u(1)] u(2-5)] solo_runs solo_survives
  show ?thesis by (simp add: solo_updated_def)
qed

section \<open>A rollout that waits for the rate limiter\<close>

definition paced_source :: EvalSource where
  "paced_source = EvalSource_init [(''e'', [\<lparr> ex_env_name = ''e'', ex_task_idx = 0, ex_task_data = None, ex_eval_step = None \<rparr>], 1)] False False"

definition paced :: Dispatcher where
  "paced = Dispatcher_init [(''a'', solo_env)] (Some [(''e'', solo_env\<lparr> es_name := ''e'' \<rparr>)]) solo_source (Some paced_source) 0 4 2 True"

text \<open>
  C37: With a rate limiter, the last evaluation rollout can be between its claim and its launch: the group has nothing left to
  schedule, the task is not in flight yet, and \<open>is_idle\<close> holds although the rollout is owed.
\<close>

theorem is_idle_overlooks_acquisition:
  "\<exists>d. reaches paced d \<and> is_idle d \<and> dp_loop d = LoopAcquiring 0 1 0 \<and> gs_kind (dp_store d 0) = Eval \<and> owed d 0 = 1"
proof -
  define grp where "grp = \<lparr> gs_kind = Eval, gs_env_name = ''e'', gs_task_idx = 0, gs_rollouts_to_schedule = 1, gs_target_rollouts = 1,
     gs_task_data = None, gs_emitted = 0, gs_eval_step = Some 1, gs_pinned_client = None, gs_policy_version_at_start = 0 \<rparr>"
  define src0 where "src0 = paced_source\<lparr> el_first_trigger := False \<rparr>"
  define src1 where "src1 = src0\<lparr> el_queue := [\<lparr> ex_env_name = ''e'', ex_task_idx = 0, ex_task_data = None, ex_eval_step = Some 1 \<rparr>] \<rparr>"
  define d1 where "d1 = paced\<lparr> dp_eval_source := Some src1, dp_mode := PREFER_EVAL \<rparr>"
  define d2 where "d2 = d1\<lparr> dp_eval_source := Some src0, dp_store := (dp_store paced)(0 := grp), dp_groups := [0], dp_next_group := 1,
      dp_loop := LoopSelecting 0 \<rparr>"
  define d3 where "d3 = d2\<lparr> dp_store := (dp_store paced)(0 := grp\<lparr> gs_pinned_client := Some 0, gs_rollouts_to_schedule := 0 \<rparr>),
      dp_loop := LoopAcquiring 0 1 0 \<rparr>"
  have rr: "round_robin [[x]] = [x]" for x :: Example by (simp add: round_robin.simps)
  have trig: "eval_trigger 1 paced_source = Ok ([''e''], src1)"
    by (simp add: eval_trigger_def paced_source_def src1_def src0_def EvalSource_init_def rr)
  have "disp_step paced (paced\<lparr> dp_eval_source := Some src1, dp_mode := (if [''e''] \<noteq> [] then PREFER_EVAL else dp_mode paced) \<rparr>)"
    by (rule disp_step.trigger[OF _ trig]) (simp add: paced_def Dispatcher_init_def)
  then have s1: "disp_step paced d1" by (simp add: d1_def)
  have fill: "fill_inflight solo_draw d1 = Ok d2"
    by (simp add: fill_inflight_def available_permits_def try_schedule_def group_envs_def next_fresh_group_def eval_next_def env_get_def
        eval_has_work_def queued_eval_examples_def schedule_group_rollout_def permit_cost_def
        d2_def d1_def src1_def src0_def grp_def paced_def paced_source_def solo_env_def Dispatcher_init_def EvalSource_init_def)
  have "loop_step d1 (or_fail (fill_inflight solo_draw d1) d1)"
    by (rule loop_step.fill) (simp_all add: d1_def paced_def solo_source_def solo_draw_def Dispatcher_init_def valid_draw_def)
  then have s2: "disp_step d1 d2" by (simp add: disp_step.loop fill or_fail_def)
  have sel: "client_selected 0 0 d2 = Ok d3"
    by (simp add: client_selected_def claim_group_def group_envs_def env_get_def d3_def d2_def d1_def grp_def paced_def solo_env_def Dispatcher_init_def Let_def)
  have "loop_step d2 (or_fail (client_selected 0 0 d2) d2)" by (rule loop_step.select) (simp add: d2_def)
  then have s3: "disp_step d2 d3" by (simp add: disp_step.loop sel or_fail_def)
  have "reaches paced d3" using s1 s2 s3 by (meson converse_rtranclp_into_rtranclp rtranclp.rtrancl_refl)
  moreover have "is_idle d3" "dp_loop d3 = LoopAcquiring 0 1 0" "gs_kind (dp_store d3 0) = Eval" "owed d3 0 = 1"
    by (simp_all add: is_idle_def eval_has_work_def queued_eval_examples_def owed_def inflight_of_def unscheduled_def d3_def d2_def d1_def
        src0_def grp_def paced_def paced_source_def Dispatcher_init_def EvalSource_init_def)
  ultimately show ?thesis by blast
qed

end
