(* ===== verification/Policy_Loss.thy ===== *)
theory Policy_Loss
  imports Ordered_Dict
begin

text \<open>
  The policy loss of \<^verbatim>\<open>trainer/rl/loss.py\<close> with its normalisation (\<^verbatim>\<open>trainer/rl/normalization.py\<close>), over exact reals:
  one-dimensional tensors are lists, boolean indexing with a mask of another length raises, and \<open>compute_loss\<close> gets scales of at
  least one from \<open>global_loss_scales\<close>. No real is infinite, so the non-finite diagnostics read 0. A custom loss function is a
  parameter.
\<close>

section \<open>Log probabilities\<close>

definition logsumexp :: "real list \<Rightarrow> real" where
  "logsumexp logits = ln (sum_list (map exp logits))"

definition log_softmax :: "real list \<Rightarrow> real list" where
  "log_softmax logits = map (\<lambda>x. x - logsumexp logits) logits"

definition selective_log_softmax :: "real list list list \<Rightarrow> nat list list \<Rightarrow> real list list result" where
  "selective_log_softmax logits index =
     traverse (\<lambda>(row, ids). traverse (\<lambda>(position, token). nth_chk (log_softmax position) token) (zip row ids)) (zip logits index)"

definition compute_entropy :: "real list list list \<Rightarrow> real list list" where
  "compute_entropy shifted_logits =
     map (map (\<lambda>position. logsumexp position - sum_list (map2 (*) (map exp (log_softmax position)) position))) shifted_logits"

definition shift_tensor_left :: "'a \<Rightarrow> 'a list list \<Rightarrow> 'a list list" where
  "shift_tensor_left zero t = map (\<lambda>row. tl row @ [zero]) t"

definition shift_tensor_right :: "real list list \<Rightarrow> real option \<Rightarrow> real list list" where
  "shift_tensor_right t pad_value = map (\<lambda>row. (case pad_value of None \<Rightarrow> 0 | Some p \<Rightarrow> p) # butlast row) t"

section \<open>Loss functions of one sequence\<close>

record LossInputs =
  li_trainer_logprobs :: "real list"
  li_inference_logprobs :: "real list"
  li_ref_logprobs :: "real list option"
  li_advantages :: "real list"
  li_loss_mask :: "bool list"
  li_loss_weights :: "real list option"

datatype Metric = Scalar real | Vector "real list"

record LossOutputs =
  lo_loss :: real
  lo_metrics :: "(string \<times> Metric) list"

record DefaultLossConfig =
  dl_dppo_mask_low :: real
  dl_dppo_mask_high :: real
  dl_adv_tau :: real
  dl_kl_tau :: real

record IPOLossConfig =
  ip_ipo_threshold :: real
  ip_adv_tau :: real
  ip_kl_tau :: real

datatype LossConfig = DefaultLoss DefaultLossConfig | IPOLoss IPOLossConfig | CustomLoss "LossInputs \<Rightarrow> LossOutputs result"

text \<open>\<open>tensor[mask]\<close>\<close>

definition masked :: "bool list \<Rightarrow> 'a list \<Rightarrow> 'a list" where
  "masked keep xs = map snd (filter fst (zip keep xs))"

definition select :: "bool list \<Rightarrow> 'a list \<Rightarrow> 'a list result" where
  "select keep xs = raise_if (length keep \<noteq> length xs) IndexError (Ok (masked keep xs))"

fun select_opt :: "bool list \<Rightarrow> 'a list option \<Rightarrow> 'a list option result" where
  "select_opt keep None = Ok None"
| "select_opt keep (Some xs) = bindE (select keep xs) (\<lambda>ys. Ok (Some ys))"

definition safe_mean :: "real list \<Rightarrow> bool list \<Rightarrow> real" where
  "safe_mean xs keep = sum_list (map (\<lambda>x. x / max 1 (real (length (filter id keep)))) (masked keep xs))"

definition diagnostic_ratio_limit :: real where
  "diagnostic_ratio_limit = 10 ^ 30"

definition compute_mismatch_kl :: "real \<Rightarrow> real" where
  "compute_mismatch_kl log_ratio =
     (let log_limit = ln diagnostic_ratio_limit; mismatch_kl = exp (min log_ratio log_limit) - 1 - log_ratio
      in if log_ratio > log_limit then diagnostic_ratio_limit else min mismatch_kl diagnostic_ratio_limit)"

definition probability_difference :: "real \<Rightarrow> real \<Rightarrow> real" where
  "probability_difference trainer inference =
     (let larger = max trainer inference; smaller = min trainer inference; magnitude = exp larger * - (exp (smaller - larger) - 1)
      in if trainer \<ge> inference then magnitude else - magnitude)"

definition indicator_of :: "bool \<Rightarrow> real" where
  "indicator_of b = (if b then 1 else 0)"

definition importance_ratio_metrics :: "real list \<Rightarrow> bool list \<Rightarrow> (string \<times> Metric) list" where
  "importance_ratio_metrics log_ratio keep_mask =
     concat (map (\<lambda>(population, xs).
       [(''importance_ratio/'' @ population, Vector (map (\<lambda>x. exp (min x (ln diagnostic_ratio_limit))) xs)),
        (''log_importance_ratio/'' @ population, Vector xs),
        (''importance_ratio/'' @ population @ ''/saturated'', Vector (map (\<lambda>x. indicator_of (x > ln diagnostic_ratio_limit)) xs)),
        (''importance_ratio/'' @ population @ ''/nonfinite'', Vector (map (\<lambda>x. 0) xs)),
        (''loss_mismatch_kl/'' @ population @ ''/saturated'', Vector (map (\<lambda>x. indicator_of (compute_mismatch_kl x \<ge> diagnostic_ratio_limit)) xs))] @
       map (\<lambda>(name, threshold). (''importance_ratio/'' @ population @ ''/above_'' @ name, Vector (map (\<lambda>x. indicator_of (x > ln threshold)) xs)))
         [(''5'', 5), (''10'', 10), (''100'', 100), (''10000'', 10000)])
     [(''all'', log_ratio), (''accepted'', masked keep_mask log_ratio)])"

definition weighted_sum :: "real list \<Rightarrow> real list option \<Rightarrow> real" where
  "weighted_sum xs weights = sum_list (case weights of None \<Rightarrow> xs | Some w \<Rightarrow> map2 (*) xs w)"

text \<open>The masked streams a policy-gradient loss starts from: trainer and inference log probabilities, advantages, weights.\<close>

definition selected :: "LossInputs \<Rightarrow> (real list \<times> real list \<times> real list \<times> real list option) result" where
  "selected inputs =
     bindE (select (li_loss_mask inputs) (li_trainer_logprobs inputs)) (\<lambda>t.
     bindE (select (li_loss_mask inputs) (li_inference_logprobs inputs)) (\<lambda>i.
     bindE (select (li_loss_mask inputs) (li_advantages inputs)) (\<lambda>a.
     bindE (select_opt (li_loss_mask inputs) (li_loss_weights inputs)) (\<lambda>w. Ok (t, i, a, w)))))"

text \<open>The policy-gradient term over the kept tokens and the KL regulariser over all.\<close>

definition policy_terms :: "real \<Rightarrow> real \<Rightarrow> bool list \<Rightarrow> real list \<Rightarrow> real list \<Rightarrow> real list option \<Rightarrow> real" where
  "policy_terms adv_tau kl_tau keep_mask advantages log_importance_ratio weights =
     (let pg_mask = map2 (\<lambda>keep a. keep \<and> a \<noteq> 0 \<and> adv_tau \<noteq> 0) keep_mask advantages;
          pg_loss = map2 (\<lambda>a r. - adv_tau * a * exp r) (masked pg_mask advantages) (masked pg_mask log_importance_ratio);
          loss = weighted_sum pg_loss (map_option (masked pg_mask) weights)
      in if kl_tau \<noteq> 0 then loss + kl_tau * weighted_sum (map (\<lambda>r. r\<^sup>2) log_importance_ratio) weights else loss)"

definition default_loss_fn :: "LossInputs \<Rightarrow> DefaultLossConfig \<Rightarrow> LossOutputs result" where
  "default_loss_fn inputs cfg =
     bindE (selected inputs) (\<lambda>(trainer, inference, advantages, weights).
     let log_importance_ratio = map2 (-) trainer inference;
         probs_diff = map2 probability_difference trainer inference;
         invalid_high = map (\<lambda>x. x > dl_dppo_mask_high cfg) probs_diff;
         invalid_low = map (\<lambda>x. x < - dl_dppo_mask_low cfg) probs_diff;
         positive = map (\<lambda>a. a > 0) advantages; negative = map (\<lambda>a. a < 0) advantages;
         is_masked = map (\<lambda>(pos, high, low). if pos then high else low) (zip positive (zip invalid_high invalid_low));
         keep_mask = map Not is_masked;
         mismatch_kl = map compute_mismatch_kl log_importance_ratio; eligible = map (\<lambda>_. True) keep_mask
     in Ok \<lparr> lo_loss = policy_terms (dl_adv_tau cfg) (dl_kl_tau cfg) keep_mask advantages log_importance_ratio weights,
             lo_metrics =
               [(''masked_mismatch_kl'', Scalar (safe_mean mismatch_kl is_masked)), (''unmasked_mismatch_kl'', Scalar (safe_mean mismatch_kl keep_mask)),
                (''is_masked'', Scalar (safe_mean (map indicator_of is_masked) eligible)),
                (''is_masked_low'', Scalar (safe_mean (map indicator_of (map2 (\<and>) negative invalid_low)) eligible)),
                (''is_masked_high'', Scalar (safe_mean (map indicator_of (map2 (\<and>) positive invalid_high)) eligible)),
                (''masked_advantage_positive'', Scalar (safe_mean (map indicator_of positive) is_masked)),
                (''masked_advantage_negative'', Scalar (safe_mean (map indicator_of negative) is_masked))] @
               importance_ratio_metrics log_importance_ratio keep_mask \<rparr>)"

definition ipo_loss_fn :: "LossInputs \<Rightarrow> IPOLossConfig \<Rightarrow> LossOutputs result" where
  "ipo_loss_fn inputs cfg =
     bindE (selected inputs) (\<lambda>(trainer, inference, advantages, weights).
     let log_importance_ratio = map2 (-) trainer inference;
         is_masked = map2 (\<lambda>t i. \<bar>probability_difference t i\<bar> > ip_ipo_threshold cfg) trainer inference;
         keep_mask = map Not is_masked; mismatch_kl = map compute_mismatch_kl log_importance_ratio
     in Ok \<lparr> lo_loss = policy_terms (ip_adv_tau cfg) (ip_kl_tau cfg) keep_mask advantages log_importance_ratio weights,
             lo_metrics =
               [(''masked_mismatch_kl'', Scalar (safe_mean mismatch_kl is_masked)), (''unmasked_mismatch_kl'', Scalar (safe_mean mismatch_kl keep_mask)),
                (''is_masked'', Scalar (safe_mean (map indicator_of is_masked) (map (\<lambda>_. True) keep_mask)))] @
               importance_ratio_metrics log_importance_ratio keep_mask \<rparr>)"

definition ref_kl_loss_fn :: "LossInputs \<Rightarrow> LossOutputs result" where
  "ref_kl_loss_fn inputs =
     (case li_ref_logprobs inputs of
        None \<Rightarrow> Raise (ValueError ''ref_kl loss type requires ref_logprobs'')
      | Some refs \<Rightarrow>
          bindE (select (li_loss_mask inputs) (li_trainer_logprobs inputs)) (\<lambda>trainer.
          bindE (select (li_loss_mask inputs) (li_inference_logprobs inputs)) (\<lambda>inference.
          bindE (select (li_loss_mask inputs) refs) (\<lambda>reference.
          bindE (select_opt (li_loss_mask inputs) (li_loss_weights inputs)) (\<lambda>weights.
          let log_importance_ratio = map2 (-) trainer inference;
              is_masked = map2 (\<lambda>t i. probability_difference t i < - (1 / 5)) trainer inference;
              keep_mask = map Not is_masked; ref_kl = map2 (-) reference trainer;
              pg_mask = map2 (\<lambda>keep k. keep \<and> k \<noteq> 0) keep_mask ref_kl;
              pg_loss = map2 (\<lambda>k r. - k * exp r) (masked pg_mask ref_kl) (masked pg_mask log_importance_ratio);
              loss = weighted_sum pg_loss (map_option (masked pg_mask) weights);
              mismatch_kl = map compute_mismatch_kl log_importance_ratio; eligible = map (\<lambda>_. True) keep_mask
          in Ok \<lparr> lo_loss = loss + 1 / 1000 * weighted_sum (map (\<lambda>r. r\<^sup>2) log_importance_ratio) weights,
                  lo_metrics =
                    [(''ref_kl/masked_mismatch_kl'', Scalar (safe_mean mismatch_kl is_masked)),
                     (''ref_kl/unmasked_mismatch_kl'', Scalar (safe_mean mismatch_kl keep_mask)),
                     (''ref_kl/is_masked'', Scalar (safe_mean (map indicator_of is_masked) eligible)),
                     (''ref_kl'', Scalar (safe_mean ref_kl eligible))] @
                    map (\<lambda>(key, x). (''ref_kl/'' @ key, x)) (importance_ratio_metrics log_importance_ratio keep_mask) \<rparr>)))))"

definition ce_loss_fn :: "LossInputs \<Rightarrow> LossOutputs result" where
  "ce_loss_fn inputs =
     bindE (select (li_loss_mask inputs) (li_trainer_logprobs inputs)) (\<lambda>trainer.
     let nll = map uminus trainer in
     bindE (case li_loss_weights inputs of None \<Rightarrow> Ok nll
            | Some w \<Rightarrow> bindE (select (li_loss_mask inputs) w) (\<lambda>ws. Ok (map2 (*) nll ws))) (\<lambda>weighted.
       Ok \<lparr> lo_loss = sum_list weighted, lo_metrics = [(''nll'', Scalar (safe_mean (map uminus (li_trainer_logprobs inputs)) (li_loss_mask inputs)))] \<rparr>))"

definition setup_rl_loss_fn :: "LossConfig \<Rightarrow> LossInputs \<Rightarrow> LossOutputs result" where
  "setup_rl_loss_fn loss_config inputs =
     (case loss_config of CustomLoss custom_fn \<Rightarrow> custom_fn inputs | IPOLoss cfg \<Rightarrow> ipo_loss_fn inputs cfg | DefaultLoss cfg \<Rightarrow> default_loss_fn inputs cfg)"

section \<open>The loss of a microbatch\<close>

type_synonym LossFn = "LossInputs \<Rightarrow> LossOutputs result"
type_synonym AllMetrics = "(string, Metric list) odict"

definition collect :: "(string \<times> Metric) list \<Rightarrow> AllMetrics \<Rightarrow> AllMetrics" where
  "collect metrics all_metrics =
     fold (\<lambda>(k, v) d. od_set k ((case od_get k d of None \<Rightarrow> [] | Some vs \<Rightarrow> vs) @ [v]) d) metrics all_metrics"

definition run_loss_fn :: "LossFn \<Rightarrow> LossInputs \<Rightarrow> AllMetrics \<Rightarrow> (real \<times> AllMetrics) result" where
  "run_loss_fn loss_fn inputs all_metrics =
     bindE (loss_fn inputs) (\<lambda>out. Ok (lo_loss out, collect (lo_metrics out) all_metrics))"

text \<open>A component runs where its weights are non-zero, and not at all when none is.\<close>

definition run_component :: "LossFn \<Rightarrow> (bool list \<Rightarrow> real list option \<Rightarrow> LossInputs) \<Rightarrow> bool list \<Rightarrow> real list \<Rightarrow> real \<times> AllMetrics \<Rightarrow>
    (real \<times> AllMetrics) result" where
  "run_component loss_fn inputs keep weights totals =
     (if list_ex id keep then bindE (run_loss_fn loss_fn (inputs keep (Some weights)) (snd totals)) (\<lambda>(loss, ms). Ok (fst totals + loss, ms))
      else Ok totals)"

text \<open>The streams of one packed sequence.\<close>

type_synonym Streams = "real list \<times> real list \<times> real list option \<times> real list \<times> bool list \<times> real list option \<times> real list option \<times> real list option"

definition make_inputs :: "real list \<Rightarrow> real list \<Rightarrow> real list option \<Rightarrow> real list \<Rightarrow> bool list \<Rightarrow> real list option \<Rightarrow> LossInputs" where
  "make_inputs t_logp i_logp ref_logp adv component_mask weights = \<lparr> li_trainer_logprobs = t_logp, li_inference_logprobs = i_logp,
     li_ref_logprobs = ref_logp, li_advantages = adv, li_loss_mask = component_mask, li_loss_weights = weights \<rparr>"

definition sequence_loss :: "LossFn \<Rightarrow> Streams \<Rightarrow> real \<times> real \<times> real \<times> AllMetrics \<Rightarrow> (real \<times> real \<times> real \<times> AllMetrics) result" where
  "sequence_loss rl_loss_fn s totals =
     (case (s, totals) of ((t_logp, i_logp, ref_logp, adv, mk, rl_w, ce_w, ref_kl_w), (rl, ce, ref_kl, ms)) \<Rightarrow>
       let inputs = make_inputs t_logp i_logp ref_logp adv
       in bindE (case rl_w of
             None \<Rightarrow> bindE (run_loss_fn rl_loss_fn (inputs mk None) ms) (\<lambda>(loss, ms). Ok (rl + loss, ms))
           | Some w \<Rightarrow> raise_if (length mk \<noteq> length w) (RuntimeError ''size mismatch'')
               (run_component rl_loss_fn inputs (map2 (\<lambda>m x. m \<and> x \<noteq> 0) mk w) w (rl, ms))) (\<lambda>(rl, ms).
         bindE (case ce_w of None \<Rightarrow> Ok (ce, ms) | Some w \<Rightarrow> run_component ce_loss_fn inputs (map (\<lambda>x. x \<noteq> 0) w) w (ce, ms)) (\<lambda>(ce, ms).
         bindE (case ref_kl_w of None \<Rightarrow> Ok (ref_kl, ms) | Some w \<Rightarrow> run_component ref_kl_loss_fn inputs (map (\<lambda>x. x \<noteq> 0) w) w (ref_kl, ms))
           (\<lambda>(ref_kl, ms). Ok (rl, ce, ref_kl, ms)))))"

fun loss_loop :: "LossFn \<Rightarrow> Streams list \<Rightarrow> real \<times> real \<times> real \<times> AllMetrics \<Rightarrow> (real \<times> real \<times> real \<times> AllMetrics) result" where
  "loss_loop rl_loss_fn [] totals = Ok totals"
| "loss_loop rl_loss_fn (s # ss) totals = bindE (sequence_loss rl_loss_fn s totals) (loss_loop rl_loss_fn ss)"

text \<open>\<open>torch.stack\<close> of scalars or \<open>torch.cat\<close> of vectors; the first one decides.\<close>

fun is_vector :: "Metric \<Rightarrow> bool" where
  "is_vector (Scalar x) = False"
| "is_vector (Vector xs) = True"

fun entries :: "Metric \<Rightarrow> real list" where
  "entries (Scalar x) = [x]"
| "entries (Vector xs) = xs"

definition aggregate :: "Metric list \<Rightarrow> real list result" where
  "aggregate vs = raise_if (list_ex (\<lambda>v. is_vector v \<noteq> is_vector (hd vs)) vs) (RuntimeError ''mixed metric dimensions'') (Ok (concat (map entries vs)))"

definition optional_rows :: "nat \<Rightarrow> 'a list option \<Rightarrow> 'a option list" where
  "optional_rows n xs = (case xs of None \<Rightarrow> replicate n None | Some ys \<Rightarrow> map Some ys)"

definition compute_loss :: "real list list \<Rightarrow> real list list \<Rightarrow> real list list option \<Rightarrow> real list list \<Rightarrow> bool list list \<Rightarrow> real list list option \<Rightarrow>
    real list list option \<Rightarrow> real list list option \<Rightarrow> LossFn \<Rightarrow> nat \<Rightarrow> nat \<Rightarrow> nat \<Rightarrow> (real \<times> (string \<times> real list) list) result" where
  "compute_loss trainer inference refs advantages loss_mask rl_weights ce_weights ref_kl_weights rl_loss_fn rl_scale ce_scale ref_kl_scale =
     (let n = length trainer
      in bindE (loss_loop rl_loss_fn
           (zip trainer (zip inference (zip (optional_rows n refs) (zip advantages (zip loss_mask (zip (optional_rows n rl_weights) (zip (optional_rows n ce_weights)
             (optional_rows n ref_kl_weights)))))))) (0, 0, 0, [])) (\<lambda>(rl, ce, ref_kl, all_metrics).
         bindE (traverse (\<lambda>(k, vs). bindE (aggregate vs) (\<lambda>x. Ok (k, x))) all_metrics) (\<lambda>aggregated.
           Ok (rl / rl_scale + ce / ce_scale + ref_kl / ref_kl_scale, aggregated))))"

section \<open>Normalisation\<close>

record LossBatch =
  lb_loss_mask :: "bool list"
  lb_rl_weights :: "real list option"
  lb_ce_weights :: "real list option"
  lb_ref_kl_weights :: "real list option"

definition nonzero :: "real list \<Rightarrow> nat" where
  "nonzero ws = length (filter (\<lambda>w. w \<noteq> 0) ws)"

fun count_loss_tokens :: "LossBatch list \<Rightarrow> nat \<times> nat \<times> nat" where
  "count_loss_tokens [] = (0, 0, 0)"
| "count_loss_tokens (b # bs) =
     (case count_loss_tokens bs of (rl, ce, ref) \<Rightarrow>
       ((case lb_rl_weights b of None \<Rightarrow> length (filter id (lb_loss_mask b))
         | Some w \<Rightarrow> length (filter (\<lambda>(m, x). m \<and> x \<noteq> 0) (zip (lb_loss_mask b) w))) + rl,
        (case lb_ce_weights b of None \<Rightarrow> 0 | Some w \<Rightarrow> nonzero w) + ce,
        (case lb_ref_kl_weights b of None \<Rightarrow> 0 | Some w \<Rightarrow> nonzero w) + ref))"

text \<open>The sum over the ranks of the process group, each with its own microbatches.\<close>

definition global_loss_scales :: "LossBatch list list \<Rightarrow> nat \<times> nat \<times> nat" where
  "global_loss_scales ranks =
     (let counts = map count_loss_tokens ranks
      in (max 1 (sum_list (map fst counts)), max 1 (sum_list (map (fst \<circ> snd) counts)), max 1 (sum_list (map (snd \<circ> snd) counts))))"

section \<open>The loss as a sum over tokens\<close>

record Token =
  tk_trainer :: real
  tk_inference :: real
  tk_ref :: real
  tk_advantage :: real
  tk_mask :: bool
  tk_rl :: real
  tk_ce :: real
  tk_ref_kl :: real

definition ratio :: "Token \<Rightarrow> real" where
  "ratio tk = exp (tk_trainer tk - tk_inference tk)"

definition drift :: "Token \<Rightarrow> real" where
  "drift tk = exp (tk_trainer tk) - exp (tk_inference tk)"

definition policy_token :: "real \<Rightarrow> real \<Rightarrow> bool \<Rightarrow> Token \<Rightarrow> real" where
  "policy_token adv_tau kl_tau trusted tk =
     (if trusted then - adv_tau * tk_advantage tk * ratio tk else 0) + kl_tau * (tk_trainer tk - tk_inference tk)\<^sup>2"

fun rl_token :: "LossConfig \<Rightarrow> Token \<Rightarrow> real" where
  "rl_token (DefaultLoss cfg) tk = policy_token (dl_adv_tau cfg) (dl_kl_tau cfg)
     (if tk_advantage tk > 0 then drift tk \<le> dl_dppo_mask_high cfg else - dl_dppo_mask_low cfg \<le> drift tk) tk"
| "rl_token (IPOLoss cfg) tk = policy_token (ip_adv_tau cfg) (ip_kl_tau cfg) (\<bar>drift tk\<bar> \<le> ip_ipo_threshold cfg) tk"
| "rl_token (CustomLoss f) tk = 0"

definition ref_kl_token :: "Token \<Rightarrow> real" where
  "ref_kl_token tk = (if - (1 / 5) \<le> drift tk then - (tk_ref tk - tk_trainer tk) * ratio tk else 0) + 1 / 1000 * (tk_trainer tk - tk_inference tk)\<^sup>2"

lemma masked_map [simp]: "masked (map p xs) (map f xs) = map f (filter p xs)"
  by (induction xs) (auto simp: masked_def)

lemma select_map [simp]: "select (map p xs) (map f xs) = Ok (map f (filter p xs))"
  by (simp add: select_def raise_if_def)

lemma zip_maps [simp]: "zip (map f xs) (map g xs) = map (\<lambda>x. (f x, g x)) xs"
  by (induction xs) auto

lemma weighted_sum_map [simp]: "weighted_sum (map f xs) (Some (map g xs)) = (\<Sum>x\<leftarrow>xs. f x * g x)" "weighted_sum ys None = sum_list ys"
  by (simp_all add: weighted_sum_def comp_def)

lemma probability_difference_eq: "probability_difference t i = exp t - exp i"
proof (cases "t \<ge> i")
  case True
  then have "exp t * exp (i - t) = exp i" by (simp flip: exp_add)
  then show ?thesis using True by (simp add: probability_difference_def Let_def max_absorb1 min_absorb2 algebra_simps)
next
  case False
  then have "exp i * exp (t - i) = exp t" by (simp flip: exp_add)
  then show ?thesis using False by (simp add: probability_difference_def Let_def max_absorb2 min_absorb1 algebra_simps)
qed

lemma policy_terms_tokens:
  "policy_terms tau kl (map k ts) (map a ts) (map r ts) (if b then Some (map w ts) else None) =
     (\<Sum>x\<leftarrow>ts. (if b then w x else 1) * ((if k x then - tau * a x * exp (r x) else 0) + kl * (r x)\<^sup>2))"
proof -
  have pg: "(\<Sum>x\<leftarrow>filter (\<lambda>x. k x \<and> a x \<noteq> 0 \<and> tau \<noteq> 0) ts. v x * (- tau * a x * exp (r x))) =
      (\<Sum>x\<leftarrow>ts. v x * (if k x then - tau * a x * exp (r x) else 0))" for v
    by (induction ts) auto
  have sum: "(\<Sum>x\<leftarrow>ts. v x * (f x + kl * g x)) = (\<Sum>x\<leftarrow>ts. v x * f x) + kl * (\<Sum>x\<leftarrow>ts. v x * g x)" for v f g
    by (induction ts) (simp_all add: algebra_simps)
  show ?thesis
    unfolding sum policy_terms_def Let_def using pg[of w] pg[of "\<lambda>_. 1"] by (cases b) (simp_all add: comp_def mult.commute)
qed

text \<open>The keys of vector metrics name a population after a slash; every loss function keeps to that.\<close>

fun names_population :: "string \<Rightarrow> bool" where
  "names_population (c # d # cs) \<longleftrightarrow> c = CHR ''/'' \<and> d = CHR ''a'' \<or> names_population (d # cs)"
| "names_population _ \<longleftrightarrow> False"

definition metric_ok :: "string \<times> Metric \<Rightarrow> bool" where
  "metric_ok = (\<lambda>(k, v). is_vector v = names_population k)"

lemma importance_ratio_metrics_ok: "\<forall>m \<in> set (importance_ratio_metrics r keep). metric_ok m"
  by (simp add: importance_ratio_metrics_def metric_ok_def)

lemma ref_metrics_ok: "(k, v) \<in> set (importance_ratio_metrics r keep) \<Longrightarrow> is_vector v = names_population (CHR ''/'' # k)"
  by (auto simp: importance_ratio_metrics_def)

definition token_inputs :: "bool \<Rightarrow> (Token \<Rightarrow> bool) \<Rightarrow> (Token \<Rightarrow> real) \<Rightarrow> real list option \<Rightarrow> Token list \<Rightarrow> LossInputs" where
  "token_inputs b p w refs ts = \<lparr> li_trainer_logprobs = map tk_trainer ts, li_inference_logprobs = map tk_inference ts, li_ref_logprobs = refs,
     li_advantages = map tk_advantage ts, li_loss_mask = map p ts, li_loss_weights = (if b then Some (map w ts) else None) \<rparr>"

lemma select_opt_map [simp]: "select_opt (map p ts) (if b then Some (map w ts) else None) = Ok (if b then Some (map w (filter p ts)) else None)"
  by simp

lemma selected_tokens: "selected (token_inputs b p w refs ts) =
    Ok (map tk_trainer (filter p ts), map tk_inference (filter p ts), map tk_advantage (filter p ts), if b then Some (map w (filter p ts)) else None)"
  unfolding selected_def token_inputs_def LossInputs.simps select_map bindE.simps select_opt_map by (rule refl)

lemma exp_ratio: "exp (tk_trainer tk - tk_inference tk) = ratio tk"
  by (simp add: ratio_def)

lemma default_loss_tokens:
  "\<exists>ms. default_loss_fn (token_inputs b p w refs ts) cfg =
       Ok \<lparr> lo_loss = (\<Sum>tk\<leftarrow>filter p ts. (if b then w tk else 1) * rl_token (DefaultLoss cfg) tk), lo_metrics = ms \<rparr> \<and> (\<forall>m \<in> set ms. metric_ok m)"
proof -
  have keep: "map Not (map (\<lambda>(pos, high, low). if pos then high else low)
      (zip (map (\<lambda>a. a > 0) (map tk_advantage us)) (zip (map (\<lambda>x. x > dl_dppo_mask_high cfg) (map2 probability_difference (map tk_trainer us) (map tk_inference us)))
        (map (\<lambda>x. x < - dl_dppo_mask_low cfg) (map2 probability_difference (map tk_trainer us) (map tk_inference us)))))) =
    map (\<lambda>tk. if tk_advantage tk > 0 then drift tk \<le> dl_dppo_mask_high cfg else - dl_dppo_mask_low cfg \<le> drift tk) us" for us
    by (induction us) (auto simp: probability_difference_eq drift_def)
  have r: "map2 (-) (map tk_trainer us) (map tk_inference us) = map (\<lambda>tk. tk_trainer tk - tk_inference tk) us" for us by simp
  have tok: "(if (if tk_advantage tk > 0 then drift tk \<le> dl_dppo_mask_high cfg else - dl_dppo_mask_low cfg \<le> drift tk)
      then - dl_adv_tau cfg * tk_advantage tk * exp (tk_trainer tk - tk_inference tk) else 0) + dl_kl_tau cfg * (tk_trainer tk - tk_inference tk)\<^sup>2 =
      rl_token (DefaultLoss cfg) tk" for tk by (simp add: policy_token_def ratio_def)
  show ?thesis
    unfolding default_loss_fn_def selected_tokens bindE.simps prod.case Let_def keep r policy_terms_tokens tok
    by (intro exI conjI, rule refl) (simp add: ball_Un importance_ratio_metrics_ok, simp add: metric_ok_def)
qed

lemma ipo_loss_tokens:
  "\<exists>ms. ipo_loss_fn (token_inputs b p w refs ts) cfg =
       Ok \<lparr> lo_loss = (\<Sum>tk\<leftarrow>filter p ts. (if b then w tk else 1) * rl_token (IPOLoss cfg) tk), lo_metrics = ms \<rparr> \<and> (\<forall>m \<in> set ms. metric_ok m)"
proof -
  have keep: "map Not (map2 (\<lambda>t i. \<bar>probability_difference t i\<bar> > ip_ipo_threshold cfg) (map tk_trainer us) (map tk_inference us)) =
      map (\<lambda>tk. \<bar>drift tk\<bar> \<le> ip_ipo_threshold cfg) us" for us
    by (induction us) (auto simp: probability_difference_eq drift_def)
  have r: "map2 (-) (map tk_trainer us) (map tk_inference us) = map (\<lambda>tk. tk_trainer tk - tk_inference tk) us" for us by simp
  have tok: "(if \<bar>drift tk\<bar> \<le> ip_ipo_threshold cfg then - ip_adv_tau cfg * tk_advantage tk * exp (tk_trainer tk - tk_inference tk) else 0) +
      ip_kl_tau cfg * (tk_trainer tk - tk_inference tk)\<^sup>2 = rl_token (IPOLoss cfg) tk" for tk by (simp add: policy_token_def ratio_def)
  show ?thesis
    unfolding ipo_loss_fn_def selected_tokens bindE.simps prod.case Let_def keep r policy_terms_tokens tok
    by (intro exI conjI, rule refl) (simp add: ball_Un importance_ratio_metrics_ok, simp add: metric_ok_def)
qed

lemma ref_kl_loss_tokens:
  "\<exists>ms. ref_kl_loss_fn (token_inputs True p w (Some (map tk_ref ts)) ts) =
       Ok \<lparr> lo_loss = (\<Sum>tk\<leftarrow>filter p ts. w tk * ref_kl_token tk), lo_metrics = ms \<rparr> \<and> (\<forall>m \<in> set ms. metric_ok m)"
proof -
  let ?us = "filter p ts"
  have keep: "map Not (map2 (\<lambda>t i. probability_difference t i < - (1 / 5)) (map tk_trainer us) (map tk_inference us)) =
      map (\<lambda>tk. - (1 / 5) \<le> drift tk) us" for us
    by (induction us) (auto simp: probability_difference_eq drift_def)
  have pg: "map2 (\<lambda>keep k. keep \<and> k \<noteq> 0) (map (\<lambda>tk. - (1 / 5) \<le> drift tk) us) (map (\<lambda>tk. tk_ref tk - tk_trainer tk) us) =
      map (\<lambda>tk. - (1 / 5) \<le> drift tk \<and> tk_ref tk \<noteq> tk_trainer tk) us" for us by simp
  have sums: "(\<Sum>tk\<leftarrow>filter (\<lambda>tk. - (1 / 5) \<le> drift tk \<and> tk_ref tk \<noteq> tk_trainer tk) us. (- (tk_ref tk - tk_trainer tk) * exp (tk_trainer tk - tk_inference tk)) * w tk) +
      1 / 1000 * (\<Sum>tk\<leftarrow>us. (tk_trainer tk - tk_inference tk)\<^sup>2 * w tk) = (\<Sum>tk\<leftarrow>us. w tk * ref_kl_token tk)" for us
    by (induction us) (auto simp: ref_kl_token_def ratio_def algebra_simps)
  have r: "map2 (-) (map tk_trainer us) (map tk_inference us) = map (\<lambda>tk. tk_trainer tk - tk_inference tk) us"
    "map2 (-) (map tk_ref us) (map tk_trainer us) = map (\<lambda>tk. tk_ref tk - tk_trainer tk) us" for us by simp_all
  have loss: "weighted_sum (map2 (\<lambda>k r. - k * exp r) (masked (map (\<lambda>tk. - (1 / 5) \<le> drift tk \<and> tk_ref tk \<noteq> tk_trainer tk) ?us) (map (\<lambda>tk. tk_ref tk - tk_trainer tk) ?us))
        (masked (map (\<lambda>tk. - (1 / 5) \<le> drift tk \<and> tk_ref tk \<noteq> tk_trainer tk) ?us) (map (\<lambda>tk. tk_trainer tk - tk_inference tk) ?us)))
        (map_option (masked (map (\<lambda>tk. - (1 / 5) \<le> drift tk \<and> tk_ref tk \<noteq> tk_trainer tk) ?us)) (Some (map w ?us))) +
      1 / 1000 * weighted_sum (map (\<lambda>r. r\<^sup>2) (map (\<lambda>tk. tk_trainer tk - tk_inference tk) ?us)) (Some (map w ?us)) = (\<Sum>tk\<leftarrow>?us. w tk * ref_kl_token tk)"
    unfolding sums[symmetric] masked_map option.map by (simp add: comp_def algebra_simps)
  show ?thesis
    unfolding ref_kl_loss_fn_def token_inputs_def LossInputs.simps option.case select_map select_opt_map if_True select_opt.simps bindE.simps Let_def keep pg
      r loss
    by (intro exI conjI, rule refl) (auto simp: metric_ok_def dest: ref_metrics_ok)
qed

lemma ce_loss_tokens:
  "\<exists>ms. ce_loss_fn (token_inputs True p w refs ts) =
       Ok \<lparr> lo_loss = (\<Sum>tk\<leftarrow>filter p ts. w tk * - tk_trainer tk), lo_metrics = ms \<rparr> \<and> (\<forall>m \<in> set ms. metric_ok m)"
  by (simp add: ce_loss_fn_def token_inputs_def Let_def comp_def metric_ok_def mult.commute)

lemma rl_loss_tokens:
  "\<forall>f. cfg \<noteq> CustomLoss f \<Longrightarrow> \<exists>ms. setup_rl_loss_fn cfg (token_inputs b p w refs ts) =
       Ok \<lparr> lo_loss = (\<Sum>tk\<leftarrow>filter p ts. (if b then w tk else 1) * rl_token cfg tk), lo_metrics = ms \<rparr> \<and> (\<forall>m \<in> set ms. metric_ok m)"
  unfolding setup_rl_loss_fn_def using default_loss_tokens ipo_loss_tokens by (cases cfg) auto

section \<open>Packed microbatches\<close>

text \<open>Packed sequences with the streams they ship; a stream that is left out stands for its neutral weight.\<close>

record Packed =
  pk_seqs :: "Token list list"
  pk_has_rl :: bool
  pk_has_ce :: bool
  pk_has_ref_kl :: bool
  pk_has_refs :: bool

definition pk_tokens :: "Packed \<Rightarrow> Token list" where
  "pk_tokens p = concat (pk_seqs p)"

definition stream :: "bool \<Rightarrow> (Token \<Rightarrow> real) \<Rightarrow> Packed \<Rightarrow> real list list option" where
  "stream present w p = (if present then Some (map (map w) (pk_seqs p)) else None)"

definition neutral :: "Packed \<Rightarrow> bool" where
  "neutral p \<longleftrightarrow> (\<forall>tk \<in> set (pk_tokens p). (\<not> pk_has_rl p \<longrightarrow> tk_rl tk = 1) \<and> (\<not> pk_has_ce p \<longrightarrow> tk_ce tk = 0) \<and>
     (\<not> pk_has_ref_kl p \<longrightarrow> tk_ref_kl tk = 0)) \<and> (pk_has_ref_kl p \<longrightarrow> pk_has_refs p)"

definition packed_loss :: "LossConfig \<Rightarrow> nat \<times> nat \<times> nat \<Rightarrow> Packed \<Rightarrow> (real \<times> (string \<times> real list) list) result" where
  "packed_loss cfg scales p =
     compute_loss (map (map tk_trainer) (pk_seqs p)) (map (map tk_inference) (pk_seqs p)) (stream (pk_has_refs p) tk_ref p)
       (map (map tk_advantage) (pk_seqs p)) (map (map tk_mask) (pk_seqs p)) (stream (pk_has_rl p) tk_rl p) (stream (pk_has_ce p) tk_ce p)
       (stream (pk_has_ref_kl p) tk_ref_kl p) (setup_rl_loss_fn cfg) (fst scales) (fst (snd scales)) (snd (snd scales))"

definition rl_part :: "LossConfig \<Rightarrow> Token \<Rightarrow> real" where
  "rl_part cfg tk = (if tk_mask tk then tk_rl tk * rl_token cfg tk else 0)"

definition metrics_ok :: "AllMetrics \<Rightarrow> bool" where
  "metrics_ok d \<longleftrightarrow> (\<forall>(k, vs) \<in> set d. \<forall>v \<in> set vs. metric_ok (k, v))"

lemma set_od_set: "set (od_set k v d) \<subseteq> insert (k, v) (set d)"
  by (induction k v d rule: od_set.induct) auto

lemma collect_ok: "metrics_ok d \<Longrightarrow> \<forall>m \<in> set ms. metric_ok m \<Longrightarrow> metrics_ok (collect ms d)"
proof (induction ms arbitrary: d)
  case (Cons m ms)
  obtain k v where m: "m = (k, v)" by (cases m)
  have "metric_ok (k, x)" if "x \<in> set ((case od_get k d of None \<Rightarrow> [] | Some vs \<Rightarrow> vs) @ [v])" for x
    using that Cons.prems m unfolding metrics_ok_def by (auto dest!: map_of_SomeD[OF sym] map_of_SomeD split: option.splits)
  then have "metrics_ok (od_set k ((case od_get k d of None \<Rightarrow> [] | Some vs \<Rightarrow> vs) @ [v]) d)"
    using Cons.prems(1) set_od_set[of k "(case od_get k d of None \<Rightarrow> [] | Some vs \<Rightarrow> vs) @ [v]" d] unfolding metrics_ok_def by blast
  from Cons.IH[OF this] Cons.prems(2) show ?case by (simp add: collect_def m)
qed (simp add: collect_def)

lemma aggregate_all: "metrics_ok d \<Longrightarrow> \<exists>agg. traverse (\<lambda>(k, vs). bindE (aggregate vs) (\<lambda>x. Ok (k, x))) d = Ok agg"
proof -
  assume ok: "metrics_ok d"
  have "(\<lambda>(k, vs). bindE (aggregate vs) (\<lambda>x. Ok (k, x))) p = Ok ((\<lambda>(k, vs). (k, concat (map entries vs))) p)" if "p \<in> set d" for p
  proof -
    obtain k vs where p: "p = (k, vs)" by (cases p)
    have "\<forall>v \<in> set vs. is_vector v = names_population k" using ok that unfolding metrics_ok_def p metric_ok_def by auto
    then have "\<not> list_ex (\<lambda>v. is_vector v \<noteq> is_vector (hd vs)) vs" by (cases vs) (auto simp: list_ex_iff)
    then show ?thesis by (simp add: p aggregate_def raise_if_def)
  qed
  with traverse_total[of d "\<lambda>(k, vs). bindE (aggregate vs) (\<lambda>x. Ok (k, x))" "\<lambda>(k, vs). (k, concat (map entries vs))"] show ?thesis by blast
qed

lemma sum_zero: "\<forall>x \<in> set xs. f x = 0 \<Longrightarrow> (\<Sum>x\<leftarrow>xs. f x) = (0::real)"
  by (induction xs) auto

lemma run_loss_tokens:
  assumes "\<exists>ms. loss_fn inputs = Ok \<lparr> lo_loss = L, lo_metrics = ms \<rparr> \<and> (\<forall>m \<in> set ms. metric_ok m)" "metrics_ok d"
  shows "\<exists>d'. run_loss_fn loss_fn inputs d = Ok (L, d') \<and> metrics_ok d'"
  using assms collect_ok by (auto simp: run_loss_fn_def)

lemma run_component_tokens:
  assumes "\<And>p. \<exists>ms. loss_fn (inp (map p s) (Some (map w s))) = Ok \<lparr> lo_loss = (\<Sum>tk\<leftarrow>filter p s. w tk * f tk), lo_metrics = ms \<rparr> \<and> (\<forall>m \<in> set ms. metric_ok m)"
    and "metrics_ok d"
  shows "\<exists>d'. run_component loss_fn inp (map (\<lambda>tk. q tk \<and> w tk \<noteq> 0) s) (map w s) (acc, d) =
      Ok (acc + (\<Sum>tk\<leftarrow>s. if q tk then w tk * f tk else 0), d') \<and> metrics_ok d'"
proof -
  let ?p = "\<lambda>tk. q tk \<and> w tk \<noteq> 0"
  have sum: "(\<Sum>tk\<leftarrow>filter ?p s. w tk * f tk) = (\<Sum>tk\<leftarrow>s. if q tk then w tk * f tk else 0)" by (induction s) auto
  show ?thesis
  proof (cases "list_ex id (map ?p s)")
    case True
    have "\<exists>ms. loss_fn (inp (map ?p s) (Some (map w s))) = Ok \<lparr> lo_loss = (\<Sum>tk\<leftarrow>s. if q tk then w tk * f tk else 0), lo_metrics = ms \<rparr> \<and>
        (\<forall>m \<in> set ms. metric_ok m)" using assms(1)[of ?p] unfolding sum .
    from run_loss_tokens[of loss_fn "inp (map ?p s) (Some (map w s))", OF this assms(2)] True show ?thesis by (auto simp: run_component_def)
  next
    case False
    then have "filter ?p s = []" by (auto simp: list_ex_iff filter_empty_conv)
    then have "(\<Sum>tk\<leftarrow>s. if q tk then w tk * f tk else 0) = 0" using sum by simp
    then show ?thesis using False assms(2) by (simp add: run_component_def)
  qed
qed

definition streams :: "Packed \<Rightarrow> Token list \<Rightarrow> Streams" where
  "streams p s = (map tk_trainer s, map tk_inference s, if pk_has_refs p then Some (map tk_ref s) else None, map tk_advantage s, map tk_mask s,
     if pk_has_rl p then Some (map tk_rl s) else None, if pk_has_ce p then Some (map tk_ce s) else None,
     if pk_has_ref_kl p then Some (map tk_ref_kl s) else None)"

definition ce_part :: "Token \<Rightarrow> real" where
  "ce_part tk = tk_ce tk * - tk_trainer tk"

definition ref_kl_part :: "Token \<Rightarrow> real" where
  "ref_kl_part tk = tk_ref_kl tk * ref_kl_token tk"

lemma sequence_loss_tokens:
  assumes cfg: "\<forall>f. cfg \<noteq> CustomLoss f" and s: "s \<in> set (pk_seqs p)" and neutral: "neutral p" and ok: "metrics_ok d"
  shows "\<exists>d'. sequence_loss (setup_rl_loss_fn cfg) (streams p s) (rl, ce, ref_kl, d) =
      Ok (rl + (\<Sum>tk\<leftarrow>s. rl_part cfg tk), ce + (\<Sum>tk\<leftarrow>s. ce_part tk), ref_kl + (\<Sum>tk\<leftarrow>s. ref_kl_part tk), d') \<and> metrics_ok d'"
proof -
  define inp where "inp = make_inputs (map tk_trainer s) (map tk_inference s) (if pk_has_refs p then Some (map tk_ref s) else None) (map tk_advantage s)"
  have inp: "inp (map q s) (Some (map w s)) = token_inputs True q w (if pk_has_refs p then Some (map tk_ref s) else None) s" for q w
    by (simp add: inp_def make_inputs_def token_inputs_def)
  have mem: "\<forall>tk \<in> set s. (\<not> pk_has_rl p \<longrightarrow> tk_rl tk = 1) \<and> (\<not> pk_has_ce p \<longrightarrow> tk_ce tk = 0) \<and> (\<not> pk_has_ref_kl p \<longrightarrow> tk_ref_kl tk = 0)"
    "pk_has_ref_kl p \<longrightarrow> pk_has_refs p" using neutral s unfolding neutral_def pk_tokens_def by auto
  have weighted: "\<exists>d1. run_component (setup_rl_loss_fn cfg) inp (map (\<lambda>tk. tk_mask tk \<and> tk_rl tk \<noteq> 0) s) (map tk_rl s) (rl, d) =
      Ok (rl + (\<Sum>tk\<leftarrow>s. rl_part cfg tk), d1) \<and> metrics_ok d1"
    unfolding rl_part_def by (rule run_component_tokens[OF _ ok]) (unfold inp, use rl_loss_tokens[OF cfg, of True] in \<open>simp only: if_True\<close>)
  have plain: "\<exists>d1. run_loss_fn (setup_rl_loss_fn cfg) (inp (map tk_mask s) None) d = Ok (\<Sum>tk\<leftarrow>s. rl_part cfg tk, d1) \<and> metrics_ok d1"
    if "\<not> pk_has_rl p"
  proof -
    have "inp (map tk_mask s) None = token_inputs False tk_mask tk_rl (if pk_has_refs p then Some (map tk_ref s) else None) s"
      by (simp add: inp_def make_inputs_def token_inputs_def)
    moreover have "(\<Sum>tk\<leftarrow>filter tk_mask s. rl_token cfg tk) = (\<Sum>tk\<leftarrow>s. rl_part cfg tk)"
      using mem(1) that by (induction s) (auto simp: rl_part_def)
    ultimately have "\<exists>ms. setup_rl_loss_fn cfg (inp (map tk_mask s) None) = Ok \<lparr> lo_loss = (\<Sum>tk\<leftarrow>s. rl_part cfg tk), lo_metrics = ms \<rparr> \<and>
        (\<forall>m \<in> set ms. metric_ok m)"
      using rl_loss_tokens[OF cfg, of False tk_mask tk_rl "if pk_has_refs p then Some (map tk_ref s) else None" s]
      by (simp only: if_False mult_1)
    from run_loss_tokens[of "setup_rl_loss_fn cfg" "inp (map tk_mask s) None", OF this ok] show ?thesis .
  qed
  obtain d1 where d1: "(case (if pk_has_rl p then Some (map tk_rl s) else None) of
      None \<Rightarrow> bindE (run_loss_fn (setup_rl_loss_fn cfg) (inp (map tk_mask s) None) d) (\<lambda>(loss, ms). Ok (rl + loss, ms))
    | Some w \<Rightarrow> raise_if (length (map tk_mask s) \<noteq> length w) (RuntimeError ''size mismatch'')
        (run_component (setup_rl_loss_fn cfg) inp (map2 (\<lambda>m x. m \<and> x \<noteq> 0) (map tk_mask s) w) w (rl, d))) =
      Ok (rl + (\<Sum>tk\<leftarrow>s. rl_part cfg tk), d1)" "metrics_ok d1"
    using weighted plain by (cases "pk_has_rl p") (auto simp: comp_def)
  have "\<exists>d2. run_component ce_loss_fn inp (map (\<lambda>tk. True \<and> tk_ce tk \<noteq> 0) s) (map tk_ce s) (ce, d1) =
      Ok (ce + (\<Sum>tk\<leftarrow>s. if True then tk_ce tk * - tk_trainer tk else 0), d2) \<and> metrics_ok d2"
    by (rule run_component_tokens[OF _ d1(2)]) (unfold inp, rule ce_loss_tokens)
  moreover have "(\<Sum>tk\<leftarrow>s. ce_part tk) = 0" if "\<not> pk_has_ce p" using mem(1) that by (intro sum_zero) (simp add: ce_part_def)
  ultimately obtain d2 where d2: "(case (if pk_has_ce p then Some (map tk_ce s) else None) of None \<Rightarrow> Ok (ce, d1)
      | Some w \<Rightarrow> run_component ce_loss_fn inp (map (\<lambda>x. x \<noteq> 0) w) w (ce, d1)) = Ok (ce + (\<Sum>tk\<leftarrow>s. ce_part tk), d2)" "metrics_ok d2"
    using d1(2) by (cases "pk_has_ce p") (auto simp: comp_def ce_part_def)
  have "\<exists>d3. run_component ref_kl_loss_fn inp (map (\<lambda>tk. True \<and> tk_ref_kl tk \<noteq> 0) s) (map tk_ref_kl s) (ref_kl, d2) =
      Ok (ref_kl + (\<Sum>tk\<leftarrow>s. if True then tk_ref_kl tk * ref_kl_token tk else 0), d3) \<and> metrics_ok d3" if "pk_has_ref_kl p"
    by (rule run_component_tokens[OF _ d2(2)]) (unfold inp, use ref_kl_loss_tokens mem(2) that in \<open>simp only: if_True\<close>)
  moreover have "(\<Sum>tk\<leftarrow>s. ref_kl_part tk) = 0" if "\<not> pk_has_ref_kl p" using mem(1) that by (intro sum_zero) (simp add: ref_kl_part_def)
  ultimately obtain d3 where d3: "(case (if pk_has_ref_kl p then Some (map tk_ref_kl s) else None) of None \<Rightarrow> Ok (ref_kl, d2)
      | Some w \<Rightarrow> run_component ref_kl_loss_fn inp (map (\<lambda>x. x \<noteq> 0) w) w (ref_kl, d2)) = Ok (ref_kl + (\<Sum>tk\<leftarrow>s. ref_kl_part tk), d3)" "metrics_ok d3"
    using d2(2) by (cases "pk_has_ref_kl p") (auto simp: comp_def ref_kl_part_def)
  show ?thesis
    unfolding sequence_loss_def streams_def prod.case Let_def inp_def[symmetric] d1(1) bindE.simps d2(1) d3(1) using d3(2) by blast
qed

lemma loss_loop_tokens:
  assumes "\<forall>f. cfg \<noteq> CustomLoss f" "neutral p" "metrics_ok d" "set seqs \<subseteq> set (pk_seqs p)"
  shows "\<exists>d'. loss_loop (setup_rl_loss_fn cfg) (map (streams p) seqs) (rl, ce, ref_kl, d) =
      Ok (rl + (\<Sum>tk\<leftarrow>concat seqs. rl_part cfg tk), ce + (\<Sum>tk\<leftarrow>concat seqs. ce_part tk), ref_kl + (\<Sum>tk\<leftarrow>concat seqs. ref_kl_part tk), d') \<and> metrics_ok d'"
  using assms(3,4)
proof (induction seqs arbitrary: rl ce ref_kl d)
  case (Cons s seqs)
  obtain d1 where d1: "sequence_loss (setup_rl_loss_fn cfg) (streams p s) (rl, ce, ref_kl, d) =
      Ok (rl + (\<Sum>tk\<leftarrow>s. rl_part cfg tk), ce + (\<Sum>tk\<leftarrow>s. ce_part tk), ref_kl + (\<Sum>tk\<leftarrow>s. ref_kl_part tk), d1)" "metrics_ok d1"
    using sequence_loss_tokens[OF assms(1) _ assms(2) Cons.prems(1)] Cons.prems(2) by fastforce
  have "set seqs \<subseteq> set (pk_seqs p)" using Cons.prems(2) by simp
  from Cons.IH[OF d1(2) this, of "rl + (\<Sum>tk\<leftarrow>s. rl_part cfg tk)" "ce + (\<Sum>tk\<leftarrow>s. ce_part tk)" "ref_kl + (\<Sum>tk\<leftarrow>s. ref_kl_part tk)"]
  show ?case by (simp add: d1(1) add.assoc)
qed simp

lemma rows_stream: "optional_rows (length (pk_seqs p)) (stream b w p) = map (\<lambda>s. if b then Some (map w s) else None) (pk_seqs p)"
  by (simp add: optional_rows_def stream_def comp_def map_replicate_const)

lemma packed_streams:
  "(zip (map (map tk_trainer) (pk_seqs p)) (zip (map (map tk_inference) (pk_seqs p)) (zip (optional_rows (length (pk_seqs p)) (stream (pk_has_refs p) tk_ref p))
     (zip (map (map tk_advantage) (pk_seqs p)) (zip (map (map tk_mask) (pk_seqs p)) (zip (optional_rows (length (pk_seqs p)) (stream (pk_has_rl p) tk_rl p))
     (zip (optional_rows (length (pk_seqs p)) (stream (pk_has_ce p) tk_ce p)) (optional_rows (length (pk_seqs p)) (stream (pk_has_ref_kl p) tk_ref_kl p))))))))) =
   map (streams p) (pk_seqs p)"
  unfolding rows_stream zip_maps by (simp add: streams_def)

definition scaled :: "LossConfig \<Rightarrow> nat \<times> nat \<times> nat \<Rightarrow> Token list \<Rightarrow> real" where
  "scaled cfg scales tks = (\<Sum>tk\<leftarrow>tks. rl_part cfg tk) / real (fst scales) + (\<Sum>tk\<leftarrow>tks. ce_part tk) / real (fst (snd scales)) +
     (\<Sum>tk\<leftarrow>tks. ref_kl_part tk) / real (snd (snd scales))"

lemma packed_loss_tokens:
  assumes "\<forall>f. cfg \<noteq> CustomLoss f" "neutral p"
  shows "\<exists>metrics. packed_loss cfg scales p = Ok (scaled cfg scales (pk_tokens p), metrics)"
proof -
  have "metrics_ok []" by (simp add: metrics_ok_def)
  from loss_loop_tokens[OF assms this order_refl, of 0 0 0] obtain d where d:
    "loss_loop (setup_rl_loss_fn cfg) (map (streams p) (pk_seqs p)) (0, 0, 0, []) =
      Ok (0 + (\<Sum>tk\<leftarrow>concat (pk_seqs p). rl_part cfg tk), 0 + (\<Sum>tk\<leftarrow>concat (pk_seqs p). ce_part tk), 0 + (\<Sum>tk\<leftarrow>concat (pk_seqs p). ref_kl_part tk), d)"
    "metrics_ok d" by blast
  obtain agg where "traverse (\<lambda>(k, vs). bindE (aggregate vs) (\<lambda>x. Ok (k, x))) d = Ok agg" using aggregate_all[OF d(2)] by blast
  then show ?thesis unfolding packed_loss_def compute_loss_def Let_def length_map packed_streams d(1) bindE.simps prod.case
    by (simp add: scaled_def pk_tokens_def)
qed

section \<open>Packing does not change the loss\<close>

definition loss_batch :: "Packed \<Rightarrow> LossBatch" where
  "loss_batch p = \<lparr> lb_loss_mask = map tk_mask (pk_tokens p), lb_rl_weights = (if pk_has_rl p then Some (map tk_rl (pk_tokens p)) else None),
     lb_ce_weights = (if pk_has_ce p then Some (map tk_ce (pk_tokens p)) else None),
     lb_ref_kl_weights = (if pk_has_ref_kl p then Some (map tk_ref_kl (pk_tokens p)) else None) \<rparr>"

definition all_tokens :: "Packed list \<Rightarrow> Token list" where
  "all_tokens ps = concat (map pk_tokens ps)"

definition token_counts :: "Token list \<Rightarrow> nat \<times> nat \<times> nat" where
  "token_counts tks = (length (filter (\<lambda>tk. tk_mask tk \<and> tk_rl tk \<noteq> 0) tks), length (filter (\<lambda>tk. tk_ce tk \<noteq> 0) tks),
     length (filter (\<lambda>tk. tk_ref_kl tk \<noteq> 0) tks))"

lemma count_loss_tokens_counts:
  "\<forall>p \<in> set ps. neutral p \<Longrightarrow> count_loss_tokens (map loss_batch ps) = token_counts (all_tokens ps)"
proof (induction ps)
  case (Cons p ps)
  have n: "\<forall>tk \<in> set (pk_tokens p). (\<not> pk_has_rl p \<longrightarrow> tk_rl tk = 1) \<and> (\<not> pk_has_ce p \<longrightarrow> tk_ce tk = 0) \<and> (\<not> pk_has_ref_kl p \<longrightarrow> tk_ref_kl tk = 0)"
    using Cons.prems by (simp add: neutral_def)
  have rl: "(case lb_rl_weights (loss_batch p) of None \<Rightarrow> length (filter id (lb_loss_mask (loss_batch p)))
      | Some w \<Rightarrow> length (filter (\<lambda>(m, x). m \<and> x \<noteq> 0) (zip (lb_loss_mask (loss_batch p)) w))) =
    length (filter (\<lambda>tk. tk_mask tk \<and> tk_rl tk \<noteq> 0) (pk_tokens p))"
    using n by (cases "pk_has_rl p") (auto simp: loss_batch_def filter_map comp_def intro!: arg_cong[where f = length] filter_cong)
  have ce: "(case lb_ce_weights (loss_batch p) of None \<Rightarrow> 0 | Some w \<Rightarrow> nonzero w) = length (filter (\<lambda>tk. tk_ce tk \<noteq> 0) (pk_tokens p))"
    using n by (cases "pk_has_ce p") (auto simp: loss_batch_def nonzero_def filter_map comp_def filter_empty_conv)
  have ref: "(case lb_ref_kl_weights (loss_batch p) of None \<Rightarrow> 0 | Some w \<Rightarrow> nonzero w) = length (filter (\<lambda>tk. tk_ref_kl tk \<noteq> 0) (pk_tokens p))"
    using n by (cases "pk_has_ref_kl p") (auto simp: loss_batch_def nonzero_def filter_map comp_def filter_empty_conv)
  show ?case using Cons by (simp add: rl ce ref token_counts_def all_tokens_def)
qed (simp add: token_counts_def all_tokens_def)

definition at_least_one :: "nat \<times> nat \<times> nat \<Rightarrow> nat \<times> nat \<times> nat" where
  "at_least_one c = (max 1 (fst c), max 1 (fst (snd c)), max 1 (snd (snd c)))"

lemma token_counts_append: "token_counts (xs @ ys) =
    (fst (token_counts xs) + fst (token_counts ys), fst (snd (token_counts xs)) + fst (snd (token_counts ys)), snd (snd (token_counts xs)) + snd (snd (token_counts ys)))"
  by (simp add: token_counts_def)

lemma global_loss_scales_counts:
  assumes "\<forall>ps \<in> set ranks. \<forall>p \<in> set ps. neutral p"
  shows "global_loss_scales (map (map loss_batch) ranks) = at_least_one (token_counts (concat (map all_tokens ranks)))"
proof -
  have c: "map count_loss_tokens (map (map loss_batch) ranks) = map (token_counts \<circ> all_tokens) ranks"
    using assms count_loss_tokens_counts by simp
  have s: "(sum_list (map fst (map (token_counts \<circ> all_tokens) ranks)), sum_list (map (fst \<circ> snd) (map (token_counts \<circ> all_tokens) ranks)),
      sum_list (map (snd \<circ> snd) (map (token_counts \<circ> all_tokens) ranks))) = token_counts (concat (map all_tokens ranks))"
    by (induction ranks) (simp_all add: token_counts_append prod_eq_iff, simp_all add: token_counts_def)
  show ?thesis unfolding global_loss_scales_def Let_def c at_least_one_def s[symmetric] fst_conv snd_conv by (rule refl)
qed

lemma token_counts_mset: "mset xs = mset ys \<Longrightarrow> token_counts xs = token_counts ys"
  by (simp add: token_counts_def flip: size_mset)

lemma sum_list_mset_eq: "mset xs = mset ys \<Longrightarrow> sum_list (map f xs) = (sum_list (map f ys) :: real)"
  by (metis mset_map sum_mset_sum_list)

text \<open>The loss summed over the microbatches of all ranks; a microbatch that raised would make it undefined.\<close>

definition total_loss :: "LossConfig \<Rightarrow> Packed list list \<Rightarrow> real result" where
  "total_loss cfg ranks =
     bindE (traverse (packed_loss cfg (global_loss_scales (map (map loss_batch) ranks))) (concat ranks)) (\<lambda>losses. Ok (sum_list (map fst losses)))"

lemma scaled_append: "scaled cfg sc (xs @ ys) = scaled cfg sc xs + scaled cfg sc ys"
  by (simp add: scaled_def add_divide_distrib)

lemma total_loss_tokens:
  assumes "\<forall>f. cfg \<noteq> CustomLoss f" "\<forall>ps \<in> set ranks. \<forall>p \<in> set ps. neutral p"
  shows "total_loss cfg ranks = Ok (scaled cfg (at_least_one (token_counts (concat (map all_tokens ranks)))) (concat (map all_tokens ranks)))"
proof -
  define sc where "sc = global_loss_scales (map (map loss_batch) ranks)"
  have "\<exists>losses. traverse (packed_loss cfg sc) ps = Ok losses \<and> sum_list (map fst losses) = scaled cfg sc (all_tokens ps)"
    if "\<forall>p \<in> set ps. neutral p" for ps
    using that
  proof (induction ps)
    case (Cons p ps)
    obtain m where "packed_loss cfg sc p = Ok (scaled cfg sc (pk_tokens p), m)" using packed_loss_tokens[OF assms(1)] Cons.prems by fastforce
    moreover obtain losses where "traverse (packed_loss cfg sc) ps = Ok losses" "sum_list (map fst losses) = scaled cfg sc (all_tokens ps)"
      using Cons by auto
    ultimately show ?case by (simp add: all_tokens_def scaled_append)
  qed (simp add: all_tokens_def scaled_def)
  from this[of "concat ranks"] assms(2) obtain losses where l: "traverse (packed_loss cfg sc) (concat ranks) = Ok losses"
    "sum_list (map fst losses) = scaled cfg sc (all_tokens (concat ranks))" by auto
  have "all_tokens (concat ranks) = concat (map all_tokens ranks)" by (induction ranks) (simp_all add: all_tokens_def)
  then show ?thesis using l global_loss_scales_counts[OF assms(2)] by (simp add: total_loss_def sc_def)
qed

text \<open>
  C12: The loss of a step is a weighted average over tokens and does not depend on their packing: two ways to distribute the same tokens over
  ranks, microbatches and sequences, with whatever neutral streams left out, both give, without raising, the sum over all tokens of
  the RL, cross-entropy and reference-KL terms, each divided by the number of tokens of its own component over all ranks.
\<close>

theorem policy_loss_independent_of_packing:
  assumes "\<forall>f. cfg \<noteq> CustomLoss f" "\<forall>ps \<in> set ranks. \<forall>p \<in> set ps. neutral p" "\<forall>ps \<in> set ranks'. \<forall>p \<in> set ps. neutral p"
    and "mset (concat (map all_tokens ranks)) = mset (concat (map all_tokens ranks'))"
  shows "total_loss cfg ranks = total_loss cfg ranks' \<and>
    (let tks = concat (map all_tokens ranks); per_component = (\<lambda>part keep. (\<Sum>tk\<leftarrow>tks. part tk) / real (max 1 (length (filter keep tks))))
     in total_loss cfg ranks = Ok (per_component (\<lambda>tk. if tk_mask tk then tk_rl tk * rl_token cfg tk else 0) (\<lambda>tk. tk_mask tk \<and> tk_rl tk \<noteq> 0) +
          per_component (\<lambda>tk. tk_ce tk * - tk_trainer tk) (\<lambda>tk. tk_ce tk \<noteq> 0) +
          per_component (\<lambda>tk. tk_ref_kl tk * ref_kl_token tk) (\<lambda>tk. tk_ref_kl tk \<noteq> 0)))"
proof -
  note t = total_loss_tokens[OF assms(1,2)] total_loss_tokens[OF assms(1,3)]
  have "scaled cfg sc (concat (map all_tokens ranks)) = scaled cfg sc (concat (map all_tokens ranks'))" for sc
    unfolding scaled_def by (simp add: sum_list_mset_eq[OF assms(4)])
  then have same: "total_loss cfg ranks = total_loss cfg ranks'" unfolding t token_counts_mset[OF assms(4)] by simp
  have "let tks = concat (map all_tokens ranks); per_component = (\<lambda>part keep. (\<Sum>tk\<leftarrow>tks. part tk) / real (max 1 (length (filter keep tks))))
     in total_loss cfg ranks = Ok (per_component (\<lambda>tk. if tk_mask tk then tk_rl tk * rl_token cfg tk else 0) (\<lambda>tk. tk_mask tk \<and> tk_rl tk \<noteq> 0) +
          per_component (\<lambda>tk. tk_ce tk * - tk_trainer tk) (\<lambda>tk. tk_ce tk \<noteq> 0) +
          per_component (\<lambda>tk. tk_ref_kl tk * ref_kl_token tk) (\<lambda>tk. tk_ref_kl tk \<noteq> 0))"
    unfolding Let_def t(1) scaled_def at_least_one_def token_counts_def fst_conv snd_conv rl_part_def ce_part_def ref_kl_part_def by (rule refl)
  with same show ?thesis by (rule conjI)
qed

definition sample_token :: "real \<Rightarrow> real \<Rightarrow> Token" where
  "sample_token a rl = \<lparr> tk_trainer = 0, tk_inference = 0, tk_ref = 0, tk_advantage = a, tk_mask = True, tk_rl = rl, tk_ce = 0, tk_ref_kl = 0 \<rparr>"

definition sample_config :: LossConfig where
  "sample_config = DefaultLoss \<lparr> dl_dppo_mask_low = 1 / 5, dl_dppo_mask_high = 1 / 5, dl_adv_tau = 1, dl_kl_tau = 1 / 1000 \<rparr>"

definition packed_of :: "Token list list \<Rightarrow> Packed" where
  "packed_of seqs = \<lparr> pk_seqs = seqs, pk_has_rl = False, pk_has_ce = False, pk_has_ref_kl = False, pk_has_refs = False \<rparr>"

theorem policy_loss_independent_of_packing_witness:
  "total_loss sample_config [[packed_of [[sample_token 2 1], [sample_token 4 1]]], [packed_of [[]]]] = Ok (- 3) \<and>
   total_loss sample_config [[packed_of [[sample_token 4 1]]], [packed_of [[sample_token 2 1]]]] = Ok (- 3)"
proof -
  let ?A = "[[packed_of [[sample_token 2 1], [sample_token 4 1]]], [packed_of [[]]]]"
  let ?B = "[[packed_of [[sample_token 4 1]]], [packed_of [[sample_token 2 1]]]]"
  have toks: "concat (map all_tokens ?A) = [sample_token 2 1, sample_token 4 1]" "concat (map all_tokens ?B) = [sample_token 4 1, sample_token 2 1]"
    by (simp_all add: all_tokens_def pk_tokens_def packed_of_def)
  have n: "\<forall>ps \<in> set ?A. \<forall>p \<in> set ps. neutral p" "\<forall>ps \<in> set ?B. \<forall>p \<in> set ps. neutral p"
    by (simp_all add: neutral_def packed_of_def pk_tokens_def sample_token_def)
  have cfg: "\<forall>f. sample_config \<noteq> CustomLoss f" by (simp add: sample_config_def)
  have m: "mset (concat (map all_tokens ?A)) = mset (concat (map all_tokens ?B))" unfolding toks by simp
  have tok: "rl_token sample_config (sample_token a 1) = - a" for a
    by (simp add: sample_token_def sample_config_def policy_token_def ratio_def drift_def)
  have fields: "tk_mask (sample_token a r)" "tk_rl (sample_token a r) = r" "tk_ce (sample_token a r) = 0" "tk_ref_kl (sample_token a r) = 0" for a r
    by (simp_all add: sample_token_def)
  note eq = policy_loss_independent_of_packing[OF cfg n m]
  from conjunct2[OF eq] have "total_loss sample_config ?A = Ok (- 3)" unfolding toks Let_def by (simp add: tok fields)
  moreover have "total_loss sample_config ?A = total_loss sample_config ?B" using eq by (rule conjunct1)
  ultimately show ?thesis by metis
qed

section \<open>Diagnostics and log probabilities\<close>

lemma exp_eq_add_one: "exp x = 1 + x \<longleftrightarrow> x = (0::real)"
proof
  assume eq: "exp x = 1 + x"
  then have pos: "0 < 1 + x" using exp_gt_zero[of x] by linarith
  have "1 + x / 2 \<le> exp (x / 2)" by (rule exp_ge_add_one_self)
  then have "(1 + x / 2)\<^sup>2 \<le> (exp (x / 2))\<^sup>2" using pos by (intro power_mono) linarith+
  moreover have "(exp (x / 2))\<^sup>2 = exp x" by (simp flip: exp_double)
  moreover have "(1 + x / 2)\<^sup>2 = 1 + x + x\<^sup>2 / 4" by (simp add: power2_eq_square algebra_simps)
  ultimately have "x\<^sup>2 \<le> 0" using eq by linarith
  then show "x = 0" by simp
qed simp

text \<open>
  The mismatch diagnostic is the estimator \<open>exp r - 1 - r\<close> of the divergence, capped at \<open>10^30\<close>: it is never negative, zero only
  for equal probabilities, and never below the capped estimator.
\<close>

lemma mismatch_kl_bounds:
  "0 \<le> compute_mismatch_kl r \<and> compute_mismatch_kl r \<le> 10 ^ 30 \<and> (compute_mismatch_kl r = 0 \<longleftrightarrow> r = 0) \<and>
   (compute_mismatch_kl r = exp r - 1 - r \<or> compute_mismatch_kl r = 10 ^ 30) \<and> min (exp r - 1 - r) (10 ^ 30) \<le> compute_mismatch_kl r"
proof -
  have L: "1 < diagnostic_ratio_limit" by (simp add: diagnostic_ratio_limit_def)
  have k: "0 \<le> exp r - 1 - r" "exp r - 1 - r = 0 \<longleftrightarrow> r = 0" using exp_ge_add_one_self[of r] exp_eq_add_one[of r] by linarith+
  show ?thesis unfolding diagnostic_ratio_limit_def[symmetric]
  proof (cases "r > ln diagnostic_ratio_limit")
    case True
    moreover have "0 < ln diagnostic_ratio_limit" using L by simp
    ultimately show "0 \<le> compute_mismatch_kl r \<and> compute_mismatch_kl r \<le> diagnostic_ratio_limit \<and> (compute_mismatch_kl r = 0 \<longleftrightarrow> r = 0) \<and>
        (compute_mismatch_kl r = exp r - 1 - r \<or> compute_mismatch_kl r = diagnostic_ratio_limit) \<and>
        min (exp r - 1 - r) diagnostic_ratio_limit \<le> compute_mismatch_kl r"
      using L by (auto simp: compute_mismatch_kl_def)
  next
    case False
    then have "compute_mismatch_kl r = min (exp r - 1 - r) diagnostic_ratio_limit"
      by (simp add: compute_mismatch_kl_def Let_def min_absorb1)
    then show "0 \<le> compute_mismatch_kl r \<and> compute_mismatch_kl r \<le> diagnostic_ratio_limit \<and> (compute_mismatch_kl r = 0 \<longleftrightarrow> r = 0) \<and>
        (compute_mismatch_kl r = exp r - 1 - r \<or> compute_mismatch_kl r = diagnostic_ratio_limit) \<and>
        min (exp r - 1 - r) diagnostic_ratio_limit \<le> compute_mismatch_kl r"
      using L k by (auto simp: min_def)
  qed
qed

lemma logsumexp_pos: "xs \<noteq> [] \<Longrightarrow> 0 < sum_list (map exp xs)" for xs :: "real list"
  by (induction xs) (auto intro!: add_pos_nonneg sum_list_nonneg)

lemma exp_logsumexp: "xs \<noteq> [] \<Longrightarrow> exp (logsumexp xs) = sum_list (map exp xs)"
  using logsumexp_pos by (simp add: logsumexp_def)

lemma softmax_sum: "xs \<noteq> [] \<Longrightarrow> sum_list (map exp (log_softmax xs)) = 1"
proof -
  assume ne: "xs \<noteq> []"
  have "sum_list (map (\<lambda>x. exp (x - c)) xs) = sum_list (map exp xs) / exp c" for c
    by (induction xs) (auto simp: exp_diff add_divide_distrib)
  then show ?thesis using exp_logsumexp[OF ne] logsumexp_pos[OF ne] by (simp add: log_softmax_def comp_def)
qed

text \<open>Log probabilities are at most 0, and the entropy lies between 0 and the value \<open>ln vocab\<close> that pads the first position.\<close>

lemma entropy_bounds:
  assumes "xs \<noteq> []"
  shows "\<forall>l \<in> set (log_softmax xs). l \<le> 0"
    and "\<exists>h. compute_entropy [[xs]] = [[h]] \<and> 0 \<le> h \<and> h \<le> ln (real (length xs))"
proof -
  define c where "c = logsumexp xs"
  define n where "n = real (length xs)"
  have n: "0 < n" using assms by (simp add: n_def)
  have "exp x \<le> sum_list (map exp xs)" if "x \<in> set xs" for x
    using that by (intro member_le_sum_list) auto
  then have "exp x \<le> exp c" if "x \<in> set xs" for x using that exp_logsumexp[OF assms] by (simp add: c_def)
  then have le: "x \<le> c" if "x \<in> set xs" for x using that by simp
  then show "\<forall>l \<in> set (log_softmax xs). l \<le> 0" by (auto simp: log_softmax_def c_def)
  have one: "(\<Sum>x\<leftarrow>xs. exp (x - c)) = 1" using softmax_sum[OF assms] by (simp add: log_softmax_def c_def comp_def)
  define h where "h = c - (\<Sum>x\<leftarrow>xs. exp (x - c) * x)"
  have ent: "compute_entropy [[xs]] = [[h]]"
    by (simp add: compute_entropy_def h_def c_def log_softmax_def comp_def)
      (simp add: zip_map1 comp_def case_prod_beta zip_same_conv_map)
  have split: "(\<Sum>x\<leftarrow>ys. exp (x - c) * (c - x)) = c * (\<Sum>x\<leftarrow>ys. exp (x - c)) - (\<Sum>x\<leftarrow>ys. exp (x - c) * x)" for ys
    by (induction ys) (simp_all add: algebra_simps)
  have h: "h = (\<Sum>x\<leftarrow>xs. exp (x - c) * (c - x))" unfolding split one h_def by simp
  have "0 \<le> h" unfolding h by (rule sum_list_nonneg) (use le in auto)
  have term_le: "exp (x - c) * (c - x) \<le> 1 / n - exp (x - c) + ln n * exp (x - c)" for x
  proof -
    have "c - x - ln n + 1 \<le> exp (c - x - ln n)" using exp_ge_add_one_self[of "c - x - ln n"] by linarith
    then have "exp (x - c) * (c - x - ln n + 1) \<le> exp (x - c) * exp (c - x - ln n)" by (intro mult_left_mono) auto
    also have "\<dots> = exp (- ln n)" by (simp flip: exp_add)
    also have "\<dots> = 1 / n" using n by (simp add: exp_minus inverse_eq_divide)
    finally show ?thesis by (simp add: algebra_simps)
  qed
  have "h \<le> (\<Sum>x\<leftarrow>xs. 1 / n - exp (x - c) + ln n * exp (x - c))" unfolding h by (rule sum_list_mono) (rule term_le)
  also have "\<dots> = n * (1 / n) - (\<Sum>x\<leftarrow>xs. exp (x - c)) + ln n * (\<Sum>x\<leftarrow>xs. exp (x - c))"
    unfolding n_def by (simp add: sum_list_addf sum_list_subtractf sum_list_const_mult sum_list_triv)
  also have "\<dots> = ln n" using n by (simp add: one)
  finally show "\<exists>h. compute_entropy [[xs]] = [[h]] \<and> 0 \<le> h \<and> h \<le> ln (real (length xs))"
    using ent \<open>0 \<le> h\<close> by (simp add: n_def)
qed

text \<open>With labels shifted left, the log probability at position \<open>i + 1\<close> after the shift right is that of the token there given what precedes it.\<close>

lemma shifted_log_probabilities:
  assumes "length logits = length ids" "selective_log_softmax [logits] (shift_tensor_left z [ids]) = Ok lps" "Suc i < length ids"
  shows "shift_tensor_right lps pad ! 0 ! Suc i = log_softmax (logits ! i) ! (ids ! Suc i)"
proof -
  let ?labels = "tl ids @ [z]"
  obtain row where row: "lps = [row]" "traverse (\<lambda>(position, token). nth_chk (log_softmax position) token) (zip logits ?labels) = Ok row"
    using assms(2) by (auto simp: selective_log_softmax_def shift_tensor_left_def result_simps)
  have len: "length row = length ids" using traverse_length[OF row(2)] assms(1,3) by (cases ids) auto
  have "list_all2 (\<lambda>x y. (\<lambda>(position, token). nth_chk (log_softmax position) token) x = Ok y) (zip logits ?labels) row"
    using row(2) by (simp add: traverse_Inr_iff)
  then have "nth_chk (log_softmax (logits ! i)) (?labels ! i) = Ok (row ! i)"
    using assms(1,3) len by (auto simp: list_all2_conv_all_nth dest!: spec[of _ i])
  moreover have "?labels ! i = ids ! Suc i" using assms(3) by (cases ids) (auto simp: nth_append)
  ultimately show ?thesis using row(1) len assms(3) by (auto simp: shift_tensor_right_def nth_chk_Inr_iff nth_butlast)
qed

end
