(* ===== verification/Value_Runtime.thy ===== *)
theory Value_Runtime
  imports Value_Batch
begin

text \<open>
  \<open>ValueTrainerRuntime\<close> of \<^verbatim>\<open>value/trainer.py\<close>: the prepared batch, the version, the step limit and the checkpoints of the value trainer, one
  runtime per rank. The optimizer step on the model is left out; \<open>rt_trained\<close>, \<open>rt_saved\<close> and \<open>rt_published\<close> are ghosts that record on
  which batches it ran, and which versions were written and published.
\<close>

record PreparedBatch =
  pr_batch :: ValueTrainingBatch
  pr_micro_batches :: "ValueMicroBatch list"
  pr_scale :: int

text \<open>\<open>rt_ckpt\<close> is the checkpoint manager with the interval of its configuration, if there are any.\<close>

record ValueTrainerRuntime =
  rt_seq_len :: int
  rt_world_size :: int
  rt_rank :: nat
  rt_pack_sequences :: bool
  rt_max_steps :: "int option"
  rt_ckpt :: "int option option"
  rt_version :: int
  rt_total_tokens :: int
  rt_total_samples :: int
  rt_active :: "PreparedBatch option"
  rt_last_checkpoint :: "int option"
  rt_finished :: bool
  rt_trained :: "ValueTrainingBatch list"
  rt_saved :: "int list"
  rt_published :: "int list"

text \<open>\<open>loaded\<close> is the pair of totals that the checkpoint manager reads back on a resume.\<close>

definition ValueTrainerRuntime_init ::
  "int \<Rightarrow> int \<Rightarrow> nat \<Rightarrow> bool \<Rightarrow> int option \<Rightarrow> int option option \<Rightarrow> int option \<Rightarrow> int \<times> int \<Rightarrow> ValueTrainerRuntime" where
  "ValueTrainerRuntime_init seq_len world_size rank pack_sequences max_steps ckpt resume_step loaded =
     \<lparr> rt_seq_len = seq_len, rt_world_size = world_size, rt_rank = rank, rt_pack_sequences = pack_sequences, rt_max_steps = max_steps,
       rt_ckpt = ckpt, rt_version = (case resume_step of None \<Rightarrow> 0 | Some v \<Rightarrow> v), 
       rt_total_tokens = (if resume_step = None then 0 else fst loaded), rt_total_samples = (if resume_step = None then 0 else snd loaded),
       rt_active = None, rt_last_checkpoint = resume_step, rt_finished = False, rt_trained = [], rt_saved = [], rt_published = [] \<rparr>"

definition max_steps_reached :: "ValueTrainerRuntime \<Rightarrow> bool" where
  "max_steps_reached r \<longleftrightarrow> (case rt_max_steps r of None \<Rightarrow> False | Some n \<Rightarrow> rt_version r \<ge> n)"

definition can_step :: "ValueTrainerRuntime \<Rightarrow> bool" where
  "can_step r \<longleftrightarrow> rt_active r \<noteq> None \<and> \<not> max_steps_reached r"

text \<open>The all-reduced number of trainable tokens of the packed grid.\<close>

definition grid_scale :: "ValueMicroBatch list list \<Rightarrow> int" where
  "grid_scale grid = sum_list (map (\<lambda>row. sum_list (map (\<lambda>mb. int (length (filter id (vmb_mask mb)))) row)) grid)"

definition prepare_batch :: "ValueTrainingBatch \<Rightarrow> ValueTrainerRuntime \<Rightarrow> (bool \<times> ValueTrainerRuntime) result" where
  "prepare_batch batch r =
     raise_if (rt_active r \<noteq> None) (RuntimeError ''cannot replace a prepared value batch'')
       (bindE (pack_value_samples (vtb_samples batch) (rt_seq_len r) (rt_world_size r) 0 (rt_pack_sequences r)) (\<lambda>grid.
        bindE (nth_chk grid (rt_rank r)) (\<lambda>micro_batches.
          let scale = grid_scale grid in
          if scale = 0 then Ok (False, r\<lparr> rt_active := None \<rparr>)
          else Ok (True, r\<lparr> rt_active := Some \<lparr> pr_batch = batch, pr_micro_batches = micro_batches, pr_scale = scale \<rparr> \<rparr>))))"

definition save_checkpoint :: "ValueTrainerRuntime \<Rightarrow> ValueTrainerRuntime" where
  "save_checkpoint r = r\<lparr> rt_saved := rt_saved r @ [rt_version r], rt_last_checkpoint := Some (rt_version r) \<rparr>"

definition checkpoint_if_due :: "ValueTrainerRuntime \<Rightarrow> ValueTrainerRuntime" where
  "checkpoint_if_due r =
     (case rt_ckpt r of
        None \<Rightarrow> r
      | Some interval \<Rightarrow>
          (let interval_due = (case interval of None \<Rightarrow> False | Some n \<Rightarrow> rt_version r mod n = 0)
           in if \<not> interval_due \<and> \<not> max_steps_reached r then r else save_checkpoint r))"

text \<open>The progress \<open>step\<close> records once the optimizer has run; \<open>publishes\<close> says whether it was given a weight publisher.\<close>

definition recorded :: "bool \<Rightarrow> ValueTrainingBatch \<Rightarrow> int \<Rightarrow> ValueTrainerRuntime \<Rightarrow> ValueTrainerRuntime" where
  "recorded publishes batch scale r =
     r\<lparr> rt_trained := rt_trained r @ [batch], rt_version := rt_version r + 1,
        rt_total_tokens := rt_total_tokens r + scale, rt_total_samples := rt_total_samples r + int (length (vtb_samples batch)),
        rt_published := (if publishes then rt_published r @ [rt_version r + 1] else rt_published r) \<rparr>"

definition runtime_step :: "bool \<Rightarrow> ValueTrainerRuntime \<Rightarrow> (int \<times> ValueTrainerRuntime) result" where
  "runtime_step publishes r =
     raise_if (\<not> can_step r) (RuntimeError ''value trainer has no prepared update'')
       (case rt_active r of
          None \<Rightarrow> Raise (AssertionError ''self._active is not None'')
        | Some active \<Rightarrow>
            (let r' = checkpoint_if_due (recorded publishes (pr_batch active) (pr_scale active) r)
             in Ok (rt_version r', r'\<lparr> rt_active := None \<rparr>)))"

definition finish :: "ValueTrainerRuntime \<Rightarrow> ValueTrainerRuntime" where
  "finish r =
     (if rt_finished r then r
      else (if rt_ckpt r \<noteq> None \<and> rt_version r > 0 \<and> rt_last_checkpoint r \<noteq> Some (rt_version r) then save_checkpoint r else r)
             \<lparr> rt_finished := True \<rparr>)"

section \<open>One update\<close>

text \<open>The trainable tokens of a batch, which the ranks must agree on although each packs only its own share.\<close>

definition batch_tokens :: "ValueTrainingBatch \<Rightarrow> int" where
  "batch_tokens batch = sum_list (map (\<lambda>s. int (length (filter id (vts_mask s)))) (vtb_samples batch))"

definition trainable :: "ValueTrainingBatch \<Rightarrow> bool" where
  "trainable batch \<longleftrightarrow> (\<exists>s \<in> set (vtb_samples batch). True \<in> set (vts_mask s))"

lemma filter_fst_zip: "length xs = length ys \<Longrightarrow> length (filter fst (zip xs ys)) = length (filter id xs)"
  by (induction xs ys rule: list_induct2) auto

lemma masked_stream_length:
  "length ids = length msk \<Longrightarrow> length pos = length msk \<Longrightarrow> length targets = length msk \<Longrightarrow>
     length (masked_stream msk ids pos targets) = length (filter id msk)"
  by (simp add: masked_stream_def filter_fst_zip)

lemma grid_scale_concat: "grid_scale grid = sum_list (map (\<lambda>mb. int (length (filter id (vmb_mask mb)))) (concat grid))"
  by (induction grid) (simp_all add: grid_scale_def del: id_apply)

lemma sum_length_concat: "sum_list (map (\<lambda>x. int (length (f x))) xs) = int (length (concat (map f xs)))"
  by (induction xs) auto

lemma pack_scale:
  assumes "pack_value_samples (vtb_samples batch) seq_len world_size pad p = Ok grid"
  shows "grid_scale grid = batch_tokens batch"
proof -
  have mb: "length (trained_tokens mb) = length (filter id (vmb_mask mb))" if "mb \<in> set (concat grid)" for mb
  proof -
    obtain rank where "rank \<in> set grid" "mb \<in> set rank" using \<open>mb \<in> set (concat grid)\<close> by auto
    note pack_value_samples_within_seq_len[OF assms this]
    then show ?thesis by (simp add: trained_tokens_def masked_stream_length)
  qed
  have "list_all sample_aligned (vtb_samples batch)" using assms by (rule pack_value_samples_grid)
  then have smp: "length (sample_tokens s) = length (filter id (vts_mask s))" if "s \<in> set (vtb_samples batch)" for s
    using that by (simp add: list_all_iff sample_aligned_def sample_tokens_def masked_stream_length)
  have "grid_scale grid = sum_list (map (\<lambda>mb. int (length (trained_tokens mb))) (concat grid))"
    unfolding grid_scale_concat by (rule arg_cong[of _ _ sum_list], rule map_cong[OF refl]) (simp only: mb)
  also have "\<dots> = int (length (concat (map trained_tokens (concat grid))))" by (rule sum_length_concat)
  also have "\<dots> = int (length (concat (map sample_tokens (vtb_samples batch))))"
    using pack_exact[OF assms] mset_eq_length by metis
  also have "\<dots> = sum_list (map (\<lambda>s. int (length (sample_tokens s))) (vtb_samples batch))" by (rule sum_length_concat[symmetric])
  also have "\<dots> = batch_tokens batch"
    unfolding batch_tokens_def by (rule arg_cong[of _ _ sum_list], rule map_cong[OF refl]) (simp only: smp)
  finally show ?thesis .
qed

lemma batch_tokens_zero: "batch_tokens batch = 0 \<longleftrightarrow> \<not> trainable batch"
proof -
  have "batch_tokens batch = int (length (filter id (concat (map vts_mask (vtb_samples batch)))))"
    by (simp add: batch_tokens_def sum_length_concat filter_concat comp_def)
  then show ?thesis by (auto simp: trainable_def filter_empty_conv)
qed

text \<open>The runtime after one update on \<open>batch\<close>: the same on every rank.\<close>

definition updated :: "bool \<Rightarrow> ValueTrainingBatch \<Rightarrow> ValueTrainerRuntime \<Rightarrow> ValueTrainerRuntime" where
  "updated publishes batch r = (checkpoint_if_due (recorded publishes batch (batch_tokens batch) r))\<lparr> rt_active := None \<rparr>"

definition train_batch :: "bool \<Rightarrow> ValueTrainingBatch \<Rightarrow> ValueTrainerRuntime \<Rightarrow> ValueTrainerRuntime result" where
  "train_batch publishes batch r =
     bindE (prepare_batch batch r) (\<lambda>(prepared, r1). if can_step r1 then bindE (runtime_step publishes r1) (\<lambda>(v, r2). Ok r2) else Ok r1)"

lemma checkpoint_if_due_fields [simp]:
  "rt_version (checkpoint_if_due r) = rt_version r" "rt_trained (checkpoint_if_due r) = rt_trained r" "rt_max_steps (checkpoint_if_due r) = rt_max_steps r"
  "rt_ckpt (checkpoint_if_due r) = rt_ckpt r" "rt_finished (checkpoint_if_due r) = rt_finished r" "rt_seq_len (checkpoint_if_due r) = rt_seq_len r"
  "rt_world_size (checkpoint_if_due r) = rt_world_size r" "rt_rank (checkpoint_if_due r) = rt_rank r"
  "rt_pack_sequences (checkpoint_if_due r) = rt_pack_sequences r"
  by (simp_all add: checkpoint_if_due_def save_checkpoint_def Let_def split: option.split)

lemma checkpoint_if_due_active: "(checkpoint_if_due (r\<lparr> rt_active := a \<rparr>)) = (checkpoint_if_due r)\<lparr> rt_active := a \<rparr>"
  by (simp add: checkpoint_if_due_def save_checkpoint_def max_steps_reached_def Let_def split: option.split)

lemma checkpoint_if_due_rank: "(checkpoint_if_due (r\<lparr> rt_rank := k \<rparr>)) = (checkpoint_if_due r)\<lparr> rt_rank := k \<rparr>"
  by (simp add: checkpoint_if_due_def save_checkpoint_def max_steps_reached_def Let_def split: option.split)

lemma updated_fields [simp]:
  "rt_version (updated p b r) = rt_version r + 1" "rt_trained (updated p b r) = rt_trained r @ [b]" "rt_active (updated p b r) = None"
  "rt_max_steps (updated p b r) = rt_max_steps r" "rt_rank (updated p b r) = rt_rank r"
  "rt_ckpt (updated p b r) = rt_ckpt r" "rt_finished (updated p b r) = rt_finished r"
  by (simp_all add: updated_def recorded_def)

lemma recorded_swap:
  "recorded p b n (r\<lparr> rt_rank := k \<rparr>) = (recorded p b n r)\<lparr> rt_rank := k \<rparr>" "recorded p b n (r\<lparr> rt_active := a \<rparr>) = (recorded p b n r)\<lparr> rt_active := a \<rparr>"
  by (rule ValueTrainerRuntime.equality; simp add: recorded_def)+

lemma updated_rank: "updated p b (r\<lparr> rt_rank := k \<rparr>) = (updated p b r)\<lparr> rt_rank := k \<rparr>"
  by (simp add: updated_def recorded_swap checkpoint_if_due_rank)

lemma runtime_step_recorded:
  assumes "can_step (r\<lparr> rt_active := Some p \<rparr>)" "pr_scale p = batch_tokens (pr_batch p)"
  shows "runtime_step publishes (r\<lparr> rt_active := Some p \<rparr>) = Ok (rt_version r + 1, updated publishes (pr_batch p) r)"
  using assms by (simp add: runtime_step_def updated_def raise_if_def Let_def recorded_swap checkpoint_if_due_active) (simp add: recorded_def)

lemma train_batch_updates:
  assumes "train_batch publishes batch r = Ok r'" "rt_active r = None" "\<not> max_steps_reached r"
  shows "r' = (if trainable batch then updated publishes batch r else r)"
proof -
  obtain prepared r1 where prep: "prepare_batch batch r = Ok (prepared, r1)" using assms(1) by (auto simp: train_batch_def bindE_Inr_iff)
  then obtain grid mbs where grid: "pack_value_samples (vtb_samples batch) (rt_seq_len r) (rt_world_size r) 0 (rt_pack_sequences r) = Ok grid"
    "r1 = r\<lparr> rt_active := (if grid_scale grid = 0 then None else Some \<lparr> pr_batch = batch, pr_micro_batches = mbs, pr_scale = grid_scale grid \<rparr>) \<rparr>"
    by (auto simp: prepare_batch_def result_simps Let_def split: if_splits)
  have scale: "grid_scale grid = batch_tokens batch" by (rule pack_scale[OF grid(1)])
  show ?thesis
  proof (cases "trainable batch")
    case False
    then have "r1 = r" using grid(2) scale assms(2) by (simp add: batch_tokens_zero)
    then show ?thesis using assms(1,2) prep False by (simp add: train_batch_def can_step_def)
  next
    case True
    then have r1: "r1 = r\<lparr> rt_active := Some \<lparr> pr_batch = batch, pr_micro_batches = mbs, pr_scale = batch_tokens batch \<rparr> \<rparr>"
      using grid(2) scale batch_tokens_zero by simp
    then have can: "can_step r1" using assms(3) by (simp add: can_step_def max_steps_reached_def split: option.splits)
    note runtime_step_recorded[OF can[unfolded r1], of publishes, simplified, folded r1]
    then show ?thesis using assms(1) prep can True by (simp add: train_batch_def)
  qed
qed

section \<open>Checkpoints\<close>

text \<open>Versions are written in increasing order, and the last one written is remembered.\<close>

definition checkpoints_ok :: "ValueTrainerRuntime \<Rightarrow> bool" where
  "checkpoints_ok r \<longleftrightarrow> sorted_wrt (<) (rt_saved r) \<and> (\<forall>v \<in> set (rt_saved r). v \<le> rt_version r) \<and>
     (rt_saved r \<noteq> [] \<longrightarrow> rt_last_checkpoint r = Some (last (rt_saved r))) \<and> (\<forall>v. rt_last_checkpoint r = Some v \<longrightarrow> v \<le> rt_version r)"

lemma prepare_batch_fields:
  assumes "prepare_batch batch r = Ok (b, r')"
  obtains active where "r' = r\<lparr> rt_active := active \<rparr>" "rt_active r = None" "b \<longleftrightarrow> active \<noteq> None" "\<forall>p. active = Some p \<longrightarrow> pr_batch p = batch"
  using assms by (auto simp: prepare_batch_def result_simps Let_def split: if_splits)

lemma step_fields:
  assumes "runtime_step publishes r = Ok (v, r')"
  obtains p where "rt_active r = Some p" "\<not> max_steps_reached r" "rt_version r' = rt_version r + 1" "rt_trained r' = rt_trained r @ [pr_batch p]"
    "rt_active r' = None" "rt_max_steps r' = rt_max_steps r" "rt_ckpt r' = rt_ckpt r" "v = rt_version r'" "rt_finished r' = rt_finished r"
proof -
  have can: "can_step r" using assms by (simp add: runtime_step_def result_simps)
  then obtain p where p: "rt_active r = Some p" by (auto simp: can_step_def)
  show thesis
    by (rule that[OF p]) (use assms can p in \<open>auto simp: runtime_step_def Let_def can_step_def recorded_def\<close>)
qed

lemma sorted_last: "sorted_wrt (<) xs \<Longrightarrow> v \<in> set xs \<Longrightarrow> v \<le> last (xs :: int list)"
  by (induction xs rule: rev_induct) (auto simp: sorted_wrt_append)

lemma checkpoints_ok_step:
  assumes "runtime_step publishes r = Ok (v, r')" "checkpoints_ok r"
  shows "checkpoints_ok r'"
proof -
  have up: "checkpoints_ok (x\<lparr> rt_version := rt_version x + 1 \<rparr>)" if "checkpoints_ok x" for x
    using that by (fastforce simp: checkpoints_ok_def)
  have save: "checkpoints_ok (save_checkpoint x)" if "checkpoints_ok x" "\<forall>w \<in> set (rt_saved x). w < rt_version x" for x
    using that by (auto simp: checkpoints_ok_def save_checkpoint_def sorted_wrt_append)
  obtain p where p: "rt_active r = Some p" using assms(1) by (rule step_fields)
  define r2 where "r2 = recorded publishes (pr_batch p) (pr_scale p) r"
  have "r' = (checkpoint_if_due r2)\<lparr> rt_active := None \<rparr>"
    using assms(1) p by (auto simp: runtime_step_def r2_def result_simps Let_def)
  moreover have "checkpoints_ok r2" "\<forall>w \<in> set (rt_saved r2). w < rt_version r2"
    using assms(2) by (fastforce simp: checkpoints_ok_def r2_def recorded_def)+
  then have "checkpoints_ok (checkpoint_if_due r2)" using save by (auto simp: checkpoint_if_due_def Let_def split: option.splits)
  ultimately show ?thesis by (simp add: checkpoints_ok_def)
qed

lemma train_batch_checkpoints:
  assumes "train_batch publishes batch r = Ok r'" "checkpoints_ok r"
  shows "checkpoints_ok r'"
proof -
  obtain prepared r1 where prep: "prepare_batch batch r = Ok (prepared, r1)" using assms(1) by (auto simp: train_batch_def bindE_Inr_iff)
  then obtain active where "r1 = r\<lparr> rt_active := active \<rparr>" by (rule prepare_batch_fields)
  then have "checkpoints_ok r1" using assms(2) by (simp add: checkpoints_ok_def)
  then show ?thesis using assms(1) prep checkpoints_ok_step by (auto simp: train_batch_def bindE_Inr_iff split: if_splits)
qed

text \<open>After \<open>finish\<close> of a runtime with a checkpoint manager, the last version is on disk.\<close>

lemma finish_saves_last:
  assumes "checkpoints_ok r" "rt_ckpt r \<noteq> None" "0 < rt_version r" "\<not> rt_finished r"
  shows "rt_last_checkpoint (finish r) = Some (rt_version r)" and "checkpoints_ok (finish r)" and "finish (finish r) = finish r"
proof -
  have lt: "w < rt_version r" if "rt_last_checkpoint r \<noteq> Some (rt_version r)" "w \<in> set (rt_saved r)" for w
  proof -
    have "rt_saved r \<noteq> []" using that(2) by auto
    then have "rt_last_checkpoint r = Some (last (rt_saved r))" "last (rt_saved r) \<le> rt_version r" using assms(1) by (auto simp: checkpoints_ok_def)
    then show ?thesis using sorted_last[OF _ that(2)] assms(1) that(1) by (fastforce simp: checkpoints_ok_def)
  qed
  show "rt_last_checkpoint (finish r) = Some (rt_version r)" "finish (finish r) = finish r"
    using assms by (auto simp: finish_def save_checkpoint_def)
  show "checkpoints_ok (finish r)"
    using assms lt by (auto simp: finish_def save_checkpoint_def checkpoints_ok_def sorted_wrt_append)
qed

end
