(* ===== verification/Value_Coordinator.thy ===== *)
theory Value_Coordinator
  imports Value_Runtime Value_Replay Value_Service Value_Transport
begin

text \<open>
  The trainer-placed value evaluator: \<^verbatim>\<open>value/coordinator.py\<close>, \<^verbatim>\<open>value/update_schedule.py\<close> and the command loop \<open>run_colocated\<close> of
  \<^verbatim>\<open>value/colocated.py\<close>, which alternates inference batches with updates on the live model over all ranks. One turn of the loop is one
  operation; what other threads do to the request service before each call of a turn, the clock, the socket, the generator and the
  model are inputs of the turn. The object broadcast delivers the command of the master to every rank.
\<close>

section \<open>Scheduling and admission\<close>

datatype Operation = InferOp | TrainOp

definition choose_next_operation :: "bool \<Rightarrow> bool \<Rightarrow> Operation option \<Rightarrow> Operation option" where
  "choose_next_operation has_inference has_training last_operation =
     (if has_inference \<and> has_training then Some (if last_operation = Some InferOp then TrainOp else InferOp)
      else if has_inference then Some InferOp
      else if has_training then Some TrainOp
      else None)"

definition admit_available_rollouts :: "(bytes \<Rightarrow> RolloutResponse result) \<Rightarrow> (bytes \<Rightarrow> ValueTrainingRollout result) \<Rightarrow> zmq_env \<Rightarrow> Receiver \<Rightarrow>
    ValueReplayBuffer \<Rightarrow> (nat \<times> Receiver \<times> ValueReplayBuffer) result" where
  "admit_available_rollouts decR dec env receiver replay =
     (case receive_available decR dec (admission_limit replay) env receiver of
        (res, receiver', _, _) \<Rightarrow>
          bindE res (\<lambda>rollouts. bindE (ValueReplayBuffer_extend rollouts replay) (\<lambda>replay'. Ok (length rollouts, receiver', replay'))))"

record ColocatedModelConfig =
  cm_dp_replicate :: int
  cm_cp :: int
  cm_fsdp_cpu_offload :: bool
  cm_fp8 :: bool
  cm_ep_comm_backend :: string
  cm_ep :: int

text \<open>\<open>has_experts\<close> is what the Hugging Face configuration of the model says.\<close>

definition validate_colocated_model :: "bool \<Rightarrow> ColocatedModelConfig \<Rightarrow> unit result" where
  "validate_colocated_model has_experts config =
     raise_if (cm_dp_replicate config \<noteq> 1) (ValueError ''trainer-placed value evaluation requires model.dp_replicate=1'')
    (raise_if (cm_cp config \<noteq> 1) (ValueError ''trainer-placed value evaluation does not support context parallelism'')
    (raise_if (cm_fsdp_cpu_offload config) (ValueError ''trainer-placed value evaluation does not support FSDP CPU offload'')
    (raise_if (cm_fp8 config) (ValueError ''trainer-placed value evaluation does not support FP8'')
    (raise_if (cm_ep_comm_backend config \<noteq> ''torch'') (ValueError ''trainer-placed value evaluation does not support DeepEP'')
    (raise_if has_experts (ValueError ''trainer-placed value evaluation does not support MoE models'')
    (raise_if (cm_ep config \<noteq> 1) (ValueError ''trainer-placed value evaluation does not support expert parallelism'') (Ok ())))))))"

section \<open>The master's choice of a command\<close>

text \<open>\<open>ms_sampled\<close> and \<open>ms_commanded\<close> are ghosts: the batches drawn from the buffer and those sent out for training.\<close>

record Master =
  ms_service :: ValueRequestService
  ms_receiver :: "Receiver option"
  ms_replay :: "ValueReplayBuffer option"
  ms_active_request :: "ValueRequestBatch option"
  ms_pending :: "(ValueTrainingBatch \<times> ValueReplaySnapshot) option"
  ms_last_operation :: "Operation option"
  ms_serve_only :: bool
  ms_next_command_id :: int
  ms_sampled :: "ValueTrainingBatch list"
  ms_commanded :: "ValueTrainingBatch list"

record TurnInput =
  ti_run_done :: bool
  ti_others :: "nat \<Rightarrow> ValueRequestService \<Rightarrow> ValueRequestService"
  ti_now :: real
  ti_clock :: "nat \<Rightarrow> real"
  ti_wakes :: "((ValueRequestService \<Rightarrow> ValueRequestService) \<times> (nat \<Rightarrow> real)) list"
  ti_socket :: zmq_env
  ti_draw :: "ValueReplayBuffer \<Rightarrow> int list"
  ti_heartbeat_due :: bool
  ti_values :: "int list list \<Rightarrow> real list list result"

datatype Command = StopCmd | IdleCmd | InferCmd "int list list" | TrainCmd ValueTrainingBatch

text \<open>\<open>take_batch\<close> until it returns; \<open>None\<close> while the wake-ups given leave it blocked.\<close>

fun await_batch :: "((ValueRequestService \<Rightarrow> ValueRequestService) \<times> (nat \<Rightarrow> real)) list \<Rightarrow> take_phase \<Rightarrow> ValueRequestService \<Rightarrow>
    (ValueRequestBatch option \<times> ValueRequestService) result option" where
  "await_batch wakes (Taken b) s = Some (Ok (b, s))"
| "await_batch [] phase s = None"
| "await_batch ((others, clk) # wakes) phase s =
     (case take_batch_resume clk phase (others s) of Inl e \<Rightarrow> Some (Raise e) | Inr (phase', s') \<Rightarrow> await_batch wakes phase' s')"

text \<open>\<open>assert receiver is not None and replay is not None\<close>\<close>

definition with_inputs :: "Master \<Rightarrow> (Receiver \<Rightarrow> ValueReplayBuffer \<Rightarrow> 'a result) \<Rightarrow> 'a result" where
  "with_inputs m k = (case (ms_receiver m, ms_replay m) of
      (Some receiver, Some replay) \<Rightarrow> k receiver replay
    | _ \<Rightarrow> Raise (AssertionError ''receiver is not None and replay is not None''))"

type_synonym Codecs = "(bytes \<Rightarrow> RolloutResponse result) \<times> (bytes \<Rightarrow> ValueTrainingRollout result)"

definition admit :: "Codecs \<Rightarrow> TurnInput \<Rightarrow> Master \<Rightarrow> Master result" where
  "admit codecs inp m = with_inputs m (\<lambda>receiver replay.
     bindE (admit_available_rollouts (fst codecs) (snd codecs) (ti_socket inp) receiver replay) (\<lambda>(n, receiver', replay').
       Ok (m\<lparr> ms_receiver := Some receiver', ms_replay := Some replay' \<rparr>)))"

definition sample_pending :: "TurnInput \<Rightarrow> Master \<Rightarrow> Master result" where
  "sample_pending inp m = with_inputs m (\<lambda>receiver replay.
     bindE (ValueReplayBuffer_sample (ti_draw inp replay) replay) (\<lambda>(batch, replay').
       Ok (m\<lparr> ms_replay := Some replay', ms_pending := Some (batch, ValueReplayBuffer_snapshot replay'), ms_sampled := ms_sampled m @ [batch] \<rparr>)))"

definition replay_can_sample :: "Master \<Rightarrow> bool" where
  "replay_can_sample m \<longleftrightarrow> (case ms_replay m of None \<Rightarrow> False | Some replay \<Rightarrow> can_sample replay)"

definition enter_serving :: "ValueTrainerRuntime \<Rightarrow> Master \<Rightarrow> Master result" where
  "enter_serving rt m =
     (if max_steps_reached rt \<and> \<not> ms_serve_only m
      then (case ms_receiver m of
              None \<Rightarrow> Raise (AssertionError ''receiver is not None'')
            | Some receiver \<Rightarrow> Ok (m\<lparr> ms_receiver := None, ms_replay := None, ms_serve_only := True \<rparr>))
      else Ok m)"

definition reserve :: "Codecs \<Rightarrow> TurnInput \<Rightarrow> Master \<Rightarrow> Master result" where
  "reserve codecs inp m =
     (if \<not> ms_serve_only m \<and> ms_pending m = None
      then with_inputs m (\<lambda>receiver replay.
             if can_sample replay then Ok m
             else bindE (admit codecs inp m) (\<lambda>m1. if replay_can_sample m1 then sample_pending inp m1 else Ok m1))
      else Ok m)"

definition train_command :: "Codecs \<Rightarrow> TurnInput \<Rightarrow> Master \<Rightarrow> (Command \<times> Master) result" where
  "train_command codecs inp m =
     bindE (if ms_pending m = None
            then with_inputs m (\<lambda>receiver replay.
                   raise_if (\<not> can_sample replay) (AssertionError ''replay.can_sample'')
                     (bindE (admit codecs inp m) (sample_pending inp)))
            else Ok m) (\<lambda>m1.
       case ms_pending m1 of
         None \<Rightarrow> Raise (AssertionError ''pending_batch is not None'')
       | Some (batch, snapshot) \<Rightarrow> Ok (TrainCmd batch, m1\<lparr> ms_pending := None, ms_commanded := ms_commanded m1 @ [batch] \<rparr>))"

definition infer_command :: "ValueRequestBatch option \<Rightarrow> Master \<Rightarrow> Command \<times> Master" where
  "infer_command taken m =
     (case taken of None \<Rightarrow> (IdleCmd, m\<lparr> ms_active_request := None \<rparr>) | Some b \<Rightarrow> (InferCmd (vrb_token_ids b), m\<lparr> ms_active_request := Some b \<rparr>))"

fun close_tickets :: "nat list \<Rightarrow> ValueRequestService \<Rightarrow> ValueRequestService result" where
  "close_tickets [] s = Ok s"
| "close_tickets (t # ts) s = bindE (close_resolve (close_error None) t s) (close_tickets ts)"

definition close_service :: "ValueRequestService \<Rightarrow> ValueRequestService result" where
  "close_service s = (case close_locked s of (ts, s1) \<Rightarrow> close_tickets ts s1)"

text \<open>The master's part of a turn up to the broadcast; without a command the turn is over.\<close>

definition decide :: "Codecs \<Rightarrow> TurnInput \<Rightarrow> ValueTrainerRuntime \<Rightarrow> Master \<Rightarrow> (Command option \<times> Master) result option" where
  "decide codecs inp rt m =
     (if ti_run_done inp
      then Some (if ms_pending m = None
                 then bindE (close_service (ti_others inp 0 (ms_service m))) (\<lambda>s. Ok (Some StopCmd, m\<lparr> ms_service := s \<rparr>))
                 else bindE (train_command codecs inp m) (\<lambda>(cmd, m1). Ok (Some cmd, m1)))
      else case bindE (enter_serving rt m) (reserve codecs inp) of
        Inl e \<Rightarrow> Some (Raise e)
      | Inr m1 \<Rightarrow>
          (case has_queued (ti_now inp) (ti_others inp 0 (ms_service m1)) of
             Inl e \<Rightarrow> Some (Raise e)
           | Inr (has_inference, s1) \<Rightarrow>
               (let m2 = m1\<lparr> ms_service := s1 \<rparr>;
                    has_training = (ms_pending m2 \<noteq> None \<or> \<not> ms_serve_only m2 \<and> replay_can_sample m2)
                in case choose_next_operation has_inference has_training (ms_last_operation m2) of
                     Some InferOp \<Rightarrow>
                       (case take_batch (ti_clock inp) False (ti_others inp 1 s1) of
                          Inl e \<Rightarrow> Some (Raise e)
                        | Inr (phase, s2) \<Rightarrow>
                            map_option (\<lambda>res. bindE res (\<lambda>(taken, s3).
                              case infer_command taken (m2\<lparr> ms_service := s3 \<rparr>) of (cmd, m3) \<Rightarrow> Ok (Some cmd, m3)))
                              (await_batch (ti_wakes inp) phase s2))
                   | Some TrainOp \<Rightarrow> Some (bindE (train_command codecs inp m2) (\<lambda>(cmd, m3). Ok (Some cmd, m3)))
                   | None \<Rightarrow> Some (Ok (if ti_heartbeat_due inp then Some IdleCmd else None, m2)))))"

section \<open>Execution on all ranks\<close>

text \<open>What every rank does with a command; only the master has a value to return for inference.\<close>

definition rank_execute :: "Command \<Rightarrow> ValueTrainerRuntime \<Rightarrow> ValueTrainerRuntime result" where
  "rank_execute cmd rt =
     (case cmd of
        TrainCmd batch \<Rightarrow> train_batch False batch rt
      | StopCmd \<Rightarrow> Ok (finish rt)
      | _ \<Rightarrow> Ok rt)"

definition follower_execute :: "int \<Rightarrow> Command \<Rightarrow> int \<times> ValueTrainerRuntime \<Rightarrow> (int \<times> ValueTrainerRuntime) result" where
  "follower_execute command_id cmd f =
     (case f of (next_command_id, rt) \<Rightarrow>
        raise_if (command_id \<noteq> next_command_id) (RuntimeError ''value trainer expected another control command'')
          (bindE (rank_execute cmd rt) (\<lambda>rt'. Ok (next_command_id + 1, rt'))))"

definition master_execute :: "TurnInput \<Rightarrow> Command \<Rightarrow> ValueTrainerRuntime \<Rightarrow> Master \<Rightarrow> (ValueTrainerRuntime \<times> Master) result" where
  "master_execute inp cmd rt m =
     bindE (case cmd of
         InferCmd token_ids \<Rightarrow> bindE (ti_values inp token_ids) (\<lambda>vals.
           case ms_active_request m of
             None \<Rightarrow> Raise (AssertionError ''active_request is not None'')
           | Some request \<Rightarrow> bindE (complete request vals (rt_version rt) (ti_others inp 2 (ms_service m))) (\<lambda>s.
               Ok (m\<lparr> ms_service := s, ms_active_request := None, ms_last_operation := Some InferOp \<rparr>)))
       | _ \<Rightarrow> Ok m) (\<lambda>m1.
     bindE (rank_execute cmd rt) (\<lambda>rt'.
       Ok (rt', case cmd of
           TrainCmd batch \<Rightarrow> m1\<lparr> ms_service := set_version (rt_version rt') (ti_others inp 2 (ms_service m1)), ms_last_operation := Some TrainOp \<rparr>
         | _ \<Rightarrow> m1)))"

record Colocated =
  cs_master :: Master
  cs_runtime :: ValueTrainerRuntime
  cs_followers :: "(int \<times> ValueTrainerRuntime) list"
  cs_stopped :: bool

definition colocated_turn :: "Codecs \<Rightarrow> TurnInput \<Rightarrow> Colocated \<Rightarrow> Colocated result option" where
  "colocated_turn codecs inp c =
     map_option (\<lambda>res. bindE res (\<lambda>(cmd, m).
       case cmd of
         None \<Rightarrow> Ok (c\<lparr> cs_master := m \<rparr>)
       | Some cmd \<Rightarrow>
           (let command_id = ms_next_command_id m; m1 = m\<lparr> ms_next_command_id := command_id + 1 \<rparr>
            in bindE (traverse (follower_execute command_id cmd) (cs_followers c)) (\<lambda>followers.
               bindE (master_execute inp cmd (cs_runtime c) m1) (\<lambda>(rt, m2).
                 Ok (c\<lparr> cs_master := m2, cs_runtime := rt, cs_followers := followers, cs_stopped := (cmd = StopCmd) \<rparr>))))))
       (decide codecs inp (cs_runtime c) (cs_master c))"

text \<open>The start of \<open>run_colocated\<close>: no receiver and no buffer when the step limit is reached already.\<close>

definition colocated_init :: "ValueRequestService \<Rightarrow> ValueReplayBuffer \<Rightarrow> ValueTrainerRuntime \<Rightarrow> ValueTrainerRuntime list \<Rightarrow> Colocated" where
  "colocated_init service replay rt followers =
     \<lparr> cs_master = \<lparr> ms_service = service, ms_receiver = (if max_steps_reached rt then None else Some Receiver_init),
         ms_replay = (if max_steps_reached rt then None else Some replay), ms_active_request = None, ms_pending = None, ms_last_operation = None,
         ms_serve_only = max_steps_reached rt, ms_next_command_id = 0, ms_sampled = [], ms_commanded = [] \<rparr>,
       cs_runtime = rt, cs_followers = map (Pair 0) followers, cs_stopped = False \<rparr>"

text \<open>The draws of the generator are what its documentation promises.\<close>

definition draws_ok :: "TurnInput \<Rightarrow> bool" where
  "draws_ok inp \<longleftrightarrow> (\<forall>b. replay_inv b \<longrightarrow> can_sample b \<longrightarrow> valid_draw b (ti_draw inp b))"

text \<open>Turns until the loop stops.\<close>

inductive colocated_step :: "Codecs \<Rightarrow> Colocated \<Rightarrow> Colocated \<Rightarrow> bool" where
  turn: "\<not> cs_stopped c \<Longrightarrow> draws_ok inp \<Longrightarrow> colocated_turn codecs inp c = Some (Ok c') \<Longrightarrow> colocated_step codecs c c'"

section \<open>The master's bookkeeping\<close>

definition reserved :: "Master \<Rightarrow> ValueTrainingBatch list" where
  "reserved m = (case ms_pending m of None \<Rightarrow> [] | Some (batch, snapshot) \<Rightarrow> [batch])"

definition master_inv :: "ValueTrainerRuntime \<Rightarrow> Master \<Rightarrow> bool" where
  "master_inv rt m \<longleftrightarrow>
     (ms_serve_only m \<longrightarrow> ms_pending m = None \<and> ms_replay m = None) \<and>
     (\<not> ms_serve_only m \<longrightarrow> ms_receiver m \<noteq> None \<and> (\<exists>b. ms_replay m = Some b \<and> replay_inv b)) \<and>
     (ms_pending m \<noteq> None \<longrightarrow> \<not> max_steps_reached rt) \<and> ms_sampled m = ms_commanded m @ reserved m"

lemma master_inv_frame [simp]:
  "master_inv rt (m\<lparr> ms_service := s \<rparr>) = master_inv rt m" "master_inv rt (m\<lparr> ms_active_request := a \<rparr>) = master_inv rt m"
  "master_inv rt (m\<lparr> ms_last_operation := l \<rparr>) = master_inv rt m" "master_inv rt (m\<lparr> ms_next_command_id := n \<rparr>) = master_inv rt m"
  by (simp_all add: master_inv_def reserved_def)

lemma admit_ok:
  assumes "admit codecs inp m = Ok m'" "master_inv rt m"
  obtains receiver replay where "m' = m\<lparr> ms_receiver := Some receiver, ms_replay := Some replay \<rparr>" "replay_inv replay" "\<not> ms_serve_only m"
proof -
  have so: "\<not> ms_serve_only m" using assms by (auto simp: admit_def with_inputs_def master_inv_def split: option.splits)
  obtain r b where rb: "ms_receiver m = Some r" "ms_replay m = Some b" "replay_inv b" using so assms(2) by (auto simp: master_inv_def)
  obtain n r' b' where adm: "admit_available_rollouts (fst codecs) (snd codecs) (ti_socket inp) r b = Ok (n, r', b')"
    and m': "m' = m\<lparr> ms_receiver := Some r', ms_replay := Some b' \<rparr>"
    using assms(1) rb by (auto simp: admit_def with_inputs_def bindE_Inr_iff)
  obtain rollouts where "ValueReplayBuffer_extend rollouts b = Ok b'"
    using adm by (auto simp: admit_available_rollouts_def bindE_Inr_iff split: prod.splits)
  then show thesis using that[OF m' extend_inv[OF rb(3)] so] by blast
qed

lemma sample_pending_ok:
  assumes "sample_pending inp m = Ok m'" "master_inv rt m" "draws_ok inp" "ms_pending m = None"
  obtains batch snap replay where "m' = m\<lparr> ms_replay := Some replay, ms_pending := Some (batch, snap), ms_sampled := ms_sampled m @ [batch] \<rparr>"
    "replay_inv replay" "\<not> ms_serve_only m"
proof -
  have so: "\<not> ms_serve_only m" using assms by (auto simp: sample_pending_def with_inputs_def master_inv_def split: option.splits)
  obtain r b where rb: "ms_receiver m = Some r" "ms_replay m = Some b" "replay_inv b" using so assms(2) by (auto simp: master_inv_def)
  obtain batch b' where smp: "ValueReplayBuffer_sample (ti_draw inp b) b = Ok (batch, b')"
    and m': "m' = m\<lparr> ms_replay := Some b', ms_pending := Some (batch, ValueReplayBuffer_snapshot b'), ms_sampled := ms_sampled m @ [batch] \<rparr>"
    using assms(1) rb by (auto simp: sample_pending_def with_inputs_def bindE_Inr_iff)
  have "can_sample b" using smp by (cases "can_sample b") (simp_all add: ValueReplayBuffer_sample_def raise_if_def)
  then have "valid_draw b (ti_draw inp b)" using assms(3) rb(3) by (simp add: draws_ok_def)
  then show thesis using that[OF m' sample_inv[OF rb(3) _ smp] so] by blast
qed

lemma admit_inv: "admit codecs inp m = Ok m' \<Longrightarrow> master_inv rt m \<Longrightarrow> master_inv rt m'"
  by (erule admit_ok, assumption) (auto simp: master_inv_def reserved_def)

lemma sample_pending_inv:
  "sample_pending inp m = Ok m' \<Longrightarrow> master_inv rt m \<Longrightarrow> draws_ok inp \<Longrightarrow> ms_pending m = None \<Longrightarrow> \<not> max_steps_reached rt \<Longrightarrow> master_inv rt m'"
  by (erule sample_pending_ok) (auto simp: master_inv_def reserved_def)

text \<open>What the preparations of a turn leave alone.\<close>

definition same_progress :: "Master \<Rightarrow> Master \<Rightarrow> bool" where
  "same_progress m m' \<longleftrightarrow> ms_commanded m' = ms_commanded m \<and> ms_next_command_id m' = ms_next_command_id m \<and>
     ms_last_operation m' = ms_last_operation m"

lemma enter_serving_inv:
  assumes "enter_serving rt m = Ok m'" "master_inv rt m"
  shows "master_inv rt m' \<and> same_progress m m' \<and> (\<not> ms_serve_only m' \<longrightarrow> \<not> max_steps_reached rt)"
  using assms by (auto simp: enter_serving_def master_inv_def same_progress_def reserved_def split: if_splits option.splits)

lemma admit_progress: "admit codecs inp m = Ok m' \<Longrightarrow> same_progress m m' \<and> ms_pending m' = ms_pending m \<and> ms_serve_only m' = ms_serve_only m"
  by (auto simp: admit_def with_inputs_def bindE_Inr_iff same_progress_def split: option.splits)

lemma sample_pending_progress: "sample_pending inp m = Ok m' \<Longrightarrow> same_progress m m' \<and> ms_serve_only m' = ms_serve_only m"
  by (auto simp: sample_pending_def with_inputs_def bindE_Inr_iff same_progress_def split: option.splits)

lemma same_progress_trans: "same_progress a b \<Longrightarrow> same_progress b c \<Longrightarrow> same_progress a c"
  by (simp add: same_progress_def)

lemma reserve_cases:
  assumes "reserve codecs inp m = Ok m'"
  obtains "m' = m" | "admit codecs inp m = Ok m'" "ms_pending m = None"
    | m1 where "admit codecs inp m = Ok m1" "sample_pending inp m1 = Ok m'" "ms_pending m = None"
proof (cases "m' = m")
  case False
  have run: "\<not> ms_serve_only m" "ms_pending m = None" using assms False by (auto simp: reserve_def split: if_splits)
  obtain r b where rb: "ms_receiver m = Some r" "ms_replay m = Some b"
    using assms run by (auto simp: reserve_def with_inputs_def split: option.splits)
  have "\<not> can_sample b" using assms False run rb by (auto simp: reserve_def with_inputs_def)
  then have "bindE (admit codecs inp m) (\<lambda>m1. if replay_can_sample m1 then sample_pending inp m1 else Ok m1) = Ok m'"
    using assms run rb by (simp add: reserve_def with_inputs_def)
  then obtain m1 where m1: "admit codecs inp m = Ok m1" "(if replay_can_sample m1 then sample_pending inp m1 else Ok m1) = Ok m'"
    unfolding bindE_Inr_iff by blast
  show thesis
  proof (cases "replay_can_sample m1")
    case True
    then show thesis using that(3)[OF m1(1) _ run(2)] m1(2) by simp
  next
    case False
    then show thesis using that(2)[OF _ run(2)] m1 by simp
  qed
qed (rule that(1))

lemma reserve_inv:
  assumes "reserve codecs inp m = Ok m'" "master_inv rt m" "draws_ok inp" "\<not> ms_serve_only m \<longrightarrow> \<not> max_steps_reached rt"
  shows "master_inv rt m' \<and> same_progress m m' \<and> (\<not> ms_serve_only m' \<longrightarrow> \<not> max_steps_reached rt)"
proof -
  from assms(1) show ?thesis
  proof (cases rule: reserve_cases)
    case 1
    then show ?thesis using assms by (simp add: same_progress_def)
  next
    case 2
    then show ?thesis using assms(2,4) admit_inv admit_progress by blast
  next
    case (3 m1)
    note p = admit_progress[OF 3(1)] sample_pending_progress[OF 3(2)]
    have so: "\<not> ms_serve_only m" using admit_ok[OF 3(1) assms(2)] by blast
    have "master_inv rt m'"
      by (rule sample_pending_inv[OF 3(2) admit_inv[OF 3(1) assms(2)] assms(3)]) (use p 3(3) so assms(4) in simp_all)
    then show ?thesis using p so assms(4) same_progress_trans by blast
  qed
qed

lemma train_command_inv:
  assumes "train_command codecs inp m = Ok (cmd, m')" "master_inv rt m" "draws_ok inp" "\<not> max_steps_reached rt"
  obtains batch where "cmd = TrainCmd batch" "master_inv rt m'" "ms_commanded m' = ms_commanded m @ [batch]" "ms_pending m' = None"
    "ms_next_command_id m' = ms_next_command_id m" "ms_last_operation m' = ms_last_operation m"
proof -
  obtain m1 batch snap where m1: "master_inv rt m1" "same_progress m m1" "ms_pending m1 = Some (batch, snap)"
    "cmd = TrainCmd batch" "m' = m1\<lparr> ms_pending := None, ms_commanded := ms_commanded m1 @ [batch] \<rparr>"
  proof (cases "ms_pending m = None")
    case True
    then obtain m0 m1 where s: "admit codecs inp m = Ok m0" "sample_pending inp m0 = Ok m1"
      and r: "(case ms_pending m1 of None \<Rightarrow> Raise (AssertionError ''pending_batch is not None'')
        | Some (batch, snapshot) \<Rightarrow> Ok (TrainCmd batch, m1\<lparr> ms_pending := None, ms_commanded := ms_commanded m1 @ [batch] \<rparr>)) = Ok (cmd, m')"
      using assms(1) by (auto simp: train_command_def with_inputs_def bindE_Inr_iff result_simps split: option.splits)
    note p = admit_progress[OF s(1)] sample_pending_progress[OF s(2)]
    have inv1: "master_inv rt m1"
      by (rule sample_pending_inv[OF s(2) admit_inv[OF s(1) assms(2)] assms(3)]) (use p True assms(4) in simp_all)
    obtain pend where pend: "ms_pending m1 = Some pend" using r by (cases "ms_pending m1") auto
    obtain batch snap where b: "pend = (batch, snap)" by (cases pend)
    show ?thesis by (rule that[OF inv1]) (use p pend b r same_progress_trans in auto)
  next
    case False
    then obtain batch snap where b: "ms_pending m = Some (batch, snap)" by (cases "ms_pending m") auto
    show ?thesis by (rule that[OF assms(2)]) (use b assms(1) in \<open>auto simp: train_command_def same_progress_def\<close>)
  qed
  have "master_inv rt m'" using m1(1,3,5) by (auto simp: master_inv_def reserved_def)
  then show thesis using that[OF m1(4)] m1(2,5) by (simp add: same_progress_def)
qed

text \<open>A turn before the run is over, cut into its preparations and the scheduled operation.\<close>

definition scheduled :: "Codecs \<Rightarrow> TurnInput \<Rightarrow> bool \<Rightarrow> bool \<Rightarrow> ValueRequestService \<Rightarrow> Master \<Rightarrow> (Command option \<times> Master) result option" where
  "scheduled codecs inp has_inference has_training s1 m2 =
     (case choose_next_operation has_inference has_training (ms_last_operation m2) of
       Some InferOp \<Rightarrow>
         (case take_batch (ti_clock inp) False (ti_others inp 1 s1) of
            Inl e \<Rightarrow> Some (Raise e)
          | Inr (phase, s2) \<Rightarrow>
              map_option (\<lambda>res. bindE res (\<lambda>(taken, s3).
                case infer_command taken (m2\<lparr> ms_service := s3 \<rparr>) of (cmd, m3) \<Rightarrow> Ok (Some cmd, m3)))
                (await_batch (ti_wakes inp) phase s2))
     | Some TrainOp \<Rightarrow> Some (bindE (train_command codecs inp m2) (\<lambda>(cmd, m3). Ok (Some cmd, m3)))
     | None \<Rightarrow> Some (Ok (if ti_heartbeat_due inp then Some IdleCmd else None, m2)))"

lemma decide_running:
  assumes "decide codecs inp rt m = Some (Ok r)" "\<not> ti_run_done inp"
  obtains m0 m1 has_inference s1 where "enter_serving rt m = Ok m0" "reserve codecs inp m0 = Ok m1"
    "has_queued (ti_now inp) (ti_others inp 0 (ms_service m1)) = Ok (has_inference, s1)"
    "scheduled codecs inp has_inference (ms_pending m1 \<noteq> None \<or> \<not> ms_serve_only m1 \<and> replay_can_sample m1) s1 (m1\<lparr> ms_service := s1 \<rparr>) =
       Some (Ok r)"
proof -
  obtain m1 where m1: "bindE (enter_serving rt m) (reserve codecs inp) = Ok m1"
    using assms by (cases "bindE (enter_serving rt m) (reserve codecs inp)") (auto simp: decide_def)
  then obtain m0 where m0: "enter_serving rt m = Ok m0" "reserve codecs inp m0 = Ok m1" by (auto simp: bindE_Inr_iff)
  obtain has_inference s1 where hq: "has_queued (ti_now inp) (ti_others inp 0 (ms_service m1)) = Ok (has_inference, s1)"
    using assms m1 by (cases "has_queued (ti_now inp) (ti_others inp 0 (ms_service m1))") (auto simp: decide_def)
  have p: "ms_pending (m1\<lparr> ms_service := s1 \<rparr>) = ms_pending m1" "ms_serve_only (m1\<lparr> ms_service := s1 \<rparr>) = ms_serve_only m1"
    "replay_can_sample (m1\<lparr> ms_service := s1 \<rparr>) = replay_can_sample m1" by (simp_all add: replay_can_sample_def)
  show thesis
    by (rule that[OF m0 hq])
      (use assms(1) in \<open>unfold decide_def scheduled_def, simp only: assms(2) m1 hq if_False sum.case prod.case Let_def p\<close>)
qed

lemma decide_inv:
  assumes "decide codecs inp rt m = Some (Ok (cmd, m'))" "master_inv rt m" "draws_ok inp"
  shows "master_inv rt m' \<and> ms_next_command_id m' = ms_next_command_id m \<and>
    (case cmd of
       Some (TrainCmd batch) \<Rightarrow> \<not> max_steps_reached rt \<and> ms_commanded m' = ms_commanded m @ [batch] \<and> ms_pending m' = None
     | Some StopCmd \<Rightarrow> ms_commanded m' = ms_commanded m \<and> ms_pending m' = None
     | _ \<Rightarrow> ms_commanded m' = ms_commanded m)"
proof (cases "ti_run_done inp")
  case True
  show ?thesis
  proof (cases "ms_pending m = None")
    case True
    then obtain s where "cmd = Some StopCmd" "m' = m\<lparr> ms_service := s \<rparr>"
      using assms(1) \<open>ti_run_done inp\<close> by (auto simp: decide_def bindE_Inr_iff)
    then show ?thesis using assms(2) True by simp
  next
    case False
    then obtain tc where tc: "train_command codecs inp m = Ok (tc, m')" "cmd = Some tc"
      using assms(1) \<open>ti_run_done inp\<close> by (auto simp: decide_def bindE_Inr_iff)
    have "\<not> max_steps_reached rt" using assms(2) False by (simp add: master_inv_def)
    moreover obtain batch where "tc = TrainCmd batch" "master_inv rt m'" "ms_commanded m' = ms_commanded m @ [batch]" "ms_pending m' = None"
      "ms_next_command_id m' = ms_next_command_id m" by (rule train_command_inv[OF tc(1) assms(2,3) \<open>\<not> max_steps_reached rt\<close>])
    ultimately show ?thesis using tc(2) by simp
  qed
next
  case False
  obtain m0 m1 has_inference s1 where m0: "enter_serving rt m = Ok m0" "reserve codecs inp m0 = Ok m1"
    and dec1: "scheduled codecs inp has_inference (ms_pending m1 \<noteq> None \<or> \<not> ms_serve_only m1 \<and> replay_can_sample m1) s1
      (m1\<lparr> ms_service := s1 \<rparr>) = Some (Ok (cmd, m'))"
    by (rule decide_running[OF assms(1) False])
  note i0 = enter_serving_inv[OF m0(1) assms(2)]
  have i1: "master_inv rt m1" "same_progress m m1" "\<not> ms_serve_only m1 \<longrightarrow> \<not> max_steps_reached rt"
    using reserve_inv[OF m0(2) _ assms(3)] i0 same_progress_trans by blast+
  define m2 where "m2 = m1\<lparr> ms_service := s1 \<rparr>"
  have i2: "master_inv rt m2" using i1(1) by (simp add: m2_def)
  have p2: "ms_next_command_id m2 = ms_next_command_id m" "ms_commanded m2 = ms_commanded m"
    using i1(2) by (simp_all add: m2_def same_progress_def)
  define ht where "ht \<longleftrightarrow> ms_pending m1 \<noteq> None \<or> \<not> ms_serve_only m1 \<and> replay_can_sample m1"
  note dec = dec1[folded m2_def ht_def, unfolded scheduled_def]
  consider (none) "choose_next_operation has_inference ht (ms_last_operation m2) = None"
    | (infer) "choose_next_operation has_inference ht (ms_last_operation m2) = Some InferOp"
    | (train) "choose_next_operation has_inference ht (ms_last_operation m2) = Some TrainOp"
    by (metis Operation.exhaust option.exhaust)
  then show ?thesis
  proof cases
    case none
    then have "cmd = (if ti_heartbeat_due inp then Some IdleCmd else None)" "m' = m2" using dec by simp_all
    then show ?thesis using i2 p2 by simp
  next
    case infer
    then obtain phase s2 where tb: "take_batch (ti_clock inp) False (ti_others inp 1 s1) = Ok (phase, s2)"
      using dec by (cases "take_batch (ti_clock inp) False (ti_others inp 1 s1)") auto
    then obtain taken s3 where "(case infer_command taken (m2\<lparr> ms_service := s3 \<rparr>) of (cmd, m3) \<Rightarrow> Ok (Some cmd, m3)) = Ok (cmd, m')"
      using dec infer by (auto simp: bindE_Inr_iff)
    then show ?thesis using i2 p2 by (auto simp: infer_command_def split: option.splits)
  next
    case train
    then obtain tc where tc: "train_command codecs inp m2 = Ok (tc, m')" "cmd = Some tc"
      using dec by (auto simp: bindE_Inr_iff)
    have "ht" using train by (auto simp: choose_next_operation_def split: if_splits)
    then have "\<not> max_steps_reached rt" using i2 i1(3) by (auto simp: ht_def master_inv_def m2_def)
    moreover obtain batch where "tc = TrainCmd batch" "master_inv rt m'" "ms_commanded m' = ms_commanded m2 @ [batch]" "ms_pending m' = None"
      "ms_next_command_id m' = ms_next_command_id m2" by (rule train_command_inv[OF tc(1) i2 assms(3) \<open>\<not> max_steps_reached rt\<close>])
    ultimately show ?thesis using tc(2) p2 by simp
  qed
qed

section \<open>The ranks agree\<close>

lemma finish_rank: "finish (r\<lparr> rt_rank := k \<rparr>) = (finish r)\<lparr> rt_rank := k \<rparr>"
  by (simp add: finish_def save_checkpoint_def)

lemma rank_execute_same:
  assumes "rank_execute cmd rt = Ok rt'" "rt_active rt = None" "\<forall>batch. cmd = TrainCmd batch \<longrightarrow> \<not> max_steps_reached rt"
    and "rank_execute cmd (rt\<lparr> rt_rank := k \<rparr>) = Ok rt2"
  shows "rt2 = rt'\<lparr> rt_rank := k \<rparr>"
proof (cases cmd)
  case (TrainCmd batch)
  have "max_steps_reached (rt\<lparr> rt_rank := k \<rparr>) = max_steps_reached rt" by (simp add: max_steps_reached_def split: option.split)
  then show ?thesis
    using train_batch_updates[of False batch rt rt'] train_batch_updates[of False batch "rt\<lparr> rt_rank := k \<rparr>" rt2] assms TrainCmd
    by (auto simp: rank_execute_def updated_rank)
qed (use assms in \<open>auto simp: rank_execute_def finish_rank\<close>)

lemma traverse_all: "traverse f xs = Ok ys \<Longrightarrow> y \<in> set ys \<Longrightarrow> \<exists>x \<in> set xs. f x = Ok y"
  by (induction xs arbitrary: ys) (auto simp: bindE_Inr_iff result_simps)

text \<open>A runtime that has been told to train on \<open>batches\<close>, starting from version \<open>v0\<close>.\<close>

definition runtime_inv :: "int \<Rightarrow> int option \<Rightarrow> int option option \<Rightarrow> ValueTrainingBatch list \<Rightarrow> ValueTrainerRuntime \<Rightarrow> bool" where
  "runtime_inv v0 mx ck batches rt \<longleftrightarrow>
     rt_active rt = None \<and> rt_trained rt = filter trainable batches \<and> rt_version rt = v0 + int (length (filter trainable batches)) \<and>
     (\<forall>n. mx = Some n \<longrightarrow> rt_version rt \<le> max n v0) \<and> rt_max_steps rt = mx \<and> rt_ckpt rt = ck \<and> checkpoints_ok rt"

definition trains :: "Command \<Rightarrow> ValueTrainingBatch list" where
  "trains cmd = (case cmd of TrainCmd batch \<Rightarrow> [batch] | _ \<Rightarrow> [])"

definition saved_at_end :: "ValueTrainerRuntime \<Rightarrow> bool" where
  "saved_at_end rt \<longleftrightarrow> rt_finished rt \<and> (rt_ckpt rt \<noteq> None \<and> 0 < rt_version rt \<longrightarrow> rt_last_checkpoint rt = Some (rt_version rt))"

lemma finish_fields [simp]:
  "rt_active (finish r) = rt_active r" "rt_trained (finish r) = rt_trained r" "rt_version (finish r) = rt_version r"
  "rt_max_steps (finish r) = rt_max_steps r" "rt_ckpt (finish r) = rt_ckpt r"
  by (simp_all add: finish_def save_checkpoint_def)

lemma finish_saved:
  assumes "checkpoints_ok r" "\<not> rt_finished r"
  shows "saved_at_end (finish r)" and "checkpoints_ok (finish r)"
proof -
  show "saved_at_end (finish r)" using assms(2) by (auto simp: saved_at_end_def finish_def save_checkpoint_def)
  show "checkpoints_ok (finish r)"
  proof (cases "rt_ckpt r \<noteq> None \<and> 0 < rt_version r")
    case True
    then show ?thesis using finish_saves_last(2) assms by blast
  next
    case False
    then show ?thesis using assms by (auto simp: finish_def checkpoints_ok_def)
  qed
qed

lemma rank_execute_inv:
  assumes "rank_execute cmd rt = Ok rt'" "runtime_inv v0 mx ck batches rt" "trains cmd \<noteq> [] \<longrightarrow> \<not> max_steps_reached rt" "\<not> rt_finished rt"
  shows "runtime_inv v0 mx ck (batches @ trains cmd) rt' \<and> (if cmd = StopCmd then saved_at_end rt' else \<not> rt_finished rt')"
proof (cases cmd)
  case (TrainCmd batch)
  have nm: "\<not> max_steps_reached rt" using assms(3) TrainCmd by (simp add: trains_def)
  have tb: "train_batch False batch rt = Ok rt'" using assms(1) TrainCmd by (simp add: rank_execute_def)
  have "rt_active rt = None" using assms(2) by (simp add: runtime_inv_def)
  note rt' = train_batch_updates[OF tb this nm]
  have ck: "checkpoints_ok rt'" using train_batch_checkpoints[OF tb] assms(2) by (simp add: runtime_inv_def)
  have "rt_version rt < n" if "mx = Some n" for n
    using nm assms(2) that by (simp add: max_steps_reached_def runtime_inv_def)
  then have "rt_version rt + 1 \<le> max n v0" if "mx = Some n" for n using that by fastforce
  then show ?thesis
    using rt' ck assms(2,4) TrainCmd by (cases "trainable batch") (auto simp: runtime_inv_def trains_def)
next
  case StopCmd
  then have "rt' = finish rt" using assms(1) by (simp add: rank_execute_def)
  then show ?thesis using assms(2,4) finish_saved[of rt] StopCmd by (auto simp: runtime_inv_def trains_def)
qed (use assms in \<open>simp_all add: rank_execute_def trains_def\<close>)

definition coordinator_inv :: "int \<Rightarrow> int option \<Rightarrow> int option option \<Rightarrow> Colocated \<Rightarrow> bool" where
  "coordinator_inv v0 mx ck c \<longleftrightarrow>
     master_inv (cs_runtime c) (cs_master c) \<and> runtime_inv v0 mx ck (ms_commanded (cs_master c)) (cs_runtime c) \<and>
     (if cs_stopped c then saved_at_end (cs_runtime c) \<and> ms_pending (cs_master c) = None else \<not> rt_finished (cs_runtime c)) \<and>
     (\<forall>f \<in> set (cs_followers c). fst f = ms_next_command_id (cs_master c) \<and> snd f = (cs_runtime c)\<lparr> rt_rank := rt_rank (snd f) \<rparr>)"

lemma master_execute_fields:
  assumes "master_execute inp cmd rt m = Ok (rt', m')"
  shows "rank_execute cmd rt = Ok rt' \<and> ms_commanded m' = ms_commanded m \<and> ms_pending m' = ms_pending m \<and>
    ms_next_command_id m' = ms_next_command_id m \<and> (\<forall>rt. master_inv rt m' = master_inv rt m)"
  using assms by (cases cmd) (auto simp: master_execute_def bindE_Inr_iff split: option.splits)

lemma follower_execute_same:
  assumes "follower_execute n cmd f = Ok f'" "snd f = rt\<lparr> rt_rank := rt_rank (snd f) \<rparr>" "rank_execute cmd rt = Ok rt'"
    "rt_active rt = None" "trains cmd \<noteq> [] \<longrightarrow> \<not> max_steps_reached rt"
  shows "fst f' = n + 1 \<and> snd f' = rt'\<lparr> rt_rank := rt_rank (snd f') \<rparr>"
proof -
  obtain i r where f: "f = (i, r)" by (cases f)
  then obtain r' where r': "rank_execute cmd r = Ok r'" "f' = (n + 1, r')"
    using assms(1) by (auto simp: follower_execute_def bindE_Inr_iff result_simps)
  have "r = rt\<lparr> rt_rank := rt_rank r \<rparr>" using assms(2) f by simp
  then have "rank_execute cmd (rt\<lparr> rt_rank := rt_rank r \<rparr>) = Ok r'" using r'(1) by simp
  from rank_execute_same[OF assms(3,4) _ this] have "r' = rt'\<lparr> rt_rank := rt_rank r \<rparr>"
    using assms(5) by (auto simp: trains_def)
  then show ?thesis using r'(2) by simp
qed

lemma master_inv_runtime: "master_inv rt m \<Longrightarrow> (ms_pending m \<noteq> None \<Longrightarrow> rt' = rt) \<Longrightarrow> master_inv rt' m"
  by (cases "ms_pending m = None") (simp_all add: master_inv_def)

lemma rank_execute_other: "rank_execute cmd rt = Ok rt' \<Longrightarrow> cmd \<noteq> StopCmd \<Longrightarrow> trains cmd = [] \<Longrightarrow> rt' = rt"
  by (cases cmd) (simp_all add: rank_execute_def trains_def)

lemma coordinator_inv_step:
  assumes "colocated_step codecs c c'" "coordinator_inv v0 mx ck c"
  shows "coordinator_inv v0 mx ck c'"
  using assms(1)
proof cases
  case (turn inp)
  let ?rt = "cs_runtime c"
  have inv: "master_inv ?rt (cs_master c)" "runtime_inv v0 mx ck (ms_commanded (cs_master c)) ?rt" "\<not> rt_finished ?rt"
    "\<forall>f \<in> set (cs_followers c). fst f = ms_next_command_id (cs_master c) \<and> snd f = ?rt\<lparr> rt_rank := rt_rank (snd f) \<rparr>"
    using assms(2) turn(1) by (simp_all add: coordinator_inv_def)
  obtain cmd m where dec: "decide codecs inp ?rt (cs_master c) = Some (Ok (cmd, m))"
    using turn(3) by (auto simp: colocated_turn_def bindE_Inr_iff)
  note d = decide_inv[OF dec inv(1) turn(2)]
  show ?thesis
  proof (cases cmd)
    case None
    then have "c' = c\<lparr> cs_master := m \<rparr>" using turn(3) dec by (simp add: colocated_turn_def)
    then show ?thesis using d None inv turn(1) by (simp add: coordinator_inv_def)
  next
    case (Some cd)
    define m1 where "m1 = m\<lparr> ms_next_command_id := ms_next_command_id m + 1 \<rparr>"
    obtain fs rt' m2 where ex: "traverse (follower_execute (ms_next_command_id m) cd) (cs_followers c) = Ok fs"
      "master_execute inp cd ?rt m1 = Ok (rt', m2)"
      "c' = c\<lparr> cs_master := m2, cs_runtime := rt', cs_followers := fs, cs_stopped := (cd = StopCmd) \<rparr>"
      using turn(3) dec Some by (auto simp: colocated_turn_def bindE_Inr_iff Let_def m1_def)
    note mf = master_execute_fields[OF ex(2)]
    have nm: "trains cd \<noteq> [] \<longrightarrow> \<not> max_steps_reached ?rt" using d Some by (auto simp: trains_def split: Command.splits)
    have cmds: "ms_commanded m2 = ms_commanded (cs_master c) @ trains cd"
      using d Some mf by (auto simp: trains_def m1_def split: Command.splits)
    note re = rank_execute_inv[OF conjunct1[OF mf] inv(2) nm inv(3), folded cmds]
    have pend: "cd = StopCmd \<or> trains cd \<noteq> [] \<longrightarrow> ms_pending m2 = None"
      using d Some mf by (auto simp: trains_def m1_def split: Command.splits)
    have "master_inv ?rt m1" using conjunct1[OF d] by (simp add: m1_def)
    then have "master_inv ?rt m2" using mf by (simp only: simp_thms)
    then have mi: "master_inv rt' m2"
      by (rule master_inv_runtime) (metis rank_execute_other[OF conjunct1[OF mf]] pend)
    have act: "rt_active ?rt = None" using inv(2) by (simp add: runtime_inv_def)
    have "fst f' = ms_next_command_id m + 1 \<and> snd f' = rt'\<lparr> rt_rank := rt_rank (snd f') \<rparr>" if f': "f' \<in> set fs" for f'
    proof -
      obtain f where f: "f \<in> set (cs_followers c)" "follower_execute (ms_next_command_id m) cd f = Ok f'"
        using traverse_all[OF ex(1) f'] by blast
      show ?thesis by (rule follower_execute_same[OF f(2) _ conjunct1[OF mf] act nm]) (use inv(4) f(1) in blast)
    qed
    then show ?thesis using re mi pend mf ex(3) by (simp add: coordinator_inv_def m1_def)
  qed
qed

lemma runtime_init_fields:
  "rt_rank (ValueTrainerRuntime_init sl w k p mx ck res ld) = k"
  "ValueTrainerRuntime_init sl w k p mx ck res ld = (ValueTrainerRuntime_init sl w j p mx ck res ld)\<lparr> rt_rank := k \<rparr>"
  by (simp_all add: ValueTrainerRuntime_init_def)

lemma coordinator_inv_init:
  assumes "ValueReplayBuffer_init bs cap refill mxu = Ok replay"
  shows "coordinator_inv (case res of None \<Rightarrow> 0 | Some v \<Rightarrow> v) mx ck
    (colocated_init service replay (ValueTrainerRuntime_init sl w 0 p mx ck res ld) (map (\<lambda>k. ValueTrainerRuntime_init sl w k p mx ck res ld) ks))"
proof -
  have "checkpoints_ok (ValueTrainerRuntime_init sl w 0 p mx ck res ld)"
    by (auto simp: checkpoints_ok_def ValueTrainerRuntime_init_def)
  then have "runtime_inv (case res of None \<Rightarrow> 0 | Some v \<Rightarrow> v) mx ck [] (ValueTrainerRuntime_init sl w 0 p mx ck res ld)"
    by (auto simp: runtime_inv_def ValueTrainerRuntime_init_def)
  then show ?thesis
    using init_inv[OF assms] runtime_init_fields
    by (auto simp: coordinator_inv_def colocated_init_def master_inv_def reserved_def ValueTrainerRuntime_init_def)
qed

lemma coordinator_inv_reachable: "(colocated_step codecs)\<^sup>*\<^sup>* c c' \<Longrightarrow> coordinator_inv v0 mx ck c \<Longrightarrow> coordinator_inv v0 mx ck c'"
  by (induction rule: rtranclp_induct) (auto dest: coordinator_inv_step)

section \<open>Properties\<close>

text \<open>C6: Whatever requests arrive and however turns interleave, the value training of a colocated run is
  the stream of batches drawn from the replay buffer: each is commanded once, in order, at most one being held back; every rank has
  run the optimizer exactly on the commanded batches with a trainable token, one version each, never past \<open>max_steps\<close>, and awaits
  the next command; when the loop stops no drawn batch is left untrained and the final version is on disk if checkpoints are on.\<close>

theorem coordinator_trains_each_batch_once:
  assumes "ValueReplayBuffer_init bs cap refill mxu = Ok replay"
    and "(colocated_step codecs)\<^sup>*\<^sup>* (colocated_init service replay (ValueTrainerRuntime_init sl w 0 p mx ck res ld)
      (map (\<lambda>k. ValueTrainerRuntime_init sl w k p mx ck res ld) ks)) c"
  shows "ms_sampled (cs_master c) = ms_commanded (cs_master c) @ reserved (cs_master c) \<and>
    (\<forall>r \<in> set (cs_runtime c # map snd (cs_followers c)).
       rt_trained r = filter trainable (ms_commanded (cs_master c)) \<and>
       rt_version r = (case res of None \<Rightarrow> 0 | Some v \<Rightarrow> v) + int (length (rt_trained r)) \<and>
       (\<forall>n. mx = Some n \<longrightarrow> rt_version r \<le> max n (case res of None \<Rightarrow> 0 | Some v \<Rightarrow> v)) \<and> sorted_wrt (<) (rt_saved r) \<and>
       (cs_stopped c \<longrightarrow> saved_at_end r)) \<and>
    (\<forall>f \<in> set (cs_followers c). fst f = ms_next_command_id (cs_master c)) \<and>
    (cs_stopped c \<longrightarrow> reserved (cs_master c) = [])"
proof -
  have inv: "coordinator_inv (case res of None \<Rightarrow> 0 | Some v \<Rightarrow> v) mx ck c"
    by (rule coordinator_inv_reachable[OF assms(2) coordinator_inv_init[OF assms(1)]])
  have rank: "\<exists>k. r = (cs_runtime c)\<lparr> rt_rank := k \<rparr>" if "r \<in> set (cs_runtime c # map snd (cs_followers c))" for r
  proof (cases "r = cs_runtime c")
    case True
    then have "r = (cs_runtime c)\<lparr> rt_rank := rt_rank (cs_runtime c) \<rparr>" by simp
    then show ?thesis ..
  next
    case False
    then have "r \<in> snd ` set (cs_followers c)" using that by auto
    then show ?thesis using inv by (fastforce simp: coordinator_inv_def)
  qed
  have main: "runtime_inv (case res of None \<Rightarrow> 0 | Some v \<Rightarrow> v) mx ck (ms_commanded (cs_master c)) (cs_runtime c)"
    "cs_stopped c \<longrightarrow> saved_at_end (cs_runtime c)" "cs_stopped c \<longrightarrow> reserved (cs_master c) = []"
    "ms_sampled (cs_master c) = ms_commanded (cs_master c) @ reserved (cs_master c)"
    "\<forall>f \<in> set (cs_followers c). fst f = ms_next_command_id (cs_master c)"
    using inv by (simp_all add: coordinator_inv_def master_inv_def reserved_def split: if_splits)
  have each: "rt_trained r = filter trainable (ms_commanded (cs_master c)) \<and>
       rt_version r = (case res of None \<Rightarrow> 0 | Some v \<Rightarrow> v) + int (length (rt_trained r)) \<and>
       (\<forall>n. mx = Some n \<longrightarrow> rt_version r \<le> max n (case res of None \<Rightarrow> 0 | Some v \<Rightarrow> v)) \<and> sorted_wrt (<) (rt_saved r) \<and>
       (cs_stopped c \<longrightarrow> saved_at_end r)" if r: "r \<in> set (cs_runtime c # map snd (cs_followers c))" for r
  proof -
    obtain k where k: "r = (cs_runtime c)\<lparr> rt_rank := k \<rparr>" using rank[OF r] by blast
    show ?thesis unfolding k using main(1,2) by (auto simp: runtime_inv_def checkpoints_ok_def saved_at_end_def)
  qed
  show ?thesis by (rule conjI[OF main(4) conjI[OF ballI[OF each] conjI[OF main(5) main(3)]]])
qed

lemma prepare_keeps:
  "enter_serving rt m = Ok m' \<Longrightarrow> ms_pending m' = ms_pending m \<and> ms_service m' = ms_service m \<and> ms_last_operation m' = ms_last_operation m"
  by (auto simp: enter_serving_def split: if_splits option.splits)

lemma reserve_keeps:
  assumes "reserve codecs inp m = Ok m'"
  shows "ms_service m' = ms_service m \<and> ms_last_operation m' = ms_last_operation m \<and> (ms_pending m \<noteq> None \<longrightarrow> ms_pending m' = ms_pending m)"
proof -
  have ad: "ms_service m1 = ms_service m \<and> ms_last_operation m1 = ms_last_operation m" if "admit codecs inp m = Ok m1" for m1
    using that by (auto simp: admit_def with_inputs_def bindE_Inr_iff split: option.splits)
  have sa: "ms_service m' = ms_service m1 \<and> ms_last_operation m' = ms_last_operation m1" if "sample_pending inp m1 = Ok m'" for m1
    using that by (auto simp: sample_pending_def with_inputs_def bindE_Inr_iff split: option.splits)
  from assms show ?thesis
  proof (cases rule: reserve_cases)
    case 2
    show ?thesis using ad[OF 2(1)] 2(2) by simp
  next
    case (3 m1)
    show ?thesis using ad[OF 3(1)] sa[OF 3(2)] 3(3) by simp
  qed simp
qed

section \<open>No side starves\<close>

text \<open>What a turn broadcasts, and whether it found an unexpired request in the queue.\<close>

definition turn_command :: "Codecs \<Rightarrow> TurnInput \<Rightarrow> Colocated \<Rightarrow> Command option" where
  "turn_command codecs inp c = (case decide codecs inp (cs_runtime c) (cs_master c) of Some (Inr (cmd, m)) \<Rightarrow> cmd | _ \<Rightarrow> None)"

definition requested :: "TurnInput \<Rightarrow> Colocated \<Rightarrow> bool" where
  "requested inp c \<longleftrightarrow> (case has_queued (ti_now inp) (ti_others inp 0 (ms_service (cs_master c))) of Inl e \<Rightarrow> False | Inr (b, s) \<Rightarrow> b)"

text \<open>The turn found a request, but by the time the batch was taken all of them had expired or been cancelled.\<close>

definition vanished :: "TurnInput \<Rightarrow> Colocated \<Rightarrow> bool" where
  "vanished inp c \<longleftrightarrow>
     (case has_queued (ti_now inp) (ti_others inp 0 (ms_service (cs_master c))) of
        Inl e \<Rightarrow> False
      | Inr (b, s1) \<Rightarrow> b \<and>
          (case take_batch (ti_clock inp) False (ti_others inp 1 s1) of
             Inl e \<Rightarrow> False
           | Inr (phase, s2) \<Rightarrow> (case await_batch (ti_wakes inp) phase s2 of Some (Inr (None, s3)) \<Rightarrow> True | _ \<Rightarrow> False)))"

text \<open>A batch is held back, or one can be drawn from the buffer.\<close>

definition training_ready :: "Colocated \<Rightarrow> bool" where
  "training_ready c \<longleftrightarrow> ms_pending (cs_master c) \<noteq> None \<or>
     \<not> ms_serve_only (cs_master c) \<and> \<not> max_steps_reached (cs_runtime c) \<and> replay_can_sample (cs_master c)"

definition held_back :: "Colocated \<Rightarrow> ValueTrainingBatch option" where
  "held_back c = map_option fst (ms_pending (cs_master c))"

text \<open>What a command leaves as the last operation.\<close>

fun operation_of :: "Command option \<Rightarrow> Operation option \<Rightarrow> Operation option" where
  "operation_of (Some (TrainCmd batch)) before = Some TrainOp"
| "operation_of (Some (InferCmd token_ids)) before = Some InferOp"
| "operation_of _ before = before"

text \<open>The preparations of a turn keep what training is ready for.\<close>

lemma preparations_ready:
  assumes m: "enter_serving (cs_runtime c) (cs_master c) = Ok m0" "reserve codecs inp m0 = Ok m1" and ready: "training_ready c"
  shows "ms_pending m1 \<noteq> None \<and> (ms_pending (cs_master c) \<noteq> None \<longrightarrow> ms_pending m1 = ms_pending (cs_master c)) \<or>
     m1 = cs_master c \<and> \<not> ms_serve_only m1 \<and> replay_can_sample m1"
proof (cases "ms_pending (cs_master c) = None")
  case False
  then show ?thesis using prepare_keeps[OF m(1)] reserve_keeps[OF m(2)] by simp
next
  case True
  then have r: "\<not> ms_serve_only (cs_master c)" "\<not> max_steps_reached (cs_runtime c)" "replay_can_sample (cs_master c)"
    using ready by (simp_all add: training_ready_def)
  then have m0: "m0 = cs_master c" using m(1) by (simp add: enter_serving_def)
  then have "m1 = cs_master c"
    using m(2) r(1,3) True by (auto simp: reserve_def with_inputs_def replay_can_sample_def split: option.splits)
  then show ?thesis using r by simp
qed

lemma master_execute_keeps:
  assumes "master_execute inp cmd rt m = Ok (rt', m')"
  shows "ms_pending m' = ms_pending m \<and> ms_serve_only m' = ms_serve_only m \<and> ms_replay m' = ms_replay m \<and>
    ms_last_operation m' = operation_of (Some cmd) (ms_last_operation m) \<and> ((\<forall>batch. cmd \<noteq> TrainCmd batch) \<and> cmd \<noteq> StopCmd \<longrightarrow> rt' = rt)"
  using assms by (cases cmd) (auto simp: master_execute_def rank_execute_def bindE_Inr_iff split: option.splits)

lemma turn_executes:
  assumes "colocated_turn codecs inp c = Some (Ok c')"
  obtains cmd m where "decide codecs inp (cs_runtime c) (cs_master c) = Some (Ok (cmd, m))" "turn_command codecs inp c = cmd"
    "ms_pending (cs_master c') = ms_pending m" "ms_serve_only (cs_master c') = ms_serve_only m" "ms_replay (cs_master c') = ms_replay m"
    "ms_last_operation (cs_master c') = operation_of cmd (ms_last_operation m)"
    "(\<forall>batch. cmd \<noteq> Some (TrainCmd batch)) \<and> cmd \<noteq> Some StopCmd \<longrightarrow> cs_runtime c' = cs_runtime c"
proof -
  obtain cmd m where dec: "decide codecs inp (cs_runtime c) (cs_master c) = Some (Ok (cmd, m))"
    using assms by (auto simp: colocated_turn_def bindE_Inr_iff)
  have tc: "turn_command codecs inp c = cmd" by (simp add: turn_command_def dec)
  show thesis
  proof (cases cmd)
    case None
    then have "c' = c\<lparr> cs_master := m \<rparr>" using assms dec by (simp add: colocated_turn_def)
    then show thesis using that[OF dec tc] None by simp
  next
    case (Some cd)
    obtain fs rt' m2 where ex: "master_execute inp cd (cs_runtime c) (m\<lparr> ms_next_command_id := ms_next_command_id m + 1 \<rparr>) = Ok (rt', m2)"
      "c' = c\<lparr> cs_master := m2, cs_runtime := rt', cs_followers := fs, cs_stopped := (cd = StopCmd) \<rparr>"
      using assms dec Some by (auto simp: colocated_turn_def bindE_Inr_iff Let_def)
    show thesis using that[OF dec tc] master_execute_keeps[OF ex(1)] ex(2) Some by simp
  qed
qed

text \<open>The command of a turn before the run is over, by what waits.\<close>

lemma turn_decides:
  assumes turn: "colocated_turn codecs inp c = Some (Ok c')" and run: "\<not> ti_run_done inp"
  shows "\<exists>T. (training_ready c \<longrightarrow> T) \<and>
    (case choose_next_operation (requested inp c) T (ms_last_operation (cs_master c)) of
       Some InferOp \<Rightarrow> (\<exists>ids. turn_command codecs inp c = Some (InferCmd ids)) \<or> turn_command codecs inp c = Some IdleCmd \<and> vanished inp c
     | Some TrainOp \<Rightarrow> (\<exists>batch. turn_command codecs inp c = Some (TrainCmd batch) \<and> (\<forall>b. held_back c = Some b \<longrightarrow> batch = b))
     | None \<Rightarrow> turn_command codecs inp c = (if ti_heartbeat_due inp then Some IdleCmd else None)) \<and>
    ms_last_operation (cs_master c') = operation_of (turn_command codecs inp c) (ms_last_operation (cs_master c)) \<and>
    (training_ready c \<longrightarrow> (\<forall>batch. turn_command codecs inp c \<noteq> Some (TrainCmd batch)) \<longrightarrow>
       training_ready c' \<and> (\<forall>b. held_back c = Some b \<longrightarrow> held_back c' = Some b))"
proof -
  obtain cmd m where t: "decide codecs inp (cs_runtime c) (cs_master c) = Some (Ok (cmd, m))" "turn_command codecs inp c = cmd"
    "ms_pending (cs_master c') = ms_pending m" "ms_serve_only (cs_master c') = ms_serve_only m" "ms_replay (cs_master c') = ms_replay m"
    "ms_last_operation (cs_master c') = operation_of cmd (ms_last_operation m)"
    "(\<forall>batch. cmd \<noteq> Some (TrainCmd batch)) \<and> cmd \<noteq> Some StopCmd \<longrightarrow> cs_runtime c' = cs_runtime c"
    by (rule turn_executes[OF turn])
  obtain m0 m1 q s1 where m: "enter_serving (cs_runtime c) (cs_master c) = Ok m0" "reserve codecs inp m0 = Ok m1"
    and hq: "has_queued (ti_now inp) (ti_others inp 0 (ms_service m1)) = Ok (q, s1)"
    and dec: "scheduled codecs inp q (ms_pending m1 \<noteq> None \<or> \<not> ms_serve_only m1 \<and> replay_can_sample m1) s1 (m1\<lparr> ms_service := s1 \<rparr>) =
      Some (Ok (cmd, m))"
    by (rule decide_running[OF t(1) run])
  define T where "T \<longleftrightarrow> ms_pending m1 \<noteq> None \<or> \<not> ms_serve_only m1 \<and> replay_can_sample m1"
  note keeps = prepare_keeps[OF m(1)] reserve_keeps[OF m(2)]
  have hq': "has_queued (ti_now inp) (ti_others inp 0 (ms_service (cs_master c))) = Ok (q, s1)" using hq keeps by simp
  have req: "requested inp c = q" by (simp add: requested_def hq')
  have last: "ms_last_operation m1 = ms_last_operation (cs_master c)" using keeps by simp
  have ready: "training_ready c \<Longrightarrow> T" using preparations_ready[OF m] by (auto simp: T_def)
  have hb: "held_back c = Some b \<Longrightarrow> map_option fst (ms_pending m1) = Some b" for b
    using keeps by (cases "ms_pending (cs_master c)") (simp_all add: held_back_def)
  define op where "op = choose_next_operation q T (ms_last_operation (cs_master c))"
  have main: "(case op of
       Some InferOp \<Rightarrow> ((\<exists>ids. cmd = Some (InferCmd ids)) \<or> cmd = Some IdleCmd \<and> vanished inp c) \<and>
         ms_pending m = ms_pending m1 \<and> ms_serve_only m = ms_serve_only m1 \<and> ms_replay m = ms_replay m1 \<and> ms_last_operation m = ms_last_operation m1
     | Some TrainOp \<Rightarrow> (\<exists>batch. cmd = Some (TrainCmd batch) \<and> (\<forall>b. map_option fst (ms_pending m1) = Some b \<longrightarrow> batch = b)) \<and>
         ms_last_operation m = ms_last_operation m1
     | None \<Rightarrow> cmd = (if ti_heartbeat_due inp then Some IdleCmd else None) \<and> m = m1\<lparr> ms_service := s1 \<rparr>)"
  proof (cases op)
    case None
    then show ?thesis using dec by (simp add: scheduled_def op_def T_def last)
  next
    case (Some o')
    show ?thesis
    proof (cases o')
      case InferOp
      have q: "q" using Some InferOp by (auto simp: op_def choose_next_operation_def split: if_splits)
      obtain phase s2 where tb: "take_batch (ti_clock inp) False (ti_others inp 1 s1) = Ok (phase, s2)"
        using dec Some InferOp by (cases "take_batch (ti_clock inp) False (ti_others inp 1 s1)") (auto simp: scheduled_def op_def T_def last)
      obtain res where z: "await_batch (ti_wakes inp) phase s2 = Some res"
        "bindE res (\<lambda>(taken, s3). case infer_command taken (m1\<lparr> ms_service := s3 \<rparr>) of (cd, m3) \<Rightarrow> Ok (Some cd, m3)) = Ok (cmd, m)"
        using dec Some InferOp tb by (auto simp: scheduled_def op_def T_def last)
      obtain taken s3 where aw: "await_batch (ti_wakes inp) phase s2 = Some (Ok (taken, s3))"
        and ic: "(case infer_command taken (m1\<lparr> ms_service := s3 \<rparr>) of (cd, m3) \<Rightarrow> Ok (Some cd, m3)) = (Ok (cmd, m) :: (Command option \<times> Master) result)"
      proof (cases res)
        case (Inr x)
        then show thesis using that z by (cases x) simp
      qed (use z(2) in simp)
      have "taken = None \<Longrightarrow> vanished inp c" by (simp add: vanished_def hq' q tb[unfolded One_nat_def] aw)
      then show ?thesis using ic Some InferOp by (cases taken) (auto simp: infer_command_def)
    next
      case TrainOp
      obtain cd where tr: "train_command codecs inp (m1\<lparr> ms_service := s1 \<rparr>) = Ok (cd, m)" "cmd = Some cd"
        using dec Some TrainOp by (auto simp: scheduled_def op_def T_def last bindE_Inr_iff)
      have "(\<exists>batch. cmd = Some (TrainCmd batch) \<and> (\<forall>b. map_option fst (ms_pending m1) = Some b \<longrightarrow> batch = b)) \<and> ms_last_operation m = ms_last_operation m1"
      proof (cases "ms_pending m1")
        case None
        obtain ma mb where s: "admit codecs inp (m1\<lparr> ms_service := s1 \<rparr>) = Ok ma" "sample_pending inp ma = Ok mb"
          and r: "(case ms_pending mb of None \<Rightarrow> Raise (AssertionError ''pending_batch is not None'')
            | Some (batch, snapshot) \<Rightarrow> Ok (TrainCmd batch, mb\<lparr> ms_pending := None, ms_commanded := ms_commanded mb @ [batch] \<rparr>)) = Ok (cd, m)"
          using tr(1) None by (auto simp: train_command_def with_inputs_def bindE_Inr_iff result_simps split: option.splits)
        have "ms_last_operation mb = ms_last_operation m1"
          using admit_progress[OF s(1)] sample_pending_progress[OF s(2)] by (simp add: same_progress_def)
        then show ?thesis using r tr(2) None by (auto split: option.splits)
      next
        case (Some pend)
        then show ?thesis using tr by (cases pend) (auto simp: train_command_def)
      qed
      then show ?thesis using Some TrainOp by simp
    qed
  qed
  have c1: "case op of
       Some InferOp \<Rightarrow> (\<exists>ids. cmd = Some (InferCmd ids)) \<or> cmd = Some IdleCmd \<and> vanished inp c
     | Some TrainOp \<Rightarrow> (\<exists>batch. cmd = Some (TrainCmd batch) \<and> (\<forall>b. held_back c = Some b \<longrightarrow> batch = b))
     | None \<Rightarrow> cmd = (if ti_heartbeat_due inp then Some IdleCmd else None)"
    using main hb by (cases op) (auto split: Operation.splits)
  have c2: "ms_last_operation m = ms_last_operation m1" using main by (auto split: option.splits Operation.splits)
  have c3: "training_ready c' \<and> (\<forall>b. held_back c = Some b \<longrightarrow> held_back c' = Some b)"
    if rd: "training_ready c" and nt: "\<forall>batch. cmd \<noteq> Some (TrainCmd batch)"
  proof -
    have f: "ms_pending m = ms_pending m1 \<and> ms_serve_only m = ms_serve_only m1 \<and> ms_replay m = ms_replay m1 \<and> cmd \<noteq> Some StopCmd"
      using main nt by (auto split: option.splits Operation.splits)
    then have rt: "cs_runtime c' = cs_runtime c" using t(7) nt by blast
    have "training_ready c'"
      using preparations_ready[OF m rd] f rd t(3-5) unfolding training_ready_def rt by (auto simp: replay_can_sample_def)
    moreover have "held_back c' = map_option fst (ms_pending m1)" using f t(3) by (simp add: held_back_def)
    ultimately show ?thesis using hb by simp
  qed
  show ?thesis
    unfolding t(2) req
    using ready c1 c2 c3 t(6) last by (intro exI[of _ T] conjI) (simp_all add: op_def)
qed

text \<open>A command that follows the choice between the two sides, and what two such commands in a row come to.\<close>

definition follows_choice :: "bool \<Rightarrow> bool \<Rightarrow> Operation option \<Rightarrow> bool \<Rightarrow> ValueTrainingBatch option \<Rightarrow> Command option \<Rightarrow> bool" where
  "follows_choice has_inference has_training last_operation gone held cmd \<longleftrightarrow>
     (case choose_next_operation has_inference has_training last_operation of
        Some InferOp \<Rightarrow> (\<exists>ids. cmd = Some (InferCmd ids)) \<or> cmd = Some IdleCmd \<and> gone
      | Some TrainOp \<Rightarrow> (\<exists>batch. cmd = Some (TrainCmd batch) \<and> (\<forall>b. held = Some b \<longrightarrow> batch = b))
      | None \<Rightarrow> cmd = None \<or> cmd = Some IdleCmd)"

lemma turn_follows:
  assumes "colocated_turn codecs inp c = Some (Ok c')" and "\<not> ti_run_done inp"
  shows "\<exists>T. (training_ready c \<longrightarrow> T) \<and>
    follows_choice (requested inp c) T (ms_last_operation (cs_master c)) (vanished inp c) (held_back c) (turn_command codecs inp c) \<and>
    ms_last_operation (cs_master c') = operation_of (turn_command codecs inp c) (ms_last_operation (cs_master c)) \<and>
    (training_ready c \<longrightarrow> (\<forall>batch. turn_command codecs inp c \<noteq> Some (TrainCmd batch)) \<longrightarrow>
       training_ready c' \<and> (\<forall>b. held_back c = Some b \<longrightarrow> held_back c' = Some b))"
proof -
  obtain T where T: "training_ready c \<longrightarrow> T"
    "case choose_next_operation (requested inp c) T (ms_last_operation (cs_master c)) of
       Some InferOp \<Rightarrow> (\<exists>ids. turn_command codecs inp c = Some (InferCmd ids)) \<or> turn_command codecs inp c = Some IdleCmd \<and> vanished inp c
     | Some TrainOp \<Rightarrow> (\<exists>batch. turn_command codecs inp c = Some (TrainCmd batch) \<and> (\<forall>b. held_back c = Some b \<longrightarrow> batch = b))
     | None \<Rightarrow> turn_command codecs inp c = (if ti_heartbeat_due inp then Some IdleCmd else None)"
    "ms_last_operation (cs_master c') = operation_of (turn_command codecs inp c) (ms_last_operation (cs_master c))"
    "training_ready c \<longrightarrow> (\<forall>batch. turn_command codecs inp c \<noteq> Some (TrainCmd batch)) \<longrightarrow>
       training_ready c' \<and> (\<forall>b. held_back c = Some b \<longrightarrow> held_back c' = Some b)"
    using turn_decides[OF assms] by (elim exE conjE) (rule that)
  have "follows_choice (requested inp c) T (ms_last_operation (cs_master c)) (vanished inp c) (held_back c) (turn_command codecs inp c)"
    unfolding follows_choice_def using T(2) by (auto split: option.splits Operation.splits if_splits)
  then show ?thesis using T by (intro exI[of _ T] conjI)
qed

lemma train_within_two:
  assumes a: "follows_choice i1 True op0 g1 h1 c1" and b: "follows_choice i2 T (operation_of c1 op0) g2 h2 c2"
    and keep: "(\<forall>batch. c1 \<noteq> Some (TrainCmd batch)) \<longrightarrow> T \<and> (\<forall>b. h1 = Some b \<longrightarrow> h2 = Some b)"
  shows "(\<exists>batch. Some (TrainCmd batch) \<in> {c1, c2} \<and> (\<forall>b. h1 = Some b \<longrightarrow> batch = b)) \<or> c1 = Some IdleCmd \<and> g1 \<or> c2 = Some IdleCmd \<and> g2"
proof (cases "\<exists>ids. c1 = Some (InferCmd ids)")
  case True
  then have l: "operation_of c1 op0 = Some InferOp" T "\<forall>b. h1 = Some b \<longrightarrow> h2 = Some b" using keep by auto
  then have "choose_next_operation i2 T (operation_of c1 op0) = Some TrainOp" by (simp add: choose_next_operation_def)
  then have "\<exists>batch. c2 = Some (TrainCmd batch) \<and> (\<forall>b. h2 = Some b \<longrightarrow> batch = b)"
    using b by (simp add: follows_choice_def)
  then obtain batch where "Some (TrainCmd batch) \<in> {c1, c2} \<and> (\<forall>b. h1 = Some b \<longrightarrow> batch = b)" using l(3) by auto
  then show ?thesis by (intro disjI1 exI)
next
  case False
  have "choose_next_operation i1 True op0 \<noteq> None" by (simp add: choose_next_operation_def)
  then show ?thesis using a False by (auto simp: follows_choice_def split: option.splits Operation.splits)
qed

lemma infer_within_two:
  assumes a: "follows_choice True T1 op0 g1 h1 c1" and b: "follows_choice True T2 (operation_of c1 op0) g2 h2 c2"
  shows "(\<exists>ids. Some (InferCmd ids) \<in> {c1, c2}) \<or> c1 = Some IdleCmd \<and> g1 \<or> c2 = Some IdleCmd \<and> g2"
proof (cases "choose_next_operation True T1 op0 = Some TrainOp")
  case True
  then have "operation_of c1 op0 = Some TrainOp" using a by (auto simp: follows_choice_def)
  then have "choose_next_operation True T2 (operation_of c1 op0) = Some InferOp" by (simp add: choose_next_operation_def)
  then show ?thesis using b by (auto simp: follows_choice_def)
next
  case False
  then have "choose_next_operation True T1 op0 = Some InferOp" by (auto simp: choose_next_operation_def split: if_splits)
  then show ?thesis using a by (auto simp: follows_choice_def)
qed

text \<open>C26: Neither side of the live model starves. Of two consecutive turns of a run, if training is ready (a batch is held back, or
  the buffer can be sampled), one trains, and it trains the batch held back; and if both turns find an unexpired request in the queue,
  one infers. The one exception on either side is a turn whose queued requests are all gone when it takes its batch: it broadcasts an
  idle command in place of an inference. A turn is idle or broadcasts nothing only then, or when no request is queued and training is
  not ready; none stops the ranks.\<close>

theorem coordinator_alternates:
  assumes "colocated_turn codecs inp1 c = Some (Ok c1)" and "colocated_turn codecs inp2 c1 = Some (Ok c2)"
    and "\<not> ti_run_done inp1" and "\<not> ti_run_done inp2"
  shows "(training_ready c \<longrightarrow>
       (\<exists>batch. Some (TrainCmd batch) \<in> {turn_command codecs inp1 c, turn_command codecs inp2 c1} \<and>
          (\<forall>b. held_back c = Some b \<longrightarrow> batch = b)) \<or>
       turn_command codecs inp1 c = Some IdleCmd \<and> vanished inp1 c \<or> turn_command codecs inp2 c1 = Some IdleCmd \<and> vanished inp2 c1) \<and>
    (requested inp1 c \<and> requested inp2 c1 \<longrightarrow>
       (\<exists>ids. Some (InferCmd ids) \<in> {turn_command codecs inp1 c, turn_command codecs inp2 c1}) \<or>
       turn_command codecs inp1 c = Some IdleCmd \<and> vanished inp1 c \<or> turn_command codecs inp2 c1 = Some IdleCmd \<and> vanished inp2 c1) \<and>
    (turn_command codecs inp1 c \<in> {None, Some IdleCmd} \<longrightarrow> vanished inp1 c \<or> \<not> requested inp1 c \<and> \<not> training_ready c) \<and>
    turn_command codecs inp1 c \<noteq> Some StopCmd"
proof -
  let ?c1 = "turn_command codecs inp1 c" and ?c2 = "turn_command codecs inp2 c1" and ?last = "ms_last_operation (cs_master c)"
  obtain T1 where a: "training_ready c \<longrightarrow> T1" "follows_choice (requested inp1 c) T1 ?last (vanished inp1 c) (held_back c) ?c1"
    "ms_last_operation (cs_master c1) = operation_of ?c1 ?last"
    "training_ready c \<longrightarrow> (\<forall>batch. ?c1 \<noteq> Some (TrainCmd batch)) \<longrightarrow> training_ready c1 \<and> (\<forall>b. held_back c = Some b \<longrightarrow> held_back c1 = Some b)"
    using turn_follows[OF assms(1,3)] by (elim exE conjE) (rule that)
  obtain T2 where b: "training_ready c1 \<longrightarrow> T2"
    "follows_choice (requested inp2 c1) T2 (ms_last_operation (cs_master c1)) (vanished inp2 c1) (held_back c1) ?c2"
    using turn_follows[OF assms(2,4)] by (elim exE conjE) (rule that)
  show ?thesis
  proof (intro conjI impI)
    assume rd: "training_ready c"
    then have "follows_choice (requested inp1 c) True ?last (vanished inp1 c) (held_back c) ?c1" using a(1,2) by simp
    then show "(\<exists>batch. Some (TrainCmd batch) \<in> {?c1, ?c2} \<and> (\<forall>b. held_back c = Some b \<longrightarrow> batch = b)) \<or>
        ?c1 = Some IdleCmd \<and> vanished inp1 c \<or> ?c2 = Some IdleCmd \<and> vanished inp2 c1"
      by (rule train_within_two[OF _ b(2)[unfolded a(3)]]) (use rd a(4) b(1) in blast)
  next
    assume "requested inp1 c \<and> requested inp2 c1"
    then have "follows_choice True T1 ?last (vanished inp1 c) (held_back c) ?c1"
        "follows_choice True T2 (operation_of ?c1 ?last) (vanished inp2 c1) (held_back c1) ?c2" using a(2,3) b(2) by simp_all
    then show "(\<exists>ids. Some (InferCmd ids) \<in> {?c1, ?c2}) \<or> ?c1 = Some IdleCmd \<and> vanished inp1 c \<or> ?c2 = Some IdleCmd \<and> vanished inp2 c1"
      by (rule infer_within_two)
  next
    assume "?c1 \<in> {None, Some IdleCmd}"
    then show "vanished inp1 c \<or> \<not> requested inp1 c \<and> \<not> training_ready c"
      using a(1,2) by (auto simp: follows_choice_def choose_next_operation_def split: if_splits)
  next
    show "?c1 \<noteq> Some StopCmd" using a(2) by (auto simp: follows_choice_def split: option.splits Operation.splits)
  qed
qed

definition demo_codecs :: Codecs where
  "demo_codecs = (\<lambda>_. Ok \<lparr> rp_request_id = 0, rp_count = 1 \<rparr>, \<lambda>_. Ok demo_rollout)"

text \<open>A turn with an idle service and one rollout on the socket, which fills a buffer for batches of one.\<close>

definition demo_turn :: TurnInput where
  "demo_turn = \<lparr> ti_run_done = False, ti_others = \<lambda>_ s. s, ti_now = 0, ti_clock = \<lambda>_. 0, ti_wakes = [],
     ti_socket = \<lparr> ze_pollout = True, ze_send_ok = True, ze_pollin = True, ze_frames = Some [[], []] \<rparr>,
     ti_draw = \<lambda>b. take (nat (rb_batch_size b)) (od_keys (rb_entries b)), ti_heartbeat_due = False, ti_values = \<lambda>_. Ok [] \<rparr>"

definition demo_start :: Colocated where
  "demo_start = colocated_init demo_service_0 demo_b0 (ValueTrainerRuntime_init 8 2 0 True (Some 1) (Some None) None (0, 0))
     (map (\<lambda>k. ValueTrainerRuntime_init 8 2 k True (Some 1) (Some None) None (0, 0)) [1])"

lemma demo_draws_ok: "draws_ok demo_turn"
proof -
  have "int (length (take (nat (rb_batch_size b)) (od_keys (rb_entries b)))) = rb_batch_size b" if "replay_inv b" "can_sample b" for b
    using that by (auto simp: can_sample_def rb_len_def replay_inv_def replay_shape_def min_def)
  moreover have "distinct (take (nat (rb_batch_size b)) (od_keys (rb_entries b)))" if "replay_inv b" for b
    using that by (simp add: replay_inv_def replay_shape_def strict_sorted_iff distinct_take)
  ultimately show ?thesis by (auto simp: draws_ok_def demo_turn_def valid_draw_def dest: in_set_takeD)
qed

definition demo_receiver :: Receiver where
  "demo_receiver = \<lparr> rv_next_request_id = 1, rv_pending = None, rv_buffered = [] \<rparr>"

definition demo_train_batch :: ValueTrainingBatch where
  "demo_train_batch = make_batch [\<lparr> re_rollout = demo_rollout, re_attempts = 1 \<rparr>]"

definition demo_prepared :: Master where
  "demo_prepared = (cs_master demo_start)\<lparr> ms_receiver := Some demo_receiver, ms_replay := Some demo_b2,
     ms_pending := Some (demo_train_batch, ValueReplayBuffer_snapshot demo_b2), ms_sampled := [demo_train_batch] \<rparr>"

lemma demo_master:
  "ms_receiver (cs_master demo_start) = Some Receiver_init" "ms_replay (cs_master demo_start) = Some demo_b0"
  "ms_pending (cs_master demo_start) = None" "\<not> ms_serve_only (cs_master demo_start)" "ms_service (cs_master demo_start) = demo_service_0"
  "ms_sampled (cs_master demo_start) = []" "ms_commanded (cs_master demo_start) = []" "\<not> max_steps_reached (cs_runtime demo_start)"
  "ms_last_operation (cs_master demo_start) = None"
  by (simp_all add: demo_start_def colocated_init_def max_steps_reached_def ValueTrainerRuntime_init_def)

lemma demo_receive: "receive_available (fst demo_codecs) (snd demo_codecs) (admission_limit demo_b0) (ti_socket demo_turn) Receiver_init =
    (Ok [demo_rollout], demo_receiver, Some \<lparr> rq_request_id = 0, rq_limit = 1 \<rparr>, True)"
  by (simp add: receive_available_def accept_response_def take_buffered_def demo_codecs_def demo_turn_def Receiver_init_def admission_limit_def
      can_sample_def demo_b0_def rb_len_def demo_receiver_def Let_def)

lemma demo_admit: "admit demo_codecs demo_turn (cs_master demo_start) =
    Ok ((cs_master demo_start)\<lparr> ms_receiver := Some demo_receiver, ms_replay := Some demo_b1 \<rparr>)"
  by (simp add: admit_def with_inputs_def demo_master admit_available_rollouts_def demo_receive demo_add)

lemma demo_reserve: "reserve demo_codecs demo_turn (cs_master demo_start) = Ok demo_prepared"
proof -
  have c: "\<not> can_sample demo_b0" "can_sample demo_b1" "ti_draw demo_turn demo_b1 = [0]"
    by (simp_all add: can_sample_def demo_defs rb_len_def demo_turn_def)
  show ?thesis
    by (simp add: reserve_def with_inputs_def demo_master demo_admit c replay_can_sample_def sample_pending_def demo_sample
        demo_prepared_def demo_train_batch_def)
qed

lemma demo_decide:
  "decide demo_codecs demo_turn (cs_runtime demo_start) (cs_master demo_start) =
     Some (Ok (Some (TrainCmd demo_train_batch), demo_prepared\<lparr> ms_pending := None, ms_commanded := [demo_train_batch] \<rparr>))"
proof -
  have hq: "has_queued (ti_now demo_turn) (ti_others demo_turn 0 demo_service_0) = Ok (False, demo_service_0)"
    by (simp add: has_queued_def expire_head_def demo_turn_def demo_service_0_def ValueRequestService_init_def)
  have p: "ms_service demo_prepared = demo_service_0" "ms_last_operation demo_prepared = None"
    "ms_pending demo_prepared = Some (demo_train_batch, ValueReplayBuffer_snapshot demo_b2)" "ms_commanded demo_prepared = []"
    by (simp_all add: demo_prepared_def demo_master)
  have tc: "train_command demo_codecs demo_turn (demo_prepared\<lparr> ms_service := demo_service_0 \<rparr>) =
      Ok (TrainCmd demo_train_batch, demo_prepared\<lparr> ms_service := demo_service_0, ms_pending := None, ms_commanded := [demo_train_batch] \<rparr>)"
    by (simp add: train_command_def p)
  have same: "demo_prepared\<lparr> ms_service := demo_service_0 \<rparr> = demo_prepared" using p(1) by simp
  have "\<not> ti_run_done demo_turn" by (simp add: demo_turn_def)
  then show ?thesis
    using tc unfolding same by (simp add: decide_def enter_serving_def demo_master demo_reserve hq p same choose_next_operation_def)
qed

lemma demo_train_samples: "vtb_samples demo_train_batch = vtr_samples demo_rollout"
  by (simp add: demo_train_batch_def make_batch_def Let_def)

lemma demo_train:
  assumes "k < 2"
  shows "\<exists>r. rank_execute (TrainCmd demo_train_batch) (ValueTrainerRuntime_init 8 2 k True (Some 1) (Some None) None (0, 0)) = Ok r"
proof -
  let ?r = "ValueTrainerRuntime_init 8 2 k True (Some 1) (Some None) None (0, 0)"
  obtain grid where grid: "pack_value_samples (vtb_samples demo_train_batch) 8 2 0 True = Ok grid"
    by (simp add: demo_train_samples demo_rollout_def pack_value_samples_def pack_indices_def raise_if_def sample_aligned_def
        decreasing_order_def upt_rec pad_bins.simps numeral_2_eq_2)
  have tr: "batch_tokens demo_train_batch = 1" by (simp add: batch_tokens_def demo_train_samples demo_rollout_def)
  have nth: "nth_chk grid k = Ok (grid ! k)" using pack_exact[OF grid] assms by (simp add: nth_chk_def)
  let ?p = "\<lparr> pr_batch = demo_train_batch, pr_micro_batches = grid ! k, pr_scale = batch_tokens demo_train_batch \<rparr>"
  have prep: "prepare_batch demo_train_batch ?r = Ok (True, ?r\<lparr> rt_active := Some ?p \<rparr>)"
    by (simp add: prepare_batch_def raise_if_def ValueTrainerRuntime_init_def grid nth pack_scale[OF grid] tr)
  have can: "can_step (?r\<lparr> rt_active := Some ?p \<rparr>)" by (simp add: can_step_def max_steps_reached_def ValueTrainerRuntime_init_def)
  show ?thesis using prep can runtime_step_recorded[OF can, of False] by (simp add: rank_execute_def train_batch_def)
qed

lemma demo_turn_runs:
  "\<exists>c. colocated_turn demo_codecs demo_turn demo_start = Some (Ok c) \<and> ms_commanded (cs_master c) = [demo_train_batch]"
proof -
  obtain r0 where r0: "rank_execute (TrainCmd demo_train_batch) (cs_runtime demo_start) = Ok r0"
    using demo_train[of 0] by (auto simp: demo_start_def colocated_init_def)
  obtain r1 where r1: "rank_execute (TrainCmd demo_train_batch) (ValueTrainerRuntime_init 8 2 1 True (Some 1) (Some None) None (0, 0)) = Ok r1"
    using demo_train[of 1] by auto
  have f: "cs_followers demo_start = [(0, ValueTrainerRuntime_init 8 2 1 True (Some 1) (Some None) None (0, 0))]"
    by (simp add: demo_start_def colocated_init_def)
  have n: "ms_next_command_id demo_prepared = 0" by (simp add: demo_prepared_def demo_start_def colocated_init_def)
  show ?thesis
    using r1 by (simp add: colocated_turn_def demo_decide f n follower_execute_def raise_if_def master_execute_def r0)
qed

theorem coordinator_trains_each_batch_once_witness:
  "\<exists>c. (colocated_step demo_codecs)\<^sup>*\<^sup>* demo_start c \<and> ms_commanded (cs_master c) = [demo_train_batch] \<and>
     (\<forall>r \<in> set (cs_runtime c # map snd (cs_followers c)). rt_trained r = [demo_train_batch] \<and> rt_version r = 1)"
proof -
  obtain c where c: "colocated_turn demo_codecs demo_turn demo_start = Some (Ok c)" "ms_commanded (cs_master c) = [demo_train_batch]"
    using demo_turn_runs by blast
  have "\<not> cs_stopped demo_start" by (simp add: demo_start_def colocated_init_def)
  then have "colocated_step demo_codecs demo_start c" by (rule colocated_step.turn[OF _ demo_draws_ok c(1)])
  then have reach: "(colocated_step demo_codecs)\<^sup>*\<^sup>* demo_start c" by (rule r_into_rtranclp)
  have tr: "trainable demo_train_batch" by (simp add: trainable_def demo_train_samples demo_rollout_def)
  note coordinator_trains_each_batch_once[OF demo_init reach[unfolded demo_start_def]]
  then have "\<forall>r \<in> set (cs_runtime c # map snd (cs_followers c)). rt_trained r = [demo_train_batch] \<and> rt_version r = 1"
    using c(2) tr by simp
  then show ?thesis using reach c(2) by blast
qed

text \<open>The state after an update, with a batch held back, while each turn finds a fresh request: it infers, then trains.\<close>

definition busy_turn :: TurnInput where
  "busy_turn = demo_turn\<lparr> ti_others := \<lambda>k s. if k = 0 then snd (submit 0 \<lparr> ver_token_ids = [[1, 2], [3]] \<rparr> s) else s,
     ti_values := \<lambda>_. Ok [[1, 2], [3]] \<rparr>"

definition busy_start :: Colocated where
  "busy_start = demo_start\<lparr> cs_master := demo_prepared\<lparr> ms_last_operation := Some TrainOp \<rparr> \<rparr>"

definition taken_service :: ValueRequestService where
  "taken_service = snd (projr (take_batch (\<lambda>k. 0) False demo_service_1))"

definition answered_service :: ValueRequestService where
  "answered_service = projr (complete demo_batch [[1, 2], [3]] 0 taken_service)"

definition busy_again :: ValueRequestService where
  "busy_again = snd (submit 0 \<lparr> ver_token_ids = [[1, 2], [3]] \<rparr> answered_service)"

lemmas busy_services = demo_service_eval has_queued_def complete_def response_plan_def complete_one_def release_def Let_def
  taken_service_def answered_service_def busy_again_def

lemma busy_service:
  "has_queued 0 demo_service_1 = Ok (True, demo_service_1)"
  "take_batch (\<lambda>k. 0) False demo_service_1 = Ok (Taken (Some demo_batch), taken_service)"
  "complete demo_batch [[1, 2], [3]] 0 taken_service = Ok answered_service"
  "has_queued 0 busy_again = Ok (True, busy_again)"
  by (simp_all add: busy_services)

definition busy_middle :: Colocated where
  "busy_middle = busy_start\<lparr> cs_master := demo_prepared\<lparr> ms_next_command_id := 1, ms_service := answered_service, ms_active_request := None,
       ms_last_operation := Some InferOp \<rparr>, cs_followers := [(1, ValueTrainerRuntime_init 8 2 1 True (Some 1) (Some None) None (0, 0))],
       cs_stopped := False \<rparr>"

lemma busy_fields:
  "ti_run_done busy_turn = False" "ti_now busy_turn = 0" "ti_others busy_turn 0 demo_service_0 = demo_service_1"
  "ti_others busy_turn 0 answered_service = busy_again" "k \<noteq> 0 \<Longrightarrow> ti_others busy_turn k s = s" "ti_clock busy_turn = (\<lambda>k. 0)"
  "ti_wakes busy_turn = []" "ti_values busy_turn ids = Ok [[1, 2], [3]]" "rt_version (cs_runtime demo_start) = 0"
  "ms_service demo_prepared = demo_service_0" "ms_pending demo_prepared = Some (demo_train_batch, ValueReplayBuffer_snapshot demo_b2)"
  "ms_serve_only demo_prepared = False" "ms_next_command_id demo_prepared = 0" "max_steps_reached (cs_runtime demo_start) = False"
  "cs_followers demo_start = [(0, ValueTrainerRuntime_init 8 2 1 True (Some 1) (Some None) None (0, 0))]"
  by (simp_all add: busy_turn_def demo_turn_def demo_prepared_def demo_master demo_service_1_def busy_again_def demo_start_def colocated_init_def
      max_steps_reached_def ValueTrainerRuntime_init_def)

lemma busy_infers:
  "colocated_turn demo_codecs busy_turn busy_start = Some (Ok busy_middle) \<and>
   turn_command demo_codecs busy_turn busy_start = Some (InferCmd [[1, 2], [3]]) \<and> requested busy_turn busy_start"
proof -
  have f: "cs_runtime busy_start = cs_runtime demo_start" "cs_master busy_start = demo_prepared\<lparr> ms_last_operation := Some TrainOp \<rparr>"
    "cs_followers busy_start = cs_followers demo_start" by (simp_all add: busy_start_def)
  have dec: "decide demo_codecs busy_turn (cs_runtime demo_start) (demo_prepared\<lparr> ms_last_operation := Some TrainOp \<rparr>) =
      Some (Ok (Some (InferCmd [[1, 2], [3]]),
        demo_prepared\<lparr> ms_last_operation := Some TrainOp, ms_service := taken_service, ms_active_request := Some demo_batch \<rparr>))"
    by (simp add: decide_def enter_serving_def reserve_def busy_fields busy_service choose_next_operation_def infer_command_def demo_batch_def[symmetric])
      (simp add: demo_batch_def)
  have "colocated_turn demo_codecs busy_turn busy_start = Some (Ok busy_middle)"
    by (simp add: colocated_turn_def f dec busy_fields busy_service follower_execute_def master_execute_def rank_execute_def raise_if_def
        busy_middle_def busy_start_def)
  moreover have "requested busy_turn busy_start" by (simp add: requested_def f busy_fields busy_service)
  ultimately show ?thesis by (simp add: turn_command_def f dec)
qed

lemma busy_trains:
  "\<exists>c. colocated_turn demo_codecs busy_turn busy_middle = Some (Ok c) \<and> requested busy_turn busy_middle \<and>
     turn_command demo_codecs busy_turn busy_middle = Some (TrainCmd demo_train_batch)"
proof -
  obtain r0 where r0: "rank_execute (TrainCmd demo_train_batch) (cs_runtime demo_start) = Ok r0"
    using demo_train[of 0] by (auto simp: demo_start_def colocated_init_def)
  obtain r1 where r1: "rank_execute (TrainCmd demo_train_batch) (ValueTrainerRuntime_init 8 2 1 True (Some 1) (Some None) None (0, 0)) = Ok r1"
    using demo_train[of 1] by auto
  let ?m = "demo_prepared\<lparr> ms_next_command_id := 1, ms_service := answered_service, ms_active_request := None, ms_last_operation := Some InferOp \<rparr>"
  have f: "cs_runtime busy_middle = cs_runtime demo_start" "cs_master busy_middle = ?m"
    "cs_followers busy_middle = [(1, ValueTrainerRuntime_init 8 2 1 True (Some 1) (Some None) None (0, 0))]"
    by (simp_all add: busy_middle_def busy_start_def)
  have dec: "\<exists>m. decide demo_codecs busy_turn (cs_runtime demo_start) ?m = Some (Ok (Some (TrainCmd demo_train_batch), m)) \<and> ms_next_command_id m = 1"
    by (simp add: decide_def enter_serving_def reserve_def busy_fields busy_service choose_next_operation_def train_command_def)
  then obtain m where dec: "decide demo_codecs busy_turn (cs_runtime demo_start) ?m = Some (Ok (Some (TrainCmd demo_train_batch), m))"
    "ms_next_command_id m = 1" by blast
  have "\<exists>c. colocated_turn demo_codecs busy_turn busy_middle = Some (Ok c)"
    by (simp add: colocated_turn_def f dec r0 r1[unfolded One_nat_def] follower_execute_def master_execute_def raise_if_def)
  moreover have "requested busy_turn busy_middle" by (simp add: requested_def f busy_fields busy_service)
  ultimately show ?thesis by (simp add: turn_command_def f dec)
qed

theorem coordinator_alternates_witness:
  "\<exists>c1 c2. colocated_turn demo_codecs busy_turn busy_start = Some (Ok c1) \<and> colocated_turn demo_codecs busy_turn c1 = Some (Ok c2) \<and>
     training_ready busy_start \<and> held_back busy_start = Some demo_train_batch \<and> requested busy_turn busy_start \<and> requested busy_turn c1 \<and>
     turn_command demo_codecs busy_turn busy_start = Some (InferCmd [[1, 2], [3]]) \<and>
     Some (TrainCmd demo_train_batch) \<in> {turn_command demo_codecs busy_turn busy_start, turn_command demo_codecs busy_turn c1}"
proof -
  obtain c2 where c2: "colocated_turn demo_codecs busy_turn busy_middle = Some (Ok c2)" "requested busy_turn busy_middle"
    "turn_command demo_codecs busy_turn busy_middle = Some (TrainCmd demo_train_batch)" using busy_trains by blast
  have st: "training_ready busy_start" "held_back busy_start = Some demo_train_batch"
    by (simp_all add: training_ready_def held_back_def busy_start_def busy_fields)
  have nd: "\<not> ti_run_done busy_turn" by (simp add: busy_fields)
  have "Some (TrainCmd demo_train_batch) \<in> {turn_command demo_codecs busy_turn busy_start, turn_command demo_codecs busy_turn busy_middle}"
    using coordinator_alternates[OF conjunct1[OF busy_infers] c2(1) nd nd] st busy_infers c2(3) by auto
  then show ?thesis using busy_infers c2(1,2) st by blast
qed

end
