(* ===== verification/Spec2Isabelle.thy ===== *)
theory Spec2Isabelle
  imports Value_Link Value_Replay Value_Inference Value_Credit Value_Client Value_Weights RL_Batch RL_Packer Train_Sink Dispatch_Runs Policy_Loss Value_Coordinator
begin

text \<open>
  \<^bold>\<open>Prime Values: a verification development\<close>

  Prime Values is an asynchronous reinforcement-learning system with a learned critic. Paths below are relative to \<^verbatim>\<open>src/src/prime_rl/\<close>,
  configuration classes to \<^verbatim>\<open>src/packages/prime-rl-configs/src/prime_rl/configs/\<close>.

  \<^bold>\<open>The program and its parts.\<close> The orchestrator draws examples (\<^verbatim>\<open>orchestrator/train_source.py\<close>, \<^verbatim>\<open>eval_source.py\<close>) and its dispatcher runs
  them as groups of rollouts against inference engines (\<^verbatim>\<open>dispatcher.py\<close>), dropping groups that a weight update made stale. A finished
  rollout is a trace; it is admitted and cut to the context limit (\<^verbatim>\<open>episodes.py\<close>, \<^verbatim>\<open>provenance.py\<close>), its branches become training samples
  (\<^verbatim>\<open>trajectories.py\<close>), and the train sink (\<^verbatim>\<open>train_sink.py\<close>) collects its group, has it scored (\<^verbatim>\<open>algo/\<close>), filters it (\<^verbatim>\<open>filters.py\<close>) and ships
  batches to the policy trainer. Credit comes from group baselines, from TETHER's regression, or from the critic: a client
  (\<^verbatim>\<open>value/client.py\<close>) asks evaluators (\<^verbatim>\<open>value/service.py\<close>, \<^verbatim>\<open>value/inference.py\<close>, \<^verbatim>\<open>value/evaluator.py\<close>) for values, which generalised
  advantage estimation (\<^verbatim>\<open>value/credit.py\<close>) turns into advantages. The critic is trained on rollouts published over a socket
  (\<^verbatim>\<open>value/transport.py\<close>) into a replay buffer (\<^verbatim>\<open>value/replay.py\<close>), packed (\<^verbatim>\<open>value/batch.py\<close>) and fitted (\<^verbatim>\<open>value/math.py\<close>); its weights are
  broadcast back to the evaluators (\<^verbatim>\<open>value/weights.py\<close>). The policy trainer serves several runs at once (\<^verbatim>\<open>trainer/runs.py\<close>), selects and
  packs their samples (\<^verbatim>\<open>trainer/rl/packer.py\<close>, \<^verbatim>\<open>trainer/batch.py\<close>), balances the work over ranks (\<^verbatim>\<open>trainer/utils.py\<close>) and takes the loss
  (\<^verbatim>\<open>trainer/rl/loss.py\<close>, \<^verbatim>\<open>normalization.py\<close>).

  \<^bold>\<open>Conventions.\<close> Python's exceptions are values of \<^verbatim>\<open>py_exn\<close>; a function that may raise returns \<^verbatim>\<open>'a result\<close> (\<^verbatim>\<open>Ok\<close> or \<^verbatim>\<open>Raise\<close>), so each
  \<open>raise\<close>, failed \<open>assert\<close> and lookup is a branch (\<open>Prelude\<close>). Objects are records that operations return updated; dictionaries are
  insertion-ordered association lists (\<open>Ordered_Dict\<close>). Python integers are \<^verbatim>\<open>int\<close> or \<^verbatim>\<open>nat\<close>; the int64 of numpy are 64-bit words where
  wrap-around could occur (\<open>Provenance\<close>, \<open>Balanced_Partition\<close>). Floats are exact reals, and metrics over them are exact too; where the code tests for
  non-finite values the model distinguishes them. Randomness, clocks, sockets, codecs, tokenizers, models and services are arguments of the
  definitions; what the code relies on is a named hypothesis, and each property with a hypothesis is applied to a concrete input by the theorem
  of the same name with the suffix \<^verbatim>\<open>_witness\<close>.

  \<^bold>\<open>Theories.\<close>
  \<^item> \<open>Prelude\<close>, \<open>Ordered_Dict\<close>, \<open>Drop_Oldest\<close>: the error monad and lists; dictionaries and the locale \<open>ordered_dict\<close>; the locale
    \<open>drop_oldest\<close> of bounded containers that replace their oldest element, interpreted on the replay buffer and on the publisher's queue.
  \<^item> \<open>Value_Types\<close>, \<open>Value_Replay\<close>, \<open>Value_Transport\<close>, \<open>Value_Link\<close>: wire structs with the configuration validators; the replay buffer with its
    invariant, selection cap and refill; the queue, the publisher with its responder as a state machine and the receiver; both ends with the
    socket as one transition system, where delivery is an uncorrupted subsequence in order and no receive raises.
  \<^item> \<open>Value_Batch\<close>, \<open>Value_Math\<close>, \<open>Value_Inference\<close>: first-fit-decreasing packing that preserves tokens and bounds; alignment, heads and
    losses; values in request order whatever the packing; the served model is always one complete update.
  \<^item> \<open>Value_Service\<close>, \<open>Value_Client\<close>, \<open>Value_Weights\<close>: the bounded request queue under all interleavings of its callers and its worker; the client's
    accounting; the framing of the weight stream under any fragmentation.
  \<^item> \<open>Value_Runtime\<close>, \<open>Value_Coordinator\<close>: the trainer runtime (\<^verbatim>\<open>value/trainer.py\<close>: preparation, step, version, step limit, checkpoints) and the
    evaluator that lives in the trainer (\<^verbatim>\<open>value/colocated.py\<close>, \<^verbatim>\<open>value/coordinator.py\<close>, \<^verbatim>\<open>value/update_schedule.py\<close>): one turn of the loop is
    \<open>colocated_turn\<close>, the choice of the master (\<open>decide\<close>) followed by its command on all ranks. Each drawn batch is commanded once and trained by
    every rank alike, and of two consecutive turns one serves each side that waits.
  \<^item> \<open>Provenance\<close>, \<open>Episodes\<close>, \<open>Trajectories\<close>, \<open>Value_Credit\<close>: policy-version spans, labels and their byte carrier; admission and projection of traces;
    the samples of a forked trace, whose masks train each sampled token once; advantage estimation against the textbook recursion and its stitching.
  \<^item> \<open>Rollouts\<close>, \<open>Tether_Fit\<close>, \<open>Tether_Scoring\<close>, \<open>Algorithms\<close>, \<open>Train_Sink\<close>: credit, routing of tokens to loss components and the filters; the ridge
    regression with its controllers, whose streaming form refines an average of one fit per window; scoring; the two scoring phases; the sink over
    an explicit store of rollouts, whose batches are the surviving samples of disjoint cohorts of arrivals.
  \<^item> \<open>Sources\<close>, \<open>Dispatcher\<close>, \<open>Dispatch_Loop\<close>, \<open>Dispatch_Runs\<close>: both example sources; every operation of the dispatcher, cut at its awaits; the
    system \<open>disp_step\<close> of the dispatch loop, the watcher, the orchestrator and the consumer with the ledger of each group, by which every rollout is
    delivered, queued, owed or given up exactly once; the bound on an undisturbed filling pass, the number of weight updates a rollout in flight outlives, and concrete runs.
  \<^item> \<open>RL_Batch\<close>, \<open>Balanced_Partition\<close>, \<open>RL_Runs\<close>, \<open>RL_Packer\<close>, \<open>Policy_Loss\<close>: preparation of microbatches that preserves the trained tokens on a
    uniform grid; Karmarkar-Karp with both swap refinements (the locale \<open>balancer\<close> is what work distribution needs of it); the run registry and its
    synchronisation; round-robin selection as the longest prefix of a stream, packing of several runs and the eviction of runs with invalid data; the loss components, whose normalised sum does not depend on packing.

  \<^bold>\<open>Loops.\<close> Loops that shrink a list are structural or have a measure with a termination proof. The swap refinement is a
  \<^verbatim>\<open>partial_function\<close>, and it is proved to return for every input of \<open>balanced_partition\<close>. The loops that wait for another party (the dispatch loop,
  the service worker, the responder) are step relations; that a filling pass ends is proved on the relation itself with a measure, at most
  \<open>10 * max_inflight + 5\<close> steps. \<open>wait_for_version\<close> has fuel, one unit per poll: it waits for replicas that need not ever catch up.

  \<^bold>\<open>What the model showed.\<close> A run index that passes to a new run between two synchronisations leaves the reset scaling factor on the
  followers (\<open>reused_index_keeps_reset_scaling\<close>), a run re-created under its id in between can stop a follower
  (\<open>recreated_run_stops_follower\<close>), and with a rate limiter \<open>is_idle\<close> can hold while the last evaluation rollout still waits to
  be launched (\<open>is_idle_overlooks_acquisition\<close>).

  \<^bold>\<open>Not modelled.\<close> GPU code (the models under \<^verbatim>\<open>trainer/models\<close>, optimisers, FSDP, context and expert parallelism, vLLM workers): floating-point tensor
  programs over third-party layers. Process start-up, logging, metric reporting, checkpoint and weight files, directory and socket set-up, HTTP servers:
  input and output without algorithmic state. The main loops of the orchestrator and of the dedicated trainers, which call the parts above in sequence
  and add these effects; the forward and backward passes, and the handler with which \<open>run_colocated\<close> fails its waiting requests before it re-raises.
  The batch transports of the policy trainer, which encode the payload types to files and sockets. Leave-one-out prompt text, image encoding and echo
  weights. Configuration declarations, except the validators of the value configuration.
\<close>

end
